(* ===== verification/Zryna_Prelude.thy ===== *)
theory Zryna_Prelude
  imports
    Main
    "HOL-Library.Word"
    "HOL-Library.Code_Target_Numeral"
    "HOL-Library.Char_ord"
    "HOL-Library.List_Lexorder"
    "HOL-Library.Product_Lexorder"
    "HOL-Library.Multiset"
begin

text \<open>
  Shared vocabulary of the development: the machine integers of the Rust sources, the
  \<open>?\<close> operator on results, checked arithmetic, the parts of \<open>str\<close> and of
  \<open>BTreeMap\<close> the components use, and two interfaces stated as locales.
  \<^item> \<open>ordered_map\<close> is what the components rely on of \<open>std::collections::BTreeMap\<close>;
    it is interpreted on the sorted association lists that stand for it here.
  \<^item> \<open>checked_run\<close> is the contract of every component that replays a list of events
    through a fallible step: a step invariant is an invariant of whole runs.
\<close>

named_theorems unat_simps \<open>rewrite checked machine arithmetic to natural numbers\<close>
named_theorems result_simps \<open>inversion of results built with the question-mark operator\<close>

section \<open>Machine integers\<close>

type_synonym u8 = "8 word"
type_synonym u16 = "16 word"
type_synonym u32 = "32 word"
type_synonym u64 = "64 word"
type_synonym usize = nat
type_synonym bytes = "u8 list"

definition checked_add :: "'a::len word \<Rightarrow> 'a word \<Rightarrow> 'a word option" where
  "checked_add a b = (if unat a + unat b < 2 ^ LENGTH('a) then Some (a + b) else None)"

definition checked_sub :: "'a::len word \<Rightarrow> 'a word \<Rightarrow> 'a word option" where
  "checked_sub a b = (if b \<le> a then Some (a - b) else None)"

definition checked_mul :: "'a::len word \<Rightarrow> 'a word \<Rightarrow> 'a word option" where
  "checked_mul a b = (if unat a * unat b < 2 ^ LENGTH('a) then Some (a * b) else None)"

text \<open>\<open>usize\<close> is 64 bits wide on every host the compiler supports.\<close>

definition usize_checked_add :: "usize \<Rightarrow> usize \<Rightarrow> usize option" where
  "usize_checked_add a b = (if a + b < 2 ^ 64 then Some (a + b) else None)"

definition u32_try_from :: "usize \<Rightarrow> u32 option" where
  "u32_try_from n = (if n < 2 ^ 32 then Some (of_nat n) else None)"

definition u32_from_bool :: "bool \<Rightarrow> u32" where
  "u32_from_bool b = (if b then 1 else 0)"

definition u64_from_bool :: "bool \<Rightarrow> u64" where
  "u64_from_bool b = (if b then 1 else 0)"

section \<open>Results\<close>

text \<open>\<open>Inl\<close> is \<open>Err\<close> and \<open>Inr\<close> is \<open>Ok\<close>; \<open>try_bind\<close> is the \<open>?\<close> operator followed by
  the rest of the function.\<close>

definition try_bind :: "'e + 'a \<Rightarrow> ('a \<Rightarrow> 'e + 'b) \<Rightarrow> 'e + 'b" where
  "try_bind r f = (case r of Inl e \<Rightarrow> Inl e | Inr x \<Rightarrow> f x)"

definition ok_or :: "'a option \<Rightarrow> 'e \<Rightarrow> 'e + 'a" where
  "ok_or x e = (case x of None \<Rightarrow> Inl e | Some y \<Rightarrow> Inr y)"

definition reject_if :: "bool \<Rightarrow> 'e \<Rightarrow> 'e + unit" where
  "reject_if b e = (if b then Inl e else Inr ())"

fun try_for_each :: "('a \<Rightarrow> 'e + unit) \<Rightarrow> 'a list \<Rightarrow> 'e + unit" where
  "try_for_each f [] = Inr ()"
| "try_for_each f (x # xs) = try_bind (f x) (\<lambda>_. try_for_each f xs)"

fun try_map :: "('a \<Rightarrow> 'e + 'b) \<Rightarrow> 'a list \<Rightarrow> 'e + 'b list" where
  "try_map f [] = Inr []"
| "try_map f (x # xs) =
     try_bind (f x) (\<lambda>y. try_bind (try_map f xs) (\<lambda>ys. Inr (y # ys)))"

section \<open>Strings\<close>

text \<open>Rust strings whose bytes matter (paths, names, identities) are byte lists; a
  \<open>char\<close> of HOL is one byte.\<close>

definition is_ascii :: "string \<Rightarrow> bool" where
  "is_ascii s = list_all (\<lambda>c. of_char c < (128 :: nat)) s"

definition byte_of :: "char \<Rightarrow> nat" where
  "byte_of c = of_char c"

definition bytes_of :: "string \<Rightarrow> bytes" where
  "bytes_of s = map (\<lambda>c. of_nat (byte_of c)) s"

definition is_ascii_uppercase :: "char \<Rightarrow> bool" where
  "is_ascii_uppercase c = (65 \<le> byte_of c \<and> byte_of c \<le> 90)"

definition is_ascii_lowercase :: "char \<Rightarrow> bool" where
  "is_ascii_lowercase c = (97 \<le> byte_of c \<and> byte_of c \<le> 122)"

definition is_ascii_digit :: "char \<Rightarrow> bool" where
  "is_ascii_digit c = (48 \<le> byte_of c \<and> byte_of c \<le> 57)"

definition is_ascii_control :: "char \<Rightarrow> bool" where
  "is_ascii_control c = (byte_of c < 32 \<or> byte_of c = 127)"

definition ascii_lower :: "char \<Rightarrow> char" where
  "ascii_lower c = (if is_ascii_uppercase c then char_of (byte_of c + 32) else c)"

definition to_ascii_lowercase :: "string \<Rightarrow> string" where
  "to_ascii_lowercase s = map ascii_lower s"

definition starts_with :: "string \<Rightarrow> string \<Rightarrow> bool" where
  "starts_with p s = (take (length p) s = p)"

definition ends_with :: "string \<Rightarrow> string \<Rightarrow> bool" where
  "ends_with p s = (length p \<le> length s \<and> drop (length s - length p) s = p)"

definition strip_prefix :: "string \<Rightarrow> string \<Rightarrow> string option" where
  "strip_prefix p s = (if starts_with p s then Some (drop (length p) s) else None)"

definition strip_suffix :: "string \<Rightarrow> string \<Rightarrow> string option" where
  "strip_suffix p s =
     (if ends_with p s then Some (take (length s - length p) s) else None)"

fun contains_str :: "string \<Rightarrow> string \<Rightarrow> bool" where
  "contains_str p [] = (p = [])"
| "contains_str p (c # s) = (starts_with p (c # s) \<or> contains_str p s)"

text \<open>\<open>str::split\<close> on one character: always at least one piece.\<close>

fun split_on :: "char \<Rightarrow> string \<Rightarrow> string list" where
  "split_on d [] = [[]]"
| "split_on d (c # s) =
     (if c = d then [] # split_on d s
      else (case split_on d s of [] \<Rightarrow> [[c]] | p # ps \<Rightarrow> (c # p) # ps))"

fun join_with :: "char \<Rightarrow> string list \<Rightarrow> string" where
  "join_with d [] = []"
| "join_with d [p] = p"
| "join_with d (p # q # ps) = p @ d # join_with d (q # ps)"

text \<open>Decimal rendering of a number, as \<open>format!\<close> prints it.\<close>

fun show_nat :: "nat \<Rightarrow> string" where
  "show_nat n =
     (if n < 10 then [char_of (48 + n)] else show_nat (n div 10) @ [char_of (48 + n mod 10)])"

declare show_nat.simps [simp del]

section \<open>Slices\<close>

text \<open>\<open>slice::get\<close>.\<close>

definition get_at :: "'a list \<Rightarrow> usize \<Rightarrow> 'a option" where
  "get_at xs i = (if i < length xs then Some (xs ! i) else None)"

text \<open>\<open>slice::windows(2)\<close>.\<close>

definition windows2 :: "'a list \<Rightarrow> ('a \<times> 'a) list" where
  "windows2 xs = zip xs (tl xs)"

section \<open>Ordered maps\<close>

fun bt_insert :: "'k::linorder \<Rightarrow> 'v \<Rightarrow> ('k \<times> 'v) list \<Rightarrow> ('k \<times> 'v) list" where
  "bt_insert k v [] = [(k, v)]"
| "bt_insert k v ((k', v') # m) =
     (if k < k' then (k, v) # (k', v') # m
      else if k = k' then (k, v) # m
      else (k', v') # bt_insert k v m)"

fun bt_remove :: "'k::linorder \<Rightarrow> ('k \<times> 'v) list \<Rightarrow> ('k \<times> 'v) list" where
  "bt_remove k [] = []"
| "bt_remove k ((k', v') # m) = (if k = k' then m else (k', v') # bt_remove k m)"

abbreviation bt_get :: "('k \<times> 'v) list \<Rightarrow> 'k \<Rightarrow> 'v option" where
  "bt_get m k \<equiv> map_of m k"

definition bt_wf :: "('k::linorder \<times> 'v) list \<Rightarrow> bool" where
  "bt_wf m = sorted_wrt (<) (map fst m)"

section \<open>Lemmas\<close>

lemma checked_add_Some [unat_simps]:
  "checked_add a b = Some c \<Longrightarrow> unat c = unat a + unat b"
  by (auto simp: checked_add_def unat_add_lem [symmetric] split: if_splits)

lemma checked_add_eq_Some_iff:
  "checked_add a b = Some (c :: 'a::len word) \<longleftrightarrow>
     unat c = unat a + unat b"
proof
  assume "unat c = unat a + unat b"
  moreover from this have "unat a + unat b < 2 ^ LENGTH('a)"
    by (metis unsigned_less)
  ultimately show "checked_add a b = Some c"
    by (simp add: checked_add_def word_unat_eq_iff unat_add_lem [symmetric])
qed (rule checked_add_Some)

lemma checked_sub_Some [unat_simps]:
  "checked_sub a b = Some c \<Longrightarrow> unat c = unat a - unat b \<and> unat b \<le> unat a"
  by (auto simp: checked_sub_def unat_sub word_le_nat_alt split: if_splits)

lemma checked_mul_Some [unat_simps]:
  "checked_mul a b = Some c \<Longrightarrow> unat c = unat a * unat b"
  by (auto simp: checked_mul_def unat_mult_lem [symmetric] split: if_splits)

lemma u32_try_from_Some [unat_simps]:
  "u32_try_from n = Some w \<Longrightarrow> unat w = n \<and> n < 2 ^ 32"
  by (auto simp: u32_try_from_def unat_of_nat split: if_splits)

lemma try_bind_Inr_iff [result_simps]:
  "try_bind r f = Inr y \<longleftrightarrow> (\<exists>x. r = Inr x \<and> f x = Inr y)"
  by (auto simp: try_bind_def split: sum.splits)

lemma try_bind_Inl_iff:
  "try_bind r f = Inl e \<longleftrightarrow> r = Inl e \<or> (\<exists>x. r = Inr x \<and> f x = Inl e)"
  by (auto simp: try_bind_def split: sum.splits)

lemma try_bind_simps [simp]:
  "try_bind (Inl e) f = Inl e" "try_bind (Inr x) f = f x"
  by (simp_all add: try_bind_def)

lemma ok_or_Inr_iff [result_simps]: "ok_or x e = Inr y \<longleftrightarrow> x = Some y"
  by (auto simp: ok_or_def split: option.splits)

lemma ok_or_simps [simp]: "ok_or None e = Inl e" "ok_or (Some y) e = Inr y"
  by (simp_all add: ok_or_def)

lemma reject_if_Inr_iff [result_simps]: "reject_if b e = Inr u \<longleftrightarrow> \<not> b"
  by (simp add: reject_if_def)

lemma reject_if_simps [simp]: "reject_if True e = Inl e" "reject_if False e = Inr ()"
  by (simp_all add: reject_if_def)

lemma try_for_each_Inr_iff [result_simps]:
  "try_for_each f xs = Inr u \<longleftrightarrow> (\<forall>x\<in>set xs. f x = Inr ())"
  by (induction xs) (auto simp: try_bind_Inr_iff)

lemma try_map_Inr_iff [result_simps]:
  "try_map f xs = Inr ys \<longleftrightarrow> list_all2 (\<lambda>x y. f x = Inr y) xs ys"
  by (induction xs arbitrary: ys) (auto simp: try_bind_Inr_iff list_all2_Cons1)

lemma get_at_Some_iff [result_simps]:
  "get_at xs i = Some x \<longleftrightarrow> i < length xs \<and> xs ! i = x"
  by (auto simp: get_at_def)

lemma get_at_None_iff: "get_at xs i = None \<longleftrightarrow> length xs \<le> i"
  by (auto simp: get_at_def)

subsection \<open>Splitting and joining\<close>

lemma split_on_nonempty [simp]: "split_on d s \<noteq> []"
  by (induction s) (auto split: list.splits)

lemma join_split [simp]: "join_with d (split_on d s) = s"
proof (induction s)
  case (Cons c s)
  obtain p ps where "split_on d s = p # ps"
    using split_on_nonempty [of d s] by (cases "split_on d s") auto
  with Cons.IH show ?case
    by (cases ps) auto
qed simp

lemma split_on_no_sep: "p \<in> set (split_on d s) \<Longrightarrow> d \<notin> set p"
proof (induction s arbitrary: p)
  case (Cons c s)
  obtain q ps where "split_on d s = q # ps"
    using split_on_nonempty [of d s] by (cases "split_on d s") auto
  with Cons show ?case
    by (auto split: if_splits)
qed simp

lemma split_on_subset: "p \<in> set (split_on d s) \<Longrightarrow> set p \<subseteq> set s"
proof (induction s arbitrary: p)
  case (Cons c s)
  obtain q ps where "split_on d s = q # ps"
    using split_on_nonempty [of d s] by (cases "split_on d s") auto
  with Cons show ?case
    by (fastforce split: if_splits)
qed simp

lemma length_split_on_le: "p \<in> set (split_on d s) \<Longrightarrow> length p \<le> length s"
proof (induction s arbitrary: p)
  case (Cons c s)
  obtain q ps where "split_on d s = q # ps"
    using split_on_nonempty [of d s] by (cases "split_on d s") auto
  with Cons show ?case
    by (fastforce split: if_splits intro: le_SucI)
qed simp

lemma split_on_append_sep:
  "d \<notin> set p \<Longrightarrow> split_on d (p @ d # s) = p # split_on d s"
  by (induction p) auto

lemma split_on_atom: "d \<notin> set p \<Longrightarrow> split_on d p = [p]"
  by (induction p) auto

lemma split_join:
  "ps \<noteq> [] \<Longrightarrow> (\<forall>p\<in>set ps. d \<notin> set p) \<Longrightarrow> split_on d (join_with d ps) = ps"
  by (induction d ps rule: join_with.induct) (auto simp: split_on_append_sep split_on_atom)

lemma split_on_map:
  "(\<And>c. f c = d \<longleftrightarrow> c = d) \<Longrightarrow> split_on d (map f s) = map (map f) (split_on d s)"
proof (induction s)
  case (Cons c s)
  obtain q ps where "split_on d s = q # ps"
    using split_on_nonempty [of d s] by (cases "split_on d s") auto
  with Cons show ?case by simp
qed simp

subsection \<open>Bytes of characters\<close>

lemma byte_of_lt: "byte_of c < 256"
  using of_char_of [of "byte_of c"] by (simp add: byte_of_def)

lemma byte_of_char_of: "n < 256 \<Longrightarrow> byte_of (char_of n) = n"
  by (simp add: byte_of_def)

lemma byte_of_inject: "byte_of c = byte_of d \<longleftrightarrow> c = d"
  by (simp add: byte_of_def)

subsection \<open>Adjacent pairs and sorted lists\<close>

lemma windows2_Cons_Cons [simp]: "windows2 (x # y # xs) = (x, y) # windows2 (y # xs)"
  by (simp add: windows2_def)

lemma windows2_short [simp]: "windows2 [] = []" "windows2 [x] = []"
  by (simp_all add: windows2_def)

lemma windows2_successively:
  "(\<forall>(x, y)\<in>set (windows2 xs). P x y) \<longleftrightarrow> successively P xs"
  by (induction xs rule: induct_list012) auto

lemma windows2_sorted:
  "transp P \<Longrightarrow> (\<forall>(x, y)\<in>set (windows2 xs). P x y) \<longleftrightarrow> sorted_wrt P xs"
  by (simp add: windows2_successively successively_conv_sorted_wrt)

lemma all_le_Suc: "(\<forall>k\<le>Suc n. Q k) \<longleftrightarrow> Q 0 \<and> (\<forall>k\<le>n. Q (Suc k))"
  by (metis Suc_le_mono le0 not0_implies_Suc)

lemma append_stop_inject:
  assumes "u @ x # s = v @ x # t" and "x \<notin> set u" and "x \<notin> set v"
  shows "u = v \<and> s = t"
  using assms by (induction u arbitrary: v) (case_tac v; auto)+

lemma sort_key_sorted: "sorted (map f xs) \<Longrightarrow> sort_key f xs = xs"
  by (rule properties_for_sort_key) auto

lemma list_all2_ex_right: "list_all2 P xs ys \<Longrightarrow> x \<in> set xs \<Longrightarrow> \<exists>y\<in>set ys. P x y"
  by (induction rule: list_all2_induct) auto

lemma list_all2_ex_left: "list_all2 P xs ys \<Longrightarrow> y \<in> set ys \<Longrightarrow> \<exists>x\<in>set xs. P x y"
  by (induction rule: list_all2_induct) auto

lemma takeWhile_shorter: "\<not> P x \<Longrightarrow> x \<in> set xs \<Longrightarrow> length (takeWhile P xs) < length xs"
  by (induction xs) auto

lemma sorted_wrt_less_distinct: "sorted_wrt (<) (xs :: 'a::linorder list) \<Longrightarrow> distinct xs"
  by (induction xs) auto

subsection \<open>The ordered-map interface\<close>

locale ordered_map =
  fixes empty :: "'m"
    and ins :: "'k::linorder \<Rightarrow> 'v \<Rightarrow> 'm \<Rightarrow> 'm"
    and del :: "'k \<Rightarrow> 'm \<Rightarrow> 'm"
    and get :: "'m \<Rightarrow> 'k \<Rightarrow> 'v option"
    and entries :: "'m \<Rightarrow> ('k \<times> 'v) list"
    and invar :: "'m \<Rightarrow> bool"
  assumes get_empty: "get empty k = None"
    and get_ins: "invar m \<Longrightarrow> get (ins k v m) = (get m)(k \<mapsto> v)"
    and get_del: "invar m \<Longrightarrow> get (del k m) = (get m)(k := None)"
    and invar_empty: "invar empty"
    and invar_ins: "invar m \<Longrightarrow> invar (ins k v m)"
    and invar_del: "invar m \<Longrightarrow> invar (del k m)"
    and entries_sorted: "invar m \<Longrightarrow> sorted_wrt (<) (map fst (entries m))"
    and entries_get: "invar m \<Longrightarrow> (k, v) \<in> set (entries m) \<longleftrightarrow> get m k = Some v"
begin

lemma keys_distinct: "invar m \<Longrightarrow> distinct (map fst (entries m))"
  by (rule sorted_wrt_less_distinct [OF entries_sorted])

lemma keys_dom: "invar m \<Longrightarrow> set (map fst (entries m)) = dom (get m)"
proof (intro equalityI subsetI)
  fix k assume "invar m" and "k \<in> set (map fst (entries m))"
  then show "k \<in> dom (get m)" by (auto simp: entries_get)
next
  fix k assume m: "invar m" and "k \<in> dom (get m)"
  then obtain v where "(k, v) \<in> set (entries m)" by (auto simp: entries_get)
  then show "k \<in> set (map fst (entries m))" by force
qed

lemma length_dom: "invar m \<Longrightarrow> length (entries m) = card (dom (get m))"
  by (metis keys_distinct keys_dom distinct_card length_map)

lemma length_ins_fresh:
  assumes "invar m" and "get m k = None"
  shows "length (entries (ins k v m)) = Suc (length (entries m))"
proof -
  have "finite (dom (get m))" using keys_dom [OF assms(1)] by (metis List.finite_set)
  moreover have "k \<notin> dom (get m)" using assms(2) by auto
  ultimately show ?thesis
    using assms by (simp add: length_dom invar_ins get_ins)
qed

lemma values_get:
  "invar m \<Longrightarrow> v \<in> set (map snd (entries m)) \<longleftrightarrow> (\<exists>k. get m k = Some v)"
  by (force simp: entries_get [symmetric])

end

lemma bt_insert_keys: "set (map fst (bt_insert k v m)) = insert k (set (map fst m))"
  by (induction k v m rule: bt_insert.induct) auto

lemma bt_remove_keys: "set (map fst (bt_remove k m)) \<subseteq> set (map fst m)"
  by (induction k m rule: bt_remove.induct) auto

lemma bt_wf_insert: "bt_wf m \<Longrightarrow> bt_wf (bt_insert k v m)"
proof (induction k v m rule: bt_insert.induct)
  case (2 k v k' v' m)
  then show ?case
    using bt_insert_keys [of k v m] by (fastforce simp: bt_wf_def)
qed (simp add: bt_wf_def)

lemma bt_wf_remove: "bt_wf m \<Longrightarrow> bt_wf (bt_remove k m)"
proof (induction k m rule: bt_remove.induct)
  case (2 k k' v' m)
  then show ?case
    using bt_remove_keys [of k m] by (fastforce simp: bt_wf_def)
qed (simp add: bt_wf_def)

lemma bt_get_insert [simp]: "bt_get (bt_insert k v m) = (bt_get m)(k \<mapsto> v)"
  by (induction k v m rule: bt_insert.induct) (auto simp: fun_eq_iff)

lemma bt_get_remove: "bt_wf m \<Longrightarrow> bt_get (bt_remove k m) = (bt_get m)(k := None)"
proof (induction k m rule: bt_remove.induct)
  case (2 k k' v' m)
  have "k \<notin> set (map fst m)" if "k = k'"
    using 2(2) that by (auto simp: bt_wf_def)
  then have "k = k' \<Longrightarrow> map_of m k = None" by (simp add: map_of_eq_None_iff)
  with 2 show ?case by (auto simp: bt_wf_def fun_eq_iff)
qed (simp add: bt_wf_def fun_eq_iff)

interpretation bt: ordered_map "[]" bt_insert bt_remove map_of "\<lambda>m. m" bt_wf
proof unfold_locales
  fix m :: "('a::linorder \<times> 'b) list" and k :: 'a and v :: 'b
  assume wf: "bt_wf m"
  show "(k, v) \<in> set m \<longleftrightarrow> map_of m k = Some v"
    using wf sorted_wrt_less_distinct by (metis bt_wf_def map_of_eq_Some_iff)
qed (auto simp: bt_get_insert bt_get_remove bt_wf_insert bt_wf_remove, auto simp: bt_wf_def)

subsection \<open>Replaying events\<close>

fun run_steps :: "('s \<Rightarrow> 'i \<Rightarrow> 'e + 's) \<Rightarrow> 's \<Rightarrow> 'i list \<Rightarrow> 'e + 's" where
  "run_steps step s [] = Inr s"
| "run_steps step s (x # xs) = try_bind (step s x) (\<lambda>t. run_steps step t xs)"

locale checked_run =
  fixes step :: "'s \<Rightarrow> 'i \<Rightarrow> 'e + 's"
    and inv :: "'s \<Rightarrow> bool"
  assumes step_inv: "inv s \<Longrightarrow> step s x = Inr t \<Longrightarrow> inv t"
begin

lemma run_inv: "inv s \<Longrightarrow> run_steps step s xs = Inr t \<Longrightarrow> inv t"
  by (induction xs arbitrary: s) (auto simp: try_bind_Inr_iff intro: step_inv)

lemma run_append:
  "run_steps step s (xs @ ys) = try_bind (run_steps step s xs) (\<lambda>t. run_steps step t ys)"
  by (induction xs arbitrary: s) (auto simp: try_bind_def split: sum.splits)

end

subsection \<open>Decimal numbers\<close>

lemma show_nat_digits: "list_all is_ascii_digit (show_nat n) \<and> show_nat n \<noteq> []"
proof (induction n rule: show_nat.induct)
  case (1 n)
  then show ?case
    by (auto simp: show_nat.simps [of n] is_ascii_digit_def byte_of_char_of)
qed

lemma length_show_nat_le: "n < 10 ^ k \<Longrightarrow> 0 < k \<Longrightarrow> length (show_nat n) \<le> k"
proof (induction k arbitrary: n)
  case (Suc k)
  show ?case
  proof (cases "n < 10")
    case True
    then show ?thesis by (subst show_nat.simps) simp
  next
    case False
    then have "0 < k" using Suc.prems by (cases k) auto
    then have "length (show_nat (n div 10)) \<le> k" using Suc.prems(1) by (intro Suc.IH) auto
    then show ?thesis using False by (subst show_nat.simps) simp
  qed
qed simp

end
