(* ===== verification/Source_Map.thy ===== *)
theory Source_Map
  imports Zryna_Prelude
begin

text \<open>
  The crate \<open>zryna-source\<close>: portable source paths, lexical import resolution, the
  immutable source map with its file identities, spans over UTF-8 text and their
  resolution to lines and columns.

  A Rust \<open>str\<close> holding source text is the list of its Unicode scalar values; its UTF-8
  bytes are \<open>utf8_bytes\<close>. Paths are byte strings. An indexing or slicing panic of the
  code is the value \<open>None\<close> of the functions that can panic; the process-wide counter of
  source-map identities is an argument and a result of \<open>build\<close>.
\<close>

section \<open>Text\<close>

type_synonym scalar = nat
type_synonym source_text = "scalar list"

definition is_scalar :: "scalar \<Rightarrow> bool" where
  "is_scalar c = (c < 0xD800 \<or> 0xE000 \<le> c \<and> c < 0x110000)"

definition wf_text :: "source_text \<Rightarrow> bool" where
  "wf_text t = list_all is_scalar t"

definition encode_utf8 :: "scalar \<Rightarrow> bytes" where
  "encode_utf8 c =
     (if c < 0x80 then [of_nat c]
      else if c < 0x800 then [of_nat (0xC0 + c div 64), of_nat (0x80 + c mod 64)]
      else if c < 0x10000 then
        [of_nat (0xE0 + c div 4096), of_nat (0x80 + c div 64 mod 64), of_nat (0x80 + c mod 64)]
      else
        [of_nat (0xF0 + c div 262144), of_nat (0x80 + c div 4096 mod 64),
         of_nat (0x80 + c div 64 mod 64), of_nat (0x80 + c mod 64)])"

definition len_utf8 :: "scalar \<Rightarrow> usize" where
  "len_utf8 c = (if c < 0x80 then 1 else if c < 0x800 then 2 else if c < 0x10000 then 3 else 4)"

definition len_utf16 :: "scalar \<Rightarrow> usize" where
  "len_utf16 c = (if c < 0x10000 then 1 else 2)"

definition utf8_bytes :: "source_text \<Rightarrow> bytes" where
  "utf8_bytes t = concat (map encode_utf8 t)"

definition str_len :: "source_text \<Rightarrow> usize" where
  "str_len t = length (utf8_bytes t)"

definition utf16_len :: "source_text \<Rightarrow> usize" where
  "utf16_len t = sum_list (map len_utf16 t)"

text \<open>\<open>str::is_char_boundary\<close>, on the bytes as the standard library defines it.\<close>

definition is_char_boundary :: "source_text \<Rightarrow> usize \<Rightarrow> bool" where
  "is_char_boundary t i =
     (let b = utf8_bytes t
      in if i = 0 then True
         else if length b \<le> i then i = length b
         else b ! i < 0x80 \<or> 0xC0 \<le> b ! i)"

text \<open>\<open>&text[..n]\<close> and \<open>&text[n..]\<close>: \<open>None\<close> is the panic on an offset inside a character.\<close>

fun take_bytes :: "usize \<Rightarrow> source_text \<Rightarrow> source_text option" where
  "take_bytes n [] = (if n = 0 then Some [] else None)"
| "take_bytes n (c # t) =
     (if n = 0 then Some []
      else if len_utf8 c \<le> n then map_option (Cons c) (take_bytes (n - len_utf8 c) t)
      else None)"

fun drop_bytes :: "usize \<Rightarrow> source_text \<Rightarrow> source_text option" where
  "drop_bytes n [] = (if n = 0 then Some [] else None)"
| "drop_bytes n (c # t) =
     (if n = 0 then Some (c # t)
      else if len_utf8 c \<le> n then drop_bytes (n - len_utf8 c) t
      else None)"

definition str_slice :: "source_text \<Rightarrow> usize \<Rightarrow> usize \<Rightarrow> source_text option" where
  "str_slice t i j =
     (if i \<le> j then Option.bind (drop_bytes i t) (take_bytes (j - i)) else None)"

section \<open>Limits, identities and errors\<close>

definition MAX_SOURCE_FILES :: usize where "MAX_SOURCE_FILES = 4096"
definition MAX_SOURCE_FILE_BYTES :: usize where "MAX_SOURCE_FILE_BYTES = 2 * 1024 * 1024"
definition MAX_SOURCE_BYTES :: usize where "MAX_SOURCE_BYTES = 64 * 1024 * 1024"
definition MAX_SOURCE_PATH_BYTES :: usize where "MAX_SOURCE_PATH_BYTES = 1024"
definition MAX_SOURCE_PATH_COMPONENTS :: usize where "MAX_SOURCE_PATH_COMPONENTS = 32"

record file_id =
  source_map_id :: u64
  fid_index :: u32

record span =
  span_file :: file_id
  span_start :: u32
  span_end :: u32

record untrusted_span =
  us_file :: u32
  us_start :: u32
  us_end :: u32

record source_file_input =
  in_path :: string
  in_text :: source_text

record source_file =
  sf_id :: file_id
  sf_path :: string
  sf_text :: source_text
  sf_line_starts :: "u32 list"

record source_map =
  sm_id :: u64
  sm_files :: "source_file list"
  sm_identities :: "(string \<times> file_id) list"

record resolved_position =
  byte_offset :: u32
  rp_line :: u32
  scalar_column :: u32
  utf16_column :: u32

record resolved_span =
  rs_source :: source_file
  rs_start :: resolved_position
  rs_end :: resolved_position

record source_error =
  se_code :: string
  se_path :: "string option"
  se_message :: string
  se_guidance :: string

definition source_error_new ::
    "string \<Rightarrow> string option \<Rightarrow> string \<Rightarrow> string \<Rightarrow> source_error" where
  "source_error_new code path message guidance =
     \<lparr>se_code = code, se_path = path, se_message = message, se_guidance = guidance\<rparr>"

definition show_u32 :: "u32 \<Rightarrow> string" where
  "show_u32 w = show_nat (unat w)"

definition unknown_file :: "file_id \<Rightarrow> source_error" where
  "unknown_file f = source_error_new ''ZRYNA-S1006'' None
     (''source file identifier '' @ show_u32 (fid_index f) @ '' is not present in this source map'')
     ''use a file identifier issued by the same source map''"

definition invalid_span_order :: "file_id \<Rightarrow> u32 \<Rightarrow> u32 \<Rightarrow> source_error" where
  "invalid_span_order f s e = source_error_new ''ZRYNA-S1007'' None
     (''source span '' @ show_u32 s @ ''..'' @ show_u32 e @ '' in file '' @
      show_u32 (fid_index f) @ '' starts after it ends'')
     ''ensure every source range is half-open and ordered''"

definition invalid_boundary :: "source_file \<Rightarrow> u32 \<Rightarrow> source_error" where
  "invalid_boundary src offset = source_error_new ''ZRYNA-S1008'' (Some (sf_path src))
     (''UTF-8 byte offset '' @ show_u32 offset @ '' is not a character boundary'')
     ''use exact UTF-8 byte boundaries from the authoritative source text''"

definition invalid_utf16 :: "source_file \<Rightarrow> u32 \<Rightarrow> source_error" where
  "invalid_utf16 src offset = source_error_new ''ZRYNA-S1009'' (Some (sf_path src))
     (''UTF-16 code-unit offset '' @ show_u32 offset @ '' is not an exact source boundary'')
     ''use an in-range UTF-16 offset that does not split a surrogate pair''"

section \<open>Portable paths\<close>

definition invalid_path :: "string \<Rightarrow> string \<Rightarrow> source_error" where
  "invalid_path path message = source_error_new ''ZRYNA-S1001'' (Some path) message
     ''use a portable ASCII workspace-relative path with '/' separators''"

definition reserved_device :: "string \<Rightarrow> bool" where
  "reserved_device component =
     (let stem = hd (split_on CHR ''.'' component);
          folded = to_ascii_lowercase stem;
          suffix = (case strip_prefix ''com'' folded of
              Some s \<Rightarrow> Some s | None \<Rightarrow> strip_prefix ''lpt'' folded);
          numbered_device = (case suffix of
              Some s \<Rightarrow> s \<in> {''1'', ''2'', ''3'', ''4'', ''5'', ''6'', ''7'', ''8'', ''9''}
            | None \<Rightarrow> False)
      in folded \<in> {''con'', ''prn'', ''aux'', ''nul''} \<or> numbered_device)"

definition windows_reserved :: "char \<Rightarrow> bool" where
  "windows_reserved c =
     (c \<in> {CHR ''<'', CHR ''>'', CHR '':'', CHR 0x22, CHR ''|'', CHR ''?'', CHR ''*''})"

definition validate_component :: "string \<Rightarrow> string \<Rightarrow> source_error + unit" where
  "validate_component path component =
     (if component = [] then
        Inl (invalid_path path ''source path contains an empty component'')
      else if component \<in> {''.'', ''..''} then
        Inl (invalid_path path ''source path contains a traversal component'')
      else if 255 < length component then
        Inl (invalid_path path ''source path component exceeds 255 bytes'')
      else if last component \<in> {CHR ''.'', CHR '' ''} then
        Inl (invalid_path path ''source path component ends with a dot or space'')
      else if list_ex is_ascii_control component then
        Inl (invalid_path path ''source path contains a control character'')
      else if list_ex windows_reserved component then
        Inl (invalid_path path ''source path contains a Windows-reserved character'')
      else if reserved_device component then
        Inl (invalid_path path ''source path contains a Windows-reserved device name'')
      else Inr ())"

definition validate_source_path :: "string \<Rightarrow> source_error + unit" where
  "validate_source_path path =
     (if path = [] then Inl (invalid_path path ''source path is empty'')
      else if MAX_SOURCE_PATH_BYTES < length path then
        Inl (invalid_path path
          (''source path contains '' @ show_nat (length path) @ '' bytes; the limit is '' @
           show_nat MAX_SOURCE_PATH_BYTES))
      else if \<not> is_ascii path then
        Inl (invalid_path path ''source path contains non-ASCII characters'')
      else if starts_with ''/'' path \<or> starts_with ''//'' path then
        Inl (invalid_path path ''source path is absolute'')
      else if CHR 0x5C \<in> set path then
        Inl (invalid_path path ''source path contains a backslash'')
      else
        let components = split_on CHR ''/'' path
        in if MAX_SOURCE_PATH_COMPONENTS < length components then
             Inl (invalid_path path
               (''source path contains '' @ show_nat (length components) @
                '' components; the limit is '' @ show_nat MAX_SOURCE_PATH_COMPONENTS))
           else try_for_each (validate_component path) components)"

definition normalized_new :: "string \<Rightarrow> source_error + string" where
  "normalized_new path = try_bind (validate_source_path path) (\<lambda>_. Inr path)"

definition portable_identity :: "string \<Rightarrow> string" where
  "portable_identity path = to_ascii_lowercase path"

section \<open>Import resolution\<close>

datatype invalid_module_specifier = InvalidModuleSpecifier

definition has_exact_zry_extension :: "string \<Rightarrow> bool" where
  "has_exact_zry_extension v = ends_with ''.zry'' v"

fun resolve_components :: "string list \<Rightarrow> string list \<Rightarrow> string list option" where
  "resolve_components components [] = Some components"
| "resolve_components components (c # cs) =
     (if c = ''.'' then resolve_components components cs
      else if c = ''..'' then
        (if components = [] then None else resolve_components (butlast components) cs)
      else if c = [] then None
      else resolve_components (components @ [c]) cs)"

definition resolve_explicit_zry_import ::
    "string \<Rightarrow> string \<Rightarrow> invalid_module_specifier + string" where
  "resolve_explicit_zry_import importer specifier =
     (if \<not> (starts_with ''./'' specifier \<or> starts_with ''../'' specifier)
         \<or> \<not> has_exact_zry_extension specifier
         \<or> \<not> is_ascii specifier
         \<or> list_ex (\<lambda>c. c \<in> {CHR 0x5C, CHR ''?'', CHR 0x23, CHR 0x00}) specifier
         \<or> contains_str ''://'' specifier
      then Inl InvalidModuleSpecifier
      else
        (case resolve_components (butlast (split_on CHR ''/'' importer))
                (split_on CHR ''/'' specifier) of
           None \<Rightarrow> Inl InvalidModuleSpecifier
         | Some components \<Rightarrow>
             let resolved = join_with CHR ''/'' components
             in if \<not> has_exact_zry_extension resolved then Inl InvalidModuleSpecifier
                else (case normalized_new resolved of
                        Inl _ \<Rightarrow> Inl InvalidModuleSpecifier
                      | Inr p \<Rightarrow> Inr p)))"

section \<open>Lines and positions\<close>

fun line_starts_loop :: "usize \<Rightarrow> bytes \<Rightarrow> u32 list \<Rightarrow> source_error + u32 list" where
  "line_starts_loop i [] starts = Inr starts"
| "line_starts_loop i (b # bs) starts =
     (let line_end = (if b = 13 \<and> get_at bs 0 = Some 10 then Some (i + 2)
                      else if b = 13 \<or> b = 10 then Some (i + 1)
                      else None)
      in case line_end of
           Some e \<Rightarrow>
             (case u32_try_from e of
                None \<Rightarrow> Inl (source_error_new ''ZRYNA-S1003'' None
                  ''source line offset exceeds the supported range''
                  ''reduce the source file before analysis'')
              | Some next \<Rightarrow> line_starts_loop e (drop (e - (i + 1)) bs) (starts @ [next]))
         | None \<Rightarrow> line_starts_loop (i + 1) bs starts)"

definition line_starts :: "source_text \<Rightarrow> source_error + u32 list" where
  "line_starts t = line_starts_loop 0 (utf8_bytes t) [0]"

definition u32_or_max :: "usize \<Rightarrow> u32" where
  "u32_or_max n = (case u32_try_from n of Some w \<Rightarrow> w | None \<Rightarrow> - 1)"

definition partition_point :: "('a \<Rightarrow> bool) \<Rightarrow> 'a list \<Rightarrow> usize" where
  "partition_point P xs = length (takeWhile P xs)"

definition resolve_position :: "source_file \<Rightarrow> u32 \<Rightarrow> resolved_position option" where
  "resolve_position src offset =
     (let line_index = partition_point (\<lambda>start. start \<le> offset) (sf_line_starts src) - 1
      in Option.bind (get_at (sf_line_starts src) line_index) (\<lambda>line_start.
         Option.bind (str_slice (sf_text src) (unat line_start) (unat offset)) (\<lambda>prefix.
         Some \<lparr>byte_offset = offset,
               rp_line = u32_or_max line_index,
               scalar_column = u32_or_max (length prefix),
               utf16_column = u32_or_max (utf16_len prefix)\<rparr>)))"

fun utf16_to_utf8_loop ::
    "source_file \<Rightarrow> u32 \<Rightarrow> u32 \<Rightarrow> usize \<Rightarrow> source_text \<Rightarrow> source_error + u32" where
  "utf16_to_utf8_loop src requested utf16_offset byte [] =
     (if requested = utf16_offset
      then ok_or (u32_try_from (str_len (sf_text src))) (invalid_utf16 src requested)
      else Inl (invalid_utf16 src requested))"
| "utf16_to_utf8_loop src requested utf16_offset byte (c # t) =
     (if requested = utf16_offset
      then ok_or (u32_try_from byte) (invalid_utf16 src requested)
      else
        let utf16_width = (if len_utf16 c = 1 then 1 else 2)
        in try_bind (ok_or (checked_add utf16_offset utf16_width) (invalid_utf16 src requested))
             (\<lambda>next. if requested < next then Inl (invalid_utf16 src requested)
                      else utf16_to_utf8_loop src requested next (byte + len_utf8 c) t))"

definition utf16_to_utf8 :: "source_file \<Rightarrow> u32 \<Rightarrow> source_error + u32" where
  "utf16_to_utf8 src requested = utf16_to_utf8_loop src requested 0 0 (sf_text src)"

section \<open>The source map\<close>

fun normalize_inputs :: "source_file_input list \<Rightarrow> source_error + (string \<times> source_text) list"
where
  "normalize_inputs [] = Inr []"
| "normalize_inputs (input # inputs) =
     try_bind (normalized_new (in_path input)) (\<lambda>path.
       if MAX_SOURCE_FILE_BYTES < str_len (in_text input) then
         Inl (source_error_new ''ZRYNA-S1003'' (Some path)
           (''source file contains '' @ show_nat (str_len (in_text input)) @
            '' UTF-8 bytes; the limit is '' @ show_nat MAX_SOURCE_FILE_BYTES)
           ''split or reduce the source file before analysis'')
       else try_bind (normalize_inputs inputs) (\<lambda>rest. Inr ((path, in_text input) # rest)))"

definition path_collision :: "string \<Rightarrow> source_file \<Rightarrow> source_error" where
  "path_collision path existing = source_error_new ''ZRYNA-S1004'' (Some path)
     (''source path collides with '' @ [CHR 0x27] @ sf_path existing @ [CHR 0x27] @
      '' under the portable path identity'')
     ''use source paths that remain unique when ASCII case is ignored''"

fun build_files ::
    "u64 \<Rightarrow> (string \<times> source_text) list \<Rightarrow> usize \<Rightarrow> (string \<times> file_id) list \<Rightarrow>
     source_file list \<Rightarrow> source_error + source_map"
where
  "build_files mid [] total_bytes identities files =
     Inr \<lparr>sm_id = mid, sm_files = files, sm_identities = identities\<rparr>"
| "build_files mid ((path, txt) # rest) total_bytes identities files =
     (let identity = portable_identity path
      in case Option.bind (bt_get identities identity) (\<lambda>i. get_at files (unat (fid_index i))) of
           Some existing \<Rightarrow> Inl (path_collision path existing)
         | None \<Rightarrow>
     try_bind (ok_or (usize_checked_add total_bytes (str_len txt))
        (source_error_new ''ZRYNA-S1005'' None
           ''aggregate source size overflowed the supported range''
           ''reduce the source set before analysis'')) (\<lambda>total.
     if MAX_SOURCE_BYTES < total then
       Inl (source_error_new ''ZRYNA-S1005'' None
         (''source map contains '' @ show_nat total @ '' UTF-8 bytes; the limit is '' @
          show_nat MAX_SOURCE_BYTES)
         ''reduce the source set before analysis'')
     else
     try_bind (ok_or (u32_try_from (length files))
        (source_error_new ''ZRYNA-S1002'' None
           ''source file count exceeds the supported identifier range''
           ''reduce the source set before analysis'')) (\<lambda>raw_id.
     let i = \<lparr>source_map_id = mid, fid_index = raw_id\<rparr>
     in try_bind (line_starts txt) (\<lambda>starts.
          build_files mid rest total (bt_insert identity i identities)
            (files @ [\<lparr>sf_id = i, sf_path = path, sf_text = txt, sf_line_starts = starts\<rparr>])))))"

text \<open>The second component is the new value of \<open>NEXT_SOURCE_MAP_ID\<close>.\<close>

definition build :: "u64 \<Rightarrow> source_file_input list \<Rightarrow> (source_error + source_map) \<times> u64" where
  "build next_id inputs =
     (if MAX_SOURCE_FILES < length inputs then
        (Inl (source_error_new ''ZRYNA-S1002'' None
           (''source map contains '' @ show_nat (length inputs) @ '' files; the limit is '' @
            show_nat MAX_SOURCE_FILES)
           ''reduce the source set before analysis''), next_id)
      else
        (case normalize_inputs (sort_key in_path inputs) of
           Inl e \<Rightarrow> (Inl e, next_id)
         | Inr normalized \<Rightarrow>
             (case checked_add next_id 1 of
                None \<Rightarrow> (Inl (source_error_new ''ZRYNA-S1010'' None
                    ''source-map identity space is exhausted''
                    ''restart the compiler process before creating another source map''), next_id)
              | Some bumped \<Rightarrow>
                  (build_files next_id (sort_key fst normalized) 0 [] [], bumped))))"

definition sm_len :: "source_map \<Rightarrow> usize" where
  "sm_len m = length (sm_files m)"

definition sm_file_id :: "source_map \<Rightarrow> string \<Rightarrow> file_id option" where
  "sm_file_id m path = bt_get (sm_identities m) (portable_identity path)"

definition sm_source :: "source_map \<Rightarrow> file_id \<Rightarrow> source_file option" where
  "sm_source m i =
     (if source_map_id i \<noteq> sm_id m then None else get_at (sm_files m) (unat (fid_index i)))"

definition verify_file_id :: "source_map \<Rightarrow> u32 \<Rightarrow> source_error + file_id" where
  "verify_file_id m raw =
     (let file = \<lparr>source_map_id = sm_id m, fid_index = raw\<rparr>
      in ok_or (map_option sf_id (sm_source m file)) (unknown_file file))"

definition validated_source :: "source_map \<Rightarrow> span \<Rightarrow> source_error + source_file" where
  "validated_source m sp =
     try_bind (ok_or (sm_source m (span_file sp)) (unknown_file (span_file sp))) (\<lambda>src.
     if span_end sp < span_start sp then
       Inl (invalid_span_order (span_file sp) (span_start sp) (span_end sp))
     else
     try_bind (ok_or (u32_try_from (str_len (sf_text src)))
        (source_error_new ''ZRYNA-S1007'' (Some (sf_path src))
           ''source length exceeds the supported offset range''
           ''reduce the source file before analysis'')) (\<lambda>source_len.
     if source_len < span_end sp then
       Inl (source_error_new ''ZRYNA-S1007'' (Some (sf_path src))
         (''source span '' @ show_u32 (span_start sp) @ ''..'' @ show_u32 (span_end sp) @
          '' exceeds file length '' @ show_u32 source_len)
         ''keep source ranges within the referenced file'')
     else if \<not> is_char_boundary (sf_text src) (unat (span_start sp)) then
       Inl (invalid_boundary src (span_start sp))
     else if \<not> is_char_boundary (sf_text src) (unat (span_end sp)) then
       Inl (invalid_boundary src (span_end sp))
     else Inr src))"

definition sm_span :: "source_map \<Rightarrow> file_id \<Rightarrow> u32 \<Rightarrow> u32 \<Rightarrow> source_error + span" where
  "sm_span m file s e =
     (let sp = \<lparr>span_file = file, span_start = s, span_end = e\<rparr>
      in try_bind (validated_source m sp) (\<lambda>_. Inr sp))"

definition verify_span :: "source_map \<Rightarrow> untrusted_span \<Rightarrow> source_error + span" where
  "verify_span m u =
     sm_span m \<lparr>source_map_id = sm_id m, fid_index = us_file u\<rparr> (us_start u) (us_end u)"

definition span_from_utf16 :: "source_map \<Rightarrow> file_id \<Rightarrow> u32 \<Rightarrow> u32 \<Rightarrow> source_error + span" where
  "span_from_utf16 m file s e =
     (if e < s then Inl (invalid_span_order file s e)
      else
        try_bind (ok_or (sm_source m file) (unknown_file file)) (\<lambda>src.
        try_bind (utf16_to_utf8 src s) (\<lambda>s'.
        try_bind (utf16_to_utf8 src e) (\<lambda>e'. sm_span m file s' e'))))"

text \<open>\<open>resolve\<close>: the outer \<open>None\<close> is a panic in \<open>resolve_position\<close>.\<close>

definition sm_resolve :: "source_map \<Rightarrow> span \<Rightarrow> (source_error + resolved_span) option" where
  "sm_resolve m sp =
     (case validated_source m sp of
        Inl e \<Rightarrow> Some (Inl e)
      | Inr src \<Rightarrow>
          Option.bind (resolve_position src (span_start sp)) (\<lambda>a.
          Option.bind (resolve_position src (span_end sp)) (\<lambda>b.
          Some (Inr \<lparr>rs_source = src, rs_start = a, rs_end = b\<rparr>))))"

section \<open>Display\<close>

definition is_control :: "scalar \<Rightarrow> bool" where
  "is_control c = (c < 0x20 \<or> 0x7F \<le> c \<and> c < 0xA0)"

definition hex_digit :: "nat \<Rightarrow> scalar" where
  "hex_digit d = (if d < 10 then 48 + d else 87 + d)"

fun show_hex :: "nat \<Rightarrow> source_text" where
  "show_hex n = (if n < 16 then [hex_digit n] else show_hex (n div 16) @ [hex_digit (n mod 16)])"

declare show_hex.simps [simp del]

definition escape_char :: "scalar \<Rightarrow> source_text" where
  "escape_char c =
     (if c = 10 then [0x5C, 0x6E]
      else if c = 13 then [0x5C, 0x72]
      else if c = 9 then [0x5C, 0x74]
      else if c = 0x5C then [0x5C, 0x5C]
      else if is_control c then [0x5C, 0x75, 0x7B] @ show_hex c @ [0x7D]
      else [c])"

definition escape_text :: "source_text \<Rightarrow> source_text" where
  "escape_text v = concat (map escape_char v)"

end
