(* ===== verification/Source_Facts.thy ===== *)
theory Source_Facts
  imports Source_Map
begin

text \<open>
  What the source map of \<open>crates/zryna-source/src/lib.rs\<close> promises: byte offsets are
  exactly the prefix lengths of the text, positions name the last line start and the scalar
  and UTF-16 distance to it, UTF-16 offsets translate exactly, a built map is well formed and
  does not depend on the order of its inputs, imports stay inside the source root, and escaped
  text has no control character.
\<close>

section \<open>Specification vocabulary\<close>

definition is_lead :: "u8 \<Rightarrow> bool" where
  "is_lead b = (b < 0x80 \<or> 0xC0 \<le> b)"

text \<open>A byte offset starts a line when it is 0, or follows a line feed, or follows a
  carriage return that no line feed follows.\<close>

definition is_line_start :: "bytes \<Rightarrow> nat \<Rightarrow> bool" where
  "is_line_start b e =
     (e = 0 \<or> e \<le> length b \<and>
        (b ! (e - 1) = 10 \<or> b ! (e - 1) = 13 \<and> \<not> (e < length b \<and> b ! e = 10)))"

fun line_ends :: "nat \<Rightarrow> bytes \<Rightarrow> nat list" where
  "line_ends i [] = []"
| "line_ends i (b # bs) =
     (if b = 13 \<and> get_at bs 0 = Some 10 then (i + 2) # line_ends (i + 2) (tl bs)
      else if b = 13 \<or> b = 10 then (i + 1) # line_ends (i + 1) bs
      else line_ends (i + 1) bs)"

definition wf_file :: "source_file \<Rightarrow> bool" where
  "wf_file f =
     (wf_text (sf_text f) \<and> str_len (sf_text f) \<le> MAX_SOURCE_FILE_BYTES \<and>
      line_starts (sf_text f) = Inr (sf_line_starts f) \<and>
      validate_source_path (sf_path f) = Inr ())"

text \<open>The position of a boundary offset: the line is the last line start at or before it,
  the columns count the scalars and UTF-16 units between that start and the offset.\<close>

definition position_of :: "source_text \<Rightarrow> nat \<Rightarrow> resolved_position \<Rightarrow> bool" where
  "position_of t off p =
     (\<exists>before line rest.
        t = before @ line @ rest \<and> str_len before + str_len line = off \<and>
        is_line_start (utf8_bytes t) (str_len before) \<and>
        (\<forall>n. is_line_start (utf8_bytes t) n \<and> n \<le> off \<longrightarrow> n \<le> str_len before) \<and>
        unat (byte_offset p) = off \<and>
        unat (rp_line p) = card {n. is_line_start (utf8_bytes t) n \<and> n < str_len before} \<and>
        unat (scalar_column p) = length line \<and>
        unat (utf16_column p) = utf16_len line)"

definition wf_source_map :: "source_map \<Rightarrow> bool" where
  "wf_source_map m =
     ((\<forall>i<length (sm_files m).
         wf_file (sm_files m ! i) \<and>
         sf_id (sm_files m ! i) = \<lparr>source_map_id = sm_id m, fid_index = of_nat i\<rparr>) \<and>
      length (sm_files m) \<le> MAX_SOURCE_FILES \<and>
      sorted_wrt (<) (map sf_path (sm_files m)) \<and>
      distinct (map (\<lambda>f. portable_identity (sf_path f)) (sm_files m)) \<and>
      sum_list (map (\<lambda>f. str_len (sf_text f)) (sm_files m)) \<le> MAX_SOURCE_BYTES \<and>
      (\<forall>k f. bt_get (sm_identities m) k = Some f \<longleftrightarrow>
         (\<exists>i<length (sm_files m). k = portable_identity (sf_path (sm_files m ! i)) \<and>
            f = sf_id (sm_files m ! i))))"

definition file_pair :: "source_file \<Rightarrow> string \<times> source_text" where
  "file_pair f = (sf_path f, sf_text f)"

text \<open>What the loop of \<open>build\<close> keeps of its accumulators.\<close>

definition build_acc :: "u64 \<Rightarrow> usize \<Rightarrow> (string \<times> file_id) list \<Rightarrow> source_file list \<Rightarrow> bool" where
  "build_acc mid sz ids files =
     ((\<forall>i<length files. line_starts (sf_text (files ! i)) = Inr (sf_line_starts (files ! i)) \<and>
         sf_id (files ! i) = \<lparr>source_map_id = mid, fid_index = of_nat i\<rparr>) \<and>
      bt_wf ids \<and> sz = sum_list (map (\<lambda>f. str_len (sf_text f)) files) \<and> sz \<le> MAX_SOURCE_BYTES \<and>
      distinct (map (\<lambda>f. portable_identity (sf_path f)) files) \<and> length files \<le> 2 ^ 32 \<and>
      (\<forall>k f. bt_get ids k = Some f \<longleftrightarrow>
         (\<exists>i<length files. k = portable_identity (sf_path (files ! i)) \<and> f = sf_id (files ! i))))"

definition input_pair :: "source_file_input \<Rightarrow> string \<times> source_text" where
  "input_pair i = (in_path i, in_text i)"

definition parent_steps :: "string list \<Rightarrow> nat" where
  "parent_steps cs = length (filter (\<lambda>c. c = ''..'') cs)"

definition name_steps :: "string list \<Rightarrow> nat" where
  "name_steps cs = length (filter (\<lambda>c. c \<noteq> ''..'' \<and> c \<noteq> ''.'') cs)"

definition never_escapes :: "nat \<Rightarrow> string list \<Rightarrow> bool" where
  "never_escapes d cs \<longleftrightarrow>
     (\<forall>k\<le>length cs. parent_steps (take k cs) \<le> d + name_steps (take k cs))"

subsection \<open>A sample map for the witnesses\<close>

definition sample_inputs :: "source_file_input list" where
  "sample_inputs =
     [\<lparr>in_path = ''lib/b.zry'', in_text = [120, 13, 10, 121]\<rparr>,
      \<lparr>in_path = ''A.zry'', in_text = [0xE9, 0x1F600, 10, 122]\<rparr>]"

definition sample_map :: source_map where
  "sample_map =
     \<lparr>sm_id = 1,
      sm_files =
        [\<lparr>sf_id = \<lparr>source_map_id = 1, fid_index = 0\<rparr>, sf_path = ''A.zry'',
          sf_text = [0xE9, 0x1F600, 10, 122], sf_line_starts = [0, 7]\<rparr>,
         \<lparr>sf_id = \<lparr>source_map_id = 1, fid_index = 1\<rparr>, sf_path = ''lib/b.zry'',
          sf_text = [120, 13, 10, 121], sf_line_starts = [0, 3]\<rparr>],
      sm_identities =
        [(''a.zry'', \<lparr>source_map_id = 1, fid_index = 0\<rparr>),
         (''lib/b.zry'', \<lparr>source_map_id = 1, fid_index = 1\<rparr>)]\<rparr>"

section \<open>Text lemmas\<close>

lemma length_encode_utf8 [simp]: "length (encode_utf8 c) = len_utf8 c"
  by (simp add: encode_utf8_def len_utf8_def)

lemma len_utf8_pos [simp]: "0 < len_utf8 c" "len_utf8 c \<noteq> 0"
  by (simp_all add: len_utf8_def)

lemma str_len_simps [simp]:
  "str_len [] = 0" "str_len (c # t) = len_utf8 c + str_len t"
  "str_len (s @ t) = str_len s + str_len t"
  by (simp_all add: str_len_def utf8_bytes_def)

lemma utf16_len_simps [simp]:
  "utf16_len [] = 0" "utf16_len (c # t) = len_utf16 c + utf16_len t"
  "utf16_len (s @ t) = utf16_len s + utf16_len t"
  by (simp_all add: utf16_len_def)

lemma str_len_eq_0 [simp]: "str_len t = 0 \<longleftrightarrow> t = []"
  by (cases t) auto

lemma str_len_pos [simp]: "0 < str_len t \<longleftrightarrow> t \<noteq> []"
  by (cases t) auto

lemma take_bytes_Some_iff:
  "take_bytes n t = Some p \<longleftrightarrow> (\<exists>s. t = p @ s \<and> str_len p = n)"
proof (induction n t arbitrary: p rule: take_bytes.induct)
  case (2 n c t)
  then show ?case
    by (cases p) (auto simp: Cons_eq_append_conv)
qed auto

lemma drop_bytes_Some_iff:
  "drop_bytes n t = Some s \<longleftrightarrow> (\<exists>p. t = p @ s \<and> str_len p = n)"
proof (induction n t arbitrary: s rule: drop_bytes.induct)
  case (2 n c t)
  show ?case
  proof (cases "n = 0")
    case False
    have "(\<exists>p. c # t = p @ s \<and> str_len p = n) \<longleftrightarrow>
        (\<exists>p. t = p @ s \<and> len_utf8 c + str_len p = n)"
      using False by (auto simp: Cons_eq_append_conv)
    then show ?thesis using 2 False by auto
  qed auto
qed auto

lemma str_slice_append:
  "str_slice (p @ q @ r) (str_len p) (str_len p + str_len q) = Some q"
proof -
  have "drop_bytes (str_len p) (p @ q @ r) = Some (q @ r)"
    by (auto simp: drop_bytes_Some_iff)
  moreover have "take_bytes (str_len q) (q @ r) = Some q"
    by (auto simp: take_bytes_Some_iff)
  ultimately show ?thesis by (simp add: str_slice_def)
qed

lemma unat_small_byte: "n < 256 \<Longrightarrow> unat (of_nat n :: u8) = n"
  by (simp add: unat_of_nat)

lemma is_lead_of_nat: "n < 256 \<Longrightarrow> is_lead (of_nat n) \<longleftrightarrow> n < 128 \<or> 192 \<le> n"
  by (simp add: is_lead_def word_less_nat_alt word_le_nat_alt unat_small_byte)

lemma encode_utf8_lead:
  assumes "is_scalar c" and "j < len_utf8 c"
  shows "is_lead (encode_utf8 c ! j) \<longleftrightarrow> j = 0"
proof -
  have c: "c < 0x110000" using assms(1) by (auto simp: is_scalar_def)
  then have "c div 262144 < 5" by simp
  have m: "x mod 64 < 64" for x :: nat by simp
  consider "c < 0x80" | "0x80 \<le> c" "c < 0x800" | "0x800 \<le> c" "c < 0x10000" | "0x10000 \<le> c"
    by linarith
  then show ?thesis
  proof cases
    case 1
    then show ?thesis using assms(2)
      by (simp add: encode_utf8_def len_utf8_def is_lead_of_nat)
  next
    case 2
    then have "c div 64 < 32" by simp
    with 2 m [of c] show ?thesis using assms(2)
      by (auto simp: encode_utf8_def len_utf8_def is_lead_of_nat nth_Cons' simp del: of_nat_add)
  next
    case 3
    then have "c div 4096 < 16" by simp
    with 3 m [of c] m [of "c div 64"] show ?thesis using assms(2)
      by (auto simp: encode_utf8_def len_utf8_def is_lead_of_nat nth_Cons' simp del: of_nat_add)
  next
    case 4
    with \<open>c div 262144 < 5\<close> m [of c] m [of "c div 64"] m [of "c div 4096"] show ?thesis using assms(2)
      by (auto simp: encode_utf8_def len_utf8_def is_lead_of_nat nth_Cons' simp del: of_nat_add)
  qed
qed

lemma utf8_bytes_lead:
  assumes "wf_text t" and "i < str_len t"
  shows "is_lead (utf8_bytes t ! i) \<longleftrightarrow> (\<exists>p s. t = p @ s \<and> str_len p = i)"
  using assms
proof (induction t arbitrary: i)
  case (Cons c t)
  have sc: "is_scalar c" and wf: "wf_text t" using Cons.prems by (auto simp: wf_text_def)
  have split: "(\<exists>p s. c # t = p @ s \<and> str_len p = i) \<longleftrightarrow>
      i = 0 \<or> (\<exists>p s. t = p @ s \<and> len_utf8 c + str_len p = i)" (is "?L \<longleftrightarrow> ?R")
  proof
    assume ?R
    then consider "i = 0" | p s where "c # t = (c # p) @ s" "str_len (c # p) = i" by auto
    then show ?L by cases (force intro: exI [of _ "[]"], blast)
  qed (auto simp: Cons_eq_append_conv)
  show ?case
  proof (cases "i < len_utf8 c")
    case True
    then have "utf8_bytes (c # t) ! i = encode_utf8 c ! i"
      by (simp add: utf8_bytes_def nth_append)
    then show ?thesis using True encode_utf8_lead [OF sc True] split by auto
  next
    case False
    then have "utf8_bytes (c # t) ! i = utf8_bytes t ! (i - len_utf8 c)"
      by (simp add: utf8_bytes_def nth_append)
    moreover have "i - len_utf8 c < str_len t" using Cons.prems(2) False by simp
    ultimately show ?thesis
      using Cons.IH [OF wf, of "i - len_utf8 c"] False split by auto
  qed
qed simp

lemma is_char_boundary_iff:
  assumes "wf_text t"
  shows "is_char_boundary t i \<longleftrightarrow> (\<exists>p s. t = p @ s \<and> str_len p = i)"
proof -
  consider "i = 0" | "0 < i" "i < str_len t" | "0 < i" "str_len t \<le> i" by linarith
  then show ?thesis
  proof cases
    case 1
    then show ?thesis by (auto simp: is_char_boundary_def)
  next
    case 2
    then show ?thesis using utf8_bytes_lead [OF assms 2(2)]
      by (simp add: is_char_boundary_def Let_def is_lead_def str_len_def)
  next
    case 3
    then have "is_char_boundary t i \<longleftrightarrow> i = str_len t"
      by (simp add: is_char_boundary_def Let_def str_len_def)
    also have "\<dots> \<longleftrightarrow> (\<exists>p s. t = p @ s \<and> str_len p = i)"
    proof
      assume "\<exists>p s. t = p @ s \<and> str_len p = i"
      then obtain p s where "t = p @ s" "str_len p = i" by blast
      then show "i = str_len t" using 3 by simp
    qed auto
    finally show ?thesis .
  qed
qed

section \<open>Line starts\<close>

lemma line_starts_loop_eq:
  "i + length bs < 2 ^ 32 \<Longrightarrow>
   line_starts_loop i bs starts = Inr (starts @ map of_nat (line_ends i bs))"
proof (induction i bs arbitrary: starts rule: line_ends.induct)
  case (2 i b bs)
  have d: "drop 1 bs = tl bs" by (cases bs) auto
  show ?case
  proof (cases "b = 13 \<and> get_at bs 0 = Some 10")
    case True
    then have "1 \<le> length bs" by (auto simp: get_at_def Suc_le_eq split: if_splits)
    then have "i + 2 < 2 ^ 32" using 2 by simp
    then show ?thesis using True 2 d \<open>1 \<le> length bs\<close> by (simp add: u32_try_from_def)
  next
    case False
    then show ?thesis using 2 by (auto simp: u32_try_from_def)
  qed
qed simp

lemma line_ends_spec:
  "sorted_wrt (<) (line_ends i bs) \<and>
   set (line_ends i bs) = {i + e | e. 0 < e \<and> is_line_start bs e}"
proof (induction i bs rule: line_ends.induct)
  case (1 i)
  then show ?case by (auto simp: is_line_start_def)
next
  case (2 i b bs)
  have shift: "is_line_start (b # bs) (Suc e) \<longleftrightarrow>
      (if e = 0 then b = 10 \<or> b = 13 \<and> get_at bs 0 \<noteq> Some 10 else is_line_start bs e)" for e
    by (cases e) (auto simp: is_line_start_def get_at_def)
  have set1: "{i + e | e. 0 < e \<and> is_line_start (b # bs) e} =
      (if is_line_start (b # bs) 1 then {i + 1} else {}) \<union>
      {i + 1 + e | e. 0 < e \<and> is_line_start bs e}" (is "?L = ?R")
  proof (intro equalityI subsetI)
    fix x assume "x \<in> ?L"
    then obtain e where e: "x = i + Suc e" "is_line_start (b # bs) (Suc e)"
      by (auto simp: gr0_conv_Suc)
    then show "x \<in> ?R" using shift [of e] by (cases "e = 0") auto
  next
    fix x assume "x \<in> ?R"
    then consider "x = i + 1" "is_line_start (b # bs) 1"
      | e where "x = i + Suc e" "0 < e" "is_line_start bs e"
      by (auto split: if_splits)
    then show "x \<in> ?L"
    proof cases
      case 2
      then have "is_line_start (b # bs) (Suc e)" using shift [of e] by simp
      with 2(1) show ?thesis by blast
    qed auto
  qed
  show ?case
  proof (cases "b = 13 \<and> get_at bs 0 = Some 10")
    case True
    then obtain cs where bs: "bs = 10 # cs" by (cases bs) (auto simp: get_at_def)
    have shift2: "is_line_start bs (Suc e) \<longleftrightarrow> (if e = 0 then True else is_line_start cs e)" for e
      by (cases e) (auto simp: is_line_start_def bs)
    have "{i + 1 + e | e. 0 < e \<and> is_line_start bs e} =
        insert (i + 2) {i + 2 + e | e. 0 < e \<and> is_line_start cs e}" (is "?L = ?R")
    proof (intro equalityI subsetI)
      fix x assume "x \<in> ?L"
      then obtain e where "x = i + 1 + Suc e" "is_line_start bs (Suc e)"
        by (auto simp: gr0_conv_Suc)
      then show "x \<in> ?R" using shift2 [of e] by (cases "e = 0") auto
    next
      fix x assume "x \<in> ?R"
      then consider "x = i + 1 + Suc 0" | e where "x = i + 1 + Suc e" "0 < e" "is_line_start cs e"
        by auto
      then show "x \<in> ?L" using shift2 by cases (force)+
    qed
    moreover have "\<not> is_line_start (b # bs) 1" using shift [of 0] True by simp
    ultimately show ?thesis using 2(1) [OF True] True set1 by (auto simp: bs)
  next
    case False
    show ?thesis
    proof (cases "b = 13 \<or> b = 10")
      case True
      then have "is_line_start (b # bs) 1" using shift [of 0] False by auto
      then show ?thesis using 2(2) [OF False True] True False set1 by auto
    next
      case F: False
      then have "\<not> is_line_start (b # bs) 1" using shift [of 0] by auto
      then show ?thesis using 2(3) [OF False F] False F set1 by auto
    qed
  qed
qed

lemma line_ends_le: "e \<in> set (line_ends 0 b) \<Longrightarrow> e \<le> length b"
  using line_ends_spec [of 0 b] by (auto simp: is_line_start_def)

lemma line_starts_eq:
  assumes "str_len t < 2 ^ 32"
  shows "line_starts t = Inr (map of_nat (0 # line_ends 0 (utf8_bytes t)))"
  using line_starts_loop_eq [of 0 "utf8_bytes t" "[0]"] assms
  by (simp add: line_starts_def str_len_def)

lemma line_starts_unat:
  assumes "str_len t < 2 ^ 32" and "line_starts t = Inr starts"
  shows "map unat starts = 0 # line_ends 0 (utf8_bytes t)"
proof -
  have "unat (of_nat e :: u32) = e" if "e \<in> set (line_ends 0 (utf8_bytes t))" for e
    using line_ends_le [OF that] assms(1) by (simp add: unat_of_nat str_len_def)
  then show ?thesis using assms line_starts_eq [OF assms(1)] by (auto intro!: map_idI simp: o_def)
qed

lemma sorted_line_starts:
  assumes "str_len t < 2 ^ 32" and "line_starts t = Inr starts"
  shows "sorted_wrt (<) (map unat starts)"
  using line_starts_unat [OF assms] line_ends_spec [of 0 "utf8_bytes t"] by auto

lemma mem_line_starts:
  assumes "str_len t < 2 ^ 32" and "line_starts t = Inr starts"
  shows "n \<in> set (map unat starts) \<longleftrightarrow> is_line_start (utf8_bytes t) n"
  using line_starts_unat [OF assms] line_ends_spec [of 0 "utf8_bytes t"]
  by (auto simp: is_line_start_def)

lemma encode_utf8_hd:
  assumes "is_scalar c" and "128 \<le> c"
  shows "192 \<le> hd (encode_utf8 c)"
proof -
  have "c div 262144 < 5" using assms by (auto simp: is_scalar_def)
  moreover have "c < 0x800 \<Longrightarrow> c div 64 < 32" "c < 0x10000 \<Longrightarrow> c div 4096 < 16" by auto
  ultimately show ?thesis using assms(2)
    by (auto simp: encode_utf8_def word_le_nat_alt unat_small_byte simp del: of_nat_add)
qed

lemma utf8_bytes_at_prefix:
  "utf8_bytes (p @ c # r) ! str_len p = hd (encode_utf8 c)"
  by (simp add: utf8_bytes_def str_len_def nth_append hd_conv_nth flip: length_greater_0_conv)

lemma line_start_boundary:
  assumes wf: "wf_text t" and start: "is_line_start (utf8_bytes t) n"
  shows "is_char_boundary t n"
proof (cases "n = 0 \<or> n = str_len t")
  case True
  then show ?thesis by (auto simp: is_char_boundary_def Let_def str_len_def)
next
  case False
  then have n: "0 < n" "n < str_len t" using start by (auto simp: is_line_start_def str_len_def)
  define b where "b = utf8_bytes t ! (n - 1)"
  have b: "b = 10 \<or> b = 13" using start n by (auto simp: is_line_start_def b_def)
  then have "is_lead b" by (auto simp: is_lead_def)
  then obtain p s where ps: "t = p @ s" "str_len p = n - 1"
    using utf8_bytes_lead [OF wf, of "n - 1"] n by (auto simp: b_def simp flip: One_nat_def)
  then obtain c r where s: "s = c # r" using n by (cases s) auto
  have "is_scalar c" using wf ps s by (simp add: wf_text_def)
  moreover have "b = hd (encode_utf8 c)" using ps s utf8_bytes_at_prefix [of p c r] by (simp add: b_def)
  ultimately have "c < 128" using encode_utf8_hd [of c] b by (auto simp: not_le [symmetric])
  then have "str_len (p @ [c]) = n" "t = (p @ [c]) @ r" using ps s n by (auto simp: len_utf8_def)
  then show ?thesis using is_char_boundary_iff [OF wf] by blast
qed

section \<open>Positions\<close>

lemma boundary_prefixes:
  assumes "wf_text t" "is_char_boundary t i" "is_char_boundary t j" "i \<le> j"
  obtains p q r where "t = p @ q @ r" "str_len p = i" "str_len p + str_len q = j"
proof -
  obtain p s where ps: "t = p @ s" "str_len p = i" using assms is_char_boundary_iff by blast
  obtain p' s' where ps': "t = p' @ s'" "str_len p' = j" using assms is_char_boundary_iff by blast
  have "length p \<le> length p'"
  proof (rule ccontr)
    assume "\<not> ?thesis"
    then obtain q where "p = p' @ q" "q \<noteq> []"
      using ps(1) ps'(1) by (auto simp: append_eq_append_conv2)
    then have "str_len p' < str_len p" by simp
    then show False using ps ps' assms(4) by simp
  qed
  then obtain q where "p' = p @ q" using ps(1) ps'(1) by (auto simp: append_eq_append_conv2)
  then show thesis using that [of p q s'] ps ps' by simp
qed

lemma sorted_takeWhile_set:
  "sorted xs \<Longrightarrow> set (takeWhile (\<lambda>s. s \<le> y) xs) = {s \<in> set xs. s \<le> (y :: 'a::linorder)}"
  by (induction xs) auto

lemma sorted_le_last: "sorted xs \<Longrightarrow> x \<in> set xs \<Longrightarrow> x \<le> last (xs :: 'a::linorder list)"
  by (induction xs) auto

lemma last_line_start:
  assumes "sorted_wrt (<) (0 # xs)" and "k = partition_point (\<lambda>s. s \<le> (y :: nat)) (0 # xs) - 1"
  shows "k < length (0 # xs)" "(0 # xs) ! k \<le> y"
    "\<And>s. s \<in> set (0 # xs) \<Longrightarrow> s \<le> y \<Longrightarrow> s \<le> (0 # xs) ! k"
proof -
  let ?l = "0 # xs" and ?tw = "takeWhile (\<lambda>s. s \<le> y) (0 # xs)"
  have ne: "?tw \<noteq> []" by simp
  have k: "k = length ?tw - 1" by (simp add: assms(2) partition_point_def)
  have kl: "k < length ?tw" unfolding k by simp
  then show "k < length ?l" using length_takeWhile_le [of "\<lambda>s. s \<le> y" ?l] by linarith
  have nth: "?l ! k = last ?tw" using takeWhile_nth [OF kl] last_conv_nth [OF ne] k by metis
  then show "?l ! k \<le> y" using ne last_in_set [OF ne] set_takeWhileD by metis
  fix s assume s: "s \<in> set ?l" "s \<le> y"
  have "sorted ?l" using assms(1) strict_sorted_iff by blast
  then have "s \<in> set ?tw" using s by (simp only: sorted_takeWhile_set) simp
  moreover have "sorted ?tw" using \<open>sorted ?l\<close> by (rule sorted_takeWhile)
  ultimately show "s \<le> ?l ! k" unfolding nth by (rule sorted_le_last [rotated])
qed

lemma wf_file_len: "wf_file f \<Longrightarrow> str_len (sf_text f) < 2 ^ 32"
  by (simp add: wf_file_def MAX_SOURCE_FILE_BYTES_def)

lemma u32_or_max_exact: "n < 2 ^ 32 \<Longrightarrow> unat (u32_or_max n) = n"
  by (simp add: u32_or_max_def u32_try_from_def unat_of_nat)

lemma length_le_str_len: "length t \<le> str_len t"
  by (induction t) (auto simp: len_utf8_def)

lemma utf16_len_le_str_len: "utf16_len t \<le> str_len t"
  by (induction t) (auto simp: len_utf8_def len_utf16_def)

lemma length_le_if_strict_sorted:
  "sorted_wrt (<) (0 # xs) \<Longrightarrow> (\<forall>x\<in>set xs. x \<le> n) \<Longrightarrow> length xs \<le> (n :: nat)"
proof -
  assume s: "sorted_wrt (<) (0 # xs)" and b: "\<forall>x\<in>set xs. x \<le> n"
  then have "set xs \<subseteq> {1..n}" by (auto simp: Suc_le_eq)
  then have "card (set xs) \<le> n" using card_mono [of "{1..n}" "set xs"] by simp
  moreover have "distinct xs" using s sorted_wrt_less_distinct by fastforce
  ultimately show ?thesis by (simp add: distinct_card)
qed

lemma nth_strict_sorted_card:
  assumes "sorted_wrt (<) xs" and "k < length (xs :: nat list)"
  shows "card {n \<in> set xs. n < xs ! k} = k"
proof -
  have "{n \<in> set xs. n < xs ! k} = set (take k xs)"
  proof (intro equalityI subsetI)
    fix n assume "n \<in> {n \<in> set xs. n < xs ! k}"
    then obtain i where i: "i < length xs" "n = xs ! i" "xs ! i < xs ! k"
      by (auto simp: in_set_conv_nth)
    then have "i < k" using assms by (metis linorder_neqE_nat order_less_asym sorted_wrt_nth_less)
    then show "n \<in> set (take k xs)" using i by (auto simp: in_set_conv_nth)
  next
    fix n assume "n \<in> set (take k xs)"
    then obtain i where "i < k" "n = xs ! i" using assms(2) by (auto simp: in_set_conv_nth)
    then show "n \<in> {n \<in> set xs. n < xs ! k}"
      using assms sorted_wrt_nth_less by fastforce
  qed
  moreover have "distinct (take k xs)" using assms(1) by (metis distinct_take sorted_wrt_less_distinct)
  ultimately show ?thesis using assms(2) by (simp add: distinct_card)
qed

lemma resolve_position_ok:
  assumes wf: "wf_file src" and bd: "is_char_boundary (sf_text src) (unat off)"
  shows "\<exists>p. resolve_position src off = Some p \<and> position_of (sf_text src) (unat off) p"
proof -
  let ?t = "sf_text src" and ?s = "sf_line_starts src" and ?y = "unat off"
  define k where "k = partition_point (\<lambda>s. s \<le> off) ?s - 1"
  note len = wf_file_len [OF wf]
  have ls: "line_starts ?t = Inr ?s" and wft: "wf_text ?t" using wf by (auto simp: wf_file_def)
  define xs where "xs = line_ends 0 (utf8_bytes ?t)"
  have xs: "map unat ?s = 0 # xs" unfolding xs_def by (rule line_starts_unat [OF len ls])
  have sorted: "sorted_wrt (<) (0 # xs)" using sorted_line_starts [OF len ls] xs by simp
  have mem: "n \<in> set (0 # xs) \<longleftrightarrow> is_line_start (utf8_bytes ?t) n" for n
    using mem_line_starts [OF len ls] xs by simp
  have "takeWhile (\<lambda>s. s \<le> ?y) (map unat ?s) = map unat (takeWhile (\<lambda>s. s \<le> off) ?s)"
    by (simp add: takeWhile_map o_def word_le_nat_alt)
  then have k: "k = partition_point (\<lambda>s. s \<le> ?y) (0 # xs) - 1"
    unfolding partition_point_def k_def by (metis length_map xs)
  note last = last_line_start [OF sorted k]
  have klen: "k < length ?s" using last(1) xs by (metis length_map length_Cons)
  define ls0 where "ls0 = unat (?s ! k)"
  have nth: "(0 # xs) ! k = ls0" using klen xs by (metis ls0_def nth_map)
  have st: "is_line_start (utf8_bytes ?t) ls0" using mem nth last(1) nth_mem [of k "0 # xs"] by simp
  obtain p q r where pqr: "?t = p @ q @ r" "str_len p = ls0" "str_len p + str_len q = ?y"
    using boundary_prefixes [OF wft line_start_boundary [OF wft st] bd] last(2) nth by auto
  have slice: "str_slice ?t ls0 ?y = Some q"
    using str_slice_append [of p q r] pqr by simp
  have "length xs \<le> str_len ?t"
  proof (rule length_le_if_strict_sorted [OF sorted], rule ballI)
    fix x assume "x \<in> set xs"
    then have "is_line_start (utf8_bytes ?t) x" using mem [of x] by simp
    then show "x \<le> str_len ?t" by (auto simp: is_line_start_def str_len_def)
  qed
  then have kb: "k < 2 ^ 32" using last(1) len by simp
  have qb: "str_len q < 2 ^ 32" using len pqr by simp
  let ?p = "\<lparr>byte_offset = off, rp_line = u32_or_max k, scalar_column = u32_or_max (length q),
      utf16_column = u32_or_max (utf16_len q)\<rparr>"
  have "resolve_position src off = Some ?p"
    using klen slice by (simp add: resolve_position_def get_at_def ls0_def Let_def k_def)
  moreover have "{n \<in> set (0 # xs). n < ls0} = {n. is_line_start (utf8_bytes ?t) n \<and> n < ls0}"
    by (simp only: mem)
  then have line: "card {n. is_line_start (utf8_bytes ?t) n \<and> n < ls0} = k"
    using nth_strict_sorted_card [OF sorted last(1)] nth by simp
  have late: "\<forall>n. is_line_start (utf8_bytes ?t) n \<and> n \<le> ?y \<longrightarrow> n \<le> ls0"
    using last(3) nth mem by metis
  have "position_of ?t ?y ?p"
    unfolding position_of_def
    using pqr st late line kb qb length_le_str_len [of q] utf16_len_le_str_len [of q]
    by (intro exI [of _ p] exI [of _ q] exI [of _ r]) (simp add: u32_or_max_exact)
  ultimately show ?thesis by blast
qed

section \<open>UTF-16 offsets\<close>

lemma len_utf16_cases: "len_utf16 c = 1 \<or> len_utf16 c = 2"
  by (simp add: len_utf16_def)

lemma utf16_to_utf8_loop_iff:
  assumes "str_len (sf_text src) < 2 ^ 32" and "sf_text src = done @ rest"
    and "unat off = utf16_len done" and "unat off \<le> unat k"
  shows "utf16_to_utf8_loop src k off (str_len done) rest = Inr b \<longleftrightarrow>
     (\<exists>p s. rest = p @ s \<and> utf16_len done + utf16_len p = unat k \<and>
        unat b = str_len done + str_len p)"
  using assms
proof (induction rest arbitrary: "done" off)
  case Nil
  then show ?case
    by (auto simp: result_simps u32_try_from_def word_unat_eq_iff unat_of_nat)
next
  case (Cons c t)
  have b: "str_len done < 2 ^ 32" "utf16_len done + len_utf16 c < 2 ^ 32"
    using Cons.prems(1,2) utf16_len_le_str_len [of "done @ [c]"] by simp_all
  have pos: "0 < utf16_len p" if "p \<noteq> []" for p
    using that by (cases p) (auto simp: len_utf16_def)
  show ?case
  proof (cases "k = off")
    case True
    then have "(\<exists>p s. c # t = p @ s \<and> utf16_len done + utf16_len p = unat k \<and>
        unat b = str_len done + str_len p) \<longleftrightarrow> unat b = str_len done"
      using Cons.prems(3) pos by fastforce
    then show ?thesis using True b
      by (auto simp: result_simps u32_try_from_def word_unat_eq_iff unat_of_nat)
  next
    case False
    then have lt: "unat off < unat k" using Cons.prems(4) by (metis le_neq_implies_less word_unat_eq_iff)
    let ?w = "if len_utf16 c = 1 then 1 else 2 :: u32"
    have w: "unat ?w = len_utf16 c" using len_utf16_cases [of c] by auto
    then have next_len: "unat (off + ?w) = utf16_len (done @ [c])"
      using b Cons.prems(3) by (subst unat_add_lem [THEN iffD1]) auto
    then have add: "checked_add off ?w = Some (off + ?w)"
      by (simp only: checked_add_eq_Some_iff w) (simp add: Cons.prems(3))
    have shift: "(\<exists>p s. c # t = p @ s \<and> utf16_len done + utf16_len p = unat k \<and>
        unat b = str_len done + str_len p) \<longleftrightarrow>
      (\<exists>p s. t = p @ s \<and> utf16_len (done @ [c]) + utf16_len p = unat k \<and>
        unat b = str_len (done @ [c]) + str_len p)" (is "?L \<longleftrightarrow> ?R")
    proof
      assume ?L
      then obtain p s where p: "c # t = p @ s" "utf16_len done + utf16_len p = unat k"
        "unat b = str_len done + str_len p" by blast
      then obtain q where "p = c # q" using lt Cons.prems(3) by (cases p) auto
      then show ?R using p by auto
    next
      assume ?R
      then obtain p s where "t = p @ s" "utf16_len (done @ [c]) + utf16_len p = unat k"
        "unat b = str_len (done @ [c]) + str_len p" by blast
      then show ?L by (intro exI [of _ "c # p"] exI [of _ s]) simp
    qed
    show ?thesis
    proof (cases "k < off + ?w")
      case True
      then have "unat k < utf16_len (done @ [c])" using next_len by (simp add: word_less_nat_alt)
      then have "\<not> ?thesis \<longrightarrow> False" using True add False shift by (auto simp: Let_def)
      then show ?thesis by blast
    next
      case ge: False
      then have "unat (off + ?w) \<le> unat k" by (simp add: word_le_nat_alt [symmetric])
      then have "utf16_to_utf8_loop src k (off + ?w) (str_len (done @ [c])) t = Inr b \<longleftrightarrow>
        (\<exists>p s. t = p @ s \<and> utf16_len (done @ [c]) + utf16_len p = unat k \<and>
          unat b = str_len (done @ [c]) + str_len p)"
        using Cons.IH [of "done @ [c]" "off + ?w"] Cons.prems(1,2) next_len by simp
      then show ?thesis using add False ge shift by (simp add: Let_def)
    qed
  qed
qed

lemma utf16_to_utf8_iff:
  assumes "wf_file src"
  shows "utf16_to_utf8 src k = Inr b \<longleftrightarrow>
     (\<exists>p s. sf_text src = p @ s \<and> utf16_len p = unat k \<and> str_len p = unat b)"
  using utf16_to_utf8_loop_iff [OF wf_file_len [OF assms], of "[]" "sf_text src" 0 k b]
  by (auto simp: utf16_to_utf8_def)

section \<open>Source maps\<close>

lemma sm_source_wf:
  "wf_source_map m \<Longrightarrow> sm_source m f = Some src \<Longrightarrow> wf_file src"
  by (auto simp: wf_source_map_def sm_source_def result_simps split: if_splits)

lemma validated_source_iff:
  assumes "wf_source_map m"
  shows "validated_source m sp = Inr src \<longleftrightarrow>
     sm_source m (span_file sp) = Some src \<and> span_start sp \<le> span_end sp \<and>
     is_char_boundary (sf_text src) (unat (span_start sp)) \<and>
     is_char_boundary (sf_text src) (unat (span_end sp))"
    (is "?L \<longleftrightarrow> ?R")
proof
  assume ?L
  then show ?R
    by (auto simp: validated_source_def result_simps not_less split: if_splits)
next
  assume r: ?R
  have wf: "wf_file src" using r sm_source_wf [OF assms] by blast
  have len: "str_len (sf_text src) < 2 ^ 32" by (rule wf_file_len [OF wf])
  obtain p s where "sf_text src = p @ s" "str_len p = unat (span_end sp)"
    using r wf is_char_boundary_iff by (auto simp: wf_file_def)
  then have "unat (span_end sp) \<le> str_len (sf_text src)" by simp
  then have "span_end sp \<le> (of_nat (str_len (sf_text src)) :: u32)"
    using len by (simp add: word_le_nat_alt unat_of_nat)
  then show ?L using r len
    by (simp add: validated_source_def u32_try_from_def not_less)
qed

lemma sm_span_iff:
  assumes "wf_source_map m"
  shows "sm_span m file s e = Inr sp \<longleftrightarrow>
     sp = \<lparr>span_file = file, span_start = s, span_end = e\<rparr> \<and>
     (\<exists>src p q r. sm_source m file = Some src \<and> sf_text src = p @ q @ r \<and>
        str_len p = unat s \<and> str_len p + str_len q = unat e)"
proof -
  have key: "(s \<le> e \<and> is_char_boundary (sf_text src) (unat s) \<and> is_char_boundary (sf_text src) (unat e)) \<longleftrightarrow>
      (\<exists>p q r. sf_text src = p @ q @ r \<and> str_len p = unat s \<and> str_len p + str_len q = unat e)"
    (is "?L \<longleftrightarrow> ?R") if src: "sm_source m file = Some src" for src
  proof
    have wf: "wf_text (sf_text src)" using sm_source_wf [OF assms src] by (simp add: wf_file_def)
    { assume ?L
      then show ?R
        using boundary_prefixes [OF wf, of "unat s" "unat e"] by (metis word_le_nat_alt) }
    { assume ?R
      then obtain p q r where pqr: "sf_text src = p @ q @ r" "str_len p = unat s"
        "str_len p + str_len q = unat e" by blast
      then have "sf_text src = (p @ q) @ r" "str_len (p @ q) = unat e" by simp_all
      then have "is_char_boundary (sf_text src) (unat e)" using is_char_boundary_iff [OF wf] by blast
      moreover have "is_char_boundary (sf_text src) (unat s)"
        using is_char_boundary_iff [OF wf] pqr by blast
      ultimately show ?L using pqr(2,3) by (simp add: word_le_nat_alt) }
  qed
  have "sm_span m file s e = Inr sp \<longleftrightarrow>
      sp = \<lparr>span_file = file, span_start = s, span_end = e\<rparr> \<and>
      (\<exists>src. sm_source m file = Some src \<and>
        (s \<le> e \<and> is_char_boundary (sf_text src) (unat s) \<and> is_char_boundary (sf_text src) (unat e)))"
    by (auto simp: sm_span_def result_simps validated_source_iff [OF assms] Let_def)
  then show ?thesis using key by blast
qed

lemma sm_resolve_total:
  assumes "wf_source_map m" and "validated_source m sp = Inr src"
  shows "\<exists>a b. sm_resolve m sp = Some (Inr \<lparr>rs_source = src, rs_start = a, rs_end = b\<rparr>) \<and>
     position_of (sf_text src) (unat (span_start sp)) a \<and>
     position_of (sf_text src) (unat (span_end sp)) b"
proof -
  have r: "sm_source m (span_file sp) = Some src"
    "is_char_boundary (sf_text src) (unat (span_start sp))"
    "is_char_boundary (sf_text src) (unat (span_end sp))"
    using assms by (auto simp: validated_source_iff)
  have wf: "wf_file src" using sm_source_wf [OF assms(1) r(1)] .
  show ?thesis
    using resolve_position_ok [OF wf r(2)] resolve_position_ok [OF wf r(3)] assms(2)
    by (auto simp: sm_resolve_def)
qed

section \<open>Building a map\<close>

lemma ex_less_Suc_iff: "(\<exists>j<Suc n. P j) \<longleftrightarrow> (\<exists>j<n. P j) \<or> P n"
  using less_Suc_eq by auto

lemma build_acc_snoc:
  assumes acc: "build_acc mid sz ids files"
    and fresh: "\<forall>i<length files. portable_identity (sf_path (files ! i)) \<noteq> portable_identity path"
    and len: "u32_try_from (length files) = Some raw"
    and tot: "sz' = sz + str_len tx" "sz' \<le> MAX_SOURCE_BYTES"
    and ls: "line_starts tx = Inr starts"
  defines "i \<equiv> \<lparr>source_map_id = mid, fid_index = raw\<rparr>"
  shows "build_acc mid sz' (bt_insert (portable_identity path) i ids)
     (files @ [\<lparr>sf_id = i, sf_path = path, sf_text = tx, sf_line_starts = starts\<rparr>])"
proof -
  let ?f = "\<lparr>sf_id = i, sf_path = path, sf_text = tx, sf_line_starts = starts\<rparr>"
  have wf: "bt_wf ids" using acc by (simp add: build_acc_def)
  have raw: "raw = of_nat (length files)" "length files < 2 ^ 32"
    using len by (auto simp: u32_try_from_def split: if_splits)
  have nth: "(files @ [?f]) ! j = (if j < length files then files ! j else ?f)"
    if "j < Suc (length files)" for j using that by (auto simp: nth_append)
  have get: "bt_get (bt_insert (portable_identity path) i ids) k = Some f \<longleftrightarrow>
      (\<exists>j<Suc (length files). k = portable_identity (sf_path ((files @ [?f]) ! j)) \<and>
         f = sf_id ((files @ [?f]) ! j))" for k f
  proof -
    have "(\<exists>j<Suc (length files). k = portable_identity (sf_path ((files @ [?f]) ! j)) \<and>
         f = sf_id ((files @ [?f]) ! j)) \<longleftrightarrow>
       (\<exists>j<length files. k = portable_identity (sf_path (files ! j)) \<and> f = sf_id (files ! j)) \<or>
       k = portable_identity path \<and> f = i"
      by (subst ex_less_Suc_iff) (simp add: nth_append cong: conj_cong)
    moreover have "bt_get ids k = Some f \<longleftrightarrow>
       (\<exists>j<length files. k = portable_identity (sf_path (files ! j)) \<and> f = sf_id (files ! j))"
      using acc unfolding build_acc_def by blast
    ultimately show ?thesis using fresh
      by (cases "k = portable_identity path") (auto simp: bt.get_ins [OF wf])
  qed
  have dist: "portable_identity path \<notin> set (map (\<lambda>f. portable_identity (sf_path f)) files)"
    using fresh by (auto simp: in_set_conv_nth)
  show ?thesis
    unfolding build_acc_def
  proof (intro conjI)
    show "\<forall>j<length (files @ [?f]). line_starts (sf_text ((files @ [?f]) ! j)) =
        Inr (sf_line_starts ((files @ [?f]) ! j)) \<and>
        sf_id ((files @ [?f]) ! j) = \<lparr>source_map_id = mid, fid_index = of_nat j\<rparr>"
      using acc ls raw by (auto simp: build_acc_def less_Suc_eq nth_append i_def)
    show "\<forall>k f. bt_get (bt_insert (portable_identity path) i ids) k = Some f \<longleftrightarrow>
        (\<exists>j<length (files @ [?f]). k = portable_identity (sf_path ((files @ [?f]) ! j)) \<and>
          f = sf_id ((files @ [?f]) ! j))"
      using get by simp
  qed (use acc wf tot dist raw in \<open>auto simp: build_acc_def bt_wf_insert\<close>)
qed

lemma build_files_ok:
  assumes "build_files mid rest sz ids files = Inr m" and "build_acc mid sz ids files"
  shows "sm_id m = mid \<and> build_acc mid (sum_list (map (\<lambda>f. str_len (sf_text f)) (sm_files m)))
           (sm_identities m) (sm_files m) \<and>
         map file_pair (sm_files m) = map file_pair files @ rest"
  using assms
proof (induction mid rest sz ids files rule: build_files.induct)
  case (1 mid sz ids files)
  then have "m = \<lparr>sm_id = mid, sm_files = files, sm_identities = ids\<rparr>"
    "sz = sum_list (map (\<lambda>f. str_len (sf_text f)) files)" by (simp_all add: build_acc_def)
  with 1(2) show ?case by simp
next
  case (2 mid path tx rest sz ids files)
  let ?id = "portable_identity path"
  have none: "Option.bind (bt_get ids ?id) (\<lambda>i. get_at files (unat (fid_index i))) = None"
    using 2(2) by (auto simp: Let_def split: option.splits)
  have fresh: "\<forall>i<length files. portable_identity (sf_path (files ! i)) \<noteq> ?id"
  proof (intro allI impI notI)
    fix i assume i: "i < length files" "portable_identity (sf_path (files ! i)) = ?id"
    then have "bt_get ids ?id = Some (sf_id (files ! i))"
      using 2(3) unfolding build_acc_def by metis
    moreover have "sf_id (files ! i) = \<lparr>source_map_id = mid, fid_index = of_nat i\<rparr>"
      "length files \<le> 2 ^ 32" using 2(3) i by (auto simp: build_acc_def)
    ultimately show False using none i by (simp add: unat_of_nat get_at_None_iff)
  qed
  from 2(2) none obtain sz' raw starts where
    t: "usize_checked_add sz (str_len tx) = Some sz'" "\<not> MAX_SOURCE_BYTES < sz'" and
    raw: "u32_try_from (length files) = Some raw" and ls: "line_starts tx = Inr starts" and
    rec: "build_files mid rest sz' (bt_insert ?id \<lparr>source_map_id = mid, fid_index = raw\<rparr> ids)
      (files @ [\<lparr>sf_id = \<lparr>source_map_id = mid, fid_index = raw\<rparr>, sf_path = path, sf_text = tx,
        sf_line_starts = starts\<rparr>]) = Inr m"
    by (auto simp: Let_def result_simps split: option.splits if_splits)
  have tot: "sz' = sz + str_len tx" "sz' \<le> MAX_SOURCE_BYTES"
    using t by (auto simp: usize_checked_add_def split: if_splits)
  note acc' = build_acc_snoc [OF 2(3) fresh raw tot ls]
  show ?case
    using 2(1) [OF refl none t(2) refl rec acc'] by (simp add: file_pair_def)
qed

lemma normalize_inputs_iff:
  "normalize_inputs ins = Inr ps \<longleftrightarrow>
     ps = map (\<lambda>i. (in_path i, in_text i)) ins \<and>
     (\<forall>i\<in>set ins. validate_source_path (in_path i) = Inr () \<and>
        str_len (in_text i) \<le> MAX_SOURCE_FILE_BYTES)"
  by (induction ins arbitrary: ps)
    (auto simp: result_simps normalized_new_def not_less split: if_splits)

lemma build_Inr:
  assumes "build n ins = (Inr m, n')"
  shows "length ins \<le> MAX_SOURCE_FILES \<and> unat n' = unat n + 1 \<and> sm_id m = n \<and>
     map file_pair (sm_files m) = map input_pair (sort_key in_path ins) \<and>
     build_acc n (sum_list (map (\<lambda>f. str_len (sf_text f)) (sm_files m)))
       (sm_identities m) (sm_files m) \<and>
     (\<forall>i\<in>set ins. validate_source_path (in_path i) = Inr () \<and>
        str_len (in_text i) \<le> MAX_SOURCE_FILE_BYTES)"
proof -
  let ?s = "sort_key in_path ins"
  from assms obtain ps where len: "length ins \<le> MAX_SOURCE_FILES"
    and norm: "normalize_inputs ?s = Inr ps" and add: "checked_add n 1 = Some n'"
    and bf: "build_files n (sort_key fst ps) 0 [] [] = Inr m"
    by (auto simp: build_def not_less split: if_splits sum.splits option.splits)
  have ps: "ps = map input_pair ?s"
    and ok: "\<forall>i\<in>set ins. validate_source_path (in_path i) = Inr () \<and>
        str_len (in_text i) \<le> MAX_SOURCE_FILE_BYTES"
    using norm by (auto simp: normalize_inputs_iff input_pair_def)
  have "map fst ps = map in_path ?s" by (simp add: ps input_pair_def)
  then have "sort_key fst ps = ps" by (intro sort_key_sorted) simp
  moreover have "build_acc n 0 [] []" by (simp add: build_acc_def bt_wf_def)
  ultimately show ?thesis
    using build_files_ok [OF bf] len ok ps checked_add_Some [OF add] by simp
qed

lemma build_wf:
  assumes b: "build n ins = (Inr m, n')" and wf: "\<forall>i\<in>set ins. wf_text (in_text i)"
  shows "wf_source_map m"
proof -
  note r = build_Inr [OF b]
  then have acc: "build_acc (sm_id m) (sum_list (map (\<lambda>f. str_len (sf_text f)) (sm_files m)))
       (sm_identities m) (sm_files m)" by simp
  have pairs: "map file_pair (sm_files m) = map input_pair (sort_key in_path ins)" using r by blast
  then have "map fst (map file_pair (sm_files m)) = map fst (map input_pair (sort_key in_path ins))"
    by simp
  then have paths: "map sf_path (sm_files m) = map in_path (sort_key in_path ins)"
    by (simp add: file_pair_def input_pair_def o_def)
  have "distinct (map portable_identity (map sf_path (sm_files m)))"
    using acc by (simp add: build_acc_def o_def)
  then have "distinct (map sf_path (sm_files m))" by (simp only: distinct_map)
  moreover have "sorted (map sf_path (sm_files m))" unfolding paths by simp
  ultimately have strict: "sorted_wrt (<) (map sf_path (sm_files m))"
    by (simp add: strict_sorted_iff)
  have "wf_file (sm_files m ! j)" if j: "j < length (sm_files m)" for j
  proof -
    have "file_pair (sm_files m ! j) \<in> set (map input_pair (sort_key in_path ins))"
      using j pairs by (metis length_map nth_map nth_mem)
    then obtain i where "i \<in> set ins" "file_pair (sm_files m ! j) = input_pair i" by auto
    then show ?thesis
      using r wf acc j by (auto simp: wf_file_def build_acc_def file_pair_def input_pair_def)
  qed
  moreover have "length (sm_files m) = length ins" using paths by (metis length_map length_sort)
  ultimately show ?thesis
    unfolding wf_source_map_def using acc r strict by (simp add: build_acc_def)
qed

lemma build_perm:
  assumes b: "build n ins = (Inr m, n')" and perm: "mset ins' = mset ins"
  shows "build n ins' = (Inr m, n')"
proof -
  note r = build_Inr [OF b]
  have "distinct (map portable_identity (map sf_path (sm_files m)))"
    using r by (simp add: build_acc_def o_def)
  then have "distinct (map sf_path (sm_files m))" by (simp only: distinct_map)
  moreover have "map fst (map file_pair (sm_files m)) =
      map fst (map input_pair (sort_key in_path ins))" using r by simp
  ultimately have "distinct (map in_path (sort_key in_path ins))"
    by (simp add: file_pair_def input_pair_def o_def)
  then have "inj_on in_path (set ins)" by (simp add: distinct_map)
  then have "sort_key in_path ins' = sort_key in_path ins"
    using perm by (intro sort_key_eq_sort_key) (auto dest: mset_eq_setD)
  moreover have "length ins' = length ins" using perm by (metis size_mset)
  ultimately have "build n ins' = build n ins" by (simp add: build_def)
  with b show ?thesis by simp
qed

lemma build_files_complete:
  assumes "distinct (map (portable_identity \<circ> fst) rest)"
    and "\<And>x. x \<in> set rest \<Longrightarrow> bt_get identities (portable_identity (fst x)) = None \<and> str_len (snd x) < 2 ^ 32"
    and "length files + length rest < 2 ^ 32"
    and "total_bytes + sum_list (map (str_len \<circ> snd) rest) \<le> MAX_SOURCE_BYTES"
  shows "\<exists>m. build_files mid rest total_bytes identities files = Inr m"
  using assms
proof (induction rest arbitrary: total_bytes identities files)
  case (Cons x rest)
  obtain path t where x: "x = (path, t)" by force
  have "usize_checked_add total_bytes (str_len t) = Some (total_bytes + str_len t)" "total_bytes + str_len t \<le> MAX_SOURCE_BYTES"
    using Cons.prems(4) by (simp_all add: x usize_checked_add_def MAX_SOURCE_BYTES_def)
  moreover have "u32_try_from (length files) = Some (of_nat (length files))" using Cons.prems(3) by (simp add: u32_try_from_def)
  moreover have "line_starts t = Inr (map of_nat (0 # line_ends 0 (utf8_bytes t)))"
    using Cons.prems(2) [of x] x line_starts_eq by auto
  moreover have "bt_get identities (portable_identity path) = None" using Cons.prems(2) [of x] x by simp
  moreover have "\<exists>m. build_files mid rest (total_bytes + str_len t) (bt_insert (portable_identity path) i identities) (files @ [f]) = Inr m" for i f
    by (rule Cons.IH) (use Cons.prems x in \<open>auto simp: image_iff\<close>)
  ultimately show ?case by (simp add: x Let_def)
qed simp

lemma build_complete:
  assumes "length ins \<le> MAX_SOURCE_FILES" "unat n + 1 < 2 ^ 64" "distinct (map (\<lambda>i. portable_identity (in_path i)) ins)"
    and "\<forall>i\<in>set ins. validate_source_path (in_path i) = Inr () \<and> str_len (in_text i) \<le> MAX_SOURCE_FILE_BYTES"
    and "sum_list (map (\<lambda>i. str_len (in_text i)) ins) \<le> MAX_SOURCE_BYTES"
  shows "\<exists>m. build n ins = (Inr m, n + 1)"
proof -
  define ps where "ps = map input_pair (sort_key in_path ins)"
  have "normalize_inputs (sort_key in_path ins) = Inr ps"
    using assms(4) by (auto simp: normalize_inputs_iff ps_def input_pair_def)
  moreover have "checked_add n 1 = Some (n + 1)" using assms(2) by (simp add: checked_add_def)
  moreover have "map fst ps = map in_path (sort_key in_path ins)" by (simp add: ps_def input_pair_def)
  then have "sort_key fst ps = ps" by (intro sort_key_sorted) simp
  moreover have "\<exists>m. build_files n ps 0 [] [] = Inr m"
  proof (rule build_files_complete)
    have "mset (map (portable_identity \<circ> fst) ps) = mset (map (\<lambda>i. portable_identity (in_path i)) ins)"
      by (simp add: ps_def input_pair_def o_def multiset.map_comp)
    then show "distinct (map (portable_identity \<circ> fst) ps)" using assms(3) mset_eq_imp_distinct_iff by blast
    have "mset (map (str_len \<circ> snd) ps) = mset (map (\<lambda>i. str_len (in_text i)) ins)"
      by (simp add: ps_def input_pair_def o_def multiset.map_comp)
    then have "sum_list (map (str_len \<circ> snd) ps) = sum_list (map (\<lambda>i. str_len (in_text i)) ins)" by (metis sum_mset_sum_list)
    then show "0 + sum_list (map (str_len \<circ> snd) ps) \<le> MAX_SOURCE_BYTES" using assms(5) by simp
  qed (use assms(1,4) in \<open>auto simp: ps_def input_pair_def MAX_SOURCE_FILES_def MAX_SOURCE_FILE_BYTES_def\<close>)
  ultimately show ?thesis using assms(1) by (auto simp: build_def)
qed

section \<open>Paths and imports\<close>

lemma byte_of_ascii_lower:
  "byte_of (ascii_lower c) = (if is_ascii_uppercase c then byte_of c + 32 else byte_of c)"
  by (simp add: ascii_lower_def is_ascii_uppercase_def byte_of_char_of)

lemma ascii_lower_idem [simp]: "ascii_lower (ascii_lower c) = ascii_lower c"
  by (simp add: byte_of_ascii_lower is_ascii_uppercase_def flip: byte_of_inject)

lemma ascii_lower_eq_iff:
  "\<not> is_ascii_uppercase d \<Longrightarrow> \<not> is_ascii_lowercase d \<Longrightarrow> ascii_lower c = d \<longleftrightarrow> c = d"
  by (auto simp: byte_of_ascii_lower is_ascii_uppercase_def is_ascii_lowercase_def
      simp flip: byte_of_inject split: if_splits)

lemma ascii_lower_special:
  "ascii_lower c = CHR ''/'' \<longleftrightarrow> c = CHR ''/''" "ascii_lower c = CHR ''.'' \<longleftrightarrow> c = CHR ''.''"
  "ascii_lower c = CHR '' '' \<longleftrightarrow> c = CHR '' ''" "ascii_lower c = CHR 0x5C \<longleftrightarrow> c = CHR 0x5C"
  by (rule ascii_lower_eq_iff; simp add: is_ascii_uppercase_def is_ascii_lowercase_def byte_of_def)+

lemma is_ascii_control_lower [simp]: "is_ascii_control (ascii_lower c) = is_ascii_control c"
  by (auto simp: is_ascii_control_def byte_of_ascii_lower is_ascii_uppercase_def)

lemma windows_reserved_lower [simp]: "windows_reserved (ascii_lower c) = windows_reserved c"
  unfolding windows_reserved_def
  by (simp add: ascii_lower_eq_iff is_ascii_uppercase_def is_ascii_lowercase_def byte_of_def)

lemma to_ascii_lowercase_idem [simp]: "to_ascii_lowercase (to_ascii_lowercase s) = to_ascii_lowercase s"
  by (simp add: to_ascii_lowercase_def o_def)

lemma reserved_device_lower [simp]:
  "reserved_device (to_ascii_lowercase component) = reserved_device component"
proof -
  have "hd (split_on CHR ''.'' (to_ascii_lowercase component)) =
      to_ascii_lowercase (hd (split_on CHR ''.'' component))"
    by (simp add: to_ascii_lowercase_def split_on_map ascii_lower_special hd_map)
  then show ?thesis by (simp add: reserved_device_def)
qed

lemma validate_component_lower:
  assumes "validate_component path c = Inr ()"
  shows "validate_component path' (to_ascii_lowercase c) = Inr ()"
proof -
  have ne: "c \<noteq> []" using assms by (auto simp: validate_component_def)
  have dots: "to_ascii_lowercase c = ''.'' \<longleftrightarrow> c = ''.''" "to_ascii_lowercase c = ''..'' \<longleftrightarrow> c = ''..''"
    by (auto simp: to_ascii_lowercase_def map_eq_Cons_conv ascii_lower_special)
  have "last (to_ascii_lowercase c) = ascii_lower (last c)"
    using ne by (simp add: to_ascii_lowercase_def last_map)
  then have last: "last (to_ascii_lowercase c) \<in> {CHR ''.'', CHR '' ''} \<longleftrightarrow> last c \<in> {CHR ''.'', CHR '' ''}"
    by (simp add: ascii_lower_special)
  have "list_ex is_ascii_control (to_ascii_lowercase c) = list_ex is_ascii_control c"
    "list_ex windows_reserved (to_ascii_lowercase c) = list_ex windows_reserved c"
    by (simp_all add: to_ascii_lowercase_def list_ex_iff)
  moreover have "length (to_ascii_lowercase c) = length c" "to_ascii_lowercase c \<noteq> []"
    using ne by (simp_all add: to_ascii_lowercase_def)
  ultimately show ?thesis using assms dots last
    by (auto simp: validate_component_def split: if_splits)
qed

lemma validate_source_path_iff:
  "validate_source_path p = Inr () \<longleftrightarrow>
     p \<noteq> [] \<and> length p \<le> MAX_SOURCE_PATH_BYTES \<and> is_ascii p \<and> \<not> starts_with ''/'' p \<and>
     \<not> starts_with ''//'' p \<and> CHR 0x5C \<notin> set p \<and>
     length (split_on CHR ''/'' p) \<le> MAX_SOURCE_PATH_COMPONENTS \<and>
     (\<forall>c\<in>set (split_on CHR ''/'' p). validate_component p c = Inr ())"
  by (auto simp: validate_source_path_def result_simps Let_def not_less split: if_splits)

lemma starts_with_slash_lower:
  "starts_with ''/'' (to_ascii_lowercase p) = starts_with ''/'' p"
  "starts_with ''//'' (to_ascii_lowercase p) = starts_with ''//'' p"
  by (auto simp: starts_with_def to_ascii_lowercase_def take_Cons' ascii_lower_special
      split: if_splits) (cases p; auto simp: ascii_lower_special; cases "tl p"; auto simp: ascii_lower_special)+

lemma validate_source_path_lower:
  assumes "validate_source_path p = Inr ()"
  shows "validate_source_path (to_ascii_lowercase p) = Inr ()"
proof -
  have split: "split_on CHR ''/'' (to_ascii_lowercase p) = map to_ascii_lowercase (split_on CHR ''/'' p)"
    by (simp add: to_ascii_lowercase_def split_on_map ascii_lower_special)
  have "is_ascii p \<Longrightarrow> is_ascii (to_ascii_lowercase p)"
    by (auto simp: is_ascii_def to_ascii_lowercase_def list_all_iff is_ascii_uppercase_def
        byte_of_ascii_lower simp flip: byte_of_def)
  moreover have "CHR 0x5C \<notin> set (to_ascii_lowercase p) \<longleftrightarrow> CHR 0x5C \<notin> set p"
    by (auto simp: to_ascii_lowercase_def image_iff) (metis ascii_lower_special(4))+
  moreover have "to_ascii_lowercase p \<noteq> [] \<longleftrightarrow> p \<noteq> []" "length (to_ascii_lowercase p) = length p"
    by (simp_all add: to_ascii_lowercase_def)
  ultimately show ?thesis
    using assms validate_component_lower
    by (auto simp: validate_source_path_iff split starts_with_slash_lower)
qed

lemma steps_simps [simp]:
  "parent_steps [] = 0" "name_steps [] = 0"
  "parent_steps (c # cs) = (if c = ''..'' then 1 else 0) + parent_steps cs"
  "name_steps (c # cs) = (if c \<noteq> ''..'' \<and> c \<noteq> ''.'' then 1 else 0) + name_steps cs"
  by (simp_all add: parent_steps_def name_steps_def)

lemma all_take_Cons:
  "(\<forall>k\<le>length (c # cs). P (take k (c # cs))) \<longleftrightarrow> P [] \<and> (\<forall>k\<le>length cs. P (c # take k cs))"
  using all_le_Suc [of "length cs" "\<lambda>k. P (take k (c # cs))"] by simp

lemma never_escapes_Nil: "never_escapes d []"
  by (simp add: never_escapes_def)

lemma never_escapes_Cons:
  "never_escapes d (c # cs) \<longleftrightarrow>
     (if c = ''.'' then never_escapes d cs
      else if c = ''..'' then 0 < d \<and> never_escapes (d - 1) cs
      else never_escapes (Suc d) cs)"
proof (cases "c = ''..'' \<and> 0 < d")
  case True
  then obtain e where "d = Suc e" by (cases d) auto
  with True show ?thesis
    unfolding never_escapes_def
      all_take_Cons [where P = "\<lambda>t. parent_steps t \<le> d + name_steps t"] by simp
next
  case False
  have pos: "0 < d" if "never_escapes d (c # cs)" "c = ''..''"
  proof -
    have "parent_steps (take 1 (c # cs)) \<le> d + name_steps (take 1 (c # cs))"
      using that(1) unfolding never_escapes_def by (metis One_nat_def Suc_leI length_greater_0_conv list.distinct(1))
    then show ?thesis using that(2) by simp
  qed
  show ?thesis
  proof (cases "c = ''..''")
    case True
    then show ?thesis using False pos by auto
  next
    case F: False
    then show ?thesis
      unfolding never_escapes_def
        all_take_Cons [where P = "\<lambda>t. parent_steps t \<le> d + name_steps t"] by simp
  qed
qed

lemma resolve_components_defined:
  "resolve_components base cs \<noteq> None \<longleftrightarrow> [] \<notin> set cs \<and> never_escapes (length base) cs"
proof (induction base cs rule: resolve_components.induct)
  case (2 base c cs)
  then show ?case by (auto simp: never_escapes_Cons)
qed (simp add: never_escapes_Nil)

lemma resolve_components_no_slash:
  "resolve_components base cs = Some r \<Longrightarrow> c \<in> set r \<Longrightarrow> c \<in> set base \<union> set cs"
proof (induction base cs rule: resolve_components.induct)
  case (2 base c' cs)
  then show ?case by (auto split: if_splits dest: in_set_butlastD)
qed simp

lemma resolve_components_canonical:
  assumes "n \<le> length base" and "\<forall>c\<in>set names. c \<notin> {[], ''.'', ''..''}"
  shows "resolve_components base (replicate n ''..'' @ names) = Some (take (length base - n) base @ names)"
  using assms(1)
proof (induction n arbitrary: base)
  case 0
  have "resolve_components base names = Some (base @ names)"
    using assms(2) by (induction names arbitrary: base) auto
  then show ?case by simp
next
  case (Suc n)
  then have "base \<noteq> []" "n \<le> length (butlast base)" by auto
  moreover have "take (length (butlast base) - n) (butlast base) = take (length base - Suc n) base"
    by (simp add: butlast_conv_take take_take min_def)
  ultimately show ?case using Suc.IH [of "butlast base"] by simp
qed

lemma resolve_import_Inr:
  assumes "resolve_explicit_zry_import importer spec = Inr p"
  shows "validate_source_path p = Inr () \<and> has_exact_zry_extension p \<and>
     resolve_components (butlast (split_on CHR ''/'' importer)) (split_on CHR ''/'' spec) =
       Some (split_on CHR ''/'' p)"
proof -
  from assms obtain cs where
    cs: "resolve_components (butlast (split_on CHR ''/'' importer)) (split_on CHR ''/'' spec) = Some cs"
    and ext: "has_exact_zry_extension (join_with CHR ''/'' cs)"
    and norm: "normalized_new (join_with CHR ''/'' cs) = Inr p"
    by (auto simp: resolve_explicit_zry_import_def Let_def split: if_splits option.splits sum.splits)
  have p: "p = join_with CHR ''/'' cs" "validate_source_path p = Inr ()"
    using norm by (auto simp: normalized_new_def result_simps)
  have "cs \<noteq> []" using ext by (auto simp: has_exact_zry_extension_def ends_with_def)
  moreover have "CHR ''/'' \<notin> set c" if "c \<in> set cs" for c
    using resolve_components_no_slash [OF cs that] split_on_no_sep in_set_butlastD by fast
  ultimately have "split_on CHR ''/'' p = cs" unfolding p(1) by (intro split_join) auto
  then show ?thesis using p ext cs by simp
qed

section \<open>Escaped text\<close>

lemma show_hex_printable: "c \<in> set (show_hex n) \<Longrightarrow> \<not> is_control c"
proof (induction n rule: show_hex.induct)
  case (1 n)
  then show ?case
    by (subst (asm) (2) show_hex.simps) (auto simp: hex_digit_def is_control_def split: if_splits)
qed

lemma escape_char_printable: "d \<in> set (escape_char c) \<Longrightarrow> \<not> is_control d"
  using show_hex_printable [of d c] by (auto simp: escape_char_def is_control_def split: if_splits)


lemma str_len_prefix_unique:
  assumes "p @ s = p' @ s'" and "str_len p = str_len p'"
  shows "p = p'"
  using assms by (auto simp: append_eq_append_conv2)

lemma wf_source_map_id:
  assumes "wf_source_map m" and "i < length (sm_files m)"
  shows "sm_source m (sf_id (sm_files m ! i)) = Some (sm_files m ! i)"
    "sm_file_id m (sf_path (sm_files m ! i)) = Some (sf_id (sm_files m ! i))"
proof -
  have "length (sm_files m) < 2 ^ 32" "sf_id (sm_files m ! i) = \<lparr>source_map_id = sm_id m, fid_index = of_nat i\<rparr>"
    using assms by (auto simp: wf_source_map_def MAX_SOURCE_FILES_def)
  then show "sm_source m (sf_id (sm_files m ! i)) = Some (sm_files m ! i)"
    using assms(2) by (simp add: sm_source_def get_at_def unat_of_nat)
  show "sm_file_id m (sf_path (sm_files m ! i)) = Some (sf_id (sm_files m ! i))"
    using assms unfolding wf_source_map_def sm_file_id_def by blast
qed

lemma sm_file_id_map_id:
  assumes "wf_source_map m" and "sm_file_id m p = Some f"
  shows "source_map_id f = sm_id m"
  using assms by (auto simp: wf_source_map_def sm_file_id_def)

lemma span_from_utf16_iff:
  assumes wf: "wf_source_map m"
  shows "span_from_utf16 m file s e = Inr sp \<longleftrightarrow>
     (\<exists>src p q r. sm_source m file = Some src \<and> sf_text src = p @ q @ r \<and>
        utf16_len p = unat s \<and> utf16_len p + utf16_len q = unat e \<and>
        sp = \<lparr>span_file = file, span_start = of_nat (str_len p),
               span_end = of_nat (str_len p + str_len q)\<rparr>)" (is "?L \<longleftrightarrow> ?R")
proof
  assume ?L
  then obtain src s' e' where se: "s \<le> e" and src: "sm_source m file = Some src"
    and u: "utf16_to_utf8 src s = Inr s'" "utf16_to_utf8 src e = Inr e'"
    and span: "sm_span m file s' e' = Inr sp"
    by (auto simp: span_from_utf16_def result_simps not_less split: if_splits)
  have wff: "wf_file src" using sm_source_wf [OF wf src] .
  obtain p1 r1 where p1: "sf_text src = p1 @ r1" "utf16_len p1 = unat s" "str_len p1 = unat s'"
    using u(1) utf16_to_utf8_iff [OF wff] by auto
  obtain p2 r2 where p2: "sf_text src = p2 @ r2" "utf16_len p2 = unat e" "str_len p2 = unat e'"
    using u(2) utf16_to_utf8_iff [OF wff] by auto
  obtain p q r where pqr: "sf_text src = p @ q @ r" "str_len p = unat s'"
      "str_len p + str_len q = unat e'" and sp: "sp = \<lparr>span_file = file, span_start = s', span_end = e'\<rparr>"
    using span sm_span_iff [OF wf] src by auto
  have "p1 = p" using p1 pqr by (metis str_len_prefix_unique)
  moreover have "p2 = p @ q" using p2 pqr by (metis append.assoc str_len_prefix_unique str_len_simps(3))
  ultimately show ?R using p1 p2 pqr src sp
    by (intro exI [of _ src] exI [of _ p] exI [of _ q] exI [of _ r]) simp
next
  assume ?R
  then obtain src p q r where src: "sm_source m file = Some src" and t: "sf_text src = p @ q @ r"
    and u: "utf16_len p = unat s" "utf16_len p + utf16_len q = unat e"
    and sp: "sp = \<lparr>span_file = file, span_start = of_nat (str_len p),
               span_end = of_nat (str_len p + str_len q)\<rparr>" by blast
  have wff: "wf_file src" using sm_source_wf [OF wf src] .
  then have b: "unat (of_nat (str_len p) :: u32) = str_len p"
    "unat (of_nat (str_len p + str_len q) :: u32) = str_len p + str_len q"
    using wf_file_len [OF wff] t by (simp_all add: unat_of_nat del: of_nat_add)
  have "utf16_to_utf8 src s = Inr (of_nat (str_len p))"
    using utf16_to_utf8_iff [OF wff] t u b by metis
  moreover have "utf16_to_utf8 src e = Inr (of_nat (str_len p + str_len q))"
    using utf16_to_utf8_iff [OF wff] t u b
    by (metis append.assoc str_len_simps(3) utf16_len_simps(3))
  moreover have "sm_span m file (of_nat (str_len p)) (of_nat (str_len p + str_len q)) = Inr sp"
    using sm_span_iff [OF wf] src t b sp by metis
  moreover have "\<not> e < s" using u by (simp add: word_less_nat_alt)
  ultimately show ?L using src by (simp add: span_from_utf16_def del: of_nat_add)
qed

section \<open>Escaped text is decodable\<close>

lemma show_hex_bytes: "c \<in> set (show_hex n) \<Longrightarrow> c \<noteq> 0x7D"
proof (induction n rule: show_hex.induct)
  case (1 n)
  then show ?case
    by (subst (asm) (2) show_hex.simps) (auto simp: hex_digit_def split: if_splits)
qed

lemma hex_digit_inject: "a < 16 \<Longrightarrow> b < 16 \<Longrightarrow> hex_digit a = hex_digit b \<longleftrightarrow> a = b"
  by (auto simp: hex_digit_def split: if_splits)

lemma show_hex_nonempty [simp]: "show_hex n \<noteq> []" "[] \<noteq> show_hex n"
  by (subst show_hex.simps, simp)+

lemma show_hex_inject: "show_hex m = show_hex n \<Longrightarrow> m = n"
proof (induction m arbitrary: n rule: show_hex.induct)
  case (1 m)
  have e: "show_hex k = (if k < 16 then [] else show_hex (k div 16)) @ [hex_digit (k mod 16)]" for k
    by (subst show_hex.simps) simp
  have "m mod 16 = n mod 16" using "1.prems" e [of m] e [of n]
    by (simp add: hex_digit_inject)
  moreover have "(if m < 16 then [] else show_hex (m div 16)) = (if n < 16 then [] else show_hex (n div 16))"
    using "1.prems" e [of m] e [of n] by simp
  then have "m div 16 = n div 16"
    using "1.IH" by (auto split: if_splits)
  ultimately show ?case by (metis div_mult_mod_eq)
qed

lemma escape_char_inject:
  assumes "escape_char c @ s = escape_char d @ t"
  shows "c = d \<and> s = t"
proof (cases "is_control c \<and> is_control d \<and> c \<notin> {9, 10, 13} \<and> d \<notin> {9, 10, 13}")
  case True
  then have "c \<noteq> 0x5C" "d \<noteq> 0x5C" by (auto simp: is_control_def)
  then have "show_hex c @ 0x7D # s = show_hex d @ 0x7D # t"
    using assms True by (auto simp: escape_char_def)
  then have "show_hex c = show_hex d \<and> s = t"
    by (rule append_stop_inject) (auto dest: show_hex_bytes)
  then show ?thesis using show_hex_inject by blast
next
  case False
  then show ?thesis
    using assms by (auto simp: escape_char_def is_control_def split: if_splits)
qed

lemma escape_text_Cons: "escape_text (c # v) = escape_char c @ escape_text v"
  by (simp add: escape_text_def)

lemma escape_char_nonempty [simp]: "escape_char c \<noteq> []"
  by (simp add: escape_char_def)

lemma escape_text_inject: "escape_text v = escape_text w \<Longrightarrow> v = w"
proof (induction v arbitrary: w)
  case Nil
  then show ?case by (cases w) (auto simp: escape_text_def)
next
  case (Cons c v)
  then obtain d w' where w: "w = d # w'" by (cases w) (auto simp: escape_text_def)
  show ?case using escape_char_inject Cons unfolding w escape_text_Cons by blast
qed

section \<open>Properties\<close>

lemma sample_build: "build 1 sample_inputs = (Inr sample_map, 2)"
  by code_simp

lemma sample_inputs_text: "\<forall>i\<in>set sample_inputs. wf_text (in_text i)"
  by code_simp

lemma sample_wf: "wf_source_map sample_map"
  by (rule build_wf [OF sample_build sample_inputs_text])

text \<open>C1: the result of \<open>SourceMap::build\<close> does not depend on the order of its inputs: every
  permutation of a list of inputs that builds, builds the same map (ids, files, line tables and
  lookup table) and leaves the identity counter at the same value.\<close>

theorem build_order_independent:
  assumes "build n ins = (Inr m, n')" and "mset ins' = mset ins"
  shows "build n ins' = (Inr m, n')"
  using build_perm [OF assms] .

theorem build_order_independent_witness:
  "build 1 (rev sample_inputs) = (Inr sample_map, 2)"
  by (rule build_order_independent [OF sample_build]) simp

text \<open>C2: a built map is well formed (sorted paths, distinct portable identities, exact line
  tables, every limit respected), consumes exactly one map identity, and gives back every input:
  looking an input's path up finds a file with that path and that text.\<close>

theorem build_lookup_roundtrip:
  assumes "build n ins = (Inr m, n')" and "\<forall>i\<in>set ins. wf_text (in_text i)"
  shows "wf_source_map m \<and> sm_len m = length ins \<and> sm_id m = n \<and> unat n' = unat n + 1 \<and>
     (\<forall>i\<in>set ins. \<exists>f src. sm_file_id m (in_path i) = Some f \<and> sm_source m f = Some src \<and>
        sf_path src = in_path i \<and> sf_text src = in_text i \<and> sf_id src = f)"
proof -
  note r = build_Inr [OF assms(1)] and wf = build_wf [OF assms]
  have pairs: "map file_pair (sm_files m) = map input_pair (sort_key in_path ins)" using r by blast
  have "\<exists>f src. sm_file_id m (in_path i) = Some f \<and> sm_source m f = Some src \<and>
        sf_path src = in_path i \<and> sf_text src = in_text i \<and> sf_id src = f" if i: "i \<in> set ins" for i
  proof -
    have "input_pair i \<in> set (map file_pair (sm_files m))" using i unfolding pairs by simp
    then obtain j where "j < length (sm_files m)" "file_pair (sm_files m ! j) = input_pair i"
      by (auto simp: in_set_conv_nth)
    then show ?thesis using wf_source_map_id [OF wf, of j]
      by (auto simp: file_pair_def input_pair_def)
  qed
  moreover have "length (sm_files m) = length ins" using pairs by (metis length_map length_sort)
  ultimately show ?thesis using wf r by (simp add: sm_len_def)
qed

theorem build_lookup_roundtrip_witness:
  "wf_source_map sample_map \<and> sm_len sample_map = 2 \<and>
   (\<exists>f src. sm_file_id sample_map ''lib/b.zry'' = Some f \<and> sm_source sample_map f = Some src \<and>
      sf_text src = [120, 13, 10, 121])"
  using build_lookup_roundtrip [OF sample_build sample_inputs_text]
  by (auto simp: sample_inputs_def)

text \<open>C3: identities never leak between maps: a file id of one built map is unknown to every map
  built later, so each span that carries it is rejected there with the unknown-file error.\<close>

theorem foreign_file_ids_rejected:
  assumes "build n ins = (Inr m, n1)" and "\<forall>i\<in>set ins. wf_text (in_text i)"
    and "build k later = (Inr m2, k1)" and "n1 \<le> k" and "sm_file_id m path = Some f"
  shows "sm_source m2 f = None \<and> sm_span m2 f s e = Inl (unknown_file f)"
proof -
  have "sm_id m = n" "unat n1 = unat n + 1" "sm_id m2 = k"
    using build_Inr [OF assms(1)] build_Inr [OF assms(3)] by auto
  moreover have "source_map_id f = sm_id m"
    using sm_file_id_map_id [OF build_wf [OF assms(1,2)] assms(5)] .
  ultimately have "source_map_id f \<noteq> sm_id m2" using assms(4) by (auto simp: word_le_nat_alt)
  then show ?thesis by (simp add: sm_source_def sm_span_def validated_source_def Let_def)
qed

theorem foreign_file_ids_rejected_witness:
  "\<exists>m2 k. build 2 sample_inputs = (Inr m2, k) \<and> sm_len m2 = 2 \<and>
     sm_span m2 \<lparr>source_map_id = 1, fid_index = 0\<rparr> 0 0 = Inl (unknown_file \<lparr>source_map_id = 1, fid_index = 0\<rparr>)"
proof -
  have "case build 2 sample_inputs of (Inr m2, _) \<Rightarrow> sm_len m2 = 2 | _ \<Rightarrow> False" by code_simp
  then obtain m2 k where b: "build 2 sample_inputs = (Inr m2, k)" "sm_len m2 = 2" by (auto split: prod.splits sum.splits)
  moreover have "sm_file_id sample_map ''a.ZRY'' = Some \<lparr>source_map_id = 1, fid_index = 0\<rparr>"
    by code_simp
  ultimately show ?thesis
    using foreign_file_ids_rejected [OF sample_build sample_inputs_text b(1)] by auto
qed

text \<open>C4: resolving an accepted span never reaches the panic of \<open>resolve_position\<close>, and gives for
  both ends the position of the offset: the last line start at or before it, and the exact
  number of scalars and of UTF-16 units since that line start.\<close>

theorem resolve_accepted_span:
  assumes "wf_source_map m" and "sm_span m file s e = Inr sp"
  shows "\<exists>src a b. sm_source m file = Some src \<and>
     sm_resolve m sp = Some (Inr \<lparr>rs_source = src, rs_start = a, rs_end = b\<rparr>) \<and>
     position_of (sf_text src) (unat s) a \<and> position_of (sf_text src) (unat e) b"
proof -
  let ?sp = "\<lparr>span_file = file, span_start = s, span_end = e\<rparr>"
  obtain src where src: "validated_source m ?sp = Inr src"
    using assms(2) by (cases "validated_source m ?sp") (simp_all add: sm_span_def)
  then have "sp = ?sp" using assms(2) by (simp add: sm_span_def)
  moreover have "sm_source m file = Some src"
    using src validated_source_iff [OF assms(1), of ?sp src] by simp
  moreover note sm_resolve_total [OF assms(1) src]
  ultimately show ?thesis by auto
qed

theorem resolve_accepted_span_witness:
  "\<exists>src a b. sm_resolve sample_map
      \<lparr>span_file = \<lparr>source_map_id = 1, fid_index = 0\<rparr>, span_start = 2, span_end = 6\<rparr> =
        Some (Inr \<lparr>rs_source = src, rs_start = a, rs_end = b\<rparr>) \<and>
     position_of (sf_text src) 6 b"
proof -
  let ?f = "\<lparr>source_map_id = 1, fid_index = 0\<rparr>"
  have "sm_span sample_map ?f 2 6 = Inr \<lparr>span_file = ?f, span_start = 2, span_end = 6\<rparr>"
    by code_simp
  from resolve_accepted_span [OF sample_wf this] show ?thesis by auto
qed

text \<open>C5: UTF-16 offsets, as the language server receives them, translate exactly: a range is
  accepted iff it cuts the text between scalars at these UTF-16 lengths, and the byte span is
  then the one with the UTF-8 lengths of the same three parts.\<close>

theorem span_from_utf16_exact:
  assumes "wf_source_map m"
  shows "span_from_utf16 m file s e = Inr sp \<longleftrightarrow>
     (\<exists>src p q r. sm_source m file = Some src \<and> sf_text src = p @ q @ r \<and>
        utf16_len p = unat s \<and> utf16_len p + utf16_len q = unat e \<and>
        sp = \<lparr>span_file = file, span_start = of_nat (str_len p),
               span_end = of_nat (str_len p + str_len q)\<rparr>)"
  by (rule span_from_utf16_iff [OF assms])

theorem span_from_utf16_exact_witness:
  "span_from_utf16 sample_map \<lparr>source_map_id = 1, fid_index = 0\<rparr> 1 3 =
     Inr \<lparr>span_file = \<lparr>source_map_id = 1, fid_index = 0\<rparr>, span_start = 2, span_end = 6\<rparr>"
  by (subst span_from_utf16_exact [OF sample_wf],
      rule exI [of _ "sm_files sample_map ! 0"], rule exI [of _ "[0xE9]"],
      rule exI [of _ "[0x1F600]"], rule exI [of _ "[10, 122]"], code_simp)

text \<open>C6: an accepted import stays inside the source root: the resolved path passes every check of
  \<open>validate_source_path\<close>, ends in \<open>.zry\<close>, has no dot component, and at no point of the
  specifier have more parent steps been taken than there are enclosing directories.\<close>

theorem import_stays_inside:
  assumes "resolve_explicit_zry_import importer spec = Inr p"
  shows "validate_source_path p = Inr () \<and> has_exact_zry_extension p \<and>
     (\<forall>c\<in>set (split_on CHR ''/'' p). c \<notin> {[], ''.'', ''..''}) \<and>
     never_escapes (length (split_on CHR ''/'' importer) - 1) (split_on CHR ''/'' spec)"
proof -
  note r = resolve_import_Inr [OF assms]
  then have "\<forall>c\<in>set (split_on CHR ''/'' p). validate_component p c = Inr ()"
    by (simp add: validate_source_path_iff)
  then have "\<forall>c\<in>set (split_on CHR ''/'' p). c \<notin> {[], ''.'', ''..''}"
    by (auto simp: validate_component_def)
  moreover have "never_escapes (length (butlast (split_on CHR ''/'' importer))) (split_on CHR ''/'' spec)"
    using r resolve_components_defined by (metis option.distinct(1))
  ultimately show ?thesis using r by simp
qed

theorem import_stays_inside_witness:
  "never_escapes 2 (split_on CHR ''/'' ''../util/./x.zry'')"
proof -
  have "resolve_explicit_zry_import ''app/ui/main.zry'' ''../util/./x.zry'' = Inr ''app/util/x.zry''"
    by code_simp
  from import_stays_inside [OF this] show ?thesis by (simp add: numeral_2_eq_2)
qed

text \<open>What an import means: from a file in directory \<open>base\<close>, the specifier of \<open>n\<close> parent steps
  followed by plain names resolves to those names under the \<open>n\<close>-th enclosing directory,
  whenever that path is a valid source path.\<close>

theorem import_resolution:
  assumes "split_on CHR ''/'' importer = base @ [leaf]" and "split_on CHR ''/'' spec = replicate n ''..'' @ names"
    and "0 < n" and "n \<le> length base" and "\<forall>c\<in>set names. c \<notin> {[], ''.'', ''..''}"
    and "names \<noteq> []"
    and "\<not> list_ex (\<lambda>c. c \<in> {CHR 0x5C, CHR ''?'', CHR 0x23, CHR 0x00}) spec"
    and "\<not> contains_str ''://'' spec" and "is_ascii spec" and "has_exact_zry_extension spec"
    and "p = join_with CHR ''/'' (take (length base - n) base @ names)"
    and "has_exact_zry_extension p" and "validate_source_path p = Inr ()"
  shows "resolve_explicit_zry_import importer spec = Inr p"
proof -
  have "spec = join_with CHR ''/'' (replicate n ''..'' @ names)" using assms(2) by (metis join_split)
  moreover obtain k x xs where "n = Suc k" "names = x # xs" using assms(3,6) by (cases n; cases names) auto
  moreover obtain y ys where "replicate k ''..'' @ x # xs = y # ys" by (cases k) auto
  ultimately have "starts_with ''../'' spec" by (simp add: starts_with_def)
  moreover have "resolve_components base (replicate n ''..'' @ names) =
      Some (take (length base - n) base @ names)"
    using resolve_components_canonical assms(4,5) .
  ultimately show ?thesis using assms
    by (simp add: resolve_explicit_zry_import_def normalized_new_def Let_def)
qed

text \<open>Escaped diagnostic text holds no control character, and escaping loses nothing: two texts
  with the same escaped form are equal.\<close>

theorem escape_text_faithful:
  "(\<forall>d\<in>set (escape_text v). \<not> is_control d) \<and> (escape_text v = escape_text w \<longleftrightarrow> v = w)"
  using escape_char_printable escape_text_inject by (auto simp: escape_text_def)

end
