(* ===== verification/Package.thy ===== *)
theory Package
  imports Zryna_Prelude
begin

text \<open>
  The package resolver, \<open>crates/zryna-package/src\<close>: \<open>model.rs\<close> (the wire records),
  \<open>validation.rs\<close> (names, versions, paths, sources, manifests, file authentication),
  \<open>canonical.rs\<close> (canonical parsing, encoding and digests), \<open>resolver.rs\<close> (loading, selection,
  graph checks, lock), \<open>identity.rs\<close> and \<open>source_trust.rs\<close>.

  \<open>serde_json\<close>, the derived codecs and \<open>sha2\<close> are not part of the repository: they are the fields
  of the record \<open>wire_lib\<close>, an argument of every operation that calls them. The caller's
  \<open>PackageSourceProvider\<close> is a function that threads the provider's own state \<open>'p\<close>.
\<close>

section \<open>Wire records (model.rs)\<close>

datatype package_source_kind = Git | Local

datatype package_source =
  PackageSource (ps_kind: package_source_kind) (ps_locator: string) (ps_revision: string)

instantiation package_source_kind :: linorder
begin

definition less_eq_package_source_kind :: "package_source_kind \<Rightarrow> package_source_kind \<Rightarrow> bool" where
  "less_eq_package_source_kind a b = (a = Git \<or> b = Local)"

definition less_package_source_kind :: "package_source_kind \<Rightarrow> package_source_kind \<Rightarrow> bool" where
  "less_package_source_kind a b = (a = Git \<and> b = Local)"

instance
  by standard
    (auto simp: less_eq_package_source_kind_def less_package_source_kind_def
      intro: package_source_kind.exhaust)

end

definition source_key :: "package_source \<Rightarrow> package_source_kind \<times> string \<times> string" where
  "source_key s = (ps_kind s, ps_locator s, ps_revision s)"

instantiation package_source :: linorder
begin

definition less_eq_package_source :: "package_source \<Rightarrow> package_source \<Rightarrow> bool" where
  "less_eq_package_source a b = (source_key a \<le> source_key b)"

definition less_package_source :: "package_source \<Rightarrow> package_source \<Rightarrow> bool" where
  "less_package_source a b = (source_key a < source_key b)"

instance
proof
  fix a b :: package_source
  assume "a \<le> b" "b \<le> a"
  then have "source_key a = source_key b" by (simp add: less_eq_package_source_def)
  then show "a = b" by (cases a; cases b) (simp add: source_key_def)
qed (auto simp: less_eq_package_source_def less_package_source_def)

end

record compatibility =
  compiler :: string
  profile :: string
  targets :: "string list"

record checksum =
  ck_path :: string
  ck_size :: u64
  ck_sha256 :: string

record dependency =
  dep_alias :: string
  dep_name :: string
  dep_version :: string
  dep_source :: package_source

record manifest =
  mf_format :: string
  mf_name :: string
  mf_version :: string
  mf_source :: package_source
  mf_compatibility :: compatibility
  mf_files :: "checksum list"
  mf_dependencies :: "dependency list"

record lock_edge =
  le_alias :: string
  le_package :: string

record lock_package =
  lp_id :: string
  lp_source_sha256 :: string
  lp_dependencies :: "lock_edge list"

record lock =
  lk_format :: string
  lk_root :: string
  lk_compatibility :: compatibility
  lk_packages :: "lock_package list"

record package_file =
  pf_path :: string
  pf_bytes :: bytes

record package_material =
  pm_manifest :: bytes
  pm_files :: "package_file list"

datatype lock_mode = Update | Frozen bytes

record package_instance =
  pi_id :: string
  pi_source_sha256 :: string

record resolved_package =
  rpk_instance :: package_instance
  rpk_name :: string
  rpk_version :: string
  rpk_source :: package_source
  rpk_dependencies :: "(string \<times> string) list"

record resolved_graph =
  rg_root :: string
  rg_compatibility :: compatibility
  rg_packages :: "resolved_package list"
  rg_lock_bytes :: bytes
  rg_lock_sha256 :: string

record loaded =
  ld_manifest :: manifest
  ld_instance :: package_instance

record resolve_error =
  err_code :: string
  err_detail :: string

definition err_source :: "string \<Rightarrow> resolve_error" where
  "err_source d = \<lparr>err_code = ''ZRYNA-P4004'', err_detail = d\<rparr>"

definition err_budget :: "string \<Rightarrow> resolve_error" where
  "err_budget d = \<lparr>err_code = ''ZRYNA-P4001'', err_detail = d\<rparr>"

definition err_wire :: "string \<Rightarrow> resolve_error" where
  "err_wire d = \<lparr>err_code = ''ZRYNA-P4002'', err_detail = d\<rparr>"

definition err_schema :: "string \<Rightarrow> resolve_error" where
  "err_schema d = \<lparr>err_code = ''ZRYNA-P4003'', err_detail = d\<rparr>"

definition err_path :: "string \<Rightarrow> resolve_error" where
  "err_path d = \<lparr>err_code = ''ZRYNA-P4005'', err_detail = d\<rparr>"

definition err_selection :: "string \<Rightarrow> resolve_error" where
  "err_selection d = \<lparr>err_code = ''ZRYNA-P4006'', err_detail = d\<rparr>"

definition err_identity :: "string \<Rightarrow> resolve_error" where
  "err_identity d = \<lparr>err_code = ''ZRYNA-P4007'', err_detail = d\<rparr>"

definition err_graph :: "string \<Rightarrow> resolve_error" where
  "err_graph d = \<lparr>err_code = ''ZRYNA-P4008'', err_detail = d\<rparr>"

definition err_compatibility :: "string \<Rightarrow> resolve_error" where
  "err_compatibility d = \<lparr>err_code = ''ZRYNA-P4009'', err_detail = d\<rparr>"

definition err_frozen :: "string \<Rightarrow> resolve_error" where
  "err_frozen d = \<lparr>err_code = ''ZRYNA-P4010'', err_detail = d\<rparr>"

definition err_order :: "string \<Rightarrow> resolve_error" where
  "err_order label = \<lparr>err_code = ''ZRYNA-P4003'', err_detail = label @ '' must be sorted and unique''\<rparr>"

section \<open>Canonical bytes (canonical.rs)\<close>

text \<open>The third-party operations: JSON values of type \<open>'v\<close>, the derived codecs, SHA-256.\<close>

record 'v wire_lib =
  from_slice :: "bytes \<Rightarrow> 'v option"
  to_vec :: "'v \<Rightarrow> bytes option"
  manifest_to_value :: "manifest \<Rightarrow> 'v option"
  manifest_from_value :: "'v \<Rightarrow> manifest option"
  lock_to_value :: "lock \<Rightarrow> 'v option"
  lock_from_value :: "'v \<Rightarrow> lock option"
  files_to_value :: "checksum list \<Rightarrow> 'v option"
  coordinate_to_value :: "string \<times> string \<times> package_source \<Rightarrow> 'v option"
  sha256_hex :: "bytes \<Rightarrow> string"

definition MAX_WIRE_BYTES :: usize where "MAX_WIRE_BYTES = 65536"

text \<open>\<open>encode\<close> of a value whose \<open>to_value\<close> is given.\<close>

definition encode :: "'v wire_lib \<Rightarrow> ('a \<Rightarrow> 'v option) \<Rightarrow> 'a \<Rightarrow> resolve_error + bytes" where
  "encode lib conv x =
     try_bind (ok_or (conv x) (err_wire ''record cannot be serialized'')) (\<lambda>v.
     try_bind (ok_or (to_vec lib v) (err_wire ''record cannot be serialized'')) (\<lambda>b.
     Inr (b @ [10])))"

fun check_depth_loop :: "u8 \<Rightarrow> bool \<Rightarrow> bool \<Rightarrow> bytes \<Rightarrow> resolve_error + unit" where
  "check_depth_loop depth quoted escaped [] = Inr ()"
| "check_depth_loop depth quoted escaped (b # bs) =
     (if quoted then
        (if escaped then check_depth_loop depth quoted False bs
         else if b = 0x5C then check_depth_loop depth quoted True bs
         else if b = 0x22 then check_depth_loop depth False escaped bs
         else check_depth_loop depth quoted escaped bs)
      else if b = 0x22 then check_depth_loop depth True escaped bs
      else if b = 0x7B \<or> b = 0x5B then
        (case checked_add depth 1 of
           None \<Rightarrow> Inl (err_budget ''nesting exceeds 6'')
         | Some d \<Rightarrow>
             if 6 < d then Inl (err_budget ''nesting exceeds 6'')
             else check_depth_loop d quoted escaped bs)
      else if b = 0x7D \<or> b = 0x5D then
        check_depth_loop (if depth = 0 then 0 else depth - 1) quoted escaped bs
      else check_depth_loop depth quoted escaped bs)"

definition check_depth :: "bytes \<Rightarrow> resolve_error + unit" where
  "check_depth input = check_depth_loop 0 False False input"

definition parse :: "'v wire_lib \<Rightarrow> ('v \<Rightarrow> 'a option) \<Rightarrow> bytes \<Rightarrow> resolve_error + 'a" where
  "parse lib from_val input =
     (if MAX_WIRE_BYTES < length input then Inl (err_budget ''wire bytes exceed 65536'')
      else
        try_bind (check_depth input) (\<lambda>_.
        try_bind (ok_or (from_slice lib input) (err_wire ''invalid UTF-8 or JSON'')) (\<lambda>v.
        try_bind (encode lib Some v) (\<lambda>e.
        if e \<noteq> input then Inl (err_wire ''JSON bytes are not canonical'')
        else ok_or (from_val v) (err_schema ''closed record schema rejected input'')))))"

definition digest_preimage :: "string \<Rightarrow> bytes \<Rightarrow> bytes" where
  "digest_preimage kind encoded =
     bytes_of ''ZRYNA-PACKAGE-RELEASE-V1'' @ [0] @ bytes_of kind @ [0] @ encoded"

definition digest :: "'v wire_lib \<Rightarrow> ('a \<Rightarrow> 'v option) \<Rightarrow> string \<Rightarrow> 'a \<Rightarrow> resolve_error + string" where
  "digest lib conv kind x =
     try_bind (encode lib conv x) (\<lambda>b. Inr (sha256_hex lib (digest_preimage kind b)))"

section \<open>Validation (validation.rs)\<close>

definition is_lower_hex :: "char \<Rightarrow> bool" where
  "is_lower_hex c = (is_ascii_digit c \<or> (97 \<le> byte_of c \<and> byte_of c \<le> 102))"

definition is_commit :: "string \<Rightarrow> bool" where
  "is_commit v = (length v = 40 \<and> list_all is_lower_hex v)"

definition is_digest :: "string \<Rightarrow> bool" where
  "is_digest v = (length v = 64 \<and> list_all is_lower_hex v)"

definition ordered :: "('a \<Rightarrow> string) \<Rightarrow> 'a list \<Rightarrow> string \<Rightarrow> resolve_error + unit" where
  "ordered key items label =
     (if list_ex (\<lambda>(a, b). key b \<le> key a) (windows2 items) then Inl (err_order label) else Inr ())"

definition portable_byte :: "nat \<times> char \<Rightarrow> bool" where
  "portable_byte = (\<lambda>(index, c).
     is_ascii_lowercase c \<or> is_ascii_digit c \<or>
     0 < index \<and> c \<in> {CHR ''/'', CHR ''.'', CHR ''_'', CHR ''-''})"

definition device_suffix :: "string \<Rightarrow> string \<Rightarrow> bool" where
  "device_suffix p stem =
     (case strip_prefix p stem of
        Some suffix \<Rightarrow> length suffix = 1 \<and> is_ascii_digit (suffix ! 0)
      | None \<Rightarrow> False)"

definition portable_segment :: "string \<Rightarrow> resolve_error + unit" where
  "portable_segment segment =
     (let stem = hd (split_on CHR ''.'' segment);
          reserved = (stem \<in> {''con'', ''prn'', ''aux'', ''nul''}
                      \<or> device_suffix ''com'' stem \<or> device_suffix ''lpt'' stem)
      in if segment = [] \<or> segment \<in> {''.'', ''..''} \<or> ends_with ''.'' segment \<or> reserved
         then Inl (err_path ''invalid portable path segment'') else Inr ())"

definition portable_path :: "string \<Rightarrow> resolve_error + unit" where
  "portable_path v =
     (if v = [] \<or> 96 < length v \<or> \<not> list_all portable_byte (enumerate 0 v)
      then Inl (err_path ''invalid portable path'')
      else try_for_each portable_segment (split_on CHR ''/'' v))"

definition validate_name :: "string \<Rightarrow> resolve_error + unit" where
  "validate_name v =
     (if v = [] \<or> 64 < length v \<or> \<not> is_ascii_lowercase (v ! 0)
         \<or> \<not> list_all (\<lambda>c. is_ascii_lowercase c \<or> is_ascii_digit c \<or> c = CHR ''-'') v
      then Inl (err_schema ''invalid package name or alias'') else Inr ())"

text \<open>\<open>str::parse::<u16>\<close> on a nonempty run of digits.\<close>

definition digits_value :: "string \<Rightarrow> nat" where
  "digits_value s = foldl (\<lambda>acc c. acc * 10 + (byte_of c - 48)) 0 s"

definition parse_u16 :: "string \<Rightarrow> u16 option" where
  "parse_u16 s = (if digits_value s < 2 ^ 16 then Some (of_nat (digits_value s)) else None)"

definition bad_version_part :: "string \<Rightarrow> bool" where
  "bad_version_part part =
     (part = [] \<or> 1 < length part \<and> starts_with ''0'' part \<or> \<not> list_all is_ascii_digit part
      \<or> (case parse_u16 part of None \<Rightarrow> True | Some number \<Rightarrow> 9999 < number))"

definition validate_version :: "string \<Rightarrow> resolve_error + unit" where
  "validate_version v =
     (let parts = split_on CHR ''.'' v
      in if length parts \<noteq> 3 \<or> 14 < length v \<or> list_ex bad_version_part parts
         then Inl (err_schema ''invalid exact package version'') else Inr ())"

definition valid_git_segment :: "string \<Rightarrow> bool" where
  "valid_git_segment segment =
     (segment \<noteq> [] \<and>
      list_all (\<lambda>c. is_ascii_lowercase c \<or> is_ascii_digit c \<or> c \<in> {CHR ''_'', CHR ''-''}) segment)"

definition split_once :: "char \<Rightarrow> string \<Rightarrow> (string \<times> string) option" where
  "split_once d s =
     (if d \<in> set s then Some (takeWhile (\<lambda>c. c \<noteq> d) s, tl (dropWhile (\<lambda>c. c \<noteq> d) s)) else None)"

definition valid_git_host :: "string \<Rightarrow> bool" where
  "valid_git_host host =
     (host \<noteq> [] \<and> hd host \<notin> {CHR ''.'', CHR ''-''} \<and> last host \<notin> {CHR ''.'', CHR ''-''} \<and>
      \<not> list_ex (\<lambda>(a, b). a \<in> {CHR ''.'', CHR ''-''} \<and> b \<in> {CHR ''.'', CHR ''-''}) (windows2 host) \<and>
      list_all (\<lambda>c. is_ascii_lowercase c \<or> is_ascii_digit c \<or> c \<in> {CHR ''.'', CHR ''-''}) host)"

definition canonical_git_locator :: "string \<Rightarrow> bool" where
  "canonical_git_locator v =
     (case Option.bind (strip_prefix ''https://'' v) (strip_suffix ''.git'') of
        None \<Rightarrow> False
      | Some rest \<Rightarrow>
          if 96 < length v \<or> list_ex is_ascii_uppercase v
             \<or> list_ex (\<lambda>c. c \<in> {CHR ''?'', CHR 0x23, CHR ''@'', CHR ''%'', CHR 0x5C}) v
          then False
          else
            (case split_once CHR ''/'' rest of
               None \<Rightarrow> False
             | Some (host, path) \<Rightarrow>
                 valid_git_host host \<and> path \<noteq> [] \<and>
                 list_all valid_git_segment (split_on CHR ''/'' path)))"

definition validate_source :: "package_source \<Rightarrow> resolve_error + unit" where
  "validate_source v =
     (case ps_kind v of
        Local \<Rightarrow>
          if ps_revision v \<noteq> [] then Inl (err_source ''local source revision must be empty'')
          else portable_path (ps_locator v)
      | Git \<Rightarrow>
          if \<not> canonical_git_locator (ps_locator v) \<or> \<not> is_commit (ps_revision v)
          then Inl (err_source
            ''Git source requires a canonical HTTPS .git locator and exact commit'')
          else Inr ())"

definition validate_compatibility :: "compatibility \<Rightarrow> resolve_error + unit" where
  "validate_compatibility v =
     try_bind (validate_version (compiler v)) (\<lambda>_.
     if profile v \<notin> {''i32-v1'', ''control-flow-v1'', ''data-ownership-v1''}
     then Inl (err_schema ''unsupported language profile'')
     else if targets v = [] \<or> 3 < length (targets v)
     then Inl (err_budget ''target count is outside 1..=3'')
     else
       try_bind (ordered (\<lambda>t. t) (targets v) ''targets'') (\<lambda>_.
       if list_ex (\<lambda>t. t \<notin> {''javascript'', ''native-linux-x86_64'', ''webassembly''}) (targets v)
       then Inl (err_schema ''unsupported package target'')
       else Inr ()))"

text \<open>\<open>str::find\<close> of a character from an offset, and the scan of one path for a file that is
  also a directory of it.\<close>

definition find_char :: "char \<Rightarrow> string \<Rightarrow> usize option" where
  "find_char d s = (if d \<in> set s then Some (length (takeWhile (\<lambda>c. c \<noteq> d) s)) else None)"

function collision_scan :: "string list \<Rightarrow> string \<Rightarrow> usize \<Rightarrow> resolve_error + unit" where
  "collision_scan paths path offset =
     (case find_char CHR ''/'' (drop offset path) of
        None \<Rightarrow> Inr ()
      | Some relative \<Rightarrow>
          let slash = offset + relative
          in if take slash path \<in> set paths
             then Inl (err_path ''file and directory paths collide'')
             else collision_scan paths path (slash + 1))"
  by pat_completeness auto
termination
proof (relation "measure (\<lambda>(_, path, offset). length path - offset)", simp)
  fix path :: string and offset relative slash :: usize and paths :: "string list"
  assume f: "find_char CHR ''/'' (drop offset path) = Some relative" and s: "slash = offset + relative"
  have "relative < length (drop offset path)"
    using f takeWhile_shorter [of "\<lambda>c. c \<noteq> CHR ''/''" "CHR ''/''" "drop offset path"]
    by (simp add: find_char_def split: if_splits)
  then show "((paths, path, slash + 1), (paths, path, offset)) \<in>
      measure (\<lambda>(_, path, offset). length path - offset)"
    using s by simp
qed

declare collision_scan.simps [simp del]

definition reject_prefix_collisions :: "checksum list \<Rightarrow> resolve_error + unit" where
  "reject_prefix_collisions files =
     (let paths = sort (remdups (map ck_path files))
      in try_for_each (\<lambda>path. collision_scan paths path 0) paths)"

definition validate_checksum :: "checksum \<Rightarrow> resolve_error + unit" where
  "validate_checksum file =
     try_bind (portable_path (ck_path file)) (\<lambda>_.
     if 1024 < ck_size file \<or> \<not> is_digest (ck_sha256 file)
     then Inl (err_schema ''invalid source checksum record'') else Inr ())"

definition validate_dependency :: "dependency \<Rightarrow> resolve_error + unit" where
  "validate_dependency d =
     try_bind (validate_name (dep_alias d)) (\<lambda>_.
     try_bind (validate_name (dep_name d)) (\<lambda>_.
     try_bind (validate_version (dep_version d)) (\<lambda>_.
     validate_source (dep_source d))))"

definition validate_manifest :: "manifest \<Rightarrow> resolve_error + unit" where
  "validate_manifest m =
     (if mf_format m \<noteq> ''zryna.package.v1''
      then Inl (err_schema ''unsupported package manifest format'')
      else
        try_bind (validate_name (mf_name m)) (\<lambda>_.
        try_bind (validate_version (mf_version m)) (\<lambda>_.
        try_bind (validate_source (mf_source m)) (\<lambda>_.
        try_bind (validate_compatibility (mf_compatibility m)) (\<lambda>_.
        if mf_files m = [] \<or> 16 < length (mf_files m)
        then Inl (err_budget ''source file count is outside 1..=16'')
        else if 8 < length (mf_dependencies m)
        then Inl (err_budget ''dependency count exceeds 8'')
        else
          try_bind (ordered ck_path (mf_files m) ''source files'') (\<lambda>_.
          try_bind (ordered dep_alias (mf_dependencies m) ''dependencies'') (\<lambda>_.
          try_bind (try_for_each validate_checksum (mf_files m)) (\<lambda>_.
          try_bind (reject_prefix_collisions (mf_files m)) (\<lambda>_.
          try_for_each validate_dependency (mf_dependencies m))))))))))"

definition file_differs :: "'v wire_lib \<Rightarrow> checksum \<times> package_file \<Rightarrow> bool" where
  "file_differs lib = (\<lambda>(expected, actual).
     ck_path expected \<noteq> pf_path actual
     \<or> unat (ck_size expected) \<noteq> length (pf_bytes actual)
     \<or> ck_sha256 expected \<noteq> sha256_hex lib (pf_bytes actual))"

definition authenticate_files ::
    "'v wire_lib \<Rightarrow> manifest \<Rightarrow> package_file list \<Rightarrow> resolve_error + string" where
  "authenticate_files lib m files =
     (let sorted_files = sort_key pf_path files
      in if length sorted_files \<noteq> length (mf_files m)
         then Inl (err_source ''source inventory is missing or contains extra files'')
         else if list_ex (file_differs lib) (zip (mf_files m) sorted_files)
         then Inl (err_source ''source inventory bytes differ from the manifest'')
         else digest lib (files_to_value lib) ''source-files'' (mf_files m))"

section \<open>Resolution (resolver.rs)\<close>

text \<open>One iteration of the loading loop after the duplicate and budget checks: the package is
  requested from the provider, parsed, validated, bound to the requested source, identified and
  its files authenticated.\<close>

definition load_one ::
    "'v wire_lib \<Rightarrow> ('p \<Rightarrow> package_source \<Rightarrow> (resolve_error + package_material) \<times> 'p) \<Rightarrow>
     'p \<Rightarrow> package_source \<Rightarrow> (resolve_error + loaded) \<times> 'p" where
  "load_one lib load p source =
     (case load p source of
        (Inl e, p') \<Rightarrow> (Inl e, p')
      | (Inr material, p') \<Rightarrow>
          (try_bind (parse lib (manifest_from_value lib) (pm_manifest material)) (\<lambda>m.
           try_bind (validate_manifest m) (\<lambda>_.
           if mf_source m \<noteq> source
           then Inl (err_source ''loaded manifest substitutes the requested source'')
           else
             try_bind (digest lib (manifest_to_value lib) ''manifest'' m) (\<lambda>i.
             try_bind (authenticate_files lib m (pm_files material)) (\<lambda>sha.
             Inr \<lparr>ld_manifest = m, ld_instance = \<lparr>pi_id = i, pi_source_sha256 = sha\<rparr>\<rparr>)))), p'))"

text \<open>The loop pops its worklist; \<open>None\<close> would be a loop that never ends.\<close>

partial_function (option) load_loop ::
    "'v wire_lib \<Rightarrow> ('p \<Rightarrow> package_source \<Rightarrow> (resolve_error + package_material) \<times> 'p) \<Rightarrow>
     'p \<Rightarrow> package_source list \<Rightarrow> (package_source \<times> loaded) list \<Rightarrow>
     ((resolve_error + (package_source \<times> loaded) list) \<times> 'p) option" where
  "load_loop lib load p pending loaded_by_source =
     (case pending of
        [] \<Rightarrow> Some (Inr loaded_by_source, p)
      | source # pending \<Rightarrow>
          if bt_get loaded_by_source source \<noteq> None then load_loop lib load p pending loaded_by_source
          else if length loaded_by_source = 16
          then Some (Inl (err_budget ''package count exceeds 16''), p)
          else
            (case load_one lib load p source of
               (Inl e, p') \<Rightarrow> Some (Inl e, p')
             | (Inr l, p') \<Rightarrow>
                 load_loop lib load p'
                   (map dep_source (mf_dependencies (ld_manifest l)) @ pending)
                   (bt_insert source l loaded_by_source)))"

declare load_loop.simps [code]

definition load_packages ::
    "'v wire_lib \<Rightarrow> ('p \<Rightarrow> package_source \<Rightarrow> (resolve_error + package_material) \<times> 'p) \<Rightarrow>
     'p \<Rightarrow> package_source \<Rightarrow>
     ((resolve_error + (package_source \<times> loaded) list) \<times> 'p) option" where
  "load_packages lib load p root_source = load_loop lib load p [root_source] []"

definition validate_lock_package :: "lock_package \<Rightarrow> resolve_error + unit" where
  "validate_lock_package p =
     (if \<not> is_digest (lp_id p) \<or> \<not> is_digest (lp_source_sha256 p)
      then Inl (err_schema ''invalid lock package identity'')
      else if 8 < length (lp_dependencies p)
      then Inl (err_budget ''lock dependency count exceeds 8'')
      else if list_ex (\<lambda>(a, b). le_alias b \<le> le_alias a) (windows2 (lp_dependencies p))
      then Inl (err_schema ''lock edges must be sorted and unique'')
      else
        try_for_each (\<lambda>edge.
          try_bind (validate_name (le_alias edge)) (\<lambda>_.
          if \<not> is_digest (le_package edge)
          then Inl (err_schema ''invalid lock edge identity'') else Inr ()))
        (lp_dependencies p))"

definition validate_lock_shape :: "lock \<Rightarrow> resolve_error + unit" where
  "validate_lock_shape k =
     (if lk_format k \<noteq> ''zryna.lock.v1'' \<or> \<not> is_digest (lk_root k)
      then Inl (err_schema ''invalid lock format or root identity'')
      else
        try_bind (validate_compatibility (lk_compatibility k)) (\<lambda>_.
        if lk_packages k = [] \<or> 16 < length (lk_packages k)
        then Inl (err_budget ''lock package count is outside 1..=16'')
        else if list_ex (\<lambda>(a, b). lp_id b \<le> lp_id a) (windows2 (lk_packages k))
        then Inl (err_schema ''lock packages must be sorted and unique'')
        else try_for_each validate_lock_package (lk_packages k)))"

definition reject_duplicate_instances :: "resolved_package list \<Rightarrow> resolve_error + unit" where
  "reject_duplicate_instances packages =
     (if list_ex (\<lambda>(a, b). pi_id (rpk_instance a) = pi_id (rpk_instance b) \<and>
            pi_source_sha256 (rpk_instance a) \<noteq> pi_source_sha256 (rpk_instance b))
          (windows2 packages)
      then Inl (err_identity ''one manifest identity has incompatible source instances'')
      else Inr ())"

type_synonym package_index = "(string \<times> resolved_package) list"

definition index_by_id :: "resolved_package list \<Rightarrow> package_index" where
  "index_by_id packages =
     foldl (\<lambda>m p. bt_insert (pi_id (rpk_instance p)) p m) [] packages"

text \<open>States of the graph walk: 1 is on the current path, 2 is finished.\<close>

definition unvisited :: "package_index \<Rightarrow> (string \<times> u8) list \<Rightarrow> string set" where
  "unvisited by_id state = {i \<in> dom (bt_get by_id). bt_get state i \<noteq> Some 1 \<and> bt_get state i \<noteq> Some 2}"

lemma finite_unvisited [simp]: "finite (unvisited by_id state)"
  by (simp add: unvisited_def finite_dom_map_of)

function graph_walk ::
    "package_index \<Rightarrow> (string \<times> bool) list \<Rightarrow> (string \<times> u8) list \<Rightarrow> resolve_error + (string \<times> u8) list"
where
  "graph_walk by_id [] state = Inr state"
| "graph_walk by_id ((i, leaving) # stack) state =
     (if leaving then graph_walk by_id stack (bt_insert i 2 state)
      else if bt_get state i = Some 1 then Inl (err_graph ''package dependency cycle'')
      else if bt_get state i = Some 2 then graph_walk by_id stack state
      else
        (case bt_get by_id i of
           None \<Rightarrow> Inl (err_graph ''dependency edge selects an absent package'')
         | Some package \<Rightarrow>
             graph_walk by_id
               (map (\<lambda>(_, child). (child, False)) (rpk_dependencies package) @ (i, True) # stack)
               (bt_insert i 1 state)))"
  by pat_completeness auto
termination
proof (relation "measures [\<lambda>(by_id, _, state). card (unvisited by_id state), \<lambda>(_, stack, _). length stack]",
    goal_cases)
  case (2 by_id i leaving stack state)
  have "unvisited by_id (bt_insert i 2 state) \<subseteq> unvisited by_id state"
    by (auto simp: unvisited_def)
  then have "card (unvisited by_id (bt_insert i 2 state)) \<le> card (unvisited by_id state)"
    by (rule card_mono [rotated]) simp
  then show ?case by auto
next
  case (4 by_id i leaving stack state package)
  have "i \<in> unvisited by_id state" using 4 by (auto simp: unvisited_def)
  moreover have "unvisited by_id (bt_insert i 1 state) \<subseteq> unvisited by_id state - {i}"
    by (auto simp: unvisited_def)
  ultimately have "unvisited by_id (bt_insert i 1 state) \<subset> unvisited by_id state" by blast
  then show ?case by (simp add: psubset_card_mono)
qed auto

definition reject_cycles_and_orphans :: "string \<Rightarrow> resolved_package list \<Rightarrow> resolve_error + unit" where
  "reject_cycles_and_orphans root packages =
     try_bind (graph_walk (index_by_id packages) [(root, False)] []) (\<lambda>state.
     if length (filter (\<lambda>(_, v). v = 2) state) \<noteq> length packages
     then Inl (err_graph ''unreachable package'') else Inr ())"

type_synonym coordinate_index = "(bytes \<times> loaded list) list"

definition matches_at :: "coordinate_index \<Rightarrow> bytes \<Rightarrow> loaded list" where
  "matches_at index key = (case bt_get index key of None \<Rightarrow> [] | Some ls \<Rightarrow> ls)"

definition incompatible :: "compatibility \<Rightarrow> compatibility \<Rightarrow> bool" where
  "incompatible root c =
     (compiler c \<noteq> compiler root \<or> profile c \<noteq> profile root
      \<or> \<not> list_all (\<lambda>t. t \<in> set (targets c)) (targets root))"

fun index_coordinates ::
    "'v wire_lib \<Rightarrow> compatibility \<Rightarrow> loaded list \<Rightarrow> coordinate_index \<Rightarrow> resolve_error + coordinate_index"
where
  "index_coordinates lib cmpt [] index = Inr index"
| "index_coordinates lib cmpt (l # ls) index =
     try_bind (encode lib (coordinate_to_value lib)
        (mf_name (ld_manifest l), mf_version (ld_manifest l), mf_source (ld_manifest l))) (\<lambda>key.
     let index' = bt_insert key (matches_at index key @ [l]) index
     in if incompatible cmpt (mf_compatibility (ld_manifest l))
        then Inl (err_compatibility
          ''dependency compiler/profile or target coverage differs from the root'')
        else index_coordinates lib cmpt ls index')"

definition select_dependency ::
    "'v wire_lib \<Rightarrow> coordinate_index \<Rightarrow> dependency \<Rightarrow> resolve_error + (string \<times> string)" where
  "select_dependency lib index d =
     try_bind (encode lib (coordinate_to_value lib) (dep_name d, dep_version d, dep_source d)) (\<lambda>key.
     let found = matches_at index key
     in if length found \<noteq> 1
        then Inl (err_selection
          ''exact dependency is absent or has incompatible duplicate instances'')
        else Inr (dep_alias d, pi_id (ld_instance (found ! 0))))"

definition resolve_package ::
    "'v wire_lib \<Rightarrow> coordinate_index \<Rightarrow> loaded \<Rightarrow> resolve_error + resolved_package" where
  "resolve_package lib index l =
     try_bind (try_map (select_dependency lib index) (mf_dependencies (ld_manifest l))) (\<lambda>deps.
     Inr \<lparr>rpk_instance = ld_instance l, rpk_name = mf_name (ld_manifest l),
          rpk_version = mf_version (ld_manifest l), rpk_source = mf_source (ld_manifest l),
          rpk_dependencies = deps\<rparr>)"

definition lock_of :: "string \<Rightarrow> compatibility \<Rightarrow> resolved_package list \<Rightarrow> lock" where
  "lock_of root cmpt packages =
     \<lparr>lk_format = ''zryna.lock.v1'', lk_root = root, lk_compatibility = cmpt,
      lk_packages =
        map (\<lambda>p. \<lparr>lp_id = pi_id (rpk_instance p),
                  lp_source_sha256 = pi_source_sha256 (rpk_instance p),
                  lp_dependencies =
                    map (\<lambda>(al, package). \<lparr>le_alias = al, le_package = package\<rparr>) (rpk_dependencies p)\<rparr>)
          packages\<rparr>"

text \<open>The pure part of \<open>resolve\<close>, from the loaded packages to the graph.\<close>

definition resolve_loaded ::
    "'v wire_lib \<Rightarrow> package_source \<Rightarrow> lock option \<Rightarrow> (package_source \<times> loaded) list \<Rightarrow>
     resolve_error + resolved_graph" where
  "resolve_loaded lib root_source frozen loaded_by_source =
     try_bind (ok_or (bt_get loaded_by_source root_source)
        (err_selection ''root package was not loaded'')) (\<lambda>root_loaded.
     let cmpt = mf_compatibility (ld_manifest root_loaded);
         root = pi_id (ld_instance root_loaded)
     in try_bind (index_coordinates lib cmpt (map snd loaded_by_source) []) (\<lambda>index.
        try_bind (try_map (resolve_package lib index) (map snd loaded_by_source)) (\<lambda>unsorted.
        let packages = sort_key (\<lambda>p. pi_id (rpk_instance p)) unsorted
        in try_bind (reject_duplicate_instances packages) (\<lambda>_.
           try_bind (reject_cycles_and_orphans root packages) (\<lambda>_.
           let lk = lock_of root cmpt packages
           in try_bind (encode lib (lock_to_value lib) lk) (\<lambda>lock_bytes.
              if (case frozen of Some f \<Rightarrow> f \<noteq> lk | None \<Rightarrow> False)
              then Inl (err_frozen ''frozen lock differs from the resolved graph'')
              else
                try_bind (digest lib (lock_to_value lib) ''lock'' lk) (\<lambda>sha.
                Inr \<lparr>rg_root = root, rg_compatibility = cmpt, rg_packages = packages,
                     rg_lock_bytes = lock_bytes, rg_lock_sha256 = sha\<rparr>)))))))"

definition read_frozen :: "'v wire_lib \<Rightarrow> lock_mode \<Rightarrow> resolve_error + lock option" where
  "read_frozen lib mode =
     (case mode of
        Update \<Rightarrow> Inr None
      | Frozen input \<Rightarrow>
          try_bind (parse lib (lock_from_value lib) input) (\<lambda>k.
          try_bind (validate_lock_shape k) (\<lambda>_. Inr (Some k))))"

definition resolve ::
    "'v wire_lib \<Rightarrow> ('p \<Rightarrow> package_source \<Rightarrow> (resolve_error + package_material) \<times> 'p) \<Rightarrow>
     'p \<Rightarrow> package_source \<Rightarrow> lock_mode \<Rightarrow> ((resolve_error + resolved_graph) \<times> 'p) option" where
  "resolve lib load p root_source mode =
     (case try_bind (validate_source root_source) (\<lambda>_. read_frozen lib mode) of
        Inl e \<Rightarrow> Some (Inl e, p)
      | Inr frozen \<Rightarrow>
          (case load_packages lib load p root_source of
             None \<Rightarrow> None
           | Some (Inl e, p') \<Rightarrow> Some (Inl e, p')
           | Some (Inr loaded_by_source, p') \<Rightarrow>
               Some (resolve_loaded lib root_source frozen loaded_by_source, p')))"

section \<open>Semantic domains (identity.rs) and source trust (source\_trust.rs)\<close>

datatype graph_role = TargetRuntime

record package_semantic_domain =
  sd_role :: graph_role
  sd_profile :: string
  sd_package :: package_instance

definition package_semantic_domain_of ::
    "resolved_graph \<Rightarrow> string \<Rightarrow> resolve_error + package_semantic_domain" where
  "package_semantic_domain_of g package_id =
     try_bind (ok_or (List.find (\<lambda>p. pi_id (rpk_instance p) = package_id) (rg_packages g))
        (err_identity ''semantic-domain package is absent from the graph'')) (\<lambda>p.
     Inr \<lparr>sd_role = TargetRuntime, sd_profile = profile (rg_compatibility g),
          sd_package = rpk_instance p\<rparr>)"

datatype source_trust_mode = PureSource | TrustedNative | UntrustedPlayground

datatype native_recipe_disposition = Forbidden | RequiresApprovalAndIsolation

datatype source_trust_mode_error = SourceTrustModeError

fun trust_mode_as_str :: "source_trust_mode \<Rightarrow> string" where
  "trust_mode_as_str PureSource = ''pure-source''"
| "trust_mode_as_str TrustedNative = ''trusted-native''"
| "trust_mode_as_str UntrustedPlayground = ''untrusted-playground''"

definition trust_mode_from_str :: "string \<Rightarrow> source_trust_mode_error + source_trust_mode" where
  "trust_mode_from_str v =
     (if v = ''pure-source'' then Inr PureSource
      else if v = ''trusted-native'' then Inr TrustedNative
      else if v = ''untrusted-playground'' then Inr UntrustedPlayground
      else Inl SourceTrustModeError)"

fun native_recipe_disposition_of :: "source_trust_mode \<Rightarrow> native_recipe_disposition" where
  "native_recipe_disposition_of PureSource = Forbidden"
| "native_recipe_disposition_of UntrustedPlayground = Forbidden"
| "native_recipe_disposition_of TrustedNative = RequiresApprovalAndIsolation"

end
