(* ===== verification/Package_Facts.thy ===== *)
theory Package_Facts
  imports Package
begin

text \<open>
  What the package resolver promises: the graph walk accepts exactly the acyclic graphs whose
  packages are all reachable from the root; loading ends and visits at most 16 packages; a
  resolved graph is closed, authenticated, compatible and exact; frozen locks replay; manifests,
  versions, paths, file inventories and wire nesting are validated exactly.
\<close>

section \<open>Specification vocabulary\<close>

definition index_edges :: "package_index \<Rightarrow> (string \<times> string) set" where
  "index_edges by_id = {(i, c). \<exists>p. bt_get by_id i = Some p \<and> c \<in> snd ` set (rpk_dependencies p)}"

definition gray :: "(string \<times> u8) list \<Rightarrow> string set" where
  "gray state = {i. bt_get state i = Some 1}"

definition black :: "(string \<times> u8) list \<Rightarrow> string set" where
  "black state = {i. bt_get state i = Some 2}"

text \<open>The invariant of the walk. The leaving markers of the stack are the nodes on the current
  path; a node on the path reaches everything stacked above its marker, and its children are
  finished or stacked above it; the finished nodes are closed under edges and acyclic.\<close>

definition walk_inv :: "package_index \<Rightarrow> (string \<times> bool) list \<Rightarrow> (string \<times> u8) list \<Rightarrow> bool" where
  "walk_inv by_id stack state =
     (bt_wf state \<and> ran (bt_get state) \<subseteq> {1, 2} \<and>
      distinct (map fst (filter snd stack)) \<and> set (map fst (filter snd stack)) = gray state \<and>
      gray state \<union> black state \<subseteq> dom (bt_get by_id) \<and>
      (\<forall>i\<in>black state. index_edges by_id `` {i} \<subseteq> black state) \<and>
      acyclic {(a, b) \<in> index_edges by_id. a \<in> black state} \<and>
      (\<forall>upper i lower. stack = upper @ (i, True) # lower \<longrightarrow>
         (\<forall>(c, l)\<in>set upper. (i, c) \<in> (index_edges by_id)\<^sup>+) \<and>
         index_edges by_id `` {i} \<subseteq> black state \<union> fst ` set upper))"

text \<open>The edges of a list of resolved packages.\<close>

definition package_ids :: "resolved_package list \<Rightarrow> string list" where
  "package_ids packages = map (\<lambda>p. pi_id (rpk_instance p)) packages"

definition dependency_edges :: "resolved_package list \<Rightarrow> (string \<times> string) set" where
  "dependency_edges packages =
     {(pi_id (rpk_instance p), c) | p c. p \<in> set packages \<and> c \<in> snd ` set (rpk_dependencies p)}"

text \<open>What \<open>load_one\<close> guarantees of a package it accepts for a source.\<close>

definition loaded_ok :: "'v wire_lib \<Rightarrow> package_source \<Rightarrow> loaded \<Rightarrow> bool" where
  "loaded_ok lib source l =
     (mf_source (ld_manifest l) = source \<and> validate_manifest (ld_manifest l) = Inr () \<and>
      digest lib (manifest_to_value lib) ''manifest'' (ld_manifest l) = Inr (pi_id (ld_instance l)) \<and>
      (\<exists>files. authenticate_files lib (ld_manifest l) files = Inr (pi_source_sha256 (ld_instance l))))"

definition load_inv ::
    "'v wire_lib \<Rightarrow> package_source list \<Rightarrow> (package_source \<times> loaded) list \<Rightarrow> bool" where
  "load_inv lib pending loaded_by_source =
     (bt_wf loaded_by_source \<and> length loaded_by_source \<le> 16 \<and>
      (\<forall>(s, l)\<in>set loaded_by_source. loaded_ok lib s l \<and>
         (\<forall>d\<in>set (mf_dependencies (ld_manifest l)).
            dep_source d \<in> set pending \<union> dom (bt_get loaded_by_source))))"

definition coordinates :: "loaded \<Rightarrow> string \<times> string \<times> package_source" where
  "coordinates l = (mf_name (ld_manifest l), mf_version (ld_manifest l), mf_source (ld_manifest l))"

definition dependency_coordinates :: "dependency \<Rightarrow> string \<times> string \<times> package_source" where
  "dependency_coordinates d = (dep_name d, dep_version d, dep_source d)"

text \<open>What the resolver relies on of the third-party codecs: the coordinate encoding is
  injective, an encoded lock reads back, and digests are spelled as 64 lowercase hex digits.\<close>

definition coordinate_codec :: "'v wire_lib \<Rightarrow> bool" where
  "coordinate_codec lib =
     (\<forall>x y b. encode lib (coordinate_to_value lib) x = Inr b \<longrightarrow>
              encode lib (coordinate_to_value lib) y = Inr b \<longrightarrow> x = y)"

definition lock_codec :: "'v wire_lib \<Rightarrow> bool" where
  "lock_codec lib =
     (\<forall>k v b. lock_to_value lib k = Some v \<longrightarrow> to_vec lib v = Some b \<longrightarrow>
        from_slice lib (b @ [10]) = Some v \<and> lock_from_value lib v = Some k)"

definition hex_digests :: "'v wire_lib \<Rightarrow> bool" where
  "hex_digests lib = (\<forall>b. is_digest (sha256_hex lib b))"

text \<open>A resolved package stands for a validated manifest: identified by its digest, with
  authenticated files, compatible with the root, and with one edge per dependency that leads to
  the package of exactly the requested name, version and source.\<close>

definition package_of_manifest ::
    "'v wire_lib \<Rightarrow> compatibility \<Rightarrow> resolved_package list \<Rightarrow> resolved_package \<Rightarrow> manifest \<Rightarrow> bool" where
  "package_of_manifest lib root_comp packages p m =
     (validate_manifest m = Inr () \<and>
      digest lib (manifest_to_value lib) ''manifest'' m = Inr (pi_id (rpk_instance p)) \<and>
      (\<exists>files. authenticate_files lib m files = Inr (pi_source_sha256 (rpk_instance p))) \<and>
      rpk_name p = mf_name m \<and> rpk_version p = mf_version m \<and> rpk_source p = mf_source m \<and>
      \<not> incompatible root_comp (mf_compatibility m) \<and>
      list_all2 (\<lambda>d (al, i). al = dep_alias d \<and>
          (\<exists>q\<in>set packages. pi_id (rpk_instance q) = i \<and> rpk_name q = dep_name d \<and>
             rpk_version q = dep_version d \<and> rpk_source q = dep_source d))
        (mf_dependencies m) (rpk_dependencies p))"

text \<open>The shape of a resolved graph.\<close>

definition resolved_graph_ok :: "'v wire_lib \<Rightarrow> package_source \<Rightarrow> resolved_graph \<Rightarrow> bool" where
  "resolved_graph_ok lib src g =
     (length (rg_packages g) \<le> 16 \<and>
      sorted_wrt (<) (package_ids (rg_packages g)) \<and>
      acyclic (dependency_edges (rg_packages g)) \<and>
      (dependency_edges (rg_packages g))\<^sup>* `` {rg_root g} = set (package_ids (rg_packages g)) \<and>
      (\<exists>r\<in>set (rg_packages g). pi_id (rpk_instance r) = rg_root g \<and> rpk_source r = src) \<and>
      (\<forall>p\<in>set (rg_packages g). \<exists>m. package_of_manifest lib (rg_compatibility g) (rg_packages g) p m))"

abbreviation graph_lock :: "resolved_graph \<Rightarrow> lock" where
  "graph_lock g \<equiv> lock_of (rg_root g) (rg_compatibility g) (rg_packages g)"

definition file_record :: "'v wire_lib \<Rightarrow> package_file \<Rightarrow> string \<times> nat \<times> string" where
  "file_record lib f = (pf_path f, length (pf_bytes f), sha256_hex lib (pf_bytes f))"

definition checksum_record :: "checksum \<Rightarrow> string \<times> nat \<times> string" where
  "checksum_record c = (ck_path c, unat (ck_size c), ck_sha256 c)"

text \<open>The unbounded scan: nesting depth, inside a string, after a backslash.\<close>

fun nest_step :: "nat \<times> bool \<times> bool \<Rightarrow> u8 \<Rightarrow> nat \<times> bool \<times> bool" where
  "nest_step (d, q, e) b =
     (if q then (d, \<not> (\<not> e \<and> b = 0x22), \<not> e \<and> b = 0x5C)
      else if b = 0x22 then (d, True, e)
      else if b = 0x7B \<or> b = 0x5B then (d + 1, q, e)
      else if b = 0x7D \<or> b = 0x5D then (d - 1, q, e)
      else (d, q, e))"

definition nesting :: "bytes \<Rightarrow> nat" where
  "nesting bs = fst (foldl nest_step (0, False, False) bs)"

lemma walk_inv_split:
  "walk_inv by_id (upper @ (i, True) # lower) state \<Longrightarrow>
     (\<forall>(c, l)\<in>set upper. (i, c) \<in> (index_edges by_id)\<^sup>+) \<and>
     index_edges by_id `` {i} \<subseteq> black state \<union> fst ` set upper"
  unfolding walk_inv_def by blast

lemma ran_upd_subset: "ran m \<subseteq> S \<Longrightarrow> v \<in> S \<Longrightarrow> ran (m(k \<mapsto> v)) \<subseteq> S"
  by (auto simp: ran_def)

lemma Image_subset_mono: "B \<subseteq> r `` A \<Longrightarrow> A \<subseteq> A' \<Longrightarrow> B \<subseteq> r `` A'"
  by blast

lemma acyclic_add_source:
  assumes "acyclic {(a, b) \<in> E. a \<in> B}" and "\<forall>a\<in>B. E `` {a} \<subseteq> B" and "E `` {i} \<subseteq> B" and "i \<notin> B"
  shows "acyclic {(a, b) \<in> E. a \<in> insert i B}"
proof (rule acyclicI, rule allI, rule notI)
  fix x assume c: "(x, x) \<in> {(a, b) \<in> E. a \<in> insert i B}\<^sup>+"
  have into: "b \<in> B" if "(a, b) \<in> {(a, b) \<in> E. a \<in> insert i B}\<^sup>+" for a b
    using that by (induction rule: trancl.induct) (use assms in blast)+
  then have "x \<in> B" using c .
  have "(a, b) \<in> {(a, b) \<in> E. a \<in> B}\<^sup>+" if "(a, b) \<in> {(a, b) \<in> E. a \<in> insert i B}\<^sup>+" "a \<in> B" for a b
    using that
  proof (induction rule: trancl.induct)
    case (r_into_trancl a b)
    then show ?case by (intro trancl.r_into_trancl) auto
  next
    case (trancl_into_trancl a b c)
    have "b \<in> B" using into trancl_into_trancl.hyps(1) .
    then have "(b, c) \<in> {(a, b) \<in> E. a \<in> B}" using trancl_into_trancl.hyps(2) by simp
    then show ?case using trancl_into_trancl.IH [OF trancl_into_trancl.prems]
      by (rule trancl.trancl_into_trancl [rotated])
  qed
  then show False using c \<open>x \<in> B\<close> assms(1) by (auto simp: acyclic_def)
qed

lemma gray_insert: "gray (bt_insert i v state) = (if v = 1 then insert i (gray state) else gray state - {i})"
  by (auto simp: gray_def)

lemma black_insert: "black (bt_insert i v state) = (if v = 2 then insert i (black state) else black state - {i})"
  by (auto simp: black_def)

lemma gray_black_disjoint: "gray state \<inter> black state = {}"
  by (auto simp: gray_def black_def)

lemma walk_inv_leave:
  assumes inv: "walk_inv by_id ((i, True) # stack) state"
  shows "walk_inv by_id stack (bt_insert i 2 state)"
proof -
  have ig: "i \<in> gray state" using inv unfolding walk_inv_def by auto
  then have nb: "i \<notin> black state" using gray_black_disjoint by blast
  have ch: "index_edges by_id `` {i} \<subseteq> black state"
    using walk_inv_split [of by_id "[]" i stack state] inv by simp
  have g: "gray (bt_insert i 2 state) = gray state - {i}" and b: "black (bt_insert i 2 state) = insert i (black state)"
    by (simp_all add: gray_insert black_insert)
  have old: "bt_wf state" "gray state \<union> black state \<subseteq> dom (bt_get by_id)"
    "\<forall>i\<in>black state. index_edges by_id `` {i} \<subseteq> black state"
    "acyclic {(a, b) \<in> index_edges by_id. a \<in> black state}" "ran (bt_get state) \<subseteq> {1, 2}"
    "distinct (map fst (filter snd ((i, True) # stack)))"
    "set (map fst (filter snd ((i, True) # stack))) = gray state"
    using inv by (simp_all add: walk_inv_def)
  have splits: "(\<forall>(c, l)\<in>set upper. (j, c) \<in> (index_edges by_id)\<^sup>+) \<and>
      index_edges by_id `` {j} \<subseteq> insert i (black state) \<union> fst ` set upper"
    if "stack = upper @ (j, True) # lower" for upper j lower
    using walk_inv_split [of by_id "(i, True) # upper" j lower state] inv that by auto
  show ?thesis
    unfolding walk_inv_def g b
  proof (intro conjI)
    show "acyclic {(a, b) \<in> index_edges by_id. a \<in> insert i (black state)}"
      by (rule acyclic_add_source [OF old(4,3) ch nb])
    show "ran (bt_get (bt_insert i 2 state)) \<subseteq> {1, 2}"
      unfolding bt_get_insert by (rule ran_upd_subset [OF old(5)]) simp
    show "\<forall>upper j lower. stack = upper @ (j, True) # lower \<longrightarrow>
        (\<forall>(c, l)\<in>set upper. (j, c) \<in> (index_edges by_id)\<^sup>+) \<and>
        index_edges by_id `` {j} \<subseteq> insert i (black state) \<union> fst ` set upper"
      using splits by blast
    show "gray state - {i} \<union> insert i (black state) \<subseteq> dom (bt_get by_id)" using old(2) ig by auto
    show "\<forall>j\<in>insert i (black state). index_edges by_id `` {j} \<subseteq> insert i (black state)"
      using old(3) ch by auto
  qed (use bt_wf_insert [OF old(1)] old(6,7) in auto)
qed

lemma walk_inv_pop_black:
  assumes inv: "walk_inv by_id ((i, False) # stack) state" and "i \<in> black state"
  shows "walk_inv by_id stack state"
proof -
  have "(\<forall>(c, l)\<in>set upper. (j, c) \<in> (index_edges by_id)\<^sup>+) \<and>
      index_edges by_id `` {j} \<subseteq> black state \<union> fst ` set upper"
    if "stack = upper @ (j, True) # lower" for upper j lower
    using walk_inv_split [of by_id "(i, False) # upper" j lower state] inv that assms(2) by auto
  then show ?thesis using inv unfolding walk_inv_def by auto
qed

lemma walk_inv_enter:
  assumes inv: "walk_inv by_id ((i, False) # stack) state" and fresh: "i \<notin> gray state" "i \<notin> black state"
    and pkg: "bt_get by_id i = Some package"
  defines "children \<equiv> map (\<lambda>(_, child). (child, False)) (rpk_dependencies package)"
  shows "walk_inv by_id (children @ (i, True) # stack) (bt_insert i 1 state)"
proof -
  have g: "gray (bt_insert i 1 state) = insert i (gray state)"
    and b: "black (bt_insert i 1 state) = black state"
    using fresh by (simp_all add: gray_insert black_insert)
  have nochild: "filter snd children = []"
    by (auto simp: children_def filter_empty_conv)
  have ed: "index_edges by_id `` {i} = fst ` set children"
    using pkg by (force simp: index_edges_def children_def)
  have splits: "(\<forall>(c, l)\<in>set upper. (j, c) \<in> (index_edges by_id)\<^sup>+) \<and>
      index_edges by_id `` {j} \<subseteq> black state \<union> fst ` set upper"
    if eq: "children @ (i, True) # stack = upper @ (j, True) # lower" for upper j lower
  proof -
    have notin: "(j, True) \<notin> set children" by (auto simp: children_def)
    obtain us where "children = upper @ us \<and> us @ (i, True) # stack = (j, True) # lower \<or>
        children @ us = upper \<and> (i, True) # stack = us @ (j, True) # lower"
      using eq unfolding append_eq_append_conv2 by blast
    then have "\<exists>us. upper = children @ us \<and> (i, True) # stack = us @ (j, True) # lower"
      using notin by (cases us) auto
    then obtain us where us: "upper = children @ us" "(i, True) # stack = us @ (j, True) # lower" by blast
    show ?thesis
    proof (cases us)
      case Nil
      then have "j = i" "upper = children" using us by auto
      then show ?thesis using ed by (force)
    next
      case (Cons u ws)
      then have s: "stack = ws @ (j, True) # lower" "upper = children @ (i, True) # ws" using us by auto
      note old = walk_inv_split [of by_id "(i, False) # ws" j lower state]
      have ji: "(j, i) \<in> (index_edges by_id)\<^sup>+" using old inv s by auto
      have "(j, c) \<in> (index_edges by_id)\<^sup>+" if "(c, l) \<in> set children" for c l
      proof -
        have "(i, c) \<in> index_edges by_id" using that ed by force
        with ji show ?thesis by (rule trancl.trancl_into_trancl)
      qed
      then show ?thesis using old inv s ji by auto
    qed
  qed
  have ran: "ran (bt_get (bt_insert i 1 state)) \<subseteq> {1, 2}"
    unfolding bt_get_insert by (rule ran_upd_subset) (use inv in \<open>simp_all add: walk_inv_def\<close>)
  have marks: "set (map fst (filter snd (children @ (i, True) # stack))) = insert i (gray state)"
    using inv nochild by (auto simp: walk_inv_def)
  have dist: "distinct (map fst (filter snd (children @ (i, True) # stack)))"
    using inv nochild fresh by (auto simp: walk_inv_def)
  have old: "bt_wf state" "gray state \<union> black state \<subseteq> dom (bt_get by_id)"
    "\<forall>i\<in>black state. index_edges by_id `` {i} \<subseteq> black state"
    "acyclic {(a, b) \<in> index_edges by_id. a \<in> black state}"
    using inv by (simp_all add: walk_inv_def)
  show ?thesis
    unfolding walk_inv_def g b
  proof (intro conjI)
    show "insert i (gray state) \<union> black state \<subseteq> dom (bt_get by_id)" using old(2) pkg by auto
    show "\<forall>upper j lower. children @ (i, True) # stack = upper @ (j, True) # lower \<longrightarrow>
        (\<forall>(c, l)\<in>set upper. (j, c) \<in> (index_edges by_id)\<^sup>+) \<and>
        index_edges by_id `` {j} \<subseteq> black state \<union> fst ` set upper"
      using splits by blast
  qed (fact bt_wf_insert [OF old(1)] ran dist marks old)+
qed

lemma graph_walk_sound:
  assumes "graph_walk by_id stack state = Inr st" and "walk_inv by_id stack state"
  shows "walk_inv by_id [] st \<and> fst ` set stack \<union> black state \<subseteq> black st \<and>
    black st \<subseteq> (index_edges by_id)\<^sup>* `` (fst ` set stack \<union> black state \<union> gray state)"
  using assms
proof (induction by_id stack state rule: graph_walk.induct)
  case (1 by_id state)
  then show ?case by auto
next
  case (2 by_id i leaving stack state)
  consider (leave) leaving | (fin) "\<not> leaving" "i \<in> black state" | (enter) "\<not> leaving" "i \<notin> black state" "i \<notin> gray state"
    using 2(4) by (auto simp: black_def gray_def split: if_splits)
  then show ?case
  proof cases
    case leave
    then have inv: "walk_inv by_id stack (bt_insert i 2 state)" using 2(5) walk_inv_leave by simp
    have "i \<in> gray state" using 2(5) leave by (auto simp: walk_inv_def)
    then have "insert i (gray state - {i}) = gray state" by blast
    moreover have "graph_walk by_id stack (bt_insert i 2 state) = Inr st" using 2(4) leave by simp
    ultimately show ?thesis using 2(1) [OF leave _ inv] \<open>i \<in> gray state\<close>
      by (simp add: gray_insert black_insert) (blast dest: Image_mono)
  next
    case fin
    then have inv: "walk_inv by_id stack state" using 2(5) walk_inv_pop_black by simp
    have "bt_get state i = Some 2" using fin by (simp add: black_def)
    then show ?thesis using 2(2) fin 2(4) inv by simp (blast intro: Image_subset_mono)
  next
    case enter
    then have st: "bt_get state i \<noteq> Some 1" "bt_get state i \<noteq> Some 2" by (auto simp: black_def gray_def)
    then obtain p where p: "bt_get by_id i = Some p" using 2(4) enter by (auto split: option.splits)
    let ?ch = "map (\<lambda>(_, child). (child, False)) (rpk_dependencies p)"
    have inv: "walk_inv by_id (?ch @ (i, True) # stack) (bt_insert i 1 state)"
      using walk_inv_enter [of by_id i stack state p] 2(5) enter p by simp
    have rec: "graph_walk by_id (?ch @ (i, True) # stack) (bt_insert i 1 state) = Inr st"
      using 2(4) enter st p by simp
    have ih: "walk_inv by_id [] st \<and>
        fst ` set (?ch @ (i, True) # stack) \<union> black (bt_insert i 1 state) \<subseteq> black st \<and>
        black st \<subseteq> (index_edges by_id)\<^sup>* `` (fst ` set (?ch @ (i, True) # stack) \<union>
          black (bt_insert i 1 state) \<union> gray (bt_insert i 1 state))"
      using 2(3) [OF enter(1) st p rec inv] .
    have "(i, c) \<in> index_edges by_id" if "c \<in> fst ` set ?ch" for c
      using p that by (force simp: index_edges_def)
    then have ch: "(index_edges by_id)\<^sup>* `` (fst ` set ?ch) \<subseteq> (index_edges by_id)\<^sup>* `` {i}"
      by (blast intro: converse_rtrancl_into_rtrancl)
    have "black st \<subseteq> (index_edges by_id)\<^sup>* `` (fst ` set ?ch) \<union>
        (index_edges by_id)\<^sup>* `` (insert i (fst ` set stack) \<union> black state \<union> gray state)"
    proof -
      have "fst ` set (?ch @ (i, True) # stack) \<union> black (bt_insert i 1 state) \<union> gray (bt_insert i 1 state) =
          fst ` set ?ch \<union> (insert i (fst ` set stack) \<union> black state \<union> gray state)"
        using enter by (simp add: gray_insert black_insert image_Un Un_assoc)
      then show ?thesis using ih by (simp only: Image_Un [symmetric])
    qed
    then have "black st \<subseteq> (index_edges by_id)\<^sup>* `` (insert i (fst ` set stack) \<union> black state \<union> gray state)"
      using ch by blast
    then show ?thesis using ih enter by (simp add: gray_insert black_insert image_Un)
  qed
qed

lemma graph_walk_complete:
  assumes "walk_inv by_id stack state" and "acyclic (index_edges by_id)"
    and "(index_edges by_id)\<^sup>* `` (fst ` set stack) \<subseteq> dom (bt_get by_id)"
  shows "\<exists>st. graph_walk by_id stack state = Inr st"
  using assms
proof (induction by_id stack state rule: graph_walk.induct)
  case (2 by_id i leaving stack state)
  have sub: "(index_edges by_id)\<^sup>* `` (fst ` set stack) \<subseteq> dom (bt_get by_id)"
    using 2(6) by auto
  consider (leave) leaving | (cyc) "\<not> leaving" "i \<in> gray state"
    | (fin) "\<not> leaving" "i \<in> black state" | (enter) "\<not> leaving" "i \<notin> black state" "i \<notin> gray state"
    by blast
  then show ?case
  proof cases
    case leave
    then show ?thesis using 2(1) [OF leave] walk_inv_leave 2(4,5) sub by simp
  next
    case cyc
    then have "(i, True) \<in> set stack" using 2(4) by (auto simp: walk_inv_def)
    then obtain upper lower where "stack = upper @ (i, True) # lower" by (meson split_list)
    then have "(i, i) \<in> (index_edges by_id)\<^sup>+"
      using walk_inv_split [of by_id "(i, False) # upper" i lower state] 2(4) cyc by auto
    then show ?thesis using 2(5) by (auto simp: acyclic_def)
  next
    case fin
    then have "walk_inv by_id stack state" using 2(4) walk_inv_pop_black by simp
    moreover have "bt_get state i = Some 2" using fin by (simp add: black_def)
    ultimately show ?thesis using 2(2) fin 2(5) sub by simp
  next
    case enter
    then have st: "bt_get state i \<noteq> Some 1" "bt_get state i \<noteq> Some 2" by (auto simp: black_def gray_def)
    have "i \<in> dom (bt_get by_id)" using 2(6) by auto
    then obtain p where p: "bt_get by_id i = Some p" by auto
    let ?ch = "map (\<lambda>(_, child). (child, False)) (rpk_dependencies p)"
    have inv: "walk_inv by_id (?ch @ (i, True) # stack) (bt_insert i 1 state)"
      using walk_inv_enter [of by_id i stack state p] 2(4) enter p by simp
    have "(i, c) \<in> index_edges by_id" if "c \<in> fst ` set ?ch" for c
      using p that by (force simp: index_edges_def)
    then have "(index_edges by_id)\<^sup>* `` (fst ` set ?ch) \<subseteq> (index_edges by_id)\<^sup>* `` {i}"
      by (blast intro: converse_rtrancl_into_rtrancl)
    moreover have "fst ` set (?ch @ (i, True) # stack) = fst ` set ?ch \<union> fst ` set ((i, leaving) # stack)"
      by (simp add: image_Un)
    moreover have "(index_edges by_id)\<^sup>* `` {i} \<subseteq> dom (bt_get by_id)" using 2(6) by auto
    ultimately have "(index_edges by_id)\<^sup>* `` (fst ` set (?ch @ (i, True) # stack)) \<subseteq> dom (bt_get by_id)"
      using 2(6) by (simp only: Image_Un) blast
    then show ?thesis using 2(3) [OF enter(1) st p inv 2(5)] enter st p by simp
  qed
qed simp

lemma index_by_id_foldl:
  "bt_get (foldl (\<lambda>m p. bt_insert (pi_id (rpk_instance p)) p m) m packages) =
     bt_get m ++ map_of (rev (map (\<lambda>p. (pi_id (rpk_instance p), p)) packages))"
  by (induction packages arbitrary: m) (auto simp: map_add_def fun_eq_iff split: option.splits)

lemma index_by_id_get:
  "bt_get (index_by_id packages) = map_of (rev (map (\<lambda>p. (pi_id (rpk_instance p), p)) packages))"
  unfolding index_by_id_def index_by_id_foldl by simp

lemma dom_index_by_id: "dom (bt_get (index_by_id packages)) = set (package_ids packages)"
  unfolding index_by_id_get dom_map_of_conv_image_fst by (force simp: package_ids_def)

lemma index_edges_index_by_id:
  assumes "distinct (package_ids packages)"
  shows "index_edges (index_by_id packages) = dependency_edges packages"
proof -
  have get: "bt_get (index_by_id packages) i = Some p \<longleftrightarrow> p \<in> set packages \<and> pi_id (rpk_instance p) = i" for i p
  proof -
    let ?ps = "rev (map (\<lambda>p. (pi_id (rpk_instance p), p)) packages)"
    have "map fst ?ps = rev (package_ids packages)" by (simp add: package_ids_def rev_map o_def)
    then have "distinct (map fst ?ps)" using assms by simp
    then have "bt_get (index_by_id packages) i = Some p \<longleftrightarrow> (i, p) \<in> set ?ps"
      unfolding index_by_id_get by (rule map_of_eq_Some_iff)
    then show ?thesis by auto
  qed
  show ?thesis unfolding index_edges_def dependency_edges_def get by blast
qed

lemma closed_reachable:
  assumes "(a, x) \<in> E\<^sup>*" and "a \<in> B" and "\<And>i. i \<in> B \<Longrightarrow> E `` {i} \<subseteq> B"
  shows "x \<in> B"
  using assms(1) by (induction rule: rtrancl_induct) (use assms(2,3) in blast)+

lemma walk_inv_start: "walk_inv by_id [(root, False)] []"
  unfolding walk_inv_def
  by (auto simp: bt_wf_def gray_def black_def acyclic_def Cons_eq_append_conv)

lemma count_black:
  assumes "walk_inv by_id [] state"
  shows "length (filter (\<lambda>(_, v). v = 2) state) = card (black state)"
proof -
  have dist: "distinct (map fst state)" using assms bt.keys_distinct by (auto simp: walk_inv_def)
  then have "black state = fst ` set (filter (\<lambda>(_, v). v = 2) state)"
    by (force simp: black_def map_of_eq_Some_iff)
  moreover have "distinct (map fst (filter (\<lambda>(_, v). v = 2) state))" using dist by (rule distinct_map_filter)
  ultimately show ?thesis by (metis distinct_card length_map set_map)
qed

lemma reject_cycles_and_orphans_char:
  "reject_cycles_and_orphans root packages = Inr () \<longleftrightarrow>
     distinct (package_ids packages) \<and> acyclic (dependency_edges packages) \<and>
     (dependency_edges packages)\<^sup>* `` {root} = set (package_ids packages)" (is "?L \<longleftrightarrow> ?R")
proof
  let ?ix = "index_by_id packages"
  assume ?L
  then obtain st where w: "graph_walk ?ix [(root, False)] [] = Inr st"
    and count: "length (filter (\<lambda>(_, v). v = 2) st) = length packages"
    by (auto simp: reject_cycles_and_orphans_def result_simps split: if_splits)
  note s = graph_walk_sound [OF w walk_inv_start]
  have none: "black [] = {}" "gray [] = {}" by (simp_all add: black_def gray_def)
  have inv: "walk_inv ?ix [] st" and root: "root \<in> black st"
    and reach: "black st \<subseteq> (index_edges ?ix)\<^sup>* `` {root}" using s by (auto simp: none)
  have "card (black st) = length packages" using count count_black [OF inv] by simp
  moreover have sub: "black st \<subseteq> set (package_ids packages)"
    using inv dom_index_by_id by (auto simp: walk_inv_def)
  moreover have "card (black st) \<le> card (set (package_ids packages))"
    using sub by (rule card_mono [rotated]) simp
  ultimately have "card (set (package_ids packages)) = length (package_ids packages)"
    using card_length [of "package_ids packages"] by (simp add: package_ids_def)
  then have dist: "distinct (package_ids packages)" by (rule card_distinct)
  have "card (black st) = card (set (package_ids packages))"
    using \<open>card (black st) = length packages\<close> distinct_card [OF dist] by (simp add: package_ids_def)
  then have all: "black st = set (package_ids packages)"
    using sub by (intro card_subset_eq) auto
  have ed: "index_edges ?ix = dependency_edges packages" by (rule index_edges_index_by_id [OF dist])
  have closed: "dependency_edges packages `` {i} \<subseteq> black st" if "i \<in> black st" for i
    using inv that ed by (simp add: walk_inv_def)
  have "x \<in> black st" if "(root, x) \<in> (dependency_edges packages)\<^sup>*" for x
    using that root closed by (rule closed_reachable)
  moreover have "{(a, b) \<in> dependency_edges packages. a \<in> black st} = dependency_edges packages"
    unfolding all by (auto simp: dependency_edges_def package_ids_def)
  then have "acyclic (dependency_edges packages)" using inv ed unfolding walk_inv_def by simp
  ultimately show ?R using dist all reach ed by auto
next
  let ?ix = "index_by_id packages"
  assume r: ?R
  have ed: "index_edges ?ix = dependency_edges packages" using r by (intro index_edges_index_by_id) blast
  obtain st where w: "graph_walk ?ix [(root, False)] [] = Inr st"
    using graph_walk_complete [OF walk_inv_start, of ?ix root] r ed by (auto simp: dom_index_by_id)
  note s = graph_walk_sound [OF w walk_inv_start]
  have none: "black [] = {}" "gray [] = {}" by (simp_all add: black_def gray_def)
  have inv: "walk_inv ?ix [] st" and root: "root \<in> black st"
    and reach: "black st \<subseteq> (dependency_edges packages)\<^sup>* `` {root}" using s ed by (auto simp: none)
  have closed: "dependency_edges packages `` {i} \<subseteq> black st" if "i \<in> black st" for i
    using inv that ed by (simp add: walk_inv_def)
  have "x \<in> black st" if "(root, x) \<in> (dependency_edges packages)\<^sup>*" for x
    using that root closed by (rule closed_reachable)
  then have "black st = set (package_ids packages)" using reach r by blast
  then have "card (black st) = length packages" using r distinct_card by (fastforce simp: package_ids_def)
  then show ?L using w count_black [OF inv] by (simp add: reject_cycles_and_orphans_def)
qed

section \<open>Loading\<close>

lemma load_one_Inr:
  "load_one lib load p source = (Inr l, p') \<Longrightarrow> loaded_ok lib source l"
  unfolding load_one_def loaded_ok_def
  by (auto simp: result_simps split: prod.splits sum.splits if_splits)

lemma load_inv_insert:
  assumes inv: "load_inv lib (source # pending) m" and ok: "loaded_ok lib source l"
    and fresh: "bt_get m source = None" and len: "length m \<noteq> 16"
  shows "load_inv lib (map dep_source (mf_dependencies (ld_manifest l)) @ pending) (bt_insert source l m)"
proof -
  have wf: "bt_wf m" and wf': "bt_wf (bt_insert source l m)" using inv by (auto simp: load_inv_def bt_wf_insert)
  have mem: "(s, k) \<in> set (bt_insert source l m) \<longleftrightarrow> (if s = source then k = l else (s, k) \<in> set m)" for s k
    using bt.entries_get [OF wf'] bt.entries_get [OF wf] by auto
  have "length (bt_insert source l m) = Suc (length m)" by (rule bt.length_ins_fresh [OF wf fresh])
  then show ?thesis using inv ok len wf' unfolding load_inv_def
    by (auto simp: mem split: if_splits) fastforce+
qed

lemma load_loop_total:
  assumes "load_inv lib pending m"
  shows "\<exists>r p'. load_loop lib load p pending m = Some (r, p') \<and>
     (\<forall>m'. r = Inr m' \<longrightarrow> load_inv lib [] m' \<and> set pending \<union> dom (bt_get m) \<subseteq> dom (bt_get m'))"
  using assms
proof (induction "(16 - length m, length pending)" arbitrary: m pending p
    rule: wf_induct_rule [OF wf_lex_prod [OF wf_less wf_less]])
  case 1
  note IH = 1(1) and inv = 1(2)
  show ?case
  proof (cases pending)
    case Nil
    then show ?thesis using inv by (subst load_loop.simps) simp
  next
    case (Cons source rest)
    consider (dup) "bt_get m source \<noteq> None" | (full) "bt_get m source = None" "length m = 16"
      | (fresh) "bt_get m source = None" "length m \<noteq> 16" by blast
    then show ?thesis
    proof cases
      case dup
      then have "load_inv lib rest m" using inv Cons by (fastforce simp: load_inv_def)
      then show ?thesis using IH [of m rest p] dup Cons
        by (subst load_loop.simps) (auto simp: lex_prod_def, blast)
    next
      case full
      then show ?thesis using Cons by (subst load_loop.simps) simp
    next
      case fresh
      obtain r p' where one: "load_one lib load p source = (r, p')" by fastforce
      show ?thesis
      proof (cases r)
        case (Inl e)
        then show ?thesis using Cons fresh one by (subst load_loop.simps) simp
      next
        case (Inr l)
        let ?m = "bt_insert source l m" and ?pend = "map dep_source (mf_dependencies (ld_manifest l)) @ rest"
        have inv': "load_inv lib ?pend ?m"
          using load_inv_insert [of lib source rest m l] load_one_Inr [of lib load p source l p'] inv Cons fresh one Inr
          by simp
        have wf: "bt_wf m" "length m \<le> 16" using inv by (auto simp: load_inv_def)
        have "length ?m = Suc (length m)" by (rule bt.length_ins_fresh [OF wf(1) fresh(1)])
        then have "((16 - length ?m, length ?pend), (16 - length m, length pending)) \<in> {(x, y). x < y} <*lex*> {(x, y). x < y}"
          using fresh(2) wf(2) by (auto simp: lex_prod_def)
        then show ?thesis using IH [of ?m ?pend p'] inv' Cons fresh one Inr
          by (subst load_loop.simps) auto
      qed
    qed
  qed
qed

lemma index_coordinates_Inr:
  assumes "index_coordinates lib cmpt ls ix = Inr ix'"
  shows "(\<forall>l\<in>set ls. \<not> incompatible cmpt (mf_compatibility (ld_manifest l))) \<and>
     (\<forall>key. matches_at ix' key =
        matches_at ix key @ filter (\<lambda>l. encode lib (coordinate_to_value lib) (coordinates l) = Inr key) ls)"
  using assms
proof (induction lib cmpt ls ix rule: index_coordinates.induct)
  case (2 lib cmpt l ls ix)
  from 2(2) obtain key where key: "encode lib (coordinate_to_value lib) (coordinates l) = Inr key"
    and comp: "\<not> incompatible cmpt (mf_compatibility (ld_manifest l))"
    and rec: "index_coordinates lib cmpt ls (bt_insert key (matches_at ix key @ [l]) ix) = Inr ix'"
    by (auto simp: result_simps Let_def coordinates_def split: if_splits)
  have "matches_at (bt_insert key (matches_at ix key @ [l]) ix) k =
      matches_at ix k @ (if k = key then [l] else [])" for k
    by (simp add: matches_at_def)
  moreover have ih: "(\<forall>l\<in>set ls. \<not> incompatible cmpt (mf_compatibility (ld_manifest l))) \<and>
     (\<forall>k. matches_at ix' k = matches_at (bt_insert key (matches_at ix key @ [l]) ix) k @
        filter (\<lambda>l. encode lib (coordinate_to_value lib) (coordinates l) = Inr k) ls)"
    by (rule 2(1)) (use comp rec in simp_all)
  ultimately show ?case using key comp by auto
qed simp

lemma select_dependency_Inr:
  assumes "select_dependency lib ix d = Inr (al, i)"
    and ix: "index_coordinates lib cmpt ls [] = Inr ix" and cod: "coordinate_codec lib"
  shows "al = dep_alias d \<and> (\<exists>l\<in>set ls. coordinates l = dependency_coordinates d \<and> i = pi_id (ld_instance l))"
proof -
  from assms(1) obtain key where key: "encode lib (coordinate_to_value lib) (dependency_coordinates d) = Inr key"
    and one: "length (matches_at ix key) = 1" and r: "al = dep_alias d" "i = pi_id (ld_instance (matches_at ix key ! 0))"
    by (auto simp: select_dependency_def result_simps Let_def dependency_coordinates_def split: if_splits)
  have "matches_at ix key = filter (\<lambda>l. encode lib (coordinate_to_value lib) (coordinates l) = Inr key) ls"
    using index_coordinates_Inr [OF ix] by (simp add: matches_at_def)
  moreover have "matches_at ix key ! 0 \<in> set (matches_at ix key)" using one by (metis nth_mem zero_less_one)
  ultimately have "matches_at ix key ! 0 \<in> set ls"
    "encode lib (coordinate_to_value lib) (coordinates (matches_at ix key ! 0)) = Inr key" by auto
  then show ?thesis using r key cod unfolding coordinate_codec_def by blast
qed

lemma resolve_package_Inr:
  assumes "resolve_package lib ix l = Inr p"
  shows "rpk_instance p = ld_instance l \<and> rpk_name p = mf_name (ld_manifest l) \<and>
     rpk_version p = mf_version (ld_manifest l) \<and> rpk_source p = mf_source (ld_manifest l) \<and>
     list_all2 (\<lambda>d e. select_dependency lib ix d = Inr e) (mf_dependencies (ld_manifest l)) (rpk_dependencies p)"
  using assms by (auto simp: resolve_package_def result_simps)

lemma resolve_Inr:
  assumes "resolve lib load p src mode = Some (Inr g, p')"
  obtains frozen m where "validate_source src = Inr ()" "read_frozen lib mode = Inr frozen"
    "load_packages lib load p src = Some (Inr m, p')" "load_inv lib [] m" "src \<in> dom (bt_get m)"
    "resolve_loaded lib src frozen m = Inr g"
proof -
  from assms obtain frozen m where r: "validate_source src = Inr ()" "read_frozen lib mode = Inr frozen"
    "load_packages lib load p src = Some (Inr m, p')" "resolve_loaded lib src frozen m = Inr g"
    by (auto simp: resolve_def try_bind_Inr_iff split: sum.splits option.splits prod.splits)
  have "load_inv lib [src] []" by (simp add: load_inv_def bt_wf_def)
  from load_loop_total [OF this, of load p] have "load_inv lib [] m" "src \<in> dom (bt_get m)"
    using r(3) by (auto simp: load_packages_def)
  then show thesis using that r by blast
qed

lemma resolve_loaded_Inr:
  assumes "resolve_loaded lib src frozen m = Inr g"
  obtains rl ix unsorted sha where "bt_get m src = Some rl"
    "rg_compatibility g = mf_compatibility (ld_manifest rl)" "rg_root g = pi_id (ld_instance rl)"
    "index_coordinates lib (rg_compatibility g) (map snd m) [] = Inr ix"
    "list_all2 (\<lambda>l p. resolve_package lib ix l = Inr p) (map snd m) unsorted"
    "rg_packages g = sort_key (\<lambda>p. pi_id (rpk_instance p)) unsorted"
    "reject_duplicate_instances (rg_packages g) = Inr ()"
    "reject_cycles_and_orphans (rg_root g) (rg_packages g) = Inr ()"
    "encode lib (lock_to_value lib) (lock_of (rg_root g) (rg_compatibility g) (rg_packages g)) = Inr (rg_lock_bytes g)"
    "frozen = None \<or> frozen = Some (lock_of (rg_root g) (rg_compatibility g) (rg_packages g))"
    "digest lib (lock_to_value lib) ''lock'' (lock_of (rg_root g) (rg_compatibility g) (rg_packages g)) = Inr (rg_lock_sha256 g)"
proof -
  from assms obtain rl where rl: "bt_get m src = Some rl"
    by (auto simp: resolve_loaded_def result_simps)
  define c where "c = mf_compatibility (ld_manifest rl)"
  define root where "root = pi_id (ld_instance rl)"
  from assms rl obtain ix where ix: "index_coordinates lib c (map snd m) [] = Inr ix"
    by (auto simp: resolve_loaded_def try_bind_Inr_iff Let_def c_def)
  from assms rl ix obtain un where un: "try_map (resolve_package lib ix) (map snd m) = Inr un"
    by (auto simp: resolve_loaded_def try_bind_Inr_iff Let_def c_def)
  define ps where "ps = sort_key (\<lambda>p. pi_id (rpk_instance p)) un"
  note r = assms [unfolded resolve_loaded_def rl ok_or_simps try_bind_simps Let_def,
      folded c_def root_def, unfolded ix try_bind_simps un, folded ps_def]
  from r obtain lb where chk: "reject_duplicate_instances ps = Inr ()"
      "reject_cycles_and_orphans root ps = Inr ()"
      "encode lib (lock_to_value lib) (lock_of root c ps) = Inr lb"
    by (auto simp: try_bind_Inr_iff)
  note r2 = r [unfolded chk try_bind_simps]
  have fr: "frozen = None \<or> frozen = Some (lock_of root c ps)"
    using r2 by (auto split: option.splits if_splits)
  then have r3: "try_bind (digest lib (lock_to_value lib) ''lock'' (lock_of root c ps)) (\<lambda>sha.
        Inr \<lparr>rg_root = root, rg_compatibility = c, rg_packages = ps, rg_lock_bytes = lb, rg_lock_sha256 = sha\<rparr>) = Inr g"
    using r2 by (auto split: option.splits)
  then obtain sha where sha: "digest lib (lock_to_value lib) ''lock'' (lock_of root c ps) = Inr sha"
    and g: "g = \<lparr>rg_root = root, rg_compatibility = c, rg_packages = ps, rg_lock_bytes = lb, rg_lock_sha256 = sha\<rparr>"
    unfolding try_bind_Inr_iff by auto
  show thesis
    by (rule that [OF rl, of ix un])
      (use ix un chk fr sha in \<open>simp_all add: g c_def root_def ps_def try_map_Inr_iff\<close>)
qed

lemma graph_packages:
  assumes inv: "load_inv lib [] m" and cod: "coordinate_codec lib"
    and ix: "index_coordinates lib cmpt (map snd m) [] = Inr ix"
    and un: "list_all2 (\<lambda>l p. resolve_package lib ix l = Inr p) (map snd m) unsorted"
    and p: "p \<in> set unsorted"
  shows "\<exists>md. package_of_manifest lib cmpt unsorted p md"
proof -
  obtain l where l: "l \<in> set (map snd m)" "resolve_package lib ix l = Inr p"
    using list_all2_ex_left [OF un p] by blast
  note rp = resolve_package_Inr [OF l(2)]
  obtain s where s: "(s, l) \<in> set m" using l(1) by auto
  have ok: "loaded_ok lib s l" using inv s by (auto simp: load_inv_def)
  have "\<not> incompatible cmpt (mf_compatibility (ld_manifest l))"
    using index_coordinates_Inr [OF ix] l(1) by blast
  moreover have "list_all2 (\<lambda>d (al, i). al = dep_alias d \<and>
          (\<exists>q\<in>set unsorted. pi_id (rpk_instance q) = i \<and> rpk_name q = dep_name d \<and>
             rpk_version q = dep_version d \<and> rpk_source q = dep_source d))
        (mf_dependencies (ld_manifest l)) (rpk_dependencies p)"
  proof (rule list_all2_mono [OF conjunct2 [OF conjunct2 [OF conjunct2 [OF conjunct2 [OF rp]]]]])
    fix d e assume "select_dependency lib ix d = Inr e"
    then obtain l' where l': "fst e = dep_alias d" "l' \<in> set (map snd m)"
        "coordinates l' = dependency_coordinates d" "snd e = pi_id (ld_instance l')"
      using select_dependency_Inr [OF _ ix cod, of d "fst e" "snd e"] by auto
    then obtain q where "q \<in> set unsorted" "resolve_package lib ix l' = Inr q"
      using list_all2_ex_right [OF un l'(2)] by blast
    then show "case e of (al, i) \<Rightarrow> al = dep_alias d \<and>
          (\<exists>q\<in>set unsorted. pi_id (rpk_instance q) = i \<and> rpk_name q = dep_name d \<and>
             rpk_version q = dep_version d \<and> rpk_source q = dep_source d)"
      using l' resolve_package_Inr [of lib ix l' q]
      by (auto simp: coordinates_def dependency_coordinates_def split: prod.splits intro!: bexI [of _ q])
  qed
  ultimately have "package_of_manifest lib cmpt unsorted p (ld_manifest l)"
    using ok rp by (auto simp: package_of_manifest_def loaded_ok_def)
  then show ?thesis ..
qed

lemma package_of_manifest_set:
  "set ps = set qs \<Longrightarrow> package_of_manifest lib c ps p m = package_of_manifest lib c qs p m"
  by (simp add: package_of_manifest_def)

lemma resolve_graph_ok:
  assumes res: "resolve lib load p src mode = Some (Inr g, p')" and cod: "coordinate_codec lib"
  shows "resolved_graph_ok lib src g"
proof -
  obtain frozen m where inv: "load_inv lib [] m" and rl: "resolve_loaded lib src frozen m = Inr g"
    using resolve_Inr [OF res] by metis
  obtain l ix un where l: "bt_get m src = Some l" "rg_root g = pi_id (ld_instance l)"
    and ix: "index_coordinates lib (rg_compatibility g) (map snd m) [] = Inr ix"
    and un: "list_all2 (\<lambda>l p. resolve_package lib ix l = Inr p) (map snd m) un"
    and ps: "rg_packages g = sort_key (\<lambda>p. pi_id (rpk_instance p)) un"
    and cyc: "reject_cycles_and_orphans (rg_root g) (rg_packages g) = Inr ()"
    using resolve_loaded_Inr [OF rl] by metis
  have set: "set (rg_packages g) = set un" by (simp add: ps)
  have "length (rg_packages g) \<le> 16" using un inv by (auto simp: ps load_inv_def dest: list_all2_lengthD)
  moreover note c = cyc [unfolded reject_cycles_and_orphans_char]
  moreover have "sorted (package_ids (rg_packages g))" by (simp add: ps package_ids_def)
  then have "sorted_wrt (<) (package_ids (rg_packages g))" using c by (simp add: strict_sorted_iff)
  moreover have wf: "bt_wf m" using inv by (simp add: load_inv_def)
  then have sl: "(src, l) \<in> set m" using l(1) by (simp add: bt.entries_get)
  then obtain r where r: "r \<in> set un" "resolve_package lib ix l = Inr r"
    using list_all2_ex_right [OF un, of l] by force
  have "mf_source (ld_manifest l) = src" using inv sl by (auto simp: load_inv_def loaded_ok_def)
  then have "\<exists>r\<in>set (rg_packages g). pi_id (rpk_instance r) = rg_root g \<and> rpk_source r = src"
    using r l(2) resolve_package_Inr [OF r(2)] set by (intro bexI [of _ r]) auto
  moreover have "\<forall>p\<in>set (rg_packages g). \<exists>m. package_of_manifest lib (rg_compatibility g) (rg_packages g) p m"
    unfolding package_of_manifest_set [OF set] using graph_packages [OF inv cod ix un] set by simp
  ultimately show ?thesis unfolding resolved_graph_ok_def by blast
qed

section \<open>Frozen locks\<close>

lemma parse_Inr_iff:
  "parse lib from_val input = Inr x \<longleftrightarrow>
     length input \<le> MAX_WIRE_BYTES \<and> check_depth input = Inr () \<and>
     (\<exists>v b. from_slice lib input = Some v \<and> to_vec lib v = Some b \<and> input = b @ [10] \<and> from_val v = Some x)"
  by (auto simp: parse_def encode_def result_simps not_less split: if_splits)

lemma encode_Inr_iff:
  "encode lib conv x = Inr b \<longleftrightarrow> (\<exists>v c. conv x = Some v \<and> to_vec lib v = Some c \<and> b = c @ [10])"
  by (auto simp: encode_def result_simps)

lemma digest_is_digest: "hex_digests lib \<Longrightarrow> digest lib conv kind x = Inr s \<Longrightarrow> is_digest s"
  by (auto simp: digest_def result_simps hex_digests_def)

lemma authenticate_files_digest:
  "hex_digests lib \<Longrightarrow> authenticate_files lib m files = Inr s \<Longrightarrow> is_digest s"
  by (auto simp: authenticate_files_def Let_def digest_is_digest split: if_splits)

lemma windows2_strict:
  "\<not> list_ex (\<lambda>(a, b). (key b :: 'a::linorder) \<le> key a) (windows2 xs) \<longleftrightarrow> sorted_wrt (<) (map key xs)"
proof -
  have "\<not> list_ex (\<lambda>(a, b). key b \<le> key a) (windows2 xs) \<longleftrightarrow> (\<forall>(a, b)\<in>set (windows2 xs). key a < key b)"
    by (force simp: list_ex_iff)
  also have "\<dots> \<longleftrightarrow> sorted_wrt (\<lambda>a b. key a < key b) xs"
    by (rule windows2_sorted) (auto simp: transp_def)
  finally show ?thesis by (simp add: sorted_wrt_map)
qed

lemma ordered_iff: "ordered key xs label = Inr () \<longleftrightarrow> sorted_wrt (<) (map key xs)"
  unfolding windows2_strict [symmetric] by (simp add: ordered_def)

lemma validate_manifest_Inr:
  assumes "validate_manifest m = Inr ()"
  shows "validate_compatibility (mf_compatibility m) = Inr ()" "length (mf_dependencies m) \<le> 8"
    "sorted_wrt (<) (map dep_alias (mf_dependencies m))" "sorted_wrt (<) (map ck_path (mf_files m))"
    "\<forall>d\<in>set (mf_dependencies m). validate_dependency d = Inr ()"
    "\<forall>f\<in>set (mf_files m). validate_checksum f = Inr ()"
    "reject_prefix_collisions (mf_files m) = Inr ()" "validate_source (mf_source m) = Inr ()"
    "mf_files m \<noteq> []" "length (mf_files m) \<le> 16"
  using assms by (auto simp: validate_manifest_def result_simps ordered_iff not_less split: if_splits)

lemma package_lock_ok:
  assumes pm: "package_of_manifest lib c ps p m" and hex: "hex_digests lib"
    and ps: "\<forall>q\<in>set ps. is_digest (pi_id (rpk_instance q))"
  shows "validate_lock_package
     \<lparr>lp_id = pi_id (rpk_instance p), lp_source_sha256 = pi_source_sha256 (rpk_instance p),
      lp_dependencies = map (\<lambda>(al, i). \<lparr>le_alias = al, le_package = i\<rparr>) (rpk_dependencies p)\<rparr> = Inr ()"
proof -
  have vm: "validate_manifest m = Inr ()"
    and ids: "digest lib (manifest_to_value lib) ''manifest'' m = Inr (pi_id (rpk_instance p))"
      "\<exists>files. authenticate_files lib m files = Inr (pi_source_sha256 (rpk_instance p))"
    and deps: "list_all2 (\<lambda>d (al, i). al = dep_alias d \<and>
          (\<exists>q\<in>set ps. pi_id (rpk_instance q) = i \<and> rpk_name q = dep_name d \<and>
             rpk_version q = dep_version d \<and> rpk_source q = dep_source d))
        (mf_dependencies m) (rpk_dependencies p)"
    using pm by (auto simp: package_of_manifest_def)
  note v = validate_manifest_Inr [OF vm]
  have al: "map fst (rpk_dependencies p) = map dep_alias (mf_dependencies m)"
    using deps by (induction rule: list_all2_induct) auto
  have "sorted_wrt (<) (map fst (rpk_dependencies p))" using v(3) al by simp
  moreover have "length (rpk_dependencies p) \<le> 8" using v(2) deps by (auto dest: list_all2_lengthD)
  moreover have "validate_name a = Inr () \<and> is_digest i" if ai: "(a, i) \<in> set (rpk_dependencies p)" for a i
  proof -
    obtain d where d: "d \<in> set (mf_dependencies m)" "a = dep_alias d"
        "\<exists>q\<in>set ps. pi_id (rpk_instance q) = i"
      using list_all2_ex_left [OF deps ai] by auto
    have "validate_dependency d = Inr ()" using v(5) d(1) by blast
    then show ?thesis using d(2,3) ps by (auto simp: validate_dependency_def try_bind_Inr_iff)
  qed
  moreover have "is_digest (pi_id (rpk_instance p))" "is_digest (pi_source_sha256 (rpk_instance p))"
    using digest_is_digest [OF hex ids(1)] ids(2) authenticate_files_digest [OF hex] by auto
  ultimately show ?thesis
    by (auto simp: validate_lock_package_def windows2_strict result_simps o_def split_beta not_less)
qed

lemma lock_shape_ok:
  assumes ok: "resolved_graph_ok lib src g" and hex: "hex_digests lib"
    and comp: "validate_compatibility (rg_compatibility g) = Inr ()"
  shows "validate_lock_shape (graph_lock g) = Inr ()"
proof -
  have dig: "is_digest (pi_id (rpk_instance q))" if "q \<in> set (rg_packages g)" for q
    using ok hex that digest_is_digest by (fastforce simp: resolved_graph_ok_def package_of_manifest_def)
  have "is_digest (rg_root g)" using ok dig by (metis resolved_graph_ok_def)
  moreover have "sorted_wrt (<) (package_ids (rg_packages g))" "length (rg_packages g) \<le> 16" "rg_packages g \<noteq> []"
    using ok by (auto simp: resolved_graph_ok_def)
  moreover have "\<forall>p\<in>set (rg_packages g). validate_lock_package
     \<lparr>lp_id = pi_id (rpk_instance p), lp_source_sha256 = pi_source_sha256 (rpk_instance p),
      lp_dependencies = map (\<lambda>(al, i). \<lparr>le_alias = al, le_package = i\<rparr>) (rpk_dependencies p)\<rparr> = Inr ()"
    using ok package_lock_ok [OF _ hex] dig by (metis resolved_graph_ok_def)
  ultimately show ?thesis using comp
    by (simp add: validate_lock_shape_def lock_of_def windows2_strict result_simps o_def
        package_ids_def not_less)
qed

lemma resolve_loaded_frozen:
  assumes "resolve_loaded lib src None m = Inr g"
  shows "resolve_loaded lib src (Some (graph_lock g)) m = Inr g"
proof -
  obtain rl ix un where r: "bt_get m src = Some rl"
    "rg_compatibility g = mf_compatibility (ld_manifest rl)" "rg_root g = pi_id (ld_instance rl)"
    "index_coordinates lib (rg_compatibility g) (map snd m) [] = Inr ix"
    "list_all2 (\<lambda>l p. resolve_package lib ix l = Inr p) (map snd m) un"
    "rg_packages g = sort_key (\<lambda>p. pi_id (rpk_instance p)) un"
    "reject_duplicate_instances (rg_packages g) = Inr ()"
    "reject_cycles_and_orphans (rg_root g) (rg_packages g) = Inr ()"
    "encode lib (lock_to_value lib) (graph_lock g) = Inr (rg_lock_bytes g)"
    "digest lib (lock_to_value lib) ''lock'' (graph_lock g) = Inr (rg_lock_sha256 g)"
    by (rule resolve_loaded_Inr [OF assms]) blast
  have "try_map (resolve_package lib ix) (map snd m) = Inr un" using r(5) by (simp add: try_map_Inr_iff)
  then show ?thesis
    using r by (simp add: resolve_loaded_def Let_def)
qed

lemma resolve_compatibility_ok:
  assumes "resolve lib load p src mode = Some (Inr g, p')"
  shows "validate_compatibility (rg_compatibility g) = Inr ()"
proof -
  obtain frozen m where inv: "load_inv lib [] m" and rl: "resolve_loaded lib src frozen m = Inr g"
    using resolve_Inr [OF assms] by metis
  obtain l where l: "bt_get m src = Some l" "rg_compatibility g = mf_compatibility (ld_manifest l)"
    using resolve_loaded_Inr [OF rl] by metis
  have "bt_wf m" using inv by (simp add: load_inv_def)
  then have "(src, l) \<in> set m" using l(1) by (simp add: bt.entries_get)
  then have "validate_manifest (ld_manifest l) = Inr ()" using inv by (auto simp: load_inv_def loaded_ok_def)
  then show ?thesis using l(2) validate_manifest_Inr(1) by simp
qed

lemma frozen_replay:
  assumes res: "resolve lib load p src Update = Some (Inr g, p')"
    and laws: "coordinate_codec lib" "lock_codec lib" "hex_digests lib"
    and size: "length (rg_lock_bytes g) \<le> MAX_WIRE_BYTES" "check_depth (rg_lock_bytes g) = Inr ()"
  shows "resolve lib load p src (Frozen (rg_lock_bytes g)) = Some (Inr g, p')"
proof -
  obtain m where r: "validate_source src = Inr ()" "load_packages lib load p src = Some (Inr m, p')"
    and rl: "resolve_loaded lib src None m = Inr g"
    by (rule resolve_Inr [OF res]) (simp add: read_frozen_def)
  have enc: "encode lib (lock_to_value lib) (graph_lock g) = Inr (rg_lock_bytes g)"
    using resolve_loaded_Inr [OF rl] by metis
  then obtain v b where v: "lock_to_value lib (graph_lock g) = Some v" "to_vec lib v = Some b"
      "rg_lock_bytes g = b @ [10]" by (auto simp: encode_Inr_iff)
  then have "from_slice lib (rg_lock_bytes g) = Some v" "lock_from_value lib v = Some (graph_lock g)"
    using laws(2) unfolding lock_codec_def by auto
  then have "parse lib (lock_from_value lib) (rg_lock_bytes g) = Inr (graph_lock g)"
    using size v unfolding parse_Inr_iff by blast
  moreover have "validate_lock_shape (graph_lock g) = Inr ()"
    using lock_shape_ok resolve_graph_ok [OF res laws(1)] laws(3) resolve_compatibility_ok [OF res] by blast
  ultimately have "read_frozen lib (Frozen (rg_lock_bytes g)) = Inr (Some (graph_lock g))"
    by (simp add: read_frozen_def)
  then show ?thesis using r resolve_loaded_frozen [OF rl] by (simp add: resolve_def)
qed

lemma frozen_exact:
  assumes res: "resolve lib load p src (Frozen input) = Some (Inr g, p')"
  shows "parse lib (lock_from_value lib) input = Inr (graph_lock g) \<and>
     resolve lib load p src Update = Some (Inr g, p')"
proof -
  obtain frozen m where r: "validate_source src = Inr ()" "read_frozen lib (Frozen input) = Inr frozen"
      "load_packages lib load p src = Some (Inr m, p')" and rl: "resolve_loaded lib src frozen m = Inr g"
    using resolve_Inr [OF res] by metis
  then obtain k where k: "frozen = Some k" "parse lib (lock_from_value lib) input = Inr k"
    by (auto simp: read_frozen_def result_simps)
  have kg: "k = graph_lock g" using resolve_loaded_Inr [OF rl] k(1) by (metis option.distinct(1) option.inject)
  have "resolve_loaded lib src None m = Inr g"
    using rl unfolding resolve_loaded_def k(1)
    by (auto simp: try_bind_Inr_iff Let_def split: if_splits)
  then show ?thesis using r k(2) kg by (simp add: resolve_def read_frozen_def)
qed

section \<open>Manifest validation\<close>

lemma find_char_Some:
  "find_char d s = Some k \<longleftrightarrow> k < length s \<and> s ! k = d \<and> (\<forall>j<k. s ! j \<noteq> d)"
proof
  assume "find_char d s = Some k"
  then have mem: "d \<in> set s" and k: "k = length (takeWhile (\<lambda>c. c \<noteq> d) s)"
    by (auto simp: find_char_def split: if_splits)
  have len: "k < length s" using takeWhile_shorter [of "\<lambda>c. c \<noteq> d" d s] mem k by simp
  then have "s ! k = d" using nth_length_takeWhile [of "\<lambda>c. c \<noteq> d" s] k by simp
  moreover have "s ! j \<noteq> d" if "j < k" for j
    using nth_mem [of j "takeWhile (\<lambda>c. c \<noteq> d) s"] set_takeWhileD [of _ "\<lambda>c. c \<noteq> d" s]
      takeWhile_nth [of j "\<lambda>c. c \<noteq> d" s] that k by fastforce
  ultimately show "k < length s \<and> s ! k = d \<and> (\<forall>j<k. s ! j \<noteq> d)" using len by blast
next
  assume r: "k < length s \<and> s ! k = d \<and> (\<forall>j<k. s ! j \<noteq> d)"
  then have "d \<in> set s" by (metis nth_mem)
  moreover have "takeWhile (\<lambda>c. c \<noteq> d) s = take k s" using r by (intro takeWhile_eq_take_P_nth) auto
  ultimately show "find_char d s = Some k" using r by (simp add: find_char_def)
qed

lemma collision_scan_iff:
  "collision_scan paths path offset = Inr () \<longleftrightarrow>
     (\<forall>k. offset \<le> k \<and> k < length path \<and> path ! k = CHR ''/'' \<longrightarrow> take k path \<notin> set paths)"
proof (induction paths path offset rule: collision_scan.induct)
  case (1 paths path offset)
  show ?case
  proof (cases "find_char CHR ''/'' (drop offset path)")
    case None
    then have "CHR ''/'' \<notin> set (drop offset path)" by (simp add: find_char_def split: if_splits)
    then have "path ! k \<noteq> CHR ''/''" if "offset \<le> k" "k < length path" for k
    proof -
      have "k - offset < length (drop offset path)" using that by simp
      then have "drop offset path ! (k - offset) \<in> set (drop offset path)" by (rule nth_mem)
      then show ?thesis using that \<open>CHR ''/'' \<notin> set (drop offset path)\<close> by auto
    qed
    then show ?thesis using None by (subst collision_scan.simps) auto
  next
    case (Some rel)
    then have f: "rel < length path - offset" "path ! (offset + rel) = CHR ''/''"
        "\<And>j. j < rel \<Longrightarrow> path ! (offset + j) \<noteq> CHR ''/''"
      by (auto simp: find_char_Some)
    have first: "path ! k \<noteq> CHR ''/''" if "offset \<le> k" "k < offset + rel" for k
      using f(3) [of "k - offset"] that by simp
    have split: "(\<forall>k. offset \<le> k \<and> k < length path \<and> path ! k = CHR ''/'' \<longrightarrow> take k path \<notin> set paths) \<longleftrightarrow>
        take (offset + rel) path \<notin> set paths \<and>
        (\<forall>k. offset + rel + 1 \<le> k \<and> k < length path \<and> path ! k = CHR ''/'' \<longrightarrow> take k path \<notin> set paths)"
      (is "?A \<longleftrightarrow> ?B")
    proof
      assume ?A
      moreover have "offset + rel < length path" using f(1) by linarith
      ultimately show ?B using f(2) by simp
    next
      assume b: ?B
      show ?A
      proof (intro allI impI)
        fix k assume k: "offset \<le> k \<and> k < length path \<and> path ! k = CHR ''/''"
        then have "offset + rel \<le> k" using first [of k] by (meson not_less)
        then consider "k = offset + rel" | "offset + rel + 1 \<le> k" by linarith
        then show "take k path \<notin> set paths" using b k by cases auto
      qed
    qed
    show ?thesis unfolding split using 1 [OF Some refl] Some
      by (subst collision_scan.simps) (auto simp: Let_def)
  qed
qed

lemma reject_prefix_collisions_iff:
  "reject_prefix_collisions files = Inr () \<longleftrightarrow>
     \<not> (\<exists>f\<in>set files. \<exists>g\<in>set files. \<exists>rest. ck_path g = ck_path f @ CHR ''/'' # rest)"
proof -
  have split: "(\<exists>k<length path. path ! k = CHR ''/'' \<and> take k path = q) \<longleftrightarrow>
      (\<exists>rest. path = q @ CHR ''/'' # rest)" (is "?L \<longleftrightarrow> ?R") for path q
  proof
    assume ?L
    then obtain k where "k < length path" "path ! k = CHR ''/''" "take k path = q" by blast
    then have "path = q @ CHR ''/'' # drop (Suc k) path" using id_take_nth_drop [of k path] by simp
    then show ?R ..
  next
    assume ?R
    then show ?L by (auto intro!: exI [of _ "length q"])
  qed
  have "reject_prefix_collisions files = Inr () \<longleftrightarrow>
      (\<forall>g\<in>set files. \<forall>k. k < length (ck_path g) \<and> ck_path g ! k = CHR ''/'' \<longrightarrow>
         take k (ck_path g) \<notin> ck_path ` set files)"
    by (simp add: reject_prefix_collisions_def Let_def try_for_each_Inr_iff collision_scan_iff)
  also have "\<dots> \<longleftrightarrow> \<not> (\<exists>f\<in>set files. \<exists>g\<in>set files.
      \<exists>k<length (ck_path g). ck_path g ! k = CHR ''/'' \<and> take k (ck_path g) = ck_path f)"
    by auto
  finally show ?thesis unfolding split .
qed

subsection \<open>Versions\<close>

lemma digits_value_snoc: "digits_value (s @ [c]) = digits_value s * 10 + (byte_of c - 48)"
  by (simp add: digits_value_def)

lemma digits_value_show_nat: "digits_value (show_nat n) = n"
proof (induction n rule: show_nat.induct)
  case (1 n)
  then show ?case
    by (subst show_nat.simps) (auto simp: digits_value_snoc byte_of_char_of, simp add: digits_value_def byte_of_char_of)
qed

lemma show_nat_head: "show_nat n ! 0 = CHR ''0'' \<longleftrightarrow> n = 0"
proof (induction n rule: show_nat.induct)
  case (1 n)
  show ?case
  proof (cases "n < 10")
    case True
    then have "show_nat n = [char_of (48 + n)]" by (subst show_nat.simps) simp
    moreover have "char_of (48 + n) = CHR ''0'' \<longleftrightarrow> byte_of (char_of (48 + n)) = byte_of CHR ''0''"
      unfolding byte_of_inject ..
    moreover have "byte_of (char_of (48 + n)) = 48 + n" "byte_of CHR ''0'' = 48"
      using True by (simp add: byte_of_char_of, simp add: byte_of_def)
    ultimately show ?thesis by simp
  next
    case False
    then have "show_nat n ! 0 = show_nat (n div 10) ! 0"
      using show_nat_digits [of "n div 10"] by (subst show_nat.simps) (simp add: nth_append)
    then show ?thesis using 1 False by simp
  qed
qed

lemma length_show_nat_iff: "1 < length (show_nat n) \<longleftrightarrow> 10 \<le> n"
  using show_nat_digits [of "n div 10"] by (auto simp: show_nat.simps [of n])

lemma digits_canonical:
  "s \<noteq> [] \<Longrightarrow> list_all is_ascii_digit s \<Longrightarrow> (1 < length s \<longrightarrow> s ! 0 \<noteq> CHR ''0'') \<Longrightarrow>
   show_nat (digits_value s) = s"
proof (induction s rule: rev_induct)
  case (snoc c s)
  have c: "48 \<le> byte_of c" "byte_of c \<le> 57" using snoc.prems(2) by (auto simp: is_ascii_digit_def)
  have undo: "char_of (byte_of c) = c" by (simp add: byte_of_def)
  show ?case
  proof (cases "s = []")
    case True
    have "show_nat (byte_of c - 48) = [char_of (48 + (byte_of c - 48))]"
      using c by (subst show_nat.simps) simp
    then show ?thesis using True c undo by (simp add: digits_value_def)
  next
    case False
    then have s0: "s ! 0 \<noteq> CHR ''0''" using snoc.prems(3) by (auto simp: nth_append)
    have ih: "show_nat (digits_value s) = s"
      using snoc.IH snoc.prems(2) False s0 by auto
    then have pos: "digits_value s \<noteq> 0" using s0 show_nat_head [of "digits_value s"] by metis
    obtain k where k: "k < 10" "byte_of c = 48 + k" using c le_Suc_ex [of 48 "byte_of c"] by auto
    have v: "digits_value (s @ [c]) = digits_value s * 10 + k" by (simp add: digits_value_snoc k)
    have "\<not> digits_value (s @ [c]) < 10" unfolding v using pos by simp
    moreover have "digits_value (s @ [c]) div 10 = digits_value s" unfolding v using k(1) by simp
    moreover have "48 + digits_value (s @ [c]) mod 10 = byte_of c" unfolding v using k by simp
    ultimately have "show_nat (digits_value (s @ [c])) = show_nat (digits_value s) @ [char_of (byte_of c)]"
      by (subst show_nat.simps) simp
    then show ?thesis using ih undo by simp
  qed
qed simp

lemma version_part_iff: "\<not> bad_version_part part \<longleftrightarrow> (\<exists>n\<le>9999. part = show_nat n)"
proof
  assume ok: "\<not> bad_version_part part"
  then have p: "part \<noteq> []" "list_all is_ascii_digit part" "1 < length part \<longrightarrow> \<not> starts_with ''0'' part"
    by (auto simp: bad_version_part_def)
  have "1 < length part \<longrightarrow> part ! 0 \<noteq> CHR ''0''"
    using p(1,3) by (cases part) (auto simp: starts_with_def)
  then have "show_nat (digits_value part) = part" using p by (intro digits_canonical) auto
  moreover have "digits_value part \<le> 9999"
    using ok by (auto simp: bad_version_part_def parse_u16_def word_less_nat_alt unat_of_nat split: if_splits)
  ultimately show "\<exists>n\<le>9999. part = show_nat n" by metis
next
  assume "\<exists>n\<le>9999. part = show_nat n"
  then obtain n where n: "n \<le> 9999" "part = show_nat n" by blast
  have "\<not> (1 < length part \<and> starts_with ''0'' part)"
    using n(2) show_nat_head [of n] length_show_nat_iff [of n]
    by (cases "show_nat n") (auto simp: starts_with_def)
  then show "\<not> bad_version_part part"
    using n show_nat_digits [of n]
    by (auto simp: bad_version_part_def parse_u16_def digits_value_show_nat word_less_nat_alt unat_of_nat)
qed

lemma show_nat_no_dot: "CHR ''.'' \<notin> set (show_nat n)"
  using show_nat_digits [of n] by (auto simp: list_all_iff is_ascii_digit_def byte_of_def)

lemma validate_version_iff:
  "validate_version v = Inr () \<longleftrightarrow>
     (\<exists>a\<le>9999. \<exists>b\<le>9999. \<exists>c\<le>9999. v = join_with CHR ''.'' [show_nat a, show_nat b, show_nat c])"
proof
  assume ok: "validate_version v = Inr ()"
  then have len: "length (split_on CHR ''.'' v) = 3"
    and parts: "\<forall>p\<in>set (split_on CHR ''.'' v). \<exists>n\<le>9999. p = show_nat n"
    by (auto simp: validate_version_def Let_def list_ex_iff version_part_iff [symmetric] split: if_splits)
  then obtain p q r where pqr: "split_on CHR ''.'' v = [p, q, r]"
    by (auto simp: numeral_3_eq_3 length_Suc_conv)
  then have "v = join_with CHR ''.'' [p, q, r]" by (metis join_split)
  moreover obtain a b c where "a \<le> 9999" "p = show_nat a" "b \<le> 9999" "q = show_nat b" "c \<le> 9999" "r = show_nat c"
    using parts pqr by auto
  ultimately show "\<exists>a\<le>9999. \<exists>b\<le>9999. \<exists>c\<le>9999. v = join_with CHR ''.'' [show_nat a, show_nat b, show_nat c]"
    by blast
next
  assume "\<exists>a\<le>9999. \<exists>b\<le>9999. \<exists>c\<le>9999. v = join_with CHR ''.'' [show_nat a, show_nat b, show_nat c]"
  then obtain a b c where abc: "a \<le> 9999" "b \<le> 9999" "c \<le> 9999"
    and v: "v = join_with CHR ''.'' [show_nat a, show_nat b, show_nat c]" by blast
  have parts: "split_on CHR ''.'' v = [show_nat a, show_nat b, show_nat c]"
    unfolding v by (rule split_join) (auto simp: show_nat_no_dot)
  have short: "length (show_nat n) \<le> 4" if "n \<le> 9999" for n
    using that length_show_nat_le [of n 4] by simp
  then have "length v \<le> 14" using short [OF abc(1)] short [OF abc(2)] short [OF abc(3)] v by simp
  moreover have "\<not> bad_version_part (show_nat n)" if "n \<le> 9999" for n
    using that version_part_iff by blast
  ultimately show "validate_version v = Inr ()" using abc
    by (simp add: validate_version_def parts)
qed

section \<open>File authentication\<close>

lemma file_differs_iff: "file_differs lib (c, f) \<longleftrightarrow> checksum_record c \<noteq> file_record lib f"
  by (auto simp: file_differs_def checksum_record_def file_record_def)

lemma zip_all_eq_map:
  "length xs = length ys \<Longrightarrow> (\<forall>p\<in>set (zip xs ys). f (fst p) = g (snd p)) \<longleftrightarrow> map f xs = map g ys"
  by (induction xs ys rule: list_induct2) auto

lemma sorted_records_unique:
  assumes "sorted (map fst xs)" "sorted (map fst ys)" "distinct (map fst ys)" "mset xs = mset ys"
  shows "xs = (ys :: ('a::linorder \<times> 'b) list)"
proof -
  have "inj_on fst (set ys)" using assms(3) by (simp add: distinct_map)
  then have "sort_key fst xs = sort_key fst ys"
    using assms(4) by (intro sort_key_eq_sort_key) (auto dest: mset_eq_setD)
  then show ?thesis using assms(1,2) by (metis sort_key_sorted)
qed

lemma authenticate_files_Inr:
  assumes "validate_manifest m = Inr ()"
  shows "authenticate_files lib m files = Inr sha \<longleftrightarrow>
     mset (map (file_record lib) files) = mset (map checksum_record (mf_files m)) \<and>
     digest lib (files_to_value lib) ''source-files'' (mf_files m) = Inr sha"
proof -
  let ?s = "sort_key pf_path files"
  have sorted: "sorted_wrt (<) (map ck_path (mf_files m))" by (rule validate_manifest_Inr(4) [OF assms])
  have fsts: "map fst (map checksum_record (mf_files m)) = map ck_path (mf_files m)"
    "map fst (map (file_record lib) ?s) = map pf_path ?s"
    by (simp_all add: checksum_record_def file_record_def)
  have perm: "mset (map (file_record lib) ?s) = mset (map (file_record lib) files)" by simp
  have key: "map checksum_record (mf_files m) = map (file_record lib) ?s \<longleftrightarrow>
      mset (map (file_record lib) files) = mset (map checksum_record (mf_files m))" (is "?L \<longleftrightarrow> ?R")
  proof
    assume ?L
    then show ?R using perm by simp
  next
    assume ?R
    then have "map (file_record lib) ?s = map checksum_record (mf_files m)"
      by (intro sorted_records_unique; unfold fsts perm)
        (use sorted in \<open>simp_all add: strict_sorted_iff\<close>)
    then show ?L ..
  qed
  have "authenticate_files lib m files = Inr sha \<longleftrightarrow>
      (length ?s = length (mf_files m) \<and> (\<forall>p\<in>set (zip (mf_files m) ?s). checksum_record (fst p) = file_record lib (snd p))) \<and>
      digest lib (files_to_value lib) ''source-files'' (mf_files m) = Inr sha"
  proof -
    have "list_ex (file_differs lib) (zip (mf_files m) ?s) \<longleftrightarrow>
        \<not> (\<forall>p\<in>set (zip (mf_files m) ?s). checksum_record (fst p) = file_record lib (snd p))"
      by (force simp: list_ex_iff file_differs_iff)
    then show ?thesis by (simp add: authenticate_files_def Let_def)
  qed
  also have "(length ?s = length (mf_files m) \<and> (\<forall>p\<in>set (zip (mf_files m) ?s). checksum_record (fst p) = file_record lib (snd p))) \<longleftrightarrow>
      map checksum_record (mf_files m) = map (file_record lib) ?s"
    using zip_all_eq_map [of "mf_files m" ?s checksum_record "file_record lib"] by (metis length_map)
  finally show ?thesis unfolding key .
qed

section \<open>Nesting depth\<close>

lemma check_depth_loop_iff:
  assumes "unat depth \<le> 6" and "quoted \<or> \<not> escaped"
  shows "check_depth_loop depth quoted escaped bs = Inr () \<longleftrightarrow>
     (\<forall>k\<le>length bs. fst (foldl nest_step (unat depth, quoted, escaped) (take k bs)) \<le> 6)"
  using assms
proof (induction depth quoted escaped bs rule: check_depth_loop.induct)
  case (2 depth quoted escaped b bs)
  have first: "(\<forall>k\<le>length (b # bs). fst (foldl nest_step st (take k (b # bs))) \<le> 6) \<longleftrightarrow>
      fst st \<le> 6 \<and> (\<forall>k\<le>length bs. fst (foldl nest_step (nest_step st b) (take k bs)) \<le> 6)" for st
    using all_le_Suc [of "length bs" "\<lambda>k. fst (foldl nest_step st (take k (b # bs))) \<le> 6"] by simp
  show ?case
  proof (cases "\<not> quoted \<and> b \<noteq> 0x22 \<and> (b = 0x7B \<or> b = 0x5B)")
    case True
    have add: "checked_add depth 1 = Some (depth + 1)" "unat (depth + 1) = unat depth + 1"
      using "2.prems"(1) by (simp_all add: checked_add_def unat_add_lem [THEN iffD1])
    show ?thesis
    proof (cases "6 < depth + 1")
      case gt: True
      then have "6 < unat depth + 1" using add(2) by (simp add: word_less_nat_alt)
      then have "\<not> fst (foldl nest_step (nest_step (unat depth, quoted, escaped) b) (take 0 bs)) \<le> 6"
        using True by simp
      then show ?thesis unfolding first using True add gt by auto
    next
      case le: False
      then have "unat (depth + 1) \<le> 6" by (simp add: word_less_nat_alt)
      then show ?thesis unfolding first using True le add 2 by simp
    qed
  next
    case False
    have sub: "unat (if depth = 0 then 0 else depth - 1) = unat depth - 1"
      by (simp add: unat_minus_one)
    then show ?thesis unfolding first using False 2 by (auto simp: sub)
  qed
qed simp

lemma check_depth_iff: "check_depth input = Inr () \<longleftrightarrow> (\<forall>k\<le>length input. nesting (take k input) \<le> 6)"
  using check_depth_loop_iff [of 0 False False input] by (simp add: check_depth_def nesting_def)

section \<open>Digest domains\<close>

lemma bytes_of_zero: "0 \<in> set (bytes_of s) \<longleftrightarrow> CHR 0x00 \<in> set s"
proof -
  have "(of_nat (byte_of c) :: u8) = 0 \<longleftrightarrow> c = CHR 0x00" for c
    using byte_of_lt [of c] byte_of_inject [of c "CHR 0x00"]
    by (simp add: word_unat_eq_iff unat_of_nat) (simp add: byte_of_def)
  then show ?thesis by (force simp: bytes_of_def)
qed

lemma bytes_of_inject: "bytes_of s = bytes_of t \<longleftrightarrow> s = t"
proof -
  have "inj (\<lambda>c. of_nat (byte_of c) :: u8)"
    using byte_of_lt byte_of_inject by (auto intro!: injI simp: word_unat_eq_iff unat_of_nat)
  then show ?thesis unfolding bytes_of_def by (metis inj_map_eq_map)
qed

lemma digest_preimage_inject:
  assumes "digest_preimage k1 b1 = digest_preimage k2 b2" and "CHR 0x00 \<notin> set k1" and "CHR 0x00 \<notin> set k2"
  shows "k1 = k2 \<and> b1 = b2"
proof -
  have "bytes_of k1 @ 0 # b1 = bytes_of k2 @ 0 # b2" using assms(1) by (simp add: digest_preimage_def)
  then have "bytes_of k1 = bytes_of k2 \<and> b1 = b2"
    by (rule append_stop_inject) (use assms(2,3) in \<open>auto simp: bytes_of_zero\<close>)
  then show ?thesis by (simp add: bytes_of_inject)
qed

lemma trust_mode_roundtrip: "trust_mode_from_str (trust_mode_as_str m) = Inr m"
  by (cases m) (simp_all add: trust_mode_from_str_def)

section \<open>Portable paths\<close>

lemma portable_segment_Inr:
  "portable_segment s = Inr () \<Longrightarrow> s \<notin> {[], ''.'', ''..''} \<and> \<not> ends_with ''.'' s \<and>
     hd (split_on CHR ''.'' s) \<notin> {''con'', ''prn'', ''aux'', ''nul''} \<and>
     \<not> device_suffix ''com'' (hd (split_on CHR ''.'' s)) \<and> \<not> device_suffix ''lpt'' (hd (split_on CHR ''.'' s))"
  by (auto simp: portable_segment_def Let_def split: if_splits)

lemma portable_path_Inr:
  assumes "portable_path v = Inr ()"
  shows "v \<noteq> []" "length v \<le> 96"
    "\<forall>c\<in>set v. is_ascii_lowercase c \<or> is_ascii_digit c \<or> c \<in> {CHR ''/'', CHR ''.'', CHR ''_'', CHR ''-''}"
    "is_ascii_lowercase (hd v) \<or> is_ascii_digit (hd v)"
    "\<forall>s\<in>set (split_on CHR ''/'' v). portable_segment s = Inr ()"
proof -
  have ok: "v \<noteq> []" "length v \<le> 96" "list_all portable_byte (enumerate 0 v)"
    "\<forall>s\<in>set (split_on CHR ''/'' v). portable_segment s = Inr ()"
    using assms by (auto simp: portable_path_def try_for_each_Inr_iff not_less split: if_splits)
  then show "v \<noteq> []" "length v \<le> 96" "\<forall>s\<in>set (split_on CHR ''/'' v). portable_segment s = Inr ()" by auto
  have byte: "portable_byte (i, v ! i)" if "i < length v" for i
    using ok(3) that by (auto simp: list_all_iff in_set_enumerate_eq)
  then show "\<forall>c\<in>set v. is_ascii_lowercase c \<or> is_ascii_digit c \<or> c \<in> {CHR ''/'', CHR ''.'', CHR ''_'', CHR ''-''}"
    by (fastforce simp: in_set_conv_nth portable_byte_def)
  show "is_ascii_lowercase (hd v) \<or> is_ascii_digit (hd v)"
    using byte [of 0] ok(1) by (simp add: hd_conv_nth portable_byte_def)
qed

section \<open>Properties\<close>

subsection \<open>A sample workspace for the witnesses\<close>

text \<open>Two local packages, \<open>app\<close> depending on \<open>lib\<close>, and codecs that know just their records.\<close>

datatype sample_value =
  VManifest manifest | VLock lock | VFiles "checksum list" | VCoordinate "string \<times> string \<times> package_source"

definition sample_compatibility :: compatibility where
  "sample_compatibility = \<lparr>compiler = ''0.1.0'', profile = ''i32-v1'', targets = [''javascript'']\<rparr>"

definition app_source :: package_source where "app_source = PackageSource Local ''app'' []"

definition lib_source :: package_source where "lib_source = PackageSource Local ''lib'' []"

definition hex_a :: string where "hex_a = replicate 64 CHR ''a''"

definition hex_b :: string where "hex_b = replicate 64 CHR ''b''"

definition lib_manifest :: manifest where
  "lib_manifest = \<lparr>mf_format = ''zryna.package.v1'', mf_name = ''lib'', mf_version = ''2.0.0'',
     mf_source = lib_source, mf_compatibility = sample_compatibility,
     mf_files = [\<lparr>ck_path = ''lib.zry'', ck_size = 1, ck_sha256 = hex_b\<rparr>], mf_dependencies = []\<rparr>"

definition app_manifest :: manifest where
  "app_manifest = \<lparr>mf_format = ''zryna.package.v1'', mf_name = ''app'', mf_version = ''1.0.0'',
     mf_source = app_source, mf_compatibility = sample_compatibility,
     mf_files = [\<lparr>ck_path = ''main.zry'', ck_size = 1, ck_sha256 = hex_b\<rparr>],
     mf_dependencies = [\<lparr>dep_alias = ''util'', dep_name = ''lib'', dep_version = ''2.0.0'',
       dep_source = lib_source\<rparr>]\<rparr>"

definition sample_packages :: "resolved_package list" where
  "sample_packages =
     [\<lparr>rpk_instance = \<lparr>pi_id = hex_a, pi_source_sha256 = hex_b\<rparr>, rpk_name = ''app'',
       rpk_version = ''1.0.0'', rpk_source = app_source, rpk_dependencies = [(''util'', hex_b)]\<rparr>,
      \<lparr>rpk_instance = \<lparr>pi_id = hex_b, pi_source_sha256 = hex_b\<rparr>, rpk_name = ''lib'',
       rpk_version = ''2.0.0'', rpk_source = lib_source, rpk_dependencies = []\<rparr>]"

definition sample_lock :: lock where
  "sample_lock = lock_of hex_a sample_compatibility sample_packages"

definition sample_to_vec :: "sample_value \<Rightarrow> bytes option" where
  "sample_to_vec v =
     (case v of
        VManifest m \<Rightarrow> if m = app_manifest then Some [1] else if m = lib_manifest then Some [2] else None
      | VLock k \<Rightarrow> if k = sample_lock then Some [3] else None
      | VFiles fs \<Rightarrow> Some [4]
      | VCoordinate c \<Rightarrow>
          if c = (''app'', ''1.0.0'', app_source) then Some [5]
          else if c = (''lib'', ''2.0.0'', lib_source) then Some [6] else None)"

definition sample_from_slice :: "bytes \<Rightarrow> sample_value option" where
  "sample_from_slice b =
     (if b = [1, 10] then Some (VManifest app_manifest)
      else if b = [2, 10] then Some (VManifest lib_manifest)
      else if b = [3, 10] then Some (VLock sample_lock) else None)"

definition sample_lib :: "sample_value wire_lib" where
  "sample_lib =
     \<lparr>from_slice = sample_from_slice, to_vec = sample_to_vec,
      manifest_to_value = (\<lambda>m. Some (VManifest m)),
      manifest_from_value = (\<lambda>v. case v of VManifest m \<Rightarrow> Some m | _ \<Rightarrow> None),
      lock_to_value = (\<lambda>k. Some (VLock k)),
      lock_from_value = (\<lambda>v. case v of VLock k \<Rightarrow> Some k | _ \<Rightarrow> None),
      files_to_value = (\<lambda>fs. Some (VFiles fs)), coordinate_to_value = (\<lambda>c. Some (VCoordinate c)),
      sha256_hex = (\<lambda>b. if b = digest_preimage ''manifest'' [1, 10] then hex_a else hex_b)\<rparr>"

definition sample_load ::
    "nat \<Rightarrow> package_source \<Rightarrow> (resolve_error + package_material) \<times> nat" where
  "sample_load n source =
     (if source = app_source
      then Inr \<lparr>pm_manifest = [1, 10], pm_files = [\<lparr>pf_path = ''main.zry'', pf_bytes = [0]\<rparr>]\<rparr>
      else if source = lib_source
      then Inr \<lparr>pm_manifest = [2, 10], pm_files = [\<lparr>pf_path = ''lib.zry'', pf_bytes = [0]\<rparr>]\<rparr>
      else Inl (err_source ''absent''), n + 1)"

definition sample_graph :: resolved_graph where
  "sample_graph = \<lparr>rg_root = hex_a, rg_compatibility = sample_compatibility,
     rg_packages = sample_packages, rg_lock_bytes = [3, 10], rg_lock_sha256 = hex_b\<rparr>"

lemma sample_resolve:
  "resolve sample_lib sample_load 0 app_source Update = Some (Inr sample_graph, 2)"
  by code_simp

lemma sample_codecs: "coordinate_codec sample_lib" "lock_codec sample_lib" "hex_digests sample_lib"
proof -
  show "coordinate_codec sample_lib"
    unfolding coordinate_codec_def encode_Inr_iff
    by (auto simp: sample_lib_def sample_to_vec_def split: if_splits)
  show "lock_codec sample_lib"
    unfolding lock_codec_def by (auto simp: sample_lib_def sample_to_vec_def sample_from_slice_def split: if_splits)
  show "hex_digests sample_lib"
  proof -
    have "is_digest hex_a" "is_digest hex_b" by code_simp+
    then show ?thesis by (simp add: hex_digests_def sample_lib_def)
  qed
qed

subsection \<open>The claims\<close>

text \<open>C7: the graph check accepts exactly the well-founded closed graphs: package identities are
  distinct, the dependency relation has no cycle, and the packages are precisely those reachable
  from the root (no orphan, no edge to an absent package).\<close>

theorem graph_check_exact:
  "reject_cycles_and_orphans root packages = Inr () \<longleftrightarrow>
     distinct (package_ids packages) \<and> acyclic (dependency_edges packages) \<and>
     (dependency_edges packages)\<^sup>* `` {root} = set (package_ids packages)"
  by (rule reject_cycles_and_orphans_char)

text \<open>C8: resolution always returns: whatever the provider answers, the loading loop ends (it loads
  at most 16 distinct sources), so \<open>resolve\<close> yields a graph or an error.\<close>

theorem resolve_terminates:
  "\<exists>r p'. resolve lib load p src mode = Some (r, p')"
proof -
  have "load_inv lib [src] []" by (simp add: load_inv_def bt_wf_def)
  then obtain r p' where "load_packages lib load p src = Some (r, p')"
    using load_loop_total [of lib "[src]" "[]" load p] by (auto simp: load_packages_def)
  then show ?thesis by (auto simp: resolve_def split: sum.splits)
qed

text \<open>C9: a resolved graph is exact. It has at most 16 packages in strict identity order, is acyclic
  and fully reachable, its root is the requested source, and every package stands for a validated
  manifest whose identity is its digest, whose files were authenticated, which is compatible with
  the root, and each of whose dependencies leads to the one package with exactly the requested
  name, version and source. The coordinate encoding is assumed injective.\<close>

theorem resolve_sound:
  assumes "resolve lib load p src mode = Some (Inr g, p')" and "coordinate_codec lib"
  shows "resolved_graph_ok lib src g"
  by (rule resolve_graph_ok [OF assms])

theorem resolve_sound_witness: "resolved_graph_ok sample_lib app_source sample_graph"
  by (rule resolve_sound [OF sample_resolve sample_codecs(1)])

text \<open>C10: a lock written by an update replays: resolving again against the produced lock bytes, with
  a provider in the same state, succeeds with the same graph. Assumed of the codecs: coordinates
  encode injectively, encoded locks read back, digests are 64 hex digits; and that the produced
  bytes are within the size and nesting limits that every read checks.\<close>

theorem update_then_frozen:
  assumes "resolve lib load p src Update = Some (Inr g, p')"
    and "coordinate_codec lib" and "lock_codec lib" and "hex_digests lib"
    and "length (rg_lock_bytes g) \<le> MAX_WIRE_BYTES" and "check_depth (rg_lock_bytes g) = Inr ()"
  shows "resolve lib load p src (Frozen (rg_lock_bytes g)) = Some (Inr g, p')"
  by (rule frozen_replay [OF assms])

theorem update_then_frozen_witness:
  "resolve sample_lib sample_load 0 app_source (Frozen [3, 10]) = Some (Inr sample_graph, 2)"
proof -
  have "length (rg_lock_bytes sample_graph) \<le> MAX_WIRE_BYTES" "check_depth (rg_lock_bytes sample_graph) = Inr ()"
    by code_simp+
  from update_then_frozen [OF sample_resolve sample_codecs this] show ?thesis
    by (simp add: sample_graph_def)
qed

text \<open>C11: a frozen lock cannot change the outcome: if resolution succeeds under a frozen lock, the
  lock that was read is exactly the lock of the resolved graph, and an unlocked resolution gives
  the same graph.\<close>

theorem frozen_lock_exact:
  assumes "resolve lib load p src (Frozen input) = Some (Inr g, p')"
  shows "parse lib (lock_from_value lib) input =
       Inr (lock_of (rg_root g) (rg_compatibility g) (rg_packages g)) \<and>
     resolve lib load p src Update = Some (Inr g, p')"
  by (rule frozen_exact [OF assms])

theorem frozen_lock_exact_witness:
  "parse sample_lib (lock_from_value sample_lib) [3, 10] = Inr sample_lock"
proof -
  have "resolve sample_lib sample_load 0 app_source (Frozen [3, 10]) = Some (Inr sample_graph, 2)"
    by code_simp
  from frozen_lock_exact [OF this] show ?thesis by (simp add: sample_graph_def sample_lock_def)
qed

text \<open>C12: file authentication compares inventories as multisets: for a validated manifest, the
  provided files are accepted exactly when their paths, lengths and content hashes are those of
  the manifest, in any order, and the result is the digest of the manifest's inventory.\<close>

theorem authenticate_files_exact:
  assumes "validate_manifest m = Inr ()"
  shows "authenticate_files lib m files = Inr sha \<longleftrightarrow>
     mset (map (file_record lib) files) = mset (map checksum_record (mf_files m)) \<and>
     digest lib (files_to_value lib) ''source-files'' (mf_files m) = Inr sha"
  by (rule authenticate_files_Inr [OF assms])

theorem authenticate_files_exact_witness:
  "authenticate_files sample_lib app_manifest [\<lparr>pf_path = ''main.zry'', pf_bytes = [0]\<rparr>] = Inr hex_b"
proof -
  have v: "validate_manifest app_manifest = Inr ()" by code_simp
  show ?thesis unfolding authenticate_files_exact [OF v] by code_simp
qed

text \<open>In a validated manifest no listed file is also a directory of another listed file: the
  collision scan accepts exactly when no path extends another at a slash.\<close>

theorem prefix_collisions_exact:
  "reject_prefix_collisions files = Inr () \<longleftrightarrow>
     \<not> (\<exists>f\<in>set files. \<exists>g\<in>set files. \<exists>rest. ck_path g = ck_path f @ CHR ''/'' # rest)"
  by (rule reject_prefix_collisions_iff)

text \<open>Versions have one spelling: a version is accepted exactly when it is the decimal rendering
  of three numbers up to 9999 joined by dots (no leading zeros, no overflow of the 16-bit parse).\<close>

theorem version_canonical:
  "validate_version v = Inr () \<longleftrightarrow>
     (\<exists>a\<le>9999. \<exists>b\<le>9999. \<exists>c\<le>9999. v = join_with CHR ''.'' [show_nat a, show_nat b, show_nat c])"
  by (rule validate_version_iff)

text \<open>The nesting guard is exact: the 8-bit scan accepts the input exactly when, at every
  prefix, the number of open brackets outside strings is at most six (the counter cannot wrap).\<close>

theorem nesting_guard_exact:
  "check_depth input = Inr () \<longleftrightarrow> (\<forall>k\<le>length input. nesting (take k input) \<le> 6)"
  by (rule check_depth_iff)

text \<open>Digests are domain separated: two hashed preimages are equal only for the same kind and
  the same encoded bytes, for all kinds without a zero byte (as the three the resolver uses).\<close>

theorem digest_domains_separated:
  assumes "CHR 0x00 \<notin> set k1" and "CHR 0x00 \<notin> set k2"
  shows "digest_preimage k1 b1 = digest_preimage k2 b2 \<longleftrightarrow> k1 = k2 \<and> b1 = b2"
  using digest_preimage_inject [OF _ assms] by auto

end
