(* ===== verification/Diagnostics.thy ===== *)
theory Diagnostics
  imports Source_Facts "HOL-Library.Option_ord"
begin

text \<open>
  Diagnostics, \<open>crates/zryna-diagnostics/src\<close>: the diagnostic values of \<open>lib.rs\<close>, their resolution
  through the source map and canonical order (\<open>render_structured\<close>), and the bounded transport of
  \<open>protocol_v2.rs\<close> and \<open>protocol_v2/wire.rs\<close>. The derived JSON codec of a transport report is a
  parameter. A Rust string is the list of its UTF-8 bytes, so lengths and comparisons are the code's. The human-readable rendering (\<open>render_text\<close>, \<open>Display\<close>) is not modelled.
\<close>

section \<open>Diagnostic values\<close>

datatype severity = Error | Warning

instantiation severity :: linorder
begin

definition less_eq_severity :: "severity \<Rightarrow> severity \<Rightarrow> bool" where
  "less_eq_severity a b = (a = Error \<or> b = Warning)"

definition less_severity :: "severity \<Rightarrow> severity \<Rightarrow> bool" where
  "less_severity a b = (a = Error \<and> b = Warning)"

instance
  by standard (auto simp: less_eq_severity_def less_severity_def intro: severity.exhaust)

end

datatype primary_location = AtSource span | WorkspacePath string | Global

record diagnostic =
  dg_code :: string
  dg_severity :: severity
  dg_primary :: primary_location
  dg_message :: string
  dg_guidance :: string

definition diagnostic_error :: "string \<Rightarrow> string option \<Rightarrow> string \<Rightarrow> string \<Rightarrow> diagnostic" where
  "diagnostic_error code path message guidance =
     \<lparr>dg_code = code, dg_severity = Error,
      dg_primary = (case path of None \<Rightarrow> Global | Some p \<Rightarrow> WorkspacePath p),
      dg_message = message, dg_guidance = guidance\<rparr>"

definition diagnostic_error_at :: "string \<Rightarrow> span \<Rightarrow> string \<Rightarrow> string \<Rightarrow> diagnostic" where
  "diagnostic_error_at code sp message guidance =
     \<lparr>dg_code = code, dg_severity = Error, dg_primary = AtSource sp,
      dg_message = message, dg_guidance = guidance\<rparr>"

definition diagnostic_warning :: "string \<Rightarrow> string option \<Rightarrow> string \<Rightarrow> string \<Rightarrow> diagnostic" where
  "diagnostic_warning code path message guidance =
     \<lparr>dg_code = code, dg_severity = Warning,
      dg_primary = (case path of None \<Rightarrow> Global | Some p \<Rightarrow> WorkspacePath p),
      dg_message = message, dg_guidance = guidance\<rparr>"

definition diagnostic_warning_at :: "string \<Rightarrow> span \<Rightarrow> string \<Rightarrow> string \<Rightarrow> diagnostic" where
  "diagnostic_warning_at code sp message guidance =
     \<lparr>dg_code = code, dg_severity = Warning, dg_primary = AtSource sp,
      dg_message = message, dg_guidance = guidance\<rparr>"

definition from_source_error :: "source_error \<Rightarrow> diagnostic" where
  "from_source_error e =
     diagnostic_error (se_code e) (se_path e) (se_message e) (se_guidance e)"

definition dg_path :: "diagnostic \<Rightarrow> string option" where
  "dg_path d = (case dg_primary d of WorkspacePath p \<Rightarrow> Some p | _ \<Rightarrow> None)"

definition dg_span :: "diagnostic \<Rightarrow> span option" where
  "dg_span d = (case dg_primary d of AtSource sp \<Rightarrow> Some sp | _ \<Rightarrow> None)"

section \<open>Structured rendering\<close>

record rendered_diagnostic =
  rd_code :: string
  rd_severity :: severity
  rd_path :: "string option"
  rd_byte_start :: "u32 option"
  rd_byte_end :: "u32 option"
  rd_line_start :: "u32 option"
  rd_column_start :: "u32 option"
  rd_line_end :: "u32 option"
  rd_column_end :: "u32 option"
  rd_message :: string
  rd_guidance :: string

definition STRUCTURED_DIAGNOSTICS_VERSION :: u32 where "STRUCTURED_DIAGNOSTICS_VERSION = 1"

record structured_diagnostics =
  sd_schema_version :: u32
  sd_diagnostics :: "rendered_diagnostic list"

definition saturating_succ :: "u32 \<Rightarrow> u32" where
  "saturating_succ w = (if w = - 1 then w else w + 1)"

text \<open>\<open>None\<close> is a panic inside \<open>SourceMap::resolve\<close>.\<close>

definition resolve_diagnostic ::
    "source_map \<Rightarrow> diagnostic \<Rightarrow> (source_error + rendered_diagnostic) option" where
  "resolve_diagnostic m d =
     (let render = (\<lambda>p bs be ls cs le ce.
            \<lparr>rd_code = dg_code d, rd_severity = dg_severity d, rd_path = p,
             rd_byte_start = bs, rd_byte_end = be, rd_line_start = ls, rd_column_start = cs,
             rd_line_end = le, rd_column_end = ce,
             rd_message = dg_message d, rd_guidance = dg_guidance d\<rparr>)
      in case dg_primary d of
           AtSource sp \<Rightarrow>
             (case sm_resolve m sp of
                None \<Rightarrow> None
              | Some (Inl e) \<Rightarrow> Some (Inl e)
              | Some (Inr r) \<Rightarrow>
                  Some (Inr (render (Some (sf_path (rs_source r)))
                    (Some (byte_offset (rs_start r))) (Some (byte_offset (rs_end r)))
                    (Some (saturating_succ (rp_line (rs_start r))))
                    (Some (saturating_succ (scalar_column (rs_start r))))
                    (Some (saturating_succ (rp_line (rs_end r))))
                    (Some (saturating_succ (scalar_column (rs_end r)))))))
         | WorkspacePath p \<Rightarrow> Some (Inr (render (Some p) None None None None None None))
         | Global \<Rightarrow> Some (Inr (render None None None None None None None)))"

fun resolve_all ::
    "source_map \<Rightarrow> diagnostic list \<Rightarrow> (source_error + rendered_diagnostic list) option" where
  "resolve_all m [] = Some (Inr [])"
| "resolve_all m (d # ds) =
     (case resolve_diagnostic m d of
        None \<Rightarrow> None
      | Some (Inl e) \<Rightarrow> Some (Inl e)
      | Some (Inr r) \<Rightarrow> map_option (\<lambda>res. try_bind res (\<lambda>rs. Inr (r # rs))) (resolve_all m ds))"

type_synonym render_key =
  "string option \<times> u32 option \<times> u32 option \<times> severity \<times> string \<times> string \<times> string"

definition rendered_key :: "rendered_diagnostic \<Rightarrow> render_key" where
  "rendered_key r = (rd_path r, rd_byte_start r, rd_byte_end r, rd_severity r, rd_code r,
     rd_message r, rd_guidance r)"

definition render_structured ::
    "diagnostic list \<Rightarrow> source_map \<Rightarrow> (source_error + structured_diagnostics) option" where
  "render_structured ds m =
     map_option (\<lambda>res. try_bind res (\<lambda>rs.
       Inr \<lparr>sd_schema_version = STRUCTURED_DIAGNOSTICS_VERSION,
            sd_diagnostics = sort_key rendered_key rs\<rparr>)) (resolve_all m ds)"

section \<open>Protocol v2\<close>

definition MAX_DOCUMENT_BYTES :: usize where "MAX_DOCUMENT_BYTES = 65536"
definition MAX_REPORT_DIAGNOSTICS :: usize where "MAX_REPORT_DIAGNOSTICS = 256"
definition MAX_TEXT_BYTES :: usize where "MAX_TEXT_BYTES = 4096"
definition MAX_PATH_BYTES :: usize where "MAX_PATH_BYTES = 1024"
definition EXHAUSTION_CODE :: string where "EXHAUSTION_CODE = ''ZRYNA-D2001''"

datatype protocol_error = PLimit | PShape | PVersion | PRecord | PSource | POrder

datatype wire_location = LGlobal | LWorkspacePath string | LSource string u32 u32

record wire_record =
  wr_code :: string
  wr_severity :: severity
  wr_location :: wire_location
  wr_message :: string
  wr_guidance :: string

record report =
  schema_version :: u32
  diagnostics :: "wire_record list"

definition exhausted :: report where
  "exhausted = \<lparr>schema_version = 2, diagnostics =
     [\<lparr>wr_code = EXHAUSTION_CODE, wr_severity = Error, wr_location = LGlobal,
       wr_message = ''structured diagnostic limit exceeded'',
       wr_guidance = ''reduce the diagnostic input and retry; this report is incomplete''\<rparr>]\<rparr>"

definition record_key :: "wire_record \<Rightarrow> render_key" where
  "record_key r =
     (let (path, s, e) = (case wr_location r of
            LGlobal \<Rightarrow> (None, None, None)
          | LWorkspacePath p \<Rightarrow> (Some p, None, None)
          | LSource p s e \<Rightarrow> (Some p, Some s, Some e))
      in (path, s, e, wr_severity r, wr_code r, wr_message r, wr_guidance r))"

definition exceeds_limits :: "wire_record \<Rightarrow> bool" where
  "exceeds_limits r =
     (MAX_TEXT_BYTES < length (wr_message r) \<or> MAX_TEXT_BYTES < length (wr_guidance r)
      \<or> (case fst (record_key r) of Some p \<Rightarrow> MAX_PATH_BYTES < length p | None \<Rightarrow> False))"

definition valid_code :: "string \<Rightarrow> bool" where
  "valid_code code =
     (length code = 11 \<and> starts_with ''ZRYNA-'' code \<and> is_ascii_uppercase (code ! 6) \<and>
      list_all is_ascii_digit (drop 7 code))"

text \<open>The derived JSON codec of \<open>Report\<close>.\<close>

record report_codec =
  report_to_string :: "report \<Rightarrow> bytes option"
  report_from_slice :: "bytes \<Rightarrow> report option"

definition encode_report :: "report_codec \<Rightarrow> report \<Rightarrow> protocol_error + bytes" where
  "encode_report lib r = ok_or (report_to_string lib r) PShape"

definition diagnostic_too_large :: "diagnostic \<Rightarrow> bool" where
  "diagnostic_too_large d =
     (MAX_TEXT_BYTES < length (dg_message d) \<or> MAX_TEXT_BYTES < length (dg_guidance d)
      \<or> (case dg_path d of Some p \<Rightarrow> MAX_PATH_BYTES < length p | None \<Rightarrow> False))"

definition wire_location_of ::
    "source_map \<Rightarrow> primary_location \<Rightarrow> (protocol_error + wire_location) option" where
  "wire_location_of m loc =
     (case loc of
        Global \<Rightarrow> Some (Inr LGlobal)
      | WorkspacePath p \<Rightarrow> Some (Inr (LWorkspacePath p))
      | AtSource sp \<Rightarrow>
          (case sm_resolve m sp of
             None \<Rightarrow> None
           | Some (Inl _) \<Rightarrow> Some (Inl PSource)
           | Some (Inr r) \<Rightarrow>
               Some (Inr (LSource (sf_path (rs_source r)) (byte_offset (rs_start r)) (byte_offset (rs_end r))))))"

fun wire_records ::
    "source_map \<Rightarrow> diagnostic list \<Rightarrow> (protocol_error + wire_record list) option" where
  "wire_records m [] = Some (Inr [])"
| "wire_records m (d # ds) =
     (if \<not> valid_code (dg_code d) \<or> dg_code d = EXHAUSTION_CODE then Some (Inl PRecord)
      else
        (case wire_location_of m (dg_primary d) of
           None \<Rightarrow> None
         | Some (Inl e) \<Rightarrow> Some (Inl e)
         | Some (Inr loc) \<Rightarrow>
             map_option (\<lambda>res. try_bind res (\<lambda>rs.
               Inr (\<lparr>wr_code = dg_code d, wr_severity = dg_severity d, wr_location = loc,
                     wr_message = dg_message d, wr_guidance = dg_guidance d\<rparr> # rs)))
             (wire_records m ds)))"

definition render_json_v2 ::
    "report_codec \<Rightarrow> diagnostic list \<Rightarrow> source_map \<Rightarrow> (protocol_error + bytes) option" where
  "render_json_v2 lib ds m =
     (if MAX_REPORT_DIAGNOSTICS < length ds \<or> list_ex diagnostic_too_large ds
      then Some (encode_report lib exhausted)
      else
        map_option (\<lambda>res.
          try_bind res (\<lambda>records.
          try_bind (encode_report lib
            \<lparr>schema_version = 2, diagnostics = sort_key record_key records\<rparr>) (\<lambda>encoded.
          if MAX_DOCUMENT_BYTES < length encoded then encode_report lib exhausted
          else Inr encoded)))
        (wire_records m ds))"

definition validate_location :: "source_map \<Rightarrow> wire_record \<Rightarrow> protocol_error + unit" where
  "validate_location m r =
     (case wr_location r of
        LSource path s e \<Rightarrow>
          (case normalized_new path of
             Inl _ \<Rightarrow> Inl PSource
           | Inr p \<Rightarrow>
               try_bind (ok_or (sm_file_id m p) PSource) (\<lambda>file.
               if (case sm_source m file of None \<Rightarrow> True | Some src \<Rightarrow> sf_path src \<noteq> p)
               then Inl PSource
               else (case sm_span m file s e of Inl _ \<Rightarrow> Inl PSource | Inr _ \<Rightarrow> Inr ())))
      | _ \<Rightarrow> Inr ())"

definition validate_json :: "report_codec \<Rightarrow> bytes \<Rightarrow> source_map \<Rightarrow> protocol_error + unit" where
  "validate_json lib doc m =
     (if MAX_DOCUMENT_BYTES < length doc then Inl PLimit
      else
        try_bind (ok_or (report_from_slice lib doc) PShape) (\<lambda>rep.
        if schema_version rep \<noteq> 2 then Inl PVersion
        else if MAX_REPORT_DIAGNOSTICS < length (diagnostics rep)
                \<or> list_ex exceeds_limits (diagnostics rep) then Inl PLimit
        else if list_ex (\<lambda>r. \<not> valid_code (wr_code r)) (diagnostics rep) then Inl PRecord
        else if list_ex (\<lambda>r. wr_code r = EXHAUSTION_CODE) (diagnostics rep)
        then (if rep = exhausted then Inr () else Inl PRecord)
        else
          try_bind (try_for_each (validate_location m) (diagnostics rep)) (\<lambda>_.
          if list_ex (\<lambda>(a, b). record_key b < record_key a) (windows2 (diagnostics rep))
          then Inl POrder else Inr ())))"

end
