(* ===== verification/Native_Lexer.thy ===== *)
theory Native_Lexer
  imports Diagnostics
begin

text \<open>
  The native lexer of the frontend, \<open>crates/zryna-frontend/src/native_lexer.rs\<close> with \<open>scanner.rs\<close> and
  \<open>admission.rs\<close>: the lossless stream of tokens and trivia of every file of a source map, its limits, and the
  admission of raw bytes. The scanner works on the UTF-8 bytes of a text; a loop of the source over an offset is a
  function of the bytes from that offset on. \<open>None\<close> is a panic.
\<close>

section \<open>Limits and lexemes\<close>

definition MAX_TOKENS_PER_FILE :: usize where "MAX_TOKENS_PER_FILE = 65536"
definition MAX_TRIVIA_PER_FILE :: usize where "MAX_TRIVIA_PER_FILE = 65536"
definition MAX_LEXEMES_PER_PROJECT :: usize where "MAX_LEXEMES_PER_PROJECT = 262144"
definition MAX_SOURCE_BYTES_PER_PROJECT :: usize where "MAX_SOURCE_BYTES_PER_PROJECT = 8 * 1024 * 1024"
definition MAX_LEXICAL_DIAGNOSTICS :: usize where "MAX_LEXICAL_DIAGNOSTICS = 256"

datatype keyword =
    KwAs | KwConst | KwElse | KwExport | KwExtends | KwFalse | KwFrom | KwFunction | KwIf | KwImport | KwInterface
  | KwLet | KwReturn | KwTrue | KwWhile

datatype token_kind =
    TkIdentifier | TkKeyword keyword | TkDecimalInteger | TkStringLiteral | TkOpenBrace | TkCloseBrace
  | TkOpenBracket | TkCloseBracket | TkOpenParen | TkCloseParen | TkColon | TkSemicolon | TkComma | TkDot
  | TkLessThan | TkLessEqual | TkGreaterThan | TkGreaterEqual | TkEquals | TkFatArrow | TkStrictEqual
  | TkStrictNotEqual | TkPlus | TkMinus | TkAsterisk | TkInvalid

datatype trivia_kind = TvWhitespace | TvLineComment | TvBlockComment

datatype lexeme = LxToken token_kind span | LxTrivia trivia_kind span

fun lexeme_span :: "lexeme \<Rightarrow> span" where
  "lexeme_span (LxToken _ sp) = sp"
| "lexeme_span (LxTrivia _ sp) = sp"

record lexed_file =
  lf_id :: file_id
  lf_path :: string
  lf_lexemes :: "lexeme list"

record lexed_project =
  lp_source_map_identity :: u64
  lp_files :: "lexed_file list"
  lp_diagnostics :: "diagnostic list"

definition lp_is_bound_to :: "lexed_project \<Rightarrow> source_map \<Rightarrow> bool" where
  "lp_is_bound_to project sources = (lp_source_map_identity project = sm_id sources)"

fun lexeme_token :: "lexeme \<Rightarrow> (token_kind \<times> span) option" where
  "lexeme_token (LxToken kind sp) = Some (kind, sp)"
| "lexeme_token (LxTrivia _ _) = None"

definition lf_tokens :: "lexed_file \<Rightarrow> (token_kind \<times> span) list" where
  "lf_tokens f = List.map_filter lexeme_token (lf_lexemes f)"

section \<open>Errors\<close>

record raw_byte_span =
  rb_file :: u32
  rb_path :: string
  rb_start :: u32
  rb_end :: u32

record lex_error =
  le_diagnostic :: diagnostic
  le_raw_byte_span :: "raw_byte_span option"

definition lex_resource :: "string \<Rightarrow> lex_error" where
  "lex_resource message =
     \<lparr>le_diagnostic = diagnostic_error ''ZRYNA-F1502'' None message ''reduce the bounded source before native lexing'',
      le_raw_byte_span = None\<rparr>"

definition lex_resource_at :: "span \<Rightarrow> string \<Rightarrow> lex_error" where
  "lex_resource_at sp message =
     \<lparr>le_diagnostic = diagnostic_error_at ''ZRYNA-F1502'' sp message ''reduce the bounded source before native lexing'',
      le_raw_byte_span = None\<rparr>"

definition lex_source_error :: "source_error \<Rightarrow> lex_error" where
  "lex_source_error e = \<lparr>le_diagnostic = from_source_error e, le_raw_byte_span = None\<rparr>"

definition lex_raw_error :: "string \<Rightarrow> raw_byte_span \<Rightarrow> string \<Rightarrow> string \<Rightarrow> lex_error" where
  "lex_raw_error code location message guidance =
     \<lparr>le_diagnostic = diagnostic_error code (Some (rb_path location)) message guidance, le_raw_byte_span = Some location\<rparr>"

text \<open>\<open>map_err\<close>.\<close>

definition map_error :: "('e \<Rightarrow> 'f) \<Rightarrow> 'e + 'a \<Rightarrow> 'f + 'a" where
  "map_error f r = (case r of Inl e \<Rightarrow> Inl (f e) | Inr x \<Rightarrow> Inr x)"

section \<open>UTF-8\<close>

text \<open>
  \<open>std::str::from_utf8\<close>: one scalar value from the front of the bytes with its width, or the \<open>error_len\<close> of
  the \<open>Utf8Error\<close>, where \<open>None\<close> is a sequence cut short by the end of the input. The error of the whole is
  \<open>valid_up_to\<close> with \<open>error_len\<close>.
\<close>

definition continuation_byte :: "u8 \<Rightarrow> bool" where
  "continuation_byte b = (0x80 \<le> b \<and> b \<le> 0xBF)"

definition second_byte_ok :: "u8 \<Rightarrow> u8 \<Rightarrow> bool" where
  "second_byte_ok first b =
     (if first = 0xE0 then 0xA0 \<le> b \<and> b \<le> 0xBF
      else if first = 0xED then 0x80 \<le> b \<and> b \<le> 0x9F
      else if first = 0xF0 then 0x90 \<le> b \<and> b \<le> 0xBF
      else if first = 0xF4 then 0x80 \<le> b \<and> b \<le> 0x8F
      else continuation_byte b)"

definition decode_scalar :: "bytes \<Rightarrow> usize option + scalar \<times> usize" where
  "decode_scalar bs =
     (case bs of
        [] \<Rightarrow> Inl None
      | a # r \<Rightarrow>
          if a < 0x80 then Inr (unat a, 1)
          else if 0xC2 \<le> a \<and> a \<le> 0xDF then
            (case r of
               [] \<Rightarrow> Inl None
             | b # _ \<Rightarrow> if continuation_byte b then Inr ((unat a - 0xC0) * 64 + (unat b - 0x80), 2) else Inl (Some 1))
          else if 0xE0 \<le> a \<and> a \<le> 0xEF then
            (case r of
               [] \<Rightarrow> Inl None
             | b # r \<Rightarrow>
                 if \<not> second_byte_ok a b then Inl (Some 1)
                 else
                   (case r of
                      [] \<Rightarrow> Inl None
                    | c # _ \<Rightarrow>
                        if continuation_byte c
                        then Inr ((unat a - 0xE0) * 4096 + (unat b - 0x80) * 64 + (unat c - 0x80), 3)
                        else Inl (Some 2)))
          else if 0xF0 \<le> a \<and> a \<le> 0xF4 then
            (case r of
               [] \<Rightarrow> Inl None
             | b # r \<Rightarrow>
                 if \<not> second_byte_ok a b then Inl (Some 1)
                 else
                   (case r of
                      [] \<Rightarrow> Inl None
                    | c # r \<Rightarrow>
                        if \<not> continuation_byte c then Inl (Some 2)
                        else
                          (case r of
                             [] \<Rightarrow> Inl None
                           | d # _ \<Rightarrow>
                               if continuation_byte d
                               then Inr ((unat a - 0xF0) * 262144 + (unat b - 0x80) * 4096 + (unat c - 0x80) * 64 +
                                      (unat d - 0x80), 4)
                               else Inl (Some 3))))
          else Inl (Some 1))"

function from_utf8_at :: "usize \<Rightarrow> bytes \<Rightarrow> (usize \<times> usize option) + source_text" where
  "from_utf8_at offset bs =
     (if bs = [] then Inr []
      else
        (case decode_scalar bs of
           Inl error_len \<Rightarrow> Inl (offset, error_len)
         | Inr (c, width) \<Rightarrow> try_bind (from_utf8_at (offset + width) (drop width bs)) (\<lambda>t. Inr (c # t))))"
  by pat_completeness auto

termination
  by (relation "measure (\<lambda>(_, bs). length bs)")
    (auto simp: decode_scalar_def split: list.splits if_splits)

definition from_utf8 :: "bytes \<Rightarrow> (usize \<times> usize option) + source_text" where
  "from_utf8 bs = from_utf8_at 0 bs"

section \<open>Scanning one lexeme\<close>

datatype item_kind = ItemToken token_kind | ItemTrivia trivia_kind

definition utf8_width :: "u8 \<Rightarrow> usize" where
  "utf8_width first = (if first < 0x80 then 1 else if first < 0xE0 then 2 else if first < 0xF0 then 3 else 4)"

definition is_unicode_space :: "scalar \<Rightarrow> bool" where
  "is_unicode_space c =
     (c \<in> {0x85, 0xA0, 0x1680} \<or> 0x2000 \<le> c \<and> c \<le> 0x200B \<or> c \<in> {0x2028, 0x2029, 0x202F, 0x205F, 0x3000, 0xFEFF})"

text \<open>The callers never pass an empty slice.\<close>

definition whitespace_width :: "bytes \<Rightarrow> usize option" where
  "whitespace_width bs =
     (case bs of
        [] \<Rightarrow> None
      | b # _ \<Rightarrow>
          if b \<in> {0x20, 0x09, 0x0B, 0x0C, 0x0D, 0x0A} then Some 1
          else
            (let width = utf8_width b
             in if length bs < width then None
                else
                  (case from_utf8 (take width bs) of
                     Inr (c # _) \<Rightarrow> if is_unicode_space c then Some width else None
                   | _ \<Rightarrow> None)))"

definition starts_with_bytes :: "bytes \<Rightarrow> bytes \<Rightarrow> bool" where
  "starts_with_bytes p bs = (take (length p) bs = p)"

definition line_terminator_width :: "bytes \<Rightarrow> usize option" where
  "line_terminator_width bs =
     (case bs of
        [] \<Rightarrow> None
      | b # _ \<Rightarrow>
          if b = 0x0D \<or> b = 0x0A then Some 1
          else if starts_with_bytes (encode_utf8 0x2028) bs \<or> starts_with_bytes (encode_utf8 0x2029) bs then Some 3
          else None)"

function whitespace_run :: "bytes \<Rightarrow> usize" where
  "whitespace_run bs =
     (case whitespace_width bs of
        None \<Rightarrow> 0
      | Some width \<Rightarrow> width + whitespace_run (drop width bs))"
  by pat_completeness auto

termination
  by (relation "measure length")
    (auto simp: whitespace_width_def utf8_width_def Let_def split: list.splits if_splits sum.splits)

function line_comment_run :: "bytes \<Rightarrow> usize" where
  "line_comment_run bs =
     (if bs = [] \<or> line_terminator_width bs \<noteq> None then 0
      else utf8_width (hd bs) + line_comment_run (drop (utf8_width (hd bs)) bs))"
  by pat_completeness auto

termination
  by (relation "measure length") (auto simp: utf8_width_def)

text \<open>\<open>str::find\<close> of an ASCII pattern, as a byte offset.\<close>

fun find_bytes :: "bytes \<Rightarrow> bytes \<Rightarrow> usize option" where
  "find_bytes p [] = (if p = [] then Some 0 else None)"
| "find_bytes p (b # bs) = (if starts_with_bytes p (b # bs) then Some 0 else map_option Suc (find_bytes p bs))"

function scan_string_from :: "u8 \<Rightarrow> usize \<Rightarrow> bool \<Rightarrow> bytes \<Rightarrow> item_kind \<times> usize \<times> string option" where
  "scan_string_from quote offset escaped bs =
     (if bs = [] \<or> line_terminator_width bs \<noteq> None
      then (ItemToken TkInvalid, offset, Some ''unterminated string literal'')
      else if hd bs = quote then
        (if escaped then (ItemToken TkInvalid, offset + 1, Some ''string escapes are unsupported'')
         else (ItemToken TkStringLiteral, offset + 1, None))
      else if hd bs = 0x5C then
        (let rest = tl bs; width = (if rest \<noteq> [] \<and> line_terminator_width rest = None then utf8_width (hd rest) else 0)
         in scan_string_from quote (offset + 1 + width) True (drop width rest))
      else scan_string_from quote (offset + utf8_width (hd bs)) escaped (drop (utf8_width (hd bs)) bs))"
  by pat_completeness auto

termination
  by (relation "measure (\<lambda>(_, _, _, bs). length bs)") (auto simp: utf8_width_def Let_def)

definition scan_string :: "bytes \<Rightarrow> usize \<Rightarrow> item_kind \<times> usize \<times> string option" where
  "scan_string bs start = scan_string_from (bs ! start) (start + 1) False (drop (start + 1) bs)"

definition punctuation :: "bytes \<Rightarrow> (token_kind \<times> usize) option" where
  "punctuation bs =
     (case List.find (\<lambda>(spelling, _). starts_with_bytes spelling bs)
         [(bytes_of ''!=='', TkStrictNotEqual), (bytes_of ''==='', TkStrictEqual), (bytes_of ''=>'', TkFatArrow),
          (bytes_of ''<='', TkLessEqual), (bytes_of ''>='', TkGreaterEqual)] of
        Some (spelling, kind) \<Rightarrow> Some (kind, length spelling)
      | None \<Rightarrow>
          map_option (\<lambda>kind. (kind, 1))
            (map_of
               [(0x7B, TkOpenBrace), (0x7D, TkCloseBrace), (0x5B, TkOpenBracket), (0x5D, TkCloseBracket), (0x28, TkOpenParen),
                (0x29, TkCloseParen), (0x3A, TkColon), (0x3B, TkSemicolon), (0x2C, TkComma), (0x2E, TkDot), (0x3C, TkLessThan),
                (0x3E, TkGreaterThan), (0x3D, TkEquals), (0x2B, TkPlus), (0x2D, TkMinus), (0x2A, TkAsterisk)] (hd bs)))"

definition keyword_of :: "bytes \<Rightarrow> token_kind" where
  "keyword_of spelling =
     (case map_of
         [(bytes_of ''as'', KwAs), (bytes_of ''const'', KwConst), (bytes_of ''else'', KwElse), (bytes_of ''export'', KwExport),
          (bytes_of ''extends'', KwExtends), (bytes_of ''false'', KwFalse), (bytes_of ''from'', KwFrom),
          (bytes_of ''function'', KwFunction), (bytes_of ''if'', KwIf), (bytes_of ''import'', KwImport),
          (bytes_of ''interface'', KwInterface), (bytes_of ''let'', KwLet), (bytes_of ''return'', KwReturn),
          (bytes_of ''true'', KwTrue), (bytes_of ''while'', KwWhile)] spelling of
        Some k \<Rightarrow> TkKeyword k
      | None \<Rightarrow> TkIdentifier)"

definition alphabetic_byte :: "u8 \<Rightarrow> bool" where
  "alphabetic_byte b = (0x41 \<le> b \<and> b \<le> 0x5A \<or> 0x61 \<le> b \<and> b \<le> 0x7A)"

definition digit_byte :: "u8 \<Rightarrow> bool" where
  "digit_byte b = (0x30 \<le> b \<and> b \<le> 0x39)"

definition identifier_byte :: "u8 \<Rightarrow> bool" where
  "identifier_byte b = (alphabetic_byte b \<or> digit_byte b \<or> b = 0x5F)"

definition scan_identifier :: "source_text \<Rightarrow> usize \<Rightarrow> (item_kind \<times> usize \<times> string option) option" where
  "scan_identifier t start =
     (let offset = start + 1 + length (takeWhile identifier_byte (drop (start + 1) (utf8_bytes t)))
      in map_option (\<lambda>piece.
           let spelling = utf8_bytes piece
           in if 128 < length spelling \<or> spelling \<in> {bytes_of ''constructor'', bytes_of ''prototype'', bytes_of ''__proto__''}
              then (ItemToken TkInvalid, offset, Some ''identifier spelling is forbidden or exceeds 128 bytes'')
              else (ItemToken (keyword_of spelling), offset, None)) (str_slice t start offset))"

definition scan_block_comment :: "source_text \<Rightarrow> usize \<Rightarrow> (item_kind \<times> usize \<times> string option) option" where
  "scan_block_comment t start =
     map_option (\<lambda>rest.
       case find_bytes (bytes_of ''*/'') (utf8_bytes rest) of
         Some relative_end \<Rightarrow> (ItemTrivia TvBlockComment, start + 2 + (relative_end + 2), None)
       | None \<Rightarrow> (ItemTrivia TvBlockComment, str_len t, Some ''unterminated block comment''))
       (drop_bytes (start + 2) t)"

definition scan_item :: "source_text \<Rightarrow> usize \<Rightarrow> (item_kind \<times> usize \<times> string option) option" where
  "scan_item t start =
     (let bytes = utf8_bytes t; rest = drop start bytes; first = bytes ! start
      in case whitespace_width rest of
           Some width \<Rightarrow> Some (ItemTrivia TvWhitespace, start + width + whitespace_run (drop width rest), None)
         | None \<Rightarrow>
             if starts_with_bytes (bytes_of ''//'') rest
             then Some (ItemTrivia TvLineComment, start + 2 + line_comment_run (drop 2 rest), None)
             else if starts_with_bytes (bytes_of ''/*'') rest then scan_block_comment t start
             else if first = 0x27 \<or> first = 0x22 then Some (scan_string bytes start)
             else if alphabetic_byte first \<or> first = 0x5F then scan_identifier t start
             else if digit_byte first
             then Some (ItemToken TkDecimalInteger, start + 1 + length (takeWhile digit_byte (drop 1 rest)), None)
             else
               (case punctuation rest of
                  Some (kind, width) \<Rightarrow> Some (ItemToken kind, start + width, None)
                | None \<Rightarrow> Some (ItemToken TkInvalid, start + utf8_width first, Some ''unrecognized source character'')))"

section \<open>Scanning a file\<close>

record scan_state =
  ss_lexemes :: "lexeme list"
  ss_tokens :: usize
  ss_trivia :: usize
  ss_diagnostics :: "diagnostic list"

definition make_span :: "source_map \<Rightarrow> file_id \<Rightarrow> usize \<Rightarrow> usize \<Rightarrow> lex_error + span" where
  "make_span sources f s e =
     try_bind (ok_or (u32_try_from s) (lex_resource ''source offset overflow'')) (\<lambda>s.
     try_bind (ok_or (u32_try_from e) (lex_resource ''source offset overflow'')) (\<lambda>e.
     map_error lex_source_error (sm_span sources f s e)))"

definition push_item :: "item_kind \<Rightarrow> span \<Rightarrow> usize \<Rightarrow> scan_state \<Rightarrow> lex_error + scan_state" where
  "push_item kind sp remaining s =
     try_bind
       (case kind of
          ItemToken k \<Rightarrow>
            if MAX_TOKENS_PER_FILE < ss_tokens s + 1
            then Inl (lex_resource_at sp ''source file token inventory exceeds its limit'')
            else Inr (s\<lparr>ss_tokens := ss_tokens s + 1\<rparr>, LxToken k sp)
        | ItemTrivia k \<Rightarrow>
            if MAX_TRIVIA_PER_FILE < ss_trivia s + 1
            then Inl (lex_resource_at sp ''source file trivia inventory exceeds its limit'')
            else Inr (s\<lparr>ss_trivia := ss_trivia s + 1\<rparr>, LxTrivia k sp))
       (\<lambda>(s, lexeme).
       if length (ss_lexemes s) = remaining then Inl (lex_resource_at sp ''project lexical inventory exceeds its limit'')
       else Inr (s\<lparr>ss_lexemes := ss_lexemes s @ [lexeme]\<rparr>))"

definition malformed :: "span \<Rightarrow> string option \<Rightarrow> scan_state \<Rightarrow> lex_error + scan_state" where
  "malformed sp problem s =
     (case problem of
        None \<Rightarrow> Inr s
      | Some message \<Rightarrow>
          if length (ss_diagnostics s) = MAX_LEXICAL_DIAGNOSTICS
          then Inl (lex_resource_at sp ''lexical diagnostics exceed their limit'')
          else
            Inr (s\<lparr>ss_diagnostics := ss_diagnostics s @
              [diagnostic_error_at ''ZRYNA-F1501'' sp message ''use the frozen protocol-v4 lexical spelling'']\<rparr>))"

definition scan_step ::
    "source_map \<Rightarrow> file_id \<Rightarrow> usize \<Rightarrow> usize \<Rightarrow> item_kind \<times> usize \<times> string option \<Rightarrow> scan_state \<Rightarrow> lex_error + scan_state" where
  "scan_step sources f remaining start = (\<lambda>(kind, e, problem) s.
     try_bind (make_span sources f start e) (\<lambda>sp.
     try_bind (push_item kind sp remaining s) (\<lambda>s. malformed sp problem s)))"

partial_function (option) scan_loop ::
    "source_map \<Rightarrow> file_id \<Rightarrow> source_text \<Rightarrow> usize \<Rightarrow> usize \<Rightarrow> scan_state \<Rightarrow> (lex_error + scan_state) option" where
  "scan_loop sources f t remaining start s =
     (if start < str_len t then
        Option.bind (scan_item t start) (\<lambda>item.
        case scan_step sources f remaining start item s of
          Inl e \<Rightarrow> Some (Inl e)
        | Inr s \<Rightarrow> scan_loop sources f t remaining (fst (snd item)) s)
      else Some (Inr s))"

declare scan_loop.simps [code]

definition scan_file ::
    "source_map \<Rightarrow> file_id \<Rightarrow> source_text \<Rightarrow> usize \<Rightarrow> diagnostic list \<Rightarrow> (lex_error + lexeme list \<times> diagnostic list) option" where
  "scan_file sources f t remaining ds =
     map_option (\<lambda>r. try_bind r (\<lambda>s. Inr (ss_lexemes s, ss_diagnostics s)))
       (scan_loop sources f t remaining 0 \<lparr>ss_lexemes = [], ss_tokens = 0, ss_trivia = 0, ss_diagnostics = ds\<rparr>)"

section \<open>Projects\<close>

text \<open>The file behind a dense index.\<close>

definition indexed_source :: "source_map \<Rightarrow> usize \<Rightarrow> lex_error + file_id \<times> source_file" where
  "indexed_source sources i =
     try_bind (ok_or (u32_try_from i) (lex_resource ''source file id overflow'')) (\<lambda>raw_id.
     try_bind (map_error lex_source_error (verify_file_id sources raw_id)) (\<lambda>f.
     try_bind (ok_or (sm_source sources f) (lex_resource ''source file is unavailable'')) (\<lambda>src. Inr (f, src))))"

primrec boundary_before :: "source_text \<Rightarrow> usize \<Rightarrow> usize" where
  "boundary_before t 0 = 0"
| "boundary_before t (Suc n) = (if is_char_boundary t (Suc n) then Suc n else boundary_before t n)"

text \<open>The error for the first byte over the limit; \<open>None\<close> is the panic of a slice.\<close>

definition source_bytes_error :: "source_map \<Rightarrow> file_id \<Rightarrow> source_text \<Rightarrow> usize \<Rightarrow> lex_error option" where
  "source_bytes_error sources f t bytes_so_far =
     (let start = boundary_before t (MAX_SOURCE_BYTES_PER_PROJECT - bytes_so_far)
      in map_option (\<lambda>rest.
           let e = start + (case rest of [] \<Rightarrow> 0 | c # _ \<Rightarrow> len_utf8 c)
           in case make_span sources f start e of
                Inl error \<Rightarrow> error
              | Inr sp \<Rightarrow> lex_resource_at sp ''project source bytes exceed the protocol-v4 limit'')
           (drop_bytes start t))"

fun preflight_source_bytes :: "source_map \<Rightarrow> usize list \<Rightarrow> usize \<Rightarrow> (lex_error + unit) option" where
  "preflight_source_bytes sources [] bytes_so_far = Some (Inr ())"
| "preflight_source_bytes sources (i # is) bytes_so_far =
     (case indexed_source sources i of
        Inl e \<Rightarrow> Some (Inl e)
      | Inr (f, src) \<Rightarrow>
          (case usize_checked_add bytes_so_far (str_len (sf_text src)) of
             None \<Rightarrow> Some (Inl (lex_resource ''project source byte inventory overflowed''))
           | Some next \<Rightarrow>
               if MAX_SOURCE_BYTES_PER_PROJECT < next
               then map_option Inl (source_bytes_error sources f (sf_text src) bytes_so_far)
               else preflight_source_bytes sources is next))"

text \<open>\<open>None\<close> at the subtraction is its overflow.\<close>

fun lex_files ::
    "source_map \<Rightarrow> usize list \<Rightarrow> usize \<Rightarrow> lexed_file list \<Rightarrow> diagnostic list \<Rightarrow> (lex_error + lexed_project) option" where
  "lex_files sources [] project_lexemes files ds =
     Some (Inr \<lparr>lp_source_map_identity = sm_id sources, lp_files = files, lp_diagnostics = ds\<rparr>)"
| "lex_files sources (i # is) project_lexemes files ds =
     (case indexed_source sources i of
        Inl e \<Rightarrow> Some (Inl e)
      | Inr (f, src) \<Rightarrow>
          if MAX_LEXEMES_PER_PROJECT < project_lexemes then None
          else
            Option.bind (scan_file sources f (sf_text src) (MAX_LEXEMES_PER_PROJECT - project_lexemes) ds) (\<lambda>r.
            case r of
              Inl e \<Rightarrow> Some (Inl e)
            | Inr (lexemes, ds) \<Rightarrow>
                (case usize_checked_add project_lexemes (length lexemes) of
                   None \<Rightarrow> Some (Inl (lex_resource ''project lexical inventory overflowed''))
                 | Some next \<Rightarrow>
                     if MAX_LEXEMES_PER_PROJECT < next
                     then Some (Inl (lex_resource ''project lexical inventory exceeds its limit''))
                     else
                       lex_files sources is next
                         (files @ [\<lparr>lf_id = f, lf_path = sf_path src, lf_lexemes = lexemes\<rparr>]) ds)))"

definition lex :: "source_map \<Rightarrow> (lex_error + lexed_project) option" where
  "lex sources =
     Option.bind (preflight_source_bytes sources [0..<sm_len sources] 0) (\<lambda>r.
     case r of
       Inl e \<Rightarrow> Some (Inl e)
     | Inr _ \<Rightarrow> lex_files sources [0..<sm_len sources] 0 [] [])"

section \<open>Admission\<close>

record native_source_bytes =
  ns_path :: string
  ns_bytes :: bytes

record admitted_lexed_project =
  al_sources :: source_map
  al_project :: lexed_project

definition global_source_error :: "string \<Rightarrow> string \<Rightarrow> string \<Rightarrow> lex_error" where
  "global_source_error code message guidance =
     \<lparr>le_diagnostic = diagnostic_error code None message guidance, le_raw_byte_span = None\<rparr>"

definition raw_span :: "u32 \<Rightarrow> string \<Rightarrow> usize \<Rightarrow> usize \<Rightarrow> raw_byte_span" where
  "raw_span f path s e = \<lparr>rb_file = f, rb_path = path, rb_start = u32_or_max s, rb_end = u32_or_max e\<rparr>"

definition file_range_error :: lex_error where
  "file_range_error =
     global_source_error ''ZRYNA-S1002'' ''source file identifier exceeds its supported range''
       ''reduce the number of source files before analysis''"

definition admission_collision :: "string \<Rightarrow> string \<Rightarrow> lex_error" where
  "admission_collision path existing =
     \<lparr>le_diagnostic = diagnostic_error ''ZRYNA-S1004'' (Some path)
        (''source path collides with '' @ [CHR 0x27] @ existing @ [CHR 0x27] @ '' under the portable path identity'')
        ''use source paths that remain unique when ASCII case is ignored'',
      le_raw_byte_span = None\<rparr>"

fun check_inputs ::
    "native_source_bytes list \<Rightarrow> (string \<times> string) list \<Rightarrow> lex_error + (string \<times> bytes) list" where
  "check_inputs [] identities = Inr []"
| "check_inputs (input # inputs) identities =
     try_bind (map_error lex_source_error (normalized_new (ns_path input))) (\<lambda>path.
     let identity = portable_identity path
     in case bt_get identities identity of
          Some existing \<Rightarrow> Inl (admission_collision path existing)
        | None \<Rightarrow>
            try_bind (check_inputs inputs (bt_insert identity path identities)) (\<lambda>rest.
            Inr ((path, ns_bytes input) # rest)))"

fun preflight_bytes :: "(usize \<times> string \<times> bytes) list \<Rightarrow> usize \<Rightarrow> lex_error + unit" where
  "preflight_bytes [] bytes_so_far = Inr ()"
| "preflight_bytes ((i, path, bs) # rest) bytes_so_far =
     try_bind (ok_or (u32_try_from i) file_range_error) (\<lambda>f.
     if MAX_SOURCE_FILE_BYTES < length bs then
       Inl (lex_raw_error ''ZRYNA-F1502'' (raw_span f path MAX_SOURCE_FILE_BYTES (MAX_SOURCE_FILE_BYTES + 1))
         ''source file bytes exceed the source-map limit'' ''reduce the bounded source before native lexing'')
     else
       (let remaining = MAX_SOURCE_BYTES_PER_PROJECT - bytes_so_far
        in if remaining < length bs then
             Inl (lex_raw_error ''ZRYNA-F1502'' (raw_span f path remaining (remaining + 1))
               ''project source bytes exceed the protocol-v4 limit'' ''reduce the bounded source before native lexing'')
           else
             (case usize_checked_add bytes_so_far (length bs) of
                None \<Rightarrow>
                  Inl (global_source_error ''ZRYNA-F1502'' ''project source byte inventory overflowed''
                    ''reduce the bounded source before native lexing'')
              | Some bytes_so_far \<Rightarrow> preflight_bytes rest bytes_so_far)))"

fun decode_inputs :: "(usize \<times> string \<times> bytes) list \<Rightarrow> lex_error + source_file_input list" where
  "decode_inputs [] = Inr []"
| "decode_inputs ((i, path, bs) # rest) =
     try_bind (ok_or (u32_try_from i) file_range_error) (\<lambda>f.
     try_bind
       (map_error (\<lambda>(start, error_len).
          lex_raw_error ''ZRYNA-F1501''
            (raw_span f path start (case error_len of None \<Rightarrow> length bs | Some n \<Rightarrow> start + n))
            ''source bytes are not valid UTF-8'' ''provide well-formed UTF-8 source bytes'') (from_utf8 bs)) (\<lambda>t.
     try_bind (decode_inputs rest) (\<lambda>decoded. Inr (\<lparr>in_path = path, in_text = t\<rparr> # decoded))))"

text \<open>The second component is the new value of the counter of source maps.\<close>

definition admit_and_lex ::
    "u64 \<Rightarrow> native_source_bytes list \<Rightarrow> (lex_error + admitted_lexed_project) option \<times> u64" where
  "admit_and_lex next_id inputs =
     (if MAX_SOURCE_FILES < length inputs then
        (Some (Inl (global_source_error ''ZRYNA-S1002'' ''source map contains too many files''
           ''reduce the number of source files before analysis'')), next_id)
      else
        (case try_bind (check_inputs (sort_key ns_path inputs) []) (\<lambda>checked.
              try_bind (preflight_bytes (enumerate 0 checked) 0) (\<lambda>_. decode_inputs (enumerate 0 checked))) of
           Inl e \<Rightarrow> (Some (Inl e), next_id)
         | Inr decoded \<Rightarrow>
             (case build next_id decoded of
                (Inl e, next_id) \<Rightarrow> (Some (Inl (lex_source_error e)), next_id)
              | (Inr sources, next_id) \<Rightarrow>
                  (map_option (\<lambda>r. try_bind r (\<lambda>project. Inr \<lparr>al_sources = sources, al_project = project\<rparr>)) (lex sources),
                   next_id))))"

end
