(* ===== verification/Native_Lexer_Text.thy ===== *)
theory Native_Lexer_Text
  imports Native_Lexer
begin

text \<open>
  From bytes to Unicode scalar values. The lexer of \<open>native_lexer/scanner.rs\<close> works on UTF-8 bytes; this theory states a
  reference lexer on scalar values, proves that UTF-8 decoding inverts encoding, and carries every scan of one lexeme over:
  \<open>scan_item\<close> at a character boundary is \<open>ref_item\<close> on the text from there on.
\<close>

section \<open>A reference lexer on Unicode scalar values\<close>

definition text_of :: "string \<Rightarrow> source_text" where
  "text_of s = map byte_of s"

definition begins :: "source_text \<Rightarrow> source_text \<Rightarrow> bool" where
  "begins p u = (take (length p) u = p)"

definition is_space :: "scalar \<Rightarrow> bool" where
  "is_space c = (c \<in> {0x20, 0x09, 0x0B, 0x0C, 0x0D, 0x0A} \<or> is_unicode_space c)"

definition is_newline :: "scalar \<Rightarrow> bool" where
  "is_newline c = (c \<in> {0x0D, 0x0A, 0x2028, 0x2029})"

definition is_letter :: "scalar \<Rightarrow> bool" where
  "is_letter c = (0x41 \<le> c \<and> c \<le> 0x5A \<or> 0x61 \<le> c \<and> c \<le> 0x7A \<or> c = 0x5F)"

definition is_digit :: "scalar \<Rightarrow> bool" where
  "is_digit c = (0x30 \<le> c \<and> c \<le> 0x39)"

fun find_text :: "source_text \<Rightarrow> source_text \<Rightarrow> nat option" where
  "find_text p [] = (if p = [] then Some 0 else None)"
| "find_text p (c # u) = (if begins p (c # u) then Some 0 else map_option Suc (find_text p u))"

definition keyword_table :: "(string \<times> keyword) list" where
  "keyword_table =
     [(''as'', KwAs), (''const'', KwConst), (''else'', KwElse), (''export'', KwExport), (''extends'', KwExtends),
      (''false'', KwFalse), (''from'', KwFrom), (''function'', KwFunction), (''if'', KwIf), (''import'', KwImport),
      (''interface'', KwInterface), (''let'', KwLet), (''return'', KwReturn), (''true'', KwTrue), (''while'', KwWhile)]"

definition punctuation_table :: "(string \<times> token_kind) list" where
  "punctuation_table =
     [(''!=='', TkStrictNotEqual), (''==='', TkStrictEqual), (''=>'', TkFatArrow), (''<='', TkLessEqual),
      (''>='', TkGreaterEqual), (''{'', TkOpenBrace), (''}'', TkCloseBrace), (''['', TkOpenBracket), ('']'', TkCloseBracket),
      (''('', TkOpenParen), ('')'', TkCloseParen), ('':'', TkColon), ('';'', TkSemicolon), ('','', TkComma), (''.'', TkDot),
      (''<'', TkLessThan), (''>'', TkGreaterThan), (''='', TkEquals), (''+'', TkPlus), (''-'', TkMinus), (''*'', TkAsterisk)]"

definition forbidden_words :: "string list" where
  "forbidden_words = [''constructor'', ''prototype'', ''__proto__'']"

definition word_item :: "source_text \<Rightarrow> item_kind \<times> string option" where
  "word_item w =
     (if 128 < length w \<or> w \<in> set (map text_of forbidden_words)
      then (ItemToken TkInvalid, Some ''identifier spelling is forbidden or exceeds 128 bytes'')
      else
        (case map_of (map (\<lambda>(s, k). (text_of s, k)) keyword_table) w of
           Some k \<Rightarrow> (ItemToken (TkKeyword k), None)
         | None \<Rightarrow> (ItemToken TkIdentifier, None)))"

text \<open>The rest of a string after its opening quote: its kind, the scalars it takes and its problem.\<close>

fun string_rest :: "scalar \<Rightarrow> bool \<Rightarrow> source_text \<Rightarrow> item_kind \<times> nat \<times> string option" where
  "string_rest quote escaped [] = (ItemToken TkInvalid, 0, Some ''unterminated string literal'')"
| "string_rest quote escaped (c # u) =
     (if is_newline c then (ItemToken TkInvalid, 0, Some ''unterminated string literal'')
      else if c = quote then
        (if escaped then (ItemToken TkInvalid, 1, Some ''string escapes are unsupported'')
         else (ItemToken TkStringLiteral, 1, None))
      else if c = 0x5C then
        (case u of
           d # v \<Rightarrow>
             if is_newline d then (ItemToken TkInvalid, 1, Some ''unterminated string literal'')
             else apsnd (apfst ((+) 2)) (string_rest quote True v)
         | [] \<Rightarrow> (ItemToken TkInvalid, 1, Some ''unterminated string literal''))
      else apsnd (apfst Suc) (string_rest quote escaped u))"

definition ref_item :: "source_text \<Rightarrow> item_kind \<times> nat \<times> string option" where
  "ref_item u =
     (let c = hd u
      in if is_space c then (ItemTrivia TvWhitespace, length (takeWhile is_space u), None)
         else if begins (text_of ''//'') u
         then (ItemTrivia TvLineComment, 2 + length (takeWhile (\<lambda>c. \<not> is_newline c) (drop 2 u)), None)
         else if begins (text_of ''/*'') u then
           (case find_text (text_of ''*/'') (drop 2 u) of
              Some k \<Rightarrow> (ItemTrivia TvBlockComment, k + 4, None)
            | None \<Rightarrow> (ItemTrivia TvBlockComment, length u, Some ''unterminated block comment''))
         else if c = 0x27 \<or> c = 0x22 then apsnd (apfst Suc) (string_rest c False (tl u))
         else if is_letter c then
           (let n = length (takeWhile (\<lambda>c. is_letter c \<or> is_digit c) u); (kind, problem) = word_item (take n u)
            in (kind, n, problem))
         else if is_digit c then (ItemToken TkDecimalInteger, length (takeWhile is_digit u), None)
         else
           (case List.find (\<lambda>(s, _). begins (text_of s) u) punctuation_table of
              Some (s, kind) \<Rightarrow> (ItemToken kind, length s, None)
            | None \<Rightarrow> (ItemToken TkInvalid, 1, Some ''unrecognized source character'')))"

section \<open>UTF-8\<close>

lemmas byte_order = word_le_nat_alt word_less_nat_alt word_unat_eq_iff

lemma decode_simps:
  "unat a < 128 \<Longrightarrow> decode_scalar (a # r) = Inr (unat a, 1)"
  "194 \<le> unat a \<Longrightarrow> unat a \<le> 223 \<Longrightarrow> continuation_byte b \<Longrightarrow>
    decode_scalar (a # b # r) = Inr ((unat a - 192) * 64 + (unat b - 128), 2)"
  "224 \<le> unat a \<Longrightarrow> unat a \<le> 239 \<Longrightarrow> second_byte_ok a b \<Longrightarrow> continuation_byte c \<Longrightarrow>
    decode_scalar (a # b # c # r) = Inr ((unat a - 224) * 4096 + (unat b - 128) * 64 + (unat c - 128), 3)"
  "240 \<le> unat a \<Longrightarrow> unat a \<le> 244 \<Longrightarrow> second_byte_ok a b \<Longrightarrow> continuation_byte c \<Longrightarrow> continuation_byte d \<Longrightarrow>
    decode_scalar (a # b # c # d # r) =
      Inr ((unat a - 240) * 262144 + (unat b - 128) * 4096 + (unat c - 128) * 64 + (unat d - 128), 4)"
  by (simp_all add: decode_scalar_def byte_order)

lemma decode_cases:
  assumes "decode_scalar bs = Inr (x, w)"
  obtains a r where "bs = a # r" "unat a < 128" "x = unat a" "w = 1"
  | a b r where "bs = a # b # r" "194 \<le> unat a" "unat a \<le> 223" "continuation_byte b"
      "x = (unat a - 192) * 64 + (unat b - 128)" "w = 2"
  | a b c r where "bs = a # b # c # r" "224 \<le> unat a" "unat a \<le> 239" "second_byte_ok a b" "continuation_byte c"
      "x = (unat a - 224) * 4096 + (unat b - 128) * 64 + (unat c - 128)" "w = 3"
  | a b c d r where "bs = a # b # c # d # r" "240 \<le> unat a" "unat a \<le> 244" "second_byte_ok a b" "continuation_byte c"
      "continuation_byte d" "x = (unat a - 240) * 262144 + (unat b - 128) * 4096 + (unat c - 128) * 64 + (unat d - 128)" "w = 4"
  using assms by (auto simp: decode_scalar_def word_le_nat_alt word_less_nat_alt split: list.splits if_splits)

lemma continuation_of_nat: "n < 64 \<Longrightarrow> continuation_byte (of_nat (0x80 + n))" "n < 64 \<Longrightarrow> unat (of_nat (0x80 + n) :: u8) = 0x80 + n"
  by (simp_all only: continuation_byte_def byte_order unat_small_byte) simp_all

lemma second_byte_nat:
  "second_byte_ok a b \<longleftrightarrow> 128 \<le> unat b \<and> unat b \<le> 191 \<and> (unat a = 224 \<longrightarrow> 160 \<le> unat b) \<and>
    (unat a = 237 \<longrightarrow> unat b \<le> 159) \<and> (unat a = 240 \<longrightarrow> 144 \<le> unat b) \<and> (unat a = 244 \<longrightarrow> unat b \<le> 143)"
  by (auto simp: second_byte_ok_def continuation_byte_def byte_order)

lemma digits_of:
  fixes c :: nat
  assumes "c = 4096 * x + 64 * y + z" and "y < 64" and "z < 64"
  shows "c div 4096 = x" "c div 64 mod 64 = y" "c mod 64 = z"
proof -
  have c: "c = z + 64 * (y + 64 * x)" using assms(1) by simp
  show "c mod 64 = z" unfolding c mod_mult_self2 using assms(3) by simp
  have d: "c div 64 = y + 64 * x" unfolding c using assms(3) by simp
  show "c div 64 mod 64 = y" unfolding d using assms(2) by simp
  have "c div 4096 = c div 64 div 64" by (simp flip: div_mult2_eq)
  then show "c div 4096 = x" unfolding d using assms(2) by simp
qed

lemma digits_64:
  fixes c :: nat
  obtains x y z where "c = 4096 * x + 64 * y + z" "y < 64" "z < 64" "c div 4096 = x" "c div 64 mod 64 = y" "c mod 64 = z"
proof -
  have "c div 4096 = c div 64 div 64" by (simp flip: div_mult2_eq)
  then have "c = 4096 * (c div 4096) + 64 * (c div 64 mod 64) + c mod 64"
    using mult_div_mod_eq [of 64 c] mult_div_mod_eq [of 64 "c div 64"] by linarith
  then show thesis using that [of "c div 4096" "c div 64 mod 64" "c mod 64"] by simp
qed

lemma decode_encode:
  assumes "is_scalar c"
  shows "decode_scalar (encode_utf8 c @ r) = Inr (c, len_utf8 c)"
proof -
  have c: "c < 0x110000" "c < 0xD800 \<or> 0xE000 \<le> c" using assms by (auto simp: is_scalar_def)
  obtain x y z where e: "c = 4096 * x + 64 * y + z" "y < 64" "z < 64" "c div 4096 = x" "c div 64 mod 64 = y" "c mod 64 = z"
    by (rule digits_64)
  note cont = continuation_of_nat [OF e(2)] continuation_of_nat [OF e(3)]
  consider "c < 0x80" | "0x80 \<le> c" "c < 0x800" | "0x800 \<le> c" "c < 0x10000" | "0x10000 \<le> c" by linarith
  then show ?thesis
  proof cases
    case 1
    then show ?thesis by (simp add: encode_utf8_def len_utf8_def decode_simps unat_small_byte)
  next
    case 2
    have x0: "x = 0" using 2 e(1) by simp
    then have x: "c div 64 = y" using e(1-3) by simp
    define a where "a = (of_nat (0xC0 + y) :: u8)"
    have "unat a = 0xC0 + y" unfolding a_def by (rule unat_small_byte) (use e(2) in simp)
    then have "194 \<le> unat a" "unat a \<le> 223" "(unat a - 192) * 64 + z = c" using 2 x0 e(1-3) by simp_all
    then show ?thesis using decode_simps(2) [of a "of_nat (0x80 + z)" r] cont 2 e(6) x
      by (simp add: encode_utf8_def len_utf8_def a_def)
  next
    case 3
    define a b where "a = (of_nat (0xE0 + x) :: u8)" and "b = (of_nat (0x80 + y) :: u8)"
    have x: "x < 16" using 3 e by linarith
    have a: "unat a = 0xE0 + x" unfolding a_def by (rule unat_small_byte) (use x in simp)
    have b: "unat b = 0x80 + y" unfolding b_def using cont(2) .
    have "second_byte_ok a b" unfolding second_byte_nat a b using 3 c(2) e(1-3) by linarith
    moreover have "224 \<le> unat a" "unat a \<le> 239" "(unat a - 224) * 4096 + (unat b - 128) * 64 + z = c" using a b x e(1) by simp_all
    ultimately show ?thesis using decode_simps(3) [of a b "of_nat (0x80 + z)" r] cont 3 e(4-6)
      by (simp add: encode_utf8_def len_utf8_def a_def b_def)
  next
    case 4
    define a b where "a = (of_nat (0xF0 + x div 64) :: u8)" and "b = (of_nat (0x80 + x mod 64) :: u8)"
    have d: "c div 262144 = x div 64" unfolding e(4) [symmetric] by (simp flip: div_mult2_eq)
    have x: "x < 272" "x div 64 < 5" "64 * (x div 64) + x mod 64 = x" "x mod 64 < 64" using c(1) e(1) by auto
    have a: "unat a = 0xF0 + x div 64" unfolding a_def by (rule unat_small_byte) (use x in simp)
    have b: "unat b = 0x80 + x mod 64" unfolding b_def by (rule continuation_of_nat(2)) simp
    have "second_byte_ok a b" unfolding second_byte_nat a b using 4 e(1-3) x by linarith
    moreover have "240 \<le> unat a" "unat a \<le> 244" "(unat a - 240) * 262144 + (unat b - 128) * 4096 + y * 64 + z = c"
      using a b x(2,3) e(1) by linarith+
    ultimately show ?thesis using decode_simps(4) [of a b "of_nat (0x80 + y)" "of_nat (0x80 + z)" r] cont 4 e(4-6) d
      by (simp add: encode_utf8_def len_utf8_def a_def b_def)
  qed
qed

lemma decode_sound:
  assumes "decode_scalar bs = Inr (c, w)"
  shows "is_scalar c \<and> w = len_utf8 c \<and> bs = encode_utf8 c @ drop w bs"
  using assms
proof (cases rule: decode_cases)
  case (1 a r)
  then show ?thesis by (simp add: is_scalar_def len_utf8_def encode_utf8_def)
next
  case (2 a b r)
  have b: "128 \<le> unat b" "unat b \<le> 191" using 2(4) by (simp_all add: continuation_byte_def byte_order)
  define y z where "y = unat a - 192" and "z = unat b - 128"
  have yz: "c = 64 * y + z" "z < 64" "2 \<le> y" "y < 32" "unat a = 0xC0 + y" "unat b = 0x80 + z" using 2(2,3,5) b by (auto simp: y_def z_def)
  then have c: "0x80 \<le> c" "c < 0x800" "0xC0 + c div 64 = unat a" "0x80 + c mod 64 = unat b" by auto
  show ?thesis using 2(1,6) c(1,2) unfolding encode_utf8_def c(3,4) by (simp add: is_scalar_def len_utf8_def)
next
  case (3 a b d r)
  define x y z where "x = unat a - 224" and "y = unat b - 128" and "z = unat d - 128"
  have b: "unat a = 0xE0 + x" "unat b = 0x80 + y" "unat d = 0x80 + z" "y < 64" "z < 64" "x < 16"
      "x = 0 \<longrightarrow> 32 \<le> y" "x = 13 \<longrightarrow> y < 32"
    using 3(2-5) by (auto simp: x_def y_def z_def second_byte_nat continuation_byte_def byte_order)
  have e: "c = 4096 * x + 64 * y + z" using 3(6) by (simp add: x_def y_def z_def)
  have "0x800 \<le> c" "c < 0x10000" using b(4-) e by linarith+
  moreover have "is_scalar c"
  proof (cases "x \<le> 13")
    case True
    then have "c < 0xD800" using b(4,5,8) e by linarith
    then show ?thesis by (simp add: is_scalar_def)
  next
    case False
    then have "0xE000 \<le> c" using e by linarith
    then show ?thesis using \<open>c < 0x10000\<close> by (simp add: is_scalar_def)
  qed
  ultimately show ?thesis using 3(1,7) unfolding encode_utf8_def digits_of [OF e b(4,5)] b(1-3) [symmetric] by (simp add: len_utf8_def)
next
  case (4 a b d f r)
  define u v y z where "u = unat a - 240" and "v = unat b - 128" and "y = unat d - 128" and "z = unat f - 128"
  have b: "unat a = 0xF0 + u" "unat b = 0x80 + v" "unat d = 0x80 + y" "unat f = 0x80 + z" "y < 64" "z < 64" "v < 64" "u < 5"
      "u = 0 \<longrightarrow> 16 \<le> v" "u = 4 \<longrightarrow> v < 16"
    using 4(2-6) by (auto simp: u_def v_def y_def z_def second_byte_nat continuation_byte_def byte_order)
  have e: "c = 4096 * (64 * u + v) + 64 * y + z" using 4(7) by (simp add: u_def v_def y_def z_def)
  note d = digits_of [OF e b(5,6)]
  have "c div 262144 = c div 4096 div 64" by (simp flip: div_mult2_eq)
  then have u: "c div 262144 = u" "(64 * u + v) mod 64 = v" using b(7) unfolding d by simp_all
  have "0x10000 \<le> c" using b(9) e by (cases "u = 0") auto
  moreover have "c < 0x110000" using b(5-8,10) e by (cases "u = 4") auto
  moreover from calculation have "is_scalar c" by (simp add: is_scalar_def)
  ultimately show ?thesis using 4(1,8) unfolding encode_utf8_def u d b(1-4) [symmetric] by (simp add: len_utf8_def)
qed

lemma utf8_bytes_simps [simp]:
  "utf8_bytes [] = []" "utf8_bytes (c # t) = encode_utf8 c @ utf8_bytes t" "utf8_bytes (s @ t) = utf8_bytes s @ utf8_bytes t"
  by (simp_all add: utf8_bytes_def)

declare from_utf8_at.simps [simp del]

lemma from_utf8_at_iff: "from_utf8_at offset bs = Inr t \<longleftrightarrow> wf_text t \<and> utf8_bytes t = bs"
proof (induction offset bs arbitrary: t rule: from_utf8_at.induct)
  case (1 offset bs)
  show ?case
  proof (cases bs)
    case Nil
    then show ?thesis by (cases t) (auto simp: from_utf8_at.simps wf_text_def encode_utf8_def)
  next
    case (Cons b r)
    show ?thesis
    proof (cases "decode_scalar bs")
      case (Inl e)
      have "utf8_bytes t \<noteq> bs" if "wf_text t"
      proof
        assume t: "utf8_bytes t = bs"
        then obtain c u where "t = c # u" using Cons by (cases t) auto
        then show False using t Inl that decode_encode [of c "utf8_bytes u"] by (simp add: wf_text_def)
      qed
      then show ?thesis using Cons Inl by (subst from_utf8_at.simps) auto
    next
      case (Inr cw)
      obtain c w where cw: "cw = (c, w)" by force
      note d = decode_sound [OF Inr [unfolded cw]]
      have IH: "from_utf8_at (offset + w) (drop w bs) = Inr u \<longleftrightarrow> wf_text u \<and> utf8_bytes u = drop w bs" for u
        by (rule "1.IH" [OF _ Inr cw [symmetric]]) (use Cons in simp)
      have "from_utf8_at offset bs = Inr t \<longleftrightarrow> (\<exists>u. t = c # u \<and> wf_text u \<and> utf8_bytes u = drop w bs)"
        using Cons Inr cw IH by (subst from_utf8_at.simps) (auto simp: result_simps)
      also have "\<dots> \<longleftrightarrow> wf_text t \<and> utf8_bytes t = bs"
      proof
        assume r: "wf_text t \<and> utf8_bytes t = bs"
        then obtain c' u where t: "t = c' # u" using Cons by (cases t) auto
        then have "c' = c" using r Inr cw decode_encode [of c' "utf8_bytes u"] by (simp add: wf_text_def)
        then show "\<exists>u. t = c # u \<and> wf_text u \<and> utf8_bytes u = drop w bs" using r t d by (auto simp: wf_text_def)
      qed (use d in \<open>auto simp: wf_text_def\<close>)
      finally show ?thesis .
    qed
  qed
qed

lemma from_utf8_iff: "from_utf8 bs = Inr t \<longleftrightarrow> wf_text t \<and> utf8_bytes t = bs"
  by (simp add: from_utf8_def from_utf8_at_iff)

section \<open>Bytes and scalar values\<close>

lemma wf_text_simps [simp]: "wf_text []" "wf_text (c # t) \<longleftrightarrow> is_scalar c \<and> wf_text t" "wf_text (s @ t) \<longleftrightarrow> wf_text s \<and> wf_text t"
  by (simp_all add: wf_text_def)

lemma wf_text_take_drop: "wf_text t \<Longrightarrow> wf_text (take n t)" "wf_text t \<Longrightarrow> wf_text (drop n t)"
  by (auto simp: wf_text_def list_all_iff dest: in_set_takeD in_set_dropD)

lemma encode_ascii: "c < 128 \<Longrightarrow> encode_utf8 c = [of_nat c]" "c < 128 \<Longrightarrow> len_utf8 c = 1"
  by (simp_all add: encode_utf8_def len_utf8_def)

lemma encode_utf8_cons: "\<exists>b bs. encode_utf8 c = b # bs"
  by (metis length_encode_utf8 len_utf8_pos(2) list.exhaust list.size(3))

lemma encode_nonempty [simp]: "encode_utf8 c \<noteq> []"
  using encode_utf8_cons [of c] by auto

lemma encode_high:
  assumes "is_scalar c" "128 \<le> c" "b \<in> set (encode_utf8 c)"
  shows "128 \<le> unat b"
proof -
  have "c div 262144 < 16" using assms by (auto simp: is_scalar_def)
  moreover have "c < 0x800 \<Longrightarrow> c div 64 < 32" "c < 0x10000 \<Longrightarrow> c div 4096 < 16" "c mod 64 < 64" "c div 64 mod 64 < 64"
    "c div 4096 mod 64 < 64" by auto
  ultimately show ?thesis using assms(2,3)
    by (auto simp: encode_utf8_def unat_small_byte simp del: of_nat_add split: if_splits)
qed

lemma encode_prefix_inject:
  assumes "is_scalar c" "is_scalar d" "encode_utf8 c @ r = encode_utf8 d @ s"
  shows "c = d \<and> r = s"
  using decode_encode [OF assms(1), of r] decode_encode [OF assms(2), of s] assms(3) by auto

lemma starts_with_utf8:
  assumes "wf_text p" "wf_text t"
  shows "starts_with_bytes (utf8_bytes p) (utf8_bytes t) \<longleftrightarrow> begins p t"
proof -
  have "(\<exists>r. utf8_bytes t = utf8_bytes p @ r) \<longleftrightarrow> (\<exists>s. t = p @ s)"
    using assms
  proof (induction p arbitrary: t)
    case (Cons c p)
    show ?case
    proof
      assume "\<exists>r. utf8_bytes t = utf8_bytes (c # p) @ r"
      then obtain r where r: "utf8_bytes t = encode_utf8 c @ utf8_bytes p @ r" by auto
      then obtain d u where t: "t = d # u" by (cases t) auto
      then show "\<exists>s. t = (c # p) @ s" using r encode_prefix_inject [of d c "utf8_bytes u"] Cons by auto
    qed auto
  qed auto
  moreover have "begins p t \<longleftrightarrow> (\<exists>s. t = p @ s)" unfolding begins_def
    by (metis append_eq_conv_conj append_take_drop_id)
  moreover have "starts_with_bytes q b \<longleftrightarrow> (\<exists>r. b = q @ r)" for q b unfolding starts_with_bytes_def
    by (metis append_eq_conv_conj append_take_drop_id)
  ultimately show ?thesis by simp
qed

lemma bytes_of_text: "is_ascii s \<Longrightarrow> bytes_of s = utf8_bytes (text_of s) \<and> wf_text (text_of s)"
  by (induction s) (auto simp: bytes_of_def text_of_def is_ascii_def byte_of_def encode_ascii is_scalar_def)

lemma starts_with_ascii:
  "is_ascii s \<Longrightarrow> wf_text t \<Longrightarrow> starts_with_bytes (bytes_of s) (utf8_bytes t) \<longleftrightarrow> begins (text_of s) t"
  using bytes_of_text starts_with_utf8 by metis

lemma utf8_width_encode:
  assumes "is_scalar c"
  shows "utf8_width (hd (encode_utf8 c)) = len_utf8 c"
  using decode_encode [OF assms, of "[]"]
proof (cases rule: decode_cases)
qed (simp_all add: utf8_width_def byte_order)

lemma hd_encode_ascii:
  assumes "is_scalar c" "n < 128"
  shows "hd (encode_utf8 c) = of_nat n \<longleftrightarrow> c = n"
proof (cases "c < 128")
  case True
  then show ?thesis using assms(2) by (simp add: encode_ascii word_unat_eq_iff unat_small_byte)
next
  case False
  have "hd (encode_utf8 c) \<in> set (encode_utf8 c)" using encode_utf8_cons [of c] by auto
  then have "128 \<le> unat (hd (encode_utf8 c))" using encode_high assms(1) False by simp
  then show ?thesis using assms(2) False by (auto simp: unat_small_byte)
qed

lemma whitespace_width_utf8:
  assumes "is_scalar c"
  shows "whitespace_width (encode_utf8 c @ r) = (if is_space c then Some (len_utf8 c) else None)"
proof -
  obtain b bs where e: "encode_utf8 c = b # bs" using encode_utf8_cons by blast
  have w: "utf8_width b = len_utf8 c" using utf8_width_encode [OF assms] e by simp
  have l: "len_utf8 c = Suc (length bs)" using length_encode_utf8 [of c] e by simp
  have t: "from_utf8 (b # bs) = Inr [c]" using assms e by (simp add: from_utf8_iff)
  have b: "b = of_nat n \<longleftrightarrow> c = n" if "n < 128" for n using hd_encode_ascii [OF assms that] e by simp
  have "b \<in> {0x20, 0x09, 0x0B, 0x0C, 0x0D, 0x0A} \<longleftrightarrow> c \<in> {0x20, 0x09, 0x0B, 0x0C, 0x0D, 0x0A}"
    using b [of 32] b [of 9] b [of 11] b [of 12] b [of 13] b [of 10] by simp
  moreover have "c \<in> {0x20, 0x09, 0x0B, 0x0C, 0x0D, 0x0A} \<Longrightarrow> len_utf8 c = 1" by (auto simp: len_utf8_def)
  ultimately show ?thesis unfolding whitespace_width_def e using w l t by (auto simp: is_space_def Let_def)
qed

lemma line_terminator_utf8:
  assumes "is_scalar c" "wf_text t"
  shows "line_terminator_width (encode_utf8 c @ utf8_bytes t) = (if is_newline c then Some (len_utf8 c) else None)"
proof -
  obtain b bs where e: "encode_utf8 c = b # bs" using encode_utf8_cons by blast
  have b: "b = of_nat n \<longleftrightarrow> c = n" if "n < 128" for n using hd_encode_ascii [OF assms(1) that] e by simp
  have s: "starts_with_bytes (encode_utf8 d) (b # bs @ utf8_bytes t) \<longleftrightarrow> c = d" if "is_scalar d" for d
    using starts_with_utf8 [of "[d]" "c # t"] assms that e by (simp add: begins_def)
  have "is_scalar 0x2028" "is_scalar 0x2029" by (simp_all add: is_scalar_def)
  then show ?thesis unfolding line_terminator_width_def e using s b [of 13] b [of 10]
    by (auto simp: is_newline_def len_utf8_def)
qed

section \<open>The runs of the scanner\<close>

declare whitespace_run.simps [simp del] line_comment_run.simps [simp del] scan_string_from.simps [simp del]

lemma whitespace_run_utf8: "wf_text u \<Longrightarrow> whitespace_run (utf8_bytes u) = str_len (takeWhile is_space u)"
proof (induction u)
  case Nil
  then show ?case by (subst whitespace_run.simps) (simp add: whitespace_width_def)
next
  case (Cons c u)
  then show ?case by (subst whitespace_run.simps) (simp add: whitespace_width_utf8)
qed

lemma line_comment_run_utf8:
  "wf_text u \<Longrightarrow> line_comment_run (utf8_bytes u) = str_len (takeWhile (\<lambda>c. \<not> is_newline c) u)"
  by (induction u) (subst line_comment_run.simps; simp add: line_terminator_utf8 utf8_width_encode)+

lemma takeWhile_ascii:
  assumes "\<And>c. is_scalar c \<Longrightarrow> P (hd (encode_utf8 c)) = Q c" and "\<And>c. Q c \<Longrightarrow> c < 128" and "wf_text u"
  shows "length (takeWhile P (utf8_bytes u)) = length (takeWhile Q u) \<and> str_len (takeWhile Q u) = length (takeWhile Q u)"
  using assms(3)
proof (induction u)
  case (Cons c u)
  show ?case
  proof (cases "Q c")
    case True
    then show ?thesis using Cons assms(1) [of c] assms(2) [of c] by (simp add: encode_ascii)
  next
    case False
    obtain b bs where "encode_utf8 c = b # bs" using encode_utf8_cons by blast
    then show ?thesis using Cons assms(1) [of c] False by simp
  qed
qed simp

lemma hd_encode_range:
  assumes "is_scalar c" "n < 128"
  shows "hd (encode_utf8 c) \<le> of_nat n \<longleftrightarrow> c \<le> n" "of_nat n \<le> hd (encode_utf8 c) \<longleftrightarrow> n \<le> c"
proof -
  have h: "hd (encode_utf8 c) \<in> set (encode_utf8 c)" using encode_utf8_cons [of c] by auto
  have "unat (hd (encode_utf8 c)) = c \<or> 128 \<le> c \<and> 128 \<le> unat (hd (encode_utf8 c))"
    using encode_high [OF assms(1) _ h] by (cases "c < 128") (auto simp: encode_ascii unat_small_byte)
  then show "hd (encode_utf8 c) \<le> of_nat n \<longleftrightarrow> c \<le> n" "of_nat n \<le> hd (encode_utf8 c) \<longleftrightarrow> n \<le> c"
    using assms(2) by (auto simp: word_le_nat_alt unat_small_byte)
qed

lemma hd_encode_numeral:
  assumes "is_scalar c" "(numeral w :: nat) < 128"
  shows "hd (encode_utf8 c) = numeral w \<longleftrightarrow> c = numeral w"
    "hd (encode_utf8 c) \<le> numeral w \<longleftrightarrow> c \<le> numeral w" "numeral w \<le> hd (encode_utf8 c) \<longleftrightarrow> numeral w \<le> c"
  using hd_encode_ascii [OF assms] hd_encode_range [OF assms] by simp_all

lemma byte_classes:
  assumes "is_scalar c"
  shows "digit_byte (hd (encode_utf8 c)) = is_digit c"
    "(alphabetic_byte (hd (encode_utf8 c)) \<or> hd (encode_utf8 c) = 0x5F) = is_letter c"
    "identifier_byte (hd (encode_utf8 c)) = (is_letter c \<or> is_digit c)"
  using assms by (auto simp: digit_byte_def alphabetic_byte_def identifier_byte_def is_digit_def is_letter_def hd_encode_numeral)

lemma ascii_classes: "is_digit c \<Longrightarrow> c < 128" "is_letter c \<Longrightarrow> c < 128"
  by (auto simp: is_digit_def is_letter_def)

lemma scan_string_stop:
  "scan_string_from quote offset escaped [] = (ItemToken TkInvalid, offset, Some ''unterminated string literal'')"
  "is_scalar c \<Longrightarrow> wf_text u \<Longrightarrow> is_newline c \<Longrightarrow> scan_string_from quote offset escaped (encode_utf8 c @ utf8_bytes u) =
     (ItemToken TkInvalid, offset, Some ''unterminated string literal'')"
  by (subst scan_string_from.simps, simp add: line_terminator_utf8)+

lemma scan_string_utf8:
  assumes "wf_text u" "quote < 128"
  shows "scan_string_from (of_nat quote) offset escaped (utf8_bytes u) =
     (case string_rest quote escaped u of (kind, n, problem) \<Rightarrow> (kind, offset + str_len (take n u), problem))"
  using assms
proof (induction quote escaped u arbitrary: offset rule: string_rest.induct)
  case (1 quote escaped)
  then show ?case by (subst scan_string_from.simps) simp
next
  case (2 quote escaped c u)
  have c: "is_scalar c" "wf_text u" using 2 by simp_all
  have t: "tl (encode_utf8 c @ utf8_bytes u) = utf8_bytes u \<and> len_utf8 c = 1" if "c = 0x5C"
    using that by (simp add: encode_ascii)
  note [simp] = line_terminator_utf8 utf8_width_encode hd_encode_ascii hd_encode_numeral
  consider "is_newline c" | "\<not> is_newline c" "c = quote" | "\<not> is_newline c" "c \<noteq> quote" "c = 0x5C" "u = []"
    | d v where "\<not> is_newline c" "c \<noteq> quote" "c = 0x5C" "u = d # v" | "\<not> is_newline c" "c \<noteq> quote" "c \<noteq> 0x5C"
    by (cases u) auto
  then show ?case
  proof cases
    case 3
    then show ?thesis using c line_terminator_utf8 [OF c] t hd_encode_ascii [OF c(1) 2(4)]
      by (subst scan_string_from.simps) (simp add: Let_def scan_string_stop)
  next
    case 4
    have d: "line_terminator_width (utf8_bytes u) = (if is_newline d then Some (len_utf8 d) else None)"
        "hd (utf8_bytes u) = hd (encode_utf8 d)" "utf8_bytes u \<noteq> []" "is_scalar d" "wf_text v"
      using 4(4) c line_terminator_utf8 [of d v] by simp_all
    have "scan_string_from (of_nat quote) offset escaped (utf8_bytes (c # u)) =
        (let width = (if is_newline d then 0 else len_utf8 d)
         in scan_string_from (of_nat quote) (offset + 1 + width) True (drop width (utf8_bytes u)))"
      using 4(1-3) c line_terminator_utf8 [OF c] t hd_encode_ascii [OF c(1) 2(4)] d
      by (subst scan_string_from.simps) (simp add: Let_def)
    then show ?thesis using d 4 "2.IH"(1) [of d v "Suc (offset + len_utf8 d)"] 2(4) t
      by (auto simp: scan_string_stop split: prod.splits)
  next
    case 5
    then show ?thesis using c "2.IH"(2) [of "offset + len_utf8 c"] 2(4)
      by (subst scan_string_from.simps) (auto simp: Let_def split: prod.splits)
  qed (use c 2(4) in \<open>subst scan_string_from.simps; auto simp: encode_ascii(2)\<close>)+
qed

lemma find_bytes_skip:
  assumes "p \<noteq> []" "hd p \<notin> set xs"
  shows "find_bytes p (xs @ ys) = map_option ((+) (length xs)) (find_bytes p ys)"
  using assms
proof (induction xs)
  case (Cons x xs)
  then have "\<not> starts_with_bytes p (x # xs @ ys)" by (cases p) (auto simp: starts_with_bytes_def)
  then show ?case using Cons by (auto simp: option.map_comp o_def intro: option.map_cong)
next
  case Nil
  then show ?case by (cases "find_bytes p ys") simp_all
qed

lemma find_bytes_utf8:
  assumes "wf_text u" "is_ascii s" "s \<noteq> []"
  shows "find_bytes (bytes_of s) (utf8_bytes u) = map_option (\<lambda>k. str_len (take k u)) (find_text (text_of s) u)"
  using assms(1)
proof (induction u)
  case Nil
  then show ?case using assms by (simp add: bytes_of_def text_of_def)
next
  case (Cons c u)
  have b: "starts_with_bytes (bytes_of s) (encode_utf8 c @ utf8_bytes u) = begins (text_of s) (c # u)"
    using starts_with_ascii [OF assms(2), of "c # u"] Cons by simp
  obtain x xs where e: "encode_utf8 c = x # xs" using encode_utf8_cons by blast
  have l: "len_utf8 c = Suc (length xs)" using length_encode_utf8 [of c] e by simp
  have "hd (bytes_of s) \<notin> set xs"
  proof (cases "c < 128")
    case True
    then show ?thesis using e by (simp add: encode_ascii)
  next
    case False
    have "unat (hd (bytes_of s)) < 128" using assms(2,3)
      by (cases s) (auto simp: bytes_of_def is_ascii_def byte_of_def unat_small_byte)
    then show ?thesis using encode_high [of c] False Cons e by force
  qed
  moreover have "bytes_of s \<noteq> []" using assms(3) by (simp add: bytes_of_def)
  ultimately have "find_bytes (bytes_of s) (xs @ utf8_bytes u) = map_option ((+) (length xs)) (find_bytes (bytes_of s) (utf8_bytes u))"
    by (rule find_bytes_skip [rotated])
  then show ?case using Cons b e l by (auto simp: option.map_comp o_def intro: option.map_cong)
qed

lemma punctuation_utf8:
  assumes "wf_text (c # u)"
  shows "punctuation (utf8_bytes (c # u)) =
     map_option (\<lambda>(s, kind). (kind, length s)) (List.find (\<lambda>(s, _). begins (text_of s) (c # u)) punctuation_table)"
proof -
  have s: "starts_with_bytes (bytes_of s) (utf8_bytes (c # u)) = begins (text_of s) (c # u)" if "is_ascii s" for s
    using starts_with_ascii that assms by blast
  have a: "is_ascii ''!==''" "is_ascii ''===''" "is_ascii ''=>''" "is_ascii ''<=''" "is_ascii ''>=''" by code_simp+
  have h: "hd (utf8_bytes (c # u)) = hd (encode_utf8 c)" by simp
  have c: "is_scalar c" using assms by simp
  have o: "begins (text_of [x]) (c # u) \<longleftrightarrow> c = byte_of x" for x by (auto simp: begins_def text_of_def)
  have l: "length (bytes_of s) = length s" for s by (simp add: bytes_of_def)
  show ?thesis
    unfolding punctuation_def punctuation_table_def h
    by (simp add: s a o l hd_encode_numeral c byte_of_def del: utf8_bytes_simps)
qed

lemma keyword_utf8:
  assumes "wf_text w"
  shows "keyword_of (utf8_bytes w) =
     (case map_of (map (\<lambda>(s, k). (text_of s, k)) keyword_table) w of Some k \<Rightarrow> TkKeyword k | None \<Rightarrow> TkIdentifier)"
proof -
  have e: "utf8_bytes w = bytes_of s \<longleftrightarrow> w = text_of s" if "is_ascii s" for s
    using bytes_of_text [OF that] assms from_utf8_iff by (metis sum.inject(2))
  have "map_of (map (\<lambda>(s, k). (bytes_of s, k)) table) (utf8_bytes w) = map_of (map (\<lambda>(s, k). (text_of s, k)) table) w"
    if "list_all (\<lambda>(s, _). is_ascii s) table" for table :: "(string \<times> keyword) list"
    using that by (induction table) (simp_all add: e split_beta)
  moreover have "list_all (\<lambda>(s, _). is_ascii s) keyword_table" by code_simp
  moreover have "keyword_of (utf8_bytes w) =
      (case map_of (map (\<lambda>(s, k). (bytes_of s, k)) keyword_table) (utf8_bytes w) of Some k \<Rightarrow> TkKeyword k | None \<Rightarrow> TkIdentifier)"
    by (simp only: keyword_of_def keyword_table_def list.map prod.case)
  ultimately show ?thesis by simp
qed

lemma begins_iff: "begins p u \<longleftrightarrow> (\<exists>v. u = p @ v)"
  unfolding begins_def by (metis append_eq_conv_conj append_take_drop_id)

lemma find_text_Some: "find_text p u = Some k \<Longrightarrow> \<exists>a b. u = a @ p @ b \<and> length a = k"
proof (induction u arbitrary: k)
  case (Cons c u)
  show ?case
  proof (cases "begins p (c # u)")
    case True
    then show ?thesis using Cons(2) by (auto simp: begins_iff)
  next
    case False
    then obtain j where j: "find_text p u = Some j" "k = Suc j" using Cons(2) by auto
    then obtain a b where "u = a @ p @ b" "length a = j" using Cons(1) by blast
    then show ?thesis using j by (intro exI [of _ "c # a"] exI [of _ b]) simp
  qed
qed (auto split: if_splits)

lemma drop_utf8: "drop (str_len p) (utf8_bytes (p @ u)) = utf8_bytes u"
  by (simp add: str_len_def)

lemma nth_utf8: "utf8_bytes (p @ c # u) ! str_len p = hd (encode_utf8 c)"
  by (rule utf8_bytes_at_prefix)

lemma scan_word_utf8:
  assumes "wf_text (p @ c # u)" "is_letter c"
  shows "scan_identifier (p @ c # u) (str_len p) =
     (let n = length (takeWhile (\<lambda>c. is_letter c \<or> is_digit c) (c # u)); (kind, problem) = word_item (take n (c # u))
      in Some (kind, str_len p + str_len (take n (c # u)), problem))"
proof -
  let ?Q = "\<lambda>c. is_letter c \<or> is_digit c"
  define w where "w = takeWhile ?Q (c # u)"
  have c: "c < 128" "len_utf8 c = 1" using ascii_classes(2) [OF assms(2)] by (simp_all add: encode_ascii)
  have t: "length (takeWhile identifier_byte (utf8_bytes u)) = length (takeWhile ?Q u) \<and>
      str_len (takeWhile ?Q u) = length (takeWhile ?Q u)"
    by (rule takeWhile_ascii) (use assms in \<open>auto simp: byte_classes ascii_classes\<close>)
  then have l: "str_len w = length w" "length w = Suc (length (takeWhile identifier_byte (utf8_bytes u)))"
    using c assms(2) by (simp_all add: w_def)
  have d: "drop (str_len p + 1) (utf8_bytes (p @ c # u)) = utf8_bytes u"
    using drop_utf8 [of "p @ [c]" u] c by simp
  have r: "c # u = w @ dropWhile ?Q (c # u)" unfolding w_def by (rule takeWhile_dropWhile_id [symmetric])
  have s: "str_slice (p @ c # u) (str_len p) (str_len p + length w) = Some w"
    using str_slice_append [of p w "dropWhile ?Q (c # u)"] l(1) r by simp
  have n: "take (length w) (c # u) = w" by (metis r append_eq_conv_conj)
  have wf: "wf_text w" using assms r by (metis wf_text_simps(3))
  have f: "utf8_bytes w = bytes_of s \<longleftrightarrow> w = text_of s" if "is_ascii s" for s
    using bytes_of_text [OF that] wf from_utf8_iff by (metis sum.inject(2))
  have "is_ascii ''constructor''" "is_ascii ''prototype''" "is_ascii ''__proto__''" by code_simp+
  then have "utf8_bytes w \<in> {bytes_of ''constructor'', bytes_of ''prototype'', bytes_of ''__proto__''} \<longleftrightarrow>
      w \<in> set (map text_of forbidden_words)"
    using f by (simp add: forbidden_words_def)
  then have "scan_identifier (p @ c # u) (str_len p) =
      Some (case word_item w of (kind, problem) \<Rightarrow> (kind, str_len p + length w, problem))"
    unfolding scan_identifier_def Let_def d word_item_def
    using s l keyword_utf8 [OF wf] by (simp add: str_len_def split: option.splits)
  then show ?thesis unfolding w_def [symmetric] Let_def n by (simp add: l split: prod.splits)
qed

lemma str_len_text_of: "is_ascii s \<Longrightarrow> str_len (text_of s) = length s"
  by (induction s) (auto simp: text_of_def is_ascii_def byte_of_def encode_ascii)

lemma find_punctuation:
  assumes "List.find (\<lambda>(s, _). begins (text_of s) u) punctuation_table = Some (s, k)"
  shows "take (length s) u = text_of s" "str_len (text_of s) = length s" "(s, k) \<in> set punctuation_table" "s \<noteq> []"
proof -
  have m: "(s, k) \<in> set punctuation_table" "begins (text_of s) u"
    using assms unfolding find_Some_iff by (metis nth_mem, auto)
  moreover have "list_all (\<lambda>(s, _). is_ascii s \<and> s \<noteq> []) punctuation_table" by code_simp
  ultimately show "take (length s) u = text_of s" "str_len (text_of s) = length s" "(s, k) \<in> set punctuation_table" "s \<noteq> []"
    by (auto simp: list_all_iff begins_def str_len_text_of) (simp add: text_of_def)
qed

lemma scan_item_utf8:
  assumes "wf_text (p @ u)" "u \<noteq> []"
  shows "scan_item (p @ u) (str_len p) =
     (case ref_item u of (kind, n, problem) \<Rightarrow> Some (kind, str_len p + str_len (take n u), problem))"
proof -
  obtain c v where u: "u = c # v" using assms(2) by (cases u) auto
  have wf: "wf_text p" "is_scalar c" "wf_text v" "wf_text u" using assms(1) u by auto
  define bs where "bs = utf8_bytes u"
  have d: "drop (str_len p) (utf8_bytes (p @ u)) = bs" "utf8_bytes (p @ u) ! str_len p = hd bs"
    using drop_utf8 [of p u] nth_utf8 [of p c v] u by (simp_all add: bs_def)
  have h: "hd bs = hd (encode_utf8 c)" by (simp add: bs_def u)
  have ws: "whitespace_width bs = (if is_space c then Some (len_utf8 c) else None)"
    using whitespace_width_utf8 [OF wf(2)] by (simp add: bs_def u)
  have a: "is_ascii ''//''" "is_ascii ''/*''" "is_ascii ''*/''" by code_simp+
  have b: "starts_with_bytes (bytes_of ''//'') bs = begins (text_of ''//'') u"
    "starts_with_bytes (bytes_of ''/*'') bs = begins (text_of ''/*'') u"
    unfolding bs_def by (rule starts_with_ascii [OF _ wf(4)], rule a)+
  note item = scan_item_def Let_def d h ws b
  consider "is_space c" | "\<not> is_space c" "begins (text_of ''//'') u" | "\<not> is_space c" "\<not> begins (text_of ''//'') u" "begins (text_of ''/*'') u"
    | "\<not> is_space c" "\<not> begins (text_of ''//'') u" "\<not> begins (text_of ''/*'') u" by blast
  then show ?thesis
  proof cases
    case 1
    have "whitespace_run (drop (len_utf8 c) bs) = str_len (takeWhile is_space v)"
      using whitespace_run_utf8 [OF wf(3)] by (simp add: bs_def u)
    moreover have "take (length (takeWhile is_space u)) u = takeWhile is_space u" by (metis takeWhile_eq_take)
    ultimately show ?thesis using 1 unfolding item by (simp add: ref_item_def u)
  next
    case 2
    then obtain w where w: "u = 0x2F # 0x2F # w" using u by (cases v) (auto simp: begins_def text_of_def byte_of_def)
    have "line_comment_run (drop 2 bs) = str_len (takeWhile (\<lambda>c. \<not> is_newline c) w)"
      using line_comment_run_utf8 [of w] wf(4) by (simp add: bs_def w encode_ascii)
    moreover have "take (length (takeWhile (\<lambda>c. \<not> is_newline c) w)) w = takeWhile (\<lambda>c. \<not> is_newline c) w" by (metis takeWhile_eq_take)
    ultimately show ?thesis using 2 unfolding item using w u by (simp add: ref_item_def encode_ascii)
  next
    case 3
    then obtain w where w: "u = 0x2F # 0x2A # w" using u by (cases v) (auto simp: begins_def text_of_def byte_of_def)
    have "drop_bytes (str_len p + 2) (p @ u) = Some w"
      unfolding drop_bytes_Some_iff by (intro exI [of _ "p @ [0x2F, 0x2A]"]) (simp add: w encode_ascii)
    then have e: "scan_item (p @ u) (str_len p) =
        (case find_bytes (bytes_of ''*/'') (utf8_bytes w) of
           Some k \<Rightarrow> Some (ItemTrivia TvBlockComment, str_len p + 2 + (k + 2), None)
         | None \<Rightarrow> Some (ItemTrivia TvBlockComment, str_len (p @ u), Some ''unterminated block comment''))"
      using 3 unfolding item by (simp add: scan_block_comment_def split: option.splits)
    have f: "find_bytes (bytes_of ''*/'') (utf8_bytes w) = map_option (\<lambda>k. str_len (take k w)) (find_text (text_of ''*/'') w)"
      using find_bytes_utf8 [OF _ a(3), of w] wf(4) w by simp
    have i: "ref_item u = (case find_text (text_of ''*/'') w of
              Some k \<Rightarrow> (ItemTrivia TvBlockComment, k + 4, None)
            | None \<Rightarrow> (ItemTrivia TvBlockComment, length u, Some ''unterminated block comment''))"
    proof -
      have "drop 2 u = w" "hd u = c" using w u by simp_all
      then show ?thesis unfolding ref_item_def Let_def using 3 by simp
    qed
    show ?thesis
    proof (cases "find_text (text_of ''*/'') w")
      case (Some k)
      then obtain x y where "w = x @ [0x2A, 0x2F] @ y" "length x = k"
        using find_text_Some [OF Some] by (auto simp: text_of_def byte_of_def)
      then have "u = ([0x2F, 0x2A] @ x @ [0x2A, 0x2F]) @ y" "length ([0x2F, 0x2A] @ x @ [0x2A, 0x2F]) = k + 4" "take k w = x"
        using w by simp_all
      moreover from this(1,2) have "take (k + 4) u = [0x2F, 0x2A] @ x @ [0x2A, 0x2F]" by (metis append_eq_conv_conj)
      ultimately show ?thesis unfolding e f i Some by (simp add: encode_ascii)
    qed (simp add: e f i)
  next
    case 4
    note q = hd_encode_numeral [OF wf(2)]
    consider "c = 0x27 \<or> c = 0x22" | "c \<noteq> 0x27" "c \<noteq> 0x22" "is_letter c" | "c \<noteq> 0x27" "c \<noteq> 0x22" "\<not> is_letter c" "is_digit c"
      | "c \<noteq> 0x27" "c \<noteq> 0x22" "\<not> is_letter c" "\<not> is_digit c" by blast
    then show ?thesis
    proof cases
      case 1
      have b': "utf8_bytes (p @ u) ! str_len p = of_nat c" "drop (str_len p + 1) (utf8_bytes (p @ u)) = utf8_bytes v"
        using d(2) h 1 drop_utf8 [of "p @ [c]" v] u by (auto simp: encode_ascii)
      have "c < 128" "len_utf8 c = 1" using 1 by (auto simp: len_utf8_def)
      then have "scan_string (utf8_bytes (p @ u)) (str_len p) =
          (case string_rest c False v of (kind, n, problem) \<Rightarrow> (kind, str_len p + 1 + str_len (take n v), problem))"
        unfolding scan_string_def b' using scan_string_utf8 [OF wf(3)] by blast
      then show ?thesis using 1 4 \<open>len_utf8 c = 1\<close> unfolding item using u q
        by (auto simp: ref_item_def split: prod.splits)
    next
      case 2
      show ?thesis using 2 4 scan_word_utf8 [of p c v] assms(1) byte_classes [OF wf(2)] q unfolding item using u
        by (simp add: ref_item_def Let_def split: prod.splits)
    next
      case 3
      have t: "length (takeWhile digit_byte (utf8_bytes v)) = length (takeWhile is_digit v) \<and>
          str_len (takeWhile is_digit v) = length (takeWhile is_digit v)"
        by (rule takeWhile_ascii) (use wf in \<open>auto simp: byte_classes ascii_classes\<close>)
      have "drop 1 bs = utf8_bytes v" "len_utf8 c = 1" using ascii_classes(1) [OF 3(4)] by (simp_all add: bs_def u encode_ascii)
      moreover have "take (length (takeWhile is_digit v)) v = takeWhile is_digit v" by (metis takeWhile_eq_take)
      ultimately show ?thesis using 3 4 byte_classes [OF wf(2)] q t unfolding item using u
        by (simp add: ref_item_def)
    next
      case none: 4
      have p: "punctuation bs = map_option (\<lambda>(s, kind). (kind, length s)) (List.find (\<lambda>(s, _). begins (text_of s) u) punctuation_table)"
        using punctuation_utf8 [of c v] wf by (simp add: bs_def u)
      have e: "scan_item (p @ u) (str_len p) =
          (case punctuation bs of
             Some (kind, width) \<Rightarrow> Some (ItemToken kind, str_len p + width, None)
           | None \<Rightarrow> Some (ItemToken TkInvalid, str_len p + len_utf8 c, Some ''unrecognized source character''))"
        using none 4 byte_classes [OF wf(2)] q unfolding item utf8_width_encode [OF wf(2)] by auto
      have i: "ref_item u = (case List.find (\<lambda>(s, _). begins (text_of s) u) punctuation_table of
              Some (s, kind) \<Rightarrow> (ItemToken kind, length s, None)
            | None \<Rightarrow> (ItemToken TkInvalid, 1, Some ''unrecognized source character''))"
        using none 4 u by (simp add: ref_item_def)
      show ?thesis
      proof (cases "List.find (\<lambda>(s, _). begins (text_of s) u) punctuation_table")
        case None
        then show ?thesis unfolding e i p by (simp add: u)
      next
        case (Some sk)
        obtain s k where sk: "sk = (s, k)" by force
        have "take (length s) u = text_of s" "str_len (text_of s) = length s"
          using find_punctuation Some unfolding sk by blast+
        then show ?thesis unfolding e i p Some sk by simp
      qed
    qed
  qed
qed

end
