(* ===== verification/Native_Lexer_Facts.thy ===== *)
theory Native_Lexer_Facts
  imports Native_Lexer_Text
begin

text \<open>
  What the native lexer promises: it computes the reference lexer exactly within its limits, its stream of lexemes is
  lossless and spelled as its kinds say.
\<close>

section \<open>Items of a text\<close>

lemma string_rest_pos: "0 < fst (snd (apsnd (apfst Suc) x))"
  by (cases x) auto

lemma ref_item_pos:
  assumes "u \<noteq> []"
  shows "0 < fst (snd (ref_item u))"
proof -
  obtain c v where u: "u = c # v" using assms by (cases u) auto
  have p: "s \<noteq> []" if "List.find (\<lambda>(s, _). begins (text_of s) (c # v)) punctuation_table = Some (s, k)" for s k
    using find_punctuation(4) [OF that] .
  show ?thesis unfolding u ref_item_def
    using p by (auto simp: Let_def string_rest_pos split: option.splits prod.splits)
qed

type_synonym ref_lexeme = "item_kind \<times> source_text \<times> string option"

function ref_items :: "source_text \<Rightarrow> ref_lexeme list" where
  "ref_items u =
     (if u = [] then []
      else (case ref_item u of (kind, n, problem) \<Rightarrow> (kind, take n u, problem) # ref_items (drop n u)))"
  by pat_completeness auto

termination
proof (relation "measure length")
  fix u :: source_text and kind y n problem
  assume "u \<noteq> []" "(kind, y) = ref_item u" "(n, problem) = y"
  then show "(drop n u, u) \<in> measure length" using ref_item_pos [of u] by (auto simp: prod_eq_iff)
qed simp

declare ref_items.simps [simp del]

fun placed :: "file_id \<Rightarrow> usize \<Rightarrow> ref_lexeme list \<Rightarrow> (item_kind \<times> span \<times> string option) list" where
  "placed f offset [] = []"
| "placed f offset ((kind, piece, problem) # items) =
     (kind, \<lparr>span_file = f, span_start = of_nat offset, span_end = of_nat (offset + str_len piece)\<rparr>, problem) #
     placed f (offset + str_len piece) items"

fun placed_lexeme :: "item_kind \<times> span \<times> string option \<Rightarrow> lexeme" where
  "placed_lexeme (ItemToken k, sp, _) = LxToken k sp"
| "placed_lexeme (ItemTrivia k, sp, _) = LxTrivia k sp"

fun placed_problem :: "item_kind \<times> span \<times> string option \<Rightarrow> diagnostic list" where
  "placed_problem (_, _, None) = []"
| "placed_problem (_, sp, Some message) =
     [diagnostic_error_at ''ZRYNA-F1501'' sp message ''use the frozen protocol-v4 lexical spelling'']"

definition file_items :: "source_file \<Rightarrow> (item_kind \<times> span \<times> string option) list" where
  "file_items src = placed (sf_id src) 0 (ref_items (sf_text src))"

fun is_token_item :: "item_kind \<times> 'a \<Rightarrow> bool" where
  "is_token_item (ItemToken _, _) = True"
| "is_token_item (ItemTrivia _, _) = False"

definition problems :: "(item_kind \<times> span \<times> string option) list \<Rightarrow> diagnostic list" where
  "problems items = concat (map placed_problem items)"

definition file_fits :: "source_file \<Rightarrow> bool" where
  "file_fits src =
     (length (filter is_token_item (file_items src)) \<le> MAX_TOKENS_PER_FILE \<and>
      length (filter (\<lambda>i. \<not> is_token_item i) (file_items src)) \<le> MAX_TRIVIA_PER_FILE)"

definition lexed_of :: "source_file \<Rightarrow> lexed_file" where
  "lexed_of src = \<lparr>lf_id = sf_id src, lf_path = sf_path src, lf_lexemes = map placed_lexeme (file_items src)\<rparr>"

definition lexer_limits :: "source_map \<Rightarrow> bool" where
  "lexer_limits m =
     (sum_list (map (\<lambda>src. str_len (sf_text src)) (sm_files m)) \<le> MAX_SOURCE_BYTES_PER_PROJECT \<and>
      list_all file_fits (sm_files m) \<and>
      sum_list (map (\<lambda>src. length (file_items src)) (sm_files m)) \<le> MAX_LEXEMES_PER_PROJECT \<and>
      length (concat (map (problems \<circ> file_items) (sm_files m))) \<le> MAX_LEXICAL_DIAGNOSTICS)"

definition reference_project :: "source_map \<Rightarrow> lexed_project" where
  "reference_project m =
     \<lparr>lp_source_map_identity = sm_id m, lp_files = map lexed_of (sm_files m),
      lp_diagnostics = concat (map (problems \<circ> file_items) (sm_files m))\<rparr>"

definition limit_error :: "lex_error \<Rightarrow> bool" where
  "limit_error e = (dg_code (le_diagnostic e) = ''ZRYNA-F1502'')"

lemma ref_items_Nil [simp]: "ref_items [] = []"
  by (simp add: ref_items.simps)

lemma concat_ref_items: "concat (map (fst \<circ> snd) (ref_items u)) = u"
proof (induction u rule: ref_items.induct)
  case (1 u)
  then show ?case by (subst ref_items.simps) (auto simp: o_def split: prod.splits)
qed

lemma limit_error_simps [simp]: "limit_error (lex_resource message)" "limit_error (lex_resource_at sp message)"
  by (simp_all add: limit_error_def lex_resource_def lex_resource_at_def diagnostic_error_def diagnostic_error_at_def)

section \<open>Pushing items\<close>

definition push_placed :: "usize \<Rightarrow> scan_state \<Rightarrow> item_kind \<times> span \<times> string option \<Rightarrow> lex_error + scan_state" where
  "push_placed remaining s = (\<lambda>(kind, sp, problem). try_bind (push_item kind sp remaining s) (malformed sp problem))"

lemma unat_small_u32: "n < 2 ^ 32 \<Longrightarrow> unat (of_nat n :: u32) = n"
  by (simp add: unat_of_nat)

lemma make_span_ok:
  assumes "wf_source_map m" "sm_source m f = Some src" "sf_text src = p @ q @ r"
  shows "make_span m f (str_len p) (str_len p + str_len q) =
     Inr \<lparr>span_file = f, span_start = of_nat (str_len p), span_end = of_nat (str_len p + str_len q)\<rparr>"
proof -
  have "str_len (p @ q @ r) < 2 ^ 32" using wf_file_len [OF sm_source_wf [OF assms(1,2)]] assms(3) by simp
  then have l: "str_len p < 2 ^ 32" "str_len p + str_len q < 2 ^ 32" by simp_all
  have u: "unat (of_nat (str_len p) :: u32) = str_len p" "unat (of_nat (str_len p + str_len q) :: u32) = str_len p + str_len q"
    by (rule unat_small_u32 [OF l(1)], rule unat_small_u32 [OF l(2)])
  have "sm_span m f (of_nat (str_len p)) (of_nat (str_len p + str_len q)) =
      Inr \<lparr>span_file = f, span_start = of_nat (str_len p), span_end = of_nat (str_len p + str_len q)\<rparr>"
    unfolding sm_span_iff [OF assms(1)] u using assms(2,3) by blast
  then show ?thesis using l by (simp only: make_span_def u32_try_from_def if_True ok_or_simps try_bind_simps map_error_def sum.case)
qed

lemma scan_loop_run:
  assumes "wf_source_map m" "sm_source m f = Some src" "sf_text src = p @ u"
  shows "scan_loop m f (p @ u) remaining (str_len p) s =
     Some (run_steps (push_placed remaining) s (placed f (str_len p) (ref_items u)))"
  using assms(3)
proof (induction u arbitrary: p s rule: ref_items.induct)
  case (1 u)
  have wf: "wf_text (p @ u)" using sm_source_wf [OF assms(1,2)] 1(2) by (simp add: wf_file_def)
  show ?case
  proof (cases "u = []")
    case True
    then show ?thesis by (subst scan_loop.simps) simp
  next
    case False
    obtain kind n problem where r: "ref_item u = (kind, n, problem)" by (cases "ref_item u") auto
    let ?sp = "\<lparr>span_file = f, span_start = of_nat (str_len p), span_end = of_nat (str_len p + str_len (take n u))\<rparr>"
    have span: "make_span m f (str_len p) (str_len p + str_len (take n u)) = Inr ?sp"
      by (rule make_span_ok [OF assms(1,2), of _ _ "drop n u"]) (simp add: 1(2))
    have item: "scan_item (p @ u) (str_len p) = Some (kind, str_len p + str_len (take n u), problem)"
      using scan_item_utf8 [OF wf False] r by simp
    have step: "scan_step m f remaining (str_len p) (kind, str_len p + str_len (take n u), problem) s = push_placed remaining s (kind, ?sp, problem)"
      unfolding scan_step_def prod.case span try_bind_simps push_placed_def ..
    have IH: "scan_loop m f (p @ u) remaining (str_len p + str_len (take n u)) s' =
        Some (run_steps (push_placed remaining) s' (placed f (str_len p + str_len (take n u)) (ref_items (drop n u))))" for s'
      using "1.IH" [OF False r [symmetric] refl, of "p @ take n u" s'] 1(2) by simp
    have "str_len p < str_len (p @ u)" using False by simp
    then show ?thesis using r False
      by (subst scan_loop.simps, subst ref_items.simps) (simp add: item step IH split: sum.splits)
  qed
qed

definition room :: "usize \<Rightarrow> scan_state \<Rightarrow> (item_kind \<times> span \<times> string option) list \<Rightarrow> bool" where
  "room remaining s items =
     (ss_tokens s + length (filter is_token_item items) \<le> MAX_TOKENS_PER_FILE \<and>
      ss_trivia s + length (filter (\<lambda>i. \<not> is_token_item i) items) \<le> MAX_TRIVIA_PER_FILE \<and>
      length (ss_lexemes s) + length items \<le> remaining \<and>
      length (ss_diagnostics s) + length (problems items) \<le> MAX_LEXICAL_DIAGNOSTICS)"

definition after_items :: "scan_state \<Rightarrow> (item_kind \<times> span \<times> string option) list \<Rightarrow> scan_state" where
  "after_items s items =
     \<lparr>ss_lexemes = ss_lexemes s @ map placed_lexeme items,
      ss_tokens = ss_tokens s + length (filter is_token_item items),
      ss_trivia = ss_trivia s + length (filter (\<lambda>i. \<not> is_token_item i) items),
      ss_diagnostics = ss_diagnostics s @ problems items\<rparr>"

lemma problems_simps [simp]: "problems [] = []" "problems (i # items) = placed_problem i @ problems items"
  by (simp_all add: problems_def)

lemma push_one:
  assumes "room remaining s []"
  shows "if room remaining s [i] then push_placed remaining s i = Inr (after_items s [i])
    else \<exists>e. push_placed remaining s i = Inl e \<and> limit_error e"
proof -
  obtain kind sp problem where i: "i = (kind, sp, problem)" by (cases i) auto
  show ?thesis using assms unfolding i
    by (cases kind; cases problem) (auto simp: push_placed_def push_item_def malformed_def room_def after_items_def)
qed

lemma room_Cons: "room remaining s (i # items) \<Longrightarrow> room remaining s [i]"
    "room remaining (after_items s [i]) items = room remaining s (i # items)"
  by (auto simp: room_def after_items_def)

lemma run_push:
  assumes "room remaining s []"
  shows "if room remaining s items then run_steps (push_placed remaining) s items = Inr (after_items s items)
    else \<exists>e. run_steps (push_placed remaining) s items = Inl e \<and> limit_error e"
  using assms
proof (induction items arbitrary: s)
  case Nil
  then show ?case by (simp add: after_items_def)
next
  case (Cons i items)
  show ?case
  proof (cases "room remaining s [i]")
    case True
    have "room remaining (after_items s [i]) []" using True room_Cons(2) by blast
    moreover have "after_items (after_items s [i]) items = after_items s (i # items)" by (simp add: after_items_def)
    ultimately show ?thesis using Cons.IH [of "after_items s [i]"] push_one [OF Cons.prems, of i] True room_Cons(2)
      by (auto split: if_splits)
  next
    case False
    then have "\<not> room remaining s (i # items)" using room_Cons(1) by blast
    then show ?thesis using push_one [OF Cons.prems, of i] False by auto
  qed
qed

lemma scan_file_run:
  assumes "wf_source_map m" "sm_source m (sf_id src) = Some src" "length ds \<le> MAX_LEXICAL_DIAGNOSTICS"
  shows "if file_fits src \<and> length (file_items src) \<le> remaining \<and> length ds + length (problems (file_items src)) \<le> MAX_LEXICAL_DIAGNOSTICS
    then scan_file m (sf_id src) (sf_text src) remaining ds =
      Some (Inr (map placed_lexeme (file_items src), ds @ problems (file_items src)))
    else \<exists>e. scan_file m (sf_id src) (sf_text src) remaining ds = Some (Inl e) \<and> limit_error e"
proof -
  let ?s = "\<lparr>ss_lexemes = [], ss_tokens = 0, ss_trivia = 0, ss_diagnostics = ds\<rparr>"
  have "scan_loop m (sf_id src) (sf_text src) remaining 0 ?s = Some (run_steps (push_placed remaining) ?s (file_items src))"
    using scan_loop_run [OF assms(1,2), of "[]" "sf_text src"] by (simp add: file_items_def)
  moreover have "room remaining ?s []" using assms(3) by (simp add: room_def)
  moreover have "room remaining ?s (file_items src) \<longleftrightarrow>
     file_fits src \<and> length (file_items src) \<le> remaining \<and> length ds + length (problems (file_items src)) \<le> MAX_LEXICAL_DIAGNOSTICS"
    by (auto simp: room_def file_fits_def)
  ultimately show ?thesis using run_push [of remaining ?s "file_items src"]
    by (auto simp: scan_file_def after_items_def split: if_splits)
qed

section \<open>Projects\<close>

lemma indexed_source_ok:
  assumes "wf_source_map m" "i < length (sm_files m)"
  shows "indexed_source m i = Inr (sf_id (sm_files m ! i), sm_files m ! i)"
proof -
  have "i < 2 ^ 32" "sf_id (sm_files m ! i) = \<lparr>source_map_id = sm_id m, fid_index = of_nat i\<rparr>"
    using assms by (auto simp: wf_source_map_def MAX_SOURCE_FILES_def)
  then show ?thesis using wf_source_map_id(1) [OF assms]
    by (simp add: indexed_source_def u32_try_from_def verify_file_id_def map_error_def)
qed

lemma files_from: "k < length xs \<Longrightarrow> [k..<length xs] = k # [Suc k..<length xs] \<and> drop k xs = xs ! k # drop (Suc k) xs"
  by (simp add: upt_conv_Cons Cons_nth_drop_Suc)

lemma lex_files_run:
  assumes "wf_source_map m" "project_lexemes \<le> MAX_LEXEMES_PER_PROJECT" "length ds \<le> MAX_LEXICAL_DIAGNOSTICS"
  shows "if list_all file_fits (drop k (sm_files m)) \<and>
      project_lexemes + sum_list (map (\<lambda>src. length (file_items src)) (drop k (sm_files m))) \<le> MAX_LEXEMES_PER_PROJECT \<and>
      length ds + length (concat (map (problems \<circ> file_items) (drop k (sm_files m)))) \<le> MAX_LEXICAL_DIAGNOSTICS
    then lex_files m [k..<length (sm_files m)] project_lexemes files ds =
      Some (Inr \<lparr>lp_source_map_identity = sm_id m, lp_files = files @ map lexed_of (drop k (sm_files m)),
        lp_diagnostics = ds @ concat (map (problems \<circ> file_items) (drop k (sm_files m)))\<rparr>)
    else \<exists>e. lex_files m [k..<length (sm_files m)] project_lexemes files ds = Some (Inl e) \<and> limit_error e"
  using assms(2,3)
proof (induction "length (sm_files m) - k" arbitrary: k project_lexemes files ds)
  case 0
  then show ?case by simp
next
  case (Suc n)
  define src where "src = sm_files m ! k"
  have k: "k < length (sm_files m)" using Suc(2) by simp
  note d = files_from [OF k, folded src_def]
  have i: "indexed_source m k = Inr (sf_id src, src)" using indexed_source_ok [OF assms(1) k] by (simp add: src_def)
  have s: "sm_source m (sf_id src) = Some src" using wf_source_map_id(1) [OF assms(1) k] by (simp add: src_def)
  note scan = scan_file_run [OF assms(1) s Suc.prems(2), of "MAX_LEXEMES_PER_PROJECT - project_lexemes"]
  show ?case
  proof (cases "file_fits src \<and> length (file_items src) \<le> MAX_LEXEMES_PER_PROJECT - project_lexemes \<and>
      length ds + length (problems (file_items src)) \<le> MAX_LEXICAL_DIAGNOSTICS")
    case True
    have le: "project_lexemes + length (file_items src) \<le> MAX_LEXEMES_PER_PROJECT" using True Suc.prems(1) by linarith
    then have a: "usize_checked_add project_lexemes (length (file_items src)) = Some (project_lexemes + length (file_items src))"
      by (simp add: usize_checked_add_def MAX_LEXEMES_PER_PROJECT_def)
    have "lex_files m [k..<length (sm_files m)] project_lexemes files ds =
        lex_files m [Suc k..<length (sm_files m)] (project_lexemes + length (file_items src)) (files @ [lexed_of src]) (ds @ problems (file_items src))"
      using True scan Suc.prems(1) le unfolding d [THEN conjunct1] by (simp add: i a lexed_of_def)
    then show ?thesis
      using Suc(1) [of "Suc k" "project_lexemes + length (file_items src)" "ds @ problems (file_items src)" "files @ [lexed_of src]"] Suc(2) le True
      unfolding d [THEN conjunct2] by (simp add: add.assoc)
  next
    case False
    then obtain e where "scan_file m (sf_id src) (sf_text src) (MAX_LEXEMES_PER_PROJECT - project_lexemes) ds = Some (Inl e)" "limit_error e"
      using scan by auto
    then have "\<exists>e. lex_files m [k..<length (sm_files m)] project_lexemes files ds = Some (Inl e) \<and> limit_error e"
      using Suc.prems(1) unfolding d [THEN conjunct1] by (simp add: i)
    then show ?thesis using False unfolding d [THEN conjunct2] by auto
  qed
qed

lemma boundary_before_ok: "is_char_boundary t (boundary_before t n) \<and> boundary_before t n \<le> n"
proof (induction n)
  case 0
  then show ?case by (simp add: is_char_boundary_def Let_def)
qed auto

lemma source_bytes_error_ok:
  assumes "wf_source_map m" "sm_source m f = Some src"
  shows "\<exists>e. source_bytes_error m f (sf_text src) bytes_so_far = Some e \<and> limit_error e"
proof -
  have wf: "wf_text (sf_text src)" using sm_source_wf [OF assms] by (simp add: wf_file_def)
  define start where "start = boundary_before (sf_text src) (MAX_SOURCE_BYTES_PER_PROJECT - bytes_so_far)"
  obtain p r where t: "sf_text src = p @ r" "str_len p = start"
    using boundary_before_ok is_char_boundary_iff [OF wf] unfolding start_def by blast
  have d: "drop_bytes start (sf_text src) = Some r" using t by (auto simp: drop_bytes_Some_iff)
  let ?q = "take 1 r"
  have q: "(case r of [] \<Rightarrow> 0 | c # _ \<Rightarrow> len_utf8 c) = str_len ?q" by (cases r) auto
  have "make_span m f (str_len p) (str_len p + str_len ?q) =
     Inr \<lparr>span_file = f, span_start = of_nat (str_len p), span_end = of_nat (str_len p + str_len ?q)\<rparr>"
    by (rule make_span_ok [OF assms, of _ _ "drop 1 r"]) (simp add: t(1))
  then show ?thesis unfolding source_bytes_error_def start_def [symmetric] Let_def d option.map q using t(2) by simp
qed

lemma preflight_run:
  assumes "wf_source_map m" "bytes_so_far \<le> MAX_SOURCE_BYTES_PER_PROJECT"
  shows "if bytes_so_far + sum_list (map (\<lambda>src. str_len (sf_text src)) (drop k (sm_files m))) \<le> MAX_SOURCE_BYTES_PER_PROJECT
    then preflight_source_bytes m [k..<length (sm_files m)] bytes_so_far = Some (Inr ())
    else \<exists>e. preflight_source_bytes m [k..<length (sm_files m)] bytes_so_far = Some (Inl e) \<and> limit_error e"
  using assms(2)
proof (induction "length (sm_files m) - k" arbitrary: k bytes_so_far)
  case 0
  then show ?case by simp
next
  case (Suc n)
  define src where "src = sm_files m ! k"
  have k: "k < length (sm_files m)" using Suc(2) by simp
  note d = files_from [OF k, folded src_def]
  have i: "indexed_source m k = Inr (sf_id src, src)" using indexed_source_ok [OF assms(1) k] by (simp add: src_def)
  have s: "sm_source m (sf_id src) = Some src" using wf_source_map_id(1) [OF assms(1) k] by (simp add: src_def)
  have "str_len (sf_text src) < 2 ^ 32" using wf_file_len sm_source_wf [OF assms(1) s] by blast
  then have a: "usize_checked_add bytes_so_far (str_len (sf_text src)) = Some (bytes_so_far + str_len (sf_text src))"
    using Suc.prems by (simp add: usize_checked_add_def MAX_SOURCE_BYTES_PER_PROJECT_def)
  show ?case
  proof (cases "bytes_so_far + str_len (sf_text src) \<le> MAX_SOURCE_BYTES_PER_PROJECT")
    case True
    then have "preflight_source_bytes m [k..<length (sm_files m)] bytes_so_far =
        preflight_source_bytes m [Suc k..<length (sm_files m)] (bytes_so_far + str_len (sf_text src))"
      unfolding d [THEN conjunct1] by (simp add: i a)
    then show ?thesis using Suc(1) [of "Suc k" "bytes_so_far + str_len (sf_text src)"] Suc(2) True
      unfolding d [THEN conjunct2] by (simp add: add.assoc)
  next
    case False
    then have "\<exists>e. preflight_source_bytes m [k..<length (sm_files m)] bytes_so_far = Some (Inl e) \<and> limit_error e"
      using source_bytes_error_ok [OF assms(1) s, of bytes_so_far] unfolding d [THEN conjunct1] by (auto simp: i a)
    then show ?thesis using False unfolding d [THEN conjunct2] by auto
  qed
qed

lemma lex_run:
  assumes "wf_source_map m"
  shows "if lexer_limits m then lex m = Some (Inr (reference_project m)) else \<exists>e. lex m = Some (Inl e) \<and> limit_error e"
proof -
  note p = preflight_run [OF assms, of 0 0] and f = lex_files_run [OF assms, of 0 "[]" 0 "[]"]
  show ?thesis
  proof (cases "sum_list (map (\<lambda>src. str_len (sf_text src)) (sm_files m)) \<le> MAX_SOURCE_BYTES_PER_PROJECT")
    case True
    then have "lex m = lex_files m [0..<length (sm_files m)] 0 [] []" using p by (simp add: lex_def sm_len_def)
    moreover have "lexer_limits m \<longleftrightarrow> list_all file_fits (drop 0 (sm_files m)) \<and>
      0 + sum_list (map (\<lambda>src. length (file_items src)) (drop 0 (sm_files m))) \<le> MAX_LEXEMES_PER_PROJECT \<and>
      length [] + length (concat (map (problems \<circ> file_items) (drop 0 (sm_files m)))) \<le> MAX_LEXICAL_DIAGNOSTICS"
      using True by (simp add: lexer_limits_def)
    ultimately show ?thesis using f by (simp add: reference_project_def)
  next
    case False
    then show ?thesis using p by (auto simp: lex_def sm_len_def lexer_limits_def)
  qed
qed

section \<open>Spelling\<close>

definition spelled :: "item_kind \<Rightarrow> source_text \<Rightarrow> bool" where
  "spelled kind w =
     (case kind of
        ItemTrivia TvWhitespace \<Rightarrow> list_all is_space w
      | ItemTrivia TvLineComment \<Rightarrow> begins (text_of ''//'') w \<and> list_all (\<lambda>c. \<not> is_newline c) w
      | ItemTrivia TvBlockComment \<Rightarrow>
          begins (text_of ''/*'') w \<and> find_text (text_of ''*/'') (drop 2 w) \<in> {None, Some (length w - 4)}
      | ItemToken TkIdentifier \<Rightarrow>
          is_letter (hd w) \<and> list_all (\<lambda>c. is_letter c \<or> is_digit c) w \<and> length w \<le> 128 \<and>
          w \<notin> text_of ` set (map fst keyword_table) \<and> w \<notin> text_of ` set forbidden_words
      | ItemToken (TkKeyword k) \<Rightarrow> (\<exists>s. (s, k) \<in> set keyword_table \<and> w = text_of s)
      | ItemToken TkDecimalInteger \<Rightarrow> list_all is_digit w
      | ItemToken TkStringLiteral \<Rightarrow>
          (\<exists>q body. w = q # body @ [q] \<and> q \<in> {0x27, 0x22} \<and>
             list_all (\<lambda>c. c \<noteq> q \<and> c \<noteq> 0x5C \<and> \<not> is_newline c) body)
      | ItemToken TkInvalid \<Rightarrow> True
      | ItemToken k \<Rightarrow> (\<exists>s. (s, k) \<in> set punctuation_table \<and> w = text_of s))"

fun lexeme_kind :: "lexeme \<Rightarrow> item_kind" where
  "lexeme_kind (LxToken k _) = ItemToken k"
| "lexeme_kind (LxTrivia k _) = ItemTrivia k"

fun tiles :: "file_id \<Rightarrow> usize \<Rightarrow> span list \<Rightarrow> usize \<Rightarrow> bool" where
  "tiles f a [] b = (a = b)"
| "tiles f a (sp # sps) b =
     (span_file sp = f \<and> unat (span_start sp) = a \<and> a < unat (span_end sp) \<and> tiles f (unat (span_end sp)) sps b)"

lemma string_rest_escaped: "fst (string_rest quote True u) = ItemToken TkInvalid"
  by (induction quote True u rule: string_rest.induct) (auto split: list.splits)

lemma string_rest_cases:
  assumes "string_rest quote False u = (kind, n, problem)"
  shows "kind = ItemToken TkInvalid \<or>
     kind = ItemToken TkStringLiteral \<and> (\<exists>body. take n u = body @ [quote] \<and> list_all (\<lambda>c. c \<noteq> quote \<and> c \<noteq> 0x5C \<and> \<not> is_newline c) body)"
  using assms
proof (induction u arbitrary: n)
  case Nil
  then show ?case by simp
next
  case (Cons c u)
  show ?case
  proof (cases "is_newline c \<or> c = quote \<or> c = 0x5C")
    case True
    then show ?thesis using Cons.prems string_rest_escaped [of quote "tl u"]
      by (cases "string_rest quote True (tl u)") (auto split: if_splits list.splits)
  next
    case False
    then obtain j where j: "string_rest quote False u = (kind, j, problem)" "n = Suc j"
      using Cons.prems by (cases "string_rest quote False u") auto
    show ?thesis using Cons.IH [OF j(1)]
    proof (elim disjE conjE exE)
      fix body assume k: "kind = ItemToken TkStringLiteral" "take j u = body @ [quote]"
        "list_all (\<lambda>c. c \<noteq> quote \<and> c \<noteq> 0x5C \<and> \<not> is_newline c) body"
      then have "take n (c # u) = (c # body) @ [quote]" using j(2) by simp
      moreover have "list_all (\<lambda>c. c \<noteq> quote \<and> c \<noteq> 0x5C \<and> \<not> is_newline c) (c # body)" using k(3) False by simp
      ultimately show ?thesis using k(1) by blast
    qed simp
  qed
qed

lemma word_item_spelled:
  assumes "word_item w = (kind, problem)" "is_letter (hd w)" "list_all (\<lambda>c. is_letter c \<or> is_digit c) w"
  shows "spelled kind w"
proof -
  have "\<exists>s. (s, k) \<in> set keyword_table \<and> w = text_of s"
    if "map_of (map (\<lambda>(s, k). (text_of s, k)) keyword_table) w = Some k" for k
    using map_of_SomeD [OF that] by auto
  moreover have "w \<notin> text_of ` set (map fst keyword_table)"
    if "map_of (map (\<lambda>(s, k). (text_of s, k)) keyword_table) w = None"
    using that unfolding map_of_eq_None_iff by (force simp: image_image)
  ultimately show ?thesis using assms
    by (auto simp: word_item_def spelled_def not_less split: if_splits option.splits)
qed

lemma punctuation_spelled:
  assumes "(s, k) \<in> set punctuation_table"
  shows "spelled (ItemToken k) (text_of s)"
proof -
  have "list_all (\<lambda>(s, k). k \<noteq> TkIdentifier \<and> k \<noteq> TkDecimalInteger \<and> k \<noteq> TkStringLiteral \<and> (case k of TkKeyword _ \<Rightarrow> False | _ \<Rightarrow> True)) punctuation_table"
    by code_simp
  then show ?thesis using assms by (cases k) (auto simp: spelled_def list_all_iff)
qed

lemma find_text_prefix:
  assumes "find_text p u = Some k"
  shows "find_text p (take (k + length p) u) = Some k"
  using assms
proof (induction u arbitrary: k)
  case (Cons c u)
  show ?case
  proof (cases "begins p (c # u)")
    case True
    then have k: "k = 0" using Cons.prems by simp
    show ?thesis using True by (cases p) (auto simp: k begins_def)
  next
    case False
    then obtain j where j: "find_text p u = Some j" "k = Suc j" using Cons.prems by auto
    have "\<not> begins p (c # take (j + length p) u)"
    proof
      assume "begins p (c # take (j + length p) u)"
      then obtain v where "c # take (j + length p) u = p @ v" unfolding begins_iff by blast
      then have "c # u = p @ v @ drop (j + length p) u" by (metis append.assoc append_Cons append_take_drop_id)
      then show False using False unfolding begins_iff by blast
    qed
    then show ?thesis using Cons.IH [OF j(1)] j by simp
  qed
qed (auto split: if_splits)

lemma ref_item_spelled:
  assumes "u \<noteq> []" "ref_item u = (kind, n, problem)"
  shows "spelled kind (take n u)"
proof -
  obtain c v where u: "u = c # v" using assms(1) by (cases u) auto
  have t: "take (length (takeWhile P xs)) xs = takeWhile P xs" for P and xs :: source_text by (metis takeWhile_eq_take)
  have tw: "list_all P (takeWhile P xs)" for P and xs :: source_text by (auto simp: list_all_iff dest: set_takeWhileD)
  consider "is_space c" | "\<not> is_space c" "begins (text_of ''//'') u" | "\<not> is_space c" "\<not> begins (text_of ''//'') u" "begins (text_of ''/*'') u"
    | "\<not> is_space c" "\<not> begins (text_of ''//'') u" "\<not> begins (text_of ''/*'') u" "c = 0x27 \<or> c = 0x22"
    | "\<not> is_space c" "\<not> begins (text_of ''//'') u" "\<not> begins (text_of ''/*'') u" "\<not> (c = 0x27 \<or> c = 0x22)" "is_letter c"
    | "\<not> is_space c" "\<not> begins (text_of ''//'') u" "\<not> begins (text_of ''/*'') u" "\<not> (c = 0x27 \<or> c = 0x22)" "\<not> is_letter c"
    by blast
  then show ?thesis
  proof cases
    case 1
    then have "kind = ItemTrivia TvWhitespace" "n = length (takeWhile is_space u)" using assms(2) u by (auto simp: ref_item_def Let_def)
    then show ?thesis using tw [of is_space u] by (simp add: spelled_def t)
  next
    case 2
    then obtain w where w: "u = 0x2F # 0x2F # w" by (auto simp: begins_iff text_of_def byte_of_def)
    have "kind = ItemTrivia TvLineComment" "n = 2 + length (takeWhile (\<lambda>c. \<not> is_newline c) w)"
      using 2 assms(2) u w by (auto simp: ref_item_def Let_def)
    then show ?thesis using tw [of "\<lambda>c. \<not> is_newline c" w]
      by (simp add: spelled_def t w begins_def text_of_def byte_of_def is_newline_def)
  next
    case 3
    then obtain w where w: "u = 0x2F # 0x2A # w" by (auto simp: begins_iff text_of_def byte_of_def)
    then have "drop 2 u = w" "hd u = c" using u by simp_all
    then have r: "(kind, n, problem) = (case find_text (text_of ''*/'') w of
              Some k \<Rightarrow> (ItemTrivia TvBlockComment, k + 4, None)
            | None \<Rightarrow> (ItemTrivia TvBlockComment, length u, Some ''unterminated block comment''))"
      using 3 assms(2) unfolding ref_item_def Let_def by simp
    show ?thesis
    proof (cases "find_text (text_of ''*/'') w")
      case None
      then show ?thesis using r 3(3) \<open>drop 2 u = w\<close> by (simp add: spelled_def)
    next
      case (Some k)
      have l: "length (text_of ''*/'') = 2" by (simp add: text_of_def)
      have "k + 2 \<le> length w" using find_text_Some [OF Some] l by auto
      then show ?thesis using r Some find_text_prefix [OF Some] l
        by (simp add: spelled_def w begins_def text_of_def byte_of_def numeral_eq_Suc)
    qed
  next
    case 4
    then obtain j where "string_rest c False v = (kind, j, problem)" "n = Suc j"
      using assms(2) u by (cases "string_rest c False v") (auto simp: ref_item_def Let_def)
    then show ?thesis using string_rest_cases [of c v kind j problem] 4(4) u by (auto simp: spelled_def)
  next
    case 5
    let ?Q = "\<lambda>c. is_letter c \<or> is_digit c"
    have "n = length (takeWhile ?Q u)" "word_item (take n u) = (kind, problem)"
      using assms(2) 5 u by (auto simp: ref_item_def Let_def split: prod.splits)
    then show ?thesis using word_item_spelled [of "take n u" kind problem] tw [of ?Q u] 5(5) u
      by (auto simp: t)
  next
    case 6
    show ?thesis
    proof (cases "is_digit c")
      case True
      then have "kind = ItemToken TkDecimalInteger" "n = length (takeWhile is_digit u)" using 6 assms(2) u by (auto simp: ref_item_def Let_def)
      then show ?thesis using tw [of is_digit u] by (simp add: spelled_def t)
    next
      case False
      have "spelled (ItemToken TkInvalid) w" for w by (simp add: spelled_def)
      then show ?thesis
        using 6 False assms(2) u punctuation_spelled find_punctuation [of u]
        by (auto simp: ref_item_def Let_def split: option.splits)
    qed
  qed
qed

lemma ref_items_spelled: "(kind, w, problem) \<in> set (ref_items u) \<Longrightarrow> spelled kind w \<and> w \<noteq> []"
proof (induction u rule: ref_items.induct)
  case (1 u)
  have u: "u \<noteq> []" using 1(2) by (auto simp: ref_items.simps)
  obtain k n p where r: "ref_item u = (k, n, p)" by (cases "ref_item u") auto
  have s: "spelled k (take n u) \<and> take n u \<noteq> []" using ref_item_spelled [OF u r] ref_item_pos [OF u] r u by simp
  from 1(2) have "(kind, w, problem) = (k, take n u, p) \<or> (kind, w, problem) \<in> set (ref_items (drop n u))"
    using u by (subst (asm) ref_items.simps) (simp add: r)
  then show ?case
  proof
    assume "(kind, w, problem) \<in> set (ref_items (drop n u))"
    then show ?thesis by (rule "1.IH" [OF u r [symmetric] refl])
  qed (use s in simp)
qed

lemma lexeme_placed [simp]:
  "lexeme_span (placed_lexeme (kind, sp, problem)) = sp" "lexeme_kind (placed_lexeme (kind, sp, problem)) = kind"
  by (cases kind; simp)+

lemma place_lossless:
  assumes "whole = p @ concat (map (fst \<circ> snd) items)" "str_len whole < 2 ^ 32"
    and "\<And>kind w problem. (kind, w, problem) \<in> set items \<Longrightarrow> spelled kind w \<and> w \<noteq> []"
  shows "tiles f (str_len p) (map lexeme_span (map placed_lexeme (placed f (str_len p) items))) (str_len whole) \<and>
     list_all2 (\<lambda>l w. spelled (lexeme_kind l) w \<and>
        str_slice whole (unat (span_start (lexeme_span l))) (unat (span_end (lexeme_span l))) = Some w) (map placed_lexeme (placed f (str_len p) items)) (map (fst \<circ> snd) items)"
  using assms(1,3)
proof (induction items arbitrary: p)
  case Nil
  then show ?case by simp
next
  case (Cons i items)
  obtain kind w problem where i: "i = (kind, w, problem)" by (cases i) auto
  have t: "whole = (p @ w) @ concat (map (fst \<circ> snd) items)" using Cons.prems(1) i by (simp add: o_def)
  have w: "spelled kind w" "w \<noteq> []" using Cons.prems(2) [of kind w problem] i by auto
  have "str_len p < 2 ^ 32" "str_len p + str_len w < 2 ^ 32" using assms(2) t by auto
  note u = unat_small_u32 [OF this(1)] unat_small_u32 [OF this(2)]
  have "str_slice whole (str_len p) (str_len p + str_len w) = Some w"
    using str_slice_append [of p w] t by simp
  moreover have "str_len p < str_len p + str_len w" using w(2) by simp
  ultimately show ?case using Cons.IH [OF t Cons.prems(2) [OF list.set_intros(2)]] w(1) u unfolding i
    by (simp del: of_nat_add)
qed

lemma file_lossless:
  assumes "wf_file src"
  shows "tiles (sf_id src) 0 (map lexeme_span (lf_lexemes (lexed_of src))) (str_len (sf_text src)) \<and>
     (\<exists>pieces. concat pieces = sf_text src \<and>
        list_all2 (\<lambda>l w. spelled (lexeme_kind l) w \<and>
          str_slice (sf_text src) (unat (span_start (lexeme_span l))) (unat (span_end (lexeme_span l))) = Some w)
          (lf_lexemes (lexed_of src)) pieces)"
proof -
  let ?items = "ref_items (sf_text src)" and ?pieces = "map (fst \<circ> snd) (ref_items (sf_text src))"
  have "sf_text src = [] @ concat ?pieces" by (simp add: concat_ref_items)
  from place_lossless [OF this wf_file_len [OF assms] ref_items_spelled, where f = "sf_id src"]
  have "tiles (sf_id src) 0 (map lexeme_span (lf_lexemes (lexed_of src))) (str_len (sf_text src)) \<and>
     list_all2 (\<lambda>l w. spelled (lexeme_kind l) w \<and>
        str_slice (sf_text src) (unat (span_start (lexeme_span l))) (unat (span_end (lexeme_span l))) = Some w)
       (lf_lexemes (lexed_of src)) ?pieces"
    by (simp only: lexed_of_def file_items_def lexed_file.simps str_len_simps simp_thms)
  then show ?thesis using concat_ref_items by blast
qed

section \<open>Properties\<close>

definition lexer_input :: source_file_input where
  "lexer_input = \<lparr>in_path = ''a.zry'', in_text = text_of ''let x='' @ [0x27, 0xE9, 0x27, 0x3000] @ text_of ''=== 12 /*'' @ [0x23]\<rparr>"

definition lexer_map :: source_map where
  "lexer_map =
     \<lparr>sm_id = 1,
      sm_files =
        [\<lparr>sf_id = \<lparr>source_map_id = 1, fid_index = 0\<rparr>, sf_path = ''a.zry'', sf_text = in_text lexer_input, sf_line_starts = [0]\<rparr>],
      sm_identities = [(''a.zry'', \<lparr>source_map_id = 1, fid_index = 0\<rparr>)]\<rparr>"

lemma lexer_map_wf: "wf_source_map lexer_map"
proof (rule build_wf)
  show "build 1 [lexer_input] = (Inr lexer_map, 2)" by code_simp
  show "\<forall>i\<in>set [lexer_input]. wf_text (in_text i)" by code_simp
qed

lemma lexer_map_limits: "lexer_limits lexer_map"
  by code_simp

text \<open>C15: The native lexer is exact. On a well-formed source map it never panics; within the limits on bytes, tokens, trivia,
  lexemes and diagnostics it returns the project of the reference lexer on Unicode scalar values, kinds, spans and problems
  included, and over a limit it returns a resource error.\<close>

theorem lex_exact:
  assumes "wf_source_map m"
  shows "if lexer_limits m then lex m = Some (Inr (reference_project m)) else \<exists>e. lex m = Some (Inl e) \<and> limit_error e"
  by (rule lex_run [OF assms])

theorem lex_exact_witness:
  "lex lexer_map = Some (Inr (reference_project lexer_map)) \<and>
   map lexeme_kind (lf_lexemes (hd (lp_files (reference_project lexer_map)))) =
     [ItemToken (TkKeyword KwLet), ItemTrivia TvWhitespace, ItemToken TkIdentifier, ItemToken TkEquals, ItemToken TkStringLiteral,
      ItemTrivia TvWhitespace, ItemToken TkStrictEqual, ItemTrivia TvWhitespace, ItemToken TkDecimalInteger,
      ItemTrivia TvWhitespace, ItemTrivia TvBlockComment]"
proof
  show "lex lexer_map = Some (Inr (reference_project lexer_map))" using lex_exact [OF lexer_map_wf] lexer_map_limits by simp
qed code_simp

text \<open>C16: The lexical stream is lossless. The lexed files are the files of the source map in order; the spans of the lexemes of a
  file cover its text from the first byte to the last without gap or overlap, their slices concatenate to the text, and
  every slice is spelled as the kind of its lexeme says.\<close>

theorem lex_lossless:
  assumes "wf_source_map m" and "lex m = Some (Inr project)"
  shows "lp_is_bound_to project m \<and>
     list_all2 (\<lambda>src file.
        lf_id file = sf_id src \<and> lf_path file = sf_path src \<and>
        tiles (sf_id src) 0 (map lexeme_span (lf_lexemes file)) (str_len (sf_text src)) \<and>
        (\<exists>pieces. concat pieces = sf_text src \<and>
           list_all2 (\<lambda>l w. spelled (lexeme_kind l) w \<and>
             str_slice (sf_text src) (unat (span_start (lexeme_span l))) (unat (span_end (lexeme_span l))) = Some w)
             (lf_lexemes file) pieces))
       (sm_files m) (lp_files project)"
proof -
  have p: "project = reference_project m" using lex_run [OF assms(1)] assms(2) by (auto split: if_splits)
  have w: "wf_file src" if "src \<in> set (sm_files m)" for src
    using assms(1) that by (auto simp: wf_source_map_def in_set_conv_nth)
  show ?thesis unfolding p reference_project_def lp_is_bound_to_def
    using file_lossless [OF w] by (auto simp: list_all2_map2 list_all2_same lexed_of_def simp del: map_map)
qed

theorem lex_lossless_witness:
  "tiles \<lparr>source_map_id = 1, fid_index = 0\<rparr> 0
     (map lexeme_span (lf_lexemes (hd (lp_files (reference_project lexer_map))))) 23"
proof -
  have "lex lexer_map = Some (Inr (reference_project lexer_map))" using lex_run [OF lexer_map_wf] lexer_map_limits by simp
  note lex_lossless [OF lexer_map_wf this]
  moreover have "str_len (in_text lexer_input) = 23" by code_simp
  ultimately show ?thesis by (auto simp: lexer_map_def reference_project_def)
qed

end
