(* ===== verification/Native_Admission_Facts.thy ===== *)
theory Native_Admission_Facts
  imports Native_Lexer_Facts
begin

text \<open>
  What the admission of raw bytes (\<open>native_lexer/admission.rs\<close>) promises: it accepts exactly the inputs that satisfy the
  limits on files, paths, bytes and encoding, except for the limits of the lexer, and keeps every byte.
\<close>

section \<open>Admissible inputs\<close>

definition admissible_inputs :: "u64 \<Rightarrow> native_source_bytes list \<Rightarrow> bool" where
  "admissible_inputs n inputs =
     (length inputs \<le> MAX_SOURCE_FILES \<and>
      (\<forall>i\<in>set inputs. validate_source_path (ns_path i) = Inr () \<and> length (ns_bytes i) \<le> MAX_SOURCE_FILE_BYTES \<and>
         (\<exists>t. wf_text t \<and> utf8_bytes t = ns_bytes i)) \<and>
      distinct (map (\<lambda>i. portable_identity (ns_path i)) inputs) \<and>
      sum_list (map (\<lambda>i. length (ns_bytes i)) inputs) \<le> MAX_SOURCE_BYTES_PER_PROJECT \<and>
      unat n + 1 < 2 ^ 64)"

section \<open>The stages\<close>

lemma map_error_Inr_iff: "map_error f r = Inr x \<longleftrightarrow> r = Inr x"
  by (cases r) (auto simp: map_error_def)

lemma check_inputs_iff:
  "check_inputs inputs identities = Inr checked \<longleftrightarrow>
     checked = map (\<lambda>i. (ns_path i, ns_bytes i)) inputs \<and>
     (\<forall>i\<in>set inputs. validate_source_path (ns_path i) = Inr () \<and> bt_get identities (portable_identity (ns_path i)) = None) \<and>
     distinct (map (\<lambda>i. portable_identity (ns_path i)) inputs)"
proof (induction inputs arbitrary: identities checked)
  case (Cons i inputs)
  then show ?case
    by (auto simp: result_simps map_error_Inr_iff normalized_new_def Let_def image_iff split: option.splits)
qed auto

lemma decode_inputs_Inr:
  "decode_inputs (enumerate n xs) = Inr decoded \<Longrightarrow>
     list_all2 (\<lambda>(path, bs) i. in_path i = path \<and> wf_text (in_text i) \<and> utf8_bytes (in_text i) = bs) xs decoded"
  by (induction xs arbitrary: n decoded) (auto simp: result_simps map_error_Inr_iff from_utf8_iff)

lemma decoded_inputs:
  assumes "check_inputs (sort_key ns_path inputs) [] = Inr checked" "decode_inputs (enumerate 0 checked) = Inr decoded"
  shows "list_all2 (\<lambda>i d. in_path d = ns_path i \<and> wf_text (in_text d) \<and> utf8_bytes (in_text d) = ns_bytes i)
     (sort_key ns_path inputs) decoded"
  using decode_inputs_Inr [OF assms(2)] assms(1) unfolding check_inputs_iff by (simp add: list_all2_map1)

lemma admitted_files:
  assumes "check_inputs (sort_key ns_path inputs) [] = Inr checked" "decode_inputs (enumerate 0 checked) = Inr decoded"
    and "build n decoded = (Inr m, n')"
  shows "wf_source_map m \<and> sm_id m = n \<and> unat n' = unat n + 1 \<and>
     list_all2 (\<lambda>i src. sf_path src = ns_path i \<and> utf8_bytes (sf_text src) = ns_bytes i) (sort_key ns_path inputs) (sm_files m)"
proof -
  note d = decoded_inputs [OF assms(1,2)]
  then have wf: "\<forall>i\<in>set decoded. wf_text (in_text i)" using list_all2_ex_left [OF d] by blast
  have "map in_path decoded = map ns_path (sort_key ns_path inputs)" using d
    by (auto simp: list_all2_conv_all_nth intro: nth_equalityI)
  then have "sort_key in_path decoded = decoded" by (intro sort_key_sorted) simp
  then have p: "map file_pair (sm_files m) = map input_pair decoded" using build_Inr [OF assms(3)] by simp
  have l: "length (sm_files m) = length decoded" using p by (metis length_map)
  have "list_all2 (\<lambda>d src. sf_path src = in_path d \<and> sf_text src = in_text d) decoded (sm_files m)"
  proof (rule list_all2_all_nthI)
    fix j assume "j < length decoded"
    then have "file_pair (sm_files m ! j) = input_pair (decoded ! j)" using p l by (metis nth_map)
    then show "sf_path (sm_files m ! j) = in_path (decoded ! j) \<and> sf_text (sm_files m ! j) = in_text (decoded ! j)"
      by (simp add: file_pair_def input_pair_def)
  qed (simp add: l)
  then have "list_all2 (\<lambda>i src. sf_path src = ns_path i \<and> utf8_bytes (sf_text src) = ns_bytes i) (sort_key ns_path inputs) (sm_files m)"
    using d by (auto simp: list_all2_conv_all_nth)
  then show ?thesis using build_wf [OF assms(3) wf] build_Inr [OF assms(3)] by simp
qed

lemma admit_cases:
  obtains (rejected) e where "admit_and_lex n inputs = (Some (Inl e), n)"
  | (checked) checked decoded where "length inputs \<le> MAX_SOURCE_FILES" "check_inputs (sort_key ns_path inputs) [] = Inr checked"
      "preflight_bytes (enumerate 0 checked) 0 = Inr ()" "decode_inputs (enumerate 0 checked) = Inr decoded"
      "admit_and_lex n inputs =
         (case build n decoded of
            (Inl e, n') \<Rightarrow> (Some (Inl (lex_source_error e)), n')
          | (Inr m, n') \<Rightarrow> (map_option (\<lambda>r. try_bind r (\<lambda>p. Inr \<lparr>al_sources = m, al_project = p\<rparr>)) (lex m), n'))"
proof -
  let ?r = "try_bind (check_inputs (sort_key ns_path inputs) []) (\<lambda>checked.
              try_bind (preflight_bytes (enumerate 0 checked) 0) (\<lambda>_. decode_inputs (enumerate 0 checked)))"
  show thesis
  proof (cases "MAX_SOURCE_FILES < length inputs")
    case True
    then show thesis using rejected by (simp add: admit_and_lex_def)
  next
    case False
    show thesis
    proof (cases ?r)
      case (Inl e)
      then show thesis using rejected False by (simp add: admit_and_lex_def)
    next
      case (Inr decoded)
      then obtain checked where "check_inputs (sort_key ns_path inputs) [] = Inr checked"
          "preflight_bytes (enumerate 0 checked) 0 = Inr ()" "decode_inputs (enumerate 0 checked) = Inr decoded"
        by (auto simp: result_simps)
      then show thesis using checked [of checked decoded] False Inr by (simp add: admit_and_lex_def)
    qed
  qed
qed

lemma preflight_bytes_iff:
  assumes "k + length xs \<le> 2 ^ 32" "bytes_so_far \<le> MAX_SOURCE_BYTES_PER_PROJECT"
  shows "preflight_bytes (enumerate k xs) bytes_so_far = Inr () \<longleftrightarrow>
     (\<forall>x\<in>set xs. length (snd x) \<le> MAX_SOURCE_FILE_BYTES) \<and>
     bytes_so_far + sum_list (map (length \<circ> snd) xs) \<le> MAX_SOURCE_BYTES_PER_PROJECT"
  using assms
proof (induction xs arbitrary: k bytes_so_far)
  case (Cons x xs)
  obtain path bs where x: "x = (path, bs)" by force
  have k: "u32_try_from k = Some (of_nat k)" using Cons.prems(1) by (simp add: u32_try_from_def)
  consider "MAX_SOURCE_FILE_BYTES < length bs" | "length bs \<le> MAX_SOURCE_FILE_BYTES" "MAX_SOURCE_BYTES_PER_PROJECT - bytes_so_far < length bs"
    | "length bs \<le> MAX_SOURCE_FILE_BYTES" "bytes_so_far + length bs \<le> MAX_SOURCE_BYTES_PER_PROJECT"
    using Cons.prems(2) by (metis le_diff_conv2 add.commute not_less)
  then show ?case
  proof cases
    case 3
    then have "usize_checked_add bytes_so_far (length bs) = Some (bytes_so_far + length bs)"
      by (simp add: usize_checked_add_def MAX_SOURCE_BYTES_PER_PROJECT_def)
    moreover have "\<not> MAX_SOURCE_BYTES_PER_PROJECT - bytes_so_far < length bs" using 3(2) by linarith
    ultimately show ?thesis using Cons.IH [of "Suc k" "bytes_so_far + length bs"] Cons.prems(1) 3 k by (simp add: x add.assoc)
  qed (use k in \<open>auto simp: x Let_def\<close>)
qed simp

lemma decode_inputs_ex:
  assumes "k + length xs \<le> 2 ^ 32"
  shows "(\<exists>decoded. decode_inputs (enumerate k xs) = Inr decoded) \<longleftrightarrow>
     (\<forall>x\<in>set xs. \<exists>t. wf_text t \<and> utf8_bytes t = snd x)"
  using assms
proof (induction xs arbitrary: k)
  case (Cons x xs)
  have "\<exists>w. u32_try_from k = Some w" using Cons.prems by (simp add: u32_try_from_def)
  then show ?case using Cons.IH [of "Suc k"] Cons.prems
    by (cases x) (auto simp: result_simps map_error_Inr_iff from_utf8_iff)
qed simp

lemma admission_stages:
  assumes "length inputs \<le> MAX_SOURCE_FILES"
  shows "(\<exists>checked decoded. check_inputs (sort_key ns_path inputs) [] = Inr checked \<and>
       preflight_bytes (enumerate 0 checked) 0 = Inr () \<and> decode_inputs (enumerate 0 checked) = Inr decoded) \<longleftrightarrow>
     (\<forall>i\<in>set inputs. validate_source_path (ns_path i) = Inr () \<and> length (ns_bytes i) \<le> MAX_SOURCE_FILE_BYTES \<and>
         (\<exists>t. wf_text t \<and> utf8_bytes t = ns_bytes i)) \<and>
      distinct (map (\<lambda>i. portable_identity (ns_path i)) inputs) \<and>
      sum_list (map (\<lambda>i. length (ns_bytes i)) inputs) \<le> MAX_SOURCE_BYTES_PER_PROJECT"
proof -
  let ?s = "sort_key ns_path inputs"
  define checked where "checked = map (\<lambda>i. (ns_path i, ns_bytes i)) ?s"
  have l: "0 + length checked \<le> 2 ^ 32" using assms by (simp add: checked_def MAX_SOURCE_FILES_def)
  have "mset (map (\<lambda>i. portable_identity (ns_path i)) ?s) = mset (map (\<lambda>i. portable_identity (ns_path i)) inputs)"
    "mset (map (\<lambda>i. length (ns_bytes i)) ?s) = mset (map (\<lambda>i. length (ns_bytes i)) inputs)" by simp_all
  then have m: "distinct (map (\<lambda>i. portable_identity (ns_path i)) ?s) = distinct (map (\<lambda>i. portable_identity (ns_path i)) inputs)"
    "sum_list (map (length \<circ> snd) checked) = sum_list (map (\<lambda>i. length (ns_bytes i)) inputs)"
    using mset_eq_imp_distinct_iff by (blast, metis (no_types, lifting) checked_def length_map list.map_comp map_eq_conv comp_apply snd_conv sum_mset_sum_list)
  have sc: "set checked = (\<lambda>i. (ns_path i, ns_bytes i)) ` set inputs" by (simp add: checked_def)
  have c: "check_inputs ?s [] = Inr c \<longleftrightarrow> c = checked \<and> (\<forall>i\<in>set inputs. validate_source_path (ns_path i) = Inr ()) \<and>
      distinct (map (\<lambda>i. portable_identity (ns_path i)) inputs)" for c
    using check_inputs_iff [of ?s "[]" c] by (simp add: m checked_def)
  have p: "preflight_bytes (enumerate 0 checked) 0 = Inr () \<longleftrightarrow> (\<forall>i\<in>set inputs. length (ns_bytes i) \<le> MAX_SOURCE_FILE_BYTES) \<and>
      sum_list (map (\<lambda>i. length (ns_bytes i)) inputs) \<le> MAX_SOURCE_BYTES_PER_PROJECT"
    using preflight_bytes_iff [OF l, of 0] by (simp add: m sc)
  have q: "(\<exists>decoded. decode_inputs (enumerate 0 checked) = Inr decoded) \<longleftrightarrow>
      (\<forall>i\<in>set inputs. \<exists>t. wf_text t \<and> utf8_bytes t = ns_bytes i)"
    using decode_inputs_ex [OF l] by (simp add: sc)
  show ?thesis (is "?L \<longleftrightarrow> _")
  proof -
    have "?L \<longleftrightarrow> (\<forall>i\<in>set inputs. validate_source_path (ns_path i) = Inr ()) \<and>
        distinct (map (\<lambda>i. portable_identity (ns_path i)) inputs) \<and> preflight_bytes (enumerate 0 checked) 0 = Inr () \<and>
        (\<exists>decoded. decode_inputs (enumerate 0 checked) = Inr decoded)"
      unfolding c by blast
    then show ?thesis unfolding p q by blast
  qed
qed

lemma admitted_build:
  assumes "admissible_inputs n inputs"
  shows "\<exists>m. admit_and_lex n inputs = (map_option (\<lambda>r. try_bind r (\<lambda>p. Inr \<lparr>al_sources = m, al_project = p\<rparr>)) (lex m), n + 1) \<and>
     wf_source_map m \<and> sm_id m = n \<and>
     list_all2 (\<lambda>i src. sf_path src = ns_path i \<and> utf8_bytes (sf_text src) = ns_bytes i) (sort_key ns_path inputs) (sm_files m)"
proof -
  have len: "length inputs \<le> MAX_SOURCE_FILES" using assms by (simp add: admissible_inputs_def)
  obtain checked decoded where st: "check_inputs (sort_key ns_path inputs) [] = Inr checked"
      "preflight_bytes (enumerate 0 checked) 0 = Inr ()" "decode_inputs (enumerate 0 checked) = Inr decoded"
    using admission_stages [OF len] assms unfolding admissible_inputs_def by blast
  note d = decoded_inputs [OF st(1,3)]
  have l: "length decoded = length inputs" using list_all2_lengthD [OF d] by simp
  have p: "map (\<lambda>i. portable_identity (in_path i)) decoded = map (\<lambda>i. portable_identity (ns_path i)) (sort_key ns_path inputs)"
    "map (\<lambda>i. str_len (in_text i)) decoded = map (\<lambda>i. length (ns_bytes i)) (sort_key ns_path inputs)"
    using d by (auto simp: list_all2_conv_all_nth str_len_def intro!: nth_equalityI)
  have "\<exists>m. build n decoded = (Inr m, n + 1)"
  proof (rule build_complete)
    have "mset (map (\<lambda>i. portable_identity (in_path i)) decoded) = mset (map (\<lambda>i. portable_identity (ns_path i)) inputs)"
      unfolding p by simp
    then show "distinct (map (\<lambda>i. portable_identity (in_path i)) decoded)"
      using assms mset_eq_imp_distinct_iff unfolding admissible_inputs_def by blast
    have "mset (map (\<lambda>i. str_len (in_text i)) decoded) = mset (map (\<lambda>i. length (ns_bytes i)) inputs)" unfolding p by simp
    then have "sum_list (map (\<lambda>i. str_len (in_text i)) decoded) = sum_list (map (\<lambda>i. length (ns_bytes i)) inputs)"
      by (metis sum_mset_sum_list)
    then show "sum_list (map (\<lambda>i. str_len (in_text i)) decoded) \<le> MAX_SOURCE_BYTES"
      using assms by (simp add: admissible_inputs_def MAX_SOURCE_BYTES_PER_PROJECT_def MAX_SOURCE_BYTES_def)
    show "\<forall>i\<in>set decoded. validate_source_path (in_path i) = Inr () \<and> str_len (in_text i) \<le> MAX_SOURCE_FILE_BYTES"
    proof
      fix i assume "i \<in> set decoded"
      then obtain j where "j \<in> set inputs" "in_path i = ns_path j" "utf8_bytes (in_text i) = ns_bytes j"
        using list_all2_ex_left [OF d] by auto
      then show "validate_source_path (in_path i) = Inr () \<and> str_len (in_text i) \<le> MAX_SOURCE_FILE_BYTES"
        using assms by (simp add: admissible_inputs_def str_len_def)
    qed
  qed (use assms l in \<open>simp_all add: admissible_inputs_def\<close>)
  then obtain m where b: "build n decoded = (Inr m, n + 1)" by blast
  moreover note admitted_files [OF st(1,3) b]
  ultimately show ?thesis using st len by (intro exI [of _ m]) (simp add: admit_and_lex_def)
qed

lemma inadmissible_rejected:
  assumes "\<not> admissible_inputs n inputs"
  shows "\<exists>e. admit_and_lex n inputs = (Some (Inl e), n)"
proof (cases rule: admit_cases [of n inputs])
  case (checked checked decoded)
  then have "\<not> unat n + 1 < 2 ^ 64" using assms admission_stages [OF checked(1)] unfolding admissible_inputs_def by blast
  then have "checked_add n 1 = None" by (simp add: checked_add_def)
  then have "\<exists>e. build n decoded = (Inl e, n)" by (auto simp: build_def split: sum.splits)
  then show ?thesis using checked(5) by auto
qed auto

section \<open>Properties\<close>

text \<open>C17: Admission is exact and keeps every byte. It never panics. Inputs that break a limit on files, paths, portable
  identities, bytes or encoding, or meet an exhausted identity counter, are rejected and use no identity; for every other
  input one identity is used, and the result is a resource error of the lexer or a well-formed source map, whose files are
  the inputs in path order, each text encoding exactly the bytes that were given, with its lexed project.\<close>

theorem admission_exact:
  "\<exists>r n'. admit_and_lex n inputs = (Some r, n') \<and>
    (case r of
       Inl e \<Rightarrow> if admissible_inputs n inputs then limit_error e \<and> n' = n + 1 else n' = n
     | Inr a \<Rightarrow>
         admissible_inputs n inputs \<and> n' = n + 1 \<and> sm_id (al_sources a) = n \<and> wf_source_map (al_sources a) \<and>
         lex (al_sources a) = Some (Inr (al_project a)) \<and>
         list_all2 (\<lambda>i src. sf_path src = ns_path i \<and> utf8_bytes (sf_text src) = ns_bytes i)
           (sort_key ns_path inputs) (sm_files (al_sources a)))"
proof (cases "admissible_inputs n inputs")
  case True
  then obtain m where m: "wf_source_map m" "sm_id m = n"
      "admit_and_lex n inputs = (map_option (\<lambda>r. try_bind r (\<lambda>p. Inr \<lparr>al_sources = m, al_project = p\<rparr>)) (lex m), n + 1)"
      "list_all2 (\<lambda>i src. sf_path src = ns_path i \<and> utf8_bytes (sf_text src) = ns_bytes i) (sort_key ns_path inputs) (sm_files m)"
    using admitted_build by blast
  show ?thesis using True lex_run [OF m(1)] m by (cases "lexer_limits m") auto
next
  case False
  then show ?thesis using inadmissible_rejected by fastforce
qed

end
