(* ===== verification/Diagnostics_Facts.thy ===== *)
theory Diagnostics_Facts
  imports Diagnostics
begin

text \<open>
  What the diagnostics crate promises: structured rendering never fails on diagnostics whose spans the
  map accepts, does not depend on the order in which diagnostics were collected, and every protocol-v2
  document it produces passes its own validator. The JSON codec of a report enters through
  \<open>report_codec_ok\<close>: reading back a written report gives that report, and the fixed exhaustion report is
  written in at most 64 KiB.
\<close>

section \<open>Specification vocabulary\<close>

text \<open>What the development asks of the JSON codec.\<close>

definition report_codec_ok :: "report_codec \<Rightarrow> bool" where
  "report_codec_ok lib =
     ((\<forall>r doc. report_to_string lib r = Some doc \<longrightarrow> report_from_slice lib doc = Some r) \<and>
      (\<forall>doc. report_to_string lib exhausted = Some doc \<longrightarrow> length doc \<le> MAX_DOCUMENT_BYTES))"

definition sample_diagnostics :: "diagnostic list" where
  "sample_diagnostics =
     [diagnostic_error ''ZRYNA-W0001'' None ''m'' ''g'',
      diagnostic_error_at ''ZRYNA-P0002'' \<lparr>span_file = \<lparr>source_map_id = 1, fid_index = 0\<rparr>, span_start = 2, span_end = 6\<rparr> ''m'' ''g'',
      diagnostic_warning ''ZRYNA-W0003'' (Some ''A.zry'') ''m'' ''g'']"

definition sample_report :: report where
  "sample_report = \<lparr>schema_version = 2, diagnostics =
     [\<lparr>wr_code = ''ZRYNA-W0001'', wr_severity = Error, wr_location = LGlobal,
       wr_message = ''m'', wr_guidance = ''g''\<rparr>,
      \<lparr>wr_code = ''ZRYNA-W0003'', wr_severity = Warning, wr_location = LWorkspacePath ''A.zry'',
       wr_message = ''m'', wr_guidance = ''g''\<rparr>,
      \<lparr>wr_code = ''ZRYNA-P0002'', wr_severity = Error, wr_location = LSource ''A.zry'' 2 6,
       wr_message = ''m'', wr_guidance = ''g''\<rparr>]\<rparr>"

text \<open>A codec that knows the sample report and the exhaustion report.\<close>

definition sample_codec :: report_codec where
  "sample_codec = \<lparr>report_to_string = (\<lambda>r. if r = sample_report then Some [1] else if r = exhausted then Some [2] else None),
     report_from_slice = (\<lambda>d. if d = [1] then Some sample_report else if d = [2] then Some exhausted else None)\<rparr>"


lemma resolve_all_Inr_iff:
  "resolve_all m ds = Some (Inr rs) \<longleftrightarrow>
     list_all2 (\<lambda>d r. resolve_diagnostic m d = Some (Inr r)) ds rs"
proof (induction m ds arbitrary: rs rule: resolve_all.induct)
  case (2 m d ds)
  then show ?case
    by (cases rs) (auto simp: try_bind_Inr_iff list_all2_Cons1 split: option.splits sum.splits)
qed auto

lemma sm_resolve_Inr:
  assumes "sm_resolve m sp = Some (Inr r)"
  shows "validated_source m sp = Inr (rs_source r) \<and>
     resolve_position (rs_source r) (span_start sp) = Some (rs_start r) \<and>
     resolve_position (rs_source r) (span_end sp) = Some (rs_end r)"
  using assms by (auto simp: sm_resolve_def split: sum.splits option.splits bind_splits)

lemma resolve_position_offset: "resolve_position src off = Some p \<Longrightarrow> byte_offset p = off"
  by (auto simp: resolve_position_def Let_def split: bind_splits)

lemma source_path_unique:
  assumes "wf_source_map m" and "sm_source m f = Some src" and "sm_source m g = Some src'"
    and "sf_path src = sf_path src'"
  shows "src = src'"
proof -
  from assms obtain i j where ij: "i < length (sm_files m)" "src = sm_files m ! i"
      "j < length (sm_files m)" "src' = sm_files m ! j"
    by (auto simp: sm_source_def get_at_Some_iff split: if_splits)
  have "distinct (map sf_path (sm_files m))"
    using assms(1) sorted_wrt_less_distinct by (auto simp: wf_source_map_def)
  then have "i = j" using ij assms(4) by (metis distinct_conv_nth length_map nth_map)
  then show ?thesis using ij by simp
qed

lemma resolve_diagnostic_AtSource:
  assumes "resolve_diagnostic m d = Some (Inr r)" and "dg_primary d = AtSource sp"
  obtains rs where "sm_resolve m sp = Some (Inr rs)" "rd_path r = Some (sf_path (rs_source rs))"
    "rd_byte_start r = Some (span_start sp)" "rd_byte_end r = Some (span_end sp)"
    "rd_line_start r = Some (saturating_succ (rp_line (rs_start rs)))"
    "rd_column_start r = Some (saturating_succ (scalar_column (rs_start rs)))"
    "rd_line_end r = Some (saturating_succ (rp_line (rs_end rs)))"
    "rd_column_end r = Some (saturating_succ (scalar_column (rs_end rs)))"
proof -
  from assms obtain rs where rs: "sm_resolve m sp = Some (Inr rs)"
    by (auto simp: resolve_diagnostic_def Let_def split: option.splits sum.splits)
  have "byte_offset (rs_start rs) = span_start sp" "byte_offset (rs_end rs) = span_end sp"
    using sm_resolve_Inr [OF rs] resolve_position_offset by auto
  then show thesis using that [of rs] assms rs
    by (auto simp: resolve_diagnostic_def Let_def)
qed

lemma rendered_key_inject:
  assumes wf: "wf_source_map m"
    and r: "resolve_diagnostic m d = Some (Inr r)" "resolve_diagnostic m d' = Some (Inr r')"
    and key: "rendered_key r = rendered_key r'"
  shows "r = r'"
proof (cases "dg_primary d")
  case (AtSource sp)
  from r(1) AtSource obtain rs where rs: "sm_resolve m sp = Some (Inr rs)"
    "rd_path r = Some (sf_path (rs_source rs))"
    "rd_byte_start r = Some (span_start sp)" "rd_byte_end r = Some (span_end sp)"
    "rd_line_start r = Some (saturating_succ (rp_line (rs_start rs)))"
    "rd_column_start r = Some (saturating_succ (scalar_column (rs_start rs)))"
    "rd_line_end r = Some (saturating_succ (rp_line (rs_end rs)))"
    "rd_column_end r = Some (saturating_succ (scalar_column (rs_end rs)))"
    by (rule resolve_diagnostic_AtSource)
  have "rd_byte_start r = rd_byte_start r'" using key by (simp add: rendered_key_def)
  then have "rd_byte_start r' \<noteq> None" using rs(3) by (metis option.distinct(1))
  then obtain sp' where sp': "dg_primary d' = AtSource sp'"
    using r(2) by (cases "dg_primary d'") (auto simp: resolve_diagnostic_def Let_def)
  from r(2) sp' obtain rs' where rs': "sm_resolve m sp' = Some (Inr rs')"
    "rd_path r' = Some (sf_path (rs_source rs'))"
    "rd_byte_start r' = Some (span_start sp')" "rd_byte_end r' = Some (span_end sp')"
    "rd_line_start r' = Some (saturating_succ (rp_line (rs_start rs')))"
    "rd_column_start r' = Some (saturating_succ (scalar_column (rs_start rs')))"
    "rd_line_end r' = Some (saturating_succ (rp_line (rs_end rs')))"
    "rd_column_end r' = Some (saturating_succ (scalar_column (rs_end rs')))"
    by (rule resolve_diagnostic_AtSource)
  have se: "span_start sp = span_start sp'" "span_end sp = span_end sp'"
    "sf_path (rs_source rs) = sf_path (rs_source rs')"
    using key rs(2,3,4) rs'(2,3,4) by (simp_all add: rendered_key_def)
  note v = sm_resolve_Inr [OF rs(1)] and v' = sm_resolve_Inr [OF rs'(1)]
  have "rs_source rs = rs_source rs'"
    using source_path_unique [OF wf _ _ se(3)] v v' validated_source_iff [OF wf] by blast
  then have "rs_start rs = rs_start rs'" "rs_end rs = rs_end rs'" using v v' se by auto
  then show ?thesis using key rs rs' by (simp add: rendered_key_def)
next
  case (WorkspacePath p)
  then show ?thesis using r key
    by (cases "dg_primary d'")
      (auto simp: resolve_diagnostic_def Let_def rendered_key_def split: option.splits sum.splits)
next
  case Global
  then show ?thesis using r key
    by (cases "dg_primary d'")
      (auto simp: resolve_diagnostic_def Let_def rendered_key_def split: option.splits sum.splits)
qed

lemma list_all2_perm_fun:
  assumes "list_all2 (\<lambda>x y. f x = Some (Inr y)) xs ys" and "mset xs' = mset xs"
  shows "\<exists>ys'. list_all2 (\<lambda>x y. f x = Some (Inr y)) xs' ys' \<and> mset ys' = mset ys"
proof -
  define g where "g x = (case f x of Some (Inr y) \<Rightarrow> y | _ \<Rightarrow> undefined)" for x
  have "ys = map g xs \<and> (\<forall>x\<in>set xs. f x = Some (Inr (g x)))"
    using assms(1) by (induction rule: list_all2_induct) (auto simp: g_def)
  moreover have "set xs' = set xs" using assms(2) by (metis set_mset_mset)
  ultimately have "list_all2 (\<lambda>x y. f x = Some (Inr y)) xs' (map g xs')" "mset (map g xs') = mset ys"
    using assms(2) by (auto simp: list_all2_map2 list.rel_refl_strong intro!: list.rel_refl_strong)
  then show ?thesis by blast
qed

lemma render_structured_perm:
  assumes wf: "wf_source_map m" and r: "render_structured ds m = Some (Inr out)"
    and perm: "mset ds' = mset ds"
  shows "render_structured ds' m = Some (Inr out)"
proof -
  from r obtain rs where rs: "resolve_all m ds = Some (Inr rs)" 
    and out: "out = \<lparr>sd_schema_version = STRUCTURED_DIAGNOSTICS_VERSION, sd_diagnostics = sort_key rendered_key rs\<rparr>"
    by (auto simp: render_structured_def try_bind_Inr_iff)
  have l: "list_all2 (\<lambda>d r. resolve_diagnostic m d = Some (Inr r)) ds rs"
    using rs by (simp add: resolve_all_Inr_iff)
  obtain rs' where l': "list_all2 (\<lambda>d r. resolve_diagnostic m d = Some (Inr r)) ds' rs'"
    and p: "mset rs' = mset rs" using list_all2_perm_fun [OF l perm] by blast
  have "inj_on rendered_key (set rs)"
  proof (rule inj_onI)
    fix a b assume ab: "a \<in> set rs" "b \<in> set rs" "rendered_key a = rendered_key b"
    obtain d e where "resolve_diagnostic m d = Some (Inr a)" "resolve_diagnostic m e = Some (Inr b)"
      using list_all2_ex_left [OF l ab(1)] list_all2_ex_left [OF l ab(2)] by blast
    then show "a = b" using rendered_key_inject [OF wf] ab(3) by blast
  qed
  then have "sort_key rendered_key rs' = sort_key rendered_key rs"
    using p by (intro sort_key_eq_sort_key) (auto dest: mset_eq_setD)
  moreover have "resolve_all m ds' = Some (Inr rs')" using l' by (simp add: resolve_all_Inr_iff)
  ultimately show ?thesis by (simp add: render_structured_def out)
qed

lemma wire_records_Inr_iff:
  "wire_records m ds = Some (Inr rs) \<longleftrightarrow>
     list_all2 (\<lambda>d r. valid_code (dg_code d) \<and> dg_code d \<noteq> EXHAUSTION_CODE \<and>
       wr_code r = dg_code d \<and> wr_severity r = dg_severity d \<and> wr_message r = dg_message d \<and>
       wr_guidance r = dg_guidance d \<and> wire_location_of m (dg_primary d) = Some (Inr (wr_location r))) ds rs"
proof (induction m ds arbitrary: rs rule: wire_records.induct)
  case (2 m d ds)
  show ?case
  proof (cases rs)
    case Nil
    then show ?thesis using 2 by (auto simp: try_bind_Inr_iff split: option.splits sum.splits)
  next
    case (Cons r rs')
    have eq: "r = \<lparr>wr_code = dg_code d, wr_severity = dg_severity d, wr_location = loc,
        wr_message = dg_message d, wr_guidance = dg_guidance d\<rparr> \<longleftrightarrow>
        wr_code r = dg_code d \<and> wr_severity r = dg_severity d \<and> wr_message r = dg_message d \<and>
        wr_guidance r = dg_guidance d \<and> wr_location r = loc" for loc
      by (cases r) auto
    show ?thesis unfolding Cons using 2
      by (auto simp: try_bind_Inr_iff eq [symmetric] split: option.splits sum.splits)
  qed
qed auto

lemma validate_exhausted:
  assumes "report_codec_ok lib" and "report_to_string lib exhausted = Some doc"
  shows "validate_json lib doc m = Inr ()"
proof -
  have "length doc \<le> MAX_DOCUMENT_BYTES" "report_from_slice lib doc = Some exhausted"
    using assms by (auto simp: report_codec_ok_def)
  moreover have "\<not> list_ex exceeds_limits (diagnostics exhausted)"
    "\<not> list_ex (\<lambda>r. \<not> valid_code (wr_code r)) (diagnostics exhausted)"
    "list_ex (\<lambda>r. wr_code r = EXHAUSTION_CODE) (diagnostics exhausted)"
    "schema_version exhausted = 2" "length (diagnostics exhausted) \<le> MAX_REPORT_DIAGNOSTICS"
    by code_simp+
  ultimately show ?thesis by (simp add: validate_json_def not_less)
qed

lemma validate_rendered_location:
  assumes wf: "wf_source_map m" and loc: "wire_location_of m prim = Some (Inr (wr_location r))"
  shows "validate_location m r = Inr () \<and>
    (\<forall>p s e. wr_location r = LSource p s e \<longrightarrow> length p \<le> MAX_PATH_BYTES)"
proof (cases prim)
  case (AtSource sp)
  then obtain rs where rs: "sm_resolve m sp = Some (Inr rs)" and w: "wr_location r =
      LSource (sf_path (rs_source rs)) (byte_offset (rs_start rs)) (byte_offset (rs_end rs))"
    using loc by (auto simp: wire_location_of_def split: option.splits sum.splits)
  note v = sm_resolve_Inr [OF rs]
  let ?src = "rs_source rs"
  have off: "byte_offset (rs_start rs) = span_start sp" "byte_offset (rs_end rs) = span_end sp"
    using v resolve_position_offset by auto
  have src: "sm_source m (span_file sp) = Some ?src" using v validated_source_iff [OF wf] by blast
  then obtain i where i: "i < length (sm_files m)" "?src = sm_files m ! i"
    by (auto simp: sm_source_def get_at_Some_iff split: if_splits)
  have path: "validate_source_path (sf_path ?src) = Inr ()"
    using sm_source_wf [OF wf src] by (simp add: wf_file_def)
  then have "normalized_new (sf_path ?src) = Inr (sf_path ?src)" by (simp add: normalized_new_def)
  moreover have len: "length (sf_path ?src) \<le> MAX_PATH_BYTES"
    using path by (simp add: validate_source_path_iff MAX_PATH_BYTES_def MAX_SOURCE_PATH_BYTES_def)
  have fid: "sm_file_id m (sf_path ?src) = Some (sf_id ?src)" "sm_source m (sf_id ?src) = Some ?src"
    using wf_source_map_id [OF wf i(1)] i(2) by auto
  have ids: "sf_id ?src = span_file sp"
  proof -
    have "length (sm_files m) < 2 ^ 32" using wf by (simp add: wf_source_map_def MAX_SOURCE_FILES_def)
    moreover have "source_map_id (span_file sp) = sm_id m" "sm_files m ! unat (fid_index (span_file sp)) = ?src"
      "unat (fid_index (span_file sp)) < length (sm_files m)"
      using src by (auto simp: sm_source_def get_at_Some_iff split: if_splits)
    moreover have "sf_id (sm_files m ! j) = \<lparr>source_map_id = sm_id m, fid_index = of_nat j\<rparr>"
      if "j < length (sm_files m)" for j using wf that by (auto simp: wf_source_map_def)
    ultimately have "sf_id ?src = \<lparr>source_map_id = sm_id m,
        fid_index = of_nat (unat (fid_index (span_file sp)))\<rparr>" "source_map_id (span_file sp) = sm_id m" by metis+
    then show ?thesis by (cases "span_file sp") simp
  qed
  have "sm_span m (sf_id ?src) (span_start sp) (span_end sp) = Inr sp"
    using v ids by (cases sp) (simp add: sm_span_def Let_def)
  ultimately show ?thesis using fid w off len by (simp add: validate_location_def)
qed (use loc in \<open>auto simp: wire_location_of_def validate_location_def split: wire_location.splits\<close>)

lemma windows2_sorted_key:
  "list_ex (\<lambda>(a, b). (key b :: 'a::linorder) < key a) (windows2 (sort_key key xs)) = False"
proof -
  have "sorted_wrt (\<lambda>a b. key a \<le> key b) (sort_key key xs)"
    using sorted_sort_key [of key xs] by (simp add: sorted_wrt_map)
  then have "\<forall>(a, b)\<in>set (windows2 (sort_key key xs)). key a \<le> key b"
    by (subst windows2_sorted) (auto simp: transp_def)
  then show ?thesis by (auto simp: list_ex_iff)
qed

lemma render_validates:
  assumes wf: "wf_source_map m" and cod: "report_codec_ok lib"
    and r: "render_json_v2 lib ds m = Some (Inr doc)"
  shows "validate_json lib doc m = Inr ()"
proof (cases "report_to_string lib exhausted = Some doc")
  case True
  then show ?thesis using validate_exhausted [OF cod] by blast
next
  case False
  then obtain rs where lim: "length ds \<le> MAX_REPORT_DIAGNOSTICS" "\<not> list_ex diagnostic_too_large ds"
    and rs: "wire_records m ds = Some (Inr rs)"
    and enc: "report_to_string lib \<lparr>schema_version = 2, diagnostics = sort_key record_key rs\<rparr> = Some doc"
    and len: "length doc \<le> MAX_DOCUMENT_BYTES"
    using r by (auto simp: render_json_v2_def encode_report_def result_simps not_less split: if_splits)
  have all: "list_all2 (\<lambda>d r. valid_code (dg_code d) \<and> dg_code d \<noteq> EXHAUSTION_CODE \<and>
       wr_code r = dg_code d \<and> wr_severity r = dg_severity d \<and> wr_message r = dg_message d \<and>
       wr_guidance r = dg_guidance d \<and> wire_location_of m (dg_primary d) = Some (Inr (wr_location r))) ds rs"
    using rs by (simp only: wire_records_Inr_iff)
  have rec: "valid_code (wr_code r) \<and> wr_code r \<noteq> EXHAUSTION_CODE \<and> \<not> exceeds_limits r \<and>
      validate_location m r = Inr ()" if r: "r \<in> set rs" for r
  proof -
    obtain d where d: "d \<in> set ds" "valid_code (dg_code d)" "dg_code d \<noteq> EXHAUSTION_CODE"
        "wr_code r = dg_code d" "wr_message r = dg_message d" "wr_guidance r = dg_guidance d"
        "wire_location_of m (dg_primary d) = Some (Inr (wr_location r))"
      using list_all2_ex_left [OF all r] by blast
    have small: "\<not> diagnostic_too_large d" using lim(2) d(1) by (auto simp: list_ex_iff)
    note loc = validate_rendered_location [OF wf d(7)]
    have path: "(case fst (record_key r) of Some p \<Rightarrow> MAX_PATH_BYTES < length p | None \<Rightarrow> False) = False"
    proof (cases "wr_location r")
      case (LWorkspacePath p)
      then have "dg_primary d = WorkspacePath p" using d(7)
        by (cases "dg_primary d") (auto simp: wire_location_of_def split: option.splits sum.splits)
      then show ?thesis using small LWorkspacePath
        by (auto simp: diagnostic_too_large_def dg_path_def record_key_def)
    next
      case (LSource p s e)
      then show ?thesis using loc by (auto simp: record_key_def not_less)
    qed (simp add: record_key_def)
    have "\<not> exceeds_limits r"
      using small d(5,6) by (simp add: exceeds_limits_def path diagnostic_too_large_def)
    then show ?thesis using d loc by simp
  qed
  have "length rs = length ds" using list_all2_lengthD [OF all] by simp
  moreover have "report_from_slice lib doc = Some \<lparr>schema_version = 2, diagnostics = sort_key record_key rs\<rparr>"
    using cod enc by (auto simp: report_codec_ok_def)
  moreover have "\<not> list_ex exceeds_limits (sort_key record_key rs)"
    "\<not> list_ex (\<lambda>r. \<not> valid_code (wr_code r)) (sort_key record_key rs)"
    "\<not> list_ex (\<lambda>r. wr_code r = EXHAUSTION_CODE) (sort_key record_key rs)"
    using rec by (auto simp: list_ex_iff)
  moreover have "try_for_each (validate_location m) (sort_key record_key rs) = Inr ()"
    using rec by (simp add: try_for_each_Inr_iff)
  ultimately show ?thesis using len lim(1)
    by (simp add: validate_json_def windows2_sorted_key not_less)
qed

lemma structured_total:
  assumes wf: "wf_source_map m"
    and ok: "\<forall>d\<in>set ds. \<forall>sp. dg_primary d = AtSource sp \<longrightarrow> (\<exists>src. validated_source m sp = Inr src)"
  shows "\<exists>out. render_structured ds m = Some (Inr out) \<and> length (sd_diagnostics out) = length ds"
proof -
  have one: "\<exists>r. resolve_diagnostic m d = Some (Inr r)" if "d \<in> set ds" for d
  proof (cases "dg_primary d")
    case (AtSource sp)
    then obtain src where "validated_source m sp = Inr src" using ok \<open>d \<in> set ds\<close> by blast
    then show ?thesis using sm_resolve_total [OF wf] AtSource by (fastforce simp: resolve_diagnostic_def Let_def)
  qed (auto simp: resolve_diagnostic_def Let_def)
  then have "\<exists>rs. list_all2 (\<lambda>d r. resolve_diagnostic m d = Some (Inr r)) ds rs"
    by (induction ds) (auto simp: list_all2_Cons1)
  then obtain rs where rs: "list_all2 (\<lambda>d r. resolve_diagnostic m d = Some (Inr r)) ds rs" by blast
  then have "resolve_all m ds = Some (Inr rs)" by (simp add: resolve_all_Inr_iff)
  then show ?thesis using list_all2_lengthD [OF rs] by (simp add: render_structured_def)
qed

section \<open>Properties\<close>

subsection \<open>Samples for the witnesses\<close>

text \<open>Three diagnostics about the sample map: one at a span, one at a path, one global.\<close>

lemma sample_diagnostics_valid:
  "\<forall>d\<in>set sample_diagnostics. \<forall>sp. dg_primary d = AtSource sp \<longrightarrow>
     (\<exists>src. validated_source sample_map sp = Inr src)"
proof -
  have "validated_source sample_map \<lparr>span_file = \<lparr>source_map_id = 1, fid_index = 0\<rparr>, span_start = 2, span_end = 6\<rparr>
      = Inr (sm_files sample_map ! 0)" by code_simp
  then show ?thesis by (auto simp: sample_diagnostics_def diagnostic_error_at_def diagnostic_error_def
      diagnostic_warning_def)
qed

lemma sample_codec_ok: "report_codec_ok sample_codec"
  by (auto simp: report_codec_ok_def sample_codec_def MAX_DOCUMENT_BYTES_def)

text \<open>Rendering diagnostics depends only on which diagnostics were collected, not on the order of
  collection: any permutation renders to the same list, which is sorted by the canonical key.\<close>

theorem render_order_independent:
  assumes "wf_source_map m" and "render_structured ds m = Some (Inr out)" and "mset ds' = mset ds"
  shows "render_structured ds' m = Some (Inr out) \<and> sorted (map rendered_key (sd_diagnostics out))"
proof -
  have "sorted (map rendered_key (sd_diagnostics out))"
    using assms(2) by (auto simp: render_structured_def try_bind_Inr_iff)
  then show ?thesis using render_structured_perm [OF assms] by simp
qed

text \<open>C14: every protocol-v2 document the renderer returns is accepted by the protocol's validator
  against the same source map: the limits, the code syntax, the reserved exhaustion code, the spans and
  the canonical order all hold, also for the truncated report written when a limit is exceeded.\<close>

theorem rendered_documents_validate:
  assumes "wf_source_map m" and "report_codec_ok lib" and "render_json_v2 lib ds m = Some (Inr doc)"
  shows "validate_json lib doc m = Inr () \<and> length doc \<le> MAX_DOCUMENT_BYTES"
proof -
  have ok: "validate_json lib doc m = Inr ()" using render_validates [OF assms] .
  then show ?thesis by (simp add: validate_json_def split: if_splits)
qed

theorem rendered_documents_validate_witness:
  "render_json_v2 sample_codec sample_diagnostics sample_map = Some (Inr [1]) \<and>
   validate_json sample_codec [1] sample_map = Inr ()"
proof -
  have r: "render_json_v2 sample_codec sample_diagnostics sample_map = Some (Inr [1])" by code_simp
  show ?thesis using rendered_documents_validate [OF sample_wf sample_codec_ok r] r by simp
qed

text \<open>Structured rendering succeeds, one rendered diagnostic for each, whenever the map accepts
  every span that a diagnostic points to; it neither panics nor returns an error.\<close>

theorem render_total:
  assumes "wf_source_map m"
    and "\<forall>d\<in>set ds. \<forall>sp. dg_primary d = AtSource sp \<longrightarrow> (\<exists>src. validated_source m sp = Inr src)"
  shows "\<exists>out. render_structured ds m = Some (Inr out) \<and> length (sd_diagnostics out) = length ds"
  using structured_total [OF assms] .

end
