(* ===== verification/Layout_Graph.thy ===== *)
theory Layout_Graph
  imports Diagnostics_Facts "HOL-Library.Monad_Syntax"
begin

text \<open>
  Aggregate layout, first half, \<open>crates/zryna-layout/src/raw.rs\<close> and \<open>lib.rs\<close>: the untrusted type graph,
  the bounded diagnostic collector \<open>Errors\<close>, the structural checks of \<open>preflight\<close>, and the canonical
  byte keys. A function that can panic (an index out of range, an \<open>expect\<close>) or that reads the source map
  returns an option, \<open>None\<close> being the panic; a \<open>Vec\<close> used as a stack is a list whose head is the top.
\<close>

section \<open>The raw graph\<close>

type_synonym module_id = u32
type_synonym node_id = u32

record raw_module =
  md_id :: module_id
  md_source_file :: file_id
  md_data_declarations :: u32

record raw_field =
  fl_ordinal :: u32
  fl_ty :: node_id

record raw_variant =
  vr_ordinal :: u32
  vr_payload :: "node_id option"

datatype type_kind =
    TBool
  | TI32
  | TString
  | TStruct module_id u32 "raw_field list"
  | TEnum module_id u32 "raw_variant list"
  | TFixedArray node_id u64
  | TVec node_id
  | TShared node_id
  | TWeak node_id
  | TBorrow node_id

record type_node =
  tn_id :: node_id
  tn_span :: "span option"
  tn_kind :: type_kind

record type_graph =
  modules :: "raw_module list"
  types :: "type_node list"
  program_roots :: "node_id list"

section \<open>Limits\<close>

definition MAX_TYPE_NODES :: usize where "MAX_TYPE_NODES = 65536"
definition MAX_MEMBERS :: usize where "MAX_MEMBERS = 65536"
definition MAX_MEMBERS_PER_DECLARATION :: usize where "MAX_MEMBERS_PER_DECLARATION = 1024"
definition MAX_DEPENDENCY_EDGES :: usize where "MAX_DEPENDENCY_EDGES = 262144"
definition MAX_TRAVERSAL_DEPTH :: usize where "MAX_TRAVERSAL_DEPTH = 256"
definition MAX_ARRAY_LENGTH :: u64 where "MAX_ARRAY_LENGTH = 1048576"
definition MAX_OBJECT_SIZE :: u64 where "MAX_OBJECT_SIZE = 4294967295"
definition MAX_DIAGNOSTICS :: usize where "MAX_DIAGNOSTICS = 256"
definition U32_MAX :: usize where "U32_MAX = 4294967295"

section \<open>The diagnostic collector\<close>

definition global_error :: "string \<Rightarrow> string \<Rightarrow> string \<Rightarrow> diagnostic" where
  "global_error code message guidance = diagnostic_error code None message guidance"

definition error_at :: "span option \<Rightarrow> string \<Rightarrow> string \<Rightarrow> string \<Rightarrow> diagnostic" where
  "error_at sp code message guidance =
     (case sp of Some s \<Rightarrow> diagnostic_error_at code s message guidance
      | None \<Rightarrow> global_error code message guidance)"

text \<open>\<open>str::parse::<u64>\<close> on a nonempty run of ASCII digits.\<close>

definition digits_value :: "string \<Rightarrow> nat" where
  "digits_value s = foldl (\<lambda>acc c. 10 * acc + (byte_of c - 48)) 0 s"

definition parse_u64 :: "string \<Rightarrow> u64 option" where
  "parse_u64 s = (if digits_value s < 2 ^ 64 then Some (of_nat (digits_value s)) else None)"

fun digit_runs :: "string \<Rightarrow> string list" where
  "digit_runs [] = [[]]"
| "digit_runs (c # s) =
     (if is_ascii_digit c
      then (case digit_runs s of [] \<Rightarrow> [[c]] | p # ps \<Rightarrow> (c # p) # ps)
      else [] # digit_runs s)"

definition diagnostic_numbers :: "diagnostic \<Rightarrow> u64 list" where
  "diagnostic_numbers d =
     List.map_filter parse_u64 (filter (\<lambda>p. p \<noteq> []) (digit_runs (dg_message d)))"

definition diagnostic_location :: "diagnostic \<Rightarrow> u8 \<times> u32 \<times> u32 \<times> u32 \<times> string" where
  "diagnostic_location d =
     (case dg_span d of
        Some sp \<Rightarrow> (0, fid_index (span_file sp), span_start sp, span_end sp, [])
      | None \<Rightarrow>
          (case dg_path d of Some p \<Rightarrow> (1, 0, 0, 0, p) | None \<Rightarrow> (2, 0, 0, 0, [])))"

record retained_diagnostic =
  rt_diagnostic :: diagnostic
  rt_numeric :: "u64 list"

definition retained_new :: "diagnostic \<Rightarrow> retained_diagnostic" where
  "retained_new d = \<lparr>rt_diagnostic = d, rt_numeric = diagnostic_numbers d\<rparr>"

type_synonym retained_key =
  "bool \<times> (u8 \<times> u32 \<times> u32 \<times> u32 \<times> string) \<times> string \<times> u64 list \<times> string \<times> string"

definition compare_retained :: "retained_diagnostic \<Rightarrow> retained_key" where
  "compare_retained r =
     (let d = rt_diagnostic r
      in (dg_code d = ''ZRYNA-L3201'', diagnostic_location d, dg_code d, rt_numeric r,
          dg_message d, dg_guidance d))"

record errors =
  er_diagnostics :: "retained_diagnostic list"
  er_fatal :: bool
  er_truncated :: bool

definition errors_default :: errors where
  "errors_default = \<lparr>er_diagnostics = [], er_fatal = False, er_truncated = False\<rparr>"

text \<open>\<open>Iterator::max_by\<close> keeps the last of several greatest elements.\<close>

fun greatest_index :: "retained_diagnostic list \<Rightarrow> usize \<Rightarrow> usize \<Rightarrow> retained_diagnostic \<Rightarrow> usize" where
  "greatest_index [] i best b = best"
| "greatest_index (r # rs) i best b =
     (if compare_retained r < compare_retained b then greatest_index rs (Suc i) best b
      else greatest_index rs (Suc i) i r)"

definition push :: "diagnostic \<Rightarrow> errors \<Rightarrow> errors" where
  "push d er =
     (if er_fatal er then er
      else
        (let r = retained_new d; ds = er_diagnostics er
         in if length ds < MAX_DIAGNOSTICS - 1 then er\<lparr>er_diagnostics := ds @ [r]\<rparr>
            else
              (let greatest = greatest_index (tl ds) 1 0 (hd ds)
               in er\<lparr>er_truncated := True,
                     er_diagnostics :=
                       (if compare_retained r < compare_retained (ds ! greatest)
                        then ds[greatest := r] else ds)\<rparr>)))"

definition limit :: "string \<Rightarrow> usize \<Rightarrow> errors \<Rightarrow> errors" where
  "limit label n er =
     (push (global_error ''ZRYNA-L3201'' (label @ '' exceeds the limit of '' @ show_nat n)
        ''reduce the graph before layout verification'') er)\<lparr>er_fatal := True\<rparr>"

definition limit_at :: "span option \<Rightarrow> string \<Rightarrow> usize \<Rightarrow> errors \<Rightarrow> errors" where
  "limit_at sp label n er =
     (push (error_at sp ''ZRYNA-L3201'' (label @ '' exceeds the limit of '' @ show_nat n)
        ''reduce the declaration before layout verification'') er)\<lparr>er_fatal := True\<rparr>"

definition overflow :: "span option \<Rightarrow> string \<Rightarrow> diagnostic" where
  "overflow sp label =
     error_at sp ''ZRYNA-L3005'' (''checked '' @ label @ '' is not representable by aggregate layout v1'')
       ''reduce the stored type before verification''"

definition is_empty :: "errors \<Rightarrow> bool" where
  "is_empty er = (er_diagnostics er = [])"

definition finish :: "errors \<Rightarrow> diagnostic list" where
  "finish er =
     (let ds = er_diagnostics er;
          ds = (if ds = [] then [retained_new (global_error ''ZRYNA-L3003''
                  ''layout verification failed without a retained detail''
                  ''report the smallest reproducible graph'')] else ds);
          ds = (if er_truncated er then ds @ [retained_new (global_error ''ZRYNA-L3201''
                  ''layout diagnostic budget exhausted''
                  ''fix the earliest reported layout errors and verify again'')] else ds)
      in map rt_diagnostic (sort_key compare_retained ds))"

section \<open>Structural checks\<close>

definition valid_ref :: "type_graph \<Rightarrow> node_id \<Rightarrow> bool" where
  "valid_ref g i = (case get_at (types g) (unat i) of Some node \<Rightarrow> tn_id node = i | None \<Rightarrow> False)"

definition all_children :: "type_kind \<Rightarrow> node_id list" where
  "all_children k =
     (case k of
        TStruct _ _ fs \<Rightarrow> map fl_ty fs
      | TEnum _ _ variants \<Rightarrow> List.map_filter vr_payload variants
      | TFixedArray element _ \<Rightarrow> [element]
      | TVec element \<Rightarrow> [element]
      | TShared payload \<Rightarrow> [payload]
      | TWeak payload \<Rightarrow> [payload]
      | TBorrow referent \<Rightarrow> [referent]
      | _ \<Rightarrow> [])"

definition member_and_edge_count :: "type_kind \<Rightarrow> usize \<times> usize" where
  "member_and_edge_count k =
     (case k of
        TStruct _ _ fs \<Rightarrow> (length fs, length fs)
      | TEnum _ _ variants \<Rightarrow>
          (length variants, length (filter (\<lambda>v. vr_payload v \<noteq> None) variants))
      | TBool \<Rightarrow> (0, 0)
      | TI32 \<Rightarrow> (0, 0)
      | TString \<Rightarrow> (0, 0)
      | _ \<Rightarrow> (0, 1))"

definition checked_budget_total :: "usize \<Rightarrow> usize \<Rightarrow> usize \<Rightarrow> usize option" where
  "checked_budget_total current extra bound =
     Option.bind (usize_checked_add current extra) (\<lambda>v. if v \<le> bound then Some v else None)"

definition verify_nominal_ref ::
    "type_graph \<Rightarrow> span option \<Rightarrow> module_id \<Rightarrow> u32 \<Rightarrow> errors \<Rightarrow> errors" where
  "verify_nominal_ref g sp m declaration er =
     (if (case get_at (modules g) (unat m) of
            Some candidate \<Rightarrow> md_id candidate = m \<and> declaration < md_data_declarations candidate
          | None \<Rightarrow> False)
      then er
      else push (error_at sp ''ZRYNA-L3001'' ''nominal type has an unknown module or declaration identity''
             ''bind nominal identities to the authenticated module inventory'') er)"

definition ordinal_of :: "usize \<Rightarrow> u32" where
  "ordinal_of i = (case u32_try_from i of Some w \<Rightarrow> w | None \<Rightarrow> - 1)"

fun verify_fields ::
    "type_graph \<Rightarrow> span option \<Rightarrow> usize \<Rightarrow> raw_field list \<Rightarrow> errors \<Rightarrow> errors" where
  "verify_fields g sp i [] er = er"
| "verify_fields g sp i (f # fs) er =
     verify_fields g sp (Suc i) fs
       (if fl_ordinal f \<noteq> ordinal_of i \<or> \<not> valid_ref g (fl_ty f)
        then push (error_at sp ''ZRYNA-L3003'' ''struct fields have a noncanonical ordinal or unknown type''
               ''use dense source ordinals and graph-local type references'') er
        else er)"

fun verify_variants ::
    "type_graph \<Rightarrow> span option \<Rightarrow> usize \<Rightarrow> raw_variant list \<Rightarrow> errors \<Rightarrow> errors" where
  "verify_variants g sp i [] er = er"
| "verify_variants g sp i (v # vs) er =
     verify_variants g sp (Suc i) vs
       (if vr_ordinal v \<noteq> ordinal_of i
           \<or> (case vr_payload v of Some p \<Rightarrow> \<not> valid_ref g p | None \<Rightarrow> False)
        then push (error_at sp ''ZRYNA-L3003''
               ''enum variants have a noncanonical ordinal or unknown payload type''
               ''use dense source ordinals and graph-local payload references'') er
        else er)"

definition verify_container :: "type_graph \<Rightarrow> span option \<Rightarrow> node_id \<Rightarrow> errors \<Rightarrow> errors" where
  "verify_container g sp element er =
     (if valid_ref g element then er
      else push (error_at sp ''ZRYNA-L3003'' ''container references an unknown type''
             ''use a graph-local type reference'') er)"

definition verify_primitive :: "span option \<Rightarrow> errors \<Rightarrow> errors" where
  "verify_primitive sp er =
     (if sp = None then er
      else push (error_at sp ''ZRYNA-L3003'' ''primitive nodes cannot claim a declaration span''
             ''remove the non-nominal span claim'') er)"

definition verify_node_shape :: "type_graph \<Rightarrow> type_node \<Rightarrow> errors \<Rightarrow> errors" where
  "verify_node_shape g node er =
     (let sp = tn_span node
      in case tn_kind node of
           TStruct m declaration fs \<Rightarrow>
             (let er = verify_nominal_ref g sp m declaration er;
                  er = (if fs = [] then push (error_at sp ''ZRYNA-L3003''
                          ''a stored struct must contain at least one field''
                          ''add a field or remove the declaration'') er else er)
              in verify_fields g sp 0 fs er)
         | TEnum m declaration variants \<Rightarrow>
             (let er = verify_nominal_ref g sp m declaration er;
                  er = (if variants = [] then push (error_at sp ''ZRYNA-L3003''
                          ''a stored enum must contain at least one variant''
                          ''add a variant or remove the declaration'') er else er)
              in verify_variants g sp 0 variants er)
         | TFixedArray element len \<Rightarrow>
             (if \<not> valid_ref g element \<or> MAX_ARRAY_LENGTH < len
              then push (error_at sp ''ZRYNA-L3003''
                     ''fixed array has an unknown element type or excessive length''
                     (''use a known element and a length no greater than '' @
                      show_nat (unat MAX_ARRAY_LENGTH))) er
              else er)
         | TVec element \<Rightarrow> verify_container g sp element er
         | TShared payload \<Rightarrow> verify_container g sp payload er
         | TWeak payload \<Rightarrow> verify_container g sp payload er
         | TBorrow referent \<Rightarrow> verify_container g sp referent er
         | TBool \<Rightarrow> verify_primitive sp er
         | TI32 \<Rightarrow> verify_primitive sp er
         | TString \<Rightarrow> verify_primitive sp er)"

definition nominal_identity :: "type_kind \<Rightarrow> (module_id \<times> u32) option" where
  "nominal_identity k =
     (case k of TStruct m d _ \<Rightarrow> Some (m, d) | TEnum m d _ \<Rightarrow> Some (m, d) | _ \<Rightarrow> None)"

definition verify_node_source ::
    "type_graph \<Rightarrow> type_node \<Rightarrow> source_map \<Rightarrow> errors \<Rightarrow> errors option" where
  "verify_node_source g node sources er =
     (case nominal_identity (tn_kind node) of
        None \<Rightarrow> Some er
      | Some (m, _) \<Rightarrow>
          (case tn_span node of
             None \<Rightarrow> Some (push (global_error ''ZRYNA-L3001''
                     ''nominal type is missing its authoritative declaration span''
                     ''retain the exact declaration span from the final SourceMap'') er)
           | Some sp \<Rightarrow>
               (let expected_file = map_option md_source_file (get_at (modules g) (unat m))
                in case sm_resolve sources sp of
                     None \<Rightarrow> None
                   | Some (Inl _) \<Rightarrow> Some (push (global_error ''ZRYNA-L3001''
                       ''nominal declaration span belongs to a foreign source authority''
                       ''use a declaration span issued by the exact final SourceMap'') er)
                   | Some (Inr _) \<Rightarrow>
                       if Some (span_file sp) \<noteq> expected_file
                       then Some (push (error_at (Some sp) ''ZRYNA-L3001''
                              ''nominal declaration span belongs to another module''
                              ''use a declaration span from the containing module'') er)
                       else Some er)))"

text \<open>The set \<open>seen\<close> of nominal identities is kept as a duplicate-free list.\<close>

fun nominal_scan ::
    "type_node list \<Rightarrow> (module_id \<times> u32) list \<Rightarrow> errors \<Rightarrow> (module_id \<times> u32) list \<times> errors" where
  "nominal_scan [] seen er = (seen, er)"
| "nominal_scan (node # ns) seen er =
     (case nominal_identity (tn_kind node) of
        None \<Rightarrow> nominal_scan ns seen er
      | Some identity \<Rightarrow>
          if identity \<in> set seen
          then nominal_scan ns seen (push (error_at (tn_span node) ''ZRYNA-L3001''
                 ''duplicate nominal type identity''
                 ''provide each source declaration exactly once'') er)
          else nominal_scan ns (identity # seen) er)"

fun sum_declarations :: "raw_module list \<Rightarrow> usize \<Rightarrow> usize option" where
  "sum_declarations [] acc = Some acc"
| "sum_declarations (m # ms) acc =
     Option.bind (usize_checked_add acc (unat (md_data_declarations m))) (sum_declarations ms)"

definition verify_nominal_inventory :: "type_graph \<Rightarrow> errors \<Rightarrow> errors" where
  "verify_nominal_inventory g er =
     (let (seen, er) = nominal_scan (types g) [] er
      in if sum_declarations (modules g) 0 \<noteq> Some (length seen)
         then push (global_error ''ZRYNA-L3001'' ''nominal declaration inventory has a missing identity''
                ''provide every source-ordered data declaration exactly once'') er
         else er)"

definition is_root_kind :: "type_kind \<Rightarrow> bool" where
  "is_root_kind k =
     (case k of TBool \<Rightarrow> True | TI32 \<Rightarrow> True | TString \<Rightarrow> True | TStruct _ _ _ \<Rightarrow> True
      | TEnum _ _ _ \<Rightarrow> True | _ \<Rightarrow> False)"

lemma count_false_update:
  "i < length (bs :: bool list) \<Longrightarrow> \<not> bs ! i \<Longrightarrow>
     Suc (count_list (bs[i := True]) False) = count_list bs False"
proof (induction bs arbitrary: i)
  case (Cons b bs)
  then show ?case by (cases i) auto
qed simp

function reach_loop :: "type_node list \<Rightarrow> bool list \<Rightarrow> node_id list \<Rightarrow> bool list" where
  "reach_loop ts reachable [] = reachable"
| "reach_loop ts reachable (i # pending) =
     (if (case get_at reachable (unat i) of Some b \<Rightarrow> b | None \<Rightarrow> True)
      then reach_loop ts reachable pending
      else reach_loop ts (reachable[unat i := True])
             (rev (all_children (tn_kind (ts ! unat i))) @ pending))"
  by pat_completeness auto

termination
proof (relation "measures [\<lambda>(ts, r, p). count_list r False, \<lambda>(ts, r, p). length p]", goal_cases)
  case (3 ts reachable i pending)
  then have "unat i < length reachable" "\<not> reachable ! unat i"
    by (auto simp: get_at_def split: if_splits)
  from count_false_update [OF this] show ?case by simp
qed auto

definition verify_reachability :: "type_graph \<Rightarrow> errors \<Rightarrow> errors" where
  "verify_reachability g er =
     (if list_ex (\<lambda>r. \<not> valid_ref g r) (program_roots g)
      then push (global_error ''ZRYNA-L3003'' ''program roots contain an unknown type reference''
             ''provide only graph-local stored program types'') er
      else
        (let start = map tn_id (filter (\<lambda>n. is_root_kind (tn_kind n)) (types g)) @ program_roots g;
             reachable = reach_loop (types g) (replicate (length (types g)) False) (rev start)
         in case List.find (\<lambda>i. \<not> reachable ! i) [0..<length reachable] of
              None \<Rightarrow> er
            | Some i \<Rightarrow> push (error_at (tn_span (types g ! i)) ''ZRYNA-L3003''
                (''type node #'' @ show_nat i @ '' is not reachable from a declaration or program root'')
                ''remove the orphan claim or retain an authenticated stored program root'') er))"

text \<open>In the loops of \<open>preflight\<close>, \<open>Inl\<close> is an early \<open>return\<close>.\<close>

fun preflight_modules ::
    "source_map \<Rightarrow> usize \<Rightarrow> raw_module list \<Rightarrow> errors \<Rightarrow> errors + errors" where
  "preflight_modules sources i [] er = Inr er"
| "preflight_modules sources i (m # ms) er =
     (case u32_try_from i of
        None \<Rightarrow> Inl (limit ''module identity'' U32_MAX er)
      | Some expected \<Rightarrow>
          preflight_modules sources (Suc i) ms
            (if md_id m \<noteq> expected \<or> verify_file_id sources expected \<noteq> Inr (md_source_file m)
             then push (global_error ''ZRYNA-L3001''
                    (''module #'' @ show_nat i @ '' has a noncanonical or foreign identity'')
                    ''bind dense modules to FileIds from the exact final SourceMap'') er
             else er))"

fun preflight_nodes ::
    "type_graph \<Rightarrow> source_map \<Rightarrow> usize \<Rightarrow> type_node list \<Rightarrow> usize \<Rightarrow> usize \<Rightarrow> errors
     \<Rightarrow> (errors + errors) option" where
  "preflight_nodes g sources i [] members edges er = Some (Inr er)"
| "preflight_nodes g sources i (node # ns) members edges er =
     (case u32_try_from i of
        None \<Rightarrow> Some (Inl (limit ''type identity'' U32_MAX er))
      | Some expected \<Rightarrow>
          (let er = (if tn_id node \<noteq> expected
                     then push (error_at (tn_span node) ''ZRYNA-L3001''
                            (''type node #'' @ show_nat i @ '' has a duplicate or missing dense identity'')
                            ''provide graph-local node IDs exactly once in dense order'') er
                     else er);
               (local_members, local_edges) = member_and_edge_count (tn_kind node)
           in if MAX_MEMBERS_PER_DECLARATION < local_members
              then Some (Inl (limit_at (tn_span node) ''declaration member count''
                          MAX_MEMBERS_PER_DECLARATION er))
              else
                (case checked_budget_total members local_members MAX_MEMBERS of
                   None \<Rightarrow> Some (Inl (limit ''graph member count'' MAX_MEMBERS er))
                 | Some members' \<Rightarrow>
                     (case checked_budget_total edges local_edges MAX_DEPENDENCY_EDGES of
                        None \<Rightarrow> Some (Inl (limit ''layout dependency edge count'' MAX_DEPENDENCY_EDGES er))
                      | Some edges' \<Rightarrow>
                          (case verify_node_source g node sources (verify_node_shape g node er) of
                             None \<Rightarrow> None
                           | Some er' \<Rightarrow>
                               if er_fatal er' then Some (Inl er')
                               else preflight_nodes g sources (Suc i) ns members' edges' er')))))"

definition primitive_counts :: "type_graph \<Rightarrow> usize list" where
  "primitive_counts g =
     map (\<lambda>k. length (filter (\<lambda>n. tn_kind n = k) (types g))) [TBool, TI32, TString]"

definition preflight :: "type_graph \<Rightarrow> source_map \<Rightarrow> errors \<Rightarrow> errors option" where
  "preflight g sources er =
     (if MAX_TYPE_NODES < length (types g)
      then Some (limit ''type node count'' MAX_TYPE_NODES er)
      else
        (let er = (if length (modules g) \<noteq> sm_len sources
                   then push (global_error ''ZRYNA-L3001''
                          ''module inventory does not match the final source map''
                          ''provide every final module exactly once in canonical source order'') er
                   else er)
         in case preflight_modules sources 0 (modules g) er of
              Inl er \<Rightarrow> Some er
            | Inr er \<Rightarrow>
                (case preflight_nodes g sources 0 (types g) 0 0 er of
                   None \<Rightarrow> None
                 | Some (Inl er) \<Rightarrow> Some er
                 | Some (Inr er) \<Rightarrow>
                     (let er = (if primitive_counts g \<noteq> [1, 1, 1]
                                then push (global_error ''ZRYNA-L3001''
                                       ''the type universe must contain exactly one bool, i32, and String node''
                                       ''provide the complete canonical primitive universe exactly once'') er
                                else er)
                      in Some (verify_reachability g (verify_nominal_inventory g er))))))"

section \<open>Little-endian encoding\<close>

fun le_bytes :: "nat \<Rightarrow> nat \<Rightarrow> bytes" where
  "le_bytes 0 n = []"
| "le_bytes (Suc k) n = of_nat (n mod 256) # le_bytes k (n div 256)"

fun le_value :: "bytes \<Rightarrow> nat" where
  "le_value [] = 0"
| "le_value (b # bs) = unat b + 256 * le_value bs"

definition u32_le :: "u32 \<Rightarrow> bytes" where "u32_le w = le_bytes 4 (unat w)"
definition u64_le :: "u64 \<Rightarrow> bytes" where "u64_le w = le_bytes 8 (unat w)"

section \<open>Canonical keys\<close>

record canonical_key =
  key_prefix :: bytes
  key_prefix_len :: u8
  key_child :: "usize option"
  key_encoded_len :: usize

definition key_new :: "bytes \<Rightarrow> usize option \<Rightarrow> usize \<Rightarrow> canonical_key option" where
  "key_new prefix child child_len =
     (if 9 < length prefix then None
      else do {
        extra \<leftarrow> (if child = None then Some 0 else usize_checked_add 4 child_len);
        encoded_len \<leftarrow> usize_checked_add (length prefix) extra;
        Some \<lparr>key_prefix = prefix @ replicate (9 - length prefix) 0,
              key_prefix_len = of_nat (length prefix),
              key_child = child, key_encoded_len = encoded_len\<rparr>
      })"

text \<open>The bytes the iterator \<open>KeyBytes\<close> yields; \<open>None\<close> when it panics or does not end.\<close>

partial_function (option) key_bytes :: "canonical_key list \<Rightarrow> usize \<Rightarrow> bytes option" where
  "key_bytes keys i =
     Option.bind (get_at keys i) (\<lambda>key.
     let own = take (unat (key_prefix_len key)) (key_prefix key)
     in case key_child key of
          None \<Rightarrow> Some own
        | Some child \<Rightarrow>
            Option.bind (get_at keys child) (\<lambda>child_key.
            case u32_try_from (key_encoded_len child_key) of
              None \<Rightarrow> Some own
            | Some len \<Rightarrow>
                Option.bind (key_bytes keys child) (\<lambda>rest. Some (own @ u32_le len @ rest))))"

declare key_bytes.simps [code]

record key_state =
  ks_states :: "u8 list"
  ks_keys :: "canonical_key option list"
  ks_errors :: errors

definition key_done :: "usize \<Rightarrow> canonical_key option \<Rightarrow> key_state \<Rightarrow> key_state" where
  "key_done i key ks =
     ks\<lparr>ks_states := (ks_states ks)[i := 2], ks_keys := (ks_keys ks)[i := key]\<rparr>"

text \<open>What remains after the recursive call of \<open>child_key\<close>: the child's key extends the prefix.\<close>

definition container_done :: "usize \<Rightarrow> bytes \<Rightarrow> usize \<Rightarrow> key_state \<Rightarrow> key_state option" where
  "container_done i prefix child ks =
     Option.bind (get_at (ks_keys ks) child) (\<lambda>found.
     Some (key_done i
       (case found of
          None \<Rightarrow> None
        | Some key \<Rightarrow> key_new prefix (Some child) (key_encoded_len key)) ks))"

function build_key :: "type_graph \<Rightarrow> usize \<Rightarrow> usize \<Rightarrow> key_state \<Rightarrow> key_state option" where
  "build_key g i depth ks =
     (case get_at (ks_states ks) i of
        None \<Rightarrow> None
      | Some state \<Rightarrow>
          if state = 2 then Some ks
          else if MAX_TRAVERSAL_DEPTH < depth
          then Some (ks\<lparr>ks_errors := limit ''canonical type-key depth'' MAX_TRAVERSAL_DEPTH (ks_errors ks)\<rparr>)
          else
            (case get_at (types g) i of
               None \<Rightarrow> None
             | Some node \<Rightarrow>
                 if state = 1
                 then Some (ks\<lparr>ks_errors := push (error_at (tn_span node) ''ZRYNA-L3003''
                        ''structural container identity is recursive''
                        ''place recursion behind a nominal Vec, Shared, or Weak payload'') (ks_errors ks)\<rparr>)
                 else
                   (let ks = ks\<lparr>ks_states := (ks_states ks)[i := 1]\<rparr>
                    in case tn_kind node of
                         TBool \<Rightarrow> Some (key_done i (key_new [0x00] None 0) ks)
                       | TI32 \<Rightarrow> Some (key_done i (key_new [0x01] None 0) ks)
                       | TString \<Rightarrow> Some (key_done i (key_new [0x02] None 0) ks)
                       | TStruct m declaration _ \<Rightarrow>
                           Some (key_done i (key_new (0x10 # u32_le m @ u32_le declaration) None 0) ks)
                       | TEnum m declaration _ \<Rightarrow>
                           Some (key_done i (key_new (0x11 # u32_le m @ u32_le declaration) None 0) ks)
                       | TFixedArray element len \<Rightarrow>
                           (case u32_try_from (unat len) of
                              None \<Rightarrow> Some (ks\<lparr>ks_errors := push (error_at (tn_span node) ''ZRYNA-L3003''
                                  ''fixed-array length does not fit the canonical key''
                                  ''use an admitted fixed-array length'') (ks_errors ks),
                                  ks_states := (ks_states ks)[i := 2]\<rparr>)
                            | Some n \<Rightarrow> Option.bind (build_key g (unat element) (Suc depth) ks) (container_done i (0x20 # u32_le n) (unat element)))
                       | TVec element \<Rightarrow> Option.bind (build_key g (unat element) (Suc depth) ks) (container_done i [0x21] (unat element))
                       | TShared payload \<Rightarrow> Option.bind (build_key g (unat payload) (Suc depth) ks) (container_done i [0x22] (unat payload))
                       | TWeak payload \<Rightarrow> Option.bind (build_key g (unat payload) (Suc depth) ks) (container_done i [0x23] (unat payload))
                       | TBorrow _ \<Rightarrow>
                           Some (key_done i None (ks\<lparr>ks_errors := push (error_at (tn_span node)
                             ''ZRYNA-L3004'' ''borrow authorities have no stored layout''
                             ''remove the borrow from the stored type graph'') (ks_errors ks)\<rparr>)))))"
  by pat_completeness auto

termination
  by (relation "measure (\<lambda>(g, i, depth, ks). 258 - depth)") (auto simp: MAX_TRAVERSAL_DEPTH_def)

declare build_key.simps [simp del]

fun build_keys :: "type_graph \<Rightarrow> usize list \<Rightarrow> key_state \<Rightarrow> (key_state \<times> bool) option" where
  "build_keys g [] ks = Some (ks, False)"
| "build_keys g (i # is) ks =
     Option.bind (build_key g i 0 ks) (\<lambda>ks.
     if er_fatal (ks_errors ks) then Some (ks, True) else build_keys g is ks)"

definition canonical_keys :: "type_graph \<Rightarrow> errors \<Rightarrow> (canonical_key list option \<times> errors) option" where
  "canonical_keys g er =
     (let n = length (types g)
      in Option.bind (build_keys g [0..<n] \<lparr>ks_states = replicate n 0, ks_keys = replicate n None,
           ks_errors = er\<rparr>) (\<lambda>(ks, stopped).
         Some (if stopped then None else those (ks_keys ks), ks_errors ks)))"

end
