(* ===== verification/Layout.thy ===== *)
theory Layout
  imports Layout_Graph
begin

text \<open>
  Aggregate layout, second half, \<open>crates/zryna-layout/src/lib.rs\<close>: canonical type identities, the
  by-value cycle check, the layout computation, the sealed document and its audit, and \<open>verify\<close> with
  the snapshot it returns. SHA-256 is the parameter \<open>sha256\<close>.
\<close>

section \<open>Verified values\<close>

datatype storage_target = Linear32V1 | LinuxX8664V1

fun target_tag :: "storage_target \<Rightarrow> u32" where
  "target_tag Linear32V1 = 1"
| "target_tag LinuxX8664V1 = 2"

fun word_layout :: "storage_target \<Rightarrow> u64 \<times> u64" where
  "word_layout Linear32V1 = (4, 4)"
| "word_layout LinuxX8664V1 = (8, 8)"

record type_id =
  ti_universe :: bytes
  ti_index :: u32

datatype type_category =
  CBool | CI32 | CStruct | CEnum | CFixedArray | CString | CVec | CShared | CWeak

record verified_field =
  vf_ordinal :: u32
  vf_ty :: type_id
  vf_offset :: u64

record verified_variant =
  vv_ordinal :: u32
  vv_payload :: "type_id option"

datatype verified_kind =
    VBool
  | VI32
  | VString
  | VStruct u32 u32 "verified_field list"
  | VEnum u32 u32 "verified_variant list" u64 u64
  | VFixedArray type_id u64 u64
  | VVec type_id
  | VShared type_id
  | VWeak type_id

record layout_record =
  lr_id :: type_id
  lr_kind :: verified_kind
  lr_size :: u64
  lr_alignment :: u64
  lr_drop_kind :: u32
  lr_runtime_kind :: u32

definition category :: "layout_record \<Rightarrow> type_category" where
  "category r =
     (case lr_kind r of
        VBool \<Rightarrow> CBool | VI32 \<Rightarrow> CI32 | VString \<Rightarrow> CString | VStruct _ _ _ \<Rightarrow> CStruct
      | VEnum _ _ _ _ _ \<Rightarrow> CEnum | VFixedArray _ _ _ \<Rightarrow> CFixedArray | VVec _ \<Rightarrow> CVec
      | VShared _ \<Rightarrow> CShared | VWeak _ \<Rightarrow> CWeak)"

record verified_layouts =
  vl_source_map :: u64
  vl_universe :: bytes
  vl_target :: storage_target
  vl_records :: "layout_record list"
  vl_fingerprint :: bytes

definition type_by_id :: "verified_layouts \<Rightarrow> type_id \<Rightarrow> layout_record option" where
  "type_by_id v i =
     (if ti_universe i \<noteq> vl_universe v then None else get_at (vl_records v) (unat (ti_index i)))"

definition vt_fields :: "layout_record \<Rightarrow> verified_field list" where
  "vt_fields r = (case lr_kind r of VStruct _ _ fs \<Rightarrow> fs | _ \<Rightarrow> [])"

definition vt_variants :: "layout_record \<Rightarrow> verified_variant list" where
  "vt_variants r = (case lr_kind r of VEnum _ _ vs _ _ \<Rightarrow> vs | _ \<Rightarrow> [])"

definition vt_array_stride :: "layout_record \<Rightarrow> u64 option" where
  "vt_array_stride r = (case lr_kind r of VFixedArray _ _ stride \<Rightarrow> Some stride | _ \<Rightarrow> None)"

definition vt_array_length :: "layout_record \<Rightarrow> u64 option" where
  "vt_array_length r = (case lr_kind r of VFixedArray _ len _ \<Rightarrow> Some len | _ \<Rightarrow> None)"

definition vt_nominal_identity :: "layout_record \<Rightarrow> (u32 \<times> u32) option" where
  "vt_nominal_identity r =
     (case lr_kind r of VStruct m d _ \<Rightarrow> Some (m, d) | VEnum m d _ _ _ \<Rightarrow> Some (m, d) | _ \<Rightarrow> None)"

definition vt_enum_payload_layout :: "layout_record \<Rightarrow> (u64 \<times> u64) option" where
  "vt_enum_payload_layout r = (case lr_kind r of VEnum _ _ _ off sz \<Rightarrow> Some (off, sz) | _ \<Rightarrow> None)"

definition vt_referenced_type :: "layout_record \<Rightarrow> type_id option" where
  "vt_referenced_type r =
     (case lr_kind r of VFixedArray e _ _ \<Rightarrow> Some e | VVec e \<Rightarrow> Some e | VShared p \<Rightarrow> Some p
      | VWeak p \<Rightarrow> Some p | _ \<Rightarrow> None)"

section \<open>Checked storage arithmetic\<close>

definition is_power_of_two :: "u64 \<Rightarrow> bool" where
  "is_power_of_two w = (w \<noteq> 0 \<and> and w (w - 1) = 0)"

definition checked_align_up_with_limit :: "u64 \<Rightarrow> u64 \<Rightarrow> u64 \<Rightarrow> u64 option" where
  "checked_align_up_with_limit v a bound =
     (if a = 0 \<or> \<not> is_power_of_two a then None
      else
        (let remainder = v mod a
         in do {
              aligned \<leftarrow> (if remainder = 0 then Some v else checked_add v (a - remainder));
              if aligned \<le> bound then Some aligned else None
            }))"

definition checked_align_up :: "u64 \<Rightarrow> u64 \<Rightarrow> u64 option" where
  "checked_align_up v a = checked_align_up_with_limit v a (- 1)"

definition checked_storage_add :: "u64 \<Rightarrow> u64 \<Rightarrow> u64 \<Rightarrow> u64 option" where
  "checked_storage_add l r bound = Option.bind (checked_add l r) (\<lambda>v. if v \<le> bound then Some v else None)"

definition checked_storage_mul :: "u64 \<Rightarrow> u64 \<Rightarrow> u64 \<Rightarrow> u64 option" where
  "checked_storage_mul l r bound = Option.bind (checked_mul l r) (\<lambda>v. if v \<le> bound then Some v else None)"

section \<open>Canonical type identities\<close>

record canonical_map =
  raw_to_index :: "u32 list"
  type_to_raw :: "usize list"
  cm_universe :: bytes

definition NO_PAYLOAD_TYPE_ID :: u32 where "NO_PAYLOAD_TYPE_ID = - 1"

definition canonical_type_id :: "canonical_map \<Rightarrow> usize \<Rightarrow> type_id option" where
  "canonical_type_id c i =
     map_option (\<lambda>w. \<lparr>ti_universe = cm_universe c, ti_index = w\<rparr>) (get_at (raw_to_index c) i)"

text \<open>The bytes hashed for one type after its key. The outer option is a panic, the inner one the early
  \<open>return None\<close> of \<open>seal_universe_identity\<close>.\<close>

definition child_index_bytes :: "canonical_map \<Rightarrow> node_id \<Rightarrow> bytes option" where
  "child_index_bytes c i = map_option u32_le (get_at (raw_to_index c) (unat i))"

definition universe_record :: "canonical_map \<Rightarrow> type_kind \<Rightarrow> bytes option option" where
  "universe_record c k =
     (case k of
        TBool \<Rightarrow> Some (Some (u32_le 1))
      | TI32 \<Rightarrow> Some (Some (u32_le 2))
      | TString \<Rightarrow> Some (Some (u32_le 6))
      | TStruct m d fs \<Rightarrow>
          (case u32_try_from (length fs) of
             None \<Rightarrow> Some None
           | Some n \<Rightarrow>
               map_option (\<lambda>bs. Some (u32_le 3 @ u32_le m @ u32_le d @ u32_le n @ concat bs))
                 (those (map (\<lambda>f. map_option (\<lambda>b. u32_le (fl_ordinal f) @ b)
                    (child_index_bytes c (fl_ty f))) fs)))
      | TEnum m d vs \<Rightarrow>
          (case u32_try_from (length vs) of
             None \<Rightarrow> Some None
           | Some n \<Rightarrow>
               map_option (\<lambda>bs. Some (u32_le 4 @ u32_le m @ u32_le d @ u32_le n @ concat bs))
                 (those (map (\<lambda>v. map_option (\<lambda>b. u32_le (vr_ordinal v) @ b)
                    (case vr_payload v of
                       None \<Rightarrow> Some (u32_le NO_PAYLOAD_TYPE_ID)
                     | Some p \<Rightarrow> child_index_bytes c p)) vs)))
      | TFixedArray e len \<Rightarrow>
          map_option (\<lambda>b. Some (u32_le 5 @ b @ u64_le len)) (child_index_bytes c e)
      | TVec e \<Rightarrow> map_option (\<lambda>b. Some (u32_le 7 @ b)) (child_index_bytes c e)
      | TShared p \<Rightarrow> map_option (\<lambda>b. Some (u32_le 8 @ b)) (child_index_bytes c p)
      | TWeak p \<Rightarrow> map_option (\<lambda>b. Some (u32_le 9 @ b)) (child_index_bytes c p)
      | TBorrow _ \<Rightarrow> Some None)"

text \<open>\<open>Inl\<close> is \<open>None\<close> with the errors at that point; \<open>Inr\<close> the bytes to hash.\<close>

fun universe_bytes ::
    "type_graph \<Rightarrow> canonical_key list \<Rightarrow> canonical_map \<Rightarrow> errors \<Rightarrow> usize list \<Rightarrow> bytes
     \<Rightarrow> (errors + bytes) option" where
  "universe_bytes g keys c er [] acc = Some (Inr acc)"
| "universe_bytes g keys c er (i # is) acc = do {
     key \<leftarrow> get_at keys i;
     case u32_try_from (key_encoded_len key) of
       None \<Rightarrow> Some (Inl (limit ''canonical type-key byte length'' U32_MAX er))
     | Some n \<Rightarrow> do {
         kb \<leftarrow> key_bytes keys i;
         node \<leftarrow> get_at (types g) i;
         record_bytes \<leftarrow> universe_record c (tn_kind node);
         case record_bytes of
           None \<Rightarrow> Some (Inl er)
         | Some rb \<Rightarrow> universe_bytes g keys c er is (acc @ u32_le n @ kb @ rb)
       }
   }"

definition UNIVERSE_DOMAIN :: bytes where
  "UNIVERSE_DOMAIN = map (\<lambda>c. of_nat (byte_of c)) ''ZRYNA-TYPE-UNIVERSE-V1'' @ [0]"

definition seal_universe_identity ::
    "(bytes \<Rightarrow> bytes) \<Rightarrow> type_graph \<Rightarrow> canonical_key list \<Rightarrow> canonical_map \<Rightarrow> errors
     \<Rightarrow> (bytes option \<times> errors) option" where
  "seal_universe_identity sha256 g keys c er =
     (case u32_try_from (length (type_to_raw c)) of
        None \<Rightarrow> Some (None, er)
      | Some n \<Rightarrow>
          (case universe_bytes g keys c er (type_to_raw c) (UNIVERSE_DOMAIN @ u32_le n) of
             None \<Rightarrow> None
           | Some (Inl er') \<Rightarrow> Some (None, er')
           | Some (Inr bs) \<Rightarrow> Some (Some (sha256 bs), er)))"

fun invert_order :: "usize list \<Rightarrow> usize \<Rightarrow> u32 list \<Rightarrow> u32 list option" where
  "invert_order [] i acc = Some acc"
| "invert_order (raw # raws) i acc =
     Option.bind (u32_try_from i) (\<lambda>w. invert_order raws (Suc i) (acc[raw := w]))"

definition assign_type_ids ::
    "(bytes \<Rightarrow> bytes) \<Rightarrow> type_graph \<Rightarrow> canonical_key list \<Rightarrow> errors
     \<Rightarrow> (canonical_map option \<times> errors) option" where
  "assign_type_ids sha256 g keys er = do {
     kbs \<leftarrow> those (map (key_bytes keys) [0..<length keys]);
     let ordered = sort_key (\<lambda>i. kbs ! i) [0..<length keys];
     if list_ex (\<lambda>(a, b). kbs ! a = kbs ! b) (windows2 ordered)
     then Some (None, push (global_error ''ZRYNA-L3001'' ''duplicate canonical type key''
            ''provide each nominal or structural type exactly once'') er)
     else
       (case invert_order ordered 0 (replicate (length keys) 0) of
          None \<Rightarrow> Some (None, limit ''canonical TypeId'' U32_MAX er)
        | Some indices \<Rightarrow> do {
            let c = \<lparr>raw_to_index = indices, type_to_raw = ordered, cm_universe = replicate 32 0\<rparr>;
            (universe, er) \<leftarrow> seal_universe_identity sha256 g keys c er;
            Some (map_option (\<lambda>u. c\<lparr>cm_universe := u\<rparr>) universe, er)
          })
   }"

section \<open>By-value cycles\<close>

definition by_value_children :: "type_kind \<Rightarrow> node_id list" where
  "by_value_children k =
     (case k of
        TStruct _ _ fs \<Rightarrow> map fl_ty fs
      | TEnum _ _ vs \<Rightarrow> List.map_filter vr_payload vs
      | TFixedArray e _ \<Rightarrow> [e]
      | _ \<Rightarrow> [])"

definition canonical_adjacency :: "type_graph \<Rightarrow> canonical_map \<Rightarrow> usize list list option" where
  "canonical_adjacency g c =
     those (map (\<lambda>raw. do {
       node \<leftarrow> get_at (types g) raw;
       children \<leftarrow> those (map (\<lambda>ch. map_option unat (get_at (raw_to_index c) (unat ch)))
                       (by_value_children (tn_kind node)));
       Some (remdups_adj (sort children))
     }) (type_to_raw c))"

definition stack_work :: "usize list list \<Rightarrow> (usize \<times> usize) list \<Rightarrow> nat" where
  "stack_work adj stack = sum_list (map (\<lambda>(n, k). Suc (length (adj ! n) - k)) stack)"

function finish_loop ::
    "usize list list \<Rightarrow> bool list \<Rightarrow> usize list \<Rightarrow> (usize \<times> usize) list
     \<Rightarrow> (bool list \<times> usize list) option" where
  "finish_loop adj visited finish_rev [] = Some (visited, finish_rev)"
| "finish_loop adj visited finish_rev ((node, next_child) # stack) =
     (case get_at adj node of
        None \<Rightarrow> None
      | Some children \<Rightarrow>
          (case get_at children next_child of
             Some child \<Rightarrow>
               (case get_at visited child of
                  None \<Rightarrow> None
                | Some True \<Rightarrow> finish_loop adj visited finish_rev ((node, Suc next_child) # stack)
                | Some False \<Rightarrow>
                    finish_loop adj (visited[child := True]) finish_rev
                      ((child, 0) # (node, Suc next_child) # stack))
           | None \<Rightarrow> finish_loop adj visited (node # finish_rev) stack))"
  by pat_completeness auto

termination
proof (relation "measures [\<lambda>(adj, v, f, s). count_list v False, \<lambda>(adj, v, f, s). stack_work adj s]", goal_cases)
  case (4 adj visited finish_rev node next_child stack children child b)
  then show ?case
    using count_false_update [of child visited] by (auto simp: get_at_Some_iff)
qed (auto simp: get_at_Some_iff stack_work_def)

fun finish_roots ::
    "usize list list \<Rightarrow> usize list \<Rightarrow> bool list \<Rightarrow> usize list \<Rightarrow> usize list option" where
  "finish_roots adj [] visited finish_rev = Some finish_rev"
| "finish_roots adj (root # roots) visited finish_rev =
     (if visited ! root then finish_roots adj roots visited finish_rev
      else
        (case finish_loop adj (visited[root := True]) finish_rev [(root, 0)] of
           None \<Rightarrow> None
         | Some (visited', finish_rev') \<Rightarrow> finish_roots adj roots visited' finish_rev'))"

text \<open>The nodes in the order in which the depth-first search finishes them, last one first.\<close>

definition graph_finish_order_rev :: "usize list list \<Rightarrow> usize list option" where
  "graph_finish_order_rev adj =
     finish_roots adj [0..<length adj] (replicate (length adj) False) []"

definition reverse_edges :: "usize list list \<Rightarrow> usize list list option" where
  "reverse_edges adj =
     (if list_all (list_all (\<lambda>c. c < length adj)) adj
      then Some (map (\<lambda>n. sort (concat (map (\<lambda>s. map (\<lambda>_. s) (filter (\<lambda>c. c = n) (adj ! s)))
             [0..<length adj]))) [0..<length adj])
      else None)"

fun assign_parents ::
    "usize list \<Rightarrow> bool list \<Rightarrow> usize list \<Rightarrow> (bool list \<times> usize list) option" where
  "assign_parents [] assigned pending = Some (assigned, pending)"
| "assign_parents (p # ps) assigned pending =
     (case get_at assigned p of
        None \<Rightarrow> None
      | Some True \<Rightarrow> assign_parents ps assigned pending
      | Some False \<Rightarrow> assign_parents ps (assigned[p := True]) (p # pending))"

lemma assign_parents_work:
  "assign_parents ps assigned pending = Some (assigned', pending') \<Longrightarrow>
     count_list assigned' False + length pending' = count_list assigned False + length pending"
proof (induction ps assigned pending rule: assign_parents.induct)
  case (2 p ps assigned pending)
  then show ?case
    using count_false_update [of p assigned]
    by (auto simp: get_at_Some_iff split: option.splits bool.splits)
qed simp

function component_loop ::
    "usize list list \<Rightarrow> bool list \<Rightarrow> usize list \<Rightarrow> usize list \<Rightarrow> (bool list \<times> usize list) option" where
  "component_loop rev_adj assigned component [] = Some (assigned, component)"
| "component_loop rev_adj assigned component (node # pending) =
     (case get_at rev_adj node of
        None \<Rightarrow> None
      | Some parents \<Rightarrow>
          (case assign_parents (rev parents) assigned pending of
             None \<Rightarrow> None
           | Some (assigned', pending') \<Rightarrow>
               component_loop rev_adj assigned' (component @ [node]) pending'))"
  by pat_completeness auto

termination
  by (relation "measure (\<lambda>(r, a, c, p). count_list a False + length p)")
    (auto dest!: assign_parents_work)

fun cyclic_components ::
    "usize list list \<Rightarrow> usize list list \<Rightarrow> usize list \<Rightarrow> bool list \<Rightarrow> usize list list option" where
  "cyclic_components adj rev_adj [] assigned = Some []"
| "cyclic_components adj rev_adj (root # roots) assigned =
     (if assigned ! root then cyclic_components adj rev_adj roots assigned
      else
        (case component_loop rev_adj (assigned[root := True]) [] [root] of
           None \<Rightarrow> None
         | Some (assigned', component) \<Rightarrow>
             map_option (\<lambda>cs. if 1 < length component \<or> root \<in> set (adj ! root)
                              then sort component # cs else cs)
               (cyclic_components adj rev_adj roots assigned')))"

partial_function (option) trace_back ::
    "usize option list \<Rightarrow> usize \<Rightarrow> usize \<Rightarrow> usize list \<Rightarrow> usize list option" where
  "trace_back parent start cursor acc =
     (if cursor = start then Some acc
      else
        Option.bind (Option.bind (get_at parent cursor) (\<lambda>p. p)) (\<lambda>next.
        trace_back parent start next (cursor # acc)))"

declare trace_back.simps [code]

text \<open>The search from one first edge. \<open>Inr\<close> is a finished search without a cycle.\<close>

function cycle_loop ::
    "usize list list \<Rightarrow> usize list \<Rightarrow> usize \<Rightarrow> usize option list \<Rightarrow> bool list \<Rightarrow> (usize \<times> usize) list
     \<Rightarrow> (usize list + unit) option" where
  "cycle_loop adj members start parent visited [] = Some (Inr ())"
| "cycle_loop adj members start parent visited ((node, next_child) # stack) =
     (case get_at adj node of
        None \<Rightarrow> None
      | Some children \<Rightarrow>
          (case get_at children next_child of
             None \<Rightarrow> cycle_loop adj members start parent visited stack
           | Some child \<Rightarrow>
               if child \<notin> set members
               then cycle_loop adj members start parent visited ((node, Suc next_child) # stack)
               else if child = start
               then map_option (\<lambda>path. Inl (start # path)) (trace_back parent start node [])
               else
                 (case get_at visited child of
                    None \<Rightarrow> None
                  | Some True \<Rightarrow>
                      cycle_loop adj members start parent visited ((node, Suc next_child) # stack)
                  | Some False \<Rightarrow>
                      cycle_loop adj members start (parent[child := Some node]) (visited[child := True])
                        ((child, 0) # (node, Suc next_child) # stack))))"
  by pat_completeness auto

termination
proof (relation "measures [\<lambda>(adj, m, st, p, v, s). count_list v False, \<lambda>(adj, m, st, p, v, s). stack_work adj s]", goal_cases)
  case (5 adj members start parent visited node next_child stack children child b)
  then show ?case
    using count_false_update [of child visited] by (auto simp: get_at_Some_iff)
qed (auto simp: get_at_Some_iff stack_work_def)

fun cycle_firsts ::
    "usize list list \<Rightarrow> usize list \<Rightarrow> usize \<Rightarrow> usize list \<Rightarrow> usize list option" where
  "cycle_firsts adj members start [] = Some [start]"
| "cycle_firsts adj members start (first # firsts) =
     (case cycle_loop adj members start ((replicate (length adj) None)[first := Some start])
             ((replicate (length adj) False)[start := True, first := True]) [(first, 0)] of
        None \<Rightarrow> None
      | Some (Inl cycle) \<Rightarrow> Some cycle
      | Some (Inr _) \<Rightarrow> cycle_firsts adj members start firsts)"

definition deterministic_component_cycle :: "usize list list \<Rightarrow> usize list \<Rightarrow> usize list option" where
  "deterministic_component_cycle adj component =
     (let start = hd component
      in if start \<in> set (adj ! start) then Some [start]
         else cycle_firsts adj component start (filter (\<lambda>c. c \<in> set component) (adj ! start)))"

fun show_list :: "usize list \<Rightarrow> string" where
  "show_list [] = []"
| "show_list [n] = show_nat n"
| "show_list (n # ns) = show_nat n @ '', '' @ show_list ns"

text \<open>Longest by-value chains, along the finish order.\<close>

fun depth_loop :: "usize list list \<Rightarrow> usize list \<Rightarrow> usize list \<Rightarrow> errors \<Rightarrow> errors" where
  "depth_loop adj [] depth er = er"
| "depth_loop adj (node # nodes) depth er =
     (let d = Suc (foldr max (map (\<lambda>ch. depth ! ch) (adj ! node)) 0);
          depth = depth[node := d]
      in if MAX_TRAVERSAL_DEPTH < d then limit ''by-value traversal depth'' MAX_TRAVERSAL_DEPTH er
         else depth_loop adj nodes depth er)"

definition reject_by_value_cycles :: "type_graph \<Rightarrow> canonical_map \<Rightarrow> errors \<Rightarrow> errors option" where
  "reject_by_value_cycles g c er = do {
     adj \<leftarrow> canonical_adjacency g c;
     finish_rev \<leftarrow> graph_finish_order_rev adj;
     rev_adj \<leftarrow> reverse_edges adj;
     components \<leftarrow> cyclic_components adj rev_adj finish_rev (replicate (length adj) False);
     case sort components of
       component # _ \<Rightarrow> do {
         cycle \<leftarrow> deterministic_component_cycle adj component;
         Some (push (global_error ''ZRYNA-L3002''
           (''by-value recursive layout through canonical TypeIds ['' @ show_list cycle @ '']'')
           ''place recursive ownership behind Vec, Shared, or Weak'') er)
       }
     | [] \<Rightarrow> Some (depth_loop adj (rev finish_rev) (replicate (length adj) 1) er)
   }"

section \<open>Layout computation\<close>

definition resolved_record ::
    "node_id \<Rightarrow> canonical_map \<Rightarrow> layout_record option list \<Rightarrow> layout_record option option" where
  "resolved_record i c records =
     Option.bind (get_at (raw_to_index c) (unat i)) (\<lambda>t.
     Some (Option.bind (get_at records (unat t)) (\<lambda>r. r)))"

text \<open>In the results below the outer option is a panic and \<open>Inl\<close> the diagnostic of an early return.\<close>

fun layout_fields ::
    "span option \<Rightarrow> canonical_map \<Rightarrow> layout_record option list \<Rightarrow> raw_field list \<Rightarrow> u64 \<Rightarrow> u64 \<Rightarrow> bool
     \<Rightarrow> (diagnostic + u64 \<times> u64 \<times> bool \<times> verified_field list) option" where
  "layout_fields sp c records [] cursor alignment needs_drop =
     Some (Inr (cursor, alignment, needs_drop, []))"
| "layout_fields sp c records (f # fs) cursor alignment needs_drop =
     (case resolved_record (fl_ty f) c records of
        None \<Rightarrow> None
      | Some None \<Rightarrow> Some (Inl (error_at sp ''ZRYNA-L3003'' ''struct field layout was not resolved''
            ''provide an acyclic complete type graph''))
      | Some (Some child) \<Rightarrow>
          (case checked_align_up cursor (lr_alignment child) of
             None \<Rightarrow> Some (Inl (overflow sp ''struct field offset''))
           | Some offset \<Rightarrow>
               (case checked_storage_add offset (lr_size child) MAX_OBJECT_SIZE of
                  None \<Rightarrow> Some (Inl (overflow sp ''struct size''))
                | Some next \<Rightarrow>
                    if MAX_OBJECT_SIZE < next
                    then Some (Inl (overflow sp ''struct object size''))
                    else
                      map_option (\<lambda>res. try_bind res (\<lambda>(cur, al, nd, vs).
                        Inr (cur, al, nd,
                          \<lparr>vf_ordinal = fl_ordinal f, vf_ty = lr_id child, vf_offset = offset\<rparr> # vs)))
                      (layout_fields sp c records fs next (max alignment (lr_alignment child))
                        (needs_drop \<or> lr_drop_kind child \<noteq> 0)))))"

definition compute_struct ::
    "span option \<Rightarrow> type_id \<Rightarrow> canonical_map \<Rightarrow> layout_record option list \<Rightarrow> module_id \<Rightarrow> u32
     \<Rightarrow> raw_field list \<Rightarrow> (diagnostic + layout_record) option" where
  "compute_struct sp i c records m declaration fs =
     map_option (\<lambda>res. try_bind res (\<lambda>(cursor, alignment, needs_drop, verified).
       case checked_align_up cursor alignment of
         None \<Rightarrow> Inl (overflow sp ''struct tail alignment'')
       | Some stored \<Rightarrow>
           Inr \<lparr>lr_id = i, lr_kind = VStruct m declaration verified, lr_size = stored,
                lr_alignment = alignment, lr_drop_kind = u32_from_bool needs_drop,
                lr_runtime_kind = u32_from_bool needs_drop\<rparr>))
     (layout_fields sp c records fs 0 1 False)"

fun layout_variants ::
    "canonical_map \<Rightarrow> layout_record option list \<Rightarrow> raw_variant list \<Rightarrow> u64 \<Rightarrow> u64 \<Rightarrow> bool
     \<Rightarrow> (u64 \<times> u64 \<times> bool \<times> verified_variant list) option" where
  "layout_variants c records [] alignment stored needs_drop = Some (alignment, stored, needs_drop, [])"
| "layout_variants c records (v # vs) alignment stored needs_drop =
     (case vr_payload v of
        None \<Rightarrow>
          map_option (\<lambda>(al, sz, nd, ws). (al, sz, nd, \<lparr>vv_ordinal = vr_ordinal v, vv_payload = None\<rparr> # ws))
            (layout_variants c records vs alignment stored needs_drop)
      | Some p \<Rightarrow>
          (case resolved_record p c records of
             Some (Some child) \<Rightarrow>
               map_option (\<lambda>(al, sz, nd, ws).
                 (al, sz, nd, \<lparr>vv_ordinal = vr_ordinal v, vv_payload = Some (lr_id child)\<rparr> # ws))
               (layout_variants c records vs (max alignment (lr_alignment child))
                  (max stored (lr_size child)) (needs_drop \<or> lr_drop_kind child \<noteq> 0))
           | _ \<Rightarrow> None))"

definition compute_enum ::
    "span option \<Rightarrow> type_id \<Rightarrow> canonical_map \<Rightarrow> layout_record option list \<Rightarrow> module_id \<Rightarrow> u32
     \<Rightarrow> raw_variant list \<Rightarrow> (diagnostic + layout_record) option" where
  "compute_enum sp i c records m declaration vs =
     map_option (\<lambda>(payload_alignment, payload_size, needs_drop, verified).
       let alignment = max 4 payload_alignment
       in case checked_align_up 4 payload_alignment of
            None \<Rightarrow> Inl (overflow sp ''enum payload offset'')
          | Some payload_offset \<Rightarrow>
              (case checked_storage_add payload_offset payload_size MAX_OBJECT_SIZE of
                 None \<Rightarrow> Inl (overflow sp ''enum payload size'')
               | Some e \<Rightarrow>
                   (case checked_align_up e alignment of
                      None \<Rightarrow> Inl (overflow sp ''enum tail alignment'')
                    | Some stored \<Rightarrow>
                        if MAX_OBJECT_SIZE < stored then Inl (overflow sp ''enum object size'')
                        else Inr \<lparr>lr_id = i,
                              lr_kind = VEnum m declaration verified payload_offset payload_size,
                              lr_size = stored, lr_alignment = alignment,
                              lr_drop_kind = u32_from_bool needs_drop,
                              lr_runtime_kind = u32_from_bool needs_drop\<rparr>)))
     (layout_variants c records vs 1 0 False)"

definition compute_array ::
    "span option \<Rightarrow> type_id \<Rightarrow> canonical_map \<Rightarrow> layout_record option list \<Rightarrow> node_id \<Rightarrow> u64
     \<Rightarrow> (diagnostic + layout_record) option" where
  "compute_array sp i c records element len =
     (case resolved_record element c records of
        Some (Some child) \<Rightarrow>
          Some (case checked_align_up (lr_size child) (lr_alignment child) of
             None \<Rightarrow> Inl (overflow sp ''array stride'')
           | Some stride \<Rightarrow>
               (case checked_storage_mul stride len MAX_OBJECT_SIZE of
                  None \<Rightarrow> Inl (overflow sp ''array size'')
                | Some stored \<Rightarrow>
                    if MAX_OBJECT_SIZE < stored then Inl (overflow sp ''array object size'')
                    else
                      (let needs_drop = lr_drop_kind child \<noteq> 0
                       in Inr \<lparr>lr_id = i, lr_kind = VFixedArray (lr_id child) len stride,
                            lr_size = stored, lr_alignment = lr_alignment child,
                            lr_drop_kind = u32_from_bool needs_drop,
                            lr_runtime_kind = u32_from_bool needs_drop\<rparr>)))
      | _ \<Rightarrow> None)"

definition compute_vec ::
    "span option \<Rightarrow> type_id \<Rightarrow> canonical_map \<Rightarrow> layout_record option list \<Rightarrow> storage_target \<Rightarrow> node_id
     \<Rightarrow> (diagnostic + layout_record) option" where
  "compute_vec sp i c records target element = do {
     child_id \<leftarrow> canonical_type_id c (unat element);
     slot \<leftarrow> get_at records (unat (ti_index child_id));
     let (word, alignment) = word_layout target;
     Some (if (case slot of Some child \<Rightarrow> lr_size child = 0 | None \<Rightarrow> False)
           then Inl (error_at sp ''ZRYNA-L3003'' ''Vec does not admit a zero-sized element type''
                  ''use a non-zero-sized element type'')
           else Inr \<lparr>lr_id = i, lr_kind = VVec child_id, lr_size = word * 3, lr_alignment = alignment,
                  lr_drop_kind = 3, lr_runtime_kind = 3\<rparr>)
   }"

definition compute_handle ::
    "type_id \<Rightarrow> canonical_map \<Rightarrow> storage_target \<Rightarrow> node_id \<Rightarrow> (type_id \<Rightarrow> verified_kind) \<Rightarrow> u32
     \<Rightarrow> (diagnostic + layout_record) option" where
  "compute_handle i c target payload mk kind = do {
     payload_id \<leftarrow> canonical_type_id c (unat payload);
     let (word, alignment) = word_layout target;
     Some (Inr \<lparr>lr_id = i, lr_kind = mk payload_id, lr_size = word, lr_alignment = alignment,
            lr_drop_kind = kind, lr_runtime_kind = kind\<rparr>)
   }"

text \<open>The \<open>match\<close> of \<open>compute_one\<close>; \<open>Inr None\<close> is the silent return for a borrow.\<close>

definition compute_kind ::
    "span option \<Rightarrow> type_id \<Rightarrow> canonical_map \<Rightarrow> layout_record option list \<Rightarrow> storage_target \<Rightarrow> type_kind
     \<Rightarrow> (diagnostic + layout_record option) option" where
  "compute_kind sp i c records target k =
     (let some = map_option (map_sum id Some)
      in case k of
           TBool \<Rightarrow> Some (Inr (Some \<lparr>lr_id = i, lr_kind = VBool, lr_size = 1, lr_alignment = 1,
               lr_drop_kind = 0, lr_runtime_kind = 0\<rparr>))
         | TI32 \<Rightarrow> Some (Inr (Some \<lparr>lr_id = i, lr_kind = VI32, lr_size = 4, lr_alignment = 4,
               lr_drop_kind = 0, lr_runtime_kind = 0\<rparr>))
         | TString \<Rightarrow>
             (let (word, alignment) = word_layout target
              in Some (Inr (Some \<lparr>lr_id = i, lr_kind = VString, lr_size = word * 3,
                   lr_alignment = alignment, lr_drop_kind = 2, lr_runtime_kind = 2\<rparr>)))
         | TStruct m d fs \<Rightarrow> some (compute_struct sp i c records m d fs)
         | TEnum m d vs \<Rightarrow> some (compute_enum sp i c records m d vs)
         | TFixedArray e len \<Rightarrow> some (compute_array sp i c records e len)
         | TVec e \<Rightarrow> some (compute_vec sp i c records target e)
         | TShared p \<Rightarrow> some (compute_handle i c target p VShared 4)
         | TWeak p \<Rightarrow> some (compute_handle i c target p VWeak 5)
         | TBorrow _ \<Rightarrow> Some (Inr None))"

record compute_state =
  cs_records :: "layout_record option list"
  cs_visiting :: "bool list"
  cs_errors :: errors

definition store_record :: "usize \<Rightarrow> span option \<Rightarrow> layout_record \<Rightarrow> compute_state \<Rightarrow> compute_state" where
  "store_record t sp r st =
     (if lr_alignment r = 0 \<or> \<not> is_power_of_two (lr_alignment r) \<or> 8 < lr_alignment r
         \<or> MAX_OBJECT_SIZE < lr_size r
      then st\<lparr>cs_errors := push (overflow sp ''stored layout limit'') (cs_errors st)\<rparr>
      else st\<lparr>cs_records := (cs_records st)[t := Some r]\<rparr>)"

definition settle ::
    "usize \<Rightarrow> span option \<Rightarrow> diagnostic + layout_record option \<Rightarrow> compute_state \<Rightarrow> compute_state" where
  "settle t sp res st =
     (case res of
        Inl d \<Rightarrow> st\<lparr>cs_errors := push d (cs_errors st)\<rparr>
      | Inr None \<Rightarrow> st
      | Inr (Some r) \<Rightarrow> store_record t sp r st)"

text \<open>The recursion follows by-value edges; the fuel bounds its depth, \<open>None\<close> is a panic or spent fuel.\<close>

fun compute_one ::
    "nat \<Rightarrow> type_graph \<Rightarrow> canonical_map \<Rightarrow> storage_target \<Rightarrow> usize \<Rightarrow> compute_state \<Rightarrow> compute_state option"
  and compute_children ::
    "nat \<Rightarrow> type_graph \<Rightarrow> canonical_map \<Rightarrow> storage_target \<Rightarrow> node_id list \<Rightarrow> compute_state
     \<Rightarrow> compute_state option" where
  "compute_one 0 g c target t st = None"
| "compute_one (Suc fuel) g c target t st = do {
     slot \<leftarrow> get_at (cs_records st) t;
     busy \<leftarrow> get_at (cs_visiting st) t;
     if slot \<noteq> None \<or> busy then Some st
     else do {
       raw \<leftarrow> get_at (type_to_raw c) t;
       node \<leftarrow> get_at (types g) raw;
       st \<leftarrow> compute_children fuel g c target (by_value_children (tn_kind node))
               (st\<lparr>cs_visiting := (cs_visiting st)[t := True]\<rparr>);
       let leave = (\<lambda>st. st\<lparr>cs_visiting := (cs_visiting st)[t := False]\<rparr>);
       if \<not> is_empty (cs_errors st) then Some (leave st)
       else do {
         w \<leftarrow> u32_try_from t;
         res \<leftarrow> compute_kind (tn_span node) \<lparr>ti_universe = cm_universe c, ti_index = w\<rparr> c
                  (cs_records st) target (tn_kind node);
         Some (leave (settle t (tn_span node) res st))
       }
     }
   }"
| "compute_children fuel g c target [] st = Some st"
| "compute_children fuel g c target (ch # chs) st = do {
     t \<leftarrow> get_at (raw_to_index c) (unat ch);
     st \<leftarrow> compute_one fuel g c target (unat t) st;
     compute_children fuel g c target chs st
   }"

fun compute_all ::
    "nat \<Rightarrow> type_graph \<Rightarrow> canonical_map \<Rightarrow> storage_target \<Rightarrow> usize list \<Rightarrow> compute_state
     \<Rightarrow> (compute_state \<times> bool) option" where
  "compute_all fuel g c target [] st = Some (st, False)"
| "compute_all fuel g c target (t # ts) st = do {
     st \<leftarrow> compute_one fuel g c target t st;
     if er_fatal (cs_errors st) then Some (st, True) else compute_all fuel g c target ts st
   }"

fun vec_elements_sized :: "layout_record list \<Rightarrow> layout_record list \<Rightarrow> (u32 + unit) option" where
  "vec_elements_sized all [] = Some (Inr ())"
| "vec_elements_sized all (r # rs) =
     (case lr_kind r of
        VVec element \<Rightarrow>
          (case get_at all (unat (ti_index element)) of
             None \<Rightarrow> None
           | Some e \<Rightarrow> if lr_size e = 0 then Some (Inl (ti_index element)) else vec_elements_sized all rs)
      | _ \<Rightarrow> vec_elements_sized all rs)"

definition compute_records ::
    "type_graph \<Rightarrow> canonical_map \<Rightarrow> storage_target \<Rightarrow> errors
     \<Rightarrow> (layout_record list option \<times> errors) option" where
  "compute_records g c target er =
     (let n = length (types g)
      in do {
        (st, stopped) \<leftarrow> compute_all (Suc n) g c target [0..<n]
          \<lparr>cs_records = replicate n None, cs_visiting = replicate n False, cs_errors = er\<rparr>;
        if stopped then Some (None, cs_errors st)
        else
          (case those (cs_records st) of
             None \<Rightarrow> Some (None, cs_errors st)
           | Some records \<Rightarrow> do {
               sized \<leftarrow> vec_elements_sized records records;
               Some (case sized of
                 Inl element \<Rightarrow>
                   (None, push (global_error ''ZRYNA-L3003''
                      (''Vec element TypeId '' @ show_u32 element @ '' has zero stored size'')
                      ''use a non-zero-sized Vec element type'') (cs_errors st))
               | Inr _ \<Rightarrow> (Some records, cs_errors st))
             })
      })"

section \<open>The sealed document\<close>

definition record_tag :: "verified_kind \<Rightarrow> u32" where
  "record_tag k =
     (case k of VBool \<Rightarrow> 1 | VI32 \<Rightarrow> 2 | VStruct _ _ _ \<Rightarrow> 3 | VEnum _ _ _ _ _ \<Rightarrow> 4
      | VFixedArray _ _ _ \<Rightarrow> 5 | VString \<Rightarrow> 6 | VVec _ \<Rightarrow> 7 | VShared _ \<Rightarrow> 8 | VWeak _ \<Rightarrow> 9)"

definition payload_word :: "type_id option \<Rightarrow> u32" where
  "payload_word p = (case p of None \<Rightarrow> NO_PAYLOAD_TYPE_ID | Some i \<Rightarrow> ti_index i)"

definition encode_kind :: "verified_kind \<Rightarrow> bytes option" where
  "encode_kind k =
     (case k of
        VBool \<Rightarrow> Some []
      | VI32 \<Rightarrow> Some []
      | VString \<Rightarrow> Some []
      | VStruct m d fs \<Rightarrow>
          map_option (\<lambda>n. u32_le m @ u32_le d @ u32_le n @
            concat (map (\<lambda>f. u32_le (vf_ordinal f) @ u32_le (ti_index (vf_ty f)) @ u64_le (vf_offset f)) fs))
          (u32_try_from (length fs))
      | VEnum m d vs off sz \<Rightarrow>
          map_option (\<lambda>n. u32_le m @ u32_le d @ u32_le n @ u64_le off @ u64_le sz @
            concat (map (\<lambda>v. u32_le (vv_ordinal v) @ u32_le (payload_word (vv_payload v))) vs))
          (u32_try_from (length vs))
      | VFixedArray e len stride \<Rightarrow> Some (u32_le (ti_index e) @ u64_le len @ u64_le stride)
      | VVec e \<Rightarrow> Some (u32_le (ti_index e))
      | VShared p \<Rightarrow> Some (u32_le (ti_index p))
      | VWeak p \<Rightarrow> Some (u32_le (ti_index p)))"

definition encode_record :: "layout_record \<Rightarrow> bytes option" where
  "encode_record r =
     map_option (\<lambda>rest.
       u32_le (record_tag (lr_kind r)) @ u32_le (ti_index (lr_id r)) @ u32_le (lr_drop_kind r) @
       u32_le (lr_runtime_kind r) @ u64_le (lr_size r) @ u64_le (lr_alignment r) @ rest)
     (encode_kind (lr_kind r))"

fun encode_records :: "layout_record list \<Rightarrow> bytes \<Rightarrow> errors \<Rightarrow> (errors + bytes) option" where
  "encode_records [] acc er = Some (Inr acc)"
| "encode_records (r # rs) acc er = do {
     payload \<leftarrow> encode_record r;
     (case u32_try_from (length payload) of
        None \<Rightarrow> Some (Inl (limit ''sealed record byte length'' U32_MAX er))
      | Some n \<Rightarrow> encode_records rs (acc @ u32_le n @ payload) er)
   }"

definition FINGERPRINT_DOMAIN :: bytes where
  "FINGERPRINT_DOMAIN = map (\<lambda>c. of_nat (byte_of c)) ''ZRYNA-AGGREGATE-LAYOUT-V1'' @ [0]"

definition encode_document ::
    "storage_target \<Rightarrow> layout_record list \<Rightarrow> errors \<Rightarrow> (errors + bytes) option" where
  "encode_document target records er =
     (case u32_try_from (length records) of
        None \<Rightarrow> Some (Inl (limit ''sealed record count'' U32_MAX er))
      | Some sealed \<Rightarrow>
          encode_records records (FINGERPRINT_DOMAIN @ u32_le (target_tag target) @ u32_le sealed) er)"

text \<open>A failed read leaves the cursor where it was.\<close>

definition slice_at :: "bytes \<Rightarrow> usize \<Rightarrow> usize \<Rightarrow> bytes option" where
  "slice_at bs cursor n =
     Option.bind (usize_checked_add cursor n) (\<lambda>e. if e \<le> length bs then Some (take n (drop cursor bs)) else None)"

definition take_exact :: "bytes \<Rightarrow> usize \<Rightarrow> bytes \<Rightarrow> bool \<times> usize" where
  "take_exact bs cursor expected =
     (if slice_at bs cursor (length expected) = Some expected then (True, cursor + length expected)
      else (False, cursor))"

definition read_u32 :: "bytes \<Rightarrow> usize \<Rightarrow> u32 option \<times> usize" where
  "read_u32 bs cursor =
     (case slice_at bs cursor 4 of Some lane \<Rightarrow> (Some (of_nat (le_value lane)), cursor + 4)
      | None \<Rightarrow> (None, cursor))"

definition read_u64 :: "bytes \<Rightarrow> usize \<Rightarrow> u64 option \<times> usize" where
  "read_u64 bs cursor =
     (case slice_at bs cursor 8 of Some lane \<Rightarrow> (Some (of_nat (le_value lane)), cursor + 8)
      | None \<Rightarrow> (None, cursor))"

text \<open>\<open>expect_u32\<close> is the comparison \<open>read_u32(..) == expected\<close> followed by the rest of the audit.\<close>

definition expect_u32 :: "bytes \<Rightarrow> u32 option \<Rightarrow> usize \<Rightarrow> usize option" where
  "expect_u32 bs expected cursor =
     (let (v, cursor) = read_u32 bs cursor in if v = expected then Some cursor else None)"

definition expect_u64 :: "bytes \<Rightarrow> u64 option \<Rightarrow> usize \<Rightarrow> usize option" where
  "expect_u64 bs expected cursor =
     (let (v, cursor) = read_u64 bs cursor in if v = expected then Some cursor else None)"

fun audit_fields :: "bytes \<Rightarrow> verified_field list \<Rightarrow> usize \<Rightarrow> usize option" where
  "audit_fields bs [] cursor = Some cursor"
| "audit_fields bs (f # fs) cursor = do {
     cursor \<leftarrow> expect_u32 bs (Some (vf_ordinal f)) cursor;
     cursor \<leftarrow> expect_u32 bs (Some (ti_index (vf_ty f))) cursor;
     cursor \<leftarrow> expect_u64 bs (Some (vf_offset f)) cursor;
     audit_fields bs fs cursor
   }"

fun audit_variants :: "bytes \<Rightarrow> verified_variant list \<Rightarrow> usize \<Rightarrow> usize option" where
  "audit_variants bs [] cursor = Some cursor"
| "audit_variants bs (v # vs) cursor = do {
     cursor \<leftarrow> expect_u32 bs (Some (vv_ordinal v)) cursor;
     cursor \<leftarrow> expect_u32 bs (Some (payload_word (vv_payload v))) cursor;
     audit_variants bs vs cursor
   }"

definition audit_record_payload :: "bytes \<Rightarrow> usize \<Rightarrow> usize \<Rightarrow> layout_record \<Rightarrow> usize option" where
  "audit_record_payload bs cursor e r =
     (case lr_kind r of
        VStruct m d fs \<Rightarrow> do {
          cursor \<leftarrow> expect_u32 bs (Some m) cursor;
          cursor \<leftarrow> expect_u32 bs (Some d) cursor;
          cursor \<leftarrow> expect_u32 bs (u32_try_from (length fs)) cursor;
          audit_fields bs fs cursor
        }
      | VEnum m d vs off sz \<Rightarrow> do {
          cursor \<leftarrow> expect_u32 bs (Some m) cursor;
          cursor \<leftarrow> expect_u32 bs (Some d) cursor;
          cursor \<leftarrow> expect_u32 bs (u32_try_from (length vs)) cursor;
          cursor \<leftarrow> expect_u64 bs (Some off) cursor;
          cursor \<leftarrow> expect_u64 bs (Some sz) cursor;
          audit_variants bs vs cursor
        }
      | VFixedArray element len stride \<Rightarrow> do {
          cursor \<leftarrow> expect_u32 bs (Some (ti_index element)) cursor;
          cursor \<leftarrow> expect_u64 bs (Some len) cursor;
          expect_u64 bs (Some stride) cursor
        }
      | VVec element \<Rightarrow> expect_u32 bs (Some (ti_index element)) cursor
      | VShared payload \<Rightarrow> expect_u32 bs (Some (ti_index payload)) cursor
      | VWeak payload \<Rightarrow> expect_u32 bs (Some (ti_index payload)) cursor
      | _ \<Rightarrow> if cursor = e then Some cursor else None)"

definition audit_record :: "bytes \<Rightarrow> u32 \<Rightarrow> layout_record \<Rightarrow> usize \<Rightarrow> usize option" where
  "audit_record bs expected_id r cursor =
     (let (payload_length, cursor) = read_u32 bs cursor
      in do {
        len \<leftarrow> payload_length;
        if len < 32 then None
        else do {
          e \<leftarrow> usize_checked_add cursor (unat len);
          if length bs < e then None
          else do {
            cursor \<leftarrow> expect_u32 bs (Some (record_tag (lr_kind r))) cursor;
            cursor \<leftarrow> expect_u32 bs (Some expected_id) cursor;
            cursor \<leftarrow> expect_u32 bs (Some (lr_drop_kind r)) cursor;
            cursor \<leftarrow> expect_u32 bs (Some (lr_runtime_kind r)) cursor;
            cursor \<leftarrow> expect_u64 bs (Some (lr_size r)) cursor;
            cursor \<leftarrow> expect_u64 bs (Some (lr_alignment r)) cursor;
            cursor \<leftarrow> audit_record_payload bs cursor e r;
            if cursor \<noteq> e then None else Some cursor
          }
        }
      })"

fun audit_records :: "bytes \<Rightarrow> u32 \<Rightarrow> layout_record list \<Rightarrow> usize \<Rightarrow> usize option" where
  "audit_records bs i [] cursor = Some cursor"
| "audit_records bs i (r # rs) cursor =
     Option.bind (audit_record bs i r cursor) (audit_records bs (i + 1) rs)"

definition audit_failure :: diagnostic where
  "audit_failure = global_error ''ZRYNA-L3006''
     ''sealed layout document, target, or fingerprint is inconsistent''
     ''discard the snapshot and rebuild it through the aggregate layout authority''"

definition audit_document ::
    "(bytes \<Rightarrow> bytes) \<Rightarrow> bytes \<Rightarrow> storage_target \<Rightarrow> layout_record list \<Rightarrow> bytes \<Rightarrow> diagnostic + unit" where
  "audit_document sha256 bs target records fingerprint =
     (let (matched, cursor) = take_exact bs 0 FINGERPRINT_DOMAIN
      in if \<not> matched then Inl audit_failure
         else
           (let final = do {
                  cursor \<leftarrow> expect_u32 bs (Some (target_tag target)) cursor;
                  let (record_count, cursor) = read_u32 bs cursor;
                  n \<leftarrow> record_count;
                  if unat n \<noteq> length records then None
                  else audit_records bs 0 records cursor
                }
            in if final \<noteq> Some (length bs) \<or> sha256 bs \<noteq> fingerprint
               then Inl audit_failure else Inr ()))"

definition seal_target ::
    "(bytes \<Rightarrow> bytes) \<Rightarrow> storage_target \<Rightarrow> layout_record list \<Rightarrow> errors
     \<Rightarrow> (errors + bytes \<times> bytes) option" where
  "seal_target sha256 target records er =
     map_option (\<lambda>res. try_bind res (\<lambda>bs.
       let fingerprint = sha256 bs
       in case audit_document sha256 bs target records fingerprint of
            Inl d \<Rightarrow> Inl (push d er)
          | Inr _ \<Rightarrow> Inr (bs, fingerprint)))
     (encode_document target records er)"

section \<open>Verification\<close>

text \<open>\<open>unless_failed\<close> is the pattern \<open>if !errors.is_empty() { return Err(errors.finish()) }\<close> with the
  following \<open>let Some(..) = .. else\<close>.\<close>

definition unless_failed :: "'a option \<times> errors \<Rightarrow> diagnostic list + 'a" where
  "unless_failed res =
     (case res of (value, er) \<Rightarrow>
        if \<not> is_empty er then Inl (finish er)
        else (case value of None \<Rightarrow> Inl (finish er) | Some v \<Rightarrow> Inr v))"

definition bind_result :: "('e + 'a) option \<Rightarrow> ('a \<Rightarrow> ('e + 'b) option) \<Rightarrow> ('e + 'b) option" where
  "bind_result r f =
     (case r of None \<Rightarrow> None | Some (Inl e) \<Rightarrow> Some (Inl e) | Some (Inr x) \<Rightarrow> f x)"

definition verify ::
    "(bytes \<Rightarrow> bytes) \<Rightarrow> type_graph \<Rightarrow> source_map \<Rightarrow> storage_target
     \<Rightarrow> (diagnostic list + verified_layouts) option" where
  "verify sha256 g sources target =
     (let er = errors_default
      in bind_result (map_option (\<lambda>er. unless_failed (Some (), er)) (preflight g sources er)) (\<lambda>_.
         bind_result (map_option unless_failed (canonical_keys g er)) (\<lambda>keys.
         bind_result (map_option unless_failed (assign_type_ids sha256 g keys er)) (\<lambda>canonical.
         bind_result (map_option (\<lambda>er. unless_failed (Some (), er))
           (reject_by_value_cycles g canonical er)) (\<lambda>_.
         bind_result (map_option unless_failed (compute_records g canonical Linear32V1 er)) (\<lambda>linear.
         bind_result (map_option unless_failed (compute_records g canonical LinuxX8664V1 er)) (\<lambda>linux.
         bind_result (map_option (map_sum finish id) (seal_target sha256 Linear32V1 linear er))
           (\<lambda>(linear_bytes, linear_fingerprint).
         bind_result (map_option (map_sum finish id) (seal_target sha256 LinuxX8664V1 linux er))
           (\<lambda>(linux_bytes, linux_fingerprint).
         let (records, fingerprint) =
               (case target of Linear32V1 \<Rightarrow> (linear, linear_fingerprint)
                | LinuxX8664V1 \<Rightarrow> (linux, linux_fingerprint))
         in Some (Inr \<lparr>vl_source_map = sm_id sources, vl_universe = cm_universe canonical,
                vl_target = target, vl_records = records, vl_fingerprint = fingerprint\<rparr>))))))))))"

end
