(* ===== verification/Layout_Encoding_Facts.thy ===== *)
theory Layout_Encoding_Facts
  imports Layout
begin

text \<open>
  The sealed encoding of layout records: little-endian integers read back, and the audit of a document
  accepts exactly the canonical encoding of the records, so that sealing cannot fail on records that
  the verifier computed.
\<close>

section \<open>Specification vocabulary\<close>

text \<open>\<open>holds_at bs c xs\<close>: the bytes \<open>xs\<close> stand in \<open>bs\<close> at position \<open>c\<close>.\<close>

definition holds_at :: "bytes \<Rightarrow> usize \<Rightarrow> bytes \<Rightarrow> bool" where
  "holds_at bs c xs = (take (length xs) (drop c bs) = xs)"

text \<open>What the audit needs of the records: each has an encoding that fits, and its identity is its
  position.\<close>

definition sealable :: "layout_record list \<Rightarrow> bool" where
  "sealable records =
     (length records < 2 ^ 32 \<and>
      (\<forall>i<length records. ti_index (lr_id (records ! i)) = of_nat i \<and>
         (\<exists>p. encode_record (records ! i) = Some p \<and> length p < 2 ^ 32)))"

definition record_frame :: "layout_record \<Rightarrow> bytes" where
  "record_frame r =
     (let p = (case encode_record r of Some p \<Rightarrow> p | None \<Rightarrow> []) in u32_le (of_nat (length p)) @ p)"

definition encodable :: "layout_record \<Rightarrow> bool" where
  "encodable r = (\<exists>p. encode_record r = Some p \<and> length p < 2 ^ 32)"

definition layout_document :: "storage_target \<Rightarrow> layout_record list \<Rightarrow> bytes" where
  "layout_document target records =
     FINGERPRINT_DOMAIN @ u32_le (target_tag target) @ u32_le (of_nat (length records)) @
     concat (map record_frame records)"

section \<open>Bytes\<close>

lemma length_le_bytes [simp]: "length (le_bytes k n) = k"
  by (induction k n rule: le_bytes.induct) auto

lemma length_u32_le [simp]: "length (u32_le w) = 4"
  by (simp add: u32_le_def)

lemma length_u64_le [simp]: "length (u64_le w) = 8"
  by (simp add: u64_le_def)

lemma le_value_le_bytes: "le_value (le_bytes k n) = n mod 256 ^ k"
proof (induction k n rule: le_bytes.induct)
  case (2 k n)
  then show ?case
    using mod_mult2_eq [of n 256 "256 ^ k"] by (simp add: unat_of_nat take_bit_nat_def)
qed simp

lemma le_bytes_le_value: "le_bytes (length bs) (le_value bs) = bs"
proof (induction bs)
  case (Cons b bs)
  have "unat b < 256" using unsigned_less [of b, where 'a = nat] by simp
  then have "(unat b + 256 * le_value bs) mod 256 = unat b"
    "(unat b + 256 * le_value bs) div 256 = le_value bs" by simp_all
  with Cons show ?case by simp
qed simp

lemma le_value_lt: "le_value bs < 256 ^ length bs"
proof (induction bs)
  case (Cons b bs)
  have "unat b < 256" using unsigned_less [of b, where 'a = nat] by simp
  then have "unat b + 256 * le_value bs < 256 * (le_value bs + 1)" by simp
  also have "\<dots> \<le> 256 * 256 ^ length bs" using Cons by (intro mult_left_mono) auto
  finally show ?case by simp
qed simp

lemma u32_le_inverse: "of_nat (le_value (u32_le w)) = (w :: u32)"
proof -
  have "unat w < 256 ^ 4" using unsigned_less [of w, where 'a = nat] by simp
  then show ?thesis by (simp add: u32_le_def le_value_le_bytes)
qed

lemma u64_le_inverse: "of_nat (le_value (u64_le w)) = (w :: u64)"
proof -
  have "unat w < 256 ^ 8" using unsigned_less [of w, where 'a = nat] by simp
  then show ?thesis by (simp add: u64_le_def le_value_le_bytes)
qed

lemma u32_le_of_value: "length bs = 4 \<Longrightarrow> u32_le (of_nat (le_value bs)) = bs"
  using le_value_lt [of bs] le_bytes_le_value [of bs]
  by (simp add: u32_le_def unat_of_nat take_bit_nat_def)

lemma u64_le_of_value: "length bs = 8 \<Longrightarrow> u64_le (of_nat (le_value bs)) = bs"
  using le_value_lt [of bs] le_bytes_le_value [of bs]
  by (simp add: u64_le_def unat_of_nat take_bit_nat_def)

lemma u32_le_inject [simp]: "u32_le a = u32_le b \<longleftrightarrow> a = b"
  by (metis u32_le_inverse)

lemma u64_le_inject [simp]: "u64_le a = u64_le b \<longleftrightarrow> a = b"
  by (metis u64_le_inverse)

section \<open>Reading at a cursor\<close>

lemma holds_at_Nil [simp]: "holds_at bs c []"
  by (simp add: holds_at_def)

lemma holds_at_bound: "holds_at bs c xs \<Longrightarrow> xs \<noteq> [] \<Longrightarrow> c + length xs \<le> length bs"
proof -
  assume "holds_at bs c xs" "xs \<noteq> []"
  then have "length xs = min (length (drop c bs)) (length xs)" unfolding holds_at_def by (metis length_take)
  then show ?thesis using \<open>xs \<noteq> []\<close> by (cases xs) (auto simp: min_def split: if_splits)
qed

lemma holds_at_append [simp]:
  "holds_at bs c (xs @ ys) \<longleftrightarrow> holds_at bs c xs \<and> holds_at bs (c + length xs) ys"
proof -
  have "take (length (xs @ ys)) (drop c bs) =
      take (length xs) (drop c bs) @ take (length ys) (drop (c + length xs) bs)"
    by (simp add: take_add add.commute)
  moreover have "length (take (length xs) (drop c bs)) = length xs" if "holds_at bs c (xs @ ys)"
  proof -
    have "length (xs @ ys) \<le> length (drop c bs)"
      using that unfolding holds_at_def by (metis length_take min.cobounded1 min.commute)
    then show ?thesis by simp
  qed
  ultimately show ?thesis unfolding holds_at_def by (metis append_eq_append_conv)
qed

lemma holds_at_whole: "holds_at bs 0 xs \<and> length xs = length bs \<longleftrightarrow> bs = xs"
  by (auto simp: holds_at_def)

lemma holds_at_unique: "holds_at bs c xs \<Longrightarrow> holds_at bs c ys \<Longrightarrow> length xs = length ys \<Longrightarrow> xs = ys"
  by (simp add: holds_at_def)

lemma le_nonempty [simp]: "u32_le v \<noteq> []" "u64_le w \<noteq> []"
  using length_u32_le [of v] length_u64_le [of w] by (metis list.size(3) zero_neq_numeral)+

lemma read_u32_iff:
  assumes "length bs < 2 ^ 64"
  shows "read_u32 bs c = (Some v, c') \<longleftrightarrow> holds_at bs c (u32_le v) \<and> c' = c + 4"
  using assms holds_at_bound [of bs c "u32_le v"]
  by (auto simp: read_u32_def slice_at_def usize_checked_add_def holds_at_def u32_le_inverse u32_le_of_value
      split: option.splits if_splits bind_splits)

lemma read_u64_iff:
  assumes "length bs < 2 ^ 64"
  shows "read_u64 bs c = (Some v, c') \<longleftrightarrow> holds_at bs c (u64_le v) \<and> c' = c + 8"
  using assms holds_at_bound [of bs c "u64_le v"]
  by (auto simp: read_u64_def slice_at_def usize_checked_add_def holds_at_def u64_le_inverse u64_le_of_value
      split: option.splits if_splits bind_splits)

lemma expect_u32_iff:
  assumes "length bs < 2 ^ 64"
  shows "expect_u32 bs (Some v) c = Some c' \<longleftrightarrow> holds_at bs c (u32_le v) \<and> c' = c + 4"
  using read_u32_iff [OF assms, of c v c'] by (auto simp: expect_u32_def Let_def split: prod.splits)

lemma expect_u64_iff:
  assumes "length bs < 2 ^ 64"
  shows "expect_u64 bs (Some v) c = Some c' \<longleftrightarrow> holds_at bs c (u64_le v) \<and> c' = c + 8"
  using read_u64_iff [OF assms, of c v c'] by (auto simp: expect_u64_def Let_def split: prod.splits)

section \<open>The audit accepts the encoding and nothing else\<close>

lemma audit_fields_iff:
  assumes "length bs < 2 ^ 64"
  shows "audit_fields bs fs c = Some c' \<longleftrightarrow>
    holds_at bs c (concat (map (\<lambda>f. u32_le (vf_ordinal f) @ u32_le (ti_index (vf_ty f)) @ u64_le (vf_offset f)) fs))
    \<and> c' = c + 16 * length fs"
proof (induction fs arbitrary: c)
  case (Cons f fs)
  then show ?case
    by (auto simp: bind_eq_Some_conv expect_u32_iff [OF assms] expect_u64_iff [OF assms] add.assoc)
qed auto

lemma audit_variants_iff:
  assumes "length bs < 2 ^ 64"
  shows "audit_variants bs vs c = Some c' \<longleftrightarrow>
    holds_at bs c (concat (map (\<lambda>v. u32_le (vv_ordinal v) @ u32_le (payload_word (vv_payload v))) vs))
    \<and> c' = c + 8 * length vs"
proof (induction vs arbitrary: c)
  case (Cons v vs)
  then show ?case
    by (auto simp: bind_eq_Some_conv expect_u32_iff [OF assms] add.assoc)
qed auto

lemma length_concat_const: "(\<And>x. length (f x) = k) \<Longrightarrow> length (concat (map f xs)) = k * length xs"
  by (induction xs) auto

lemma audit_payload_iff:
  assumes bs: "length bs < 2 ^ 64" and p: "encode_kind (lr_kind r) = Some p"
  shows "(audit_record_payload bs c e r = Some c' \<and> c' = e) \<longleftrightarrow>
     holds_at bs c p \<and> c' = c + length p \<and> c' = e"
  using p
  by (auto simp: audit_record_payload_def encode_kind_def bind_eq_Some_conv expect_u32_iff [OF bs]
      expect_u64_iff [OF bs] audit_fields_iff [OF bs] audit_variants_iff [OF bs] add.assoc
      length_concat_const split: verified_kind.splits)

lemma le_value_of_u32: "holds_at bs c (u32_le v) \<Longrightarrow> holds_at bs c (u32_le w) \<Longrightarrow> v = w"
  using holds_at_unique by fastforce

lemma length_encode_record:
  "encode_record r = Some p \<Longrightarrow> \<exists>q. encode_kind (lr_kind r) = Some q \<and> length p = 32 + length q"
  by (auto simp: encode_record_def)

lemma audit_record_iff:
  assumes bs: "length bs < 2 ^ 64" and p: "encode_record r = Some p" and len: "length p < 2 ^ 32"
    and i: "ti_index (lr_id r) = i"
  shows "audit_record bs i r c = Some c' \<longleftrightarrow>
     holds_at bs c (u32_le (of_nat (length p)) @ p) \<and> c' = c + 4 + length p"
proof -
  obtain q where q: "encode_kind (lr_kind r) = Some q" "length p = 32 + length q"
    "p = u32_le (record_tag (lr_kind r)) @ u32_le i @ u32_le (lr_drop_kind r) @
       u32_le (lr_runtime_kind r) @ u64_le (lr_size r) @ u64_le (lr_alignment r) @ q"
    using p i by (auto simp: encode_record_def)
  have un: "unat (of_nat (length p) :: u32) = length p" using len by (simp add: unat_of_nat take_bit_nat_def)
  show ?thesis
  proof
    assume a: "audit_record bs i r c = Some c'"
    then obtain w where w: "holds_at bs c (u32_le w)" "c' = c + 4 + unat w"
        "audit_record_payload bs (c + 36) c' r = Some c'"
        "holds_at bs (c + 4) (u32_le (record_tag (lr_kind r)) @ u32_le i @ u32_le (lr_drop_kind r) @
           u32_le (lr_runtime_kind r) @ u64_le (lr_size r) @ u64_le (lr_alignment r))"
      by (auto simp: audit_record_def Let_def bind_eq_Some_conv read_u32_iff [OF bs] expect_u32_iff [OF bs]
          expect_u64_iff [OF bs] usize_checked_add_def add.assoc split: prod.splits if_splits)
    from w(3) audit_payload_iff [OF bs q(1), of "c + 36" c' c']
    have t: "holds_at bs (c + 36) q" "c' = c + 36 + length q" by simp_all
    have "holds_at bs (c + 4) p" using w(4) t q(3) by (simp add: add.assoc)
    moreover have "unat w = length p" using w(2) t(2) q(2) by simp
    ultimately have w: "holds_at bs c (u32_le w)" "holds_at bs (c + 4) p" "unat w = length p"
      "c' = c + 4 + length p" using w by simp_all
    then have "w = of_nat (length p)" using un by (simp add: word_unat_eq_iff)
    with w show "holds_at bs c (u32_le (of_nat (length p)) @ p) \<and> c' = c + 4 + length p" by simp
  next
    assume a: "holds_at bs c (u32_le (of_nat (length p)) @ p) \<and> c' = c + 4 + length p"
    have bound: "c + 4 + length p \<le> length bs"
      using a q(2) holds_at_bound [of bs "c + 4" p] by (cases p) (auto simp: add.assoc)
    have rd: "read_u32 bs c = (Some (of_nat (length p)), c + 4)" using a by (simp add: read_u32_iff [OF bs])
    have "\<not> (of_nat (length p) :: u32) < 32" using un q(2) by (simp add: word_less_nat_alt)
    moreover have "audit_record_payload bs (c + 36) (c + 4 + length p) r = Some (c + 4 + length p)"
      using audit_payload_iff [OF bs q(1), of "c + 36" "c + 4 + length p" "c + 4 + length p"] a q
      by (simp add: add.assoc)
    moreover have "expect_u32 bs (Some (record_tag (lr_kind r))) (c + 4) = Some (c + 8)"
      "expect_u32 bs (Some i) (c + 8) = Some (c + 12)"
      "expect_u32 bs (Some (lr_drop_kind r)) (c + 12) = Some (c + 16)"
      "expect_u32 bs (Some (lr_runtime_kind r)) (c + 16) = Some (c + 20)"
      "expect_u64 bs (Some (lr_size r)) (c + 20) = Some (c + 28)"
      "expect_u64 bs (Some (lr_alignment r)) (c + 28) = Some (c + 36)"
      using a q(3) by (simp_all add: expect_u32_iff [OF bs] expect_u64_iff [OF bs] add.assoc)
    ultimately show "audit_record bs i r c = Some c'"
      using a bound bs by (simp add: audit_record_def rd usize_checked_add_def un)
  qed
qed

lemma encode_records_frames:
  "list_all encodable rs \<Longrightarrow>
     encode_records rs acc er = Some (Inr (acc @ concat (map record_frame rs)))"
  by (induction rs arbitrary: acc)
    (auto simp: encodable_def u32_try_from_def record_frame_def)

lemma audit_records_iff:
  assumes bs: "length bs < 2 ^ 64"
  shows "list_all encodable rs \<Longrightarrow> (\<forall>k<length rs. ti_index (lr_id (rs ! k)) = i + of_nat k) \<Longrightarrow>
    audit_records bs i rs c = Some c' \<longleftrightarrow>
      holds_at bs c (concat (map record_frame rs)) \<and> c' = c + length (concat (map record_frame rs))"
proof (induction rs arbitrary: i c)
  case (Cons r rs)
  obtain p where p: "encode_record r = Some p" "length p < 2 ^ 32"
    using Cons.prems(1) by (auto simp: encodable_def)
  have i: "ti_index (lr_id r) = i" using Cons.prems(2) by force
  have "\<forall>k<length rs. ti_index (lr_id (rs ! k)) = i + 1 + of_nat k"
    using Cons.prems(2) by (auto simp: add.assoc)
  then have "audit_records bs (i + 1) rs d = Some c' \<longleftrightarrow>
      holds_at bs d (concat (map record_frame rs)) \<and> c' = d + length (concat (map record_frame rs))" for d
    using Cons by simp
  moreover have "record_frame r = u32_le (of_nat (length p)) @ p" using p by (simp add: record_frame_def)
  ultimately show ?case
    using audit_record_iff [OF bs p i, of c] by (auto simp: bind_eq_Some_conv add.assoc)
qed auto

lemma sealableD:
  assumes "sealable records"
  shows "length records < 2 ^ 32" "list_all encodable records"
    "\<forall>k<length records. ti_index (lr_id (records ! k)) = 0 + of_nat k"
  using assms by (auto simp: sealable_def encodable_def list_all_length)

lemma encode_document_sealable:
  "sealable records \<Longrightarrow> encode_document target records er = Some (Inr (layout_document target records))"
  using sealableD [of records]
  by (simp add: encode_document_def u32_try_from_def encode_records_frames layout_document_def)

lemma take_exact_iff:
  assumes "length bs < 2 ^ 64"
  shows "take_exact bs 0 xs = (True, c) \<longleftrightarrow> holds_at bs 0 xs \<and> c = length xs"
proof (cases "xs = []")
  case False
  then show ?thesis using assms holds_at_bound [of bs 0 xs]
    by (auto simp: take_exact_def slice_at_def usize_checked_add_def holds_at_def split: if_splits bind_splits)
qed (auto simp: take_exact_def slice_at_def usize_checked_add_def)

lemma audit_document_iff:
  assumes bs: "length bs < 2 ^ 64" and rs: "sealable records"
  shows "audit_document sha256 bs target records fp = Inr () \<longleftrightarrow>
    bs = layout_document target records \<and> fp = sha256 bs"
proof -
  note s = sealableD [OF rs]
  let ?d = "length FINGERPRINT_DOMAIN"
  have un: "unat (of_nat (length records) :: u32) = length records"
    using s(1) by (simp add: unat_of_nat take_bit_nat_def)
  have cnt: "unat n = length records \<longleftrightarrow> n = of_nat (length records)" for n :: u32
    using un by (auto simp: word_unat_eq_iff)
  have "audit_document sha256 bs target records fp = Inr () \<longleftrightarrow>
      (\<exists>c n. take_exact bs 0 FINGERPRINT_DOMAIN = (True, c) \<and>
        holds_at bs c (u32_le (target_tag target)) \<and> read_u32 bs (c + 4) = (Some n, c + 8) \<and>
        unat n = length records \<and> audit_records bs 0 records (c + 8) = Some (length bs) \<and> fp = sha256 bs)"
  proof (cases "take_exact bs 0 FINGERPRINT_DOMAIN")
    case (Pair matched c)
    obtain n d where "read_u32 bs (c + 4) = (n, d)" by (cases "read_u32 bs (c + 4)")
    moreover from this have "n \<noteq> None \<Longrightarrow> d = c + 8"
      using read_u32_iff [OF bs, of "c + 4" _ d] by (cases n) auto
    ultimately show ?thesis using Pair
      by (cases n) (auto simp: audit_document_def Let_def bind_eq_Some_conv expect_u32_iff [OF bs])
  qed
  also have "\<dots> \<longleftrightarrow> holds_at bs 0 (layout_document target records) \<and>
      length (layout_document target records) = length bs \<and> fp = sha256 bs"
    by (auto simp: take_exact_iff [OF bs] cnt read_u32_iff [OF bs] audit_records_iff [OF bs s(2,3)] layout_document_def add.assoc)
  also have "\<dots> \<longleftrightarrow> bs = layout_document target records \<and> fp = sha256 bs"
    using holds_at_whole [of bs "layout_document target records"] by blast
  finally show ?thesis .
qed

lemma seal_target_total:
  assumes "sealable records" and "length (layout_document target records) < 2 ^ 64"
  shows "seal_target sha256 target records er =
    Some (Inr (layout_document target records, sha256 (layout_document target records)))"
proof -
  have "audit_document sha256 (layout_document target records) target records
      (sha256 (layout_document target records)) = Inr ()"
    using audit_document_iff [OF assms(2,1)] by blast
  then show ?thesis using encode_document_sealable [OF assms(1)] by (simp add: seal_target_def)
qed
end
