(* ===== verification/Layout_Compute_Facts.thy ===== *)
theory Layout_Compute_Facts
  imports Layout_Encoding_Facts
begin

text \<open>
  The layout computation against its mathematical specification: rounding up to an alignment, placement of
  members one after the other, and \<open>record_ok\<close>, the layout of a type over the natural numbers. The fuelled
  computation meets the specification, keeps what it has computed, and always ends on a graph whose by-value
  containment is acyclic, by the rank of a type in that order.
\<close>

section \<open>Specification vocabulary\<close>

text \<open>The least multiple of \<open>a\<close> that is at least \<open>n\<close>.\<close>

definition round_up :: "nat \<Rightarrow> nat \<Rightarrow> nat" where
  "round_up n a = (if n mod a = 0 then n else n + (a - n mod a))"

text \<open>Offsets over the natural numbers: each member at the least aligned offset after the previous
  one; a member is its size and alignment. The result carries the end of the last member.\<close>

fun place :: "nat \<Rightarrow> (nat \<times> nat) list \<Rightarrow> nat list \<times> nat" where
  "place cursor [] = ([], cursor)"
| "place cursor ((sz, al) # ms) =
     (let off = round_up cursor al; (offs, e) = place (off + sz) ms in (off # offs, e))"

definition max_align :: "nat \<Rightarrow> (nat \<times> nat) list \<Rightarrow> nat" where
  "max_align a ms = foldl max a (map snd ms)"

definition max_size :: "nat \<Rightarrow> (nat \<times> nat) list \<Rightarrow> nat" where
  "max_size s ms = foldl max s (map fst ms)"

definition dims :: "(usize \<Rightarrow> layout_record option) \<Rightarrow> type_id \<Rightarrow> nat \<times> nat" where
  "dims look i =
     (case look (unat (ti_index i)) of
        Some r \<Rightarrow> (unat (lr_size r), unat (lr_alignment r)) | None \<Rightarrow> (0, 1))"

definition needs_drop :: "(usize \<Rightarrow> layout_record option) \<Rightarrow> type_id \<Rightarrow> bool" where
  "needs_drop look i =
     (case look (unat (ti_index i)) of Some r \<Rightarrow> lr_drop_kind r \<noteq> 0 | None \<Rightarrow> False)"

definition by_value_types :: "verified_kind \<Rightarrow> type_id list" where
  "by_value_types k =
     (case k of
        VStruct _ _ fs \<Rightarrow> map vf_ty fs
      | VEnum _ _ vs _ _ \<Rightarrow> List.map_filter vv_payload vs
      | VFixedArray e _ _ \<Rightarrow> [e]
      | _ \<Rightarrow> [])"

text \<open>The record of a type against the mathematical layout of its by-value members: \<open>ms\<close> their sizes and
  alignments, \<open>nd\<close> whether one of them needs a drop.\<close>

definition layout_ok :: "storage_target \<Rightarrow> (nat \<times> nat) list \<Rightarrow> bool \<Rightarrow> layout_record \<Rightarrow> bool" where
  "layout_ok target ms nd r =
     (let sz = unat (lr_size r); al = unat (lr_alignment r); w = unat (fst (word_layout target));
          dk = lr_drop_kind r
      in lr_runtime_kind r = dk \<and> al \<in> {1, 2, 4, 8} \<and> sz < 2 ^ 32 \<and>
         (case lr_kind r of
            VBool \<Rightarrow> sz = 1 \<and> al = 1 \<and> dk = 0
          | VI32 \<Rightarrow> sz = 4 \<and> al = 4 \<and> dk = 0
          | VString \<Rightarrow> sz = 3 * w \<and> al = w \<and> dk = 2
          | VStruct _ _ fs \<Rightarrow>
              (let (offs, e) = place 0 ms
               in map (\<lambda>f. unat (vf_offset f)) fs = offs \<and> al = max_align 1 ms \<and>
                  sz = round_up e al \<and> dk = u32_from_bool nd)
          | VEnum _ _ vs off psz \<Rightarrow>
              unat off = round_up 4 (max_align 1 ms) \<and> unat psz = max_size 0 ms \<and>
              al = max 4 (max_align 1 ms) \<and> sz = round_up (unat off + unat psz) al \<and> dk = u32_from_bool nd
          | VFixedArray e len stride \<Rightarrow>
              (let (element_size, element_align) = hd ms
               in al = element_align \<and> unat stride = round_up element_size al \<and>
                  sz = unat stride * unat len \<and> dk = u32_from_bool nd)
          | VVec _ \<Rightarrow> sz = 3 * w \<and> al = w \<and> dk = 3
          | VShared _ \<Rightarrow> sz = w \<and> al = w \<and> dk = 4
          | VWeak _ \<Rightarrow> sz = w \<and> al = w \<and> dk = 5))"

definition record_ok ::
    "storage_target \<Rightarrow> (usize \<Rightarrow> layout_record option) \<Rightarrow> layout_record \<Rightarrow> bool" where
  "record_ok target look r =
     layout_ok target (map (dims look) (by_value_types (lr_kind r)))
       (list_ex (needs_drop look) (by_value_types (lr_kind r))) r"

definition node_type :: "canonical_map \<Rightarrow> node_id \<Rightarrow> type_id" where
  "node_type c i = \<lparr>ti_universe = cm_universe c, ti_index = raw_to_index c ! unat i\<rparr>"

text \<open>The verified kind says what the raw kind says, with canonical type identities.\<close>

definition kind_matches :: "canonical_map \<Rightarrow> type_kind \<Rightarrow> verified_kind \<Rightarrow> bool" where
  "kind_matches c k vk =
     (case vk of
        VBool \<Rightarrow> k = TBool
      | VI32 \<Rightarrow> k = TI32
      | VString \<Rightarrow> k = TString
      | VStruct m d vs \<Rightarrow>
          (\<exists>fs. k = TStruct m d fs \<and>
             map (\<lambda>v. (vf_ordinal v, vf_ty v)) vs = map (\<lambda>f. (fl_ordinal f, node_type c (fl_ty f))) fs)
      | VEnum m d ws _ _ \<Rightarrow>
          (\<exists>vs. k = TEnum m d vs \<and>
             map (\<lambda>v. (vv_ordinal v, vv_payload v)) ws =
             map (\<lambda>v. (vr_ordinal v, map_option (node_type c) (vr_payload v))) vs)
      | VFixedArray t len _ \<Rightarrow> (\<exists>e. k = TFixedArray e len \<and> t = node_type c e)
      | VVec t \<Rightarrow> (\<exists>e. k = TVec e \<and> t = node_type c e)
      | VShared t \<Rightarrow> (\<exists>p. k = TShared p \<and> t = node_type c p)
      | VWeak t \<Rightarrow> (\<exists>p. k = TWeak p \<and> t = node_type c p))"

definition slot_ok ::
    "canonical_map \<Rightarrow> storage_target \<Rightarrow> layout_record option list \<Rightarrow> usize \<Rightarrow> type_kind \<Rightarrow> layout_record \<Rightarrow> bool" where
  "slot_ok c target records t k r =
     (lr_id r = \<lparr>ti_universe = cm_universe c, ti_index = of_nat t\<rparr> \<and> kind_matches c k (lr_kind r) \<and>
      record_ok target (\<lambda>t. records ! t) r \<and>
      (\<forall>i\<in>set (by_value_types (lr_kind r)).
         unat (ti_index i) < length records \<and> records ! unat (ti_index i) \<noteq> None))"

text \<open>All filled slots are right; \<open>kind_of\<close> gives the raw kind of a canonical index.\<close>

definition slots_ok ::
    "canonical_map \<Rightarrow> storage_target \<Rightarrow> (usize \<Rightarrow> type_kind) \<Rightarrow> layout_record option list \<Rightarrow> bool" where
  "slots_ok c target kind_of records =
     (length records \<le> MAX_TYPE_NODES \<and>
      (\<forall>t<length records. \<forall>r. records ! t = Some r \<longrightarrow> slot_ok c target records t (kind_of t) r))"

text \<open>What \<open>compute_kind\<close> returns: the identity it was given, a kind that matches, resolved by-value
  members, and sizes that follow the specification up to the final range check.\<close>

definition kind_result ::
    "canonical_map \<Rightarrow> storage_target \<Rightarrow> layout_record option list \<Rightarrow> type_id \<Rightarrow> type_kind \<Rightarrow> layout_record \<Rightarrow> bool" where
  "kind_result c target records i k r =
     (lr_id r = i \<and> kind_matches c k (lr_kind r) \<and>
      (unat (lr_alignment r) \<in> {1, 2, 4, 8} \<longrightarrow> unat (lr_size r) < 2 ^ 32 \<longrightarrow>
         record_ok target (\<lambda>t. records ! t) r) \<and>
      (\<forall>j\<in>set (by_value_types (lr_kind r)).
         unat (ti_index j) < length records \<and> records ! unat (ti_index j) \<noteq> None))"

abbreviation raw_kind :: "type_graph \<Rightarrow> canonical_map \<Rightarrow> usize \<Rightarrow> type_kind" where
  "raw_kind g c t \<equiv> tn_kind (types g ! (type_to_raw c ! t))"

definition keeps :: "compute_state \<Rightarrow> compute_state \<Rightarrow> bool" where
  "keeps st st' =
     (cs_visiting st' = cs_visiting st \<and> length (cs_records st') = length (cs_records st) \<and>
      (\<forall>u<length (cs_records st). cs_records st ! u \<noteq> None \<or> cs_visiting st ! u \<longrightarrow>
         cs_records st' ! u = cs_records st ! u))"

text \<open>A fatal collector holds a diagnostic, so a failure is never lost.\<close>

definition errors_ok :: "errors \<Rightarrow> bool" where
  "errors_ok er = ((er_fatal er \<longrightarrow> er_diagnostics er \<noteq> []) \<and> length (er_diagnostics er) < MAX_DIAGNOSTICS)"

text \<open>\<open>grows er er'\<close>: diagnostics are never dropped to none.\<close>

definition grows :: "errors \<Rightarrow> errors \<Rightarrow> bool" where
  "grows er er' = (errors_ok er \<longrightarrow> errors_ok er' \<and> (is_empty er' \<longrightarrow> er' = er \<and> is_empty er))"

text \<open>What the earlier phases establish: references are in range, nothing is a borrow, and the two
  directions of the canonical map are inverse.\<close>

definition graph_ok :: "type_graph \<Rightarrow> bool" where
  "graph_ok g =
     (length (types g) \<le> MAX_TYPE_NODES \<and>
      (\<forall>node\<in>set (types g). (\<forall>ch\<in>set (all_children (tn_kind node)). unat ch < length (types g)) \<and>
         fst (member_and_edge_count (tn_kind node)) \<le> MAX_MEMBERS_PER_DECLARATION))"

definition no_borrow :: "type_graph \<Rightarrow> bool" where
  "no_borrow g = (\<forall>node\<in>set (types g). \<forall>r. tn_kind node \<noteq> TBorrow r)"

definition canonical_ok :: "type_graph \<Rightarrow> canonical_map \<Rightarrow> bool" where
  "canonical_ok g c =
     (length (raw_to_index c) = length (types g) \<and> length (type_to_raw c) = length (types g) \<and>
      (\<forall>t<length (types g). type_to_raw c ! t < length (types g) \<and>
         raw_to_index c ! (type_to_raw c ! t) = of_nat t) \<and>
      (\<forall>i<length (types g). unat (raw_to_index c ! i) < length (types g) \<and>
         type_to_raw c ! unat (raw_to_index c ! i) = i))"

definition value_edges :: "type_graph \<Rightarrow> canonical_map \<Rightarrow> (usize \<times> usize) set" where
  "value_edges g c =
     {(t, unat (raw_to_index c ! unat ch)) | t ch.
        t < length (types g) \<and> ch \<in> set (by_value_children (raw_kind g c t))}"

text \<open>The number of nodes below a node bounds the depth of the recursion.\<close>

definition rank :: "('a \<times> 'a) set \<Rightarrow> 'a \<Rightarrow> nat" where
  "rank r x = card (r\<^sup>+ `` {x})"

text \<open>The states the recursion passes through: all nodes in progress lie above \<open>t\<close>.\<close>

definition ready :: "type_graph \<Rightarrow> canonical_map \<Rightarrow> storage_target \<Rightarrow> compute_state \<Rightarrow> bool" where
  "ready g c target st =
     (length (cs_records st) = length (types g) \<and> length (cs_visiting st) = length (types g) \<and>
      errors_ok (cs_errors st) \<and> slots_ok c target (raw_kind g c) (cs_records st))"

definition records_ok :: "type_graph \<Rightarrow> canonical_map \<Rightarrow> storage_target \<Rightarrow> layout_record list \<Rightarrow> bool" where
  "records_ok g c target rs =
     (length rs = length (types g) \<and>
      (\<forall>t<length rs. slot_ok c target (map Some rs) t (raw_kind g c t) (rs ! t)) \<and>
      (\<forall>t<length rs. \<forall>e. lr_kind (rs ! t) = VVec e \<longrightarrow> lr_size (rs ! unat (ti_index e)) \<noteq> 0))"

section \<open>Alignment\<close>

lemma round_up_dvd: "0 < a \<Longrightarrow> a dvd round_up n a"
proof (cases "n mod a = 0")
  case False
  assume "0 < a"
  then have "n mod a < a" by simp
  then have "n + (a - n mod a) = a * (n div a) + a" using mult_div_mod_eq [of a n] by linarith
  then have "a dvd n + (a - n mod a)" by simp
  with False show ?thesis by (simp add: round_up_def)
qed (auto simp: round_up_def)

lemma round_up_ge: "n \<le> round_up n a"
  by (simp add: round_up_def)

lemma round_up_lt: "0 < a \<Longrightarrow> round_up n a < n + a"
  by (simp add: round_up_def)

lemma round_up_least:
  assumes "a dvd m" and "n \<le> m"
  shows "round_up n a \<le> m"
proof (cases "n mod a = 0")
  case False
  obtain k where m: "m = a * k" using assms(1) by blast
  have a: "0 < a" using False assms m by (cases "a = 0") auto
  have n: "n = a * (n div a) + n mod a" by simp
  have "n div a < k"
  proof (rule ccontr)
    assume "\<not> n div a < k"
    then have "a * k \<le> a * (n div a)" by simp
    then show False using n False assms(2) m by linarith
  qed
  then have "a * (n div a) + a \<le> a * k"
    by (metis Suc_leI add.commute mult_Suc_right mult_le_mono2)
  then have "n + (a - n mod a) \<le> a * k" using n mod_less_divisor [OF a, of n] by linarith
  then show ?thesis using False m by (simp add: round_up_def)
qed (use assms in \<open>simp add: round_up_def\<close>)

lemma is_power_of_two_small:
  assumes "is_power_of_two a" and "a \<le> 8"
  shows "unat a \<in> {1, 2, 4, 8}"
proof -
  have "unat a \<le> 8" using assms(2) by (simp add: word_le_nat_alt)
  then have "unat a \<in> set [0..<9]" by simp
  then have "unat a = 0 \<or> unat a = 1 \<or> unat a = 2 \<or> unat a = 3 \<or> unat a = 4 \<or> unat a = 5 \<or>
      unat a = 6 \<or> unat a = 7 \<or> unat a = 8" by (simp add: upt_rec) linarith
  then have "a = 0 \<or> a = 1 \<or> a = 2 \<or> a = 3 \<or> a = 4 \<or> a = 5 \<or> a = 6 \<or> a = 7 \<or> a = 8"
    by (simp add: word_unat_eq_iff)
  then show ?thesis using assms(1) by (elim disjE) (simp_all add: is_power_of_two_def)
qed

lemma power_of_two_small_values: "unat a \<in> {1, 2, 4, 8} \<Longrightarrow> is_power_of_two a"
proof -
  assume "unat a \<in> {1, 2, 4, 8}"
  then have "a = 1 \<or> a = 2 \<or> a = 4 \<or> a = 8" by (simp add: word_unat_eq_iff)
  then show ?thesis by (elim disjE) (simp_all add: is_power_of_two_def)
qed

lemma checked_align_up_iff:
  assumes "is_power_of_two a"
  shows "checked_align_up v a = Some r \<longleftrightarrow> unat r = round_up (unat v) (unat a)"
proof -
  have a: "a \<noteq> 0" "unat a \<noteq> 0" using assms by (auto simp: is_power_of_two_def unat_eq_0)
  have rem: "unat (v mod a) = unat v mod unat a" by (simp add: unat_mod_distrib)
  have "unat (v mod a) < unat a" using a by (simp add: rem)
  then have sub: "unat (a - v mod a) = unat a - unat v mod unat a"
    by (subst unat_sub) (auto simp: rem word_le_nat_alt)
  have z: "v mod a = 0 \<longleftrightarrow> unat v mod unat a = 0" by (metis rem unat_eq_0)
  have max: "x \<le> - 1" for x :: u64 by simp
  show ?thesis
  proof (cases "v mod a = 0")
    case True
    then show ?thesis using assms a z
      by (auto simp: checked_align_up_def checked_align_up_with_limit_def round_up_def word_unat_eq_iff)
  next
    case False
    then have "checked_align_up v a = checked_add v (a - v mod a)"
      using assms a by (simp add: checked_align_up_def checked_align_up_with_limit_def Let_def)
    then show ?thesis using False z sub by (simp add: checked_add_eq_Some_iff round_up_def)
  qed
qed

lemma checked_align_up_pow: "checked_align_up v a = Some r \<Longrightarrow> is_power_of_two a"
  by (auto simp: checked_align_up_def checked_align_up_with_limit_def split: if_splits)

lemma checked_storage_add_Some:
  "checked_storage_add l r bound = Some v \<Longrightarrow> unat v = unat l + unat r \<and> v \<le> bound"
  by (auto simp: checked_storage_add_def bind_eq_Some_conv dest: checked_add_Some split: if_splits)

lemma checked_storage_mul_Some:
  "checked_storage_mul l r bound = Some v \<Longrightarrow> unat v = unat l * unat r \<and> v \<le> bound"
  by (auto simp: checked_storage_mul_def bind_eq_Some_conv dest: checked_mul_Some split: if_splits)

section \<open>The mathematical layout\<close>

lemma length_place: "place c ms = (offs, e) \<Longrightarrow> length offs = length ms"
  by (induction c ms arbitrary: offs e rule: place.induct) (auto simp: Let_def split: prod.splits)

lemma place_end: "place c ms = (offs, e) \<Longrightarrow> c \<le> e"
proof (induction c ms arbitrary: offs e rule: place.induct)
  case (2 c sz al ms)
  obtain offs' e' where p: "place (round_up c al + sz) ms = (offs', e')" by fastforce
  then show ?case using 2 round_up_ge [of c al] by (fastforce simp: Let_def)
qed simp

text \<open>Members are aligned, in order, disjoint, and inside the extent.\<close>

lemma place_spec:
  assumes "place c ms = (offs, e)" and "i < length ms" and "\<forall>m\<in>set ms. 0 < snd m"
  shows "snd (ms ! i) dvd offs ! i \<and> c \<le> offs ! i \<and> offs ! i + fst (ms ! i) \<le> e \<and>
    (\<forall>j<i. offs ! j + fst (ms ! j) \<le> offs ! i)"
  using assms
proof (induction c ms arbitrary: offs e i rule: place.induct)
  case (2 c sz al ms)
  obtain offs' e' where p: "place (round_up c al + sz) ms = (offs', e')" by fastforce
  then have o: "offs = round_up c al # offs'" "e = e'" using "2.prems"(1) by (auto simp: Let_def)
  show ?case
  proof (cases i)
    case 0
    then show ?thesis using o round_up_dvd round_up_ge place_end [OF p] "2.prems"(3) by simp
  next
    case (Suc k)
    then have k: "k < length ms" using "2.prems"(2) by simp
    have al: "\<forall>m\<in>set ms. 0 < snd m" using "2.prems"(3) by simp
    note ih = "2.IH" [OF refl p k al]
    have "offs ! j + fst (((sz, al) # ms) ! j) \<le> offs ! Suc k" if "j < Suc k" for j
      using that ih o by (cases j) auto
    then show ?thesis using ih round_up_ge [of c al] Suc o by auto
  qed
qed simp

lemma max_align_Cons: "max_align a ((sz, al) # ms) = max_align (max a al) ms"
  by (simp add: max_align_def)

lemma max_size_Cons: "max_size a ((sz, al) # ms) = max_size (max a sz) ms"
  by (simp add: max_size_def)

lemma max_align_ge: "a \<le> max_align a ms \<and> (\<forall>m\<in>set ms. snd m \<le> max_align a ms)"
proof (induction ms arbitrary: a)
  case (Cons m ms)
  show ?case using Cons [of "max a (snd m)"] by (cases m) (fastforce simp: max_align_Cons)
qed (simp add: max_align_def)

lemma max_size_ge: "a \<le> max_size a ms \<and> (\<forall>m\<in>set ms. fst m \<le> max_size a ms)"
proof (induction ms arbitrary: a)
  case (Cons m ms)
  show ?case using Cons [of "max a (fst m)"] by (cases m) (fastforce simp: max_size_Cons)
qed (simp add: max_size_def)

lemma max_align_in: "max_align a ms \<in> insert a (snd ` set ms)"
proof (induction ms arbitrary: a)
  case (Cons m ms)
  then show ?case using Cons [of "max a (snd m)"] by (cases m) (auto simp: max_align_Cons max_def split: if_splits)
qed (simp add: max_align_def)

section \<open>What a layout record promises\<close>

lemma record_ok_cong:
  assumes "record_ok target look r"
    and "\<And>i. i \<in> set (by_value_types (lr_kind r)) \<Longrightarrow> look' (unat (ti_index i)) = look (unat (ti_index i))"
  shows "record_ok target look' r"
proof -
  have "map (dims look') (by_value_types (lr_kind r)) = map (dims look) (by_value_types (lr_kind r))"
    "list_ex (needs_drop look') (by_value_types (lr_kind r)) = list_ex (needs_drop look) (by_value_types (lr_kind r))"
    using assms(2) by (auto simp: dims_def needs_drop_def list_ex_iff)
  then show ?thesis using assms(1) by (simp only: record_ok_def)
qed

lemma slot_ok_mono:
  assumes "slot_ok c target records t k r" and "length records' = length records"
    and "\<And>u. u < length records \<Longrightarrow> records ! u \<noteq> None \<Longrightarrow> records' ! u = records ! u"
  shows "slot_ok c target records' t k r"
  using assms record_ok_cong [of target "\<lambda>t. records ! t" r "\<lambda>t. records' ! t"]
  by (auto simp: slot_ok_def)

lemma slot_align:
  assumes "slot_ok c target records t k r"
  shows "is_power_of_two (lr_alignment r) \<and> 0 < unat (lr_alignment r)"
proof -
  have "unat (lr_alignment r) \<in> {1, 2, 4, 8}" using assms by (simp add: slot_ok_def record_ok_def layout_ok_def Let_def)
  then show ?thesis using power_of_two_small_values by auto
qed

section \<open>The computation meets the specification\<close>

lemma unat_max: "unat (max a b) = max (unat a) (unat (b :: 'a::len word))"
  by (simp add: max_def word_le_nat_alt)

lemma resolved_recordD:
  assumes "resolved_record i c records = Some (Some r)" and "slots_ok c target kind_of records"
  shows "lr_id r = node_type c i" "is_power_of_two (lr_alignment r)" "0 < unat (lr_alignment r)"
    "dims (\<lambda>t. records ! t) (node_type c i) = (unat (lr_size r), unat (lr_alignment r))"
    "needs_drop (\<lambda>t. records ! t) (node_type c i) = (lr_drop_kind r \<noteq> 0)"
    "unat (ti_index (node_type c i)) < length records" "records ! unat (ti_index (node_type c i)) \<noteq> None"
proof -
  from assms(1) obtain t where t: "unat i < length (raw_to_index c)" "raw_to_index c ! unat i = t"
    "unat t < length records" "records ! unat t = Some r"
    by (auto simp: resolved_record_def bind_eq_Some_conv get_at_Some_iff)
  have ok: "slot_ok c target records (unat t) (kind_of (unat t)) r"
    using assms(2) t by (auto simp: slots_ok_def)
  then have "lr_id r = \<lparr>ti_universe = cm_universe c, ti_index = of_nat (unat t)\<rparr>" by (simp add: slot_ok_def)
  then show "lr_id r = node_type c i" using t by (simp add: node_type_def)
  show "is_power_of_two (lr_alignment r)" "0 < unat (lr_alignment r)" using slot_align [OF ok] by auto
  show "dims (\<lambda>t. records ! t) (node_type c i) = (unat (lr_size r), unat (lr_alignment r))"
    "needs_drop (\<lambda>t. records ! t) (node_type c i) = (lr_drop_kind r \<noteq> 0)"
    "unat (ti_index (node_type c i)) < length records" "records ! unat (ti_index (node_type c i)) \<noteq> None"
    using t by (simp_all add: dims_def needs_drop_def node_type_def)
qed

lemma layout_fields_spec:
  assumes ok: "slots_ok c target kind_of records"
    and "layout_fields sp c records fs cursor al nd = Some (Inr (cursor', al', nd', vs))"
  defines "look \<equiv> \<lambda>t. records ! t"
  shows "map (\<lambda>v. (vf_ordinal v, vf_ty v)) vs = map (\<lambda>f. (fl_ordinal f, node_type c (fl_ty f))) fs \<and>
    place (unat cursor) (map (dims look) (map vf_ty vs)) = (map (\<lambda>v. unat (vf_offset v)) vs, unat cursor') \<and>
    unat al' = max_align (unat al) (map (dims look) (map vf_ty vs)) \<and>
    nd' = (nd \<or> list_ex (needs_drop look) (map vf_ty vs)) \<and>
    (\<forall>v\<in>set vs. unat (ti_index (vf_ty v)) < length records \<and> records ! unat (ti_index (vf_ty v)) \<noteq> None)"
  using assms(2)
proof (induction fs arbitrary: cursor al nd vs)
  case Nil
  then show ?case by (simp add: max_align_def)
next
  case (Cons f fs)
  from Cons.prems obtain r off nxt vs' where
    r: "resolved_record (fl_ty f) c records = Some (Some r)"
    and off: "checked_align_up cursor (lr_alignment r) = Some off"
    and nxt: "checked_storage_add off (lr_size r) MAX_OBJECT_SIZE = Some nxt"
    and rest: "layout_fields sp c records fs nxt (max al (lr_alignment r)) (nd \<or> lr_drop_kind r \<noteq> 0) =
      Some (Inr (cursor', al', nd', vs'))"
    and vs: "vs = \<lparr>vf_ordinal = fl_ordinal f, vf_ty = lr_id r, vf_offset = off\<rparr> # vs'"
    by (auto simp: try_bind_Inr_iff split: option.splits if_splits)
  note d = resolved_recordD [OF r ok]
  have o: "unat off = round_up (unat cursor) (unat (lr_alignment r))"
    using off checked_align_up_iff [OF d(2)] by simp
  have n: "unat nxt = unat off + unat (lr_size r)" using checked_storage_add_Some [OF nxt] by simp
  show ?case using Cons.IH [OF rest] vs d o n
    by (simp add: look_def max_align_Cons unat_max Let_def)
qed

lemma layout_variants_spec:
  assumes ok: "slots_ok c target kind_of records"
    and "layout_variants c records vs al sz nd = Some (al', sz', nd', ws)"
  defines "look \<equiv> \<lambda>t. records ! t"
  shows "map (\<lambda>v. (vv_ordinal v, vv_payload v)) ws =
      map (\<lambda>v. (vr_ordinal v, map_option (node_type c) (vr_payload v))) vs \<and>
    unat al' = max_align (unat al) (map (dims look) (List.map_filter vv_payload ws)) \<and>
    unat sz' = max_size (unat sz) (map (dims look) (List.map_filter vv_payload ws)) \<and>
    nd' = (nd \<or> list_ex (needs_drop look) (List.map_filter vv_payload ws)) \<and>
    (\<forall>i\<in>set (List.map_filter vv_payload ws). unat (ti_index i) < length records \<and>
       records ! unat (ti_index i) \<noteq> None)"
  using assms(2)
proof (induction vs arbitrary: al sz nd ws)
  case Nil
  then show ?case by (simp add: max_align_def max_size_def List.map_filter_def)
next
  case (Cons v vs)
  show ?case
  proof (cases "vr_payload v")
    case None
    with Cons.prems obtain ws' where ws: "ws = \<lparr>vv_ordinal = vr_ordinal v, vv_payload = None\<rparr> # ws'"
      and rest: "layout_variants c records vs al sz nd = Some (al', sz', nd', ws')"
      by auto
    show ?thesis using Cons.IH [OF rest] ws None by (simp add: List.map_filter_simps)
  next
    case (Some p)
    with Cons.prems obtain r ws' where r: "resolved_record p c records = Some (Some r)"
      and ws: "ws = \<lparr>vv_ordinal = vr_ordinal v, vv_payload = Some (lr_id r)\<rparr> # ws'"
      and rest: "layout_variants c records vs (max al (lr_alignment r)) (max sz (lr_size r))
        (nd \<or> lr_drop_kind r \<noteq> 0) = Some (al', sz', nd', ws')"
      by (auto split: option.splits)
    note d = resolved_recordD [OF r ok]
    show ?thesis using Cons.IH [OF rest] ws d Some
      by (simp add: look_def List.map_filter_simps max_align_Cons max_size_Cons unat_max)
  qed
qed

lemma max_align_pow:
  assumes "a \<in> {1, 2, 4, 8}" and "\<forall>m\<in>set ms. snd m \<in> {1, 2, 4, 8}"
  shows "max_align a ms \<in> {1, 2, 4, 8}"
  using max_align_in [of a ms] assms by auto

lemma compute_struct_spec:
  assumes ok: "slots_ok c target kind_of records"
    and r: "compute_struct sp i c records m d fs = Some (Inr r)"
  shows "kind_result c target records i (TStruct m d fs) r"
proof -
  from r obtain cursor al nd vs sz where
    f: "layout_fields sp c records fs 0 1 False = Some (Inr (cursor, al, nd, vs))"
    and sz: "checked_align_up cursor al = Some sz"
    and r: "r = \<lparr>lr_id = i, lr_kind = VStruct m d vs, lr_size = sz, lr_alignment = al,
      lr_drop_kind = u32_from_bool nd, lr_runtime_kind = u32_from_bool nd\<rparr>"
    by (auto simp: compute_struct_def try_bind_Inr_iff split: option.splits prod.splits)
  note spec = layout_fields_spec [OF ok f]
  have "unat sz = round_up (unat cursor) (unat al)"
    using sz checked_align_up_iff [OF checked_align_up_pow [OF sz]] by simp
  with spec r show ?thesis
    by (auto simp: kind_result_def kind_matches_def by_value_types_def record_ok_def layout_ok_def Let_def)
qed

lemma compute_enum_spec:
  assumes ok: "slots_ok c target kind_of records"
    and r: "compute_enum sp i c records m d vs = Some (Inr r)"
  shows "kind_result c target records i (TEnum m d vs) r"
proof -
  from r obtain pa psz nd ws where
    f: "layout_variants c records vs 1 0 False = Some (pa, psz, nd, ws)"
    by (auto simp: compute_enum_def)
  from r obtain off e sz where off: "checked_align_up 4 pa = Some off"
    and e: "checked_storage_add off psz MAX_OBJECT_SIZE = Some e"
    and sz: "checked_align_up e (max 4 pa) = Some sz"
    and r: "r = \<lparr>lr_id = i, lr_kind = VEnum m d ws off psz, lr_size = sz, lr_alignment = max 4 pa,
      lr_drop_kind = u32_from_bool nd, lr_runtime_kind = u32_from_bool nd\<rparr>"
    unfolding compute_enum_def f by (auto simp: Let_def split: option.split_asm if_split_asm)
  note spec = layout_variants_spec [OF ok f]
  have "unat off = round_up 4 (unat pa)"
    using off checked_align_up_iff [OF checked_align_up_pow [OF off]] by simp
  moreover have "unat sz = round_up (unat off + unat psz) (max 4 (unat pa))"
    using sz checked_align_up_iff [OF checked_align_up_pow [OF sz]] checked_storage_add_Some [OF e]
    by (simp add: unat_max)
  ultimately show ?thesis using spec r
    by (auto simp: kind_result_def kind_matches_def by_value_types_def record_ok_def layout_ok_def Let_def unat_max)
qed

lemma compute_array_spec:
  assumes ok: "slots_ok c target kind_of records"
    and r: "compute_array sp i c records e len = Some (Inr r)"
  shows "kind_result c target records i (TFixedArray e len) r"
proof -
  from r obtain ch stride sz where
    ch: "resolved_record e c records = Some (Some ch)"
    and st: "checked_align_up (lr_size ch) (lr_alignment ch) = Some stride"
    and sz: "checked_storage_mul stride len MAX_OBJECT_SIZE = Some sz"
    and r: "r = \<lparr>lr_id = i, lr_kind = VFixedArray (lr_id ch) len stride, lr_size = sz,
      lr_alignment = lr_alignment ch, lr_drop_kind = u32_from_bool (lr_drop_kind ch \<noteq> 0),
      lr_runtime_kind = u32_from_bool (lr_drop_kind ch \<noteq> 0)\<rparr>"
    by (auto simp: compute_array_def Let_def split: option.splits prod.splits if_splits)
  note d = resolved_recordD [OF ch ok]
  have "unat stride = round_up (unat (lr_size ch)) (unat (lr_alignment ch))"
    using st checked_align_up_iff [OF d(2)] by simp
  moreover have "unat sz = unat stride * unat len" using checked_storage_mul_Some [OF sz] by simp
  ultimately show ?thesis using d r
    by (auto simp: kind_result_def kind_matches_def by_value_types_def record_ok_def layout_ok_def Let_def)
qed

lemma compute_kind_spec:
  assumes ok: "slots_ok c target kind_of records"
    and r: "compute_kind sp i c records target k = Some (Inr (Some r))"
  shows "kind_result c target records i k r"
proof -
  have tid: "canonical_type_id c (unat j) = Some t \<Longrightarrow> t = node_type c j" for j t
    by (auto simp: canonical_type_id_def node_type_def get_at_Some_iff)
  have sumD: "map_sum id Some x = Inr (Some y) \<longleftrightarrow> x = Inr y" for x :: "diagnostic + layout_record" and y
    by (cases x) auto
  show ?thesis
  proof (cases k)
    case (TStruct m d fs)
    then show ?thesis using r compute_struct_spec [OF ok] by (auto simp: compute_kind_def Let_def sumD)
  next
    case (TEnum m d vs)
    then show ?thesis using r compute_enum_spec [OF ok] by (auto simp: compute_kind_def Let_def sumD)
  next
    case (TFixedArray e len)
    then show ?thesis using r compute_array_spec [OF ok] by (auto simp: compute_kind_def Let_def sumD)
  next
    case (TVec e)
    then show ?thesis using r
      by (cases target) (auto simp: compute_kind_def Let_def sumD compute_vec_def bind_eq_Some_conv kind_result_def
          kind_matches_def by_value_types_def record_ok_def layout_ok_def dest!: tid split: if_splits prod.splits)
  next
    case (TShared p)
    then show ?thesis using r
      by (cases target) (auto simp: compute_kind_def Let_def sumD compute_handle_def bind_eq_Some_conv kind_result_def
          kind_matches_def by_value_types_def record_ok_def layout_ok_def dest!: tid)
  next
    case (TWeak p)
    then show ?thesis using r
      by (cases target) (auto simp: compute_kind_def Let_def sumD compute_handle_def bind_eq_Some_conv kind_result_def
          kind_matches_def by_value_types_def record_ok_def layout_ok_def dest!: tid)
  qed (use r in \<open>cases target; auto simp: compute_kind_def Let_def kind_result_def kind_matches_def
      by_value_types_def record_ok_def layout_ok_def\<close>)+
qed

section \<open>The recursion keeps filled slots\<close>

lemma keeps_refl [simp]: "keeps st st"
  by (simp add: keeps_def)

lemma keeps_trans: "keeps a b \<Longrightarrow> keeps b c \<Longrightarrow> keeps a c"
  by (auto simp: keeps_def)

lemma store_record_slots:
  assumes ok: "slots_ok c target kind_of (cs_records st)" and t: "t < length (cs_records st)"
    and none: "cs_records st ! t = None"
    and res: "kind_result c target (cs_records st) \<lparr>ti_universe = cm_universe c, ti_index = of_nat t\<rparr> (kind_of t) r"
  shows "slots_ok c target kind_of (cs_records (store_record t sp r st))"
proof (cases "lr_alignment r = 0 \<or> \<not> is_power_of_two (lr_alignment r) \<or> 8 < lr_alignment r \<or>
    MAX_OBJECT_SIZE < lr_size r")
  case True
  then show ?thesis using ok by (auto simp: store_record_def)
next
  case False
  let ?rs = "(cs_records st)[t := Some r]"
  have al: "unat (lr_alignment r) \<in> {1, 2, 4, 8}"
    using False by (intro is_power_of_two_small) auto
  have "lr_size r \<le> MAX_OBJECT_SIZE" using False by auto
  then have sz: "unat (lr_size r) < 2 ^ 32" by (simp add: MAX_OBJECT_SIZE_def word_le_nat_alt)
  have new: "slot_ok c target (cs_records st) t (kind_of t) r"
    using res al sz unfolding kind_result_def slot_ok_def by blast
  have same: "\<And>u. u < length (cs_records st) \<Longrightarrow> cs_records st ! u \<noteq> None \<Longrightarrow> ?rs ! u = cs_records st ! u"
    using none by (metis nth_list_update_neq)
  have "slot_ok c target ?rs u (kind_of u) q" if "u < length ?rs" "?rs ! u = Some q" for u q
  proof (cases "u = t")
    case True
    then show ?thesis using new slot_ok_mono [OF _ _ same] t that by simp
  next
    case neq: False
    then have "slot_ok c target (cs_records st) u (kind_of u) q" using ok that by (auto simp: slots_ok_def)
    then show ?thesis using slot_ok_mono [OF _ _ same] by simp
  qed
  moreover have "cs_records (store_record t sp r st) = ?rs" using False by (simp add: store_record_def)
  ultimately show ?thesis using ok by (simp add: slots_ok_def)
qed

lemma store_record_keeps:
  "cs_visiting (store_record t sp r st) = cs_visiting st"
  "length (cs_records (store_record t sp r st)) = length (cs_records st)"
  "u \<noteq> t \<Longrightarrow> cs_records (store_record t sp r st) ! u = cs_records st ! u"
  by (auto simp: store_record_def)

lemma settle_keeps:
  "cs_visiting (settle t sp res st) = cs_visiting st"
  "length (cs_records (settle t sp res st)) = length (cs_records st)"
  "u \<noteq> t \<Longrightarrow> cs_records (settle t sp res st) ! u = cs_records st ! u"
  by (auto simp: settle_def store_record_keeps split: sum.splits option.splits)

lemma leave_keeps:
  assumes ch: "keeps (st\<lparr>cs_visiting := (cs_visiting st)[t := True]\<rparr>) st1"
    and len: "length (cs_visiting st) = length (cs_records st)" "t < length (cs_records st)"
    and new: "cs_visiting st2 = cs_visiting st1" "length (cs_records st2) = length (cs_records st1)"
      "\<And>u. u \<noteq> t \<Longrightarrow> cs_records st2 ! u = cs_records st1 ! u"
    and st: "cs_records st ! t = None" "\<not> cs_visiting st ! t"
  shows "keeps st (st2\<lparr>cs_visiting := (cs_visiting st2)[t := False]\<rparr>)"
proof -
  have "(cs_visiting st)[t := True, t := False] = cs_visiting st"
    using st(2) len by (metis list_update_id list_update_overwrite)
  moreover have "cs_records st2 ! u = cs_records st ! u"
    if "u < length (cs_records st)" "cs_records st ! u \<noteq> None \<or> cs_visiting st ! u" for u
    using that ch st new(3) len by (cases "u = t") (auto simp: keeps_def)
  ultimately show ?thesis using ch new by (auto simp: keeps_def)
qed

lemma compute_keeps:
  "compute_one fuel g c target t st = Some st' \<Longrightarrow> length (cs_visiting st) = length (cs_records st) \<Longrightarrow>
     slots_ok c target (raw_kind g c) (cs_records st) \<Longrightarrow>
     keeps st st' \<and> slots_ok c target (raw_kind g c) (cs_records st')"
  "compute_children fuel g c target chs st = Some st' \<Longrightarrow> length (cs_visiting st) = length (cs_records st) \<Longrightarrow>
     slots_ok c target (raw_kind g c) (cs_records st) \<Longrightarrow>
     keeps st st' \<and> slots_ok c target (raw_kind g c) (cs_records st')"
proof (induction fuel g c target t st and fuel g c target chs st arbitrary: st' and st'
    rule: compute_one_compute_children.induct)
  case (2 fuel g c target t st)
  show ?case
  proof (cases "cs_records st ! t \<noteq> None \<or> cs_visiting st ! t")
    case True
    then have "st' = st" using "2.prems" by (auto simp: bind_eq_Some_conv get_at_Some_iff)
    then show ?thesis using "2.prems" by simp
  next
    case False
    let ?in = "st\<lparr>cs_visiting := (cs_visiting st)[t := True]\<rparr>"
    let ?node = "types g ! (type_to_raw c ! t)"
    from False "2.prems"(1) obtain st1 where t: "t < length (cs_records st)"
      and tr: "type_to_raw c ! t < length (types g)" "t < length (type_to_raw c)"
      and st1: "compute_children fuel g c target (by_value_children (tn_kind ?node)) ?in = Some st1"
      by (auto simp: bind_eq_Some_conv get_at_Some_iff)
    have ih: "keeps ?in st1 \<and> slots_ok c target (raw_kind g c) (cs_records st1)"
      by (rule "2.IH" [of "cs_records st ! t" "cs_visiting st ! t" "type_to_raw c ! t" ?node st1])
        (use False "2.prems" t tr st1 in \<open>auto simp: get_at_Some_iff\<close>)
    have t1: "cs_records st1 ! t = None" "t < length (cs_records st1)"
      using ih False t "2.prems"(2) by (auto simp: keeps_def)
    note leave = leave_keeps [OF conjunct1 [OF ih] "2.prems"(2) t]
    show ?thesis
    proof (cases "is_empty (cs_errors st1)")
      case nonempty: False
      then have "st' = st1\<lparr>cs_visiting := (cs_visiting st1)[t := False]\<rparr>"
        using False "2.prems"(1) st1 by (auto simp: bind_eq_Some_conv get_at_Some_iff Let_def)
      then show ?thesis using leave [of st1] ih False by simp
    next
      case empty: True
      from False "2.prems"(1) st1 empty obtain w res where w: "u32_try_from t = Some w"
        and res: "compute_kind (tn_span ?node) \<lparr>ti_universe = cm_universe c, ti_index = w\<rparr> c
            (cs_records st1) target (tn_kind ?node) = Some res"
        and st': "st' = (settle t (tn_span ?node) res st1)
            \<lparr>cs_visiting := (cs_visiting (settle t (tn_span ?node) res st1))[t := False]\<rparr>"
        by (auto simp: bind_eq_Some_conv get_at_Some_iff Let_def)
      have w': "w = of_nat t" using w by (auto simp: u32_try_from_def split: if_splits)
      have "slots_ok c target (raw_kind g c) (cs_records (settle t (tn_span ?node) res st1))"
      proof (cases "\<exists>r. res = Inr (Some r)")
        case True
        then show ?thesis
          using compute_kind_spec [OF conjunct2 [OF ih]] store_record_slots [OF conjunct2 [OF ih] t1(2,1)] res w'
          by (auto simp: settle_def)
      next
        case False
        then show ?thesis using ih by (auto simp: settle_def split: sum.splits option.splits)
      qed
      then show ?thesis
        using leave [OF settle_keeps] False st' by simp
    qed
  qed
next
  case (4 fuel g c target ch chs st)
  from "4.prems"(1) obtain st1 where ch: "unat ch < length (raw_to_index c)"
    and st1: "compute_one fuel g c target (unat (raw_to_index c ! unat ch)) st = Some st1"
    and st': "compute_children fuel g c target chs st1 = Some st'"
    by (auto simp: bind_eq_Some_conv get_at_Some_iff)
  have one: "keeps st st1 \<and> slots_ok c target (raw_kind g c) (cs_records st1)"
    by (rule "4.IH"(1) [OF _ st1 "4.prems"(2,3)]) (simp add: ch get_at_Some_iff)
  have len: "length (cs_visiting st1) = length (cs_records st1)" using one "4.prems"(2) by (simp add: keeps_def)
  have "keeps st1 st' \<and> slots_ok c target (raw_kind g c) (cs_records st')"
    by (rule "4.IH"(2) [OF _ st1 st' len]) (use ch one in \<open>auto simp: get_at_Some_iff\<close>)
  then show ?case using one keeps_trans by blast
qed simp_all

section \<open>The collector\<close>

lemma errors_ok_default [simp]: "errors_ok errors_default"
  by (simp add: errors_ok_def errors_default_def MAX_DIAGNOSTICS_def)

lemma is_empty_default [simp]: "is_empty errors_default"
  by (simp add: is_empty_def errors_default_def)

lemma push_nonempty: "errors_ok er \<Longrightarrow> \<not> is_empty (push d er)"
  by (auto simp: push_def errors_ok_def is_empty_def Let_def MAX_DIAGNOSTICS_def)

lemma push_ok: "errors_ok er \<Longrightarrow> errors_ok (push d er)"
  by (auto simp: push_def errors_ok_def Let_def MAX_DIAGNOSTICS_def)

lemma limit_ok: "errors_ok er \<Longrightarrow> errors_ok (limit l n er) \<and> \<not> is_empty (limit l n er)"
  using push_ok [of er] push_nonempty [of er] by (auto simp: limit_def errors_ok_def is_empty_def)

lemma limit_at_ok: "errors_ok er \<Longrightarrow> errors_ok (limit_at sp l n er) \<and> \<not> is_empty (limit_at sp l n er)"
  using push_ok [of er] push_nonempty [of er] by (auto simp: limit_at_def errors_ok_def is_empty_def)

lemma grows_refl [simp]: "grows er er"
  by (simp add: grows_def)

lemma grows_trans: "grows a b \<Longrightarrow> grows b c \<Longrightarrow> grows a c"
  by (auto simp: grows_def)

lemma grows_push [simp]: "grows er (push d er)"
  using push_ok push_nonempty by (auto simp: grows_def)

lemma grows_limit [simp]: "grows er (limit l n er)"
  using limit_ok by (auto simp: grows_def)

lemma grows_limit_at [simp]: "grows er (limit_at sp l n er)"
  using limit_at_ok by (auto simp: grows_def)

lemma grows_emptyD: "grows er er' \<Longrightarrow> errors_ok er \<Longrightarrow> is_empty er' \<Longrightarrow> er' = er"
  by (simp add: grows_def)

section \<open>Which graphs the computation accepts\<close>

lemma by_value_subset: "set (by_value_children k) \<subseteq> set (all_children k)"
  by (auto simp: by_value_children_def all_children_def split: type_kind.splits)

lemma raw_kind_in:
  assumes "canonical_ok g c" and "t < length (types g)"
  shows "\<exists>node\<in>set (types g). raw_kind g c t = tn_kind node"
  using assms by (auto simp: canonical_ok_def)

lemma child_range:
  assumes "graph_ok g" and "canonical_ok g c" and "t < length (types g)"
    and "ch \<in> set (all_children (raw_kind g c t))"
  shows "unat ch < length (types g)" "unat (raw_to_index c ! unat ch) < length (types g)"
proof -
  show "unat ch < length (types g)"
    using raw_kind_in [OF assms(2,3)] assms(1,4) by (auto simp: graph_ok_def)
  then show "unat (raw_to_index c ! unat ch) < length (types g)" using assms(2) by (simp add: canonical_ok_def)
qed

lemma value_edges_range:
  assumes "graph_ok g" and "canonical_ok g c" and "(t, u) \<in> value_edges g c"
  shows "t < length (types g)" "u < length (types g)"
  using assms child_range [OF assms(1,2)] by_value_subset by (fastforce simp: value_edges_def)+

lemma layout_fields_total:
  assumes "\<forall>f\<in>set fs. resolved_record (fl_ty f) c records \<noteq> None"
  shows "layout_fields sp c records fs cursor al nd \<noteq> None"
  using assms
  by (induction fs arbitrary: cursor al nd) (auto split: option.splits)

lemma layout_variants_total:
  assumes "\<forall>v\<in>set vs. \<forall>p. vr_payload v = Some p \<longrightarrow> (\<exists>r. resolved_record p c records = Some (Some r))"
  shows "layout_variants c records vs al sz nd \<noteq> None"
  using assms
proof (induction vs arbitrary: al sz nd)
  case (Cons v vs)
  then show ?case by (cases "vr_payload v") (fastforce split: option.splits)+
qed simp

lemma compute_kind_total:
  assumes res: "\<forall>ch\<in>set (by_value_children k). \<exists>r. resolved_record ch c records = Some (Some r)"
    and rng: "\<forall>ch\<in>set (all_children k). unat ch < length (raw_to_index c) \<and>
      unat (raw_to_index c ! unat ch) < length records"
  shows "compute_kind sp i c records target k \<noteq> None"
proof -
  have get: "get_at xs j = Some (xs ! j)" if "j < length xs" for xs :: "'z list" and j
    using that by (simp add: get_at_def)
  show ?thesis
  proof (cases k)
    case (TStruct m d fs)
    then have "\<forall>f\<in>set fs. resolved_record (fl_ty f) c records \<noteq> None"
      using res by (auto simp: by_value_children_def)
    then show ?thesis using TStruct layout_fields_total [of fs c records]
      by (auto simp: compute_kind_def Let_def compute_struct_def)
  next
    case (TEnum m d vs)
    then have "\<forall>v\<in>set vs. \<forall>p. vr_payload v = Some p \<longrightarrow> (\<exists>r. resolved_record p c records = Some (Some r))"
      using res by (force simp: by_value_children_def List.map_filter_def)
    from layout_variants_total [OF this] show ?thesis using TEnum
      by (auto simp: compute_kind_def Let_def compute_enum_def)
  next
    case (TFixedArray e len)
    then show ?thesis using res
      by (auto simp: compute_kind_def Let_def compute_array_def by_value_children_def)
  next
    case (TVec e)
    then show ?thesis using rng
      by (cases target) (auto simp: compute_kind_def Let_def compute_vec_def canonical_type_id_def all_children_def get)
  next
    case (TShared p)
    then show ?thesis using rng
      by (cases target) (auto simp: compute_kind_def Let_def compute_handle_def canonical_type_id_def all_children_def get)
  next
    case (TWeak p)
    then show ?thesis using rng
      by (cases target) (auto simp: compute_kind_def Let_def compute_handle_def canonical_type_id_def all_children_def get)
  qed (auto simp: compute_kind_def Let_def split: prod.splits)
qed

lemma compute_kind_not_silent:
  "(\<And>r. k \<noteq> TBorrow r) \<Longrightarrow> compute_kind sp i c records target k \<noteq> Some (Inr None)"
proof -
  have "map_option (map_sum id Some) x \<noteq> Some (Inr None)" for x :: "(diagnostic + layout_record) option"
  proof (cases x)
    case (Some y)
    then show ?thesis by (cases y) auto
  qed simp
  then show "(\<And>r. k \<noteq> TBorrow r) \<Longrightarrow> ?thesis"
    by (cases k) (auto simp: compute_kind_def Let_def split: prod.splits)
qed

lemma settle_grows: "grows (cs_errors st) (cs_errors (settle t sp res st))"
  by (auto simp: settle_def store_record_def split: sum.splits option.splits)

lemma settle_fills:
  assumes "res \<noteq> Inr None" and "errors_ok (cs_errors st)" and "t < length (cs_records st)"
    and "is_empty (cs_errors (settle t sp res st))"
  shows "cs_records (settle t sp res st) ! t \<noteq> None"
proof (cases res)
  case (Inl d)
  then show ?thesis using assms push_nonempty [OF assms(2)] by (simp add: settle_def)
next
  case (Inr x)
  then obtain r where "x = Some r" using assms(1) by auto
  then show ?thesis using Inr assms push_nonempty [OF assms(2)]
    by (auto simp: settle_def store_record_def split: if_splits)
qed

section \<open>On an acyclic graph the computation returns\<close>

lemma rank_decreases:
  assumes "acyclic r" and "finite r" and "(x, y) \<in> r"
  shows "rank r y < rank r x"
proof -
  have "r\<^sup>+ `` {y} \<subseteq> r\<^sup>+ `` {x}" using assms(3) by (auto intro: trancl_into_trancl2)
  moreover have "y \<in> r\<^sup>+ `` {x}" using assms(3) by auto
  moreover have "y \<notin> r\<^sup>+ `` {y}" using assms(1) by (auto simp: acyclic_def)
  moreover have "finite (r\<^sup>+ `` {x})"
    using finite_trancl [THEN iffD2, OF assms(2)] by (rule finite_Image)
  ultimately show ?thesis unfolding rank_def by (metis psubsetI psubset_card_mono)
qed

lemma rank_bound:
  assumes "r \<subseteq> {..<n} \<times> {..<n}"
  shows "rank r x \<le> n"
proof -
  have "r\<^sup>+ `` {x} \<subseteq> {..<n}" using trancl_subset_Sigma [OF assms] by auto
  then have "card (r\<^sup>+ `` {x}) \<le> card {..<n}" by (intro card_mono) auto
  then show ?thesis by (simp add: rank_def)
qed

lemma ready_keeps:
  assumes "ready g c target st" and "keeps st st'" and "grows (cs_errors st) (cs_errors st')"
    and "slots_ok c target (raw_kind g c) (cs_records st')"
  shows "ready g c target st'"
  using assms by (auto simp: ready_def keeps_def grows_def)

lemma compute_total:
  assumes g: "graph_ok g" and nb: "no_borrow g" and c: "canonical_ok g c"
    and ac: "acyclic (value_edges g c)"
  shows "t < length (types g) \<Longrightarrow> rank (value_edges g c) t < fuel \<Longrightarrow> ready g c target st \<Longrightarrow>
    (\<forall>u. u < length (types g) \<longrightarrow> cs_visiting st ! u \<longrightarrow> (u, t) \<in> (value_edges g c)\<^sup>+) \<Longrightarrow>
    \<exists>st'. compute_one fuel g c target t st = Some st' \<and> grows (cs_errors st) (cs_errors st') \<and>
      (is_empty (cs_errors st') \<longrightarrow> cs_records st' ! t \<noteq> None)"
proof (induction fuel arbitrary: t st)
  case 0
  then show ?case by simp
next
  case (Suc fuel)
  let ?E = "value_edges g c" and ?n = "length (types g)"
  have fin: "finite ?E"
  proof -
    have "?E \<subseteq> {..<?n} \<times> {..<?n}" using value_edges_range [OF g c] by auto
    then show ?thesis by (rule finite_subset) simp
  qed
  note rdy = Suc.prems(3) [unfolded ready_def]
  have busy: "\<not> cs_visiting st ! t" using Suc.prems(1,4) ac by (auto simp: acyclic_def)
  show ?case
  proof (cases "cs_records st ! t = None")
    case False
    then show ?thesis using rdy Suc.prems(1) by (auto simp: get_at_def)
  next
    case True
    let ?node = "types g ! (type_to_raw c ! t)"
    let ?in = "st\<lparr>cs_visiting := (cs_visiting st)[t := True]\<rparr>"
    let ?chs = "by_value_children (tn_kind ?node)"
    have tr: "type_to_raw c ! t < ?n" "t < length (type_to_raw c)"
      using c Suc.prems(1) by (auto simp: canonical_ok_def)
    have visiting: "(u, t) \<in> ?E\<^sup>*" if "u < ?n" "cs_visiting ?in ! u" for u
      using that Suc.prems(4) rdy by (cases "u = t") (auto simp: trancl_into_rtrancl)
    have loop: "\<exists>s'. compute_children fuel g c target chs s = Some s' \<and> grows (cs_errors s) (cs_errors s') \<and>
        (is_empty (cs_errors s') \<longrightarrow> (\<forall>ch\<in>set chs. cs_records s' ! unat (raw_to_index c ! unat ch) \<noteq> None))"
      if "set chs \<subseteq> set ?chs" "ready g c target s" "cs_visiting s = cs_visiting ?in" for chs s
      using that
    proof (induction chs arbitrary: s)
      case Nil
      then show ?case by simp
    next
      case (Cons ch chs)
      let ?u = "unat (raw_to_index c ! unat ch)"
      have e: "(t, ?u) \<in> ?E" using Cons.prems(1) Suc.prems(1) by (auto simp: value_edges_def)
      have u: "?u < ?n" "unat ch < ?n"
        using child_range [OF g c Suc.prems(1)] Cons.prems(1) by_value_subset by auto
      have "rank ?E ?u < fuel" using rank_decreases [OF ac fin e] Suc.prems(2) by simp
      moreover have "\<forall>v. v < ?n \<longrightarrow> cs_visiting s ! v \<longrightarrow> (v, ?u) \<in> ?E\<^sup>+"
        using visiting e Cons.prems(3) by (auto intro: rtrancl_into_trancl1)
      ultimately obtain s1 where s1: "compute_one fuel g c target ?u s = Some s1"
        "grows (cs_errors s) (cs_errors s1)" "is_empty (cs_errors s1) \<longrightarrow> cs_records s1 ! ?u \<noteq> None"
        using Suc.IH [OF u(1) _ Cons.prems(2)] by blast
      have k: "keeps s s1 \<and> slots_ok c target (raw_kind g c) (cs_records s1)"
        using compute_keeps(1) [OF s1(1)] Cons.prems(2) by (auto simp: ready_def)
      have r1: "ready g c target s1" using ready_keeps [OF Cons.prems(2)] k s1(2) by blast
      have "cs_visiting s1 = cs_visiting ?in" using k Cons.prems(3) by (simp add: keeps_def)
      then obtain s' where s': "compute_children fuel g c target chs s1 = Some s'"
        "grows (cs_errors s1) (cs_errors s')"
        "is_empty (cs_errors s') \<longrightarrow> (\<forall>ch\<in>set chs. cs_records s' ! unat (raw_to_index c ! unat ch) \<noteq> None)"
        using Cons.IH [OF _ r1] Cons.prems(1) by auto
      have k': "keeps s1 s'" using compute_keeps(2) [OF s'(1)] r1 by (auto simp: ready_def)
      have fill: "cs_records s' ! ?u \<noteq> None" if "is_empty (cs_errors s')"
      proof -
        have "is_empty (cs_errors s1)" using that s'(2) r1 by (auto simp: grows_def ready_def)
        then have "cs_records s1 ! ?u \<noteq> None" using s1(3) by blast
        then show ?thesis using k' u(1) r1 by (auto simp: keeps_def ready_def)
      qed
      have "get_at (raw_to_index c) (unat ch) = Some (raw_to_index c ! unat ch)"
        using u(2) c by (simp add: get_at_def canonical_ok_def)
      then have "compute_children fuel g c target (ch # chs) s = Some s'" using s1(1) s'(1) by simp
      then show ?case using grows_trans [OF s1(2) s'(2)] s'(3) fill by auto
    qed
    have in_ready: "ready g c target ?in" using Suc.prems(3) by (simp add: ready_def)
    obtain st1 where st1: "compute_children fuel g c target ?chs ?in = Some st1"
      "grows (cs_errors st) (cs_errors st1)"
      "is_empty (cs_errors st1) \<longrightarrow> (\<forall>ch\<in>set ?chs. cs_records st1 ! unat (raw_to_index c ! unat ch) \<noteq> None)"
      using loop [OF subset_refl in_ready refl] by auto
    have k1: "keeps ?in st1 \<and> slots_ok c target (raw_kind g c) (cs_records st1)"
      using compute_keeps(2) [OF st1(1)] in_ready by (auto simp: ready_def)
    have len1: "length (cs_records st1) = ?n" using k1 rdy by (simp add: keeps_def)
    have ok1: "errors_ok (cs_errors st1)" using st1(2) rdy by (simp add: grows_def)
    have slot: "get_at (cs_records st) t = Some None" "get_at (cs_visiting st) t = Some False"
      "get_at (type_to_raw c) t = Some (type_to_raw c ! t)" "get_at (types g) (type_to_raw c ! t) = Some ?node"
      using True busy rdy Suc.prems(1) tr by (simp_all add: get_at_def)
    show ?thesis
    proof (cases "is_empty (cs_errors st1)")
      case False
      then show ?thesis using slot st1(1,2) by (simp add: Let_def)
    next
      case empty: True
      have "t < 2 ^ 32" using Suc.prems(1) g by (simp add: graph_ok_def MAX_TYPE_NODES_def)
      then obtain w where w: "u32_try_from t = Some w" by (simp add: u32_try_from_def)
      have rng: "\<forall>ch\<in>set (all_children (tn_kind ?node)). unat ch < length (raw_to_index c) \<and>
          unat (raw_to_index c ! unat ch) < length (cs_records st1)"
        using child_range [OF g c Suc.prems(1)] len1 c by (auto simp: canonical_ok_def)
      have res: "\<forall>ch\<in>set ?chs. \<exists>r. resolved_record ch c (cs_records st1) = Some (Some r)"
        using st1(3) empty rng by_value_subset
        by (fastforce simp: resolved_record_def get_at_def)
      obtain res where r: "compute_kind (tn_span ?node) \<lparr>ti_universe = cm_universe c, ti_index = w\<rparr> c
          (cs_records st1) target (tn_kind ?node) = Some res"
        using compute_kind_total [OF res rng] by blast
      have "res \<noteq> Inr None"
        using compute_kind_not_silent r nb tr by (metis no_borrow_def nth_mem)
      then show ?thesis
        using slot st1(1,2) empty w r settle_fills [of res st1 t "tn_span ?node"] ok1 len1 Suc.prems(1)
          grows_trans [OF st1(2) settle_grows]
        by (simp add: Let_def)
    qed
  qed
qed

lemma compute_all_total:
  assumes "graph_ok g" and "no_borrow g" and "canonical_ok g c" and "acyclic (value_edges g c)"
    and "\<forall>t. rank (value_edges g c) t < fuel"
  shows "set ts \<subseteq> {..<length (types g)} \<Longrightarrow> ready g c target st \<Longrightarrow>
    (\<forall>u<length (types g). \<not> cs_visiting st ! u) \<Longrightarrow>
    \<exists>st' stopped. compute_all fuel g c target ts st = Some (st', stopped) \<and> ready g c target st' \<and>
      grows (cs_errors st) (cs_errors st') \<and> keeps st st' \<and>
      (is_empty (cs_errors st') \<longrightarrow> \<not> stopped \<and> (\<forall>t\<in>set ts. cs_records st' ! t \<noteq> None))"
proof (induction ts arbitrary: st)
  case Nil
  then show ?case by auto
next
  case (Cons t ts)
  have "t < length (types g)" using Cons.prems(1) by simp
  then obtain st1 where st1: "compute_one fuel g c target t st = Some st1"
    "grows (cs_errors st) (cs_errors st1)" "is_empty (cs_errors st1) \<longrightarrow> cs_records st1 ! t \<noteq> None"
    using compute_total [OF assms(1-4) _ _ Cons.prems(2), of t fuel] Cons.prems(3) assms(5) by blast
  have k: "keeps st st1 \<and> slots_ok c target (raw_kind g c) (cs_records st1)"
    using compute_keeps(1) [OF st1(1)] Cons.prems(2) by (auto simp: ready_def)
  have r1: "ready g c target st1" using ready_keeps [OF Cons.prems(2)] k st1(2) by blast
  show ?case
  proof (cases "er_fatal (cs_errors st1)")
    case True
    then have "\<not> is_empty (cs_errors st1)" using r1 by (auto simp: ready_def errors_ok_def is_empty_def)
    then show ?thesis using True st1 r1 k by auto
  next
    case False
    have "\<forall>u<length (types g). \<not> cs_visiting st1 ! u" using k Cons.prems(3) by (simp add: keeps_def)
    then obtain st' stopped where st': "compute_all fuel g c target ts st1 = Some (st', stopped)"
      "ready g c target st'" "grows (cs_errors st1) (cs_errors st')" "keeps st1 st'"
      "is_empty (cs_errors st') \<longrightarrow> \<not> stopped \<and> (\<forall>t\<in>set ts. cs_records st' ! t \<noteq> None)"
      using Cons.IH [OF _ r1] Cons.prems(1) by auto
    have "cs_records st' ! t \<noteq> None" if "is_empty (cs_errors st')"
    proof -
      have "is_empty (cs_errors st1)" using that st'(3) r1 by (auto simp: grows_def ready_def)
      then show ?thesis using st1(3) st'(4) \<open>t < length (types g)\<close> r1 by (auto simp: keeps_def ready_def)
    qed
    then show ?thesis using st1(1) st' False grows_trans [OF st1(2) st'(3)] keeps_trans [OF conjunct1 [OF k] st'(4)]
      by simp
  qed
qed

section \<open>Complete record lists\<close>

lemma those_Some_iff: "those xs = Some ys \<longleftrightarrow> xs = map Some ys"
  by (induction xs arbitrary: ys) (auto split: option.splits)

lemma those_total: "(\<forall>x\<in>set xs. x \<noteq> None) \<Longrightarrow> \<exists>ys. those xs = Some ys"
  by (induction xs) (auto split: option.splits)

lemma vec_elements_sized_Some:
  assumes "\<forall>r\<in>set rs. \<forall>e. lr_kind r = VVec e \<longrightarrow> unat (ti_index e) < length xs"
  shows "\<exists>res. vec_elements_sized xs rs = Some res \<and>
    (res = Inr () \<longrightarrow> (\<forall>r\<in>set rs. \<forall>e. lr_kind r = VVec e \<longrightarrow> lr_size (xs ! unat (ti_index e)) \<noteq> 0))"
  using assms
proof (induction rs)
  case (Cons r rs)
  then obtain res where "vec_elements_sized xs rs = Some res"
    "res = Inr () \<longrightarrow> (\<forall>r\<in>set rs. \<forall>e. lr_kind r = VVec e \<longrightarrow> lr_size (xs ! unat (ti_index e)) \<noteq> 0)" by auto
  then show ?case using Cons.prems by (cases "lr_kind r") (auto simp: get_at_def)
qed simp

lemma compute_records_total:
  assumes ok: "graph_ok g" "no_borrow g" "canonical_ok g c" "acyclic (value_edges g c)"
    and er: "errors_ok er"
  shows "\<exists>res er'. compute_records g c target er = Some (res, er') \<and> errors_ok er' \<and>
    (is_empty er' \<longrightarrow> er' = er \<and> (\<exists>rs. res = Some rs \<and> records_ok g c target rs))"
proof -
  let ?n = "length (types g)"
  let ?st = "\<lparr>cs_records = replicate ?n None, cs_visiting = replicate ?n False, cs_errors = er\<rparr>"
  have "ready g c target ?st"
    using ok(1) er by (auto simp: ready_def slots_ok_def graph_ok_def)
  moreover have "\<forall>t. rank (value_edges g c) t < Suc ?n"
  proof -
    have "value_edges g c \<subseteq> {..<?n} \<times> {..<?n}" using value_edges_range [OF ok(1,3)] by auto
    from rank_bound [OF this] show ?thesis by (simp add: less_Suc_eq_le)
  qed
  ultimately obtain st stopped where st: "compute_all (Suc ?n) g c target [0..<?n] ?st = Some (st, stopped)"
    "ready g c target st" "grows er (cs_errors st)"
    "is_empty (cs_errors st) \<longrightarrow> \<not> stopped \<and> (\<forall>t<?n. cs_records st ! t \<noteq> None)"
    using compute_all_total [OF ok, of "Suc ?n" "[0..<?n]" target ?st] by (auto simp: atLeast0LessThan)
  have okst: "errors_ok (cs_errors st)" using st(2) by (simp add: ready_def)
  show ?thesis
  proof (cases "stopped \<or> those (cs_records st) = None")
    case True
    have "\<not> is_empty (cs_errors st)"
    proof
      assume e: "is_empty (cs_errors st)"
      then have "\<forall>x\<in>set (cs_records st). x \<noteq> None"
        using st(2,4) by (auto simp: in_set_conv_nth ready_def)
      then show False using True e st(4) those_total by fastforce
    qed
    then show ?thesis using True st okst by (auto simp: compute_records_def Let_def)
  next
    case False
    then obtain rs where rs: "those (cs_records st) = Some rs" by auto
    then have recs: "cs_records st = map Some rs" by (simp add: those_Some_iff)
    have len: "length rs = ?n" using st(2) recs by (simp add: ready_def)
    have slots: "\<forall>t<length rs. slot_ok c target (map Some rs) t (raw_kind g c t) (rs ! t)"
      using st(2) recs by (auto simp: ready_def slots_ok_def)
    have "unat (ti_index e) < length rs" if t: "t < length rs" and k: "lr_kind (rs ! t) = VVec e" for t e
    proof -
      have "kind_matches c (raw_kind g c t) (VVec e)" using slots t k by (auto simp: slot_ok_def)
      then obtain e' where e': "raw_kind g c t = TVec e'" "e = node_type c e'" by (auto simp: kind_matches_def)
      then show ?thesis using child_range [OF ok(1,3), of t e'] t len
        by (simp add: all_children_def node_type_def)
    qed
    then have "\<forall>r\<in>set rs. \<forall>e. lr_kind r = VVec e \<longrightarrow> unat (ti_index e) < length rs"
      by (metis in_set_conv_nth)
    then obtain res where res: "vec_elements_sized rs rs = Some res"
      "res = Inr () \<longrightarrow> (\<forall>r\<in>set rs. \<forall>e. lr_kind r = VVec e \<longrightarrow> lr_size (rs ! unat (ti_index e)) \<noteq> 0)"
      using vec_elements_sized_Some [of rs rs] by blast
    show ?thesis
    proof (cases res)
      case (Inl e)
      then show ?thesis using False st(1) rs res push_ok [OF okst] push_nonempty [OF okst]
        by (auto simp: compute_records_def Let_def)
    next
      case (Inr u)
      then have "records_ok g c target rs" using res(2) len slots by (auto simp: records_ok_def)
      moreover have "compute_records g c target er = Some (Some rs, cs_errors st)"
        using False st(1) rs res Inr by (simp add: compute_records_def Let_def)
      ultimately show ?thesis using okst st(3) er by (auto simp: grows_def)
    qed
  qed
qed
end
