(* ===== verification/Layout_Cycle_Facts.thy ===== *)
theory Layout_Cycle_Facts
  imports Layout_Compute_Facts
begin

text \<open>
  The check for by-value cycles: the two depth-first passes compute a finish order and the components of the
  containment graph, a cycle is found exactly when there is one, and the depth pass measures the longest
  by-value chain.
\<close>

section \<open>Specification vocabulary\<close>

definition adj_edges :: "usize list list \<Rightarrow> (usize \<times> usize) set" where
  "adj_edges adj = {(s, t). s < length adj \<and> t \<in> set (adj ! s)}"

definition wf_adj :: "usize list list \<Rightarrow> bool" where
  "wf_adj adj = (\<forall>s<length adj. \<forall>t\<in>set (adj ! s). t < length adj)"

definition path_stack :: "usize list list \<Rightarrow> usize list \<Rightarrow> bool" where
  "path_stack adj ns = successively (\<lambda>c p. (p, c) \<in> adj_edges adj) ns"

fun children_after :: "usize list list \<Rightarrow> usize list \<Rightarrow> bool" where
  "children_after adj [] = True"
| "children_after adj (u # us) = (set (adj ! u) \<subseteq> set us \<and> children_after adj us)"

text \<open>What holds in every iteration: the visited nodes are the finished ones and those on the stack, the
  stack is a path, every child before the index of a stack entry is visited, and, when the graph is
  acyclic, the children of a finished node were finished before it.\<close>

definition finish_inv :: "usize list list \<Rightarrow> bool list \<Rightarrow> usize list \<Rightarrow> (usize \<times> usize) list \<Rightarrow> bool" where
  "finish_inv adj visited fin stack =
     (length visited = length adj \<and> distinct (fin @ map fst stack) \<and>
      {u. u < length adj \<and> visited ! u} = set fin \<union> fst ` set stack \<and>
      path_stack adj (map fst stack) \<and>
      (\<forall>(n, k)\<in>set stack. n < length adj \<and> (\<forall>j<k. j < length (adj ! n) \<longrightarrow> visited ! (adj ! n ! j))) \<and>
      (acyclic (adj_edges adj) \<longrightarrow> children_after adj fin))"

abbreviation chosen :: "bool list \<Rightarrow> usize set" where
  "chosen bs \<equiv> {u. u < length bs \<and> bs ! u}"

text \<open>The parents of the nodes on the stack lead down the stack to the start.\<close>

fun parent_chain :: "usize option list \<Rightarrow> usize \<Rightarrow> usize list \<Rightarrow> bool" where
  "parent_chain parent start [] = True"
| "parent_chain parent start [n] = (n < length parent \<and> n \<noteq> start \<and> parent ! n = Some start)"
| "parent_chain parent start (n # m # ns) =
     (n < length parent \<and> n \<noteq> start \<and> parent ! n = Some m \<and> parent_chain parent start (m # ns))"

definition cycle_inv ::
    "usize list list \<Rightarrow> usize \<Rightarrow> usize option list \<Rightarrow> bool list \<Rightarrow> (usize \<times> usize) list \<Rightarrow> bool" where
  "cycle_inv adj start parent visited stack =
     (length parent = length adj \<and> length visited = length adj \<and>
      (\<forall>(n, k)\<in>set stack. n < length adj \<and> visited ! n) \<and> parent_chain parent start (map fst stack) \<and>
      path_stack adj (map fst stack) \<and> (stack \<noteq> [] \<longrightarrow> (start, fst (last stack)) \<in> adj_edges adj))"

text \<open>A reported path starts at \<open>start\<close>, follows edges, and closes.\<close>

definition closed_walk :: "usize list list \<Rightarrow> usize list \<Rightarrow> bool" where
  "closed_walk adj ns =
     (ns \<noteq> [] \<and> successively (\<lambda>a b. (a, b) \<in> adj_edges adj) ns \<and> (last ns, hd ns) \<in> adj_edges adj)"

definition cycle_message :: "usize list \<Rightarrow> diagnostic" where
  "cycle_message ns = global_error ''ZRYNA-L3002''
     (''by-value recursive layout through canonical TypeIds ['' @ show_list ns @ '']'')
     ''place recursive ownership behind Vec, Shared, or Weak''"

definition value_chain :: "('a \<times> 'a) set \<Rightarrow> 'a list \<Rightarrow> bool" where
  "value_chain r ns = (ns \<noteq> [] \<and> successively (\<lambda>a b. (a, b) \<in> r) ns)"

text \<open>\<open>d\<close> is the number of nodes on a longest chain from \<open>n\<close>.\<close>

definition is_depth :: "('a \<times> 'a) set \<Rightarrow> 'a \<Rightarrow> nat \<Rightarrow> bool" where
  "is_depth r n d =
     ((\<exists>ns. value_chain r ns \<and> hd ns = n \<and> length ns = d) \<and>
      (\<forall>ns. value_chain r ns \<longrightarrow> hd ns = n \<longrightarrow> length ns \<le> d))"

fun children_before :: "usize list list \<Rightarrow> usize set \<Rightarrow> usize list \<Rightarrow> bool" where
  "children_before adj d [] = True"
| "children_before adj d (n # ns) = (set (adj ! n) \<subseteq> d \<and> children_before adj (insert n d) ns)"

section \<open>Adjacency lists\<close>

lemma canonical_adjacency_total:
  assumes g: "graph_ok g" and c: "canonical_ok g c"
  shows "\<exists>adj. canonical_adjacency g c = Some adj \<and> length adj = length (types g) \<and> wf_adj adj \<and>
    adj_edges adj = value_edges g c"
proof -
  let ?n = "length (types g)"
  let ?kids = "\<lambda>t. map (\<lambda>ch. unat (raw_to_index c ! unat ch)) (by_value_children (raw_kind g c t))"
  have one: "Option.bind (get_at (types g) (type_to_raw c ! t)) (\<lambda>node.
      Option.bind (those (map (\<lambda>ch. map_option unat (get_at (raw_to_index c) (unat ch)))
        (by_value_children (tn_kind node)))) (\<lambda>children. Some (remdups_adj (sort children)))) =
      Some (remdups_adj (sort (?kids t)))" if t: "t < ?n" for t
  proof -
    have "unat ch < length (raw_to_index c)" if "ch \<in> set (by_value_children (raw_kind g c t))" for ch
      using child_range [OF g c t] that by_value_subset c by (auto simp: canonical_ok_def)
    then have "map (\<lambda>ch. map_option unat (get_at (raw_to_index c) (unat ch))) (by_value_children (raw_kind g c t)) =
        map Some (?kids t)" by (simp add: get_at_def)
    then have "those (map (\<lambda>ch. map_option unat (get_at (raw_to_index c) (unat ch)))
        (by_value_children (raw_kind g c t))) = Some (?kids t)" by (simp only: those_Some_iff)
    moreover have "get_at (types g) (type_to_raw c ! t) = Some (types g ! (type_to_raw c ! t))"
      using c t by (simp add: canonical_ok_def get_at_def)
    ultimately show ?thesis by simp
  qed
  let ?adj = "map (\<lambda>t. remdups_adj (sort (?kids t))) [0..<?n]"
  have ttr: "map f (type_to_raw c) = map (\<lambda>t. f (type_to_raw c ! t)) [0..<?n]" for f :: "usize \<Rightarrow> 'z"
    using c by (intro nth_equalityI) (auto simp: canonical_ok_def)
  have "canonical_adjacency g c = those (map (\<lambda>t. Option.bind (get_at (types g) (type_to_raw c ! t)) (\<lambda>node.
      Option.bind (those (map (\<lambda>ch. map_option unat (get_at (raw_to_index c) (unat ch)))
        (by_value_children (tn_kind node)))) (\<lambda>children. Some (remdups_adj (sort children))))) [0..<?n])"
    unfolding canonical_adjacency_def ttr ..
  also have "\<dots> = those (map (\<lambda>t. Some (remdups_adj (sort (?kids t)))) [0..<?n])"
    by (rule arg_cong [where f = those], rule map_cong [OF refl], rule one) simp
  also have "\<dots> = those (map Some ?adj)" by (simp add: comp_def)
  finally have eq: "canonical_adjacency g c = Some ?adj" by (simp add: those_Some_iff)
  have set: "set (?adj ! t) = {u. (t, u) \<in> value_edges g c}" if "t < ?n" for t
    using that by (auto simp: value_edges_def)
  have "adj_edges ?adj = value_edges g c"
    using value_edges_range [OF g c] by (auto simp: adj_edges_def set simp del: nth_map)
  moreover have "wf_adj ?adj"
    using value_edges_range [OF g c] by (auto simp: wf_adj_def set simp del: nth_map)
  ultimately show ?thesis using eq by auto
qed

section \<open>The depth-first search\<close>

lemma path_stack_reach:
  assumes "path_stack adj (x # ns)" and "y \<in> set (x # ns)"
  shows "(y, x) \<in> (adj_edges adj)\<^sup>*"
  using assms
proof (induction ns arbitrary: x)
  case (Cons z ns)
  show ?case
  proof (cases "y = x")
    case False
    then have "(y, z) \<in> (adj_edges adj)\<^sup>*" using Cons by (auto simp: path_stack_def)
    moreover have "(z, x) \<in> adj_edges adj" using Cons.prems(1) by (simp add: path_stack_def)
    ultimately show ?thesis by simp
  qed simp
qed simp

lemma finish_loop_total:
  "wf_adj adj \<Longrightarrow> finish_inv adj visited fin stack \<Longrightarrow>
    \<exists>visited' fin'. finish_loop adj visited fin stack = Some (visited', fin') \<and>
      finish_inv adj visited' fin' [] \<and> (\<forall>u<length adj. visited ! u \<longrightarrow> visited' ! u)"
proof (induction adj visited fin stack rule: finish_loop.induct)
  case (1 adj visited fin)
  then show ?case by simp
next
  case (2 adj visited fin node k stack)
  note inv = "2.prems"(2) [unfolded finish_inv_def]
  have node: "node < length adj" using inv by auto
  then have ga: "get_at adj node = Some (adj ! node)" by (simp add: get_at_def)
  note wf = "2.prems"(1)
  show ?case
  proof (cases "k < length (adj ! node)")
    case True
    let ?child = "adj ! node ! k"
    have gk: "get_at (adj ! node) k = Some ?child" using True by (simp add: get_at_def)
    have ch: "?child < length adj" using wf node True by (auto simp: wf_adj_def)
    then have gv: "get_at visited ?child = Some (visited ! ?child)" using inv by (simp add: get_at_def)
    have upto: "visited ! (adj ! node ! j)" if "j < k" "j < length (adj ! node)" for j
      using inv that by auto
    show ?thesis
    proof (cases "visited ! ?child")
      case vis: True
      have "finish_inv adj visited fin ((node, Suc k) # stack)"
        using inv upto vis by (auto simp: finish_inv_def less_Suc_eq)
      then show ?thesis using "2.IH"(2) [OF ga gk gv _ wf] vis ga gk gv by simp
    next
      case fresh: False
      let ?v = "visited[?child := True]"
      have new: "?child \<notin> set fin \<union> fst ` set ((node, k) # stack)"
        using inv fresh by (metis (mono_tags, lifting) mem_Collect_eq)
      have "{u. u < length adj \<and> ?v ! u} = insert ?child {u. u < length adj \<and> visited ! u}"
        using inv ch by (auto simp: nth_list_update)
      moreover have "path_stack adj (?child # node # map fst stack)"
        using inv node True by (auto simp: path_stack_def adj_edges_def)
      moreover have "?v ! (adj ! n ! j)" if "(n, i) \<in> set stack" "j < i" "j < length (adj ! n)" for n i j
        using inv that ch by (auto simp: nth_list_update)
      moreover have "?v ! (adj ! node ! j)" if "j < Suc k" "j < length (adj ! node)" for j
        using inv upto that ch by (auto simp: nth_list_update less_Suc_eq)
      ultimately have "finish_inv adj ?v fin ((?child, 0) # (node, Suc k) # stack)"
        using inv new ch by (auto simp: finish_inv_def)
      then obtain v' f' where "finish_loop adj ?v fin ((?child, 0) # (node, Suc k) # stack) = Some (v', f')"
        "finish_inv adj v' f' []" "\<forall>u<length adj. ?v ! u \<longrightarrow> v' ! u"
        using "2.IH"(3) [OF ga gk gv _ wf] fresh by auto
      then show ?thesis using fresh ga gk gv inv ch by (auto simp: nth_list_update)
    qed
  next
    case False
    have gk: "get_at (adj ! node) k = None" using False by (simp add: get_at_def)
    have kids: "set (adj ! node) \<subseteq> set fin" if ac: "acyclic (adj_edges adj)"
    proof
      fix ch assume ch: "ch \<in> set (adj ! node)"
      then obtain j where j: "j < length (adj ! node)" "ch = adj ! node ! j" by (metis in_set_conv_nth)
      then have "visited ! ch" "ch < length adj" using inv False wf node ch by (auto simp: wf_adj_def)
      then have "ch \<in> set fin \<union> fst ` set ((node, k) # stack)" using inv by blast
      moreover have "ch \<notin> fst ` set ((node, k) # stack)"
      proof
        assume "ch \<in> fst ` set ((node, k) # stack)"
        then have "(ch, node) \<in> (adj_edges adj)\<^sup>*"
          using path_stack_reach [of adj node "map fst stack" ch] inv by auto
        moreover have "(node, ch) \<in> adj_edges adj" using ch node by (simp add: adj_edges_def)
        ultimately have "(node, node) \<in> (adj_edges adj)\<^sup>+" by (rule rtrancl_into_trancl2 [rotated])
        then show False using ac by (simp add: acyclic_def)
      qed
      ultimately show "ch \<in> set fin" by blast
    qed
    have "finish_inv adj visited (node # fin) stack"
      using inv kids by (auto simp: finish_inv_def path_stack_def successively_Cons)
    then show ?thesis using "2.IH"(1) [OF ga gk wf] ga gk by simp
  qed
qed

lemma finish_roots_total:
  "wf_adj adj \<Longrightarrow> finish_inv adj visited fin [] \<Longrightarrow> set roots \<subseteq> {..<length adj} \<Longrightarrow>
    \<exists>visited' fin'. finish_roots adj roots visited fin = Some fin' \<and> finish_inv adj visited' fin' [] \<and>
      (\<forall>u<length adj. visited ! u \<or> u \<in> set roots \<longrightarrow> visited' ! u)"
proof (induction roots arbitrary: visited fin)
  case (Cons r rs)
  show ?case
  proof (cases "visited ! r")
    case True
    obtain v' f' where "finish_roots adj rs visited fin = Some f'" "finish_inv adj v' f' []"
      "\<forall>u<length adj. visited ! u \<or> u \<in> set rs \<longrightarrow> v' ! u"
      using Cons.IH [OF Cons.prems(1,2)] Cons.prems(3) by auto
    then show ?thesis using True by auto
  next
    case False
    have r: "r < length adj" using Cons.prems(3) by simp
    let ?v = "visited[r := True]"
    note inv = Cons.prems(2) [unfolded finish_inv_def]
    have len: "length visited = length adj" using inv by simp
    have "r \<notin> set fin" using inv False by auto
    moreover have "{u. u < length adj \<and> ?v ! u} = insert r {u. u < length adj \<and> visited ! u}"
      using inv r by (auto simp: nth_list_update)
    ultimately have "finish_inv adj ?v fin [(r, 0)]"
      using inv r by (auto simp: finish_inv_def path_stack_def)
    then obtain v1 f1 where one: "finish_loop adj ?v fin [(r, 0)] = Some (v1, f1)" "finish_inv adj v1 f1 []"
      "\<forall>u<length adj. ?v ! u \<longrightarrow> v1 ! u"
      using finish_loop_total [OF Cons.prems(1)] by blast
    then obtain v' f' where f': "finish_roots adj rs v1 f1 = Some f'" "finish_inv adj v' f' []"
      and "\<forall>u<length adj. v1 ! u \<or> u \<in> set rs \<longrightarrow> v' ! u"
      using Cons.IH [OF Cons.prems(1) one(2)] Cons.prems(3) by auto
    moreover have "v1 ! u" if "u < length adj" "visited ! u \<or> u = r" for u
      using one(3) that len r by (auto simp: nth_list_update)
    ultimately have "\<forall>u<length adj. visited ! u \<or> u \<in> set (r # rs) \<longrightarrow> v' ! u" by simp
    then show ?thesis using False one(1) f' by (auto simp del: finish_loop.simps)
  qed
qed auto

lemma graph_finish_order_total:
  assumes "wf_adj adj"
  shows "\<exists>fin. graph_finish_order_rev adj = Some fin \<and> set fin = {..<length adj} \<and> distinct fin \<and>
    (acyclic (adj_edges adj) \<longrightarrow> children_after adj fin)"
proof -
  have "finish_inv adj (replicate (length adj) False) [] []"
    by (auto simp: finish_inv_def path_stack_def)
  then obtain v fin where "finish_roots adj [0..<length adj] (replicate (length adj) False) [] = Some fin"
    "finish_inv adj v fin []" "\<forall>u<length adj. v ! u"
    using finish_roots_total [OF assms, of "replicate (length adj) False" "[]" "[0..<length adj]"]
    by (auto simp: atLeast0LessThan)
  then show ?thesis by (auto simp: graph_finish_order_rev_def finish_inv_def)
qed

section \<open>Components of the reversed graph\<close>

lemma reverse_edges_total:
  assumes "wf_adj adj"
  shows "\<exists>r. reverse_edges adj = Some r \<and> length r = length adj \<and>
    (\<forall>n<length adj. set (r ! n) = {s. (s, n) \<in> adj_edges adj})"
proof -
  have "list_all (list_all (\<lambda>c. c < length adj)) adj"
    using assms by (metis (no_types, lifting) in_set_conv_nth list_all_iff wf_adj_def)
  then show ?thesis by (auto simp: reverse_edges_def adj_edges_def)
qed

lemma assign_parents_total:
  "set ps \<subseteq> {..<length assigned} \<Longrightarrow>
    \<exists>a p. assign_parents ps assigned pending = Some (a, p) \<and> length a = length assigned \<and>
      {u. u < length a \<and> a ! u} = {u. u < length a \<and> assigned ! u} \<union> set ps \<and>
      set p = set pending \<union> {u \<in> set ps. \<not> assigned ! u}"
proof (induction ps assigned pending rule: assign_parents.induct)
  case (2 p ps assigned pending)
  then have p: "p < length assigned" by simp
  then have g: "get_at assigned p = Some (assigned ! p)" by (simp add: get_at_def)
  show ?case
  proof (cases "assigned ! p")
    case True
    then obtain a q where "assign_parents ps assigned pending = Some (a, q)" "length a = length assigned"
      "{u. u < length a \<and> a ! u} = {u. u < length a \<and> assigned ! u} \<union> set ps"
      "set q = set pending \<union> {u \<in> set ps. \<not> assigned ! u}"
      using 2(1) [OF g] 2(3) by auto
    then show ?thesis using g True p by auto
  next
    case False
    then obtain a q where a: "assign_parents ps (assigned[p := True]) (p # pending) = Some (a, q)"
      "length a = length assigned"
      "{u. u < length a \<and> a ! u} = {u. u < length a \<and> assigned[p := True] ! u} \<union> set ps"
      "set q = set (p # pending) \<union> {u \<in> set ps. \<not> assigned[p := True] ! u}"
      using 2(2) [OF g] 2(3) by auto
    have "{u. u < length a \<and> assigned[p := True] ! u} = insert p {u. u < length a \<and> assigned ! u}"
      using p a(2) by (auto simp: nth_list_update)
    moreover have "set (p # pending) \<union> {u \<in> set ps. \<not> assigned[p := True] ! u} =
        set pending \<union> {u \<in> set (p # ps). \<not> assigned ! u}"
      using p False by (auto simp: nth_list_update)
    ultimately show ?thesis using g False a by auto
  qed
qed auto

text \<open>One component: everything newly assigned is listed, and the listed nodes' parents are assigned.\<close>

lemma component_loop_total:
  assumes par: "\<forall>n<N. set (radj ! n) \<subseteq> {..<N}" and len: "length radj = N"
  shows "length assigned = N \<Longrightarrow> set pending \<subseteq> chosen assigned \<Longrightarrow>
    (\<forall>n\<in>set found. set (radj ! n) \<subseteq> chosen assigned) \<Longrightarrow>
    \<exists>a c. component_loop radj assigned found pending = Some (a, c) \<and> length a = N \<and>
      chosen assigned \<subseteq> chosen a \<and> set c = set found \<union> set pending \<union> (chosen a - chosen assigned) \<and>
      (\<forall>n\<in>set c. set (radj ! n) \<subseteq> chosen a)"
  using par len
proof (induction radj assigned found pending rule: component_loop.induct)
  case (1 radj assigned found)
  then show ?case by simp
next
  case (2 radj assigned found node pending)
  have node: "node < N" using "2.prems"(1,2) by auto
  then have g: "get_at radj node = Some (radj ! node)" using "2.prems"(5) by (simp add: get_at_def)
  have "set (rev (radj ! node)) \<subseteq> {..<length assigned}" using "2.prems"(1,4) node by simp
  from assign_parents_total [OF this, of pending] obtain a1 p1 where
    a1: "assign_parents (rev (radj ! node)) assigned pending = Some (a1, p1)" "length a1 = length assigned"
      "chosen a1 = {u. u < length a1 \<and> assigned ! u} \<union> set (radj ! node)"
      "set p1 = set pending \<union> {u \<in> set (radj ! node). \<not> assigned ! u}" by auto
  have ch1: "chosen a1 = chosen assigned \<union> set (radj ! node)" using a1(2,3) by simp
  have "set p1 \<subseteq> chosen a1" using a1(4) ch1 "2.prems"(2) by auto
  moreover have "\<forall>n\<in>set (found @ [node]). set (radj ! n) \<subseteq> chosen a1" using ch1 "2.prems"(3) by auto
  ultimately obtain a c where ac: "component_loop radj a1 (found @ [node]) p1 = Some (a, c)" "length a = N"
    "chosen a1 \<subseteq> chosen a" "set c = set (found @ [node]) \<union> set p1 \<union> (chosen a - chosen a1)"
    "\<forall>n\<in>set c. set (radj ! n) \<subseteq> chosen a"
    using "2.IH" [OF g a1(1) refl] a1(2) "2.prems"(1,4,5) by auto
  have "set c = set found \<union> set (node # pending) \<union> (chosen a - chosen assigned)"
  proof -
    have rng: "set (radj ! node) \<subseteq> {..<length assigned}" using "2.prems"(1,4) node by simp
    then have fresh: "{u \<in> set (radj ! node). \<not> assigned ! u} = chosen a1 - chosen assigned"
      unfolding ch1 by blast
    have "set p1 = set pending \<union> (chosen a1 - chosen assigned)" using a1(4) unfolding fresh .
    moreover have "chosen assigned \<subseteq> chosen a1" unfolding ch1 by blast
    ultimately show ?thesis using ac(3) unfolding ac(4) set_append list.set by blast
  qed
  moreover have "chosen assigned \<subseteq> chosen a" using ac(3) unfolding ch1 by blast
  ultimately show ?case using g a1(1) ac(1,2,5) by simp
qed

text \<open>No component is reported exactly when there is no cycle.\<close>

lemma pred_closed_reach:
  assumes "\<forall>n\<in>A. {s. (s, n) \<in> r} \<subseteq> A" and "(x, y) \<in> r\<^sup>*" and "y \<in> A"
  shows "x \<in> A"
  using assms(2,3) by (induction rule: converse_rtrancl_induct) (use assms(1) in auto)

lemma cyclic_components_complete:
  assumes r: "length radj = length adj" "\<forall>n<length adj. set (radj ! n) = {s. (s, n) \<in> adj_edges adj}"
  shows "length assigned = length adj \<Longrightarrow> set roots \<subseteq> {..<length adj} \<Longrightarrow>
    (\<forall>n\<in>chosen assigned. {s. (s, n) \<in> adj_edges adj} \<subseteq> chosen assigned) \<Longrightarrow>
    \<exists>cs. cyclic_components adj radj roots assigned = Some cs \<and>
      (\<forall>c\<in>set cs. c \<noteq> [] \<and> set c \<subseteq> {..<length adj}) \<and>
      (cs = [] \<longrightarrow> (\<forall>x\<in>set roots. x \<notin> chosen assigned \<longrightarrow> (x, x) \<notin> (adj_edges adj)\<^sup>+))"
proof (induction roots arbitrary: assigned)
  case (Cons root roots)
  let ?E = "adj_edges adj" and ?N = "length adj"
  show ?case
  proof (cases "assigned ! root")
    case True
    then show ?thesis using Cons by auto
  next
    case False
    have root: "root < ?N" using Cons.prems(2) by simp
    let ?a = "assigned[root := True]"
    have ch: "chosen ?a = insert root (chosen assigned)"
      using root Cons.prems(1) by (auto simp: nth_list_update)
    have "\<forall>n<?N. set (radj ! n) \<subseteq> {..<?N}" using r(2) by (auto simp: adj_edges_def)
    from component_loop_total [OF this r(1), of ?a "[root]" "[]"] obtain a c where
      ac: "component_loop radj ?a [] [root] = Some (a, c)" "length a = ?N" "chosen ?a \<subseteq> chosen a"
        "set c = insert root (chosen a - chosen ?a)" "\<forall>n\<in>set c. set (radj ! n) \<subseteq> chosen a"
      using root Cons.prems(1) by auto
    have c_eq: "set c = chosen a - chosen assigned" using ac(3,4) ch False Cons.prems(1) by auto
    have closed: "\<forall>n\<in>chosen a. {s. (s, n) \<in> ?E} \<subseteq> chosen a"
    proof
      fix n assume n: "n \<in> chosen a"
      show "{s. (s, n) \<in> ?E} \<subseteq> chosen a"
      proof (cases "n \<in> set c")
        case True
        then show ?thesis using ac(5) r(2) n ac(2) by auto
      next
        case False
        then have "n \<in> chosen assigned" using n c_eq by auto
        then show ?thesis using Cons.prems(3) ac(3) ch by blast
      qed
    qed
    obtain cs where cs: "cyclic_components adj radj roots a = Some cs"
      "\<forall>c\<in>set cs. c \<noteq> [] \<and> set c \<subseteq> {..<?N}"
      "cs = [] \<longrightarrow> (\<forall>x\<in>set roots. x \<notin> chosen a \<longrightarrow> (x, x) \<notin> ?E\<^sup>+)"
      using Cons.IH [OF ac(2) _ closed] Cons.prems(2) by auto
    have c: "c \<noteq> []" "set c \<subseteq> {..<?N}" using ac(2,4) root by (auto simp: set_empty [symmetric] simp del: set_empty)
    have sorted_c: "sort c \<noteq> []" using c(1) by (metis length_0_conv length_sort)
    have cyc: "1 < length c \<or> root \<in> set (adj ! root)" if x: "x \<in> set c" "(x, x) \<in> ?E\<^sup>+" for x
    proof (rule ccontr)
      assume no: "\<not> (1 < length c \<or> root \<in> set (adj ! root))"
      have "root \<in> set c" using ac(4) by simp
      then have "c = [root]" using no by (cases c) auto
      then have xr: "x = root" using x(1) by simp
      from x(2) obtain z where z: "(x, z) \<in> ?E\<^sup>*" "(z, x) \<in> ?E" by (meson tranclD2)
      have "z \<in> chosen a" using closed z(2) x(1) c_eq by blast
      moreover have "z \<notin> chosen assigned"
        using pred_closed_reach [OF Cons.prems(3) z(1)] x(1) c_eq by blast
      ultimately have "z = root" using c_eq \<open>c = [root]\<close> by auto
      then show False using z(2) xr no by (simp add: adj_edges_def)
    qed
    show ?thesis
    proof (cases "1 < length c \<or> root \<in> set (adj ! root)")
      case True
      then show ?thesis using False ac(1) cs(1,2) c sorted_c by (auto simp del: component_loop.simps)
    next
      case no: False
      then have "(x, x) \<notin> ?E\<^sup>+" if "x \<in> set (root # roots)" "x \<notin> chosen assigned" "cs = []" for x
        using that cyc cs(3) c_eq ac(4) by (cases "x \<in> chosen a") auto
      then show ?thesis using False ac(1) cs(1,2) no by (auto simp del: component_loop.simps)
    qed
  qed
qed simp

lemma assign_parents_assigned:
  "\<forall>p\<in>set ps. p < length assigned \<and> assigned ! p \<Longrightarrow>
     assign_parents ps assigned pending = Some (assigned, pending)"
  by (induction ps) (auto simp: get_at_def)

lemma children_after_mem: "children_after adj us \<Longrightarrow> u \<in> set us \<Longrightarrow> set (adj ! u) \<subseteq> set us"
  by (induction us) auto

lemma cyclic_components_sound:
  assumes r: "length radj = length adj" "\<forall>n<length adj. set (radj ! n) = {s. (s, n) \<in> adj_edges adj}"
  shows "length assigned = length adj \<Longrightarrow> set roots \<subseteq> {..<length adj} \<Longrightarrow> distinct roots \<Longrightarrow>
    children_after adj roots \<Longrightarrow> chosen assigned \<union> set roots = {..<length adj} \<Longrightarrow>
    cyclic_components adj radj roots assigned = Some []"
proof (induction roots arbitrary: assigned)
  case (Cons root roots)
  have root: "root < length adj" using Cons.prems(2) by simp
  have self: "root \<notin> set (adj ! root)" using Cons.prems(3,4) by auto
  have parents: "p \<in> chosen assigned" if "p \<in> set (radj ! root)" for p
  proof -
    have e: "p < length adj" "root \<in> set (adj ! p)" using r(2) root that by (auto simp: adj_edges_def)
    have "p \<notin> set roots" using children_after_mem [of adj roots p] Cons.prems(3,4) e(2) by auto
    moreover have "p \<noteq> root" using self e(2) by auto
    ultimately show ?thesis using Cons.prems(5) e(1) by auto
  qed
  show ?case
  proof (cases "assigned ! root")
    case True
    then have "root \<in> chosen assigned" using root Cons.prems(1) by simp
    then have "chosen assigned \<union> set (root # roots) = chosen assigned \<union> set roots" by (simp add: insert_absorb)
    then have "chosen assigned \<union> set roots = {..<length adj}" using Cons.prems(5) by (simp only:)
    then show ?thesis using Cons.IH [of assigned] Cons.prems(1-4) True by simp
  next
    case False
    let ?a = "assigned[root := True]"
    have "get_at radj root = Some (radj ! root)" using root r(1) by (simp add: get_at_def)
    moreover have "assign_parents (rev (radj ! root)) ?a [] = Some (?a, [])"
      using parents root Cons.prems(1) by (intro assign_parents_assigned) (auto simp: nth_list_update)
    ultimately have loop: "component_loop radj ?a [] [root] = Some (?a, [root])" by simp
    have "chosen ?a = insert root (chosen assigned)"
      using root Cons.prems(1) by (auto simp: nth_list_update)
    then have "chosen ?a \<union> set roots = chosen assigned \<union> set (root # roots)" by simp
    then have "chosen ?a \<union> set roots = {..<length adj}" using Cons.prems(5) by (simp only:)
    then have "cyclic_components adj radj roots ?a = Some []"
      using Cons.IH [of ?a] Cons.prems(1-4) by simp
    then show ?thesis using False self loop by (simp del: component_loop.simps)
  qed
qed simp

section \<open>The reported cycle\<close>

lemma trace_back_chain:
  "parent_chain parent start (n # ns) \<Longrightarrow> trace_back parent start n acc = Some (rev (n # ns) @ acc)"
proof (induction ns arbitrary: n acc)
  case Nil
  then show ?case by (simp add: trace_back.simps [of _ _ n] trace_back.simps [of _ _ start] get_at_def)
next
  case (Cons m ns)
  then show ?case by (simp add: trace_back.simps [of _ _ n] get_at_def)
qed

lemma parent_chain_update:
  "parent_chain parent start ns \<Longrightarrow> v \<notin> set ns \<Longrightarrow> parent_chain (parent[v := p]) start ns"
  by (induction parent start ns rule: parent_chain.induct) auto

lemma cycle_loop_total:
  "wf_adj adj \<Longrightarrow> cycle_inv adj start parent visited stack \<Longrightarrow>
     \<exists>res. cycle_loop adj members start parent visited stack = Some res \<and>
       (\<forall>ns. res = Inl ns \<longrightarrow> closed_walk adj ns)"
proof (induction adj members start parent visited stack rule: cycle_loop.induct)
  case (1 adj members start parent visited)
  then show ?case by simp
next
  case (2 adj members start parent visited node k stack)
  note inv = "2.prems"(2) [unfolded cycle_inv_def]
  have node: "node < length adj" using inv by auto
  then have ga: "get_at adj node = Some (adj ! node)" by (simp add: get_at_def)
  show ?case
  proof (cases "k < length (adj ! node)")
    case False
    then have gk: "get_at (adj ! node) k = None" by (simp add: get_at_def)
    have "parent_chain parent start (map fst stack)" "path_stack adj (map fst stack)"
      using inv by (cases stack; auto simp: path_stack_def split: list.splits)+
    then have "cycle_inv adj start parent visited stack"
      using inv by (auto simp: cycle_inv_def split: if_splits)
    then show ?thesis using "2.IH"(1) [OF ga gk "2.prems"(1)] ga gk by simp
  next
    case True
    let ?child = "adj ! node ! k"
    have gk: "get_at (adj ! node) k = Some ?child" using True by (simp add: get_at_def)
    have ch: "?child < length adj" using "2.prems"(1) node True by (auto simp: wf_adj_def)
    have gv: "get_at visited ?child = Some (visited ! ?child)" using inv ch by (simp add: get_at_def)
    have edge: "(node, ?child) \<in> adj_edges adj" using node True by (simp add: adj_edges_def)
    have next_inv: "cycle_inv adj start parent visited ((node, Suc k) # stack)"
      using inv by (auto simp: cycle_inv_def split: if_splits)
    show ?thesis
    proof (cases "?child \<notin> set members")
      case True
      then show ?thesis using "2.IH"(2) [OF ga gk True "2.prems"(1) next_inv] ga gk by simp
    next
      case mem: False
      show ?thesis
      proof (cases "?child = start")
        case True
        have "trace_back parent start node [] = Some (rev (node # map fst stack))"
          using trace_back_chain [of parent start node "map fst stack" "[]"] inv by simp
        moreover have "closed_walk adj (start # rev (node # map fst stack))"
          using inv edge True
          by (auto simp: closed_walk_def path_stack_def successively_rev successively_Cons successively_append_iff
              hd_append hd_rev last_rev last_map split: if_splits)
        ultimately show ?thesis using mem True ga gk by simp
      next
        case other: False
        show ?thesis
        proof (cases "visited ! ?child")
          case True
          then show ?thesis using "2.IH"(3) [OF ga gk _ other gv _ "2.prems"(1) next_inv] mem other ga gk gv by simp
        next
          case False
          have fresh: "?child \<notin> fst ` set ((node, k) # stack)" using inv False by auto
          have "cycle_inv adj start (parent[?child := Some node]) (visited[?child := True])
              ((?child, 0) # (node, Suc k) # stack)"
            using inv fresh ch edge other parent_chain_update [of parent start "node # map fst stack" ?child "Some node"]
            by (auto simp: cycle_inv_def path_stack_def nth_list_update split: if_splits)
          then show ?thesis using "2.IH"(4) [OF ga gk _ other gv _ "2.prems"(1)] mem other ga gk gv False by simp
        qed
      qed
    qed
  qed
qed

lemma cycle_firsts_total:
  assumes "wf_adj adj" and "start < length adj" and "start \<notin> set (adj ! start)"
  shows "set firsts \<subseteq> set (adj ! start) \<Longrightarrow> \<exists>ns. cycle_firsts adj members start firsts = Some ns"
proof (induction firsts)
  case (Cons f fs)
  have f: "f < length adj" "f \<noteq> start" "(start, f) \<in> adj_edges adj"
    using Cons.prems assms by (auto simp: wf_adj_def adj_edges_def)
  then have "cycle_inv adj start ((replicate (length adj) None)[f := Some start])
      ((replicate (length adj) False)[start := True, f := True]) [(f, 0)]"
    by (auto simp: cycle_inv_def path_stack_def)
  from cycle_loop_total [OF assms(1) this, of members] Cons show ?case
    by (auto simp del: cycle_loop.simps split: sum.splits)
qed simp

lemma component_cycle_total:
  assumes "wf_adj adj" and "c \<noteq> []" and "set c \<subseteq> {..<length adj}"
  shows "\<exists>ns. deterministic_component_cycle adj c = Some ns"
proof -
  have "hd c < length adj" using assms(2,3) by (cases c) auto
  then show ?thesis using cycle_firsts_total [OF assms(1)] by (auto simp: deterministic_component_cycle_def Let_def)
qed

section \<open>The by-value check\<close>

lemma depth_loop_grows: "grows er (depth_loop adj ns ds er)"
  by (induction adj ns ds er rule: depth_loop.induct) (auto simp: Let_def)

lemma reject_by_value_cycles_cases:
  assumes g: "graph_ok g" and c: "canonical_ok g c"
  shows "(acyclic (value_edges g c) \<and>
      (\<exists>adj fin. reject_by_value_cycles g c er =
         Some (depth_loop adj (rev fin) (replicate (length adj) 1) er) \<and> length adj = length (types g) \<and>
         adj_edges adj = value_edges g c \<and> set fin = {..<length adj} \<and> distinct fin \<and> children_after adj fin)) \<or>
    (\<not> acyclic (value_edges g c) \<and>
      (\<exists>ns. reject_by_value_cycles g c er = Some (push (cycle_message ns) er)))"
proof -
  obtain adj where adj: "canonical_adjacency g c = Some adj" "length adj = length (types g)" "wf_adj adj"
    "adj_edges adj = value_edges g c" using canonical_adjacency_total [OF g c] by blast
  obtain fin where fin: "graph_finish_order_rev adj = Some fin" "set fin = {..<length adj}" "distinct fin"
    "acyclic (adj_edges adj) \<longrightarrow> children_after adj fin" using graph_finish_order_total [OF adj(3)] by blast
  obtain radj where r: "reverse_edges adj = Some radj" "length radj = length adj"
    "\<forall>n<length adj. set (radj ! n) = {s. (s, n) \<in> adj_edges adj}"
    using reverse_edges_total [OF adj(3)] by blast
  let ?none = "replicate (length adj) False"
  have none: "chosen ?none = {}" by auto
  obtain cs where cs: "cyclic_components adj radj fin ?none = Some cs"
    "\<forall>c\<in>set cs. c \<noteq> [] \<and> set c \<subseteq> {..<length adj}"
    "cs = [] \<longrightarrow> (\<forall>x\<in>set fin. x \<notin> chosen ?none \<longrightarrow> (x, x) \<notin> (adj_edges adj)\<^sup>+)"
    using cyclic_components_complete [OF r(2,3), of ?none fin] fin(2) unfolding none by auto
  show ?thesis
  proof (cases "sort cs")
    case Nil
    then have "cs = []" by (metis length_0_conv length_sort)
    have "x < length adj" if "(x, x) \<in> (adj_edges adj)\<^sup>+" for x
      using tranclD [OF that] by (auto simp: adj_edges_def)
    then have ac: "acyclic (adj_edges adj)" using cs(3) \<open>cs = []\<close> fin(2) by (auto simp: acyclic_def)
    have "reject_by_value_cycles g c er = Some (depth_loop adj (rev fin) (replicate (length adj) 1) er)"
      using adj(1) fin(1) r(1) cs(1) Nil by (simp add: reject_by_value_cycles_def)
    then show ?thesis
      by (intro disjI1 conjI exI [of _ adj] exI [of _ fin]) (use ac adj fin in auto)
  next
    case (Cons comp rest)
    then have "comp \<in> set cs" by (metis list.set_intros(1) set_sort)
    then obtain ns where ns: "deterministic_component_cycle adj comp = Some ns"
      using component_cycle_total [OF adj(3)] cs(2) by blast
    have "\<not> acyclic (adj_edges adj)"
    proof
      assume "acyclic (adj_edges adj)"
      then have "cyclic_components adj radj fin ?none = Some []"
        using cyclic_components_sound [OF r(2,3), of ?none fin] fin unfolding none by auto
      then show False using cs(1) \<open>comp \<in> set cs\<close> by simp
    qed
    moreover have "reject_by_value_cycles g c er = Some (push (cycle_message ns) er)"
      using adj(1) fin(1) r(1) cs(1) Cons ns by (simp add: reject_by_value_cycles_def cycle_message_def)
    ultimately show ?thesis using adj(4) by auto
  qed
qed

lemma reject_by_value_cycles_total:
  assumes "graph_ok g" and "canonical_ok g c"
  shows "\<exists>er'. reject_by_value_cycles g c er = Some er' \<and> grows er er' \<and>
    (errors_ok er \<longrightarrow> is_empty er' \<longrightarrow> acyclic (value_edges g c))"
  using reject_by_value_cycles_cases [OF assms, of er] depth_loop_grows push_nonempty by fastforce

section \<open>By-value depth\<close>

lemma is_depth_step:
  assumes kids: "\<forall>c\<in>set cs. is_depth r c (f c)" and succ: "set cs = {c. (n, c) \<in> r}"
  shows "is_depth r n (Suc (foldr max (map f cs) 0))"
proof -
  let ?m = "foldr max (map f cs) 0"
  have le: "f c \<le> ?m" if "c \<in> set cs" for c using that by (induction cs) auto
  have eq: "?m = 0 \<or> (\<exists>c\<in>set cs. ?m = f c)" by (induction cs) (auto simp: max_def)
  have "\<exists>ns. value_chain r ns \<and> hd ns = n \<and> length ns = Suc ?m"
  proof (cases "?m = 0")
    case True
    then show ?thesis by (intro exI [of _ "[n]"]) (simp add: value_chain_def)
  next
    case False
    then obtain c where c: "c \<in> set cs" "?m = f c" using eq by auto
    then obtain ns where "value_chain r ns" "hd ns = c" "length ns = f c" using kids by (auto simp: is_depth_def)
    moreover have "(n, c) \<in> r" using c(1) succ by blast
    ultimately show ?thesis using c(2)
      by (intro exI [of _ "n # ns"]) (auto simp: value_chain_def successively_Cons)
  qed
  moreover have "length ns \<le> Suc ?m" if ns: "value_chain r ns" "hd ns = n" for ns
  proof (cases ns)
    case (Cons a rest)
    show ?thesis
    proof (cases rest)
      case (Cons b tail)
      then have "(n, b) \<in> r" "value_chain r rest" "hd rest = b"
        using ns \<open>ns = a # rest\<close> by (auto simp: value_chain_def)
      moreover from this have "b \<in> set cs" using succ by blast
      ultimately have "length rest \<le> f b" "f b \<le> ?m" using kids le by (auto simp: is_depth_def)
      then show ?thesis using \<open>ns = a # rest\<close> by simp
    qed (use Cons in simp)
  qed simp
  ultimately show ?thesis by (auto simp: is_depth_def)
qed

lemma children_before_append:
  "children_before adj d (xs @ ys) \<longleftrightarrow> children_before adj d xs \<and> children_before adj (d \<union> set xs) ys"
  by (induction xs arbitrary: d) (auto simp: insert_commute)

lemma children_before_rev: "children_after adj ns \<Longrightarrow> children_before adj {} (rev ns)"
  by (induction ns) (auto simp: children_before_append)

lemma depth_loop_exact:
  "children_before adj d ns \<Longrightarrow> set ns \<subseteq> {..<length adj} \<Longrightarrow> length ds = length adj \<Longrightarrow> distinct ns \<Longrightarrow>
   d \<inter> set ns = {} \<Longrightarrow>
   (\<forall>n\<in>d. is_depth (adj_edges adj) n (ds ! n)) \<Longrightarrow> (\<forall>n\<in>d. ds ! n \<le> MAX_TRAVERSAL_DEPTH) \<Longrightarrow>
   (depth_loop adj ns ds er = er \<and> (\<forall>n\<in>d \<union> set ns. \<exists>k\<le>MAX_TRAVERSAL_DEPTH. is_depth (adj_edges adj) n k)) \<or>
   (depth_loop adj ns ds er = limit ''by-value traversal depth'' MAX_TRAVERSAL_DEPTH er \<and>
     (\<exists>n k. MAX_TRAVERSAL_DEPTH < k \<and> is_depth (adj_edges adj) n k))"
proof (induction ns arbitrary: d ds)
  case (Cons n ns)
  let ?k = "Suc (foldr max (map (\<lambda>c. ds ! c) (adj ! n)) 0)"
  have n: "n < length adj" using Cons.prems(2) by simp
  have k: "is_depth (adj_edges adj) n ?k"
    by (rule is_depth_step) (use Cons.prems n in \<open>auto simp: adj_edges_def\<close>)
  show ?case
  proof (cases "MAX_TRAVERSAL_DEPTH < ?k")
    case True
    then show ?thesis using k by (auto simp: Let_def)
  next
    case False
    have eq: "depth_loop adj (n # ns) ds er = depth_loop adj ns (ds[n := ?k]) er" using False by (simp add: Let_def)
    have "\<forall>m\<in>insert n d. is_depth (adj_edges adj) m (ds[n := ?k] ! m) \<and> ds[n := ?k] ! m \<le> MAX_TRAVERSAL_DEPTH"
      using Cons.prems(3,6,7) n k False by (auto simp: nth_list_update)
    then show ?thesis using Cons.IH [of "insert n d" "ds[n := ?k]"] Cons.prems unfolding eq by auto
  qed
qed (auto)

text \<open>The check passes exactly on the graphs whose by-value edges have no cycle and no chain of more
  than \<open>MAX_TRAVERSAL_DEPTH\<close> types.\<close>

lemma reject_by_value_cycles_exact:
  assumes g: "graph_ok g" and c: "canonical_ok g c"
  shows "reject_by_value_cycles g c errors_default = Some errors_default \<longleftrightarrow>
    acyclic (value_edges g c) \<and> (\<forall>ns. value_chain (value_edges g c) ns \<longrightarrow> length ns \<le> MAX_TRAVERSAL_DEPTH)"
proof -
  have lim: "limit l n errors_default \<noteq> errors_default" for l n
    using limit_ok [OF errors_ok_default] is_empty_default by metis
  have psh: "push d errors_default \<noteq> errors_default" for d
    using push_nonempty [OF errors_ok_default] is_empty_default by metis
  from reject_by_value_cycles_cases [OF assms, of errors_default] show ?thesis
  proof (elim disjE conjE exE)
    fix adj fin
    assume a: "acyclic (value_edges g c)" "length adj = length (types g)" "adj_edges adj = value_edges g c"
      "reject_by_value_cycles g c errors_default =
         Some (depth_loop adj (rev fin) (replicate (length adj) 1) errors_default)"
      "set fin = {..<length adj}" "distinct fin" "children_after adj fin"
    have rng: "x < length adj" if "(x, y) \<in> value_edges g c \<or> (y, x) \<in> value_edges g c" for x y
      using that value_edges_range [OF g c] a(2) by auto
    have dl: "(depth_loop adj (rev fin) (replicate (length adj) 1) errors_default = errors_default \<and>
        (\<forall>n<length adj. \<exists>k\<le>MAX_TRAVERSAL_DEPTH. is_depth (value_edges g c) n k)) \<or>
      (depth_loop adj (rev fin) (replicate (length adj) 1) errors_default =
         limit ''by-value traversal depth'' MAX_TRAVERSAL_DEPTH errors_default \<and>
       (\<exists>n k. MAX_TRAVERSAL_DEPTH < k \<and> is_depth (value_edges g c) n k))"
      using depth_loop_exact [OF children_before_rev [OF a(7)], of "replicate (length adj) 1" errors_default]
      unfolding a(3) using a(5,6) by auto
    consider (ok) "depth_loop adj (rev fin) (replicate (length adj) 1) errors_default = errors_default"
        "\<forall>n<length adj. \<exists>k\<le>MAX_TRAVERSAL_DEPTH. is_depth (value_edges g c) n k"
      | (deep) "depth_loop adj (rev fin) (replicate (length adj) 1) errors_default \<noteq> errors_default"
        "\<exists>n k. MAX_TRAVERSAL_DEPTH < k \<and> is_depth (value_edges g c) n k"
      using dl lim by metis
    then show ?thesis
    proof cases
      case ok
      have "length ns \<le> MAX_TRAVERSAL_DEPTH" if ns: "value_chain (value_edges g c) ns" for ns
      proof (cases "hd ns < length adj")
        case True
        then show ?thesis using ok(2) ns by (force simp: is_depth_def)
      next
        case False
        then have "length ns \<le> 1" using ns rng by (cases ns; cases "tl ns") (auto simp: value_chain_def)
        then show ?thesis by (simp add: MAX_TRAVERSAL_DEPTH_def)
      qed
      then show ?thesis using ok(1) a by simp
    next
      case deep
      then have "\<exists>ns. value_chain (value_edges g c) ns \<and> MAX_TRAVERSAL_DEPTH < length ns"
        by (auto simp: is_depth_def)
      then show ?thesis using deep(1) a by (auto simp: not_less [symmetric])
    qed
  next
    fix ns
    assume "\<not> acyclic (value_edges g c)"
      "reject_by_value_cycles g c errors_default = Some (push (cycle_message ns) errors_default)"
    then show ?thesis using psh by simp
  qed
qed
end
