(* ===== verification/Layout_Facts.thy ===== *)
theory Layout_Facts
  imports Layout_Cycle_Facts
begin

text \<open>
  What \<open>verify\<close> of \<open>crates/zryna-layout/src/lib.rs\<close> promises: the structural checks and the canonical
  keys establish the assumptions of the later phases, no phase reaches a panic of the source, and an accepted
  snapshot is the mathematical layout of the graph on both targets. The diagnostic collector keeps the least
  diagnostics. SHA-256 is a parameter of which nothing is assumed.
\<close>

section \<open>Specification vocabulary\<close>

definition node_ok :: "type_graph \<Rightarrow> type_node \<Rightarrow> bool" where
  "node_ok g node =
     ((\<forall>ch\<in>set (all_children (tn_kind node)). valid_ref g ch) \<and>
      fst (member_and_edge_count (tn_kind node)) \<le> MAX_MEMBERS_PER_DECLARATION \<and>
      (\<forall>e len. tn_kind node = TFixedArray e len \<longrightarrow> len \<le> MAX_ARRAY_LENGTH))"

text \<open>The own bytes of a key and the node whose key follows them.\<close>

definition key_prefix_of :: "type_kind \<Rightarrow> bytes" where
  "key_prefix_of k =
     (case k of
        TBool \<Rightarrow> [0x00] | TI32 \<Rightarrow> [0x01] | TString \<Rightarrow> [0x02]
      | TStruct m d _ \<Rightarrow> 0x10 # u32_le m @ u32_le d
      | TEnum m d _ \<Rightarrow> 0x11 # u32_le m @ u32_le d
      | TFixedArray _ len \<Rightarrow> 0x20 # u32_le (of_nat (unat len))
      | TVec _ \<Rightarrow> [0x21] | TShared _ \<Rightarrow> [0x22] | TWeak _ \<Rightarrow> [0x23] | TBorrow _ \<Rightarrow> [])"

definition key_child_of :: "type_kind \<Rightarrow> usize option" where
  "key_child_of k =
     (case k of TFixedArray e _ \<Rightarrow> Some (unat e) | TVec e \<Rightarrow> Some (unat e) | TShared p \<Rightarrow> Some (unat p)
      | TWeak p \<Rightarrow> Some (unat p) | _ \<Rightarrow> None)"

definition key_shape :: "type_graph \<Rightarrow> (usize \<Rightarrow> canonical_key option) \<Rightarrow> usize \<Rightarrow> canonical_key \<Rightarrow> bool" where
  "key_shape g look i key =
     (let k = tn_kind (types g ! i)
      in (\<forall>r. k \<noteq> TBorrow r) \<and> take (unat (key_prefix_len key)) (key_prefix key) = key_prefix_of k \<and>
         key_child key = key_child_of k \<and>
         (case key_child_of k of
            None \<Rightarrow> key_encoded_len key = length (key_prefix_of k)
          | Some c \<Rightarrow> \<exists>ck. look c = Some ck \<and>
              key_encoded_len key = length (key_prefix_of k) + 4 + key_encoded_len ck))"

definition filled :: "'a option list \<Rightarrow> nat" where
  "filled xs = length (filter (\<lambda>x. x \<noteq> None) xs)"

text \<open>States of the key construction.\<close>

definition key_inv :: "type_graph \<Rightarrow> key_state \<Rightarrow> bool" where
  "key_inv g ks =
     (length (ks_states ks) = length (types g) \<and> length (ks_keys ks) = length (types g) \<and>
      errors_ok (ks_errors ks) \<and>
      (\<forall>j<length (types g). ks_states ks ! j \<in> {0, 1, 2} \<and>
         (ks_states ks ! j \<noteq> 2 \<longrightarrow> ks_keys ks ! j = None) \<and>
         (is_empty (ks_errors ks) \<longrightarrow> ks_states ks ! j = 2 \<longrightarrow> ks_keys ks ! j \<noteq> None) \<and>
         (\<forall>key. ks_keys ks ! j = Some key \<longrightarrow>
            key_shape g (\<lambda>c. ks_keys ks ! c) j key \<and> key_encoded_len key \<le> 13 * filled (ks_keys ks))))"

text \<open>A call touches only nodes that were not started.\<close>

definition key_step :: "key_state \<Rightarrow> key_state \<Rightarrow> bool" where
  "key_step ks ks' =
     (grows (ks_errors ks) (ks_errors ks') \<and>
      (\<forall>j<length (ks_states ks). ks_states ks ! j \<noteq> 0 \<longrightarrow>
         ks_states ks' ! j = ks_states ks ! j \<and> ks_keys ks' ! j = ks_keys ks ! j))"

definition build_ok :: "type_graph \<Rightarrow> usize \<Rightarrow> key_state \<Rightarrow> key_state option \<Rightarrow> bool" where
  "build_ok g i ks res =
     (\<exists>ks'. res = Some ks' \<and> key_inv g ks' \<and> key_step ks ks' \<and>
        (is_empty (ks_errors ks') \<longrightarrow> ks_states ks' ! i = 2))"

text \<open>The keys of all nodes, once none is missing.\<close>

definition keys_ok :: "type_graph \<Rightarrow> canonical_key list \<Rightarrow> bool" where
  "keys_ok g keys =
     (length keys = length (types g) \<and>
      (\<forall>i<length keys. key_shape g (\<lambda>c. Some (keys ! c)) i (keys ! i) \<and>
         key_encoded_len (keys ! i) \<le> 13 * MAX_TYPE_NODES))"

text \<open>The outcome of \<open>verify\<close>: diagnostics of a nonempty collector, or a snapshot whose records are right
  for both targets.\<close>

definition verify_accepts ::
    "(bytes \<Rightarrow> bytes) \<Rightarrow> type_graph \<Rightarrow> source_map \<Rightarrow> storage_target \<Rightarrow> canonical_map \<Rightarrow> verified_layouts \<Rightarrow> bool" where
  "verify_accepts sha256 g sources target c v =
     (graph_ok g \<and> (\<forall>node\<in>set (types g). node_ok g node) \<and> no_borrow g \<and> canonical_ok g c \<and>
      acyclic (value_edges g c) \<and> records_ok g c target (vl_records v) \<and>
      v = \<lparr>vl_source_map = sm_id sources, vl_universe = cm_universe c, vl_target = target,
           vl_records = vl_records v,
           vl_fingerprint = sha256 (layout_document target (vl_records v))\<rparr>)"

definition failed :: "(diagnostic list + 'a) option \<Rightarrow> bool" where
  "failed r = (\<exists>er. errors_ok er \<and> \<not> is_empty er \<and> r = Some (Inl (finish er)))"

definition collect :: "diagnostic list \<Rightarrow> errors" where
  "collect ds = foldl (\<lambda>er d. push d er) errors_default ds"

definition diagnostic_key :: "diagnostic \<Rightarrow> retained_key" where
  "diagnostic_key d = compare_retained (retained_new d)"

text \<open>The collector keeps the least \<open>MAX_DIAGNOSTICS - 1\<close> keys.\<close>

definition retained_keys :: "errors \<Rightarrow> retained_key list" where
  "retained_keys er = map compare_retained (er_diagnostics er)"

text \<open>The type identities that a verified kind names.\<close>

definition kind_types :: "verified_kind \<Rightarrow> type_id list" where
  "kind_types k =
     (case k of
        VStruct _ _ fs \<Rightarrow> map vf_ty fs
      | VEnum _ _ vs _ _ \<Rightarrow> List.map_filter vv_payload vs
      | VFixedArray e _ _ \<Rightarrow> [e]
      | VVec e \<Rightarrow> [e]
      | VShared p \<Rightarrow> [p]
      | VWeak p \<Rightarrow> [p]
      | _ \<Rightarrow> [])"

text \<open>What of a verified kind does not depend on the storage target.\<close>

definition erase_layout :: "verified_kind \<Rightarrow> verified_kind" where
  "erase_layout k =
     (case k of
        VStruct m d fs \<Rightarrow> VStruct m d (map (\<lambda>f. f\<lparr>vf_offset := 0\<rparr>) fs)
      | VEnum m d vs _ _ \<Rightarrow> VEnum m d vs 0 0
      | VFixedArray e len _ \<Rightarrow> VFixedArray e len 0
      | _ \<Rightarrow> k)"

definition budget_exhausted :: diagnostic where
  "budget_exhausted = global_error ''ZRYNA-L3201'' ''layout diagnostic budget exhausted''
     ''fix the earliest reported layout errors and verify again''"

definition sample_span :: "u32 \<Rightarrow> span" where
  "sample_span i = \<lparr>span_file = \<lparr>source_map_id = 1, fid_index = i\<rparr>, span_start = 0, span_end = 0\<rparr>"

definition sample_graph :: type_graph where
  "sample_graph =
     \<lparr>modules = [\<lparr>md_id = 0, md_source_file = \<lparr>source_map_id = 1, fid_index = 0\<rparr>, md_data_declarations = 1\<rparr>,
        \<lparr>md_id = 1, md_source_file = \<lparr>source_map_id = 1, fid_index = 1\<rparr>, md_data_declarations = 0\<rparr>],
      types = [\<lparr>tn_id = 0, tn_span = None, tn_kind = TVec 1\<rparr>,
        \<lparr>tn_id = 1, tn_span = Some (sample_span 0),
         tn_kind = TStruct 0 0 [\<lparr>fl_ordinal = 0, fl_ty = 3\<rparr>, \<lparr>fl_ordinal = 1, fl_ty = 2\<rparr>]\<rparr>,
        \<lparr>tn_id = 2, tn_span = None, tn_kind = TI32\<rparr>,
        \<lparr>tn_id = 3, tn_span = None, tn_kind = TBool\<rparr>,
        \<lparr>tn_id = 4, tn_span = None, tn_kind = TString\<rparr>],
      program_roots = [0]\<rparr>"

text \<open>A stand-in for SHA-256 with a result of the right length.\<close>

definition sample_sha :: "bytes \<Rightarrow> bytes" where
  "sample_sha bs = replicate 32 (of_nat (length bs))"

definition sample_layouts :: "storage_target \<Rightarrow> verified_layouts" where
  "sample_layouts target = projr (the (verify sample_sha sample_graph sample_map target))"

definition sample_keys :: "canonical_key list" where
  "sample_keys = the (fst (the (canonical_keys sample_graph errors_default)))"

definition sample_canonical :: canonical_map where
  "sample_canonical = \<lparr>raw_to_index = [4, 3, 1, 0, 2], type_to_raw = [3, 2, 4, 1, 0], cm_universe = replicate 32 125\<rparr>"

definition sample_type :: "u32 \<Rightarrow> type_id" where
  "sample_type i = \<lparr>ti_universe = replicate 32 125, ti_index = i\<rparr>"

definition sample_records :: "storage_target \<Rightarrow> layout_record list" where
  "sample_records target =
     (let w = fst (word_layout target)
      in [\<lparr>lr_id = sample_type 0, lr_kind = VBool, lr_size = 1, lr_alignment = 1, lr_drop_kind = 0, lr_runtime_kind = 0\<rparr>,
          \<lparr>lr_id = sample_type 1, lr_kind = VI32, lr_size = 4, lr_alignment = 4, lr_drop_kind = 0, lr_runtime_kind = 0\<rparr>,
          \<lparr>lr_id = sample_type 2, lr_kind = VString, lr_size = 3 * w, lr_alignment = w, lr_drop_kind = 2, lr_runtime_kind = 2\<rparr>,
          \<lparr>lr_id = sample_type 3,
           lr_kind = VStruct 0 0 [\<lparr>vf_ordinal = 0, vf_ty = sample_type 0, vf_offset = 0\<rparr>,
             \<lparr>vf_ordinal = 1, vf_ty = sample_type 1, vf_offset = 4\<rparr>],
           lr_size = 8, lr_alignment = 4, lr_drop_kind = 0, lr_runtime_kind = 0\<rparr>,
          \<lparr>lr_id = sample_type 4, lr_kind = VVec (sample_type 3), lr_size = 3 * w, lr_alignment = w,
           lr_drop_kind = 3, lr_runtime_kind = 3\<rparr>])"

section \<open>What the structural checks establish\<close>

lemma valid_ref_range: "valid_ref g i \<Longrightarrow> unat i < length (types g)"
  by (auto simp: valid_ref_def get_at_def split: if_splits)

lemma grows_if: "grows er er' \<Longrightarrow> grows er (if b then er' else er)" "grows er er' \<Longrightarrow> grows er (if b then er else er')"
  by auto

lemma verify_nominal_ref_grows: "grows er (verify_nominal_ref g sp m d er)"
  by (simp add: verify_nominal_ref_def)

lemma verify_fields_grows: "grows er (verify_fields g sp i fs er)"
proof (induction fs arbitrary: i er)
  case (Cons f fs)
  then show ?case using grows_trans [OF _ Cons] by simp
qed simp

lemma verify_variants_grows: "grows er (verify_variants g sp i vs er)"
proof (induction vs arbitrary: i er)
  case (Cons v vs)
  then show ?case using grows_trans [OF _ Cons] by simp
qed simp

lemma verify_fields_ok:
  "errors_ok er \<Longrightarrow> is_empty (verify_fields g sp i fs er) \<Longrightarrow> \<forall>f\<in>set fs. valid_ref g (fl_ty f)"
proof (induction fs arbitrary: i er)
  case (Cons f fs)
  let ?er = "if fl_ordinal f \<noteq> ordinal_of i \<or> \<not> valid_ref g (fl_ty f)
        then push (error_at sp ''ZRYNA-L3003'' ''struct fields have a noncanonical ordinal or unknown type''
               ''use dense source ordinals and graph-local type references'') er
        else er"
  have "grows er ?er" by simp
  then have ok: "errors_ok ?er" using Cons.prems(1) unfolding grows_def by blast
  have rest: "is_empty (verify_fields g sp (Suc i) fs ?er)" using Cons.prems(2) by (simp only: verify_fields.simps)
  have empty: "is_empty ?er" using verify_fields_grows [of ?er g sp "Suc i" fs] ok rest unfolding grows_def by blast
  have "valid_ref g (fl_ty f)"
  proof (rule ccontr)
    assume "\<not> valid_ref g (fl_ty f)"
    then show False using empty push_nonempty [OF Cons.prems(1)] by simp
  qed
  then show ?case using Cons.IH [OF ok rest] by simp
qed simp

lemma verify_variants_ok:
  "errors_ok er \<Longrightarrow> is_empty (verify_variants g sp i vs er) \<Longrightarrow>
     \<forall>v\<in>set vs. \<forall>p. vr_payload v = Some p \<longrightarrow> valid_ref g p"
proof (induction vs arbitrary: i er)
  case (Cons v vs)
  let ?er = "if vr_ordinal v \<noteq> ordinal_of i \<or> (case vr_payload v of Some p \<Rightarrow> \<not> valid_ref g p | None \<Rightarrow> False)
        then push (error_at sp ''ZRYNA-L3003''
               ''enum variants have a noncanonical ordinal or unknown payload type''
               ''use dense source ordinals and graph-local payload references'') er
        else er"
  have "grows er ?er" by simp
  then have ok: "errors_ok ?er" using Cons.prems(1) unfolding grows_def by blast
  have rest: "is_empty (verify_variants g sp (Suc i) vs ?er)" using Cons.prems(2) by (simp only: verify_variants.simps)
  have empty: "is_empty ?er" using verify_variants_grows [of ?er g sp "Suc i" vs] ok rest unfolding grows_def by blast
  have "\<forall>p. vr_payload v = Some p \<longrightarrow> valid_ref g p"
  proof (intro allI impI, rule ccontr)
    fix p assume "vr_payload v = Some p" "\<not> valid_ref g p"
    then show False using empty push_nonempty [OF Cons.prems(1)] by simp
  qed
  then show ?case using Cons.IH [OF ok rest] by simp
qed simp

lemma verify_container_grows: "grows er (verify_container g sp e er)"
  by (simp add: verify_container_def)

lemma verify_primitive_grows: "grows er (verify_primitive sp er)"
  by (simp add: verify_primitive_def)

lemmas shape_grows = verify_nominal_ref_grows verify_fields_grows verify_variants_grows
  verify_container_grows verify_primitive_grows

lemma grows_nominal:
  "grows er (if b then push d (verify_nominal_ref g sp m k er) else verify_nominal_ref g sp m k er)"
  using grows_trans [OF verify_nominal_ref_grows grows_push] verify_nominal_ref_grows by simp

lemma verify_node_shape_grows: "grows er (verify_node_shape g node er)"
  using grows_trans [OF grows_nominal verify_fields_grows] grows_trans [OF grows_nominal verify_variants_grows]
  by (cases "tn_kind node") (simp_all add: verify_node_shape_def Let_def shape_grows)

lemma verify_node_shape_ok:
  assumes ok: "errors_ok er" and e: "is_empty (verify_node_shape g node er)"
  shows "(\<forall>ch\<in>set (all_children (tn_kind node)). valid_ref g ch) \<and>
    (\<forall>el len. tn_kind node = TFixedArray el len \<longrightarrow> len \<le> MAX_ARRAY_LENGTH)"
proof (cases "tn_kind node")
  case (TStruct m d fs)
  let ?er = "if fs = [] then push (error_at (tn_span node) ''ZRYNA-L3003''
      ''a stored struct must contain at least one field'' ''add a field or remove the declaration'')
      (verify_nominal_ref g (tn_span node) m d er) else verify_nominal_ref g (tn_span node) m d er"
  have "errors_ok ?er" using grows_nominal ok by (auto simp: grows_def)
  moreover have "is_empty (verify_fields g (tn_span node) 0 fs ?er)"
    using e TStruct by (simp add: verify_node_shape_def Let_def)
  ultimately show ?thesis using TStruct verify_fields_ok by (auto simp: all_children_def)
next
  case (TEnum m d vs)
  let ?er = "if vs = [] then push (error_at (tn_span node) ''ZRYNA-L3003''
      ''a stored enum must contain at least one variant'' ''add a variant or remove the declaration'')
      (verify_nominal_ref g (tn_span node) m d er) else verify_nominal_ref g (tn_span node) m d er"
  have "errors_ok ?er" using grows_nominal ok by (auto simp: grows_def)
  moreover have "is_empty (verify_variants g (tn_span node) 0 vs ?er)"
    using e TEnum by (simp add: verify_node_shape_def Let_def)
  ultimately have "\<forall>v\<in>set vs. \<forall>p. vr_payload v = Some p \<longrightarrow> valid_ref g p" using verify_variants_ok by blast
  then show ?thesis using TEnum by (auto simp: all_children_def List.map_filter_def)
qed (use e push_nonempty [OF ok] in \<open>auto simp: verify_node_shape_def Let_def all_children_def
    verify_container_def split: if_splits\<close>)

lemma verify_node_source_total:
  assumes "wf_source_map sources"
  shows "\<exists>er'. verify_node_source g node sources er = Some er' \<and> grows er er'"
proof -
  have "sm_resolve sources sp \<noteq> None" for sp
    using sm_resolve_total [OF assms] by (cases "validated_source sources sp") (force simp: sm_resolve_def)+
  then have r: "\<exists>y. sm_resolve sources sp = Some y" for sp by auto
  show ?thesis
  proof (cases "nominal_identity (tn_kind node)")
    case (Some md)
    show ?thesis
    proof (cases "tn_span node")
      case sp: (Some sp)
      obtain y where "sm_resolve sources sp = Some y" using r by blast
      then show ?thesis using Some sp by (cases y; cases md) (auto simp: verify_node_source_def Let_def)
    qed (use Some in \<open>cases md; simp add: verify_node_source_def\<close>)
  qed (simp add: verify_node_source_def)
qed

lemma preflight_modules_grows:
  "case preflight_modules sources i ms er of Inl er' \<Rightarrow> grows er er' \<and> (errors_ok er \<longrightarrow> \<not> is_empty er')
   | Inr er' \<Rightarrow> grows er er'"
proof (induction ms arbitrary: i er)
  case (Cons m ms)
  show ?case
  proof (cases "u32_try_from i")
    case None
    then show ?thesis using limit_ok by simp
  next
    case (Some w)
    let ?er = "if md_id m \<noteq> w \<or> verify_file_id sources w \<noteq> Inr (md_source_file m)
             then push (global_error ''ZRYNA-L3001''
                    (''module #'' @ show_nat i @ '' has a noncanonical or foreign identity'')
                    ''bind dense modules to FileIds from the exact final SourceMap'') er
             else er"
    have gr: "grows er ?er" by simp
    have eq: "preflight_modules sources i (m # ms) er = preflight_modules sources (Suc i) ms ?er"
      using Some by simp
    have ok: "errors_ok er \<Longrightarrow> errors_ok ?er" using gr unfolding grows_def by blast
    show ?thesis unfolding eq
    proof (cases "preflight_modules sources (Suc i) ms ?er")
      case (Inl e)
      then show "case preflight_modules sources (Suc i) ms ?er of
          Inl er' \<Rightarrow> grows er er' \<and> (errors_ok er \<longrightarrow> \<not> is_empty er') | Inr er' \<Rightarrow> grows er er'"
        using Cons [of ?er "Suc i"] grows_trans [OF gr] ok by (simp only: sum.case) blast
    next
      case (Inr e)
      then show "case preflight_modules sources (Suc i) ms ?er of
          Inl er' \<Rightarrow> grows er er' \<and> (errors_ok er \<longrightarrow> \<not> is_empty er') | Inr er' \<Rightarrow> grows er er'"
        using Cons [of ?er "Suc i"] grows_trans [OF gr] by (simp only: sum.case)
    qed
  qed
qed simp

lemma preflight_nodes_total:
  assumes "wf_source_map sources"
  shows "errors_ok er \<Longrightarrow> \<exists>res. preflight_nodes g sources i ns members edges er = Some res \<and>
    (case res of Inl er' \<Rightarrow> grows er er' \<and> \<not> is_empty er'
     | Inr er' \<Rightarrow> grows er er' \<and> (is_empty er' \<longrightarrow> (\<forall>node\<in>set ns. node_ok g node)))"
proof (induction ns arbitrary: i members edges er)
  case (Cons node ns)
  show ?case
  proof (cases "u32_try_from i")
    case None
    then show ?thesis using limit_ok [OF Cons.prems] by simp
  next
    case (Some w)
    let ?er = "if tn_id node \<noteq> w
             then push (error_at (tn_span node) ''ZRYNA-L3001''
                    (''type node #'' @ show_nat i @ '' has a duplicate or missing dense identity'')
                    ''provide graph-local node IDs exactly once in dense order'') er
             else er"
    obtain lm le where mc: "member_and_edge_count (tn_kind node) = (lm, le)" by fastforce
    have ok: "errors_ok ?er" and gr: "grows er ?er" using push_ok [OF Cons.prems] Cons.prems by simp_all
    obtain er1 where er1: "verify_node_source g node sources (verify_node_shape g node ?er) = Some er1"
      "grows (verify_node_shape g node ?er) er1"
      using verify_node_source_total [OF assms] by blast
    have ok1: "errors_ok (verify_node_shape g node ?er)" "errors_ok er1"
      using verify_node_shape_grows [of ?er g node] ok er1(2) by (auto simp: grows_def)
    have gr1: "grows er er1" using gr verify_node_shape_grows er1(2) grows_trans by blast
    note unfold = preflight_nodes.simps(2) [of g sources i node ns members edges er, unfolded Some mc,
        simplified option.case Let_def prod.case]
    show ?thesis
    proof (cases "MAX_MEMBERS_PER_DECLARATION < lm \<or> checked_budget_total members lm MAX_MEMBERS = None \<or>
        checked_budget_total edges le MAX_DEPENDENCY_EDGES = None")
      case True
      then show ?thesis
        using limit_ok [OF ok] limit_at_ok [OF ok] grows_trans [OF gr] unfolding unfold
        by (auto split: option.splits)
    next
      case False
      then obtain m' e' where b: "checked_budget_total members lm MAX_MEMBERS = Some m'"
        "checked_budget_total edges le MAX_DEPENDENCY_EDGES = Some e'" "\<not> MAX_MEMBERS_PER_DECLARATION < lm" by auto
      show ?thesis
      proof (cases "er_fatal er1")
        case True
        then have "\<not> is_empty er1" using ok1(2) by (auto simp: errors_ok_def is_empty_def)
        then show ?thesis using True b er1(1) gr1 unfolding unfold by simp
      next
        case False
        obtain res where res: "preflight_nodes g sources (Suc i) ns m' e' er1 = Some res"
          "case res of Inl er' \<Rightarrow> grows er1 er' \<and> \<not> is_empty er'
           | Inr er' \<Rightarrow> grows er1 er' \<and> (is_empty er' \<longrightarrow> (\<forall>node\<in>set ns. node_ok g node))"
          using Cons.IH [OF ok1(2)] by blast
        have nd: "node_ok g node" if "is_empty er'" "grows er1 er'" for er'
        proof -
          have "is_empty er1" using that ok1(2) by (auto simp: grows_def)
          then have "is_empty (verify_node_shape g node ?er)" using er1(2) ok1(1) by (auto simp: grows_def)
          then show ?thesis using verify_node_shape_ok [OF ok] b(3) mc by (simp add: node_ok_def)
        qed
        have "preflight_nodes g sources i (node # ns) members edges er = Some res"
          using False b er1(1) res(1) unfolding unfold by simp
        then show ?thesis using res(2) nd grows_trans [OF gr1] by (auto split: sum.splits)
      qed
    qed
  qed
qed simp

lemma nominal_scan_grows: "grows er (snd (nominal_scan ns seen er))"
proof (induction ns seen er rule: nominal_scan.induct)
  case (2 node ns seen er)
  show ?case
  proof (cases "nominal_identity (tn_kind node)")
    case (Some i)
    show ?thesis
    proof (cases "i \<in> set seen")
      case True
      then show ?thesis using Some grows_trans [OF grows_push "2.IH"(2) [OF Some True]] by simp
    qed (use Some "2.IH"(3) [OF Some] in simp)
  qed (use "2.IH"(1) in simp)
qed simp

lemma verify_nominal_inventory_grows: "grows er (verify_nominal_inventory g er)"
proof (cases "nominal_scan (types g) [] er")
  case (Pair seen er1)
  then have "grows er er1" using nominal_scan_grows [of er "types g" "[]"] by simp
  then show ?thesis using Pair grows_trans [OF _ grows_push] by (simp add: verify_nominal_inventory_def)
qed

lemma verify_reachability_grows: "grows er (verify_reachability g er)"
  by (auto simp: verify_reachability_def Let_def split: option.splits)

lemma preflight_total:
  assumes "wf_source_map sources"
  shows "\<exists>er. preflight g sources errors_default = Some er \<and> errors_ok er \<and>
    (is_empty er \<longrightarrow> er = errors_default \<and> graph_ok g \<and> (\<forall>node\<in>set (types g). node_ok g node))"
proof (cases "MAX_TYPE_NODES < length (types g)")
  case True
  then show ?thesis using limit_ok [OF errors_ok_default] by (simp add: preflight_def)
next
  case False
  let ?e1 = "if length (modules g) \<noteq> sm_len sources
             then push (global_error ''ZRYNA-L3001'' ''module inventory does not match the final source map''
                    ''provide every final module exactly once in canonical source order'') errors_default
             else errors_default"
  have g1: "grows errors_default ?e1" by simp
  show ?thesis
  proof (cases "preflight_modules sources 0 (modules g) ?e1")
    case (Inl er)
    then have "errors_ok er" "\<not> is_empty er"
      using preflight_modules_grows [where er = ?e1 and i = 0 and ms = "modules g" and sources = sources] g1 by (auto simp: grows_def)
    then show ?thesis using Inl False by (simp add: preflight_def Let_def)
  next
    case (Inr er)
    have g2: "grows errors_default er"
      using Inr preflight_modules_grows [where er = ?e1 and i = 0 and ms = "modules g" and sources = sources] grows_trans [OF g1] by simp
    then have "errors_ok er" by (simp add: grows_def)
    from preflight_nodes_total [OF assms this, of g 0 "types g" 0 0] obtain res where
      res: "preflight_nodes g sources 0 (types g) 0 0 er = Some res"
        "case res of Inl er' \<Rightarrow> grows er er' \<and> \<not> is_empty er'
         | Inr er' \<Rightarrow> grows er er' \<and> (is_empty er' \<longrightarrow> (\<forall>node\<in>set (types g). node_ok g node))" by blast
    show ?thesis
    proof (cases res)
      case (Inl er3)
      then have "errors_ok er3" "\<not> is_empty er3" using res(2) g2 by (auto simp: grows_def)
      then show ?thesis using Inl Inr False res(1) by (simp add: preflight_def Let_def)
    next
      case in3: (Inr er3)
      let ?e4 = "if primitive_counts g \<noteq> [1, 1, 1]
                 then push (global_error ''ZRYNA-L3001''
                        ''the type universe must contain exactly one bool, i32, and String node''
                        ''provide the complete canonical primitive universe exactly once'') er3
                 else er3"
      let ?e5 = "verify_reachability g (verify_nominal_inventory g ?e4)"
      have out: "preflight g sources errors_default = Some ?e5"
        using Inr in3 False res(1) by (simp add: preflight_def Let_def)
      have "grows er3 ?e4" by simp
      then have g45: "grows er3 ?e5"
        using grows_trans [OF verify_nominal_inventory_grows verify_reachability_grows] grows_trans by blast
      have g3: "grows errors_default er3" using grows_trans [OF g2] res(2) in3 by simp
      have g35: "grows errors_default ?e5" using grows_trans [OF g3 g45] .
      have "graph_ok g \<and> (\<forall>node\<in>set (types g). node_ok g node)" if "is_empty ?e5"
      proof -
        have "errors_ok er3" using g3 by (simp add: grows_def)
        then have "is_empty er3" using that g45 unfolding grows_def by blast
        then have "\<forall>node\<in>set (types g). node_ok g node" using res(2) in3 by simp
        then show ?thesis using False valid_ref_range by (auto simp: graph_ok_def node_ok_def)
      qed
      moreover have "errors_ok ?e5 \<and> (is_empty ?e5 \<longrightarrow> ?e5 = errors_default)"
        using g35 errors_ok_default unfolding grows_def by blast
      ultimately show ?thesis using out by blast
    qed
  qed
qed

section \<open>Canonical keys\<close>

lemma length_key_prefix: "length (key_prefix_of k) \<le> 9"
  by (auto simp: key_prefix_of_def split: type_kind.splits)

lemma key_newD:
  assumes "key_new p c n = Some key"
  shows "take (unat (key_prefix_len key)) (key_prefix key) = p" "key_child key = c"
    "key_encoded_len key = length p + (if c = None then 0 else 4 + n)"
proof -
  have "length p \<le> 9" using assms by (auto simp: key_new_def split: if_splits)
  then have "unat (of_nat (length p) :: u8) = length p" by (simp add: unat_of_nat take_bit_nat_def)
  then show "take (unat (key_prefix_len key)) (key_prefix key) = p" "key_child key = c"
    "key_encoded_len key = length p + (if c = None then 0 else 4 + n)"
    using assms by (auto simp: key_new_def bind_eq_Some_conv usize_checked_add_def split: if_splits)
qed

lemma key_new_total:
  assumes "length p \<le> 9" and "c \<noteq> None \<longrightarrow> n \<le> 13 * MAX_TYPE_NODES"
  shows "key_new p c n \<noteq> None"
  using assms by (auto simp: key_new_def usize_checked_add_def MAX_TYPE_NODES_def)

lemma filled_update:
  "i < length xs \<Longrightarrow> xs ! i = None \<Longrightarrow> filled (xs[i := Some y]) = Suc (filled xs)"
proof (induction xs arbitrary: i)
  case (Cons x xs)
  then show ?case by (cases i) (auto simp: filled_def)
qed simp

lemma filled_le: "filled xs \<le> length xs"
  by (simp add: filled_def)

lemma key_step_refl [simp]: "key_step ks ks"
  by (simp add: key_step_def)

lemma key_shape_mono:
  assumes "key_shape g look i key" and "\<And>c ck. key_child_of (tn_kind (types g ! i)) = Some c \<Longrightarrow> look c = Some ck \<Longrightarrow> look' c = Some ck"
  shows "key_shape g look' i key"
  using assms by (fastforce simp: key_shape_def Let_def split: option.splits)

lemma key_done_inv:
  assumes inv: "key_inv g ks" and g: "length (types g) \<le> MAX_TYPE_NODES"
    and i: "i < length (types g)" "ks_states ks ! i = 1"
    and key: "key = None \<longrightarrow> \<not> is_empty (ks_errors ks)"
      "\<And>k. key = Some k \<Longrightarrow> key_shape g (\<lambda>c. ks_keys ks ! c) i k \<and> key_encoded_len k \<le> 13 * Suc (filled (ks_keys ks))"
  shows "key_inv g (key_done i key ks)"
proof -
  note I = inv [unfolded key_inv_def]
  have none: "ks_keys ks ! i = None" using I i by auto
  have fl: "filled (ks_keys ks) \<le> filled ((ks_keys ks)[i := key])"
    using filled_update [of i "ks_keys ks"] none i I by (cases key) (auto simp: list_update_id [of "ks_keys ks" i, unfolded none])
  have fl2: "key \<noteq> None \<Longrightarrow> filled ((ks_keys ks)[i := key]) = Suc (filled (ks_keys ks))"
    using filled_update [of i "ks_keys ks"] none i I by auto
  have shape: "key_shape g (\<lambda>c. (ks_keys ks)[i := key] ! c) j k" if "key_shape g (\<lambda>c. ks_keys ks ! c) j k" for j k
    by (rule key_shape_mono [OF that]) (metis none nth_list_update_neq option.distinct(1))
  show ?thesis unfolding key_inv_def
  proof (intro conjI allI impI)
    fix j assume j: "j < length (types g)"
    show "ks_states (key_done i key ks) ! j \<in> {0, 1, 2}"
      using I i j by (cases "j = i") (auto simp: key_done_def)
    show "ks_keys (key_done i key ks) ! j = None" if "ks_states (key_done i key ks) ! j \<noteq> 2"
      using that I i j by (cases "j = i") (auto simp: key_done_def)
    show "ks_keys (key_done i key ks) ! j \<noteq> None"
      if "is_empty (ks_errors (key_done i key ks))" "ks_states (key_done i key ks) ! j = 2"
      using that I i j key(1) by (cases "j = i") (auto simp: key_done_def)
    fix k assume k: "ks_keys (key_done i key ks) ! j = Some k"
    show "key_shape g (\<lambda>c. ks_keys (key_done i key ks) ! c) j k"
      using k shape key(2) I i j by (cases "j = i") (auto simp: key_done_def)
    show "key_encoded_len k \<le> 13 * filled (ks_keys (key_done i key ks))"
    proof (cases "j = i")
      case True
      then have "key = Some k" using k i I by (simp add: key_done_def)
      then show ?thesis using key(2) fl2 by (simp add: key_done_def)
    next
      case False
      then have "ks_keys ks ! j = Some k" using k by (simp add: key_done_def)
      then have "key_encoded_len k \<le> 13 * filled (ks_keys ks)" using I j by blast
      then show ?thesis using fl by (simp add: key_done_def)
    qed
  qed (use I in \<open>auto simp: key_done_def\<close>)
qed

lemma key_done_leaf:
  assumes inv: "key_inv g ks" and g: "length (types g) \<le> MAX_TYPE_NODES"
    and i: "i < length (types g)" "ks_states ks ! i = 1"
    and k: "tn_kind (types g ! i) = k" "\<forall>r. k \<noteq> TBorrow r" "key_child_of k = None"
  shows "key_inv g (key_done i (key_new (key_prefix_of k) None 0) ks)"
proof -
  obtain key where key: "key_new (key_prefix_of k) None 0 = Some key"
    using key_new_total [of "key_prefix_of k" None 0] length_key_prefix by auto
  note d = key_newD [OF key]
  have "key_shape g (\<lambda>c. ks_keys ks ! c) i key" using d k by (simp add: key_shape_def)
  moreover have "key_encoded_len key \<le> 13 * Suc (filled (ks_keys ks))"
    using d(3) length_key_prefix [of k] by simp
  ultimately show ?thesis using key key_done_inv [OF inv g i, of "Some key"] by simp
qed

lemma container_done_total:
  assumes inv: "key_inv g ks" and g: "length (types g) \<le> MAX_TYPE_NODES"
    and i: "i < length (types g)" "ks_states ks ! i = 1"
    and k: "tn_kind (types g ! i) = k" "\<forall>r. k \<noteq> TBorrow r" "key_child_of k = Some c" "c < length (types g)"
    and c: "is_empty (ks_errors ks) \<longrightarrow> ks_states ks ! c = 2"
  shows "\<exists>key. container_done i (key_prefix_of k) c ks = Some (key_done i key ks) \<and> key_inv g (key_done i key ks)"
proof -
  note I = inv [unfolded key_inv_def]
  have get: "get_at (ks_keys ks) c = Some (ks_keys ks ! c)" using I k(4) by (simp add: get_at_def)
  show ?thesis
  proof (cases "ks_keys ks ! c")
    case None
    then have "\<not> is_empty (ks_errors ks)" using I k(4) c by auto
    then show ?thesis using get None key_done_inv [OF inv g i, of None]
      by (auto simp: container_done_def)
  next
    case (Some ck)
    then have ck: "key_encoded_len ck \<le> 13 * filled (ks_keys ks)" using I k(4) by auto
    also have "\<dots> \<le> 13 * MAX_TYPE_NODES" using filled_le [of "ks_keys ks"] I g by auto
    finally obtain key where key: "key_new (key_prefix_of k) (Some c) (key_encoded_len ck) = Some key"
      using key_new_total [of "key_prefix_of k" "Some c" "key_encoded_len ck"] length_key_prefix by auto
    note d = key_newD [OF key]
    have "key_shape g (\<lambda>c. ks_keys ks ! c) i key" using d k Some by (simp add: key_shape_def)
    moreover have "key_encoded_len key \<le> 13 * Suc (filled (ks_keys ks))"
      using d(3) ck length_key_prefix [of k] by simp
    ultimately show ?thesis using get Some key key_done_inv [OF inv g i, of "Some key"]
      by (auto simp: container_done_def)
  qed
qed

lemma key_done_step:
  assumes "key_step (ks\<lparr>ks_states := (ks_states ks)[i := 1]\<rparr>) ks2" and "ks_states ks ! i = 0"
    and "i < length (ks_states ks)"
  shows "key_step ks (key_done i key ks2)"
proof -
  have "ks_states (key_done i key ks2) ! j = ks_states ks ! j \<and> ks_keys (key_done i key ks2) ! j = ks_keys ks ! j"
    if "j < length (ks_states ks)" "ks_states ks ! j \<noteq> 0" for j
  proof -
    have "j \<noteq> i" using that(2) assms(2) by auto
    then show ?thesis using that assms(1) by (simp add: key_step_def key_done_def)
  qed
  then show ?thesis using assms(1) by (simp add: key_step_def key_done_def)
qed

lemma build_ok_error:
  assumes "key_inv g ks" and "\<not> is_empty er" and "errors_ok er" and "grows (ks_errors ks) er"
  shows "build_ok g i ks (Some (ks\<lparr>ks_errors := er\<rparr>))"
  using assms by (auto simp: build_ok_def key_inv_def key_step_def)

lemma build_ok_done:
  assumes "key_inv g (key_done i key ks2)" and "key_step (ks\<lparr>ks_states := (ks_states ks)[i := 1]\<rparr>) ks2"
    and "ks_states ks ! i = 0" and "i < length (ks_states ks)" and "length (ks_states ks2) = length (ks_states ks)"
  shows "build_ok g i ks (Some (key_done i key ks2))"
  using assms key_done_step by (auto simp: build_ok_def) (simp add: key_done_def)

lemma build_key_total:
  assumes g: "graph_ok g" and nodes: "\<forall>node\<in>set (types g). node_ok g node"
  shows "key_inv g ks \<Longrightarrow> i < length (types g) \<Longrightarrow> build_ok g i ks (build_key g i depth ks)"
  using g nodes
proof (induction g i depth ks rule: build_key.induct)
  case (1 g i depth ks)
  note I = "1.prems"(1) [unfolded key_inv_def] and i = "1.prems"(2)
  have n: "length (types g) \<le> MAX_TYPE_NODES" using "1.prems"(3) by (simp add: graph_ok_def)
  have gs: "get_at (ks_states ks) i = Some (ks_states ks ! i)" using I i by (simp add: get_at_def)
  have gn: "get_at (types g) i = Some (types g ! i)" using i by (simp add: get_at_def)
  have eok: "errors_ok (ks_errors ks)" using I by simp
  let ?k = "tn_kind (types g ! i)"
  let ?ks = "ks\<lparr>ks_states := (ks_states ks)[i := 1]\<rparr>"
  consider (ready) "ks_states ks ! i = 2" | (deep) "ks_states ks ! i \<noteq> 2" "MAX_TRAVERSAL_DEPTH < depth"
    | (loop) "ks_states ks ! i = 1" "\<not> MAX_TRAVERSAL_DEPTH < depth"
    | (fresh) "ks_states ks ! i = 0" "\<not> MAX_TRAVERSAL_DEPTH < depth" using I i by auto
  then show ?case
  proof cases
    case ready
    then show ?thesis using gs "1.prems"(1) by (subst build_key.simps) (simp add: build_ok_def)
  next
    case deep
    then show ?thesis using gs build_ok_error [OF "1.prems"(1)] limit_ok [OF eok]
      by (subst build_key.simps) simp
  next
    case loop
    then show ?thesis using gs gn build_ok_error [OF "1.prems"(1)] push_ok [OF eok] push_nonempty [OF eok]
      by (subst build_key.simps) simp
  next
    case fresh
    have inv1: "key_inv g ?ks" using I fresh(1) i by (auto simp: key_inv_def nth_list_update)
    have st1: "ks_states ?ks ! i = 1" "length (ks_states ?ks) = length (ks_states ks)" "i < length (ks_states ks)"
      using I i by simp_all
    have leaf: "build_ok g i ks (Some (key_done i (key_new (key_prefix_of ?k) None 0) ?ks))"
      if "\<forall>r. ?k \<noteq> TBorrow r" "key_child_of ?k = None"
      using build_ok_done [OF key_done_leaf [OF inv1 n i st1(1) refl that] _ fresh(1) st1(3,2)] by simp
    have container: "build_ok g i ks (Option.bind res (container_done i (key_prefix_of ?k) c))"
      if c: "\<forall>r. ?k \<noteq> TBorrow r" "key_child_of ?k = Some c" "c < length (types g)"
        and res: "build_ok g c ?ks res" for c res
    proof -
      obtain ks2 where ks2: "res = Some ks2" "key_inv g ks2" "key_step ?ks ks2"
        "is_empty (ks_errors ks2) \<longrightarrow> ks_states ks2 ! c = 2" using res by (auto simp: build_ok_def)
      have "ks_states ks2 ! i = 1" using ks2(3) st1 by (simp add: key_step_def)
      then obtain key where "container_done i (key_prefix_of ?k) c ks2 = Some (key_done i key ks2)"
        "key_inv g (key_done i key ks2)"
        using container_done_total [OF ks2(2) n i _ refl c ks2(4)] by blast
      moreover have "length (ks_states ks2) = length (ks_states ks)" using ks2(2) I by (simp add: key_inv_def)
      ultimately show ?thesis using build_ok_done [OF _ ks2(3) fresh(1) st1(3)] ks2(1) by simp
    qed
    have kids: "unat ch < length (types g)" if "ch \<in> set (all_children ?k)" for ch
      using "1.prems"(3) i that by (auto simp: graph_ok_def)
    note eq = build_key.simps [of g i depth ks, unfolded gs gn, simplified option.case fresh Let_def, simplified]
    have arr: "\<exists>w. u32_try_from (unat len) = Some w \<and> w = of_nat (unat len)" if "?k = TFixedArray e len" for e len
    proof -
      have "node_ok g (types g ! i)" using "1.prems"(4) i by simp
      then have "len \<le> MAX_ARRAY_LENGTH" using that by (simp add: node_ok_def)
      then show ?thesis by (simp add: MAX_ARRAY_LENGTH_def word_le_nat_alt u32_try_from_def)
    qed
    show ?thesis
    proof (cases ?k)
      case (TFixedArray e len)
      obtain w where w: "u32_try_from (unat len) = Some w" "w = of_nat (unat len)" using arr [OF TFixedArray] by blast
      have "build_ok g (unat e) ?ks (build_key g (unat e) (Suc depth) ?ks)"
        using "1.IH"(1) [OF gs _ fresh(2) gn _ refl TFixedArray w(1)] fresh inv1 kids [of e] TFixedArray "1.prems"(3,4)
        by (simp add: all_children_def)
      from container [OF _ _ _ this] show ?thesis
        using TFixedArray w kids [of e] unfolding eq by (simp add: key_prefix_of_def key_child_of_def all_children_def)
    next
      case (TVec e)
      have "build_ok g (unat e) ?ks (build_key g (unat e) (Suc depth) ?ks)"
        using "1.IH"(2) [OF gs _ fresh(2) gn _ refl TVec] fresh inv1 kids [of e] TVec "1.prems"(3,4)
        by (simp add: all_children_def)
      from container [OF _ _ _ this] show ?thesis
        using TVec kids [of e] unfolding eq by (simp add: key_prefix_of_def key_child_of_def all_children_def)
    next
      case (TShared e)
      have "build_ok g (unat e) ?ks (build_key g (unat e) (Suc depth) ?ks)"
        using "1.IH"(3) [OF gs _ fresh(2) gn _ refl TShared] fresh inv1 kids [of e] TShared "1.prems"(3,4)
        by (simp add: all_children_def)
      from container [OF _ _ _ this] show ?thesis
        using TShared kids [of e] unfolding eq by (simp add: key_prefix_of_def key_child_of_def all_children_def)
    next
      case (TWeak e)
      have "build_ok g (unat e) ?ks (build_key g (unat e) (Suc depth) ?ks)"
        using "1.IH"(4) [OF gs _ fresh(2) gn _ refl TWeak] fresh inv1 kids [of e] TWeak "1.prems"(3,4)
        by (simp add: all_children_def)
      from container [OF _ _ _ this] show ?thesis
        using TWeak kids [of e] unfolding eq by (simp add: key_prefix_of_def key_child_of_def all_children_def)
    next
      case (TBorrow r)
      let ?er = "push (error_at (tn_span (types g ! i)) ''ZRYNA-L3004'' ''borrow authorities have no stored layout''
          ''remove the borrow from the stored type graph'') (ks_errors ks)"
      let ?ks2 = "?ks\<lparr>ks_errors := ?er\<rparr>"
      have "key_inv g ?ks2" using inv1 push_ok [OF eok] push_nonempty [OF eok] by (auto simp: key_inv_def)
      then have "key_inv g (key_done i None ?ks2)"
        using key_done_inv [of g ?ks2 i None] n i st1 push_nonempty [OF eok] by simp
      moreover have "key_step ?ks ?ks2" by (simp add: key_step_def)
      ultimately show ?thesis using build_ok_done [of g i None ?ks2 ks] fresh(1) st1 TBorrow unfolding eq by simp
    qed (use leaf in \<open>simp_all add: eq key_prefix_of_def key_child_of_def\<close>)
  qed
qed

lemma build_keys_total:
  assumes "graph_ok g" and "\<forall>node\<in>set (types g). node_ok g node"
  shows "key_inv g ks \<Longrightarrow> set is \<subseteq> {..<length (types g)} \<Longrightarrow>
    \<exists>ks' stopped. build_keys g is ks = Some (ks', stopped) \<and> key_inv g ks' \<and> grows (ks_errors ks) (ks_errors ks') \<and>
      (is_empty (ks_errors ks') \<longrightarrow> \<not> stopped \<and>
        (\<forall>j<length (types g). j \<in> set is \<or> ks_states ks ! j = 2 \<longrightarrow> ks_states ks' ! j = 2))"
proof (induction "is" arbitrary: ks)
  case Nil
  then show ?case by auto
next
  case (Cons i "is")
  obtain ks1 where ks1: "build_key g i 0 ks = Some ks1" "key_inv g ks1" "key_step ks ks1"
    "is_empty (ks_errors ks1) \<longrightarrow> ks_states ks1 ! i = 2"
    using build_key_total [OF assms Cons.prems(1), of i 0] Cons.prems(2) by (auto simp: build_ok_def)
  have gr: "grows (ks_errors ks) (ks_errors ks1)" using ks1(3) by (simp add: key_step_def)
  show ?case
  proof (cases "er_fatal (ks_errors ks1)")
    case True
    then have "\<not> is_empty (ks_errors ks1)" using ks1(2) by (auto simp: key_inv_def errors_ok_def is_empty_def)
    then show ?thesis using True ks1(1,2) gr by auto
  next
    case False
    obtain ks' stopped where r: "build_keys g is ks1 = Some (ks', stopped)" "key_inv g ks'"
      "grows (ks_errors ks1) (ks_errors ks')" "is_empty (ks_errors ks') \<longrightarrow> \<not> stopped \<and>
        (\<forall>j<length (types g). j \<in> set is \<or> ks_states ks1 ! j = 2 \<longrightarrow> ks_states ks' ! j = 2)"
      using Cons.IH [OF ks1(2)] Cons.prems(2) by auto
    have "ks_states ks' ! j = 2" if e: "is_empty (ks_errors ks')" and j: "j < length (types g)"
      "j \<in> set (i # is) \<or> ks_states ks ! j = 2" for j
    proof -
      have "is_empty (ks_errors ks1)" using r(3) e ks1(2) by (auto simp: grows_def key_inv_def)
      moreover have "ks_states ks ! j = 2 \<Longrightarrow> ks_states ks1 ! j = 2"
        using ks1(3) j(1) Cons.prems(1) by (simp add: key_step_def key_inv_def)
      ultimately show ?thesis using r(4) e j ks1(4) by auto
    qed
    then show ?thesis using ks1(1) r False grows_trans [OF gr r(3)] by auto
  qed
qed

lemma canonical_keys_total:
  assumes g: "graph_ok g" and nodes: "\<forall>node\<in>set (types g). node_ok g node"
  shows "\<exists>res er. canonical_keys g errors_default = Some (res, er) \<and> errors_ok er \<and>
    (is_empty er \<longrightarrow> er = errors_default \<and> (\<exists>keys. res = Some keys \<and> keys_ok g keys))"
proof -
  let ?n = "length (types g)"
  let ?ks = "\<lparr>ks_states = replicate ?n 0, ks_keys = replicate ?n None, ks_errors = errors_default\<rparr>"
  have inv: "key_inv g ?ks" by (simp add: key_inv_def)
  obtain ks' stopped where r: "build_keys g [0..<?n] ?ks = Some (ks', stopped)" "key_inv g ks'"
    "grows errors_default (ks_errors ks')"
    "is_empty (ks_errors ks') \<longrightarrow> \<not> stopped \<and> (\<forall>j<?n. ks_states ks' ! j = 2)"
    using build_keys_total [OF g nodes inv, of "[0..<?n]"] by (auto simp: atLeast0LessThan)
  have out: "canonical_keys g errors_default =
      Some (if stopped then None else those (ks_keys ks'), ks_errors ks')"
    using r(1) by (simp add: canonical_keys_def Let_def)
  have "\<exists>keys. (if stopped then None else those (ks_keys ks')) = Some keys \<and> keys_ok g keys"
    if e: "is_empty (ks_errors ks')"
  proof -
    note I = r(2) [unfolded key_inv_def]
    have "\<forall>x\<in>set (ks_keys ks'). x \<noteq> None" using I r(4) e by (auto simp: in_set_conv_nth)
    then obtain keys where k: "those (ks_keys ks') = Some keys" using those_total by blast
    then have m: "ks_keys ks' = map Some keys" by (simp add: those_Some_iff)
    have len: "length keys = ?n" using I m by simp
    have "key_shape g (\<lambda>c. Some (keys ! c)) i (keys ! i) \<and> key_encoded_len (keys ! i) \<le> 13 * MAX_TYPE_NODES"
      if i: "i < ?n" for i
    proof -
      have key: "ks_keys ks' ! i = Some (keys ! i)" using m len i by simp
      then have s: "key_shape g (\<lambda>c. ks_keys ks' ! c) i (keys ! i)"
        "key_encoded_len (keys ! i) \<le> 13 * filled (ks_keys ks')" using I i by auto
      have "c < ?n" if "key_child_of (tn_kind (types g ! i)) = Some c" for c
      proof -
        have "\<exists>ch. c = unat ch \<and> ch \<in> set (all_children (tn_kind (types g ! i)))"
          using that by (auto simp: key_child_of_def all_children_def split: type_kind.splits)
        then show ?thesis using g i by (auto simp: graph_ok_def)
      qed
      then have "key_shape g (\<lambda>c. Some (keys ! c)) i (keys ! i)"
        using s(1) m len by (intro key_shape_mono [OF s(1)]) auto
      moreover have "filled (ks_keys ks') \<le> MAX_TYPE_NODES"
        using filled_le [of "ks_keys ks'"] I g by (simp add: graph_ok_def)
      ultimately show ?thesis using s(2) by simp
    qed
    then show ?thesis using k r(4) e len by (auto simp: keys_ok_def)
  qed
  then show ?thesis using out r(2,3) by (auto simp: key_inv_def grows_def)
qed

lemma keys_ok_no_borrow: "keys_ok g keys \<Longrightarrow> no_borrow g"
  by (auto simp: keys_ok_def no_borrow_def key_shape_def Let_def in_set_conv_nth)

lemma key_bytes_total:
  assumes g: "graph_ok g" and k: "keys_ok g keys"
  shows "i < length keys \<Longrightarrow> \<exists>bs. key_bytes keys i = Some bs"
proof (induction "key_encoded_len (keys ! i)" arbitrary: i rule: less_induct)
  case less
  have s: "key_shape g (\<lambda>c. Some (keys ! c)) i (keys ! i)" using k less.prems by (simp add: keys_ok_def)
  have gi: "get_at keys i = Some (keys ! i)" using less.prems by (simp add: get_at_def)
  show ?case
  proof (cases "key_child (keys ! i)")
    case None
    then show ?thesis using gi by (subst key_bytes.simps) simp
  next
    case (Some c)
    have kc: "key_child_of (tn_kind (types g ! i)) = Some c" using s Some by (simp add: key_shape_def Let_def)
    have "\<exists>ch. c = unat ch \<and> ch \<in> set (all_children (tn_kind (types g ! i)))"
      using kc by (auto simp: key_child_of_def all_children_def split: type_kind.splits)
    then have c: "c < length keys" using g k less.prems by (auto simp: graph_ok_def keys_ok_def)
    have "key_encoded_len (keys ! c) < key_encoded_len (keys ! i)"
      using s kc by (auto simp: key_shape_def Let_def)
    from less.hyps [OF this c] obtain bs where "key_bytes keys c = Some bs" by blast
    then show ?thesis using gi c Some
      by (subst key_bytes.simps) (auto simp: get_at_def Let_def split: option.splits)
  qed
qed

section \<open>Type identities\<close>

lemma invert_order_total:
  "i + length raws < 2 ^ 32 \<Longrightarrow> set raws \<subseteq> {..<length acc} \<Longrightarrow> distinct raws \<Longrightarrow>
    \<exists>idx. invert_order raws i acc = Some idx \<and> length idx = length acc \<and>
      (\<forall>t<length raws. idx ! (raws ! t) = of_nat (i + t)) \<and> (\<forall>r. r \<notin> set raws \<longrightarrow> idx ! r = acc ! r)"
proof (induction raws arbitrary: i acc)
  case (Cons r rs)
  have "u32_try_from i = Some (of_nat i)" using Cons.prems(1) by (simp add: u32_try_from_def)
  moreover obtain idx where idx: "invert_order rs (Suc i) (acc[r := of_nat i]) = Some idx"
    "length idx = length acc" "\<forall>t<length rs. idx ! (rs ! t) = of_nat (Suc i + t)"
    "\<forall>x. x \<notin> set rs \<longrightarrow> idx ! x = acc[r := of_nat i] ! x"
    using Cons.IH [of "Suc i" "acc[r := of_nat i]"] Cons.prems by auto
  moreover have "idx ! ((r # rs) ! t) = of_nat (i + t)" if "t < length (r # rs)" for t
  proof (cases t)
    case 0
    then show ?thesis using idx(4) Cons.prems by auto
  next
    case (Suc u)
    then show ?thesis using idx(3) that by simp
  qed
  moreover have "idx ! x = acc ! x" if "x \<notin> set (r # rs)" for x using idx(4) that by auto
  ultimately show ?case by auto
qed auto

lemma those_map_total: "(\<forall>x\<in>set xs. \<exists>y. f x = Some y) \<Longrightarrow> \<exists>ys. those (map f xs) = Some ys"
  using those_total [of "map f xs"] by fastforce

lemma universe_record_total:
  assumes rng: "\<forall>ch\<in>set (all_children k). unat ch < length (raw_to_index c)"
    and nb: "\<forall>r. k \<noteq> TBorrow r" and cnt: "fst (member_and_edge_count k) \<le> MAX_MEMBERS_PER_DECLARATION"
  shows "\<exists>bs. universe_record c k = Some (Some bs)"
proof -
  have one: "\<exists>b. child_index_bytes c ch = Some b" if "ch \<in> set (all_children k)" for ch
    using rng that by (simp add: child_index_bytes_def get_at_def)
  have len: "n \<le> MAX_MEMBERS_PER_DECLARATION \<Longrightarrow> \<exists>w. u32_try_from n = Some w" for n
    by (simp add: MAX_MEMBERS_PER_DECLARATION_def u32_try_from_def)
  show ?thesis
  proof (cases k)
    case (TStruct m d fs)
    then obtain w where "u32_try_from (length fs) = Some w" using len cnt by (auto simp: member_and_edge_count_def)
    moreover have "\<forall>f\<in>set fs. \<exists>y. map_option (\<lambda>b. u32_le (fl_ordinal f) @ b) (child_index_bytes c (fl_ty f)) = Some y"
      using one TStruct by (fastforce simp: all_children_def)
    from those_map_total [OF this] obtain ys where
      "those (map (\<lambda>f. map_option (\<lambda>b. u32_le (fl_ordinal f) @ b) (child_index_bytes c (fl_ty f))) fs) = Some ys" by blast
    ultimately show ?thesis using TStruct by (simp add: universe_record_def)
  next
    case (TEnum m d vs)
    then obtain w where w: "u32_try_from (length vs) = Some w" using len cnt by (auto simp: member_and_edge_count_def)
    let ?f = "\<lambda>v. map_option (\<lambda>b. u32_le (vr_ordinal v) @ b)
        (case vr_payload v of None \<Rightarrow> Some (u32_le NO_PAYLOAD_TYPE_ID) | Some p \<Rightarrow> child_index_bytes c p)"
    have "\<exists>y. ?f v = Some y" if "v \<in> set vs" for v
    proof (cases "vr_payload v")
      case (Some p)
      then have "p \<in> set (all_children k)" using TEnum that by (force simp: all_children_def List.map_filter_def)
      then show ?thesis using one Some by fastforce
    qed simp
    then obtain ys where "those (map ?f vs) = Some ys" using those_map_total [of vs ?f] by blast
    then show ?thesis using TEnum w by (simp add: universe_record_def)
  qed (use one nb in \<open>fastforce simp: universe_record_def all_children_def\<close>)+
qed

lemma universe_bytes_total:
  assumes g: "graph_ok g" and nodes: "\<forall>node\<in>set (types g). node_ok g node" and k: "keys_ok g keys"
    and c: "length (raw_to_index c) = length (types g)"
  shows "set is \<subseteq> {..<length (types g)} \<Longrightarrow> \<exists>bs. universe_bytes g keys c er is acc = Some (Inr bs)"
proof (induction "is" arbitrary: acc)
  case (Cons i "is")
  have i: "i < length (types g)" "i < length keys" using Cons.prems k by (auto simp: keys_ok_def)
  have "key_encoded_len (keys ! i) \<le> 13 * MAX_TYPE_NODES" using k i by (simp add: keys_ok_def)
  then obtain w where w: "u32_try_from (key_encoded_len (keys ! i)) = Some w"
    by (auto simp: u32_try_from_def MAX_TYPE_NODES_def)
  obtain kb where kb: "key_bytes keys i = Some kb" using key_bytes_total [OF g k i(2)] by blast
  have node: "types g ! i \<in> set (types g)" using i by simp
  have "\<forall>ch\<in>set (all_children (tn_kind (types g ! i))). unat ch < length (raw_to_index c)"
    using g node c by (simp add: graph_ok_def)
  moreover have "\<forall>r. tn_kind (types g ! i) \<noteq> TBorrow r"
    using keys_ok_no_borrow [OF k] node by (auto simp: no_borrow_def)
  moreover have "fst (member_and_edge_count (tn_kind (types g ! i))) \<le> MAX_MEMBERS_PER_DECLARATION"
    using nodes node by (auto simp: node_ok_def)
  ultimately obtain rb where rb: "universe_record c (tn_kind (types g ! i)) = Some (Some rb)"
    using universe_record_total by blast
  show ?case using Cons i w kb rb by (simp add: get_at_def)
qed simp

lemma assign_type_ids_total:
  assumes g: "graph_ok g" and nodes: "\<forall>node\<in>set (types g). node_ok g node" and k: "keys_ok g keys"
  shows "\<exists>res er. assign_type_ids sha256 g keys errors_default = Some (res, er) \<and> errors_ok er \<and>
    (is_empty er \<longrightarrow> er = errors_default \<and> (\<exists>c. res = Some c \<and> canonical_ok g c))"
proof -
  let ?n = "length (types g)"
  have n: "length keys = ?n" "?n < 2 ^ 32" using k g by (auto simp: keys_ok_def graph_ok_def MAX_TYPE_NODES_def)
  obtain kbs where kbs: "those (map (key_bytes keys) [0..<length keys]) = Some kbs"
    using those_map_total [of "[0..<length keys]" "key_bytes keys"] key_bytes_total [OF g k] by auto
  let ?ord = "sort_key (\<lambda>i. kbs ! i) [0..<length keys]"
  show ?thesis
  proof (cases "list_ex (\<lambda>(a, b). kbs ! a = kbs ! b) (windows2 ?ord)")
    case True
    then show ?thesis using kbs push_ok [OF errors_ok_default] push_nonempty [OF errors_ok_default]
      by (simp add: assign_type_ids_def Let_def)
  next
    case False
    have o: "length ?ord = ?n" "set ?ord = {..<?n}" "distinct ?ord" using n by (auto simp: atLeast0LessThan)
    obtain idx where idx: "invert_order ?ord 0 (replicate (length keys) 0) = Some idx" "length idx = ?n"
      "\<forall>t<?n. idx ! (?ord ! t) = of_nat t"
      using invert_order_total [of 0 ?ord "replicate (length keys) 0"] o n by auto
    let ?c = "\<lparr>raw_to_index = idx, type_to_raw = ?ord, cm_universe = replicate 32 0\<rparr>"
    obtain w where w: "u32_try_from (length ?ord) = Some w" using n o by (auto simp: u32_try_from_def)
    have "\<exists>bs. universe_bytes g keys ?c errors_default ?ord (UNIVERSE_DOMAIN @ u32_le w) = Some (Inr bs)"
      by (rule universe_bytes_total [OF g nodes k]) (use idx(2) o(2) in auto)
    then obtain bs where bs: "universe_bytes g keys ?c errors_default ?ord (UNIVERSE_DOMAIN @ u32_le w) = Some (Inr bs)"
      by blast
    have out: "assign_type_ids sha256 g keys errors_default =
        Some (Some (?c\<lparr>cm_universe := sha256 bs\<rparr>), errors_default)"
      using kbs False idx(1) w bs by (simp add: assign_type_ids_def Let_def seal_universe_identity_def)
    have "type_to_raw ?c ! t < ?n \<and> idx ! (?ord ! t) = of_nat t" if "t < ?n" for t
      using that o(1,2) idx(3) nth_mem [of t ?ord] by auto
    moreover have "unat (idx ! i) < ?n \<and> ?ord ! unat (idx ! i) = i" if "i < ?n" for i
    proof -
      have "i \<in> set ?ord" using that o(2) by simp
      then obtain t where t: "t < ?n" "?ord ! t = i" using o(1) by (metis in_set_conv_nth)
      then have "idx ! i = of_nat t" using idx(3) by auto
      moreover have "unat (of_nat t :: u32) = t" using t(1) n(2) by (simp add: unat_of_nat take_bit_nat_def)
      ultimately show ?thesis using t by simp
    qed
    ultimately have "canonical_ok g (?c\<lparr>cm_universe := sha256 bs\<rparr>)"
      using o(1) idx(2) by (simp add: canonical_ok_def)
    then show ?thesis using out by simp
  qed
qed

section \<open>Verification as a whole\<close>

lemma record_encodable:
  assumes g: "graph_ok g" and c: "canonical_ok g c" and r: "records_ok g c target rs" and t: "t < length rs"
  shows "\<exists>p. encode_record (rs ! t) = Some p \<and> length p \<le> 20000"
proof -
  have m: "kind_matches c (raw_kind g c t) (lr_kind (rs ! t))"
    using r t by (simp add: records_ok_def slot_ok_def)
  have "t < length (types g)" using r t by (simp add: records_ok_def)
  then have cnt: "fst (member_and_edge_count (raw_kind g c t)) \<le> MAX_MEMBERS_PER_DECLARATION"
    using raw_kind_in [OF c] g by (metis graph_ok_def)
  have "\<exists>q. encode_kind (lr_kind (rs ! t)) = Some q \<and> length q \<le> 19968"
  proof (cases "lr_kind (rs ! t)")
    case (VStruct mo d vs)
    then obtain fs where k: "raw_kind g c t = TStruct mo d fs" "length vs = length fs"
      using m by (auto simp: kind_matches_def dest: map_eq_imp_length_eq)
    then have "length vs \<le> 1024" using cnt by (simp add: member_and_edge_count_def MAX_MEMBERS_PER_DECLARATION_def)
    then show ?thesis using VStruct
      by (auto simp: encode_kind_def u32_try_from_def length_concat_const [where k = 16])
  next
    case (VEnum mo d ws off sz)
    then obtain vs where k: "raw_kind g c t = TEnum mo d vs" "length ws = length vs"
      using m by (auto simp: kind_matches_def dest: map_eq_imp_length_eq)
    then have "length ws \<le> 1024" using cnt by (simp add: member_and_edge_count_def MAX_MEMBERS_PER_DECLARATION_def)
    then show ?thesis using VEnum
      by (auto simp: encode_kind_def u32_try_from_def length_concat_const [where k = 8])
  qed (auto simp: encode_kind_def)
  then show ?thesis by (auto simp: encode_record_def)
qed

lemma records_sealable:
  assumes g: "graph_ok g" and c: "canonical_ok g c" and r: "records_ok g c target rs"
  shows "sealable rs \<and> length (layout_document target rs) < 2 ^ 64"
proof -
  have len: "length rs \<le> 65536" using g r by (simp add: graph_ok_def records_ok_def MAX_TYPE_NODES_def)
  have id: "ti_index (lr_id (rs ! t)) = of_nat t" if "t < length rs" for t
    using r that by (simp add: records_ok_def slot_ok_def)
  have "\<exists>p. encode_record (rs ! t) = Some p \<and> length p < 2 ^ 32" if "t < length rs" for t
    using record_encodable [OF g c r that] by fastforce
  then have "sealable rs" using id len by (auto simp: sealable_def)
  moreover have "length (record_frame x) \<le> 20004" if x: "x \<in> set rs" for x
  proof -
    obtain t where "t < length rs" "x = rs ! t" using x by (metis in_set_conv_nth)
    then obtain p where "encode_record x = Some p" "length p \<le> 20000" using record_encodable [OF g c r] by blast
    then show ?thesis by (simp add: record_frame_def)
  qed
  then have "length (concat (map record_frame rs)) \<le> 20004 * length rs"
    by (induction rs) fastforce+
  ultimately show ?thesis using len by (simp add: layout_document_def FINGERPRINT_DOMAIN_def)
qed

lemma unless_failed_default: "unless_failed (Some x, errors_default) = Inr x"
  by (simp add: unless_failed_def)

lemma unless_failed_nonempty: "\<not> is_empty er \<Longrightarrow> unless_failed (v, er) = Inl (finish er)"
  by (simp add: unless_failed_def)

lemma verify_cases:
  assumes src: "wf_source_map sources"
  shows "(\<forall>target. failed (verify sha256 g sources target)) \<or>
    (\<exists>c. \<forall>target. \<exists>v. verify sha256 g sources target = Some (Inr v) \<and> verify_accepts sha256 g sources target c v)"
proof -
  have fail: "\<forall>target. failed (verify sha256 g sources target)"
    if "errors_ok er" "\<not> is_empty er" "\<forall>target. verify sha256 g sources target = Some (Inl (finish er))" for er
    using that by (auto simp: failed_def)
  obtain e0 where p: "preflight g sources errors_default = Some e0" "errors_ok e0"
    "is_empty e0 \<longrightarrow> e0 = errors_default \<and> graph_ok g \<and> (\<forall>node\<in>set (types g). node_ok g node)"
    using preflight_total [OF src] by blast
  show ?thesis
  proof (cases "is_empty e0")
    case False
    then show ?thesis using fail [OF p(2)] p(1) by (simp add: verify_def bind_result_def unless_failed_nonempty)
  next
    case True
    then have e0: "e0 = errors_default" and g: "graph_ok g" and nodes: "\<forall>node\<in>set (types g). node_ok g node"
      using p(3) by auto
    obtain kres e1 where k: "canonical_keys g errors_default = Some (kres, e1)" "errors_ok e1"
      "is_empty e1 \<longrightarrow> e1 = errors_default \<and> (\<exists>keys. kres = Some keys \<and> keys_ok g keys)"
      using canonical_keys_total [OF g nodes] by blast
    note s1 = p(1) [unfolded e0]
    show ?thesis
    proof (cases "is_empty e1")
      case False
      then show ?thesis using fail [OF k(2)] s1 k(1)
        by (simp add: verify_def bind_result_def unless_failed_nonempty unless_failed_default)
    next
      case True
      then obtain keys where e1: "e1 = errors_default" and kres: "kres = Some keys" and ko: "keys_ok g keys"
        using k(3) by auto
      note s2 = k(1) [unfolded e1 kres]
      have nb: "no_borrow g" by (rule keys_ok_no_borrow [OF ko])
      obtain ares e2 where a: "assign_type_ids sha256 g keys errors_default = Some (ares, e2)" "errors_ok e2"
        "is_empty e2 \<longrightarrow> e2 = errors_default \<and> (\<exists>c. ares = Some c \<and> canonical_ok g c)"
        using assign_type_ids_total [OF g nodes ko] by blast
      show ?thesis
      proof (cases "is_empty e2")
        case False
        then show ?thesis using fail [OF a(2)] s1 s2 a(1)
          by (simp add: verify_def bind_result_def unless_failed_nonempty unless_failed_default)
      next
        case True
        then obtain c where e2: "e2 = errors_default" and ares: "ares = Some c" and co: "canonical_ok g c"
          using a(3) by auto
        note s3 = a(1) [unfolded e2 ares]
        obtain e3 where r: "reject_by_value_cycles g c errors_default = Some e3" "grows errors_default e3"
          "is_empty e3 \<longrightarrow> acyclic (value_edges g c)"
          using reject_by_value_cycles_total [OF g co, of errors_default] by auto
        have ok3: "errors_ok e3" using r(2) by (simp add: grows_def)
        show ?thesis
        proof (cases "is_empty e3")
          case False
          then show ?thesis using fail [OF ok3] s1 s2 s3 r(1)
            by (simp add: verify_def bind_result_def unless_failed_nonempty unless_failed_default)
        next
          case True
          then have e3: "e3 = errors_default" and ac: "acyclic (value_edges g c)" using r(2,3) by (auto simp: grows_def)
          note s4 = r(1) [unfolded e3]
          have rec: "\<exists>res er. compute_records g c target errors_default = Some (res, er) \<and> errors_ok er \<and>
              (is_empty er \<longrightarrow> er = errors_default \<and> (\<exists>rs. res = Some rs \<and> records_ok g c target rs))" for target
            using compute_records_total [OF g nb co ac] by auto
          obtain lres e4 where l: "compute_records g c Linear32V1 errors_default = Some (lres, e4)" "errors_ok e4"
            "is_empty e4 \<longrightarrow> e4 = errors_default \<and> (\<exists>rs. lres = Some rs \<and> records_ok g c Linear32V1 rs)"
            using rec by blast
          obtain xres e5 where x: "compute_records g c LinuxX8664V1 errors_default = Some (xres, e5)" "errors_ok e5"
            "is_empty e5 \<longrightarrow> e5 = errors_default \<and> (\<exists>rs. xres = Some rs \<and> records_ok g c LinuxX8664V1 rs)"
            using rec by blast
          show ?thesis
          proof (cases "is_empty e4 \<and> is_empty e5")
            case False
            then show ?thesis
              using fail [OF l(2)] fail [OF x(2)] s1 s2 s3 s4 l(1,3) x(1)
              by (cases "is_empty e4") (auto simp: verify_def bind_result_def unless_failed_nonempty unless_failed_default)
          next
            case True
            then obtain lrs xrs where lr: "lres = Some lrs" "e4 = errors_default" "records_ok g c Linear32V1 lrs"
              and xr: "xres = Some xrs" "e5 = errors_default" "records_ok g c LinuxX8664V1 xrs"
              using l(3) x(3) by auto
            have seal: "seal_target sha256 target rs errors_default =
                Some (Inr (layout_document target rs, sha256 (layout_document target rs)))"
              if "records_ok g c target rs" for target rs
              using records_sealable [OF g co that] seal_target_total by blast
            have "\<exists>v. verify sha256 g sources target = Some (Inr v) \<and> verify_accepts sha256 g sources target c v" for target
              using s1 s2 s3 s4 l(1) x(1) lr xr seal [OF lr(3)] seal [OF xr(3)] g nodes nb co ac
              by (cases target) (simp_all add: verify_def bind_result_def unless_failed_default verify_accepts_def)
            then show ?thesis by blast
          qed
        qed
      qed
    qed
  qed
qed

section \<open>The retained diagnostics\<close>

lemma greatest_index_bound:
  "b = rs0 ! best \<Longrightarrow> best < i \<Longrightarrow> length rs0 = i + length rs \<Longrightarrow> drop i rs0 = rs \<Longrightarrow>
   (\<forall>j<i. compare_retained (rs0 ! j) \<le> compare_retained b) \<Longrightarrow>
   greatest_index rs i best b < length rs0 \<and>
   (\<forall>j<length rs0. compare_retained (rs0 ! j) \<le> compare_retained (rs0 ! greatest_index rs i best b))"
proof (induction rs arbitrary: i best b)
  case (Cons r rs)
  have r: "r = rs0 ! i" "drop (Suc i) rs0 = rs"
    using Cons.prems(3,4) by (metis Cons_nth_drop_Suc add_Suc_right length_Cons less_add_Suc1 list.inject)+
  show ?case
  proof (cases "compare_retained r < compare_retained b")
    case True
    have "\<forall>j<Suc i. compare_retained (rs0 ! j) \<le> compare_retained b"
      using Cons.prems(5) True r by (auto simp: less_Suc_eq)
    then show ?thesis using Cons.IH [of b best "Suc i"] Cons.prems r True by auto
  next
    case False
    have "\<forall>j<Suc i. compare_retained (rs0 ! j) \<le> compare_retained r"
      using Cons.prems(5) False r by (auto simp: less_Suc_eq not_less intro: order_trans)
    then show ?thesis using Cons.IH [of r i "Suc i"] Cons.prems r False by auto
  qed
qed auto

lemma take_insort:
  assumes "sorted xs"
  shows "take n (insort k xs) = take n (insort k (take n xs))"
  using assms
proof (induction xs arbitrary: n)
  case (Cons x xs)
  show ?case
  proof (cases n)
    case (Suc m)
    have "take m (insort k xs) = take m (insort k (take m xs))" using Cons by simp
    moreover have "take m (x # xs) = take m (x # take m xs)" by (cases m) (simp_all add: min_def)
    ultimately show ?thesis using Suc by (auto simp: take_Cons')
  qed simp
qed simp

lemma mset_butlast: "xs \<noteq> [] \<Longrightarrow> mset xs = add_mset (last xs) (mset (butlast xs))"
  by (induction xs) auto

lemma insort_unique: "sorted xs \<Longrightarrow> sorted zs \<Longrightarrow> mset zs = add_mset k (mset xs) \<Longrightarrow> insort k xs = zs"
  by (metis mset_insort properties_for_sort sort_key_id_if_sorted sorted_insort)

lemma take_insort_full:
  assumes "sorted (ys :: 'a::linorder list)" and "length ys = n" and "ys \<noteq> []"
  shows "take n (insort k ys) = (if k < last ys then insort k (butlast ys) else ys)"
proof (cases "k < last ys")
  case True
  have s: "sorted (butlast ys)" using assms(1) by (simp add: sorted_butlast)
  have "insort k ys = insort k (butlast ys) @ [last ys]"
  proof (rule insort_unique [OF assms(1)])
    have "x \<le> last ys" if "x \<in> set (insort k (butlast ys))" for x
      using that True sorted_le_last [OF assms(1)] by (auto simp: set_insort_key dest: in_set_butlastD)
    then show "sorted (insort k (butlast ys) @ [last ys])" using s by (simp add: sorted_append sorted_insort)
    have "mset ys = add_mset (last ys) (mset (butlast ys))"
      using assms(3) by (rule mset_butlast)
    then show "mset (insort k (butlast ys) @ [last ys]) = add_mset k (mset ys)" by simp
  qed
  then show ?thesis using True assms(2,3) by (cases ys) auto
next
  case False
  have "insort k ys = ys @ [k]"
  proof (rule insort_unique [OF assms(1)])
    have "x \<le> k" if "x \<in> set ys" for x using sorted_le_last [OF assms(1) that] False by simp
    then show "sorted (ys @ [k])" using assms(1) by (simp add: sorted_append)
  qed simp
  then show ?thesis using False assms(2) by simp
qed

lemma push_retained:
  assumes nf: "\<not> er_fatal er" and len: "length (er_diagnostics er) \<le> MAX_DIAGNOSTICS - 1"
  shows "sort (retained_keys (push d er)) =
      take (MAX_DIAGNOSTICS - 1) (insort (diagnostic_key d) (sort (retained_keys er))) \<and>
    \<not> er_fatal (push d er) \<and> length (er_diagnostics (push d er)) \<le> MAX_DIAGNOSTICS - 1 \<and>
    (er_truncated (push d er) \<longleftrightarrow> er_truncated er \<or> length (er_diagnostics er) = MAX_DIAGNOSTICS - 1)"
proof (cases "length (er_diagnostics er) < MAX_DIAGNOSTICS - 1")
  case True
  have "sort (retained_keys er @ [diagnostic_key d]) = insort (diagnostic_key d) (sort (retained_keys er))"
    by (intro properties_for_sort) (auto simp: sorted_insort)
  then show ?thesis using nf True
    by (simp add: push_def Let_def retained_keys_def diagnostic_key_def)
next
  case False
  then have full: "length (er_diagnostics er) = MAX_DIAGNOSTICS - 1" using len by simp
  let ?ds = "er_diagnostics er" and ?g = "greatest_index (tl (er_diagnostics er)) 1 0 (hd (er_diagnostics er))"
  let ?K = "retained_keys er" and ?k = "diagnostic_key d"
  have ne: "?ds \<noteq> []" using full by (auto simp: MAX_DIAGNOSTICS_def)
  then obtain x xs where ds: "?ds = x # xs" by (cases ?ds) auto
  have gb: "?g < length ?ds" "\<forall>j<length ?ds. compare_retained (?ds ! j) \<le> compare_retained (?ds ! ?g)"
  proof -
    have "\<forall>j<1. compare_retained (?ds ! j) \<le> compare_retained x" using ds by simp
    from greatest_index_bound [of x ?ds 0 1 xs, OF _ _ _ _ this]
    show "?g < length ?ds" "\<forall>j<length ?ds. compare_retained (?ds ! j) \<le> compare_retained (?ds ! ?g)"
      unfolding ds by simp_all
  qed
  have "length (sort ?K) = length ?ds" by (simp add: retained_keys_def)
  then have sK: "sort ?K \<noteq> []" using ne by (metis length_0_conv)
  have lastK: "last (sort ?K) = compare_retained (?ds ! ?g)"
  proof (rule antisym)
    have "last (sort ?K) \<in> set ?K" using sK by (metis last_in_set set_sort)
    then show "last (sort ?K) \<le> compare_retained (?ds ! ?g)"
      using gb(2) by (auto simp: retained_keys_def in_set_conv_nth)
    have "compare_retained (?ds ! ?g) \<in> set (sort ?K)" using gb(1) by (simp add: retained_keys_def)
    then show "compare_retained (?ds ! ?g) \<le> last (sort ?K)"
      using sorted_le_last [OF sorted_sort] by blast
  qed
  have tk: "take (MAX_DIAGNOSTICS - 1) (insort ?k (sort ?K)) =
      (if ?k < compare_retained (?ds ! ?g) then insort ?k (butlast (sort ?K)) else sort ?K)"
    using take_insort_full [OF sorted_sort _ sK, of "MAX_DIAGNOSTICS - 1" ?k] full lastK
    by (simp add: retained_keys_def)
  have upd: "sort (retained_keys (er\<lparr>er_diagnostics := ?ds[?g := retained_new d]\<rparr>)) = insort ?k (butlast (sort ?K))"
  proof (rule properties_for_sort)
    have "mset (butlast (sort ?K)) = mset ?K - {#compare_retained (?ds ! ?g)#}"
      using mset_butlast [OF sK] lastK by simp
    moreover have "mset (map compare_retained (?ds[?g := retained_new d])) =
        add_mset ?k (mset ?K - {#compare_retained (?ds ! ?g)#})"
      using gb(1) by (simp add: map_update mset_update retained_keys_def diagnostic_key_def)
    ultimately show "mset (insort ?k (butlast (sort ?K))) =
        mset (retained_keys (er\<lparr>er_diagnostics := ?ds[?g := retained_new d]\<rparr>))" by (simp add: retained_keys_def)
    show "sorted (insort ?k (butlast (sort ?K)))" by (simp add: sorted_insort sorted_butlast)
  qed
  show ?thesis using nf False full tk upd
    by (auto simp: push_def Let_def diagnostic_key_def [symmetric] retained_keys_def)
qed

lemma collect_snoc: "collect (ds @ [d]) = push d (collect ds)"
  by (simp add: collect_def)

lemma sort_snoc: "sort (xs @ [x]) = insort x (sort xs)"
  by (intro properties_for_sort) (auto simp: sorted_insort)

lemma collect_retained:
  "sort (retained_keys (collect ds)) = take (MAX_DIAGNOSTICS - 1) (sort (map diagnostic_key ds)) \<and>
   \<not> er_fatal (collect ds) \<and> length (er_diagnostics (collect ds)) \<le> MAX_DIAGNOSTICS - 1 \<and>
   (er_truncated (collect ds) \<longleftrightarrow> MAX_DIAGNOSTICS - 1 < length ds)"
proof (induction ds rule: rev_induct)
  case Nil
  then show ?case by (simp add: collect_def errors_default_def retained_keys_def)
next
  case (snoc d ds)
  note p = push_retained [of "collect ds" d, OF conjunct1 [OF conjunct2 [OF snoc]]]
  let ?m = "MAX_DIAGNOSTICS - 1"
  have len: "length (er_diagnostics (collect ds)) = min (length ds) ?m"
  proof -
    have "length (er_diagnostics (collect ds)) = length (sort (retained_keys (collect ds)))"
      by (simp add: retained_keys_def)
    also have "\<dots> = min (length ds) ?m" using snoc by simp
    finally show ?thesis .
  qed
  have "take ?m (insort (diagnostic_key d) (take ?m (sort (map diagnostic_key ds)))) =
      take ?m (insort (diagnostic_key d) (sort (map diagnostic_key ds)))"
    by (rule take_insort [symmetric]) simp
  moreover have "sort (map diagnostic_key (ds @ [d])) = insort (diagnostic_key d) (sort (map diagnostic_key ds))"
    by (simp add: sort_snoc)
  ultimately show ?case using p snoc len by (auto simp: collect_snoc)
qed

lemma length_finish:
  "length (finish er) = (if er_diagnostics er = [] then 1 else length (er_diagnostics er)) + (if er_truncated er then 1 else 0)"
  by (simp add: finish_def Let_def)

lemma errors_ok_finish: "errors_ok er \<Longrightarrow> 0 < length (finish er) \<and> length (finish er) \<le> MAX_DIAGNOSTICS"
  by (auto simp: length_finish errors_ok_def MAX_DIAGNOSTICS_def)

lemma retained_form: "r \<in> set (er_diagnostics (collect ds)) \<Longrightarrow> \<exists>d. r = retained_new d"
proof (induction ds rule: rev_induct)
  case Nil
  then show ?case by (simp add: collect_def errors_default_def)
next
  case (snoc d ds)
  then show ?case
    by (auto simp: collect_snoc push_def Let_def split: if_splits dest: subsetD [OF set_update_subset_insert])
qed

section \<open>Sealed snapshots\<close>

lemma verify_acceptedD:
  assumes "wf_source_map sources" and "verify sha256 g sources target = Some (Inr v)"
  obtains c where "verify_accepts sha256 g sources target c v"
    "\<And>target'. \<exists>w. verify sha256 g sources target' = Some (Inr w) \<and> verify_accepts sha256 g sources target' c w"
proof -
  from verify_cases [OF assms(1), of sha256 g] show thesis
  proof
  assume "\<forall>target. failed (verify sha256 g sources target)"
  then show thesis using assms(2) by (auto simp: failed_def dest: spec [of _ target])
next
  assume "\<exists>c. \<forall>target. \<exists>v. verify sha256 g sources target = Some (Inr v) \<and> verify_accepts sha256 g sources target c v"
  then obtain c where c: "\<forall>target. \<exists>v. verify sha256 g sources target = Some (Inr v) \<and> verify_accepts sha256 g sources target c v" ..
  then have "verify_accepts sha256 g sources target c v" using assms(2) by (metis option.inject sum.inject(2))
  then show thesis using that c by blast
  qed
qed

lemma accepted_slot:
  assumes "verify_accepts sha256 g sources target c v" and "t < length (vl_records v)"
  shows "lr_id (vl_records v ! t) = \<lparr>ti_universe = vl_universe v, ti_index = of_nat t\<rparr>"
    "kind_matches c (raw_kind g c t) (lr_kind (vl_records v ! t))"
    "record_ok target (get_at (vl_records v)) (vl_records v ! t)"
    "\<forall>i\<in>set (by_value_types (lr_kind (vl_records v ! t))). unat (ti_index i) < length (vl_records v)"
    "length (vl_records v) = length (types g)" "vl_universe v = cm_universe c"
    "t < 2 ^ 32"
proof -
  let ?rs = "vl_records v"
  have a: "v = \<lparr>vl_source_map = sm_id sources, vl_universe = cm_universe c, vl_target = target,
           vl_records = vl_records v, vl_fingerprint = sha256 (layout_document target (vl_records v))\<rparr>"
    "records_ok g c target ?rs" "graph_ok g"
    using assms(1) unfolding verify_accepts_def by blast+
  show u: "vl_universe v = cm_universe c" by (subst a(1)) simp
  show l: "length ?rs = length (types g)" using a(2) by (simp add: records_ok_def)
  have s: "slot_ok c target (map Some ?rs) t (raw_kind g c t) (?rs ! t)"
    using a(2) assms(2) by (simp add: records_ok_def)
  show "lr_id (?rs ! t) = \<lparr>ti_universe = vl_universe v, ti_index = of_nat t\<rparr>"
    "kind_matches c (raw_kind g c t) (lr_kind (?rs ! t))"
    using s u by (simp_all add: slot_ok_def)
  show b: "\<forall>i\<in>set (by_value_types (lr_kind (?rs ! t))). unat (ti_index i) < length ?rs"
    using s by (auto simp: slot_ok_def)
  have "record_ok target (\<lambda>t. map Some ?rs ! t) (?rs ! t)" using s by (simp add: slot_ok_def)
  then show "record_ok target (get_at ?rs) (?rs ! t)"
    by (rule record_ok_cong) (use b in \<open>auto simp: get_at_def\<close>)
  show "t < 2 ^ 32" using assms(2) l a(3) by (simp add: graph_ok_def MAX_TYPE_NODES_def)
qed

lemma kind_types_resolve:
  assumes m: "kind_matches c (raw_kind g c t) k" and g: "graph_ok g" and c: "canonical_ok g c"
    and t: "t < length (types g)" and i: "i \<in> set (kind_types k)"
  shows "ti_universe i = cm_universe c \<and> unat (ti_index i) < length (types g)"
proof -
  have "\<exists>ch\<in>set (all_children (raw_kind g c t)). i = node_type c ch"
  proof (cases k)
    case (VStruct mo d vs)
    then obtain fs where k: "raw_kind g c t = TStruct mo d fs"
      and eq: "map (\<lambda>v. (vf_ordinal v, vf_ty v)) vs = map (\<lambda>f. (fl_ordinal f, node_type c (fl_ty f))) fs"
      using m by (auto simp: kind_matches_def)
    have "map vf_ty vs = map (\<lambda>f. node_type c (fl_ty f)) fs"
      using arg_cong [OF eq, of "map snd"] by (simp add: comp_def)
    then have "i \<in> set (map (\<lambda>f. node_type c (fl_ty f)) fs)" using i VStruct by (simp add: kind_types_def)
    then show ?thesis using k by (auto simp: all_children_def)
  next
    case (VEnum mo d ws off sz)
    then obtain vs where k: "raw_kind g c t = TEnum mo d vs"
      and eq: "map (\<lambda>v. (vv_ordinal v, vv_payload v)) ws =
         map (\<lambda>v. (vr_ordinal v, map_option (node_type c) (vr_payload v))) vs"
      using m by (auto simp: kind_matches_def)
    have "map vv_payload ws = map (\<lambda>v. map_option (node_type c) (vr_payload v)) vs"
      using arg_cong [OF eq, of "map snd"] by (simp add: comp_def)
    moreover have "Some i \<in> set (map vv_payload ws)" using i VEnum
      by (auto simp: kind_types_def List.map_filter_def intro: rev_image_eqI)
    ultimately have "Some i \<in> set (map (\<lambda>v. map_option (node_type c) (vr_payload v)) vs)" by simp
    then obtain v where "v \<in> set vs" "Some i = map_option (node_type c) (vr_payload v)" by auto
    then show ?thesis using k by (cases "vr_payload v") (auto simp: all_children_def List.map_filter_def image_iff intro!: bexI [of _ v])
  qed (use m i in \<open>auto simp: kind_types_def kind_matches_def all_children_def\<close>)
  then obtain ch where ch: "ch \<in> set (all_children (raw_kind g c t))" "i = node_type c ch" by blast
  have "unat ch < length (types g)"
    using raw_kind_in [OF c t] ch(1) g unfolding graph_ok_def by metis
  then show ?thesis using ch(2) c by (simp add: node_type_def canonical_ok_def)
qed

lemma kind_matches_erase:
  assumes "kind_matches c k a" and "kind_matches c k b"
  shows "erase_layout a = erase_layout b"
proof -
  have fld: "map (\<lambda>f. f\<lparr>vf_offset := 0\<rparr>) vs = map (\<lambda>f. f\<lparr>vf_offset := 0\<rparr>) ws"
    if "map (\<lambda>v. (vf_ordinal v, vf_ty v)) vs = map (\<lambda>v. (vf_ordinal v, vf_ty v)) ws" for vs ws :: "verified_field list"
  proof -
    have "(\<lambda>f. f\<lparr>vf_offset := 0\<rparr>) = (\<lambda>(n, t). \<lparr>vf_ordinal = n, vf_ty = t, vf_offset = 0\<rparr>) \<circ> (\<lambda>v. (vf_ordinal v, vf_ty v))"
      by (auto simp: fun_eq_iff)
    then show ?thesis using that by (simp only: map_map [symmetric])
  qed
  have vnt: "vs = ws"
    if "map (\<lambda>v. (vv_ordinal v, vv_payload v)) vs = map (\<lambda>v. (vv_ordinal v, vv_payload v)) ws" for vs ws :: "verified_variant list"
  proof -
    have "inj (\<lambda>v :: verified_variant. (vv_ordinal v, vv_payload v))"
      by (auto intro!: injI verified_variant.equality)
    then show ?thesis using that by (simp add: inj_map_eq_map)
  qed
  show ?thesis
  proof (cases a)
    case (VStruct mo d vs)
    then obtain fs where k: "k = TStruct mo d fs"
      "map (\<lambda>v. (vf_ordinal v, vf_ty v)) vs = map (\<lambda>f. (fl_ordinal f, node_type c (fl_ty f))) fs"
      using assms(1) by (auto simp: kind_matches_def)
    then obtain ws where "b = VStruct mo d ws"
      "map (\<lambda>v. (vf_ordinal v, vf_ty v)) ws = map (\<lambda>f. (fl_ordinal f, node_type c (fl_ty f))) fs"
      using assms(2) by (cases b) (auto simp: kind_matches_def)
    then show ?thesis using VStruct k fld [of vs ws] by (simp add: erase_layout_def)
  next
    case (VEnum mo d vs x y)
    then obtain rs where k: "k = TEnum mo d rs"
      "map (\<lambda>v. (vv_ordinal v, vv_payload v)) vs = map (\<lambda>v. (vr_ordinal v, map_option (node_type c) (vr_payload v))) rs"
      using assms(1) by (auto simp: kind_matches_def)
    then obtain ws x' y' where "b = VEnum mo d ws x' y'"
      "map (\<lambda>v. (vv_ordinal v, vv_payload v)) ws = map (\<lambda>v. (vr_ordinal v, map_option (node_type c) (vr_payload v))) rs"
      using assms(2) by (cases b) (auto simp: kind_matches_def)
    then show ?thesis using VEnum k vnt [of vs ws] by (simp add: erase_layout_def)
  qed (use assms in \<open>cases b; auto simp: kind_matches_def erase_layout_def\<close>)+
qed

lemma finish_collect_keys:
  assumes "ds \<noteq> []"
  shows "map diagnostic_key (finish (collect ds)) =
    sort (take (MAX_DIAGNOSTICS - 1) (sort (map diagnostic_key ds)) @
          (if MAX_DIAGNOSTICS - 1 < length ds then [diagnostic_key budget_exhausted] else []))"
proof -
  let ?er = "collect ds"
  note cr = collect_retained [of ds]
  have ne: "er_diagnostics ?er \<noteq> []"
  proof
    assume "er_diagnostics ?er = []"
    then have "take (MAX_DIAGNOSTICS - 1) (sort (map diagnostic_key ds)) = []"
      using cr by (simp add: retained_keys_def)
    then have "length (take (MAX_DIAGNOSTICS - 1) (sort (map diagnostic_key ds))) = 0" by (simp only: list.size)
    then show False using assms by (simp add: MAX_DIAGNOSTICS_def min_def split: if_splits)
  qed
  let ?all = "er_diagnostics ?er @ (if MAX_DIAGNOSTICS - 1 < length ds then [retained_new budget_exhausted] else [])"
  have fin: "finish ?er = map rt_diagnostic (sort_key compare_retained ?all)"
    using ne cr by (simp add: finish_def Let_def budget_exhausted_def)
  have new: "diagnostic_key (rt_diagnostic r) = compare_retained r" if mem: "r \<in> set ?all" for r
  proof -
    consider "r \<in> set (er_diagnostics ?er)" | "r = retained_new budget_exhausted"
      using mem by (auto split: if_splits)
    then obtain d where "r = retained_new d" using retained_form by cases blast+
    then show ?thesis by (simp add: diagnostic_key_def retained_new_def)
  qed
  have "map diagnostic_key (finish ?er) = map compare_retained (sort_key compare_retained ?all)"
    unfolding fin map_map comp_def by (rule map_cong [OF refl], rule new) simp
  also have "\<dots> = sort (map compare_retained ?all)"
    by (rule properties_for_sort [symmetric]) simp_all
  also have "\<dots> = sort (sort (retained_keys ?er) @ (if MAX_DIAGNOSTICS - 1 < length ds then [diagnostic_key budget_exhausted] else []))"
    by (rule properties_for_sort) (simp_all add: retained_keys_def diagnostic_key_def)
  finally show ?thesis using cr by simp
qed

lemma struct_record_placed:
  assumes r: "record_ok target look r" and k: "lr_kind r = VStruct m d fs" and i: "i < length fs"
    and al: "\<forall>f\<in>set fs. 0 < snd (dims look (vf_ty f))"
  shows "snd (dims look (vf_ty (fs ! i))) dvd unat (vf_offset (fs ! i)) \<and>
    unat (vf_offset (fs ! i)) + fst (dims look (vf_ty (fs ! i))) \<le> unat (lr_size r) \<and>
    (\<forall>j<i. unat (vf_offset (fs ! j)) + fst (dims look (vf_ty (fs ! j))) \<le> unat (vf_offset (fs ! i)))"
proof -
  let ?ms = "map (\<lambda>f. dims look (vf_ty f)) fs"
  obtain offs e where p: "place 0 ?ms = (offs, e)" by fastforce
  have o: "map (\<lambda>f. unat (vf_offset f)) fs = offs" and sz: "unat (lr_size r) = round_up e (unat (lr_alignment r))"
    using r k p by (simp_all add: record_ok_def layout_ok_def by_value_types_def Let_def comp_def)
  have "offs ! j = unat (vf_offset (fs ! j))" if "j < length fs" for j using that o by auto
  moreover have "\<forall>m\<in>set ?ms. 0 < snd m" using al by auto
  ultimately show ?thesis
    using place_spec [OF p, of i] i sz round_up_ge [of e "unat (lr_alignment r)"] by auto
qed

lemma layout_ok_align: "record_ok target look r \<Longrightarrow> 0 < unat (lr_alignment r)"
  by (auto simp: record_ok_def layout_ok_def Let_def)

lemma accepted_dims:
  assumes "verify_accepts sha256 g sources target c v" and "unat (ti_index i) < length (vl_records v)"
  shows "0 < snd (dims (get_at (vl_records v)) i)"
  using layout_ok_align [OF accepted_slot(3) [OF assms]] assms(2) by (simp add: dims_def get_at_def)

lemma struct_record_aligned:
  assumes "record_ok target look r" and "lr_kind r = VStruct m d fs"
  shows "unat (lr_alignment r) dvd unat (lr_size r) \<and> unat (lr_alignment r) \<in> {1, 2, 4, 8}"
proof -
  have "unat (lr_alignment r) \<in> {1, 2, 4, 8}" "\<exists>e. unat (lr_size r) = round_up e (unat (lr_alignment r))"
    using assms by (auto simp: record_ok_def layout_ok_def Let_def split: prod.splits)
  then show ?thesis using layout_ok_align [OF assms(1)] round_up_dvd by metis
qed

lemma accepted_type_by_id:
  assumes "wf_source_map sources" and "verify sha256 g sources target = Some (Inr v)" and "t < length (vl_records v)"
  shows "type_by_id v (lr_id (vl_records v ! t)) = Some (vl_records v ! t)"
proof -
  obtain c where c: "verify_accepts sha256 g sources target c v" using verify_acceptedD [OF assms(1,2)] .
  have "unat (of_nat t :: u32) = t" using accepted_slot(7) [OF c assms(3)] by (simp add: unat_of_nat take_bit_nat_def)
  then show ?thesis using accepted_slot(1) [OF c assms(3)] assms(3) by (simp add: type_by_id_def get_at_def)
qed

section \<open>A sample graph\<close>

lemma verify_accepted_if:
  assumes src: "wf_source_map sources"
    and p: "map_option is_empty (preflight g sources errors_default) = Some True"
    and k: "canonical_keys g errors_default = Some (Some keys, errors_default)"
    and a: "assign_type_ids sha256 g keys errors_default = Some (Some c, errors_default)"
    and r: "map_option is_empty (reject_by_value_cycles g c errors_default) = Some True"
    and t: "\<And>target. compute_records g c target errors_default = Some (Some (rs target), errors_default)"
  shows "\<exists>v. verify sha256 g sources target = Some (Inr v) \<and> vl_records v = rs target"
proof -
  obtain e0 where e0: "preflight g sources errors_default = Some e0" "errors_ok e0"
    "is_empty e0 \<longrightarrow> e0 = errors_default \<and> graph_ok g \<and> (\<forall>node\<in>set (types g). node_ok g node)"
    using preflight_total [OF src] by blast
  then have p': "preflight g sources errors_default = Some errors_default"
    and g: "graph_ok g" and n: "\<forall>node\<in>set (types g). node_ok g node" using p by auto
  have ko: "keys_ok g keys" using canonical_keys_total [OF g n] k by (auto simp: is_empty_default)
  have co: "canonical_ok g c" using assign_type_ids_total [OF g n ko, of sha256] a by (auto simp: is_empty_default)
  obtain e3 where e3: "reject_by_value_cycles g c errors_default = Some e3" "grows errors_default e3"
    "is_empty e3 \<longrightarrow> acyclic (value_edges g c)"
    using reject_by_value_cycles_total [OF g co, of errors_default] by auto
  then have r': "reject_by_value_cycles g c errors_default = Some errors_default"
    and ac: "acyclic (value_edges g c)" using r by (auto simp: grows_def)
  have ok: "records_ok g c target (rs target)" for target
    using compute_records_total [OF g keys_ok_no_borrow [OF ko] co ac errors_ok_default, of target] t [of target]
    by (auto simp: is_empty_default)
  have "seal_target sha256 target (rs target) errors_default =
      Some (Inr (layout_document target (rs target), sha256 (layout_document target (rs target))))" for target
    using records_sealable [OF g co ok] seal_target_total by blast
  then show ?thesis using p' k a r' t
    by (cases target) (simp_all add: verify_def bind_result_def unless_failed_default)
qed

lemma sample_preflight: "map_option is_empty (preflight sample_graph sample_map errors_default) = Some True"
  by code_simp

lemma sample_canonical_keys: "canonical_keys sample_graph errors_default = Some (Some sample_keys, errors_default)"
  by code_simp

lemma sample_assign: "assign_type_ids sample_sha sample_graph sample_keys errors_default = Some (Some sample_canonical, errors_default)"
  by code_simp

lemma sample_cycles: "map_option is_empty (reject_by_value_cycles sample_graph sample_canonical errors_default) = Some True"
  by code_simp

lemma sample_compute_linear:
  "compute_records sample_graph sample_canonical Linear32V1 errors_default =
     Some (Some (sample_records Linear32V1), errors_default)"
  by code_simp

lemma sample_compute_native:
  "compute_records sample_graph sample_canonical LinuxX8664V1 errors_default =
     Some (Some (sample_records LinuxX8664V1), errors_default)"
  by code_simp

lemma sample_verified:
  "verify sample_sha sample_graph sample_map target = Some (Inr (sample_layouts target))"
  "vl_records (sample_layouts target) = sample_records target"
proof -
  have "compute_records sample_graph sample_canonical t errors_default = Some (Some (sample_records t), errors_default)" for t
    using sample_compute_linear sample_compute_native by (cases t) auto
  from verify_accepted_if [OF sample_wf sample_preflight sample_canonical_keys sample_assign sample_cycles this, of target]
  show "verify sample_sha sample_graph sample_map target = Some (Inr (sample_layouts target))"
    "vl_records (sample_layouts target) = sample_records target" by (auto simp: sample_layouts_def)
qed

lemma sample_graph_ok: "graph_ok sample_graph" "canonical_ok sample_graph sample_canonical"
proof -
  obtain e where e: "preflight sample_graph sample_map errors_default = Some e"
    "is_empty e \<longrightarrow> graph_ok sample_graph \<and> (\<forall>node\<in>set (types sample_graph). node_ok sample_graph node)"
    using preflight_total [OF sample_wf, of sample_graph] by blast
  then have g: "graph_ok sample_graph" and n: "\<forall>node\<in>set (types sample_graph). node_ok sample_graph node"
    using sample_preflight by auto
  show "graph_ok sample_graph" by (rule g)
  have k: "keys_ok sample_graph sample_keys"
    using canonical_keys_total [OF g n] sample_canonical_keys by (auto simp: is_empty_default)
  show "canonical_ok sample_graph sample_canonical"
    using assign_type_ids_total [OF g n k, of sample_sha] sample_assign by (auto simp: is_empty_default)
qed

lemma sample_sealable:
  "sealable (sample_records target)" "length (layout_document target (sample_records target)) < 2 ^ 64"
proof -
  obtain c where "verify_accepts sample_sha sample_graph sample_map target c (sample_layouts target)"
    using verify_acceptedD [OF sample_wf sample_verified(1)] .
  then have "graph_ok sample_graph" "canonical_ok sample_graph c" "records_ok sample_graph c target (sample_records target)"
    unfolding verify_accepts_def sample_verified(2) by blast+
  then show "sealable (sample_records target)" "length (layout_document target (sample_records target)) < 2 ^ 64"
    using records_sealable by blast+
qed

section \<open>Properties\<close>

text \<open>C18: Layout verification over a well-formed source map always ends with a result, and never reaches a
  panic of the source: a rejection carries between one and \<open>MAX_DIAGNOSTICS\<close> diagnostics, and an
  acceptance carries exactly one record per node of the raw graph.\<close>

theorem verify_total:
  assumes "wf_source_map sources"
  shows "\<exists>r. verify sha256 g sources target = Some r \<and>
    (case r of
       Inl ds \<Rightarrow> 0 < length ds \<and> length ds \<le> MAX_DIAGNOSTICS
     | Inr v \<Rightarrow> length (vl_records v) = length (types g) \<and> vl_target v = target \<and>
         vl_source_map v = sm_id sources)"
  using verify_cases [OF assms, of sha256 g]
proof
  assume "\<forall>target. failed (verify sha256 g sources target)"
  then have "failed (verify sha256 g sources target)" ..
  then show ?thesis using errors_ok_finish by (auto simp: failed_def)
next
  assume "\<exists>c. \<forall>target. \<exists>v. verify sha256 g sources target = Some (Inr v) \<and>
    verify_accepts sha256 g sources target c v"
  then obtain c v where v: "verify sha256 g sources target = Some (Inr v)"
    "verify_accepts sha256 g sources target c v" by blast
  then have "vl_target v = target" "vl_source_map v = sm_id sources"
    "length (vl_records v) = length (types g)"
    unfolding verify_accepts_def records_ok_def
    by (metis verified_layouts.select_convs(1,3))+
  then show ?thesis using v(1) by simp
qed

theorem verify_total_witness:
  "\<exists>r. verify sample_sha sample_graph sample_map Linear32V1 = Some r \<and>
    (case r of
       Inl ds \<Rightarrow> 0 < length ds \<and> length ds \<le> MAX_DIAGNOSTICS
     | Inr v \<Rightarrow> length (vl_records v) = length (types sample_graph) \<and> vl_target v = Linear32V1 \<and>
         vl_source_map v = sm_id sample_map)"
  by (rule verify_total [OF sample_wf])

text \<open>C19: An accepted snapshot is the mathematical layout of the raw graph. There is a bijective
  canonical numbering of the raw nodes under which the record of every type has the raw kind of its node
  with canonical identities for its members, and the size, alignment, member offsets, discriminant
  and payload offsets, array stride and drop kind that \<open>layout_ok\<close> computes over the natural numbers from
  the sizes and alignments of the by-value members; by-value containment has no cycle, and no vector
  element has size zero.\<close>

theorem verify_refines_layout:
  assumes "wf_source_map sources" and "verify sha256 g sources target = Some (Inr v)"
  shows "\<exists>c. canonical_ok g c \<and> acyclic (value_edges g c) \<and>
    (\<forall>t<length (vl_records v).
       kind_matches c (raw_kind g c t) (lr_kind (vl_records v ! t)) \<and>
       record_ok target (get_at (vl_records v)) (vl_records v ! t) \<and>
       (\<forall>e. lr_kind (vl_records v ! t) = VVec e \<longrightarrow> lr_size (vl_records v ! unat (ti_index e)) \<noteq> 0))"
proof -
  obtain c where c: "verify_accepts sha256 g sources target c v" using verify_acceptedD [OF assms] .
  have "canonical_ok g c" "acyclic (value_edges g c)" "records_ok g c target (vl_records v)"
    using c unfolding verify_accepts_def by blast+
  then show ?thesis using accepted_slot(2,3) [OF c] unfolding records_ok_def by blast
qed

theorem verify_refines_layout_witness:
  "\<exists>c. canonical_ok sample_graph c \<and> acyclic (value_edges sample_graph c) \<and>
     kind_matches c (raw_kind sample_graph c 3) (lr_kind (sample_records LinuxX8664V1 ! 3)) \<and>
     record_ok LinuxX8664V1 (get_at (sample_records LinuxX8664V1)) (sample_records LinuxX8664V1 ! 3)"
proof -
  have "3 < length (vl_records (sample_layouts LinuxX8664V1))"
    unfolding sample_verified(2) by (simp add: sample_records_def Let_def)
  then show ?thesis using verify_refines_layout [OF sample_wf sample_verified(1), of LinuxX8664V1]
    unfolding sample_verified(2) by blast
qed

text \<open>C20: In every struct of an accepted snapshot each field lies at a multiple of its type's
  alignment, after the end of every earlier field, and inside the struct; the struct's size is a multiple of its
  alignment, which is one of 1, 2, 4 and 8.\<close>

theorem verified_struct_fields:
  assumes "wf_source_map sources" and "verify sha256 g sources target = Some (Inr v)"
    and "r \<in> set (vl_records v)" and "lr_kind r = VStruct m d fs" and "i < length fs"
    and "type_by_id v (vf_ty (fs ! i)) = Some fr"
  shows "unat (lr_alignment fr) dvd unat (vf_offset (fs ! i)) \<and>
    unat (vf_offset (fs ! i)) + unat (lr_size fr) \<le> unat (lr_size r) \<and>
    unat (lr_alignment r) dvd unat (lr_size r) \<and> unat (lr_alignment r) \<in> {1, 2, 4, 8} \<and>
    (\<forall>j<i. \<exists>fj. type_by_id v (vf_ty (fs ! j)) = Some fj \<and>
       unat (vf_offset (fs ! j)) + unat (lr_size fj) \<le> unat (vf_offset (fs ! i)))"
proof -
  obtain c where c: "verify_accepts sha256 g sources target c v" using verify_acceptedD [OF assms(1,2)] .
  obtain t where t: "t < length (vl_records v)" "r = vl_records v ! t" using assms(3) by (metis in_set_conv_nth)
  let ?look = "get_at (vl_records v)"
  note ok = accepted_slot [OF c t(1), folded t(2)]
  have g: "graph_ok g" "canonical_ok g c" using c unfolding verify_accepts_def by blast+
  have res: "ti_universe (vf_ty f) = vl_universe v \<and> unat (ti_index (vf_ty f)) < length (vl_records v)" if "f \<in> set fs" for f
    using kind_types_resolve [OF ok(2) g, of "vf_ty f"] that assms(4) t(1) ok(5,6) by (simp add: kind_types_def)
  have tb: "type_by_id v (vf_ty f) = Some (vl_records v ! unat (ti_index (vf_ty f)))"
    "dims ?look (vf_ty f) = (unat (lr_size (vl_records v ! unat (ti_index (vf_ty f)))),
       unat (lr_alignment (vl_records v ! unat (ti_index (vf_ty f)))))" if "f \<in> set fs" for f
    using res [OF that] by (simp_all add: type_by_id_def dims_def get_at_def)
  have fr: "dims ?look (vf_ty (fs ! i)) = (unat (lr_size fr), unat (lr_alignment fr))"
    using tb [of "fs ! i"] assms(5,6) by simp
  have pos: "\<forall>f\<in>set fs. 0 < snd (dims ?look (vf_ty f))"
    using accepted_dims [OF c] res by blast
  have al: "unat (lr_alignment r) dvd unat (lr_size r) \<and> unat (lr_alignment r) \<in> {1, 2, 4, 8}"
    using struct_record_aligned [OF ok(3) assms(4)] .
  have "\<exists>fj. type_by_id v (vf_ty (fs ! j)) = Some fj \<and>
       unat (vf_offset (fs ! j)) + unat (lr_size fj) \<le> unat (vf_offset (fs ! i))" if "j < i" for j
  proof -
    have "fs ! j \<in> set fs" using that assms(5) by simp
    then show ?thesis using struct_record_placed [OF ok(3) assms(4,5) pos] that tb by (metis fst_conv)
  qed
  then show ?thesis using struct_record_placed [OF ok(3) assms(4,5) pos] al unfolding fr by auto
qed

theorem verified_struct_fields_witness:
  "\<exists>fj. type_by_id (sample_layouts LinuxX8664V1) (sample_type 0) = Some fj \<and>
     unat (0 :: u64) + unat (lr_size fj) \<le> unat (4 :: u64)"
proof -
  let ?v = "sample_layouts LinuxX8664V1" and ?r = "sample_records LinuxX8664V1 ! 3"
    and ?fr = "sample_records LinuxX8664V1 ! 1"
  let ?fs = "[\<lparr>vf_ordinal = 0, vf_ty = sample_type 0, vf_offset = 0\<rparr>, \<lparr>vf_ordinal = 1, vf_ty = sample_type 1, vf_offset = 4\<rparr>]"
  have mem: "?r \<in> set (vl_records ?v)" unfolding sample_verified(2) by (simp add: sample_records_def Let_def)
  have k: "lr_kind ?r = VStruct 0 0 ?fs" by (simp add: sample_records_def Let_def)
  have "type_by_id ?v (lr_id ?fr) = Some ?fr"
    using accepted_type_by_id [OF sample_wf sample_verified(1), of 1 LinuxX8664V1]
    unfolding sample_verified(2) by (simp add: sample_records_def Let_def)
  then have "type_by_id ?v (vf_ty (?fs ! 1)) = Some ?fr" by (simp add: sample_records_def Let_def)
  from verified_struct_fields [OF sample_wf sample_verified(1) mem k _ this] show ?thesis by simp
qed

text \<open>The two storage targets accept the same graphs, and the snapshots agree on everything that is
  not a layout: the universe, the identities and the kinds of the types.\<close>

theorem verify_targets_agree:
  assumes "wf_source_map sources" and "verify sha256 g sources target = Some (Inr v)"
  shows "\<exists>w. verify sha256 g sources target' = Some (Inr w) \<and> vl_universe w = vl_universe v \<and>
    vl_source_map w = vl_source_map v \<and> map lr_id (vl_records w) = map lr_id (vl_records v) \<and>
    map (\<lambda>r. erase_layout (lr_kind r)) (vl_records w) = map (\<lambda>r. erase_layout (lr_kind r)) (vl_records v)"
proof -
  obtain c where c: "verify_accepts sha256 g sources target c v"
    and b: "\<And>target'. \<exists>w. verify sha256 g sources target' = Some (Inr w) \<and> verify_accepts sha256 g sources target' c w"
    using verify_acceptedD [OF assms] by metis
  obtain w where w: "verify sha256 g sources target' = Some (Inr w)" "verify_accepts sha256 g sources target' c w"
    using b by blast
  have u: "vl_universe w = vl_universe v" "vl_source_map w = vl_source_map v"
    using c w(2) unfolding verify_accepts_def by (metis verified_layouts.select_convs(1,2))+
  have len: "length (vl_records w) = length (vl_records v)"
    using c w(2) unfolding verify_accepts_def records_ok_def by metis
  have "lr_id (vl_records w ! t) = lr_id (vl_records v ! t)"
    "erase_layout (lr_kind (vl_records w ! t)) = erase_layout (lr_kind (vl_records v ! t))"
    if "t < length (vl_records v)" for t
    using accepted_slot(1,2) [OF c that] accepted_slot(1,2) [OF w(2), of t] that len u
      kind_matches_erase by metis+
  then show ?thesis using w(1) u len by (intro exI [of _ w]) (simp add: list_eq_iff_nth_eq)
qed

text \<open>C21: The check for by-value cycles is exact: on a graph that passed the structural checks it reports
  nothing exactly when by-value containment has no cycle and no chain of more than
  \<open>MAX_TRAVERSAL_DEPTH\<close> types.\<close>

theorem by_value_check_exact:
  assumes "graph_ok g" and "canonical_ok g c"
  shows "reject_by_value_cycles g c errors_default = Some errors_default \<longleftrightarrow>
    acyclic (value_edges g c) \<and> (\<forall>ns. value_chain (value_edges g c) ns \<longrightarrow> length ns \<le> MAX_TRAVERSAL_DEPTH)"
  by (rule reject_by_value_cycles_exact [OF assms])

theorem by_value_check_exact_witness:
  "reject_by_value_cycles sample_graph sample_canonical errors_default = Some errors_default \<longleftrightarrow>
    acyclic (value_edges sample_graph sample_canonical) \<and>
    (\<forall>ns. value_chain (value_edges sample_graph sample_canonical) ns \<longrightarrow> length ns \<le> MAX_TRAVERSAL_DEPTH)"
  by (rule by_value_check_exact [OF sample_graph_ok])

text \<open>C22: The audit of a sealed document accepts exactly the canonical encoding of the records with the
  fingerprint of that encoding: every other byte sequence and every other fingerprint is refused.\<close>

theorem audit_accepts_encoding:
  assumes "length bs < 2 ^ 64" and "sealable records"
  shows "audit_document sha256 bs target records fp = Inr () \<longleftrightarrow>
    encode_document target records errors_default = Some (Inr bs) \<and> fp = sha256 bs"
  using audit_document_iff [OF assms] encode_document_sealable [OF assms(2)] by auto

theorem audit_accepts_encoding_witness:
  "\<exists>bs. audit_document sample_sha bs Linear32V1 (sample_records Linear32V1) (sample_sha bs) = Inr () \<and>
     audit_document sample_sha [] Linear32V1 (sample_records Linear32V1) (sample_sha []) \<noteq> Inr ()"
proof -
  let ?bs = "layout_document Linear32V1 (sample_records Linear32V1)"
  note s = sample_sealable [of Linear32V1]
  have e: "encode_document Linear32V1 (sample_records Linear32V1) errors_default = Some (Inr ?bs)"
    by (rule encode_document_sealable [OF s(1)])
  have "?bs \<noteq> []" by (simp add: layout_document_def)
  then show ?thesis
    using audit_accepts_encoding [OF s(2,1), of sample_sha Linear32V1 "sample_sha ?bs"] e
      audit_accepts_encoding [OF _ s(1), of "[]" sample_sha Linear32V1 "sample_sha []"] by auto
qed

text \<open>C23: An accepted snapshot is a closed universe: its records are exactly the answers of
  \<open>type_by_id\<close>, each under its own identity, and every identity that a record names is answered.\<close>

theorem snapshot_closed:
  assumes "wf_source_map sources" and "verify sha256 g sources target = Some (Inr v)"
  shows "(\<forall>i r. type_by_id v i = Some r \<longleftrightarrow> r \<in> set (vl_records v) \<and> lr_id r = i) \<and>
    (\<forall>r\<in>set (vl_records v). \<forall>i\<in>set (kind_types (lr_kind r)). type_by_id v i \<noteq> None)"
proof (intro conjI allI ballI)
  obtain c where c: "verify_accepts sha256 g sources target c v" using verify_acceptedD [OF assms] .
  have g: "graph_ok g" "canonical_ok g c" using c unfolding verify_accepts_def by blast+
  fix i r
  show "type_by_id v i = Some r \<longleftrightarrow> r \<in> set (vl_records v) \<and> lr_id r = i"
  proof
    assume "type_by_id v i = Some r"
    then have t: "ti_universe i = vl_universe v" "unat (ti_index i) < length (vl_records v)"
      "r = vl_records v ! unat (ti_index i)" by (auto simp: type_by_id_def get_at_def split: if_splits)
    then show "r \<in> set (vl_records v) \<and> lr_id r = i" using accepted_slot(1) [OF c t(2)] by simp
  next
    assume "r \<in> set (vl_records v) \<and> lr_id r = i"
    then show "type_by_id v i = Some r" using accepted_type_by_id [OF assms] by (metis in_set_conv_nth)
  qed
next
  obtain c where c: "verify_accepts sha256 g sources target c v" using verify_acceptedD [OF assms] .
  have g: "graph_ok g" "canonical_ok g c" using c unfolding verify_accepts_def by blast+
  fix r i
  assume r: "r \<in> set (vl_records v)" and i: "i \<in> set (kind_types (lr_kind r))"
  obtain t where t: "t < length (vl_records v)" "r = vl_records v ! t" using r by (metis in_set_conv_nth)
  note ok = accepted_slot [OF c t(1), folded t(2)]
  have "ti_universe i = cm_universe c \<and> unat (ti_index i) < length (types g)"
    using kind_types_resolve [OF ok(2) g _ i] t(1) ok(5) by simp
  then show "type_by_id v i \<noteq> None" using ok(5,6) by (simp add: type_by_id_def get_at_def)
qed

theorem snapshot_closed_witness:
  "type_by_id (sample_layouts LinuxX8664V1) (sample_type 3) \<noteq> None"
proof -
  have "sample_records LinuxX8664V1 ! 4 \<in> set (vl_records (sample_layouts LinuxX8664V1))"
    "sample_type 3 \<in> set (kind_types (lr_kind (sample_records LinuxX8664V1 ! 4)))"
    unfolding sample_verified(2) by (simp_all add: sample_records_def Let_def kind_types_def)
  then show ?thesis using snapshot_closed [OF sample_wf sample_verified(1), of LinuxX8664V1] by blast
qed

text \<open>C24: The bounded collector reports the least diagnostics, whatever the order they were found in: the
  sort keys of its report are the \<open>MAX_DIAGNOSTICS - 1\<close> least keys of all pushed diagnostics in
  ascending order, with the key of the budget notice sorted among them exactly when a diagnostic was dropped.\<close>

theorem collector_reports_least:
  assumes "ds \<noteq> []"
  shows "map diagnostic_key (finish (collect ds)) =
    sort (take (MAX_DIAGNOSTICS - 1) (sort (map diagnostic_key ds)) @
          (if MAX_DIAGNOSTICS - 1 < length ds then [diagnostic_key budget_exhausted] else []))"
  by (rule finish_collect_keys [OF assms])

theorem collector_reports_least_witness:
  "length (finish (collect (replicate 300 budget_exhausted))) = 256"
proof -
  have "length (map diagnostic_key (finish (collect (replicate 300 budget_exhausted)))) = 256"
    unfolding collector_reports_least [of "replicate 300 budget_exhausted", simplified]
    by (simp add: MAX_DIAGNOSTICS_def)
  then show ?thesis by simp
qed

end
