(* ===== verification/Ownership.thy ===== *)
theory Ownership
  imports Layout
begin

text \<open>
  The ownership-runtime ABI, \<open>crates/zryna-ownership-runtime-abi/src/lib.rs\<close> and
  \<open>generic_execution_accounting.rs\<close>: statuses and operations with their declared status sets, the pure
  validators of Shared/Weak and Vec transition claims, the layout-derived metadata, and the arithmetic of the
  invocation counters. The tables of target signatures and the checked header are data of the emitters and
  are left out; of \<open>VerifiedOwnershipRuntimeAbi\<close> the record keeps the fields that the control model reads.
\<close>

section \<open>Statuses and operations\<close>

definition MAX_DYNAMIC_ALLOCATION_BYTES :: u64 where "MAX_DYNAMIC_ALLOCATION_BYTES = 2147483647"
definition MAX_VEC_ELEMENTS :: u64 where "MAX_VEC_ELEMENTS = 1048576"
definition MAX_LIVE_ALLOCATIONS :: u64 where "MAX_LIVE_ALLOCATIONS = 1048576"
definition MAX_ALLOCATION_OPERATIONS :: u64 where "MAX_ALLOCATION_OPERATIONS = 1048576"
definition MAX_STATUS_TRANSITIONS :: u64 where "MAX_STATUS_TRANSITIONS = 4194304"

datatype runtime_status =
  StatusOk | StatusAllocation | StatusCapacity | StatusRefcount | StatusUtf8 | StatusExpired | StatusAbiViolation

fun status_code :: "runtime_status \<Rightarrow> u8" where
  "status_code StatusOk = 0"
| "status_code StatusAllocation = 1"
| "status_code StatusCapacity = 2"
| "status_code StatusRefcount = 3"
| "status_code StatusUtf8 = 4"
| "status_code StatusExpired = 5"
| "status_code StatusAbiViolation = 255"

datatype logical_operation =
    Allocate | Grow | Release
  | StringFromUtf8Copy | StringClone | StringConcat | StringRelease
  | VecAllocate | VecReserve | VecReleaseStorage
  | StrongClone | WeakDowngrade | WeakClone | WeakUpgrade
  | StrongReleaseBegin | StrongReleaseFinish | WeakRelease

fun operation_name :: "logical_operation \<Rightarrow> string" where
  "operation_name Allocate = ''allocate''"
| "operation_name Grow = ''grow''"
| "operation_name Release = ''release''"
| "operation_name StringFromUtf8Copy = ''stringFromUtf8Copy''"
| "operation_name StringClone = ''stringClone''"
| "operation_name StringConcat = ''stringConcat''"
| "operation_name StringRelease = ''stringRelease''"
| "operation_name VecAllocate = ''vecAllocate''"
| "operation_name VecReserve = ''vecReserve''"
| "operation_name VecReleaseStorage = ''vecReleaseStorage''"
| "operation_name StrongClone = ''strongClone''"
| "operation_name WeakDowngrade = ''weakDowngrade''"
| "operation_name WeakClone = ''weakClone''"
| "operation_name WeakUpgrade = ''weakUpgrade''"
| "operation_name StrongReleaseBegin = ''strongReleaseBegin''"
| "operation_name StrongReleaseFinish = ''strongReleaseFinish''"
| "operation_name WeakRelease = ''weakRelease''"

datatype logical_parameter =
    PByteSize | PAlignment | PPointer | POldByteSize | PNewByteSize | PBytes | PByteLength | PString
  | PLeftString | PRightString | PElementLayout | PRequiredCapacity | PVecStorage | PRequiredLength | PControl

datatype logical_result = RStatus | RStatusPointer | RStatusString | RStatusVecStorage | RStatusBool

record operation_declaration =
  od_name :: string
  od_parameters :: "logical_parameter list"
  od_result :: logical_result
  od_statuses :: "u8 list"

fun operation_shape :: "logical_operation \<Rightarrow> logical_parameter list \<times> logical_result \<times> u8 list" where
  "operation_shape Allocate = ([PByteSize, PAlignment], RStatusPointer, [0, 1, 2, 255])"
| "operation_shape Grow = ([PPointer, POldByteSize, PNewByteSize, PAlignment], RStatusPointer, [0, 1, 2, 255])"
| "operation_shape Release = ([PPointer, PByteSize, PAlignment], RStatus, [0, 255])"
| "operation_shape StringFromUtf8Copy = ([PBytes, PByteLength], RStatusString, [0, 1, 2, 4, 255])"
| "operation_shape StringClone = ([PString], RStatusString, [0, 1, 2, 255])"
| "operation_shape StringConcat = ([PLeftString, PRightString], RStatusString, [0, 1, 2, 255])"
| "operation_shape StringRelease = ([PString], RStatus, [0, 255])"
| "operation_shape VecAllocate = ([PElementLayout, PRequiredCapacity], RStatusVecStorage, [0, 1, 2, 255])"
| "operation_shape VecReserve = ([PElementLayout, PVecStorage, PRequiredLength], RStatusVecStorage, [0, 1, 2, 255])"
| "operation_shape VecReleaseStorage = ([PElementLayout, PVecStorage], RStatus, [0, 255])"
| "operation_shape StrongClone = ([PControl], RStatus, [0, 3, 255])"
| "operation_shape WeakDowngrade = ([PControl], RStatus, [0, 3, 255])"
| "operation_shape WeakClone = ([PControl], RStatus, [0, 3, 255])"
| "operation_shape WeakUpgrade = ([PControl], RStatus, [0, 3, 5, 255])"
| "operation_shape StrongReleaseBegin = ([PControl], RStatusBool, [0, 255])"
| "operation_shape WeakRelease = ([PControl], RStatusBool, [0, 255])"
| "operation_shape StrongReleaseFinish = ([PControl], RStatus, [0, 255])"

definition operation_declaration_of :: "logical_operation \<Rightarrow> operation_declaration" where
  "operation_declaration_of op =
     (let (ps, res, sts) = operation_shape op
      in \<lparr>od_name = operation_name op, od_parameters = ps, od_result = res, od_statuses = sts\<rparr>)"

definition operation_accepts_status :: "logical_operation \<Rightarrow> runtime_status \<Rightarrow> bool" where
  "operation_accepts_status op st = (status_code st \<in> set (od_statuses (operation_declaration_of op)))"

section \<open>Violations\<close>

datatype violation_kind = KInventory | KContract | KLayout | KCapability | KStructure | KEvidence | KBudget

record runtime_abi_violation =
  rv_kind :: violation_kind
  rv_declaration_index :: "usize option"
  rv_message :: string

definition violation_code :: "runtime_abi_violation \<Rightarrow> string" where
  "violation_code v =
     (case rv_kind v of
        KInventory \<Rightarrow> ''ZRYNA-R3001'' | KContract \<Rightarrow> ''ZRYNA-R3002'' | KLayout \<Rightarrow> ''ZRYNA-R3003''
      | KCapability \<Rightarrow> ''ZRYNA-R3004'' | KStructure \<Rightarrow> ''ZRYNA-R3005'' | KEvidence \<Rightarrow> ''ZRYNA-R3006''
      | KBudget \<Rightarrow> ''ZRYNA-R3201'')"

definition transition_result :: "bool \<Rightarrow> runtime_abi_violation + unit" where
  "transition_result valid =
     (if valid then Inr ()
      else Inl \<lparr>rv_kind = KContract, rv_declaration_index = None,
             rv_message = ''runtime transition claim violates the frozen v1 state/result contract''\<rparr>)"

section \<open>Vec transitions\<close>

definition vec_capacity_fits :: "u64 \<Rightarrow> u64 \<Rightarrow> bool" where
  "vec_capacity_fits capacity stride =
     (0 < stride \<and> capacity \<le> MAX_VEC_ELEMENTS \<and>
      (case checked_mul capacity stride of None \<Rightarrow> False | Some n \<Rightarrow> n \<le> MAX_DYNAMIC_ALLOCATION_BYTES))"

text \<open>The doubling loop: the outer \<open>None\<close> is a loop that does not end, the inner one the early return of
  \<open>checked_mul\<close>.\<close>

partial_function (option) reserve_loop :: "u64 \<Rightarrow> u64 \<Rightarrow> u64 \<Rightarrow> u64 option option" where
  "reserve_loop candidate required stride =
     (if candidate < required then
        (if \<not> vec_capacity_fits candidate stride then Some (Some required)
         else
           (case checked_mul candidate 2 of
              None \<Rightarrow> Some None
            | Some doubled \<Rightarrow> reserve_loop doubled required stride))
      else Some (Some (if vec_capacity_fits candidate stride then candidate else required)))"

declare reserve_loop.simps [code]

definition reserve_capacity :: "u64 \<Rightarrow> u64 \<Rightarrow> u64 \<Rightarrow> u64 option option" where
  "reserve_capacity old required stride =
     (if \<not> vec_capacity_fits old stride \<or> \<not> vec_capacity_fits required stride then Some None
      else if required \<le> old then Some (Some old)
      else
        (case (if old = 0 then Some 4 else checked_mul old 2) of
           None \<Rightarrow> Some None
         | Some candidate \<Rightarrow> reserve_loop candidate required stride))"

definition validate_vec_allocate :: "u64 \<Rightarrow> runtime_status \<Rightarrow> u64 \<Rightarrow> u64 \<Rightarrow> u64 \<Rightarrow> u64 \<Rightarrow> bool" where
  "validate_vec_allocate requested status pointer len capacity stride =
     (let request_fits = vec_capacity_fits requested stride
      in case status of
           StatusOk \<Rightarrow>
             (if requested = 0 then pointer = 0 \<and> len = 0 \<and> capacity = 0
              else request_fits \<and> pointer \<noteq> 0 \<and> len = 0 \<and> capacity = requested)
         | StatusCapacity \<Rightarrow> \<not> request_fits \<and> pointer = 0 \<and> len = 0 \<and> capacity = 0
         | StatusAllocation \<Rightarrow> 0 < requested \<and> request_fits \<and> pointer = 0 \<and> len = 0 \<and> capacity = 0
         | StatusAbiViolation \<Rightarrow> pointer = 0 \<and> len = 0 \<and> capacity = 0
         | _ \<Rightarrow> False)"

text \<open>The result of a reserve in terms of the reserved capacity, \<open>None\<close> when there is none.\<close>

definition vec_reserve_matches ::
    "u64 \<Rightarrow> u64 \<Rightarrow> u64 \<Rightarrow> runtime_status \<Rightarrow> u64 \<Rightarrow> u64 \<Rightarrow> u64 \<Rightarrow> bool \<Rightarrow> bool \<Rightarrow> u64 option \<Rightarrow> bool" where
  "vec_reserve_matches old_length old_capacity required_length status pointer len capacity input_unchanged
       old_valid reserved =
     (case status of
        StatusOk \<Rightarrow>
          old_valid \<and> reserved \<noteq> None \<and> len = old_length \<and> Some capacity = reserved \<and>
          (capacity = 0 \<or> pointer \<noteq> 0)
      | StatusCapacity \<Rightarrow>
          old_valid \<and> reserved = None \<and> pointer = 0 \<and> len = 0 \<and> capacity = 0 \<and> input_unchanged
      | StatusAllocation \<Rightarrow>
          old_valid \<and> old_capacity < required_length \<and> reserved \<noteq> None \<and> pointer = 0 \<and> len = 0 \<and>
          capacity = 0 \<and> input_unchanged
      | StatusAbiViolation \<Rightarrow> pointer = 0 \<and> len = 0 \<and> capacity = 0 \<and> input_unchanged
      | _ \<Rightarrow> False)"

definition validate_vec_reserve ::
    "u64 \<Rightarrow> u64 \<Rightarrow> u64 \<Rightarrow> runtime_status \<Rightarrow> u64 \<Rightarrow> u64 \<Rightarrow> u64 \<Rightarrow> bool \<Rightarrow> u64 \<Rightarrow> bool option" where
  "validate_vec_reserve old_length old_capacity required_length status pointer len capacity input_unchanged stride =
     (let old_valid = (old_length \<le> old_capacity \<and> vec_capacity_fits old_capacity stride)
      in map_option
           (vec_reserve_matches old_length old_capacity required_length status pointer len capacity
              input_unchanged old_valid)
           (if old_valid then reserve_capacity old_capacity required_length stride else Some None))"

section \<open>Shared and Weak transitions\<close>

record control_state =
  strong_count :: u32
  weak_count :: u32
  pending_last_strong :: bool
  payload_initialized :: bool
  allocated :: bool

definition valid_control_state :: "control_state \<Rightarrow> bool" where
  "valid_control_state s =
     (if \<not> allocated s then
        strong_count s = 0 \<and> weak_count s = 0 \<and> \<not> pending_last_strong s \<and> \<not> payload_initialized s
      else if pending_last_strong s then strong_count s = 0 \<and> 0 < weak_count s
      else if 0 < strong_count s then 0 < weak_count s \<and> payload_initialized s
      else 0 < weak_count s \<and> \<not> payload_initialized s)"

definition control_bool_result_is_zero :: "logical_operation \<Rightarrow> bool option \<Rightarrow> bool" where
  "control_bool_result_is_zero op bool_result =
     (case op of
        StrongReleaseBegin \<Rightarrow> bool_result = Some False
      | WeakRelease \<Rightarrow> bool_result = Some False
      | _ \<Rightarrow> bool_result = None)"

definition control_transition_preflight ::
    "logical_operation \<Rightarrow> control_state \<Rightarrow> runtime_status \<Rightarrow> bool option \<Rightarrow> control_state \<Rightarrow> bool option" where
  "control_transition_preflight op before status bool_result after =
     (if \<not> operation_accepts_status op status \<or> \<not> valid_control_state before \<or> \<not> valid_control_state after
      then Some False
      else if status \<noteq> StatusOk \<and> \<not> control_bool_result_is_zero op bool_result then Some False
      else if pending_last_strong before \<and> op \<noteq> StrongReleaseFinish
      then Some (status = StatusAbiViolation \<and> after = before \<and> control_bool_result_is_zero op bool_result)
      else None)"

definition validate_control_transition ::
    "logical_operation \<Rightarrow> control_state \<Rightarrow> runtime_status \<Rightarrow> bool option \<Rightarrow> control_state \<Rightarrow> bool" where
  "validate_control_transition op before status bool_result after =
     (case control_transition_preflight op before status bool_result after of
        Some valid \<Rightarrow> valid
      | None \<Rightarrow>
          (let unchanged = (after = before)
           in case op of
                StrongClone \<Rightarrow>
                  (case status of
                     StatusOk \<Rightarrow>
                       0 < strong_count before \<and> strong_count before < - 1 \<and>
                       after = before\<lparr>strong_count := strong_count before + 1\<rparr> \<and> bool_result = None
                   | StatusRefcount \<Rightarrow> strong_count before = - 1 \<and> unchanged
                   | StatusAbiViolation \<Rightarrow> unchanged
                   | _ \<Rightarrow> False)
              | WeakDowngrade \<Rightarrow>
                  (case status of
                     StatusOk \<Rightarrow>
                       0 < strong_count before \<and> weak_count before < - 1 \<and>
                       after = before\<lparr>weak_count := weak_count before + 1\<rparr> \<and> bool_result = None
                   | StatusRefcount \<Rightarrow> weak_count before = - 1 \<and> unchanged
                   | StatusAbiViolation \<Rightarrow> unchanged
                   | _ \<Rightarrow> False)
              | WeakClone \<Rightarrow>
                  (case status of
                     StatusOk \<Rightarrow>
                       0 < weak_count before \<and> weak_count before < - 1 \<and>
                       after = before\<lparr>weak_count := weak_count before + 1\<rparr> \<and> bool_result = None
                   | StatusRefcount \<Rightarrow> weak_count before = - 1 \<and> unchanged
                   | StatusAbiViolation \<Rightarrow> unchanged
                   | _ \<Rightarrow> False)
              | WeakUpgrade \<Rightarrow>
                  (case status of
                     StatusOk \<Rightarrow>
                       0 < strong_count before \<and> strong_count before < - 1 \<and>
                       after = before\<lparr>strong_count := strong_count before + 1\<rparr> \<and> bool_result = None
                   | StatusExpired \<Rightarrow> strong_count before = 0 \<and> unchanged
                   | StatusRefcount \<Rightarrow> strong_count before = - 1 \<and> unchanged
                   | StatusAbiViolation \<Rightarrow> unchanged
                   | _ \<Rightarrow> False)
              | StrongReleaseBegin \<Rightarrow>
                  (case status of
                     StatusOk \<Rightarrow>
                       if 1 < strong_count before then
                         bool_result = Some False \<and>
                         after = before\<lparr>strong_count := strong_count before - 1\<rparr>
                       else if strong_count before = 1 then
                         bool_result = Some True \<and>
                         after = before\<lparr>strong_count := 0, pending_last_strong := True\<rparr>
                       else False
                   | StatusAbiViolation \<Rightarrow> unchanged
                   | _ \<Rightarrow> False)
              | StrongReleaseFinish \<Rightarrow>
                  (case status of
                     StatusOk \<Rightarrow>
                       pending_last_strong before \<and> strong_count before = 0 \<and>
                       \<not> payload_initialized before \<and> 0 < weak_count before \<and> bool_result = None \<and>
                       after = before\<lparr>weak_count := weak_count before - 1, pending_last_strong := False,
                                  allocated := (1 < weak_count before)\<rparr>
                   | StatusAbiViolation \<Rightarrow> unchanged
                   | _ \<Rightarrow> False)
              | WeakRelease \<Rightarrow>
                  (case status of
                     StatusOk \<Rightarrow>
                       (case checked_sub (weak_count before) 1 of
                          None \<Rightarrow> False
                        | Some remaining \<Rightarrow>
                            (let deallocated = (remaining = 0 \<and> strong_count before = 0)
                             in (\<not> deallocated \<or> \<not> pending_last_strong before) \<and>
                                bool_result = Some deallocated \<and>
                                after = before\<lparr>weak_count := remaining, allocated := \<not> deallocated\<rparr>))
                   | StatusAbiViolation \<Rightarrow> unchanged
                   | _ \<Rightarrow> False)
              | _ \<Rightarrow> False))"

datatype transition_claim =
    ClaimControl logical_operation control_state runtime_status "bool option" control_state
  | ClaimVecAllocate u64 runtime_status u64 u64 u64
  | ClaimVecReserve u64 u64 u64 runtime_status u64 u64 u64 bool
  | ClaimCountIncrement u32 runtime_status u32
  | ClaimWeakUpgrade u32 runtime_status u32
  | ClaimStrongReleaseBegin u32 runtime_status u32 bool
  | ClaimWeakRelease u32 u32 runtime_status u32 bool
  | ClaimFailureAtomic runtime_status bool bool

definition validate_transition :: "transition_claim \<Rightarrow> runtime_abi_violation + unit" where
  "validate_transition claim =
     transition_result
       (case claim of
          ClaimControl op before status bool_result after \<Rightarrow>
            validate_control_transition op before status bool_result after
        | ClaimVecAllocate _ _ _ _ _ \<Rightarrow> False
        | ClaimVecReserve _ _ _ _ _ _ _ _ \<Rightarrow> False
        | ClaimFailureAtomic _ _ _ \<Rightarrow> False
        | ClaimCountIncrement before status after \<Rightarrow>
            (case status of
               StatusOk \<Rightarrow> 0 < before \<and> before < - 1 \<and> after = before + 1
             | StatusRefcount \<Rightarrow> before = - 1 \<and> after = before
             | _ \<Rightarrow> False)
        | ClaimWeakUpgrade before status after \<Rightarrow>
            (case status of
               StatusExpired \<Rightarrow> before = 0 \<and> after = 0
             | StatusOk \<Rightarrow> 0 < before \<and> before < - 1 \<and> after = before + 1
             | StatusRefcount \<Rightarrow> before = - 1 \<and> after = before
             | _ \<Rightarrow> False)
        | ClaimStrongReleaseBegin before status after is_last \<Rightarrow>
            status = StatusOk \<and> 0 < before \<and> after = before - 1 \<and> is_last = (before = 1)
        | ClaimWeakRelease before strong status after deallocated \<Rightarrow>
            status = StatusOk \<and> 0 < before \<and> after = before - 1 \<and>
            deallocated = (after = 0 \<and> strong = 0) \<and> \<not> (after = 0 \<and> 0 < strong))"

definition validate_failure_atomic_transition ::
    "logical_operation \<Rightarrow> runtime_status \<Rightarrow> bool \<Rightarrow> bool \<Rightarrow> runtime_abi_violation + unit" where
  "validate_failure_atomic_transition op status outputs_zero input_unchanged =
     transition_result
       (status \<noteq> StatusOk \<and> operation_accepts_status op status \<and> outputs_zero \<and> input_unchanged)"

section \<open>Layout-derived metadata\<close>

record element_layout =
  el_target :: storage_target
  el_element :: type_id
  el_stride :: u64
  el_alignment :: u64

record control_layout =
  cl_target :: storage_target
  cl_payload :: type_id
  cl_payload_offset :: u64
  cl_size :: u64
  cl_alignment :: u64

record verified_abi =
  va_identity :: bytes
  va_universe :: bytes
  va_linear32_fingerprint :: bytes
  va_linux_fingerprint :: bytes
  va_element_layouts :: "element_layout list"
  va_control_layouts :: "control_layout list"

definition align_up :: "u64 \<Rightarrow> u64 \<Rightarrow> u64 option" where
  "align_up v alignment =
     Option.bind (checked_sub alignment 1) (\<lambda>low.
     map_option (\<lambda>sum. and sum (not low)) (checked_add v low))"

text \<open>Vec claims, free and bound to one target and element. The outer \<open>None\<close> is that of
  \<open>reserve_capacity\<close>.\<close>

definition validate_vec_transition ::
    "element_layout \<Rightarrow> transition_claim \<Rightarrow> (runtime_abi_violation + unit) option" where
  "validate_vec_transition layout claim =
     map_option transition_result
       (case claim of
          ClaimVecAllocate requested status pointer len capacity \<Rightarrow>
            Some (validate_vec_allocate requested status pointer len capacity (el_stride layout))
        | ClaimVecReserve old_length old_capacity required_length status pointer len capacity unchanged \<Rightarrow>
            validate_vec_reserve old_length old_capacity required_length status pointer len capacity
              unchanged (el_stride layout)
        | _ \<Rightarrow> Some False)"

datatype bound_vec_kind =
    BoundAllocate u64 runtime_status u64 u64 u64
  | BoundReserve u64 u64 u64 u64 runtime_status u64 u64 u64 bool

record bound_vec_claim =
  bv_target :: storage_target
  bv_element :: type_id
  bv_kind :: bound_vec_kind

definition bind_vec_allocate ::
    "element_layout \<Rightarrow> u64 \<Rightarrow> runtime_status \<Rightarrow> u64 \<Rightarrow> u64 \<Rightarrow> u64 \<Rightarrow> bound_vec_claim" where
  "bind_vec_allocate layout requested status pointer len capacity =
     \<lparr>bv_target = el_target layout, bv_element = el_element layout,
      bv_kind = BoundAllocate requested status pointer len capacity\<rparr>"

definition bind_vec_reserve ::
    "element_layout \<Rightarrow> u64 \<Rightarrow> u64 \<Rightarrow> u64 \<Rightarrow> u64 \<Rightarrow> runtime_status \<Rightarrow> u64 \<Rightarrow> u64 \<Rightarrow> u64 \<Rightarrow> bool \<Rightarrow> bound_vec_claim" where
  "bind_vec_reserve layout old_pointer old_length old_capacity required_length status pointer len capacity unchanged =
     \<lparr>bv_target = el_target layout, bv_element = el_element layout,
      bv_kind = BoundReserve old_pointer old_length old_capacity required_length status pointer len capacity unchanged\<rparr>"

definition validate_bound_vec_storage_identity ::
    "u64 \<Rightarrow> u64 \<Rightarrow> u64 \<Rightarrow> u64 \<Rightarrow> runtime_status \<Rightarrow> u64 \<Rightarrow> bool" where
  "validate_bound_vec_storage_identity old_pointer old_length old_capacity required_length status pointer =
     (let well_formed = (if old_capacity = 0 then old_pointer = 0 \<and> old_length = 0 else old_pointer \<noteq> 0)
      in case status of
           StatusOk \<Rightarrow> (if required_length \<le> old_capacity then well_formed \<and> pointer = old_pointer else well_formed)
         | StatusAllocation \<Rightarrow> well_formed
         | StatusCapacity \<Rightarrow> well_formed
         | StatusAbiViolation \<Rightarrow> True
         | _ \<Rightarrow> False)"

definition validate_bound_vec_transition ::
    "element_layout \<Rightarrow> bound_vec_claim \<Rightarrow> (runtime_abi_violation + unit) option" where
  "validate_bound_vec_transition layout claim =
     map_option transition_result
       (if bv_target claim = el_target layout \<and> bv_element claim = el_element layout then
          (case bv_kind claim of
             BoundAllocate requested status pointer len capacity \<Rightarrow>
               Some (validate_vec_allocate requested status pointer len capacity (el_stride layout))
           | BoundReserve old_pointer old_length old_capacity required_length status pointer len capacity unchanged \<Rightarrow>
               map_option (\<lambda>valid. valid \<and>
                   validate_bound_vec_storage_identity old_pointer old_length old_capacity required_length
                     status pointer)
                 (validate_vec_reserve old_length old_capacity required_length status pointer len capacity
                    unchanged (el_stride layout)))
        else Some False)"

definition derive_element :: "verified_layouts \<Rightarrow> type_id \<Rightarrow> string + element_layout" where
  "derive_element layouts element =
     try_bind (ok_or (type_by_id layouts element) ''Vec element is outside layout universe'') (\<lambda>record.
     if lr_size record = 0 then Inl ''Vec element layout is zero-sized''
     else
       try_bind (ok_or (align_up (lr_size record) (lr_alignment record)) ''Vec element stride overflows'') (\<lambda>stride.
       Inr \<lparr>el_target = vl_target layouts, el_element = element, el_stride = stride,
            el_alignment = lr_alignment record\<rparr>))"

definition derive_control :: "verified_layouts \<Rightarrow> type_id \<Rightarrow> string + control_layout" where
  "derive_control layouts payload =
     try_bind (ok_or (type_by_id layouts payload) ''shared payload is outside layout universe'') (\<lambda>record.
     let alignment = max (lr_alignment record) 4
     in try_bind (ok_or (align_up 8 (lr_alignment record)) ''control payload offset overflows'') (\<lambda>payload_offset.
        try_bind (ok_or (checked_add payload_offset (lr_size record)) ''control size overflows'') (\<lambda>unaligned_size.
        try_bind (ok_or (align_up unaligned_size alignment) ''control size alignment overflows'') (\<lambda>sz.
        Inr \<lparr>cl_target = vl_target layouts, cl_payload = payload, cl_payload_offset = payload_offset,
             cl_size = sz, cl_alignment = alignment\<rparr>))))"

fun derive_types ::
    "verified_layouts \<Rightarrow> layout_record list \<Rightarrow> u32 set \<Rightarrow> u32 set
     \<Rightarrow> string + element_layout list \<times> control_layout list" where
  "derive_types layouts [] seen_elements seen_payloads = Inr ([], [])"
| "derive_types layouts (ty # tys) seen_elements seen_payloads =
     (if category ty = CVec then
        try_bind (ok_or (vt_referenced_type ty) ''Vec lacks element layout'') (\<lambda>element.
        if ti_index element \<in> seen_elements then derive_types layouts tys seen_elements seen_payloads
        else
          try_bind (derive_element layouts element) (\<lambda>r.
          try_bind (derive_types layouts tys (insert (ti_index element) seen_elements) seen_payloads)
            (\<lambda>(es, cs). Inr (r # es, cs))))
      else if category ty = CShared \<or> category ty = CWeak then
        try_bind (ok_or (vt_referenced_type ty) ''shared handle lacks payload'') (\<lambda>payload.
        if ti_index payload \<in> seen_payloads then derive_types layouts tys seen_elements seen_payloads
        else
          try_bind (derive_control layouts payload) (\<lambda>r.
          try_bind (derive_types layouts tys seen_elements (insert (ti_index payload) seen_payloads))
            (\<lambda>(es, cs). Inr (es, r # cs))))
      else derive_types layouts tys seen_elements seen_payloads)"

definition derive_metadata ::
    "verified_layouts \<Rightarrow> verified_layouts \<Rightarrow> string + element_layout list \<times> control_layout list" where
  "derive_metadata linear32 linux =
     try_bind (derive_types linear32 (vl_records linear32) {} {}) (\<lambda>(es, cs).
     try_bind (derive_types linux (vl_records linux) {} {}) (\<lambda>(es', cs').
     Inr (es @ es', cs @ cs')))"

section \<open>Invocation counters\<close>

record counter_state =
  attempts :: u64
  live :: u64
  spent :: u64
  held :: u64

record request =
  rq_attempt :: bool
  rq_new_hold :: u64
  rq_temporary_live :: bool

datatype fault = Denied | Invariant

record admission =
  ad_before :: counter_state
  ad_reserved :: counter_state
  ad_request :: request

definition checked :: "counter_state \<Rightarrow> fault + unit" where
  "checked c =
     (if MAX_ALLOCATION_OPERATIONS < attempts c \<or> MAX_LIVE_ALLOCATIONS < live c \<or> attempts c < live c \<or>
         MAX_STATUS_TRANSITIONS < spent c \<or> MAX_STATUS_TRANSITIONS < held c \<or>
         (case checked_add (spent c) (held c) of None \<Rightarrow> True | Some n \<Rightarrow> MAX_STATUS_TRANSITIONS < n)
      then Inl Invariant else Inr ())"

definition forward :: "counter_state \<Rightarrow> request \<Rightarrow> fault + admission \<times> counter_state" where
  "forward c request =
     try_bind (checked c) (\<lambda>_.
     if rq_temporary_live request \<and> \<not> rq_attempt request then Inl Invariant
     else
       try_bind (ok_or (checked_add (attempts c) (u64_from_bool (rq_attempt request))) Denied) (\<lambda>attempts'.
       try_bind (ok_or (checked_add (spent c) 1) Denied) (\<lambda>spent'.
       try_bind (ok_or (checked_add (held c) (rq_new_hold request)) Denied) (\<lambda>held'.
       try_bind (ok_or (checked_add (live c) (u64_from_bool (rq_temporary_live request))) Denied) (\<lambda>temporary.
       if MAX_ALLOCATION_OPERATIONS < attempts' \<or> MAX_LIVE_ALLOCATIONS < temporary \<or>
          (case checked_add spent' held' of None \<Rightarrow> True | Some n \<Rightarrow> MAX_STATUS_TRANSITIONS < n)
       then Inl Denied
       else
         (let reserved = \<lparr>attempts = attempts', live = live c, spent = spent', held = held'\<rparr>
          in Inr (\<lparr>ad_before = c, ad_reserved = reserved, ad_request = request\<rparr>, reserved)))))))"

definition complete :: "counter_state \<Rightarrow> admission \<Rightarrow> bool \<Rightarrow> fault + counter_state" where
  "complete c ad success =
     (if c \<noteq> ad_reserved ad then Inl Invariant
      else
        try_bind
          (if success then
             map_sum id (\<lambda>n. c\<lparr>live := n\<rparr>)
               (ok_or (checked_add (live c) (u64_from_bool (rq_temporary_live (ad_request ad)))) Invariant)
           else Inr (c\<lparr>held := held (ad_before ad)\<rparr>)) (\<lambda>next.
        try_bind (checked next) (\<lambda>_. Inr next)))"

definition complete_growth :: "counter_state \<Rightarrow> admission \<Rightarrow> bool \<Rightarrow> bool \<Rightarrow> fault + counter_state" where
  "complete_growth c ad success old_positive =
     (if c \<noteq> ad_reserved ad \<or> \<not> rq_attempt (ad_request ad) \<or> \<not> rq_temporary_live (ad_request ad) \<or>
         rq_new_hold (ad_request ad) \<noteq> 0 \<or> held (ad_before ad) = 0 \<or>
         live (ad_before ad) < u64_from_bool old_positive
      then Inl Invariant
      else
        try_bind
          (if success then
             map_sum id (\<lambda>n. c\<lparr>live := n\<rparr>)
               (ok_or (Option.bind (checked_add (live (ad_before ad)) 1)
                  (\<lambda>n. checked_sub n (u64_from_bool old_positive))) Invariant)
           else Inr c) (\<lambda>next.
        try_bind (checked next) (\<lambda>_. Inr next)))"

definition release :: "counter_state \<Rightarrow> bool \<Rightarrow> fault + counter_state" where
  "release c positive =
     try_bind (checked c) (\<lambda>_.
     try_bind (ok_or (checked_sub (live c) (u64_from_bool positive)) Invariant) (\<lambda>live'.
     try_bind (ok_or (checked_add (spent c) 1) Invariant) (\<lambda>spent'.
     try_bind (ok_or (checked_sub (held c) 1) Invariant) (\<lambda>held'.
     let next = \<lparr>attempts = attempts c, live = live', spent = spent', held = held'\<rparr>
     in try_bind (checked next) (\<lambda>_. Inr next)))))"

end
