(* ===== verification/Ownership_Trace.thy ===== *)
theory Ownership_Trace
  imports Ownership
begin

text \<open>
  The symbolic control model of the ownership runtime, \<open>crates/zryna-ownership-runtime-abi/src/control_model.rs\<close>
  with \<open>control_model/payload.rs\<close> and \<open>control_model/replay.rs\<close>: a trace of construction, handle, drop
  and finish events is replayed against a model of controls, owners, allocation intervals and pending
  last-strong releases. The model is threaded through as a value; an error discards it, as the code does. An
  index out of range and a failed \<open>expect\<close> are the error \<open>Panicked\<close>. A \<open>Vec\<close> used as a stack is a list
  whose head is the top.
\<close>

section \<open>Traces\<close>

datatype payload_kind =
    PkCopy
  | PkString
  | PkChildren "u32 list"
  | PkVariant u32 "u32 option"
  | PkHandle u32

record payload_node =
  nd_ty :: type_id
  nd_kind :: payload_kind

record construction =
  co_payload :: type_id
  co_nodes :: "payload_node list"
  co_status :: runtime_status
  co_base :: u64
  co_size :: u64
  co_alignment :: u64
  co_control :: "u32 option"
  co_owner :: "u32 option"

datatype control_event_kind =
    EvConstruct construction
  | EvHandle logical_operation u32 runtime_status "u32 option" "bool option" control_state
  | EvDropPayloadNode u32 u32
  | EvFinish u32 control_state

record control_event =
  ev_site :: u64
  ev_kind :: control_event_kind

record control_trace =
  tr_invocation :: u64
  tr_abi :: bytes
  tr_target :: storage_target
  tr_events :: "control_event list"

record verified_control_trace =
  vt_invocation :: u64
  vt_states :: "control_state list"
  vt_live_owners :: usize

record expected_owner =
  eo_owner :: u32
  eo_control :: u32
  eo_weak :: bool

section \<open>The model\<close>

datatype owner_location = External | InPayload u32 | Dropped

record handle_owner =
  ow_control :: u32
  ow_weak :: bool
  ow_location :: owner_location

datatype payload_drop = DropHandle u32 | DropNode u32

record control =
  ctl_payload :: type_id
  ctl_state :: control_state
  ctl_base :: u64
  ctl_drops :: "payload_drop list"
  ctl_next :: usize

record control_model =
  cm_abi :: verified_abi
  cm_layouts :: verified_layouts
  cm_controls :: "control list"
  cm_owners :: "handle_owner list"
  cm_intervals :: "(u64 \<times> u64) list"
  cm_pending :: "u32 list"
  cm_allocations :: u64
  cm_nodes :: u64

datatype trace_error = Rejected runtime_abi_violation | Panicked

definition evidence :: "string \<Rightarrow> trace_error" where
  "evidence message = Rejected \<lparr>rv_kind = KEvidence, rv_declaration_index = None, rv_message = message\<rparr>"

definition over_budget :: trace_error where
  "over_budget = Rejected \<lparr>rv_kind = KBudget, rv_declaration_index = None,
     rv_message = ''control trace exceeds the checked invocation budget''\<rparr>"

definition checked_model_count :: "u64 \<Rightarrow> u64 \<Rightarrow> u64 \<Rightarrow> trace_error + u64" where
  "checked_model_count before extra maximum =
     ok_or (Option.bind (checked_add before extra) (\<lambda>sum. if sum \<le> maximum then Some sum else None)) over_budget"

section \<open>Payload topology\<close>

definition payload_edge ::
    "payload_node list \<Rightarrow> usize \<Rightarrow> u32 \<Rightarrow> type_id \<Rightarrow> bool list \<Rightarrow> trace_error + bool list" where
  "payload_edge nodes i child expected uses =
     (if i \<le> unat child \<or> nd_ty (nodes ! unat child) \<noteq> expected \<or> uses ! unat child
      then Inl (evidence ''payload children have wrong type, order or unique ownership'')
      else Inr (uses[unat child := True]))"

fun payload_edges ::
    "payload_node list \<Rightarrow> usize \<Rightarrow> (u32 \<times> type_id) list \<Rightarrow> bool list \<Rightarrow> trace_error + bool list" where
  "payload_edges nodes i [] uses = Inr uses"
| "payload_edges nodes i ((child, expected) # rest) uses =
     try_bind (payload_edge nodes i child expected uses) (payload_edges nodes i rest)"

definition payload_handle ::
    "control_model \<Rightarrow> u32 \<Rightarrow> type_category \<Rightarrow> type_id option \<Rightarrow> u32 list \<Rightarrow> trace_error + u32 list" where
  "payload_handle m i cat referent handles =
     try_bind (ok_or (get_at (cm_owners m) (unat i)) (evidence ''payload handle was never issued'')) (\<lambda>owner.
     try_bind (ok_or (get_at (cm_controls m) (unat (ow_control owner))) Panicked) (\<lambda>c.
     if ow_location owner \<noteq> External \<or> i \<in> set handles \<or> ow_weak owner \<noteq> (cat = CWeak) \<or>
        referent \<noteq> Some (ctl_payload c)
     then Inl (evidence ''payload handle is foreign, moved, duplicated or has wrong referent'')
     else Inr (i # handles)))"

definition vec_length_invalid :: "usize \<Rightarrow> u64 \<Rightarrow> bool" where
  "vec_length_invalid n element_size =
     (MAX_VEC_ELEMENTS < of_nat n \<or> element_size = 0 \<or>
      (case checked_mul (of_nat n) element_size of None \<Rightarrow> True | Some b \<Rightarrow> MAX_DYNAMIC_ALLOCATION_BYTES < b))"

text \<open>The length check of a \<open>FixedArray\<close> or \<open>Vec\<close> node, and its element type.\<close>

definition sequence_element ::
    "verified_layouts \<Rightarrow> layout_record \<Rightarrow> usize \<Rightarrow> trace_error + type_id" where
  "sequence_element layouts record n =
     try_bind
       (case vt_array_length record of
          Some len \<Rightarrow>
            reject_if (of_nat n \<noteq> len) (evidence ''payload array length is not exact'')
        | None \<Rightarrow>
            try_bind (ok_or (vt_referenced_type record) (evidence ''element type absent'')) (\<lambda>t.
            try_bind (ok_or (type_by_id layouts t) (evidence ''element layout absent'')) (\<lambda>element.
            reject_if (vec_length_invalid n (lr_size element))
              (evidence ''payload Vec length or element stride is invalid'')))) (\<lambda>_.
     ok_or (vt_referenced_type record) (evidence ''element type absent''))"

definition payload_node_check ::
    "control_model \<Rightarrow> payload_node list \<Rightarrow> usize \<Rightarrow> payload_node \<Rightarrow> bool list \<Rightarrow> u32 list
     \<Rightarrow> trace_error + bool list \<times> u32 list" where
  "payload_node_check m nodes i node uses handles =
     try_bind (ok_or (type_by_id (cm_layouts m) (nd_ty node)) (evidence ''payload node has a foreign layout type''))
       (\<lambda>record.
     let cat = category record;
         mismatch = Inl (evidence ''payload node does not match its sealed category'');
         with_uses = map_sum id (\<lambda>u. (u, handles))
     in case nd_kind node of
          PkCopy \<Rightarrow> if cat = CBool \<or> cat = CI32 then Inr (uses, handles) else mismatch
        | PkString \<Rightarrow> if cat = CString then Inr (uses, handles) else mismatch
        | PkChildren children \<Rightarrow>
            if cat = CStruct then
              (if length children \<noteq> length (vt_fields record)
               then Inl (evidence ''payload Struct fields are incomplete'')
               else with_uses (payload_edges nodes i (zip children (map vf_ty (vt_fields record))) uses))
            else if cat = CFixedArray \<or> cat = CVec then
              try_bind (sequence_element (cm_layouts m) record (length children)) (\<lambda>element.
              with_uses (payload_edges nodes i (map (\<lambda>ch. (ch, element)) children) uses))
            else mismatch
        | PkVariant variant child \<Rightarrow>
            if cat = CEnum then
              try_bind (ok_or (get_at (vt_variants record) (unat variant)) (evidence ''payload Enum variant is absent''))
                (\<lambda>v.
              case (child, vv_payload v) of
                (Some ch, Some t) \<Rightarrow> with_uses (payload_edge nodes i ch t uses)
              | (None, None) \<Rightarrow> Inr (uses, handles)
              | _ \<Rightarrow> Inl (evidence ''payload Enum active shape is not exact''))
            else mismatch
        | PkHandle h \<Rightarrow>
            if cat = CShared \<or> cat = CWeak then
              map_sum id (\<lambda>hs. (uses, hs)) (payload_handle m h cat (vt_referenced_type record) handles)
            else mismatch)"

fun payload_scan ::
    "control_model \<Rightarrow> payload_node list \<Rightarrow> usize \<Rightarrow> payload_node list \<Rightarrow> bool list \<Rightarrow> u32 list
     \<Rightarrow> trace_error + bool list \<times> u32 list" where
  "payload_scan m nodes i [] uses handles = Inr (uses, handles)"
| "payload_scan m nodes i (node # rest) uses handles =
     try_bind (payload_node_check m nodes i node uses handles) (\<lambda>(uses, handles).
     payload_scan m nodes (Suc i) rest uses handles)"

text \<open>\<open>None\<close> is a panic or a walk that does not end.\<close>

partial_function (option) payload_drops ::
    "verified_layouts \<Rightarrow> payload_node list \<Rightarrow> (usize \<times> bool) list \<Rightarrow> payload_drop list \<Rightarrow> payload_drop list option" where
  "payload_drops layouts nodes stack drops =
     (case stack of
        [] \<Rightarrow> Some drops
      | (i, storage) # rest \<Rightarrow>
          (case get_at nodes i of
             None \<Rightarrow> None
           | Some node \<Rightarrow>
               (case type_by_id layouts (nd_ty node) of
                  None \<Rightarrow> None
                | Some record \<Rightarrow>
                    (case nd_kind node of
                       PkCopy \<Rightarrow> payload_drops layouts nodes rest drops
                     | PkString \<Rightarrow>
                         (case u32_try_from i of
                            None \<Rightarrow> None
                          | Some n \<Rightarrow> payload_drops layouts nodes rest (drops @ [DropNode n]))
                     | PkHandle owner \<Rightarrow> payload_drops layouts nodes rest (drops @ [DropHandle owner])
                     | PkChildren children \<Rightarrow>
                         if storage then
                           (case u32_try_from i of
                              None \<Rightarrow> None
                            | Some n \<Rightarrow> payload_drops layouts nodes rest (drops @ [DropNode n]))
                         else
                           payload_drops layouts nodes
                             (rev (map (\<lambda>ch. (unat ch, False)) children) @
                              (if category record = CVec then (i, True) # rest else rest)) drops
                     | PkVariant _ child \<Rightarrow>
                         (case child of
                            None \<Rightarrow> payload_drops layouts nodes rest drops
                          | Some ch \<Rightarrow> payload_drops layouts nodes ((unat ch, False) # rest) drops)))))"

declare payload_drops.simps [code]

definition payload ::
    "control_model \<Rightarrow> type_id \<Rightarrow> payload_node list \<Rightarrow> trace_error + payload_drop list \<times> control_model" where
  "payload m ty nodes =
     try_bind (checked_model_count (cm_nodes m) (of_nat (length nodes)) MAX_STATUS_TRANSITIONS) (\<lambda>n.
     let m = m\<lparr>cm_nodes := n\<rparr>
     in if nodes = [] then Inl over_budget
        else if nd_ty (last nodes) \<noteq> ty then Inl (evidence ''payload root has the wrong exact type'')
        else
          try_bind (payload_scan m nodes 0 nodes (replicate (length nodes) False) []) (\<lambda>(uses, _).
          if list_ex (\<lambda>used. \<not> used) (take (length nodes - 1) uses)
          then Inl (evidence ''payload contains orphan initialized nodes'')
          else
            try_bind (ok_or (payload_drops (cm_layouts m) nodes [(length nodes - 1, False)] []) Panicked) (\<lambda>drops.
            Inr (drops, m))))"

section \<open>Replay\<close>

definition require_publication_phase :: "control_model \<Rightarrow> trace_error + unit" where
  "require_publication_phase m =
     reject_if (cm_pending m \<noteq> []) (evidence ''payload destruction cannot allocate or publish'')"

definition next_owner :: "control_model \<Rightarrow> trace_error + u32" where
  "next_owner m = ok_or (u32_try_from (length (cm_owners m))) over_budget"

definition next_drop :: "control_model \<Rightarrow> u32 \<Rightarrow> payload_drop \<Rightarrow> trace_error + control_model" where
  "next_drop m i expected =
     (if \<not> (case cm_pending m of p # _ \<Rightarrow> p = i | [] \<Rightarrow> False)
      then Inl (evidence ''cleanup targets a foreign or nonpending control'')
      else
        try_bind (ok_or (get_at (cm_controls m) (unat i)) Panicked) (\<lambda>c.
        if get_at (ctl_drops c) (ctl_next c) \<noteq> Some expected
        then Inl (evidence ''payload cleanup is omitted, duplicated or out of reverse order'')
        else Inr (m\<lparr>cm_controls := (cm_controls m)[unat i := c\<lparr>ctl_next := Suc (ctl_next c)\<rparr>]\<rparr>)))"

text \<open>\<open>BTreeMap::range(..=b).next_back()\<close> and \<open>range(b..).next()\<close>.\<close>

definition range_back :: "(u64 \<times> u64) list \<Rightarrow> u64 \<Rightarrow> (u64 \<times> u64) option" where
  "range_back xs b = (let ys = filter (\<lambda>(k, _). k \<le> b) xs in if ys = [] then None else Some (last ys))"

definition range_next :: "(u64 \<times> u64) list \<Rightarrow> u64 \<Rightarrow> (u64 \<times> u64) option" where
  "range_next xs b = List.find (\<lambda>(k, _). b \<le> k) xs"

definition interval_rejected :: "control_model \<Rightarrow> u64 \<Rightarrow> u64 \<Rightarrow> u64 \<Rightarrow> u64 \<Rightarrow> bool" where
  "interval_rejected m base sz alignment stop =
     (base = 0 \<or> sz = 0 \<or> alignment = 0 \<or> base mod alignment \<noteq> 0 \<or>
      (vl_target (cm_layouts m) = Linear32V1 \<and> 4294967296 < stop) \<or>
      (case range_back (cm_intervals m) base of Some (_, e) \<Rightarrow> base < e | None \<Rightarrow> False) \<or>
      (case range_next (cm_intervals m) base of Some (s, _) \<Rightarrow> s < stop | None \<Rightarrow> False))"

fun move_handles :: "handle_owner list \<Rightarrow> u32 \<Rightarrow> payload_drop list \<Rightarrow> trace_error + handle_owner list" where
  "move_handles owners i [] = Inr owners"
| "move_handles owners i (DropNode _ # ds) = move_handles owners i ds"
| "move_handles owners i (DropHandle h # ds) =
     try_bind (ok_or (get_at owners (unat h)) Panicked) (\<lambda>owner.
     move_handles (owners[unat h := owner\<lparr>ow_location := InPayload i\<rparr>]) i ds)"

definition fresh_state :: control_state where
  "fresh_state = \<lparr>strong_count = 1, weak_count = 1, pending_last_strong = False, payload_initialized = True,
     allocated = True\<rparr>"

text \<open>The successful half of a construction, after its status and capacity.\<close>

definition publish :: "control_model \<Rightarrow> construction \<Rightarrow> payload_drop list \<Rightarrow> trace_error + control_model" where
  "publish m co drops =
     try_bind (ok_or (checked_add (co_base co) (co_size co)) (evidence ''control allocation interval overflow'')) (\<lambda>stop.
     if interval_rejected m (co_base co) (co_size co) (co_alignment co) stop
     then Inl (evidence ''control allocation is null, misaligned, overlapping or nonrepresentable'')
     else
       try_bind (ok_or (u32_try_from (length (cm_controls m))) over_budget) (\<lambda>i.
       let stale = evidence ''construction control or owner identity is not fresh and dense''
       in if co_control co \<noteq> Some i then Inl stale
          else
            try_bind (next_owner m) (\<lambda>fresh.
            if co_owner co \<noteq> Some fresh then Inl stale
            else
              try_bind (move_handles (cm_owners m) i drops) (\<lambda>owners.
              Inr (m\<lparr>cm_intervals := bt_insert (co_base co) stop (cm_intervals m),
                     cm_controls := cm_controls m @
                       [\<lparr>ctl_payload = co_payload co, ctl_state = fresh_state, ctl_base = co_base co,
                         ctl_drops = drops, ctl_next = 0\<rparr>],
                     cm_owners := owners @
                       [\<lparr>ow_control = i, ow_weak = False, ow_location = External\<rparr>]\<rparr>)))))"

definition construct :: "control_model \<Rightarrow> construction \<Rightarrow> trace_error + control_model" where
  "construct m co =
     try_bind (require_publication_phase m) (\<lambda>_.
     try_bind (ok_or (List.find (\<lambda>l. cl_payload l = co_payload co \<and> cl_target l = vl_target (cm_layouts m))
                (va_control_layouts (cm_abi m)))
              (evidence ''construction has no exact sealed control layout'')) (\<lambda>layout.
     if co_size co \<noteq> cl_size layout \<or> co_alignment co \<noteq> cl_alignment layout
     then Inl (evidence ''construction size or alignment differs from sealed control layout'')
     else
       try_bind (payload m (co_payload co) (co_nodes co)) (\<lambda>(drops, m).
       try_bind (ok_or (checked_add (cm_allocations m) 1) over_budget) (\<lambda>n.
       let m = m\<lparr>cm_allocations := n\<rparr>;
           capacity = (MAX_DYNAMIC_ALLOCATION_BYTES < co_size co \<or> MAX_ALLOCATION_OPERATIONS < n \<or>
             MAX_LIVE_ALLOCATIONS \<le> of_nat (length (cm_intervals m)))
       in if co_status co \<noteq> StatusOk then
            (if co_base co \<noteq> 0 \<or> co_control co \<noteq> None \<or> co_owner co \<noteq> None \<or>
                ((co_status co \<noteq> StatusCapacity \<or> \<not> capacity) \<and> (co_status co \<noteq> StatusAllocation \<or> capacity))
             then Inl (evidence ''construction failure has wrong status or nonzero publication'')
             else Inr m)
          else if capacity then Inl over_budget
          else publish m co drops))))"

definition is_release :: "logical_operation \<Rightarrow> bool" where
  "is_release op = (op = StrongReleaseBegin \<or> op = WeakRelease)"

definition is_weak_operation :: "logical_operation \<Rightarrow> bool" where
  "is_weak_operation op = (op = WeakClone \<or> op = WeakUpgrade \<or> op = WeakRelease)"

definition is_handle_operation :: "logical_operation \<Rightarrow> bool" where
  "is_handle_operation op =
     (op = StrongClone \<or> op = WeakDowngrade \<or> op = WeakClone \<or> op = WeakUpgrade \<or>
      op = StrongReleaseBegin \<or> op = WeakRelease)"

definition handle_available :: "control_model \<Rightarrow> logical_operation \<Rightarrow> owner_location \<Rightarrow> trace_error + unit" where
  "handle_available m op loc =
     (if loc = Dropped then Inl (evidence ''handle owner is moved or already released'')
      else
        (case cm_pending m of
           p # _ \<Rightarrow>
             reject_if (\<not> is_release op \<or> loc \<noteq> InPayload p)
               (evidence ''payload cleanup cannot invoke unrelated or retained handle operations'')
         | [] \<Rightarrow>
             reject_if (loc \<noteq> External)
               (evidence ''payload-owned handle is not an independently available owner'')))"

text \<open>The part of \<open>handle\<close> after the validation: the release of the owner, the new state, a fresh
  owner, the pending receipt and the freed interval.\<close>

definition handle_release ::
    "control_model \<Rightarrow> logical_operation \<Rightarrow> u32 \<Rightarrow> handle_owner \<Rightarrow> runtime_status \<Rightarrow> trace_error + control_model" where
  "handle_release m op i owner status =
     (if is_release op then
        (if status \<noteq> StatusOk then Inl (evidence ''verified release is infallible'')
         else
           try_bind (case ow_location owner of InPayload p \<Rightarrow> next_drop m p (DropHandle i) | _ \<Rightarrow> Inr m) (\<lambda>m.
           Inr (m\<lparr>cm_owners := (cm_owners m)[unat i := owner\<lparr>ow_location := Dropped\<rparr>]\<rparr>)))
      else Inr m)"

definition handle_commit ::
    "control_model \<Rightarrow> logical_operation \<Rightarrow> handle_owner \<Rightarrow> bool \<Rightarrow> control_state \<Rightarrow> trace_error + control_model" where
  "handle_commit m op owner issues after =
     try_bind (ok_or (get_at (cm_controls m) (unat (ow_control owner))) Panicked) (\<lambda>c.
     Inr (m\<lparr>cm_controls := (cm_controls m)[unat (ow_control owner) := c\<lparr>ctl_state := after\<rparr>],
            cm_owners := cm_owners m @
              (if issues then [\<lparr>ow_control = ow_control owner, ow_weak = (op = WeakClone \<or> op = WeakDowngrade),
                 ow_location = External\<rparr>] else []),
            cm_pending := (if pending_last_strong after then [ow_control owner] else []) @ cm_pending m,
            cm_intervals := (if allocated after then cm_intervals m else bt_remove (ctl_base c) (cm_intervals m))\<rparr>))"

definition handle ::
    "control_model \<Rightarrow> logical_operation \<Rightarrow> u32 \<Rightarrow> runtime_status \<Rightarrow> u32 option \<Rightarrow> bool option \<Rightarrow> control_state
     \<Rightarrow> trace_error + control_model" where
  "handle m op i status result boolean after =
     try_bind (ok_or (get_at (cm_owners m) (unat i)) (evidence ''handle was never issued'')) (\<lambda>owner.
     try_bind (handle_available m op (ow_location owner)) (\<lambda>_.
     if is_weak_operation op \<noteq> ow_weak owner \<or> \<not> is_handle_operation op
     then Inl (evidence ''handle mode does not match the exact operation'')
     else
       try_bind (ok_or (get_at (cm_controls m) (unat (ow_control owner))) Panicked) (\<lambda>c.
       let before = ctl_state c
       in if pending_last_strong before \<or> \<not> allocated before \<or> status = StatusAbiViolation
          then Inl (evidence ''operation reenters a pending or deallocated control'')
          else
            try_bind (map_sum Rejected id
              (validate_transition (ClaimControl op before status boolean after))) (\<lambda>_.
            let issues = (\<not> is_release op \<and> status = StatusOk)
            in try_bind (if issues then map_sum id Some (next_owner m) else Inr None) (\<lambda>expected.
               if result \<noteq> expected
               then Inl (evidence ''only successful clone or upgrade may issue one fresh owner'')
               else
                 try_bind (handle_release m op i owner status) (\<lambda>m.
                 handle_commit m op owner issues after))))))"

definition finish_control :: "control_model \<Rightarrow> u32 \<Rightarrow> control_state \<Rightarrow> trace_error + control_model" where
  "finish_control m i after =
     (case cm_pending m of
        [] \<Rightarrow> Inl (evidence ''last-release receipt is foreign or replayed'')
      | p # pending \<Rightarrow>
          if p \<noteq> i then Inl (evidence ''last-release receipt is foreign or replayed'')
          else
            try_bind (ok_or (get_at (cm_controls m) (unat i)) Panicked) (\<lambda>c.
            if ctl_next c \<noteq> length (ctl_drops c)
            then Inl (evidence ''last-release finish precedes complete payload destruction'')
            else
              try_bind (map_sum Rejected id
                (validate_transition (ClaimControl StrongReleaseFinish
                   ((ctl_state c)\<lparr>payload_initialized := False\<rparr>) StatusOk None after))) (\<lambda>_.
              Inr (m\<lparr>cm_controls := (cm_controls m)[unat i := c\<lparr>ctl_state := after\<rparr>],
                     cm_pending := pending,
                     cm_intervals := (if allocated after then cm_intervals m
                       else bt_remove (ctl_base c) (cm_intervals m))\<rparr>))))"

definition replay :: "control_model \<Rightarrow> control_event_kind \<Rightarrow> trace_error + control_model" where
  "replay m event =
     (case event of
        EvConstruct co \<Rightarrow> construct m co
      | EvHandle op owner status result boolean after \<Rightarrow> handle m op owner status result boolean after
      | EvDropPayloadNode i node \<Rightarrow> next_drop m i (DropNode node)
      | EvFinish i after \<Rightarrow> finish_control m i after)"

section \<open>Verification of a trace\<close>

definition initial_model :: "verified_abi \<Rightarrow> verified_layouts \<Rightarrow> control_model" where
  "initial_model abi layouts =
     \<lparr>cm_abi = abi, cm_layouts = layouts, cm_controls = [], cm_owners = [], cm_intervals = [], cm_pending = [],
      cm_allocations = 0, cm_nodes = 0\<rparr>"

definition replay_at :: "control_model \<Rightarrow> usize \<times> control_event \<Rightarrow> trace_error + control_model" where
  "replay_at m = (\<lambda>(i, event).
     if ev_site event \<noteq> of_nat i
     then Inl (evidence ''control transition site is not dense or was replayed'')
     else replay m (ev_kind event))"

definition surviving_owners :: "handle_owner list \<Rightarrow> trace_error + expected_owner list" where
  "surviving_owners owners =
     try_map (\<lambda>(i, owner).
         map_sum id (\<lambda>n. \<lparr>eo_owner = n, eo_control = ow_control owner, eo_weak = ow_weak owner\<rparr>)
           (ok_or (u32_try_from i) over_budget))
       (filter (\<lambda>(_, owner). ow_location owner = External) (enumerate 0 owners))"

definition foreign_trace :: "verified_abi \<Rightarrow> verified_layouts \<Rightarrow> u64 \<Rightarrow> control_trace \<Rightarrow> bool" where
  "foreign_trace abi layouts expected_invocation trace =
     (tr_invocation trace \<noteq> expected_invocation \<or> tr_abi trace \<noteq> va_identity abi \<or>
      tr_target trace \<noteq> vl_target layouts \<or> vl_universe layouts \<noteq> va_universe abi \<or>
      vl_fingerprint layouts \<noteq>
        (case tr_target trace of
           Linear32V1 \<Rightarrow> va_linear32_fingerprint abi
         | LinuxX8664V1 \<Rightarrow> va_linux_fingerprint abi))"

definition verify_control_trace ::
    "verified_abi \<Rightarrow> verified_layouts \<Rightarrow> u64 \<Rightarrow> expected_owner list \<Rightarrow> control_trace
     \<Rightarrow> trace_error + verified_control_trace" where
  "verify_control_trace abi layouts expected_invocation expected_owners trace =
     (if foreign_trace abi layouts expected_invocation trace
      then Inl (evidence ''control trace has foreign ABI, layout, target or invocation authority'')
      else
        try_bind (checked_model_count 0 (of_nat (length (tr_events trace))) MAX_STATUS_TRANSITIONS) (\<lambda>_.
        try_bind (run_steps replay_at (initial_model abi layouts) (enumerate 0 (tr_events trace))) (\<lambda>m.
        if cm_pending m \<noteq> [] then Inl (evidence ''last-strong payload cleanup is incomplete'')
        else
          try_bind (surviving_owners (cm_owners m)) (\<lambda>surviving.
          if surviving \<noteq> expected_owners
          then Inl (evidence ''surviving external owners differ from the independent exit contract'')
          else
            Inr \<lparr>vt_invocation = expected_invocation, vt_states = map ctl_state (cm_controls m),
                 vt_live_owners = length (filter (\<lambda>owner. ow_location owner \<noteq> Dropped) (cm_owners m))\<rparr>))))"

end
