(* ===== verification/Ownership_Facts.thy ===== *)
theory Ownership_Facts
  imports Ownership_Trace
begin

text \<open>
  Facts about the ownership runtime ABI: the control transitions as functions of operation and state, the growth
  policy of \<open>Vec\<close>, and the invocation counters. The counters instantiate the \<open>checked_run\<close> interface with
  the release step, so a sequence of releases keeps the counter invariant.
\<close>

section \<open>Specification vocabulary\<close>

text \<open>What a validated handle operation with a status other than an ABI violation does to an allocated
  control with no pending release.\<close>

definition handle_effect ::
    "logical_operation \<Rightarrow> control_state \<Rightarrow> runtime_status \<Rightarrow> control_state \<Rightarrow> bool" where
  "handle_effect op b st a =
     (if st \<noteq> StatusOk then \<not> is_release op \<and> a = b
      else
        (case op of
           StrongClone \<Rightarrow> 0 < strong_count b \<and> strong_count b < - 1 \<and> a = b\<lparr>strong_count := strong_count b + 1\<rparr>
         | WeakUpgrade \<Rightarrow> 0 < strong_count b \<and> strong_count b < - 1 \<and> a = b\<lparr>strong_count := strong_count b + 1\<rparr>
         | WeakDowngrade \<Rightarrow> 0 < strong_count b \<and> weak_count b < - 1 \<and> a = b\<lparr>weak_count := weak_count b + 1\<rparr>
         | WeakClone \<Rightarrow> 0 < weak_count b \<and> weak_count b < - 1 \<and> a = b\<lparr>weak_count := weak_count b + 1\<rparr>
         | StrongReleaseBegin \<Rightarrow>
             0 < strong_count b \<and>
             a = b\<lparr>strong_count := strong_count b - 1, pending_last_strong := (strong_count b = 1)\<rparr>
         | WeakRelease \<Rightarrow>
             0 < weak_count b \<and>
             a = b\<lparr>weak_count := weak_count b - 1, allocated := \<not> (weak_count b = 1 \<and> strong_count b = 0)\<rparr>
         | _ \<Rightarrow> False))"

definition bytes_fit :: "nat \<Rightarrow> nat \<Rightarrow> bool" where
  "bytes_fit n stride = (0 < stride \<and> n \<le> 1048576 \<and> n * stride \<le> 2147483647)"

text \<open>The first term of the doubling sequence from \<open>n\<close> that reaches \<open>required\<close>.\<close>

definition doubled_to :: "nat \<Rightarrow> nat \<Rightarrow> nat \<Rightarrow> bool" where
  "doubled_to n required r = (\<exists>k. r = n * 2 ^ k \<and> required \<le> r \<and> (\<forall>j<k. n * 2 ^ j < required))"

definition counters_ok :: "counter_state \<Rightarrow> bool" where
  "counters_ok c =
     (unat (attempts c) \<le> 1048576 \<and> unat (live c) \<le> unat (attempts c) \<and>
      unat (spent c) + unat (held c) \<le> 4194304)"

definition trace_state :: "u32 \<Rightarrow> u32 \<Rightarrow> bool \<Rightarrow> bool \<Rightarrow> bool \<Rightarrow> control_state" where
  "trace_state s w p i a = \<lparr>strong_count = s, weak_count = w, pending_last_strong = p, payload_initialized = i,
     allocated = a\<rparr>"

text \<open>Admission succeeds exactly while every quota has room.\<close>

definition admissible :: "counter_state \<Rightarrow> request \<Rightarrow> bool" where
  "admissible c rq =
     (unat (attempts c) + (if rq_attempt rq then 1 else 0) \<le> 1048576 \<and>
      unat (live c) + (if rq_temporary_live rq then 1 else 0) \<le> 1048576 \<and>
      unat (spent c) + 1 + (unat (held c) + unat (rq_new_hold rq)) \<le> 4194304)"

section \<open>Transitions\<close>

lemma map_sum_eq_Inr_iff [result_simps]: "map_sum f g x = Inr y \<longleftrightarrow> (\<exists>z. x = Inr z \<and> y = g z)"
  by (cases x) auto

lemma validate_control_valid:
  assumes "validate_control_transition op b st r a"
  shows "valid_control_state b" "valid_control_state a" "operation_accepts_status op st"
  using assms
  by (auto simp: validate_control_transition_def control_transition_preflight_def split: if_splits)

lemma accepts_status_simps:
  "operation_accepts_status StrongReleaseBegin st \<longleftrightarrow> st = StatusOk \<or> st = StatusAbiViolation"
  "operation_accepts_status WeakRelease st \<longleftrightarrow> st = StatusOk \<or> st = StatusAbiViolation"
  by (cases st; simp add: operation_accepts_status_def operation_declaration_of_def)+

lemma word_one_cases: "0 < (w :: u32) \<longleftrightarrow> 1 < w \<or> w = 1"
  unfolding word_less_nat_alt word_unat_eq_iff by auto

lemma validate_handle_effect:
  assumes v: "validate_control_transition op b st r a" and np: "\<not> pending_last_strong b" and al: "allocated b"
    and st: "st \<noteq> StatusAbiViolation" and op: "is_handle_operation op"
  shows "handle_effect op b st a"
proof -
  have "control_transition_preflight op b st r a = None"
    using v np st by (auto simp: validate_control_transition_def control_transition_preflight_def split: if_splits)
  note body = v [unfolded validate_control_transition_def this option.case Let_def]
  consider "op = StrongClone" | "op = WeakDowngrade" | "op = WeakClone" | "op = WeakUpgrade"
    | "op = StrongReleaseBegin" | "op = WeakRelease" using op by (auto simp: is_handle_operation_def)
  then show ?thesis
  proof cases
    case 5
    have "st = StatusOk" using validate_control_valid(3) [OF v] st unfolding 5 by (simp add: accepts_status_simps)
    then show ?thesis using body np unfolding 5
      by (auto simp: handle_effect_def word_one_cases split: if_splits)
  next
    case 6
    have "st = StatusOk" using validate_control_valid(3) [OF v] st unfolding 6 by (simp add: accepts_status_simps)
    then show ?thesis using body unfolding 6
      by (auto simp: handle_effect_def checked_sub_def word_one_cases split: if_splits)
  qed (use body st in \<open>cases st; auto simp: handle_effect_def is_release_def\<close>)+
qed

lemma validate_finish_effect:
  assumes "validate_control_transition StrongReleaseFinish b StatusOk None a"
  shows "pending_last_strong b \<and> strong_count b = 0 \<and> \<not> payload_initialized b \<and> 0 < weak_count b \<and>
    a = b\<lparr>weak_count := weak_count b - 1, pending_last_strong := False, allocated := (1 < weak_count b)\<rparr>"
  using assms
  by (auto simp: validate_control_transition_def control_transition_preflight_def split: if_splits)

lemma validate_transition_control:
  "validate_transition (ClaimControl op b st r a) = Inr u \<longleftrightarrow> validate_control_transition op b st r a"
  by (simp add: validate_transition_def transition_result_def)

text \<open>A status and an operation determine the state after a transition, and the returned boolean.\<close>

lemma control_transition_deterministic:
  assumes "validate_control_transition op b st r a" and "validate_control_transition op b st r' a'"
  shows "a' = a \<and> r' = r"
  using assms
  by (cases op; cases st)
    (auto simp: validate_control_transition_def control_transition_preflight_def control_bool_result_is_zero_def
      accepts_status_simps split: if_splits option.splits)

section \<open>Vec capacities\<close>

lemma vec_capacity_fits_iff: "vec_capacity_fits c s \<longleftrightarrow> bytes_fit (unat c) (unat s)"
proof -
  have "unat c * unat s < 2 ^ 64 \<Longrightarrow> unat (c * s) = unat c * unat s" by (simp add: unat_word_ariths)
  then show ?thesis
    by (auto simp: vec_capacity_fits_def bytes_fit_def checked_mul_def word_less_nat_alt word_le_nat_alt
        MAX_VEC_ELEMENTS_def MAX_DYNAMIC_ALLOCATION_BYTES_def split: option.splits if_splits)
qed

lemma bytes_fit_mono: "bytes_fit n s \<Longrightarrow> k \<le> n \<Longrightarrow> bytes_fit k s"
  unfolding bytes_fit_def by (meson le_trans mult_le_mono1)

lemma checked_double: "unat c \<le> 1048576 \<Longrightarrow> checked_mul c 2 = Some (c * 2) \<and> unat (c * 2 :: u64) = 2 * unat c"
  by (simp add: checked_mul_def unat_word_ariths)

lemma doubled_to_step: "n < required \<Longrightarrow> doubled_to (2 * n) required r \<Longrightarrow> doubled_to n required r"
proof -
  assume lt: "n < required" and "doubled_to (2 * n) required r"
  then obtain k where k: "r = 2 * n * 2 ^ k" "required \<le> r" "\<forall>j<k. 2 * n * 2 ^ j < required" by (auto simp: doubled_to_def)
  have "n * 2 ^ j < required" if "j < Suc k" for j
    using k(3) lt that by (cases j) (auto simp: mult.commute mult.left_commute)
  moreover have "r = n * 2 ^ Suc k" using k(1) by simp
  ultimately show ?thesis using k(2) unfolding doubled_to_def by blast
qed

lemma reserve_loop_spec:
  assumes req: "bytes_fit (unat required) (unat stride)"
  shows "0 < unat candidate \<Longrightarrow> \<exists>r n. reserve_loop candidate required stride = Some (Some r) \<and>
    doubled_to (unat candidate) (unat required) n \<and> unat r = (if bytes_fit n (unat stride) then n else unat required)"
proof (induction "unat required - unat candidate" arbitrary: candidate rule: less_induct)
  case less
  show ?case
  proof (cases "candidate < required")
    case True
    then have lt: "unat candidate < unat required" by (simp add: word_less_nat_alt)
    have fit: "bytes_fit (unat candidate) (unat stride)" using bytes_fit_mono [OF req] lt by simp
    then have d: "checked_mul candidate 2 = Some (candidate * 2)" "unat (candidate * 2) = 2 * unat candidate"
      using checked_double by (auto simp: bytes_fit_def)
    have "unat required - unat (candidate * 2) < unat required - unat candidate" "0 < unat (candidate * 2)"
      using lt less.prems d(2) by auto
    from less.hyps [OF this] obtain r n where r: "reserve_loop (candidate * 2) required stride = Some (Some r)"
      "doubled_to (2 * unat candidate) (unat required) n"
      "unat r = (if bytes_fit n (unat stride) then n else unat required)" unfolding d(2) by blast
    have "reserve_loop candidate required stride = reserve_loop (candidate * 2) required stride"
      using True fit d(1) by (subst reserve_loop.simps) (simp add: vec_capacity_fits_iff)
    then show ?thesis using r doubled_to_step [OF lt] by auto
  next
    case False
    then have ge: "unat required \<le> unat candidate" by (simp add: word_less_nat_alt)
    have "reserve_loop candidate required stride =
        Some (Some (if bytes_fit (unat candidate) (unat stride) then candidate else required))"
      using False by (subst reserve_loop.simps) (simp add: vec_capacity_fits_iff)
    moreover have "doubled_to (unat candidate) (unat required) (unat candidate)"
      using ge unfolding doubled_to_def by (intro exI [of _ 0]) simp
    ultimately show ?thesis by auto
  qed
qed

lemma reserve_capacity_spec:
  assumes "bytes_fit (unat old) (unat stride)" and "bytes_fit (unat required) (unat stride)" and lt: "old < required"
  shows "\<exists>r n. reserve_capacity old required stride = Some (Some r) \<and>
    doubled_to (if old = 0 then 4 else 2 * unat old) (unat required) n \<and>
    unat r = (if bytes_fit n (unat stride) then n else unat required)"
proof -
  let ?c = "if old = 0 then 4 else old * 2 :: u64"
  have le: "unat old \<le> 1048576" using assms(1) by (simp add: bytes_fit_def)
  have c: "(if old = 0 then Some 4 else checked_mul old 2) = Some ?c"
    "unat ?c = (if old = 0 then 4 else 2 * unat old)" "0 < unat ?c"
    using checked_double [OF le] unat_eq_0 [of old] by auto
  have "reserve_capacity old required stride = reserve_loop ?c required stride"
    using assms(1,2) leD [of required old] lt c(1) by (auto simp: reserve_capacity_def vec_capacity_fits_iff)
  then show ?thesis using reserve_loop_spec [OF assms(2) c(3)] c(2) by simp
qed

section \<open>Counter arithmetic\<close>

lemma checked_iff: "checked c = Inr u \<longleftrightarrow> counters_ok c"
  by (auto simp: checked_def counters_ok_def checked_add_def word_less_nat_alt unat_word_ariths
      MAX_ALLOCATION_OPERATIONS_def MAX_LIVE_ALLOCATIONS_def MAX_STATUS_TRANSITIONS_def split: if_splits)

lemma checked_cases: "checked c = (if counters_ok c then Inr () else Inl Invariant)"
  using checked_iff [of c "()"] by (auto simp: checked_def)

lemma unat_from_bool [simp]: "unat (u64_from_bool b) = (if b then 1 else 0)"
  by (simp add: u64_from_bool_def)

lemma checked_add_small: "unat a + unat b < 2 ^ 64 \<Longrightarrow> checked_add a b = Some (a + b) \<and> unat (a + b :: u64) = unat a + unat b"
  by (simp add: checked_add_def unat_word_ariths)

lemma checked_sub_small: "unat b \<le> unat a \<Longrightarrow> checked_sub a b = Some (a - b) \<and> unat (a - b :: u64) = unat a - unat b"
  by (simp add: checked_sub_def word_le_nat_alt unat_sub)

text \<open>What an admission promises about its reservation.\<close>

lemma forward_Inr:
  assumes "forward c rq = Inr (ad, r)"
  shows "counters_ok c" "ad_before ad = c" "ad_reserved ad = r" "ad_request ad = rq"
    "rq_temporary_live rq \<Longrightarrow> rq_attempt rq"
    "unat (attempts r) = unat (attempts c) + (if rq_attempt rq then 1 else 0)" "unat (attempts r) \<le> 1048576"
    "live r = live c" "unat (live c) + (if rq_temporary_live rq then 1 else 0) \<le> 1048576"
    "unat (spent r) = unat (spent c) + 1" "unat (held r) = unat (held c) + unat (rq_new_hold rq)"
    "unat (spent r) + unat (held r) \<le> 4194304"
proof -
  obtain a s h t n where ok: "counters_ok c" and tl: "\<not> (rq_temporary_live rq \<and> \<not> rq_attempt rq)"
    and a: "checked_add (attempts c) (u64_from_bool (rq_attempt rq)) = Some a"
    and s: "checked_add (spent c) 1 = Some s" and h: "checked_add (held c) (rq_new_hold rq) = Some h"
    and t: "checked_add (live c) (u64_from_bool (rq_temporary_live rq)) = Some t"
    and n: "checked_add s h = Some n"
    and b: "a \<le> MAX_ALLOCATION_OPERATIONS" "t \<le> MAX_LIVE_ALLOCATIONS" "n \<le> MAX_STATUS_TRANSITIONS"
    and r: "r = \<lparr>attempts = a, live = live c, spent = s, held = h\<rparr>"
      "ad = \<lparr>ad_before = c, ad_reserved = r, ad_request = rq\<rparr>"
    using assms by (auto simp: forward_def result_simps checked_iff Let_def not_less split: if_splits option.splits)
  show "counters_ok c" "ad_before ad = c" "ad_reserved ad = r" "ad_request ad = rq" "live r = live c"
    "rq_temporary_live rq \<Longrightarrow> rq_attempt rq" using ok r tl by auto
  show "unat (attempts r) = unat (attempts c) + (if rq_attempt rq then 1 else 0)"
    "unat (spent r) = unat (spent c) + 1" "unat (held r) = unat (held c) + unat (rq_new_hold rq)"
    using a s h r(1) by (simp_all add: checked_add_Some)
  show "unat (attempts r) \<le> 1048576" using b(1) r(1) by (simp add: word_le_nat_alt MAX_ALLOCATION_OPERATIONS_def)
  have "unat t = unat (live c) + (if rq_temporary_live rq then 1 else 0)" using t by (simp add: checked_add_Some)
  then show "unat (live c) + (if rq_temporary_live rq then 1 else 0) \<le> 1048576"
    using b(2) by (simp add: word_le_nat_alt MAX_LIVE_ALLOCATIONS_def)
  have "unat n = unat s + unat h" using n by (simp add: checked_add_Some)
  then show "unat (spent r) + unat (held r) \<le> 4194304"
    using b(3) r(1) by (simp add: word_le_nat_alt MAX_STATUS_TRANSITIONS_def)
qed

lemma forward_reserved_ok: "forward c rq = Inr (ad, r) \<Longrightarrow> counters_ok r"
  using forward_Inr [of c rq ad r] by (auto simp: counters_ok_def split: if_splits)

lemma complete_spec:
  assumes f: "forward c rq = Inr (ad, r)"
  shows "\<exists>c'. complete r ad success = Inr c' \<and> counters_ok c' \<and> attempts c' = attempts r \<and> spent c' = spent r \<and>
    unat (live c') = unat (live c) + (if success \<and> rq_temporary_live rq then 1 else 0) \<and>
    unat (held c') = unat (held c) + (if success then unat (rq_new_hold rq) else 0)"
proof -
  note ff = forward_Inr [OF f] and ok = forward_reserved_ok [OF f]
  show ?thesis
  proof (cases success)
    case True
    have l: "checked_add (live r) (u64_from_bool (rq_temporary_live rq)) = Some (live r + u64_from_bool (rq_temporary_live rq))"
      "unat (live r + u64_from_bool (rq_temporary_live rq)) = unat (live c) + (if rq_temporary_live rq then 1 else 0)"
      using checked_add_small [of "live r" "u64_from_bool (rq_temporary_live rq)"] ff(8,9) by auto
    have "counters_ok (r\<lparr>live := live r + u64_from_bool (rq_temporary_live rq)\<rparr>)"
      using ok l(2) ff(1,5,6) by (auto simp: counters_ok_def)
    then show ?thesis using True l ff by (simp add: complete_def checked_cases)
  next
    case False
    have "counters_ok (r\<lparr>held := held c\<rparr>)" using ok ff(1,10,11,12) by (auto simp: counters_ok_def)
    then show ?thesis using False ff by (simp add: complete_def checked_cases)
  qed
qed

lemma complete_growth_spec:
  assumes f: "forward c rq = Inr (ad, r)" and rq: "rq_attempt rq" "rq_temporary_live rq" "rq_new_hold rq = 0"
    and old: "0 < unat (held c)" "old_positive \<Longrightarrow> 0 < unat (live c)"
  shows "\<exists>c'. complete_growth r ad success old_positive = Inr c' \<and> counters_ok c' \<and> attempts c' = attempts r \<and>
    spent c' = spent r \<and> held c' = held r \<and>
    unat (live c') = unat (live c) + (if success \<and> \<not> old_positive then 1 else 0)"
proof -
  note ff = forward_Inr [OF f] and ok = forward_reserved_ok [OF f]
  have g: "\<not> live c < u64_from_bool old_positive" "held c \<noteq> 0"
    using old by (auto simp: word_less_nat_alt)
  show ?thesis
  proof (cases success)
    case True
    have a: "checked_add (live c) 1 = Some (live c + 1)" "unat (live c + 1) = unat (live c) + 1"
      using checked_add_small [of "live c" 1] ff(9) rq(2) by auto
    have s: "checked_sub (live c + 1) (u64_from_bool old_positive) = Some (live c + 1 - u64_from_bool old_positive)"
      "unat (live c + 1 - u64_from_bool old_positive) = unat (live c) + (if old_positive then 0 else 1)"
      using checked_sub_small [of "u64_from_bool old_positive" "live c + 1"] a(2) by auto
    have "counters_ok (r\<lparr>live := live c + 1 - u64_from_bool old_positive\<rparr>)"
      using ok s(2) ff(1,6) rq(1) by (auto simp: counters_ok_def)
    then show ?thesis using True a(1) s ff rq g by (simp add: complete_growth_def checked_cases)
  next
    case False
    then show ?thesis using ok ff rq g by (simp add: complete_growth_def checked_cases)
  qed
qed

lemma release_spec:
  assumes ok: "counters_ok c" and h: "0 < unat (held c)" and l: "positive \<Longrightarrow> 0 < unat (live c)"
  shows "\<exists>c'. release c positive = Inr c' \<and> counters_ok c' \<and> attempts c' = attempts c \<and>
    unat (held c') = unat (held c) - 1 \<and> unat (spent c') = unat (spent c) + 1 \<and>
    unat (live c') = unat (live c) - (if positive then 1 else 0)"
proof -
  have b: "unat (live c) < 2 ^ 64" "unat (spent c) < 2 ^ 63" using ok by (auto simp: counters_ok_def)
  have lv: "checked_sub (live c) (u64_from_bool positive) = Some (live c - u64_from_bool positive)"
    "unat (live c - u64_from_bool positive) = unat (live c) - (if positive then 1 else 0)"
    using checked_sub_small [of "u64_from_bool positive" "live c"] l by (cases positive; simp)+
  have sp: "checked_add (spent c) 1 = Some (spent c + 1)" "unat (spent c + 1) = unat (spent c) + 1"
    using checked_add_small [of "spent c" 1] b(2) by auto
  have hd: "checked_sub (held c) 1 = Some (held c - 1)" "unat (held c - 1) = unat (held c) - 1"
    using checked_sub_small [of 1 "held c"] h by auto
  have "counters_ok \<lparr>attempts = attempts c, live = live c - u64_from_bool positive, spent = spent c + 1, held = held c - 1\<rparr>"
    using ok h lv(2) sp(2) hd(2) by (auto simp: counters_ok_def)
  then show ?thesis using ok lv sp hd by (simp add: release_def checked_cases Let_def)
qed

lemma release_missing:
  assumes "counters_ok c" and "unat (held c) = 0 \<or> positive \<and> unat (live c) = 0"
  shows "release c positive = Inl Invariant"
proof -
  have "checked_sub (held c) 1 = None \<or> checked_sub (live c) (u64_from_bool positive) = None"
    using assms(2) by (auto simp: checked_sub_def u64_from_bool_def word_le_nat_alt)
  then show ?thesis using assms(1)
    by (cases "checked_sub (live c) (u64_from_bool positive)"; cases "checked_add (spent c) 1")
      (auto simp: release_def checked_cases)
qed

lemma release_ok: "release c positive = Inr c' \<Longrightarrow> counters_ok c'"
  by (auto simp: release_def result_simps Let_def checked_iff)

interpretation cleanup: checked_run release counters_ok
  by unfold_locales (rule release_ok)

lemma cleanup_runs:
  assumes "counters_ok c"
  shows "if length ps \<le> unat (held c) \<and> length (filter (\<lambda>p. p) ps) \<le> unat (live c) then
     \<exists>c'. run_steps release c ps = Inr c' \<and> attempts c' = attempts c \<and> unat (held c') = unat (held c) - length ps \<and>
       unat (spent c') = unat (spent c) + length ps \<and> unat (live c') = unat (live c) - length (filter (\<lambda>p. p) ps)
   else run_steps release c ps = Inl Invariant"
  using assms
proof (induction ps arbitrary: c)
  case (Cons p ps)
  show ?case
  proof (cases "unat (held c) = 0 \<or> p \<and> unat (live c) = 0")
    case True
    then show ?thesis using release_missing [OF Cons.prems True] by auto
  next
    case False
    then obtain c1 where c1: "release c p = Inr c1" "counters_ok c1" "attempts c1 = attempts c"
      "unat (held c1) = unat (held c) - 1" "unat (spent c1) = unat (spent c) + 1"
      "unat (live c1) = unat (live c) - (if p then 1 else 0)"
      using release_spec [OF Cons.prems, of p] by auto
    have "length (p # ps) \<le> unat (held c) \<and> length (filter (\<lambda>p. p) (p # ps)) \<le> unat (live c) \<longleftrightarrow>
        length ps \<le> unat (held c1) \<and> length (filter (\<lambda>p. p) ps) \<le> unat (live c1)"
      using False c1(4,6) by auto
    then show ?thesis using Cons.IH [OF c1(2)] c1 by (auto split: if_splits)
  qed
qed simp

lemma control_transition_unchanged:
  "validate_control_transition op b st r a \<Longrightarrow> st \<noteq> StatusOk \<Longrightarrow> a = b"
  by (cases op; cases st)
    (auto simp: validate_control_transition_def control_transition_preflight_def split: if_splits)

lemma control_transition_status:
  assumes "validate_control_transition op b st r a" and "validate_control_transition op b st' r' a'"
    and "st \<noteq> StatusAbiViolation" and "st' \<noteq> StatusAbiViolation"
  shows "st' = st"
  using assms
  by (cases op; cases st; cases st')
    (auto simp: validate_control_transition_def control_transition_preflight_def split: if_splits)

lemma forward_decides:
  assumes ok: "counters_ok c" and tl: "rq_temporary_live rq \<Longrightarrow> rq_attempt rq"
  shows "if admissible c rq then \<exists>ad r. forward c rq = Inr (ad, r) else forward c rq = Inl Denied"
proof -
  have b: "unat (attempts c) < 2 ^ 63" "unat (live c) < 2 ^ 63" "unat (spent c) < 2 ^ 63" "unat (held c) < 2 ^ 63"
    using ok by (auto simp: counters_ok_def)
  have a: "checked_add (attempts c) (u64_from_bool x) = Some (attempts c + u64_from_bool x)"
      "unat (attempts c + u64_from_bool x) = unat (attempts c) + (if x then 1 else 0)" for x
    using checked_add_small [of "attempts c" "u64_from_bool x"] b(1) by auto
  have l: "checked_add (live c) (u64_from_bool x) = Some (live c + u64_from_bool x)"
      "unat (live c + u64_from_bool x) = unat (live c) + (if x then 1 else 0)" for x
    using checked_add_small [of "live c" "u64_from_bool x"] b(2) by auto
  have s: "checked_add (spent c) 1 = Some (spent c + 1)" "unat (spent c + 1) = unat (spent c) + 1"
    using checked_add_small [of "spent c" 1] b(3) by auto
  show ?thesis
  proof (cases "unat (held c) + unat (rq_new_hold rq) < 2 ^ 63")
    case True
    have h: "checked_add (held c) (rq_new_hold rq) = Some (held c + rq_new_hold rq)"
      "unat (held c + rq_new_hold rq) = unat (held c) + unat (rq_new_hold rq)"
      using checked_add_small [of "held c" "rq_new_hold rq"] True by auto
    have n: "checked_add (spent c + 1) (held c + rq_new_hold rq) = Some (spent c + 1 + (held c + rq_new_hold rq))"
      "unat (spent c + 1 + (held c + rq_new_hold rq)) = unat (spent c) + 1 + (unat (held c) + unat (rq_new_hold rq))"
      using checked_add_small [of "spent c + 1" "held c + rq_new_hold rq"] True b(3) s(2) h(2) by auto
    show ?thesis
      using ok tl
      by (simp add: forward_def checked_cases a(1) l(1) s(1) h(1) n(1) admissible_def word_less_nat_alt a(2) l(2) n(2)
          MAX_ALLOCATION_OPERATIONS_def MAX_LIVE_ALLOCATIONS_def MAX_STATUS_TRANSITIONS_def Let_def not_less)
  next
    case False
    then have "\<not> admissible c rq" by (auto simp: admissible_def)
    moreover have "forward c rq = Inl Denied"
    proof (cases "checked_add (held c) (rq_new_hold rq)")
      case None
      then show ?thesis using ok tl by (simp add: forward_def checked_cases a(1) s(1))
    next
      case (Some h)
      then have h: "2 ^ 63 \<le> unat h" using False by (simp add: checked_add_Some)
      have "n > MAX_STATUS_TRANSITIONS" if "checked_add (spent c + 1) h = Some n" for n
        using that h by (simp add: checked_add_Some MAX_STATUS_TRANSITIONS_def word_less_nat_alt)
      then show ?thesis
        using ok tl Some by (auto simp: forward_def checked_cases a(1) s(1) l(1) split: option.splits)
    qed
    ultimately show ?thesis by simp
  qed
qed

section \<open>Properties\<close>

text \<open>The growth policy of \<open>Vec\<close> is total and exact. For a stride and two lengths that fit the allocation
  limits the reserved capacity is the old one when it suffices; otherwise it is the first power-of-two multiple of
  the start (four, or twice the old capacity) that reaches the required length, or the required length itself when
  that multiple would not fit. It always fits, so no size computed from it overflows, and it is refused exactly
  when one of the lengths does not fit.\<close>

theorem reserve_capacity_exact:
  "\<exists>r. reserve_capacity old required stride = Some r \<and>
    (case r of
       None \<Rightarrow> \<not> (bytes_fit (unat old) (unat stride) \<and> bytes_fit (unat required) (unat stride))
     | Some c \<Rightarrow>
         bytes_fit (unat old) (unat stride) \<and> bytes_fit (unat required) (unat stride) \<and>
         bytes_fit (unat c) (unat stride) \<and> old \<le> c \<and> required \<le> c \<and>
         (if required \<le> old then c = old
          else \<exists>n. doubled_to (if old = 0 then 4 else 2 * unat old) (unat required) n \<and>
            unat c = (if bytes_fit n (unat stride) then n else unat required)))"
proof (cases "bytes_fit (unat old) (unat stride) \<and> bytes_fit (unat required) (unat stride) \<and> old < required")
  case True
  then obtain c n where c: "reserve_capacity old required stride = Some (Some c)"
    "doubled_to (if old = 0 then 4 else 2 * unat old) (unat required) n"
    "unat c = (if bytes_fit n (unat stride) then n else unat required)"
    using reserve_capacity_spec by blast
  have "unat required \<le> unat c" using c(2,3) by (auto simp: doubled_to_def)
  then show ?thesis using True c by (auto simp: word_le_nat_alt word_less_nat_alt)
next
  case False
  then show ?thesis by (auto simp: reserve_capacity_def vec_capacity_fits_iff not_less)
qed

text \<open>Admission of an operation is decided by the quotas alone, and once it is admitted its outcome always
  commits: success adds the new block and its cleanup debt, failure returns the debt, and either way the attempt
  and the event stay spent and the counters stay within their limits. An operation is denied exactly when a quota
  has no room.\<close>

theorem admission_commits:
  assumes "counters_ok c" and "rq_temporary_live rq \<Longrightarrow> rq_attempt rq"
  shows "if admissible c rq then
     \<exists>ad r. forward c rq = Inr (ad, r) \<and>
       (\<forall>success. \<exists>c'. complete r ad success = Inr c' \<and> counters_ok c' \<and>
          unat (attempts c') = unat (attempts c) + (if rq_attempt rq then 1 else 0) \<and>
          unat (spent c') = unat (spent c) + 1 \<and>
          unat (live c') = unat (live c) + (if success \<and> rq_temporary_live rq then 1 else 0) \<and>
          unat (held c') = unat (held c) + (if success then unat (rq_new_hold rq) else 0))
   else forward c rq = Inl Denied"
proof (cases "admissible c rq")
  case True
  then obtain ad r where f: "forward c rq = Inr (ad, r)" using forward_decides [OF assms] by auto
  have "\<exists>c'. complete r ad success = Inr c' \<and> counters_ok c' \<and>
      unat (attempts c') = unat (attempts c) + (if rq_attempt rq then 1 else 0) \<and>
      unat (spent c') = unat (spent c) + 1 \<and>
      unat (live c') = unat (live c) + (if success \<and> rq_temporary_live rq then 1 else 0) \<and>
      unat (held c') = unat (held c) + (if success then unat (rq_new_hold rq) else 0)" for success
    using complete_spec [OF f, of success] forward_Inr(6,10) [OF f] by auto
  then show ?thesis using True f by auto
next
  case False
  then show ?thesis using forward_decides [OF assms] by simp
qed

text \<open>C29: cleanup is never denied by a quota. From counters within their limits a sequence of releases runs to the end
  exactly when it has no more releases than there is held debt and no more releases of backing storage than there are
  live blocks, whatever the order of the two kinds. Then every release pays one unit of debt and spends one event, and
  every release of backing storage takes one live block. A sequence that lacks debt or live blocks ends with the fault
  \<open>Invariant\<close>, never with \<open>Denied\<close>.\<close>

theorem cleanup_never_denied:
  assumes "counters_ok c"
  shows "if length releases \<le> unat (held c) \<and> length (filter (\<lambda>positive. positive) releases) \<le> unat (live c) then
     \<exists>c'. run_steps release c releases = Inr c' \<and> counters_ok c' \<and> attempts c' = attempts c \<and>
       unat (held c') = unat (held c) - length releases \<and>
       unat (spent c') = unat (spent c) + length releases \<and>
       unat (live c') = unat (live c) - length (filter (\<lambda>positive. positive) releases)
   else run_steps release c releases = Inl Invariant"
  using cleanup_runs [OF assms, of releases] cleanup.run_inv [OF assms, of releases] by (auto split: if_splits)

theorem cleanup_never_denied_witness:
  "(\<exists>c'. run_steps release \<lparr>attempts = 1048576, live = 2, spent = 4194301, held = 3\<rparr> [True, False, True] = Inr c' \<and>
      unat (held c') = 0 \<and> unat (live c') = 0 \<and> unat (spent c') = 4194304) \<and>
   run_steps release \<lparr>attempts = 1, live = 0, spent = 0, held = 1\<rparr> [True] = Inl Invariant"
  using cleanup_never_denied [of "\<lparr>attempts = 1048576, live = 2, spent = 4194301, held = 3\<rparr>" "[True, False, True]"]
    cleanup_never_denied [of "\<lparr>attempts = 1, live = 0, spent = 0, held = 1\<rparr>" "[True]"]
  by (auto simp: counters_ok_def)

text \<open>The transition relation of \<open>Shared\<close> and \<open>Weak\<close> controls is a function. Two validated claims about the
  same operation on the same state agree on the status, unless one reports an ABI violation; with the same
  status they agree on the returned flag and on the resulting state; and a claim that is not a success leaves the
  state unchanged.\<close>

theorem control_transition_functional:
  assumes "validate_transition (ClaimControl op before status flag after) = Inr ()"
    and "validate_transition (ClaimControl op before status' flag' after') = Inr ()"
  shows "(status \<noteq> StatusAbiViolation \<and> status' \<noteq> StatusAbiViolation \<longrightarrow> status' = status) \<and>
    (status' = status \<longrightarrow> flag' = flag \<and> after' = after) \<and>
    (status \<noteq> StatusOk \<longrightarrow> after = before)"
  using assms control_transition_deterministic control_transition_status control_transition_unchanged
  unfolding validate_transition_control by blast

end
