(* ===== verification/Ownership_Payload_Facts.thy ===== *)
theory Ownership_Payload_Facts
  imports Ownership_Facts
begin

text \<open>
  Facts about payload topologies: a scanned payload is a forest whose handles are distinct and movable, and the
  walk that computes its drops ends and lists every handle of the payload exactly once.
\<close>

section \<open>Specification vocabulary\<close>

definition kids :: "payload_kind \<Rightarrow> usize list" where
  "kids k =
     (case k of
        PkChildren children \<Rightarrow> map unat children
      | PkVariant _ (Some ch) \<Rightarrow> [unat ch]
      | _ \<Rightarrow> [])"

definition node_handles :: "payload_node list \<Rightarrow> u32 list" where
  "node_handles nodes = List.map_filter (\<lambda>nd. case nd_kind nd of PkHandle h \<Rightarrow> Some h | _ \<Rightarrow> None) nodes"

definition drop_handles :: "payload_drop list \<Rightarrow> u32 list" where
  "drop_handles ds = List.map_filter (\<lambda>d. case d of DropHandle h \<Rightarrow> Some h | DropNode _ \<Rightarrow> None) ds"

definition node_kids :: "payload_node list \<Rightarrow> usize list" where
  "node_kids nodes = concat (map (\<lambda>nd. kids (nd_kind nd)) nodes)"

text \<open>A handle that can move into a payload.\<close>

definition movable :: "control_model \<Rightarrow> u32 \<Rightarrow> bool" where
  "movable m h =
     (unat h < length (cm_owners m) \<and> ow_location (cm_owners m ! unat h) = External)"

text \<open>What the scan has established of the nodes before position \<open>i\<close>.\<close>

definition scan_inv ::
    "control_model \<Rightarrow> payload_node list \<Rightarrow> usize \<Rightarrow> bool list \<Rightarrow> u32 list \<Rightarrow> bool" where
  "scan_inv m nodes i uses handles =
     (i \<le> length nodes \<and> length uses = length nodes \<and>
      distinct (node_kids (take i nodes)) \<and>
      (\<forall>k<length nodes. uses ! k \<longleftrightarrow> k \<in> set (node_kids (take i nodes))) \<and>
      (\<forall>j<i. \<forall>c\<in>set (kids (nd_kind (nodes ! j))). c < j) \<and>
      (\<forall>j<i. type_by_id (cm_layouts m) (nd_ty (nodes ! j)) \<noteq> None) \<and>
      distinct (node_handles (take i nodes)) \<and> set handles = set (node_handles (take i nodes)) \<and>
      (\<forall>h\<in>set handles. movable m h))"

definition topology_ok :: "verified_layouts \<Rightarrow> payload_node list \<Rightarrow> bool" where
  "topology_ok layouts nodes =
     (distinct (node_kids nodes) \<and> distinct (node_handles nodes) \<and>
      (\<forall>j<length nodes. \<forall>c\<in>set (kids (nd_kind (nodes ! j))). c < j) \<and>
      (\<forall>j<length nodes. type_by_id layouts (nd_ty (nodes ! j)) \<noteq> None))"

text \<open>The nodes still to visit are new, and every node met has its parent among the visited ones.\<close>

definition walk_inv :: "payload_node list \<Rightarrow> (usize \<times> bool) list \<Rightarrow> usize set \<Rightarrow> payload_drop list \<Rightarrow> bool" where
  "walk_inv nodes stack visited drops =
     (let fresh = map fst (filter (\<lambda>x. \<not> snd x) stack)
      in (\<forall>x\<in>set stack. fst x < length nodes \<and> (snd x \<longrightarrow> (\<exists>cs. nd_kind (nodes ! fst x) = PkChildren cs))) \<and>
         distinct fresh \<and> set fresh \<inter> visited = {} \<and> visited \<subseteq> {..<length nodes} \<and>
         (\<forall>c\<in>set fresh \<union> visited. c \<noteq> length nodes - 1 \<longrightarrow>
            (\<exists>j\<in>visited. c \<in> set (kids (nd_kind (nodes ! j))))) \<and>
         distinct (drop_handles drops) \<and>
         set (drop_handles drops) = {h. \<exists>j\<in>visited. nd_kind (nodes ! j) = PkHandle h})"

definition walk_result :: "payload_node list \<Rightarrow> payload_drop list option \<Rightarrow> bool" where
  "walk_result nodes r =
     (case r of
        None \<Rightarrow> 2 ^ 32 < length nodes
      | Some ds \<Rightarrow> distinct (drop_handles ds) \<and> set (drop_handles ds) \<subseteq> set (node_handles nodes))"

section \<open>Payload topology\<close>

lemma drop_handles_simps [simp]:
  "drop_handles [] = []" "drop_handles (DropHandle h # ds) = h # drop_handles ds"
  "drop_handles (DropNode n # ds) = drop_handles ds" "drop_handles (ds @ es) = drop_handles ds @ drop_handles es"
  by (simp_all add: drop_handles_def List.map_filter_def)

lemma drop_handles_set: "h \<in> set (drop_handles ds) \<longleftrightarrow> DropHandle h \<in> set ds"
  by (induction ds) (auto simp: drop_handles_def List.map_filter_def split: payload_drop.splits)

lemma node_handles_simps [simp]:
  "node_handles [] = []" "node_handles (xs @ ys) = node_handles xs @ node_handles ys"
  "node_handles [nd] = (case nd_kind nd of PkHandle h \<Rightarrow> [h] | _ \<Rightarrow> [])"
  by (simp_all add: node_handles_def List.map_filter_def split: payload_kind.splits)

lemma node_kids_simps [simp]:
  "node_kids [] = []" "node_kids (xs @ ys) = node_kids xs @ node_kids ys" "node_kids [nd] = kids (nd_kind nd)"
  by (simp_all add: node_kids_def)

lemma payload_edges_Inr:
  assumes "payload_edges nodes i es uses = Inr uses'" and "i \<le> length uses"
  shows "length uses' = length uses \<and> distinct (map (\<lambda>e. unat (fst e)) es) \<and>
    (\<forall>e\<in>set es. unat (fst e) < i \<and> \<not> uses ! unat (fst e)) \<and>
    (\<forall>k<length uses. uses' ! k \<longleftrightarrow> uses ! k \<or> k \<in> set (map (\<lambda>e. unat (fst e)) es))"
  using assms
proof (induction es arbitrary: uses)
  case (Cons e es)
  obtain ch t where e: "e = (ch, t)" by (cases e)
  have c: "unat ch < i" "\<not> uses ! unat ch"
    and r: "payload_edges nodes i es (uses[unat ch := True]) = Inr uses'"
    using Cons.prems(1) by (auto simp: e payload_edge_def split: if_splits)
  note IH = Cons.IH [OF r] 
  have len: "unat ch < length uses" using c(1) Cons.prems(2) by simp
  have ih: "length uses' = length uses" "distinct (map (\<lambda>e. unat (fst e)) es)"
    "\<forall>e\<in>set es. unat (fst e) < i \<and> \<not> uses[unat ch := True] ! unat (fst e)"
    "\<forall>k<length uses. uses' ! k \<longleftrightarrow> uses[unat ch := True] ! k \<or> k \<in> set (map (\<lambda>e. unat (fst e)) es)"
    using IH Cons.prems(2) by simp_all
  have fresh: "unat ch \<notin> (\<lambda>e. unat (fst e)) ` set es" using ih(3) len by auto
  have old: "\<forall>e\<in>set es. unat (fst e) < i \<and> \<not> uses ! unat (fst e)"
  proof
    fix e assume e: "e \<in> set es"
    then have "unat ch \<noteq> unat (fst e)" using fresh by blast
    then have "uses[unat ch := True] ! unat (fst e) = uses ! unat (fst e)" by simp
    then show "unat (fst e) < i \<and> \<not> uses ! unat (fst e)" using ih(3) e by blast
  qed
  have "\<forall>k<length uses. uses' ! k \<longleftrightarrow> uses ! k \<or> k = unat ch \<or> k \<in> (\<lambda>e. unat (fst e)) ` set es"
    using ih(4) len by (auto simp: nth_list_update)
  then show ?case using ih(1,2) fresh old c e by auto
qed auto

lemma scan_inv_step:
  assumes inv: "scan_inv m nodes i uses handles" and i: "i < length nodes"
    and ty: "type_by_id (cm_layouts m) (nd_ty (nodes ! i)) \<noteq> None"
    and ks: "distinct (kids (nd_kind (nodes ! i)))" "\<forall>c\<in>set (kids (nd_kind (nodes ! i))). c < i \<and> \<not> uses ! c"
    and us: "length uses' = length uses"
      "\<forall>k<length uses. uses' ! k \<longleftrightarrow> uses ! k \<or> k \<in> set (kids (nd_kind (nodes ! i)))"
    and hs: "set handles' = set handles \<union> set (node_handles [nodes ! i])"
      "set handles \<inter> set (node_handles [nodes ! i]) = {}" "\<forall>h\<in>set (node_handles [nodes ! i]). movable m h"
  shows "scan_inv m nodes (Suc i) uses' handles'"
proof -
  have tk: "take (Suc i) nodes = take i nodes @ [nodes ! i]" using i by (simp add: take_Suc_conv_app_nth)
  have "distinct (node_handles [nodes ! i])" by (simp split: payload_kind.splits)
  moreover have "set (kids (nd_kind (nodes ! i))) \<inter> set (node_kids (take i nodes)) = {}"
    using ks(2) inv i by (auto simp: scan_inv_def)
  ultimately show ?thesis
    using inv i ty ks us hs unfolding scan_inv_def tk
    by (auto simp: less_Suc_eq)
qed

lemma payload_node_check_step:
  assumes inv: "scan_inv m nodes i uses handles" and i: "i < length nodes"
    and chk: "payload_node_check m nodes i (nodes ! i) uses handles = Inr (uses', handles')"
  shows "scan_inv m nodes (Suc i) uses' handles'"
proof -
  have len: "length uses = length nodes" using inv by (simp add: scan_inv_def)
  obtain r where r: "type_by_id (cm_layouts m) (nd_ty (nodes ! i)) = Some r"
    using chk by (auto simp: payload_node_check_def result_simps)
  note body = chk [unfolded payload_node_check_def r ok_or_simps try_bind_simps Let_def]
  have plain: ?thesis if "kids (nd_kind (nodes ! i)) = []" "node_handles [nodes ! i] = []" "uses' = uses" "handles' = handles"
    by (rule scan_inv_step [OF inv i]) (use that r in auto)
  have edges: ?thesis
    if "payload_edges nodes i es uses = Inr uses'" "handles' = handles" "node_handles [nodes ! i] = []"
      "kids (nd_kind (nodes ! i)) = map (\<lambda>e. unat (fst e)) es" for es
    by (rule scan_inv_step [OF inv i]) (use that r payload_edges_Inr [OF that(1)] i len in auto)
  show ?thesis
  proof (cases "nd_kind (nodes ! i)")
    case (PkChildren children)
    have z: "map (\<lambda>e. unat (fst e)) (zip children ts) = map unat children" if "length children = length ts" for ts :: "type_id list"
    proof -
      have "map (\<lambda>e. unat (fst e)) (zip children ts) = map unat (map fst (zip children ts))" by simp
      then show ?thesis using that by (simp only: map_fst_zip)
    qed
    have "\<exists>es. payload_edges nodes i es uses = Inr uses' \<and> handles' = handles \<and>
        map (\<lambda>e. unat (fst e)) es = map unat children"
    proof (cases "category r = CStruct")
      case True
      then have "payload_edges nodes i (zip children (map vf_ty (vt_fields r))) uses = Inr uses'" "handles' = handles"
        "length children = length (map vf_ty (vt_fields r))"
        using body by (auto simp: PkChildren map_sum_eq_Inr_iff split: if_splits)
      then show ?thesis using z by blast
    next
      case False
      then obtain element where
        "payload_edges nodes i (map (\<lambda>ch. (ch, element)) children) uses = Inr uses'" "handles' = handles"
        using body by (auto simp: PkChildren result_simps map_sum_eq_Inr_iff split: if_splits)
      moreover have "map (\<lambda>e. unat (fst e)) (map (\<lambda>ch. (ch, element)) children) = map unat children" by simp
      ultimately show ?thesis by blast
    qed
    then show ?thesis using edges PkChildren by (auto simp: kids_def)
  next
    case (PkVariant v child)
    show ?thesis
    proof (cases child)
      case None
      then show ?thesis using body
        by (intro plain) (auto simp: PkVariant kids_def result_simps map_sum_eq_Inr_iff split: if_splits option.splits)
    next
      case (Some ch)
      then obtain t where "payload_edge nodes i ch t uses = Inr uses'" "handles' = handles"
        using body by (auto simp: PkVariant result_simps map_sum_eq_Inr_iff split: if_splits option.splits)
      then have "payload_edges nodes i [(ch, t)] uses = Inr uses'" "handles' = handles" by simp_all
      then show ?thesis by (rule edges) (simp_all add: PkVariant Some kids_def)
    qed
  next
    case (PkHandle h)
    have u: "uses' = uses" and ph: "payload_handle m h (category r) (vt_referenced_type r) handles = Inr handles'"
      using body by (auto simp: PkHandle map_sum_eq_Inr_iff split: if_splits)
    have "handles' = h # handles" "h \<notin> set handles" "movable m h"
      using ph by (auto simp: payload_handle_def movable_def result_simps split: if_splits)
    then show ?thesis using u
      by (intro scan_inv_step [OF inv i]) (auto simp: r PkHandle kids_def)
  qed (use body in \<open>auto split: if_splits intro: plain simp: kids_def\<close>)
qed

lemma payload_scan_inv:
  assumes "scan_inv m nodes i uses handles" and "payload_scan m nodes i rest uses handles = Inr (uses', handles')"
    and "rest = drop i nodes"
  shows "scan_inv m nodes (length nodes) uses' handles'"
  using assms
proof (induction rest arbitrary: i uses handles)
  case Nil
  then show ?case by (auto simp: scan_inv_def)
next
  case (Cons node rest)
  have i: "i < length nodes" using Cons.prems(3) by (metis drop_all linorder_not_less list.distinct(1))
  have nd: "node = nodes ! i" "rest = drop (Suc i) nodes"
    using Cons.prems(3) i by (metis Cons_nth_drop_Suc list.inject)+
  obtain u h where c: "payload_node_check m nodes i node uses handles = Inr (u, h)"
    and s: "payload_scan m nodes (Suc i) rest u h = Inr (uses', handles')"
    using Cons.prems(2) by (auto simp: result_simps)
  show ?case using Cons.IH [OF _ s nd(2)] payload_node_check_step [OF Cons.prems(1) i] c nd(1) by simp
qed

section \<open>Payload cleanup\<close>

lemma distinct_concat_unique:
  assumes "distinct (concat (map f xs))" and "i < length xs" and "j < length xs"
    and "x \<in> set (f (xs ! i))" and "x \<in> set (f (xs ! j))"
  shows "i = j"
  using assms
proof (induction xs arbitrary: i j)
  case (Cons y ys)
  have d: "distinct (concat (map f ys))" "set (f y) \<inter> (\<Union>z\<in>set ys. set (f z)) = {}"
    using Cons.prems(1) by auto
  have no: False if "x \<in> set (f y)" "k < length ys" "x \<in> set (f (ys ! k))" for k
    using d(2) that nth_mem by blast
  show ?case
    using Cons.IH [OF d(1)] Cons.prems(2-5) no by (cases i; cases j) auto
qed simp

lemma node_handles_concat:
  "node_handles nodes = concat (map (\<lambda>nd. case nd_kind nd of PkHandle h \<Rightarrow> [h] | _ \<Rightarrow> []) nodes)"
  by (induction nodes) (auto simp: node_handles_def List.map_filter_def split: payload_kind.splits)

lemma handle_unique:
  assumes "topology_ok layouts nodes" and "i < length nodes" and "j < length nodes"
    and "nd_kind (nodes ! i) = PkHandle h" and "nd_kind (nodes ! j) = PkHandle h"
  shows "i = j"
  by (rule distinct_concat_unique [where xs = nodes and x = h
      and f = "\<lambda>nd. case nd_kind nd of PkHandle h \<Rightarrow> [h] | _ \<Rightarrow> []"])
    (use assms in \<open>auto simp: topology_ok_def node_handles_concat\<close>)

lemma parent_unique:
  assumes "topology_ok layouts nodes" and "i < length nodes" and "j < length nodes"
    and "c \<in> set (kids (nd_kind (nodes ! i)))" and "c \<in> set (kids (nd_kind (nodes ! j)))"
  shows "i = j"
  by (rule distinct_concat_unique [where xs = nodes and x = c and f = "\<lambda>nd. kids (nd_kind nd)"])
    (use assms in \<open>auto simp: topology_ok_def node_kids_def\<close>)

lemma kids_distinct: "topology_ok layouts nodes \<Longrightarrow> i < length nodes \<Longrightarrow> distinct (kids (nd_kind (nodes ! i)))"
proof -
  assume a: "topology_ok layouts nodes" "i < length nodes"
  then have "distinct (concat (map (\<lambda>nd. kids (nd_kind nd)) nodes))" by (simp add: topology_ok_def node_kids_def)
  then show ?thesis using a(2) by (auto simp: distinct_concat_iff)
qed

lemma walk_inv_visit:
  assumes top: "topology_ok layouts nodes" and inv: "walk_inv nodes ((i, False) # rest) visited drops"
    and hs: "drop_handles drops' = drop_handles drops @ (case nd_kind (nodes ! i) of PkHandle h \<Rightarrow> [h] | _ \<Rightarrow> [])"
    and st: "map fst (filter (\<lambda>x. \<not> snd x) stack') = ks @ map fst (filter (\<lambda>x. \<not> snd x) rest)"
      "set ks = set (kids (nd_kind (nodes ! i)))" "distinct ks"
      "\<forall>x\<in>set stack'. x \<in> set rest \<or> x = (i, True) \<and> (\<exists>cs. nd_kind (nodes ! i) = PkChildren cs) \<or>
         \<not> snd x \<and> fst x \<in> set ks"
  shows "walk_inv nodes stack' (insert i visited) drops'"
proof -
  let ?F = "map fst (filter (\<lambda>x. \<not> snd x) rest)"
  have i: "i < length nodes" "i \<notin> visited" "i \<notin> set ?F" and F: "distinct ?F" "set ?F \<inter> visited = {}"
    and v: "visited \<subseteq> {..<length nodes}"
    and par: "\<forall>c\<in>insert i (set ?F) \<union> visited. c \<noteq> length nodes - 1 \<longrightarrow>
        (\<exists>j\<in>visited. c \<in> set (kids (nd_kind (nodes ! j))))"
    and dr: "distinct (drop_handles drops)"
      "set (drop_handles drops) = {h. \<exists>j\<in>visited. nd_kind (nodes ! j) = PkHandle h}"
    and rng: "\<forall>x\<in>set rest. fst x < length nodes \<and> (snd x \<longrightarrow> (\<exists>cs. nd_kind (nodes ! fst x) = PkChildren cs))"
    using inv unfolding walk_inv_def Let_def by simp_all
  have lt: "\<forall>c\<in>set ks. c < i" using top i(1) st(2) by (auto simp: topology_ok_def)
  have kid: "c < i" "c < length nodes" "c \<noteq> length nodes - 1" if "c \<in> set ks" for c
    using bspec [OF lt that] i(1) by linarith+
  have new: "c \<notin> set ?F \<and> c \<notin> visited" if c: "c \<in> set ks" for c
  proof (rule ccontr)
    assume "\<not> ?thesis"
    then obtain j where "j \<in> visited" "c \<in> set (kids (nd_kind (nodes ! j)))" using par kid(3) [OF c] by blast
    then have "i = j" using parent_unique [OF top i(1)] c st(2) v by auto
    then show False using \<open>j \<in> visited\<close> i(2) by simp
  qed
  have fresh: "h \<notin> set (drop_handles drops)" if "nd_kind (nodes ! i) = PkHandle h" for h
    using handle_unique [OF top i(1)] that dr(2) v i(2) by fastforce
  show ?thesis unfolding walk_inv_def Let_def st(1)
  proof (intro conjI)
    show "\<forall>x\<in>set stack'. fst x < length nodes \<and> (snd x \<longrightarrow> (\<exists>cs. nd_kind (nodes ! fst x) = PkChildren cs))"
      using st(4) rng i(1) kid(2) by fastforce
    show "distinct (ks @ ?F)" using st(3) F(1) new by auto
    show "set (ks @ ?F) \<inter> insert i visited = {}" using F(2) new kid(1) i(3) by fastforce
    show "insert i visited \<subseteq> {..<length nodes}" using v i(1) by simp
    show "\<forall>c\<in>set (ks @ ?F) \<union> insert i visited. c \<noteq> length nodes - 1 \<longrightarrow>
        (\<exists>j\<in>insert i visited. c \<in> set (kids (nd_kind (nodes ! j))))"
      using par st(2) by auto
    show "distinct (drop_handles drops')" unfolding hs using dr(1) fresh by (auto split: payload_kind.splits)
    show "set (drop_handles drops') = {h. \<exists>j\<in>insert i visited. nd_kind (nodes ! j) = PkHandle h}"
      unfolding hs using dr(2) by (auto split: payload_kind.splits)
  qed
qed

lemma walk_result_None: "walk_result nodes None \<longleftrightarrow> 2 ^ 32 < length nodes"
  by (simp add: walk_result_def)

lemma walk_inv_result: "walk_inv nodes [] visited drops \<Longrightarrow> walk_result nodes (Some drops)"
proof -
  assume w: "walk_inv nodes [] visited drops"
  have "h \<in> set (node_handles nodes)" if h: "h \<in> set (drop_handles drops)" for h
  proof -
    obtain j where "j \<in> visited" "nd_kind (nodes ! j) = PkHandle h"
      using w h unfolding walk_inv_def Let_def by blast
    moreover have "visited \<subseteq> {..<length nodes}" using w unfolding walk_inv_def Let_def by blast
    ultimately have "nodes ! j \<in> set nodes" "nd_kind (nodes ! j) = PkHandle h" by auto
    then show ?thesis unfolding node_handles_concat by (auto intro!: bexI [of _ "nodes ! j"])
  qed
  then show ?thesis using w by (auto simp: walk_result_def walk_inv_def Let_def)
qed

lemma u32_index: "i < length nodes \<Longrightarrow> u32_try_from i = None \<Longrightarrow> 2 ^ 32 < length nodes"
  by (simp add: u32_try_from_def split: if_splits)

lemma payload_drops_walk:
  assumes top: "topology_ok layouts nodes"
  shows "walk_inv nodes stack visited drops \<Longrightarrow> walk_result nodes (payload_drops layouts nodes stack drops)"
proof (induction "length nodes - card visited" arbitrary: stack visited drops rule: less_induct)
  case less
  note outer = less(1)
  have dec: "length nodes - card (insert i visited) < length nodes - card visited"
    if "walk_inv nodes ((i, False) # rest) visited drops" for i rest drops
  proof -
    have v: "visited \<subseteq> {..<length nodes}" "i < length nodes" "i \<notin> visited"
      using that by (auto simp: walk_inv_def Let_def)
    then have fin: "finite visited" by (meson finite_lessThan finite_subset)
    have "card (insert i visited) \<le> card {..<length nodes}" using v by (intro card_mono) auto
    then show ?thesis using v fin by simp
  qed
  from less(2) show ?case
  proof (induction stack arbitrary: drops)
    case Nil
    then show ?case using walk_inv_result by (subst payload_drops.simps) simp
  next
    case (Cons x rest)
    obtain i storage where x: "x = (i, storage)" by (cases x)
    have i: "i < length nodes" using Cons.prems x by (simp add: walk_inv_def Let_def)
    then obtain r where r: "type_by_id layouts (nd_ty (nodes ! i)) = Some r" using top by (auto simp: topology_ok_def)
    have get: "get_at nodes i = Some (nodes ! i)" using i by (simp add: get_at_def)
    note unf = payload_drops.simps [of layouts nodes "x # rest" drops, simplified x list.case prod.case get option.case r]
    show ?case
    proof (cases storage)
      case True
      then obtain cs where k: "nd_kind (nodes ! i) = PkChildren cs"
        using Cons.prems x by (auto simp: walk_inv_def Let_def)
      have "walk_inv nodes rest visited (drops @ [DropNode n])" for n
        using Cons.prems x True by (simp add: walk_inv_def Let_def)
      then have "walk_result nodes (payload_drops layouts nodes rest (drops @ [DropNode n]))" for n
        by (rule Cons.IH)
      then show ?thesis using unf True k u32_index [OF i] x
        by (cases "u32_try_from i") (simp_all add: walk_result_None)
    next
      case False
      have inv: "walk_inv nodes ((i, False) # rest) visited drops" using Cons.prems x False by simp
      note step = outer [OF dec [OF inv]] and visit = walk_inv_visit [OF top inv]
      have leaf: "walk_result nodes (payload_drops layouts nodes rest drops')"
        if "kids (nd_kind (nodes ! i)) = []"
          "drop_handles drops' = drop_handles drops @ (case nd_kind (nodes ! i) of PkHandle h \<Rightarrow> [h] | _ \<Rightarrow> [])" for drops'
        by (rule step, rule visit [OF that(2), of rest "[]"]) (use that in auto)
      show ?thesis
      proof (cases "nd_kind (nodes ! i)")
        case PkCopy
        then have "payload_drops layouts nodes (x # rest) drops = payload_drops layouts nodes rest drops"
          using unf x by simp
        then show ?thesis using leaf [of drops] by (simp add: PkCopy kids_def)
      next
        case PkString
        show ?thesis
        proof (cases "u32_try_from i")
          case None
          then have "payload_drops layouts nodes (x # rest) drops = None" using unf x PkString by simp
          then show ?thesis using u32_index [OF i None] by (simp add: walk_result_None)
        next
          case (Some n)
          then have "payload_drops layouts nodes (x # rest) drops = payload_drops layouts nodes rest (drops @ [DropNode n])"
            using unf x PkString by simp
          then show ?thesis using leaf [of "drops @ [DropNode n]"] by (simp add: PkString kids_def)
        qed
      next
        case (PkHandle h)
        then have "payload_drops layouts nodes (x # rest) drops = payload_drops layouts nodes rest (drops @ [DropHandle h])"
          using unf x by simp
        then show ?thesis using leaf [of "drops @ [DropHandle h]"] by (simp add: PkHandle kids_def)
      next
        case (PkChildren cs)
        let ?stack = "rev (map (\<lambda>ch. (unat ch, False)) cs) @ (if category r = CVec then (i, True) # rest else rest)"
        have "payload_drops layouts nodes (x # rest) drops = payload_drops layouts nodes ?stack drops"
          using unf x PkChildren False by simp
        moreover have "distinct (map unat (rev cs))"
          using kids_distinct [OF top i] by (simp add: PkChildren kids_def rev_map [symmetric])
        then have "walk_inv nodes ?stack (insert i visited) drops"
          by (intro visit [where ks = "rev (map unat cs)"]) (auto simp: PkChildren kids_def rev_map comp_def filter_map)
        ultimately show ?thesis using step by simp
      next
        case (PkVariant v child)
        show ?thesis
        proof (cases child)
          case None
          then have "payload_drops layouts nodes (x # rest) drops = payload_drops layouts nodes rest drops"
            using unf x PkVariant by simp
          then show ?thesis using leaf [of drops] by (simp add: PkVariant None kids_def)
        next
          case (Some ch)
          then have "payload_drops layouts nodes (x # rest) drops = payload_drops layouts nodes ((unat ch, False) # rest) drops"
            using unf x PkVariant by simp
          moreover have "walk_inv nodes ((unat ch, False) # rest) (insert i visited) drops"
            by (rule visit [where ks = "[unat ch]"]) (auto simp: PkVariant Some kids_def)
          ultimately show ?thesis using step by simp
        qed
      qed
    qed
  qed
qed

lemma payload_Inr:
  assumes "payload m ty nodes = Inr (drops, m')"
  shows "\<exists>n. m' = m\<lparr>cm_nodes := n\<rparr>" "distinct (drop_handles drops)" "\<forall>h\<in>set (drop_handles drops). movable m h"
proof -
  obtain n uses handles where n: "m' = m\<lparr>cm_nodes := n\<rparr>" "nodes \<noteq> []"
    and sc: "payload_scan (m\<lparr>cm_nodes := n\<rparr>) nodes 0 nodes (replicate (length nodes) False) [] = Inr (uses, handles)"
    and dr: "payload_drops (cm_layouts m) nodes [(length nodes - 1, False)] [] = Some drops"
    using assms by (auto simp: payload_def Let_def result_simps split: if_splits)
  show "\<exists>n. m' = m\<lparr>cm_nodes := n\<rparr>" using n(1) by blast
  have inv: "scan_inv (m\<lparr>cm_nodes := n\<rparr>) nodes (length nodes) uses handles"
    by (rule payload_scan_inv [OF _ sc]) (auto simp: scan_inv_def)
  then have "topology_ok (cm_layouts m) nodes" by (simp add: scan_inv_def topology_ok_def)
  moreover have "walk_inv nodes [(length nodes - 1, False)] {} []" using n(2) by (simp add: walk_inv_def Let_def)
  ultimately have "walk_result nodes (Some drops)" using payload_drops_walk dr by metis
  then show "distinct (drop_handles drops)" "\<forall>h\<in>set (drop_handles drops). movable m h"
    using inv by (auto simp: walk_result_def scan_inv_def movable_def)
qed
end
