(* ===== verification/Ownership_Trace_Facts.thy ===== *)
theory Ownership_Trace_Facts
  imports Ownership_Payload_Facts
begin

text \<open>
  The invariant of the symbolic control model and its consequences. \<open>model_inv\<close> says that reference
  counts are exact, that a handle lies in a payload exactly while its drop is outstanding, that the pending stack
  lists the pending controls, and that live intervals are disjoint and belong to the allocated controls. Replay
  instantiates the \<open>checked_run\<close> interface with it.
\<close>

section \<open>Specification vocabulary\<close>

definition owns :: "bool \<Rightarrow> usize \<Rightarrow> handle_owner \<Rightarrow> bool" where
  "owns weak c owner = (ow_location owner \<noteq> Dropped \<and> ow_weak owner = weak \<and> unat (ow_control owner) = c)"

definition owner_count :: "bool \<Rightarrow> handle_owner list \<Rightarrow> usize \<Rightarrow> nat" where
  "owner_count weak owners c = length (filter (owns weak c) owners)"

text \<open>The implicit weak owner exists while strong owners exist or a last release is pending.\<close>

definition count_ok :: "control_state \<Rightarrow> nat \<Rightarrow> nat \<Rightarrow> bool" where
  "count_ok s strong weak =
     (unat (strong_count s) = strong \<and>
      unat (weak_count s) = weak + (if 0 < strong_count s \<or> pending_last_strong s then 1 else 0))"

definition counts_ok :: "control list \<Rightarrow> handle_owner list \<Rightarrow> bool" where
  "counts_ok controls owners =
     ((\<forall>owner\<in>set owners. unat (ow_control owner) < length controls) \<and>
      (\<forall>c<length controls.
         valid_control_state (ctl_state (controls ! c)) \<and>
         count_ok (ctl_state (controls ! c)) (owner_count False owners c) (owner_count True owners c)))"

text \<open>The counts that a handle operation leaves.\<close>

definition counts_after :: "logical_operation \<Rightarrow> nat \<Rightarrow> nat \<Rightarrow> nat \<times> nat" where
  "counts_after op strong weak =
     (case op of
        StrongClone \<Rightarrow> (strong + 1, weak) | WeakUpgrade \<Rightarrow> (strong + 1, weak)
      | WeakDowngrade \<Rightarrow> (strong, weak + 1) | WeakClone \<Rightarrow> (strong, weak + 1)
      | StrongReleaseBegin \<Rightarrow> (strong - 1, weak) | WeakRelease \<Rightarrow> (strong, weak - 1)
      | _ \<Rightarrow> (strong, weak))"

definition remaining :: "control \<Rightarrow> u32 list" where
  "remaining c = drop_handles (drop (ctl_next c) (ctl_drops c))"

text \<open>A handle lies in a payload exactly while its drop is outstanding; it refers to a control older than the
  one whose payload holds it; and only the payload of a live or pending control has outstanding drops.\<close>

definition places_ok :: "control list \<Rightarrow> handle_owner list \<Rightarrow> bool" where
  "places_ok controls owners =
     (length owners \<le> 2 ^ 32 \<and> length controls \<le> 2 ^ 32 \<and>
      (\<forall>p<length controls. distinct (remaining (controls ! p))) \<and>
      (\<forall>p<length controls. \<forall>h\<in>set (remaining (controls ! p)).
         unat h < length owners \<and> ow_location (owners ! unat h) = InPayload (of_nat p) \<and>
         unat (ow_control (owners ! unat h)) < p) \<and>
      (\<forall>i<length owners. \<forall>p. ow_location (owners ! i) = InPayload p \<longrightarrow>
         unat p < length controls \<and> of_nat i \<in> set (remaining (controls ! unat p))) \<and>
      (\<forall>p<length controls.
         strong_count (ctl_state (controls ! p)) = 0 \<and> \<not> pending_last_strong (ctl_state (controls ! p)) \<longrightarrow>
         remaining (controls ! p) = []))"

definition pending_ok :: "control list \<Rightarrow> u32 list \<Rightarrow> bool" where
  "pending_ok controls pending =
     (distinct pending \<and> (\<forall>p\<in>set pending. unat p < length controls) \<and>
      (\<forall>c<length controls. pending_last_strong (ctl_state (controls ! c)) \<longleftrightarrow> of_nat c \<in> set pending))"

text \<open>The live intervals are nonempty, disjoint, and belong one to one to the allocated controls.\<close>

definition intervals_ok :: "control list \<Rightarrow> (u64 \<times> u64) list \<Rightarrow> bool" where
  "intervals_ok controls ivs =
     (bt_wf ivs \<and> (\<forall>x\<in>set ivs. fst x < snd x) \<and>
      (\<forall>x\<in>set ivs. \<forall>y\<in>set ivs. fst x < fst y \<longrightarrow> snd x \<le> fst y) \<and>
      bij_betw (\<lambda>c. ctl_base (controls ! c)) {c. c < length controls \<and> allocated (ctl_state (controls ! c))}
        (fst ` set ivs))"

definition model_inv :: "control_model \<Rightarrow> bool" where
  "model_inv m =
     (counts_ok (cm_controls m) (cm_owners m) \<and> places_ok (cm_controls m) (cm_owners m) \<and>
      pending_ok (cm_controls m) (cm_pending m) \<and> intervals_ok (cm_controls m) (cm_intervals m))"

definition representable :: "control_event_kind \<Rightarrow> bool" where
  "representable ev = (case ev of EvConstruct co \<Rightarrow> length (co_nodes co) < 2 ^ 64 | _ \<Rightarrow> True)"

text \<open>Two controls: a shared bool, and a shared struct whose field is the handle of the first. Releasing the
  second control runs the cleanup of its payload, which releases the first.\<close>

definition trace_type :: "u32 \<Rightarrow> type_id" where
  "trace_type i = \<lparr>ti_universe = [7], ti_index = i\<rparr>"

definition trace_record :: "u32 \<Rightarrow> verified_kind \<Rightarrow> u64 \<Rightarrow> u64 \<Rightarrow> u32 \<Rightarrow> layout_record" where
  "trace_record i k sz al dk = \<lparr>lr_id = trace_type i, lr_kind = k, lr_size = sz, lr_alignment = al,
     lr_drop_kind = dk, lr_runtime_kind = dk\<rparr>"

definition trace_layouts :: verified_layouts where
  "trace_layouts = \<lparr>vl_source_map = 1, vl_universe = [7], vl_target = Linear32V1,
     vl_records = [trace_record 0 VBool 1 1 0, trace_record 1 (VShared (trace_type 0)) 4 4 4,
       trace_record 2 (VStruct 0 0 [\<lparr>vf_ordinal = 0, vf_ty = trace_type 1, vf_offset = 0\<rparr>]) 4 4 1,
       trace_record 3 (VShared (trace_type 2)) 4 4 4],
     vl_fingerprint = [9]\<rparr>"

definition trace_abi :: verified_abi where
  "trace_abi = \<lparr>va_identity = [5], va_universe = [7], va_linear32_fingerprint = [9], va_linux_fingerprint = [8],
     va_element_layouts = [],
     va_control_layouts =
       [\<lparr>cl_target = Linear32V1, cl_payload = trace_type 0, cl_payload_offset = 8, cl_size = 12, cl_alignment = 4\<rparr>,
        \<lparr>cl_target = Linear32V1, cl_payload = trace_type 2, cl_payload_offset = 8, cl_size = 12, cl_alignment = 4\<rparr>]\<rparr>"

definition trace_events :: "control_event list" where
  "trace_events =
     [\<lparr>ev_site = 0, ev_kind = EvConstruct \<lparr>co_payload = trace_type 0, co_nodes = [\<lparr>nd_ty = trace_type 0, nd_kind = PkCopy\<rparr>],
        co_status = StatusOk, co_base = 16, co_size = 12, co_alignment = 4, co_control = Some 0, co_owner = Some 0\<rparr>\<rparr>,
      \<lparr>ev_site = 1, ev_kind = EvConstruct \<lparr>co_payload = trace_type 2,
        co_nodes = [\<lparr>nd_ty = trace_type 1, nd_kind = PkHandle 0\<rparr>, \<lparr>nd_ty = trace_type 2, nd_kind = PkChildren [0]\<rparr>],
        co_status = StatusOk, co_base = 28, co_size = 12, co_alignment = 4, co_control = Some 1, co_owner = Some 1\<rparr>\<rparr>,
      \<lparr>ev_site = 2, ev_kind = EvHandle StrongReleaseBegin 1 StatusOk None (Some True) (trace_state 0 1 True True True)\<rparr>,
      \<lparr>ev_site = 3, ev_kind = EvHandle StrongReleaseBegin 0 StatusOk None (Some True) (trace_state 0 1 True True True)\<rparr>,
      \<lparr>ev_site = 4, ev_kind = EvFinish 0 (trace_state 0 0 False False False)\<rparr>,
      \<lparr>ev_site = 5, ev_kind = EvFinish 1 (trace_state 0 0 False False False)\<rparr>]"

definition sample_trace :: control_trace where
  "sample_trace = \<lparr>tr_invocation = 3, tr_abi = [5], tr_target = Linear32V1, tr_events = trace_events\<rparr>"

definition sample_verified :: verified_control_trace where
  "sample_verified = \<lparr>vt_invocation = 3,
     vt_states = [trace_state 0 0 False False False, trace_state 0 0 False False False], vt_live_owners = 0\<rparr>"

definition sample_model :: control_model where
  "sample_model = \<lparr>cm_abi = trace_abi, cm_layouts = trace_layouts,
     cm_controls =
       [\<lparr>ctl_payload = trace_type 0, ctl_state = trace_state 1 1 False True True, ctl_base = 16, ctl_drops = [], ctl_next = 0\<rparr>,
        \<lparr>ctl_payload = trace_type 2, ctl_state = trace_state 0 1 True True True, ctl_base = 28,
         ctl_drops = [DropHandle 0], ctl_next = 0\<rparr>],
     cm_owners = [\<lparr>ow_control = 0, ow_weak = False, ow_location = InPayload 1\<rparr>,
       \<lparr>ow_control = 1, ow_weak = False, ow_location = Dropped\<rparr>],
     cm_intervals = [(16, 28), (28, 40)], cm_pending = [1], cm_allocations = 2, cm_nodes = 3\<rparr>"

section \<open>Exact counts\<close>

lemma length_filter_update:
  assumes "i < length xs"
  shows "length (filter P (xs[i := y])) + (if P (xs ! i) then 1 else 0) =
    length (filter P xs) + (if P y then 1 else 0)"
  using assms
proof (induction xs arbitrary: i)
  case (Cons x xs)
  then show ?case by (cases i) auto
qed simp

lemma owner_count_append [simp]:
  "owner_count w (xs @ ys) c = owner_count w xs c + owner_count w ys c"
  by (simp add: owner_count_def)

lemma owner_count_single [simp]: "owner_count w [owner] c = (if owns w c owner then 1 else 0)"
  by (simp add: owner_count_def)

lemma owner_count_Nil [simp]: "owner_count w [] c = 0"
  by (simp add: owner_count_def)

lemma owner_count_move:
  assumes "i < length owners" and "ow_location (owners ! i) \<noteq> Dropped" and "loc \<noteq> Dropped"
  shows "owner_count w (owners[i := (owners ! i)\<lparr>ow_location := loc\<rparr>]) c = owner_count w owners c"
  using length_filter_update [OF assms(1), of "owns w c" "(owners ! i)\<lparr>ow_location := loc\<rparr>"] assms(2,3)
  by (auto simp: owner_count_def owns_def split: if_splits)

lemma owner_count_drop:
  assumes "i < length owners" and "ow_location (owners ! i) \<noteq> Dropped"
  shows "owner_count w (owners[i := (owners ! i)\<lparr>ow_location := Dropped\<rparr>]) c =
    owner_count w owners c - (if owns w c (owners ! i) then 1 else 0)"
  using length_filter_update [OF assms(1), of "owns w c" "(owners ! i)\<lparr>ow_location := Dropped\<rparr>"] assms(2)
  by (auto simp: owner_count_def owns_def split: if_splits)

lemma owner_count_pos: "i < length owners \<Longrightarrow> owns w c (owners ! i) \<Longrightarrow> 0 < owner_count w owners c"
  by (auto simp: owner_count_def length_greater_0_conv filter_empty_conv)

lemma owner_count_fresh: "\<forall>owner\<in>set owners. unat (ow_control owner) < n \<Longrightarrow> owner_count w owners n = 0"
  by (auto simp: owner_count_def filter_empty_conv owns_def)

lemma unat_inc: "w < - 1 \<Longrightarrow> unat (w + 1 :: u32) = unat w + 1"
proof -
  assume "w < - 1"
  then have "unat w < unat (- 1 :: u32)" by (simp add: word_less_nat_alt)
  moreover have "unat (- 1 :: u32) = 4294967295" by code_simp
  ultimately show ?thesis by (simp add: unat_word_ariths)
qed

lemma unat_dec: "0 < w \<Longrightarrow> unat (w - 1 :: u32) = unat w - 1"
  by (simp add: unat_minus_one word_gt_0)

lemma handle_effect_counts:
  assumes e: "handle_effect op b StatusOk a" and c: "count_ok b s w" and np: "\<not> pending_last_strong b"
    and op: "is_handle_operation op" and rel: "op = WeakRelease \<Longrightarrow> 0 < w"
  shows "count_ok a (fst (counts_after op s w)) (snd (counts_after op s w))"
proof -
  have pos: "0 < x \<longleftrightarrow> 0 < unat x" for x :: u32 by (simp add: word_less_nat_alt)
  consider "op = StrongClone \<or> op = WeakUpgrade" | "op = WeakDowngrade \<or> op = WeakClone"
    | "op = StrongReleaseBegin" | "op = WeakRelease" using op by (auto simp: is_handle_operation_def)
  then show ?thesis
  proof cases
    case 1
    then have "0 < strong_count b" "strong_count b < - 1" "a = b\<lparr>strong_count := strong_count b + 1\<rparr>"
      using e by (auto simp: handle_effect_def)
    then show ?thesis using c np 1 by (auto simp: count_ok_def counts_after_def unat_inc pos)
  next
    case 2
    then have "weak_count b < - 1" "a = b\<lparr>weak_count := weak_count b + 1\<rparr>"
      using e by (auto simp: handle_effect_def)
    then show ?thesis using c np 2 by (auto simp: count_ok_def counts_after_def unat_inc)
  next
    case 3
    then have a: "0 < strong_count b"
      "a = b\<lparr>strong_count := strong_count b - 1, pending_last_strong := (strong_count b = 1)\<rparr>"
      using e by (auto simp: handle_effect_def)
    have "0 < unat (strong_count b - 1) \<or> strong_count b = 1"
      using a(1) unat_dec [OF a(1)] unfolding word_one_cases by (auto simp: word_less_nat_alt)
    then show ?thesis using c np 3 a unat_dec [OF a(1)]
      by (auto simp: count_ok_def counts_after_def pos)
  next
    case 4
    then have a: "0 < weak_count b"
      "strong_count a = strong_count b" "weak_count a = weak_count b - 1" "pending_last_strong a = pending_last_strong b"
      using e by (auto simp: handle_effect_def)
    show ?thesis using c np 4 a rel unat_dec [OF a(1)]
      by (auto simp: count_ok_def counts_after_def)
  qed
qed

section \<open>Where owners are\<close>

lemma unat_of_nat_32: "n < 2 ^ 32 \<Longrightarrow> unat (of_nat n :: u32) = n"
  by (simp add: unat_of_nat take_bit_nat_def)

lemma of_nat_eq_32: "n < 2 ^ 32 \<Longrightarrow> (of_nat n :: u32) = w \<longleftrightarrow> n = unat w"
  using unat_of_nat_32 [of n] by auto

section \<open>Cleanup steps\<close>

lemma remaining_step:
  assumes "get_at (ctl_drops c) (ctl_next c) = Some d"
  shows "remaining c = (case d of DropHandle h \<Rightarrow> [h] | DropNode _ \<Rightarrow> []) @ remaining (c\<lparr>ctl_next := Suc (ctl_next c)\<rparr>)"
proof -
  have "drop (ctl_next c) (ctl_drops c) = d # drop (Suc (ctl_next c)) (ctl_drops c)"
    using assms by (auto simp: get_at_Some_iff Cons_nth_drop_Suc)
  then show ?thesis by (simp add: remaining_def split: payload_drop.splits)
qed

lemma counts_ok_states:
  assumes "counts_ok controls owners" and "length controls' = length controls"
    and "\<forall>c<length controls. ctl_state (controls' ! c) = ctl_state (controls ! c)"
  shows "counts_ok controls' owners"
  using assms by (simp add: counts_ok_def)

lemma pending_ok_states:
  assumes "pending_ok controls pending" and "length controls' = length controls"
    and "\<forall>c<length controls. ctl_state (controls' ! c) = ctl_state (controls ! c)"
  shows "pending_ok controls' pending"
  using assms by (simp add: pending_ok_def)

lemma intervals_ok_states:
  assumes iv: "intervals_ok controls ivs" and len: "length controls' = length controls"
    and al: "\<forall>c<length controls. allocated (ctl_state (controls' ! c)) = allocated (ctl_state (controls ! c)) \<and>
      ctl_base (controls' ! c) = ctl_base (controls ! c)"
  shows "intervals_ok controls' ivs"
proof -
  let ?A = "{c. c < length controls \<and> allocated (ctl_state (controls ! c))}"
  have "{c. c < length controls' \<and> allocated (ctl_state (controls' ! c))} = ?A" using len al by auto
  moreover have "bij_betw (\<lambda>c. ctl_base (controls' ! c)) ?A (fst ` set ivs)"
    using iv al by (subst bij_betw_cong [where g = "\<lambda>c. ctl_base (controls ! c)"]) (auto simp: intervals_ok_def)
  ultimately show ?thesis using iv by (simp add: intervals_ok_def)
qed

lemma places_ok_advance_node:
  assumes pl: "places_ok controls owners" and p: "p < length controls"
    and d: "get_at (ctl_drops (controls ! p)) (ctl_next (controls ! p)) = Some (DropNode n)"
  shows "places_ok (controls[p := (controls ! p)\<lparr>ctl_next := Suc (ctl_next (controls ! p))\<rparr>]) owners"
proof -
  let ?cs = "controls[p := (controls ! p)\<lparr>ctl_next := Suc (ctl_next (controls ! p))\<rparr>]"
  have "remaining (?cs ! q) = remaining (controls ! q) \<and> ctl_state (?cs ! q) = ctl_state (controls ! q)"
    if "q < length controls" for q
    using remaining_step [OF d] that by (cases "q = p") auto
  then show ?thesis using pl by (simp add: places_ok_def)
qed

lemma places_ok_drop_external:
  assumes pl: "places_ok controls owners" and i: "i < length owners" "ow_location (owners ! i) = External"
  shows "places_ok controls (owners[i := (owners ! i)\<lparr>ow_location := Dropped\<rparr>])"
proof -
  let ?os = "owners[i := (owners ! i)\<lparr>ow_location := Dropped\<rparr>]"
  have rem: "i \<noteq> unat h" if "p < length controls" "h \<in> set (remaining (controls ! p))" for p h
    using pl that i by (auto simp: places_ok_def)
  have "\<forall>p<length controls. \<forall>h\<in>set (remaining (controls ! p)).
      unat h < length ?os \<and> ow_location (?os ! unat h) = InPayload (of_nat p) \<and> unat (ow_control (?os ! unat h)) < p"
  proof (intro allI impI ballI)
    fix p h
    assume p: "p < length controls" "h \<in> set (remaining (controls ! p))"
    then have "?os ! unat h = owners ! unat h" using rem [OF p] by simp
    then show "unat h < length ?os \<and> ow_location (?os ! unat h) = InPayload (of_nat p) \<and> unat (ow_control (?os ! unat h)) < p"
      using pl p by (auto simp: places_ok_def)
  qed
  moreover have "\<forall>k<length ?os. \<forall>p. ow_location (?os ! k) = InPayload p \<longrightarrow>
      unat p < length controls \<and> of_nat k \<in> set (remaining (controls ! unat p))"
    using pl i by (auto simp: places_ok_def nth_list_update)
  ultimately show ?thesis using pl by (simp add: places_ok_def)
qed

lemma places_ok_drop_payload:
  assumes pl: "places_ok controls owners" and i: "unat i < length owners" "ow_location (owners ! unat i) = InPayload p"
    and d: "get_at (ctl_drops (controls ! unat p)) (ctl_next (controls ! unat p)) = Some (DropHandle i)"
  shows "places_ok (controls[unat p := (controls ! unat p)\<lparr>ctl_next := Suc (ctl_next (controls ! unat p))\<rparr>])
    (owners[unat i := (owners ! unat i)\<lparr>ow_location := Dropped\<rparr>])"
proof -
  let ?c = "(controls ! unat p)\<lparr>ctl_next := Suc (ctl_next (controls ! unat p))\<rparr>"
  let ?os = "owners[unat i := (owners ! unat i)\<lparr>ow_location := Dropped\<rparr>]" and ?cs = "controls[unat p := ?c]"
  have p: "unat p < length controls" and sz: "length owners \<le> 2 ^ 32" "length controls \<le> 2 ^ 32"
    using pl i by (auto simp: places_ok_def)
  have rp: "remaining (controls ! unat p) = i # remaining ?c" using remaining_step [OF d] by simp
  have dist: "distinct (remaining (controls ! q))" if "q < length controls" for q using pl that by (simp add: places_ok_def)
  have hs: "unat h < length owners \<and> ow_location (owners ! unat h) = InPayload (of_nat q) \<and>
      unat (ow_control (owners ! unat h)) < q" if "q < length controls" "h \<in> set (remaining (controls ! q))" for q h
    using pl that unfolding places_ok_def by blast
  have rem: "remaining (?cs ! q) = (if q = unat p then remaining ?c else remaining (controls ! q))"
    and st: "ctl_state (?cs ! q) = ctl_state (controls ! q)" if "q < length controls" for q
    using that p by (auto simp: nth_list_update)
  have sub: "set (remaining (?cs ! q)) \<subseteq> set (remaining (controls ! q)) - {i}" if "q < length controls" for q
  proof (cases "q = unat p")
    case True
    then show ?thesis using rem [OF that] rp dist [OF p] by auto
  next
    case False
    have "of_nat q \<noteq> p" using False that sz(2) of_nat_eq_32 [of q p] by auto
    then show ?thesis using rem [OF that] False hs [OF that, of i] i(2) by auto
  qed
  have a: "\<forall>q<length ?cs. \<forall>h\<in>set (remaining (?cs ! q)).
      unat h < length ?os \<and> ow_location (?os ! unat h) = InPayload (of_nat q) \<and> unat (ow_control (?os ! unat h)) < q"
  proof (intro allI impI ballI)
    fix q h
    assume q: "q < length ?cs" and "h \<in> set (remaining (?cs ! q))"
    then have "h \<in> set (remaining (controls ! q))" "h \<noteq> i" using sub [of q] by auto
    then show "unat h < length ?os \<and> ow_location (?os ! unat h) = InPayload (of_nat q) \<and> unat (ow_control (?os ! unat h)) < q"
      using hs [of q h] q by (simp add: nth_list_update word_unat_eq_iff)
  qed
  have b: "\<forall>k<length ?os. \<forall>q. ow_location (?os ! k) = InPayload q \<longrightarrow>
      unat q < length ?cs \<and> of_nat k \<in> set (remaining (?cs ! unat q))"
  proof (intro allI impI)
    fix k q
    assume k: "k < length ?os" and l: "ow_location (?os ! k) = InPayload q"
    then have ne: "k \<noteq> unat i" by (auto simp: nth_list_update)
    then have l': "ow_location (owners ! k) = InPayload q" using l by simp
    have q: "unat q < length controls" "of_nat k \<in> set (remaining (controls ! unat q))"
      using pl k l' by (auto simp: places_ok_def)
    have "(of_nat k :: u32) \<noteq> i" using ne k sz(1) of_nat_eq_32 [of k i] by auto
    then show "unat q < length ?cs \<and> of_nat k \<in> set (remaining (?cs ! unat q))"
      using q rp rem [OF q(1)] by auto
  qed
  have c: "\<forall>q<length ?cs. distinct (remaining (?cs ! q))"
    using rem dist dist [OF p] rp by auto
  have e: "\<forall>q<length ?cs. strong_count (ctl_state (?cs ! q)) = 0 \<and> \<not> pending_last_strong (ctl_state (?cs ! q)) \<longrightarrow>
      remaining (?cs ! q) = []"
  proof (intro allI impI)
    fix q
    assume q: "q < length ?cs" "strong_count (ctl_state (?cs ! q)) = 0 \<and> \<not> pending_last_strong (ctl_state (?cs ! q))"
    then have "remaining (controls ! q) = []" using pl st [of q] by (auto simp: places_ok_def)
    then show "remaining (?cs ! q) = []" using rem [of q] q(1) rp by auto
  qed
  show ?thesis using a b c e sz by (simp add: places_ok_def)
qed

section \<open>Ordered maps as sets\<close>

lemma bt_set_remove: "bt_wf m \<Longrightarrow> x \<in> set (bt_remove k m) \<longleftrightarrow> x \<in> set m \<and> fst x \<noteq> k"
  using bt.entries_get [of m] bt.entries_get [of "bt_remove k m"]
  by (cases x) (auto simp: bt_wf_remove bt_get_remove)

lemma bt_set_insert: "bt_wf m \<Longrightarrow> x \<in> set (bt_insert k v m) \<longleftrightarrow> x = (k, v) \<or> x \<in> set m \<and> fst x \<noteq> k"
  using bt.entries_get [of m] bt.entries_get [of "bt_insert k v m"]
  by (cases x) (auto simp: bt_wf_insert)

lemma range_back_spec:
  assumes wf: "bt_wf xs" and x: "x \<in> set xs" "fst x \<le> b"
  shows "\<exists>y. range_back xs b = Some y \<and> y \<in> set xs \<and> fst x \<le> fst y \<and> fst y \<le> b"
proof -
  let ?ys = "filter (\<lambda>(k, _). k \<le> b) xs"
  have x': "x \<in> set ?ys" using x by (auto simp: case_prod_beta)
  then have ne: "?ys \<noteq> []" by (metis empty_iff empty_set)
  have "sorted (map fst xs)" using wf by (simp add: bt_wf_def strict_sorted_iff)
  then have s: "sorted (map fst ?ys)" by (rule sorted_filter)
  have "fst x \<in> set (map fst ?ys)" unfolding set_map using x' by (rule imageI)
  then have "fst x \<le> last (map fst ?ys)" by (rule sorted_le_last [OF s])
  moreover have "last (map fst ?ys) = fst (last ?ys)" using ne by (simp add: last_map)
  moreover have "last ?ys \<in> set ?ys" using ne by (rule last_in_set)
  ultimately show ?thesis using ne by (auto simp: range_back_def Let_def case_prod_beta)
qed

lemma range_next_spec:
  assumes "bt_wf xs" and "x \<in> set xs" and "b \<le> fst x"
  shows "\<exists>y. range_next xs b = Some y \<and> y \<in> set xs \<and> b \<le> fst y \<and> fst y \<le> fst x"
  using assms
proof (induction xs)
  case (Cons z xs)
  show ?case
  proof (cases "b \<le> fst z")
    case True
    then have "range_next (z # xs) b = Some z" by (auto simp: range_next_def case_prod_beta)
    moreover have "fst z \<le> fst x" using Cons.prems by (auto simp: bt_wf_def)
    ultimately show ?thesis using True by auto
  next
    case False
    then have "range_next (z # xs) b = range_next xs b" "x \<in> set xs" "bt_wf xs"
      using Cons.prems by (auto simp: range_next_def case_prod_beta bt_wf_def)
    then show ?thesis using Cons by auto
  qed
qed simp

section \<open>State changes\<close>

lemma places_ok_commit:
  assumes pl: "places_ok controls owners" and c: "c < length controls"
    and live: "strong_count a = 0 \<Longrightarrow> \<not> pending_last_strong a \<Longrightarrow> remaining (controls ! c) = []"
    and new: "\<forall>x\<in>set fresh. ow_location x = External" and len: "length (owners @ fresh) \<le> 2 ^ 32"
  shows "places_ok (controls[c := (controls ! c)\<lparr>ctl_state := a\<rparr>]) (owners @ fresh)"
proof -
  let ?cs = "controls[c := (controls ! c)\<lparr>ctl_state := a\<rparr>]"
  have rem: "remaining (?cs ! q) = remaining (controls ! q)" if "q < length controls" for q
    using that c by (auto simp: nth_list_update remaining_def)
  have st: "ctl_state (?cs ! q) = (if q = c then a else ctl_state (controls ! q))" if "q < length controls" for q
    using that c by (auto simp: nth_list_update)
  have app: "(owners @ fresh) ! k = owners ! k" if "k < length owners" for k using that by (simp add: nth_append)
  have ext: "ow_location ((owners @ fresh) ! k) = External" if "k < length (owners @ fresh)" "\<not> k < length owners" for k
  proof -
    have "fresh ! (k - length owners) \<in> set fresh" using that by simp
    then show ?thesis using that new by (simp add: nth_append)
  qed
  have "\<forall>k<length (owners @ fresh). \<forall>p. ow_location ((owners @ fresh) ! k) = InPayload p \<longrightarrow>
      unat p < length ?cs \<and> of_nat k \<in> set (remaining (?cs ! unat p))"
  proof (intro allI impI)
    fix k p
    assume k: "k < length (owners @ fresh)" and l: "ow_location ((owners @ fresh) ! k) = InPayload p"
    then have k': "k < length owners" using ext [OF k] by fastforce
    then have "unat p < length controls \<and> of_nat k \<in> set (remaining (controls ! unat p))"
      using pl l app [OF k'] unfolding places_ok_def by metis
    then show "unat p < length ?cs \<and> of_nat k \<in> set (remaining (?cs ! unat p))" using rem by simp
  qed
  moreover have "\<forall>q<length ?cs. \<forall>h\<in>set (remaining (?cs ! q)).
      unat h < length (owners @ fresh) \<and> ow_location ((owners @ fresh) ! unat h) = InPayload (of_nat q) \<and>
      unat (ow_control ((owners @ fresh) ! unat h)) < q"
    using pl rem app by (fastforce simp: places_ok_def)
  moreover have "\<forall>q<length ?cs. strong_count (ctl_state (?cs ! q)) = 0 \<and> \<not> pending_last_strong (ctl_state (?cs ! q)) \<longrightarrow>
      remaining (?cs ! q) = []"
  proof (intro allI impI)
    fix q
    assume q: "q < length ?cs" "strong_count (ctl_state (?cs ! q)) = 0 \<and> \<not> pending_last_strong (ctl_state (?cs ! q))"
    then have "remaining (controls ! q) = []"
      using st [of q] live pl unfolding places_ok_def by (cases "q = c") auto
    then show "remaining (?cs ! q) = []" using rem [of q] q(1) by simp
  qed
  moreover have "\<forall>q<length ?cs. distinct (remaining (?cs ! q))" using pl rem by (auto simp: places_ok_def)
  moreover have "length ?cs \<le> 2 ^ 32" using pl by (simp add: places_ok_def)
  ultimately show ?thesis using len unfolding places_ok_def by blast
qed

lemma pending_ok_commit:
  assumes pd: "pending_ok controls pending" and c: "unat c < length controls" and sz: "length controls \<le> 2 ^ 32"
    and np: "\<not> pending_last_strong (ctl_state (controls ! unat c))"
  shows "pending_ok (controls[unat c := (controls ! unat c)\<lparr>ctl_state := a\<rparr>])
    ((if pending_last_strong a then [c] else []) @ pending)"
proof -
  have c': "of_nat q = c \<longleftrightarrow> q = unat c" if "q < length controls" for q
    using of_nat_eq_32 [of q c] that sz by simp
  have "c \<notin> set pending" using pd c np c' [OF c] by (auto simp: pending_ok_def)
  then show ?thesis using pd c c' by (auto simp: pending_ok_def nth_list_update)
qed

lemma pending_ok_finish:
  assumes pd: "pending_ok controls (p # pending)" and sz: "length controls \<le> 2 ^ 32" and a: "\<not> pending_last_strong a"
  shows "pending_ok (controls[unat p := (controls ! unat p)\<lparr>ctl_state := a\<rparr>]) pending"
proof -
  have c': "of_nat q = p \<longleftrightarrow> q = unat p" if "q < length controls" for q
    using of_nat_eq_32 [of q p] that sz by simp
  show ?thesis using pd a c' by (auto simp: pending_ok_def nth_list_update)
qed

lemma intervals_ok_commit:
  assumes iv: "intervals_ok controls ivs" and c: "c < length controls" and al: "allocated (ctl_state (controls ! c))"
  shows "intervals_ok (controls[c := (controls ! c)\<lparr>ctl_state := a\<rparr>])
    (if allocated a then ivs else bt_remove (ctl_base (controls ! c)) ivs)"
proof (cases "allocated a")
  case True
  then show ?thesis
    using intervals_ok_states [OF iv, of "controls[c := (controls ! c)\<lparr>ctl_state := a\<rparr>]"] al c
    by (auto simp: nth_list_update)
next
  case False
  let ?cs = "controls[c := (controls ! c)\<lparr>ctl_state := a\<rparr>]"
  let ?A = "{q. q < length controls \<and> allocated (ctl_state (controls ! q))}"
  have wf: "bt_wf ivs" and b: "bij_betw (\<lambda>q. ctl_base (controls ! q)) ?A (fst ` set ivs)"
    using iv by (simp_all add: intervals_ok_def)
  have A: "{q. q < length ?cs \<and> allocated (ctl_state (?cs ! q))} = ?A - {c}"
    using False c by (auto simp: nth_list_update split: if_splits)
  have R: "fst ` set (bt_remove (ctl_base (controls ! c)) ivs) = fst ` set ivs - {ctl_base (controls ! c)}"
    using bt_set_remove [OF wf] by (auto simp: image_iff)
  have "bij_betw (\<lambda>q. ctl_base (controls ! q)) (?A - {c}) (fst ` set ivs - {ctl_base (controls ! c)})"
    using bij_betw_DiffI [OF b, of "{c}" "{ctl_base (controls ! c)}"] bij_betw_apply [OF b, of c] al c by auto
  then have "bij_betw (\<lambda>q. ctl_base (?cs ! q)) (?A - {c}) (fst ` set ivs - {ctl_base (controls ! c)})"
    by (subst bij_betw_cong [where g = "\<lambda>q. ctl_base (controls ! q)"]) (auto simp: nth_list_update)
  then show ?thesis using iv False A R bt_set_remove [OF wf] bt_wf_remove [OF wf]
    by (auto simp: intervals_ok_def)
qed

section \<open>Every event keeps the invariant\<close>

lemma next_drop_Inr:
  assumes "next_drop m i d = Inr m'"
  shows "\<exists>rest. cm_pending m = i # rest" "unat i < length (cm_controls m)"
    "get_at (ctl_drops (cm_controls m ! unat i)) (ctl_next (cm_controls m ! unat i)) = Some d"
    "m' = m\<lparr>cm_controls := (cm_controls m)[unat i :=
       (cm_controls m ! unat i)\<lparr>ctl_next := Suc (ctl_next (cm_controls m ! unat i))\<rparr>]\<rparr>"
  using assms by (auto simp: next_drop_def result_simps split: if_splits list.splits)

lemma advance_states:
  assumes "i < length controls"
  shows "\<forall>c<length controls. ctl_state (controls[i := (controls ! i)\<lparr>ctl_next := n\<rparr>] ! c) = ctl_state (controls ! c)"
    "\<forall>c<length controls. ctl_base (controls[i := (controls ! i)\<lparr>ctl_next := n\<rparr>] ! c) = ctl_base (controls ! c)"
  using assms by (auto simp: nth_list_update)

lemma model_inv_advance:
  assumes "model_inv m" and "i < length (cm_controls m)"
    and "places_ok ((cm_controls m)[i := (cm_controls m ! i)\<lparr>ctl_next := n\<rparr>]) (cm_owners m)"
  shows "model_inv (m\<lparr>cm_controls := (cm_controls m)[i := (cm_controls m ! i)\<lparr>ctl_next := n\<rparr>]\<rparr>)"
proof -
  note st = advance_states [OF assms(2), of n]
  show ?thesis
    using assms(1,3) st counts_ok_states [OF _ length_list_update st(1)]
      pending_ok_states [OF _ length_list_update st(1)] intervals_ok_states [OF _ length_list_update]
    by (simp add: model_inv_def)
qed

lemma next_drop_node_inv:
  assumes inv: "model_inv m" and nd: "next_drop m i (DropNode n) = Inr m'"
  shows "model_inv m'"
  using model_inv_advance [OF inv next_drop_Inr(2) [OF nd]] places_ok_advance_node [OF _ next_drop_Inr(2,3) [OF nd]]
    inv next_drop_Inr(4) [OF nd] by (simp add: model_inv_def)

lemma counts_ok_commit:
  assumes k: "counts_ok controls owners" and c: "c < length controls" and v: "valid_control_state a"
    and a: "count_ok a (owner_count False owners' c) (owner_count True owners' c)"
    and other: "\<And>w q. q \<noteq> c \<Longrightarrow> owner_count w owners' q = owner_count w owners q"
    and rng: "\<forall>x\<in>set owners'. unat (ow_control x) < length controls"
  shows "counts_ok (controls[c := (controls ! c)\<lparr>ctl_state := a\<rparr>]) owners'"
  using assms by (auto simp: counts_ok_def nth_list_update)

lemma finish_control_inv:
  assumes inv: "model_inv m" and fin: "finish_control m i after = Inr m'"
  shows "model_inv m'"
proof -
  let ?c = "cm_controls m ! unat i"
  obtain rest where p: "cm_pending m = i # rest" and i: "unat i < length (cm_controls m)"
    and nx: "ctl_next ?c = length (ctl_drops ?c)"
    and v: "validate_control_transition StrongReleaseFinish ((ctl_state ?c)\<lparr>payload_initialized := False\<rparr>) StatusOk None after"
    and m': "m' = m\<lparr>cm_controls := (cm_controls m)[unat i := ?c\<lparr>ctl_state := after\<rparr>], cm_pending := rest,
      cm_intervals := (if allocated after then cm_intervals m else bt_remove (ctl_base ?c) (cm_intervals m))\<rparr>"
    using fin by (auto simp: finish_control_def result_simps validate_transition_control split: list.splits if_splits)
  note e = validate_finish_effect [OF v]
  have parts: "counts_ok (cm_controls m) (cm_owners m)" "places_ok (cm_controls m) (cm_owners m)"
    "pending_ok (cm_controls m) (i # rest)" "intervals_ok (cm_controls m) (cm_intervals m)"
    using inv p by (simp_all add: model_inv_def)
  have sz: "length (cm_controls m) \<le> 2 ^ 32" using parts(2) by (simp add: places_ok_def)
  have b: "valid_control_state (ctl_state ?c)"
    "count_ok (ctl_state ?c) (owner_count False (cm_owners m) (unat i)) (owner_count True (cm_owners m) (unat i))"
    using parts(1) i by (auto simp: counts_ok_def)
  have al: "allocated (ctl_state ?c)" using b(1) e by (auto simp: valid_control_state_def split: if_splits)
  have after: "strong_count after = 0" "\<not> pending_last_strong after" "weak_count after = weak_count (ctl_state ?c) - 1"
    and wk: "0 < weak_count (ctl_state ?c)" "strong_count (ctl_state ?c) = 0" "pending_last_strong (ctl_state ?c)"
    using e by simp_all
  have cnt: "count_ok after (owner_count False (cm_owners m) (unat i)) (owner_count True (cm_owners m) (unat i))"
    using b(2) after wk unat_dec [OF wk(1)] by (simp add: count_ok_def)
  have "remaining ?c = []" using nx by (simp add: remaining_def)
  then have "places_ok ((cm_controls m)[unat i := ?c\<lparr>ctl_state := after\<rparr>]) (cm_owners m)"
    using places_ok_commit [OF parts(2) i, of after "[]"] parts(2) by (simp add: places_ok_def)
  moreover have "counts_ok ((cm_controls m)[unat i := ?c\<lparr>ctl_state := after\<rparr>]) (cm_owners m)"
    by (rule counts_ok_commit [OF parts(1) i validate_control_valid(2) [OF v] cnt])
      (use parts(1) in \<open>auto simp: counts_ok_def\<close>)
  ultimately show ?thesis
    using pending_ok_finish [OF parts(3) sz after(2)] intervals_ok_commit [OF parts(4) i al, of after]
    by (simp add: m' model_inv_def)
qed

lemma handle_release_Inr:
  assumes inv: "model_inv m" and rel: "handle_release m op i owner st = Inr m1" "is_release op"
    and ow: "unat i < length (cm_owners m)" "owner = cm_owners m ! unat i"
    and av: "ow_location owner \<noteq> Dropped"
  shows "st = StatusOk" "\<exists>controls. m1 = m\<lparr>cm_controls := controls,
        cm_owners := (cm_owners m)[unat i := owner\<lparr>ow_location := Dropped\<rparr>]\<rparr> \<and>
      length controls = length (cm_controls m) \<and>
      (\<forall>c<length controls. ctl_state (controls ! c) = ctl_state (cm_controls m ! c) \<and>
         ctl_base (controls ! c) = ctl_base (cm_controls m ! c)) \<and>
      places_ok controls ((cm_owners m)[unat i := owner\<lparr>ow_location := Dropped\<rparr>])"
proof -
  have pl: "places_ok (cm_controls m) (cm_owners m)" using inv by (simp add: model_inv_def)
  show "st = StatusOk" using rel by (auto simp: handle_release_def split: if_splits)
  show "\<exists>controls. m1 = m\<lparr>cm_controls := controls,
        cm_owners := (cm_owners m)[unat i := owner\<lparr>ow_location := Dropped\<rparr>]\<rparr> \<and>
      length controls = length (cm_controls m) \<and>
      (\<forall>c<length controls. ctl_state (controls ! c) = ctl_state (cm_controls m ! c) \<and>
         ctl_base (controls ! c) = ctl_base (cm_controls m ! c)) \<and>
      places_ok controls ((cm_owners m)[unat i := owner\<lparr>ow_location := Dropped\<rparr>])"
  proof (cases "ow_location owner")
    case External
    then have "m1 = m\<lparr>cm_owners := (cm_owners m)[unat i := owner\<lparr>ow_location := Dropped\<rparr>]\<rparr>"
      using rel by (auto simp: handle_release_def split: if_splits)
    then show ?thesis using places_ok_drop_external [OF pl ow(1)] External ow(2)
      by (intro exI [of _ "cm_controls m"]) simp
  next
    case (InPayload p)
    then obtain m0 where nd: "next_drop m p (DropHandle i) = Inr m0"
      and m1: "m1 = m0\<lparr>cm_owners := (cm_owners m0)[unat i := owner\<lparr>ow_location := Dropped\<rparr>]\<rparr>"
      using rel by (auto simp: handle_release_def result_simps split: if_splits)
    note d = next_drop_Inr [OF nd]
    show ?thesis
      using places_ok_drop_payload [OF pl ow(1), of p] InPayload ow(2) d advance_states [OF d(2)] m1
      by (intro exI [of _ "(cm_controls m)[unat p :=
        (cm_controls m ! unat p)\<lparr>ctl_next := Suc (ctl_next (cm_controls m ! unat p))\<rparr>]"]) simp
  qed (use av in simp)
qed

lemma handle_Inr:
  assumes "handle m op i st result boolean after = Inr m'"
  defines "owner \<equiv> cm_owners m ! unat i"
  defines "b \<equiv> ctl_state (cm_controls m ! unat (ow_control owner))"
  defines "issues \<equiv> \<not> is_release op \<and> st = StatusOk"
  shows "unat i < length (cm_owners m)" "ow_location owner \<noteq> Dropped" "is_handle_operation op"
    "ow_weak owner = is_weak_operation op" "unat (ow_control owner) < length (cm_controls m)"
    "\<not> pending_last_strong b" "allocated b" "handle_effect op b st after" "valid_control_state after"
    "issues \<Longrightarrow> length (cm_owners m) < 2 ^ 32"
    "\<exists>m1. handle_release m op i owner st = Inr m1 \<and> handle_commit m1 op owner issues after = Inr m'"
proof -
  have o: "unat i < length (cm_owners m)" "get_at (cm_owners m) (unat i) = Some owner"
    using assms(1) by (auto simp: handle_def result_simps owner_def)
  note h = assms(1) [unfolded handle_def o(2) ok_or_simps try_bind_simps]
  have av: "handle_available m op (ow_location owner) = Inr ()"
    using h by (auto simp: result_simps)
  note h = h [unfolded av try_bind_simps]
  have wk: "is_weak_operation op = ow_weak owner" "is_handle_operation op" using h by (auto split: if_splits)
  have c: "unat (ow_control owner) < length (cm_controls m)"
    "get_at (cm_controls m) (unat (ow_control owner)) = Some (cm_controls m ! unat (ow_control owner))"
    using h wk by (auto simp: result_simps)
  note h = h [unfolded c(2) ok_or_simps try_bind_simps Let_def, folded b_def]
  have b: "\<not> pending_last_strong b" "allocated b" "st \<noteq> StatusAbiViolation" using h wk by (auto split: if_splits)
  have v: "validate_control_transition op b st boolean after"
    and r: "issues \<Longrightarrow> length (cm_owners m) < 2 ^ 32"
    "\<exists>m1. handle_release m op i owner st = Inr m1 \<and> handle_commit m1 op owner issues after = Inr m'"
    using h wk b
    by (auto simp: result_simps validate_transition_control issues_def next_owner_def u32_try_from_def split: if_splits)
  show "unat i < length (cm_owners m)" "is_handle_operation op" "ow_weak owner = is_weak_operation op"
    "unat (ow_control owner) < length (cm_controls m)" "\<not> pending_last_strong b" "allocated b"
    "issues \<Longrightarrow> length (cm_owners m) < 2 ^ 32"
    "\<exists>m1. handle_release m op i owner st = Inr m1 \<and> handle_commit m1 op owner issues after = Inr m'"
    using o wk c b r by auto
  show "ow_location owner \<noteq> Dropped" using av by (auto simp: handle_available_def)
  show "handle_effect op b st after" by (rule validate_handle_effect [OF v b(1,2,3) wk(2)])
  show "valid_control_state after" by (rule validate_control_valid(2) [OF v])
qed

lemma handle_commit_Inr:
  "handle_commit m op owner issues a = Inr m' \<longleftrightarrow>
    unat (ow_control owner) < length (cm_controls m) \<and>
    m' = m\<lparr>cm_controls := (cm_controls m)[unat (ow_control owner) :=
             (cm_controls m ! unat (ow_control owner))\<lparr>ctl_state := a\<rparr>],
       cm_owners := cm_owners m @ (if issues then [\<lparr>ow_control = ow_control owner,
          ow_weak = (op = WeakClone \<or> op = WeakDowngrade), ow_location = External\<rparr>] else []),
       cm_pending := (if pending_last_strong a then [ow_control owner] else []) @ cm_pending m,
       cm_intervals := (if allocated a then cm_intervals m
         else bt_remove (ctl_base (cm_controls m ! unat (ow_control owner))) (cm_intervals m))\<rparr>"
  by (auto simp: handle_commit_def result_simps)

lemma handle_counts:
  assumes k: "counts_ok controls owners" and i: "i < length owners" "ow_location (owners ! i) \<noteq> Dropped"
    and c: "c = unat (ow_control (owners ! i))" "c < length controls"
    and op: "is_handle_operation op" "ow_weak (owners ! i) = is_weak_operation op"
    and e: "handle_effect op (ctl_state (controls ! c)) st a" "\<not> pending_last_strong (ctl_state (controls ! c))"
    and ow: "owners' = (if is_release op then owners[i := (owners ! i)\<lparr>ow_location := Dropped\<rparr>] else owners) @
      (if \<not> is_release op \<and> st = StatusOk then [\<lparr>ow_control = ow_control (owners ! i),
         ow_weak = (op = WeakClone \<or> op = WeakDowngrade), ow_location = External\<rparr>] else [])"
  shows "count_ok a (owner_count False owners' c) (owner_count True owners' c)"
    "\<And>w q. q \<noteq> c \<Longrightarrow> owner_count w owners' q = owner_count w owners q"
    "\<forall>x\<in>set owners'. unat (ow_control x) < length controls"
proof -
  let ?b = "ctl_state (controls ! c)"
  have cb: "count_ok ?b (owner_count False owners c) (owner_count True owners c)"
    using k c(2) by (auto simp: counts_ok_def)
  have own: "owns w c (owners ! i) \<longleftrightarrow> w = is_weak_operation op" for w
    using i(2) c(1) op(2) by (auto simp: owns_def)
  have pos: "0 < owner_count (is_weak_operation op) owners c" using owner_count_pos [OF i(1)] own by blast
  have rel: "is_release op \<Longrightarrow> st = StatusOk" using e(1) by (auto simp: handle_effect_def split: if_splits)
  have cnt: "(owner_count False owners' c, owner_count True owners' c) =
      (if st = StatusOk then counts_after op (owner_count False owners c) (owner_count True owners c)
       else (owner_count False owners c, owner_count True owners c))"
    using op(1) own rel c(1) unfolding ow is_handle_operation_def
    by (elim disjE) (auto simp: is_release_def owner_count_drop [OF i] counts_after_def owns_def is_weak_operation_def)
  show "count_ok a (owner_count False owners' c) (owner_count True owners' c)"
  proof (cases "st = StatusOk")
    case True
    have "op = WeakRelease \<Longrightarrow> 0 < owner_count True owners c" using pos by (simp add: is_weak_operation_def)
    from handle_effect_counts [OF e(1) [unfolded True] cb e(2) op(1) this] cnt True
    show ?thesis by (metis fst_conv snd_conv)
  next
    case False
    then show ?thesis using e(1) cb cnt by (simp add: handle_effect_def)
  qed
  show "owner_count w owners' q = owner_count w owners q" if "q \<noteq> c" for w q
    using that c(1) by (auto simp: ow owner_count_drop [OF i] owns_def)
  show "\<forall>x\<in>set owners'. unat (ow_control x) < length controls"
    using k c i(1) by (auto simp: ow counts_ok_def dest!: subsetD [OF set_update_subset_insert])
qed

lemma handle_inv:
  assumes inv: "model_inv m" and h: "handle m op i st result boolean after = Inr m'"
  shows "model_inv m'"
proof -
  let ?o = "cm_owners m ! unat i" and ?issues = "\<not> is_release op \<and> st = StatusOk"
  let ?c = "unat (ow_control (cm_owners m ! unat i))"
  let ?b = "ctl_state (cm_controls m ! ?c)"
  let ?fresh = "if ?issues then [\<lparr>ow_control = ow_control ?o, ow_weak = (op = WeakClone \<or> op = WeakDowngrade),
      ow_location = External\<rparr>] else []"
  note f = handle_Inr [OF h]
  have parts: "counts_ok (cm_controls m) (cm_owners m)" "places_ok (cm_controls m) (cm_owners m)"
    "pending_ok (cm_controls m) (cm_pending m)" "intervals_ok (cm_controls m) (cm_intervals m)"
    using inv by (simp_all add: model_inv_def)
  have sz: "length (cm_controls m) \<le> 2 ^ 32" "length (cm_owners m) \<le> 2 ^ 32" using parts(2) by (simp_all add: places_ok_def)
  obtain m1 where m1: "handle_release m op i ?o st = Inr m1" "handle_commit m1 op ?o ?issues after = Inr m'"
    using f(11) by blast
  let ?os = "if is_release op then (cm_owners m)[unat i := ?o\<lparr>ow_location := Dropped\<rparr>] else cm_owners m"
  obtain cs where cs: "m1 = m\<lparr>cm_controls := cs, cm_owners := ?os\<rparr>" "length cs = length (cm_controls m)"
    "\<forall>c<length cs. ctl_state (cs ! c) = ctl_state (cm_controls m ! c) \<and> ctl_base (cs ! c) = ctl_base (cm_controls m ! c)"
    "places_ok cs ?os"
  proof (cases "is_release op")
    case True
    then show thesis using handle_release_Inr(2) [OF inv m1(1) True f(1) refl f(2)] that by auto
  next
    case False
    then have "m1 = m" using m1(1) by (simp add: handle_release_def)
    then show thesis using that [of "cm_controls m"] False parts(2) by simp
  qed
  have c: "?c < length cs" using f(5) cs(2) by simp
  have st: "ctl_state (cs ! ?c) = ?b" using cs(3) c by simp
  have m': "m' = m\<lparr>cm_controls := cs[?c := (cs ! ?c)\<lparr>ctl_state := after\<rparr>], cm_owners := ?os @ ?fresh,
      cm_pending := (if pending_last_strong after then [ow_control ?o] else []) @ cm_pending m,
      cm_intervals := (if allocated after then cm_intervals m else bt_remove (ctl_base (cs ! ?c)) (cm_intervals m))\<rparr>"
    using m1(2) unfolding handle_commit_Inr cs(1) by simp
  have kc: "counts_ok cs (cm_owners m)" using counts_ok_states [OF parts(1) cs(2)] cs(2,3) by simp
  have "handle_effect op (ctl_state (cs ! ?c)) st after" using f(8) st by simp
  note hc = handle_counts [OF kc f(1,2) refl c f(3,4) this _ refl, unfolded st, OF f(6)]
  have "counts_ok (cs[?c := (cs ! ?c)\<lparr>ctl_state := after\<rparr>]) (?os @ ?fresh)"
    by (rule counts_ok_commit [OF kc c f(9) hc])
  moreover have "places_ok (cs[?c := (cs ! ?c)\<lparr>ctl_state := after\<rparr>]) (?os @ ?fresh)"
  proof (rule places_ok_commit [OF cs(4) c])
    show "length (?os @ ?fresh) \<le> 2 ^ 32" using sz(2) f(10) by auto
    assume z: "strong_count after = 0" "\<not> pending_last_strong after"
    have "strong_count ?b = 0"
      using f(8) z by (auto simp: handle_effect_def split: if_splits logical_operation.splits)
        (auto simp: word_unat_eq_iff unat_inc)
    then show "remaining (cs ! ?c) = []" using cs(4) c st f(6) unfolding places_ok_def by metis
  qed auto
  moreover have "pending_ok (cs[?c := (cs ! ?c)\<lparr>ctl_state := after\<rparr>])
      ((if pending_last_strong after then [ow_control ?o] else []) @ cm_pending m)"
    using pending_ok_commit [OF pending_ok_states [OF parts(3) cs(2)] c] cs(2,3) sz(1) f(6) st by simp
  moreover have "intervals_ok (cs[?c := (cs ! ?c)\<lparr>ctl_state := after\<rparr>])
      (if allocated after then cm_intervals m else bt_remove (ctl_base (cs ! ?c)) (cm_intervals m))"
    using intervals_ok_commit [OF intervals_ok_states [OF parts(4) cs(2)] c] cs(2,3) f(7) st by simp
  ultimately show ?thesis by (simp add: m' model_inv_def)
qed

lemma move_handles_Inr:
  assumes "move_handles owners i ds = Inr owners'"
  shows "length owners' = length owners \<and> (\<forall>h\<in>set (drop_handles ds). unat h < length owners) \<and>
    (\<forall>k<length owners. owners' ! k =
       (if \<exists>h\<in>set (drop_handles ds). unat h = k then (owners ! k)\<lparr>ow_location := InPayload i\<rparr> else owners ! k))"
  using assms
proof (induction owners i ds rule: move_handles.induct)
  case (3 owners i h ds)
  obtain owner where o: "get_at owners (unat h) = Some owner" using "3.prems" by (auto simp: result_simps)
  then have h: "unat h < length owners" "owner = owners ! unat h" by (auto simp: get_at_Some_iff)
  note IH = "3.IH" [OF _, of owner]
  have mv: "move_handles (owners[unat h := owner\<lparr>ow_location := InPayload i\<rparr>]) i ds = Inr owners'"
    using "3.prems" o by simp
  from "3.IH" [OF mv] show ?case using h by (auto simp: nth_list_update)
qed auto

lemma move_handles_counts:
  assumes "move_handles owners i ds = Inr owners'" and "\<forall>h\<in>set (drop_handles ds). ow_location (owners ! unat h) \<noteq> Dropped"
  shows "owner_count w owners' c = owner_count w owners c"
  using assms
proof (induction owners i ds rule: move_handles.induct)
  case (3 owners i h ds)
  obtain owner where o: "get_at owners (unat h) = Some owner" using "3.prems"(1) by (auto simp: result_simps)
  then have h: "unat h < length owners" "owner = owners ! unat h" by (auto simp: get_at_Some_iff)
  have mv: "move_handles (owners[unat h := owner\<lparr>ow_location := InPayload i\<rparr>]) i ds = Inr owners'"
    using "3.prems"(1) o by simp
  have "\<forall>k\<in>set (drop_handles ds). ow_location (owners[unat h := owner\<lparr>ow_location := InPayload i\<rparr>] ! unat k) \<noteq> Dropped"
    using "3.prems"(2) h by (auto simp: nth_list_update)
  from "3.IH" [OF mv this] show ?case
    using owner_count_move [OF h(1), of "InPayload i"] "3.prems"(2) h(2) by simp
qed auto

lemma move_handles_controls:
  assumes "move_handles owners i ds = Inr owners'" and "x \<in> set owners'"
  shows "\<exists>y\<in>set owners. ow_control x = ow_control y"
proof -
  obtain k where k: "k < length owners'" "x = owners' ! k" using assms(2) by (metis in_set_conv_nth)
  then have "k < length owners" "ow_control x = ow_control (owners ! k)"
    using move_handles_Inr [OF assms(1)] by auto
  then show ?thesis using nth_mem by blast
qed

lemma interval_fresh:
  assumes iv: "intervals_ok controls (cm_intervals m)" and ok: "\<not> interval_rejected m base sz alignment stop"
    and x: "x \<in> set (cm_intervals m)"
  shows "fst x < base \<and> snd x \<le> base \<or> base < fst x \<and> stop \<le> fst x"
proof (cases "fst x \<le> base")
  case True
  have wf: "bt_wf (cm_intervals m)" using iv by (simp add: intervals_ok_def)
  obtain y where y: "range_back (cm_intervals m) base = Some y" "y \<in> set (cm_intervals m)" "fst x \<le> fst y" "fst y \<le> base"
    using range_back_spec [OF wf x True] by blast
  have "snd y \<le> base" using ok y(1) by (cases y) (auto simp: interval_rejected_def not_less)
  moreover have "snd x \<le> fst y \<or> x = y"
  proof (cases "fst x = fst y")
    case True
    then have "x = y" using x y(2) wf bt.entries_get [OF wf] by (metis option.inject prod.collapse)
    then show ?thesis ..
  next
    case False
    then have "fst x < fst y" using y(3) by simp
    then show ?thesis using iv x y(2) by (auto simp: intervals_ok_def)
  qed
  moreover have "fst x < snd x" using iv x by (simp add: intervals_ok_def)
  ultimately show ?thesis using y(4) by auto
next
  case False
  have wf: "bt_wf (cm_intervals m)" using iv by (simp add: intervals_ok_def)
  have "base \<le> fst x" using False by simp
  then obtain y where "range_next (cm_intervals m) base = Some y" "fst y \<le> fst x" using range_next_spec [OF wf x] by blast
  moreover from this(1) have "stop \<le> fst y" using ok by (cases y) (auto simp: interval_rejected_def not_less)
  ultimately show ?thesis using False by auto
qed

lemma intervals_ok_publish:
  assumes iv: "intervals_ok controls (cm_intervals m)" and ok: "\<not> interval_rejected m base sz alignment stop"
    and add: "checked_add base sz = Some stop" and c: "ctl_base c = base" "allocated (ctl_state c)"
  shows "intervals_ok (controls @ [c]) (bt_insert base stop (cm_intervals m))"
proof -
  let ?ivs = "cm_intervals m"
  let ?A = "{q. q < length controls \<and> allocated (ctl_state (controls ! q))}"
  have wf: "bt_wf ?ivs" and b: "bij_betw (\<lambda>q. ctl_base (controls ! q)) ?A (fst ` set ?ivs)"
    using iv by (simp_all add: intervals_ok_def)
  note fr = interval_fresh [OF iv ok]
  have lt: "base < stop"
  proof -
    have "sz \<noteq> 0" using ok by (simp add: interval_rejected_def)
    then have "0 < unat sz" by (simp add: unat_gt_0)
    moreover have "unat stop = unat base + unat sz" using add by (simp add: checked_add_Some)
    ultimately show ?thesis by (simp add: word_less_nat_alt)
  qed
  have nb: "base \<notin> fst ` set ?ivs" using fr by fastforce
  have S: "x \<in> set (bt_insert base stop ?ivs) \<longleftrightarrow> x = (base, stop) \<or> x \<in> set ?ivs" for x
    using bt_set_insert [OF wf] nb by fastforce
  have E: "set (bt_insert base stop ?ivs) = insert (base, stop) (set ?ivs)" using S by blast
  have A: "{q. q < length (controls @ [c]) \<and> allocated (ctl_state ((controls @ [c]) ! q))} = insert (length controls) ?A"
    using c(2) by (auto simp: nth_append less_Suc_eq)
  have "bij_betw (\<lambda>q. ctl_base ((controls @ [c]) ! q)) ?A (fst ` set ?ivs)"
    using b by (subst bij_betw_cong [where g = "\<lambda>q. ctl_base (controls ! q)"]) (auto simp: nth_append)
  then have "bij_betw (\<lambda>q. ctl_base ((controls @ [c]) ! q)) (?A \<union> {length controls}) (fst ` set ?ivs \<union> {base})"
    by (rule notIn_Un_bij_betw [rotated 2, where f = "\<lambda>q. ctl_base ((controls @ [c]) ! q)" and b = "length controls",
        simplified nth_append_length c(1)]) (use nb in auto)
  moreover have "fst ` set (bt_insert base stop ?ivs) = fst ` set ?ivs \<union> {base}" using S by (force simp: image_iff)
  ultimately have "bij_betw (\<lambda>q. ctl_base ((controls @ [c]) ! q)) (insert (length controls) ?A)
      (fst ` set (bt_insert base stop ?ivs))" by simp
  moreover have "\<forall>x\<in>set (bt_insert base stop ?ivs). \<forall>y\<in>set (bt_insert base stop ?ivs). fst x < fst y \<longrightarrow> snd x \<le> fst y"
  proof (intro ballI impI)
    fix x y
    assume "x \<in> set (bt_insert base stop ?ivs)" "y \<in> set (bt_insert base stop ?ivs)" and l: "fst x < fst y"
    then consider "x \<in> set ?ivs" "y \<in> set ?ivs" | "x = (base, stop)" "y \<in> set ?ivs"
      | "x \<in> set ?ivs" "y = (base, stop)" using E by auto
    then show "snd x \<le> fst y"
    proof cases
      case 1
      then show ?thesis using iv l by (auto simp: intervals_ok_def)
    next
      case 2
      then show ?thesis using fr [of y] l by auto
    next
      case 3
      then show ?thesis using fr [of x] l by auto
    qed
  qed
  moreover have "\<forall>x\<in>set (bt_insert base stop ?ivs). fst x < snd x"
    using iv lt unfolding E by (auto simp: intervals_ok_def)
  ultimately show ?thesis unfolding intervals_ok_def A using bt_wf_insert [OF wf] by blast
qed

lemma pending_ok_publish:
  assumes "pending_ok controls pending" and "\<not> pending_last_strong (ctl_state c)" and "length controls < 2 ^ 32"
  shows "pending_ok (controls @ [c]) pending"
proof -
  have "of_nat (length controls) \<notin> set pending"
    using assms(1,3) unat_of_nat_32 [of "length controls"] by (auto simp: pending_ok_def)
  then show ?thesis using assms(1,2) by (auto simp: pending_ok_def nth_append less_Suc_eq)
qed

lemma places_ok_publish:
  assumes pl: "places_ok controls owners" and mv: "move_handles owners i drops = Inr owners'"
    and i: "u32_try_from (length controls) = Some i" and n: "length owners < 2 ^ 32"
    and hs: "distinct (drop_handles drops)" "\<forall>h\<in>set (drop_handles drops). ow_location (owners ! unat h) = External"
    and rng: "\<forall>x\<in>set owners. unat (ow_control x) < length controls"
    and c: "ctl_drops c = drops" "ctl_next c = 0" "0 < strong_count (ctl_state c)"
    and new: "ow_location fresh = External"
  shows "places_ok (controls @ [c]) (owners' @ [fresh])"
proof -
  let ?cs = "controls @ [c]" and ?os = "owners' @ [fresh]"
  have sz: "length controls < 2 ^ 32" "unat i = length controls" "i = of_nat (length controls)"
    using i by (auto simp: u32_try_from_def unat_of_nat_32 split: if_splits)
  have rem: "remaining (?cs ! q) = (if q = length controls then drop_handles drops else remaining (controls ! q))"
    if "q < length ?cs" for q using that c by (auto simp: nth_append remaining_def)
  note mh = move_handles_Inr [OF mv]
  have len: "length owners' = length owners" using mh by simp
  have same: "owners' ! k = (if \<exists>h\<in>set (drop_handles drops). unat h = k then (owners ! k)\<lparr>ow_location := InPayload i\<rparr> else owners ! k)"
    if "k < length owners" for k using mh that by blast
  have old: "unat h < length owners \<and> ow_location (owners ! unat h) = InPayload (of_nat q) \<and> unat (ow_control (owners ! unat h)) < q"
    if "q < length controls" "h \<in> set (remaining (controls ! q))" for q h using pl that unfolding places_ok_def by blast
  have a: "unat h < length ?os \<and> ow_location (?os ! unat h) = InPayload (of_nat q) \<and> unat (ow_control (?os ! unat h)) < q"
    if q: "q < length ?cs" and h: "h \<in> set (remaining (?cs ! q))" for q h
  proof (cases "q = length controls")
    case True
    then have h': "h \<in> set (drop_handles drops)" using h rem [OF q] by simp
    then have l: "unat h < length owners" using mh by blast
    then have "?os ! unat h = (owners ! unat h)\<lparr>ow_location := InPayload i\<rparr>" using same [OF l] h' len by (auto simp: nth_append)
    then show ?thesis using l len sz(3) True rng nth_mem [OF l] by simp
  next
    case False
    then have q': "q < length controls" and h': "h \<in> set (remaining (controls ! q))" using q h rem [OF q] by auto
    note o = old [OF q' h']
    have "\<not> (\<exists>k\<in>set (drop_handles drops). unat k = unat h)" using o hs(2) by fastforce
    then have "?os ! unat h = owners ! unat h" using same [of "unat h"] o len by (auto simp: nth_append)
    then show ?thesis using o len by simp
  qed
  have b: "unat p < length ?cs \<and> of_nat k \<in> set (remaining (?cs ! unat p))"
    if k: "k < length ?os" and l: "ow_location (?os ! k) = InPayload p" for k p
  proof -
    have k': "k < length owners" using k l new len by (cases "k = length owners") (auto simp: nth_append)
    then have e: "?os ! k = owners' ! k" using len by (simp add: nth_append)
    show ?thesis
    proof (cases "\<exists>h\<in>set (drop_handles drops). unat h = k")
      case True
      then obtain h where h: "h \<in> set (drop_handles drops)" "unat h = k" by blast
      have "p = i" using l e same [OF k'] True by simp
      then show ?thesis using h sz(2) rem [of "unat i"] by auto
    next
      case False
      then have "ow_location (owners ! k) = InPayload p" using l e same [OF k'] by simp
      then have "unat p < length controls \<and> of_nat k \<in> set (remaining (controls ! unat p))"
        using pl k' unfolding places_ok_def by blast
      then show ?thesis using rem [of "unat p"] by auto
    qed
  qed
  have d: "\<forall>q<length ?cs. distinct (remaining (?cs ! q))" using rem hs(1) pl by (auto simp: places_ok_def)
  have e: "\<forall>q<length ?cs. strong_count (ctl_state (?cs ! q)) = 0 \<and> \<not> pending_last_strong (ctl_state (?cs ! q)) \<longrightarrow>
      remaining (?cs ! q) = []"
    using rem pl c(3) by (auto simp: places_ok_def nth_append less_Suc_eq)
  have "length ?os \<le> 2 ^ 32" "length ?cs \<le> 2 ^ 32" using n sz(1) len by simp_all
  then show ?thesis using a b d e unfolding places_ok_def by blast
qed

lemma publish_inv:
  assumes inv: "model_inv m" and hs: "distinct (drop_handles drops)" "\<forall>h\<in>set (drop_handles drops). movable m h"
    and p: "publish m co drops = Inr m'"
  shows "model_inv m'"
proof -
  obtain stop i owners' where add: "checked_add (co_base co) (co_size co) = Some stop"
    and iv: "\<not> interval_rejected m (co_base co) (co_size co) (co_alignment co) stop"
    and i: "u32_try_from (length (cm_controls m)) = Some i" and n: "length (cm_owners m) < 2 ^ 32"
    and mv: "move_handles (cm_owners m) i drops = Inr owners'"
    and m': "m' = m\<lparr>cm_intervals := bt_insert (co_base co) stop (cm_intervals m),
      cm_controls := cm_controls m @ [\<lparr>ctl_payload = co_payload co, ctl_state = fresh_state, ctl_base = co_base co,
        ctl_drops = drops, ctl_next = 0\<rparr>],
      cm_owners := owners' @ [\<lparr>ow_control = i, ow_weak = False, ow_location = External\<rparr>]\<rparr>"
    using p by (auto simp: publish_def Let_def result_simps next_owner_def u32_try_from_def split: if_splits)
  let ?c = "\<lparr>ctl_payload = co_payload co, ctl_state = fresh_state, ctl_base = co_base co, ctl_drops = drops, ctl_next = 0\<rparr>"
  let ?o = "\<lparr>ow_control = i, ow_weak = False, ow_location = External\<rparr>"
  have parts: "counts_ok (cm_controls m) (cm_owners m)" "places_ok (cm_controls m) (cm_owners m)"
    "pending_ok (cm_controls m) (cm_pending m)" "intervals_ok (cm_controls m) (cm_intervals m)"
    using inv by (simp_all add: model_inv_def)
  have sz: "length (cm_controls m) < 2 ^ 32" "unat i = length (cm_controls m)"
    using i by (auto simp: u32_try_from_def unat_of_nat_32 split: if_splits)
  have rng: "\<forall>x\<in>set (cm_owners m). unat (ow_control x) < length (cm_controls m)"
    using parts(1) by (simp add: counts_ok_def)
  have ext: "\<forall>h\<in>set (drop_handles drops). ow_location (cm_owners m ! unat h) = External"
    using hs(2) by (simp add: movable_def)
  have cnt: "owner_count w owners' q = owner_count w (cm_owners m) q" for w q
    using move_handles_counts [OF mv] ext by simp
  have rng': "\<forall>x\<in>set owners'. unat (ow_control x) < length (cm_controls m)"
    using move_handles_controls [OF mv] rng by metis
  have "counts_ok (cm_controls m @ [?c]) (owners' @ [?o])"
    unfolding counts_ok_def
  proof (intro conjI allI impI)
    show "\<forall>owner\<in>set (owners' @ [?o]). unat (ow_control owner) < length (cm_controls m @ [?c])"
      using rng' sz(2) by auto
    fix q
    assume "q < length (cm_controls m @ [?c])"
    then consider "q < length (cm_controls m)" | "q = length (cm_controls m)" by fastforce
    then show "valid_control_state (ctl_state ((cm_controls m @ [?c]) ! q))"
      "count_ok (ctl_state ((cm_controls m @ [?c]) ! q)) (owner_count False (owners' @ [?o]) q) (owner_count True (owners' @ [?o]) q)"
      using parts(1) sz(2) cnt owner_count_fresh [OF rng]
      by (cases, auto simp: counts_ok_def nth_append owns_def fresh_state_def valid_control_state_def count_ok_def)
  qed
  moreover have "places_ok (cm_controls m @ [?c]) (owners' @ [?o])"
    by (rule places_ok_publish [OF parts(2) mv i n hs(1) ext rng]) (simp_all add: fresh_state_def)
  moreover have "pending_ok (cm_controls m @ [?c]) (cm_pending m)"
    by (rule pending_ok_publish [OF parts(3) _ sz(1)]) (simp add: fresh_state_def)
  moreover have "intervals_ok (cm_controls m @ [?c]) (bt_insert (co_base co) stop (cm_intervals m))"
    by (rule intervals_ok_publish [OF parts(4) iv add]) (simp_all add: fresh_state_def)
  ultimately show ?thesis by (simp add: m' model_inv_def)
qed

lemma model_inv_counters [simp]:
  "model_inv (m\<lparr>cm_nodes := n\<rparr>) = model_inv m" "model_inv (m\<lparr>cm_allocations := k\<rparr>) = model_inv m"
  by (simp_all add: model_inv_def)

lemma movable_counters [simp]:
  "movable (m\<lparr>cm_nodes := n\<rparr>) h = movable m h" "movable (m\<lparr>cm_allocations := k\<rparr>) h = movable m h"
  by (simp_all add: movable_def)

lemma construct_inv:
  assumes inv: "model_inv m" and c: "construct m co = Inr m'"
  shows "model_inv m'"
proof -
  obtain drops m0 n where p: "payload m (co_payload co) (co_nodes co) = Inr (drops, m0)"
    and r: "m' = m0\<lparr>cm_allocations := n\<rparr> \<or> publish (m0\<lparr>cm_allocations := n\<rparr>) co drops = Inr m'"
    using c by (auto simp: construct_def Let_def result_simps split: if_splits)
  note pf = payload_Inr [OF p]
  obtain k where m0: "m0 = m\<lparr>cm_nodes := k\<rparr>" using pf(1) by blast
  have "model_inv (m0\<lparr>cm_allocations := n\<rparr>)" "\<forall>h\<in>set (drop_handles drops). movable (m0\<lparr>cm_allocations := n\<rparr>) h"
    using inv pf(3) m0 by simp_all
  then show ?thesis using r publish_inv [OF _ pf(2)] by blast
qed

lemma replay_inv: "model_inv m \<Longrightarrow> replay m ev = Inr m' \<Longrightarrow> model_inv m'"
proof (cases ev)
  case (EvConstruct co)
  then show "model_inv m \<Longrightarrow> replay m ev = Inr m' \<Longrightarrow> ?thesis" using construct_inv by (simp add: replay_def)
next
  case (EvHandle op i st result boolean after)
  then show "model_inv m \<Longrightarrow> replay m ev = Inr m' \<Longrightarrow> ?thesis" using handle_inv by (simp add: replay_def)
next
  case (EvDropPayloadNode i n)
  then show "model_inv m \<Longrightarrow> replay m ev = Inr m' \<Longrightarrow> ?thesis" using next_drop_node_inv by (simp add: replay_def)
next
  case (EvFinish i after)
  then show "model_inv m \<Longrightarrow> replay m ev = Inr m' \<Longrightarrow> ?thesis" using finish_control_inv by (simp add: replay_def)
qed

lemma initial_model_inv: "model_inv (initial_model abi layouts)"
  by (simp add: initial_model_def model_inv_def counts_ok_def places_ok_def pending_ok_def intervals_ok_def bt_wf_def
      bij_betw_def)

interpretation trace: checked_run replay_at model_inv
  by unfold_locales (auto simp: replay_at_def replay_inv split: prod.splits if_splits)

section \<open>Traces never panic\<close>

lemma ok_or_Inl_iff: "ok_or x e = Inl e' \<longleftrightarrow> x = None \<and> e' = e"
  by (cases x) auto

lemma reject_if_Inl_iff: "reject_if b e = Inl e' \<longleftrightarrow> b \<and> e' = e"
  by (cases b) auto

lemma map_sum_eq_Inl_iff: "map_sum f g x = Inl y \<longleftrightarrow> (\<exists>z. x = Inl z \<and> y = f z)"
  by (cases x) auto

lemma trace_error_neq [simp]:
  "evidence s \<noteq> Panicked" "Panicked \<noteq> evidence s" "over_budget \<noteq> Panicked" "Panicked \<noteq> over_budget"
  by (simp_all add: evidence_def over_budget_def)

lemmas inl_iffs = try_bind_Inl_iff ok_or_Inl_iff reject_if_Inl_iff map_sum_eq_Inl_iff

lemma payload_edges_no_panic: "payload_edges nodes i es uses \<noteq> Inl Panicked"
  by (induction es arbitrary: uses) (auto simp: inl_iffs payload_edge_def split: if_splits)

lemma model_inv_ranges:
  assumes "model_inv m"
  shows "x \<in> set (cm_owners m) \<Longrightarrow> get_at (cm_controls m) (unat (ow_control x)) \<noteq> None"
    "p \<in> set (cm_pending m) \<Longrightarrow> get_at (cm_controls m) (unat p) \<noteq> None"
  using assms by (auto simp: model_inv_def counts_ok_def pending_ok_def get_at_def)

lemma payload_node_check_no_panic:
  assumes "model_inv m"
  shows "payload_node_check m nodes i node uses handles \<noteq> Inl Panicked"
proof -
  have h: "payload_handle m h cat r hs \<noteq> Inl Panicked" for h cat r hs
    using model_inv_ranges(1) [OF assms]
    by (auto simp: payload_handle_def inl_iffs result_simps split: if_splits)
  have e: "payload_edge nodes i ch t uses \<noteq> Inl Panicked" for ch t
    by (simp add: payload_edge_def)
  have s: "sequence_element l r n \<noteq> Inl Panicked" for l r n
    by (auto simp: sequence_element_def inl_iffs split: option.splits)
  show ?thesis
    using h e s payload_edges_no_panic
    by (auto simp: payload_node_check_def Let_def inl_iffs split: payload_kind.splits if_splits option.splits)
qed

lemma payload_scan_no_panic: "model_inv m \<Longrightarrow> payload_scan m nodes i rest uses handles \<noteq> Inl Panicked"
  by (induction rest arbitrary: i uses handles) (auto simp: inl_iffs payload_node_check_no_panic)

lemma payload_no_panic:
  assumes inv: "model_inv m" and len: "length nodes < 2 ^ 64"
  shows "payload m ty nodes \<noteq> Inl Panicked"
proof
  assume "payload m ty nodes = Inl Panicked"
  then obtain n uses handles where n: "checked_model_count (cm_nodes m) (of_nat (length nodes)) MAX_STATUS_TRANSITIONS = Inr n"
    and ne: "nodes \<noteq> []"
    and sc: "payload_scan (m\<lparr>cm_nodes := n\<rparr>) nodes 0 nodes (replicate (length nodes) False) [] = Inr (uses, handles)"
    and dr: "payload_drops (cm_layouts m) nodes [(length nodes - 1, False)] [] = None"
    using inv by (auto simp: payload_def Let_def inl_iffs payload_scan_no_panic checked_model_count_def split: if_splits)
  have "unat n \<le> 4194304" "unat n = unat (cm_nodes m) + length nodes"
    using n len by (auto simp: checked_model_count_def result_simps bind_eq_Some_conv checked_add_Some word_le_nat_alt
        MAX_STATUS_TRANSITIONS_def unat_of_nat take_bit_nat_def split: if_splits)
  moreover have "scan_inv (m\<lparr>cm_nodes := n\<rparr>) nodes (length nodes) uses handles"
    by (rule payload_scan_inv [OF _ sc]) (auto simp: scan_inv_def)
  then have "topology_ok (cm_layouts m) nodes" by (simp add: scan_inv_def topology_ok_def)
  moreover have "walk_inv nodes [(length nodes - 1, False)] {} []" using ne by (simp add: walk_inv_def Let_def)
  ultimately have "walk_result nodes None" "length nodes \<le> 4194304" using payload_drops_walk dr by (metis, simp)
  then show False by (simp add: walk_result_def)
qed

lemma move_handles_no_panic:
  "\<forall>h\<in>set (drop_handles ds). unat h < length owners \<Longrightarrow> move_handles owners i ds \<noteq> Inl Panicked"
  by (induction owners i ds rule: move_handles.induct) (auto simp: inl_iffs result_simps get_at_def)

lemma publish_no_panic:
  assumes "\<forall>h\<in>set (drop_handles drops). movable m h"
  shows "publish m co drops \<noteq> Inl Panicked"
  using assms move_handles_no_panic [of drops "cm_owners m"]
  by (auto simp: publish_def Let_def inl_iffs next_owner_def movable_def split: if_splits)

lemma construct_no_panic:
  assumes inv: "model_inv m" and len: "length (co_nodes co) < 2 ^ 64"
  shows "construct m co \<noteq> Inl Panicked"
proof
  assume "construct m co = Inl Panicked"
  then obtain drops m0 n where p: "payload m (co_payload co) (co_nodes co) = Inr (drops, m0)"
    and q: "publish (m0\<lparr>cm_allocations := n\<rparr>) co drops = Inl Panicked"
    using payload_no_panic [OF inv len]
    by (auto simp: construct_def Let_def inl_iffs require_publication_phase_def split: if_splits)
  note pf = payload_Inr [OF p]
  show False using q publish_no_panic [of drops "m0\<lparr>cm_allocations := n\<rparr>"] pf(1,3) by auto
qed

lemma next_drop_no_panic: "model_inv m \<Longrightarrow> next_drop m i d \<noteq> Inl Panicked"
  using model_inv_ranges(2) [of m i] by (auto simp: next_drop_def inl_iffs split: if_splits list.splits)

lemma finish_no_panic: "model_inv m \<Longrightarrow> finish_control m i after \<noteq> Inl Panicked"
  using model_inv_ranges(2) [of m i]
  by (auto simp: finish_control_def inl_iffs validate_transition_def transition_result_def split: if_splits list.splits)

lemma handle_no_panic:
  assumes inv: "model_inv m"
  shows "handle m op i st result boolean after \<noteq> Inl Panicked"
proof
  assume h: "handle m op i st result boolean after = Inl Panicked"
  then obtain owner where o: "get_at (cm_owners m) (unat i) = Some owner"
    by (auto simp: handle_def inl_iffs result_simps)
  have mem: "owner \<in> set (cm_owners m)" using o by (auto simp: get_at_Some_iff)
  obtain c where c: "get_at (cm_controls m) (unat (ow_control owner)) = Some c"
    using model_inv_ranges(1) [OF inv mem] by blast
  have av: "handle_available m op l \<noteq> Inl Panicked" for l
    by (auto simp: handle_available_def inl_iffs split: if_splits list.splits)
  have rel: "handle_release m op i owner st \<noteq> Inl Panicked"
    using next_drop_no_panic [OF inv] by (auto simp: handle_release_def inl_iffs split: if_splits owner_location.splits)
  have len: "length (cm_controls m1) = length (cm_controls m)" if "handle_release m op i owner st = Inr m1" for m1
    using that next_drop_Inr(4) by (force simp: handle_release_def result_simps split: if_splits owner_location.splits)
  have com: "handle_commit m1 op owner issues after \<noteq> Inl Panicked" if "handle_release m op i owner st = Inr m1" for m1 issues
    using c len [OF that] by (auto simp: handle_commit_def inl_iffs get_at_def split: if_splits)
  have val: "map_sum Rejected id (validate_transition cl) \<noteq> Inl Panicked" for cl
    by (auto simp: inl_iffs)
  note h = h [unfolded handle_def o c ok_or_simps try_bind_simps Let_def]
  show False
    using h av rel com val by (auto simp: inl_iffs next_owner_def split: if_splits)
qed

lemma replay_at_no_panic:
  "model_inv m \<Longrightarrow> representable (ev_kind (snd x)) \<Longrightarrow> replay_at m x \<noteq> Inl Panicked"
  by (cases x; cases "ev_kind (snd x)")
    (auto simp: replay_at_def replay_def representable_def construct_no_panic handle_no_panic next_drop_no_panic
      finish_no_panic)

lemma run_no_panic:
  "model_inv m \<Longrightarrow> \<forall>x\<in>set xs. representable (ev_kind (snd x)) \<Longrightarrow> run_steps replay_at m xs \<noteq> Inl Panicked"
proof (induction xs arbitrary: m)
  case (Cons x xs)
  then show ?case
    using replay_at_no_panic [OF Cons.prems(1), of x] trace.step_inv [OF Cons.prems(1), of x]
    by (auto simp: inl_iffs)
qed simp

section \<open>Complete release\<close>

lemma no_survivors:
  assumes inv: "model_inv m" and pd: "cm_pending m = []"
    and ext: "\<forall>x\<in>set (cm_owners m). ow_location x \<noteq> External"
  shows "\<forall>x\<in>set (cm_owners m). ow_location x = Dropped"
proof (rule ccontr)
  assume "\<not> ?thesis"
  then obtain x where x: "x \<in> set (cm_owners m)" "ow_location x \<noteq> Dropped" by blast
  let ?owners = "cm_owners m" and ?controls = "cm_controls m"
  have pl: "places_ok ?controls ?owners" and k: "counts_ok ?controls ?owners" and np: "pending_ok ?controls []"
    using inv pd by (simp_all add: model_inv_def)
  have up: "\<exists>y\<in>set ?owners. \<exists>q. ow_location y = InPayload q \<and> unat p < unat q"
    if y: "y \<in> set ?owners" "ow_location y = InPayload p" for y p
  proof -
    obtain i where i: "i < length ?owners" "y = ?owners ! i" using y(1) by (metis in_set_conv_nth)
    have p: "unat p < length ?controls" and ne: "remaining (?controls ! unat p) \<noteq> []"
      using pl y(2) i unfolding places_ok_def by (metis, metis empty_iff empty_set)
    have "\<not> pending_last_strong (ctl_state (?controls ! unat p))" using np p by (auto simp: pending_ok_def)
    then have "strong_count (ctl_state (?controls ! unat p)) \<noteq> 0" using pl p ne unfolding places_ok_def by blast
    moreover have "unat (strong_count (ctl_state (?controls ! unat p))) = owner_count False ?owners (unat p)"
      using k p by (simp add: counts_ok_def count_ok_def)
    ultimately have "owner_count False ?owners (unat p) \<noteq> 0" by (metis unat_eq_0)
    then obtain z where z: "z \<in> set ?owners" "owns False (unat p) z" by (auto simp: owner_count_def filter_empty_conv)
    then obtain q where q: "ow_location z = InPayload q" using ext by (cases "ow_location z") (auto simp: owns_def)
    obtain j where j: "j < length ?owners" "z = ?owners ! j" using z(1) by (metis in_set_conv_nth)
    have mem: "unat q < length ?controls" "of_nat j \<in> set (remaining (?controls ! unat q))"
      using pl q j unfolding places_ok_def by metis+
    have "j < 2 ^ 32" using pl j(1) by (simp add: places_ok_def)
    then have "unat (of_nat j :: u32) = j" by (rule unat_of_nat_32)
    then have "unat (ow_control z) < unat q" using pl mem j(2) unfolding places_ok_def by metis
    then show ?thesis using z q by (auto simp: owns_def)
  qed
  have climb: "\<exists>y\<in>set ?owners. \<exists>q. ow_location y = InPayload q \<and> n \<le> unat q" for n
  proof (induction n)
    case 0
    then show ?case using x ext by (metis le0 owner_location.exhaust)
  next
    case (Suc n)
    then show ?case using up by (meson Suc_leI le_less_trans)
  qed
  then obtain y q where y: "y \<in> set ?owners" "ow_location y = InPayload q" "length ?controls \<le> unat q" by blast
  then obtain i where "i < length ?owners" "y = ?owners ! i" by (metis in_set_conv_nth)
  then have "unat q < length ?controls" using pl y(2) unfolding places_ok_def by metis
  then show False using y(3) by simp
qed

lemma all_dropped_released:
  assumes inv: "model_inv m" and pd: "cm_pending m = []" and dr: "\<forall>x\<in>set (cm_owners m). ow_location x = Dropped"
  shows "\<forall>c\<in>set (cm_controls m). \<not> allocated (ctl_state c) \<and> strong_count (ctl_state c) = 0 \<and> weak_count (ctl_state c) = 0"
    "cm_intervals m = []"
proof -
  have z: "owner_count w (cm_owners m) c = 0" for w c using dr by (auto simp: owner_count_def filter_empty_conv owns_def)
  show a: "\<forall>c\<in>set (cm_controls m). \<not> allocated (ctl_state c) \<and> strong_count (ctl_state c) = 0 \<and> weak_count (ctl_state c) = 0"
  proof
    fix c assume "c \<in> set (cm_controls m)"
    then obtain i where i: "i < length (cm_controls m)" "c = cm_controls m ! i" by (metis in_set_conv_nth)
    have v: "valid_control_state (ctl_state c)" "count_ok (ctl_state c) 0 0" "\<not> pending_last_strong (ctl_state c)"
      using inv i pd z by (auto simp: model_inv_def counts_ok_def pending_ok_def)
    then have "unat (strong_count (ctl_state c)) = 0" "strong_count (ctl_state c) = 0 \<Longrightarrow> unat (weak_count (ctl_state c)) = 0"
      by (auto simp: count_ok_def)
    then have "strong_count (ctl_state c) = 0" "weak_count (ctl_state c) = 0" by (metis unat_eq_0)+
    then show "\<not> allocated (ctl_state c) \<and> strong_count (ctl_state c) = 0 \<and> weak_count (ctl_state c) = 0"
      using v(1,3) by (auto simp: valid_control_state_def split: if_splits)
  qed
  have e: "{c. c < length (cm_controls m) \<and> allocated (ctl_state (cm_controls m ! c))} = {}" using a by auto
  have b: "bij_betw (\<lambda>c. ctl_base (cm_controls m ! c))
      {c. c < length (cm_controls m) \<and> allocated (ctl_state (cm_controls m ! c))} (fst ` set (cm_intervals m))"
    using inv by (simp add: model_inv_def intervals_ok_def)
  have "fst ` set (cm_intervals m) = {}" using b unfolding e by (simp add: bij_betw_def)
  then show "cm_intervals m = []" by simp
qed

lemma surviving_owners_Nil:
  assumes "surviving_owners owners = Inr []"
  shows "\<forall>x\<in>set owners. ow_location x \<noteq> External"
proof
  fix x assume "x \<in> set owners"
  then obtain i where i: "i < length owners" "x = owners ! i" by (metis in_set_conv_nth)
  have "filter (\<lambda>(_, owner). ow_location owner = External) (enumerate 0 owners) = []"
    using assms by (auto simp: surviving_owners_def try_map_Inr_iff)
  moreover have "(i, x) \<in> set (enumerate 0 owners)" using i by (simp add: in_set_enumerate_eq)
  ultimately show "ow_location x \<noteq> External" by (auto simp: filter_empty_conv)
qed

lemma verify_control_trace_Inr:
  assumes "verify_control_trace abi layouts invocation owners trace = Inr v"
  obtains m where "run_steps replay_at (initial_model abi layouts) (enumerate 0 (tr_events trace)) = Inr m"
    "model_inv m" "cm_pending m = []" "surviving_owners (cm_owners m) = Inr owners"
    "vt_states v = map ctl_state (cm_controls m)"
    "vt_live_owners v = length (filter (\<lambda>x. ow_location x \<noteq> Dropped) (cm_owners m))"
proof -
  obtain m where m: "run_steps replay_at (initial_model abi layouts) (enumerate 0 (tr_events trace)) = Inr m"
    "cm_pending m = []" "surviving_owners (cm_owners m) = Inr owners"
    "v = \<lparr>vt_invocation = invocation, vt_states = map ctl_state (cm_controls m),
      vt_live_owners = length (filter (\<lambda>x. ow_location x \<noteq> Dropped) (cm_owners m))\<rparr>"
    using assms by (auto simp: verify_control_trace_def result_simps split: if_splits)
  show thesis
    by (rule that [OF m(1) trace.run_inv [OF initial_model_inv m(1)] m(2,3)]) (simp_all add: m(4))
qed

section \<open>A sample trace\<close>

lemma sample_trace_verified:
  "verify_control_trace trace_abi trace_layouts 3 [] sample_trace = Inr sample_verified"
  by code_simp

lemma sample_model_reached:
  "run_steps replay_at (initial_model trace_abi trace_layouts) (enumerate 0 (take 3 trace_events)) = Inr sample_model"
  by code_simp

lemma intervals_ok_disjoint:
  assumes "intervals_ok controls ivs"
  shows "\<forall>(s, e)\<in>set ivs. s < e \<and> (\<forall>(s', e')\<in>set ivs. (s, e) = (s', e') \<or> e \<le> s' \<or> e' \<le> s)"
proof -
  have d: "distinct (map fst ivs)" and ne: "\<And>x. x \<in> set ivs \<Longrightarrow> fst x < snd x"
    and lt: "\<And>x y. x \<in> set ivs \<Longrightarrow> y \<in> set ivs \<Longrightarrow> fst x < fst y \<Longrightarrow> snd x \<le> fst y"
    using assms by (auto simp: intervals_ok_def bt_wf_def strict_sorted_iff)
  have "(s, e) = (s', e') \<or> e \<le> s' \<or> e' \<le> s" if x: "(s, e) \<in> set ivs" and y: "(s', e') \<in> set ivs" for s e s' e'
  proof (cases s s' rule: linorder_cases)
    case less
    then show ?thesis using lt [OF x y] by simp
  next
    case equal
    then show ?thesis using eq_key_imp_eq_value [OF d x] y by simp
  next
    case greater
    then show ?thesis using lt [OF y x] by simp
  qed
  then show ?thesis using ne by fastforce
qed

lemma try_map_not_Inl: "(\<And>x. x \<in> set xs \<Longrightarrow> f x \<noteq> Inl e) \<Longrightarrow> try_map f xs \<noteq> Inl e"
  by (induction xs) (auto simp: inl_iffs)

section \<open>Properties\<close>

text \<open>C25: every reference count is exact in every state a trace reaches: the strong count of a control is the
  number of undropped strong owners of it, wherever they are, and its weak count is the number of undropped weak
  owners plus the one implicit weak owner that exists while strong owners exist or a last release is pending; so
  no count under- or overflows.\<close>

theorem replay_counts_exact:
  assumes "run_steps replay_at (initial_model abi layouts) (enumerate 0 events) = Inr m" and "c < length (cm_controls m)"
  shows "let s = ctl_state (cm_controls m ! c)
    in unat (strong_count s) = owner_count False (cm_owners m) c \<and>
       unat (weak_count s) =
         owner_count True (cm_owners m) c + (if 0 < strong_count s \<or> pending_last_strong s then 1 else 0) \<and>
       valid_control_state s"
  using trace.run_inv [OF initial_model_inv assms(1)] assms(2)
  by (auto simp: Let_def model_inv_def counts_ok_def count_ok_def)

theorem replay_counts_exact_witness:
  "owner_count False (cm_owners sample_model) 0 = 1 \<and> owner_count False (cm_owners sample_model) 1 = 0 \<and>
   unat (weak_count (ctl_state (cm_controls sample_model ! 1))) = owner_count True (cm_owners sample_model) 1 + 1"
proof -
  have l: "0 < length (cm_controls sample_model)" "1 < length (cm_controls sample_model)"
    by (simp_all add: sample_model_def)
  note r = replay_counts_exact [OF sample_model_reached]
  show ?thesis
    using r [OF l(1)] r [OF l(2)] by (simp add: sample_model_def trace_state_def)
qed

text \<open>C26: no trace confuses two allocations: the live intervals are nonempty and pairwise disjoint, and the base
  addresses of the allocated controls are exactly the starts of the live intervals, each once; so an address
  range is given out again only after its control is deallocated.\<close>

theorem replay_memory_safe:
  assumes "run_steps replay_at (initial_model abi layouts) (enumerate 0 events) = Inr m"
  shows "(\<forall>(s, e)\<in>set (cm_intervals m). s < e \<and>
      (\<forall>(s', e')\<in>set (cm_intervals m). (s, e) = (s', e') \<or> e \<le> s' \<or> e' \<le> s)) \<and>
    bij_betw (\<lambda>c. ctl_base (cm_controls m ! c))
      {c. c < length (cm_controls m) \<and> allocated (ctl_state (cm_controls m ! c))} (fst ` set (cm_intervals m))"
proof -
  have i: "intervals_ok (cm_controls m) (cm_intervals m)"
    using trace.run_inv [OF initial_model_inv assms] by (simp add: model_inv_def)
  then have "bij_betw (\<lambda>c. ctl_base (cm_controls m ! c))
      {c. c < length (cm_controls m) \<and> allocated (ctl_state (cm_controls m ! c))} (fst ` set (cm_intervals m))"
    by (simp add: intervals_ok_def)
  then show ?thesis using intervals_ok_disjoint [OF i] by blast
qed

theorem replay_memory_safe_witness:
  "inj_on (\<lambda>c. ctl_base (cm_controls sample_model ! c))
     {c. c < length (cm_controls sample_model) \<and> allocated (ctl_state (cm_controls sample_model ! c))}"
  using replay_memory_safe [OF sample_model_reached] by (meson bij_betw_imp_inj_on)

text \<open>C27: a verified trace leaves nothing behind: when a trace is verified against an empty exit contract, no owner
  survives anywhere, in particular no handle is stranded inside a payload, and every control the trace made is
  deallocated with both counts zero. Unreachable cycles of handles, which would leak, cannot be verified.\<close>

theorem trace_releases_everything:
  assumes "verify_control_trace abi layouts invocation [] trace = Inr v"
  shows "vt_live_owners v = 0 \<and>
    (\<forall>s\<in>set (vt_states v). \<not> allocated s \<and> \<not> payload_initialized s \<and> strong_count s = 0 \<and> weak_count s = 0)"
proof -
  obtain m where m: "model_inv m" "cm_pending m = []" "surviving_owners (cm_owners m) = Inr []"
    "vt_states v = map ctl_state (cm_controls m)"
    "vt_live_owners v = length (filter (\<lambda>x. ow_location x \<noteq> Dropped) (cm_owners m))"
    by (rule verify_control_trace_Inr [OF assms]) blast
  note d = no_survivors [OF m(1,2) surviving_owners_Nil [OF m(3)]]
  have "valid_control_state (ctl_state c)" if "c \<in> set (cm_controls m)" for c
    using that m(1) by (auto simp: model_inv_def counts_ok_def in_set_conv_nth)
  moreover have "\<not> payload_initialized s" if "valid_control_state s" "\<not> allocated s" for s
    using that by (auto simp: valid_control_state_def split: if_splits)
  ultimately show ?thesis
    using all_dropped_released(1) [OF m(1,2) d] d m(4,5) by (simp add: filter_empty_conv)
qed

theorem trace_releases_everything_witness:
  "length (vt_states sample_verified) = 2 \<and> vt_live_owners sample_verified = 0 \<and>
   \<not> allocated (vt_states sample_verified ! 1) \<and> strong_count (vt_states sample_verified ! 1) = 0"
  using trace_releases_everything [OF sample_trace_verified] by (simp add: sample_verified_def)

text \<open>C28: verification of a trace never panics, whatever the trace claims: every index the replay takes and every
  conversion it expects to succeed is guarded by an earlier check, and the walk over a payload ends. The one
  premise is that payload node lists have lengths a \<open>u64\<close> can hold, as every \<open>Vec\<close> has.\<close>

theorem control_trace_never_panics:
  assumes "\<forall>event\<in>set (tr_events trace). representable (ev_kind event)"
  shows "verify_control_trace abi layouts invocation owners trace \<noteq> Inl Panicked"
proof -
  have "run_steps replay_at (initial_model abi layouts) (enumerate 0 (tr_events trace)) \<noteq> Inl Panicked"
    using assms by (intro run_no_panic [OF initial_model_inv]) (auto simp: in_set_enumerate_eq)
  moreover have "surviving_owners os \<noteq> Inl Panicked" for os
    unfolding surviving_owners_def by (rule try_map_not_Inl) (auto simp: inl_iffs over_budget_def)
  ultimately show ?thesis
    by (auto simp: verify_control_trace_def inl_iffs checked_model_count_def split: if_splits)
qed

theorem control_trace_never_panics_witness:
  "verify_control_trace trace_abi trace_layouts 3 [\<lparr>eo_owner = 9, eo_control = 9, eo_weak = True\<rparr>]
     (sample_trace\<lparr>tr_events := take 3 trace_events\<rparr>) \<noteq> Inl Panicked"
  by (rule control_trace_never_panics) (simp add: trace_events_def representable_def)

end
