(* ===== verification/Abi.thy ===== *)
theory Abi
  imports Zryna_Prelude
begin

text \<open>
  The scalar ABI, \<open>crates/zryna-abi/src/lib.rs\<close>: scalar values and their carriers at the host boundaries, raw
  module claims and their verification \<open>verify_v1\<close>, the sealed module with its lookup table, and the check of
  an invocation. An \<open>i32\<close> is a 32-bit word read as signed; an \<open>f64\<close> is not-a-number, an infinity, or a sign
  with a binary fraction. Names are byte strings.
\<close>

section \<open>Limits\<close>

definition MAX_LOGICAL_EXPORT_NAME_BYTES :: usize where "MAX_LOGICAL_EXPORT_NAME_BYTES = 128"
definition MAX_ABI_EXPORTS :: usize where "MAX_ABI_EXPORTS = 16384"
definition MAX_ABI_PARAMETERS_PER_EXPORT :: usize where "MAX_ABI_PARAMETERS_PER_EXPORT = 256"
definition MAX_ABI_PARAMETERS_PER_MODULE :: usize where "MAX_ABI_PARAMETERS_PER_MODULE = 262144"
definition MAX_ABI_VIOLATIONS :: usize where "MAX_ABI_VIOLATIONS = 256"

section \<open>Scalars at the host boundary\<close>

type_synonym i32 = "32 word"

datatype scalar_kind = ScBool | ScI32

datatype scalar_value = SvBool bool | SvI32 i32

fun scalar_value_ty :: "scalar_value \<Rightarrow> scalar_kind" where
  "scalar_value_ty (SvBool _) = ScBool"
| "scalar_value_ty (SvI32 _) = ScI32"

datatype scalar_target = JavaScript | CoreWebAssembly | NativeLinuxX8664

text \<open>\<open>F64Finite s m e\<close> is the number \<open>m * 2 ^ e\<close>, negated when \<open>s\<close>; a zero keeps its sign.\<close>

datatype f64 = F64NaN | F64Infinite bool | F64Finite bool nat int

definition f64_of_i32 :: "i32 \<Rightarrow> f64" where
  "f64_of_i32 v = F64Finite (sint v < 0) (nat \<bar>sint v\<bar>) 0"

definition f64_signed :: "bool \<Rightarrow> nat \<Rightarrow> int" where
  "f64_signed s m = (if s then - int m else int m)"

fun f64_fract_is_zero :: "f64 \<Rightarrow> bool" where
  "f64_fract_is_zero (F64Finite s m e) = (0 \<le> e \<or> 2 ^ nat (- e) dvd m)"
| "f64_fract_is_zero _ = False"

fun f64_less_int :: "f64 \<Rightarrow> int \<Rightarrow> bool" where
  "f64_less_int (F64Finite s m e) k =
     (if 0 \<le> e then f64_signed s m * 2 ^ nat e < k else f64_signed s m < k * 2 ^ nat (- e))"
| "f64_less_int (F64Infinite s) k = s"
| "f64_less_int F64NaN k = False"

fun f64_greater_int :: "f64 \<Rightarrow> int \<Rightarrow> bool" where
  "f64_greater_int (F64Finite s m e) k =
     (if 0 \<le> e then k < f64_signed s m * 2 ^ nat e else k * 2 ^ nat (- e) < f64_signed s m)"
| "f64_greater_int (F64Infinite s) k = (\<not> s)"
| "f64_greater_int F64NaN k = False"

fun f64_is_finite :: "f64 \<Rightarrow> bool" where
  "f64_is_finite (F64Finite _ _ _) = True"
| "f64_is_finite _ = False"

fun f64_is_negative_zero :: "f64 \<Rightarrow> bool" where
  "f64_is_negative_zero (F64Finite s m _) = (m = 0 \<and> s)"
| "f64_is_negative_zero _ = False"

text \<open>The cast \<open>as i32\<close>: truncation towards zero, saturating, zero for not-a-number.\<close>

definition i32_saturate :: "int \<Rightarrow> i32" where
  "i32_saturate k = word_of_int (max (- (2 ^ 31)) (min (2 ^ 31 - 1) k))"

fun f64_as_i32 :: "f64 \<Rightarrow> i32" where
  "f64_as_i32 (F64Finite s m e) =
     i32_saturate (f64_signed s (if 0 \<le> e then m * 2 ^ nat e else m div 2 ^ nat (- e)))"
| "f64_as_i32 (F64Infinite s) = i32_saturate (if s then - (2 ^ 31) else 2 ^ 31)"
| "f64_as_i32 F64NaN = 0"

datatype raw_host_scalar = JavaScriptBool bool | JavaScriptNumber f64 | RawI32Carrier i32

datatype scalar_boundary_error =
    TargetCarrierMismatch
  | InvalidJavaScriptI32 f64
  | InvalidBoolCarrier i32

fun boundary_error_code :: "scalar_boundary_error \<Rightarrow> string" where
  "boundary_error_code TargetCarrierMismatch = ''ZRYNA-B2001''"
| "boundary_error_code (InvalidJavaScriptI32 _) = ''ZRYNA-B2002''"
| "boundary_error_code (InvalidBoolCarrier _) = ''ZRYNA-B2003''"

fun encode_argument :: "scalar_target \<Rightarrow> scalar_value \<Rightarrow> raw_host_scalar" where
  "encode_argument JavaScript (SvBool v) = JavaScriptBool v"
| "encode_argument JavaScript (SvI32 v) = JavaScriptNumber (f64_of_i32 v)"
| "encode_argument _ (SvBool v) = RawI32Carrier (if v then 1 else 0)"
| "encode_argument _ (SvI32 v) = RawI32Carrier v"

definition javascript_i32_invalid :: "f64 \<Rightarrow> bool" where
  "javascript_i32_invalid v =
     (\<not> f64_is_finite v \<or> \<not> f64_fract_is_zero v \<or> f64_less_int v (- (2 ^ 31)) \<or>
      f64_greater_int v (2 ^ 31 - 1) \<or> f64_is_negative_zero v)"

definition decode_boundary_value ::
    "scalar_target \<Rightarrow> scalar_kind \<Rightarrow> raw_host_scalar \<Rightarrow> scalar_boundary_error + scalar_value" where
  "decode_boundary_value target expected raw =
     (if target = JavaScript then
        (case (expected, raw) of
           (ScBool, JavaScriptBool v) \<Rightarrow> Inr (SvBool v)
         | (ScI32, JavaScriptNumber v) \<Rightarrow>
             if javascript_i32_invalid v then Inl (InvalidJavaScriptI32 v) else Inr (SvI32 (f64_as_i32 v))
         | _ \<Rightarrow> Inl TargetCarrierMismatch)
      else
        (case (expected, raw) of
           (ScI32, RawI32Carrier v) \<Rightarrow> Inr (SvI32 v)
         | (ScBool, RawI32Carrier v) \<Rightarrow>
             if v = 0 then Inr (SvBool False)
             else if v = 1 then Inr (SvBool True)
             else Inl (InvalidBoolCarrier v)
         | _ \<Rightarrow> Inl TargetCarrierMismatch))"

definition decode_argument ::
    "scalar_target \<Rightarrow> scalar_kind \<Rightarrow> raw_host_scalar \<Rightarrow> scalar_boundary_error + scalar_value" where
  "decode_argument target expected raw = decode_boundary_value target expected raw"

definition normalize_result ::
    "scalar_target \<Rightarrow> scalar_kind \<Rightarrow> raw_host_scalar \<Rightarrow> scalar_boundary_error + scalar_value" where
  "normalize_result target expected raw = decode_boundary_value target expected raw"

section \<open>Outcomes\<close>

datatype scalar_trap_code =
    TrapUnreachable | TrapTarget | TrapBounds | TrapAllocation | TrapCapacity | TrapRefcount | TrapUtf8

fun trap_code_str :: "scalar_trap_code \<Rightarrow> string" where
  "trap_code_str TrapUnreachable = ''unreachable''"
| "trap_code_str TrapTarget = ''target-trap''"
| "trap_code_str TrapBounds = ''zryna.trap.bounds-v1''"
| "trap_code_str TrapAllocation = ''zryna.trap.allocation-v1''"
| "trap_code_str TrapCapacity = ''zryna.trap.capacity-v1''"
| "trap_code_str TrapRefcount = ''zryna.trap.refcount-v1''"
| "trap_code_str TrapUtf8 = ''zryna.trap.utf8-v1''"

datatype scalar_host_error_code = UnknownExportError | InvalidInvocation | InvalidTargetResult | TargetUnavailable

datatype scalar_outcome =
    Returned scalar_value
  | Trapped scalar_trap_code
  | HostError scalar_host_error_code

section \<open>Raw claims\<close>

datatype raw_type = RawUnit | RawBool | RawI32

record raw_signature =
  rs_parameters :: "raw_type list"
  rs_result :: raw_type

record raw_export =
  re_logical_name :: string
  re_signature :: raw_signature

datatype abi_violation_kind =
    TooManyExports
  | TooManyParameters
  | TooManyParametersInModule
  | InvalidLogicalName
  | DuplicateLogicalName usize
  | PortableNameCollision usize
  | UnsupportedScalarType
  | ViolationBudgetExceeded

record abi_violation =
  av_export_index :: "usize option"
  av_kind :: abi_violation_kind

definition abi_violation_code :: "abi_violation \<Rightarrow> string" where
  "abi_violation_code v =
     (case av_kind v of
        InvalidLogicalName \<Rightarrow> ''ZRYNA-B1001''
      | DuplicateLogicalName _ \<Rightarrow> ''ZRYNA-B1002''
      | PortableNameCollision _ \<Rightarrow> ''ZRYNA-B1003''
      | UnsupportedScalarType \<Rightarrow> ''ZRYNA-B1004''
      | TooManyExports \<Rightarrow> ''ZRYNA-B1201''
      | TooManyParameters \<Rightarrow> ''ZRYNA-B1201''
      | TooManyParametersInModule \<Rightarrow> ''ZRYNA-B1201''
      | ViolationBudgetExceeded \<Rightarrow> ''ZRYNA-B1202'')"

definition abi_push :: "abi_violation \<Rightarrow> abi_violation list \<Rightarrow> abi_violation list" where
  "abi_push v values =
     (if length values < MAX_ABI_VIOLATIONS - 1 then values @ [v]
      else if length values = MAX_ABI_VIOLATIONS - 1
      then values @ [\<lparr>av_export_index = None, av_kind = ViolationBudgetExceeded\<rparr>]
      else values)"

definition abi_exhausted :: "abi_violation list \<Rightarrow> bool" where
  "abi_exhausted values = (length values = MAX_ABI_VIOLATIONS)"

section \<open>The sealed module\<close>

record verified_export =
  ve_logical_name :: string
  ve_javascript_name :: string
  ve_webassembly_name :: string
  ve_native_symbol :: string
  ve_parameters :: "scalar_kind list"
  ve_result :: scalar_kind

record verified_scalar_abi_module =
  am_exports :: "verified_export list"
  am_lookup :: "(string \<times> usize) list"

record verified_scalar_export =
  vx_index :: usize
  vx_export :: verified_export

definition abi_exports :: "verified_scalar_abi_module \<Rightarrow> verified_scalar_export list" where
  "abi_exports m = map (\<lambda>(i, e). \<lparr>vx_index = i, vx_export = e\<rparr>) (enumerate 0 (am_exports m))"

text \<open>The outer option is the panic of an index out of range.\<close>

definition abi_export :: "verified_scalar_abi_module \<Rightarrow> string \<Rightarrow> verified_scalar_export option option" where
  "abi_export m name =
     (case bt_get (am_lookup m) name of
        None \<Rightarrow> Some None
      | Some i \<Rightarrow>
          map_option (\<lambda>e. Some \<lparr>vx_index = i, vx_export = e\<rparr>) (get_at (am_exports m) i))"

section \<open>Invocations\<close>

record invocation =
  in_logical_export :: string
  in_arguments :: "scalar_value list"

datatype invocation_error =
    UnknownExport
  | ArityMismatch usize usize
  | TypeMismatch usize scalar_kind scalar_kind

fun invocation_error_code :: "invocation_error \<Rightarrow> string" where
  "invocation_error_code UnknownExport = ''ZRYNA-B2101''"
| "invocation_error_code (ArityMismatch _ _) = ''ZRYNA-B2102''"
| "invocation_error_code (TypeMismatch _ _ _) = ''ZRYNA-B2103''"

record verified_invocation =
  vi_export :: verified_scalar_export
  vi_arguments :: "scalar_value list"

fun check_arguments :: "usize \<Rightarrow> scalar_kind list \<Rightarrow> scalar_value list \<Rightarrow> invocation_error + unit" where
  "check_arguments i (expected # es) (actual # as) =
     (if expected \<noteq> scalar_value_ty actual then Inl (TypeMismatch i expected (scalar_value_ty actual))
      else check_arguments (Suc i) es as)"
| "check_arguments i _ _ = Inr ()"

definition prepare_invocation ::
    "verified_scalar_abi_module \<Rightarrow> invocation \<Rightarrow> (invocation_error + verified_invocation) option" where
  "prepare_invocation m invocation =
     map_option (\<lambda>found.
       case found of
         None \<Rightarrow> Inl UnknownExport
       | Some export \<Rightarrow>
           (let parameters = ve_parameters (vx_export export); arguments = in_arguments invocation
            in if length parameters \<noteq> length arguments
               then Inl (ArityMismatch (length parameters) (length arguments))
               else
                 try_bind (check_arguments 0 parameters arguments) (\<lambda>_.
                 Inr \<lparr>vi_export = export, vi_arguments = arguments\<rparr>)))
       (abi_export m (in_logical_export invocation))"

section \<open>Verification\<close>

definition is_ascii_alphabetic :: "char \<Rightarrow> bool" where
  "is_ascii_alphabetic c = (is_ascii_uppercase c \<or> is_ascii_lowercase c)"

definition is_ascii_alphanumeric :: "char \<Rightarrow> bool" where
  "is_ascii_alphanumeric c = (is_ascii_alphabetic c \<or> is_ascii_digit c)"

definition reserved_export :: "string \<Rightarrow> bool" where
  "reserved_export name = (name \<in>
     {''arguments'', ''await'', ''break'', ''case'', ''catch'', ''class'', ''const'', ''constructor'', ''continue'',
      ''debugger'', ''default'', ''delete'', ''do'', ''else'', ''enum'', ''eval'', ''export'', ''extends'',
      ''false'', ''finally'', ''for'', ''function'', ''if'', ''implements'', ''import'', ''in'', ''instanceof'',
      ''interface'', ''let'', ''new'', ''null'', ''package'', ''private'', ''protected'', ''prototype'', ''public'',
      ''return'', ''static'', ''super'', ''switch'', ''then'', ''this'', ''throw'', ''true'', ''try'', ''typeof'',
      ''var'', ''void'', ''while'', ''with'', ''yield'', ''__proto__''})"

definition valid_logical_name :: "string \<Rightarrow> bool" where
  "valid_logical_name name =
     (name \<noteq> [] \<and> length name \<le> MAX_LOGICAL_EXPORT_NAME_BYTES \<and>
      (is_ascii_alphabetic (hd name) \<or> hd name = CHR ''_'') \<and>
      list_all (\<lambda>c. is_ascii_alphanumeric c \<or> c = CHR ''_'') (tl name) \<and> \<not> reserved_export name)"

definition verify_type ::
    "usize \<Rightarrow> raw_type \<Rightarrow> abi_violation list \<Rightarrow> scalar_kind option \<times> abi_violation list" where
  "verify_type i ty errors =
     (case ty of
        RawBool \<Rightarrow> (Some ScBool, errors)
      | RawI32 \<Rightarrow> (Some ScI32, errors)
      | RawUnit \<Rightarrow> (None, abi_push \<lparr>av_export_index = Some i, av_kind = UnsupportedScalarType\<rparr> errors))"

text \<open>Collecting into an \<open>Option\<close> stops at the first type that is not supported.\<close>

fun verify_types ::
    "usize \<Rightarrow> raw_type list \<Rightarrow> abi_violation list \<Rightarrow> scalar_kind list option \<times> abi_violation list" where
  "verify_types i [] errors = (Some [], errors)"
| "verify_types i (ty # tys) errors =
     (case verify_type i ty errors of
        (None, errors) \<Rightarrow> (None, errors)
      | (Some s, errors) \<Rightarrow> apfst (map_option ((#) s)) (verify_types i tys errors))"

record name_tables =
  nt_exact :: "(string \<times> usize) list"
  nt_portable :: "(string \<times> usize) list"

definition verify_export_mapping ::
    "usize \<Rightarrow> string \<Rightarrow> name_tables \<Rightarrow> abi_violation list
     \<Rightarrow> (string \<times> string \<times> string \<times> string) option \<times> name_tables \<times> abi_violation list" where
  "verify_export_mapping i name tables errors =
     (let reject = (\<lambda>tables kind. (None, tables, abi_push \<lparr>av_export_index = Some i, av_kind = kind\<rparr> errors))
      in if \<not> valid_logical_name name then reject tables InvalidLogicalName
         else
           (case bt_get (nt_exact tables) name of
              Some first \<Rightarrow> reject tables (DuplicateLogicalName first)
            | None \<Rightarrow>
                (let tables = tables\<lparr>nt_exact := bt_insert name i (nt_exact tables)\<rparr>;
                     portable = to_ascii_lowercase name
                 in case bt_get (nt_portable tables) portable of
                      Some first \<Rightarrow> reject tables (PortableNameCollision first)
                    | None \<Rightarrow>
                        (Some (name, name, name, ''zryna_v1_e_'' @ name),
                         tables\<lparr>nt_portable := bt_insert portable i (nt_portable tables)\<rparr>, errors))))"

definition seal_export ::
    "scalar_kind list option \<Rightarrow> scalar_kind option \<Rightarrow> (string \<times> string \<times> string \<times> string) option
     \<Rightarrow> verified_export list" where
  "seal_export parameters result mapping =
     (case (parameters, result, mapping) of
        (Some ps, Some r, Some (logical, javascript, webassembly, native)) \<Rightarrow>
          [\<lparr>ve_logical_name = logical, ve_javascript_name = javascript, ve_webassembly_name = webassembly,
            ve_native_symbol = native, ve_parameters = ps, ve_result = r\<rparr>]
      | _ \<Rightarrow> [])"

fun verify_exports ::
    "usize \<Rightarrow> raw_export list \<Rightarrow> name_tables \<Rightarrow> abi_violation list \<Rightarrow> verified_export list
     \<Rightarrow> abi_violation list \<times> verified_export list" where
  "verify_exports i [] tables errors verified = (errors, verified)"
| "verify_exports i (export # exports) tables errors verified =
     (if abi_exhausted errors then (errors, verified)
      else
        (let (parameters, errors) = verify_types i (rs_parameters (re_signature export)) errors;
             (result, errors) = verify_type i (rs_result (re_signature export)) errors;
             (mapping, tables, errors) = verify_export_mapping i (re_logical_name export) tables errors
         in verify_exports (Suc i) exports tables errors (verified @ seal_export parameters result mapping)))"

fun count_parameters :: "usize \<Rightarrow> raw_export list \<Rightarrow> usize \<Rightarrow> abi_violation list + usize" where
  "count_parameters i [] amount = Inr amount"
| "count_parameters i (export # exports) amount =
     (if MAX_ABI_PARAMETERS_PER_EXPORT < length (rs_parameters (re_signature export))
      then Inl [\<lparr>av_export_index = Some i, av_kind = TooManyParameters\<rparr>]
      else
        try_bind (ok_or (usize_checked_add amount (length (rs_parameters (re_signature export))))
          [\<lparr>av_export_index = None, av_kind = TooManyParametersInModule\<rparr>]) (\<lambda>amount.
        count_parameters (Suc i) exports amount))"

definition build_lookup :: "verified_export list \<Rightarrow> (string \<times> usize) list" where
  "build_lookup verified =
     foldl (\<lambda>m (i, e). bt_insert (ve_logical_name e) i m) [] (enumerate 0 verified)"

definition verify_v1 :: "raw_export list \<Rightarrow> abi_violation list + verified_scalar_abi_module" where
  "verify_v1 exports =
     (if MAX_ABI_EXPORTS < length exports
      then Inl [\<lparr>av_export_index = None, av_kind = TooManyExports\<rparr>]
      else
        try_bind (count_parameters 0 exports 0) (\<lambda>parameter_count.
        if MAX_ABI_PARAMETERS_PER_MODULE < parameter_count
        then Inl [\<lparr>av_export_index = None, av_kind = TooManyParametersInModule\<rparr>]
        else
          (let (errors, verified) = verify_exports 0 exports \<lparr>nt_exact = [], nt_portable = []\<rparr> [] []
           in if errors \<noteq> [] then Inl errors
              else Inr \<lparr>am_exports = verified, am_lookup = build_lookup verified\<rparr>)))"

end
