(* ===== verification/Checks.thy ===== *)
theory Checks
  imports Diagnostics_Facts
begin

text \<open>
  The bounded collectors of diagnostics that the IR and MIR verifiers keep, and a small calculus for verifiers
  built on them. A verifier is a function on the collector. \<open>checks f P\<close> says that \<open>f\<close> keeps the bound
  and the consistency of the collector and leaves it clean exactly when it was clean and \<open>P\<close> holds; the rules
  follow the shape of the code: sequencing, loops, guards and early returns.
\<close>

section \<open>Collectors\<close>

record check_errors =
  ce_diagnostics :: "diagnostic list"
  ce_exhausted :: bool

definition no_errors :: check_errors where
  "no_errors = \<lparr>ce_diagnostics = [], ce_exhausted = False\<rparr>"

definition push_bounded :: "usize \<Rightarrow> diagnostic \<Rightarrow> diagnostic \<Rightarrow> check_errors \<Rightarrow> check_errors" where
  "push_bounded maximum terminal d er =
     (if ce_exhausted er then er
      else if length (ce_diagnostics er) < maximum - 1 then er\<lparr>ce_diagnostics := ce_diagnostics er @ [d]\<rparr>
      else er\<lparr>ce_diagnostics := ce_diagnostics er @ [terminal], ce_exhausted := True\<rparr>)"

definition push_last :: "diagnostic \<Rightarrow> check_errors \<Rightarrow> check_errors" where
  "push_last d er =
     (if ce_exhausted er then er
      else er\<lparr>ce_diagnostics := ce_diagnostics er @ [d], ce_exhausted := True\<rparr>)"

definition errors_is_empty :: "check_errors \<Rightarrow> bool" where
  "errors_is_empty er = (ce_diagnostics er = [])"

section \<open>The calculus\<close>

definition clean :: "check_errors \<Rightarrow> bool" where
  "clean er = (ce_diagnostics er = [] \<and> \<not> ce_exhausted er)"

definition bounded_errors :: "check_errors \<Rightarrow> bool" where
  "bounded_errors er =
     (length (ce_diagnostics er) \<le> (if ce_exhausted er then 256 else 255) \<and>
      (ce_exhausted er \<longrightarrow> ce_diagnostics er \<noteq> []))"

definition checks :: "(check_errors \<Rightarrow> check_errors) \<Rightarrow> bool \<Rightarrow> bool" where
  "checks f P = (\<forall>er. bounded_errors er \<longrightarrow> bounded_errors (f er) \<and> (clean (f er) \<longleftrightarrow> clean er \<and> P))"

text \<open>A loop that stops when the collector is exhausted, and one that does not look.\<close>

fun check_each :: "('a \<Rightarrow> check_errors \<Rightarrow> check_errors) \<Rightarrow> 'a list \<Rightarrow> check_errors \<Rightarrow> check_errors" where
  "check_each f [] er = er"
| "check_each f (x # xs) er = check_each f xs (f x er)"

fun check_until :: "('a \<Rightarrow> check_errors \<Rightarrow> check_errors) \<Rightarrow> 'a list \<Rightarrow> check_errors \<Rightarrow> check_errors" where
  "check_until f [] er = er"
| "check_until f (x # xs) er = (if ce_exhausted er then er else check_until f xs (f x er))"

named_theorems checks_intro \<open>rules of the verifier calculus\<close>

lemma clean_no_errors [simp]: "clean no_errors" "bounded_errors no_errors"
  by (simp_all add: no_errors_def clean_def bounded_errors_def)

lemma clean_iff_empty: "bounded_errors er \<Longrightarrow> errors_is_empty er \<longleftrightarrow> clean er"
  by (auto simp: errors_is_empty_def clean_def bounded_errors_def)

lemma clean_unique: "clean er \<longleftrightarrow> er = no_errors"
  by (auto simp: clean_def no_errors_def)

lemma push_bounded_clean [simp]: "\<not> clean (push_bounded m t d er)"
  by (auto simp: clean_def push_bounded_def)

lemma push_last_clean [simp]: "\<not> clean (push_last d er)"
  by (auto simp: clean_def push_last_def)

lemma push_bounded_bounded [simp]: "bounded_errors er \<Longrightarrow> bounded_errors (push_bounded 256 t d er)"
  by (auto simp: bounded_errors_def push_bounded_def split: if_splits)

lemma push_last_bounded [simp]: "bounded_errors er \<Longrightarrow> bounded_errors (push_last d er)"
  by (auto simp: bounded_errors_def push_last_def split: if_splits)

lemma exhausted_not_clean: "ce_exhausted er \<Longrightarrow> \<not> clean er"
  by (simp add: clean_def)

lemma checksD:
  assumes "checks f P" and "bounded_errors er"
  shows "bounded_errors (f er)" "clean (f er) \<longleftrightarrow> clean er \<and> P"
  using assms by (auto simp: checks_def)

lemma checks_id [checks_intro]: "checks (\<lambda>er. er) True"
  by (simp add: checks_def)

lemma checks_push [checks_intro]: "checks (push_bounded 256 t d) False"
  by (simp add: checks_def)

lemma checks_push_last [checks_intro]: "checks (push_last d) False"
  by (simp add: checks_def)

lemma checks_if:
  assumes "b \<Longrightarrow> checks f P" and "\<not> b \<Longrightarrow> checks g Q"
  shows "checks (\<lambda>er. if b then f er else g er) (if b then P else Q)"
  using assms by (simp add: checks_def)

lemma checks_then [checks_intro]:
  assumes "checks f P" and "P \<Longrightarrow> checks g Q" and "\<not> P \<Longrightarrow> \<exists>R. checks g R"
  shows "checks (\<lambda>er. g (f er)) (P \<and> Q)"
  using assms unfolding checks_def by metis

lemma checks_seq:
  assumes "checks f P" and "checks g Q"
  shows "checks (\<lambda>er. g (f er)) (P \<and> Q)"
  using assms by (auto intro: checks_then)

lemma checks_guard [checks_intro]:
  assumes "checks f P"
  shows "checks (\<lambda>er. if ce_exhausted er then er else f er) P"
  using assms exhausted_not_clean by (auto simp: checks_def)

lemma checks_each:
  assumes "\<And>x. x \<in> set xs \<Longrightarrow> checks (f x) (P x)"
  shows "checks (check_each f xs) (\<forall>x\<in>set xs. P x)"
  using assms
proof (induction xs)
  case (Cons x xs)
  have "checks (\<lambda>er. check_each f xs (f x er)) (P x \<and> (\<forall>x\<in>set xs. P x))"
    by (intro checks_seq) (use Cons in auto)
  then show ?case by (simp add: checks_def)
qed (simp add: checks_def)

lemma checks_until:
  assumes "\<And>x. x \<in> set xs \<Longrightarrow> checks (f x) (P x)"
  shows "checks (check_until f xs) (\<forall>x\<in>set xs. P x)"
  using assms
proof (induction xs)
  case (Cons x xs)
  have "checks (\<lambda>er. if ce_exhausted er then er else check_until f xs (f x er)) (P x \<and> (\<forall>x\<in>set xs. P x))"
    by (intro checks_guard checks_seq) (use Cons in auto)
  then show ?case by (simp add: checks_def)
qed (simp add: checks_def)

lemma checks_cong: "checks f P \<Longrightarrow> P = Q \<Longrightarrow> checks f Q"
  by simp

lemma checks_apply:
  assumes "checks f P"
  shows "errors_is_empty (f no_errors) \<longleftrightarrow> P" "length (ce_diagnostics (f no_errors)) \<le> 256"
proof -
  have b: "bounded_errors (f no_errors)" "clean (f no_errors) \<longleftrightarrow> P" using checksD [OF assms, of no_errors] by auto
  then show "errors_is_empty (f no_errors) \<longleftrightarrow> P" by (simp add: clean_iff_empty)
  show "length (ce_diagnostics (f no_errors)) \<le> 256" using b(1) by (auto simp: bounded_errors_def split: if_splits)
qed

section \<open>The interface of a collector\<close>

text \<open>What a verifier may assume of its \<open>push\<close>: it records that something is wrong, and it keeps the bound.\<close>

locale collector =
  fixes push :: "diagnostic \<Rightarrow> check_errors \<Rightarrow> check_errors"
  assumes push_dirty: "\<not> clean (push d er)"
    and push_keeps_bound: "bounded_errors er \<Longrightarrow> bounded_errors (push d er)"
begin

lemma checks_pushed: "checks (push d) False"
  by (simp add: checks_def push_dirty push_keeps_bound)

lemma checks_when: "checks (\<lambda>er. if b then push d er else er) (\<not> b)"
  by (auto simp: checks_def push_dirty push_keeps_bound)

lemma checks_unless: "checks (\<lambda>er. if \<not> b then push d er else er) b"
  using checks_when [of "\<not> b" d] by simp

text \<open>A checked sum: an overflow is an error, and the caller's property excludes it.\<close>

lemma checks_checked_add:
  assumes "checks (g (a + b)) P" and "P \<Longrightarrow> a + b < 2 ^ 64"
  shows "checks (\<lambda>er. case usize_checked_add a b of None \<Rightarrow> push d er | Some s \<Rightarrow> g s er) P"
proof (cases "a + b < 2 ^ 64")
  case True
  then show ?thesis using assms(1) by (simp add: usize_checked_add_def)
next
  case False
  then have np: "P = False" using assms(2) by blast
  show ?thesis unfolding np using False checks_pushed [of d]
    by (simp only: usize_checked_add_def if_False option.case)
qed

end

end
