(* ===== verification/Universal_IR.thy ===== *)
theory Universal_IR
  imports Abi Checks
begin

text \<open>
  The Universal IR of the profile \<open>I32V1\<close>, \<open>crates/zryna-ir/src/lib.rs\<close> and \<open>expression_order.rs\<close>: raw
  programs of expression arenas and their verifier. The verifier threads the collector \<open>VerificationErrors\<close>
  through its checks; the panic of \<open>SourceMap::resolve\<close> is \<open>None\<close>. Indices of the arena are taken only
  after the code has checked them against its length.
\<close>

section \<open>Limits\<close>

definition MAX_IR_FUNCTIONS :: usize where "MAX_IR_FUNCTIONS = 16384"
definition MAX_IR_PARAMETERS_PER_FUNCTION :: usize where "MAX_IR_PARAMETERS_PER_FUNCTION = 256"
definition MAX_IR_PARAMETERS_PER_PROGRAM :: usize where "MAX_IR_PARAMETERS_PER_PROGRAM = 262144"
definition MAX_IR_EXPRESSIONS_PER_FUNCTION :: usize where "MAX_IR_EXPRESSIONS_PER_FUNCTION = 16384"
definition MAX_IR_EXPRESSIONS_PER_PROGRAM :: usize where "MAX_IR_EXPRESSIONS_PER_PROGRAM = 262144"
definition MAX_IR_EXPRESSION_DEPTH :: u32 where "MAX_IR_EXPRESSION_DEPTH = 128"
definition MAX_IR_DIAGNOSTICS :: usize where "MAX_IR_DIAGNOSTICS = 256"

section \<open>Programs\<close>

datatype ir_type = TyUnit | TyBool | TyI32

datatype expr_kind =
    EParameter u32
  | EBoolLiteral bool
  | EI32Add u32 u32
  | EI32Literal i32

record expr =
  ex_ty :: ir_type
  ex_span :: span
  ex_kind :: expr_kind

record ir_function =
  fn_name :: string
  fn_parameters :: "ir_type list"
  fn_return_type :: ir_type
  fn_expressions :: "expr list"
  fn_body :: u32

record ir_program =
  pr_functions :: "ir_function list"

record verified_program =
  vp_program :: ir_program
  vp_abi :: verified_scalar_abi_module

record verified_function =
  vf_function :: ir_function
  vf_abi_export :: verified_scalar_export

definition vp_functions :: "verified_program \<Rightarrow> verified_function list" where
  "vp_functions p =
     map (\<lambda>(f, x). \<lparr>vf_function = f, vf_abi_export = x\<rparr>)
       (zip (pr_functions (vp_program p)) (abi_exports (vp_abi p)))"

section \<open>Diagnostics\<close>

definition ir_push :: "diagnostic \<Rightarrow> check_errors \<Rightarrow> check_errors" where
  "ir_push = push_bounded MAX_IR_DIAGNOSTICS
     (diagnostic_error ''ZRYNA-I1202'' None
        (''Universal IR verification reached its diagnostic limit of '' @ show_nat MAX_IR_DIAGNOSTICS)
        ''fix the retained diagnostics before verifying the program again'')"

definition ir_limit_error :: "string \<Rightarrow> usize \<Rightarrow> diagnostic" where
  "ir_limit_error label lim =
     diagnostic_error ''ZRYNA-I1201'' None (''Universal IR '' @ label @ '' exceeds its limit of '' @ show_nat lim)
       ''reduce the program before Universal IR verification''"

definition ir_function_limit_error :: "usize \<Rightarrow> string \<Rightarrow> usize \<Rightarrow> diagnostic" where
  "ir_function_limit_error i label lim =
     diagnostic_error ''ZRYNA-I1201'' None
       (''function #'' @ show_nat i @ '' has too many '' @ label @ ''; the limit is '' @ show_nat lim)
       ''reduce the function before Universal IR verification''"

definition ir_unsupported_type_error :: "usize \<Rightarrow> string \<Rightarrow> usize \<Rightarrow> diagnostic" where
  "ir_unsupported_type_error i label item =
     diagnostic_error ''ZRYNA-I1006'' None
       (''function #'' @ show_nat i @ '' '' @ label @ '' #'' @ show_nat item @ '' has an unsupported type'')
       ''use only i32 until a wider universal backend profile is enabled''"

definition push_expression_error :: "bool \<Rightarrow> span \<Rightarrow> string \<Rightarrow> string \<Rightarrow> string \<Rightarrow> check_errors \<Rightarrow> check_errors" where
  "push_expression_error valid_span sp code message guidance =
     ir_push (if valid_span then diagnostic_error_at code sp message guidance
              else diagnostic_error code None message guidance)"

definition expression_label :: "usize \<Rightarrow> usize \<Rightarrow> string \<Rightarrow> string" where
  "expression_label f e rest = ''function #'' @ show_nat f @ '' expression #'' @ show_nat e @ rest"

section \<open>Resource limits\<close>

definition push_when :: "bool \<Rightarrow> diagnostic \<Rightarrow> check_errors \<Rightarrow> check_errors" where
  "push_when b d er = (if b then ir_push d er else er)"

fun ir_limits_loop :: "usize \<Rightarrow> ir_function list \<Rightarrow> usize \<Rightarrow> usize \<Rightarrow> check_errors \<Rightarrow> check_errors" where
  "ir_limits_loop i [] parameters expressions er =
     push_when (MAX_IR_EXPRESSIONS_PER_PROGRAM < expressions)
       (ir_limit_error ''aggregate expression count'' MAX_IR_EXPRESSIONS_PER_PROGRAM)
       (push_when (MAX_IR_PARAMETERS_PER_PROGRAM < parameters)
         (ir_limit_error ''aggregate parameter count'' MAX_IR_PARAMETERS_PER_PROGRAM) er)"
| "ir_limits_loop i (f # fs) parameters expressions er =
     (let er = push_when (MAX_IR_PARAMETERS_PER_FUNCTION < length (fn_parameters f))
            (ir_function_limit_error i ''parameters'' MAX_IR_PARAMETERS_PER_FUNCTION) er;
          er = push_when (MAX_IR_EXPRESSIONS_PER_FUNCTION < length (fn_expressions f))
            (ir_function_limit_error i ''expressions'' MAX_IR_EXPRESSIONS_PER_FUNCTION) er
      in case usize_checked_add parameters (length (fn_parameters f)) of
           None \<Rightarrow> ir_push (ir_limit_error ''aggregate parameter count'' MAX_IR_PARAMETERS_PER_PROGRAM) er
         | Some parameters \<Rightarrow>
             (case usize_checked_add expressions (length (fn_expressions f)) of
                None \<Rightarrow> ir_push (ir_limit_error ''aggregate expression count'' MAX_IR_EXPRESSIONS_PER_PROGRAM) er
              | Some expressions \<Rightarrow> ir_limits_loop (Suc i) fs parameters expressions er))"

definition ir_verify_resource_limits :: "ir_program \<Rightarrow> check_errors \<Rightarrow> check_errors" where
  "ir_verify_resource_limits program er =
     (if MAX_IR_FUNCTIONS < length (pr_functions program)
      then ir_push (ir_limit_error ''function count'' MAX_IR_FUNCTIONS) er
      else ir_limits_loop 0 (pr_functions program) 0 0 er)"

section \<open>Exports\<close>

fun raw_abi_type :: "ir_type \<Rightarrow> raw_type" where
  "raw_abi_type TyUnit = RawUnit"
| "raw_abi_type TyBool = RawBool"
| "raw_abi_type TyI32 = RawI32"

definition ir_export :: "ir_function \<Rightarrow> raw_export" where
  "ir_export f =
     \<lparr>re_logical_name = fn_name f,
      re_signature = \<lparr>rs_parameters = map raw_abi_type (fn_parameters f), rs_result = raw_abi_type (fn_return_type f)\<rparr>\<rparr>"

definition ir_abi_diagnostic :: "abi_violation \<Rightarrow> diagnostic option" where
  "ir_abi_diagnostic v =
     (let i = (case av_export_index v of None \<Rightarrow> 0 | Some i \<Rightarrow> i);
          limits = Some (diagnostic_error ''ZRYNA-I1201'' None
            ''Universal IR scalar ABI claims exceed their resource limits''
            ''reduce the program before Universal IR verification'')
      in case av_kind v of
           InvalidLogicalName \<Rightarrow>
             Some (diagnostic_error ''ZRYNA-I1009'' None
               (''function #'' @ show_nat i @ '' has an invalid logical export name'')
               ''use 1 to 128 ASCII bytes matching [A-Za-z_][A-Za-z0-9_]* and avoid reserved bindings'')
         | DuplicateLogicalName first \<Rightarrow>
             Some (diagnostic_error ''ZRYNA-I1010'' None
               (''function #'' @ show_nat i @ '' duplicates the logical export of function #'' @ show_nat first)
               ''give every exported function one exact unique logical name'')
         | PortableNameCollision first \<Rightarrow>
             Some (diagnostic_error ''ZRYNA-I1011'' None
               (''function #'' @ show_nat i @ '' collides with function #'' @ show_nat first @
                '' under the portable target-symbol identity'')
               ''use export names that remain unique when ASCII case is ignored'')
         | UnsupportedScalarType \<Rightarrow> None
         | TooManyExports \<Rightarrow> limits
         | TooManyParameters \<Rightarrow> limits
         | TooManyParametersInModule \<Rightarrow> limits
         | ViolationBudgetExceeded \<Rightarrow>
             Some (diagnostic_error ''ZRYNA-I1202'' None
               ''Universal IR scalar ABI diagnostics exceeded their limit''
               ''fix earlier scalar ABI diagnostics before compiling again''))"

definition push_abi_violation :: "abi_violation \<Rightarrow> check_errors \<Rightarrow> check_errors" where
  "push_abi_violation v er = (case ir_abi_diagnostic v of None \<Rightarrow> er | Some d \<Rightarrow> ir_push d er)"

definition ir_verify_abi ::
    "ir_program \<Rightarrow> check_errors \<Rightarrow> verified_scalar_abi_module option \<times> check_errors" where
  "ir_verify_abi program er =
     (case verify_v1 (map ir_export (pr_functions program)) of
        Inr abi \<Rightarrow> (Some abi, er)
      | Inl violations \<Rightarrow> (None, check_each push_abi_violation violations er))"

section \<open>Expressions\<close>

definition profile_supports :: "ir_type \<Rightarrow> bool" where
  "profile_supports ty = (ty = TyI32)"

definition predecessor :: "u32 \<Rightarrow> usize \<Rightarrow> usize option" where
  "predecessor e current = (if unat e < current then Some (unat e) else None)"

definition saturating_inc :: "u32 \<Rightarrow> u32" where
  "saturating_inc w = (if w = - 1 then w else w + 1)"

text \<open>The depth of an expression, whether the graph stays valid at it, and the owner counts after it.\<close>

definition verify_expression ::
    "usize \<Rightarrow> ir_function \<Rightarrow> usize \<Rightarrow> bool \<Rightarrow> u32 list \<Rightarrow> u32 list \<Rightarrow> check_errors
     \<Rightarrow> (u32 \<times> bool) \<times> u32 list \<times> check_errors" where
  "verify_expression fi function i valid_span depths owners er =
     (let e = fn_expressions function ! i;
          fail = (\<lambda>b code rest guidance er.
            if b then push_expression_error valid_span (ex_span e) code (expression_label fi i rest) guidance er else er)
      in case ex_kind e of
           EParameter p \<Rightarrow>
             ((1, True), owners,
              fail (get_at (fn_parameters function) (unat p) \<noteq> Some (ex_ty e)) ''ZRYNA-I1003''
                '' references an invalid parameter'' ''use an existing parameter index with the exact verified type'' er)
         | EBoolLiteral _ \<Rightarrow>
             ((1, True), owners,
              fail (ex_ty e \<noteq> TyBool) ''ZRYNA-I1005'' '' is a mistyped bool literal''
                ''assign Type::Bool to every bool literal'' er)
         | EI32Literal _ \<Rightarrow>
             ((1, True), owners,
              fail (ex_ty e \<noteq> TyI32) ''ZRYNA-I1005'' '' is a mistyped i32 literal''
                ''assign Type::I32 to every i32 literal'' er)
         | EI32Add lhs rhs \<Rightarrow>
             (case (predecessor lhs i, predecessor rhs i) of
                (Some left, Some right) \<Rightarrow>
                  if lhs \<noteq> rhs then
                    (let owners = owners[left := saturating_inc (owners ! left)];
                         owners = owners[right := saturating_inc (owners ! right)];
                         operands_are_i32 =
                           (ex_ty (fn_expressions function ! left) = TyI32 \<and>
                            ex_ty (fn_expressions function ! right) = TyI32)
                     in ((saturating_inc (max (depths ! left) (depths ! right)), True), owners,
                         fail (ex_ty e \<noteq> TyI32 \<or> \<not> operands_are_i32) ''ZRYNA-I1004''
                           '' is an invalid i32 addition''
                           ''i32 addition requires two earlier i32 operands and an i32 result'' er))
                  else
                    ((1, False), owners,
                     fail True ''ZRYNA-I1007'' '' has a missing, shared, self, or forward operand''
                       ''reference two distinct earlier expressions in canonical postorder'' er)
              | _ \<Rightarrow>
                  ((1, False), owners,
                   fail True ''ZRYNA-I1007'' '' has a missing, shared, self, or forward operand''
                     ''reference two distinct earlier expressions in canonical postorder'' er)))"

text \<open>The loop over the arena. \<open>None\<close> in the first component is the early return at an exhausted collector.\<close>

fun expressions_loop ::
    "usize \<Rightarrow> ir_function \<Rightarrow> bool list \<Rightarrow> usize list \<Rightarrow> u32 list \<Rightarrow> u32 list \<Rightarrow> bool \<Rightarrow> check_errors
     \<Rightarrow> (u32 list \<times> bool) option \<times> check_errors" where
  "expressions_loop fi function valid_spans [] depths owners graph_valid er = (Some (owners, graph_valid), er)"
| "expressions_loop fi function valid_spans (i # is) depths owners graph_valid er =
     (if ce_exhausted er then (None, er)
      else
        (let e = fn_expressions function ! i;
             er = (if profile_supports (ex_ty e) then er
                   else push_expression_error (valid_spans ! i) (ex_span e) ''ZRYNA-I1006''
                     (expression_label fi i '' has an unsupported type'')
                     ''use only i32 until a wider universal backend profile is enabled'' er);
             ((depth, valid), owners, er) = verify_expression fi function i (valid_spans ! i) depths owners er;
             graph_valid = (graph_valid \<and> valid);
             too_deep = (MAX_IR_EXPRESSION_DEPTH < depth);
             er = (if too_deep then push_expression_error (valid_spans ! i) (ex_span e) ''ZRYNA-I1008''
                     (expression_label fi i ('' exceeds depth '' @ show_nat (unat MAX_IR_EXPRESSION_DEPTH)))
                     ''split the expression before Universal IR verification'' er
                   else er)
         in expressions_loop fi function valid_spans is (depths @ [depth]) owners (graph_valid \<and> \<not> too_deep) er))"

definition stack_weight :: "(usize \<times> bool) list \<Rightarrow> nat" where
  "stack_weight stack = sum_list (map (\<lambda>(i, exiting). if exiting then 1 else 4 ^ Suc i) stack)"

lemma stack_weight_simps [simp]:
  "stack_weight [] = 0" "stack_weight ((i, True) # stack) = 1 + stack_weight stack"
  "stack_weight ((i, False) # stack) = 4 ^ Suc i + stack_weight stack"
  by (simp_all add: stack_weight_def)

lemma stack_weight_exit: "stack_weight ((i, True) # stack) < stack_weight ((i, False) # stack)"
proof -
  have "1 \<le> (4 :: nat) ^ i" by simp
  then show ?thesis by (simp only: stack_weight_simps power_Suc)
qed

lemma stack_weight_children:
  assumes "predecessor l i = Some a" and "predecessor r i = Some b"
  shows "stack_weight ((a, False) # (b, False) # (i, True) # stack) < stack_weight ((i, False) # stack)"
proof -
  have "Suc a \<le> i" "Suc b \<le> i" using assms by (auto simp: predecessor_def split: if_splits)
  then have "(4 :: nat) ^ Suc a \<le> 4 ^ i" "(4 :: nat) ^ Suc b \<le> 4 ^ i" by (auto intro: power_increasing simp del: power_Suc)
  moreover have "1 \<le> (4 :: nat) ^ i" by simp
  ultimately show ?thesis by (simp only: stack_weight_simps power_Suc)
qed

function postorder_loop ::
    "usize \<Rightarrow> ir_function \<Rightarrow> bool list \<Rightarrow> (usize \<times> bool) list \<Rightarrow> bool list \<Rightarrow> usize \<Rightarrow> check_errors
     \<Rightarrow> check_errors" where
  "postorder_loop fi function valid_spans [] emitted expected er = er"
| "postorder_loop fi function valid_spans ((i, True) # stack) emitted expected er =
     (if emitted ! i then postorder_loop fi function valid_spans stack emitted expected er
      else if i \<noteq> expected then
        push_expression_error (valid_spans ! i) (ex_span (fn_expressions function ! i)) ''ZRYNA-I1008''
          (''function #'' @ show_nat fi @ '' expression arena is not canonical postorder: expected #'' @
           show_nat expected @ '', found #'' @ show_nat i)
          ''emit the one expression tree left-to-right in exact postorder'' er
      else postorder_loop fi function valid_spans stack (emitted[i := True]) (Suc expected) er)"
| "postorder_loop fi function valid_spans ((i, False) # stack) emitted expected er =
     (if emitted ! i then postorder_loop fi function valid_spans stack emitted expected er
      else
        (case ex_kind (fn_expressions function ! i) of
           EI32Add lhs rhs \<Rightarrow>
             (case (predecessor lhs i, predecessor rhs i) of
                (Some left, Some right) \<Rightarrow>
                  postorder_loop fi function valid_spans ((left, False) # (right, False) # (i, True) # stack)
                    emitted expected er
              | _ \<Rightarrow> er)
         | _ \<Rightarrow> postorder_loop fi function valid_spans ((i, True) # stack) emitted expected er))"
  by pat_completeness auto

termination
  by (relation "measure (\<lambda>(fi, f, valid_spans, stack, emitted, expected, er). stack_weight stack)")
    (use stack_weight_children stack_weight_exit in \<open>auto simp del: power_Suc\<close>)

definition verify_canonical_postorder ::
    "usize \<Rightarrow> ir_function \<Rightarrow> usize \<Rightarrow> bool list \<Rightarrow> check_errors \<Rightarrow> check_errors" where
  "verify_canonical_postorder fi function body valid_spans er =
     postorder_loop fi function valid_spans [(body, False)] (replicate (length (fn_expressions function)) False) 0 er"

definition owner_error ::
    "usize \<Rightarrow> ir_function \<Rightarrow> bool list \<Rightarrow> usize \<Rightarrow> u32 \<Rightarrow> check_errors \<Rightarrow> check_errors" where
  "owner_error fi function valid_spans i n =
     push_expression_error (valid_spans ! i) (ex_span (fn_expressions function ! i)) ''ZRYNA-I1008''
       (expression_label fi i ('' has '' @ show_nat (unat n) @ '' owners; expected exactly one''))
       ''return one expression tree with no shared or orphan arena entries''"

definition verify_expressions ::
    "usize \<Rightarrow> ir_function \<Rightarrow> bool list \<Rightarrow> usize option \<Rightarrow> check_errors \<Rightarrow> check_errors" where
  "verify_expressions fi function valid_spans body_index er =
     (let n = length (fn_expressions function)
      in case expressions_loop fi function valid_spans [0..<n] [] (replicate n 0) True er of
           (None, er) \<Rightarrow> er
         | (Some (owners, graph_valid), er) \<Rightarrow>
             (case body_index of
                None \<Rightarrow> er
              | Some body \<Rightarrow>
                  (let owners = owners[body := saturating_inc (owners ! body)];
                       wrong = (if graph_valid
                                then List.find (\<lambda>(_, n). n \<noteq> 1) (enumerate 0 owners) else None)
                   in case wrong of
                        Some (i, n) \<Rightarrow> owner_error fi function valid_spans i n er
                      | None \<Rightarrow>
                          if graph_valid then verify_canonical_postorder fi function body valid_spans er else er)))"

section \<open>Functions and programs\<close>

fun resolve_spans ::
    "source_map \<Rightarrow> expr list \<Rightarrow> check_errors \<Rightarrow> (bool list \<times> check_errors) option" where
  "resolve_spans sources [] er = Some ([], er)"
| "resolve_spans sources (e # es) er =
     (case sm_resolve sources (ex_span e) of
        None \<Rightarrow> None
      | Some (Inr _) \<Rightarrow> map_option (apfst ((#) True)) (resolve_spans sources es er)
      | Some (Inl error) \<Rightarrow>
          map_option (apfst ((#) False)) (resolve_spans sources es (ir_push (from_source_error error) er)))"

definition check_signature :: "usize \<Rightarrow> ir_function \<Rightarrow> check_errors \<Rightarrow> check_errors" where
  "check_signature fi function er =
     push_when (\<not> profile_supports (fn_return_type function))
       (diagnostic_error ''ZRYNA-I1006'' None
         (''function #'' @ show_nat fi @ '' has an unsupported result type'')
         ''use only i32 until a wider universal backend profile is enabled'')
       (check_each (\<lambda>(i, ty). push_when (\<not> profile_supports ty) (ir_unsupported_type_error fi ''parameter'' i))
         (enumerate 0 (fn_parameters function)) er)"

definition ir_verify_function ::
    "usize \<Rightarrow> ir_function \<Rightarrow> source_map \<Rightarrow> check_errors \<Rightarrow> check_errors option" where
  "ir_verify_function fi function sources er =
     map_option (\<lambda>(valid_spans, er).
       if unat (fn_body function) < length (fn_expressions function) then
         (let body_index = unat (fn_body function);
              body = fn_expressions function ! body_index;
              er = (if valid_spans ! body_index \<and> ex_ty body \<noteq> fn_return_type function
                    then ir_push (diagnostic_error_at ''ZRYNA-I1002'' (ex_span body)
                      (''function #'' @ show_nat fi @ '' returns the wrong IR type'')
                      ''make the body expression type equal the declared return type'') er
                    else er)
          in verify_expressions fi function valid_spans (Some body_index) er)
       else
         verify_expressions fi function valid_spans None
           (ir_push (diagnostic_error ''ZRYNA-I1001'' None
              (''function #'' @ show_nat fi @ '' has an invalid body expression'')
              ''produce one body root that belongs to the same canonical expression arena'') er))
       (resolve_spans sources (fn_expressions function) (check_signature fi function er))"

fun ir_verify_functions ::
    "(usize \<times> ir_function) list \<Rightarrow> source_map \<Rightarrow> check_errors \<Rightarrow> check_errors option" where
  "ir_verify_functions [] sources er = Some er"
| "ir_verify_functions ((fi, f) # fs) sources er =
     (if ce_exhausted er then Some er
      else Option.bind (ir_verify_function fi f sources er) (ir_verify_functions fs sources))"

definition ir_verify ::
    "ir_program \<Rightarrow> source_map \<Rightarrow> (diagnostic list + verified_program) option" where
  "ir_verify program sources =
     (let er = ir_verify_resource_limits program no_errors
      in if \<not> errors_is_empty er then Some (Inl (ce_diagnostics er))
         else
           (let (abi, er) = ir_verify_abi program er
            in map_option (\<lambda>er.
                 if \<not> errors_is_empty er then Inl (ce_diagnostics er)
                 else
                   (case abi of
                      None \<Rightarrow>
                        Inl [diagnostic_error ''ZRYNA-I1202'' None
                          ''IR verifier could not construct its bounded scalar ABI table''
                          ''report this compiler invariant failure with the smallest reproducible source'']
                    | Some abi \<Rightarrow> Inr \<lparr>vp_program = program, vp_abi = abi\<rparr>))
                 (ir_verify_functions (enumerate 0 (pr_functions program)) sources er)))"

end
