(* ===== verification/Native_MIR.thy ===== *)
theory Native_MIR
  imports Universal_IR
begin

text \<open>
  The native MIR of the straight-line profile, \<open>crates/zryna-native-mir/src\<close>: raw modules (\<open>raw.rs\<close>), the
  check of symbols (\<open>symbols.rs\<close>), the verifier and the lowering of verified Universal IR (\<open>lib.rs\<close>). The
  cycle check keeps an explicit stack; \<open>None\<close> is the panic of an index out of range in it.
\<close>

section \<open>Limits\<close>

definition MAX_MIR_FUNCTIONS :: usize where "MAX_MIR_FUNCTIONS = 16384"
definition MAX_MIR_PARAMETERS_PER_FUNCTION :: usize where "MAX_MIR_PARAMETERS_PER_FUNCTION = 256"
definition MAX_MIR_PARAMETERS_PER_MODULE :: usize where "MAX_MIR_PARAMETERS_PER_MODULE = 262144"
definition MAX_MIR_VALUES_PER_FUNCTION :: usize where "MAX_MIR_VALUES_PER_FUNCTION = 16384"
definition MAX_MIR_VALUES_PER_MODULE :: usize where "MAX_MIR_VALUES_PER_MODULE = 262144"
definition MAX_MIR_SYMBOL_BYTES :: usize where "MAX_MIR_SYMBOL_BYTES = 128"
definition MAX_MIR_SYMBOL_BYTES_PER_MODULE :: usize where
  "MAX_MIR_SYMBOL_BYTES_PER_MODULE = MAX_MIR_FUNCTIONS * MAX_MIR_SYMBOL_BYTES"
definition MAX_MIR_DIAGNOSTICS :: usize where "MAX_MIR_DIAGNOSTICS = 256"

section \<open>Raw modules\<close>

datatype mir_type = MirUnit | MirBool | MirI32

type_synonym value_id = u32

definition ZRYNA_INTERNAL_I32_V1 :: u16 where "ZRYNA_INTERNAL_I32_V1 = 1"

record mir_signature =
  ms_parameters :: "mir_type list"
  ms_result :: mir_type

datatype mir_operation = OpParameter u32 | OpI32Literal i32 | OpI32Add value_id value_id

record value_definition =
  vd_id :: value_id
  vd_ty :: mir_type
  vd_operation :: mir_operation

record mir_function =
  mf_symbol :: string
  mf_convention :: u16
  mf_signature :: mir_signature
  mf_values :: "value_definition list"
  mf_result :: value_id

record verified_mir_module =
  vm_raw :: "mir_function list"
  vm_abi :: verified_scalar_abi_module

record verified_mir_function =
  vmf_raw :: mir_function
  vmf_abi_export :: verified_scalar_export

definition vm_functions :: "verified_mir_module \<Rightarrow> verified_mir_function list" where
  "vm_functions m = map (\<lambda>(f, x). \<lparr>vmf_raw = f, vmf_abi_export = x\<rparr>) (zip (vm_raw m) (abi_exports (vm_abi m)))"

definition vmf_symbol :: "verified_mir_function \<Rightarrow> string" where
  "vmf_symbol f = ve_native_symbol (vx_export (vmf_abi_export f))"

section \<open>Diagnostics\<close>

definition mir_push :: "diagnostic \<Rightarrow> check_errors \<Rightarrow> check_errors" where
  "mir_push = push_bounded MAX_MIR_DIAGNOSTICS
     (diagnostic_error ''ZRYNA-N1202'' None
        (''native MIR verification reached its diagnostic limit of '' @ show_nat MAX_MIR_DIAGNOSTICS)
        ''fix the retained diagnostics before verifying the module again'')"

definition mir_push_when :: "bool \<Rightarrow> diagnostic \<Rightarrow> check_errors \<Rightarrow> check_errors" where
  "mir_push_when b d er = (if b then mir_push d er else er)"

definition mir_limit_error :: "string \<Rightarrow> usize \<Rightarrow> diagnostic" where
  "mir_limit_error label lim =
     diagnostic_error ''ZRYNA-N1201'' None (''native MIR '' @ label @ '' exceeds its limit of '' @ show_nat lim)
       ''reduce the module before native MIR verification''"

definition mir_function_limit_error :: "usize \<Rightarrow> string \<Rightarrow> usize \<Rightarrow> diagnostic" where
  "mir_function_limit_error i label lim =
     diagnostic_error ''ZRYNA-N1201'' None
       (''native function #'' @ show_nat i @ '' has too many '' @ label @ ''; the limit is '' @ show_nat lim)
       ''reduce the function before native MIR verification''"

definition unsupported_signature_error :: "usize \<Rightarrow> string \<Rightarrow> usize \<Rightarrow> diagnostic" where
  "unsupported_signature_error i label item =
     diagnostic_error ''ZRYNA-N1005'' None
       (''native function #'' @ show_nat i @ '' '' @ label @ '' #'' @ show_nat item @ '' has an unsupported type'')
       ''use only i32 in the current native MIR proof profile''"

definition value_label :: "usize \<Rightarrow> usize \<Rightarrow> string \<Rightarrow> string" where
  "value_label f v rest = ''native function #'' @ show_nat f @ '' value #'' @ show_nat v @ rest"

definition missing_value_error :: "usize \<Rightarrow> usize \<Rightarrow> string \<Rightarrow> diagnostic" where
  "missing_value_error f v label =
     diagnostic_error ''ZRYNA-N1007'' None (value_label f v ('' has a missing '' @ label))
       ''reference a uniquely defined value in the same native function''"

definition operation_type_error :: "usize \<Rightarrow> usize \<Rightarrow> diagnostic" where
  "operation_type_error f v =
     diagnostic_error ''ZRYNA-N1011'' None (value_label f v '' has an invalid type'')
       ''make the value and every operation input match the exact operation type''"

section \<open>Resource limits\<close>

fun mir_limits_loop :: "usize \<Rightarrow> mir_function list \<Rightarrow> usize \<Rightarrow> usize \<Rightarrow> usize \<Rightarrow> check_errors \<Rightarrow> check_errors" where
  "mir_limits_loop i [] parameters vals symbol_bytes er =
     mir_push_when (MAX_MIR_SYMBOL_BYTES_PER_MODULE < symbol_bytes)
       (mir_limit_error ''aggregate symbol bytes'' MAX_MIR_SYMBOL_BYTES_PER_MODULE)
       (mir_push_when (MAX_MIR_VALUES_PER_MODULE < vals)
         (mir_limit_error ''aggregate value count'' MAX_MIR_VALUES_PER_MODULE)
         (mir_push_when (MAX_MIR_PARAMETERS_PER_MODULE < parameters)
           (mir_limit_error ''aggregate parameter count'' MAX_MIR_PARAMETERS_PER_MODULE) er))"
| "mir_limits_loop i (f # fs) parameters vals symbol_bytes er =
     (let er = mir_push_when (MAX_MIR_PARAMETERS_PER_FUNCTION < length (ms_parameters (mf_signature f)))
            (mir_function_limit_error i ''parameters'' MAX_MIR_PARAMETERS_PER_FUNCTION) er;
          er = mir_push_when (MAX_MIR_VALUES_PER_FUNCTION < length (mf_values f))
            (mir_function_limit_error i ''values'' MAX_MIR_VALUES_PER_FUNCTION) er;
          er = mir_push_when (MAX_MIR_SYMBOL_BYTES < length (mf_symbol f))
            (mir_function_limit_error i ''symbol bytes'' MAX_MIR_SYMBOL_BYTES) er
      in case usize_checked_add parameters (length (ms_parameters (mf_signature f))) of
           None \<Rightarrow> mir_push (mir_limit_error ''aggregate parameter count'' MAX_MIR_PARAMETERS_PER_MODULE) er
         | Some parameters \<Rightarrow>
             (case usize_checked_add vals (length (mf_values f)) of
                None \<Rightarrow> mir_push (mir_limit_error ''aggregate value count'' MAX_MIR_VALUES_PER_MODULE) er
              | Some vals \<Rightarrow>
                  (case usize_checked_add symbol_bytes (length (mf_symbol f)) of
                     None \<Rightarrow> mir_push (mir_limit_error ''aggregate symbol bytes'' MAX_MIR_SYMBOL_BYTES_PER_MODULE) er
                   | Some symbol_bytes \<Rightarrow> mir_limits_loop (Suc i) fs parameters vals symbol_bytes er)))"

definition mir_verify_resource_limits :: "mir_function list \<Rightarrow> check_errors \<Rightarrow> check_errors" where
  "mir_verify_resource_limits fs er =
     (if MAX_MIR_FUNCTIONS < length fs then mir_push (mir_limit_error ''function count'' MAX_MIR_FUNCTIONS) er
      else mir_limits_loop 0 fs 0 0 0 er)"

section \<open>Symbols\<close>

definition reserved_symbol :: "string \<Rightarrow> bool" where
  "reserved_symbol s = (s \<in>
     {''arguments'', ''await'', ''break'', ''case'', ''catch'', ''class'', ''const'', ''constructor'', ''continue'',
      ''debugger'', ''default'', ''delete'', ''do'', ''else'', ''enum'', ''eval'', ''export'', ''extends'',
      ''false'', ''finally'', ''for'', ''function'', ''if'', ''implements'', ''import'', ''in'', ''instanceof'',
      ''interface'', ''let'', ''new'', ''null'', ''package'', ''private'', ''protected'', ''prototype'', ''public'',
      ''return'', ''static'', ''super'', ''switch'', ''then'', ''this'', ''throw'', ''true'', ''try'', ''typeof'',
      ''var'', ''void'', ''while'', ''with'', ''yield'', ''__proto__''})"

definition valid_symbol :: "string \<Rightarrow> bool" where
  "valid_symbol s =
     (s \<noteq> [] \<and> (is_ascii_alphabetic (hd s) \<or> hd s = CHR ''_'') \<and>
      list_all (\<lambda>c. is_ascii_alphanumeric c \<or> c = CHR ''_'') (tl s) \<and> \<not> reserved_symbol s)"

fun symbols_loop ::
    "usize \<Rightarrow> mir_function list \<Rightarrow> (string \<times> usize) list \<Rightarrow> (string \<times> usize) list \<Rightarrow> check_errors \<Rightarrow> check_errors" where
  "symbols_loop i [] exact portable er = er"
| "symbols_loop i (f # fs) exact portable er =
     (if \<not> valid_symbol (mf_symbol f) then
        symbols_loop (Suc i) fs exact portable
          (mir_push (diagnostic_error ''ZRYNA-N1002'' None
             (''native function #'' @ show_nat i @ '' has an invalid provisional symbol'')
             ''use bounded ASCII [A-Za-z_][A-Za-z0-9_]* without reserved bindings'') er)
      else
        (case bt_get exact (mf_symbol f) of
           Some previous \<Rightarrow>
             symbols_loop (Suc i) fs exact portable
               (mir_push (diagnostic_error ''ZRYNA-N1003'' None
                  (''native function #'' @ show_nat i @ '' duplicates the symbol of function #'' @ show_nat previous)
                  ''give every native function one exact unique provisional symbol'') er)
         | None \<Rightarrow>
             (let exact = bt_insert (mf_symbol f) i exact; identity = to_ascii_lowercase (mf_symbol f)
              in case bt_get portable identity of
                   Some previous \<Rightarrow>
                     symbols_loop (Suc i) fs exact portable
                       (mir_push (diagnostic_error ''ZRYNA-N1003'' None
                          (''native function #'' @ show_nat i @ '' collides with function #'' @ show_nat previous @
                           '' under the portable symbol identity'')
                          ''use symbols that remain unique when ASCII case is ignored'') er)
                 | None \<Rightarrow> symbols_loop (Suc i) fs exact (bt_insert identity i portable) er)))"

definition symbols_verify :: "mir_function list \<Rightarrow> check_errors \<Rightarrow> check_errors" where
  "symbols_verify fs er = symbols_loop 0 fs [] [] er"

section \<open>Functions\<close>

definition verify_definitions :: "usize \<Rightarrow> mir_function \<Rightarrow> check_errors \<Rightarrow> bool \<times> check_errors" where
  "verify_definitions fi f er =
     (let misnumbered = (\<lambda>(i, v). u32_try_from i \<noteq> Some (vd_id v))
      in (\<not> list_ex misnumbered (enumerate 0 (mf_values f)),
          check_each (\<lambda>(i, v). mir_push_when (misnumbered (i, v))
            (diagnostic_error ''ZRYNA-N1006'' None
              (''native function #'' @ show_nat fi @ '' value slot #'' @ show_nat i @
               '' claims a non-dense or duplicate identifier'')
              ''define every value exactly once with its canonical dense slot identifier''))
            (enumerate 0 (mf_values f)) er))"

definition verify_operand ::
    "usize \<Rightarrow> usize \<Rightarrow> value_id \<Rightarrow> mir_function \<Rightarrow> check_errors \<Rightarrow> mir_type option \<times> check_errors" where
  "verify_operand fi vi operand f er =
     (case get_at (mf_values f) (unat operand) of
        None \<Rightarrow> (None, mir_push (missing_value_error fi vi ''operand'') er)
      | Some d \<Rightarrow>
          if vd_id d \<noteq> operand then (None, mir_push (missing_value_error fi vi ''operand'') er)
          else
            (Some (vd_ty d),
             mir_push_when (vi \<le> unat operand)
               (diagnostic_error ''ZRYNA-N1008'' None (value_label fi vi '' references a non-predecessor operand'')
                 ''reference only values defined in an earlier canonical slot'') er))"

definition verify_operation :: "usize \<Rightarrow> mir_function \<Rightarrow> usize \<times> value_definition \<Rightarrow> check_errors \<Rightarrow> check_errors" where
  "verify_operation fi f = (\<lambda>(vi, v) er.
     case vd_operation v of
       OpParameter p \<Rightarrow>
         mir_push_when (get_at (ms_parameters (mf_signature f)) (unat p) \<noteq> Some (vd_ty v))
           (diagnostic_error ''ZRYNA-N1010'' None (value_label fi vi '' references an invalid parameter'')
             ''use an existing parameter index with the exact value type'') er
     | OpI32Literal _ \<Rightarrow> mir_push_when (vd_ty v \<noteq> MirI32) (operation_type_error fi vi) er
     | OpI32Add lhs rhs \<Rightarrow>
         (let (left, er) = verify_operand fi vi lhs f er;
              (right, er) = verify_operand fi vi rhs f er
          in mir_push_when (vd_ty v \<noteq> MirI32 \<or> \<not> (left = Some MirI32 \<and> right = Some MirI32))
               (operation_type_error fi vi) er))"

definition verify_operations :: "usize \<Rightarrow> mir_function \<Rightarrow> check_errors \<Rightarrow> check_errors" where
  "verify_operations fi f er = check_until (verify_operation fi f) (enumerate 0 (mf_values f)) er"

definition verify_result :: "usize \<Rightarrow> mir_function \<Rightarrow> check_errors \<Rightarrow> check_errors" where
  "verify_result fi f er =
     (let missing = diagnostic_error ''ZRYNA-N1007'' None
            (''native function #'' @ show_nat fi @ '' has a missing result value'')
            ''return one uniquely defined value from the same native function''
      in case get_at (mf_values f) (unat (mf_result f)) of
           None \<Rightarrow> mir_push missing er
         | Some d \<Rightarrow>
             if vd_id d \<noteq> mf_result f then mir_push missing er
             else
               mir_push_when (vd_ty d \<noteq> ms_result (mf_signature f))
                 (diagnostic_error ''ZRYNA-N1012'' None
                   (''native function #'' @ show_nat fi @ '' returns the wrong MIR type'')
                   ''make the result value type equal the declared signature result type'') er)"

fun operation_operands :: "mir_operation \<Rightarrow> value_id option list" where
  "operation_operands (OpI32Add lhs rhs) = [Some lhs, Some rhs]"
| "operation_operands _ = [None, None]"

text \<open>The depth-first search of the cycle check. A frame is a value and its next operand; the result says
  whether a value in progress was met, with the colours.\<close>

definition next_operand :: "mir_operation \<Rightarrow> usize \<Rightarrow> value_id option" where
  "next_operand op edge = (case get_at (operation_operands op) edge of Some (Some v) \<Rightarrow> Some v | _ \<Rightarrow> None)"

definition cycle_weight :: "(usize \<times> usize) list \<Rightarrow> nat list \<Rightarrow> nat" where
  "cycle_weight stack colors =
     4 * length (filter (\<lambda>c. c = 0) colors) + sum_list (map (\<lambda>(_, edge). Suc (3 - edge)) stack)"

lemma next_operand_edge: "next_operand op edge = Some v \<Longrightarrow> edge < 2"
  by (cases op) (auto simp: next_operand_def get_at_def split: if_splits option.splits)

lemma cycle_weight_push:
  "j < length colors \<Longrightarrow> colors ! j = 0 \<Longrightarrow> edge < 2 \<Longrightarrow>
     cycle_weight ((j, 0) # (i, Suc edge) # stack) (colors[j := Suc 0]) < cycle_weight ((i, edge) # stack) colors"
proof -
  assume j: "j < length colors" "colors ! j = 0" "edge < 2"
  have "length (filter (\<lambda>c. c = 0) colors) = Suc (length (filter (\<lambda>c. c = 0) (colors[j := Suc 0])))"
    using j(1,2)
  proof (induction colors arbitrary: j)
    case (Cons c cs)
    then show ?case by (cases j) auto
  qed simp
  then show ?thesis using j(3) by (simp add: cycle_weight_def)
qed

lemma cycle_weight_pop:
  "cycle_weight stack (colors[i := 2]) < cycle_weight ((i, edge) # stack) colors"
proof -
  have "length (filter (\<lambda>c. c = 0) (colors[i := 2])) \<le> length (filter (\<lambda>c. c = 0) colors)"
  proof (induction colors arbitrary: i)
    case (Cons c cs)
    then show ?case by (cases i) (auto intro: le_SucI)
  qed simp
  then show ?thesis by (simp add: cycle_weight_def)
qed

function cycle_search ::
    "value_definition list \<Rightarrow> (usize \<times> usize) list \<Rightarrow> nat list \<Rightarrow> (bool \<times> nat list) option" where
  "cycle_search vs [] colors = Some (False, colors)"
| "cycle_search vs ((i, edge) # stack) colors =
     (case get_at vs i of
        None \<Rightarrow> None
      | Some v \<Rightarrow>
          (case next_operand (vd_operation v) edge of
             None \<Rightarrow> if i < length colors then cycle_search vs stack (colors[i := 2]) else None
           | Some operand \<Rightarrow>
               if unat operand < length vs then
                 (case get_at colors (unat operand) of
                    None \<Rightarrow> None
                  | Some c \<Rightarrow>
                      if c = 0 then
                        cycle_search vs ((unat operand, 0) # (i, Suc edge) # stack) (colors[unat operand := 1])
                      else if c = 1 then Some (True, colors)
                      else cycle_search vs ((i, Suc edge) # stack) colors)
               else cycle_search vs ((i, Suc edge) # stack) colors))"
  by pat_completeness auto

termination
  by (relation "measure (\<lambda>(vs, stack, colors). cycle_weight stack colors)")
    (auto simp: get_at_def cycle_weight_pop cycle_weight_push dest: next_operand_edge split: if_splits,
     auto simp: cycle_weight_def dest: next_operand_edge)

fun cycle_starts :: "value_definition list \<Rightarrow> usize list \<Rightarrow> nat list \<Rightarrow> bool option" where
  "cycle_starts vs [] colors = Some False"
| "cycle_starts vs (start # starts) colors =
     (case get_at colors start of
        None \<Rightarrow> None
      | Some c \<Rightarrow>
          if c \<noteq> 0 then cycle_starts vs starts colors
          else
            (case cycle_search vs [(start, 0)] (colors[start := 1]) of
               None \<Rightarrow> None
             | Some (True, _) \<Rightarrow> Some True
             | Some (False, colors) \<Rightarrow> cycle_starts vs starts colors))"

definition verify_cycles :: "usize \<Rightarrow> mir_function \<Rightarrow> check_errors \<Rightarrow> check_errors option" where
  "verify_cycles fi f er =
     map_option (\<lambda>found.
       mir_push_when found
         (diagnostic_error ''ZRYNA-N1009'' None
           (''native function #'' @ show_nat fi @ '' contains a value cycle'')
           ''make every value graph acyclic and reference only predecessors'') er)
       (cycle_starts (mf_values f) [0..<length (mf_values f)] (replicate (length (mf_values f)) 0))"

definition mir_check_signature :: "usize \<Rightarrow> mir_function \<Rightarrow> check_errors \<Rightarrow> check_errors" where
  "mir_check_signature fi f er =
     mir_push_when (ms_result (mf_signature f) \<noteq> MirI32)
       (diagnostic_error ''ZRYNA-N1005'' None
         (''native function #'' @ show_nat fi @ '' has an unsupported result type'')
         ''use only i32 in the current native MIR proof profile'')
       (check_each (\<lambda>(i, ty). mir_push_when (ty \<noteq> MirI32) (unsupported_signature_error fi ''parameter'' i))
         (enumerate 0 (ms_parameters (mf_signature f)))
         (mir_push_when (mf_convention f \<noteq> ZRYNA_INTERNAL_I32_V1)
           (diagnostic_error ''ZRYNA-N1004'' None
             (''native function #'' @ show_nat fi @ '' uses unsupported convention code '' @
              show_nat (unat (mf_convention f)))
             ''use the provisional internal i32 convention for the current native proof'') er))"

definition mir_verify_function :: "usize \<Rightarrow> mir_function \<Rightarrow> check_errors \<Rightarrow> check_errors option" where
  "mir_verify_function fi f er =
     (let (dense, er) = verify_definitions fi f (mir_check_signature fi f er);
          er = verify_result fi f (verify_operations fi f er)
      in if dense then verify_cycles fi f er else Some er)"

fun mir_verify_functions :: "(usize \<times> mir_function) list \<Rightarrow> check_errors \<Rightarrow> check_errors option" where
  "mir_verify_functions [] er = Some er"
| "mir_verify_functions ((fi, f) # fs) er =
     (if ce_exhausted er then Some er
      else Option.bind (mir_verify_function fi f er) (mir_verify_functions fs))"

section \<open>The verifier\<close>

definition mir_export :: "mir_function \<Rightarrow> raw_export" where
  "mir_export f =
     \<lparr>re_logical_name = mf_symbol f,
      re_signature = \<lparr>rs_parameters = map (\<lambda>_. RawI32) (ms_parameters (mf_signature f)), rs_result = RawI32\<rparr>\<rparr>"

definition verify_scalar_abi :: "mir_function list \<Rightarrow> diagnostic list + verified_scalar_abi_module" where
  "verify_scalar_abi fs =
     map_sum (\<lambda>_. [diagnostic_error ''ZRYNA-N1013'' None ''verified native MIR could not seal scalar ABI v1''
         ''report this compiler invariant failure with the smallest reproducible source'']) id
       (verify_v1 (map mir_export fs))"

definition mir_verify :: "mir_function list \<Rightarrow> (diagnostic list + verified_mir_module) option" where
  "mir_verify fs =
     (let er = mir_verify_resource_limits fs no_errors
      in if \<not> errors_is_empty er then Some (Inl (ce_diagnostics er))
         else
           map_option (\<lambda>er.
             if \<not> errors_is_empty er then Inl (ce_diagnostics er)
             else map_sum id (\<lambda>abi. \<lparr>vm_raw = fs, vm_abi = abi\<rparr>) (verify_scalar_abi fs))
             (mir_verify_functions (enumerate 0 fs) (symbols_verify fs er)))"

section \<open>Lowering\<close>

definition lower_type :: "ir_type \<Rightarrow> diagnostic + mir_type" where
  "lower_type ty =
     (if ty = TyI32 then Inr MirI32
      else Inl (diagnostic_error ''ZRYNA-N1001'' None
        ''verified Universal IR contains a type outside the native proof profile''
        ''report this compiler invariant failure with the smallest reproducible source''))"

definition native_lowering_error :: diagnostic where
  "native_lowering_error =
     diagnostic_error ''ZRYNA-N1001'' None
       (''verified Universal IR exceeds the native value identifier range: '' @
        ''out of range integral type conversion attempted'')
       ''report this compiler invariant failure with the smallest reproducible source''"

definition lower_expression :: "usize \<times> expr \<Rightarrow> diagnostic + value_definition" where
  "lower_expression = (\<lambda>(i, e).
     try_bind (ok_or (u32_try_from i) native_lowering_error) (\<lambda>n.
     try_bind (lower_type (ex_ty e)) (\<lambda>ty.
     try_bind
       (case ex_kind e of
          EParameter p \<Rightarrow> Inr (OpParameter p)
        | EBoolLiteral _ \<Rightarrow>
            Inl (diagnostic_error ''ZRYNA-N1001'' None
              ''verified Universal IR contains an operation outside the native proof profile''
              ''report this compiler invariant failure with the smallest reproducible source'')
        | EI32Literal v \<Rightarrow> Inr (OpI32Literal v)
        | EI32Add lhs rhs \<Rightarrow> Inr (OpI32Add lhs rhs)) (\<lambda>op.
     Inr \<lparr>vd_id = n, vd_ty = ty, vd_operation = op\<rparr>))))"

definition lower_function :: "verified_function \<Rightarrow> diagnostic + mir_function" where
  "lower_function f =
     (let fn = vf_function f
      in try_bind (try_map lower_type (fn_parameters fn)) (\<lambda>parameters.
         try_bind (lower_type (fn_return_type fn)) (\<lambda>result_type.
         try_bind (try_map lower_expression (enumerate 0 (fn_expressions fn))) (\<lambda>vals.
         Inr \<lparr>mf_symbol = ve_logical_name (vx_export (vf_abi_export f)), mf_convention = ZRYNA_INTERNAL_I32_V1,
              mf_signature = \<lparr>ms_parameters = parameters, ms_result = result_type\<rparr>, mf_values = vals,
              mf_result = fn_body fn\<rparr>))))"

definition lower :: "verified_program \<Rightarrow> (diagnostic list + verified_mir_module) option" where
  "lower program =
     (case try_map lower_function (vp_functions program) of
        Inl d \<Rightarrow> Some (Inl [d])
      | Inr fs \<Rightarrow> mir_verify fs)"

end
