(* ===== verification/Abi_Facts.thy ===== *)
theory Abi_Facts
  imports Abi
begin

text \<open>
  What the scalar ABI promises. The verifier accepts exactly the claims described by \<open>abi_ok\<close> and seals each of
  them as it is; the carriers of the host boundaries are exact in both directions; an invocation of a sealed
  module is prepared exactly when it names an export and its arguments have the parameter kinds.
\<close>

section \<open>Specification vocabulary\<close>

fun scalar_of :: "raw_type \<Rightarrow> scalar_kind" where
  "scalar_of RawI32 = ScI32"
| "scalar_of _ = ScBool"

definition supported :: "raw_export \<Rightarrow> bool" where
  "supported x = (RawUnit \<notin> set (rs_parameters (re_signature x)) \<and> rs_result (re_signature x) \<noteq> RawUnit)"

definition portable_name :: "raw_export \<Rightarrow> string" where
  "portable_name x = to_ascii_lowercase (re_logical_name x)"

definition sealed :: "raw_export \<Rightarrow> verified_export" where
  "sealed x =
     \<lparr>ve_logical_name = re_logical_name x, ve_javascript_name = re_logical_name x,
      ve_webassembly_name = re_logical_name x, ve_native_symbol = ''zryna_v1_e_'' @ re_logical_name x,
      ve_parameters = map scalar_of (rs_parameters (re_signature x)),
      ve_result = scalar_of (rs_result (re_signature x))\<rparr>"

text \<open>The modules scalar ABI v1 admits.\<close>

definition abi_ok :: "raw_export list \<Rightarrow> bool" where
  "abi_ok xs =
     (length xs \<le> MAX_ABI_EXPORTS \<and>
      (\<forall>x\<in>set xs. length (rs_parameters (re_signature x)) \<le> MAX_ABI_PARAMETERS_PER_EXPORT) \<and>
      sum_list (map (\<lambda>x. length (rs_parameters (re_signature x))) xs) \<le> MAX_ABI_PARAMETERS_PER_MODULE \<and>
      (\<forall>x\<in>set xs. supported x \<and> valid_logical_name (re_logical_name x)) \<and>
      distinct (map portable_name xs))"

definition exports_ok :: "name_tables \<Rightarrow> raw_export list \<Rightarrow> bool" where
  "exports_ok tables xs =
     ((\<forall>x\<in>set xs. supported x \<and> valid_logical_name (re_logical_name x) \<and>
         bt_get (nt_portable tables) (portable_name x) = None) \<and> distinct (map portable_name xs))"

text \<open>The integer a number stands for, when it is one.\<close>

fun f64_int :: "f64 \<Rightarrow> int option" where
  "f64_int (F64Finite s m e) =
     (if 0 \<le> e then Some (f64_signed s m * 2 ^ nat e)
      else if 2 ^ nat (- e) dvd m then Some (f64_signed s (m div 2 ^ nat (- e))) else None)"
| "f64_int _ = None"

text \<open>The carriers of a value at a host boundary.\<close>

fun carries :: "scalar_target \<Rightarrow> raw_host_scalar \<Rightarrow> scalar_value \<Rightarrow> bool" where
  "carries JavaScript (JavaScriptBool b) v = (v = SvBool b)"
| "carries JavaScript (JavaScriptNumber x) v =
     (\<not> f64_is_negative_zero x \<and> (case v of SvI32 w \<Rightarrow> f64_int x = Some (sint w) | SvBool _ \<Rightarrow> False))"
| "carries JavaScript (RawI32Carrier w) v = False"
| "carries _ (RawI32Carrier w) v = (v = SvI32 w \<or> v = SvBool False \<and> w = 0 \<or> v = SvBool True \<and> w = 1)"
| "carries _ _ v = False"

definition sample_exports :: "raw_export list" where
  "sample_exports =
     [\<lparr>re_logical_name = ''add'', re_signature = \<lparr>rs_parameters = [RawI32, RawI32], rs_result = RawI32\<rparr>\<rparr>,
      \<lparr>re_logical_name = ''Flip'', re_signature = \<lparr>rs_parameters = [RawBool], rs_result = RawBool\<rparr>\<rparr>]"

section \<open>Violations\<close>

lemma abi_push_nonempty [simp]: "abi_push v es \<noteq> []"
  by (auto simp: abi_push_def MAX_ABI_VIOLATIONS_def)

lemma abi_push_length: "length es \<le> MAX_ABI_VIOLATIONS \<Longrightarrow> length (abi_push v es) \<le> MAX_ABI_VIOLATIONS"
  by (auto simp: abi_push_def MAX_ABI_VIOLATIONS_def)

lemma not_exhausted_Nil [simp]: "\<not> abi_exhausted []"
  by (simp add: abi_exhausted_def MAX_ABI_VIOLATIONS_def)

lemma verify_type_simps:
  "verify_type i ty es =
     (if ty = RawUnit then (None, abi_push \<lparr>av_export_index = Some i, av_kind = UnsupportedScalarType\<rparr> es)
      else (Some (scalar_of ty), es))"
  by (cases ty) (simp_all add: verify_type_def)

lemma verify_types_eq:
  "verify_types i tys es =
     (if RawUnit \<in> set tys
      then (None, abi_push \<lparr>av_export_index = Some i, av_kind = UnsupportedScalarType\<rparr> es)
      else (Some (map scalar_of tys), es))"
  by (induction tys) (auto simp: verify_type_simps)

lemma verify_export_mapping_cases:
  obtains (accept) t where "valid_logical_name name" "bt_get (nt_exact tables) name = None"
      "bt_get (nt_portable tables) (to_ascii_lowercase name) = None"
      "verify_export_mapping i name tables es = (Some (name, name, name, ''zryna_v1_e_'' @ name), t, es)"
      "bt_get (nt_exact t) = (bt_get (nt_exact tables))(name \<mapsto> i)"
      "bt_get (nt_portable t) = (bt_get (nt_portable tables))(to_ascii_lowercase name \<mapsto> i)"
  | (reject) t v where
      "\<not> valid_logical_name name \<or> bt_get (nt_exact tables) name \<noteq> None \<or>
       bt_get (nt_portable tables) (to_ascii_lowercase name) \<noteq> None"
      "verify_export_mapping i name tables es = (None, t, abi_push v es)"
proof (cases "valid_logical_name name")
  case valid: True
  show thesis
  proof (cases "bt_get (nt_exact tables) name")
    case exact: None
    show thesis
    proof (cases "bt_get (nt_portable tables) (to_ascii_lowercase name)")
      case None
      then show thesis using accept valid exact by (auto simp: verify_export_mapping_def Let_def)
    next
      case (Some k)
      then show thesis using reject valid exact by (auto simp: verify_export_mapping_def Let_def)
    qed
  next
    case (Some k)
    then show thesis using reject valid by (auto simp: verify_export_mapping_def Let_def)
  qed
next
  case False
  then show thesis using reject by (auto simp: verify_export_mapping_def Let_def)
qed

text \<open>One export of the loop: it either adds its sealed form or at least one violation.\<close>

lemma verify_exports_step:
  assumes "\<not> abi_exhausted es"
  obtains (accept) t where "supported x" "valid_logical_name (re_logical_name x)"
      "bt_get (nt_exact tables) (re_logical_name x) = None" "bt_get (nt_portable tables) (portable_name x) = None"
      "bt_get (nt_exact t) = (bt_get (nt_exact tables))(re_logical_name x \<mapsto> i)"
      "bt_get (nt_portable t) = (bt_get (nt_portable tables))(portable_name x \<mapsto> i)"
      "verify_exports i (x # xs) tables es acc = verify_exports (Suc i) xs t es (acc @ [sealed x])"
  | (reject) t es' acc' where
      "\<not> (supported x \<and> valid_logical_name (re_logical_name x) \<and> bt_get (nt_exact tables) (re_logical_name x) = None \<and>
         bt_get (nt_portable tables) (portable_name x) = None)"
      "es' \<noteq> []" "length es \<le> MAX_ABI_VIOLATIONS \<Longrightarrow> length es' \<le> MAX_ABI_VIOLATIONS"
      "verify_exports i (x # xs) tables es acc = verify_exports (Suc i) xs t es' acc'"
proof -
  let ?p = "verify_types i (rs_parameters (re_signature x)) es"
  let ?r = "verify_type i (rs_result (re_signature x)) (snd ?p)"
  have len: "length es \<le> MAX_ABI_VIOLATIONS \<Longrightarrow> length (snd ?r) \<le> MAX_ABI_VIOLATIONS"
    by (auto simp: verify_types_eq verify_type_simps abi_push_length)
  have sup: "supported x \<Longrightarrow> ?p = (Some (map scalar_of (rs_parameters (re_signature x))), es) \<and>
      ?r = (Some (scalar_of (rs_result (re_signature x))), es)"
    by (auto simp: supported_def verify_types_eq verify_type_simps)
  have unsup: "\<not> supported x \<Longrightarrow> snd ?r \<noteq> []"
    by (auto simp: supported_def verify_types_eq verify_type_simps)
  note unfold = verify_exports.simps(2) [of i x xs tables es acc]
  show thesis
  proof (cases rule: verify_export_mapping_cases [of "re_logical_name x" tables i "snd ?r", case_names acc rej])
    case (acc t)
    show thesis
    proof (cases "supported x")
      case True
      note p = sup [OF True, THEN conjunct1] and r = sup [OF True, THEN conjunct2, unfolded sup [OF True, THEN conjunct1] snd_conv]
      have "verify_exports i (x # xs) tables es acc = verify_exports (Suc i) xs t es (acc @ [sealed x])"
        using assms acc(4) [unfolded p snd_conv r] by (simp add: p r seal_export_def sealed_def)
      then show thesis using accept [of t, folded portable_name_def] True acc(1-3,5,6) unfolding portable_name_def by blast
    next
      case False
      show thesis
        by (rule reject [of "snd ?r" t "acc @ seal_export (fst ?p) (fst ?r) (Some (re_logical_name x, re_logical_name x,
              re_logical_name x, ''zryna_v1_e_'' @ re_logical_name x))"])
          (use False unsup len acc(4) assms in \<open>auto simp: split_beta\<close>)
    qed
  next
    case (rej t v)
    show thesis
      by (rule reject [of "abi_push v (snd ?r)" t "acc @ seal_export (fst ?p) (fst ?r) None"])
        (use rej len abi_push_length assms in \<open>auto simp: split_beta portable_name_def\<close>)
  qed
qed

lemma verify_exports_bounded:
  "length es \<le> MAX_ABI_VIOLATIONS \<Longrightarrow> length (fst (verify_exports i xs tables es acc)) \<le> MAX_ABI_VIOLATIONS"
proof (induction xs arbitrary: i tables es acc)
  case (Cons x xs)
  show ?case
  proof (cases "abi_exhausted es")
    case False
    then show ?thesis using Cons by (cases rule: verify_exports_step [of es x tables i xs acc]) auto
  qed (use Cons in simp)
qed simp

lemma verify_exports_nonempty: "es \<noteq> [] \<Longrightarrow> fst (verify_exports i xs tables es acc) \<noteq> []"
proof (induction xs arbitrary: i tables es acc)
  case (Cons x xs)
  show ?case
  proof (cases "abi_exhausted es")
    case False
    then show ?thesis using Cons by (cases rule: verify_exports_step [of es x tables i xs acc]) auto
  qed (use Cons in simp)
qed simp

lemma verify_exports_exact:
  assumes "\<forall>n. bt_get (nt_exact tables) n \<noteq> None \<longrightarrow> bt_get (nt_portable tables) (to_ascii_lowercase n) \<noteq> None"
  shows "(fst (verify_exports i xs tables [] acc) = [] \<longleftrightarrow> exports_ok tables xs) \<and>
    (exports_ok tables xs \<longrightarrow> verify_exports i xs tables [] acc = ([], acc @ map sealed xs))"
  using assms
proof (induction xs arbitrary: i tables acc)
  case (Cons x xs)
  have ne: "\<not> abi_exhausted []" by simp
  show ?case
  proof (cases rule: verify_exports_step [OF ne, of x tables i xs acc, case_names acc rej])
    case (acc t)
    have inv: "\<forall>n. bt_get (nt_exact t) n \<noteq> None \<longrightarrow> bt_get (nt_portable t) (to_ascii_lowercase n) \<noteq> None"
      using Cons.prems acc(5,6) by (auto simp: portable_name_def)
    note IH = Cons.IH [OF inv, of "Suc i" "acc @ [sealed x]"]
    have "exports_ok t xs \<longleftrightarrow> exports_ok tables (x # xs)"
      using acc(1,2,4,6) by (auto simp: exports_ok_def image_iff split: if_splits)
    then show ?thesis using IH acc(7) by (simp del: verify_exports.simps)
  next
    case (rej t es' acc')
    have "fst (verify_exports i (x # xs) tables [] acc) \<noteq> []"
      using rej(2,4) verify_exports_nonempty by metis
    moreover have "\<not> (supported x \<and> valid_logical_name (re_logical_name x) \<and> bt_get (nt_portable tables) (portable_name x) = None)"
      using rej(1) Cons.prems by (auto simp: portable_name_def)
    then have "\<not> exports_ok tables (x # xs)" by (auto simp: exports_ok_def)
    ultimately show ?thesis by blast
  qed
qed (simp add: exports_ok_def)

section \<open>Limits and lookup\<close>

lemma count_parameters_exact:
  assumes "n + sum_list (map (\<lambda>x. length (rs_parameters (re_signature x))) xs) < 2 ^ 64"
  shows "count_parameters i xs n = Inr k \<longleftrightarrow>
    (\<forall>x\<in>set xs. length (rs_parameters (re_signature x)) \<le> MAX_ABI_PARAMETERS_PER_EXPORT) \<and>
    k = n + sum_list (map (\<lambda>x. length (rs_parameters (re_signature x))) xs)"
  using assms
proof (induction xs arbitrary: i n)
  case (Cons x xs)
  have "n + length (rs_parameters (re_signature x)) < 2 ^ 64" using Cons.prems by simp
  then show ?case
    using Cons.IH [of "n + length (rs_parameters (re_signature x))" "Suc i"] Cons.prems
    by (auto simp: usize_checked_add_def add.assoc)
qed auto

lemma count_parameters_bounded:
  "length xs \<le> MAX_ABI_EXPORTS \<Longrightarrow> (\<forall>x\<in>set xs. length (rs_parameters (re_signature x)) \<le> MAX_ABI_PARAMETERS_PER_EXPORT) \<Longrightarrow>
    sum_list (map (\<lambda>x. length (rs_parameters (re_signature x))) xs) < 2 ^ 64"
proof -
  assume "length xs \<le> MAX_ABI_EXPORTS"
    "\<forall>x\<in>set xs. length (rs_parameters (re_signature x)) \<le> MAX_ABI_PARAMETERS_PER_EXPORT"
  then have "sum_list (map (\<lambda>x. length (rs_parameters (re_signature x))) xs) \<le> length xs * MAX_ABI_PARAMETERS_PER_EXPORT"
    by (induction xs) auto
  then show ?thesis using \<open>length xs \<le> MAX_ABI_EXPORTS\<close>
    by (simp add: MAX_ABI_EXPORTS_def MAX_ABI_PARAMETERS_PER_EXPORT_def)
qed

lemma count_parameters_Inr:
  assumes "length xs \<le> MAX_ABI_EXPORTS"
  shows "count_parameters 0 xs 0 = Inr k \<longleftrightarrow>
    (\<forall>x\<in>set xs. length (rs_parameters (re_signature x)) \<le> MAX_ABI_PARAMETERS_PER_EXPORT) \<and>
    k = sum_list (map (\<lambda>x. length (rs_parameters (re_signature x))) xs)"
proof -
  have big: "count_parameters i ys n = Inr k \<Longrightarrow>
      \<forall>x\<in>set ys. length (rs_parameters (re_signature x)) \<le> MAX_ABI_PARAMETERS_PER_EXPORT" for i ys n
    by (induction ys arbitrary: i n) (auto simp: result_simps split: if_splits)
  show ?thesis
  proof (cases "\<forall>x\<in>set xs. length (rs_parameters (re_signature x)) \<le> MAX_ABI_PARAMETERS_PER_EXPORT")
    case True
    then show ?thesis
      using count_parameters_exact [of 0 xs 0 k] count_parameters_bounded [OF assms True] by simp
  qed (use big [of 0 xs 0] in blast)
qed

lemma count_parameters_Inl: "count_parameters i xs n = Inl es \<Longrightarrow> length es = 1"
  by (induction xs arbitrary: i n) (auto simp: try_bind_Inl_iff ok_or_def split: if_splits option.splits)

lemma lower_distinct:
  assumes "distinct (map portable_name xs)"
  shows "distinct (map re_logical_name xs)"
proof -
  have "map portable_name xs = map to_ascii_lowercase (map re_logical_name xs)" by (simp add: portable_name_def)
  then show ?thesis using assms distinct_map by metis
qed

lemma build_lookup_get:
  assumes "distinct (map ve_logical_name es)"
  shows "bt_get (build_lookup es) n = Some i \<longleftrightarrow> i < length es \<and> ve_logical_name (es ! i) = n"
proof -
  have gen: "bt_get (foldl (\<lambda>m (i, e). bt_insert (ve_logical_name e) i m) m (enumerate k es)) n =
      (case map_of (map (\<lambda>(i, e). (ve_logical_name e, i)) (rev (enumerate k es))) n of
         Some i \<Rightarrow> Some i | None \<Rightarrow> bt_get m n)" for m k
    by (induction es arbitrary: m k rule: list.induct) (auto split: option.splits)
  have "bt_get (build_lookup es) n = map_of (map (\<lambda>(i, e). (ve_logical_name e, i)) (rev (enumerate 0 es))) n"
    using gen [of "[]" 0] by (simp add: build_lookup_def split: option.splits)
  moreover have "distinct (map fst (map (\<lambda>(i, e). (ve_logical_name e, i)) (rev (enumerate 0 es))))"
  proof -
    have "map fst (map (\<lambda>(i, e). (ve_logical_name e, i)) (rev (enumerate 0 es))) = rev (map ve_logical_name es)"
      using map_map [of ve_logical_name snd "enumerate 0 es"] by (simp add: rev_map [symmetric] comp_def split_beta)
    then show ?thesis using assms by simp
  qed
  ultimately show ?thesis
    by (auto simp: map_of_eq_Some_iff in_set_enumerate_eq image_iff intro!: bexI [of _ "(i, es ! i)"])
qed

lemma verify_v1_accepts:
  "verify_v1 xs = Inr m \<longleftrightarrow> abi_ok xs \<and> m = \<lparr>am_exports = map sealed xs, am_lookup = build_lookup (map sealed xs)\<rparr>"
proof (cases "length xs \<le> MAX_ABI_EXPORTS")
  case True
  let ?t = "\<lparr>nt_exact = [], nt_portable = []\<rparr> :: name_tables"
  have e: "(fst (verify_exports 0 xs ?t [] []) = [] \<longleftrightarrow> exports_ok ?t xs) \<and>
      (exports_ok ?t xs \<longrightarrow> verify_exports 0 xs ?t [] [] = ([], map sealed xs))"
    using verify_exports_exact [of ?t 0 xs "[]"] by simp
  show ?thesis
  proof (cases "exports_ok ?t xs")
    case ok: True
    then have v: "verify_exports 0 xs ?t [] [] = ([], map sealed xs)" using e by blast
    show ?thesis
      using True ok count_parameters_Inr [OF True]
      by (auto simp: verify_v1_def v result_simps abi_ok_def exports_ok_def not_less split: if_splits)
  next
    case False
    then have "fst (verify_exports 0 xs ?t [] []) \<noteq> []" using e by blast
    then have "verify_v1 xs \<noteq> Inr m"
      by (auto simp: verify_v1_def result_simps split_beta Let_def split: if_splits)
    moreover have "\<not> abi_ok xs" using False by (auto simp: abi_ok_def exports_ok_def)
    ultimately show ?thesis by blast
  qed
qed (auto simp: verify_v1_def abi_ok_def)

lemma verify_v1_rejects:
  assumes "verify_v1 xs = Inl es"
  shows "0 < length es \<and> length es \<le> MAX_ABI_VIOLATIONS"
proof -
  let ?t = "\<lparr>nt_exact = [], nt_portable = []\<rparr> :: name_tables"
  have "length (fst (verify_exports 0 xs ?t [] [])) \<le> MAX_ABI_VIOLATIONS"
    by (rule verify_exports_bounded) simp
  then show ?thesis
    using assms count_parameters_Inl [of 0 xs 0 es]
    by (auto simp: verify_v1_def try_bind_Inl_iff split_beta Let_def MAX_ABI_VIOLATIONS_def split: if_splits)
qed

lemma sealed_names: "map ve_logical_name (map sealed xs) = map re_logical_name xs"
  by (simp add: sealed_def)

lemma check_arguments_exact:
  "length ps = length as \<Longrightarrow> check_arguments i ps as = Inr () \<longleftrightarrow> map scalar_value_ty as = ps"
  by (induction i ps as rule: check_arguments.induct) auto

lemma check_arguments_error:
  "check_arguments i ps as = Inl e \<Longrightarrow> \<exists>k<length ps. k < length as \<and>
     e = TypeMismatch (i + k) (ps ! k) (scalar_value_ty (as ! k)) \<and> ps ! k \<noteq> scalar_value_ty (as ! k) \<and>
     (\<forall>j<k. ps ! j = scalar_value_ty (as ! j))"
proof (induction i ps as rule: check_arguments.induct)
  case (1 i expected es actual as)
  show ?case
  proof (cases "expected = scalar_value_ty actual")
    case True
    then obtain k where "k < length es" "k < length as"
      "e = TypeMismatch (Suc i + k) (es ! k) (scalar_value_ty (as ! k))" "es ! k \<noteq> scalar_value_ty (as ! k)"
      "\<forall>j<k. es ! j = scalar_value_ty (as ! j)"
      using 1 by auto
    then show ?thesis using True by (intro exI [of _ "Suc k"]) (simp add: All_less_Suc2)
  qed (use "1.prems" in auto)
qed simp_all

lemma abi_export_sealed:
  assumes "verify_v1 xs = Inr m"
  shows "abi_export m n =
    (case List.find (\<lambda>i. re_logical_name (xs ! i) = n) [0..<length xs] of
       None \<Rightarrow> Some None | Some i \<Rightarrow> Some (Some \<lparr>vx_index = i, vx_export = sealed (xs ! i)\<rparr>))"
proof -
  have m: "abi_ok xs" "m = \<lparr>am_exports = map sealed xs, am_lookup = build_lookup (map sealed xs)\<rparr>"
    using assms by (simp_all add: verify_v1_accepts)
  have d: "distinct (map ve_logical_name (map sealed xs))"
    unfolding sealed_names using m(1) lower_distinct by (simp add: abi_ok_def)
  note get = build_lookup_get [OF d, of n]
  show ?thesis
  proof (cases "List.find (\<lambda>i. re_logical_name (xs ! i) = n) [0..<length xs]")
    case None
    then have "bt_get (build_lookup (map sealed xs)) n \<noteq> Some i" for i
      using get [of i] by (auto simp: find_None_iff sealed_def)
    then have "bt_get (build_lookup (map sealed xs)) n = None" by blast
    then show ?thesis using None by (simp add: abi_export_def m(2))
  next
    case (Some i)
    then have i: "i < length xs" "re_logical_name (xs ! i) = n"
      by (auto simp: find_Some_iff)
    then have "bt_get (build_lookup (map sealed xs)) n = Some i" using get by (simp add: sealed_def)
    then show ?thesis using Some i(1) by (simp add: abi_export_def m(2) get_at_def)
  qed
qed

section \<open>Boundary values\<close>

lemma sint_range: "- (2 ^ 31) \<le> sint (v :: i32) \<and> sint v < 2 ^ 31"
  using sint_ge [of v] sint_lt [of v] by simp

lemma f64_of_i32_valid: "\<not> javascript_i32_invalid (f64_of_i32 v)"
  using sint_range [of v]
  by (auto simp: javascript_i32_invalid_def f64_of_i32_def f64_signed_def)

lemma i32_saturate_sint [simp]: "i32_saturate (sint (v :: i32)) = v"
  using sint_range [of v] by (simp add: i32_saturate_def)

lemma f64_as_of_i32: "f64_as_i32 (f64_of_i32 v) = v"
  by (cases "sint v < 0") (simp_all add: f64_of_i32_def f64_signed_def)

lemma f64_signed_mult: "f64_signed s (m * k) = f64_signed s m * int k"
  by (simp add: f64_signed_def)

lemma f64_int_valid:
  "\<not> javascript_i32_invalid v \<longleftrightarrow>
     (\<exists>k. f64_int v = Some k \<and> - (2 ^ 31) \<le> k \<and> k < 2 ^ 31) \<and> \<not> f64_is_negative_zero v"
proof (cases v)
  case (F64Finite s m e)
  show ?thesis
  proof (cases "0 \<le> e")
    case True
    then show ?thesis by (auto simp: javascript_i32_invalid_def F64Finite)
  next
    case False
    show ?thesis
    proof (cases "2 ^ nat (- e) dvd m")
      case True
      then obtain q where q: "m = q * 2 ^ nat (- e)" by (metis dvd_def mult.commute)
      have s: "f64_signed s m = f64_signed s q * 2 ^ nat (- e)" by (simp add: q f64_signed_mult)
      have pos: "(0 :: int) < 2 ^ nat (- e)" by simp
      have lt: "f64_signed s m < k * 2 ^ nat (- e) \<longleftrightarrow> f64_signed s q < k" for k
        unfolding s using pos by simp
      have gt: "k * 2 ^ nat (- e) < f64_signed s m \<longleftrightarrow> k < f64_signed s q" for k
        unfolding s using pos by simp
      have less: "f64_less_int v k \<longleftrightarrow> f64_signed s q < k" for k
        using False by (simp only: F64Finite f64_less_int.simps if_False lt)
      have greater: "f64_greater_int v k \<longleftrightarrow> k < f64_signed s q" for k
        using False by (simp only: F64Finite f64_greater_int.simps if_False gt)
      have "f64_int v = Some (f64_signed s q)" using False True q by (simp add: F64Finite)
      moreover have "f64_is_finite v" "f64_fract_is_zero v" using True by (simp_all add: F64Finite)
      ultimately show ?thesis unfolding javascript_i32_invalid_def less greater by auto
    qed (use False in \<open>simp add: javascript_i32_invalid_def F64Finite\<close>)
  qed
qed (auto simp: javascript_i32_invalid_def)

lemma f64_as_i32_int: "f64_int v = Some k \<Longrightarrow> f64_as_i32 v = i32_saturate k"
  by (cases v) (auto simp: f64_signed_mult split: if_splits)

lemma i32_saturate_inverse: "- (2 ^ 31) \<le> k \<Longrightarrow> k < 2 ^ 31 \<Longrightarrow> sint (i32_saturate k) = k"
  by (simp add: i32_saturate_def sint_sbintrunc' signed_take_bit_int_eq_self)

lemma decode_javascript_number:
  "decode_boundary_value JavaScript ScI32 (JavaScriptNumber x) = Inr v \<longleftrightarrow> carries JavaScript (JavaScriptNumber x) v"
proof
  assume "decode_boundary_value JavaScript ScI32 (JavaScriptNumber x) = Inr v"
  then have valid: "\<not> javascript_i32_invalid x" and v: "v = SvI32 (f64_as_i32 x)"
    by (auto simp: decode_boundary_value_def split: if_splits)
  from valid obtain k where k: "f64_int x = Some k" "- (2 ^ 31) \<le> k" "k < 2 ^ 31" "\<not> f64_is_negative_zero x"
    unfolding f64_int_valid by blast
  then show "carries JavaScript (JavaScriptNumber x) v"
    using v by (simp add: f64_as_i32_int [OF k(1)] i32_saturate_inverse [OF k(2,3)])
next
  assume c: "carries JavaScript (JavaScriptNumber x) v"
  then obtain w where w: "v = SvI32 w" "f64_int x = Some (sint w)" "\<not> f64_is_negative_zero x"
    by (cases v) auto
  then have "\<not> javascript_i32_invalid x" unfolding f64_int_valid using sint_range [of w] by blast
  then show "decode_boundary_value JavaScript ScI32 (JavaScriptNumber x) = Inr v"
    using w by (simp add: decode_boundary_value_def f64_as_i32_int)
qed

lemma decode_exact:
  "decode_boundary_value t ty raw = Inr v \<longleftrightarrow> scalar_value_ty v = ty \<and> carries t raw v"
proof (cases "t = JavaScript \<and> ty = ScI32 \<and> (\<exists>x. raw = JavaScriptNumber x)")
  case True
  moreover have "carries JavaScript (JavaScriptNumber x) v \<Longrightarrow> scalar_value_ty v = ScI32" for x by (cases v) auto
  ultimately show ?thesis using decode_javascript_number by auto
next
  case False
  then show ?thesis
    by (cases t; cases ty; cases raw; cases v) (auto simp: decode_boundary_value_def)
qed

lemma encode_carries: "carries t (encode_argument t v) v"
proof (cases t; cases v)
  fix w assume tv: "t = JavaScript" "v = SvI32 w"
  have "f64_int (f64_of_i32 w) = Some (sint w)" by (simp add: f64_of_i32_def f64_signed_def)
  moreover have "\<not> f64_is_negative_zero (f64_of_i32 w)" using f64_int_valid f64_of_i32_valid by blast
  ultimately show ?thesis by (simp add: tv)
qed auto

lemma sealed_parameters [simp]: "ve_parameters (sealed x) = map scalar_of (rs_parameters (re_signature x))"
  by (simp add: sealed_def)

lemma invocation_lookup:
  assumes v: "verify_v1 xs = Inr m"
  shows "(\<exists>i<length xs. re_logical_name (xs ! i) = n \<and> abi_export m n = Some (Some \<lparr>vx_index = i, vx_export = sealed (xs ! i)\<rparr>)) \<or>
    n \<notin> re_logical_name ` set xs \<and> abi_export m n = Some None"
proof (cases "List.find (\<lambda>i. re_logical_name (xs ! i) = n) [0..<length xs]")
  case None
  then have "n \<notin> re_logical_name ` set xs" by (auto simp: find_None_iff in_set_conv_nth)
  then show ?thesis using abi_export_sealed [OF v, of n] None by simp
next
  case (Some i)
  then have "i < length xs" "re_logical_name (xs ! i) = n" by (auto simp: find_Some_iff)
  then show ?thesis using abi_export_sealed [OF v, of n] Some by auto
qed

section \<open>Samples for the witnesses\<close>

lemma sample_exports_verify: "\<exists>m. verify_v1 sample_exports = Inr m"
proof -
  have "case verify_v1 sample_exports of Inl _ \<Rightarrow> False | Inr _ \<Rightarrow> True" by code_simp
  then show ?thesis by (cases "verify_v1 sample_exports") simp_all
qed

section \<open>Properties\<close>

text \<open>C30: the scalar ABI verifier accepts exactly the claims that can be sealed: within the three limits, every
  parameter and result a bool or an i32, every logical name an identifier that is not reserved, and no two
  names equal up to ASCII case. What it seals is the claim itself, export by export, with the native symbol
  derived from the name; a rejection carries between 1 and 256 violations.\<close>

theorem verify_v1_exact:
  "case verify_v1 xs of
     Inl violations \<Rightarrow> \<not> abi_ok xs \<and> 0 < length violations \<and> length violations \<le> MAX_ABI_VIOLATIONS
   | Inr m \<Rightarrow> abi_ok xs \<and> am_exports m = map sealed xs"
proof (cases "verify_v1 xs")
  case (Inl es)
  then show ?thesis using verify_v1_rejects [OF Inl] verify_v1_accepts [of xs] by auto
next
  case (Inr m)
  then show ?thesis using verify_v1_accepts [of xs m] by simp
qed

text \<open>C31: host boundaries are exact in both directions: decoding an argument or a result succeeds exactly when
  the raw scalar is a carrier of a value of the expected kind (for JavaScript a number is one exactly when it is
  an integer of the i32 range other than negative zero) and gives that value, and encoding always produces a
  carrier, so that values round-trip on every target.\<close>

theorem boundary_exact:
  "(decode_argument t ty raw = Inr v \<longleftrightarrow> scalar_value_ty v = ty \<and> carries t raw v) \<and>
   (normalize_result t ty raw = Inr v \<longleftrightarrow> scalar_value_ty v = ty \<and> carries t raw v) \<and>
   decode_argument t (scalar_value_ty w) (encode_argument t w) = Inr w"
  using encode_carries [of t w] by (simp add: decode_argument_def normalize_result_def decode_exact)

text \<open>C32: invoking a sealed module never panics: a prepared invocation names the one export with that logical
  name and its arguments have exactly the parameter kinds; otherwise the error is an unknown name, a wrong
  arity, or, under the right arity, the first argument of a wrong kind: every argument before the reported one has
  the kind of its parameter.\<close>

theorem prepare_invocation_exact:
  assumes "verify_v1 xs = Inr m"
  shows "\<exists>r. prepare_invocation m call = Some r \<and>
    (case r of
       Inl UnknownExport \<Rightarrow> in_logical_export call \<notin> re_logical_name ` set xs
     | Inl (ArityMismatch expected actual) \<Rightarrow>
         (\<exists>i<length xs. re_logical_name (xs ! i) = in_logical_export call \<and>
            expected = length (rs_parameters (re_signature (xs ! i))) \<and> actual = length (in_arguments call) \<and>
            expected \<noteq> actual)
     | Inl (TypeMismatch k expected actual) \<Rightarrow>
         (\<exists>i<length xs. re_logical_name (xs ! i) = in_logical_export call \<and> k < length (in_arguments call) \<and>
            length (rs_parameters (re_signature (xs ! i))) = length (in_arguments call) \<and>
            expected = map scalar_of (rs_parameters (re_signature (xs ! i))) ! k \<and>
            actual = scalar_value_ty (in_arguments call ! k) \<and> expected \<noteq> actual \<and>
            (\<forall>j<k. map scalar_of (rs_parameters (re_signature (xs ! i))) ! j = scalar_value_ty (in_arguments call ! j)))
     | Inr p \<Rightarrow>
         (\<exists>i<length xs. re_logical_name (xs ! i) = in_logical_export call \<and>
            vi_export p = \<lparr>vx_index = i, vx_export = sealed (xs ! i)\<rparr> \<and> vi_arguments p = in_arguments call \<and>
            map scalar_value_ty (in_arguments call) = map scalar_of (rs_parameters (re_signature (xs ! i)))))"
  using invocation_lookup [OF assms, of "in_logical_export call"]
proof (elim disjE exE conjE)
  fix i assume i: "i < length xs" "re_logical_name (xs ! i) = in_logical_export call"
    and e: "abi_export m (in_logical_export call) = Some (Some \<lparr>vx_index = i, vx_export = sealed (xs ! i)\<rparr>)"
  let ?ps = "map scalar_of (rs_parameters (re_signature (xs ! i)))"
  show ?thesis
  proof (cases "length ?ps = length (in_arguments call)")
    case False
    then show ?thesis using i e by (auto simp: prepare_invocation_def Let_def)
  next
    case True
    then have p: "prepare_invocation m call = Some (try_bind (check_arguments 0 ?ps (in_arguments call)) (\<lambda>_.
        Inr \<lparr>vi_export = \<lparr>vx_index = i, vx_export = sealed (xs ! i)\<rparr>, vi_arguments = in_arguments call\<rparr>))"
      using e by (simp add: prepare_invocation_def Let_def)
    show ?thesis
    proof (cases "check_arguments 0 ?ps (in_arguments call)")
      case (Inl er)
      from check_arguments_error [OF this] obtain k where k: "k < length (in_arguments call)" "k < length ?ps"
          "er = TypeMismatch k (?ps ! k) (scalar_value_ty (in_arguments call ! k))"
          "?ps ! k \<noteq> scalar_value_ty (in_arguments call ! k)" "\<forall>j<k. ?ps ! j = scalar_value_ty (in_arguments call ! j)" by auto
      have "prepare_invocation m call = Some (Inl er)" using p Inl by (simp add: result_simps)
      then show ?thesis using k i True by (auto intro!: exI [of _ i])
    next
      case (Inr u)
      then show ?thesis using p i True check_arguments_exact [OF True, of 0] by (auto simp: result_simps)
    qed
  qed
qed (simp add: prepare_invocation_def)

theorem prepare_invocation_exact_witness:
  "\<exists>m r. verify_v1 sample_exports = Inr m \<and>
    prepare_invocation m \<lparr>in_logical_export = ''add'', in_arguments = [SvBool False, SvBool True]\<rparr> = Some r \<and>
    r = Inl (TypeMismatch 0 ScI32 ScBool)"
proof -
  obtain m where m: "verify_v1 sample_exports = Inr m" using sample_exports_verify by blast
  let ?call = "\<lparr>in_logical_export = ''add'', in_arguments = [SvBool False, SvBool True]\<rparr>"
  obtain r where r: "prepare_invocation m ?call = Some r" using prepare_invocation_exact [OF m, of ?call] by blast
  have "case verify_v1 sample_exports of Inr m \<Rightarrow> prepare_invocation m ?call = Some (Inl (TypeMismatch 0 ScI32 ScBool))"
    by code_simp
  then show ?thesis using m r by auto
qed
end
