(* ===== verification/Universal_IR_Facts.thy ===== *)
theory Universal_IR_Facts
  imports Universal_IR Abi_Facts
begin

text \<open>
  What the Universal IR verifier promises. The specification of a function body is an expression tree: an arena
  is accepted exactly when it is the postorder of one tree with the body at its root. The proof goes through the
  facts the code computes: the depth of each entry, the number of owners of each entry, and the postorder walk
  (\<open>post\<close>); unique owners make the walk visit every entry once. The verifier as a whole is put together with the
  calculus of \<open>Checks\<close>.
\<close>

section \<open>Specification vocabulary\<close>

text \<open>The expression trees of the profile, their arena in postorder from a first index, and their depth.\<close>

datatype itree = ILeaf_Parameter u32 | ILeaf_Literal i32 | IAdd itree itree

fun nodes :: "itree \<Rightarrow> nat" where
  "nodes (IAdd l r) = Suc (nodes l + nodes r)"
| "nodes _ = 1"

fun depth :: "itree \<Rightarrow> nat" where
  "depth (IAdd l r) = Suc (max (depth l) (depth r))"
| "depth _ = 1"

fun arena :: "itree \<Rightarrow> nat \<Rightarrow> expr_kind list" where
  "arena (ILeaf_Parameter p) e = [EParameter p]"
| "arena (ILeaf_Literal v) e = [EI32Literal v]"
| "arena (IAdd l r) e =
     arena l e @ arena r (e + nodes l) @
     [EI32Add (of_nat (e + nodes l - 1)) (of_nat (e + nodes l + nodes r - 1))]"

definition span_ok :: "source_map \<Rightarrow> span \<Rightarrow> bool" where
  "span_ok sources sp = (\<exists>r. sm_resolve sources sp = Some (Inr r))"

definition function_ok :: "source_map \<Rightarrow> ir_function \<Rightarrow> bool" where
  "function_ok sources f =
     ((\<forall>ty\<in>set (fn_parameters f). ty = TyI32) \<and> fn_return_type f = TyI32 \<and>
      (\<forall>e\<in>set (fn_expressions f). ex_ty e = TyI32 \<and> span_ok sources (ex_span e) \<and>
         (\<forall>p. ex_kind e = EParameter p \<longrightarrow> unat p < length (fn_parameters f))) \<and>
      (\<exists>t. map ex_kind (fn_expressions f) = arena t 0 \<and> unat (fn_body f) = nodes t - 1 \<and> depth t \<le> 128))"

definition ir_within_limits :: "ir_program \<Rightarrow> bool" where
  "ir_within_limits p =
     (length (pr_functions p) \<le> MAX_IR_FUNCTIONS \<and>
      (\<forall>f\<in>set (pr_functions p). length (fn_parameters f) \<le> MAX_IR_PARAMETERS_PER_FUNCTION \<and>
         length (fn_expressions f) \<le> MAX_IR_EXPRESSIONS_PER_FUNCTION) \<and>
      sum_list (map (\<lambda>f. length (fn_parameters f)) (pr_functions p)) \<le> MAX_IR_PARAMETERS_PER_PROGRAM \<and>
      sum_list (map (\<lambda>f. length (fn_expressions f)) (pr_functions p)) \<le> MAX_IR_EXPRESSIONS_PER_PROGRAM)"

text \<open>The depth the verifier computes, over the natural numbers.\<close>

function expr_depth :: "expr list \<Rightarrow> usize \<Rightarrow> nat" where
  "expr_depth es i =
     (case ex_kind (es ! i) of
        EI32Add l r \<Rightarrow>
          if unat l < i \<and> unat r < i then Suc (max (expr_depth es (unat l)) (expr_depth es (unat r))) else 1
      | _ \<Rightarrow> 1)"
  by pat_completeness auto

termination
  by (relation "measure snd") auto

declare expr_depth.simps [simp del]

definition node_ok :: "ir_function \<Rightarrow> usize \<Rightarrow> bool" where
  "node_ok f i =
     (ex_ty (fn_expressions f ! i) = TyI32 \<and>
      (case ex_kind (fn_expressions f ! i) of
         EParameter p \<Rightarrow> get_at (fn_parameters f) (unat p) = Some TyI32
       | EBoolLiteral _ \<Rightarrow> False
       | EI32Literal _ \<Rightarrow> True
       | EI32Add l r \<Rightarrow> unat l < i \<and> unat r < i \<and> l \<noteq> r) \<and>
      expr_depth (fn_expressions f) i \<le> 128)"

definition operand_nodes :: "expr \<Rightarrow> usize list" where
  "operand_nodes e = (case ex_kind e of EI32Add l r \<Rightarrow> [unat l, unat r] | _ \<Rightarrow> [])"

definition counted :: "u32 list \<Rightarrow> usize \<Rightarrow> usize list \<Rightarrow> bool" where
  "counted owners n L =
     (length owners = n \<and> (\<forall>x<n. unat (owners ! x) = min (count_list L x) (2 ^ 32 - 1)))"

definition tracked :: "ir_function \<Rightarrow> usize \<Rightarrow> u32 list \<Rightarrow> u32 list \<Rightarrow> bool" where
  "tracked f k depths owners =
     ((\<forall>j<k. node_ok f j) \<and> depths = map (\<lambda>j. of_nat (expr_depth (fn_expressions f) j)) [0..<k] \<and>
      counted owners (length (fn_expressions f)) (concat (map operand_nodes (take k (fn_expressions f)))))"

function post :: "expr list \<Rightarrow> usize \<Rightarrow> usize list" where
  "post es i =
     (case ex_kind (es ! i) of
        EI32Add l r \<Rightarrow> if unat l < i \<and> unat r < i then post es (unat l) @ post es (unat r) @ [i] else [i]
      | _ \<Rightarrow> [i])"
  by pat_completeness auto

termination
  by (relation "measure snd") auto

declare post.simps [simp del]

definition well_ordered :: "expr list \<Rightarrow> bool" where
  "well_ordered es = (\<forall>i<length es. \<forall>l r. ex_kind (es ! i) = EI32Add l r \<longrightarrow> unat l < i \<and> unat r < i \<and> l \<noteq> r)"

definition owned_once :: "expr list \<Rightarrow> usize \<Rightarrow> bool" where
  "owned_once es body = (\<forall>x<length es. count_list (concat (map operand_nodes es) @ [body]) x = 1)"

definition pending :: "expr list \<Rightarrow> (usize \<times> bool) list \<Rightarrow> usize list" where
  "pending es stack = concat (map (\<lambda>(i, exiting). if exiting then [i] else post es i) stack)"

definition describes :: "expr list \<Rightarrow> nat \<Rightarrow> itree \<Rightarrow> bool" where
  "describes es e t =
     (let n = e + nodes t
      in (\<forall>i. e \<le> i \<and> i < n \<longrightarrow> (\<forall>b. ex_kind (es ! i) \<noteq> EBoolLiteral b) \<and> expr_depth es i \<le> depth t \<and>
            (\<forall>l r. ex_kind (es ! i) = EI32Add l r \<longrightarrow> unat l < i \<and> unat r < i \<and> l \<noteq> r)) \<and>
         post es (n - 1) = [e..<n] \<and> expr_depth es (n - 1) = depth t \<and>
         mset (concat (map operand_nodes (take (nodes t) (drop e es)))) + {#n - 1#} = mset [e..<n])"

definition body_ok :: "ir_function \<Rightarrow> bool" where
  "body_ok f =
     ((\<forall>e\<in>set (fn_expressions f). ex_ty e = TyI32 \<and>
         (\<forall>p. ex_kind e = EParameter p \<longrightarrow> get_at (fn_parameters f) (unat p) = Some TyI32)) \<and>
      (\<exists>t. map ex_kind (fn_expressions f) = arena t 0 \<and> unat (fn_body f) = nodes t - 1 \<and> depth t \<le> 128))"

definition ir_ok :: "source_map \<Rightarrow> ir_program \<Rightarrow> bool" where
  "ir_ok sources p =
     (ir_within_limits p \<and> abi_ok (map ir_export (pr_functions p)) \<and> (\<forall>f\<in>set (pr_functions p). function_ok sources f))"

definition sample_span :: span where
  "sample_span = \<lparr>span_file = \<lparr>source_map_id = 1, fid_index = 0\<rparr>, span_start = 0, span_end = 2\<rparr>"

definition sample_expr :: "expr_kind \<Rightarrow> expr" where
  "sample_expr k = \<lparr>ex_ty = TyI32, ex_span = sample_span, ex_kind = k\<rparr>"

definition sample_program :: ir_program where
  "sample_program =
     \<lparr>pr_functions =
        [\<lparr>fn_name = ''sum'', fn_parameters = [TyI32, TyI32], fn_return_type = TyI32,
          fn_expressions = map sample_expr [EParameter 0, EParameter 1, EI32Literal 5, EI32Add 1 2, EI32Add 0 3],
          fn_body = 4\<rparr>]\<rparr>"

section \<open>Pushing\<close>

interpretation ir: collector ir_push
  by unfold_locales (simp_all add: ir_push_def MAX_IR_DIAGNOSTICS_def)

lemmas checks_ir_push [checks_intro] = ir.checks_pushed

lemma checks_push_expression_error [checks_intro]: "checks (push_expression_error v sp c m g) False"
  using ir.checks_pushed by (simp add: push_expression_error_def)

lemma checks_push_when [checks_intro]: "checks (push_when b d) (\<not> b)"
  using ir.checks_when by (simp add: push_when_def [abs_def])

lemma checks_push_unless: "checks (push_when (\<not> b) d) b"
  using ir.checks_unless by (simp add: push_when_def [abs_def])

lemma ir_push_simps [simp]:
  "\<not> clean (ir_push d er)" "bounded_errors er \<Longrightarrow> bounded_errors (ir_push d er)"
  "\<not> clean (push_expression_error v sp c m g er)"
  "bounded_errors er \<Longrightarrow> bounded_errors (push_expression_error v sp c m g er)"
  by (simp_all add: push_expression_error_def ir.push_dirty ir.push_keeps_bound)

section \<open>Limits, signatures and spans\<close>

lemma ir_limits_loop_checks:
  "checks (ir_limits_loop i fs p e)
     ((\<forall>f\<in>set fs. length (fn_parameters f) \<le> MAX_IR_PARAMETERS_PER_FUNCTION \<and>
         length (fn_expressions f) \<le> MAX_IR_EXPRESSIONS_PER_FUNCTION) \<and>
      p + sum_list (map (\<lambda>f. length (fn_parameters f)) fs) \<le> MAX_IR_PARAMETERS_PER_PROGRAM \<and>
      e + sum_list (map (\<lambda>f. length (fn_expressions f)) fs) \<le> MAX_IR_EXPRESSIONS_PER_PROGRAM)"
    (is "checks _ (?P fs p e)")
proof (induction fs arbitrary: i p e)
  case Nil
  have "checks (\<lambda>er. ir_limits_loop i [] p e er)
      (\<not> MAX_IR_PARAMETERS_PER_PROGRAM < p \<and> \<not> MAX_IR_EXPRESSIONS_PER_PROGRAM < e)"
    by (simp only: ir_limits_loop.simps) (intro checks_seq checks_intro)
  then show ?case by (simp add: not_less)
next
  case (Cons f fs)
  let ?np = "length (fn_parameters f)" and ?ne = "length (fn_expressions f)"
  let ?rest = "\<lambda>er. case usize_checked_add p ?np of
       None \<Rightarrow> ir_push (ir_limit_error ''aggregate parameter count'' MAX_IR_PARAMETERS_PER_PROGRAM) er
     | Some p \<Rightarrow> (case usize_checked_add e ?ne of
           None \<Rightarrow> ir_push (ir_limit_error ''aggregate expression count'' MAX_IR_EXPRESSIONS_PER_PROGRAM) er
         | Some e \<Rightarrow> ir_limits_loop (Suc i) fs p e er)"
  have rest: "checks ?rest (?P fs (p + ?np) (e + ?ne))"
    by (rule ir.checks_checked_add Cons.IH)+
      (auto simp: MAX_IR_PARAMETERS_PER_PROGRAM_def MAX_IR_EXPRESSIONS_PER_PROGRAM_def)
  have "checks (\<lambda>er. ?rest (push_when (MAX_IR_EXPRESSIONS_PER_FUNCTION < ?ne)
        (ir_function_limit_error i ''expressions'' MAX_IR_EXPRESSIONS_PER_FUNCTION)
        (push_when (MAX_IR_PARAMETERS_PER_FUNCTION < ?np)
          (ir_function_limit_error i ''parameters'' MAX_IR_PARAMETERS_PER_FUNCTION) er)))
      ((\<not> MAX_IR_PARAMETERS_PER_FUNCTION < ?np \<and> \<not> MAX_IR_EXPRESSIONS_PER_FUNCTION < ?ne) \<and> ?P fs (p + ?np) (e + ?ne))"
    by (rule checks_seq [OF checks_seq [OF checks_push_when checks_push_when] rest])
  then show ?case by (simp add: Let_def not_less add.assoc conj_ac cong: conj_cong)
qed

lemma ir_limits_checks: "checks (ir_verify_resource_limits p) (ir_within_limits p)"
  using ir_limits_loop_checks [of 0 "pr_functions p" 0 0] checks_ir_push
  by (auto simp: ir_verify_resource_limits_def [abs_def] ir_within_limits_def checks_def)

lemma ball_enumerate_snd: "(\<forall>x\<in>set (enumerate k xs). P (snd x)) \<longleftrightarrow> (\<forall>x\<in>set xs. P x)"
proof -
  have "set xs = snd ` set (enumerate k xs)" by (metis list.set_map map_snd_enumerate)
  then show ?thesis by simp
qed

lemma check_signature_checks:
  "checks (check_signature fi f) ((\<forall>ty\<in>set (fn_parameters f). ty = TyI32) \<and> fn_return_type f = TyI32)"
proof -
  have "checks (check_each (\<lambda>(i, ty). push_when (\<not> profile_supports ty) (ir_unsupported_type_error fi ''parameter'' i))
      (enumerate 0 (fn_parameters f))) (\<forall>x\<in>set (enumerate 0 (fn_parameters f)). profile_supports (snd x))"
    by (rule checks_each) (auto intro: checks_push_unless)
  from checks_seq [OF this checks_push_when]
  have "checks (check_signature fi f) ((\<forall>x\<in>set (enumerate 0 (fn_parameters f)). profile_supports (snd x)) \<and>
      \<not> \<not> profile_supports (fn_return_type f))"
    unfolding check_signature_def [abs_def] .
  then show ?thesis
    using ball_enumerate_snd [of 0 "fn_parameters f" "\<lambda>ty. ty = TyI32"] by (simp add: profile_supports_def)
qed

lemma resolve_spans_total:
  assumes "wf_source_map sources"
  shows "\<exists>er'. resolve_spans sources es er = Some (map (\<lambda>e. span_ok sources (ex_span e)) es, er') \<and>
    (bounded_errors er \<longrightarrow> bounded_errors er') \<and>
    (clean er' \<longleftrightarrow> clean er \<and> (\<forall>e\<in>set es. span_ok sources (ex_span e)))"
proof (induction es arbitrary: er)
  case (Cons e es)
  have "sm_resolve sources (ex_span e) \<noteq> None"
    using sm_resolve_total [OF assms] by (cases "validated_source sources (ex_span e)") (force simp: sm_resolve_def)+
  then consider (ok) r where "sm_resolve sources (ex_span e) = Some (Inr r)"
    | (bad) x where "sm_resolve sources (ex_span e) = Some (Inl x)"
    by (metis option.exhaust sum.exhaust)
  then show ?case
  proof cases
    case ok
    then show ?thesis using Cons.IH [of er] by (auto simp: span_ok_def)
  next
    case bad
    then show ?thesis using Cons.IH [of "ir_push (from_source_error x) er"] by (auto simp: span_ok_def)
  qed
qed simp

section \<open>Nodes of the arena\<close>

lemma unat_saturating_inc: "unat (saturating_inc w) = min (Suc (unat w)) (2 ^ 32 - 1)"
proof -
  have m: "unat (- 1 :: u32) = 2 ^ 32 - 1" by code_simp
  have lt: "unat w < 2 ^ 32" using unsigned_less [of w] by simp
  show ?thesis
  proof (cases "w = - 1")
    case True
    then show ?thesis using m by (simp add: saturating_inc_def)
  next
    case False
    then have "unat w \<noteq> 2 ^ 32 - 1" using m by (metis word_unat_eq_iff)
    then have lt: "Suc (unat w) < 2 ^ 32" using lt by simp
    then have "unat (w + 1) = Suc (unat w)" by (simp add: unat_word_ariths)
    then show ?thesis using False lt by (simp add: saturating_inc_def)
  qed
qed

lemma counted_bump:
  assumes "counted owners n L" and "x < n"
  shows "counted (owners[x := saturating_inc (owners ! x)]) n (L @ [x])"
  using assms unat_saturating_inc [of "owners ! x"]
  by (auto simp: counted_def nth_list_update)

lemma counted_one:
  assumes "counted owners n L" and "x < n"
  shows "owners ! x = 1 \<longleftrightarrow> count_list L x = 1"
proof -
  have "unat (owners ! x) = min (count_list L x) (2 ^ 32 - 1)" using assms by (simp add: counted_def)
  then show ?thesis by (auto simp: word_unat_eq_iff min_def split: if_splits)
qed

section \<open>One expression\<close>

lemma verify_expression_bounded:
  "bounded_errors er \<Longrightarrow> bounded_errors (snd (snd (verify_expression fi f i v depths owners er))) \<and>
    (clean (snd (snd (verify_expression fi f i v depths owners er))) \<longrightarrow> clean er)"
  by (auto simp: verify_expression_def Let_def split: expr_kind.splits option.splits)

lemma verify_expression_tracked:
  assumes t: "tracked f i depths owners" and i: "i < length (fn_expressions f)" and er: "clean er"
    and ty: "ex_ty (fn_expressions f ! i) = TyI32"
    and res: "verify_expression fi f i v depths owners er = ((d, valid), owners', er')"
  shows "clean er' \<and> d \<le> 128 \<longleftrightarrow> node_ok f i"
    and "node_ok f i \<Longrightarrow> valid \<and> tracked f (Suc i) (depths @ [d]) owners'"
proof -
  let ?e = "fn_expressions f ! i" and ?es = "fn_expressions f"
  have dep: "depths ! j = of_nat (expr_depth ?es j)" "expr_depth ?es j \<le> 128" if "j < i" for j
    using t that by (auto simp: tracked_def node_ok_def)
  have tj: "ex_ty (?es ! j) = TyI32" if "j < i" for j using t that by (simp add: tracked_def node_ok_def)
  have take: "concat (map operand_nodes (take (Suc i) ?es)) = concat (map operand_nodes (take i ?es)) @ operand_nodes ?e"
    using i by (simp add: take_Suc_conv_app_nth)
  have key: "(clean er' \<and> d \<le> 128 \<longleftrightarrow> node_ok f i) \<and> (node_ok f i \<longrightarrow>
      valid \<and> d = of_nat (expr_depth ?es i) \<and> counted owners' (length ?es) (concat (map operand_nodes (take (Suc i) ?es))))"
  proof (cases "ex_kind ?e")
    case (EParameter p)
    then show ?thesis using res er ty t
      by (auto simp: verify_expression_def node_ok_def expr_depth.simps [of ?es i] tracked_def take operand_nodes_def
          split: if_splits)
  next
    case (EBoolLiteral b)
    then show ?thesis using res ty by (auto simp: verify_expression_def node_ok_def)
  next
    case (EI32Literal l)
    then show ?thesis using res er ty t
      by (auto simp: verify_expression_def node_ok_def expr_depth.simps [of ?es i] tracked_def take operand_nodes_def)
  next
    case (EI32Add l r)
    show ?thesis
    proof (cases "unat l < i \<and> unat r < i \<and> l \<noteq> r")
      case False
      then have "\<not> node_ok f i" by (simp add: node_ok_def EI32Add)
      moreover have "\<not> clean er'" using False res
        by (auto simp: verify_expression_def EI32Add predecessor_def split: if_splits)
      ultimately show ?thesis by simp
    next
      case True
      let ?m = "max (depths ! unat l) (depths ! unat r)"
      have small: "expr_depth ?es (unat l) \<le> 128" "expr_depth ?es (unat r) \<le> 128" using dep True by blast+
      have un: "unat (of_nat n :: u32) = n" if "n \<le> 129" for n
        using that by (simp add: unat_of_nat take_bit_nat_eq_self)
      have ul: "unat (depths ! unat l) = expr_depth ?es (unat l)"
        using dep(1) [of "unat l"] un [of "expr_depth ?es (unat l)"] True small by simp
      have ur: "unat (depths ! unat r) = expr_depth ?es (unat r)"
        using dep(1) [of "unat r"] un [of "expr_depth ?es (unat r)"] True small by simp
      have m: "unat ?m = max (expr_depth ?es (unat l)) (expr_depth ?es (unat r))"
        by (simp only: max_def word_le_nat_alt ul ur if_distrib [of unat])
      have d: "expr_depth ?es i = Suc (unat ?m)" using True by (simp add: expr_depth.simps [of ?es i] EI32Add m)
      have d129: "expr_depth ?es i \<le> 129" using d m small by simp
      have "d = saturating_inc ?m" using res True by (auto simp: verify_expression_def EI32Add predecessor_def Let_def)
      then have "unat d = expr_depth ?es i" using unat_saturating_inc [of ?m] d d129 by simp
      then have dd: "d = of_nat (expr_depth ?es i)" "d \<le> 128 \<longleftrightarrow> expr_depth ?es i \<le> 128"
        by (metis of_nat_unat ucast_id, simp add: word_le_nat_alt)
      have ow: "owners' = (owners[unat l := saturating_inc (owners ! unat l)])
          [unat r := saturating_inc (owners[unat l := saturating_inc (owners ! unat l)] ! unat r)]"
        and er': "er' = er" and val: "valid"
        using res True ty tj by (auto simp: verify_expression_def EI32Add predecessor_def Let_def)
      have "counted owners' (length ?es) (concat (map operand_nodes (take (Suc i) ?es)))"
      proof -
        have c: "counted owners (length ?es) (concat (map operand_nodes (take i ?es)))" using t by (simp add: tracked_def)
        have lr: "unat l < length ?es" "unat r < length ?es" using True i by auto
        from counted_bump [OF counted_bump [OF c lr(1)] lr(2)] show ?thesis
          unfolding ow take by (simp add: operand_nodes_def EI32Add)
      qed
      moreover have "node_ok f i \<longleftrightarrow> d \<le> 128" using True ty by (simp add: node_ok_def EI32Add dd(2))
      ultimately show ?thesis using er er' val dd(1) by simp
    qed
  qed
  then show "clean er' \<and> d \<le> 128 \<longleftrightarrow> node_ok f i" by blast
  show "valid \<and> tracked f (Suc i) (depths @ [d]) owners'" if ok: "node_ok f i"
    using key t ok by (auto simp: tracked_def less_Suc_eq)
qed

section \<open>The loop\<close>

lemma expressions_loop_bounded:
  "bounded_errors er \<Longrightarrow> bounded_errors (snd (expressions_loop fi f vs is depths owners gv er)) \<and>
    (clean (snd (expressions_loop fi f vs is depths owners gv er)) \<longrightarrow>
       clean er \<and> fst (expressions_loop fi f vs is depths owners gv er) \<noteq> None)"
proof (induction "is" arbitrary: depths owners gv er)
  case (Cons i "is")
  let ?e = "fn_expressions f ! i"
  let ?er1 = "if profile_supports (ex_ty ?e) then er
     else push_expression_error (vs ! i) (ex_span ?e) ''ZRYNA-I1006''
       (expression_label fi i '' has an unsupported type'')
       ''use only i32 until a wider universal backend profile is enabled'' er"
  obtain d v ow er2 where r: "verify_expression fi f i (vs ! i) depths owners ?er1 = ((d, v), ow, er2)"
    by (metis surj_pair)
  let ?er3 = "if MAX_IR_EXPRESSION_DEPTH < d then push_expression_error (vs ! i) (ex_span ?e) ''ZRYNA-I1008''
     (expression_label fi i ('' exceeds depth '' @ show_nat (unat MAX_IR_EXPRESSION_DEPTH)))
     ''split the expression before Universal IR verification'' er2 else er2"
  have b1: "bounded_errors ?er1" "clean ?er1 \<longrightarrow> clean er" using Cons.prems by auto
  have b2: "bounded_errors er2" "clean er2 \<longrightarrow> clean ?er1" using verify_expression_bounded [OF b1(1)] r by (metis snd_conv)+
  have b3: "bounded_errors ?er3" "clean ?er3 \<longrightarrow> clean er2" using b2 by auto
  show ?case
  proof (cases "ce_exhausted er")
    case True
    then show ?thesis using Cons.prems by (simp add: clean_def)
  next
    case False
    have "expressions_loop fi f vs (i # is) depths owners gv er =
        expressions_loop fi f vs is (depths @ [d]) ow (gv \<and> v \<and> \<not> MAX_IR_EXPRESSION_DEPTH < d) ?er3"
      using False r by (simp add: Let_def)
    then show ?thesis using Cons.IH [OF b3(1)] b1 b2 b3 by (metis (no_types, lifting))
  qed
qed simp

lemma expressions_loop_exact:
  assumes "tracked f k depths owners" and "k \<le> length (fn_expressions f)" and "clean er"
  shows "case expressions_loop fi f vs [k..<length (fn_expressions f)] depths owners True er of
      (None, er') \<Rightarrow> \<not> clean er' \<and> \<not> (\<forall>j<length (fn_expressions f). node_ok f j)
    | (Some (owners', gv), er') \<Rightarrow>
        (clean er' \<longleftrightarrow> (\<forall>j<length (fn_expressions f). node_ok f j)) \<and>
        (clean er' \<longrightarrow> gv \<and> (\<exists>ds. tracked f (length (fn_expressions f)) ds owners'))"
  using assms
proof (induction "length (fn_expressions f) - k" arbitrary: k depths owners er)
  case 0
  then show ?case by (auto simp: tracked_def)
next
  case (Suc m)
  let ?n = "length (fn_expressions f)" and ?e = "fn_expressions f ! k"
  have k: "k < ?n" using Suc.hyps(2) by simp
  have upt: "[k..<?n] = k # [Suc k..<?n]" using k by (simp add: upt_conv_Cons)
  have ne: "\<not> ce_exhausted er" using Suc.prems(3) by (simp add: clean_def)
  have bd: "bounded_errors er" using Suc.prems(3) by (simp add: clean_unique)
  let ?er1 = "if profile_supports (ex_ty ?e) then er
     else push_expression_error (vs ! k) (ex_span ?e) ''ZRYNA-I1006''
       (expression_label fi k '' has an unsupported type'')
       ''use only i32 until a wider universal backend profile is enabled'' er"
  obtain d v ow er2 where r: "verify_expression fi f k (vs ! k) depths owners ?er1 = ((d, v), ow, er2)"
    by (metis surj_pair)
  let ?er3 = "if MAX_IR_EXPRESSION_DEPTH < d then push_expression_error (vs ! k) (ex_span ?e) ''ZRYNA-I1008''
     (expression_label fi k ('' exceeds depth '' @ show_nat (unat MAX_IR_EXPRESSION_DEPTH)))
     ''split the expression before Universal IR verification'' er2 else er2"
  let ?gv = "v \<and> \<not> MAX_IR_EXPRESSION_DEPTH < d"
  have step: "expressions_loop fi f vs [k..<?n] depths owners True er =
      expressions_loop fi f vs [Suc k..<?n] (depths @ [d]) ow ?gv ?er3"
    unfolding upt using ne r by (simp add: Let_def)
  have b1: "bounded_errors ?er1" using bd by auto
  have b2: "bounded_errors er2" using verify_expression_bounded [OF b1, of fi f k "vs ! k" depths owners] r by simp
  have b3: "bounded_errors ?er3" using b2 by auto
  show ?case
  proof (cases "node_ok f k")
    case True
    then have ty: "ex_ty ?e = TyI32" by (simp add: node_ok_def)
    then have e1: "?er1 = er" by (simp add: profile_supports_def)
    note vt = verify_expression_tracked [OF Suc.prems(1) k Suc.prems(3) ty r [unfolded e1]]
    have c: "clean er2" "d \<le> 128" "v" "tracked f (Suc k) (depths @ [d]) ow" using vt True by blast+
    have "?er3 = er2" "?gv" using c by (auto simp: MAX_IR_EXPRESSION_DEPTH_def not_less)
    then show ?thesis
      unfolding step using Suc.hyps(1) [of "Suc k" "depths @ [d]" ow er2] c(1,4) k Suc.hyps(2) by simp
  next
    case False
    have "\<not> clean ?er3"
    proof
      assume cl: "clean ?er3"
      then have "\<not> MAX_IR_EXPRESSION_DEPTH < d" "clean er2" by (auto split: if_splits)
      then have "clean ?er1" using verify_expression_bounded [OF b1, of fi f k "vs ! k" depths owners] r by simp
      then have ty: "ex_ty ?e = TyI32" by (auto simp: profile_supports_def split: if_splits)
      then have e1: "?er1 = er" by (simp add: profile_supports_def)
      show False
        using verify_expression_tracked(1) [OF Suc.prems(1) k Suc.prems(3) ty r [unfolded e1]] False
          \<open>clean er2\<close> \<open>\<not> MAX_IR_EXPRESSION_DEPTH < d\<close> by (simp add: MAX_IR_EXPRESSION_DEPTH_def not_less)
    qed
    then have "\<not> clean (snd (expressions_loop fi f vs [Suc k..<?n] (depths @ [d]) ow ?gv ?er3))"
      using expressions_loop_bounded [OF b3] by blast
    moreover have "\<not> (\<forall>j<?n. node_ok f j)" using False k by blast
    ultimately show ?thesis unfolding step by (auto split: prod.splits option.splits)
  qed
qed

section \<open>The postorder of an arena\<close>

lemma post_add:
  "well_ordered es \<Longrightarrow> i < length es \<Longrightarrow> ex_kind (es ! i) = EI32Add l r \<Longrightarrow>
    post es i = post es (unat l) @ post es (unat r) @ [i]"
  by (simp add: post.simps [of es i] well_ordered_def)

lemma post_leaf: "(\<And>l r. ex_kind (es ! i) \<noteq> EI32Add l r) \<Longrightarrow> post es i = [i]"
  by (auto simp: post.simps [of es i] split: expr_kind.splits)

lemma post_le: "j \<in> set (post es i) \<Longrightarrow> j \<le> i"
proof (induction es i rule: post.induct)
  case (1 es i)
  show ?case
  proof (cases "ex_kind (es ! i)")
    case (EI32Add l r)
    then show ?thesis using 1 by (force simp: post.simps [of es i] split: if_splits)
  qed (use 1 in \<open>auto simp: post.simps [of es i]\<close>)
qed

lemma post_self: "\<exists>xs. post es i = xs @ [i]"
  by (auto simp: post.simps [of es i] split: expr_kind.splits)

lemma post_root [simp]: "i \<in> set (post es i)"
  using post_self [of es i] by auto

lemma post_cases:
  obtains (add) l r where "ex_kind (es ! i) = EI32Add l r"
    | (leaf) "operand_nodes (es ! i) = []" "post es i = [i]" "\<And>l r. ex_kind (es ! i) \<noteq> EI32Add l r"
  by (cases "ex_kind (es ! i)") (auto simp: operand_nodes_def post.simps [of es i])

lemma post_parent:
  assumes "well_ordered es" and "i < length es" and "j \<in> set (post es i)" and "j \<noteq> i"
  shows "\<exists>y\<in>set (post es i). j < y \<and> j \<in> set (operand_nodes (es ! y))"
  using assms
proof (induction i rule: less_induct)
  case (less i)
  show ?case
  proof (cases es i rule: post_cases)
    case (add l r)
    then have lr: "unat l < i" "unat r < i" using less.prems by (auto simp: well_ordered_def)
    note p = post_add [OF less.prems(1,2) add]
    have top: "?thesis" if "j = unat l \<or> j = unat r"
      using that lr p add by (auto simp: operand_nodes_def intro!: bexI [of _ i])
    show ?thesis
    proof (cases "j = unat l \<or> j = unat r")
      case False
      then have "j \<in> set (post es (unat l)) \<and> j \<noteq> unat l \<or> j \<in> set (post es (unat r)) \<and> j \<noteq> unat r"
        using less.prems p by auto
      then show ?thesis using less.IH [OF lr(1)] less.IH [OF lr(2)] less.prems lr unfolding p by fastforce
    qed (rule top)
  qed (use less.prems in auto)
qed

lemma post_closed:
  assumes "well_ordered es" and "i < length es" and "y \<in> set (post es i)" and "j \<in> set (operand_nodes (es ! y))"
  shows "j \<in> set (post es i)"
  using assms
proof (induction i rule: less_induct)
  case (less i)
  show ?case
  proof (cases es i rule: post_cases)
    case (add l r)
    then have lr: "unat l < i" "unat r < i" using less.prems by (auto simp: well_ordered_def)
    note p = post_add [OF less.prems(1,2) add]
    have "y = i \<or> y \<in> set (post es (unat l)) \<or> y \<in> set (post es (unat r))" using less.prems p by auto
    then show ?thesis
    proof (elim disjE)
      assume "y = i"
      then show ?thesis using less.prems add p by (auto simp: operand_nodes_def)
    qed (use less.IH [OF lr(1)] less.IH [OF lr(2)] less.prems lr p in auto)
  qed (use less.prems in auto)
qed

section \<open>Unique owners give one tree\<close>

lemma distinct_concat_nth:
  "distinct (concat xs) \<Longrightarrow> i < length xs \<Longrightarrow> j < length xs \<Longrightarrow> x \<in> set (xs ! i) \<Longrightarrow> x \<in> set (xs ! j) \<Longrightarrow> i = j"
proof (induction xs arbitrary: i j)
  case (Cons y ys)
  show ?case
  proof (cases i; cases j)
    fix i' j' assume "i = Suc i'" "j = Suc j'"
    then show ?thesis using Cons by simp
  next
    fix j' assume "i = 0" "j = Suc j'"
    then show ?thesis using Cons.prems nth_mem [of j' ys] by (fastforce simp: disjoint_iff)
  next
    fix i' assume "i = Suc i'" "j = 0"
    then show ?thesis using Cons.prems nth_mem [of i' ys] by (fastforce simp: disjoint_iff)
  qed simp
qed simp

lemma distinct_count_list: "distinct xs \<longleftrightarrow> (\<forall>x. count_list xs x \<le> 1)"
proof (induction xs)
  case (Cons x xs)
  have "(\<forall>y. count_list (x # xs) y \<le> 1) \<longleftrightarrow> count_list xs x = 0 \<and> (\<forall>y. count_list xs y \<le> 1)"
  proof (intro iffI conjI allI)
    assume a: "\<forall>y. count_list (x # xs) y \<le> 1"
    show "count_list xs x = 0" using a [rule_format, of x] by simp
    show "count_list xs y \<le> 1" for y using a [rule_format, of y] by (simp split: if_splits)
  next
    fix y assume "count_list xs x = 0 \<and> (\<forall>y. count_list xs y \<le> 1)"
    then show "count_list (x # xs) y \<le> 1" by (cases "x = y") auto
  qed
  then show ?case using Cons by (simp add: count_list_0_iff)
qed simp

lemma operand_nodes_lt:
  "well_ordered es \<Longrightarrow> y < length es \<Longrightarrow> x \<in> set (operand_nodes (es ! y)) \<Longrightarrow> x < y"
  by (cases "ex_kind (es ! y)") (auto simp: operand_nodes_def well_ordered_def)

lemma owned_distinct:
  assumes "well_ordered es" and "owned_once es body" and "body < length es"
  shows "distinct (concat (map operand_nodes es) @ [body])"
proof -
  have "count_list (concat (map operand_nodes es) @ [body]) x \<le> 1" for x
  proof (cases "x < length es")
    case True
    then show ?thesis using assms by (auto simp: owned_once_def)
  next
    case False
    then have "x \<notin> set (concat (map operand_nodes es) @ [body])"
      using operand_nodes_lt [OF assms(1)] assms(3) by (fastforce simp: in_set_conv_nth)
    then have "count_list (concat (map operand_nodes es) @ [body]) x = 0" by (rule count_list_0_iff [THEN iffD2])
    then show ?thesis by simp
  qed
  then show ?thesis by (simp only: distinct_count_list) blast
qed

lemma owner_unique:
  assumes "well_ordered es" and "owned_once es body" and "body < length es"
    and "y < length es" "z < length es" "x \<in> set (operand_nodes (es ! y))" "x \<in> set (operand_nodes (es ! z))"
  shows "y = z"
  using distinct_concat_nth [of "map operand_nodes es" y z x] owned_distinct [OF assms(1-3)] assms(4-) by simp

lemma post_overlap:
  assumes "well_ordered es" and "owned_once es body" and "body < length es"
    and "i < length es" "j < length es" "x \<in> set (post es i)" "x \<in> set (post es j)"
  shows "i \<in> set (post es j) \<or> j \<in> set (post es i)"
  using assms(6,7)
proof (induction "length es - x" arbitrary: x rule: less_induct)
  case less
  show ?case
  proof (cases "x = i \<or> x = j")
    case False
    obtain y where y: "y \<in> set (post es i)" "x < y" "x \<in> set (operand_nodes (es ! y))"
      using post_parent [OF assms(1,4) less.prems(1)] False by auto
    obtain z where z: "z \<in> set (post es j)" "x \<in> set (operand_nodes (es ! z))"
      using post_parent [OF assms(1,5) less.prems(2)] False by auto
    have yn: "y < length es" using post_le [OF y(1)] assms(4) by simp
    have "z < length es" using post_le [OF z(1)] assms(5) by simp
    then have "y = z" using owner_unique [OF assms(1-3) yn _ y(3) z(2)] by simp
    then show ?thesis using less.hyps [of y] y z yn by simp
  qed (use less.prems in auto)
qed

lemma post_distinct:
  assumes "well_ordered es" and "owned_once es body" and "body < length es" and "i < length es"
  shows "distinct (post es i)"
  using assms(4)
proof (induction i rule: less_induct)
  case (less i)
  show ?case
  proof (cases es i rule: post_cases)
    case (add l r)
    then have lr: "unat l < i" "unat r < i" "l \<noteq> r" using less.prems assms(1) by (auto simp: well_ordered_def)
    have opi: "unat l \<in> set (operand_nodes (es ! i))" "unat r \<in> set (operand_nodes (es ! i))"
      using add by (simp_all add: operand_nodes_def)
    have notin: "a \<notin> set (post es b)"
      if a: "a \<in> set (operand_nodes (es ! i))" and "b < i" and "a \<noteq> b" for a b
    proof
      assume "a \<in> set (post es b)"
      then obtain y where y: "y \<in> set (post es b)" "a \<in> set (operand_nodes (es ! y))"
        using post_parent [OF assms(1), of b a] \<open>b < i\<close> \<open>a \<noteq> b\<close> less.prems by auto
      have "y < i" using post_le [OF y(1)] \<open>b < i\<close> by simp
      then have "y = i" using owner_unique [OF assms(1-3) _ less.prems y(2) a] less.prems by simp
      then show False using \<open>y < i\<close> by simp
    qed
    have "set (post es (unat l)) \<inter> set (post es (unat r)) = {}"
    proof (rule ccontr)
      assume "set (post es (unat l)) \<inter> set (post es (unat r)) \<noteq> {}"
      then have "unat l \<in> set (post es (unat r)) \<or> unat r \<in> set (post es (unat l))"
        using post_overlap [OF assms(1-3), of "unat l" "unat r"] lr less.prems by auto
      then show False using notin [OF opi(1) lr(2)] notin [OF opi(2) lr(1)] lr(3) by (auto simp: word_unat_eq_iff)
    qed
    moreover have "i \<notin> set (post es (unat l))" "i \<notin> set (post es (unat r))" using post_le [of i] lr by fastforce+
    ultimately show ?thesis
      using less.IH [OF lr(1)] less.IH [OF lr(2)] lr less.prems post_add [OF assms(1) less.prems add] by auto
  qed simp
qed

lemma post_covers:
  assumes "well_ordered es" and "owned_once es body" and "body < length es" and "x < length es"
  shows "x \<in> set (post es body)"
  using assms(4)
proof (induction "length es - x" arbitrary: x rule: less_induct)
  case less
  show ?case
  proof (cases "x = body")
    case False
    have "count_list (concat (map operand_nodes es) @ [body]) x = 1" using assms(2) less.prems by (simp add: owned_once_def)
    then have "x \<in> set (concat (map operand_nodes es))" using False
      by (metis count_list_0_iff One_nat_def Un_iff empty_iff list.set(1) list.set(2) insert_iff set_append zero_neq_one)
    then obtain y where y: "y < length es" "x \<in> set (operand_nodes (es ! y))" by (auto simp: set_concat in_set_conv_nth [of _ es])
    then have "x < y" using operand_nodes_lt [OF assms(1)] by blast
    then have "y \<in> set (post es body)" using less.hyps [of y] y(1) less.prems by simp
    then show ?thesis using post_closed [OF assms(1,3)] y(2) by blast
  qed simp
qed

section \<open>The canonical postorder check\<close>

lemma pending_simps [simp]:
  "pending es [] = []" "pending es ((i, True) # stack) = i # pending es stack"
  "pending es ((i, False) # stack) = post es i @ pending es stack"
  by (simp_all add: pending_def)

lemma upt_Cons_eq: "x # xs = [e..<Suc (e + n)] \<longleftrightarrow> x = e \<and> xs = [Suc e..<Suc (e + n)]"
  by (simp add: upt_conv_Cons del: upt_Suc)

lemma postorder_loop_bounded:
  "bounded_errors er \<Longrightarrow> bounded_errors (postorder_loop fi f vs stack emitted e er) \<and>
    (clean (postorder_loop fi f vs stack emitted e er) \<longrightarrow> clean er)"
proof (induction fi f vs stack emitted e er rule: postorder_loop.induct)
  case (3 fi f vs i stack emitted e er)
  then show ?case by (auto split: expr_kind.splits option.splits)
qed auto

lemma postorder_loop_exact:
  assumes "well_ordered (fn_expressions f)" and "length emitted = length (fn_expressions f)"
    and "distinct (pending (fn_expressions f) stack)"
    and "\<forall>j\<in>set (pending (fn_expressions f) stack). j < length (fn_expressions f) \<and> \<not> emitted ! j"
    and "clean er"
  shows "clean (postorder_loop fi f vs stack emitted e er) \<longleftrightarrow>
    pending (fn_expressions f) stack = [e..<e + length (pending (fn_expressions f) stack)]"
  using assms
proof (induction fi f vs stack emitted e er rule: postorder_loop.induct)
  case (1 fi f vs emitted e er)
  then show ?case by simp
next
  case (2 fi f vs i stack emitted e er)
  show ?case
  proof (cases "i = e")
    case True
    have "\<forall>j\<in>set (pending (fn_expressions f) stack). j < length (emitted[i := True]) \<and> \<not> emitted[i := True] ! j"
      using 2 by (auto simp: nth_list_update)
    then show ?thesis using 2 True by (simp add: upt_Cons_eq del: upt_Suc)
  next
    case False
    then show ?thesis using 2 by (simp add: upt_Cons_eq del: upt_Suc)
  qed
next
  case (3 fi f vs i stack emitted e er)
  have ne: "\<not> emitted ! i" and i: "i < length (fn_expressions f)" using "3.prems" post_root [of i "fn_expressions f"] by auto
  show ?case
  proof (cases "fn_expressions f" i rule: post_cases)
    case (add l r)
    then have lr: "unat l < i" "unat r < i" using "3.prems"(1) i by (auto simp: well_ordered_def)
    have eq: "pending (fn_expressions f) ((unat l, False) # (unat r, False) # (i, True) # stack) =
        pending (fn_expressions f) ((i, False) # stack)"
      using post_add [OF "3.prems"(1) i add] by simp
    have p: "predecessor l i = Some (unat l)" "predecessor r i = Some (unat r)" using lr by (simp_all add: predecessor_def)
    have ih: "clean (postorder_loop fi f vs ((unat l, False) # (unat r, False) # (i, True) # stack) emitted e er) \<longleftrightarrow>
       pending (fn_expressions f) ((i, False) # stack) =
         [e..<e + length (pending (fn_expressions f) ((i, False) # stack))]"
      using "3.IH"(4) [OF ne add refl p] "3.prems" unfolding eq by blast
    show ?thesis using ih p by (simp add: ne add)
  next
    case leaf
    have eq: "pending (fn_expressions f) ((i, True) # stack) = pending (fn_expressions f) ((i, False) # stack)"
      using leaf by simp
    have "postorder_loop fi f vs ((i, False) # stack) emitted e er = postorder_loop fi f vs ((i, True) # stack) emitted e er"
      using leaf(3) ne by (auto split: expr_kind.splits)
    moreover have "clean (postorder_loop fi f vs ((i, True) # stack) emitted e er) \<longleftrightarrow>
       pending (fn_expressions f) ((i, True) # stack) = [e..<e + length (pending (fn_expressions f) ((i, True) # stack))]"
      using "3.IH"(2,3,5) ne leaf(3) "3.prems" unfolding eq
      by (cases "ex_kind (fn_expressions f ! i)") blast+
    ultimately show ?thesis unfolding eq by simp
  qed
qed

section \<open>A postorder arena is the arena of a tree\<close>

lemma arena_length [simp]: "length (arena t e) = nodes t"
  by (induction t arbitrary: e) simp_all

lemma nodes_pos [simp]: "0 < nodes t"
  by (cases t) simp_all

lemma segment_split:
  assumes "a \<le> b" "b \<le> c" "c < length es"
  shows "take (Suc c - a) (drop a es) =
    take (b - a) (drop a es) @ take (c - b) (drop b es) @ [es ! c]"
proof -
  have "take (Suc c - a) (drop a es) = take (c - a) (drop a es) @ [es ! c]"
    using assms by (simp add: Suc_diff_le take_Suc_conv_app_nth)
  moreover have "take (c - a) (drop a es) = take (b - a) (drop a es) @ take (c - b) (drop b es)"
    using take_add [of "b - a" "c - b" "drop a es"] assms by simp
  ultimately show ?thesis by simp
qed

lemma upt_append_split:
  assumes "xs @ ys = [e..<n]" and "e \<le> n"
  shows "\<exists>k. e \<le> k \<and> k \<le> n \<and> xs = [e..<k] \<and> ys = [k..<n]"
proof (intro exI conjI)
  have "length (xs @ ys) = n - e" using assms(1) by simp
  then show l: "e + length xs \<le> n" using assms(2) by simp
  have "take (length xs) (xs @ ys) = take (length xs) [e..<n]" using assms(1) by simp
  then show "xs = [e..<e + length xs]" using l by (simp add: take_upt)
  have "drop (length xs) (xs @ ys) = drop (length xs) [e..<n]" using assms(1) by simp
  then show "ys = [e + length xs..<n]" by (simp add: drop_upt add.commute)
qed simp

lemma postorder_tree:
  assumes "\<forall>j<length (fn_expressions f). node_ok f j" and "i < length (fn_expressions f)"
    and "post (fn_expressions f) i = [e..<Suc i]"
  shows "\<exists>t. map ex_kind (take (Suc i - e) (drop e (fn_expressions f))) = arena t e \<and> nodes t = Suc i - e \<and>
    depth t = expr_depth (fn_expressions f) i"
  using assms(2,3)
proof (induction i arbitrary: e rule: less_induct)
  case (less i)
  let ?es = "fn_expressions f"
  have ok: "node_ok f i" using assms(1) less.prems by blast
  have wo: "well_ordered ?es" using assms(1) by (fastforce simp: well_ordered_def node_ok_def)
  have ei: "e \<le> i" using less.prems(2) post_root [of i ?es] by (simp del: upt_Suc)
  show ?case
  proof (cases ?es i rule: post_cases)
    case (add l r)
    then have lr: "unat l < i" "unat r < i" using wo less.prems by (auto simp: well_ordered_def)
    have "post ?es (unat l) @ post ?es (unat r) @ [i] = [e..<Suc i]"
      using post_add [OF wo less.prems(1) add] less.prems(2) by simp
    then have cat: "post ?es (unat l) @ post ?es (unat r) = [e..<i]" using ei by simp
    then obtain k where k: "e \<le> k" "k \<le> i" "[e..<k] = post ?es (unat l)" "[k..<i] = post ?es (unat r)"
      using upt_append_split [OF cat ei] by auto
    have kl: "k = Suc (unat l)"
      using k(3) post_self [of ?es "unat l"] by (cases "e < k") (auto simp: upt_eq_Nil_conv dest: arg_cong [of _ _ last])
    have ri: "i = Suc (unat r)"
      using k(4) post_self [of ?es "unat r"] by (cases "k < i") (auto simp: upt_eq_Nil_conv dest: arg_cong [of _ _ last])
    obtain tl where tl: "map ex_kind (take (k - e) (drop e ?es)) = arena tl e" "nodes tl = k - e"
        "depth tl = expr_depth ?es (unat l)"
      using less.IH [OF lr(1), of e] k(3) kl less.prems lr by auto
    obtain tr where tr: "map ex_kind (take (i - k) (drop k ?es)) = arena tr k" "nodes tr = i - k"
        "depth tr = expr_depth ?es (unat r)"
      using less.IH [OF lr(2), of k] k(4) ri less.prems lr by auto
    have "map ex_kind (take (Suc i - e) (drop e ?es)) = arena (IAdd tl tr) e"
      unfolding segment_split [OF k(1,2) less.prems(1)] using tl tr k kl ri add by simp
    moreover have "nodes (IAdd tl tr) = Suc i - e" using tl(2) tr(2) k by simp
    moreover have "depth (IAdd tl tr) = expr_depth ?es i" using tl(3) tr(3) lr by (simp add: expr_depth.simps [of ?es i] add)
    ultimately show ?thesis by blast
  next
    case leaf
    then have "[i] = [e..<Suc i]" using less.prems by simp
    then have "e = i" by (metis append_Cons append_Nil ei le_eq_less_or_eq list.sel(1) upt_rec less_Suc_eq_le)
    moreover have "take (Suc 0) (drop i ?es) = [?es ! i]" using less.prems by (simp add: take_Suc_conv_app_nth)
    ultimately have seg: "take (Suc i - e) (drop e ?es) = [?es ! i]" by simp
    have d: "expr_depth ?es i = 1" using leaf(3) by (auto simp: expr_depth.simps [of ?es i] split: expr_kind.splits)
    show ?thesis
    proof (cases "ex_kind (?es ! i)")
      case (EParameter p)
      then show ?thesis using seg d \<open>e = i\<close> by (intro exI [of _ "ILeaf_Parameter p"]) simp
    next
      case (EI32Literal v)
      then show ?thesis using seg d \<open>e = i\<close> by (intro exI [of _ "ILeaf_Literal v"]) simp
    qed (use ok leaf(3) in \<open>auto simp: node_ok_def\<close>)
  qed
qed

section \<open>The arena of a tree passes every check\<close>

lemma describes_leaf:
  assumes "ex_kind (es ! e) = EParameter p \<or> ex_kind (es ! e) = EI32Literal v" and "e < length es"
    and "nodes t = 1" "depth t = 1"
  shows "describes es e t"
proof -
  have "take 1 (drop e es) = [es ! e]" using assms(2) by (simp add: take_Suc_conv_app_nth)
  then show ?thesis using assms
    by (auto simp: describes_def less_Suc_eq_le operand_nodes_def expr_depth.simps [of es e] post.simps [of es e]
        dest!: le_antisym)
qed

lemma describes_add:
  assumes l: "describes es e t1" and r: "describes es (e + nodes t1) t2"
    and k: "ex_kind (es ! (e + nodes t1 + nodes t2)) =
      EI32Add (of_nat (e + nodes t1 - 1)) (of_nat (e + nodes t1 + nodes t2 - 1))"
    and len: "e + nodes t1 + nodes t2 < length es" "e + nodes t1 + nodes t2 < 2 ^ 32"
  shows "describes es e (IAdd t1 t2)"
proof -
  let ?n = "e + nodes t1 + nodes t2" and ?a = "e + nodes t1 - 1" and ?b = "e + nodes t1 + nodes t2 - 1"
  have pos: "0 < nodes t1" "0 < nodes t2" by simp_all
  have u: "unat (of_nat ?a :: u32) = ?a" "unat (of_nat ?b :: u32) = ?b"
    using len(2) by (simp_all add: unat_of_nat take_bit_nat_eq_self)
  have ab: "?a < ?b" "?b < ?n" using pos by linarith+
  have lt: "?a < ?n" "?b < ?n" "(of_nat ?a :: u32) \<noteq> of_nat ?b"
    using ab u by (linarith, linarith, metis less_irrefl)
  have dep: "expr_depth es ?n = depth (IAdd t1 t2)"
    using l r lt u by (simp add: expr_depth.simps [of es ?n] k describes_def Let_def)
  have po: "post es ?n = [e..<Suc ?n]"
  proof -
    have "post es ?n = post es ?a @ post es ?b @ [?n]" using lt u by (simp add: post.simps [of es ?n] k)
    also have "\<dots> = [e..<e + nodes t1] @ [e + nodes t1..<?n] @ [?n]" using l r by (simp add: describes_def Let_def)
    also have "\<dots> = [e..<Suc ?n]" using upt_add_eq_append [of e "e + nodes t1" "nodes t2"] by simp
    finally show ?thesis .
  qed
  have node: "(\<forall>b. ex_kind (es ! i) \<noteq> EBoolLiteral b) \<and> expr_depth es i \<le> depth (IAdd t1 t2) \<and>
      (\<forall>l r. ex_kind (es ! i) = EI32Add l r \<longrightarrow> unat l < i \<and> unat r < i \<and> l \<noteq> r)" if i: "e \<le> i" "i < Suc ?n" for i
  proof -
    consider "i < e + nodes t1" | "e + nodes t1 \<le> i" "i < ?n" | "i = ?n" using i by linarith
    then show ?thesis
    proof cases
      case 1
      then have "expr_depth es i \<le> depth t1" using l i by (simp add: describes_def Let_def)
      then have "expr_depth es i \<le> depth (IAdd t1 t2)" by simp
      then show ?thesis using 1 l i by (simp add: describes_def Let_def)
    next
      case 2
      then have "expr_depth es i \<le> depth t2" using r by (simp add: describes_def Let_def)
      then have "expr_depth es i \<le> depth (IAdd t1 t2)" by simp
      then show ?thesis using 2 r by (simp add: describes_def Let_def)
    next
      case 3
      then show ?thesis using k lt u dep by simp
    qed
  qed
  have "mset (concat (map operand_nodes (take (Suc ?n - e) (drop e es)))) + {#?n#} = mset [e..<Suc ?n]"
  proof -
    have "take (Suc ?n - e) (drop e es) =
        take (nodes t1) (drop e es) @ take (nodes t2) (drop (e + nodes t1) es) @ [es ! ?n]"
      using segment_split [of e "e + nodes t1" ?n es] len(1) by simp
    moreover have "operand_nodes (es ! ?n) = [?a, ?b]" using k u by (simp add: operand_nodes_def)
    moreover have "mset [e..<Suc ?n] = mset [e..<e + nodes t1] + mset [e + nodes t1..<?n] + {#?n#}"
      using upt_add_eq_append [of e "e + nodes t1" "nodes t2"] by simp
    ultimately show ?thesis using l r by (simp add: describes_def Let_def union_assoc union_commute union_lcomm)
  qed
  moreover have "e + nodes (IAdd t1 t2) = Suc ?n" "nodes (IAdd t1 t2) = Suc ?n - e" "Suc ?n - 1 = ?n" by simp_all
  ultimately have ms: "mset (concat (map operand_nodes (take (nodes (IAdd t1 t2)) (drop e es)))) + {#e + nodes (IAdd t1 t2) - 1#} =
      mset [e..<e + nodes (IAdd t1 t2)]" and n: "e + nodes (IAdd t1 t2) = Suc ?n" "Suc ?n - 1 = ?n"
    by (simp_all only:)
  show ?thesis unfolding describes_def Let_def using ms dep po node unfolding n by blast
qed

lemma arena_split:
  assumes "map ex_kind (take (nodes (IAdd t1 t2)) (drop e es)) = arena (IAdd t1 t2) e"
    and "e + nodes (IAdd t1 t2) \<le> length es"
  shows "map ex_kind (take (nodes t1) (drop e es)) = arena t1 e"
    "map ex_kind (take (nodes t2) (drop (e + nodes t1) es)) = arena t2 (e + nodes t1)"
    "ex_kind (es ! (e + nodes t1 + nodes t2)) = EI32Add (of_nat (e + nodes t1 - 1)) (of_nat (e + nodes t1 + nodes t2 - 1))"
proof -
  let ?n = "e + nodes t1 + nodes t2"
  have "take (Suc ?n - e) (drop e es) =
      take (nodes t1) (drop e es) @ take (nodes t2) (drop (e + nodes t1) es) @ [es ! ?n]"
    using segment_split [of e "e + nodes t1" ?n es] assms(2) by simp
  then have "map ex_kind (take (nodes t1) (drop e es)) @ map ex_kind (take (nodes t2) (drop (e + nodes t1) es)) @
      [ex_kind (es ! ?n)] = arena (IAdd t1 t2) e"
    using assms(1) by simp
  then show "map ex_kind (take (nodes t1) (drop e es)) = arena t1 e"
    "map ex_kind (take (nodes t2) (drop (e + nodes t1) es)) = arena t2 (e + nodes t1)"
    "ex_kind (es ! ?n) = EI32Add (of_nat (e + nodes t1 - 1)) (of_nat (?n - 1))"
    using assms(2) by (auto simp: append_eq_append_conv)
qed

lemma arena_describes:
  "map ex_kind (take (nodes t) (drop e es)) = arena t e \<Longrightarrow> e + nodes t \<le> length es \<Longrightarrow> e + nodes t \<le> 2 ^ 32 \<Longrightarrow>
    describes es e t"
proof (induction t arbitrary: e)
  case (ILeaf_Parameter p)
  then have "take 1 (drop e es) = [es ! e]" by (simp add: take_Suc_conv_app_nth)
  then show ?case using ILeaf_Parameter by (intro describes_leaf) auto
next
  case (ILeaf_Literal v)
  then have "take 1 (drop e es) = [es ! e]" by (simp add: take_Suc_conv_app_nth)
  then show ?case using ILeaf_Literal by (intro describes_leaf) auto
next
  case (IAdd t1 t2)
  then show ?case using arena_split [OF IAdd.prems(1,2)] by (intro describes_add) auto
qed

section \<open>Bodies\<close>

lemma count_list_mset: "count_list xs x = count (mset xs) x"
  by (induction xs) auto

lemma body_ok_iff:
  assumes n: "length (fn_expressions f) \<le> 2 ^ 32" and b: "unat (fn_body f) < length (fn_expressions f)"
  shows "body_ok f \<longleftrightarrow> (\<forall>j<length (fn_expressions f). node_ok f j) \<and>
    owned_once (fn_expressions f) (unat (fn_body f)) \<and>
    post (fn_expressions f) (unat (fn_body f)) = [0..<length (post (fn_expressions f) (unat (fn_body f)))]"
    (is "_ \<longleftrightarrow> ?N \<and> ?O \<and> ?P")
proof
  let ?es = "fn_expressions f" and ?b = "unat (fn_body f)"
  assume ok: "body_ok f"
  then obtain t where t: "map ex_kind ?es = arena t 0" "?b = nodes t - 1" "depth t \<le> 128" by (auto simp: body_ok_def)
  have nt: "length ?es = nodes t" using arg_cong [OF t(1), of length] by simp
  have d: "describes ?es 0 t" using arena_describes [of t 0 ?es] t(1) nt n by simp
  have N: "node_ok f j" if j: "j < length ?es" for j
  proof -
    have "?es ! j \<in> set ?es" using j by simp
    moreover have "expr_depth ?es j \<le> 128" using d j nt t(3) le_trans by (fastforce simp: describes_def Let_def)
    ultimately show ?thesis using d j nt ok
      by (cases "ex_kind (?es ! j)") (auto simp: node_ok_def body_ok_def describes_def Let_def)
  qed
  have "mset (concat (map operand_nodes ?es) @ [?b]) = mset [0..<length ?es]"
    using d nt t(2) by (simp add: describes_def Let_def)
  then have O: ?O by (simp only: owned_once_def count_list_mset) simp
  have ?P using d nt t(2) by (simp add: describes_def Let_def)
  then show "?N \<and> ?O \<and> ?P" using N O by blast
next
  let ?es = "fn_expressions f" and ?b = "unat (fn_body f)"
  assume a: "?N \<and> ?O \<and> ?P"
  then have wo: "well_ordered ?es" by (fastforce simp: well_ordered_def node_ok_def)
  have cov: "set (post ?es ?b) = {0..<length ?es}"
    using post_covers [OF wo _ b] a post_le [of _ ?es ?b] b by (fastforce intro!: set_eqI)
  have dis: "distinct (post ?es ?b)" using post_distinct [OF wo _ b b] a by blast
  have len: "length (post ?es ?b) = length ?es" using distinct_card [OF dis] cov by simp
  have p: "post ?es ?b = [0..<length ?es]" using a len by simp
  have "last (post ?es ?b) = ?b" using post_self [of ?es ?b] by auto
  then have bl: "?b = length ?es - 1" using p b by (cases "length ?es") auto
  have N: ?N using a by blast
  have "Suc ?b = length ?es" using bl b by simp
  then have "post ?es ?b = [0..<Suc ?b]" using p by (simp only:)
  from postorder_tree [OF N b this] obtain t where t: "map ex_kind ?es = arena t 0" "nodes t = length ?es"
      "depth t = expr_depth ?es ?b"
    using bl b by auto
  have nk: "node_ok f ?b" using N b by blast
  have "ex_ty e = TyI32 \<and> (\<forall>p. ex_kind e = EParameter p \<longrightarrow> get_at (fn_parameters f) (unat p) = Some TyI32)"
    if e: "e \<in> set ?es" for e
  proof -
    obtain j where "j < length ?es" "e = ?es ! j" using e by (auto simp: in_set_conv_nth)
    then show ?thesis using N [rule_format, of j] by (cases "ex_kind e") (auto simp: node_ok_def)
  qed
  then show "body_ok f" using t bl nk by (auto simp: body_ok_def node_ok_def)
qed

section \<open>The verifier of expressions\<close>

lemma verify_expressions_bounded:
  assumes "bounded_errors er"
  shows "bounded_errors (verify_expressions fi f vs b er) \<and> (clean (verify_expressions fi f vs b er) \<longrightarrow> clean er)"
proof -
  let ?n = "length (fn_expressions f)"
  obtain r er1 where l: "expressions_loop fi f vs [0..<?n] [] (replicate ?n 0) True er = (r, er1)" by (metis surj_pair)
  have b1: "bounded_errors er1" "clean er1 \<longrightarrow> clean er"
    using expressions_loop_bounded [OF assms, of fi f vs "[0..<?n]" "[]" "replicate ?n 0" True] l by auto
  then show ?thesis
    using postorder_loop_bounded [OF b1(1)]
    by (auto simp: verify_expressions_def l Let_def owner_error_def verify_canonical_postorder_def
        simp del: postorder_loop.simps split: option.splits prod.splits)
qed

lemma tracked_start: "tracked f 0 [] (replicate (length (fn_expressions f)) 0)"
  by (simp add: tracked_def counted_def)

lemma find_owner:
  assumes "counted owners n L"
  shows "List.find (\<lambda>(_, k). k \<noteq> 1) (enumerate 0 owners) = None \<longleftrightarrow> (\<forall>x<n. count_list L x = 1)"
proof -
  have "List.find (\<lambda>(_, k). k \<noteq> 1) (enumerate 0 owners) = None \<longleftrightarrow> (\<forall>x<length owners. owners ! x = 1)"
    by (auto simp: find_None_iff in_set_enumerate_eq)
  also have "\<dots> \<longleftrightarrow> (\<forall>x<n. count_list L x = 1)"
    using counted_one [OF assms] assms by (simp add: counted_def)
  finally show ?thesis .
qed

lemma verify_expressions_exact:
  assumes n: "length (fn_expressions f) \<le> 2 ^ 32" and b: "unat (fn_body f) < length (fn_expressions f)" and er: "clean er"
  shows "clean (verify_expressions fi f vs (Some (unat (fn_body f))) er) \<longleftrightarrow> body_ok f"
proof -
  let ?es = "fn_expressions f" and ?n = "length (fn_expressions f)" and ?b = "unat (fn_body f)"
  obtain r er1 where l: "expressions_loop fi f vs [0..<?n] [] (replicate ?n 0) True er = (r, er1)" by (metis surj_pair)
  note ex = expressions_loop_exact [OF tracked_start _ er, of f fi vs, unfolded l, simplified]
  have b1: "bounded_errors er1"
    using expressions_loop_bounded [of er fi f vs "[0..<?n]" "[]" "replicate ?n 0" True] l er by (simp add: clean_unique)
  show ?thesis
  proof (cases "\<forall>j<?n. node_ok f j")
    case False
    then have "\<not> clean er1" using ex by (auto split: option.splits)
    then have "\<not> clean (verify_expressions fi f vs (Some ?b) er)"
      using postorder_loop_bounded [OF b1]
      by (auto simp: verify_expressions_def l Let_def owner_error_def verify_canonical_postorder_def
          simp del: postorder_loop.simps split: option.splits prod.splits)
    then show ?thesis using False body_ok_iff [OF n b] by blast
  next
    case True
    then obtain owners gv where r: "r = Some (owners, gv)" using ex by (cases r) auto
    have c1: "clean er1" and gv: "gv" and tr: "\<exists>ds. tracked f ?n ds owners" using ex True r by auto
    have wo: "well_ordered ?es" using True by (fastforce simp: well_ordered_def node_ok_def)
    have cnt: "counted (owners[?b := saturating_inc (owners ! ?b)]) ?n (concat (map operand_nodes ?es) @ [?b])"
      using tr counted_bump [OF _ b] by (auto simp: tracked_def)
    let ?wrong = "List.find (\<lambda>(_, n). n \<noteq> 1) (enumerate 0 (owners[?b := saturating_inc (owners ! ?b)]))"
    show ?thesis
    proof (cases "owned_once ?es ?b")
      case False
      then have "?wrong \<noteq> None" using find_owner [OF cnt] by (simp only: owned_once_def) blast
      then show ?thesis using False body_ok_iff [OF n b]
        by (auto simp: verify_expressions_def l r gv Let_def owner_error_def)
    next
      case True
      then have none: "?wrong = None" using find_owner [OF cnt] by (simp only: owned_once_def)
      have dis: "distinct (post ?es ?b)" using post_distinct [OF wo True b b] .
      have lt: "\<forall>j\<in>set (post ?es ?b). j < ?n" using post_le [of _ ?es ?b] b by fastforce
      have "verify_expressions fi f vs (Some ?b) er = postorder_loop fi f vs [(?b, False)] (replicate ?n False) 0 er1"
        using none by (simp add: verify_expressions_def l r gv Let_def verify_canonical_postorder_def)
      moreover have "clean (postorder_loop fi f vs [(?b, False)] (replicate ?n False) 0 er1) \<longleftrightarrow>
          post ?es ?b = [0..<length (post ?es ?b)]"
        using postorder_loop_exact [OF wo _ _ _ c1, of "replicate ?n False" "[(?b, False)]" fi vs 0] dis lt by simp
      ultimately show ?thesis using \<open>\<forall>j<?n. node_ok f j\<close> True body_ok_iff [OF n b] by simp
    qed
  qed
qed

section \<open>Functions and programs\<close>

lemma function_ok_iff:
  "function_ok sources f \<longleftrightarrow> (\<forall>ty\<in>set (fn_parameters f). ty = TyI32) \<and> fn_return_type f = TyI32 \<and>
    (\<forall>e\<in>set (fn_expressions f). span_ok sources (ex_span e)) \<and> body_ok f"
proof -
  have "get_at (fn_parameters f) k = Some TyI32 \<longleftrightarrow> k < length (fn_parameters f)"
    if "\<forall>ty\<in>set (fn_parameters f). ty = TyI32" for k
    using that nth_mem [of k "fn_parameters f"] by (auto simp: get_at_def)
  then show ?thesis by (auto simp: function_ok_def body_ok_def)
qed

lemma body_ok_root: "body_ok f \<Longrightarrow> unat (fn_body f) < length (fn_expressions f)"
proof -
  assume "body_ok f"
  then obtain t where t: "map ex_kind (fn_expressions f) = arena t 0" "unat (fn_body f) = nodes t - 1"
    by (auto simp: body_ok_def)
  have "length (fn_expressions f) = nodes t" using arg_cong [OF t(1), of length] by simp
  then show ?thesis using t(2) nodes_pos [of t] by simp
qed

lemma ir_verify_function_exact:
  assumes wf: "wf_source_map sources" and n: "length (fn_expressions f) \<le> 2 ^ 32" and er: "bounded_errors er"
  shows "\<exists>er'. ir_verify_function fi f sources er = Some er' \<and> bounded_errors er' \<and>
    (clean er' \<longleftrightarrow> clean er \<and> function_ok sources f)"
proof -
  let ?b = "unat (fn_body f)" and ?es = "fn_expressions f"
  have s: "bounded_errors (check_signature fi f er)" "clean (check_signature fi f er) \<longleftrightarrow> clean er \<and>
      (\<forall>ty\<in>set (fn_parameters f). ty = TyI32) \<and> fn_return_type f = TyI32"
    using checksD [OF check_signature_checks er, of fi f] by auto
  obtain er1 where r: "resolve_spans sources ?es (check_signature fi f er) =
        Some (map (\<lambda>e. span_ok sources (ex_span e)) ?es, er1)"
      "bounded_errors er1" "clean er1 \<longleftrightarrow> clean (check_signature fi f er) \<and> (\<forall>e\<in>set ?es. span_ok sources (ex_span e))"
    using resolve_spans_total [OF wf, of ?es "check_signature fi f er"] s(1) by blast
  let ?vs = "map (\<lambda>e. span_ok sources (ex_span e)) ?es"
  show ?thesis
  proof (cases "?b < length ?es")
    case False
    then have "\<not> function_ok sources f" using body_ok_root by (auto simp: function_ok_iff)
    then show ?thesis
      using False r verify_expressions_bounded [OF ir_push_simps(2) [OF r(2)], of fi f ?vs None]
      by (auto simp: ir_verify_function_def Let_def)
  next
    case True
    let ?er2 = "if ?vs ! ?b \<and> ex_ty (?es ! ?b) \<noteq> fn_return_type f
       then ir_push (diagnostic_error_at ''ZRYNA-I1002'' (ex_span (?es ! ?b))
          (''function #'' @ show_nat fi @ '' returns the wrong IR type'')
          ''make the body expression type equal the declared return type'') er1 else er1"
    have e: "ir_verify_function fi f sources er = Some (verify_expressions fi f ?vs (Some ?b) ?er2)"
      using True r(1) by (simp add: ir_verify_function_def Let_def)
    have b2: "bounded_errors ?er2" using r(2) by simp
    have "clean (verify_expressions fi f ?vs (Some ?b) ?er2) \<longleftrightarrow> clean er \<and> function_ok sources f"
    proof (cases "clean ?er2")
      case c2: True
      then have er1: "?er2 = er1" by (auto split: if_splits)
      then have c1: "clean er1" using c2 by simp
      show ?thesis unfolding er1 using verify_expressions_exact [OF n True c1, of fi ?vs] c1 r(3) s(2)
        by (simp add: function_ok_iff)
    next
      case False
      then have "\<not> clean er1 \<or> ex_ty (?es ! ?b) \<noteq> fn_return_type f" by (auto split: if_splits)
      then have "\<not> (clean er \<and> function_ok sources f)"
        using r(3) s(2) True nth_mem [OF True] by (auto simp: function_ok_def)
      then show ?thesis using False verify_expressions_bounded [OF b2, of fi f ?vs "Some ?b"] by blast
    qed
    then show ?thesis using e verify_expressions_bounded [OF b2, of fi f ?vs "Some ?b"] by blast
  qed
qed

lemma ir_verify_functions_exact:
  assumes wf: "wf_source_map sources" and "\<forall>f\<in>set fs. length (fn_expressions f) \<le> 2 ^ 32" and "bounded_errors er"
  shows "\<exists>er'. ir_verify_functions (enumerate k fs) sources er = Some er' \<and> bounded_errors er' \<and>
    (clean er' \<longleftrightarrow> clean er \<and> (\<forall>f\<in>set fs. function_ok sources f))"
  using assms(2,3)
proof (induction fs arbitrary: k er)
  case (Cons f fs)
  show ?case
  proof (cases "ce_exhausted er")
    case True
    then show ?thesis using Cons.prems exhausted_not_clean by auto
  next
    case False
    obtain er1 where f: "ir_verify_function k f sources er = Some er1" "bounded_errors er1"
        "clean er1 \<longleftrightarrow> clean er \<and> function_ok sources f"
      using ir_verify_function_exact [OF wf _ Cons.prems(2), of f k] Cons.prems(1) by auto
    then show ?thesis using Cons.IH [OF _ f(2), of "Suc k"] Cons.prems False by (auto simp: conj_assoc)
  qed
qed simp

lemma push_abi_violation_bounded:
  "bounded_errors er \<Longrightarrow> bounded_errors (check_each push_abi_violation vs er)"
  by (induction vs arbitrary: er) (simp_all add: push_abi_violation_def split: option.splits)

lemma ir_verify_total:
  assumes wf: "wf_source_map sources"
  shows "\<exists>r. ir_verify p sources = Some r \<and>
    (case r of
       Inl ds \<Rightarrow> \<not> ir_ok sources p \<and> 0 < length ds \<and> length ds \<le> MAX_IR_DIAGNOSTICS
     | Inr v \<Rightarrow> ir_ok sources p \<and> vp_program v = p \<and>
         verify_v1 (map ir_export (pr_functions p)) = Inr (vp_abi v))"
proof -
  let ?er = "ir_verify_resource_limits p no_errors"
  have lim: "errors_is_empty ?er \<longleftrightarrow> ir_within_limits p" "length (ce_diagnostics ?er) \<le> 256"
    using checks_apply [OF ir_limits_checks] by auto
  show ?thesis
  proof (cases "ir_within_limits p")
    case False
    then show ?thesis using lim by (simp add: ir_verify_def ir_ok_def errors_is_empty_def MAX_IR_DIAGNOSTICS_def)
  next
    case True
    then have e0: "?er = no_errors"
      using lim(1) checksD(1) [OF ir_limits_checks, of no_errors] by (simp add: clean_iff_empty flip: clean_unique)
    obtain abi er1 where a: "ir_verify_abi p no_errors = (abi, er1)" by (metis surj_pair)
    have abi: "abi = Some m \<longleftrightarrow> verify_v1 (map ir_export (pr_functions p)) = Inr m" for m
      using a by (auto simp: ir_verify_abi_def split: sum.splits)
    have abi1: "(\<exists>m. verify_v1 (map ir_export (pr_functions p)) = Inr m) \<longleftrightarrow> abi_ok (map ir_export (pr_functions p))"
      using verify_v1_accepts by blast
    have c1: "abi \<noteq> None \<Longrightarrow> clean er1" "bounded_errors er1"
      using a push_abi_violation_bounded by (auto simp: ir_verify_abi_def split: sum.splits)
    have "\<forall>f\<in>set (pr_functions p). length (fn_expressions f) \<le> 2 ^ 32"
      using True by (fastforce simp: ir_within_limits_def MAX_IR_EXPRESSIONS_PER_FUNCTION_def)
    from ir_verify_functions_exact [OF wf this c1(2), of 0]
    obtain er2 where f: "ir_verify_functions (enumerate 0 (pr_functions p)) sources er1 = Some er2" "bounded_errors er2"
        "clean er2 \<longleftrightarrow> clean er1 \<and> (\<forall>f\<in>set (pr_functions p). function_ok sources f)" by blast
    have len: "length (ce_diagnostics er2) \<le> 256" using f(2) by (auto simp: bounded_errors_def split: if_splits)
    have v: "ir_verify p sources = Some (if \<not> errors_is_empty er2 then Inl (ce_diagnostics er2)
        else (case abi of None \<Rightarrow> Inl [diagnostic_error ''ZRYNA-I1202'' None
                ''IR verifier could not construct its bounded scalar ABI table''
                ''report this compiler invariant failure with the smallest reproducible source'']
              | Some abi \<Rightarrow> Inr \<lparr>vp_program = p, vp_abi = abi\<rparr>))"
    proof -
      have "errors_is_empty no_errors" using True lim(1) by (simp add: e0)
      then show ?thesis using a f(1) by (simp add: ir_verify_def e0)
    qed
    show ?thesis
    proof (cases "errors_is_empty er2")
      case False
      then have "\<not> ir_ok sources p"
        using f(2,3) c1 abi abi1 by (auto simp: ir_ok_def clean_iff_empty)
      then show ?thesis using False v len by (simp add: errors_is_empty_def MAX_IR_DIAGNOSTICS_def)
    next
      case empty: True
      then have "clean er2" using clean_iff_empty [OF f(2)] by blast
      then show ?thesis
        using empty v f(3) True abi abi1 by (cases abi) (auto simp: ir_ok_def MAX_IR_DIAGNOSTICS_def)
    qed
  qed
qed

section \<open>Samples for the witnesses\<close>

lemma sample_program_verifies: "\<exists>v. ir_verify sample_program sample_map = Some (Inr v)"
proof -
  have "case ir_verify sample_program sample_map of Some (Inr _) \<Rightarrow> True | _ \<Rightarrow> False" by code_simp
  then show ?thesis by (auto split: option.splits sum.splits)
qed

section \<open>Properties\<close>

text \<open>C33: the Universal IR verifier never panics over a well-formed source map and is exact. It accepts exactly the
  programs within its limits whose exports make a scalar ABI and whose functions are sound: only i32, every
  span resolves, parameters exist, and the arena is the postorder of one expression tree of depth at most 128
  with the body as its root. An accepted program is returned unchanged with its ABI; a rejection carries between
  1 and 256 diagnostics.\<close>

theorem ir_verify_exact:
  assumes "wf_source_map sources"
  shows "\<exists>r. ir_verify p sources = Some r \<and>
    (case r of
       Inl ds \<Rightarrow> \<not> ir_ok sources p \<and> 0 < length ds \<and> length ds \<le> MAX_IR_DIAGNOSTICS
     | Inr v \<Rightarrow> ir_ok sources p \<and> vp_program v = p \<and>
         verify_v1 (map ir_export (pr_functions p)) = Inr (vp_abi v))"
  by (rule ir_verify_total [OF assms])

theorem ir_verify_exact_witness: "wf_source_map sample_map \<and> ir_ok sample_map sample_program"
  using ir_verify_exact [OF sample_wf, of sample_program] sample_program_verifies sample_wf by auto
end
