(* ===== verification/Native_MIR_Facts.thy ===== *)
theory Native_MIR_Facts
  imports Native_MIR Universal_IR_Facts
begin

text \<open>
  What the native MIR promises. The verifier accepts exactly the modules described by \<open>mir_ok\<close>; its cycle search
  always ends without an index out of range, and finds nothing once operands are earlier values. Lowering of
  a program that the IR verifier accepted always gives a module that the MIR verifier accepts, and the
  straight-line code computes the value of the expression tree.
\<close>

section \<open>Specification vocabulary\<close>

definition mir_within_limits :: "mir_function list \<Rightarrow> bool" where
  "mir_within_limits fs =
     (length fs \<le> MAX_MIR_FUNCTIONS \<and>
      (\<forall>f\<in>set fs. length (ms_parameters (mf_signature f)) \<le> MAX_MIR_PARAMETERS_PER_FUNCTION \<and>
         length (mf_values f) \<le> MAX_MIR_VALUES_PER_FUNCTION \<and> length (mf_symbol f) \<le> MAX_MIR_SYMBOL_BYTES) \<and>
      sum_list (map (\<lambda>f. length (ms_parameters (mf_signature f))) fs) \<le> MAX_MIR_PARAMETERS_PER_MODULE \<and>
      sum_list (map (\<lambda>f. length (mf_values f)) fs) \<le> MAX_MIR_VALUES_PER_MODULE \<and>
      sum_list (map (\<lambda>f. length (mf_symbol f)) fs) \<le> MAX_MIR_SYMBOL_BYTES_PER_MODULE)"

text \<open>A value in its slot: the dense identifier, the one type, operands that are parameters or earlier slots.\<close>

definition value_ok :: "mir_function \<Rightarrow> usize \<Rightarrow> value_definition \<Rightarrow> bool" where
  "value_ok f i v =
     (unat (vd_id v) = i \<and> vd_ty v = MirI32 \<and>
      (case vd_operation v of
         OpParameter p \<Rightarrow> unat p < length (ms_parameters (mf_signature f))
       | OpI32Literal _ \<Rightarrow> True
       | OpI32Add l r \<Rightarrow> unat l < i \<and> unat r < i))"

definition mir_function_ok :: "mir_function \<Rightarrow> bool" where
  "mir_function_ok f =
     (mf_convention f = ZRYNA_INTERNAL_I32_V1 \<and> (\<forall>ty\<in>set (ms_parameters (mf_signature f)). ty = MirI32) \<and>
      ms_result (mf_signature f) = MirI32 \<and> (\<forall>i<length (mf_values f). value_ok f i (mf_values f ! i)) \<and>
      unat (mf_result f) < length (mf_values f))"

definition mir_symbols_ok :: "mir_function list \<Rightarrow> bool" where
  "mir_symbols_ok fs =
     ((\<forall>f\<in>set fs. valid_symbol (mf_symbol f)) \<and> distinct (map (\<lambda>f. to_ascii_lowercase (mf_symbol f)) fs))"

definition mir_ok :: "mir_function list \<Rightarrow> bool" where
  "mir_ok fs = (mir_within_limits fs \<and> mir_symbols_ok fs \<and> (\<forall>f\<in>set fs. mir_function_ok f))"

definition operand_ok :: "mir_function \<Rightarrow> usize \<Rightarrow> value_id \<Rightarrow> bool" where
  "operand_ok f i v =
     (unat v < length (mf_values f) \<and> vd_id (mf_values f ! unat v) = v \<and> unat v < i \<and>
      vd_ty (mf_values f ! unat v) = MirI32)"

definition operation_ok :: "mir_function \<Rightarrow> usize \<Rightarrow> value_definition \<Rightarrow> bool" where
  "operation_ok f i v =
     (case vd_operation v of
        OpParameter p \<Rightarrow> get_at (ms_parameters (mf_signature f)) (unat p) = Some (vd_ty v)
      | OpI32Literal _ \<Rightarrow> vd_ty v = MirI32
      | OpI32Add l r \<Rightarrow> vd_ty v = MirI32 \<and> operand_ok f i l \<and> operand_ok f i r)"

definition search_ok :: "value_definition list \<Rightarrow> (usize \<times> usize) list \<Rightarrow> nat list \<Rightarrow> bool" where
  "search_ok vs stack colors = (length colors = length vs \<and> (\<forall>x\<in>set stack. fst x < length vs))"

text \<open>When every operand is an earlier slot, the stack descends, so no operand is in progress.\<close>

definition descending :: "value_definition list \<Rightarrow> bool" where
  "descending vs = (\<forall>i<length vs. \<forall>k v. next_operand (vd_operation (vs ! i)) k = Some v \<longrightarrow> unat v < i)"

definition search_descends :: "(usize \<times> usize) list \<Rightarrow> nat list \<Rightarrow> bool" where
  "search_descends stack colors =
     (sorted_wrt (<) (map fst stack) \<and> (\<forall>j<length colors. colors ! j = 1 \<longrightarrow> j \<in> fst ` set stack))"

definition values_typed :: "mir_function \<Rightarrow> bool" where
  "values_typed f = (\<forall>i<length (mf_values f). operation_ok f i (mf_values f ! i))"

text \<open>What a value computes, and a straight-line function: the values in order, then the result.\<close>

fun mir_step :: "i32 list \<Rightarrow> i32 list \<Rightarrow> mir_operation \<Rightarrow> i32 option" where
  "mir_step args vals (OpParameter p) = get_at args (unat p)"
| "mir_step args vals (OpI32Literal v) = Some v"
| "mir_step args vals (OpI32Add l r) =
     (case (get_at vals (unat l), get_at vals (unat r)) of (Some x, Some y) \<Rightarrow> Some (x + y) | _ \<Rightarrow> None)"

fun mir_exec :: "i32 list \<Rightarrow> mir_operation list \<Rightarrow> i32 list \<Rightarrow> i32 list option" where
  "mir_exec args [] vals = Some vals"
| "mir_exec args (op # ops) vals = Option.bind (mir_step args vals op) (\<lambda>v. mir_exec args ops (vals @ [v]))"

definition mir_call :: "mir_function \<Rightarrow> i32 list \<Rightarrow> i32 option" where
  "mir_call f args =
     Option.bind (mir_exec args (map vd_operation (mf_values f)) []) (\<lambda>vals. get_at vals (unat (mf_result f)))"

text \<open>What a tree computes: addition wraps at 32 bits.\<close>

fun tree_value :: "i32 list \<Rightarrow> itree \<Rightarrow> i32" where
  "tree_value args (ILeaf_Parameter p) = args ! unat p"
| "tree_value args (ILeaf_Literal v) = v"
| "tree_value args (IAdd l r) = tree_value args l + tree_value args r"

fun tree_values :: "i32 list \<Rightarrow> itree \<Rightarrow> i32 list" where
  "tree_values args (IAdd l r) = tree_values args l @ tree_values args r @ [tree_value args (IAdd l r)]"
| "tree_values args t = [tree_value args t]"

text \<open>What the expression at an index of an arena computes.\<close>

function expr_value :: "expr list \<Rightarrow> i32 list \<Rightarrow> usize \<Rightarrow> i32" where
  "expr_value es args i =
     (case ex_kind (es ! i) of
        EParameter p \<Rightarrow> args ! unat p
      | EI32Literal v \<Rightarrow> v
      | EI32Add l r \<Rightarrow>
          if unat l < i \<and> unat r < i then expr_value es args (unat l) + expr_value es args (unat r) else 0
      | EBoolLiteral _ \<Rightarrow> 0)"
  by pat_completeness auto

termination
  by (relation "measure (\<lambda>(es, args, i). i)") auto

declare expr_value.simps [simp del]

definition ir_value :: "ir_function \<Rightarrow> i32 list \<Rightarrow> i32" where
  "ir_value f args = expr_value (fn_expressions f) args (unat (fn_body f))"

fun lowered_kind :: "expr_kind \<Rightarrow> mir_operation" where
  "lowered_kind (EParameter p) = OpParameter p"
| "lowered_kind (EI32Literal v) = OpI32Literal v"
| "lowered_kind (EI32Add l r) = OpI32Add l r"
| "lowered_kind (EBoolLiteral _) = OpI32Literal 0"

definition lowered :: "ir_function \<Rightarrow> mir_function" where
  "lowered f =
     \<lparr>mf_symbol = fn_name f, mf_convention = ZRYNA_INTERNAL_I32_V1,
      mf_signature = \<lparr>ms_parameters = map (\<lambda>_. MirI32) (fn_parameters f), ms_result = MirI32\<rparr>,
      mf_values = map (\<lambda>(i, e). \<lparr>vd_id = of_nat i, vd_ty = MirI32, vd_operation = lowered_kind (ex_kind e)\<rparr>)
        (enumerate 0 (fn_expressions f)),
      mf_result = fn_body f\<rparr>"

section \<open>Pushing and limits\<close>

interpretation mir: collector mir_push
  by unfold_locales (simp_all add: mir_push_def MAX_MIR_DIAGNOSTICS_def)

lemmas checks_mir_push [checks_intro] = mir.checks_pushed

lemma checks_mir_push_when [checks_intro]: "checks (mir_push_when b d) (\<not> b)"
  using mir.checks_when by (simp add: mir_push_when_def [abs_def])

lemma checks_mir_push_unless: "checks (mir_push_when (\<not> b) d) b"
  using mir.checks_unless by (simp add: mir_push_when_def [abs_def])

lemma mir_push_simps [simp]: "\<not> clean (mir_push d er)" "bounded_errors er \<Longrightarrow> bounded_errors (mir_push d er)"
  by (simp_all add: mir.push_dirty mir.push_keeps_bound)

lemma mir_limits_loop_checks:
  "checks (mir_limits_loop i fs p v s)
     ((\<forall>f\<in>set fs. length (ms_parameters (mf_signature f)) \<le> MAX_MIR_PARAMETERS_PER_FUNCTION \<and>
         length (mf_values f) \<le> MAX_MIR_VALUES_PER_FUNCTION \<and> length (mf_symbol f) \<le> MAX_MIR_SYMBOL_BYTES) \<and>
      p + sum_list (map (\<lambda>f. length (ms_parameters (mf_signature f))) fs) \<le> MAX_MIR_PARAMETERS_PER_MODULE \<and>
      v + sum_list (map (\<lambda>f. length (mf_values f)) fs) \<le> MAX_MIR_VALUES_PER_MODULE \<and>
      s + sum_list (map (\<lambda>f. length (mf_symbol f)) fs) \<le> MAX_MIR_SYMBOL_BYTES_PER_MODULE)"
    (is "checks _ (?P fs p v s)")
proof (induction fs arbitrary: i p v s)
  case Nil
  have "checks (\<lambda>er. mir_limits_loop i [] p v s er)
      ((\<not> MAX_MIR_PARAMETERS_PER_MODULE < p \<and> \<not> MAX_MIR_VALUES_PER_MODULE < v) \<and> \<not> MAX_MIR_SYMBOL_BYTES_PER_MODULE < s)"
    by (simp only: mir_limits_loop.simps) (intro checks_seq checks_intro)
  then show ?case by (simp add: not_less)
next
  case (Cons f fs)
  let ?np = "length (ms_parameters (mf_signature f))" and ?nv = "length (mf_values f)" and ?ns = "length (mf_symbol f)"
  let ?Q = "?P fs (p + ?np) (v + ?nv) (s + ?ns)"
  have rest: "checks (\<lambda>er. case usize_checked_add p ?np of
       None \<Rightarrow> mir_push (mir_limit_error ''aggregate parameter count'' MAX_MIR_PARAMETERS_PER_MODULE) er
     | Some p \<Rightarrow> (case usize_checked_add v ?nv of
           None \<Rightarrow> mir_push (mir_limit_error ''aggregate value count'' MAX_MIR_VALUES_PER_MODULE) er
         | Some v \<Rightarrow> (case usize_checked_add s ?ns of
               None \<Rightarrow> mir_push (mir_limit_error ''aggregate symbol bytes'' MAX_MIR_SYMBOL_BYTES_PER_MODULE) er
             | Some s \<Rightarrow> mir_limits_loop (Suc i) fs p v s er))) ?Q" (is "checks ?rest _")
    by (rule mir.checks_checked_add Cons.IH)+
      (auto simp: MAX_MIR_PARAMETERS_PER_MODULE_def MAX_MIR_VALUES_PER_MODULE_def MAX_MIR_SYMBOL_BYTES_PER_MODULE_def
        MAX_MIR_FUNCTIONS_def MAX_MIR_SYMBOL_BYTES_def)
  have "checks (\<lambda>er. ?rest (mir_push_when (MAX_MIR_SYMBOL_BYTES < ?ns)
      (mir_function_limit_error i ''symbol bytes'' MAX_MIR_SYMBOL_BYTES)
      (mir_push_when (MAX_MIR_VALUES_PER_FUNCTION < ?nv)
        (mir_function_limit_error i ''values'' MAX_MIR_VALUES_PER_FUNCTION)
        (mir_push_when (MAX_MIR_PARAMETERS_PER_FUNCTION < ?np)
          (mir_function_limit_error i ''parameters'' MAX_MIR_PARAMETERS_PER_FUNCTION) er))))
      (((\<not> MAX_MIR_PARAMETERS_PER_FUNCTION < ?np \<and> \<not> MAX_MIR_VALUES_PER_FUNCTION < ?nv) \<and>
        \<not> MAX_MIR_SYMBOL_BYTES < ?ns) \<and> ?Q)"
    by (rule checks_seq [OF checks_seq [OF checks_seq [OF checks_mir_push_when checks_mir_push_when]
          checks_mir_push_when] rest])
  then show ?case by (simp add: Let_def not_less add.assoc conj_ac cong: conj_cong)
qed

lemma mir_limits_checks: "checks (mir_verify_resource_limits fs) (mir_within_limits fs)"
  using mir_limits_loop_checks [of 0 fs 0 0 0] checks_mir_push
  by (auto simp: mir_verify_resource_limits_def [abs_def] mir_within_limits_def checks_def)

section \<open>Symbols\<close>

lemma symbols_loop_checks:
  assumes "\<forall>n. bt_get exact n \<noteq> None \<longrightarrow> bt_get portable (to_ascii_lowercase n) \<noteq> None"
  shows "checks (symbols_loop i fs exact portable)
    ((\<forall>f\<in>set fs. valid_symbol (mf_symbol f) \<and> bt_get portable (to_ascii_lowercase (mf_symbol f)) = None) \<and>
     distinct (map (\<lambda>f. to_ascii_lowercase (mf_symbol f)) fs))"
  using assms
proof (induction fs arbitrary: i exact portable)
  case Nil
  show ?case using checks_id by simp
next
  case (Cons f fs)
  let ?s = "mf_symbol f" and ?k = "to_ascii_lowercase (mf_symbol f)"
  let ?P = "\<lambda>fs portable. (\<forall>f\<in>set fs. valid_symbol (mf_symbol f) \<and> bt_get portable (to_ascii_lowercase (mf_symbol f)) = None) \<and>
     distinct (map (\<lambda>f. to_ascii_lowercase (mf_symbol f)) fs)"
  have push: "checks (\<lambda>er. symbols_loop (Suc i) fs e q (mir_push d er)) False"
    if "\<forall>n. bt_get e n \<noteq> None \<longrightarrow> bt_get q (to_ascii_lowercase n) \<noteq> None" for e q d
    using checks_seq [OF checks_mir_push Cons.IH [OF that]] by simp
  consider (invalid) "\<not> valid_symbol ?s" | (duplicate) j where "valid_symbol ?s" "bt_get exact ?s = Some j"
    | (collision) j where "valid_symbol ?s" "bt_get exact ?s = None" "bt_get portable ?k = Some j"
    | (fresh) "valid_symbol ?s" "bt_get exact ?s = None" "bt_get portable ?k = None"
    by (cases "bt_get exact ?s"; cases "bt_get portable ?k") auto
  then show ?case
  proof cases
    case invalid
    then show ?thesis using push [OF Cons.prems] by simp
  next
    case duplicate
    have "bt_get portable ?k \<noteq> None" using Cons.prems duplicate(2) by auto
    then obtain q where "bt_get portable ?k = Some q" by auto
    then show ?thesis using duplicate push [OF Cons.prems] by simp
  next
    case collision
    have "\<forall>n. bt_get (bt_insert ?s i exact) n \<noteq> None \<longrightarrow> bt_get portable (to_ascii_lowercase n) \<noteq> None"
      using Cons.prems collision(3) by auto
    from push [OF this] show ?thesis using collision by simp
  next
    case fresh
    have "\<forall>n. bt_get (bt_insert ?s i exact) n \<noteq> None \<longrightarrow> bt_get (bt_insert ?k i portable) (to_ascii_lowercase n) \<noteq> None"
      using Cons.prems by auto
    from Cons.IH [OF this, of "Suc i"]
    have "checks (symbols_loop i (f # fs) exact portable) (?P fs (bt_insert ?k i portable))"
      using fresh by (simp add: checks_def)
    moreover have "?P fs (bt_insert ?k i portable) \<longleftrightarrow> ?P (f # fs) portable" using fresh by (auto simp: image_iff)
    ultimately show ?thesis by (rule checks_cong)
  qed
qed

lemma symbols_checks: "checks (symbols_verify fs) (mir_symbols_ok fs)"
  using symbols_loop_checks [of "[]" "[]" 0 fs] by (simp add: symbols_verify_def [abs_def] mir_symbols_ok_def)

lemma lower_length [simp]: "length (to_ascii_lowercase s) = length s"
  by (simp add: to_ascii_lowercase_def)

text \<open>A module whose limits and symbols pass always has a scalar ABI.\<close>

lemma mir_abi_ok:
  assumes "mir_within_limits fs" and "mir_symbols_ok fs"
  shows "abi_ok (map mir_export fs)"
proof -
  have "valid_logical_name (mf_symbol f)" if f: "f \<in> set fs" for f
    using assms f by (auto simp: mir_within_limits_def mir_symbols_ok_def valid_symbol_def valid_logical_name_def
        reserved_symbol_def reserved_export_def MAX_MIR_SYMBOL_BYTES_def MAX_LOGICAL_EXPORT_NAME_BYTES_def)
  then show ?thesis using assms
    by (simp add: portable_name_def abi_ok_def mir_within_limits_def mir_symbols_ok_def mir_export_def supported_def o_def
        MAX_MIR_FUNCTIONS_def MAX_ABI_EXPORTS_def MAX_MIR_PARAMETERS_PER_FUNCTION_def MAX_ABI_PARAMETERS_PER_EXPORT_def
        MAX_MIR_PARAMETERS_PER_MODULE_def MAX_ABI_PARAMETERS_PER_MODULE_def image_iff)
qed

section \<open>Operations\<close>

lemma ball_enumerate: "(\<forall>x\<in>set (enumerate 0 xs). P (fst x) (snd x)) \<longleftrightarrow> (\<forall>i<length xs. P i (xs ! i))"
proof -
  have "set (enumerate 0 xs) = (\<lambda>i. (i, xs ! i)) ` {..<length xs}"
    by (auto simp: in_set_enumerate_eq image_iff)
  then show ?thesis by auto
qed

lemma verify_operand_checks:
  "bounded_errors er \<Longrightarrow> bounded_errors (snd (verify_operand fi i v f er)) \<and>
    (clean (snd (verify_operand fi i v f er)) \<and> fst (verify_operand fi i v f er) = Some MirI32 \<longleftrightarrow>
       clean er \<and> operand_ok f i v) \<and>
    (clean (snd (verify_operand fi i v f er)) \<longrightarrow> clean er)"
  by (auto simp: verify_operand_def operand_ok_def mir_push_when_def get_at_def)

lemma verify_operation_checks: "checks (verify_operation fi f (i, v)) (operation_ok f i v)"
proof (cases "vd_operation v")
  case (OpParameter p)
  then show ?thesis
    using checks_mir_push_unless [of "get_at (ms_parameters (mf_signature f)) (unat p) = Some (vd_ty v)"]
    by (simp add: verify_operation_def operation_ok_def)
next
  case (OpI32Literal l)
  then show ?thesis using checks_mir_push_unless [of "vd_ty v = MirI32"] by (simp add: verify_operation_def operation_ok_def)
next
  case (OpI32Add l r)
  show ?thesis unfolding checks_def
  proof (intro allI impI)
    fix er :: check_errors assume er: "bounded_errors er"
    obtain tl er1 where l: "verify_operand fi i l f er = (tl, er1)" by (metis surj_pair)
    obtain tr er2 where r: "verify_operand fi i r f er1 = (tr, er2)" by (metis surj_pair)
    have b1: "bounded_errors er1" "clean er1 \<and> tl = Some MirI32 \<longleftrightarrow> clean er \<and> operand_ok f i l" "clean er1 \<longrightarrow> clean er"
      using verify_operand_checks [OF er, of fi i l f] l by auto
    have b2: "bounded_errors er2" "clean er2 \<and> tr = Some MirI32 \<longleftrightarrow> clean er1 \<and> operand_ok f i r" "clean er2 \<longrightarrow> clean er1"
      using verify_operand_checks [OF b1(1), of fi i r f] r by auto
    show "bounded_errors (verify_operation fi f (i, v) er) \<and>
        (clean (verify_operation fi f (i, v) er) \<longleftrightarrow> clean er \<and> operation_ok f i v)"
      using b1 b2 by (auto simp: verify_operation_def operation_ok_def OpI32Add l r mir_push_when_def)
  qed
qed

lemma verify_operations_checks:
  "checks (verify_operations fi f) (\<forall>i<length (mf_values f). operation_ok f i (mf_values f ! i))"
proof -
  have "checks (check_until (verify_operation fi f) (enumerate 0 (mf_values f)))
      (\<forall>x\<in>set (enumerate 0 (mf_values f)). operation_ok f (fst x) (snd x))"
    by (rule checks_until) (use verify_operation_checks in force)
  moreover have "(\<forall>x\<in>set (enumerate 0 (mf_values f)). operation_ok f (fst x) (snd x)) \<longleftrightarrow>
      (\<forall>i<length (mf_values f). operation_ok f i (mf_values f ! i))"
    by (rule ball_enumerate)
  ultimately show ?thesis by (simp add: verify_operations_def [abs_def])
qed

lemma verify_definitions_checks:
  "checks (\<lambda>er. snd (verify_definitions fi f er)) (fst (verify_definitions fi f no_errors))"
  and verify_definitions_dense: "fst (verify_definitions fi f er) \<longleftrightarrow>
    (\<forall>i<length (mf_values f). u32_try_from i = Some (vd_id (mf_values f ! i)))"
proof -
  show d: "fst (verify_definitions fi f er) \<longleftrightarrow>
      (\<forall>i<length (mf_values f). u32_try_from i = Some (vd_id (mf_values f ! i)))" for er
    by (auto simp: verify_definitions_def Let_def list_ex_iff in_set_enumerate_eq)
  have "checks (check_each (\<lambda>(i, v). mir_push_when (u32_try_from i \<noteq> Some (vd_id v))
            (diagnostic_error ''ZRYNA-N1006'' None
              (''native function #'' @ show_nat fi @ '' value slot #'' @ show_nat i @
               '' claims a non-dense or duplicate identifier'')
              ''define every value exactly once with its canonical dense slot identifier''))
            (enumerate 0 (mf_values f)))
     (\<forall>x\<in>set (enumerate 0 (mf_values f)). u32_try_from (fst x) = Some (vd_id (snd x)))"
    by (rule checks_each) (auto intro: checks_mir_push_unless)
  moreover have "(\<forall>x\<in>set (enumerate 0 (mf_values f)). u32_try_from (fst x) = Some (vd_id (snd x))) \<longleftrightarrow>
      fst (verify_definitions fi f no_errors)"
    unfolding d by (rule ball_enumerate)
  ultimately show "checks (\<lambda>er. snd (verify_definitions fi f er)) (fst (verify_definitions fi f no_errors))"
    by (simp add: verify_definitions_def Let_def)
qed

lemma verify_result_checks:
  "checks (verify_result fi f) (unat (mf_result f) < length (mf_values f) \<and>
     vd_id (mf_values f ! unat (mf_result f)) = mf_result f \<and>
     vd_ty (mf_values f ! unat (mf_result f)) = ms_result (mf_signature f))"
  by (auto simp: checks_def verify_result_def get_at_def mir_push_when_def Let_def)

lemma mir_check_signature_checks:
  "checks (mir_check_signature fi f) ((mf_convention f = ZRYNA_INTERNAL_I32_V1 \<and>
     (\<forall>ty\<in>set (ms_parameters (mf_signature f)). ty = MirI32)) \<and> ms_result (mf_signature f) = MirI32)"
proof -
  have "checks (check_each (\<lambda>(i, ty). mir_push_when (ty \<noteq> MirI32) (unsupported_signature_error fi ''parameter'' i))
      (enumerate 0 (ms_parameters (mf_signature f))))
      (\<forall>x\<in>set (enumerate 0 (ms_parameters (mf_signature f))). snd x = MirI32)"
    by (rule checks_each) (auto intro: checks_mir_push_unless)
  then have "checks (check_each (\<lambda>(i, ty). mir_push_when (ty \<noteq> MirI32) (unsupported_signature_error fi ''parameter'' i))
      (enumerate 0 (ms_parameters (mf_signature f)))) (\<forall>ty\<in>set (ms_parameters (mf_signature f)). ty = MirI32)"
    unfolding ball_enumerate_snd [of 0 _ "\<lambda>ty. ty = MirI32"] .
  from checks_seq [OF checks_seq [OF checks_mir_push_unless this] checks_mir_push_unless] show ?thesis
    unfolding mir_check_signature_def [abs_def] .
qed

section \<open>Cycles\<close>

lemma cycle_search_total:
  "search_ok vs stack colors \<Longrightarrow> \<exists>b colors'. cycle_search vs stack colors = Some (b, colors') \<and> length colors' = length vs"
proof (induction vs stack colors rule: cycle_search.induct)
  case (1 vs colors)
  then show ?case by (simp add: search_ok_def) blast
next
  case (2 vs i edge stack colors)
  have i: "get_at vs i = Some (vs ! i)" "i < length vs" "length colors = length vs"
    using "2.prems" by (auto simp: search_ok_def get_at_def)
  show ?case
  proof (cases "next_operand (vd_operation (vs ! i)) edge")
    case None
    have "search_ok vs stack (colors[i := 2])" using "2.prems" by (simp add: search_ok_def)
    then show ?thesis using "2.IH"(1) [OF i(1) None] i None by simp
  next
    case (Some v)
    show ?thesis
    proof (cases "unat v < length vs")
      case False
      have "search_ok vs ((i, Suc edge) # stack) colors" using "2.prems" by (simp add: search_ok_def)
      then show ?thesis using "2.IH"(4) [OF i(1) Some False] i Some False by simp
    next
      case True
      then have c: "get_at colors (unat v) = Some (colors ! unat v)" using i by (simp add: get_at_def)
      have s: "search_ok vs ((i, Suc edge) # stack) colors"
        "search_ok vs ((unat v, 0) # (i, Suc edge) # stack) (colors[unat v := 1])"
        using "2.prems" True by (simp_all add: search_ok_def)
      consider "colors ! unat v = 0" | "colors ! unat v = 1" | "colors ! unat v \<noteq> 0" "colors ! unat v \<noteq> 1" by blast
      then show ?thesis
      proof cases
        case 1
        then show ?thesis using "2.IH"(2) [OF i(1) Some True c] s(2) i Some True c by simp
      next
        case 2
        then show ?thesis using i Some True c by (simp add: exI [of _ True])
      next
        case 3
        then show ?thesis using "2.IH"(3) [OF i(1) Some True c] s(1) i Some True c by simp
      qed
    qed
  qed
qed

lemma cycle_search_none:
  "descending vs \<Longrightarrow> search_ok vs stack colors \<Longrightarrow> search_descends stack colors \<Longrightarrow>
    \<exists>colors'. cycle_search vs stack colors = Some (False, colors') \<and> length colors' = length vs \<and> 1 \<notin> set colors'"
proof (induction vs stack colors rule: cycle_search.induct)
  case (1 vs colors)
  then show ?case by (auto simp: search_ok_def search_descends_def in_set_conv_nth)
next
  case (2 vs i edge stack colors)
  have i: "get_at vs i = Some (vs ! i)" "i < length vs" "length colors = length vs"
    using "2.prems" by (auto simp: search_ok_def get_at_def)
  show ?case
  proof (cases "next_operand (vd_operation (vs ! i)) edge")
    case None
    have "search_ok vs stack (colors[i := 2])" "search_descends stack (colors[i := 2])"
      using "2.prems" by (auto simp: search_ok_def search_descends_def nth_list_update)
    then show ?thesis using "2.IH"(1) [OF i(1) None] "2.prems"(1) i None by simp
  next
    case (Some v)
    then have v: "unat v < i" using "2.prems"(1) i by (auto simp: descending_def)
    then have vl: "unat v < length vs" using i by simp
    then have c: "get_at colors (unat v) = Some (colors ! unat v)" using i by (simp add: get_at_def)
    have n1: "colors ! unat v \<noteq> 1"
    proof
      assume "colors ! unat v = 1"
      then have "unat v \<in> fst ` set ((i, edge) # stack)" using "2.prems"(3) vl i by (simp add: search_descends_def)
      then show False using v "2.prems"(3) by (force simp: search_descends_def)
    qed
    have s: "search_ok vs ((i, Suc edge) # stack) colors" "search_descends ((i, Suc edge) # stack) colors"
      "search_ok vs ((unat v, 0) # (i, Suc edge) # stack) (colors[unat v := 1])"
      "search_descends ((unat v, 0) # (i, Suc edge) # stack) (colors[unat v := 1])"
      using "2.prems" vl v by (fastforce simp: search_ok_def search_descends_def nth_list_update)+
    show ?thesis
    proof (cases "colors ! unat v = 0")
      case True
      then show ?thesis using "2.IH"(2) [OF i(1) Some vl c] s(3,4) "2.prems"(1) i Some vl c by simp
    next
      case False
      then show ?thesis using "2.IH"(3) [OF i(1) Some vl c] s(1,2) n1 "2.prems"(1) i Some vl c by simp
    qed
  qed
qed

lemma cycle_starts_total:
  "length colors = length vs \<Longrightarrow> \<forall>s\<in>set starts. s < length vs \<Longrightarrow> \<exists>b. cycle_starts vs starts colors = Some b"
proof (induction starts arbitrary: colors)
  case (Cons s starts)
  have "search_ok vs [(s, 0)] (colors[s := 1])" using Cons.prems by (simp add: search_ok_def)
  from cycle_search_total [OF this] obtain b colors'
    where r: "cycle_search vs [(s, 0)] (colors[s := 1]) = Some (b, colors')" "length colors' = length vs" by blast
  have "get_at colors s = Some (colors ! s)" using Cons.prems by (simp add: get_at_def)
  then show ?case using Cons r by (cases b) (auto split: if_splits)
qed auto

lemma cycle_starts_none:
  "descending vs \<Longrightarrow> length colors = length vs \<Longrightarrow> \<forall>s\<in>set starts. s < length vs \<Longrightarrow> 1 \<notin> set colors \<Longrightarrow>
    cycle_starts vs starts colors = Some False"
proof (induction starts arbitrary: colors)
  case (Cons s starts)
  have "search_ok vs [(s, 0)] (colors[s := 1])" using Cons.prems by (simp add: search_ok_def)
  moreover have "search_descends [(s, 0)] (colors[s := 1])"
    using Cons.prems by (auto simp: search_descends_def nth_list_update in_set_conv_nth split: if_splits)
  ultimately obtain colors' where r: "cycle_search vs [(s, 0)] (colors[s := 1]) = Some (False, colors')"
      "length colors' = length vs" "1 \<notin> set colors'"
    using cycle_search_none [OF Cons.prems(1)] by blast
  have "get_at colors s = Some (colors ! s)" using Cons.prems by (simp add: get_at_def)
  then show ?case using Cons r by simp
qed simp

section \<open>Functions and modules\<close>

lemma dense_values:
  "length vs \<le> 2 ^ 32 \<Longrightarrow> (\<forall>i<length vs. u32_try_from i = Some (vd_id (vs ! i))) \<longleftrightarrow> (\<forall>i<length vs. unat (vd_id (vs ! i)) = i)"
proof -
  assume n: "length vs \<le> 2 ^ 32"
  have "u32_try_from i = Some (vd_id (vs ! i)) \<longleftrightarrow> unat (vd_id (vs ! i)) = i" if "i < length vs" for i
  proof
    assume "u32_try_from i = Some (vd_id (vs ! i))"
    then show "unat (vd_id (vs ! i)) = i" using u32_try_from_Some by blast
  next
    assume "unat (vd_id (vs ! i)) = i"
    then have "vd_id (vs ! i) = of_nat i" by (metis of_nat_unat ucast_id)
    then show "u32_try_from i = Some (vd_id (vs ! i))" using that n by (simp add: u32_try_from_def)
  qed
  then show ?thesis by blast
qed

lemma mir_function_ok_iff:
  assumes n: "length (mf_values f) \<le> 2 ^ 32"
  shows "mir_function_ok f \<longleftrightarrow> mf_convention f = ZRYNA_INTERNAL_I32_V1 \<and>
    (\<forall>ty\<in>set (ms_parameters (mf_signature f)). ty = MirI32) \<and> ms_result (mf_signature f) = MirI32 \<and>
    (\<forall>i<length (mf_values f). u32_try_from i = Some (vd_id (mf_values f ! i))) \<and> values_typed f \<and>
    unat (mf_result f) < length (mf_values f) \<and> vd_id (mf_values f ! unat (mf_result f)) = mf_result f \<and>
    vd_ty (mf_values f ! unat (mf_result f)) = ms_result (mf_signature f)" (is "_ \<longleftrightarrow> ?R")
proof
  let ?vs = "mf_values f" and ?ps = "ms_parameters (mf_signature f)"
  assume ok: "mir_function_ok f"
  have v: "value_ok f i (?vs ! i)" if "i < length ?vs" for i using ok that by (simp add: mir_function_ok_def)
  have id: "vd_id (?vs ! unat w) = w" if "unat w < length ?vs" for w
    using v [OF that] by (simp add: value_ok_def word_unat_eq_iff)
  have "operation_ok f i (?vs ! i)" if i: "i < length ?vs" for i
  proof (cases "vd_operation (?vs ! i)")
    case (OpParameter p)
    then have "unat p < length ?ps" using v [OF i] by (simp add: value_ok_def)
    then show ?thesis using OpParameter v [OF i] ok nth_mem [of "unat p" ?ps]
      by (auto simp: operation_ok_def value_ok_def mir_function_ok_def get_at_def)
  next
    case (OpI32Add l r)
    then have lr: "unat l < i" "unat r < i" "vd_ty (?vs ! i) = MirI32" using v [OF i] by (auto simp: value_ok_def)
    then have "operand_ok f i l" "operand_ok f i r"
      using i id [of l] id [of r] v [of "unat l"] v [of "unat r"] by (auto simp: operand_ok_def value_ok_def)
    then show ?thesis using OpI32Add lr by (simp add: operation_ok_def)
  qed (use v [OF i] in \<open>simp add: operation_ok_def value_ok_def\<close>)
  then have "values_typed f" by (simp add: values_typed_def)
  moreover have "\<forall>i<length ?vs. u32_try_from i = Some (vd_id (?vs ! i))"
    unfolding dense_values [OF n] using v by (auto simp: value_ok_def)
  ultimately show ?R using ok id [of "mf_result f"] v [of "unat (mf_result f)"]
    by (auto simp: mir_function_ok_def value_ok_def)
next
  let ?vs = "mf_values f" and ?ps = "ms_parameters (mf_signature f)"
  assume r: ?R
  have dense: "\<forall>i<length ?vs. unat (vd_id (?vs ! i)) = i" using r dense_values [OF n] by blast
  have "value_ok f i (?vs ! i)" if i: "i < length ?vs" for i
  proof -
    have "operation_ok f i (?vs ! i)" using r i by (simp add: values_typed_def)
    moreover have "k < length ?ps \<Longrightarrow> ?ps ! k = MirI32" for k using r nth_mem [of k ?ps] by blast
    ultimately show ?thesis using dense i
      by (cases "vd_operation (?vs ! i)") (auto simp: operation_ok_def operand_ok_def value_ok_def get_at_def split: if_splits)
  qed
  then show "mir_function_ok f" using r by (simp add: mir_function_ok_def)
qed

lemma typed_descending: "values_typed f \<Longrightarrow> descending (mf_values f)"
proof -
  assume t: "values_typed f"
  have "unat v < i" if "i < length (mf_values f)" "next_operand (vd_operation (mf_values f ! i)) k = Some v" for i k v
  proof -
    have "operation_ok f i (mf_values f ! i)" using t that by (simp add: values_typed_def)
    then show ?thesis using that(2)
      by (cases "vd_operation (mf_values f ! i)"; cases k)
        (auto simp: next_operand_def get_at_def operation_ok_def operand_ok_def less_Suc_eq split: if_splits option.splits)
  qed
  then show ?thesis by (simp add: descending_def)
qed

lemma verify_cycles_total:
  assumes "bounded_errors er"
  shows "\<exists>er'. verify_cycles fi f er = Some er' \<and> bounded_errors er' \<and> (clean er' \<longrightarrow> clean er) \<and>
    (values_typed f \<longrightarrow> er' = er)"
proof -
  let ?vs = "mf_values f"
  obtain b where b: "cycle_starts ?vs [0..<length ?vs] (replicate (length ?vs) 0) = Some b"
    using cycle_starts_total [of "replicate (length ?vs) 0" ?vs "[0..<length ?vs]"] by auto
  moreover have "\<not> b" if "values_typed f"
    using cycle_starts_none [OF typed_descending [OF that], of "replicate (length ?vs) 0" "[0..<length ?vs]"] b by simp
  ultimately show ?thesis using assms by (auto simp: verify_cycles_def mir_push_when_def)
qed

lemma mir_verify_function_exact:
  assumes n: "length (mf_values f) \<le> 2 ^ 32" and er: "bounded_errors er"
  shows "\<exists>er'. mir_verify_function fi f er = Some er' \<and> bounded_errors er' \<and> (clean er' \<longleftrightarrow> clean er \<and> mir_function_ok f)"
proof -
  let ?er1 = "mir_check_signature fi f er"
  let ?er2 = "snd (verify_definitions fi f ?er1)"
  let ?er3 = "verify_operations fi f ?er2"
  let ?er4 = "verify_result fi f ?er3"
  let ?dense = "fst (verify_definitions fi f ?er1)"
  have dense: "?dense \<longleftrightarrow> (\<forall>i<length (mf_values f). u32_try_from i = Some (vd_id (mf_values f ! i)))"
    "fst (verify_definitions fi f no_errors) \<longleftrightarrow> ?dense" by (simp_all add: verify_definitions_dense)
  note s1 = checksD [OF mir_check_signature_checks er, of fi f]
  note s2 = checksD [OF verify_definitions_checks s1(1), of fi f, unfolded dense(2)]
  note s3 = checksD [OF verify_operations_checks s2(1), of fi f, folded values_typed_def]
  note s4 = checksD [OF verify_result_checks s3(1), of fi f]
  have c4: "clean ?er4 \<longleftrightarrow> clean er \<and> mir_function_ok f"
    unfolding mir_function_ok_iff [OF n] using s1(2) s2(2) s3(2) s4(2) dense(1) by blast
  have e: "mir_verify_function fi f er = (if ?dense then verify_cycles fi f ?er4 else Some ?er4)"
    by (simp add: mir_verify_function_def Let_def split_beta)
  show ?thesis
  proof (cases ?dense)
    case False
    then show ?thesis using e s4(1) c4 by simp
  next
    case True
    obtain er' where c: "verify_cycles fi f ?er4 = Some er'" "bounded_errors er'" "clean er' \<longrightarrow> clean ?er4"
        "values_typed f \<longrightarrow> er' = ?er4"
      using verify_cycles_total [OF s4(1), of fi f] by blast
    have "clean er' \<longleftrightarrow> clean ?er4" using c(3,4) c4 mir_function_ok_iff [OF n] by blast
    then show ?thesis using e True c c4 by simp
  qed
qed

lemma mir_verify_functions_exact:
  assumes "\<forall>f\<in>set fs. length (mf_values f) \<le> 2 ^ 32" and "bounded_errors er"
  shows "\<exists>er'. mir_verify_functions (enumerate k fs) er = Some er' \<and> bounded_errors er' \<and>
    (clean er' \<longleftrightarrow> clean er \<and> (\<forall>f\<in>set fs. mir_function_ok f))"
  using assms
proof (induction fs arbitrary: k er)
  case (Cons f fs)
  show ?case
  proof (cases "ce_exhausted er")
    case True
    then show ?thesis using Cons.prems exhausted_not_clean by auto
  next
    case False
    obtain er1 where f: "mir_verify_function k f er = Some er1" "bounded_errors er1"
        "clean er1 \<longleftrightarrow> clean er \<and> mir_function_ok f"
      using mir_verify_function_exact [OF _ Cons.prems(2), of f k] Cons.prems(1) by auto
    then show ?thesis using Cons.IH [OF _ f(2), of "Suc k"] Cons.prems False by (auto simp: conj_assoc)
  qed
qed simp

lemma mir_verify_total:
  "\<exists>r. mir_verify fs = Some r \<and>
    (case r of
       Inl ds \<Rightarrow> \<not> mir_ok fs \<and> 0 < length ds \<and> length ds \<le> MAX_MIR_DIAGNOSTICS
     | Inr m \<Rightarrow> mir_ok fs \<and> vm_raw m = fs \<and> verify_v1 (map mir_export fs) = Inr (vm_abi m))"
proof -
  let ?er = "mir_verify_resource_limits fs no_errors"
  have lim: "errors_is_empty ?er \<longleftrightarrow> mir_within_limits fs" "length (ce_diagnostics ?er) \<le> 256"
    using checks_apply [OF mir_limits_checks] by auto
  show ?thesis
  proof (cases "mir_within_limits fs")
    case False
    then show ?thesis using lim by (simp add: mir_verify_def mir_ok_def errors_is_empty_def MAX_MIR_DIAGNOSTICS_def)
  next
    case True
    then have e0: "?er = no_errors"
      using lim(1) checksD(1) [OF mir_limits_checks, of no_errors] by (simp add: clean_iff_empty flip: clean_unique)
    have s: "bounded_errors (symbols_verify fs no_errors)" "clean (symbols_verify fs no_errors) \<longleftrightarrow> mir_symbols_ok fs"
      using checksD [OF symbols_checks, of no_errors fs] by simp_all
    have "\<forall>f\<in>set fs. length (mf_values f) \<le> 2 ^ 32"
      using True by (fastforce simp: mir_within_limits_def MAX_MIR_VALUES_PER_FUNCTION_def)
    from mir_verify_functions_exact [OF this s(1), of 0]
    obtain er2 where f: "mir_verify_functions (enumerate 0 fs) (symbols_verify fs no_errors) = Some er2"
        "bounded_errors er2" "clean er2 \<longleftrightarrow> mir_symbols_ok fs \<and> (\<forall>f\<in>set fs. mir_function_ok f)"
      using s(2) by auto
    have len: "length (ce_diagnostics er2) \<le> 256" using f(2) by (auto simp: bounded_errors_def split: if_splits)
    have ok: "errors_is_empty er2 \<longleftrightarrow> mir_ok fs" using clean_iff_empty [OF f(2)] f(3) True by (simp add: mir_ok_def)
    have "errors_is_empty no_errors" using True lim(1) by (simp add: e0)
    then have v: "mir_verify fs = Some (if \<not> errors_is_empty er2 then Inl (ce_diagnostics er2)
        else map_sum id (\<lambda>abi. \<lparr>vm_raw = fs, vm_abi = abi\<rparr>) (verify_scalar_abi fs))"
      using f(1) by (simp add: mir_verify_def e0)
    show ?thesis
    proof (cases "mir_ok fs")
      case False
      then show ?thesis using v ok len by (simp add: errors_is_empty_def MAX_MIR_DIAGNOSTICS_def)
    next
      case True
      then have "abi_ok (map mir_export fs)" using mir_abi_ok by (simp add: mir_ok_def)
      then obtain abi where "verify_v1 (map mir_export fs) = Inr abi" using verify_v1_accepts by blast
      then show ?thesis using True v ok by (simp add: verify_scalar_abi_def)
    qed
  qed
qed

section \<open>Lowering\<close>

lemma arena_value:
  "map ex_kind (take (nodes t) (drop e es)) = arena t e \<Longrightarrow> e + nodes t \<le> length es \<Longrightarrow> e + nodes t \<le> 2 ^ 32 \<Longrightarrow>
    expr_value es args (e + nodes t - 1) = tree_value args t"
proof (induction t arbitrary: e)
  case (IAdd l r)
  let ?n = "e + nodes l + nodes r" and ?a = "e + nodes l - 1" and ?b = "e + nodes l + nodes r - 1"
  note s = arena_split [OF IAdd.prems(1,2)]
  have pos: "0 < nodes l" "0 < nodes r" by simp_all
  have u: "unat (of_nat ?a :: u32) = ?a" "unat (of_nat ?b :: u32) = ?b"
    using IAdd.prems(3) by (simp_all add: unat_of_nat take_bit_nat_eq_self)
  have lt: "?a < ?n" "?b < ?n" using pos by linarith+
  have "expr_value es args ?n = expr_value es args ?a + expr_value es args ?b"
    by (simp only: expr_value.simps [of es args ?n] s(3) expr_kind.case u lt if_True simp_thms)
  moreover have "expr_value es args ?a = tree_value args l" using IAdd.IH(1) [OF s(1)] IAdd.prems by simp
  moreover have "expr_value es args ?b = tree_value args r" using IAdd.IH(2) [OF s(2)] IAdd.prems by (simp add: add.assoc)
  moreover have "e + nodes (IAdd l r) - 1 = ?n" by simp
  ultimately show ?case by (simp only: tree_value.simps)
next
  case (ILeaf_Parameter p)
  then have "take 1 (drop e es) = [es ! e]" by (simp add: take_Suc_conv_app_nth)
  then show ?case using ILeaf_Parameter by (simp add: expr_value.simps [of es args e])
next
  case (ILeaf_Literal v)
  then have "take 1 (drop e es) = [es ! e]" by (simp add: take_Suc_conv_app_nth)
  then show ?case using ILeaf_Literal by (simp add: expr_value.simps [of es args e])
qed

lemma tree_values_length [simp]: "length (tree_values args t) = nodes t"
  by (induction t) auto

lemma tree_values_last: "tree_values args t ! (nodes t - 1) = tree_value args t"
  by (cases t) (simp_all add: nth_append)

lemma tree_values_at:
  "e = length vals \<Longrightarrow> get_at (vals @ tree_values args t @ rest) (e + nodes t - 1) = Some (tree_value args t)"
proof -
  assume e: "e = length vals"
  obtain k where "nodes t = Suc k" using gr0_implies_Suc [OF nodes_pos [of t]] by blast
  then show ?thesis using tree_values_last [of args t] e by (simp add: nth_append get_at_def)
qed

lemma mir_exec_arena:
  assumes "\<forall>p. EParameter p \<in> set (arena t (length vals)) \<longrightarrow> unat p < length args"
    and "length vals + nodes t < 2 ^ 32"
  shows "mir_exec args (map lowered_kind (arena t (length vals)) @ ops) vals =
    mir_exec args ops (vals @ tree_values args t)"
  using assms
proof (induction t arbitrary: vals ops)
  case (IAdd l r)
  let ?e = "length vals"
  let ?vals = "vals @ tree_values args l @ tree_values args r"
  let ?a = "?e + nodes l - 1" and ?b = "?e + nodes l + nodes r - 1"
  have u: "unat (of_nat ?a :: u32) = ?a" "unat (of_nat ?b :: u32) = ?b"
    using IAdd.prems(2) by (simp_all add: unat_of_nat take_bit_nat_eq_self)
  have "get_at ?vals ?a = Some (tree_value args l)"
    by (rule tree_values_at) simp
  moreover have "get_at ?vals ?b = Some (tree_value args r)"
    using tree_values_at [of "?e + nodes l" "vals @ tree_values args l" args r "[]"] by simp
  ultimately have step: "mir_step args ?vals (OpI32Add (of_nat ?a) (of_nat ?b)) = Some (tree_value args (IAdd l r))"
    by (simp only: mir_step.simps u) simp
  have "mir_exec args (map lowered_kind (arena (IAdd l r) ?e) @ ops) vals =
      mir_exec args (map lowered_kind (arena r (length (vals @ tree_values args l))) @
        OpI32Add (of_nat ?a) (of_nat ?b) # ops) (vals @ tree_values args l)"
    using IAdd.IH(1) [of vals] IAdd.prems by (simp add: add.assoc)
  also have "\<dots> = mir_exec args (OpI32Add (of_nat ?a) (of_nat ?b) # ops) ?vals"
    using IAdd.IH(2) [of "vals @ tree_values args l"] IAdd.prems by (simp add: add.assoc)
  also have "\<dots> = mir_exec args ops (?vals @ [tree_value args (IAdd l r)])"
    by (simp only: mir_exec.simps step Option.bind.simps)
  finally show ?case by simp
qed (auto simp: get_at_def)

lemma lower_expression_ok:
  assumes "ex_ty e = TyI32" and "\<And>b. ex_kind e \<noteq> EBoolLiteral b" and "i < 2 ^ 32"
  shows "lower_expression (i, e) = Inr \<lparr>vd_id = of_nat i, vd_ty = MirI32, vd_operation = lowered_kind (ex_kind e)\<rparr>"
  using assms(1,3) assms(2) [of "case ex_kind e of EBoolLiteral b \<Rightarrow> b"]
  by (cases "ex_kind e") (simp_all add: lower_expression_def result_simps u32_try_from_def lower_type_def)

lemma map_snd_enumerate_fun: "map (\<lambda>x. g (snd x)) (enumerate k xs) = map g xs"
  by (metis (no_types, lifting) list.map_comp map_eq_conv map_snd_enumerate o_apply)

lemma try_map_ok: "(\<And>x. x \<in> set xs \<Longrightarrow> f x = Inr (g x)) \<Longrightarrow> try_map f xs = Inr (map g xs)"
  by (induction xs) (simp_all add: result_simps)

lemma arena_no_bool: "EBoolLiteral b \<notin> set (arena t e)"
  by (induction t arbitrary: e) auto

lemma lower_function_ok:
  assumes ok: "function_ok sources f" and n: "length (fn_expressions f) \<le> 2 ^ 32"
  shows "lower_function \<lparr>vf_function = f, vf_abi_export = \<lparr>vx_index = i, vx_export = sealed (ir_export f)\<rparr>\<rparr> = Inr (lowered f)"
proof -
  obtain t where t: "map ex_kind (fn_expressions f) = arena t 0" using ok by (auto simp: function_ok_def)
  have nb: "ex_kind e \<noteq> EBoolLiteral b" if "e \<in> set (fn_expressions f)" for e b
    using that arena_no_bool [of b t 0] unfolding t [symmetric] by (auto simp: image_iff)
  have "try_map lower_type (fn_parameters f) = Inr (map (\<lambda>_. MirI32) (fn_parameters f))"
    by (rule try_map_ok) (use ok in \<open>simp add: function_ok_def lower_type_def\<close>)
  moreover have "lower_type (fn_return_type f) = Inr MirI32" using ok by (simp add: function_ok_def lower_type_def)
  moreover have "try_map lower_expression (enumerate 0 (fn_expressions f)) =
      Inr (map (\<lambda>(i, e). \<lparr>vd_id = of_nat i, vd_ty = MirI32, vd_operation = lowered_kind (ex_kind e)\<rparr>)
        (enumerate 0 (fn_expressions f)))"
  proof (rule try_map_ok)
    fix x assume x: "x \<in> set (enumerate 0 (fn_expressions f))"
    obtain i e where ie: "x = (i, e)" by (cases x)
    have i: "i < length (fn_expressions f)" "e = fn_expressions f ! i" using x ie by (auto simp: in_set_enumerate_eq)
    then have e: "e \<in> set (fn_expressions f)" by simp
    then show "lower_expression x =
        Inr (case x of (i, e) \<Rightarrow> \<lparr>vd_id = of_nat i, vd_ty = MirI32, vd_operation = lowered_kind (ex_kind e)\<rparr>)"
      using lower_expression_ok [of e i] nb [OF e] ok i(1) n ie by (simp add: function_ok_def)
  qed
  ultimately show ?thesis
    by (simp add: lower_function_def Let_def result_simps lowered_def sealed_def ir_export_def)
qed

lemma lowered_exports: "map mir_export (map lowered fs) = map ir_export fs"
  if "\<forall>f\<in>set fs. function_ok sources f" for fs
proof -
  have "raw_abi_type ty = RawI32" if f: "f \<in> set fs" "ty \<in> set (fn_parameters f)" for f ty
  proof -
    have "ty = TyI32" using f \<open>\<forall>f\<in>set fs. function_ok sources f\<close> unfolding function_ok_def by blast
    then show ?thesis by simp
  qed
  moreover have "raw_abi_type (fn_return_type f) = RawI32" if "f \<in> set fs" for f
    using that \<open>\<forall>f\<in>set fs. function_ok sources f\<close> by (simp add: function_ok_def)
  ultimately show ?thesis by (simp add: lowered_def mir_export_def ir_export_def)
qed

lemma lowered_limits: "ir_within_limits p \<Longrightarrow> abi_ok (map ir_export (pr_functions p)) \<Longrightarrow>
    mir_within_limits (map lowered (pr_functions p)) \<and> mir_symbols_ok (map lowered (pr_functions p))"
proof -
  let ?fs = "pr_functions p"
  assume l: "ir_within_limits p" and a: "abi_ok (map ir_export ?fs)"
  have v: "valid_logical_name (fn_name f)" if "f \<in> set ?fs" for f using a that by (auto simp: abi_ok_def ir_export_def)
  then have s: "length (fn_name f) \<le> 128" "valid_symbol (fn_name f)" if "f \<in> set ?fs" for f
    using that by (auto simp: valid_logical_name_def MAX_LOGICAL_EXPORT_NAME_BYTES_def valid_symbol_def
        reserved_symbol_def reserved_export_def)
  have "sum_list (map (\<lambda>f. length (fn_name f)) ?fs) \<le> sum_list (map (\<lambda>f. 128) ?fs)"
    by (rule sum_list_mono) (use s in auto)
  then have "sum_list (map (\<lambda>f. length (fn_name f)) ?fs) \<le> 16384 * 128"
    using l by (simp add: ir_within_limits_def MAX_IR_FUNCTIONS_def sum_list_triv)
  moreover have "distinct (map (\<lambda>f. to_ascii_lowercase (fn_name f)) ?fs)"
    using a by (simp add: abi_ok_def portable_name_def ir_export_def o_def)
  ultimately show ?thesis using l s
    by (simp add: ir_within_limits_def mir_within_limits_def mir_symbols_ok_def lowered_def o_def
        MAX_IR_FUNCTIONS_def MAX_IR_PARAMETERS_PER_FUNCTION_def MAX_IR_EXPRESSIONS_PER_FUNCTION_def
        MAX_IR_PARAMETERS_PER_PROGRAM_def MAX_IR_EXPRESSIONS_PER_PROGRAM_def
        MAX_MIR_FUNCTIONS_def MAX_MIR_PARAMETERS_PER_FUNCTION_def MAX_MIR_VALUES_PER_FUNCTION_def
        MAX_MIR_PARAMETERS_PER_MODULE_def MAX_MIR_VALUES_PER_MODULE_def MAX_MIR_SYMBOL_BYTES_PER_MODULE_def
        MAX_MIR_SYMBOL_BYTES_def)
qed

lemma lowered_function_ok:
  assumes ok: "function_ok sources f" and n: "length (fn_expressions f) \<le> 2 ^ 32"
  shows "mir_function_ok (lowered f)"
proof -
  let ?es = "fn_expressions f"
  have b: "body_ok f" using ok by (simp add: function_ok_iff)
  note r = body_ok_root [OF b]
  have nodes: "\<forall>j<length ?es. node_ok f j" using body_ok_iff [OF n r] b by blast
  have "value_ok (lowered f) i (mf_values (lowered f) ! i)" if i: "i < length ?es" for i
  proof -
    have "unat (of_nat i :: u32) = i" using i n by (simp add: unat_of_nat take_bit_nat_eq_self)
    moreover have "mf_values (lowered f) ! i =
        \<lparr>vd_id = of_nat i, vd_ty = MirI32, vd_operation = lowered_kind (ex_kind (?es ! i))\<rparr>"
      using i by (simp add: lowered_def nth_enumerate_eq)
    ultimately show ?thesis using nodes [rule_format, OF i]
      by (cases "ex_kind (?es ! i)") (auto simp: value_ok_def node_ok_def lowered_def get_at_def split: if_splits)
  qed
  then show ?thesis using r by (simp add: mir_function_ok_def lowered_def)
qed

lemma mir_call_lowered:
  assumes ok: "function_ok sources f" and n: "length (fn_expressions f) < 2 ^ 32"
    and args: "length args = length (fn_parameters f)"
  shows "mir_call (lowered f) args = Some (ir_value f args)"
proof -
  obtain t where t: "map ex_kind (fn_expressions f) = arena t 0" "unat (fn_body f) = nodes t - 1"
    using ok by (auto simp: function_ok_def)
  have nt: "length (fn_expressions f) = nodes t" using arg_cong [OF t(1), of length] by simp
  have "\<forall>p. EParameter p \<in> set (arena t (length ([] :: i32 list))) \<longrightarrow> unat p < length args"
  proof (intro allI impI)
    fix p assume "EParameter p \<in> set (arena t (length ([] :: i32 list)))"
    then have "EParameter p \<in> ex_kind ` set (fn_expressions f)" using t(1) by (metis list.set_map list.size(3))
    then obtain e where "e \<in> set (fn_expressions f)" "ex_kind e = EParameter p" by (metis imageE)
    then show "unat p < length args" using ok args by (simp add: function_ok_def)
  qed
  from mir_exec_arena [OF this, of "[]"]
  have ex: "mir_exec args (map lowered_kind (arena t 0)) [] = Some (tree_values args t)" using nt n by simp
  have "map vd_operation (mf_values (lowered f)) = map lowered_kind (map ex_kind (fn_expressions f))"
    using map_snd_enumerate_fun [of "\<lambda>e. lowered_kind (ex_kind e)" 0 "fn_expressions f"]
    by (simp add: lowered_def o_def split_beta)
  then have ops: "map vd_operation (mf_values (lowered f)) = map lowered_kind (arena t 0)" by (simp only: t(1))
  have "get_at (tree_values args t) (nodes t - 1) = Some (tree_value args t)"
    using tree_values_at [of 0 "[]" args t "[]"] by simp
  then have "mir_call (lowered f) args = Some (tree_value args t)"
    unfolding mir_call_def ops ex by (simp add: lowered_def t(2))
  moreover have "ir_value f args = tree_value args t"
    using arena_value [of t 0 "fn_expressions f" args] t nt n by (simp add: ir_value_def)
  ultimately show ?thesis by simp
qed

lemma vp_functions_sealed:
  assumes "verify_v1 (map ir_export (pr_functions (vp_program v))) = Inr (vp_abi v)"
  shows "vp_functions v = map (\<lambda>(i, f). \<lparr>vf_function = f, vf_abi_export = \<lparr>vx_index = i, vx_export = sealed (ir_export f)\<rparr>\<rparr>)
    (enumerate 0 (pr_functions (vp_program v)))"
proof -
  have "am_exports (vp_abi v) = map sealed (map ir_export (pr_functions (vp_program v)))"
    using assms verify_v1_accepts by auto
  then show ?thesis
    by (intro nth_equalityI) (auto simp: vp_functions_def abi_exports_def nth_enumerate_eq)
qed

lemma lower_verified:
  assumes "ir_ok sources (vp_program v)" and "verify_v1 (map ir_export (pr_functions (vp_program v))) = Inr (vp_abi v)"
  shows "lower v = Some (Inr \<lparr>vm_raw = map lowered (pr_functions (vp_program v)), vm_abi = vp_abi v\<rparr>)"
proof -
  let ?fs = "pr_functions (vp_program v)"
  have lim: "ir_within_limits (vp_program v)" and abi: "abi_ok (map ir_export ?fs)"
    and fs: "\<forall>f\<in>set ?fs. function_ok sources f" using assms(1) by (auto simp: ir_ok_def)
  have n: "length (fn_expressions f) \<le> 2 ^ 32" if "f \<in> set ?fs" for f
    using lim that by (fastforce simp: ir_within_limits_def MAX_IR_EXPRESSIONS_PER_FUNCTION_def)
  have "try_map lower_function (vp_functions v) = Inr (map (\<lambda>x. lowered (vf_function x)) (vp_functions v))"
  proof (rule try_map_ok)
    fix x assume "x \<in> set (vp_functions v)"
    then obtain i f where "f \<in> set ?fs"
        "x = \<lparr>vf_function = f, vf_abi_export = \<lparr>vx_index = i, vx_export = sealed (ir_export f)\<rparr>\<rparr>"
      unfolding vp_functions_sealed [OF assms(2)] by (auto simp: in_set_enumerate_eq)
    then show "lower_function x = Inr (lowered (vf_function x))"
      using lower_function_ok [of sources f i] fs n by simp
  qed
  moreover have "map (\<lambda>x. lowered (vf_function x)) (vp_functions v) = map lowered ?fs"
    unfolding vp_functions_sealed [OF assms(2)] using map_snd_enumerate_fun [of lowered 0 ?fs]
    by (simp add: o_def split_beta)
  ultimately have l: "lower v = mir_verify (map lowered ?fs)" by (simp add: lower_def)
  have ok: "mir_ok (map lowered ?fs)"
    using lowered_limits [OF lim abi] lowered_function_ok [of sources] fs n by (auto simp: mir_ok_def)
  obtain r where r: "mir_verify (map lowered ?fs) = Some r" "case r of
       Inl ds \<Rightarrow> \<not> mir_ok (map lowered ?fs) \<and> 0 < length ds \<and> length ds \<le> MAX_MIR_DIAGNOSTICS
     | Inr m \<Rightarrow> mir_ok (map lowered ?fs) \<and> vm_raw m = map lowered ?fs \<and>
         verify_v1 (map mir_export (map lowered ?fs)) = Inr (vm_abi m)"
    using mir_verify_total [of "map lowered ?fs"] by blast
  have "verify_v1 (map mir_export (map lowered ?fs)) = Inr (vp_abi v)"
    unfolding lowered_exports [OF fs] by (rule assms(2))
  then show ?thesis using l r ok by (cases r) (auto simp: verified_mir_module.equality)
qed

section \<open>Properties\<close>

text \<open>C37: the native MIR verifier never panics and is exact: it accepts exactly the modules within its limits
  whose symbols are identifiers that stay distinct when case is ignored and whose functions are well formed
  (the internal convention, only i32, dense identifiers, operands that are parameters or earlier values, a
  result that exists). The cycle search then never finds a cycle and the scalar ABI can always be sealed. A
  rejection carries between 1 and 256 diagnostics.\<close>

theorem mir_verify_exact:
  "\<exists>r. mir_verify fs = Some r \<and>
    (case r of
       Inl ds \<Rightarrow> \<not> mir_ok fs \<and> 0 < length ds \<and> length ds \<le> MAX_MIR_DIAGNOSTICS
     | Inr m \<Rightarrow> mir_ok fs \<and> vm_raw m = fs \<and> verify_v1 (map mir_export fs) = Inr (vm_abi m))"
  by (rule mir_verify_total)

text \<open>C38: lowering of verified Universal IR is total and preserves meaning: every program the IR verifier accepts
  lowers to a module the MIR verifier accepts, with the same sealed ABI and function by function; each lowered
  function, run on arguments of its arity, computes without a missing value the 32-bit wrapping value of the
  expression at the body of its source function.\<close>

theorem lower_preserves:
  assumes "wf_source_map sources" and "ir_verify p sources = Some (Inr v)"
  shows "\<exists>m. lower v = Some (Inr m) \<and> vm_abi m = vp_abi v \<and> length (vm_raw m) = length (pr_functions p) \<and>
    (\<forall>k<length (pr_functions p). \<forall>args.
       length args = length (fn_parameters (pr_functions p ! k)) \<longrightarrow>
       mir_call (vm_raw m ! k) args = Some (ir_value (pr_functions p ! k) args))"
proof -
  have ok: "ir_ok sources p" "vp_program v = p" "verify_v1 (map ir_export (pr_functions p)) = Inr (vp_abi v)"
    using ir_verify_total [OF assms(1), of p] assms(2) by auto
  have n: "length (fn_expressions f) < 2 ^ 32" if "f \<in> set (pr_functions p)" for f
    using ok(1) that by (fastforce simp: ir_ok_def ir_within_limits_def MAX_IR_EXPRESSIONS_PER_FUNCTION_def)
  have "lower v = Some (Inr \<lparr>vm_raw = map lowered (pr_functions p), vm_abi = vp_abi v\<rparr>)"
    using lower_verified [of sources v] ok by simp
  moreover have "mir_call (lowered f) args = Some (ir_value f args)"
    if "f \<in> set (pr_functions p)" "length args = length (fn_parameters f)" for f args
    using mir_call_lowered [of sources f args] n that ok(1) by (simp add: ir_ok_def)
  ultimately show ?thesis by simp
qed

theorem lower_preserves_witness:
  "\<exists>v m. ir_verify sample_program sample_map = Some (Inr v) \<and> lower v = Some (Inr m) \<and>
    mir_call (vm_raw m ! 0) [2, - 9] = Some (- 2)"
proof -
  obtain v where v: "ir_verify sample_program sample_map = Some (Inr v)" using sample_program_verifies by blast
  from lower_preserves [OF sample_wf v] obtain m where m: "lower v = Some (Inr m)"
      "\<forall>k<length (pr_functions sample_program). \<forall>args.
         length args = length (fn_parameters (pr_functions sample_program ! k)) \<longrightarrow>
         mir_call (vm_raw m ! k) args = Some (ir_value (pr_functions sample_program ! k) args)" by blast
  have "ir_value (pr_functions sample_program ! 0) [2, - 9] = - 2" by code_simp
  then have "mir_call (vm_raw m ! 0) [2, - 9] = Some (- 2)"
    using m(2) [rule_format, of 0 "[2, - 9]"] by (simp add: sample_program_def)
  then show ?thesis using v m(1) by blast
qed
end
