(* ===== verification/Flow_Graph.thy ===== *)
theory Flow_Graph
  imports Zryna_Prelude
begin

text \<open>
  The graph algorithms of the control-flow verifier, \<open>crates/zryna-ir/src/control_flow_v1.rs\<close>: reachability from
  the entry block, the immediate dominators of Cooper, Harvey and Kennedy with their bounded number of rounds,
  the entry and exit times of the dominator tree, natural loops, and the topological counting that detects
  cycles of forward edges and of calls. A graph is a list of successor lists. \<open>None\<close> is a panic (an index out
  of range, a counter below zero) or a loop that does not end. Counters that the code increments with saturation count
  entries of lists, which are shorter than the range of \<open>usize\<close>, so the model adds one.
\<close>

definition usize_max :: usize where "usize_max = 2 ^ 64 - 1"

section \<open>Reachability\<close>

definition unmarked :: "bool list \<Rightarrow> nat" where
  "unmarked marks = length (filter Not marks)"

lemma unmarked_update [simp]:
  "b < length marks \<Longrightarrow> \<not> marks ! b \<Longrightarrow> unmarked (marks[b := True]) < unmarked marks"
proof (induction marks arbitrary: b)
  case (Cons m ms)
  then show ?case by (cases b) (auto simp: unmarked_def)
qed simp

function reachable_loop :: "usize list list \<Rightarrow> usize list \<Rightarrow> bool list \<Rightarrow> bool list option" where
  "reachable_loop succs [] reached = Some reached"
| "reachable_loop succs (b # stack) reached =
     (case get_at reached b of
        None \<Rightarrow> None
      | Some True \<Rightarrow> reachable_loop succs stack reached
      | Some False \<Rightarrow>
          (case get_at succs b of
             None \<Rightarrow> None
           | Some targets \<Rightarrow> reachable_loop succs (targets @ stack) (reached[b := True])))"
  by pat_completeness auto

termination
  by (relation "measures [\<lambda>(succs, stack, reached). unmarked reached, \<lambda>(succs, stack, reached). length stack]")
    (auto simp: get_at_Some_iff)

definition reachable_from_entry :: "usize list list \<Rightarrow> bool list option" where
  "reachable_from_entry succs = reachable_loop succs [0] (replicate (length succs) False)"

section \<open>Immediate dominators\<close>

definition frames_left :: "usize list list \<Rightarrow> (usize \<times> usize) list \<Rightarrow> nat" where
  "frames_left succs stack = sum_list (map (\<lambda>(node, child). Suc (length (succs ! node) - child)) stack)"

lemma frames_left_simps [simp]:
  "frames_left succs [] = 0"
  "frames_left succs ((node, child) # stack) = Suc (length (succs ! node) - child) + frames_left succs stack"
  by (simp_all add: frames_left_def)

function order_loop ::
    "usize list list \<Rightarrow> (usize \<times> usize) list \<Rightarrow> bool list \<Rightarrow> usize list \<Rightarrow> usize list option" where
  "order_loop succs [] visited order = Some order"
| "order_loop succs ((node, child) # stack) visited order =
     (case get_at succs node of
        None \<Rightarrow> None
      | Some targets \<Rightarrow>
          if child < length targets then
            (case get_at visited (targets ! child) of
               None \<Rightarrow> None
             | Some True \<Rightarrow> order_loop succs ((node, Suc child) # stack) visited order
             | Some False \<Rightarrow>
                 order_loop succs ((targets ! child, 0) # (node, Suc child) # stack)
                   (visited[targets ! child := True]) order)
          else order_loop succs stack visited (order @ [node]))"
  by pat_completeness auto

termination
  by (relation "measures [\<lambda>(succs, stack, visited, order). unmarked visited,
      \<lambda>(succs, stack, visited, order). frames_left succs stack]")
    (auto simp: get_at_Some_iff)

text \<open>The two inner loops of \<open>intersect\<close> climb from a block until its position is no longer beyond a bound.\<close>

partial_function (option) climb :: "usize list \<Rightarrow> usize list \<Rightarrow> usize \<Rightarrow> usize \<Rightarrow> usize option" where
  "climb idom position bound x =
     Option.bind (get_at position x) (\<lambda>p.
     if bound < p then Option.bind (get_at idom x) (climb idom position bound) else Some x)"

partial_function (option) intersect :: "usize list \<Rightarrow> usize list \<Rightarrow> usize \<Rightarrow> usize \<Rightarrow> usize option" where
  "intersect idom position left right =
     (if left = right then Some left
      else
        Option.bind (get_at position right) (\<lambda>bound.
        Option.bind (climb idom position bound left) (\<lambda>left.
        Option.bind (get_at position left) (\<lambda>bound.
        Option.bind (climb idom position bound right) (\<lambda>right.
        intersect idom position left right)))))"

fun intersect_all :: "usize list \<Rightarrow> usize list \<Rightarrow> usize \<Rightarrow> usize list \<Rightarrow> usize option" where
  "intersect_all idom position candidate [] = Some candidate"
| "intersect_all idom position candidate (p # ps) =
     Option.bind (intersect idom position candidate p) (\<lambda>candidate. intersect_all idom position candidate ps)"

fun dominator_pass ::
    "usize list list \<Rightarrow> usize list \<Rightarrow> usize list \<Rightarrow> usize list \<Rightarrow> bool \<Rightarrow> (usize list \<times> bool) option" where
  "dominator_pass preds position [] idom changed = Some (idom, changed)"
| "dominator_pass preds position (block # blocks) idom changed =
     Option.bind (get_at preds block) (\<lambda>ps.
     if list_ex (\<lambda>p. length idom \<le> p) ps then None
     else
       (case filter (\<lambda>p. idom ! p \<noteq> usize_max) ps of
          [] \<Rightarrow> dominator_pass preds position blocks idom changed
        | first # defined \<Rightarrow>
            Option.bind (intersect_all idom position first defined) (\<lambda>candidate.
            Option.bind (get_at idom block) (\<lambda>old.
            if old \<noteq> candidate then dominator_pass preds position blocks (idom[block := candidate]) True
            else dominator_pass preds position blocks idom changed))))"

fun dominator_rounds ::
    "nat \<Rightarrow> usize list list \<Rightarrow> usize list \<Rightarrow> usize list \<Rightarrow> usize list \<Rightarrow> usize list option option" where
  "dominator_rounds 0 preds position blocks idom = Some None"
| "dominator_rounds (Suc rounds) preds position blocks idom =
     Option.bind (dominator_pass preds position blocks idom False) (\<lambda>(idom, changed).
     if \<not> changed then Some (if list_all (\<lambda>x. x \<noteq> usize_max) idom then Some idom else None)
     else dominator_rounds rounds preds position blocks idom)"

definition order_positions :: "usize \<Rightarrow> usize list \<Rightarrow> usize list option" where
  "order_positions amount order =
     (if list_all (\<lambda>b. b < amount) order
      then Some (foldl (\<lambda>position (i, b). position[b := i]) (replicate amount 0) (enumerate 0 order))
      else None)"

definition immediate_dominators ::
    "usize list list \<Rightarrow> usize list list \<Rightarrow> usize list option option" where
  "immediate_dominators succs preds =
     (let amount = length succs
      in if amount = 0 then None
         else
           Option.bind (order_loop succs [(0, 0)] ((replicate amount False)[0 := True]) []) (\<lambda>order.
           if length order \<noteq> amount then Some None
           else
             (let order = rev order
              in Option.bind (order_positions amount order) (\<lambda>position.
                 dominator_rounds amount preds position (drop 1 order) ((replicate amount usize_max)[0 := 0])))))"

section \<open>Intervals of the dominator tree\<close>

fun tree_children :: "usize list \<Rightarrow> usize list \<Rightarrow> usize list list \<Rightarrow> usize list list option" where
  "tree_children idom [] children = Some children"
| "tree_children idom (block # blocks) children =
     Option.bind (get_at idom block) (\<lambda>parent.
     Option.bind (get_at children parent) (\<lambda>siblings.
     tree_children idom blocks (children[parent := siblings @ [block]])))"

partial_function (option) intervals_loop ::
    "usize list list \<Rightarrow> (usize \<times> bool) list \<Rightarrow> usize list \<Rightarrow> usize list \<Rightarrow> usize \<Rightarrow> (usize list \<times> usize list) option" where
  "intervals_loop children stack entry exits clock =
     (case stack of
        [] \<Rightarrow> Some (entry, exits)
      | (node, exiting) # stack \<Rightarrow>
          if \<not> node < length entry then None
          else if exiting then intervals_loop children stack entry (exits[node := clock]) (Suc clock)
          else
            Option.bind (get_at children node) (\<lambda>kids.
            intervals_loop children (map (\<lambda>k. (k, False)) kids @ (node, True) # stack)
              (entry[node := clock]) exits (Suc clock)))"

definition dominator_intervals :: "usize list \<Rightarrow> (usize list \<times> usize list) option" where
  "dominator_intervals idom =
     Option.bind (tree_children idom [1..<length idom] (replicate (length idom) [])) (\<lambda>children.
     intervals_loop children [(0, False)] (replicate (length idom) 0) (replicate (length idom) 0) 0)"

definition dominates :: "usize list \<Rightarrow> usize list \<Rightarrow> usize \<Rightarrow> usize \<Rightarrow> bool" where
  "dominates entry exits left right = (entry ! left \<le> entry ! right \<and> exits ! right \<le> exits ! left)"

section \<open>Natural loops\<close>

function loop_members :: "usize list list \<Rightarrow> usize \<Rightarrow> usize list \<Rightarrow> bool list \<Rightarrow> bool list option" where
  "loop_members preds header [] members = Some members"
| "loop_members preds header (node # stack) members =
     (case get_at members node of
        None \<Rightarrow> None
      | Some True \<Rightarrow> loop_members preds header stack members
      | Some False \<Rightarrow>
          (case get_at preds node of
             None \<Rightarrow> None
           | Some ps \<Rightarrow>
               loop_members preds header (rev (filter (\<lambda>p. p \<noteq> header) ps) @ stack) (members[node := True])))"
  by pat_completeness auto

termination
  by (relation "measures [\<lambda>(preds, header, stack, members). unmarked members,
      \<lambda>(preds, header, stack, members). length stack]")
    (auto simp: get_at_Some_iff)

section \<open>Counting in topological order\<close>

text \<open>One decrement of a counter, which joins the queue at zero.\<close>

definition release_target :: "usize \<Rightarrow> usize list \<Rightarrow> usize list \<Rightarrow> (usize list \<times> usize list) option" where
  "release_target target indegree queue =
     Option.bind (get_at indegree target) (\<lambda>d.
     if d = 0 then None
     else Some (indegree[target := d - 1], if d - 1 = 0 then queue @ [target] else queue))"

fun release_targets :: "usize list \<Rightarrow> usize list \<Rightarrow> usize list \<Rightarrow> (usize list \<times> usize list) option" where
  "release_targets [] indegree queue = Some (indegree, queue)"
| "release_targets (t # ts) indegree queue =
     Option.bind (release_target t indegree queue) (\<lambda>(indegree, queue). release_targets ts indegree queue)"

lemma sum_list_decrement: "t < length xs \<Longrightarrow> xs ! t = Suc d \<Longrightarrow> sum_list xs = Suc (sum_list (xs[t := d]))"
proof (induction xs arbitrary: t)
  case (Cons x xs)
  then show ?case by (cases t) auto
qed simp

lemma release_target_work:
  assumes "release_target t indegree queue = Some (indegree', queue')"
  shows "sum_list indegree' + length queue' \<le> sum_list indegree + length queue"
proof -
  obtain d where "t < length indegree" "indegree ! t = Suc d"
      "indegree' = indegree[t := d]" "length queue' \<le> Suc (length queue)"
    using assms by (cases "get_at indegree t") (auto simp: release_target_def get_at_Some_iff gr0_conv_Suc split: if_splits)
  then show ?thesis using sum_list_decrement [of t indegree d] by simp
qed

lemma release_targets_work:
  "release_targets ts indegree queue = Some (indegree', queue') \<Longrightarrow>
    sum_list indegree' + length queue' \<le> sum_list indegree + length queue"
proof (induction ts indegree queue rule: release_targets.induct)
  case (2 t ts indegree queue)
  then obtain i q where "release_target t indegree queue = Some (i, q)" "release_targets ts i q = Some (indegree', queue')"
    by (cases "release_target t indegree queue") auto
  then show ?case using 2(1) [of "(i, q)" i q] release_target_work [of t indegree queue i q] by simp
qed simp

function forward_loop :: "usize list list \<Rightarrow> usize list \<Rightarrow> usize list \<Rightarrow> usize \<Rightarrow> usize option" where
  "forward_loop forward [] indegree seen = Some seen"
| "forward_loop forward (node # queue) indegree seen =
     (case get_at forward node of
        None \<Rightarrow> None
      | Some targets \<Rightarrow>
          (case release_targets targets indegree queue of
             None \<Rightarrow> None
           | Some (indegree, queue) \<Rightarrow> forward_loop forward queue indegree (Suc seen)))"
  by pat_completeness auto

termination
  by (relation "measure (\<lambda>(forward, queue, indegree, seen). sum_list indegree + length queue)")
    (auto dest: release_targets_work)

text \<open>The same loop over the call graph also keeps the depth of each function.\<close>

fun release_callees ::
    "usize \<Rightarrow> usize list \<Rightarrow> usize list \<Rightarrow> usize list \<Rightarrow> usize list
     \<Rightarrow> (usize list \<times> usize list \<times> usize list) option" where
  "release_callees caller [] depth indegree queue = Some (depth, indegree, queue)"
| "release_callees caller (callee # callees) depth indegree queue =
     Option.bind (get_at depth callee) (\<lambda>d.
     Option.bind (get_at depth caller) (\<lambda>c.
     Option.bind (release_target callee indegree queue) (\<lambda>(indegree, queue).
     release_callees caller callees (depth[callee := max d (Suc c)]) indegree queue)))"

lemma release_callees_work:
  "release_callees caller ts depth indegree queue = Some (depth', indegree', queue') \<Longrightarrow>
    sum_list indegree' + length queue' \<le> sum_list indegree + length queue"
proof (induction ts arbitrary: depth indegree queue)
  case (Cons t ts)
  then obtain d c i q where "release_target t indegree queue = Some (i, q)"
      "release_callees caller ts (depth[t := max d (Suc c)]) i q = Some (depth', indegree', queue')"
    by (cases "release_target t indegree queue"; cases "get_at depth t"; cases "get_at depth caller") auto
  then show ?case using Cons.IH [of "depth[t := max d (Suc c)]" i q] release_target_work [of t indegree queue i q] by simp
qed simp

function call_loop ::
    "usize list list \<Rightarrow> usize list \<Rightarrow> usize list \<Rightarrow> usize list \<Rightarrow> usize \<Rightarrow> (usize list \<times> usize) option" where
  "call_loop succs [] depth indegree seen = Some (depth, seen)"
| "call_loop succs (node # queue) depth indegree seen =
     (case get_at succs node of
        None \<Rightarrow> None
      | Some callees \<Rightarrow>
          (case release_callees node callees depth indegree queue of
             None \<Rightarrow> None
           | Some (depth, indegree, queue) \<Rightarrow> call_loop succs queue depth indegree (Suc seen)))"
  by pat_completeness auto

termination
  by (relation "measure (\<lambda>(succs, queue, depth, indegree, seen). sum_list indegree + length queue)")
    (auto dest: release_callees_work)

definition zero_indices :: "usize list \<Rightarrow> usize list" where
  "zero_indices degrees = map fst (filter (\<lambda>(_, d). d = 0) (enumerate 0 degrees))"

text \<open>The three loops above run by their defining equations.\<close>

declare climb.simps [code] intersect.simps [code] intervals_loop.simps [code]

end
