(* ===== verification/Control_Flow.thy ===== *)
theory Control_Flow
  imports Universal_IR Flow_Graph
begin

text \<open>
  The control-flow profile of the Universal IR, \<open>crates/zryna-ir/src/control_flow_v1.rs\<close>: raw programs of modules,
  functions and SSA blocks, and their verifier. The collector \<open>Errors\<close> is the record \<open>check_errors\<close>; functions that
  also fill a list (values, edges, calls) return it with the collector. \<open>None\<close> is a panic. The code tests after
  most steps whether the collector is exhausted and then returns; the model tests at the same places.
\<close>

section \<open>Limits\<close>

definition MAX_MODULES :: usize where "MAX_MODULES = 4096"
definition MAX_FUNCTIONS_PER_MODULE :: usize where "MAX_FUNCTIONS_PER_MODULE = 4096"
definition MAX_FUNCTIONS_PER_PROGRAM :: usize where "MAX_FUNCTIONS_PER_PROGRAM = 16384"
definition MAX_PARAMETERS_PER_FUNCTION :: usize where "MAX_PARAMETERS_PER_FUNCTION = 256"
definition MAX_PARAMETERS_PER_PROGRAM :: usize where "MAX_PARAMETERS_PER_PROGRAM = 262144"
definition MAX_BLOCKS_PER_FUNCTION :: usize where "MAX_BLOCKS_PER_FUNCTION = 4096"
definition MAX_BLOCKS_PER_PROGRAM :: usize where "MAX_BLOCKS_PER_PROGRAM = 65536"
definition MAX_BLOCK_PARAMETERS :: usize where "MAX_BLOCK_PARAMETERS = 256"
definition MAX_VALUES_PER_FUNCTION :: usize where "MAX_VALUES_PER_FUNCTION = 16384"
definition MAX_VALUES_PER_PROGRAM :: usize where "MAX_VALUES_PER_PROGRAM = 262144"
definition MAX_CFG_EDGES_PER_FUNCTION :: usize where "MAX_CFG_EDGES_PER_FUNCTION = 8192"
definition MAX_CFG_EDGES_PER_PROGRAM :: usize where "MAX_CFG_EDGES_PER_PROGRAM = 131072"
definition MAX_CALL_EDGES :: usize where "MAX_CALL_EDGES = 65536"
definition MAX_STATIC_CALL_DEPTH :: usize where "MAX_STATIC_CALL_DEPTH = 128"
definition MAX_LOOP_NESTING :: usize where "MAX_LOOP_NESTING = 128"
definition MAX_FLOW_DIAGNOSTICS :: usize where "MAX_FLOW_DIAGNOSTICS = 256"

section \<open>Raw programs\<close>

record function_id =
  fi_module :: u32
  fi_declaration :: u32

record flow_value =
  fv_id :: u32
  fv_ty :: ir_type
  fv_span :: span

datatype instruction_kind =
    IkBoolLiteral bool
  | IkI32Literal i32
  | IkI32Add u32 u32
  | IkI32Sub u32 u32
  | IkI32Mul u32 u32
  | IkI32Neg u32
  | IkEq u32 u32
  | IkNe u32 u32
  | IkI32LtS u32 u32
  | IkI32LeS u32 u32
  | IkI32GtS u32 u32
  | IkI32GeS u32 u32
  | IkDirectCall function_id "u32 list"

record instruction =
  is_result :: flow_value
  is_kind :: instruction_kind

datatype terminator =
    TmReturn u32
  | TmJump u32 "u32 list"
  | TmBranch u32 u32 "u32 list" u32 "u32 list"

record spanned_terminator =
  st_span :: span
  st_kind :: terminator

record block =
  bk_id :: u32
  bk_parameters :: "flow_value list"
  bk_instructions :: "instruction list"
  bk_terminators :: "spanned_terminator list"

record flow_function =
  ff_id :: function_id
  ff_entry_export :: "string option"
  ff_span :: span
  ff_parameters :: "flow_value list"
  ff_result :: ir_type
  ff_blocks :: "block list"

record flow_module =
  fm_id :: u32
  fm_source_file :: file_id
  fm_functions :: "flow_function list"

record flow_program =
  fp_entry_module :: u32
  fp_modules :: "flow_module list"

record verified_flow_program =
  vfp_program :: flow_program
  vfp_abi :: verified_scalar_abi_module
  vfp_abi_indices :: "usize option list list"

record function_key =
  fk_module :: usize
  fk_function :: usize

datatype definition_location = AtParameter | AtBlockParameter usize | AtInstruction usize usize

record value_info =
  vin_ty :: ir_type
  vin_location :: definition_location

record edge =
  eg_source :: usize
  eg_target :: usize
  eg_arguments :: "u32 list"

section \<open>Diagnostics\<close>

definition flow_error :: "string \<Rightarrow> string \<Rightarrow> string \<Rightarrow> diagnostic" where
  "flow_error code message guidance = diagnostic_error code None message guidance"

definition flow_error_at :: "string \<Rightarrow> span option \<Rightarrow> string \<Rightarrow> string \<Rightarrow> diagnostic" where
  "flow_error_at code sp message guidance =
     (case sp of
        Some sp \<Rightarrow> diagnostic_error_at code sp message guidance
      | None \<Rightarrow> flow_error code message guidance)"

definition flow_push :: "diagnostic \<Rightarrow> check_errors \<Rightarrow> check_errors" where
  "flow_push = push_bounded MAX_FLOW_DIAGNOSTICS
     (flow_error ''ZRYNA-I2202''
        (''ControlFlowV1 verification reached its diagnostic limit of '' @ show_nat MAX_FLOW_DIAGNOSTICS)
        ''fix retained diagnostics before verifying again'')"

definition flow_limit :: "string \<Rightarrow> usize \<Rightarrow> check_errors \<Rightarrow> check_errors" where
  "flow_limit label maximum =
     push_last (flow_error ''ZRYNA-I2201'' (''ControlFlowV1 '' @ label @ '' exceeds its limit of '' @ show_nat maximum)
       ''reduce the program before IR verification'')"

definition flow_push_when :: "bool \<Rightarrow> diagnostic \<Rightarrow> check_errors \<Rightarrow> check_errors" where
  "flow_push_when b d er = (if b then flow_push d er else er)"

definition key_label :: "string \<Rightarrow> usize \<Rightarrow> usize \<Rightarrow> string" where
  "key_label what m f = what @ '' #'' @ show_nat m @ '':'' @ show_nat f"

section \<open>Preflight\<close>

text \<open>An early return is \<open>Inl\<close> with the collector at that point.\<close>

definition checked_sum :: "usize \<Rightarrow> usize \<Rightarrow> string \<Rightarrow> check_errors \<Rightarrow> usize \<times> check_errors" where
  "checked_sum current extra label er =
     (case usize_checked_add current extra of
        Some n \<Rightarrow> (n, er)
      | None \<Rightarrow> (usize_max, flow_limit label usize_max er))"

definition add_total ::
    "usize \<Rightarrow> usize \<Rightarrow> usize \<Rightarrow> string \<Rightarrow> check_errors \<Rightarrow> check_errors + usize \<times> check_errors" where
  "add_total current extra maximum label er =
     (let (n, er) = checked_sum current extra label er
      in if maximum < n then Inl (flow_limit label maximum er) else Inr (n, er))"

definition limit_when :: "bool \<Rightarrow> string \<Rightarrow> usize \<Rightarrow> check_errors \<Rightarrow> check_errors + check_errors" where
  "limit_when b label maximum er = (if b then Inl (flow_limit label maximum er) else Inr er)"

definition is_direct_call :: "instruction \<Rightarrow> bool" where
  "is_direct_call i = (case is_kind i of IkDirectCall _ _ \<Rightarrow> True | _ \<Rightarrow> False)"

definition call_argument_count :: "instruction \<Rightarrow> usize" where
  "call_argument_count i = (case is_kind i of IkDirectCall _ args \<Rightarrow> length args | _ \<Rightarrow> 0)"

definition preflight_terminator :: "terminator \<Rightarrow> check_errors \<Rightarrow> check_errors + check_errors" where
  "preflight_terminator t er =
     (case t of
        TmReturn _ \<Rightarrow> Inr er
      | TmJump _ args \<Rightarrow> limit_when (MAX_BLOCK_PARAMETERS < length args) ''jump argument count'' MAX_BLOCK_PARAMETERS er
      | TmBranch _ _ ts _ fs \<Rightarrow>
          try_bind (limit_when (MAX_BLOCK_PARAMETERS < length ts) ''true branch argument count'' MAX_BLOCK_PARAMETERS er)
            (limit_when (MAX_BLOCK_PARAMETERS < length fs) ''false branch argument count'' MAX_BLOCK_PARAMETERS))"

fun edge_count :: "terminator \<Rightarrow> usize" where
  "edge_count (TmReturn _) = 0"
| "edge_count (TmJump _ _) = 1"
| "edge_count (TmBranch _ _ _ _ _) = 2"

fun preflight_blocks ::
    "string \<Rightarrow> block list \<Rightarrow> usize \<Rightarrow> usize \<Rightarrow> usize \<Rightarrow> check_errors
     \<Rightarrow> check_errors + usize \<times> usize \<times> usize \<times> check_errors" where
  "preflight_blocks label [] vals edges calls er = Inr (vals, edges, calls, er)"
| "preflight_blocks label (b # bs) vals edges calls er =
     try_bind (limit_when (MAX_BLOCK_PARAMETERS < length (bk_parameters b)) ''block parameter count'' MAX_BLOCK_PARAMETERS er)
       (\<lambda>er.
     let (vals, er) = checked_sum vals (length (bk_parameters b)) ''value count'' er;
         (vals, er) = checked_sum vals (length (bk_instructions b)) ''value count'' er
     in try_bind (limit_when (MAX_VALUES_PER_FUNCTION < vals) (label @ '' value count'') MAX_VALUES_PER_FUNCTION er) (\<lambda>er.
     let (calls, er) = checked_sum calls (length (filter is_direct_call (bk_instructions b))) ''call edge count'' er
     in try_bind (limit_when (MAX_CALL_EDGES < calls) ''call edge count'' MAX_CALL_EDGES er) (\<lambda>er.
     try_bind (limit_when (list_ex (\<lambda>i. MAX_PARAMETERS_PER_FUNCTION < call_argument_count i) (bk_instructions b))
       ''direct-call argument count'' MAX_PARAMETERS_PER_FUNCTION er) (\<lambda>er.
     case bk_terminators b of
       [t] \<Rightarrow>
         try_bind (preflight_terminator (st_kind t) er) (\<lambda>er.
         let (edges, er) = checked_sum edges (edge_count (st_kind t)) ''CFG edge count'' er
         in try_bind (limit_when (MAX_CFG_EDGES_PER_FUNCTION < edges) (label @ '' CFG edge count'')
              MAX_CFG_EDGES_PER_FUNCTION er) (\<lambda>er.
         preflight_blocks label bs vals edges calls er))
     | _ \<Rightarrow> preflight_blocks label bs vals edges calls er))))"

record preflight_totals =
  pt_functions :: usize
  pt_parameters :: usize
  pt_blocks :: usize
  pt_values :: usize
  pt_edges :: usize
  pt_calls :: usize

fun preflight_functions ::
    "usize \<Rightarrow> (usize \<times> flow_function) list \<Rightarrow> preflight_totals \<Rightarrow> check_errors
     \<Rightarrow> check_errors + preflight_totals \<times> check_errors" where
  "preflight_functions mi [] t er = Inr (t, er)"
| "preflight_functions mi ((i, f) # fs) t er =
     (let label = key_label ''function'' mi i
      in try_bind (limit_when (MAX_PARAMETERS_PER_FUNCTION < length (ff_parameters f)) (label @ '' parameter count'')
           MAX_PARAMETERS_PER_FUNCTION er) (\<lambda>er.
         try_bind (add_total (pt_parameters t) (length (ff_parameters f)) MAX_PARAMETERS_PER_PROGRAM ''parameter count'' er)
           (\<lambda>(parameters, er).
         try_bind (limit_when (ff_blocks f = [] \<or> MAX_BLOCKS_PER_FUNCTION < length (ff_blocks f)) (label @ '' block count'')
           MAX_BLOCKS_PER_FUNCTION er) (\<lambda>er.
         try_bind (add_total (pt_blocks t) (length (ff_blocks f)) MAX_BLOCKS_PER_PROGRAM ''block count'' er)
           (\<lambda>(blocks, er).
         try_bind (preflight_blocks label (ff_blocks f) (length (ff_parameters f)) 0 (pt_calls t) er)
           (\<lambda>(function_values, function_edges, calls, er).
         try_bind (add_total (pt_values t) function_values MAX_VALUES_PER_PROGRAM ''value count'' er)
           (\<lambda>(vals, er).
         try_bind (add_total (pt_edges t) function_edges MAX_CFG_EDGES_PER_PROGRAM ''CFG edge count'' er)
           (\<lambda>(edges, er).
         preflight_functions mi fs
           (t\<lparr>pt_parameters := parameters, pt_blocks := blocks, pt_values := vals, pt_edges := edges, pt_calls := calls\<rparr>)
           er))))))))"

fun flow_preflight_modules ::
    "(usize \<times> flow_module) list \<Rightarrow> preflight_totals \<Rightarrow> check_errors \<Rightarrow> check_errors + preflight_totals \<times> check_errors" where
  "flow_preflight_modules [] t er = Inr (t, er)"
| "flow_preflight_modules ((i, m) # ms) t er =
     try_bind (limit_when (MAX_FUNCTIONS_PER_MODULE < length (fm_functions m))
       (''module #'' @ show_nat i @ '' function count'') MAX_FUNCTIONS_PER_MODULE er) (\<lambda>er.
     try_bind (add_total (pt_functions t) (length (fm_functions m)) MAX_FUNCTIONS_PER_PROGRAM ''function count'' er)
       (\<lambda>(functions, er).
     try_bind (preflight_functions i (enumerate 0 (fm_functions m)) (t\<lparr>pt_functions := functions\<rparr>) er) (\<lambda>(t, er).
     flow_preflight_modules ms t er)))"

definition flow_preflight :: "flow_program \<Rightarrow> check_errors \<Rightarrow> check_errors" where
  "flow_preflight p er =
     (if fp_modules p = [] then
        flow_push (flow_error ''ZRYNA-I2001'' ''ControlFlowV1 program has no entry module''
          ''provide the complete nonempty final module closure'') er
      else if MAX_MODULES < length (fp_modules p) then flow_limit ''module count'' MAX_MODULES er
      else
        (case flow_preflight_modules (enumerate 0 (fp_modules p))
            \<lparr>pt_functions = 0, pt_parameters = 0, pt_blocks = 0, pt_values = 0, pt_edges = 0, pt_calls = 0\<rparr> er of
           Inl er \<Rightarrow> er
         | Inr (t, er) \<Rightarrow> if MAX_CALL_EDGES < pt_calls t then flow_limit ''call edge count'' MAX_CALL_EDGES er else er))"

section \<open>Modules\<close>

definition verify_function_identity ::
    "flow_program \<Rightarrow> usize \<Rightarrow> flow_module \<Rightarrow> usize \<times> flow_function \<Rightarrow> check_errors \<Rightarrow> check_errors option" where
  "verify_function_identity p mi m = (\<lambda>(fi, f) er.
     Option.bind (u32_try_from fi) (\<lambda>expected.
     let er = flow_push_when (fi_module (ff_id f) \<noteq> fm_id m \<or> fi_declaration (ff_id f) \<noteq> expected)
           (flow_error ''ZRYNA-I2003'' (key_label ''function'' mi fi @ '' has a noncanonical identity'')
             ''use its containing module and dense source declaration index'') er
     in if ce_exhausted er then Some er
        else
          Some (flow_push_when (fm_id m \<noteq> fp_entry_module p \<and> ff_entry_export f \<noteq> None)
            (flow_error ''ZRYNA-I2004''
              (key_label ''dependency function'' mi fi @ '' claims a public entry export'')
              ''only entry-module exports may enter scalar ABI v1'') er)))"

text \<open>A loop that returns as soon as the collector is exhausted after a step.\<close>

fun check_steps :: "('a \<Rightarrow> check_errors \<Rightarrow> check_errors option) \<Rightarrow> 'a list \<Rightarrow> check_errors \<Rightarrow> check_errors option" where
  "check_steps f [] er = Some er"
| "check_steps f (x # xs) er =
     Option.bind (f x er) (\<lambda>er. if ce_exhausted er then Some er else check_steps f xs er)"

definition verify_module ::
    "flow_program \<Rightarrow> source_map \<Rightarrow> usize \<times> flow_module \<Rightarrow> check_errors \<Rightarrow> check_errors option" where
  "verify_module p sources = (\<lambda>(mi, m) er.
     Option.bind (u32_try_from mi) (\<lambda>expected_id.
     let expected_file = (case verify_file_id sources expected_id of Inl _ \<Rightarrow> None | Inr f \<Rightarrow> Some f);
         er = flow_push_when (fm_id m \<noteq> expected_id \<or> expected_file \<noteq> Some (fm_source_file m))
           (flow_error ''ZRYNA-I2001''
             (''module #'' @ show_nat mi @ '' has a noncanonical identity or source authority'')
             ''order dense modules by final normalized source path'') er
     in if ce_exhausted er then Some er
        else check_steps (verify_function_identity p mi m) (enumerate 0 (fm_functions m)) er))"

definition verify_modules :: "flow_program \<Rightarrow> source_map \<Rightarrow> file_id \<Rightarrow> check_errors \<Rightarrow> check_errors option" where
  "verify_modules p sources expected_entry er =
     (if ce_exhausted er then Some er
      else
        (let er = flow_push_when (length (fp_modules p) \<noteq> sm_len sources)
              (flow_error ''ZRYNA-I2001'' ''module inventory does not exactly match the final source map''
                ''provide every final source module exactly once in normalized path order'') er
         in if ce_exhausted er then Some er
            else
              (let entry = get_at (fp_modules p) (unat (fp_entry_module p));
                   er = flow_push_when
                     (map_option fm_source_file entry \<noteq> Some expected_entry \<or> sm_source sources expected_entry = None)
                     (flow_error ''ZRYNA-I2002''
                       ''entry module is not bound to the independently supplied entry source''
                       ''use the exact entry FileId issued by the final SourceMap'') er
               in if ce_exhausted er then Some er
                  else check_steps (verify_module p sources) (enumerate 0 (fp_modules p)) er)))"

type_synonym signatures = "(ir_type list \<times> ir_type) list list"

definition collect_signatures :: "flow_program \<Rightarrow> signatures" where
  "collect_signatures p =
     map (\<lambda>m. map (\<lambda>f. (map fv_ty (ff_parameters f), ff_result f)) (fm_functions m)) (fp_modules p)"

section \<open>Values\<close>

definition validate_type :: "ir_type \<Rightarrow> span option \<Rightarrow> string \<Rightarrow> check_errors \<Rightarrow> check_errors" where
  "validate_type ty sp label er =
     (if ce_exhausted er then er
      else flow_push_when (ty = TyUnit)
        (flow_error_at ''ZRYNA-I2009'' sp (label @ '' uses unsupported unit type'')
          ''ControlFlowV1 admits only bool and i32 values'') er)"

definition validate_span ::
    "file_id \<Rightarrow> source_map \<Rightarrow> span \<Rightarrow> check_errors \<Rightarrow> (bool \<times> check_errors) option" where
  "validate_span file sources sp er =
     (if ce_exhausted er then Some (False, er)
      else
        (case sm_resolve sources sp of
           None \<Rightarrow> None
         | Some (Inr resolved) \<Rightarrow>
             if sf_id (rs_source resolved) = file then Some (True, er)
             else
               Some (False, flow_push (flow_error ''ZRYNA-I2023'' ''IR span belongs to a different module source file''
                 ''bind every function, value, instruction, and terminator span to its containing module'') er)
         | Some (Inl e) \<Rightarrow> Some (False, flow_push (from_source_error e) er)))"

text \<open>The spans of a function in the order the code visits them. An exhausted collector ends the visit.\<close>

definition block_spans :: "block \<Rightarrow> span list" where
  "block_spans b =
     map fv_span (bk_parameters b) @ map (\<lambda>i. fv_span (is_result i)) (bk_instructions b) @
     (case bk_terminators b of [t] \<Rightarrow> [st_span t] | _ \<Rightarrow> [])"

definition function_spans :: "flow_function \<Rightarrow> span list" where
  "function_spans f = ff_span f # map fv_span (ff_parameters f) @ concat (map block_spans (ff_blocks f))"

fun validate_spans ::
    "file_id \<Rightarrow> source_map \<Rightarrow> span list \<Rightarrow> bool \<Rightarrow> check_errors \<Rightarrow> (bool \<times> check_errors) option" where
  "validate_spans file sources [] valid er = Some (valid, er)"
| "validate_spans file sources (sp # sps) valid er =
     Option.bind (validate_span file sources sp er) (\<lambda>(ok, er).
     if ce_exhausted er then Some (False, er) else validate_spans file sources sps (valid \<and> ok) er)"

definition define_value ::
    "flow_value \<times> definition_location \<Rightarrow> value_info list \<Rightarrow> check_errors
     \<Rightarrow> (value_info list \<times> check_errors) option" where
  "define_value = (\<lambda>(d, location) vals er.
     if ce_exhausted er then Some (vals, er)
     else
       Option.bind (u32_try_from (length vals)) (\<lambda>expected.
       let er = flow_push_when (fv_id d \<noteq> expected)
             (flow_error ''ZRYNA-I2008''
               (''value definition claims #'' @ show_nat (unat (fv_id d)) @ '', expected dense value #'' @
                show_nat (unat expected))
               ''allocate function parameters, then block parameters and instruction results in canonical order'') er
       in if ce_exhausted er then Some (vals, er)
          else
            (let er = validate_type (fv_ty d) (Some (fv_span d)) ''value'' er
             in if ce_exhausted er then Some (vals, er)
                else Some (vals @ [\<lparr>vin_ty = fv_ty d, vin_location = location\<rparr>], er))))"

fun define_values ::
    "(flow_value \<times> definition_location) list \<Rightarrow> value_info list \<Rightarrow> check_errors
     \<Rightarrow> (value_info list \<times> check_errors) option" where
  "define_values [] vals er = Some (vals, er)"
| "define_values (d # ds) vals er =
     Option.bind (define_value d vals er) (\<lambda>(vals, er).
     if ce_exhausted er then Some (vals, er) else define_values ds vals er)"

definition block_definitions :: "usize \<Rightarrow> block \<Rightarrow> (flow_value \<times> definition_location) list" where
  "block_definitions bi b =
     map (\<lambda>d. (d, AtBlockParameter bi)) (bk_parameters b) @
     map (\<lambda>(i, ins). (is_result ins, AtInstruction bi i)) (enumerate 0 (bk_instructions b))"

fun define_blocks ::
    "function_key \<Rightarrow> (usize \<times> block) list \<Rightarrow> value_info list \<Rightarrow> check_errors
     \<Rightarrow> (value_info list \<times> check_errors) option" where
  "define_blocks key [] vals er = Some (vals, er)"
| "define_blocks key ((bi, b) # bs) vals er =
     Option.bind (u32_try_from bi) (\<lambda>expected.
     let er = flow_push_when (bk_id b \<noteq> expected)
           (flow_error ''ZRYNA-I2005''
             (key_label ''function'' (fk_module key) (fk_function key) @ '' block #'' @ show_nat bi @
              '' has a noncanonical identity'')
             ''use dense block identifiers in arena order'') er
     in if ce_exhausted er then Some (vals, er)
        else
          (let er = flow_push_when (bi = 0 \<and> bk_parameters b \<noteq> [])
                (flow_error ''ZRYNA-I2006'' ''entry block declares block parameters''
                  ''function parameters are the only entry-block parameters'') er
           in if ce_exhausted er then Some (vals, er)
              else
                Option.bind (define_values (block_definitions bi b) vals er) (\<lambda>(vals, er).
                if ce_exhausted er then Some (vals, er) else define_blocks key bs vals er)))"

section \<open>Instructions\<close>

definition lookup_value :: "u32 \<Rightarrow> value_info list \<Rightarrow> value_info option" where
  "lookup_value v vals = get_at vals (unat v)"

definition defined_later :: "definition_location \<Rightarrow> usize \<Rightarrow> usize \<Rightarrow> bool" where
  "defined_later location bi position =
     (case location of AtInstruction db dp \<Rightarrow> db = bi \<and> position \<le> dp | _ \<Rightarrow> False)"

text \<open>The type of an operand, when it names a value of the function.\<close>

definition checked_use ::
    "u32 \<Rightarrow> usize \<Rightarrow> usize \<Rightarrow> value_info list \<Rightarrow> span \<Rightarrow> check_errors \<Rightarrow> ir_type option \<times> check_errors" where
  "checked_use v bi position vals sp er =
     (if ce_exhausted er then (None, er)
      else
        (case lookup_value v vals of
           None \<Rightarrow>
             (None, flow_push (flow_error_at ''ZRYNA-I2012'' (Some sp)
               (''operand references unknown value #'' @ show_nat (unat v))
               ''reference one value in the same verified function'') er)
         | Some info \<Rightarrow>
             (Some (vin_ty info),
              flow_push_when (defined_later (vin_location info) bi position)
                (flow_error_at ''ZRYNA-I2013'' (Some sp)
                  (''value #'' @ show_nat (unat v) @ '' is used before its definition'')
                  ''use only earlier instruction results in the same block'') er)))"

definition expect_result :: "ir_type \<Rightarrow> ir_type \<Rightarrow> span \<Rightarrow> string \<Rightarrow> check_errors \<Rightarrow> check_errors" where
  "expect_result actual expected sp label er =
     (if ce_exhausted er then er
      else flow_push_when (actual \<noteq> expected)
        (flow_error_at ''ZRYNA-I2010'' (Some sp) (label @ '' has the wrong result type'') ''use the exact literal type'') er)"

fun uses_have_types ::
    "(u32 \<times> ir_type) list \<Rightarrow> usize \<Rightarrow> usize \<Rightarrow> value_info list \<Rightarrow> span \<Rightarrow> check_errors \<Rightarrow> bool \<times> check_errors" where
  "uses_have_types [] bi position vals sp er = (True, er)"
| "uses_have_types ((v, expected) # rest) bi position vals sp er =
     (let (actual, er) = checked_use v bi position vals sp er
      in if actual = Some expected then uses_have_types rest bi position vals sp er else (False, er))"

definition expect_values ::
    "u32 list \<Rightarrow> ir_type list \<Rightarrow> ir_type \<Rightarrow> ir_type \<Rightarrow> usize \<Rightarrow> usize \<Rightarrow> value_info list \<Rightarrow> span \<Rightarrow> check_errors
     \<Rightarrow> check_errors" where
  "expect_values operands expected result expected_result bi position vals sp er =
     (if ce_exhausted er then er
      else
        (let (valid, er) = uses_have_types (zip operands expected) bi position vals sp er
         in if ce_exhausted er then er
            else flow_push_when (\<not> valid \<or> result \<noteq> expected_result)
              (flow_error_at ''ZRYNA-I2010'' (Some sp) ''instruction operand or result type is invalid''
                ''use exact ControlFlowV1 operation types'') er))"

fun verify_arguments ::
    "(usize \<times> u32) list \<Rightarrow> ir_type list \<Rightarrow> (usize \<Rightarrow> diagnostic) \<Rightarrow> usize \<Rightarrow> usize \<Rightarrow> value_info list \<Rightarrow> span
     \<Rightarrow> check_errors \<Rightarrow> check_errors" where
  "verify_arguments [] parameters report bi position vals sp er = er"
| "verify_arguments ((i, v) # rest) parameters report bi position vals sp er =
     (let (actual, er) = checked_use v bi position vals sp er
      in if ce_exhausted er then er
         else
           (let er = flow_push_when (actual \<noteq> get_at parameters i) (report i) er
            in if ce_exhausted er then er else verify_arguments rest parameters report bi position vals sp er))"

definition verify_equality ::
    "u32 \<Rightarrow> u32 \<Rightarrow> ir_type \<Rightarrow> usize \<Rightarrow> usize \<Rightarrow> value_info list \<Rightarrow> span \<Rightarrow> check_errors \<Rightarrow> check_errors" where
  "verify_equality lhs rhs result bi position vals sp er =
     (let (left, er) = checked_use lhs bi position vals sp er
      in if ce_exhausted er then er
         else
           (let (right, er) = checked_use rhs bi position vals sp er
            in if ce_exhausted er then er
               else flow_push_when (result \<noteq> TyBool \<or> left \<noteq> right)
                 (flow_error_at ''ZRYNA-I2010'' (Some sp)
                   ''equality requires two values of one exact scalar type and a bool result''
                   ''use matching bool or matching i32 operands'') er))"

definition call_argument_error :: "span \<Rightarrow> usize \<Rightarrow> diagnostic" where
  "call_argument_error sp i =
     flow_error_at ''ZRYNA-I2011'' (Some sp) (''direct call argument #'' @ show_nat i @ '' has the wrong type'')
       ''preserve source argument order and exact parameter types''"

type_synonym call_edges = "(function_key \<times> function_key) list"

definition verify_call ::
    "function_key \<Rightarrow> function_id \<Rightarrow> u32 list \<Rightarrow> ir_type \<Rightarrow> usize \<Rightarrow> usize \<Rightarrow> value_info list \<Rightarrow> signatures \<Rightarrow> span
     \<Rightarrow> call_edges \<Rightarrow> check_errors \<Rightarrow> call_edges \<times> check_errors" where
  "verify_call key callee arguments result bi position vals sigs sp calls er =
     (case Option.bind (get_at sigs (unat (fi_module callee))) (\<lambda>m. get_at m (unat (fi_declaration callee))) of
        None \<Rightarrow>
          (calls, flow_push (flow_error_at ''ZRYNA-I2011'' (Some sp) ''direct call targets an unknown function identity''
            ''call one function in the sealed module closure'') er)
      | Some (parameters, target_result) \<Rightarrow>
          if ce_exhausted er then (calls, er)
          else
            (let calls = calls @ [(key, \<lparr>fk_module = unat (fi_module callee), fk_function = unat (fi_declaration callee)\<rparr>)];
                 er = flow_push_when (length arguments \<noteq> length parameters \<or> result \<noteq> target_result)
                   (flow_error_at ''ZRYNA-I2011'' (Some sp) ''direct call signature does not match its target''
                     ''use exact arity, argument types, and result type'') er
             in if ce_exhausted er then (calls, er)
                else
                  (calls, verify_arguments (enumerate 0 arguments) parameters (call_argument_error sp) bi position vals sp er)))"

definition verify_instruction ::
    "function_key \<Rightarrow> usize \<Rightarrow> usize \<Rightarrow> instruction \<Rightarrow> value_info list \<Rightarrow> signatures \<Rightarrow> call_edges \<Rightarrow> check_errors
     \<Rightarrow> call_edges \<times> check_errors" where
  "verify_instruction key bi position ins vals sigs calls er =
     (if ce_exhausted er then (calls, er)
      else
        (let result = fv_ty (is_result ins); sp = fv_span (is_result ins);
             arithmetic = (\<lambda>l r. (calls, expect_values [l, r] [TyI32, TyI32] result TyI32 bi position vals sp er));
             comparison = (\<lambda>l r. (calls, expect_values [l, r] [TyI32, TyI32] result TyBool bi position vals sp er));
             equality = (\<lambda>l r. (calls, verify_equality l r result bi position vals sp er))
         in case is_kind ins of
              IkBoolLiteral _ \<Rightarrow> (calls, expect_result result TyBool sp ''bool literal'' er)
            | IkI32Literal _ \<Rightarrow> (calls, expect_result result TyI32 sp ''i32 literal'' er)
            | IkI32Neg v \<Rightarrow> (calls, expect_values [v] [TyI32] result TyI32 bi position vals sp er)
            | IkI32Add l r \<Rightarrow> arithmetic l r
            | IkI32Sub l r \<Rightarrow> arithmetic l r
            | IkI32Mul l r \<Rightarrow> arithmetic l r
            | IkI32LtS l r \<Rightarrow> comparison l r
            | IkI32LeS l r \<Rightarrow> comparison l r
            | IkI32GtS l r \<Rightarrow> comparison l r
            | IkI32GeS l r \<Rightarrow> comparison l r
            | IkEq l r \<Rightarrow> equality l r
            | IkNe l r \<Rightarrow> equality l r
            | IkDirectCall callee args \<Rightarrow> verify_call key callee args result bi position vals sigs sp calls er))"

section \<open>Terminators and edges\<close>

definition block_argument_error :: "span \<Rightarrow> usize \<Rightarrow> diagnostic" where
  "block_argument_error sp i =
     flow_error_at ''ZRYNA-I2017'' (Some sp) (''block argument #'' @ show_nat i @ '' has the wrong type'')
       ''match target block parameter types exactly''"

definition verify_edge ::
    "function_key \<Rightarrow> usize \<Rightarrow> u32 \<Rightarrow> u32 list \<Rightarrow> flow_function \<Rightarrow> value_info list \<Rightarrow> span \<Rightarrow> edge list \<Rightarrow> check_errors
     \<Rightarrow> edge list \<times> check_errors" where
  "verify_edge key source target arguments f vals sp edges er =
     (if ce_exhausted er then (edges, er)
      else if \<not> unat target < length (ff_blocks f) then
        (edges, flow_push (flow_error_at ''ZRYNA-I2016'' (Some sp)
          (key_label ''function'' (fk_module key) (fk_function key) @ '' has an edge to unknown block #'' @
           show_nat (unat target))
          ''target one block in the same function'') er)
      else
        (let er = flow_push_when (unat target = 0)
              (flow_error_at ''ZRYNA-I2016'' (Some sp) ''control-flow edge targets the entry block''
                ''entry block zero must have no predecessor'') er
         in if ce_exhausted er then (edges, er)
            else
              (let parameters = bk_parameters (ff_blocks f ! unat target);
                   er = flow_push_when (length arguments \<noteq> length parameters)
                     (flow_error_at ''ZRYNA-I2017'' (Some sp) ''block argument arity does not match target parameters''
                       ''pass one exact argument for each target block parameter'') er
               in if ce_exhausted er then (edges, er)
                  else
                    (let er = verify_arguments (enumerate 0 arguments) (map fv_ty parameters) (block_argument_error sp)
                           source (length (bk_instructions (ff_blocks f ! source))) vals sp er
                     in if ce_exhausted er then (edges, er)
                        else
                          (edges @ [\<lparr>eg_source = source, eg_target = unat target, eg_arguments = arguments\<rparr>], er)))))"

definition verify_terminator ::
    "function_key \<Rightarrow> usize \<Rightarrow> flow_function \<Rightarrow> spanned_terminator \<Rightarrow> value_info list \<Rightarrow> edge list \<Rightarrow> check_errors
     \<Rightarrow> edge list \<times> check_errors" where
  "verify_terminator key bi f t vals edges er =
     (if ce_exhausted er then (edges, er)
      else
        (let position = length (bk_instructions (ff_blocks f ! bi)); sp = st_span t
         in case st_kind t of
              TmReturn v \<Rightarrow>
                (let (actual, er) = checked_use v bi position vals sp er
                 in if ce_exhausted er then (edges, er)
                    else
                      (edges, flow_push_when (actual \<noteq> Some (ff_result f))
                        (flow_error_at ''ZRYNA-I2014'' (Some sp) ''return value has the wrong type''
                          ''return one value of the exact function result type'') er))
            | TmJump target arguments \<Rightarrow> verify_edge key bi target arguments f vals sp edges er
            | TmBranch condition true_target true_arguments false_target false_arguments \<Rightarrow>
                (let (actual, er) = checked_use condition bi position vals sp er;
                     er = flow_push_when (actual \<noteq> Some TyBool)
                       (flow_error_at ''ZRYNA-I2015'' (Some sp) ''branch condition is not bool''
                         ''branch only on an exact bool value'') er
                 in if ce_exhausted er then (edges, er)
                    else
                      (let (edges, er) = verify_edge key bi true_target true_arguments f vals sp edges er
                       in if ce_exhausted er then (edges, er)
                          else verify_edge key bi false_target false_arguments f vals sp edges er))))"

fun verify_instructions ::
    "function_key \<Rightarrow> usize \<Rightarrow> (usize \<times> instruction) list \<Rightarrow> value_info list \<Rightarrow> signatures \<Rightarrow> call_edges \<Rightarrow> check_errors
     \<Rightarrow> call_edges \<times> check_errors" where
  "verify_instructions key bi [] vals sigs calls er = (calls, er)"
| "verify_instructions key bi ((position, ins) # rest) vals sigs calls er =
     (let (calls, er) = verify_instruction key bi position ins vals sigs calls er
      in if ce_exhausted er then (calls, er) else verify_instructions key bi rest vals sigs calls er)"

fun verify_blocks ::
    "function_key \<Rightarrow> flow_function \<Rightarrow> (usize \<times> block) list \<Rightarrow> value_info list \<Rightarrow> signatures \<Rightarrow> call_edges \<Rightarrow> edge list
     \<Rightarrow> check_errors \<Rightarrow> call_edges \<times> edge list \<times> check_errors" where
  "verify_blocks key f [] vals sigs calls edges er = (calls, edges, er)"
| "verify_blocks key f ((bi, b) # bs) vals sigs calls edges er =
     (let (calls, er) = verify_instructions key bi (enumerate 0 (bk_instructions b)) vals sigs calls er
      in if ce_exhausted er then (calls, edges, er)
         else
           (case bk_terminators b of
              [t] \<Rightarrow>
                (let (edges, er) = verify_terminator key bi f t vals edges er
                 in if ce_exhausted er then (calls, edges, er)
                    else verify_blocks key f bs vals sigs calls edges er)
            | ts \<Rightarrow>
                (let er = flow_push (flow_error ''ZRYNA-I2007''
                       (key_label ''function'' (fk_module key) (fk_function key) @ '' block #'' @ show_nat bi @ '' has '' @
                        show_nat (length ts) @ '' terminators; expected exactly one'')
                       ''emit exactly one return, jump, or branch terminator'') er
                 in if ce_exhausted er then (calls, edges, er)
                    else verify_blocks key f bs vals sigs calls edges er)))"

section \<open>The graph of a function\<close>

fun graph_edges :: "edge list \<Rightarrow> usize list list \<Rightarrow> usize list list \<Rightarrow> (usize list list \<times> usize list list) option" where
  "graph_edges [] succs preds = Some (succs, preds)"
| "graph_edges (e # es) succs preds =
     Option.bind (get_at succs (eg_source e)) (\<lambda>ts.
     Option.bind (get_at preds (eg_target e)) (\<lambda>ss.
     graph_edges es (succs[eg_source e := ts @ [eg_target e]]) (preds[eg_target e := ss @ [eg_source e]])))"

fun instruction_operands :: "instruction_kind \<Rightarrow> u32 list" where
  "instruction_operands (IkBoolLiteral _) = []"
| "instruction_operands (IkI32Literal _) = []"
| "instruction_operands (IkI32Neg v) = [v]"
| "instruction_operands (IkI32Add l r) = [l, r]"
| "instruction_operands (IkI32Sub l r) = [l, r]"
| "instruction_operands (IkI32Mul l r) = [l, r]"
| "instruction_operands (IkEq l r) = [l, r]"
| "instruction_operands (IkNe l r) = [l, r]"
| "instruction_operands (IkI32LtS l r) = [l, r]"
| "instruction_operands (IkI32LeS l r) = [l, r]"
| "instruction_operands (IkI32GtS l r) = [l, r]"
| "instruction_operands (IkI32GeS l r) = [l, r]"
| "instruction_operands (IkDirectCall _ arguments) = arguments"

fun terminator_operands :: "terminator \<Rightarrow> u32 list" where
  "terminator_operands (TmReturn v) = [v]"
| "terminator_operands (TmJump _ arguments) = arguments"
| "terminator_operands (TmBranch condition _ true_arguments _ false_arguments) =
     condition # true_arguments @ false_arguments"

definition dominates_at :: "usize list \<Rightarrow> usize list \<Rightarrow> usize \<Rightarrow> usize \<Rightarrow> bool option" where
  "dominates_at entry exits left right =
     (if left < length entry \<and> right < length entry \<and> left < length exits \<and> right < length exits
      then Some (dominates entry exits left right) else None)"

text \<open>One use of a value: the operand, its block, its position there, and the span for the report.\<close>

definition verify_dominance ::
    "value_info list \<Rightarrow> usize list \<Rightarrow> usize list \<Rightarrow> u32 \<times> usize \<times> usize \<times> span \<Rightarrow> check_errors \<Rightarrow> check_errors option" where
  "verify_dominance vals entry exits = (\<lambda>(v, use_block, use_position, sp) er.
     if ce_exhausted er then Some er
     else
       (case lookup_value v vals of
          None \<Rightarrow> Some er
        | Some info \<Rightarrow>
            Option.bind
              (case vin_location info of
                 AtParameter \<Rightarrow> Some True
               | AtBlockParameter b \<Rightarrow> dominates_at entry exits b use_block
               | AtInstruction b position \<Rightarrow>
                   if b = use_block then Some (position < use_position) else dominates_at entry exits b use_block)
              (\<lambda>valid.
            Some (flow_push_when (\<not> valid)
              (flow_error_at ''ZRYNA-I2013'' (Some sp) (''value #'' @ show_nat (unat v) @ '' does not dominate its use'')
                ''use only values available on every path to this operation'') er))))"

definition block_uses :: "usize \<times> block \<Rightarrow> (u32 \<times> usize \<times> usize \<times> span) list" where
  "block_uses = (\<lambda>(bi, b).
     concat (map (\<lambda>(position, ins). map (\<lambda>v. (v, bi, position, fv_span (is_result ins))) (instruction_operands (is_kind ins)))
       (enumerate 0 (bk_instructions b))) @
     (case bk_terminators b of
        [t] \<Rightarrow> map (\<lambda>v. (v, bi, length (bk_instructions b), st_span t)) (terminator_operands (st_kind t))
      | _ \<Rightarrow> []))"

text \<open>Back edges collect natural loops by header; the other edges make the forward graph.\<close>

record loop_state =
  ls_loops :: "(usize \<times> bool list) list"
  ls_forward :: "usize list list"
  ls_indegree :: "usize list"

definition classify_edge ::
    "usize list list \<Rightarrow> usize list \<Rightarrow> usize list \<Rightarrow> usize \<Rightarrow> edge \<Rightarrow> loop_state \<Rightarrow> loop_state option" where
  "classify_edge preds entry exits amount e s =
     Option.bind (dominates_at entry exits (eg_target e) (eg_source e)) (\<lambda>back.
     if back then
       (let members = (case bt_get (ls_loops s) (eg_target e) of Some m \<Rightarrow> m | None \<Rightarrow> replicate amount False)
        in Option.bind (get_at members (eg_target e)) (\<lambda>_.
           Option.bind (loop_members preds (eg_target e) [eg_source e] (members[eg_target e := True])) (\<lambda>members.
           Some (s\<lparr>ls_loops := bt_insert (eg_target e) members (ls_loops s)\<rparr>))))
     else
       Option.bind (get_at (ls_forward s) (eg_source e)) (\<lambda>targets.
       Option.bind (get_at (ls_indegree s) (eg_target e)) (\<lambda>d.
       Some (s\<lparr>ls_forward := (ls_forward s)[eg_source e := targets @ [eg_target e]],
               ls_indegree := (ls_indegree s)[eg_target e := Suc d]\<rparr>))))"

fun classify_edges ::
    "usize list list \<Rightarrow> usize list \<Rightarrow> usize list \<Rightarrow> usize \<Rightarrow> edge list \<Rightarrow> loop_state \<Rightarrow> loop_state option" where
  "classify_edges preds entry exits amount [] s = Some s"
| "classify_edges preds entry exits amount (e # es) s =
     Option.bind (classify_edge preds entry exits amount e s) (classify_edges preds entry exits amount es)"

definition maximum_nesting :: "usize \<Rightarrow> (usize \<times> bool list) list \<Rightarrow> usize option" where
  "maximum_nesting amount loops =
     (if list_all (\<lambda>(_, members). amount \<le> length members) loops
      then Some (foldr max (map (\<lambda>b. length (filter (\<lambda>(_, members). members ! b) loops)) [0..<amount]) 0)
      else None)"

definition verify_loops ::
    "function_key \<Rightarrow> usize \<Rightarrow> usize list list \<Rightarrow> usize list \<Rightarrow> usize list \<Rightarrow> edge list \<Rightarrow> check_errors
     \<Rightarrow> check_errors option" where
  "verify_loops key amount preds entry exits edges er =
     Option.bind (classify_edges preds entry exits amount edges
       \<lparr>ls_loops = [], ls_forward = replicate amount [], ls_indegree = replicate amount 0\<rparr>) (\<lambda>s.
     Option.bind (forward_loop (ls_forward s) (zero_indices (ls_indegree s)) (ls_indegree s) 0) (\<lambda>seen.
     let er = flow_push_when (seen \<noteq> amount)
           (flow_error ''ZRYNA-I2020''
             (key_label ''function'' (fk_module key) (fk_function key) @ '' contains irreducible control flow'')
             ''every cycle must have one dominating nonentry header'') er
     in if ce_exhausted er then Some er
        else
          Option.bind (maximum_nesting amount (ls_loops s)) (\<lambda>nesting.
          Some (if MAX_LOOP_NESTING < nesting
                then flow_limit (key_label ''function'' (fk_module key) (fk_function key) @ '' loop nesting'') MAX_LOOP_NESTING er
                else er))))"

definition verify_reachable ::
    "function_key \<Rightarrow> usize list list \<Rightarrow> bool list \<Rightarrow> usize \<Rightarrow> check_errors \<Rightarrow> check_errors option" where
  "verify_reachable key preds reached b er =
     Option.bind (get_at preds b) (\<lambda>ps.
     Option.bind (get_at reached b) (\<lambda>r.
     Some (flow_push_when (ps = [] \<or> \<not> r)
       (flow_error ''ZRYNA-I2018''
         (key_label ''function'' (fk_module key) (fk_function key) @ '' block #'' @ show_nat b @
          '' is unreachable or has no predecessor'')
         ''emit only blocks reachable from entry'') er)))"

definition verify_cfg ::
    "function_key \<Rightarrow> flow_function \<Rightarrow> value_info list \<Rightarrow> edge list \<Rightarrow> check_errors \<Rightarrow> check_errors option" where
  "verify_cfg key f vals edges er =
     (if ce_exhausted er \<or> ff_blocks f = [] then Some er
      else
        (let amount = length (ff_blocks f)
         in Option.bind (graph_edges edges (replicate amount []) (replicate amount [])) (\<lambda>(succs, preds).
            let succs = map sort succs; preds = map sort preds
            in Option.bind (reachable_from_entry succs) (\<lambda>reached.
               Option.bind (check_steps (verify_reachable key preds reached) [1..<amount] er) (\<lambda>er.
               if ce_exhausted er \<or> list_ex Not reached then Some er
               else
                 Option.bind (immediate_dominators succs preds) (\<lambda>found.
                 case found of
                   None \<Rightarrow>
                     Some (flow_push (flow_error ''ZRYNA-I2019'' ''failed to construct deterministic dominators''
                       ''provide one reachable reducible CFG'') er)
                 | Some idom \<Rightarrow>
                     Option.bind (dominator_intervals idom) (\<lambda>(entry, exits).
                     Option.bind (check_steps (verify_dominance vals entry exits)
                       (concat (map block_uses (enumerate 0 (ff_blocks f)))) er) (\<lambda>er.
                     if ce_exhausted er then Some er
                     else verify_loops key amount preds entry exits edges er))))))))"

section \<open>Functions\<close>

definition verify_function ::
    "function_key \<Rightarrow> flow_function \<Rightarrow> file_id \<Rightarrow> signatures \<Rightarrow> source_map \<Rightarrow> call_edges \<Rightarrow> check_errors
     \<Rightarrow> (call_edges \<times> check_errors) option" where
  "verify_function key f file sigs sources calls er =
     (if ce_exhausted er then Some (calls, er)
      else
        Option.bind (validate_spans file sources (function_spans f) True er) (\<lambda>(spans_valid, er).
        if \<not> spans_valid then Some (calls, er)
        else
          (let er = validate_type (ff_result f) None ''function result'' er
           in if ce_exhausted er then Some (calls, er)
              else
                Option.bind (define_values (map (\<lambda>d. (d, AtParameter)) (ff_parameters f)) [] er) (\<lambda>(vals, er).
                if ce_exhausted er then Some (calls, er)
                else
                  Option.bind (define_blocks key (enumerate 0 (ff_blocks f)) vals er) (\<lambda>(vals, er).
                  if ce_exhausted er then Some (calls, er)
                  else
                    (let (calls, edges, er) = verify_blocks key f (enumerate 0 (ff_blocks f)) vals sigs calls [] er
                     in if ce_exhausted er then Some (calls, er)
                        else map_option (Pair calls) (verify_cfg key f vals edges er)))))))"

fun verify_functions ::
    "(function_key \<times> flow_function \<times> file_id) list \<Rightarrow> signatures \<Rightarrow> source_map \<Rightarrow> call_edges \<Rightarrow> check_errors
     \<Rightarrow> (call_edges \<times> check_errors) option" where
  "verify_functions [] sigs sources calls er = Some (calls, er)"
| "verify_functions ((key, f, file) # rest) sigs sources calls er =
     (if ce_exhausted er then Some (calls, er)
      else
        Option.bind (verify_function key f file sigs sources calls er) (\<lambda>(calls, er).
        verify_functions rest sigs sources calls er))"

definition program_functions :: "flow_program \<Rightarrow> (function_key \<times> flow_function \<times> file_id) list" where
  "program_functions p =
     concat (map (\<lambda>(mi, m). map (\<lambda>(fi, f). (\<lparr>fk_module = mi, fk_function = fi\<rparr>, f, fm_source_file m))
       (enumerate 0 (fm_functions m))) (enumerate 0 (fp_modules p)))"

section \<open>Calls\<close>

fun offsets_from :: "usize \<Rightarrow> flow_module list \<Rightarrow> usize list" where
  "offsets_from n [] = [n]"
| "offsets_from n (m # ms) = n # offsets_from (n + length (fm_functions m)) ms"

definition function_offsets :: "flow_program \<Rightarrow> usize list" where
  "function_offsets p = offsets_from 0 (fp_modules p)"

definition call_index :: "usize list \<Rightarrow> function_key \<Rightarrow> usize option" where
  "call_index offsets key = map_option (\<lambda>o'. o' + fk_function key) (get_at offsets (fk_module key))"

fun call_graph :: "usize list \<Rightarrow> call_edges \<Rightarrow> usize list list \<Rightarrow> usize list \<Rightarrow> (usize list list \<times> usize list) option" where
  "call_graph offsets [] succs indegree = Some (succs, indegree)"
| "call_graph offsets ((caller, callee) # calls) succs indegree =
     Option.bind (call_index offsets caller) (\<lambda>source.
     Option.bind (call_index offsets callee) (\<lambda>target.
     Option.bind (get_at succs source) (\<lambda>ts.
     Option.bind (get_at indegree target) (\<lambda>d.
     call_graph offsets calls (succs[source := ts @ [target]]) (indegree[target := Suc d])))))"

definition verify_call_graph :: "flow_program \<Rightarrow> call_edges \<Rightarrow> check_errors \<Rightarrow> check_errors option" where
  "verify_call_graph p calls er =
     (if ce_exhausted er then Some er
      else
        (let offsets = function_offsets p; amount = last offsets
         in Option.bind (call_graph offsets calls (replicate amount []) (replicate amount 0)) (\<lambda>(succs, indegree).
            Option.bind (call_loop succs (zero_indices indegree) (replicate amount 1) indegree 0) (\<lambda>(depth, seen).
            Some
              (if seen \<noteq> amount then
                 flow_push (flow_error ''ZRYNA-I2021'' ''resolved direct-call graph contains a cycle''
                   ''ControlFlowV1 requires an acyclic complete call graph'') er
               else if MAX_STATIC_CALL_DEPTH < foldr max depth 0
               then flow_limit ''static call depth'' MAX_STATIC_CALL_DEPTH er
               else er)))))"

section \<open>The public ABI\<close>

definition flow_export :: "string \<Rightarrow> flow_function \<Rightarrow> raw_export" where
  "flow_export name f =
     \<lparr>re_logical_name = name,
      re_signature = \<lparr>rs_parameters = map (\<lambda>d. raw_abi_type (fv_ty d)) (ff_parameters f),
                      rs_result = raw_abi_type (ff_result f)\<rparr>\<rparr>"

fun entry_exports :: "flow_function list \<Rightarrow> usize \<Rightarrow> raw_export list \<times> usize option list" where
  "entry_exports [] n = ([], [])"
| "entry_exports (f # fs) n =
     (case ff_entry_export f of
        None \<Rightarrow> apsnd ((#) None) (entry_exports fs n)
      | Some name \<Rightarrow>
          (let (exports, indices) = entry_exports fs (Suc n) in (flow_export name f # exports, Some n # indices)))"

definition flow_abi_diagnostic :: "abi_violation \<Rightarrow> diagnostic" where
  "flow_abi_diagnostic v =
     (let (message, guidance) =
        (case av_kind v of
           InvalidLogicalName \<Rightarrow>
             (''entry export has an invalid logical name'', ''use the exact scalar ABI v1 logical-name grammar'')
         | DuplicateLogicalName _ \<Rightarrow>
             (''entry exports contain a duplicate logical name'', ''give every public entry export a unique exact name'')
         | PortableNameCollision _ \<Rightarrow>
             (''entry exports collide under portable target identity'', ''use names unique under ASCII case folding'')
         | UnsupportedScalarType \<Rightarrow>
             (''entry export uses an unsupported scalar ABI type'', ''use only bool and i32'')
         | ViolationBudgetExceeded \<Rightarrow>
             (''entry scalar ABI diagnostics exceeded their limit'', ''fix earlier ABI diagnostics'')
         | _ \<Rightarrow> (''entry scalar ABI exceeds its resource limits'', ''reduce the public entry surface''))
      in flow_error ''ZRYNA-I2022'' message guidance)"

definition verify_public_abi ::
    "flow_program \<Rightarrow> check_errors
     \<Rightarrow> (verified_scalar_abi_module option \<times> usize option list list) \<times> check_errors" where
  "verify_public_abi p er =
     (if ce_exhausted er then ((None, []), er)
      else
        (let blank = map (\<lambda>m. replicate (length (fm_functions m)) None) (fp_modules p);
             entry = unat (fp_entry_module p);
             (exports, indices) =
               (case get_at (fp_modules p) entry of
                  None \<Rightarrow> ([], blank)
                | Some m \<Rightarrow> (let (es, is) = entry_exports (fm_functions m) 0 in (es, blank[entry := is])))
         in case verify_v1 exports of
              Inr abi \<Rightarrow> ((Some abi, indices), er)
            | Inl violations \<Rightarrow>
                ((None, indices), check_until (\<lambda>v. flow_push (flow_abi_diagnostic v)) violations er)))"

section \<open>The verifier\<close>

definition flow_verify ::
    "flow_program \<Rightarrow> source_map \<Rightarrow> file_id \<Rightarrow> (diagnostic list + verified_flow_program) option" where
  "flow_verify p sources expected_entry =
     (let er = flow_preflight p no_errors
      in if \<not> errors_is_empty er then Some (Inl (ce_diagnostics er))
         else
           Option.bind (verify_modules p sources expected_entry er) (\<lambda>er.
           if ce_exhausted er then Some (Inl (ce_diagnostics er))
           else
             Option.bind (verify_functions (program_functions p) (collect_signatures p) sources [] er) (\<lambda>(calls, er).
             if ce_exhausted er then Some (Inl (ce_diagnostics er))
             else
               Option.bind (verify_call_graph p calls er) (\<lambda>er.
               if ce_exhausted er then Some (Inl (ce_diagnostics er))
               else
                 (let ((abi, abi_indices), er) = verify_public_abi p er
                  in if \<not> errors_is_empty er then Some (Inl (ce_diagnostics er))
                     else
                       (case abi of
                          None \<Rightarrow>
                            Some (Inl [diagnostic_error ''ZRYNA-I2202'' None
                              ''ControlFlowV1 verifier could not construct its bounded scalar ABI table''
                              ''report this compiler invariant failure with the smallest reproducible source''])
                        | Some abi \<Rightarrow>
                            Some (Inr \<lparr>vfp_program = p, vfp_abi = abi, vfp_abi_indices = abi_indices\<rparr>)))))))"

end
