(* ===== verification/Control_Flow_Facts.thy ===== *)
theory Control_Flow_Facts
  imports Control_Flow Universal_IR_Facts
begin

text \<open>
  The parts of the control-flow verifier that look at one definition, instruction or edge at a time, with
  the calculus they are proved in: \<open>limits\<close> for checks that return early, \<open>steps\<close> for checks on the collector
  that might panic, \<open>yields\<close> and \<open>gives\<close> for checks that also compute a table. Each rule follows one shape of the
  code, so every function of the verifier gets one lemma: it never panics, and it leaves the collector clean
  exactly when its condition holds.
\<close>

section \<open>Specification vocabulary\<close>

text \<open>A check that returns early: it either changes nothing and goes on with a value, or leaves a report.\<close>

definition limits :: "(check_errors \<Rightarrow> check_errors + 'b) \<Rightarrow> bool \<Rightarrow> (check_errors \<Rightarrow> 'b) \<Rightarrow> bool" where
  "limits f P mk =
     (\<forall>er. (P \<longrightarrow> f er = Inr (mk er)) \<and>
        (\<not> P \<longrightarrow> (\<exists>er'. f er = Inl er' \<and> (bounded_errors er \<longrightarrow> bounded_errors er') \<and> \<not> clean er')))"

definition block_values :: "block \<Rightarrow> usize" where
  "block_values b = length (bk_parameters b) + length (bk_instructions b)"

definition block_calls :: "block \<Rightarrow> usize" where
  "block_calls b = length (filter is_direct_call (bk_instructions b))"

definition block_edges :: "block \<Rightarrow> usize" where
  "block_edges b = (case bk_terminators b of [t] \<Rightarrow> edge_count (st_kind t) | _ \<Rightarrow> 0)"

fun terminator_within_limits :: "terminator \<Rightarrow> bool" where
  "terminator_within_limits (TmReturn _) = True"
| "terminator_within_limits (TmJump _ args) = (length args \<le> MAX_BLOCK_PARAMETERS)"
| "terminator_within_limits (TmBranch _ _ ts _ fs) = (length ts \<le> MAX_BLOCK_PARAMETERS \<and> length fs \<le> MAX_BLOCK_PARAMETERS)"

definition block_within_limits :: "block \<Rightarrow> bool" where
  "block_within_limits b =
     (length (bk_parameters b) \<le> MAX_BLOCK_PARAMETERS \<and>
      (\<forall>i\<in>set (bk_instructions b). call_argument_count i \<le> MAX_PARAMETERS_PER_FUNCTION) \<and>
      (case bk_terminators b of [t] \<Rightarrow> terminator_within_limits (st_kind t) | _ \<Rightarrow> True))"

definition function_values :: "flow_function \<Rightarrow> usize" where
  "function_values f = length (ff_parameters f) + sum_list (map block_values (ff_blocks f))"

definition function_within_limits :: "flow_function \<Rightarrow> bool" where
  "function_within_limits f =
     (length (ff_parameters f) \<le> MAX_PARAMETERS_PER_FUNCTION \<and> ff_blocks f \<noteq> [] \<and>
      length (ff_blocks f) \<le> MAX_BLOCKS_PER_FUNCTION \<and> (\<forall>b\<in>set (ff_blocks f). block_within_limits b) \<and>
      function_values f \<le> MAX_VALUES_PER_FUNCTION \<and>
      sum_list (map block_edges (ff_blocks f)) \<le> MAX_CFG_EDGES_PER_FUNCTION)"

definition functions_within_limits :: "preflight_totals \<Rightarrow> flow_function list \<Rightarrow> bool" where
  "functions_within_limits t fs =
     ((\<forall>f\<in>set fs. function_within_limits f) \<and>
      pt_parameters t + sum_list (map (\<lambda>f. length (ff_parameters f)) fs) \<le> MAX_PARAMETERS_PER_PROGRAM \<and>
      pt_blocks t + sum_list (map (\<lambda>f. length (ff_blocks f)) fs) \<le> MAX_BLOCKS_PER_PROGRAM \<and>
      pt_values t + sum_list (map function_values fs) \<le> MAX_VALUES_PER_PROGRAM \<and>
      pt_edges t + sum_list (map (\<lambda>f. sum_list (map block_edges (ff_blocks f))) fs) \<le> MAX_CFG_EDGES_PER_PROGRAM \<and>
      pt_calls t + sum_list (map (\<lambda>f. sum_list (map block_calls (ff_blocks f))) fs) \<le> MAX_CALL_EDGES)"

definition no_totals :: preflight_totals where
  "no_totals = \<lparr>pt_functions = 0, pt_parameters = 0, pt_blocks = 0, pt_values = 0, pt_edges = 0, pt_calls = 0\<rparr>"

definition flow_within_limits :: "flow_program \<Rightarrow> bool" where
  "flow_within_limits p =
     (fp_modules p \<noteq> [] \<and> length (fp_modules p) \<le> MAX_MODULES \<and>
      (\<forall>m\<in>set (fp_modules p). length (fm_functions m) \<le> MAX_FUNCTIONS_PER_MODULE) \<and>
      length (concat (map fm_functions (fp_modules p))) \<le> MAX_FUNCTIONS_PER_PROGRAM \<and>
      functions_within_limits no_totals (concat (map fm_functions (fp_modules p))))"

definition add_totals :: "preflight_totals \<Rightarrow> flow_function list \<Rightarrow> preflight_totals" where
  "add_totals t fs =
     t\<lparr>pt_parameters := pt_parameters t + sum_list (map (\<lambda>f. length (ff_parameters f)) fs),
       pt_blocks := pt_blocks t + sum_list (map (\<lambda>f. length (ff_blocks f)) fs),
       pt_values := pt_values t + sum_list (map function_values fs),
       pt_edges := pt_edges t + sum_list (map (\<lambda>f. sum_list (map block_edges (ff_blocks f))) fs),
       pt_calls := pt_calls t + sum_list (map (\<lambda>f. sum_list (map block_calls (ff_blocks f))) fs)\<rparr>"

definition totals_within_limits :: "preflight_totals \<Rightarrow> bool" where
  "totals_within_limits t =
     (pt_parameters t \<le> MAX_PARAMETERS_PER_PROGRAM \<and> pt_blocks t \<le> MAX_BLOCKS_PER_PROGRAM \<and>
      pt_values t \<le> MAX_VALUES_PER_PROGRAM \<and> pt_edges t \<le> MAX_CFG_EDGES_PER_PROGRAM \<and> pt_calls t \<le> MAX_CALL_EDGES)"

definition preflight_one :: "preflight_totals \<Rightarrow> flow_function \<Rightarrow> bool" where
  "preflight_one t f =
     (\<not> MAX_PARAMETERS_PER_FUNCTION < length (ff_parameters f) \<and>
      pt_parameters t + length (ff_parameters f) \<le> MAX_PARAMETERS_PER_PROGRAM \<and>
      \<not> (ff_blocks f = [] \<or> MAX_BLOCKS_PER_FUNCTION < length (ff_blocks f)) \<and>
      pt_blocks t + length (ff_blocks f) \<le> MAX_BLOCKS_PER_PROGRAM \<and>
      ((\<forall>b\<in>set (ff_blocks f). block_within_limits b) \<and>
       length (ff_parameters f) + sum_list (map block_values (ff_blocks f)) \<le> MAX_VALUES_PER_FUNCTION \<and>
       0 + sum_list (map block_edges (ff_blocks f)) \<le> MAX_CFG_EDGES_PER_FUNCTION \<and>
       pt_calls t + sum_list (map block_calls (ff_blocks f)) \<le> MAX_CALL_EDGES) \<and>
      pt_values t + (length (ff_parameters f) + sum_list (map block_values (ff_blocks f))) \<le> MAX_VALUES_PER_PROGRAM \<and>
      pt_edges t + (0 + sum_list (map block_edges (ff_blocks f))) \<le> MAX_CFG_EDGES_PER_PROGRAM)"

text \<open>
  \<open>steps f P\<close>: the check \<open>f\<close> ends without a panic and is clean exactly when \<open>P\<close> holds. \<open>yields I f P v\<close>: it also
  returns a value, which satisfies \<open>I\<close> always and is \<open>v\<close> when the collector is clean.
\<close>

definition steps :: "(check_errors \<Rightarrow> check_errors option) \<Rightarrow> bool \<Rightarrow> bool" where
  "steps f P = (\<forall>er. bounded_errors er \<longrightarrow> (\<exists>er'. f er = Some er' \<and> bounded_errors er' \<and> (clean er' \<longleftrightarrow> clean er \<and> P)))"

definition yields :: "('a \<Rightarrow> bool) \<Rightarrow> (check_errors \<Rightarrow> ('a \<times> check_errors) option) \<Rightarrow> bool \<Rightarrow> 'a \<Rightarrow> bool" where
  "yields I f P v =
     (\<forall>er. bounded_errors er \<longrightarrow>
       (\<exists>a er'. f er = Some (a, er') \<and> bounded_errors er' \<and> I a \<and> (clean er' \<longleftrightarrow> clean er \<and> P) \<and> (clean er' \<longrightarrow> a = v)))"

definition module_ok :: "flow_program \<Rightarrow> source_map \<Rightarrow> usize \<Rightarrow> flow_module \<Rightarrow> bool" where
  "module_ok p sources mi m =
     (fm_id m = of_nat mi \<and> verify_file_id sources (of_nat mi) = Inr (fm_source_file m) \<and>
      (\<forall>fi<length (fm_functions m).
         ff_id (fm_functions m ! fi) = \<lparr>fi_module = fm_id m, fi_declaration = of_nat fi\<rparr> \<and>
         (fm_id m \<noteq> fp_entry_module p \<longrightarrow> ff_entry_export (fm_functions m ! fi) = None)))"

definition modules_ok :: "flow_program \<Rightarrow> source_map \<Rightarrow> file_id \<Rightarrow> bool" where
  "modules_ok p sources expected_entry =
     (length (fp_modules p) = sm_len sources \<and>
      map_option fm_source_file (get_at (fp_modules p) (unat (fp_entry_module p))) = Some expected_entry \<and>
      sm_source sources expected_entry \<noteq> None \<and>
      (\<forall>mi<length (fp_modules p). module_ok p sources mi (fp_modules p ! mi)))"

definition span_in :: "source_map \<Rightarrow> file_id \<Rightarrow> span \<Rightarrow> bool" where
  "span_in sources file sp = (\<exists>r. sm_resolve sources sp = Some (Inr r) \<and> sf_id (rs_source r) = file)"

definition definition_info :: "flow_value \<times> definition_location \<Rightarrow> value_info" where
  "definition_info = (\<lambda>(d, location). \<lparr>vin_ty = fv_ty d, vin_location = location\<rparr>)"

text \<open>Whatever was reported, the table stays short and names blocks of the function.\<close>

definition location_in :: "usize \<Rightarrow> definition_location \<Rightarrow> bool" where
  "location_in n location =
     (case location of AtParameter \<Rightarrow> True | AtBlockParameter b \<Rightarrow> b < n | AtInstruction b _ \<Rightarrow> b < n)"

definition table_ok :: "usize \<Rightarrow> usize \<Rightarrow> value_info list \<Rightarrow> bool" where
  "table_ok n limit vals = (length vals \<le> limit \<and> (\<forall>info\<in>set vals. location_in n (vin_location info)))"

definition definitions_ok :: "usize \<Rightarrow> (flow_value \<times> definition_location) list \<Rightarrow> bool" where
  "definitions_ok n ds = (\<forall>i<length ds. fv_id (fst (ds ! i)) = of_nat (n + i) \<and> fv_ty (fst (ds ! i)) \<noteq> TyUnit)"

definition block_table :: "(usize \<times> block) list \<Rightarrow> (flow_value \<times> definition_location) list" where
  "block_table bs = concat (map (\<lambda>(bi, b). block_definitions bi b) bs)"

abbreviation gives :: "('a \<Rightarrow> bool) \<Rightarrow> (check_errors \<Rightarrow> 'a \<times> check_errors) \<Rightarrow> bool \<Rightarrow> 'a \<Rightarrow> bool" where
  "gives I f P v \<equiv> yields I (\<lambda>er. Some (f er)) P v"

definition value_type :: "value_info list \<Rightarrow> u32 \<Rightarrow> ir_type option" where
  "value_type vals v = map_option vin_ty (lookup_value v vals)"

definition usable :: "value_info list \<Rightarrow> usize \<Rightarrow> usize \<Rightarrow> u32 \<Rightarrow> bool" where
  "usable vals bi position v =
     (case lookup_value v vals of None \<Rightarrow> False | Some info \<Rightarrow> \<not> defined_later (vin_location info) bi position)"

fun scan_ok :: "value_info list \<Rightarrow> usize \<Rightarrow> usize \<Rightarrow> (u32 \<times> ir_type) list \<Rightarrow> bool" where
  "scan_ok vals bi position [] = True"
| "scan_ok vals bi position ((v, ty) # rest) =
     (usable vals bi position v \<and> (value_type vals v = Some ty \<longrightarrow> scan_ok vals bi position rest))"

definition calls_in :: "signatures \<Rightarrow> call_edges \<Rightarrow> bool" where
  "calls_in sigs calls =
     (\<forall>(a, b)\<in>set calls. \<forall>k\<in>{a, b}. fk_module k < length sigs \<and> fk_function k < length (sigs ! fk_module k))"

definition callee_key :: "function_id \<Rightarrow> function_key" where
  "callee_key callee = \<lparr>fk_module = unat (fi_module callee), fk_function = unat (fi_declaration callee)\<rparr>"

definition callee_signature :: "signatures \<Rightarrow> function_id \<Rightarrow> (ir_type list \<times> ir_type) option" where
  "callee_signature sigs callee =
     Option.bind (get_at sigs (unat (fi_module callee))) (\<lambda>m. get_at m (unat (fi_declaration callee)))"

text \<open>The typing rule of an instruction; every operand is usable at its position.\<close>

definition instruction_typed :: "signatures \<Rightarrow> value_info list \<Rightarrow> instruction \<Rightarrow> bool" where
  "instruction_typed sigs vals ins =
     (let result = fv_ty (is_result ins);
          ints = (\<lambda>l r. value_type vals l = Some TyI32 \<and> value_type vals r = Some TyI32)
      in case is_kind ins of
           IkBoolLiteral _ \<Rightarrow> result = TyBool
         | IkI32Literal _ \<Rightarrow> result = TyI32
         | IkI32Neg v \<Rightarrow> value_type vals v = Some TyI32 \<and> result = TyI32
         | IkI32Add l r \<Rightarrow> ints l r \<and> result = TyI32
         | IkI32Sub l r \<Rightarrow> ints l r \<and> result = TyI32
         | IkI32Mul l r \<Rightarrow> ints l r \<and> result = TyI32
         | IkI32LtS l r \<Rightarrow> ints l r \<and> result = TyBool
         | IkI32LeS l r \<Rightarrow> ints l r \<and> result = TyBool
         | IkI32GtS l r \<Rightarrow> ints l r \<and> result = TyBool
         | IkI32GeS l r \<Rightarrow> ints l r \<and> result = TyBool
         | IkEq l r \<Rightarrow> value_type vals l = value_type vals r \<and> result = TyBool
         | IkNe l r \<Rightarrow> value_type vals l = value_type vals r \<and> result = TyBool
         | IkDirectCall callee args \<Rightarrow>
             callee_signature sigs callee = Some (map (\<lambda>v. the (value_type vals v)) args, result))"

definition instruction_ok :: "signatures \<Rightarrow> value_info list \<Rightarrow> usize \<Rightarrow> usize \<Rightarrow> instruction \<Rightarrow> bool" where
  "instruction_ok sigs vals bi position ins =
     ((\<forall>v\<in>set (instruction_operands (is_kind ins)). usable vals bi position v) \<and> instruction_typed sigs vals ins)"

definition instruction_calls :: "function_key \<Rightarrow> instruction \<Rightarrow> call_edges" where
  "instruction_calls key ins = (case is_kind ins of IkDirectCall callee _ \<Rightarrow> [(key, callee_key callee)] | _ \<Rightarrow> [])"

definition edge_ok :: "flow_function \<Rightarrow> value_info list \<Rightarrow> usize \<Rightarrow> u32 \<Rightarrow> u32 list \<Rightarrow> bool" where
  "edge_ok f vals source target args =
     (unat target < length (ff_blocks f) \<and> unat target \<noteq> 0 \<and>
      (\<forall>v\<in>set args. usable vals source (length (bk_instructions (ff_blocks f ! source))) v) \<and>
      map (value_type vals) args = map (\<lambda>d. Some (fv_ty d)) (bk_parameters (ff_blocks f ! unat target)))"

definition edges_in :: "usize \<Rightarrow> edge list \<Rightarrow> bool" where
  "edges_in n edges = (\<forall>e\<in>set edges. eg_source e < n \<and> eg_target e < n)"

fun terminator_edges :: "usize \<Rightarrow> terminator \<Rightarrow> edge list" where
  "terminator_edges bi (TmReturn _) = []"
| "terminator_edges bi (TmJump target args) = [\<lparr>eg_source = bi, eg_target = unat target, eg_arguments = args\<rparr>]"
| "terminator_edges bi (TmBranch _ t ts e es) =
     [\<lparr>eg_source = bi, eg_target = unat t, eg_arguments = ts\<rparr>, \<lparr>eg_source = bi, eg_target = unat e, eg_arguments = es\<rparr>]"

fun terminator_ok :: "flow_function \<Rightarrow> value_info list \<Rightarrow> usize \<Rightarrow> terminator \<Rightarrow> bool" where
  "terminator_ok f vals bi (TmReturn v) =
     (usable vals bi (length (bk_instructions (ff_blocks f ! bi))) v \<and> value_type vals v = Some (ff_result f))"
| "terminator_ok f vals bi (TmJump target args) = edge_ok f vals bi target args"
| "terminator_ok f vals bi (TmBranch c t ts e es) =
     (usable vals bi (length (bk_instructions (ff_blocks f ! bi))) c \<and> value_type vals c = Some TyBool \<and>
      edge_ok f vals bi t ts \<and> edge_ok f vals bi e es)"

definition block_ok :: "signatures \<Rightarrow> flow_function \<Rightarrow> value_info list \<Rightarrow> usize \<Rightarrow> block \<Rightarrow> bool" where
  "block_ok sigs f vals bi b =
     ((\<forall>i<length (bk_instructions b). instruction_ok sigs vals bi i (bk_instructions b ! i)) \<and>
      (\<exists>t. bk_terminators b = [t] \<and> terminator_ok f vals bi (st_kind t)))"

definition block_graph :: "usize \<times> block \<Rightarrow> edge list" where
  "block_graph = (\<lambda>(bi, b). case bk_terminators b of [t] \<Rightarrow> terminator_edges bi (st_kind t) | _ \<Rightarrow> [])"

definition block_call_edges :: "function_key \<Rightarrow> usize \<times> block \<Rightarrow> call_edges" where
  "block_call_edges key x = concat (map (instruction_calls key) (bk_instructions (snd x)))"

definition pack :: "'a \<times> 'b \<times> 'c \<Rightarrow> ('a \<times> 'b) \<times> 'c" where
  "pack = (\<lambda>(a, b, c). ((a, b), c))"

section \<open>Limits\<close>

lemmas flow_limit_defs = MAX_MODULES_def MAX_FUNCTIONS_PER_MODULE_def MAX_FUNCTIONS_PER_PROGRAM_def
  MAX_PARAMETERS_PER_FUNCTION_def MAX_PARAMETERS_PER_PROGRAM_def MAX_BLOCKS_PER_FUNCTION_def MAX_BLOCKS_PER_PROGRAM_def
  MAX_BLOCK_PARAMETERS_def MAX_VALUES_PER_FUNCTION_def MAX_VALUES_PER_PROGRAM_def MAX_CFG_EDGES_PER_FUNCTION_def
  MAX_CFG_EDGES_PER_PROGRAM_def MAX_CALL_EDGES_def MAX_STATIC_CALL_DEPTH_def MAX_LOOP_NESTING_def MAX_FLOW_DIAGNOSTICS_def

interpretation flow: collector flow_push
  by unfold_locales (simp_all add: flow_push_def MAX_FLOW_DIAGNOSTICS_def)

lemma flow_limit_simps [simp]:
  "\<not> clean (flow_limit l m er)" "bounded_errors er \<Longrightarrow> bounded_errors (flow_limit l m er)"
  by (simp_all add: flow_limit_def)

lemma limits_ret: "limits (\<lambda>er. Inr (mk er)) True mk"
  by (simp add: limits_def)

lemma limits_bind:
  assumes "limits f P mk" and "P \<Longrightarrow> limits (\<lambda>er. g (mk er)) Q mk'"
  shows "limits (\<lambda>er. try_bind (f er) g) (P \<and> Q) mk'"
  unfolding limits_def
proof (intro allI)
  fix er
  show "(P \<and> Q \<longrightarrow> try_bind (f er) g = Inr (mk' er)) \<and>
      (\<not> (P \<and> Q) \<longrightarrow> (\<exists>er'. try_bind (f er) g = Inl er' \<and> (bounded_errors er \<longrightarrow> bounded_errors er') \<and> \<not> clean er'))"
  proof (cases P)
    case True
    then show ?thesis using assms unfolding limits_def by (metis try_bind_simps(2))
  next
    case False
    then show ?thesis using assms unfolding limits_def by (metis try_bind_simps(1))
  qed
qed

lemmas limits_then = limits_bind [where mk = "\<lambda>er. er"]

lemma limits_pair:
  assumes "limits f P (\<lambda>er. (v, er))" and "P \<Longrightarrow> limits (h v) Q mk'"
  shows "limits (\<lambda>er. try_bind (f er) (\<lambda>(x, er). h x er)) (P \<and> Q) mk'"
  using limits_bind [OF assms(1), of "\<lambda>(x, er). h x er"] assms(2) by simp

lemma limits_cong: "limits f P mk \<Longrightarrow> P = Q \<Longrightarrow> limits f Q mk"
  by simp

lemma limits_when: "limits (limit_when b l m) (\<not> b) (\<lambda>er. er)"
  by (auto simp: limits_def limit_when_def)

lemma checked_sum_cases:
  assumes "m < usize_max"
  obtains "a + b \<le> m" "checked_sum a b l er = (a + b, er)"
    | n er' where "m < a + b" "checked_sum a b l er = (n, er')" "m < n" "bounded_errors er \<Longrightarrow> bounded_errors er'"
proof (cases "a + b \<le> m")
  case True
  then show thesis using that(1) assms by (simp add: checked_sum_def usize_checked_add_def usize_max_def)
next
  case False
  then show thesis using that(2) [of "fst (checked_sum a b l er)" "snd (checked_sum a b l er)"] assms
    by (simp add: checked_sum_def usize_checked_add_def usize_max_def)
qed

lemma limits_add_total:
  assumes "m < usize_max"
  shows "limits (add_total a b m l) (a + b \<le> m) (\<lambda>er. (a + b, er))"
  unfolding limits_def
proof (intro allI)
  fix er
  show "(a + b \<le> m \<longrightarrow> add_total a b m l er = Inr (a + b, er)) \<and>
      (\<not> a + b \<le> m \<longrightarrow> (\<exists>er'. add_total a b m l er = Inl er' \<and> (bounded_errors er \<longrightarrow> bounded_errors er') \<and> \<not> clean er'))"
    by (rule checked_sum_cases [OF assms, of a b l er]) (simp_all add: add_total_def)
qed

text \<open>A checked sum followed by the test of the sum.\<close>

lemma limits_sum:
  assumes "m < usize_max" and "a + b \<le> m \<Longrightarrow> limits (\<lambda>er. k (a + b) er) Q mk"
  shows "limits (\<lambda>er. let (n, er) = checked_sum a b l er in try_bind (limit_when (m < n) l' m er) (k n)) (a + b \<le> m \<and> Q) mk"
  unfolding limits_def
proof (intro allI)
  fix er
  show "(a + b \<le> m \<and> Q \<longrightarrow>
        (let (n, er) = checked_sum a b l er in try_bind (limit_when (m < n) l' m er) (k n)) = Inr (mk er)) \<and>
      (\<not> (a + b \<le> m \<and> Q) \<longrightarrow> (\<exists>er'. (let (n, er) = checked_sum a b l er in try_bind (limit_when (m < n) l' m er) (k n)) = Inl er' \<and>
        (bounded_errors er \<longrightarrow> bounded_errors er') \<and> \<not> clean er'))"
  proof (rule checked_sum_cases [OF assms(1), of a b l er])
    assume "a + b \<le> m" "checked_sum a b l er = (a + b, er)"
    then show ?thesis using assms(2) by (simp add: limit_when_def limits_def)
  next
    fix n er' assume "m < a + b" "checked_sum a b l er = (n, er')" "m < n" "bounded_errors er \<Longrightarrow> bounded_errors er'"
    then show ?thesis by (simp add: limit_when_def)
  qed
qed

lemma limits_sum2:
  assumes "m < usize_max" and "a + b + c \<le> m \<Longrightarrow> limits (\<lambda>er. k (a + b + c) er) Q mk"
  shows "limits (\<lambda>er. let (n, er) = checked_sum a b l er; (n, er) = checked_sum n c l er in
    try_bind (limit_when (m < n) l' m er) (k n)) (a + b + c \<le> m \<and> Q) mk"
  unfolding limits_def
proof (intro allI)
  fix er
  let ?f = "\<lambda>er. let (n, er) = checked_sum a b l er; (n, er) = checked_sum n c l er in
    try_bind (limit_when (m < n) l' m er) (k n)"
  show "(a + b + c \<le> m \<and> Q \<longrightarrow> ?f er = Inr (mk er)) \<and>
      (\<not> (a + b + c \<le> m \<and> Q) \<longrightarrow> (\<exists>er'. ?f er = Inl er' \<and> (bounded_errors er \<longrightarrow> bounded_errors er') \<and> \<not> clean er'))"
  proof (rule checked_sum_cases [OF assms(1), of a b l er])
    assume s: "a + b \<le> m" "checked_sum a b l er = (a + b, er)"
    then show ?thesis using limits_sum [OF assms(1), of "a + b" c k Q mk l l'] assms(2) by (simp add: limits_def)
  next
    fix n er' assume s: "m < a + b" "checked_sum a b l er = (n, er')" "m < n" "bounded_errors er \<Longrightarrow> bounded_errors er'"
    show ?thesis
      by (rule checked_sum_cases [OF assms(1), of n c l er']) (use s in \<open>auto simp: limit_when_def\<close>)
  qed
qed

lemma limits_terminator: "limits (preflight_terminator t) (terminator_within_limits t) (\<lambda>er. er)"
proof (cases t)
  case (TmReturn v)
  then show ?thesis using limits_ret by (simp add: preflight_terminator_def [abs_def])
next
  case (TmJump v args)
  then show ?thesis using limits_when [of "MAX_BLOCK_PARAMETERS < length args"] by (simp add: preflight_terminator_def [abs_def] not_less)
next
  case (TmBranch v a ts b fs)
  have "limits (\<lambda>er. try_bind (limit_when (MAX_BLOCK_PARAMETERS < length ts) ''true branch argument count'' MAX_BLOCK_PARAMETERS er)
      (limit_when (MAX_BLOCK_PARAMETERS < length fs) ''false branch argument count'' MAX_BLOCK_PARAMETERS))
      (\<not> MAX_BLOCK_PARAMETERS < length ts \<and> \<not> MAX_BLOCK_PARAMETERS < length fs) (\<lambda>er. er)"
    by (intro limits_then limits_when)
  then show ?thesis using TmBranch by (simp add: preflight_terminator_def [abs_def] not_less)
qed

lemma limits_blocks:
  "vals \<le> MAX_VALUES_PER_FUNCTION \<Longrightarrow> edges \<le> MAX_CFG_EDGES_PER_FUNCTION \<Longrightarrow> calls \<le> MAX_CALL_EDGES \<Longrightarrow>
    limits (preflight_blocks label bs vals edges calls)
      ((\<forall>b\<in>set bs. block_within_limits b) \<and> vals + sum_list (map block_values bs) \<le> MAX_VALUES_PER_FUNCTION \<and>
       edges + sum_list (map block_edges bs) \<le> MAX_CFG_EDGES_PER_FUNCTION \<and> calls + sum_list (map block_calls bs) \<le> MAX_CALL_EDGES)
      (\<lambda>er. (vals + sum_list (map block_values bs), edges + sum_list (map block_edges bs),
         calls + sum_list (map block_calls bs), er))"
proof (induction bs arbitrary: vals edges calls)
  case Nil
  then show ?case using limits_ret [of "\<lambda>er. (vals, edges, calls, er)"] by simp
next
  case (Cons b bs)
  let ?v = "vals + length (bk_parameters b) + length (bk_instructions b)" and ?c = "calls + block_calls b"
  have small: "MAX_VALUES_PER_FUNCTION < usize_max" "MAX_CALL_EDGES < usize_max" "MAX_CFG_EDGES_PER_FUNCTION < usize_max"
    by (simp_all add: flow_limit_defs usize_max_def)
  have mid: "limits (\<lambda>er. try_bind (limit_when (list_ex (\<lambda>i. MAX_PARAMETERS_PER_FUNCTION < call_argument_count i) (bk_instructions b))
       ''direct-call argument count'' MAX_PARAMETERS_PER_FUNCTION er) (\<lambda>er.
     case bk_terminators b of
       [t] \<Rightarrow>
         try_bind (preflight_terminator (st_kind t) er) (\<lambda>er.
         let (edges, er) = checked_sum edges (edge_count (st_kind t)) ''CFG edge count'' er
         in try_bind (limit_when (MAX_CFG_EDGES_PER_FUNCTION < edges) (label @ '' CFG edge count'')
              MAX_CFG_EDGES_PER_FUNCTION er) (\<lambda>er.
         preflight_blocks label bs ?v edges ?c er))
     | _ \<Rightarrow> preflight_blocks label bs ?v edges ?c er))
     ((\<forall>i\<in>set (bk_instructions b). call_argument_count i \<le> MAX_PARAMETERS_PER_FUNCTION) \<and>
      (case bk_terminators b of [t] \<Rightarrow> terminator_within_limits (st_kind t) | _ \<Rightarrow> True) \<and>
      edges + block_edges b \<le> MAX_CFG_EDGES_PER_FUNCTION \<and>
      ((\<forall>b\<in>set bs. block_within_limits b) \<and> ?v + sum_list (map block_values bs) \<le> MAX_VALUES_PER_FUNCTION \<and>
       edges + block_edges b + sum_list (map block_edges bs) \<le> MAX_CFG_EDGES_PER_FUNCTION \<and>
       ?c + sum_list (map block_calls bs) \<le> MAX_CALL_EDGES))
     (\<lambda>er. (?v + sum_list (map block_values bs), edges + block_edges b + sum_list (map block_edges bs),
         ?c + sum_list (map block_calls bs), er))"
    if vc: "?v \<le> MAX_VALUES_PER_FUNCTION" "?c \<le> MAX_CALL_EDGES"
  proof (rule limits_then)
    show "limits (limit_when (list_ex (\<lambda>i. MAX_PARAMETERS_PER_FUNCTION < call_argument_count i) (bk_instructions b))
       ''direct-call argument count'' MAX_PARAMETERS_PER_FUNCTION)
       (\<forall>i\<in>set (bk_instructions b). call_argument_count i \<le> MAX_PARAMETERS_PER_FUNCTION) (\<lambda>er. er)"
      by (rule limits_cong [OF limits_when]) (auto simp: list_ex_iff not_less)
    show "limits (\<lambda>er. case bk_terminators b of
       [t] \<Rightarrow>
         try_bind (preflight_terminator (st_kind t) er) (\<lambda>er.
         let (edges, er) = checked_sum edges (edge_count (st_kind t)) ''CFG edge count'' er
         in try_bind (limit_when (MAX_CFG_EDGES_PER_FUNCTION < edges) (label @ '' CFG edge count'')
              MAX_CFG_EDGES_PER_FUNCTION er) (\<lambda>er.
         preflight_blocks label bs ?v edges ?c er))
       | _ \<Rightarrow> preflight_blocks label bs ?v edges ?c er)
       ((case bk_terminators b of [t] \<Rightarrow> terminator_within_limits (st_kind t) | _ \<Rightarrow> True) \<and>
      edges + block_edges b \<le> MAX_CFG_EDGES_PER_FUNCTION \<and>
      ((\<forall>b\<in>set bs. block_within_limits b) \<and> ?v + sum_list (map block_values bs) \<le> MAX_VALUES_PER_FUNCTION \<and>
       edges + block_edges b + sum_list (map block_edges bs) \<le> MAX_CFG_EDGES_PER_FUNCTION \<and>
       ?c + sum_list (map block_calls bs) \<le> MAX_CALL_EDGES))
     (\<lambda>er. (?v + sum_list (map block_values bs), edges + block_edges b + sum_list (map block_edges bs),
         ?c + sum_list (map block_calls bs), er))"
    proof (cases "\<exists>t. bk_terminators b = [t]")
      case True
      then obtain t where t: "bk_terminators b = [t]" by blast
      then have e: "block_edges b = edge_count (st_kind t)" by (simp add: block_edges_def)
      show ?thesis unfolding t e list.case
        by (intro limits_then limits_terminator limits_sum Cons.IH vc small) assumption
    next
      case False
      then have n: "(case bk_terminators b of [t] \<Rightarrow> x t | _ \<Rightarrow> y) = y" for x and y :: 'z
        by (auto split: list.splits)
      have e: "block_edges b = 0" using n by (simp add: block_edges_def)
      show ?thesis unfolding n e using Cons.IH [OF vc(1) Cons.prems(2) vc(2)] Cons.prems(2) by simp
    qed
  qed
  have "limits (preflight_blocks label (b # bs) vals edges calls)
     (\<not> MAX_BLOCK_PARAMETERS < length (bk_parameters b) \<and> ?v \<le> MAX_VALUES_PER_FUNCTION \<and> ?c \<le> MAX_CALL_EDGES \<and>
     ((\<forall>i\<in>set (bk_instructions b). call_argument_count i \<le> MAX_PARAMETERS_PER_FUNCTION) \<and>
      (case bk_terminators b of [t] \<Rightarrow> terminator_within_limits (st_kind t) | _ \<Rightarrow> True) \<and>
      edges + block_edges b \<le> MAX_CFG_EDGES_PER_FUNCTION \<and>
      ((\<forall>b\<in>set bs. block_within_limits b) \<and> ?v + sum_list (map block_values bs) \<le> MAX_VALUES_PER_FUNCTION \<and>
       edges + block_edges b + sum_list (map block_edges bs) \<le> MAX_CFG_EDGES_PER_FUNCTION \<and>
       ?c + sum_list (map block_calls bs) \<le> MAX_CALL_EDGES)))
     (\<lambda>er. (?v + sum_list (map block_values bs), edges + block_edges b + sum_list (map block_edges bs),
         ?c + sum_list (map block_calls bs), er))"
    unfolding preflight_blocks.simps block_calls_def [symmetric]
    by (intro limits_then limits_when limits_sum2 limits_sum mid small)
  then show ?case
    by (rule arg_cong2 [where f = "limits _", THEN iffD1, rotated -1])
      (auto simp: block_within_limits_def [of b] block_values_def [of b] not_less add.assoc)
qed

lemma small_limits:
  "MAX_PARAMETERS_PER_PROGRAM < usize_max" "MAX_BLOCKS_PER_PROGRAM < usize_max" "MAX_VALUES_PER_PROGRAM < usize_max"
  "MAX_CFG_EDGES_PER_PROGRAM < usize_max" "MAX_FUNCTIONS_PER_PROGRAM < usize_max"
  "MAX_PARAMETERS_PER_FUNCTION \<le> MAX_VALUES_PER_FUNCTION"
  by (simp_all add: flow_limit_defs usize_max_def)

lemma preflight_one_iff: "totals_within_limits t \<Longrightarrow> preflight_one t f \<longleftrightarrow> functions_within_limits t [f]"
  by (auto simp: preflight_one_def functions_within_limits_def function_within_limits_def function_values_def not_less)

lemma functions_within_limits_Cons:
  "functions_within_limits t (f # fs) \<longleftrightarrow>
    functions_within_limits t [f] \<and> functions_within_limits (add_totals t [f]) fs"
  by (auto simp: functions_within_limits_def add_totals_def add.assoc)

lemma add_totals_append: "add_totals t (fs @ gs) = add_totals (add_totals t fs) gs"
  by (simp add: add_totals_def add.assoc)

lemma add_totals_within: "functions_within_limits t fs \<Longrightarrow> totals_within_limits (add_totals t fs)"
  by (simp add: functions_within_limits_def totals_within_limits_def add_totals_def)

lemma limits_functions:
  "totals_within_limits t \<Longrightarrow>
    limits (preflight_functions mi (enumerate k fs) t) (functions_within_limits t fs) (\<lambda>er. (add_totals t fs, er))"
proof (induction fs arbitrary: t k)
  case Nil
  then show ?case using limits_ret [of "\<lambda>er. (t, er)"]
    by (simp add: functions_within_limits_def totals_within_limits_def add_totals_def)
next
  case (Cons f fs)
  let ?t = "t\<lparr>pt_parameters := pt_parameters t + length (ff_parameters f), pt_blocks := pt_blocks t + length (ff_blocks f),
      pt_values := pt_values t + (length (ff_parameters f) + sum_list (map block_values (ff_blocks f))),
      pt_edges := pt_edges t + (0 + sum_list (map block_edges (ff_blocks f))),
      pt_calls := pt_calls t + sum_list (map block_calls (ff_blocks f))\<rparr>"
  have t: "?t = add_totals t [f]" by (simp add: add_totals_def function_values_def)
  have calls: "pt_calls t \<le> MAX_CALL_EDGES" using Cons.prems by (simp add: totals_within_limits_def)
  have blocks: "limits (\<lambda>er. try_bind (preflight_blocks l (ff_blocks f) (length (ff_parameters f)) 0 (pt_calls t) er)
      (\<lambda>(function_values, function_edges, calls, er). h function_values function_edges calls er))
      (((\<forall>b\<in>set (ff_blocks f). block_within_limits b) \<and>
       length (ff_parameters f) + sum_list (map block_values (ff_blocks f)) \<le> MAX_VALUES_PER_FUNCTION \<and>
       0 + sum_list (map block_edges (ff_blocks f)) \<le> MAX_CFG_EDGES_PER_FUNCTION \<and>
       pt_calls t + sum_list (map block_calls (ff_blocks f)) \<le> MAX_CALL_EDGES) \<and> Q) mk"
    if "\<not> MAX_PARAMETERS_PER_FUNCTION < length (ff_parameters f)"
      "(\<forall>b\<in>set (ff_blocks f). block_within_limits b) \<and>
       length (ff_parameters f) + sum_list (map block_values (ff_blocks f)) \<le> MAX_VALUES_PER_FUNCTION \<and>
       0 + sum_list (map block_edges (ff_blocks f)) \<le> MAX_CFG_EDGES_PER_FUNCTION \<and>
       pt_calls t + sum_list (map block_calls (ff_blocks f)) \<le> MAX_CALL_EDGES \<Longrightarrow>
       limits (h (length (ff_parameters f) + sum_list (map block_values (ff_blocks f)))
        (0 + sum_list (map block_edges (ff_blocks f))) (pt_calls t + sum_list (map block_calls (ff_blocks f)))) Q mk"
    for h l Q and mk :: "check_errors \<Rightarrow> preflight_totals \<times> check_errors"
  proof -
    have "length (ff_parameters f) \<le> MAX_VALUES_PER_FUNCTION" "0 \<le> MAX_CFG_EDGES_PER_FUNCTION"
      using that(1) small_limits(6) by auto
    from limits_bind [OF limits_blocks [OF this calls], where g = "\<lambda>(function_values, function_edges, calls, er).
        h function_values function_edges calls er"] that(2) show ?thesis by simp
  qed
  have rest: "limits (preflight_functions mi (enumerate (Suc k) fs) ?t) (functions_within_limits ?t fs)
      (\<lambda>er. (add_totals t (f # fs), er))" if "preflight_one t f"
    using Cons.IH [of ?t] add_totals_within [of t "[f]"] that preflight_one_iff [OF Cons.prems] add_totals_append [of t "[f]" fs]
    unfolding t by simp
  have "limits (preflight_functions mi (enumerate k (f # fs)) t)
      (\<not> MAX_PARAMETERS_PER_FUNCTION < length (ff_parameters f) \<and>
      pt_parameters t + length (ff_parameters f) \<le> MAX_PARAMETERS_PER_PROGRAM \<and>
      \<not> (ff_blocks f = [] \<or> MAX_BLOCKS_PER_FUNCTION < length (ff_blocks f)) \<and>
      pt_blocks t + length (ff_blocks f) \<le> MAX_BLOCKS_PER_PROGRAM \<and>
      ((\<forall>b\<in>set (ff_blocks f). block_within_limits b) \<and>
       length (ff_parameters f) + sum_list (map block_values (ff_blocks f)) \<le> MAX_VALUES_PER_FUNCTION \<and>
       0 + sum_list (map block_edges (ff_blocks f)) \<le> MAX_CFG_EDGES_PER_FUNCTION \<and>
       pt_calls t + sum_list (map block_calls (ff_blocks f)) \<le> MAX_CALL_EDGES) \<and>
      pt_values t + (length (ff_parameters f) + sum_list (map block_values (ff_blocks f))) \<le> MAX_VALUES_PER_PROGRAM \<and>
      pt_edges t + (0 + sum_list (map block_edges (ff_blocks f))) \<le> MAX_CFG_EDGES_PER_PROGRAM \<and>
      functions_within_limits ?t fs) (\<lambda>er. (add_totals t (f # fs), er))"
    unfolding enumerate_simps preflight_functions.simps Let_def
    apply (rule limits_then [OF limits_when])
    apply (rule limits_pair [OF limits_add_total [OF small_limits(1)]])
    apply (rule limits_then [OF limits_when])
    apply (rule limits_pair [OF limits_add_total [OF small_limits(2)]])
    apply (rule blocks, assumption)
    apply (rule limits_pair [OF limits_add_total [OF small_limits(3)]])
    apply (rule limits_pair [OF limits_add_total [OF small_limits(4)]])
    apply (rule rest)
    apply (simp add: preflight_one_def)
    done
  then show ?case
    by (rule limits_cong)
      (use preflight_one_iff [OF Cons.prems, of f] functions_within_limits_Cons [of t f fs] t in \<open>auto simp: preflight_one_def\<close>)
qed

lemma add_totals_functions [simp]: "pt_functions (add_totals t fs) = pt_functions t"
  by (simp add: add_totals_def)

lemma functions_within_limits_append:
  "functions_within_limits t (fs @ gs) \<longleftrightarrow> functions_within_limits t fs \<and> functions_within_limits (add_totals t fs) gs"
  by (auto simp: functions_within_limits_def add_totals_def add.assoc)

lemma functions_update:
  "functions_within_limits (t\<lparr>pt_functions := n\<rparr>) fs = functions_within_limits t fs"
  "totals_within_limits (t\<lparr>pt_functions := n\<rparr>) = totals_within_limits t"
  "add_totals (t\<lparr>pt_functions := n\<rparr>) fs = (add_totals t fs)\<lparr>pt_functions := n\<rparr>"
  by (simp_all add: functions_within_limits_def totals_within_limits_def add_totals_def)

lemma limits_modules:
  "totals_within_limits t \<Longrightarrow> pt_functions t \<le> MAX_FUNCTIONS_PER_PROGRAM \<Longrightarrow>
    limits (flow_preflight_modules (enumerate k ms) t)
      ((\<forall>m\<in>set ms. length (fm_functions m) \<le> MAX_FUNCTIONS_PER_MODULE) \<and>
       pt_functions t + length (concat (map fm_functions ms)) \<le> MAX_FUNCTIONS_PER_PROGRAM \<and>
       functions_within_limits t (concat (map fm_functions ms)))
      (\<lambda>er. ((add_totals t (concat (map fm_functions ms)))
         \<lparr>pt_functions := pt_functions t + length (concat (map fm_functions ms))\<rparr>, er))"
proof (induction ms arbitrary: t k)
  case Nil
  then show ?case using limits_ret [of "\<lambda>er. (t, er)"]
    by (simp add: functions_within_limits_def totals_within_limits_def add_totals_def)
next
  case (Cons m ms)
  let ?n = "pt_functions t + length (fm_functions m)" and ?fs = "fm_functions m" and ?gs = "concat (map fm_functions ms)"
  let ?t = "t\<lparr>pt_functions := ?n\<rparr>"
  have fs: "limits (preflight_functions k (enumerate 0 ?fs) ?t) (functions_within_limits ?t ?fs) (\<lambda>er. (add_totals ?t ?fs, er))"
    using limits_functions [of ?t] Cons.prems functions_update(2) by blast
  have ms: "limits (flow_preflight_modules (enumerate (Suc k) ms) (add_totals ?t ?fs))
      ((\<forall>m\<in>set ms. length (fm_functions m) \<le> MAX_FUNCTIONS_PER_MODULE) \<and>
       ?n + length ?gs \<le> MAX_FUNCTIONS_PER_PROGRAM \<and> functions_within_limits (add_totals ?t ?fs) ?gs)
      (\<lambda>er. ((add_totals (add_totals ?t ?fs) ?gs)\<lparr>pt_functions := ?n + length ?gs\<rparr>, er))"
    if "functions_within_limits ?t ?fs" "?n \<le> MAX_FUNCTIONS_PER_PROGRAM"
    using Cons.IH [OF add_totals_within [OF that(1)], of "Suc k"] that(2) by simp
  have "limits (flow_preflight_modules (enumerate k (m # ms)) t)
      (\<not> MAX_FUNCTIONS_PER_MODULE < length ?fs \<and> ?n \<le> MAX_FUNCTIONS_PER_PROGRAM \<and> functions_within_limits ?t ?fs \<and>
       ((\<forall>m\<in>set ms. length (fm_functions m) \<le> MAX_FUNCTIONS_PER_MODULE) \<and>
        ?n + length ?gs \<le> MAX_FUNCTIONS_PER_PROGRAM \<and> functions_within_limits (add_totals ?t ?fs) ?gs))
      (\<lambda>er. ((add_totals (add_totals ?t ?fs) ?gs)\<lparr>pt_functions := ?n + length ?gs\<rparr>, er))"
    unfolding enumerate_simps flow_preflight_modules.simps
    by (rule limits_then [OF limits_when], rule limits_pair [OF limits_add_total [OF small_limits(5)]],
        rule limits_pair [OF fs], rule ms)
  then show ?case
    by (rule arg_cong2 [where f = "limits _", THEN iffD1, rotated -1])
      (simp_all add: functions_update add_totals_append functions_within_limits_append not_less add.assoc, auto)
qed

text \<open>The flow_preflight reports nothing exactly when every limit holds.\<close>

lemma flow_preflight_exact:
  "checks (flow_preflight p) (flow_within_limits p)"
proof -
  let ?fs = "concat (map fm_functions (fp_modules p))"
  let ?P = "(\<forall>m\<in>set (fp_modules p). length (fm_functions m) \<le> MAX_FUNCTIONS_PER_MODULE) \<and>
       pt_functions no_totals + length ?fs \<le> MAX_FUNCTIONS_PER_PROGRAM \<and> functions_within_limits no_totals ?fs"
  have t: "totals_within_limits no_totals" "pt_functions no_totals \<le> MAX_FUNCTIONS_PER_PROGRAM"
    by (simp_all add: totals_within_limits_def no_totals_def)
  note m = limits_modules [OF t, of 0 "fp_modules p", unfolded limits_def, THEN spec]
  have fl: "flow_within_limits p \<longleftrightarrow> fp_modules p \<noteq> [] \<and> length (fp_modules p) \<le> MAX_MODULES \<and> ?P"
    by (simp add: flow_within_limits_def no_totals_def)
  show ?thesis
  proof (cases "fp_modules p = [] \<or> MAX_MODULES < length (fp_modules p) \<or> \<not> ?P")
    case True
    then have nf: "flow_within_limits p = False" using fl by (auto simp: not_less)
    have "bounded_errors er \<longrightarrow> bounded_errors (flow_preflight p er) \<and> \<not> clean (flow_preflight p er)" for er
    proof (cases "fp_modules p = [] \<or> MAX_MODULES < length (fp_modules p)")
      case True
      then show ?thesis by (auto simp: flow_preflight_def flow.push_dirty flow.push_keeps_bound)
    next
      case False
      then have "\<not> ?P" using True by blast
      then obtain er' where "flow_preflight_modules (enumerate 0 (fp_modules p)) no_totals er = Inl er'"
          "bounded_errors er \<longrightarrow> bounded_errors er'" "\<not> clean er'" using m [of er] by blast
      then show ?thesis using False by (simp add: flow_preflight_def no_totals_def)
    qed
    then show ?thesis by (simp add: checks_def nf)
  next
    case False
    then have P: ?P and ok: "fp_modules p \<noteq> []" "length (fp_modules p) \<le> MAX_MODULES" by auto
    have "flow_preflight p er = er" for er
      using m [of er] ok P
      by (simp add: flow_preflight_def no_totals_def add_totals_def functions_within_limits_def)
    then show ?thesis using P ok fl by (simp add: checks_def)
  qed
qed

section \<open>Checks that also compute\<close>

lemma steps_checks: "checks f P \<Longrightarrow> steps (\<lambda>er. Some (f er)) P"
  by (auto simp: checks_def steps_def)

lemma steps_cong: "steps f P \<Longrightarrow> P = Q \<Longrightarrow> steps f Q"
  by simp

lemma yields_cong: "yields I f P v \<Longrightarrow> P = Q \<Longrightarrow> (Q \<Longrightarrow> v = w) \<Longrightarrow> yields I f Q w"
  unfolding yields_def by blast

lemma steps_guard: "steps f P \<Longrightarrow> steps (\<lambda>er. if ce_exhausted er then Some er else f er) P"
  using exhausted_not_clean unfolding steps_def by metis

lemma yields_guard:
  assumes "yields I f P v" "I a"
  shows "yields I (\<lambda>er. if ce_exhausted er then Some (a, er) else f er) P v"
  unfolding yields_def
proof (intro allI impI)
  fix er assume "bounded_errors er"
  then show "\<exists>b er'. (if ce_exhausted er then Some (a, er) else f er) = Some (b, er') \<and> bounded_errors er' \<and> I b \<and>
      (clean er' \<longleftrightarrow> clean er \<and> P) \<and> (clean er' \<longrightarrow> b = v)"
    using assms exhausted_not_clean [of er] by (cases "ce_exhausted er") (auto simp: yields_def)
qed

lemma steps_after:
  assumes "checks c P" and "P \<Longrightarrow> steps f Q" and "\<not> P \<Longrightarrow> \<exists>R. steps f R"
  shows "steps (\<lambda>er. f (c er)) (P \<and> Q)"
  using assms unfolding checks_def steps_def by metis

lemma yields_after:
  assumes "checks c P" and "P \<Longrightarrow> yields I f Q v" and "\<not> P \<Longrightarrow> \<exists>R w. yields I f R w"
  shows "yields I (\<lambda>er. f (c er)) (P \<and> Q) v"
  unfolding yields_def
proof (intro allI impI)
  fix er assume "bounded_errors er"
  then have c: "bounded_errors (c er)" "clean (c er) \<longleftrightarrow> clean er \<and> P" using assms(1) by (auto simp: checks_def)
  show "\<exists>a er'. f (c er) = Some (a, er') \<and> bounded_errors er' \<and> I a \<and> (clean er' \<longleftrightarrow> clean er \<and> P \<and> Q) \<and> (clean er' \<longrightarrow> a = v)"
  proof (cases P)
    case True
    then show ?thesis using assms(2) c unfolding yields_def by blast
  next
    case False
    then obtain R w where "yields I f R w" using assms(3) by blast
    then show ?thesis using c False unfolding yields_def by blast
  qed
qed

lemma steps_seq: "checks c P \<Longrightarrow> steps f Q \<Longrightarrow> steps (\<lambda>er. f (c er)) (P \<and> Q)"
  by (rule steps_after) auto

lemma yields_seq: "checks c P \<Longrightarrow> yields I f Q v \<Longrightarrow> yields I (\<lambda>er. f (c er)) (P \<and> Q) v"
  by (rule yields_after) auto

lemma yields_bind:
  assumes "yields I f P v" and "P \<Longrightarrow> yields J (g v) Q w" and "\<And>a. I a \<Longrightarrow> \<exists>R x. yields J (g a) R x"
  shows "yields J (\<lambda>er. Option.bind (f er) (\<lambda>(a, er). g a er)) (P \<and> Q) w"
  unfolding yields_def
proof (intro allI impI)
  fix er assume "bounded_errors er"
  then obtain a er' where a: "f er = Some (a, er')" "bounded_errors er'" "I a" "clean er' \<longleftrightarrow> clean er \<and> P" "clean er' \<longrightarrow> a = v"
    using assms(1) unfolding yields_def by blast
  show "\<exists>b er'. Option.bind (f er) (\<lambda>(a, er). g a er) = Some (b, er') \<and> bounded_errors er' \<and> J b \<and>
      (clean er' \<longleftrightarrow> clean er \<and> P \<and> Q) \<and> (clean er' \<longrightarrow> b = w)"
  proof (cases "clean er'")
    case True
    then show ?thesis using assms(2) a unfolding yields_def by auto
  next
    case False
    then obtain R x where "yields J (g a) R x" using assms(3) a(3) by blast
    then show ?thesis using False a unfolding yields_def by fastforce
  qed
qed

lemma steps_bind_yields:
  assumes "yields I f P v" and "P \<Longrightarrow> steps (g v) Q" and "\<And>a. I a \<Longrightarrow> \<exists>R. steps (g a) R"
  shows "steps (\<lambda>er. Option.bind (f er) (\<lambda>(a, er). g a er)) (P \<and> Q)"
  unfolding steps_def
proof (intro allI impI)
  fix er assume "bounded_errors er"
  then obtain a er' where a: "f er = Some (a, er')" "bounded_errors er'" "I a" "clean er' \<longleftrightarrow> clean er \<and> P" "clean er' \<longrightarrow> a = v"
    using assms(1) unfolding yields_def by blast
  show "\<exists>er'. Option.bind (f er) (\<lambda>(a, er). g a er) = Some er' \<and> bounded_errors er' \<and> (clean er' \<longleftrightarrow> clean er \<and> P \<and> Q)"
  proof (cases "clean er'")
    case True
    then show ?thesis using assms(2) a unfolding steps_def by auto
  next
    case False
    then obtain R where "steps (g a) R" using assms(3) a(3) by blast
    then show ?thesis using False a unfolding steps_def by fastforce
  qed
qed

lemma steps_bind:
  assumes "steps f P" and "P \<Longrightarrow> steps g Q" and "\<not> P \<Longrightarrow> \<exists>R. steps g R"
  shows "steps (\<lambda>er. Option.bind (f er) g) (P \<and> Q)"
  unfolding steps_def
proof (intro allI impI)
  fix er assume "bounded_errors er"
  then obtain er' where a: "f er = Some er'" "bounded_errors er'" "clean er' \<longleftrightarrow> clean er \<and> P"
    using assms(1) unfolding steps_def by blast
  show "\<exists>er'. Option.bind (f er) g = Some er' \<and> bounded_errors er' \<and> (clean er' \<longleftrightarrow> clean er \<and> P \<and> Q)"
  proof (cases P)
    case True
    then show ?thesis using assms(2) a unfolding steps_def by auto
  next
    case False
    then obtain R where "steps g R" using assms(3) by blast
    then show ?thesis using False a unfolding steps_def by fastforce
  qed
qed

lemma steps_check_steps:
  assumes "\<And>x. x \<in> set xs \<Longrightarrow> steps (f x) (P x)"
  shows "steps (check_steps f xs) (\<forall>x\<in>set xs. P x)"
  using assms
proof (induction xs)
  case Nil
  then show ?case by (simp add: steps_def)
next
  case (Cons x xs)
  have "steps (\<lambda>er. Option.bind (f x er) (\<lambda>er. if ce_exhausted er then Some er else check_steps f xs er)) (P x \<and> (\<forall>x\<in>set xs. P x))"
    by (rule steps_bind) (use Cons steps_guard in auto)
  then show ?case by (simp add: steps_def)
qed

lemma yields_ret: "I v \<Longrightarrow> yields I (\<lambda>er. Some (v, er)) True v"
  by (simp add: yields_def)

lemma yields_checks: "checks c P \<Longrightarrow> I v \<Longrightarrow> yields I (\<lambda>er. Some (v, c er)) P v"
  by (auto simp: yields_def checks_def)

lemma checks_flow_push: "checks (flow_push d) False"
  by (rule flow.checks_pushed)

lemma checks_flow_when: "checks (flow_push_when b d) (\<not> b)"
  using flow.checks_when [of b d] by (simp add: flow_push_when_def [abs_def])

lemma checks_flow_limit: "checks (flow_limit l m) False"
  by (simp add: checks_def)

section \<open>Modules\<close>

lemma ball_enumerate_nth: "(\<forall>x\<in>set (enumerate 0 xs). P x) \<longleftrightarrow> (\<forall>i<length xs. P (i, xs ! i))"
  by (auto simp: in_set_enumerate_eq)

lemma steps_some: "checks f P \<Longrightarrow> (\<And>er. g er = Some (f er)) \<Longrightarrow> steps g P"
  using steps_checks [of f P] by presburger

lemma verify_function_identity_steps:
  assumes "fi < 2 ^ 32"
  shows "steps (verify_function_identity p mi m (fi, f))
    (ff_id f = \<lparr>fi_module = fm_id m, fi_declaration = of_nat fi\<rparr> \<and> (fm_id m \<noteq> fp_entry_module p \<longrightarrow> ff_entry_export f = None))"
proof -
  have u: "u32_try_from fi = Some (of_nat fi)" using assms by (simp add: u32_try_from_def)
  have "steps (verify_function_identity p mi m (fi, f))
     (\<not> (fi_module (ff_id f) \<noteq> fm_id m \<or> fi_declaration (ff_id f) \<noteq> of_nat fi) \<and>
      \<not> (fm_id m \<noteq> fp_entry_module p \<and> ff_entry_export f \<noteq> None))"
    unfolding verify_function_identity_def split u Option.bind.simps Let_def
    by (intro steps_seq [OF checks_flow_when] steps_guard steps_checks checks_flow_when)
  then show ?thesis by (rule steps_cong) (cases "ff_id f", auto)
qed

lemma verify_module_steps:
  assumes "mi < 2 ^ 32" and "length (fm_functions m) \<le> 2 ^ 32"
  shows "steps (verify_module p sources (mi, m)) (module_ok p sources mi m)"
proof -
  have u: "u32_try_from mi = Some (of_nat mi)" using assms by (simp add: u32_try_from_def)
  have fs: "steps (check_steps (verify_function_identity p mi m) (enumerate 0 (fm_functions m)))
      (\<forall>x\<in>set (enumerate 0 (fm_functions m)).
        ff_id (snd x) = \<lparr>fi_module = fm_id m, fi_declaration = of_nat (fst x)\<rparr> \<and>
        (fm_id m \<noteq> fp_entry_module p \<longrightarrow> ff_entry_export (snd x) = None))"
    by (rule steps_check_steps) (use assms verify_function_identity_steps in \<open>auto simp: in_set_enumerate_eq\<close>)
  let ?file = "case verify_file_id sources (of_nat mi) of Inl _ \<Rightarrow> None | Inr f \<Rightarrow> Some f"
  have "steps (verify_module p sources (mi, m)) (\<not> (fm_id m \<noteq> of_nat mi \<or> ?file \<noteq> Some (fm_source_file m)) \<and>
      (\<forall>x\<in>set (enumerate 0 (fm_functions m)).
        ff_id (snd x) = \<lparr>fi_module = fm_id m, fi_declaration = of_nat (fst x)\<rparr> \<and>
        (fm_id m \<noteq> fp_entry_module p \<longrightarrow> ff_entry_export (snd x) = None)))"
    unfolding verify_module_def split u Option.bind.simps Let_def
    by (intro steps_seq [OF checks_flow_when] steps_guard fs)
  then show ?thesis
    by (rule steps_cong) (auto simp: module_ok_def ball_enumerate_nth split: sum.splits)
qed

lemma verify_modules_steps:
  assumes "length (fp_modules p) \<le> 2 ^ 32" and "\<forall>m\<in>set (fp_modules p). length (fm_functions m) \<le> 2 ^ 32"
  shows "steps (verify_modules p sources expected_entry) (modules_ok p sources expected_entry)"
proof -
  have ms: "steps (check_steps (verify_module p sources) (enumerate 0 (fp_modules p)))
      (\<forall>x\<in>set (enumerate 0 (fp_modules p)). module_ok p sources (fst x) (snd x))"
    by (rule steps_check_steps) (use assms verify_module_steps in \<open>auto simp: in_set_enumerate_eq\<close>)
  have entry: "steps (\<lambda>er. (let er = flow_push_when b d er in if ce_exhausted er then Some er
      else check_steps (verify_module p sources) (enumerate 0 (fp_modules p)) er))
      (\<not> b \<and> (\<forall>x\<in>set (enumerate 0 (fp_modules p)). module_ok p sources (fst x) (snd x)))" for b d
    unfolding Let_def by (intro steps_seq [OF checks_flow_when] steps_guard ms)
  have "steps (verify_modules p sources expected_entry) (\<not> length (fp_modules p) \<noteq> sm_len sources \<and>
      \<not> (map_option fm_source_file (get_at (fp_modules p) (unat (fp_entry_module p))) \<noteq> Some expected_entry \<or>
         sm_source sources expected_entry = None) \<and>
      (\<forall>x\<in>set (enumerate 0 (fp_modules p)). module_ok p sources (fst x) (snd x)))"
    unfolding verify_modules_def [abs_def] Let_def
    by (rule steps_guard, rule steps_seq [OF checks_flow_when], rule steps_guard, rule entry [unfolded Let_def])
  then show ?thesis by (rule steps_cong) (auto simp: modules_ok_def ball_enumerate_nth)
qed

section \<open>Spans and values\<close>

lemma sm_resolve_some:
  assumes "wf_source_map sources"
  shows "sm_resolve sources sp \<noteq> None"
  using sm_resolve_total [OF assms] by (cases "validated_source sources sp") (force simp: sm_resolve_def)+

lemma validate_span_yields:
  assumes "wf_source_map sources"
  shows "yields (\<lambda>_. True) (validate_span file sources sp) (span_in sources file sp) True"
proof -
  obtain r where r: "sm_resolve sources sp = Some r" using sm_resolve_some [OF assms] by blast
  have "yields (\<lambda>_. True) (\<lambda>er. case sm_resolve sources sp of
           None \<Rightarrow> None
         | Some (Inr resolved) \<Rightarrow>
             if sf_id (rs_source resolved) = file then Some (True, er)
             else
               Some (False, flow_push (flow_error ''ZRYNA-I2023'' ''IR span belongs to a different module source file''
                 ''bind every function, value, instruction, and terminator span to its containing module'') er)
         | Some (Inl e) \<Rightarrow> Some (False, flow_push (from_source_error e) er)) (span_in sources file sp) True"
    using r by (cases r) (auto simp: yields_def span_in_def flow.push_dirty flow.push_keeps_bound)
  from yields_guard [OF this, of False] show ?thesis unfolding validate_span_def [abs_def] by simp
qed

lemma validate_spans_yields:
  assumes "wf_source_map sources"
  shows "yields (\<lambda>_. True) (validate_spans file sources sps valid) (\<forall>sp\<in>set sps. span_in sources file sp) valid"
proof (induction sps arbitrary: valid)
  case Nil
  then show ?case by (simp add: yields_def)
next
  case (Cons sp sps)
  have "yields (\<lambda>_. True) (\<lambda>er. Option.bind (validate_span file sources sp er) (\<lambda>(ok, er).
      if ce_exhausted er then Some (False, er) else validate_spans file sources sps (valid \<and> ok) er))
      (span_in sources file sp \<and> (\<forall>sp\<in>set sps. span_in sources file sp)) (valid \<and> True)"
    by (rule yields_bind [OF validate_span_yields [OF assms]]) (use yields_guard [OF Cons.IH, of False] in blast)+
  then show ?case by (simp add: yields_def)
qed

lemma checks_validate_type: "checks (validate_type ty sp label) (ty \<noteq> TyUnit)"
  unfolding validate_type_def [abs_def] by (intro checks_guard checks_flow_when)

lemma definitions_ok_Cons:
  "definitions_ok n (d # ds) \<longleftrightarrow> (fv_id (fst d) = of_nat n \<and> fv_ty (fst d) \<noteq> TyUnit) \<and> definitions_ok (Suc n) ds"
  by (auto simp: definitions_ok_def nth_Cons' less_Suc_eq_0_disj)

lemma definitions_ok_Nil [simp]: "definitions_ok n []"
  by (simp add: definitions_ok_def)

lemma definitions_ok_append: "definitions_ok n (ds @ es) \<longleftrightarrow> definitions_ok n ds \<and> definitions_ok (n + length ds) es"
  by (induction ds arbitrary: n) (simp_all add: definitions_ok_Cons)

lemma table_ok_mono: "table_ok n k vs \<Longrightarrow> k \<le> k' \<Longrightarrow> table_ok n k' vs"
  by (auto simp: table_ok_def)

lemma table_ok_append:
  "table_ok n k vs \<Longrightarrow> \<forall>d\<in>set ds. location_in n (snd d) \<Longrightarrow> table_ok n (k + length ds) (vs @ map definition_info ds)"
  by (auto simp: table_ok_def definition_info_def split: prod.splits)

lemma define_value_yields:
  assumes "table_ok n limit vals" "limit < 2 ^ 32" "location_in n (snd d)"
  shows "yields (table_ok n (Suc limit)) (define_value d vals)
    (fv_id (fst d) = of_nat (length vals) \<and> fv_ty (fst d) \<noteq> TyUnit) (vals @ [definition_info d])"
proof -
  obtain v location where d: "d = (v, location)" by force
  have u: "u32_try_from (length vals) = Some (of_nat (length vals))"
    using assms(1,2) by (simp add: u32_try_from_def table_ok_def)
  have t: "table_ok n (Suc limit) vals" "table_ok n (Suc limit) (vals @ [definition_info d])"
    using assms(1,3) d by (auto simp: table_ok_def definition_info_def)
  have ret: "yields (table_ok n (Suc limit)) (\<lambda>er. if ce_exhausted er then Some (vals, er)
      else Some (vals @ [definition_info d], er)) True (vals @ [definition_info d])"
    by (rule yields_guard [OF yields_ret]) (use t in auto)
  have typed: "yields (table_ok n (Suc limit)) (\<lambda>er. let er = validate_type (fv_ty v) (Some (fv_span v)) ''value'' er
      in if ce_exhausted er then Some (vals, er) else Some (vals @ [definition_info d], er)) (fv_ty v \<noteq> TyUnit \<and> True) (vals @ [definition_info d])"
    unfolding Let_def by (rule yields_seq [OF checks_validate_type], rule ret)
  have "yields (table_ok n (Suc limit)) (define_value d vals)
     (\<not> fv_id v \<noteq> of_nat (length vals) \<and> (fv_ty v \<noteq> TyUnit \<and> True)) (vals @ [definition_info d])"
    unfolding define_value_def d split u Option.bind.simps
    unfolding Let_def
    by (rule yields_guard, rule yields_seq [OF checks_flow_when], rule yields_guard)
      (use typed t(1) d in \<open>simp_all add: Let_def definition_info_def cong: if_cong\<close>)
  then show ?thesis by (rule yields_cong) (use d in auto)
qed

lemma define_values_yields:
  "table_ok n limit vals \<Longrightarrow> limit + length ds \<le> 2 ^ 32 \<Longrightarrow> \<forall>d\<in>set ds. location_in n (snd d) \<Longrightarrow>
    yields (table_ok n (limit + length ds)) (define_values ds vals) (definitions_ok (length vals) ds)
      (vals @ map definition_info ds)"
proof (induction ds arbitrary: vals limit)
  case Nil
  then show ?case by (simp add: yields_def definitions_ok_def)
next
  case (Cons d ds)
  have step: "yields (table_ok n (limit + length (d # ds))) (\<lambda>er. if ce_exhausted er then Some (vs, er) else define_values ds vs er)
      (definitions_ok (length vs) ds) (vs @ map definition_info ds)" if "table_ok n (Suc limit) vs" for vs
    by (rule yields_guard) (use Cons.IH [OF that] table_ok_mono [OF that] Cons.prems in auto)
  have "table_ok n (Suc limit) (vals @ [definition_info d])"
    using Cons.prems by (auto simp: table_ok_def definition_info_def split: prod.splits)
  note full = step [OF this]
  have "yields (table_ok n (limit + length (d # ds))) (\<lambda>er. Option.bind (define_value d vals er)
      (\<lambda>(vs, er). if ce_exhausted er then Some (vs, er) else define_values ds vs er))
      ((fv_id (fst d) = of_nat (length vals) \<and> fv_ty (fst d) \<noteq> TyUnit) \<and> definitions_ok (Suc (length vals)) ds)
      (vals @ map definition_info (d # ds))"
    by (rule yields_bind [OF define_value_yields [of n limit]]) (use Cons.prems full step in auto)
  then show ?case by (simp add: definitions_ok_Cons)
qed

lemma block_definitions_facts:
  "length (block_definitions bi b) = block_values b"
  "bi < n \<Longrightarrow> \<forall>d\<in>set (block_definitions bi b). location_in n (snd d)"
  by (auto simp: block_definitions_def block_values_def location_in_def)

lemma define_blocks_yields:
  "table_ok n limit vals \<Longrightarrow> limit + sum_list (map (\<lambda>x. block_values (snd x)) bs) \<le> 2 ^ 32 \<Longrightarrow> \<forall>x\<in>set bs. fst x < n \<Longrightarrow> n \<le> 2 ^ 32 \<Longrightarrow>
    yields (table_ok n (limit + sum_list (map (\<lambda>x. block_values (snd x)) bs))) (define_blocks key bs vals)
      ((\<forall>x\<in>set bs. bk_id (snd x) = of_nat (fst x) \<and> (fst x = 0 \<longrightarrow> bk_parameters (snd x) = [])) \<and>
       definitions_ok (length vals) (block_table bs))
      (vals @ map definition_info (block_table bs))"
proof (induction bs arbitrary: vals limit)
  case Nil
  then show ?case by (simp add: yields_def definitions_ok_def block_table_def)
next
  case (Cons x bs)
  obtain bi b where x: "x = (bi, b)" by force
  let ?I = "table_ok n (limit + sum_list (map (\<lambda>x. block_values (snd x)) (x # bs)))"
  let ?ds = "block_definitions bi b"
  have u: "u32_try_from bi = Some (of_nat bi)" using Cons.prems x by (simp add: u32_try_from_def)
  have I: "?I vals" using Cons.prems(1) by (auto simp: table_ok_def)
  have len: "length ?ds = block_values b" by (rule block_definitions_facts)
  have step: "yields ?I (\<lambda>er. if ce_exhausted er then Some (vs, er) else define_blocks key bs vs er)
      ((\<forall>x\<in>set bs. bk_id (snd x) = of_nat (fst x) \<and> (fst x = 0 \<longrightarrow> bk_parameters (snd x) = [])) \<and>
       definitions_ok (length vs) (block_table bs)) (vs @ map definition_info (block_table bs))"
    if "table_ok n (limit + length ?ds) vs" for vs
    by (rule yields_guard)
      (use Cons.IH [OF that] table_ok_mono [OF that] Cons.prems(2,3,4) x len in \<open>simp_all add: add.assoc\<close>)
  have vs: "yields (table_ok n (limit + length ?ds)) (define_values ?ds vals) (definitions_ok (length vals) ?ds) (vals @ map definition_info ?ds)"
    by (rule define_values_yields [OF Cons.prems(1)]) (use Cons.prems x len block_definitions_facts(2) [of bi n b] in auto)
  have full: "table_ok n (limit + length ?ds) (vals @ map definition_info ?ds)"
    using table_ok_append [OF Cons.prems(1)] block_definitions_facts(2) [of bi n b] Cons.prems(3) x by simp
  have body: "yields ?I (\<lambda>er. Option.bind (define_values ?ds vals er)
      (\<lambda>(vs, er). if ce_exhausted er then Some (vs, er) else define_blocks key bs vs er))
      (definitions_ok (length vals) ?ds \<and>
       (\<forall>x\<in>set bs. bk_id (snd x) = of_nat (fst x) \<and> (fst x = 0 \<longrightarrow> bk_parameters (snd x) = [])) \<and>
       definitions_ok (length (vals @ map definition_info ?ds)) (block_table bs))
      ((vals @ map definition_info ?ds) @ map definition_info (block_table bs))"
    by (rule yields_bind [OF vs]) (use step full in blast)+
  have entry: "yields ?I (\<lambda>er. let er = flow_push_when c e er in if ce_exhausted er then Some (vals, er) else
      Option.bind (define_values ?ds vals er) (\<lambda>(vs, er). if ce_exhausted er then Some (vs, er) else define_blocks key bs vs er))
      (\<not> c \<and> (definitions_ok (length vals) ?ds \<and>
       (\<forall>x\<in>set bs. bk_id (snd x) = of_nat (fst x) \<and> (fst x = 0 \<longrightarrow> bk_parameters (snd x) = [])) \<and>
       definitions_ok (length (vals @ map definition_info ?ds)) (block_table bs)))
      ((vals @ map definition_info ?ds) @ map definition_info (block_table bs))" for c e
    unfolding Let_def by (rule yields_seq [OF checks_flow_when], rule yields_guard, rule body, rule I)
  have "yields ?I (define_blocks key (x # bs) vals) (\<not> bk_id b \<noteq> of_nat bi \<and> \<not> (bi = 0 \<and> bk_parameters b \<noteq> []) \<and>
      (definitions_ok (length vals) ?ds \<and>
       (\<forall>x\<in>set bs. bk_id (snd x) = of_nat (fst x) \<and> (fst x = 0 \<longrightarrow> bk_parameters (snd x) = [])) \<and>
       definitions_ok (length (vals @ map definition_info ?ds)) (block_table bs)))
      ((vals @ map definition_info ?ds) @ map definition_info (block_table bs))"
    unfolding x define_blocks.simps u Option.bind.simps
    unfolding Let_def
    by (rule yields_seq [OF checks_flow_when], rule yields_guard, rule entry [unfolded Let_def x], rule I [unfolded x])
  then show ?case
    by (rule yields_cong) (use x len in \<open>auto simp: block_table_def definitions_ok_append\<close>)
qed

section \<open>Uses, instructions and terminators\<close>

lemma gives_let:
  assumes "gives I f P v" and "P \<Longrightarrow> gives J (g v) Q w" and "\<And>a. I a \<Longrightarrow> \<exists>R x. gives J (g a) R x"
  shows "gives J (\<lambda>er. let (a, er) = f er in g a er) (P \<and> Q) w"
proof -
  have "yields J (\<lambda>er. Option.bind (Some (f er)) (\<lambda>(a, er). Some (g a er))) (P \<and> Q) w"
    by (rule yields_bind [OF assms(1)]) (use assms in auto)
  moreover have "(\<lambda>er. Option.bind (Some (f er)) (\<lambda>(a, er). Some (g a er))) = (\<lambda>er. Some (let (a, er) = f er in g a er))"
    by (auto split: prod.splits)
  ultimately show ?thesis by simp
qed

lemma checks_let:
  assumes "gives I f P v" and "P \<Longrightarrow> checks (g v) Q" and "\<And>a. I a \<Longrightarrow> \<exists>R. checks (g a) R"
  shows "checks (\<lambda>er. let (a, er) = f er in g a er) (P \<and> Q)"
  unfolding checks_def
proof (intro allI impI)
  fix er assume "bounded_errors er"
  then obtain a er' where a: "f er = (a, er')" "bounded_errors er'" "I a" "clean er' \<longleftrightarrow> clean er \<and> P" "clean er' \<longrightarrow> a = v"
    using assms(1) [unfolded yields_def, rule_format, of er] by auto
  obtain R where R: "checks (g a) R" using assms(3) a(3) by blast
  show "bounded_errors (let (a, er) = f er in g a er) \<and> (clean (let (a, er) = f er in g a er) \<longleftrightarrow> clean er \<and> P \<and> Q)"
    using assms(2) a R unfolding checks_def by (cases "clean er'") auto
qed

lemma gives_guard: "gives I f P v \<Longrightarrow> I a \<Longrightarrow> gives I (\<lambda>er. if ce_exhausted er then (a, er) else f er) P v"
  using yields_guard [of I "\<lambda>er. Some (f er)" P v a] by (simp add: if_distrib [of Some])

lemma gives_checks: "checks c P \<Longrightarrow> I v \<Longrightarrow> gives I (\<lambda>er. (v, c er)) P v"
  by (rule yields_checks)

lemma gives_fails: "checks c False \<Longrightarrow> I a \<Longrightarrow> gives I (\<lambda>er. (a, c er)) False v"
  using yields_cong [OF gives_checks [of c False I a]] by blast

lemma gives_seq: "checks c P \<Longrightarrow> gives I f Q v \<Longrightarrow> gives I (\<lambda>er. let er = c er in f er) (P \<and> Q) v"
  unfolding Let_def by (rule yields_seq)

lemma checks_let_seq: "checks c P \<Longrightarrow> checks f Q \<Longrightarrow> checks (\<lambda>er. let er = c er in f er) (P \<and> Q)"
  unfolding Let_def by (rule checks_seq)

lemma checked_use_gives: "gives (\<lambda>_. True) (checked_use v bi position vals sp) (usable vals bi position v) (value_type vals v)"
proof -
  have "gives (\<lambda>_. True) (\<lambda>er. case lookup_value v vals of
           None \<Rightarrow>
             (None, flow_push (flow_error_at ''ZRYNA-I2012'' (Some sp)
               (''operand references unknown value #'' @ show_nat (unat v))
               ''reference one value in the same verified function'') er)
         | Some info \<Rightarrow>
             (Some (vin_ty info),
              flow_push_when (defined_later (vin_location info) bi position)
                (flow_error_at ''ZRYNA-I2013'' (Some sp)
                  (''value #'' @ show_nat (unat v) @ '' is used before its definition'')
                  ''use only earlier instruction results in the same block'') er))
      (usable vals bi position v) (value_type vals v)"
    by (cases "lookup_value v vals")
      (auto simp: usable_def value_type_def intro: gives_fails checks_flow_push gives_checks checks_flow_when)
  from gives_guard [OF this, of None] show ?thesis unfolding checked_use_def [abs_def] by simp
qed

lemma uses_have_types_gives:
  "gives (\<lambda>_. True) (uses_have_types xs bi position vals sp) (scan_ok vals bi position xs)
    (\<forall>(v, ty)\<in>set xs. value_type vals v = Some ty)"
proof (induction xs)
  case Nil
  show ?case using yields_ret [of "\<lambda>_. True" True] by simp
next
  case (Cons x xs)
  obtain v ty where x: "x = (v, ty)" by force
  have g: "\<exists>R y. gives (\<lambda>_. True) (\<lambda>er. if a = Some ty then uses_have_types xs bi position vals sp er else (False, er)) R y" for a
    using Cons.IH yields_ret [of "\<lambda>_. True" False] by (cases "a = Some ty") auto
  have y: "gives (\<lambda>_. True) (\<lambda>er. if value_type vals v = Some ty then uses_have_types xs bi position vals sp er else (False, er))
      (value_type vals v = Some ty \<longrightarrow> scan_ok vals bi position xs) (\<forall>(v, ty)\<in>set (x # xs). value_type vals v = Some ty)"
    using Cons.IH yields_ret [of "\<lambda>_. True" False] x by (cases "value_type vals v = Some ty") auto
  have "gives (\<lambda>_. True) (uses_have_types (x # xs) bi position vals sp)
      (usable vals bi position v \<and> (value_type vals v = Some ty \<longrightarrow> scan_ok vals bi position xs))
      (\<forall>(v, ty)\<in>set (x # xs). value_type vals v = Some ty)"
    unfolding x uses_have_types.simps by (rule gives_let [OF checked_use_gives]) (use y g x in auto)
  then show ?case unfolding x by simp
qed

lemma scan_ok_iff:
  "scan_ok vals bi position xs \<and> (\<forall>(v, ty)\<in>set xs. value_type vals v = Some ty) \<longleftrightarrow>
    (\<forall>(v, ty)\<in>set xs. usable vals bi position v \<and> value_type vals v = Some ty)"
  by (induction xs) auto

lemma expect_values_checks:
  "checks (expect_values operands expected result expected_result bi position vals sp)
    ((\<forall>(v, ty)\<in>set (zip operands expected). usable vals bi position v \<and> value_type vals v = Some ty) \<and> result = expected_result)"
proof -
  let ?v = "\<forall>(v, ty)\<in>set (zip operands expected). value_type vals v = Some ty"
  have "checks (expect_values operands expected result expected_result bi position vals sp)
      (scan_ok vals bi position (zip operands expected) \<and> \<not> (\<not> ?v \<or> result \<noteq> expected_result))"
    unfolding expect_values_def [abs_def]
    by (rule checks_guard, rule checks_let [OF uses_have_types_gives]) (blast intro: checks_guard checks_flow_when)+
  then show ?thesis by (rule checks_cong) (use scan_ok_iff [of vals bi position "zip operands expected"] in blast)
qed

lemma checks_expect_result: "checks (expect_result actual expected sp label) (actual = expected)"
  using checks_guard [OF checks_flow_when [of "actual \<noteq> expected"]] by (simp add: expect_result_def [abs_def])

lemma verify_arguments_checks:
  "checks (verify_arguments xs parameters report bi position vals sp)
    (\<forall>(i, v)\<in>set xs. usable vals bi position v \<and> value_type vals v = get_at parameters i)"
proof (induction xs)
  case Nil
  then show ?case by (simp add: checks_def)
next
  case (Cons x xs)
  obtain i v where x: "x = (i, v)" by force
  have rest: "checks (\<lambda>er. if ce_exhausted er then er else let er = flow_push_when (a \<noteq> get_at parameters i) (report i) er
      in if ce_exhausted er then er else verify_arguments xs parameters report bi position vals sp er)
      (\<not> a \<noteq> get_at parameters i \<and> (\<forall>(i, v)\<in>set xs. usable vals bi position v \<and> value_type vals v = get_at parameters i))" for a
    by (intro checks_guard checks_let_seq checks_flow_when Cons.IH)
  have "checks (verify_arguments (x # xs) parameters report bi position vals sp) (usable vals bi position v \<and>
      (\<not> value_type vals v \<noteq> get_at parameters i \<and> (\<forall>(i, v)\<in>set xs. usable vals bi position v \<and> value_type vals v = get_at parameters i)))"
    unfolding x verify_arguments.simps by (rule checks_let [OF checked_use_gives]) (blast intro: rest)+
  then show ?case by (rule checks_cong) (use x in auto)
qed

lemma verify_equality_checks:
  "checks (verify_equality lhs rhs result bi position vals sp)
    (usable vals bi position lhs \<and> usable vals bi position rhs \<and> result = TyBool \<and> value_type vals lhs = value_type vals rhs)"
proof -
  have right: "checks (\<lambda>er. if ce_exhausted er then er else let (right, er) = checked_use rhs bi position vals sp er
      in if ce_exhausted er then er else flow_push_when (result \<noteq> TyBool \<or> left \<noteq> right) d er)
      (usable vals bi position rhs \<and> \<not> (result \<noteq> TyBool \<or> left \<noteq> value_type vals rhs))" for left d
    by (rule checks_guard, rule checks_let [OF checked_use_gives]) (blast intro: checks_guard checks_flow_when)+
  have "checks (verify_equality lhs rhs result bi position vals sp) (usable vals bi position lhs \<and>
      (usable vals bi position rhs \<and> \<not> (result \<noteq> TyBool \<or> value_type vals lhs \<noteq> value_type vals rhs)))"
    unfolding verify_equality_def [abs_def] by (rule checks_let [OF checked_use_gives]) (blast intro: right)+
  then show ?thesis by (rule checks_cong) blast
qed

lemma verify_call_gives:
  assumes "calls_in sigs calls" "calls_in sigs [(key, key)]"
  shows "gives (calls_in sigs) (verify_call key callee args result bi position vals sigs sp calls)
    ((\<forall>v\<in>set args. usable vals bi position v) \<and>
      callee_signature sigs callee = Some (map (\<lambda>v. the (value_type vals v)) args, result))
    (calls @ [(key, callee_key callee)])"
proof (cases "callee_signature sigs callee")
  case None
  then show ?thesis
    using gives_fails [OF checks_flow_push, of "calls_in sigs" calls] assms(1)
    by (simp add: verify_call_def [abs_def] callee_signature_def)
next
  case (Some sig)
  obtain parameters target_result where sig: "sig = (parameters, target_result)" by force
  let ?calls = "calls @ [(key, callee_key callee)]"
  have I: "calls_in sigs ?calls"
    using assms Some by (auto simp: calls_in_def callee_key_def callee_signature_def get_at_Some_iff bind_eq_Some_conv)
  have "gives (calls_in sigs) (\<lambda>er. if ce_exhausted er then (calls, er) else
      let calls = ?calls;
          er = flow_push_when (length args \<noteq> length parameters \<or> result \<noteq> target_result) d er
      in if ce_exhausted er then (calls, er)
         else (calls, verify_arguments (enumerate 0 args) parameters (call_argument_error sp) bi position vals sp er))
      (\<not> (length args \<noteq> length parameters \<or> result \<noteq> target_result) \<and>
       (\<forall>(i, v)\<in>set (enumerate 0 args). usable vals bi position v \<and> value_type vals v = get_at parameters i)) ?calls" for d
    unfolding Let_def [of ?calls]
    by (intro gives_guard gives_seq checks_flow_when gives_checks verify_arguments_checks I assms(1))
  then have "gives (calls_in sigs) (verify_call key callee args result bi position vals sigs sp calls)
      (\<not> (length args \<noteq> length parameters \<or> result \<noteq> target_result) \<and>
       (\<forall>(i, v)\<in>set (enumerate 0 args). usable vals bi position v \<and> value_type vals v = get_at parameters i)) ?calls"
    using Some sig by (simp add: verify_call_def [abs_def] callee_signature_def callee_key_def cong: if_cong)
  then show ?thesis
  proof (rule yields_cong)
    have args: "(\<forall>(i, v)\<in>set (enumerate 0 args). usable vals bi position v \<and> value_type vals v = get_at parameters i) \<longleftrightarrow>
        (\<forall>v\<in>set args. usable vals bi position v) \<and> (\<forall>i<length args. value_type vals (args ! i) = Some (parameters ! i))"
      if "length args = length parameters"
      using that unfolding ball_enumerate_nth split by (auto simp: get_at_def all_set_conv_all_nth)
    have "(\<forall>i<length args. value_type vals (args ! i) = Some (parameters ! i)) \<longleftrightarrow> map (\<lambda>v. the (value_type vals v)) args = parameters"
      if "length args = length parameters" "\<forall>v\<in>set args. usable vals bi position v"
    proof -
      have "value_type vals v \<noteq> None" if "v \<in> set args" for v
        using \<open>\<forall>v\<in>set args. usable vals bi position v\<close> that by (fastforce simp: usable_def value_type_def split: option.splits)
      then have "value_type vals (args ! i) = Some (parameters ! i) \<longleftrightarrow> the (value_type vals (args ! i)) = parameters ! i"
        if "i < length args" for i
        using that nth_mem [of i args] by (cases "value_type vals (args ! i)") (metis, simp)
      then show ?thesis using that(1) by (simp add: list_eq_iff_nth_eq)
    qed
    then show "(\<not> (length args \<noteq> length parameters \<or> result \<noteq> target_result) \<and>
       (\<forall>(i, v)\<in>set (enumerate 0 args). usable vals bi position v \<and> value_type vals v = get_at parameters i)) =
      ((\<forall>v\<in>set args. usable vals bi position v) \<and>
      callee_signature sigs callee = Some (map (\<lambda>v. the (value_type vals v)) args, result))"
      using Some sig args by (auto dest: arg_cong [where f = length])
  qed simp
qed

lemma verify_instruction_gives:
  assumes "calls_in sigs calls" "calls_in sigs [(key, key)]"
  shows "gives (calls_in sigs) (verify_instruction key bi position ins vals sigs calls)
    (instruction_ok sigs vals bi position ins) (calls @ instruction_calls key ins)"
proof -
  note call = verify_call_gives [OF assms]
  show ?thesis unfolding verify_instruction_def [abs_def]
    apply (rule gives_guard)
    prefer 2 apply (rule assms(1))
    apply (cases "is_kind ins")
                apply (simp_all only: Let_def instruction_kind.case)
                apply (rule yields_cong [OF gives_checks [OF checks_expect_result]] yields_cong [OF gives_checks [OF expect_values_checks]]
        yields_cong [OF gives_checks [OF verify_equality_checks]] yields_cong [OF call],
        auto simp: assms instruction_ok_def instruction_typed_def instruction_calls_def)+
    done
qed

lemma verify_instructions_gives:
  assumes "calls_in sigs [(key, key)]"
  shows "calls_in sigs calls \<Longrightarrow> gives (calls_in sigs) (verify_instructions key bi xs vals sigs calls)
    (\<forall>(position, ins)\<in>set xs. instruction_ok sigs vals bi position ins) (calls @ concat (map (\<lambda>x. instruction_calls key (snd x)) xs))"
proof (induction xs arbitrary: calls)
  case Nil
  then show ?case using yields_ret [of "calls_in sigs" calls] by simp
next
  case (Cons x xs)
  obtain position ins where x: "x = (position, ins)" by force
  have step: "gives (calls_in sigs) (\<lambda>er. if ce_exhausted er then (cs, er) else verify_instructions key bi xs vals sigs cs er)
      (\<forall>(position, ins)\<in>set xs. instruction_ok sigs vals bi position ins) (cs @ concat (map (\<lambda>x. instruction_calls key (snd x)) xs))"
    if "calls_in sigs cs" for cs by (rule gives_guard [OF Cons.IH [OF that] that])
  note one = verify_instruction_gives [OF Cons.prems assms]
  have J: "calls_in sigs (calls @ instruction_calls key ins)" if "instruction_ok sigs vals bi position ins"
    using one [of bi position ins vals] that clean_no_errors unfolding yields_def by metis
  have "gives (calls_in sigs) (verify_instructions key bi (x # xs) vals sigs calls)
      (instruction_ok sigs vals bi position ins \<and> (\<forall>(position, ins)\<in>set xs. instruction_ok sigs vals bi position ins))
      ((calls @ instruction_calls key ins) @ concat (map (\<lambda>x. instruction_calls key (snd x)) xs))"
    unfolding x verify_instructions.simps by (rule gives_let [OF one]) (use step J in blast)+
  then show ?case by (rule yields_cong) (use x in auto)
qed

section \<open>Edges\<close>

lemma arguments_iff:
  "length args = length parameters \<and> (\<forall>(i, v)\<in>set (enumerate 0 args). U v \<and> value_type vals v = get_at parameters i) \<longleftrightarrow>
    (\<forall>v\<in>set args. U v) \<and> map (value_type vals) args = map Some parameters"
proof (cases "length args = length parameters")
  case True
  then show ?thesis unfolding ball_enumerate_nth split by (auto simp: get_at_def all_set_conv_all_nth list_eq_iff_nth_eq)
next
  case False
  then show ?thesis by (auto dest: arg_cong [where f = length])
qed

lemma verify_edge_gives:
  assumes I: "edges_in (length (ff_blocks f)) edges" and s: "source < length (ff_blocks f)"
  shows "gives (edges_in (length (ff_blocks f))) (verify_edge key source target args f vals sp edges)
    (edge_ok f vals source target args) (edges @ [\<lparr>eg_source = source, eg_target = unat target, eg_arguments = args\<rparr>])"
proof (cases "unat target < length (ff_blocks f)")
  case False
  then show ?thesis
    using gives_guard [OF gives_fails [OF checks_flow_push], of "edges_in (length (ff_blocks f))" edges edges] I
    by (simp add: verify_edge_def [abs_def] edge_ok_def cong: if_cong)
next
  case True
  let ?new = "edges @ [\<lparr>eg_source = source, eg_target = unat target, eg_arguments = args\<rparr>]"
  let ?ps = "bk_parameters (ff_blocks f ! unat target)" and ?pos = "length (bk_instructions (ff_blocks f ! source))"
  have J: "edges_in (length (ff_blocks f)) ?new" using I s True by (auto simp: edges_in_def)
  have "gives (edges_in (length (ff_blocks f))) (\<lambda>er. if ce_exhausted er then (edges, er) else
      let er = flow_push_when (unat target = 0) d1 er
      in if ce_exhausted er then (edges, er) else
           let er = flow_push_when (length args \<noteq> length ?ps) d2 er
           in if ce_exhausted er then (edges, er) else
                let er = verify_arguments (enumerate 0 args) (map fv_ty ?ps) (block_argument_error sp) source ?pos vals sp er
                in if ce_exhausted er then (edges, er) else (?new, er))
      (unat target \<noteq> 0 \<and> \<not> length args \<noteq> length ?ps \<and>
       (\<forall>(i, v)\<in>set (enumerate 0 args). usable vals source ?pos v \<and> value_type vals v = get_at (map fv_ty ?ps) i) \<and> True) ?new" for d1 d2
    by (intro gives_guard gives_seq checks_flow_when verify_arguments_checks yields_ret I J)
  then have "gives (edges_in (length (ff_blocks f))) (verify_edge key source target args f vals sp edges)
      (unat target \<noteq> 0 \<and> \<not> length args \<noteq> length ?ps \<and>
       (\<forall>(i, v)\<in>set (enumerate 0 args). usable vals source ?pos v \<and> value_type vals v = get_at (map fv_ty ?ps) i) \<and> True) ?new"
    using True unfolding verify_edge_def [abs_def] by (simp add: Let_def cong: if_cong)
  then show ?thesis
    by (rule yields_cong)
      (use True arguments_iff [of args "map fv_ty ?ps" "usable vals source ?pos" vals] in \<open>simp_all add: edge_ok_def comp_def\<close>)
qed

lemma verify_terminator_gives:
  assumes I: "edges_in (length (ff_blocks f)) edges" and s: "bi < length (ff_blocks f)"
  shows "gives (edges_in (length (ff_blocks f))) (verify_terminator key bi f t vals edges)
    (terminator_ok f vals bi (st_kind t)) (edges @ terminator_edges bi (st_kind t))"
proof -
  let ?n = "length (ff_blocks f)" and ?pos = "length (bk_instructions (ff_blocks f ! bi))"
  have body: "gives (edges_in ?n) (\<lambda>er. let position = ?pos; sp = st_span t
         in case st_kind t of
              TmReturn v \<Rightarrow>
                (let (actual, er) = checked_use v bi position vals sp er
                 in if ce_exhausted er then (edges, er)
                    else
                      (edges, flow_push_when (actual \<noteq> Some (ff_result f))
                        (flow_error_at ''ZRYNA-I2014'' (Some sp) ''return value has the wrong type''
                          ''return one value of the exact function result type'') er))
            | TmJump target arguments \<Rightarrow> verify_edge key bi target arguments f vals sp edges er
            | TmBranch condition true_target true_arguments false_target false_arguments \<Rightarrow>
                (let (actual, er) = checked_use condition bi position vals sp er;
                     er = flow_push_when (actual \<noteq> Some TyBool)
                       (flow_error_at ''ZRYNA-I2015'' (Some sp) ''branch condition is not bool''
                         ''branch only on an exact bool value'') er
                 in if ce_exhausted er then (edges, er)
                    else
                      (let (edges, er) = verify_edge key bi true_target true_arguments f vals sp edges er
                       in if ce_exhausted er then (edges, er)
                          else verify_edge key bi false_target false_arguments f vals sp edges er)))
    (terminator_ok f vals bi (st_kind t)) (edges @ terminator_edges bi (st_kind t))"
  proof (cases "st_kind t")
    case (TmReturn v)
    have ret: "gives (edges_in ?n) (\<lambda>er. if ce_exhausted er then (edges, er) else (edges, flow_push_when c d er)) (\<not> c) edges" for c d
      by (intro gives_guard gives_checks checks_flow_when I)
    have "gives (edges_in ?n) (\<lambda>er. let (actual, er) = checked_use v bi ?pos vals sp er
        in if ce_exhausted er then (edges, er) else (edges, flow_push_when (actual \<noteq> Some (ff_result f)) d er))
        (usable vals bi ?pos v \<and> \<not> value_type vals v \<noteq> Some (ff_result f)) edges" for sp d
      by (rule gives_let [OF checked_use_gives]) (use ret in blast)+
    then show ?thesis unfolding TmReturn by (simp add: Let_def)
  next
    case (TmJump target args)
    then show ?thesis using verify_edge_gives [OF I s] by simp
  next
    case (TmBranch c t1 ts e1 es)
    let ?mid = "edges @ [\<lparr>eg_source = bi, eg_target = unat t1, eg_arguments = ts\<rparr>]"
    let ?both = "?mid @ [\<lparr>eg_source = bi, eg_target = unat e1, eg_arguments = es\<rparr>]"
    have second: "gives (edges_in ?n) (\<lambda>er. if ce_exhausted er then (a, er) else verify_edge key bi e1 es f vals sp a er)
        (edge_ok f vals bi e1 es) (a @ [\<lparr>eg_source = bi, eg_target = unat e1, eg_arguments = es\<rparr>])" if "edges_in ?n a" for a sp
      by (rule gives_guard [OF verify_edge_gives [OF that s] that])
    have mid: "edges_in ?n ?mid" if "edge_ok f vals bi t1 ts" using that I s by (auto simp: edges_in_def edge_ok_def)
    have first: "gives (edges_in ?n) (\<lambda>er. let (edges, er) = verify_edge key bi t1 ts f vals sp edges er
        in if ce_exhausted er then (edges, er) else verify_edge key bi e1 es f vals sp edges er)
        (edge_ok f vals bi t1 ts \<and> edge_ok f vals bi e1 es) ?both" for sp
      by (rule gives_let [OF verify_edge_gives [OF I s]]) (use second mid in blast)+
    have rest: "gives (edges_in ?n) (\<lambda>er. let er = flow_push_when (a \<noteq> Some TyBool) d er
        in if ce_exhausted er then (edges, er) else
        (let (edges, er) = verify_edge key bi t1 ts f vals sp edges er
         in if ce_exhausted er then (edges, er) else verify_edge key bi e1 es f vals sp edges er))
        (\<not> a \<noteq> Some TyBool \<and> (edge_ok f vals bi t1 ts \<and> edge_ok f vals bi e1 es)) ?both" for a d sp
      by (rule gives_seq [OF checks_flow_when], rule gives_guard [OF first I])
    have "gives (edges_in ?n) (\<lambda>er. let (actual, er) = checked_use c bi ?pos vals sp er in
        (let er = flow_push_when (actual \<noteq> Some TyBool) d er
        in if ce_exhausted er then (edges, er) else
        (let (edges, er) = verify_edge key bi t1 ts f vals sp edges er
         in if ce_exhausted er then (edges, er) else verify_edge key bi e1 es f vals sp edges er)))
        (usable vals bi ?pos c \<and> (\<not> value_type vals c \<noteq> Some TyBool \<and> (edge_ok f vals bi t1 ts \<and> edge_ok f vals bi e1 es))) ?both"
      for d sp
      by (rule gives_let [OF checked_use_gives]) (use rest in blast)+
    then show ?thesis unfolding TmBranch terminator.case Let_def [of ?pos] Let_def [of "st_span t"] by simp
  qed
  show ?thesis unfolding verify_terminator_def [abs_def] by (rule gives_guard [OF body I])
qed

lemma pack_simps [simp]:
  "pack (a, b, c) = ((a, b), c)"
  "pack (if P then x else y) = (if P then pack x else pack y)"
  "pack (case p of (u, v) \<Rightarrow> g u v) = (case p of (u, v) \<Rightarrow> pack (g u v))"
  by (simp_all add: pack_def split: prod.split)

lemma verify_blocks_gives:
  assumes k: "calls_in sigs [(key, key)]"
  shows "\<forall>x\<in>set bs. fst x < length (ff_blocks f) \<and> ff_blocks f ! fst x = snd x \<Longrightarrow> calls_in sigs calls \<Longrightarrow>
    edges_in (length (ff_blocks f)) edges \<Longrightarrow>
    gives (\<lambda>(c, e). calls_in sigs c \<and> edges_in (length (ff_blocks f)) e) (\<lambda>er. pack (verify_blocks key f bs vals sigs calls edges er))
      (\<forall>(bi, b)\<in>set bs. block_ok sigs f vals bi b)
      (calls @ concat (map (block_call_edges key) bs), edges @ concat (map block_graph bs))"
proof (induction bs arbitrary: calls edges)
  case Nil
  then show ?case
    using yields_ret [of "\<lambda>(c, e). calls_in sigs c \<and> edges_in (length (ff_blocks f)) e" "(calls, edges)"] by (simp add: pack_def)
next
  case (Cons x bs)
  obtain bi b where x: "x = (bi, b)" by force
  let ?n = "length (ff_blocks f)" let ?J = "\<lambda>(c, e). calls_in sigs c \<and> edges_in (length (ff_blocks f)) e"
  have bi: "bi < ?n" "ff_blocks f ! bi = b" using Cons.prems(1) x by auto
  have next': "gives ?J (\<lambda>er. pack (if ce_exhausted er then (cs, es, er) else verify_blocks key f bs vals sigs cs es er))
      (\<forall>(bi, b)\<in>set bs. block_ok sigs f vals bi b) (cs @ concat (map (block_call_edges key) bs), es @ concat (map block_graph bs))"
    if c: "calls_in sigs cs" "edges_in ?n es" for cs es
  proof -
    have "gives ?J (\<lambda>er. if ce_exhausted er then ((cs, es), er) else pack (verify_blocks key f bs vals sigs cs es er))
      (\<forall>(bi, b)\<in>set bs. block_ok sigs f vals bi b) (cs @ concat (map (block_call_edges key) bs), es @ concat (map block_graph bs))"
      by (rule gives_guard) (use Cons.IH c Cons.prems(1) in auto)
    then show ?thesis by (simp cong: if_cong)
  qed
  let ?rest = "\<lambda>cs er. if ce_exhausted er then (cs, edges, er)
         else
           (case bk_terminators b of
              [t] \<Rightarrow>
                (let (edges, er) = verify_terminator key bi f t vals edges er
                 in if ce_exhausted er then (cs, edges, er)
                    else verify_blocks key f bs vals sigs cs edges er)
            | ts \<Rightarrow>
                (let er = flow_push (flow_error ''ZRYNA-I2007''
                       (key_label ''function'' (fk_module key) (fk_function key) @ '' block #'' @ show_nat bi @ '' has '' @
                        show_nat (length ts) @ '' terminators; expected exactly one'')
                       ''emit exactly one return, jump, or branch terminator'') er
                 in if ce_exhausted er then (cs, edges, er)
                    else verify_blocks key f bs vals sigs cs edges er))"
  let ?err = "\<lambda>n. flow_error ''ZRYNA-I2007''
      (key_label ''function'' (fk_module key) (fk_function key) @ '' block #'' @ show_nat bi @ '' has '' @
       show_nat n @ '' terminators; expected exactly one'') ''emit exactly one return, jump, or branch terminator''"
  have rest: "gives ?J (\<lambda>er. pack (?rest cs er))
      ((\<exists>t. bk_terminators b = [t] \<and> terminator_ok f vals bi (st_kind t)) \<and> (\<forall>(bi, b)\<in>set bs. block_ok sigs f vals bi b))
      (cs @ concat (map (block_call_edges key) bs), edges @ block_graph x @ concat (map block_graph bs))"
    if c: "calls_in sigs cs" for cs
  proof (cases "\<exists>t. bk_terminators b = [t]")
    case True
    then obtain t where t: "bk_terminators b = [t]" by blast
    have mid: "edges_in ?n (edges @ terminator_edges bi (st_kind t))" if "terminator_ok f vals bi (st_kind t)"
      using that Cons.prems(3) bi by (cases "st_kind t") (auto simp: edges_in_def edge_ok_def)
    have "gives ?J (\<lambda>er. let (es, er) = verify_terminator key bi f t vals edges er in
        pack (if ce_exhausted er then (cs, es, er) else verify_blocks key f bs vals sigs cs es er))
        (terminator_ok f vals bi (st_kind t) \<and> (\<forall>(bi, b)\<in>set bs. block_ok sigs f vals bi b))
        (cs @ concat (map (block_call_edges key) bs), (edges @ terminator_edges bi (st_kind t)) @ concat (map block_graph bs))"
      by (rule gives_let [OF verify_terminator_gives [OF Cons.prems(3) bi(1)]]) (use next' [OF c] mid in blast)+
    from gives_guard [OF this, of "(cs, edges)"]
    show ?thesis using t c Cons.prems(3) x
      by (simp add: block_graph_def Let_def cong: if_cong)
  next
    case False
    then consider (none) "bk_terminators b = []" | (many) t u ts where "bk_terminators b = t # u # ts"
      by (metis list.exhaust)
    then have eq: "\<exists>d. \<forall>er. pack (?rest cs er) = (if ce_exhausted er then ((cs, edges), er) else
        (let er = flow_push d er in pack (if ce_exhausted er then (cs, edges, er) else verify_blocks key f bs vals sigs cs edges er)))"
    proof cases
      case none
      show ?thesis unfolding none list.case pack_simps Let_def by (rule exI [of _ "?err 0"]) simp
    next
      case many
      show ?thesis unfolding many list.case pack_simps Let_def by (rule exI [of _ "?err (Suc (Suc (length ts)))"]) simp
    qed
    have "gives ?J (\<lambda>er. if ce_exhausted er then ((cs, edges), er) else
       (let er = flow_push d er in pack (if ce_exhausted er then (cs, edges, er) else verify_blocks key f bs vals sigs cs edges er)))
       (False \<and> (\<forall>(bi, b)\<in>set bs. block_ok sigs f vals bi b)) (cs @ concat (map (block_call_edges key) bs), edges @ concat (map block_graph bs))" for d
      by (rule gives_guard, rule gives_seq [OF checks_flow_push], rule next') (use c Cons.prems(3) in auto)
    note bad = this
    from eq obtain d where d: "\<And>er. pack (?rest cs er) = (if ce_exhausted er then ((cs, edges), er) else
        (let er = flow_push d er in pack (if ce_exhausted er then (cs, edges, er) else verify_blocks key f bs vals sigs cs edges er)))"
      by blast
    show ?thesis unfolding d by (rule yields_cong [OF bad]) (use False in auto)
  qed
  note one = verify_instructions_gives [OF k Cons.prems(2), of bi "enumerate 0 (bk_instructions b)" vals]
  have J: "calls_in sigs (calls @ concat (map (\<lambda>x. instruction_calls key (snd x)) (enumerate 0 (bk_instructions b))))"
    if "\<forall>(position, ins)\<in>set (enumerate 0 (bk_instructions b)). instruction_ok sigs vals bi position ins"
    using one that clean_no_errors unfolding yields_def by metis
  have calls: "concat (map (\<lambda>x. instruction_calls key (snd x)) (enumerate 0 (bk_instructions b))) = block_call_edges key x"
    using x map_snd_enumerate [of 0 "bk_instructions b"] by (simp add: block_call_edges_def flip: map_map [unfolded comp_def])
  have "gives ?J (\<lambda>er. let (cs, er) = verify_instructions key bi (enumerate 0 (bk_instructions b)) vals sigs calls er in pack (?rest cs er))
      ((\<forall>(position, ins)\<in>set (enumerate 0 (bk_instructions b)). instruction_ok sigs vals bi position ins) \<and>
       ((\<exists>t. bk_terminators b = [t] \<and> terminator_ok f vals bi (st_kind t)) \<and> (\<forall>(bi, b)\<in>set bs. block_ok sigs f vals bi b)))
      ((calls @ concat (map (\<lambda>x. instruction_calls key (snd x)) (enumerate 0 (bk_instructions b)))) @ concat (map (block_call_edges key) bs),
       edges @ block_graph x @ concat (map block_graph bs))"
    by (rule gives_let [OF one]) (use rest J in blast)+
  then have "gives ?J (\<lambda>er. pack (verify_blocks key f (x # bs) vals sigs calls edges er))
      ((\<forall>(position, ins)\<in>set (enumerate 0 (bk_instructions b)). instruction_ok sigs vals bi position ins) \<and>
       ((\<exists>t. bk_terminators b = [t] \<and> terminator_ok f vals bi (st_kind t)) \<and> (\<forall>(bi, b)\<in>set bs. block_ok sigs f vals bi b)))
      ((calls @ concat (map (\<lambda>x. instruction_calls key (snd x)) (enumerate 0 (bk_instructions b)))) @ concat (map (block_call_edges key) bs),
       edges @ block_graph x @ concat (map block_graph bs))"
    unfolding x verify_blocks.simps Let_def pack_simps .
  then show ?case
    by (rule yields_cong) (use x calls in \<open>auto simp: block_ok_def ball_enumerate_nth\<close>)
qed
end
