(* ===== verification/Flow_Graph_Facts.thy ===== *)
theory Flow_Graph_Facts
  imports Flow_Graph
begin

text \<open>
  What the graph algorithms of the control-flow verifier compute. Reachability marks exactly the blocks that a walk
  from the entry reaches. The rounds of Cooper, Harvey and Kennedy always end within the bound of the code (one
  round per block): during round \<open>k\<close> the chain of a block in the tree stands between its dominators and the
  blocks on every walk with fewer than \<open>k\<close> retreating edges, and no walk without repetition has that many. The
  entry and exit times then decide dominance. Topological counting visits everything exactly on acyclic
  graphs, its depths are the lengths of the longest paths, and loop membership is backward reachability.
\<close>

section \<open>Specification vocabulary\<close>

definition graph_rel :: "usize list list \<Rightarrow> (usize \<times> usize) set" where
  "graph_rel succs = {(a, b). a < length succs \<and> b \<in> set (succs ! a)}"

definition wf_graph :: "usize list list \<Rightarrow> bool" where
  "wf_graph succs = (\<forall>a<length succs. \<forall>b\<in>set (succs ! a). b < length succs)"

definition converse_graph :: "usize list list \<Rightarrow> usize list list \<Rightarrow> bool" where
  "converse_graph succs preds =
     (length preds = length succs \<and>
      (\<forall>a<length succs. \<forall>b<length succs. a \<in> set (preds ! b) \<longleftrightarrow> b \<in> set (succs ! a)) \<and>
      wf_graph preds)"

definition walk :: "usize list list \<Rightarrow> usize list \<Rightarrow> bool" where
  "walk succs p = (p \<noteq> [] \<and> hd p = 0 \<and> successively (\<lambda>a b. (a, b) \<in> graph_rel succs) p)"

definition reachable_block :: "usize list list \<Rightarrow> usize \<Rightarrow> bool" where
  "reachable_block succs b = ((0, b) \<in> (graph_rel succs)\<^sup>*)"

definition dominator :: "usize list list \<Rightarrow> usize \<Rightarrow> usize \<Rightarrow> bool" where
  "dominator succs a b = (\<forall>p. walk succs p \<and> last p = b \<longrightarrow> a \<in> set p)"

definition marked :: "bool list \<Rightarrow> usize set" where
  "marked marks = {b. b < length marks \<and> marks ! b}"

definition later_in :: "'a list \<Rightarrow> 'a \<Rightarrow> 'a \<Rightarrow> bool" where
  "later_in xs b p = (\<exists>us vs. xs = us @ vs \<and> b \<in> set us \<and> p \<in> set vs)"

definition order_inv :: "usize list list \<Rightarrow> (usize \<times> usize) list \<Rightarrow> bool list \<Rightarrow> usize list \<Rightarrow> bool" where
  "order_inv succs stack visited order =
     (length visited = length succs \<and> distinct (order @ map fst stack) \<and>
      marked visited = set order \<union> fst ` set stack \<and> (\<forall>x\<in>set stack. fst x < length succs) \<and>
      (if stack = [] then order \<noteq> [] \<and> last order = 0 else fst (last stack) = 0) \<and>
      successively (\<lambda>x y. (fst y, fst x) \<in> graph_rel succs) stack \<and>
      (\<forall>b\<in>set order. b = 0 \<or> (\<exists>p. (p, b) \<in> graph_rel succs \<and> (p \<in> fst ` set stack \<or> later_in order b p))) \<and>
      (\<forall>x\<in>set stack. set (take (snd x) (succs ! fst x)) \<subseteq> set order \<union> fst ` set stack) \<and>
      (\<forall>a\<in>set order. set (succs ! a) \<subseteq> set order \<union> fst ` set stack))"

text \<open>What the rounds need of the reverse postorder.\<close>

definition block_order :: "usize list list \<Rightarrow> usize list \<Rightarrow> bool" where
  "block_order succs order =
     (distinct order \<and> set order = {..<length succs} \<and> order \<noteq> [] \<and> hd order = 0 \<and>
      (\<forall>b\<in>set order. b = 0 \<or> (\<exists>p. (p, b) \<in> graph_rel succs \<and> later_in order p b)))"

text \<open>A table of immediate dominators is a tree over the blocks that have an entry: every step up lowers the position.\<close>

definition defined_block :: "usize list \<Rightarrow> usize \<Rightarrow> bool" where
  "defined_block idom b = (b < length idom \<and> idom ! b \<noteq> usize_max)"

definition dom_tree :: "usize list \<Rightarrow> usize list \<Rightarrow> bool" where
  "dom_tree position idom =
     (length position = length idom \<and> idom \<noteq> [] \<and> idom ! 0 = 0 \<and> length idom \<le> usize_max \<and> position ! 0 = 0 \<and>
      inj_on ((!) position) {..<length idom} \<and>
      (\<forall>b. defined_block idom b \<and> b \<noteq> 0 \<longrightarrow> defined_block idom (idom ! b) \<and> position ! (idom ! b) < position ! b))"

definition chain :: "usize list \<Rightarrow> usize \<Rightarrow> usize set" where
  "chain idom b = {c. (b, c) \<in> {(x, idom ! x) | x. defined_block idom x}\<^sup>*}"

definition tree_update :: "usize list \<Rightarrow> usize list \<Rightarrow> usize \<Rightarrow> usize \<Rightarrow> bool" where
  "tree_update position idom b c =
     (dom_tree position idom \<and> b < length idom \<and> b \<noteq> 0 \<and> defined_block idom c \<and> position ! c < position ! b)"

fun retreats :: "usize list \<Rightarrow> usize list \<Rightarrow> nat" where
  "retreats position (a # b # p) = (if position ! b \<le> position ! a then 1 else 0) + retreats position (b # p)"
| "retreats position _ = 0"

definition dominator_within :: "usize list \<Rightarrow> usize list list \<Rightarrow> nat \<Rightarrow> usize \<Rightarrow> usize \<Rightarrow> bool" where
  "dominator_within position succs k a b =
     (\<forall>p. walk succs p \<and> last p = b \<and> retreats position p < k \<longrightarrow> a \<in> set p)"

text \<open>
  During pass \<open>k\<close> every entry stands between the dominators, which stay on its chain, and the blocks on all walks
  with fewer than \<open>k\<close> retreating edges (fewer than \<open>k - 1\<close> for the blocks still to be visited).
\<close>

definition pass_level :: "nat \<Rightarrow> usize list \<Rightarrow> usize \<Rightarrow> nat" where
  "pass_level k rest b = (if b \<in> set rest then max 1 (k - 1) else k)"

definition pass_inv :: "usize list list \<Rightarrow> usize list \<Rightarrow> nat \<Rightarrow> usize list \<Rightarrow> usize list \<Rightarrow> bool" where
  "pass_inv succs position k rest idom =
     (dom_tree position idom \<and> length idom = length succs \<and> 0 < k \<and> 0 \<notin> set rest \<and>
      (\<forall>b<length succs. b \<notin> set rest \<or> 1 < k \<longrightarrow> defined_block idom b) \<and>
      (\<forall>b c. defined_block idom b \<and> dominator succs c b \<longrightarrow> c \<in> chain idom b) \<and>
      (\<forall>b. defined_block idom b \<longrightarrow> (\<forall>c\<in>chain idom b. dominator_within position succs (pass_level k rest b) c b)))"

text \<open>The position table of a \<open>block_order\<close>: every block other than the entry has a predecessor before it.\<close>

definition ordered_graph :: "usize list list \<Rightarrow> usize list \<Rightarrow> bool" where
  "ordered_graph succs position =
     (wf_graph succs \<and> succs \<noteq> [] \<and>
      (\<forall>b<length succs. b \<noteq> 0 \<longrightarrow> (\<exists>p. (p, b) \<in> graph_rel succs \<and> position ! p < position ! b)))"

text \<open>The entry that the code computes for a block.\<close>

definition pass_candidate :: "usize list list \<Rightarrow> usize list \<Rightarrow> usize \<Rightarrow> usize \<Rightarrow> bool" where
  "pass_candidate succs idom b m =
     (defined_block idom m \<and>
      chain idom m = (\<Inter>p\<in>{p. (p, b) \<in> graph_rel succs \<and> defined_block idom p}. chain idom p))"

text \<open>The blocks still to be visited in a pass are the blocks from some position on, in order.\<close>

definition pass_rest :: "usize list list \<Rightarrow> usize list \<Rightarrow> usize list \<Rightarrow> bool" where
  "pass_rest succs position rest =
     (set rest \<subseteq> {..<length succs} \<and> distinct rest \<and> sorted_wrt (\<lambda>x y. position ! x < position ! y) rest \<and>
      (\<forall>x<length succs. \<forall>y\<in>set rest. x \<notin> set rest \<longrightarrow> position ! x < position ! y))"

definition exact_tree :: "usize list list \<Rightarrow> usize list \<Rightarrow> usize list \<Rightarrow> bool" where
  "exact_tree succs position idom =
     (dom_tree position idom \<and> length idom = length succs \<and>
      (\<forall>b<length succs. defined_block idom b \<and> chain idom b = {c. dominator succs c b}))"

definition full_tree :: "usize list \<Rightarrow> usize list \<Rightarrow> bool" where
  "full_tree position idom = (dom_tree position idom \<and> (\<forall>b<length idom. defined_block idom b))"

definition subtree :: "usize list \<Rightarrow> usize \<Rightarrow> usize set" where
  "subtree idom t = {x. x < length idom \<and> t \<in> chain idom x}"

definition siblings :: "usize list \<Rightarrow> usize \<Rightarrow> usize list" where
  "siblings idom t = filter (\<lambda>b. idom ! b = t) [1..<length idom]"

text \<open>The times given to a set of blocks between two values of the clock reflect the chains among them.\<close>

definition toured :: "usize list \<Rightarrow> usize set \<Rightarrow> usize list \<times> usize list \<Rightarrow> usize list \<times> usize list \<Rightarrow> usize \<Rightarrow> usize \<Rightarrow> bool" where
  "toured idom S old new c c' =
     (length (fst new) = length (fst old) \<and> length (snd new) = length (snd old) \<and> c \<le> c' \<and>
      (\<forall>x. x \<notin> S \<longrightarrow> fst new ! x = fst old ! x \<and> snd new ! x = snd old ! x) \<and>
      (\<forall>x\<in>S. c \<le> fst new ! x \<and> fst new ! x < snd new ! x \<and> snd new ! x < c') \<and>
      (\<forall>x\<in>S. \<forall>y\<in>S. dominates (fst new) (snd new) x y \<longleftrightarrow> x \<in> chain idom y))"

definition topo_counts :: "nat \<Rightarrow> usize list \<Rightarrow> usize list \<Rightarrow> usize list \<Rightarrow> bool" where
  "topo_counts n fin queue indegree =
     (length indegree = n \<and> distinct (fin @ queue) \<and> set (fin @ queue) \<subseteq> {..<n} \<and>
      (\<forall>t<n. t \<in> set (fin @ queue) \<longleftrightarrow> indegree ! t = 0))"

text \<open>The loop has finished the blocks \<open>fin\<close>; the counters hold the edges that come from the others.\<close>

definition graph_path :: "usize list list \<Rightarrow> usize list \<Rightarrow> bool" where
  "graph_path succs p = (p \<noteq> [] \<and> set p \<subseteq> {..<length succs} \<and> successively (\<lambda>a b. (a, b) \<in> graph_rel succs) p)"

definition kahn_inv :: "usize list list \<Rightarrow> usize list \<Rightarrow> usize list \<Rightarrow> usize list \<Rightarrow> usize list \<Rightarrow> bool" where
  "kahn_inv succs fin queue depth indegree =
     (topo_counts (length succs) fin queue indegree \<and> length depth = length succs \<and>
      (\<forall>t<length succs. indegree ! t = (\<Sum>u\<in>{..<length succs} - set fin. count_list (succs ! u) t)) \<and>
      (\<forall>u\<in>set fin. \<forall>t\<in>set (succs ! u). depth ! u < depth ! t) \<and>
      (\<forall>t<length succs. \<exists>p. graph_path succs p \<and> last p = t \<and> length p = depth ! t))"

definition degree_table :: "usize list list \<Rightarrow> usize list \<Rightarrow> bool" where
  "degree_table succs indegree =
     (length indegree = length succs \<and>
      (\<forall>t<length succs. indegree ! t = (\<Sum>u\<in>{..<length succs}. count_list (succs ! u) t)))"

definition loop_rel :: "usize list list \<Rightarrow> usize \<Rightarrow> (usize \<times> usize) set" where
  "loop_rel succs header = {(p, x). (p, x) \<in> graph_rel succs \<and> p \<noteq> header \<and> x \<noteq> header}"

definition pred_table :: "usize list list \<Rightarrow> usize list list \<Rightarrow> bool" where
  "pred_table succs preds =
     (length preds = length succs \<and> (\<forall>b<length succs. \<forall>p. p \<in> set (preds ! b) \<longleftrightarrow> (p, b) \<in> graph_rel succs))"

definition loop_closed :: "usize list list \<Rightarrow> usize \<Rightarrow> bool list \<Rightarrow> usize list \<Rightarrow> bool" where
  "loop_closed succs header members stack =
     (\<forall>p x. (p, x) \<in> loop_rel succs header \<and> x \<in> marked members \<longrightarrow> p \<in> marked members \<union> set stack)"

section \<open>Graphs, reachability and dominance\<close>

lemma graph_rel_iff: "(a, b) \<in> graph_rel succs \<longleftrightarrow> a < length succs \<and> b \<in> set (succs ! a)"
  by (simp add: graph_rel_def)

lemma wf_graph_rel: "wf_graph succs \<Longrightarrow> (a, b) \<in> graph_rel succs \<Longrightarrow> a < length succs \<and> b < length succs"
  by (auto simp: graph_rel_def wf_graph_def)

lemma walk_single: "walk succs [0]"
  by (simp add: walk_def)

lemma walk_snoc: "walk succs p \<Longrightarrow> (last p, b) \<in> graph_rel succs \<Longrightarrow> walk succs (p @ [b])"
  by (auto simp: walk_def successively_append_iff)

lemma walk_butlast:
  assumes "walk succs (p @ [a, b])"
  shows "walk succs (p @ [a])" "(a, b) \<in> graph_rel succs"
  using assms by (auto simp: walk_def successively_append_iff hd_append split: if_splits)

lemma reachable_walk: "reachable_block succs b \<longleftrightarrow> (\<exists>p. walk succs p \<and> last p = b)"
proof
  assume "reachable_block succs b"
  then have "(0, b) \<in> (graph_rel succs)\<^sup>*" by (simp add: reachable_block_def)
  then show "\<exists>p. walk succs p \<and> last p = b"
  proof (induction rule: rtrancl_induct)
    case base
    then show ?case using walk_single by (intro exI [of _ "[0]"]) simp
  next
    case (step y z)
    then obtain p where "walk succs p" "last p = y" by blast
    then show ?case using step walk_snoc by (intro exI [of _ "p @ [z]"]) simp
  qed
next
  assume "\<exists>p. walk succs p \<and> last p = b"
  then obtain p where "walk succs p" "last p = b" by blast
  then show "reachable_block succs b"
  proof (induction p arbitrary: b rule: rev_induct)
    case (snoc x p)
    show ?case
    proof (cases p rule: rev_cases)
      case Nil
      then show ?thesis using snoc.prems by (simp add: walk_def reachable_block_def)
    next
      case (snoc q a)
      have "walk succs (q @ [a])" "(a, x) \<in> graph_rel succs"
        using walk_butlast [of succs q a x] snoc.prems snoc by simp_all
      then have "(0, a) \<in> (graph_rel succs)\<^sup>*" using snoc.IH [of a] snoc by (simp add: reachable_block_def)
      then show ?thesis using \<open>(a, x) \<in> graph_rel succs\<close> snoc.prems by (simp add: reachable_block_def)
    qed
  qed (simp add: walk_def)
qed

lemma closed_reachable_blocks:
  assumes "0 \<in> S" and "\<And>a b. a \<in> S \<Longrightarrow> (a, b) \<in> graph_rel succs \<Longrightarrow> b \<in> S" and "reachable_block succs b"
  shows "b \<in> S"
  using assms(3) unfolding reachable_block_def
  by (induction rule: rtrancl_induct) (use assms in auto)

section \<open>The reachability loop\<close>

lemma marked_update [simp]: "b < length marks \<Longrightarrow> marked (marks[b := True]) = insert b (marked marks)"
  by (auto simp: marked_def nth_list_update)

lemma marked_replicate [simp]: "marked (replicate n False) = {}"
  by (auto simp: marked_def)

lemma reachable_loop_spec:
  assumes "wf_graph succs" and "length reached = length succs" and "\<forall>b\<in>set stack. b < length succs"
    and "\<forall>b\<in>set stack. reachable_block succs b" and "\<forall>b\<in>marked reached. reachable_block succs b"
    and "\<forall>a b. a \<in> marked reached \<and> (a, b) \<in> graph_rel succs \<longrightarrow> b \<in> marked reached \<union> set stack"
  shows "\<exists>reached'. reachable_loop succs stack reached = Some reached' \<and> length reached' = length succs \<and>
    marked reached \<union> set stack \<subseteq> marked reached' \<and> (\<forall>b\<in>marked reached'. reachable_block succs b) \<and>
    (\<forall>a b. a \<in> marked reached' \<and> (a, b) \<in> graph_rel succs \<longrightarrow> b \<in> marked reached')"
  using assms
proof (induction succs stack reached rule: reachable_loop.induct)
  case (1 succs reached)
  then show ?case by auto
next
  case (2 succs b stack reached)
  have b: "b < length succs" "b < length reached" using "2.prems" by auto
  then have gr: "get_at reached b = Some (reached ! b)" by (simp add: get_at_def)
  show ?case
  proof (cases "reached ! b")
    case True
    then have g: "get_at reached b = Some True" using gr by simp
    have "b \<in> marked reached" using True b by (simp add: marked_def)
    then show ?thesis using "2.IH"(1) [OF g] "2.prems" g by (auto simp: insert_absorb)
  next
    case False
    then have g: "get_at reached b = Some False" using gr by simp
    have gs: "get_at succs b = Some (succs ! b)" using b by (simp add: get_at_def)
    have rb: "reachable_block succs b" using "2.prems"(4) by simp
    have rs: "reachable_block succs t" if "t \<in> set (succs ! b)" for t
      using rb that b by (auto simp: reachable_block_def graph_rel_iff intro: rtrancl_into_rtrancl)
    have "\<exists>reached'. reachable_loop succs (succs ! b @ stack) (reached[b := True]) = Some reached' \<and>
        length reached' = length succs \<and>
        marked (reached[b := True]) \<union> set (succs ! b @ stack) \<subseteq> marked reached' \<and>
        (\<forall>b\<in>marked reached'. reachable_block succs b) \<and>
        (\<forall>a b. a \<in> marked reached' \<and> (a, b) \<in> graph_rel succs \<longrightarrow> b \<in> marked reached')"
    proof (rule "2.IH"(2) [OF g _ gs])
      show "\<forall>c\<in>set (succs ! b @ stack). c < length succs" using "2.prems"(1,3) b by (auto simp: wf_graph_def)
      show "\<forall>c\<in>set (succs ! b @ stack). reachable_block succs c" using "2.prems"(4) rs by auto
      show "\<forall>c\<in>marked (reached[b := True]). reachable_block succs c" using "2.prems"(5) rb b by simp
      show "\<forall>x y. x \<in> marked (reached[b := True]) \<and> (x, y) \<in> graph_rel succs \<longrightarrow>
          y \<in> marked (reached[b := True]) \<union> set (succs ! b @ stack)"
        using "2.prems"(6) b by (fastforce simp: graph_rel_iff)
    qed (use "2.prems" in auto)
    then show ?thesis using g gs b by auto
  qed
qed

lemma reachable_from_entry_spec:
  assumes "wf_graph succs" and "succs \<noteq> []"
  shows "\<exists>reached. reachable_from_entry succs = Some reached \<and> length reached = length succs \<and>
    (\<forall>b<length succs. reached ! b \<longleftrightarrow> reachable_block succs b)"
proof -
  have r0: "reachable_block succs 0" by (simp add: reachable_block_def)
  obtain reached where r: "reachable_loop succs [0] (replicate (length succs) False) = Some reached"
      "length reached = length succs" "0 \<in> marked reached" "\<forall>b\<in>marked reached. reachable_block succs b"
      "\<forall>a b. a \<in> marked reached \<and> (a, b) \<in> graph_rel succs \<longrightarrow> b \<in> marked reached"
    using reachable_loop_spec [OF assms(1), of "replicate (length succs) False" "[0]"] assms(2) r0 by auto
  have "reached ! b \<longleftrightarrow> reachable_block succs b" if "b < length succs" for b
  proof
    assume "reached ! b"
    then show "reachable_block succs b" using r(2,4) that by (simp add: marked_def)
  next
    assume "reachable_block succs b"
    then have "b \<in> marked reached" using closed_reachable_blocks [of "marked reached" succs b] r(3,5) by blast
    then show "reached ! b" by (simp add: marked_def)
  qed
  then show ?thesis using r by (simp add: reachable_from_entry_def)
qed

section \<open>The depth-first order\<close>

lemma later_in_append: "later_in xs b p \<Longrightarrow> later_in (xs @ ys) b p"
  unfolding later_in_def by (metis append.assoc set_append UnI1)

lemma later_in_snoc: "b \<in> set xs \<Longrightarrow> later_in (xs @ [p]) b p"
  unfolding later_in_def by (intro exI [of _ xs] exI [of _ "[p]"]) simp

lemma order_inv_pop:
  assumes "order_inv succs ((node, child) # stack) visited order" and "length (succs ! node) \<le> child"
  shows "order_inv succs stack visited (order @ [node])"
proof -
  have inv: "length visited = length succs" "distinct (order @ node # map fst stack)"
      "marked visited = set order \<union> insert node (fst ` set stack)" "\<forall>x\<in>set stack. fst x < length succs"
      "fst (last ((node, child) # stack)) = 0"
      "successively (\<lambda>x y. (fst y, fst x) \<in> graph_rel succs) ((node, child) # stack)"
      "\<forall>b\<in>set order. b = 0 \<or> (\<exists>p. (p, b) \<in> graph_rel succs \<and> (p \<in> insert node (fst ` set stack) \<or> later_in order b p))"
      "\<forall>x\<in>set stack. set (take (snd x) (succs ! fst x)) \<subseteq> insert node (set order \<union> fst ` set stack)"
      "\<forall>a\<in>set order. set (succs ! a) \<subseteq> insert node (set order \<union> fst ` set stack)"
      "set (succs ! node) \<subseteq> insert node (set order \<union> fst ` set stack)"
    using assms by (simp_all add: order_inv_def)
  have root: "node = 0 \<or> (\<exists>p. (p, node) \<in> graph_rel succs \<and> p \<in> fst ` set stack)"
  proof (cases stack)
    case Nil
    then show ?thesis using inv(5) by simp
  next
    case (Cons x xs)
    then show ?thesis using inv(6) by (auto simp: successively_Cons)
  qed
  have "b = 0 \<or> (\<exists>p. (p, b) \<in> graph_rel succs \<and> (p \<in> fst ` set stack \<or> later_in (order @ [node]) b p))"
    if "b \<in> set (order @ [node])" for b
  proof (cases "b \<in> set order")
    case True
    then show ?thesis using inv(7) later_in_append [of order b _ "[node]"] later_in_snoc [of b order node] by blast
  qed (use that root in auto)
  moreover have "successively (\<lambda>x y. (fst y, fst x) \<in> graph_rel succs) stack" using inv(6) by (cases stack) auto
  ultimately show ?thesis using inv by (simp add: order_inv_def insert_commute split: if_splits)
qed

lemma order_inv_skip:
  assumes "order_inv succs ((node, child) # stack) visited order" and "child < length (succs ! node)"
    and "visited ! (succs ! node ! child)" and "succs ! node ! child < length visited"
  shows "order_inv succs ((node, Suc child) # stack) visited order"
proof -
  have "succs ! node ! child \<in> marked visited" using assms(3,4) by (simp add: marked_def)
  moreover have "marked visited = set order \<union> insert node (fst ` set stack)" using assms(1) by (simp add: order_inv_def)
  ultimately have "succs ! node ! child = node \<or> succs ! node ! child \<in> set order \<or> succs ! node ! child \<in> fst ` set stack"
    by auto
  then show ?thesis using assms(1,2)
    by (cases stack) (simp_all add: order_inv_def successively_Cons take_Suc_conv_app_nth, auto)
qed

lemma order_inv_push:
  assumes "order_inv succs ((node, child) # stack) visited order" and "child < length (succs ! node)"
    and "\<not> visited ! (succs ! node ! child)" and "succs ! node ! child < length succs"
  shows "order_inv succs ((succs ! node ! child, 0) # (node, Suc child) # stack) (visited[succs ! node ! child := True]) order"
proof -
  let ?t = "succs ! node ! child"
  have inv: "length visited = length succs" "distinct (order @ node # map fst stack)"
      "marked visited = set order \<union> insert node (fst ` set stack)" "\<forall>x\<in>set stack. fst x < length succs" "node < length succs"
      "fst (last ((node, child) # stack)) = 0"
      "successively (\<lambda>x y. (fst y, fst x) \<in> graph_rel succs) ((node, child) # stack)"
      "\<forall>b\<in>set order. b = 0 \<or> (\<exists>p. (p, b) \<in> graph_rel succs \<and> (p \<in> insert node (fst ` set stack) \<or> later_in order b p))"
      "\<forall>x\<in>set stack. set (take (snd x) (succs ! fst x)) \<subseteq> insert node (set order \<union> fst ` set stack)"
      "set (take child (succs ! node)) \<subseteq> insert node (set order \<union> fst ` set stack)"
      "\<forall>a\<in>set order. set (succs ! a) \<subseteq> insert node (set order \<union> fst ` set stack)"
    using assms(1) by (simp_all add: order_inv_def)
  have t: "?t \<notin> marked visited" using assms(3) by (simp add: marked_def)
  have m: "marked (visited[?t := True]) = insert ?t (marked visited)" using assms(4) inv(1) by simp
  have e: "(node, ?t) \<in> graph_rel succs" using assms(2) inv(5) by (simp add: graph_rel_iff)
  have s: "successively (\<lambda>x y. (fst y, fst x) \<in> graph_rel succs) ((?t, 0) # (node, Suc child) # stack)"
    using inv(7) e by (cases stack) auto
  have tk: "set (take (Suc child) (succs ! node)) \<subseteq> insert ?t (insert node (set order \<union> fst ` set stack))"
    using inv(10) assms(2) by (auto simp: take_Suc_conv_app_nth)
  have l: "fst (last ((?t, 0) # (node, Suc child) # stack)) = 0" using inv(6) by (cases stack) auto
  have d: "distinct (order @ map fst ((?t, 0) # (node, Suc child) # stack))" using inv(2,3) t by auto
  have p: "\<forall>b\<in>set order. b = 0 \<or> (\<exists>p. (p, b) \<in> graph_rel succs \<and>
      (p \<in> fst ` set ((?t, 0) # (node, Suc child) # stack) \<or> later_in order b p))" using inv(8) by fastforce
  have st: "\<forall>x\<in>set ((?t, 0) # (node, Suc child) # stack). set (take (snd x) (succs ! fst x)) \<subseteq>
      insert ?t (insert node (set order \<union> fst ` set stack))" using inv(9) tk by auto
  have so: "\<forall>a\<in>set order. set (succs ! a) \<subseteq> insert ?t (insert node (set order \<union> fst ` set stack))"
    using inv(11) by auto
  show ?thesis unfolding order_inv_def m
    using inv(1,3,4,5) s l d p st so assms(4) by (simp add: insert_commute)
qed

lemma order_loop_spec:
  "wf_graph succs \<Longrightarrow> order_inv succs stack visited order \<Longrightarrow>
    \<exists>order' visited'. order_loop succs stack visited order = Some order' \<and> order_inv succs [] visited' order' \<and>
      marked visited \<subseteq> marked visited'"
proof (induction succs stack visited order rule: order_loop.induct)
  case (1 succs visited order)
  then show ?case by auto
next
  case (2 succs node child stack visited order)
  have n: "node < length succs" "length visited = length succs" using "2.prems" by (auto simp: order_inv_def)
  have gs: "get_at succs node = Some (succs ! node)" using n by (simp add: get_at_def)
  show ?case
  proof (cases "child < length (succs ! node)")
    case True
    let ?t = "succs ! node ! child"
    have t: "?t < length succs" using "2.prems"(1) n True by (auto simp: wf_graph_def)
    show ?thesis
    proof (cases "visited ! ?t")
      case v: True
      have g: "get_at visited ?t = Some True" using v t n by (simp add: get_at_def)
      show ?thesis
        using "2.IH"(1) [OF gs True g] order_inv_skip [OF "2.prems"(2) True v] "2.prems"(1) t n gs g True by simp
    next
      case v: False
      have g: "get_at visited ?t = Some False" using v t n by (simp add: get_at_def)
      show ?thesis
        using "2.IH"(2) [OF gs True g] order_inv_push [OF "2.prems"(2) True v t] "2.prems"(1) t n gs g True by auto
    qed
  next
    case False
    show ?thesis using "2.IH"(3) [OF gs False] order_inv_pop [OF "2.prems"(2)] "2.prems"(1) gs False by simp
  qed
qed

lemma later_in_rev: "later_in xs b p \<Longrightarrow> later_in (rev xs) p b"
  unfolding later_in_def by (metis rev_append set_rev)

lemma order_loop_order:
  assumes wf: "wf_graph succs" and ne: "succs \<noteq> []" and r: "\<forall>b<length succs. reachable_block succs b"
  shows "\<exists>order. order_loop succs [(0, 0)] ((replicate (length succs) False)[0 := True]) [] = Some order \<and>
    length order = length succs \<and> block_order succs (rev order)"
proof -
  have "order_inv succs [(0, 0)] ((replicate (length succs) False)[0 := True]) []"
    using ne by (auto simp: order_inv_def)
  from order_loop_spec [OF wf this] obtain order visited where
    o: "order_loop succs [(0, 0)] ((replicate (length succs) False)[0 := True]) [] = Some order"
      "order_inv succs [] visited order" "0 \<in> marked visited" using ne by auto
  have inv: "distinct order" "marked visited = set order" "length visited = length succs" "order \<noteq> []" "last order = 0"
    "\<forall>b\<in>set order. b = 0 \<or> (\<exists>p. (p, b) \<in> graph_rel succs \<and> later_in order b p)"
    "\<forall>a\<in>set order. set (succs ! a) \<subseteq> set order"
    using o(2) by (auto simp: order_inv_def)
  have "b \<in> set order" if "reachable_block succs b" for b
    using closed_reachable_blocks [of "set order" succs b] that inv o(3) by (auto simp: graph_rel_iff)
  then have s: "set order = {..<length succs}" using r inv(2,3) by (auto simp: marked_def)
  have "length order = length succs" using distinct_card [OF inv(1)] s by simp
  moreover have "block_order succs (rev order)"
    using inv(1,4,5,6) s later_in_rev [of order] unfolding block_order_def by (simp add: hd_rev) blast
  ultimately show ?thesis using o(1) by blast
qed

lemma order_positions_spec:
  assumes "distinct order" and "set order = {..<n}"
  shows "\<exists>position. order_positions n order = Some position \<and> length position = n \<and>
    (\<forall>i<n. position ! (order ! i) = i)"
proof -
  have len: "length order = n" using distinct_card [OF assms(1)] assms(2) by simp
  have fold: "length (foldl (\<lambda>position (i, b). position[b := i]) p (enumerate k xs)) = length p \<and>
      (\<forall>i<length xs. foldl (\<lambda>position (i, b). position[b := i]) p (enumerate k xs) ! (xs ! i) = k + i) \<and>
      (\<forall>b. b \<notin> set xs \<longrightarrow> foldl (\<lambda>position (i, b). position[b := i]) p (enumerate k xs) ! b = p ! b)"
    if "distinct xs" "\<forall>b\<in>set xs. b < length p" for xs k and p :: "usize list"
    using that
  proof (induction xs arbitrary: k p)
    case (Cons x xs)
    note ih = Cons.IH [of "p[x := k]" "Suc k"]
    show ?case
    proof (intro conjI allI impI)
      fix i assume "i < length (x # xs)"
      then show "foldl (\<lambda>position (i, b). position[b := i]) p (enumerate k (x # xs)) ! ((x # xs) ! i) = k + i"
        using ih Cons.prems by (cases i) auto
    qed (use ih Cons.prems in auto)
  qed simp
  then show ?thesis using assms len by (auto simp: order_positions_def list_all_iff)
qed

section \<open>Trees of immediate dominators\<close>

lemma dom_treeD:
  assumes "dom_tree position idom"
  shows "length position = length idom" "idom \<noteq> []" "idom ! 0 = 0" "length idom \<le> usize_max" "position ! 0 = 0"
    "defined_block idom 0"
  using assms by (auto simp: dom_tree_def defined_block_def usize_max_def)

lemma dom_tree_up:
  assumes "dom_tree position idom" "defined_block idom b" "b \<noteq> 0"
  shows "defined_block idom (idom ! b)" "position ! (idom ! b) < position ! b"
  using assms by (auto simp: dom_tree_def)

lemma dom_tree_inj:
  assumes "dom_tree position idom" "a < length idom" "b < length idom" "position ! a = position ! b"
  shows "a = b"
  using assms by (auto simp: dom_tree_def inj_on_def)

lemma dom_tree_induct [consumes 2, case_names root step]:
  assumes t: "dom_tree position idom" and d: "defined_block idom b"
    and root: "P 0"
    and step: "\<And>b. defined_block idom b \<Longrightarrow> b \<noteq> 0 \<Longrightarrow> P (idom ! b) \<Longrightarrow> P b"
  shows "P b"
  using d
proof (induction "position ! b" arbitrary: b rule: less_induct)
  case less
  show ?case
  proof (cases "b = 0")
    case False
    note up = dom_tree_up [OF t less.prems False]
    show ?thesis using step [OF less.prems False less.hyps [OF up(2) up(1)]] .
  qed (use root in simp)
qed

lemma chain_refl [simp]: "b \<in> chain idom b"
  by (simp add: chain_def)

lemma chain_trans: "c \<in> chain idom b \<Longrightarrow> chain idom c \<subseteq> chain idom b"
  by (auto simp: chain_def)

lemma chain_zero:
  assumes "idom ! 0 = 0"
  shows "chain idom 0 = {0}"
proof -
  have "c = 0" if "(0, c) \<in> {(x, idom ! x) | x. defined_block idom x}\<^sup>*" for c
    using that by (induction rule: rtrancl_induct) (use assms in auto)
  then show ?thesis by (auto simp: chain_def)
qed

lemma chain_unfold:
  assumes "defined_block idom b"
  shows "chain idom b = insert b (chain idom (idom ! b))"
proof -
  have "(b, idom ! b) \<in> {(x, idom ! x) | x. defined_block idom x}" using assms by blast
  then show ?thesis unfolding chain_def by (auto intro: converse_rtrancl_into_rtrancl elim: converse_rtranclE)
qed

lemma chain_position:
  assumes "dom_tree position idom" "defined_block idom b" "c \<in> chain idom b"
  shows "defined_block idom c \<and> position ! c \<le> position ! b \<and> (c \<noteq> b \<longrightarrow> position ! c < position ! b)"
  using assms(1,2,3)
proof (induction arbitrary: c rule: dom_tree_induct)
  case root
  then show ?case using dom_treeD [OF assms(1)] by (simp add: chain_zero)
next
  case (step b)
  show ?case
  proof (cases "c = b")
    case False
    then have "c \<in> chain idom (idom ! b)" using step.prems chain_unfold [OF step.hyps(1)] by simp
    then show ?thesis using step.IH [of c] dom_tree_up [OF assms(1) step.hyps(1,2)] by auto
  qed (use step.hyps in simp)
qed

lemma chain_root: "dom_tree position idom \<Longrightarrow> defined_block idom b \<Longrightarrow> 0 \<in> chain idom b"
proof (induction rule: dom_tree_induct)
  case (step b)
  then show ?case using chain_unfold [of idom b] by simp
qed simp

lemma chain_injective:
  assumes t: "dom_tree position idom" and d: "defined_block idom a" "defined_block idom b"
    and e: "chain idom a = chain idom b"
  shows "a = b"
proof -
  have "a \<in> chain idom b" "b \<in> chain idom a"
    using chain_refl [of a idom] chain_refl [of b idom] unfolding e by simp_all
  then have "position ! a = position ! b"
    using chain_position [OF t d(1), of b] chain_position [OF t d(2), of a] by simp
  then show ?thesis using dom_tree_inj [OF t] d by (simp add: defined_block_def)
qed

subsection \<open>Climbing and intersecting\<close>

declare climb.simps [simp del] intersect.simps [simp del]

lemma climb_spec:
  assumes t: "dom_tree position idom" and d: "defined_block idom x"
  shows "\<exists>y. climb idom position bound x = Some y \<and> defined_block idom y \<and> position ! y \<le> bound \<and>
    chain idom y = {c \<in> chain idom x. position ! c \<le> bound} \<and> (bound < position ! x \<or> y = x)"
  using t d
proof (induction rule: dom_tree_induct)
  case root
  have g: "get_at position 0 = Some 0" using dom_treeD [OF t] by (simp add: get_at_def)
  show ?case using dom_treeD [OF t] g by (auto simp: climb.simps chain_zero)
next
  case (step b)
  have g: "get_at position b = Some (position ! b)" "get_at idom b = Some (idom ! b)"
    using step.hyps dom_treeD [OF t] by (auto simp: get_at_def defined_block_def)
  show ?case
  proof (cases "bound < position ! b")
    case True
    then obtain y where "climb idom position bound (idom ! b) = Some y" "defined_block idom y" "position ! y \<le> bound"
        "chain idom y = {c \<in> chain idom (idom ! b). position ! c \<le> bound}" using step.IH by blast
    then show ?thesis using True g chain_unfold [OF step.hyps(1)] by (auto simp: climb.simps [of _ _ _ b])
  next
    case False
    then have "chain idom b = {c \<in> chain idom b. position ! c \<le> bound}"
      using chain_position [OF t step.hyps(1)] by fastforce
    then show ?thesis using False g step.hyps by (auto simp: climb.simps [of _ _ _ b])
  qed
qed

lemma intersect_spec:
  assumes t: "dom_tree position idom" and d: "defined_block idom left" "defined_block idom right"
  shows "\<exists>m. intersect idom position left right = Some m \<and> defined_block idom m \<and>
    chain idom m = chain idom left \<inter> chain idom right"
  using d
proof (induction "position ! left + position ! right" arbitrary: left right rule: less_induct)
  case less
  show ?case
  proof (cases "left = right")
    case True
    then show ?thesis using less.prems by (auto simp: intersect.simps)
  next
    case False
    have g: "get_at position x = Some (position ! x)" if "defined_block idom x" for x
      using that dom_treeD [OF t] by (simp add: get_at_def defined_block_def)
    obtain l where l: "climb idom position (position ! right) left = Some l" "defined_block idom l"
        "position ! l \<le> position ! right" "chain idom l = {c \<in> chain idom left. position ! c \<le> position ! right}"
        "position ! right < position ! left \<or> l = left"
      using climb_spec [OF t less.prems(1)] by blast
    obtain r where r: "climb idom position (position ! l) right = Some r" "defined_block idom r"
        "position ! r \<le> position ! l" "chain idom r = {c \<in> chain idom right. position ! c \<le> position ! l}"
        "position ! l < position ! right \<or> r = right"
      using climb_spec [OF t less.prems(2)] by blast
    have "position ! left \<noteq> position ! right"
      using False dom_tree_inj [OF t] less.prems by (auto simp: defined_block_def)
    then have "position ! l + position ! r < position ! left + position ! right" using l(3,5) r(3,5) by auto
    then obtain m where m: "intersect idom position l r = Some m" "defined_block idom m"
        "chain idom m = chain idom l \<inter> chain idom r" using less.hyps l(2) r(2) by blast
    have "chain idom l \<inter> chain idom r = chain idom left \<inter> chain idom right"
      using l(4) r(4) chain_position [OF t less.prems(2)] chain_position [OF t l(2)] by auto
    then show ?thesis using m False l(1) r(1) g less.prems l(2) by (auto simp: intersect.simps [of _ _ left])
  qed
qed

lemma intersect_all_spec:
  assumes t: "dom_tree position idom" and d: "defined_block idom x" "\<forall>p\<in>set ps. defined_block idom p"
  shows "\<exists>m. intersect_all idom position x ps = Some m \<and> defined_block idom m \<and>
    chain idom m = (\<Inter>p\<in>insert x (set ps). chain idom p)"
  using d
proof (induction ps arbitrary: x)
  case (Cons p ps)
  obtain m where m: "intersect idom position x p = Some m" "defined_block idom m"
      "chain idom m = chain idom x \<inter> chain idom p" using intersect_spec [OF t, of x p] Cons.prems by auto
  then show ?case using Cons.IH [of m] Cons.prems by auto
qed simp

subsection \<open>Replacing one entry\<close>

subsection \<open>Replacing one entry\<close>

lemma tree_update_defined:
  assumes "tree_update position idom b c"
  shows "defined_block (idom[b := c]) x \<longleftrightarrow> defined_block idom x \<or> x = b"
proof -
  have "c \<noteq> usize_max" using assms dom_treeD(4) by (fastforce simp: tree_update_def defined_block_def)
  then show ?thesis using assms by (auto simp: defined_block_def tree_update_def nth_list_update)
qed

lemma tree_update_tree:
  assumes u: "tree_update position idom b c"
  shows "dom_tree position (idom[b := c])"
proof -
  have t: "dom_tree position idom" using u by (simp add: tree_update_def)
  have "defined_block (idom[b := c]) (idom[b := c] ! x) \<and> position ! (idom[b := c] ! x) < position ! x"
    if "defined_block (idom[b := c]) x" "x \<noteq> 0" for x
  proof (cases "x = b")
    case True
    then show ?thesis using u by (simp add: tree_update_def tree_update_defined [OF u])
  next
    case False
    then show ?thesis using that dom_tree_up [OF t] by (simp add: tree_update_defined [OF u])
  qed
  then show ?thesis using t u by (simp add: dom_tree_def tree_update_def)
qed

lemma tree_update_chain_other:
  assumes u: "tree_update position idom b c" and x: "defined_block idom x" "b \<notin> chain idom x"
  shows "chain (idom[b := c]) x = chain idom x"
proof -
  have t: "dom_tree position idom" using u by (simp add: tree_update_def)
  show ?thesis using t x
  proof (induction rule: dom_tree_induct)
    case root
    then show ?case using u dom_treeD(3) [OF t] by (simp add: chain_zero tree_update_def)
  next
    case (step x)
    have "x \<noteq> b" "b \<notin> chain idom (idom ! x)" using step chain_unfold [OF step.hyps(1)] by auto
    then show ?case
      using step.IH step.hyps(1) chain_unfold [of "idom[b := c]" x] chain_unfold [of idom x]
      by (simp add: tree_update_defined [OF u])
  qed
qed

lemma tree_update_chain_self:
  assumes u: "tree_update position idom b c"
  shows "chain (idom[b := c]) b = insert b (chain idom c)"
proof -
  have "defined_block idom c" "b \<notin> chain idom c"
    using u chain_position [of position idom c b] by (auto simp: tree_update_def)
  then show ?thesis
    using u chain_unfold [of "idom[b := c]" b] tree_update_chain_other [OF u]
    by (simp add: tree_update_defined [OF u] tree_update_def)
qed

lemma tree_update_chain_under:
  assumes u: "tree_update position idom b c" and x: "defined_block idom x" "b \<in> chain idom x"
  shows "chain (idom[b := c]) x = (chain idom x - chain idom b) \<union> chain (idom[b := c]) b"
proof -
  have t: "dom_tree position idom" using u by (simp add: tree_update_def)
  show ?thesis using t x
  proof (induction rule: dom_tree_induct)
    case root
    then show ?case using u dom_treeD(3) [OF t] by (simp add: chain_zero tree_update_def)
  next
    case (step x)
    show ?case
    proof (cases "x = b")
      case False
      then have b: "b \<in> chain idom (idom ! x)" using step.prems chain_unfold [OF step.hyps(1)] by simp
      have "b < length idom" using u by (simp add: tree_update_def)
      have p: "position ! b \<le> position ! (idom ! x)"
        using chain_position [OF t _ b] dom_tree_up(1) [OF t step.hyps(1,2)] by simp
      have db: "defined_block idom b" using chain_position [OF t _ b] dom_tree_up(1) [OF t step.hyps(1,2)] by simp
      have "x \<notin> chain idom b"
        using chain_position [OF t db, of x] p dom_tree_up(2) [OF t step.hyps(1,2)] by auto
      then show ?thesis
        using False step.IH [OF b] step.hyps(1) chain_unfold [of "idom[b := c]" x] chain_unfold [of idom x]
        by (auto simp: tree_update_defined [OF u])
    qed simp
  qed
qed

subsection \<open>Walks with few retreating edges\<close>

lemma retreats_append:
  "retreats position (p @ a # q) = retreats position (p @ [a]) + retreats position (a # q)"
proof (induction p)
  case (Cons x p)
  then show ?case by (cases p) auto
qed (cases q; simp)

lemma retreats_snoc:
  "retreats position (p @ [a, b]) = retreats position (p @ [a]) + (if position ! b \<le> position ! a then 1 else 0)"
  using retreats_append [of position p a "[b]"] by simp

lemma retreats_length: "retreats position p \<le> length p - 1"
  by (induction position p rule: retreats.induct) auto

lemma dominator_within_mono: "dominator_within position succs k a b \<Longrightarrow> j \<le> k \<Longrightarrow> dominator_within position succs j a b"
  by (auto simp: dominator_within_def)

lemma walk_prefix:
  assumes "walk succs (p @ a # q)"
  shows "walk succs (p @ [a])"
  using assms by (auto simp: walk_def successively_append_iff hd_append split: if_splits)

lemma dominator_within_trans:
  assumes "dominator_within position succs k a b" "dominator_within position succs k b d"
  shows "dominator_within position succs k a d"
  unfolding dominator_within_def
proof (intro allI impI, elim conjE)
  fix p assume p: "walk succs p" "last p = d" "retreats position p < k"
  then have "b \<in> set p" using assms(2) unfolding dominator_within_def by blast
  then obtain q r where q: "p = q @ b # r" by (meson split_list)
  have "retreats position (q @ [b]) < k" using p(3) retreats_append [of position q b r] q by simp
  then have "a \<in> set (q @ [b])"
    using assms(1) walk_prefix [of succs q b r] p(1) q unfolding dominator_within_def by (metis last_snoc)
  then show "a \<in> set p" using q by auto
qed

lemma walk_join:
  assumes "walk succs p" "successively (\<lambda>a b. (a, b) \<in> graph_rel succs) (last p # q)"
  shows "walk succs (p @ q)"
  using assms by (cases q) (auto simp: walk_def successively_append_iff)

lemma walk_simple: "walk succs p \<Longrightarrow> \<exists>q. walk succs q \<and> last q = last p \<and> distinct q \<and> set q \<subseteq> set p"
proof (induction "length p" arbitrary: p rule: less_induct)
  case less
  show ?case
  proof (cases "distinct p")
    case False
    then obtain xs ys zs y where p: "p = xs @ [y] @ ys @ [y] @ zs" using not_distinct_decomp by blast
    have "walk succs (xs @ [y])" using walk_prefix [of succs xs y] less.prems p by simp
    moreover have "successively (\<lambda>a b. (a, b) \<in> graph_rel succs) (y # zs)"
      using less.prems p by (simp add: walk_def successively_append_iff successively_Cons)
    ultimately have "walk succs ((xs @ [y]) @ zs)" using walk_join [of succs "xs @ [y]" zs] by simp
    then obtain q where "walk succs q" "last q = last ((xs @ [y]) @ zs)" "distinct q" "set q \<subseteq> set ((xs @ [y]) @ zs)"
      using less.hyps [of "(xs @ [y]) @ zs"] p by auto
    then show ?thesis using p by (intro exI [of _ q]) (auto split: if_splits)
  qed (use less.prems in blast)
qed

lemma walk_blocks: "wf_graph succs \<Longrightarrow> succs \<noteq> [] \<Longrightarrow> walk succs p \<Longrightarrow> set p \<subseteq> {..<length succs}"
proof (induction p rule: rev_induct)
  case (snoc x p)
  show ?case
  proof (cases p rule: rev_cases)
    case Nil
    then show ?thesis using snoc.prems by (simp add: walk_def)
  next
    case (snoc q a)
    then show ?thesis using walk_butlast [of succs q a x] snoc.prems snoc.IH wf_graph_rel [of succs a x] snoc by simp
  qed
qed simp

lemma dominator_within_all:
  assumes g: "wf_graph succs" "succs \<noteq> []" and t: "dom_tree position idom" "length idom = length succs"
    and k: "length succs - 1 \<le> k" "0 < k" and d: "dominator_within position succs k a b"
  shows "dominator succs a b"
  unfolding dominator_def
proof (intro allI impI, elim conjE)
  fix p assume p: "walk succs p" "last p = b"
  then obtain q where q: "walk succs q" "last q = b" "distinct q" "set q \<subseteq> set p" using walk_simple by blast
  have len: "length q \<le> length succs"
    using walk_blocks [OF g q(1)] distinct_card [OF q(3)] card_mono [of "{..<length succs}" "set q"] by simp
  have "retreats position q < k"
  proof (cases q)
    case (Cons x r)
    then have x: "x = 0" using q(1) by (simp add: walk_def)
    show ?thesis
    proof (cases r)
      case (Cons y s)
      then have y: "y \<noteq> 0" "y < length idom" using q(3) \<open>q = x # r\<close> x walk_blocks [OF g q(1)] t(2) by auto
      then have "position ! y \<noteq> position ! 0" using dom_tree_inj [OF t(1), of y 0] dom_treeD(2) [OF t(1)] by auto
      then have "retreats position q = retreats position r"
        using \<open>q = x # r\<close> Cons x dom_treeD(5) [OF t(1)] by simp
      then show ?thesis using retreats_length [of position r] len \<open>q = x # r\<close> Cons k by auto
    qed (use k \<open>q = x # r\<close> in simp)
  qed (use k in simp)
  then show "a \<in> set p" using d q p unfolding dominator_within_def by blast
qed

subsection \<open>One pass and the rounds\<close>

lemma pass_inv_tree: "pass_inv succs position k rest idom \<Longrightarrow> dom_tree position idom"
  by (simp add: pass_inv_def)

lemma dominator_pred:
  assumes "dominator succs a b" "a \<noteq> b" "(p, b) \<in> graph_rel succs"
  shows "dominator succs a p"
  unfolding dominator_def
proof (intro allI impI, elim conjE)
  fix w assume "walk succs w" "last w = p"
  then have "walk succs (w @ [b])" using walk_snoc assms(3) by blast
  then have "a \<in> set (w @ [b])" using assms(1) by (auto simp: dominator_def)
  then show "a \<in> set w" using assms(2) by simp
qed

lemma dominator_within_preds:
  assumes "\<forall>p. (p, b) \<in> graph_rel succs \<longrightarrow>
      dominator_within position succs (if position ! b \<le> position ! p then k - 1 else k) a p" and "b \<noteq> 0"
  shows "dominator_within position succs k a b"
  unfolding dominator_within_def
proof (intro allI impI, elim conjE)
  fix w assume w: "walk succs w" "last w = b" "retreats position w < k"
  obtain v p where v: "w = v @ [p, b]"
  proof -
    obtain u where u: "w = u @ [b]" using w(1,2) by (metis append_butlast_last_id walk_def)
    then have "u \<noteq> []" using w(1) assms(2) by (auto simp: walk_def)
    then show ?thesis using that [of "butlast u" "last u"] u by simp
  qed
  have "walk succs (v @ [p])" "(p, b) \<in> graph_rel succs" using walk_butlast [of succs v p b] w(1) v by simp_all
  moreover have "retreats position (v @ [p]) < (if position ! b \<le> position ! p then k - 1 else k)"
    using w(3) v by (auto simp: retreats_snoc split: if_splits)
  ultimately have "a \<in> set (v @ [p])" using assms(1) unfolding dominator_within_def by (metis last_snoc)
  then show "a \<in> set w" using v by auto
qed

lemma advancing_walk:
  assumes o: "ordered_graph succs position" and b: "b < length succs"
  shows "\<exists>w. walk succs w \<and> last w = b \<and> sorted_wrt (\<lambda>x y. position ! x < position ! y) w"
  using b
proof (induction "position ! b" arbitrary: b rule: less_induct)
  case less
  show ?case
  proof (cases "b = 0")
    case True
    then show ?thesis using walk_single by (intro exI [of _ "[0]"]) simp
  next
    case False
    then obtain p where p: "(p, b) \<in> graph_rel succs" "position ! p < position ! b"
      using o less.prems unfolding ordered_graph_def by blast
    then obtain w where w: "walk succs w" "last w = p" "sorted_wrt (\<lambda>x y. position ! x < position ! y) w"
      using less.hyps [of p] by (auto simp: graph_rel_iff)
    have "position ! x < position ! b" if "x \<in> set w" for x
    proof -
      obtain u where u: "w = u @ [p]" using w(1,2) by (metis append_butlast_last_id walk_def)
      then show ?thesis using w(3) p(2) that by (auto simp: sorted_wrt_append)
    qed
    then show ?thesis using w walk_snoc [of succs w b] p by (intro exI [of _ "w @ [b]"]) (simp add: sorted_wrt_append)
  qed
qed

lemma retreats_advancing: "sorted_wrt (\<lambda>x y. position ! x < position ! y) w \<Longrightarrow> retreats position w = 0"
  by (induction position w rule: retreats.induct) auto

text \<open>A dominator of a block below \<open>b\<close> in the tree that stands before \<open>b\<close> is a dominator of \<open>b\<close>.\<close>

lemma dominator_above:
  assumes o: "ordered_graph succs position" and b: "dominator_within position succs k b d" "0 < k"
    and a: "dominator succs a d" "position ! a < position ! b" and d: "d < length succs"
  shows "dominator succs a b"
  unfolding dominator_def
proof (intro allI impI, elim conjE)
  fix v assume v: "walk succs v" "last v = b"
  obtain w where w: "walk succs w" "last w = d" "sorted_wrt (\<lambda>x y. position ! x < position ! y) w"
    using advancing_walk [OF o d] by blast
  have "b \<in> set w" using b w retreats_advancing [OF w(3)] unfolding dominator_within_def by fastforce
  then obtain q r where q: "w = q @ b # r" by (meson split_list)
  have "walk succs (v @ r)"
    using walk_join [OF v(1), of r] v(2) w(1) q by (simp add: walk_def successively_append_iff)
  moreover have "last (v @ r) = d" using w(2) q v(2) by (cases r) auto
  ultimately have "a \<in> set (v @ r)" using a(1) by (auto simp: dominator_def)
  moreover have "a \<notin> set r" using w(3) q a(2) by (auto simp: sorted_wrt_append)
  ultimately show "a \<in> set v" by simp
qed

lemma pass_step:
  assumes o: "ordered_graph succs position" and inv: "pass_inv succs position k (b # rest) idom"
    and b: "b < length succs" "b \<notin> set rest" and m: "pass_candidate succs idom b m"
    and before: "\<forall>p<length succs. p \<notin> set (b # rest) \<longleftrightarrow> position ! p < position ! b"
  shows "tree_update position idom b m" "pass_inv succs position k rest (idom[b := m])"
proof -
  have i: "dom_tree position idom" "length idom = length succs" "0 < k" "0 \<notin> set (b # rest)" "b \<noteq> 0"
      "\<And>c. c < length succs \<Longrightarrow> c \<notin> set (b # rest) \<or> 1 < k \<Longrightarrow> defined_block idom c"
      "\<And>d c. defined_block idom d \<Longrightarrow> dominator succs c d \<Longrightarrow> c \<in> chain idom d"
      "\<And>d c. defined_block idom d \<Longrightarrow> c \<in> chain idom d \<Longrightarrow> dominator_within position succs (pass_level k (b # rest) d) c d"
    using inv unfolding pass_inv_def by auto
  let ?P = "{p. (p, b) \<in> graph_rel succs \<and> defined_block idom p}"
  have mc: "chain idom m = (\<Inter>p\<in>?P. chain idom p)" and md: "defined_block idom m"
    using m by (auto simp: pass_candidate_def)
  obtain p where p: "(p, b) \<in> graph_rel succs" "position ! p < position ! b"
    using o b(1) i(5) unfolding ordered_graph_def by blast
  have dp: "defined_block idom p" using i(6) [of p] before p by (auto simp: graph_rel_iff)
  have "m \<in> chain idom p" using mc p(1) dp chain_refl [of m idom] by auto
  then have "position ! m < position ! b" using chain_position [OF i(1) dp] p(2) by fastforce
  then show u: "tree_update position idom b m" using i md b by (simp add: tree_update_def)
  let ?idom = "idom[b := m]"
  note self = tree_update_chain_self [OF u] and other = tree_update_chain_other [OF u]
    and under = tree_update_chain_under [OF u] and def' = tree_update_defined [OF u]
  have bm: "b \<notin> chain idom m" using chain_position [OF i(1) md] \<open>position ! m < position ! b\<close> by fastforce
  have low: "c \<in> chain ?idom b" if "dominator succs c b" for c
  proof (cases "c = b")
    case False
    then show ?thesis using dominator_pred [OF that False] i(7) by (auto simp: self mc)
  qed (simp add: self)
  have up: "dominator_within position succs k c b" if c: "c \<in> chain ?idom b" for c
  proof (cases "c = b")
    case True
    then show ?thesis by (auto simp: dominator_within_def walk_def)
  next
    case False
    then have cm: "c \<in> chain idom m" using c self by simp
    show ?thesis
    proof (rule dominator_within_preds [OF _ i(5)], intro allI impI)
      fix q assume q: "(q, b) \<in> graph_rel succs"
      show "dominator_within position succs (if position ! b \<le> position ! q then k - 1 else k) c q"
      proof (cases "defined_block idom q")
        case True
        then have "c \<in> chain idom q" using cm mc q by auto
        then have "dominator_within position succs (pass_level k (b # rest) q) c q" using i(8) True by blast
        moreover have "(if position ! b \<le> position ! q then k - 1 else k) \<le> pass_level k (b # rest) q"
          using before q by (auto simp: pass_level_def graph_rel_iff)
        ultimately show ?thesis by (rule dominator_within_mono)
      next
        case False
        then have "k = 1" "\<not> position ! q < position ! b" using i(3) i(6) [of q] before q by (auto simp: graph_rel_iff)
        then show ?thesis by (simp add: dominator_within_def)
      qed
    qed
  qed
  have "c \<in> chain ?idom d" if d: "defined_block ?idom d" "dominator succs c d" for c d
  proof (cases "d = b")
    case False
    then have dd: "defined_block idom d" using d(1) def' by simp
    then have cd: "c \<in> chain idom d" using i(7) d(2) by blast
    show ?thesis
    proof (cases "b \<in> chain idom d \<and> c \<in> chain idom b")
      case True
      then have db: "defined_block idom b" using chain_position [OF i(1) dd] by blast
      show ?thesis
      proof (cases "c = b")
        case False
        have "dominator_within position succs (pass_level k (b # rest) d) b d" "0 < pass_level k (b # rest) d"
          using i(3) i(8) [OF dd] True by (auto simp: pass_level_def)
        moreover have "position ! c < position ! b" using chain_position [OF i(1) db] True False by blast
        ultimately have "dominator succs c b"
          using dominator_above [OF o] d(2) dd i(2) by (auto simp: defined_block_def)
        then show ?thesis using low True under [OF dd] by auto
      qed (use True under [OF dd] in auto)
    qed (use cd under [OF dd] other [OF dd] in auto)
  qed (use low d in simp)
  moreover have "dominator_within position succs (pass_level k rest d) c d"
    if d: "defined_block ?idom d" "c \<in> chain ?idom d" for c d
  proof (cases "d = b")
    case True
    then show ?thesis using up d b(2) by (simp add: pass_level_def)
  next
    case False
    then have dd: "defined_block idom d" using d(1) def' by simp
    have lv: "pass_level k (b # rest) d = pass_level k rest d" "pass_level k rest d \<le> k"
      using False i(3) by (auto simp: pass_level_def)
    show ?thesis
    proof (cases "c \<in> chain idom d")
      case True
      then show ?thesis using i(8) [OF dd] lv by simp
    next
      case False
      then have "b \<in> chain idom d" "c \<in> chain ?idom b" using d(2) under [OF dd] other [OF dd] by auto
      then show ?thesis
        using dominator_within_trans [OF dominator_within_mono [OF up lv(2)]] i(8) [OF dd] lv by metis
    qed
  qed
  ultimately show "pass_inv succs position k rest ?idom"
    using i(2,3,4,6) tree_update_tree [OF u] by (simp add: pass_inv_def def') blast
qed

lemma converse_graph_preds:
  assumes "converse_graph succs preds" "b < length succs"
  shows "p \<in> set (preds ! b) \<longleftrightarrow> (p, b) \<in> graph_rel succs"
proof -
  have "p < length succs" if "p \<in> set (preds ! b)" using assms that unfolding converse_graph_def wf_graph_def by metis
  moreover have "p \<in> set (preds ! b) \<longleftrightarrow> b \<in> set (succs ! p)" if "p < length succs"
    using assms that by (simp add: converse_graph_def)
  ultimately show ?thesis unfolding graph_rel_iff by blast
qed

lemma dominator_preds:
  assumes "\<forall>p. (p, b) \<in> graph_rel succs \<longrightarrow> dominator succs a p" and "b \<noteq> 0"
  shows "dominator succs a b"
proof -
  have "dominator_within [] succs k a b" for k
    by (rule dominator_within_preds [OF _ assms(2)]) (use assms(1) in \<open>simp add: dominator_def dominator_within_def\<close>)
  then show ?thesis unfolding dominator_within_def dominator_def using lessI by blast
qed

lemma pass_candidate_computed:
  assumes o: "ordered_graph succs position" and inv: "pass_inv succs position k (b # rest) idom"
    and preds: "converse_graph succs preds" and b: "b < length succs"
    and before: "\<forall>p<length succs. p \<notin> set (b # rest) \<longleftrightarrow> position ! p < position ! b"
  obtains first others m where "filter (\<lambda>p. idom ! p \<noteq> usize_max) (preds ! b) = first # others"
    "intersect_all idom position first others = Some m" "pass_candidate succs idom b m"
    "\<not> list_ex (\<lambda>p. length idom \<le> p) (preds ! b)"
proof -
  have i: "dom_tree position idom" "length idom = length succs" "b \<noteq> 0"
      "\<And>c. c < length succs \<Longrightarrow> c \<notin> set (b # rest) \<Longrightarrow> defined_block idom c"
    using inv unfolding pass_inv_def by auto
  note ps = converse_graph_preds [OF preds b]
  have bound: "p < length idom" if "p \<in> set (preds ! b)" for p
    using that ps i(2) by (simp add: graph_rel_iff)
  let ?ds = "filter (\<lambda>p. idom ! p \<noteq> usize_max) (preds ! b)"
  have ds: "set ?ds = {p. (p, b) \<in> graph_rel succs \<and> defined_block idom p}"
    using ps bound by (auto simp: defined_block_def)
  obtain p where "(p, b) \<in> graph_rel succs" "position ! p < position ! b"
    using o b i(3) unfolding ordered_graph_def by blast
  then have "p \<in> set ?ds" using i(4) [of p] before ds by (auto simp: graph_rel_iff)
  then obtain first others where f: "?ds = first # others" by (cases ?ds) auto
  have d: "defined_block idom first" "\<forall>p\<in>set others. defined_block idom p" using f ds by auto
  obtain m where m: "intersect_all idom position first others = Some m" "defined_block idom m"
      "chain idom m = (\<Inter>p\<in>insert first (set others). chain idom p)" using intersect_all_spec [OF i(1) d] by blast
  have "pass_candidate succs idom b m" using m(2,3) ds f unfolding pass_candidate_def by (metis list.simps(15))
  moreover have "\<not> list_ex (\<lambda>p. length idom \<le> p) (preds ! b)" using bound by (fastforce simp: list_ex_iff)
  ultimately show ?thesis using that f m(1) by blast
qed

lemma pass_rest_ConsD:
  assumes "pass_rest succs position (b # rest)"
  shows "b < length succs" "b \<notin> set rest" "pass_rest succs position rest"
    "\<forall>p<length succs. p \<notin> set (b # rest) \<longleftrightarrow> position ! p < position ! b"
  using assms unfolding pass_rest_def by (auto dest: less_not_sym)

lemma dominator_pass_changed:
  "dominator_pass preds position rest idom True = Some (idom', changed') \<Longrightarrow> changed'"
proof (induction rest arbitrary: idom)
  case (Cons b rest)
  obtain ps where ps: "get_at preds b = Some ps" using Cons.prems by (cases "get_at preds b") auto
  show ?case
  proof (cases "filter (\<lambda>p. idom ! p \<noteq> usize_max) ps")
    case Nil
    then show ?thesis using Cons.prems ps Cons.IH [of idom] by (simp split: if_splits)
  next
    case (Cons f fs)
    then show ?thesis using Cons.prems ps Cons.IH
      by (cases "intersect_all idom position f fs"; cases "get_at idom b") (auto split: if_splits)
  qed
qed simp

lemma dominator_pass_spec:
  assumes o: "ordered_graph succs position" and preds: "converse_graph succs preds"
  shows "pass_rest succs position rest \<Longrightarrow> pass_inv succs position k rest idom \<Longrightarrow>
    \<exists>idom' changed'. dominator_pass preds position rest idom changed = Some (idom', changed') \<and>
      pass_inv succs position k [] idom' \<and> (\<not> changed' \<longrightarrow> idom' = idom)"
proof (induction rest arbitrary: idom changed)
  case (Cons b rest)
  note r = pass_rest_ConsD [OF Cons.prems(1)]
  obtain first others m where c: "filter (\<lambda>p. idom ! p \<noteq> usize_max) (preds ! b) = first # others"
    "intersect_all idom position first others = Some m" "pass_candidate succs idom b m"
    "\<not> list_ex (\<lambda>p. length idom \<le> p) (preds ! b)"
    using pass_candidate_computed [OF o Cons.prems(2) preds r(1,4)] by blast
  note step = pass_step [OF o Cons.prems(2) r(1,2) c(3) r(4)]
  have g: "get_at preds b = Some (preds ! b)" "get_at idom b = Some (idom ! b)"
    using r(1) preds Cons.prems(2) by (auto simp: get_at_def converse_graph_def pass_inv_def)
  show ?case
  proof (cases "idom ! b = m")
    case True
    then have "idom[b := m] = idom" by auto
    then show ?thesis using Cons.IH [OF r(3), of idom changed] step(2) c g True by simp
  next
    case False
    show ?thesis using Cons.IH [OF r(3) step(2), of True] dominator_pass_changed [of preds position rest "idom[b := m]"] c g False by auto
  qed
qed auto

lemma dominator_pass_exact:
  assumes o: "ordered_graph succs position" and preds: "converse_graph succs preds"
  shows "pass_rest succs position rest \<Longrightarrow> pass_inv succs position k rest idom \<Longrightarrow>
    \<forall>b<length succs. defined_block idom b \<and> chain idom b = {c. dominator succs c b} \<Longrightarrow>
    dominator_pass preds position rest idom changed = Some (idom, changed)"
proof (induction rest arbitrary: changed)
  case (Cons b rest)
  note r = pass_rest_ConsD [OF Cons.prems(1)]
  obtain first others m where c: "filter (\<lambda>p. idom ! p \<noteq> usize_max) (preds ! b) = first # others"
    "intersect_all idom position first others = Some m" "pass_candidate succs idom b m"
    "\<not> list_ex (\<lambda>p. length idom \<le> p) (preds ! b)"
    using pass_candidate_computed [OF o Cons.prems(2) preds r(1,4)] by blast
  note step = pass_step [OF o Cons.prems(2) r(1,2) c(3) r(4)]
  have g: "get_at preds b = Some (preds ! b)" "get_at idom b = Some (idom ! b)"
    using r(1) preds Cons.prems(2) by (auto simp: get_at_def converse_graph_def pass_inv_def)
  have t: "dom_tree position idom" "length idom = length succs" "b \<noteq> 0" using Cons.prems(2) by (auto simp: pass_inv_def)
  have db: "defined_block idom b" "chain idom b = {c. dominator succs c b}" using Cons.prems(3) r(1) by auto
  note up = dom_tree_up [OF t(1) db(1) t(3)]
  have new: "chain (idom[b := m]) b = insert b (chain idom m)" using tree_update_chain_self [OF step(1)] .
  have old: "chain idom b = insert b (chain idom (idom ! b))" using chain_unfold [OF db(1)] .
  have "b \<notin> chain idom (idom ! b)" using chain_position [OF t(1) up(1)] up(2) by fastforce
  moreover have "b \<notin> chain idom m"
    using chain_position [OF t(1)] step(1) by (fastforce simp: tree_update_def)
  moreover have "insert b (chain idom m) = chain idom b"
  proof -
    have "insert b (chain idom m) = insert b (\<Inter>p\<in>{p. (p, b) \<in> graph_rel succs}. {c. dominator succs c p})"
      using c(3) Cons.prems(3) by (auto simp: pass_candidate_def graph_rel_iff)
    also have "\<dots> = {c. dominator succs c b}"
    proof (intro equalityI subsetI)
      fix c assume "c \<in> insert b (\<Inter>p\<in>{p. (p, b) \<in> graph_rel succs}. {c. dominator succs c p})"
      then consider "c = b" | "\<forall>p. (p, b) \<in> graph_rel succs \<longrightarrow> dominator succs c p" by auto
      then show "c \<in> {c. dominator succs c b}"
      proof cases
        case 1
        then show ?thesis by (auto simp: dominator_def walk_def)
      next
        case 2
        then show ?thesis using dominator_preds [OF _ t(3)] by simp
      qed
    qed (use dominator_pred [of succs _ b] in auto)
    finally show ?thesis using db(2) by simp
  qed
  ultimately have "chain idom m = chain idom (idom ! b)" using old by (simp add: insert_ident)
  then have m: "idom ! b = m"
    using chain_injective [OF t(1) _ up(1), of m] c(3) by (simp add: pass_candidate_def)
  then have "idom[b := m] = idom" by auto
  then show ?case using Cons.IH [OF r(3)] Cons.prems(3) step(2) c g m by simp
qed simp

lemma dominator_refl: "dominator succs b b"
  by (auto simp: dominator_def walk_def)

lemma pass_inv_next:
  assumes i: "pass_inv succs position k [] idom" and r: "0 \<notin> set rest" "\<forall>b<length succs. b \<noteq> 0 \<longrightarrow> b \<in> set rest"
  shows "pass_inv succs position (Suc k) rest idom"
proof -
  have "dominator_within position succs (pass_level (Suc k) rest b) c b"
    if b: "defined_block idom b" "c \<in> chain idom b" for b c
  proof (cases "b = 0")
    case True
    then have "c = 0" using b(2) chain_zero dom_treeD(3) [OF pass_inv_tree [OF i]] by blast
    then show ?thesis using True dominator_refl [of succs 0] by (simp add: dominator_def dominator_within_def)
  next
    case False
    then have "b \<in> set rest" using i b(1) r(2) by (simp add: pass_inv_def defined_block_def)
    then show ?thesis using i b by (simp add: pass_inv_def pass_level_def max_def Suc_le_eq)
  qed
  then show ?thesis using i r(1) by (simp add: pass_inv_def)
qed

lemma pass_inv_exact:
  assumes o: "ordered_graph succs position" and i: "pass_inv succs position (Suc k) rest idom"
    and k: "length succs - 1 \<le> k" and r: "set rest \<subseteq> {..<length succs}"
  shows "exact_tree succs position idom"
proof -
  have g: "wf_graph succs" "succs \<noteq> []" using o by (simp_all add: ordered_graph_def)
  have t: "dom_tree position idom" "length idom = length succs" "0 \<notin> set rest" using i by (simp_all add: pass_inv_def)
  have "rest = [] \<or> 1 < Suc k"
  proof (cases "1 < length succs")
    case False
    then have "length succs = 1" using g(2) by (cases succs) auto
    then have "rest = []" using r t(3) by (cases rest) auto
    then show ?thesis by simp
  qed (use k in auto)
  then have d: "defined_block idom b" if "b < length succs" for b using i that by (auto simp: pass_inv_def)
  have "dominator succs c b" if "b < length succs" "c \<in> chain idom b" for b c
  proof (rule dominator_within_all [OF g t(1,2)])
    show "dominator_within position succs (pass_level (Suc k) rest b) c b"
      using i d [OF that(1)] that(2) by (simp add: pass_inv_def)
  qed (use k in \<open>auto simp: pass_level_def\<close>)
  moreover have "c \<in> chain idom b" if "b < length succs" "dominator succs c b" for b c
    using i d [OF that(1)] that(2) by (simp add: pass_inv_def)
  ultimately show ?thesis using t d by (auto simp: exact_tree_def)
qed

lemma dominator_rounds_spec:
  assumes o: "ordered_graph succs position" and preds: "converse_graph succs preds"
    and r: "pass_rest succs position blocks" "0 \<notin> set blocks" "\<forall>b<length succs. b \<noteq> 0 \<longrightarrow> b \<in> set blocks"
  shows "pass_inv succs position (Suc k) blocks idom \<Longrightarrow> length succs \<le> k + rounds \<Longrightarrow> 0 < rounds \<Longrightarrow>
    \<exists>idom'. dominator_rounds rounds preds position blocks idom = Some (Some idom') \<and> exact_tree succs position idom'"
proof (induction rounds arbitrary: k idom)
  case (Suc rounds)
  have sub: "set blocks \<subseteq> {..<length succs}" using r(1) by (simp add: pass_rest_def)
  obtain idom' changed where p: "dominator_pass preds position blocks idom False = Some (idom', changed)"
      "pass_inv succs position (Suc k) [] idom'" "\<not> changed \<longrightarrow> idom' = idom"
    using dominator_pass_spec [OF o preds r(1) Suc.prems(1)] by blast
  note next' = pass_inv_next [OF p(2) r(2,3)]
  show ?case
  proof (cases changed)
    case False
    then have same: "dominator_pass preds position blocks idom False = Some (idom, False)" using p by simp
    have "pass_inv succs position (Suc k + j) blocks idom" for j
    proof (induction j)
      case (Suc j)
      then show ?case
        using dominator_pass_spec [OF o preds r(1), of "Suc k + j" idom False] same
          pass_inv_next [OF _ r(2,3), of position "Suc k + j" idom] by auto
    qed (use Suc.prems in simp)
    from this [of "length succs"] have "exact_tree succs position idom"
      using pass_inv_exact [OF o, of "k + length succs" blocks idom] sub by simp
    moreover from this have "list_all (\<lambda>x. x \<noteq> usize_max) idom"
      by (auto simp: exact_tree_def defined_block_def list_all_length)
    ultimately show ?thesis using same by simp
  next
    case True
    have "0 < rounds"
    proof (rule ccontr)
      assume "\<not> 0 < rounds"
      then have "exact_tree succs position idom" using pass_inv_exact [OF o Suc.prems(1) _ sub] Suc.prems(2) by simp
      then show False
        using dominator_pass_exact [OF o preds r(1) Suc.prems(1), of False] p(1) True by (simp add: exact_tree_def)
    qed
    then show ?thesis using Suc.IH [OF next'] Suc.prems(2) p(1) True by simp
  qed
qed simp

lemma later_in_nth:
  assumes "later_in xs a b" "distinct xs"
  obtains i j where "i < j" "j < length xs" "xs ! i = a" "xs ! j = b"
proof -
  obtain us vs where x: "xs = us @ vs" "a \<in> set us" "b \<in> set vs" using assms(1) unfolding later_in_def by blast
  obtain i where i: "i < length us" "us ! i = a" using x(2) by (auto simp: in_set_conv_nth)
  obtain j where j: "j < length vs" "vs ! j = b" using x(3) by (auto simp: in_set_conv_nth)
  show ?thesis using that [of i "length us + j"] x(1) i j by (simp add: nth_append)
qed

lemma immediate_dominators_spec:
  assumes g: "wf_graph succs" "succs \<noteq> []" and small: "length succs \<le> usize_max"
    and reach: "\<forall>b<length succs. reachable_block succs b" and preds: "converse_graph succs preds"
  shows "\<exists>idom position. immediate_dominators succs preds = Some (Some idom) \<and> exact_tree succs position idom"
proof -
  obtain post where po: "order_loop succs [(0, 0)] ((replicate (length succs) False)[0 := True]) [] = Some post"
      "length post = length succs" "block_order succs (rev post)" using order_loop_order [OF g reach] by blast
  define order where "order = rev post"
  have o: "distinct order" "set order = {..<length succs}" "order \<noteq> []" "hd order = 0"
      "\<forall>b\<in>set order. b = 0 \<or> (\<exists>p. (p, b) \<in> graph_rel succs \<and> later_in order p b)"
    using po(3) by (simp_all add: block_order_def order_def)
  have len: "length order = length succs" using po(2) by (simp add: order_def)
  obtain position where pos: "order_positions (length succs) order = Some position" "length position = length succs"
      "\<forall>i<length succs. position ! (order ! i) = i" using order_positions_spec [OF o(1,2)] by blast
  have at: "\<exists>i<length succs. order ! i = b" if "b < length succs" for b
    using that o(2) len by (metis in_set_conv_nth lessThan_iff)
  have inj: "inj_on ((!) position) {..<length succs}"
    using at pos(3) by (metis (no_types, lifting) inj_onI lessThan_iff)
  have zero: "position ! 0 = 0" using pos(3) o(3,4) g(2) by (metis hd_conv_nth length_greater_0_conv)
  have og: "ordered_graph succs position"
  proof -
    have "\<exists>p. (p, b) \<in> graph_rel succs \<and> position ! p < position ! b" if b: "b < length succs" "b \<noteq> 0" for b
    proof -
      have bo: "b \<in> set order" using o(2) b(1) by simp
      obtain p where p: "(p, b) \<in> graph_rel succs" "later_in order p b" 
        using bspec [OF o(5) bo] b(2) by auto
      obtain i j where "i < j" "j < length order" "order ! i = p" "order ! j = b" using later_in_nth [OF p(2) o(1)] by blast
      then have "position ! p = i" "position ! b = j" using pos(3) len by auto
      then show ?thesis using p(1) \<open>i < j\<close> by blast
    qed
    then show ?thesis using g by (simp add: ordered_graph_def)
  qed
  define blocks where "blocks = drop 1 order"
  have cons: "order = 0 # blocks" using o(3,4) by (cases order) (simp_all add: blocks_def)
  have bz: "0 \<notin> set blocks" "\<forall>b<length succs. b \<noteq> 0 \<longrightarrow> b \<in> set blocks" "set blocks \<subseteq> {..<length succs}"
  proof -
    have mem: "b \<in> set order \<longleftrightarrow> b < length succs" for b using o(2) by simp
    have c: "set order = insert 0 (set blocks)" by (subst cons) simp
    show "0 \<notin> set blocks" using o(1) by (subst (asm) cons) simp
    show "\<forall>b<length succs. b \<noteq> 0 \<longrightarrow> b \<in> set blocks" using mem c by (metis insert_iff)
    show "set blocks \<subseteq> {..<length succs}" using o(2) c by (metis subset_insertI)
  qed
  have sorted: "sorted_wrt (\<lambda>x y. position ! x < position ! y) order"
    using pos(3) len by (auto simp: sorted_wrt_iff_nth_less)
  have rest: "pass_rest succs position blocks"
  proof -
    have s: "sorted_wrt (\<lambda>x y. position ! x < position ! y) (0 # blocks)" "distinct (0 # blocks)"
      using sorted o(1) unfolding cons by simp_all
    have "position ! x < position ! y" if "x < length succs" "y \<in> set blocks" "x \<notin> set blocks" for x y
      using s(1) that bz(2) by auto
    then show ?thesis using s bz(3) by (simp add: pass_rest_def)
  qed
  let ?idom = "(replicate (length succs) usize_max)[0 := 0]"
  have def0: "defined_block ?idom b \<longleftrightarrow> b = 0" for b
    using g(2) by (auto simp: defined_block_def nth_list_update usize_max_def)
  have tree: "dom_tree position ?idom"
    using pos(2) g(2) small zero inj by (auto simp add: dom_tree_def def0)
  have ch: "chain ?idom 0 = {0}" using g(2) by (simp add: chain_zero)
  have "pass_inv succs position (Suc 0) blocks ?idom"
    unfolding pass_inv_def
  proof (intro conjI allI impI ballI)
    fix b c assume "defined_block ?idom b \<and> dominator succs c b"
    then have "b = 0" "dominator succs c 0" using def0 by auto
    then show "c \<in> chain ?idom b" using walk_single [of succs] ch by (auto simp: dominator_def)
  next
    fix b c assume "defined_block ?idom b" "c \<in> chain ?idom b"
    then have "b = 0" "c = 0" using def0 ch by auto
    then show "dominator_within position succs (pass_level (Suc 0) blocks b) c b"
      using dominator_refl [of succs 0] by (simp add: dominator_def dominator_within_def)
  qed (use tree bz def0 in auto)
  from dominator_rounds_spec [OF og preds rest bz(1,2) this, of "length succs"] obtain idom where
    "dominator_rounds (length succs) preds position blocks ?idom = Some (Some idom)" "exact_tree succs position idom"
    using g(2) by auto
  then show ?thesis
    using po(1,2) pos(1) g(2) by (auto simp: immediate_dominators_def Let_def order_def blocks_def)
qed

section \<open>The intervals of the dominator tree\<close>

lemma tree_children_spec:
  "\<forall>b\<in>set blocks. b < length idom \<and> idom ! b < length children \<Longrightarrow>
    \<exists>children'. tree_children idom blocks children = Some children' \<and> length children' = length children \<and>
      (\<forall>p<length children. children' ! p = children ! p @ filter (\<lambda>b. idom ! b = p) blocks)"
proof (induction blocks arbitrary: children)
  case (Cons b blocks)
  have g: "get_at idom b = Some (idom ! b)" "get_at children (idom ! b) = Some (children ! (idom ! b))"
    using Cons.prems by (simp_all add: get_at_def)
  obtain c where c: "tree_children idom blocks (children[idom ! b := children ! (idom ! b) @ [b]]) = Some c"
      "length c = length children" "\<forall>p<length children. c ! p =
        children[idom ! b := children ! (idom ! b) @ [b]] ! p @ filter (\<lambda>b. idom ! b = p) blocks"
    using Cons.IH [of "children[idom ! b := children ! (idom ! b) @ [b]]"] Cons.prems by auto
  then show ?case using g Cons.prems by (auto simp: nth_list_update)
qed simp

lemma full_treeD:
  assumes "full_tree position idom"
  shows "dom_tree position idom" "b < length idom \<Longrightarrow> defined_block idom b"
  using assms by (auto simp: full_tree_def)

lemma chain_linear:
  assumes t: "dom_tree position idom" and x: "defined_block idom x"
  shows "a \<in> chain idom x \<Longrightarrow> b \<in> chain idom x \<Longrightarrow> a \<in> chain idom b \<or> b \<in> chain idom a"
  using t x
proof (induction rule: dom_tree_induct)
  case root
  then show ?case using dom_treeD(3) [OF t] by (simp add: chain_zero)
next
  case (step x)
  then show ?case using chain_unfold [OF step.hyps(1)] chain_trans [of "idom ! x" idom x] by auto
qed

lemma siblings_mem: "k \<in> set (siblings idom t) \<longleftrightarrow> k < length idom \<and> k \<noteq> 0 \<and> idom ! k = t"
  by (auto simp: siblings_def)

lemma sibling_facts:
  assumes f: "full_tree position idom" and k: "k \<in> set (siblings idom t)"
  shows "defined_block idom k" "t < length idom" "position ! t < position ! k" "t \<in> chain idom k" "k \<notin> chain idom t"
proof -
  have m: "k < length idom" "k \<noteq> 0" "idom ! k = t" using k by (simp_all add: siblings_mem)
  show d: "defined_block idom k" using full_treeD(2) [OF f] m by blast
  note up = dom_tree_up [OF full_treeD(1) [OF f] d m(2)]
  show "t < length idom" "position ! t < position ! k" using up m by (simp_all add: defined_block_def)
  show "t \<in> chain idom k" using chain_unfold [OF d] m by simp
  show "k \<notin> chain idom t" using chain_position [OF full_treeD(1) [OF f] up(1), of k] up(2) m by auto
qed

lemma siblings_apart:
  assumes f: "full_tree position idom" and k: "k \<in> set (siblings idom t)" "l \<in> set (siblings idom t)" "k \<noteq> l"
    and x: "x \<in> subtree idom k"
  shows "x \<notin> subtree idom l" "l \<notin> chain idom x"
proof -
  have "k \<notin> chain idom l" if "k \<in> set (siblings idom t)" "l \<in> set (siblings idom t)" "k \<noteq> l" for k l
    using sibling_facts [OF f that(1)] sibling_facts(1) [OF f that(2)] that chain_unfold [of idom l]
    by (simp add: siblings_mem)
  then have "k \<notin> chain idom l" "l \<notin> chain idom k" using k by blast+
  then show "l \<notin> chain idom x"
    using chain_linear [OF full_treeD(1) [OF f], of x k l] x full_treeD(2) [OF f, of x] by (auto simp: subtree_def)
  then show "x \<notin> subtree idom l" by (simp add: subtree_def)
qed

lemma siblings_root:
  assumes f: "full_tree position idom" and y: "y \<in> (\<Union>k\<in>set (siblings idom t). subtree idom k)"
  shows "t \<in> chain idom y" "y \<notin> chain idom t" "y \<noteq> t"
proof -
  obtain k where k: "k \<in> set (siblings idom t)" "y < length idom" "k \<in> chain idom y" using y by (auto simp: subtree_def)
  show "t \<in> chain idom y" using sibling_facts(4) [OF f k(1)] chain_trans [OF k(3)] by blast
  show n: "y \<notin> chain idom t" using sibling_facts(5) [OF f k(1)] chain_trans [of y idom t] k(3) by blast
  then show "y \<noteq> t" by auto
qed

lemma subtree_unfold:
  assumes f: "full_tree position idom" and t: "t < length idom"
  shows "subtree idom t = insert t (\<Union>k\<in>set (siblings idom t). subtree idom k)"
proof -
  have down: "x = t \<or> (\<exists>k\<in>set (siblings idom t). k \<in> chain idom x)" if "defined_block idom x" "t \<in> chain idom x" for x
    using full_treeD(1) [OF f] that
  proof (induction rule: dom_tree_induct)
    case root
    then show ?case using dom_treeD(3) [OF full_treeD(1) [OF f]] by (simp add: chain_zero)
  next
    case (step x)
    show ?case
    proof (cases "x = t \<or> idom ! x = t")
      case True
      then show ?thesis using step.hyps chain_refl [of x idom] by (metis siblings_mem defined_block_def)
    next
      case False
      then show ?thesis using step chain_unfold [OF step.hyps(1)] by auto
    qed
  qed
  show ?thesis
  proof (intro equalityI subsetI)
    fix x assume "x \<in> subtree idom t"
    then have "x < length idom" "x = t \<or> (\<exists>k\<in>set (siblings idom t). k \<in> chain idom x)"
      using down [of x] full_treeD(2) [OF f, of x] by (simp_all add: subtree_def)
    then show "x \<in> insert t (\<Union>k\<in>set (siblings idom t). subtree idom k)" by (auto simp: subtree_def)
  next
    fix x assume "x \<in> insert t (\<Union>k\<in>set (siblings idom t). subtree idom k)"
    then show "x \<in> subtree idom t" using t siblings_root(1) [OF f, of x t] by (auto simp: subtree_def)
  qed
qed

lemma toured_empty: "toured idom {} old old c c"
  by (simp add: toured_def)

lemma toured_append:
  assumes a: "toured idom S old mid c c1" and b: "toured idom T mid new c1 c2"
    and apart: "S \<inter> T = {}" "\<forall>x\<in>S. \<forall>y\<in>T. x \<notin> chain idom y \<and> y \<notin> chain idom x"
  shows "toured idom (S \<union> T) old new c c2"
proof -
  have keep: "fst new ! x = fst mid ! x" "snd new ! x = snd mid ! x" if "x \<in> S" for x
    using b apart(1) that unfolding toured_def by blast+
  have s: "c \<le> fst new ! x" "fst new ! x < snd new ! x" "snd new ! x < c1" if "x \<in> S" for x
    using a that keep [OF that] by (simp_all add: toured_def)
  have t: "c1 \<le> fst new ! x" "fst new ! x < snd new ! x" "snd new ! x < c2" if "x \<in> T" for x
    using b that by (simp_all add: toured_def)
  have le: "c \<le> c1" "c1 \<le> c2" using a b by (simp_all add: toured_def)
  have mixed: "\<not> dominates (fst new) (snd new) x y" "\<not> dominates (fst new) (snd new) y x" if "x \<in> S" "y \<in> T" for x y
    using s [OF that(1)] t [OF that(2)] by (simp_all add: dominates_def)
  have "dominates (fst new) (snd new) x y \<longleftrightarrow> x \<in> chain idom y" if "x \<in> S \<union> T" "y \<in> S \<union> T" for x y
  proof -
    consider "x \<in> S" "y \<in> S" | "x \<in> T" "y \<in> T" | "x \<in> S" "y \<in> T" | "x \<in> T" "y \<in> S" using \<open>x \<in> S \<union> T\<close> \<open>y \<in> S \<union> T\<close> by blast
    then show ?thesis
    proof cases
      case 1
      then show ?thesis using a keep by (simp add: toured_def dominates_def)
    next
      case 2
      then show ?thesis using b by (simp add: toured_def)
    qed (use mixed apart(2) in blast)+
  qed
  moreover have "c \<le> fst new ! x \<and> fst new ! x < snd new ! x \<and> snd new ! x < c2" if "x \<in> S \<union> T" for x
    using that
  proof
    assume "x \<in> S"
    then show ?thesis using s [of x] le by simp
  next
    assume "x \<in> T"
    then show ?thesis using t [of x] le by simp
  qed
  moreover have "fst new ! x = fst old ! x \<and> snd new ! x = snd old ! x" if "x \<notin> S \<union> T" for x
    using a b that by (simp add: toured_def)
  ultimately show ?thesis using a b le unfolding toured_def by simp
qed

lemma toured_node:
  assumes k: "toured idom S (entry[t := c], exits) (entry', exits') (Suc c) c1"
    and t: "t \<notin> S" "t < length entry" "t < length exits" "\<forall>y\<in>S. t \<in> chain idom y \<and> y \<notin> chain idom t"
  shows "toured idom (insert t S) (entry, exits) (entry', exits'[t := c1]) c (Suc c1)"
proof -
  have e: "entry' ! t = c" "length entry' = length entry" "length exits' = length exits" "Suc c \<le> c1"
    using k t by (simp_all add: toured_def)
  have S: "Suc c \<le> entry' ! x" "entry' ! x < exits' ! x" "exits' ! x < c1" "x \<noteq> t" if "x \<in> S" for x
    using k t(1) that by (auto simp: toured_def)
  have "dominates entry' (exits'[t := c1]) x y \<longleftrightarrow> x \<in> chain idom y" if "x \<in> insert t S" "y \<in> insert t S" for x y
  proof -
    consider "x = t" "y = t" | "x = t" "y \<in> S" | "x \<in> S" "y = t" | "x \<in> S" "y \<in> S" using \<open>x \<in> insert t S\<close> \<open>y \<in> insert t S\<close> by blast
    then show ?thesis
    proof cases
      case 4
      then show ?thesis using k S(4) [of x] S(4) [of y] by (simp add: toured_def dominates_def)
    qed (use S e t in \<open>fastforce simp: dominates_def\<close>)+
  qed
  moreover have "c \<le> entry' ! x \<and> entry' ! x < exits'[t := c1] ! x \<and> exits'[t := c1] ! x < Suc c1" if "x \<in> insert t S" for x
    using that
  proof
    assume "x \<in> S"
    then show ?thesis using S [of x] by simp
  qed (use e t in simp)
  moreover have "entry' ! x = entry ! x \<and> exits'[t := c1] ! x = exits ! x" if "x \<notin> insert t S" for x
    using k that by (simp add: toured_def)
  ultimately show ?thesis using e unfolding toured_def by simp
qed

declare intervals_loop.simps [simp del]

lemma intervals_loop_tour:
  assumes f: "full_tree position idom"
    and ch: "length children = length idom" "\<forall>t<length idom. children ! t = siblings idom t"
  shows "t < length idom \<Longrightarrow> length entry = length idom \<Longrightarrow> length exits = length idom \<Longrightarrow>
    \<exists>entry' exits' clock'. toured idom (subtree idom t) (entry, exits) (entry', exits') clock clock' \<and>
      (\<forall>stack. intervals_loop children ((t, False) # stack) entry exits clock =
        intervals_loop children stack entry' exits' clock')"
proof (induction "Max (set position) - position ! t" arbitrary: t entry exits clock rule: less_induct)
  case less
  have kids: "set ks \<subseteq> set (siblings idom t) \<Longrightarrow> distinct ks \<Longrightarrow> length en = length idom \<Longrightarrow> length ex = length idom \<Longrightarrow>
    \<exists>en' ex' clock'. toured idom (\<Union>k\<in>set ks. subtree idom k) (en, ex) (en', ex') cl clock' \<and>
      (\<forall>stack. intervals_loop children (map (\<lambda>k. (k, False)) ks @ stack) en ex cl = intervals_loop children stack en' ex' clock')"
    for ks en ex cl
  proof (induction ks arbitrary: en ex cl)
    case Nil
    then show ?case using toured_empty [of idom "(en, ex)" cl] by auto
  next
    case (Cons k ks)
    have k: "k \<in> set (siblings idom t)" "k < length idom" using Cons.prems by (auto simp: siblings_mem)
    have "position ! k \<le> Max (set position)"
      using k(2) dom_treeD(1) [OF full_treeD(1) [OF f]] by simp
    then have "Max (set position) - position ! k < Max (set position) - position ! t"
      using sibling_facts(3) [OF f k(1)] by simp
    then obtain en1 ex1 cl1 where 1: "toured idom (subtree idom k) (en, ex) (en1, ex1) cl cl1"
        "\<forall>stack. intervals_loop children ((k, False) # stack) en ex cl = intervals_loop children stack en1 ex1 cl1"
      using less.hyps [of k en ex cl] k(2) Cons.prems by blast
    have "length en1 = length idom" "length ex1 = length idom" using 1(1) Cons.prems by (simp_all add: toured_def)
    then obtain en2 ex2 cl2 where 2: "toured idom (\<Union>k\<in>set ks. subtree idom k) (en1, ex1) (en2, ex2) cl1 cl2"
        "\<forall>stack. intervals_loop children (map (\<lambda>k. (k, False)) ks @ stack) en1 ex1 cl1 = intervals_loop children stack en2 ex2 cl2"
      using Cons.IH [of en1 ex1 cl1] Cons.prems by auto
    have apart: "subtree idom k \<inter> (\<Union>k\<in>set ks. subtree idom k) = {}"
      "\<forall>x\<in>subtree idom k. \<forall>y\<in>(\<Union>k\<in>set ks. subtree idom k). x \<notin> chain idom y \<and> y \<notin> chain idom x"
    proof -
      have l: "l \<in> set (siblings idom t) \<and> l \<noteq> k" if "l \<in> set ks" for l using that Cons.prems by auto
      then show "subtree idom k \<inter> (\<Union>k\<in>set ks. subtree idom k) = {}" using siblings_apart(1) [OF f k(1)] by fastforce
      show "\<forall>x\<in>subtree idom k. \<forall>y\<in>(\<Union>k\<in>set ks. subtree idom k). x \<notin> chain idom y \<and> y \<notin> chain idom x"
      proof (intro ballI, elim UN_E, intro conjI notI)
        fix x y l assume x: "x \<in> subtree idom k" and l': "l \<in> set ks" and y: "y \<in> subtree idom l"
        have lk: "l \<in> set (siblings idom t)" "l \<noteq> k" using l l' by auto
        { assume "x \<in> chain idom y"
          then have "k \<in> chain idom y" using x chain_trans [of x idom y] by (auto simp: subtree_def)
          then show False using siblings_apart(2) [OF f lk(1) k(1) lk(2) y] by simp }
        { assume "y \<in> chain idom x"
          then have "l \<in> chain idom x" using y chain_trans [of y idom x] by (auto simp: subtree_def)
          then show False using siblings_apart(2) [OF f k(1) lk(1) lk(2) [symmetric] x] by simp }
      qed
    qed
    show ?case using toured_append [OF 1(1) 2(1) apart] 1(2) 2(2) by auto
  qed
  have d: "distinct (siblings idom t)" by (simp add: siblings_def)
  obtain en ex cl where k: "toured idom (\<Union>k\<in>set (siblings idom t). subtree idom k) (entry[t := clock], exits) (en, ex) (Suc clock) cl"
      "\<forall>stack. intervals_loop children (map (\<lambda>k. (k, False)) (siblings idom t) @ stack) (entry[t := clock]) exits (Suc clock) =
        intervals_loop children stack en ex cl"
    using kids [of "siblings idom t" "entry[t := clock]" exits "Suc clock"] d less.prems by auto
  have t: "t \<notin> (\<Union>k\<in>set (siblings idom t). subtree idom k)"
      "\<forall>y\<in>(\<Union>k\<in>set (siblings idom t). subtree idom k). t \<in> chain idom y \<and> y \<notin> chain idom t"
    using siblings_root [OF f] by blast+
  have len: "length en = length idom" using k(1) less.prems by (simp add: toured_def)
  have "toured idom (subtree idom t) (entry, exits) (en, ex[t := cl]) clock (Suc cl)"
    using toured_node [OF k(1) t(1) _ _ t(2)] subtree_unfold [OF f less.prems(1)] less.prems by simp
  moreover have "intervals_loop children ((t, False) # stack) entry exits clock =
      intervals_loop children stack en (ex[t := cl]) (Suc cl)" for stack
    using less.prems ch k(2) len by (simp add: intervals_loop.simps [of _ "(t, _) # _"] get_at_def)
  ultimately show ?case by blast
qed

lemma dominator_intervals_spec:
  assumes f: "full_tree position idom"
  shows "\<exists>entry exits. dominator_intervals idom = Some (entry, exits) \<and> length entry = length idom \<and> length exits = length idom \<and>
    (\<forall>a<length idom. \<forall>b<length idom. dominates entry exits a b \<longleftrightarrow> a \<in> chain idom b)"
proof -
  note t = full_treeD(1) [OF f]
  have "idom ! b < length idom" if "b < length idom" "b \<noteq> 0" for b
    using dom_tree_up(1) [OF t full_treeD(2) [OF f that(1)] that(2)] by (simp add: defined_block_def)
  then obtain children where c: "tree_children idom [1..<length idom] (replicate (length idom) []) = Some children"
      "length children = length idom" "\<forall>t<length idom. children ! t = siblings idom t"
    using tree_children_spec [of "[1..<length idom]" idom "replicate (length idom) []"] by (auto simp: siblings_def)
  have root: "subtree idom 0 = {..<length idom}"
    using chain_root [OF t full_treeD(2) [OF f]] by (auto simp: subtree_def)
  let ?zeros = "replicate (length idom) 0"
  obtain entry exits clock where l: "toured idom (subtree idom 0) (?zeros, ?zeros) (entry, exits) 0 clock"
      "\<forall>stack. intervals_loop children ((0, False) # stack) ?zeros ?zeros 0 = intervals_loop children stack entry exits clock"
    using intervals_loop_tour [OF f c(2,3), of 0 ?zeros ?zeros 0] dom_treeD(2) [OF t] by auto
  have "dominator_intervals idom = Some (entry, exits)"
    using c(1) l(2) by (simp add: dominator_intervals_def intervals_loop.simps [of _ "[]"])
  then show ?thesis using l(1) by (simp add: toured_def root)
qed

lemma exact_tree_full: "exact_tree succs position idom \<Longrightarrow> full_tree position idom"
  by (simp add: exact_tree_def full_tree_def)

lemma dominators_computed:
  assumes "wf_graph succs" "succs \<noteq> []" "length succs \<le> usize_max"
    and "\<forall>b<length succs. reachable_block succs b" "converse_graph succs preds"
  shows "\<exists>idom entry exits. immediate_dominators succs preds = Some (Some idom) \<and> dominator_intervals idom = Some (entry, exits) \<and>
    length entry = length succs \<and> length exits = length succs \<and>
    (\<forall>a<length succs. \<forall>b<length succs. dominates entry exits a b \<longleftrightarrow> dominator succs a b)"
proof -
  obtain idom position where i: "immediate_dominators succs preds = Some (Some idom)" "exact_tree succs position idom"
    using immediate_dominators_spec [OF assms] by blast
  then show ?thesis using dominator_intervals_spec [OF exact_tree_full [OF i(2)]] by (auto simp: exact_tree_def)
qed

section \<open>Counting in topological order\<close>

lemma release_callees_spec:
  assumes "topo_counts n fin queue indegree" "length depth = n" "v \<in> set fin" "set rs \<subseteq> {..<n}"
    and "\<forall>t<n. indegree ! t = base t + count_list rs t"
  shows "\<exists>depth' indegree' queue'. release_callees v rs depth indegree queue = Some (depth', indegree', queue') \<and>
    topo_counts n fin queue' indegree' \<and> length depth' = n \<and> (\<forall>t<n. indegree' ! t = base t) \<and>
    (\<forall>t\<in>set rs. depth ! v < depth' ! t) \<and> (\<forall>t\<in>set fin. depth' ! t = depth ! t) \<and>
    (\<forall>t<n. depth ! t \<le> depth' ! t \<and> (depth' ! t = depth ! t \<or> t \<in> set rs \<and> depth' ! t = Suc (depth ! v)))"
  using assms
proof (induction rs arbitrary: queue indegree depth)
  case Nil
  then show ?case by simp
next
  case (Cons r rs)
  have r: "r < n" using Cons.prems(4) by simp
  have deg: "indegree ! r = Suc (base r + count_list rs r)" using Cons.prems(5) r by simp
  have nf: "r \<notin> set (fin @ queue)" using Cons.prems(1) r deg by (simp add: topo_counts_def)
  have vr: "v \<noteq> r" "v < n" using nf Cons.prems(1,3) by (auto simp: topo_counts_def)
  let ?ind = "indegree[r := base r + count_list rs r]"
  let ?q = "if base r + count_list rs r = 0 then queue @ [r] else queue"
  let ?d = "depth[r := max (depth ! r) (Suc (depth ! v))]"
  have len: "length indegree = n" using Cons.prems(1) by (simp add: topo_counts_def)
  have step: "release_callees v (r # rs) depth indegree queue = release_callees v rs ?d ?ind ?q"
    using r vr deg len Cons.prems(2) by (simp add: release_target_def get_at_def)
  have "t \<in> set (fin @ ?q) \<longleftrightarrow> ?ind ! t = 0" if "t < n" for t
    using Cons.prems(1) that r deg len nf by (auto simp: topo_counts_def nth_list_update)
  then have inv: "topo_counts n fin ?q ?ind"
    using Cons.prems(1) r nf len by (auto simp: topo_counts_def)
  have ind: "\<forall>t<n. ?ind ! t = base t + count_list rs t"
    using Cons.prems(5) r len by (auto simp: nth_list_update)
  have dl: "length ?d = n" and sub: "set rs \<subseteq> {..<n}" using Cons.prems(2,4) by simp_all
  obtain depth' indegree' queue' where o: "release_callees v rs ?d ?ind ?q = Some (depth', indegree', queue')"
      "topo_counts n fin queue' indegree'" "length depth' = n" "\<forall>t<n. indegree' ! t = base t"
      "\<forall>t\<in>set rs. ?d ! v < depth' ! t" "\<forall>t\<in>set fin. depth' ! t = ?d ! t"
      "\<forall>t<n. ?d ! t \<le> depth' ! t \<and> (depth' ! t = ?d ! t \<or> t \<in> set rs \<and> depth' ! t = Suc (?d ! v))"
    using Cons.IH [OF inv dl Cons.prems(3) sub ind] by blast
  have v: "?d ! v = depth ! v" using vr by simp
  have new: "depth ! r \<le> ?d ! r" "depth ! v < ?d ! r" "?d ! r = depth ! r \<or> ?d ! r = Suc (depth ! v)"
    using Cons.prems(2) r by (auto simp: max_def)
  have "depth ! v < depth' ! t" if "t \<in> set (r # rs)" for t
    using that o(5,7) v new r by (cases "t = r") (auto intro: less_le_trans)
  moreover have "depth' ! t = depth ! t" if "t \<in> set fin" for t
    using that o(6) nf by (cases "t = r") auto
  moreover have "depth ! t \<le> depth' ! t \<and> (depth' ! t = depth ! t \<or> t \<in> set (r # rs) \<and> depth' ! t = Suc (depth ! v))"
    if "t < n" for t
  proof (cases "t = r")
    case True
    then show ?thesis using o(7) r v new by (metis list.set_intros(1) order_trans)
  next
    case False
    then show ?thesis using o(7) that v by auto
  qed
  ultimately show ?case using o(2,3,4) step o(1) by (intro exI [of _ depth'] exI [of _ indegree'] exI [of _ queue']) simp
qed

lemma kahn_step:
  assumes g: "wf_graph succs" and i: "kahn_inv succs fin (v # queue) depth indegree"
  shows "\<exists>depth' indegree' queue'. release_callees v (succs ! v) depth indegree queue = Some (depth', indegree', queue') \<and>
    kahn_inv succs (fin @ [v]) queue' depth' indegree'"
proof -
  let ?n = "length succs"
  have t: "topo_counts ?n fin (v # queue) indegree" "length depth = ?n"
      "\<forall>t<?n. indegree ! t = (\<Sum>u\<in>{..<?n} - set fin. count_list (succs ! u) t)"
      "\<forall>u\<in>set fin. \<forall>t\<in>set (succs ! u). depth ! u < depth ! t"
      "\<forall>t<?n. \<exists>p. graph_path succs p \<and> last p = t \<and> length p = depth ! t"
    using i by (auto simp: kahn_inv_def)
  have t': "topo_counts ?n (fin @ [v]) queue indegree" using t(1) by (auto simp: topo_counts_def)
  have v: "v < ?n" "v \<notin> set fin" using t(1) by (auto simp: topo_counts_def)
  define base where "base = (\<lambda>t. \<Sum>u\<in>{..<?n} - set (fin @ [v]). count_list (succs ! u) t)"
  have split: "{..<?n} - set fin = insert v ({..<?n} - set (fin @ [v]))" using v by auto
  have "(\<Sum>u\<in>{..<?n} - set fin. count_list (succs ! u) x) = base x + count_list (succs ! v) x" for x
    unfolding base_def split by (subst sum.insert) auto
  then have ind: "\<forall>t<?n. indegree ! t = base t + count_list (succs ! v) t" using t(3) by metis
  have sv: "set (succs ! v) \<subseteq> {..<?n}" using g v by (auto simp: wf_graph_def)
  have vf: "v \<in> set (fin @ [v])" by simp
  obtain depth' indegree' queue' where
    o: "release_callees v (succs ! v) depth indegree queue = Some (depth', indegree', queue')"
      "topo_counts ?n (fin @ [v]) queue' indegree'" "length depth' = ?n" "\<forall>t<?n. indegree' ! t = base t"
      "\<forall>t\<in>set (succs ! v). depth ! v < depth' ! t" "\<forall>t\<in>set (fin @ [v]). depth' ! t = depth ! t"
      "\<forall>t<?n. depth ! t \<le> depth' ! t \<and> (depth' ! t = depth ! t \<or> t \<in> set (succs ! v) \<and> depth' ! t = Suc (depth ! v))"
    using release_callees_spec [OF t' t(2) vf sv ind] by blast
  have "depth' ! u < depth' ! x" if u: "u \<in> set (fin @ [v])" "x \<in> set (succs ! u)" for u x
  proof -
    have ul: "u < ?n" using u(1) t(1) by (auto simp: topo_counts_def)
    then have "x < ?n" using g u(2) by (auto simp: wf_graph_def)
    then have "depth ! x \<le> depth' ! x" using o(7) by blast
    moreover have "depth' ! u = depth ! u" using o(6) u(1) by blast
    moreover have "depth ! u < depth ! x" if "u \<noteq> v" using t(4) u that by auto
    ultimately show ?thesis using o(5) u by (cases "u = v") auto
  qed
  moreover have "\<exists>p. graph_path succs p \<and> last p = x \<and> length p = depth' ! x" if x: "x < ?n" for x
  proof (cases "depth' ! x = depth ! x")
    case True
    then show ?thesis using t(5) x by simp
  next
    case False
    then have e: "x \<in> set (succs ! v)" "depth' ! x = Suc (depth ! v)" using o(7) x by auto
    obtain p where "graph_path succs p" "last p = v" "length p = depth ! v" using t(5) v by blast
    then show ?thesis using e x v
      by (intro exI [of _ "p @ [x]"]) (auto simp: graph_path_def successively_append_iff graph_rel_iff)
  qed
  ultimately show ?thesis using o by (auto simp: kahn_inv_def base_def)
qed

lemma call_loop_spec:
  "wf_graph succs \<Longrightarrow> kahn_inv succs fin queue depth indegree \<Longrightarrow> seen = length fin \<Longrightarrow>
    \<exists>fin' depth' indegree'. call_loop succs queue depth indegree seen = Some (depth', length fin') \<and>
      kahn_inv succs fin' [] depth' indegree'"
proof (induction succs queue depth indegree seen arbitrary: fin rule: call_loop.induct)
  case (1 succs depth indegree seen)
  then show ?case by auto
next
  case (2 succs v queue depth indegree seen)
  obtain d i q where s: "release_callees v (succs ! v) depth indegree queue = Some (d, i, q)"
      "kahn_inv succs (fin @ [v]) q d i" using kahn_step [OF "2.prems"(1,2)] by blast
  have g: "get_at succs v = Some (succs ! v)"
    using "2.prems"(2) by (auto simp: kahn_inv_def topo_counts_def get_at_def)
  show ?case using "2.IH" [OF g s(1) refl refl "2.prems"(1) s(2)] "2.prems"(3) g s(1) by simp
qed

lemma zero_indices_spec:
  "distinct (zero_indices xs)" "set (zero_indices xs) = {i. i < length xs \<and> xs ! i = 0}"
proof -
  have "distinct (map fst (enumerate 0 xs))" by simp
  then show "distinct (zero_indices xs)" unfolding zero_indices_def by (rule distinct_map_filter)
  show "set (zero_indices xs) = {i. i < length xs \<and> xs ! i = 0}"
    by (force simp: zero_indices_def in_set_enumerate_eq)
qed

lemma kahn_inv_start:
  assumes "degree_table succs indegree"
  shows "kahn_inv succs [] (zero_indices indegree) (replicate (length succs) 1) indegree"
proof -
  have "graph_path succs [t]" if "t < length succs" for t using that by (simp add: graph_path_def)
  then have "\<exists>p. graph_path succs p \<and> last p = t \<and> length p = replicate (length succs) 1 ! t" if "t < length succs" for t
    using that by (intro exI [of _ "[t]"]) simp
  then show ?thesis using assms zero_indices_spec [of indegree]
    by (auto simp: kahn_inv_def topo_counts_def degree_table_def)
qed

lemma count_list_pos: "0 < count_list xs x \<longleftrightarrow> x \<in> set xs"
  using count_notin [of x xs] by (induction xs) auto

lemma graph_path_depth:
  assumes "\<forall>u<length succs. \<forall>t\<in>set (succs ! u). depth ! u < (depth ! t :: nat)"
    and "\<forall>u<length succs. 0 < depth ! u"
  shows "graph_path succs p \<Longrightarrow> length p \<le> depth ! last p"
proof (induction p rule: rev_induct)
  case (snoc x p)
  show ?case
  proof (cases p rule: rev_cases)
    case Nil
    then show ?thesis using snoc.prems assms(2) by (auto simp: graph_path_def Suc_le_eq)
  next
    case (snoc q a)
    then have "graph_path succs p" "(a, x) \<in> graph_rel succs"
      using snoc.prems by (auto simp: graph_path_def successively_append_iff)
    then show ?thesis using snoc.IH assms(1) snoc by (fastforce simp: graph_rel_iff)
  qed
qed (simp add: graph_path_def)

lemma kahn_inv_end:
  assumes g: "wf_graph succs" and i: "kahn_inv succs fin [] depth indegree"
  shows "length fin = length succs \<longleftrightarrow> acyclic (graph_rel succs)"
    "length fin = length succs \<Longrightarrow> graph_path succs p \<Longrightarrow> length p \<le> depth ! last p"
proof -
  let ?n = "length succs"
  have t: "topo_counts ?n fin [] indegree" "length depth = ?n"
      "\<forall>t<?n. indegree ! t = (\<Sum>u\<in>{..<?n} - set fin. count_list (succs ! u) t)"
      "\<forall>u\<in>set fin. \<forall>t\<in>set (succs ! u). depth ! u < depth ! t"
      "\<forall>t<?n. \<exists>p. graph_path succs p \<and> last p = t \<and> length p = depth ! t"
    using i by (auto simp: kahn_inv_def)
  have fin: "distinct fin" "set fin \<subseteq> {..<?n}" "\<And>t. t < ?n \<Longrightarrow> t \<in> set fin \<longleftrightarrow> indegree ! t = 0"
    using t(1) by (auto simp: topo_counts_def)
  have full: "length fin = ?n \<longleftrightarrow> set fin = {..<?n}"
    using fin(1,2) distinct_card [OF fin(1)] card_subset_eq [of "{..<?n}" "set fin"] by auto
  have pos: "\<forall>u<?n. 0 < depth ! u" using t(5) by (metis graph_path_def length_greater_0_conv)
  have up: "\<forall>u<?n. \<forall>t\<in>set (succs ! u). depth ! u < depth ! t" if "length fin = ?n"
    using t(4) that full by simp
  show "length p \<le> depth ! last p" if "length fin = ?n" "graph_path succs p"
    using graph_path_depth [OF up [OF that(1)] pos that(2)] .
  show "length fin = ?n \<longleftrightarrow> acyclic (graph_rel succs)"
  proof
    assume l: "length fin = ?n"
    have "graph_rel succs \<subseteq> measure ((!) depth)" using up [OF l] by (auto simp: graph_rel_iff)
    then show "acyclic (graph_rel succs)" using wf_subset [OF wf_measure] wf_acyclic by blast
  next
    assume ac: "acyclic (graph_rel succs)"
    have "finite (graph_rel succs)"
      by (rule finite_subset [of _ "{..<?n} \<times> {..<?n}"]) (use g in \<open>auto simp: graph_rel_iff wf_graph_def\<close>)
    then have wf: "wf (graph_rel succs)" using ac by (rule finite_acyclic_wf)
    show "length fin = ?n"
    proof (rule ccontr)
      assume "length fin \<noteq> ?n"
      then obtain x where "x \<in> {..<?n} - set fin" using full fin(2) by blast
      then obtain z where z: "z \<in> {..<?n} - set fin" "\<And>y. (y, z) \<in> graph_rel succs \<Longrightarrow> y \<notin> {..<?n} - set fin"
        using wfE_min [OF wf] by metis
      then have "0 < (\<Sum>u\<in>{..<?n} - set fin. count_list (succs ! u) z)" using fin(3) [of z] t(3) by (metis DiffD1 DiffD2 bot_nat_0.not_eq_extremum lessThan_iff)
      then obtain u where "u \<in> {..<?n} - set fin" "0 < count_list (succs ! u) z"
        by (metis gr_zeroI less_irrefl sum.neutral)
      then show False using z(2) [of u] by (auto simp: count_list_pos graph_rel_iff)
    qed
  qed
qed

lemma foldr_max_ge: "x \<in> set xs \<Longrightarrow> x \<le> foldr max xs (0::nat)"
  by (induction xs) (auto simp: le_max_iff_disj)

lemma foldr_max_mem: "xs \<noteq> [] \<Longrightarrow> foldr max xs (0::nat) \<in> set xs"
proof (induction xs)
  case (Cons x xs)
  then show ?case by (cases xs) (auto simp: max_def)
qed simp

text \<open>The call loop visits every function exactly when no chain of calls returns to its start, and the largest depth is then the length
  of the longest chain.\<close>

lemma call_loop_result:
  assumes g: "wf_graph succs" and d: "degree_table succs indegree"
  shows "\<exists>depth seen. call_loop succs (zero_indices indegree) (replicate (length succs) 1) indegree 0 = Some (depth, seen) \<and>
    (seen = length succs \<longleftrightarrow> acyclic (graph_rel succs)) \<and>
    (seen = length succs \<longrightarrow> (\<forall>k. foldr max depth 0 \<le> k \<longleftrightarrow> (\<forall>p. graph_path succs p \<longrightarrow> length p \<le> k)))"
proof -
  obtain fin depth indegree' where l: "call_loop succs (zero_indices indegree) (replicate (length succs) 1) indegree 0 =
      Some (depth, length fin)" "kahn_inv succs fin [] depth indegree'"
    using call_loop_spec [OF g kahn_inv_start [OF d]] by auto
  have "foldr max depth 0 \<le> k \<longleftrightarrow> (\<forall>p. graph_path succs p \<longrightarrow> length p \<le> k)" if full: "length fin = length succs" for k
  proof
    assume k: "foldr max depth 0 \<le> k"
    show "\<forall>p. graph_path succs p \<longrightarrow> length p \<le> k"
    proof (intro allI impI)
      fix p assume p: "graph_path succs p"
      have "last p \<in> set p" "set p \<subseteq> {..<length succs}" "length depth = length succs"
        using p l(2) by (simp_all add: graph_path_def kahn_inv_def)
      then have "last p < length depth" by auto
      then have "depth ! last p \<le> k" using k foldr_max_ge [of "depth ! last p" depth] by simp
      then show "length p \<le> k" using kahn_inv_end(2) [OF g l(2) full p] by simp
    qed
  next
    assume p: "\<forall>p. graph_path succs p \<longrightarrow> length p \<le> k"
    show "foldr max depth 0 \<le> k"
    proof (cases "depth = []")
      case False
      then obtain t where "t < length depth" "depth ! t = foldr max depth 0"
        using foldr_max_mem by (metis in_set_conv_nth)
      then show ?thesis using l(2) p by (metis kahn_inv_def)
    qed simp
  qed
  then show ?thesis using l kahn_inv_end(1) [OF g l(2)] by blast
qed

lemma release_callees_targets:
  assumes "caller < length depth" "\<forall>t\<in>set ts. t < length depth"
  shows "\<exists>depth'. length depth' = length depth \<and>
    release_callees caller ts depth indegree queue = map_option (Pair depth') (release_targets ts indegree queue)"
  using assms
proof (induction ts arbitrary: depth indegree queue)
  case (Cons t ts)
  show ?case
  proof (cases "release_target t indegree queue")
    case None
    then show ?thesis by auto
  next
    case (Some iq)
    obtain i q where iq: "iq = (i, q)" by force
    show ?thesis using Cons.IH [of "depth[t := max (depth ! t) (Suc (depth ! caller))]" i q] Cons.prems Some iq
      by (auto simp: get_at_def)
  qed
qed auto

lemma forward_loop_call_loop:
  "wf_graph succs \<Longrightarrow> length depth = length succs \<Longrightarrow>
    forward_loop succs queue indegree seen = map_option snd (call_loop succs queue depth indegree seen)"
proof (induction succs queue indegree seen arbitrary: depth rule: forward_loop.induct)
  case (2 succs node queue indegree seen)
  show ?case
  proof (cases "get_at succs node")
    case (Some ts)
    then have n: "node < length succs" "ts = succs ! node" by (auto simp: get_at_Some_iff)
    obtain d where d: "length d = length depth"
      "release_callees node ts depth indegree queue = map_option (Pair d) (release_targets ts indegree queue)"
      using release_callees_targets [of node depth ts indegree queue] n "2.prems" by (auto simp: wf_graph_def)
    show ?thesis
    proof (cases "release_targets ts indegree queue")
      case (Some iq)
      then show ?thesis using "2.IH" [OF \<open>get_at succs node = Some ts\<close> Some] d \<open>get_at succs node = Some ts\<close> "2.prems"
        by (cases iq) auto
    qed (use Some d in simp)
  qed simp
qed simp

lemma forward_loop_result:
  assumes g: "wf_graph succs" and d: "degree_table succs indegree"
  shows "\<exists>seen. forward_loop succs (zero_indices indegree) indegree 0 = Some seen \<and>
    (seen = length succs \<longleftrightarrow> acyclic (graph_rel succs))"
  using call_loop_result [OF assms]
    forward_loop_call_loop [OF g, of "replicate (length succs) 1" "zero_indices indegree" indegree 0] by auto

section \<open>Natural loops\<close>

lemma loop_members_spec:
  "pred_table succs preds \<Longrightarrow> length members = length succs \<Longrightarrow> \<forall>s\<in>set stack. s < length succs \<Longrightarrow>
    header \<in> marked members \<Longrightarrow> loop_closed succs header members stack \<Longrightarrow>
    \<exists>members'. loop_members preds header stack members = Some members' \<and> length members' = length succs \<and>
      loop_closed succs header members' [] \<and> marked members \<union> set stack \<subseteq> marked members' \<and>
      (\<forall>x\<in>marked members'. x \<in> marked members \<or> (\<exists>s\<in>set stack. (x, s) \<in> (loop_rel succs header)\<^sup>*))"
proof (induction preds header stack members rule: loop_members.induct)
  case (1 preds header members)
  then show ?case by auto
next
  case (2 preds header node stack members)
  have n: "node < length succs" "get_at members node = Some (members ! node)" "get_at preds node = Some (preds ! node)"
    using "2.prems" by (auto simp: get_at_def pred_table_def)
  show ?case
  proof (cases "members ! node")
    case True
    then have g: "get_at members node = Some True" using n by simp
    have nm: "node \<in> marked members" using True n "2.prems"(2) by (simp add: marked_def)
    then have "loop_closed succs header members stack" using "2.prems"(5) unfolding loop_closed_def by auto
    then obtain m where m: "loop_members preds header stack members = Some m" "length m = length succs"
        "loop_closed succs header m []" "marked members \<union> set stack \<subseteq> marked m"
        "\<forall>x\<in>marked m. x \<in> marked members \<or> (\<exists>s\<in>set stack. (x, s) \<in> (loop_rel succs header)\<^sup>*)"
      using "2.IH"(1) [OF g _ "2.prems"(1,2) _ "2.prems"(4)] "2.prems"(3) by auto
    then show ?thesis using g nm by auto
  next
    case False
    then have g: "get_at members node = Some False" using n by simp
    let ?ps = "rev (filter (\<lambda>p. p \<noteq> header) (preds ! node))" let ?m = "members[node := True]"
    have nh: "node \<noteq> header" using False "2.prems"(4) by (auto simp: marked_def)
    have mk: "marked ?m = insert node (marked members)" using n "2.prems"(2) by simp
    have ps: "p \<in> set ?ps \<longleftrightarrow> (p, node) \<in> loop_rel succs header" for p
      using "2.prems"(1) n(1) nh by (auto simp: pred_table_def loop_rel_def)
    have "loop_closed succs header ?m (?ps @ stack)"
      using "2.prems"(5) ps unfolding loop_closed_def mk by auto
    moreover have "\<forall>s\<in>set (?ps @ stack). s < length succs"
      using ps "2.prems"(3) by (auto simp: loop_rel_def graph_rel_iff)
    ultimately obtain m where m: "loop_members preds header (?ps @ stack) ?m = Some m" "length m = length succs"
        "loop_closed succs header m []" "marked ?m \<union> set (?ps @ stack) \<subseteq> marked m"
        "\<forall>x\<in>marked m. x \<in> marked ?m \<or> (\<exists>s\<in>set (?ps @ stack). (x, s) \<in> (loop_rel succs header)\<^sup>*)"
      using "2.IH"(2) [OF g _ n(3) "2.prems"(1)] "2.prems"(2,4) mk by auto
    have "x \<in> marked members \<or> (\<exists>s\<in>set (node # stack). (x, s) \<in> (loop_rel succs header)\<^sup>*)" if "x \<in> marked m" for x
    proof -
      from m(5) that consider "x = node" | "x \<in> marked members" | s where "s \<in> set ?ps" "(x, s) \<in> (loop_rel succs header)\<^sup>*"
        | s where "s \<in> set stack" "(x, s) \<in> (loop_rel succs header)\<^sup>*" unfolding mk by auto
      then show ?thesis
      proof cases
        case (3 s)
        then have "(x, node) \<in> (loop_rel succs header)\<^sup>*" using ps [of s] by (meson rtrancl_into_rtrancl)
        then show ?thesis by auto
      qed auto
    qed
    then show ?thesis using m g n(3) mk by auto
  qed
qed

lemma loop_members_exact:
  assumes "pred_table succs preds" "length members = length succs" "s < length succs"
    and "header \<in> marked members" "loop_closed succs header members []"
  shows "\<exists>members'. loop_members preds header [s] members = Some members' \<and> length members' = length succs \<and>
    loop_closed succs header members' [] \<and>
    marked members' = marked members \<union> {x. (x, s) \<in> (loop_rel succs header)\<^sup>*}"
proof -
  have "loop_closed succs header members [s]" using assms(5) by (auto simp: loop_closed_def)
  then obtain m where m: "loop_members preds header [s] members = Some m" "length m = length succs"
      "loop_closed succs header m []" "marked members \<union> set [s] \<subseteq> marked m"
      "\<forall>x\<in>marked m. x \<in> marked members \<or> (\<exists>s\<in>set [s]. (x, s) \<in> (loop_rel succs header)\<^sup>*)"
    using loop_members_spec [OF assms(1,2), of "[s]" header] assms(3,4) by auto
  have "x \<in> marked m" if "(x, s) \<in> (loop_rel succs header)\<^sup>*" for x
    using that
  proof (induction rule: converse_rtrancl_induct)
    case base
    then show ?case using m(4) by simp
  next
    case (step y z)
    then show ?case using m(3) by (auto simp: loop_closed_def)
  qed
  then show ?thesis using m by (intro exI [of _ m]) auto
qed

section \<open>Properties\<close>

text \<open>C34: on every graph whose blocks are all reachable the dominator computation succeeds and is exact. The
  rounds of the iteration end within one round per block without an index out of range, so the verifier's fallback
  diagnostic for missing dominators cannot arise, and the entry and exit times of the resulting tree decide for
  any two blocks whether every walk from the entry to the second passes the first.\<close>

theorem dominators_exact:
  assumes "wf_graph succs" "succs \<noteq> []" "length succs \<le> usize_max" "converse_graph succs preds"
    and "reachable_from_entry succs = Some reached" "list_all (\<lambda>r. r) reached"
  shows "\<exists>idom entry exits. immediate_dominators succs preds = Some (Some idom) \<and> dominator_intervals idom = Some (entry, exits) \<and>
    (\<forall>a<length succs. \<forall>b<length succs. dominates entry exits a b \<longleftrightarrow> dominator succs a b)"
proof -
  have "\<forall>b<length succs. reachable_block succs b"
    using reachable_from_entry_spec [OF assms(1,2)] assms(5,6) by (auto simp: list_all_length)
  then show ?thesis using dominators_computed [OF assms(1,2,3) _ assms(4)] by blast
qed

theorem dominators_exact_witness:
  "\<exists>idom entry exits. immediate_dominators [[1], [2, 3], [1], [4, 5], [5], []] [[], [0, 2], [1], [1], [3], [3, 4]] = Some (Some idom) \<and>
    dominator_intervals idom = Some (entry, exits) \<and>
    (dominates entry exits 1 5 \<longleftrightarrow> dominator [[1], [2, 3], [1], [4, 5], [5], []] 1 5) \<and>
    (dominates entry exits 4 5 \<longleftrightarrow> dominator [[1], [2, 3], [1], [4, 5], [5], []] 4 5)"
proof -
  let ?g = "[[1], [2, 3], [1], [4, 5], [5], []] :: usize list list" and ?p = "[[], [0, 2], [1], [1], [3], [3, 4]] :: usize list list"
  have "wf_graph ?g" "converse_graph ?g ?p" by code_simp+
  moreover have "length ?g \<le> usize_max" by (simp add: usize_max_def)
  moreover have "reachable_from_entry ?g = Some (replicate 6 True)" by code_simp
  ultimately show ?thesis
    using dominators_exact [of ?g ?p "replicate 6 True"] by (fastforce simp: numeral_eq_Suc)
qed

end
