(* ===== verification/Control_Flow_Exact.thy ===== *)
theory Control_Flow_Exact
  imports Control_Flow_Facts Flow_Graph_Facts
begin

text \<open>
  The parts of the control-flow verifier that look at a whole function or program: reachability, dominance of
  uses, reducibility, nesting of loops, the call graph and the public ABI, and the verifier itself. The verifier
  is total and accepts exactly \<open>flow_ok\<close>, which is stated with walks, dominators, cycles and chains of calls
  instead of the algorithms.
\<close>

section \<open>Specification vocabulary\<close>

definition edge_graph :: "usize \<Rightarrow> edge list \<Rightarrow> usize list list" where
  "edge_graph n edges = map (\<lambda>b. map eg_target (filter (\<lambda>e. eg_source e = b) edges)) [0..<n]"

definition edge_preds :: "usize \<Rightarrow> edge list \<Rightarrow> usize list list" where
  "edge_preds n edges = map (\<lambda>b. map eg_source (filter (\<lambda>e. eg_target e = b) edges)) [0..<n]"

definition natural_loop :: "usize list list \<Rightarrow> (edge \<Rightarrow> bool) \<Rightarrow> edge list \<Rightarrow> usize \<Rightarrow> usize set" where
  "natural_loop succs back edges h =
     insert h {x. \<exists>e\<in>set edges. back e \<and> eg_target e = h \<and> (x, eg_source e) \<in> (loop_rel succs h)\<^sup>*}"

definition loop_headers :: "(edge \<Rightarrow> bool) \<Rightarrow> edge list \<Rightarrow> usize set" where
  "loop_headers back edges = {h. \<exists>e\<in>set edges. back e \<and> eg_target e = h}"

definition class_inv :: "usize list list \<Rightarrow> (edge \<Rightarrow> bool) \<Rightarrow> edge list \<Rightarrow> loop_state \<Rightarrow> bool" where
  "class_inv succs back edges s =
     (ls_forward s = edge_graph (length succs) (filter (\<lambda>e. \<not> back e) edges) \<and>
      ls_indegree s = map (\<lambda>t. length (filter (\<lambda>e. eg_target e = t) (filter (\<lambda>e. \<not> back e) edges))) [0..<length succs] \<and>
      bt_wf (ls_loops s) \<and> dom (map_of (ls_loops s)) = loop_headers back edges \<and>
      (\<forall>h members. map_of (ls_loops s) h = Some members \<longrightarrow>
         length members = length succs \<and> loop_closed succs h members [] \<and> marked members = natural_loop succs back edges h))"

definition loops_nested :: "usize list list \<Rightarrow> (edge \<Rightarrow> bool) \<Rightarrow> edge list \<Rightarrow> usize \<Rightarrow> bool" where
  "loops_nested succs back edges limit =
     (\<forall>b<length succs. card {h \<in> loop_headers back edges. b \<in> natural_loop succs back edges h} \<le> limit)"

text \<open>The graph of a function is reducible: leaving out the edges whose target dominates their source breaks every cycle.\<close>

definition back_edge :: "usize list list \<Rightarrow> edge \<Rightarrow> bool" where
  "back_edge succs e = dominator succs (eg_target e) (eg_source e)"

definition reducible :: "usize list list \<Rightarrow> edge list \<Rightarrow> bool" where
  "reducible succs edges = acyclic {(eg_source e, eg_target e) | e. e \<in> set edges \<and> \<not> back_edge succs e}"

definition available :: "value_info list \<Rightarrow> usize list list \<Rightarrow> usize \<Rightarrow> usize \<Rightarrow> u32 \<Rightarrow> bool" where
  "available vals succs use_block use_position v =
     (case lookup_value v vals of
        None \<Rightarrow> True
      | Some info \<Rightarrow>
          (case vin_location info of
             AtParameter \<Rightarrow> True
           | AtBlockParameter b \<Rightarrow> dominator succs b use_block
           | AtInstruction b position \<Rightarrow> if b = use_block then position < use_position else dominator succs b use_block))"

definition cfg_ok :: "flow_function \<Rightarrow> value_info list \<Rightarrow> edge list \<Rightarrow> bool" where
  "cfg_ok f vals edges =
     (let n = length (ff_blocks f); succs = edge_graph n edges
      in (\<forall>b<n. reachable_block succs b) \<and>
         (\<forall>(v, bi, position, sp)\<in>set (concat (map block_uses (enumerate 0 (ff_blocks f)))). available vals succs bi position v) \<and>
         reducible succs edges \<and> loops_nested succs (back_edge succs) edges MAX_LOOP_NESTING)"

definition function_definitions :: "flow_function \<Rightarrow> (flow_value \<times> definition_location) list" where
  "function_definitions f = map (\<lambda>d. (d, AtParameter)) (ff_parameters f) @ block_table (enumerate 0 (ff_blocks f))"

definition value_table :: "flow_function \<Rightarrow> value_info list" where
  "value_table f = map definition_info (function_definitions f)"

definition function_edges :: "flow_function \<Rightarrow> edge list" where
  "function_edges f = concat (map block_graph (enumerate 0 (ff_blocks f)))"

definition function_calls :: "function_key \<Rightarrow> flow_function \<Rightarrow> call_edges" where
  "function_calls key f = concat (map (block_call_edges key) (enumerate 0 (ff_blocks f)))"

definition flow_function_ok :: "source_map \<Rightarrow> signatures \<Rightarrow> file_id \<Rightarrow> flow_function \<Rightarrow> bool" where
  "flow_function_ok sources sigs file f =
     ((\<forall>sp\<in>set (function_spans f). span_in sources file sp) \<and> ff_result f \<noteq> TyUnit \<and>
      definitions_ok 0 (function_definitions f) \<and>
      (\<forall>bi<length (ff_blocks f). bk_id (ff_blocks f ! bi) = of_nat bi) \<and> bk_parameters (ff_blocks f ! 0) = [] \<and>
      (\<forall>bi<length (ff_blocks f). block_ok sigs f (value_table f) bi (ff_blocks f ! bi)) \<and>
      cfg_ok f (value_table f) (function_edges f))"

definition function_count :: "flow_module list \<Rightarrow> usize" where
  "function_count ms = sum_list (map (\<lambda>m. length (fm_functions m)) ms)"

definition flat_index :: "flow_module list \<Rightarrow> function_key \<Rightarrow> usize" where
  "flat_index ms k = function_count (take (fk_module k) ms) + fk_function k"

definition key_in :: "flow_module list \<Rightarrow> function_key \<Rightarrow> bool" where
  "key_in ms k = (fk_module k < length ms \<and> fk_function k < length (fm_functions (ms ! fk_module k)))"

definition call_edge :: "flow_module list \<Rightarrow> function_key \<times> function_key \<Rightarrow> edge" where
  "call_edge ms c = \<lparr>eg_source = flat_index ms (fst c), eg_target = flat_index ms (snd c), eg_arguments = []\<rparr>"

text \<open>No chain of calls is longer than the limit, so none returns to its start.\<close>

definition calls_bounded :: "call_edges \<Rightarrow> bool" where
  "calls_bounded calls =
     (acyclic (set calls) \<and> (\<forall>ks. successively (\<lambda>a b. (a, b) \<in> set calls) ks \<longrightarrow> length ks \<le> MAX_STATIC_CALL_DEPTH))"

definition public_exports :: "flow_program \<Rightarrow> raw_export list" where
  "public_exports p =
     (case get_at (fp_modules p) (unat (fp_entry_module p)) of
        None \<Rightarrow> []
      | Some m \<Rightarrow> fst (entry_exports (fm_functions m) 0))"

definition program_calls :: "flow_program \<Rightarrow> call_edges" where
  "program_calls p = concat (map (\<lambda>(key, f, file). function_calls key f) (program_functions p))"

definition flow_ok :: "flow_program \<Rightarrow> source_map \<Rightarrow> file_id \<Rightarrow> bool" where
  "flow_ok p sources expected_entry =
     (flow_within_limits p \<and> modules_ok p sources expected_entry \<and>
      (\<forall>(key, f, file)\<in>set (program_functions p). flow_function_ok sources (collect_signatures p) file f) \<and>
      calls_bounded (program_calls p) \<and> abi_ok (public_exports p))"

definition sample_flow_span :: "u32 \<Rightarrow> span" where
  "sample_flow_span file = \<lparr>span_file = \<lparr>source_map_id = 1, fid_index = file\<rparr>, span_start = 0, span_end = 0\<rparr>"

definition sample_flow_value :: "u32 \<Rightarrow> u32 \<Rightarrow> ir_type \<Rightarrow> flow_value" where
  "sample_flow_value file i ty = \<lparr>fv_id = i, fv_ty = ty, fv_span = sample_flow_span file\<rparr>"

definition sample_block :: "u32 \<Rightarrow> u32 \<Rightarrow> (u32 \<times> ir_type) list \<Rightarrow> (u32 \<times> ir_type \<times> instruction_kind) list \<Rightarrow> terminator \<Rightarrow> block" where
  "sample_block file i params instrs t =
     \<lparr>bk_id = i, bk_parameters = map (\<lambda>(v, ty). sample_flow_value file v ty) params,
      bk_instructions = map (\<lambda>(v, ty, k). \<lparr>is_result = sample_flow_value file v ty, is_kind = k\<rparr>) instrs,
      bk_terminators = [\<lparr>st_span = sample_flow_span file, st_kind = t\<rparr>]\<rparr>"

text \<open>The entry module sums the numbers up to its argument in a loop; the other module adds.\<close>

definition sample_flow :: flow_program where
  "sample_flow =
     \<lparr>fp_entry_module = 0,
      fp_modules =
        [\<lparr>fm_id = 0, fm_source_file = \<lparr>source_map_id = 1, fid_index = 0\<rparr>,
          fm_functions =
            [\<lparr>ff_id = \<lparr>fi_module = 0, fi_declaration = 0\<rparr>, ff_entry_export = Some ''sum'', ff_span = sample_flow_span 0,
              ff_parameters = [sample_flow_value 0 0 TyI32], ff_result = TyI32,
              ff_blocks =
                [sample_block 0 0 [] [(1, TyI32, IkI32Literal 0)] (TmJump 1 [0, 1]),
                 sample_block 0 1 [(2, TyI32), (3, TyI32)]
                   [(4, TyI32, IkI32Literal 0), (5, TyBool, IkI32GtS 2 4)] (TmBranch 5 2 [] 3 []),
                 sample_block 0 2 []
                   [(6, TyI32, IkI32Literal 1), (7, TyI32, IkI32Sub 2 6),
                    (8, TyI32, IkDirectCall \<lparr>fi_module = 1, fi_declaration = 0\<rparr> [3, 2])] (TmJump 1 [7, 8]),
                 sample_block 0 3 [] [] (TmReturn 3)]\<rparr>]\<rparr>,
         \<lparr>fm_id = 1, fm_source_file = \<lparr>source_map_id = 1, fid_index = 1\<rparr>,
          fm_functions =
            [\<lparr>ff_id = \<lparr>fi_module = 1, fi_declaration = 0\<rparr>, ff_entry_export = None, ff_span = sample_flow_span 1,
              ff_parameters = [sample_flow_value 1 0 TyI32, sample_flow_value 1 1 TyI32], ff_result = TyI32,
              ff_blocks = [sample_block 1 0 [] [(2, TyI32, IkI32Add 0 1)] (TmReturn 2)]\<rparr>]\<rparr>]\<rparr>"

definition sample_entry :: file_id where
  "sample_entry = \<lparr>source_map_id = 1, fid_index = 0\<rparr>"

definition sample_key :: function_key where
  "sample_key = \<lparr>fk_module = 0, fk_function = 0\<rparr>"

section \<open>The graph of a function\<close>

lemma graph_edges_spec:
  "edges_in n edges \<Longrightarrow> length succs = n \<Longrightarrow> length preds = n \<Longrightarrow>
    \<exists>succs' preds'. graph_edges edges succs preds = Some (succs', preds') \<and> length succs' = n \<and> length preds' = n \<and>
      (\<forall>b<n. succs' ! b = succs ! b @ map eg_target (filter (\<lambda>e. eg_source e = b) edges) \<and>
         preds' ! b = preds ! b @ map eg_source (filter (\<lambda>e. eg_target e = b) edges))"
proof (induction edges arbitrary: succs preds)
  case (Cons e edges)
  have g: "get_at succs (eg_source e) = Some (succs ! eg_source e)" "get_at preds (eg_target e) = Some (preds ! eg_target e)"
    using Cons.prems by (simp_all add: get_at_def edges_in_def)
  let ?s = "succs[eg_source e := succs ! eg_source e @ [eg_target e]]"
  let ?p = "preds[eg_target e := preds ! eg_target e @ [eg_source e]]"
  obtain s p where r: "graph_edges edges ?s ?p = Some (s, p)" "length s = n" "length p = n"
      "\<forall>b<n. s ! b = ?s ! b @ map eg_target (filter (\<lambda>e. eg_source e = b) edges) \<and>
         p ! b = ?p ! b @ map eg_source (filter (\<lambda>e. eg_target e = b) edges)"
    using Cons.IH [of ?s ?p] Cons.prems by (auto simp: edges_in_def)
  then show ?case using g Cons.prems by (auto simp: nth_list_update)
qed simp

lemma graph_edges_start:
  assumes "edges_in n edges"
  shows "graph_edges edges (replicate n []) (replicate n []) = Some (edge_graph n edges, edge_preds n edges)"
proof -
  obtain s p where "graph_edges edges (replicate n []) (replicate n []) = Some (s, p)" "length s = n" "length p = n"
      "\<forall>b<n. s ! b = map eg_target (filter (\<lambda>e. eg_source e = b) edges) \<and> p ! b = map eg_source (filter (\<lambda>e. eg_target e = b) edges)"
    using graph_edges_spec [OF assms, of "replicate n []" "replicate n []"] by auto
  then show ?thesis by (simp add: edge_graph_def edge_preds_def list_eq_iff_nth_eq)
qed

lemma edge_graph_rel: "edges_in n edges \<Longrightarrow> (a, b) \<in> graph_rel (edge_graph n edges) \<longleftrightarrow> (\<exists>e\<in>set edges. eg_source e = a \<and> eg_target e = b)"
  by (auto simp: graph_rel_def edge_graph_def edges_in_def)

lemma edge_graph_length [simp]: "length (edge_graph n edges) = n" "length (edge_preds n edges) = n"
  by (simp_all add: edge_graph_def edge_preds_def)

lemma edge_graph_wf: "edges_in n edges \<Longrightarrow> wf_graph (edge_graph n edges)"
  by (auto simp: wf_graph_def edge_graph_def edges_in_def)

lemma graph_rel_sort [simp]: "graph_rel (map sort g) = graph_rel g"
  by (auto simp: graph_rel_def)

lemma wf_graph_sort [simp]: "wf_graph (map sort g) = wf_graph g"
  by (auto simp: wf_graph_def)

lemma walk_sort: "walk (map sort g) = walk g"
  by (simp add: walk_def fun_eq_iff)

lemma dominator_sort [simp]: "dominator (map sort g) = dominator g" "reachable_block (map sort g) = reachable_block g"
  by (simp_all add: dominator_def reachable_block_def walk_sort fun_eq_iff)

lemma edge_preds_table: "edges_in n edges \<Longrightarrow> pred_table (edge_graph n edges) (map sort (edge_preds n edges))"
  by (auto simp: pred_table_def edge_graph_rel edge_preds_def)

lemma edge_preds_converse: "edges_in n edges \<Longrightarrow> converse_graph (map sort (edge_graph n edges)) (map sort (edge_preds n edges))"
  by (auto simp: converse_graph_def edge_graph_def edge_preds_def wf_graph_def edges_in_def)

lemma edge_graph_snoc:
  assumes "eg_source e < n"
  shows "edge_graph n (edges @ [e]) = (edge_graph n edges)[eg_source e := edge_graph n edges ! eg_source e @ [eg_target e]]"
  using assms by (auto simp: edge_graph_def list_eq_iff_nth_eq nth_list_update)

lemma degrees_snoc:
  assumes "eg_target e < n"
  shows "map (\<lambda>t. length (filter (\<lambda>e. eg_target e = t) (edges @ [e]))) [0..<n] =
    (map (\<lambda>t. length (filter (\<lambda>e. eg_target e = t) edges)) [0..<n])
      [eg_target e := Suc (map (\<lambda>t. length (filter (\<lambda>e. eg_target e = t) edges)) [0..<n] ! eg_target e)]"
  using assms by (auto simp: list_eq_iff_nth_eq nth_list_update)

lemma natural_loop_snoc:
  "natural_loop succs back (edges @ [e]) h =
    natural_loop succs back edges h \<union> (if back e \<and> eg_target e = h then {x. (x, eg_source e) \<in> (loop_rel succs h)\<^sup>*} else {})"
  by (auto simp: natural_loop_def)

lemma loop_headers_snoc:
  "loop_headers back (edges @ [e]) = loop_headers back edges \<union> (if back e then {eg_target e} else {})"
  by (auto simp: loop_headers_def)

lemma classify_edge_spec:
  assumes pt: "pred_table succs preds" and e: "eg_source e < length succs" "eg_target e < length succs"
    and d: "dominates_at entry exits (eg_target e) (eg_source e) = Some (back e)" and i: "class_inv succs back edges s"
  shows "\<exists>s'. classify_edge preds entry exits (length succs) e s = Some s' \<and> class_inv succs back (edges @ [e]) s'"
proof (cases "back e")
  case False
  have g: "get_at (ls_forward s) (eg_source e) = Some (ls_forward s ! eg_source e)"
    "get_at (ls_indegree s) (eg_target e) = Some (ls_indegree s ! eg_target e)"
    using i e by (simp_all add: class_inv_def get_at_def)
  let ?s = "s\<lparr>ls_forward := (ls_forward s)[eg_source e := ls_forward s ! eg_source e @ [eg_target e]],
    ls_indegree := (ls_indegree s)[eg_target e := Suc (ls_indegree s ! eg_target e)]\<rparr>"
  have "class_inv succs back (edges @ [e]) ?s"
    using i False e edge_graph_snoc [OF e(1), of "filter (\<lambda>e. \<not> back e) edges"]
      degrees_snoc [OF e(2), of "filter (\<lambda>e. \<not> back e) edges"]
    by (simp add: class_inv_def natural_loop_snoc loop_headers_snoc)
  then show ?thesis using d g False by (simp add: classify_edge_def)
next
  case True
  let ?h = "eg_target e"
  define start where "start = (case bt_get (ls_loops s) ?h of Some m \<Rightarrow> m | None \<Rightarrow> replicate (length succs) False)"
  have len: "length start = length succs"
    using i by (auto simp: start_def class_inv_def split: option.splits)
  have st: "marked (start[?h := True]) = natural_loop succs back edges ?h \<and> loop_closed succs ?h (start[?h := True]) []"
  proof (cases "bt_get (ls_loops s) ?h")
    case None
    then have "?h \<notin> loop_headers back edges" using i by (auto simp: class_inv_def)
    then have "natural_loop succs back edges ?h = {?h}" by (auto simp: natural_loop_def loop_headers_def)
    moreover have "marked (start[?h := True]) = {?h}" using None e len by (auto simp: start_def)
    ultimately show ?thesis by (auto simp: loop_closed_def loop_rel_def)
  next
    case (Some m)
    then have m: "marked m = natural_loop succs back edges ?h" "loop_closed succs ?h m []" "start = m"
      using i by (auto simp: class_inv_def start_def)
    have "?h \<in> marked m" using m(1) by (simp add: natural_loop_def)
    then have "m[?h := True] = m" by (simp add: marked_def list_update_same_conv)
    then show ?thesis using m by simp
  qed
  have hm: "?h \<in> marked (start[?h := True])" using st by (simp add: natural_loop_def)
  obtain m where m: "loop_members preds ?h [eg_source e] (start[?h := True]) = Some m" "length m = length succs"
      "loop_closed succs ?h m []" "marked m = marked (start[?h := True]) \<union> {x. (x, eg_source e) \<in> (loop_rel succs ?h)\<^sup>*}"
    using loop_members_exact [OF pt _ e(1) hm] st len by auto
  let ?s = "s\<lparr>ls_loops := bt_insert ?h m (ls_loops s)\<rparr>"
  have "class_inv succs back (edges @ [e]) ?s"
    using i True m st bt_wf_insert [of "ls_loops s" ?h m]
    by (simp add: class_inv_def natural_loop_snoc loop_headers_snoc)
  then show ?thesis using d m True e len by (simp add: classify_edge_def start_def [symmetric] get_at_def)
qed

lemma classify_edges_spec:
  assumes pt: "pred_table succs preds"
  shows "\<forall>e\<in>set es. eg_source e < length succs \<and> eg_target e < length succs \<and>
      dominates_at entry exits (eg_target e) (eg_source e) = Some (back e) \<Longrightarrow> class_inv succs back edges s \<Longrightarrow>
    \<exists>s'. classify_edges preds entry exits (length succs) es s = Some s' \<and> class_inv succs back (edges @ es) s'"
proof (induction es arbitrary: edges s)
  case (Cons e es)
  obtain s1 where "classify_edge preds entry exits (length succs) e s = Some s1" "class_inv succs back (edges @ [e]) s1"
    using classify_edge_spec [OF pt _ _ _ Cons.prems(2), of e entry exits] Cons.prems(1) by auto
  then show ?case using Cons.IH [of "edges @ [e]" s1] Cons.prems(1) by auto
qed simp

lemma class_inv_start:
  "class_inv succs back [] \<lparr>ls_loops = [], ls_forward = replicate (length succs) [], ls_indegree = replicate (length succs) 0\<rparr>"
  by (auto simp: class_inv_def edge_graph_def bt_wf_def loop_headers_def map_replicate_const)

lemma edge_graph_degrees:
  assumes "edges_in n edges"
  shows "degree_table (edge_graph n edges) (map (\<lambda>t. length (filter (\<lambda>e. eg_target e = t) edges)) [0..<n])"
proof -
  have "(\<Sum>u\<in>{..<n}. count_list (map eg_target (filter (\<lambda>e. eg_source e = u) edges)) t) = length (filter (\<lambda>e. eg_target e = t) edges)" for t
    using assms
  proof (induction edges)
    case (Cons e edges)
    have "(\<Sum>u<n. count_list (map eg_target (filter (\<lambda>x. eg_source x = u) (e # edges))) t) =
        (\<Sum>u<n. count_list (map eg_target (filter (\<lambda>x. eg_source x = u) edges)) t) + (\<Sum>u<n. if u = eg_source e \<and> eg_target e = t then 1 else 0)"
      by (simp flip: sum.distrib) (auto intro!: sum.cong)
    also have "(\<Sum>u<n. if u = eg_source e \<and> eg_target e = t then 1 else 0) = (if eg_target e = t then 1 else (0::nat))"
      using Cons.prems by (simp add: edges_in_def)
    finally show ?case using Cons by (simp add: edges_in_def)
  qed simp
  then show ?thesis by (simp add: degree_table_def edge_graph_def)
qed

lemma maximum_nesting_spec:
  assumes i: "class_inv succs back edges s"
  shows "\<exists>k. maximum_nesting (length succs) (ls_loops s) = Some k \<and> (k \<le> limit \<longleftrightarrow> loops_nested succs back edges limit)"
proof -
  let ?l = "ls_loops s" and ?n = "length succs"
  have wf: "bt_wf ?l" and dm: "dom (map_of ?l) = loop_headers back edges" using i by (simp_all add: class_inv_def)
  have d: "distinct (map fst ?l)" using wf sorted_wrt_less_distinct by (auto simp: bt_wf_def)
  have m: "length members = ?n \<and> marked members = natural_loop succs back edges h" if "(h, members) \<in> set ?l" for h members
    using i that map_of_eq_Some_iff [OF d] by (simp add: class_inv_def)
  have all: "list_all (\<lambda>(_, members). ?n \<le> length members) ?l" using m by (fastforce simp: list_all_iff)
  have nest: "length (filter (\<lambda>(_, members). members ! b) ?l) = card {h \<in> loop_headers back edges. b \<in> natural_loop succs back edges h}"
    if b: "b < ?n" for b
  proof -
    let ?f = "filter (\<lambda>(_, members). members ! b) ?l"
    have "distinct (map fst ?f)" using d by (rule distinct_map_filter)
    then have "length ?f = card (set (map fst ?f))" by (metis distinct_card length_map)
    also have "set (map fst ?f) = {h \<in> loop_headers back edges. b \<in> natural_loop succs back edges h}"
    proof (intro equalityI subsetI)
      fix h assume "h \<in> set (map fst ?f)"
      then obtain members where hm: "(h, members) \<in> set ?l" "members ! b" by auto
      then have "h \<in> dom (map_of ?l)" using map_of_eq_Some_iff [OF d] by blast
      moreover have "b \<in> marked members" using hm b m by (simp add: marked_def)
      ultimately show "h \<in> {h \<in> loop_headers back edges. b \<in> natural_loop succs back edges h}" using dm m hm by blast
    next
      fix h assume h: "h \<in> {h \<in> loop_headers back edges. b \<in> natural_loop succs back edges h}"
      then obtain members where hm: "(h, members) \<in> set ?l" using dm map_of_SomeD by fastforce
      then have "members ! b" using m h by (auto simp: marked_def)
      then show "h \<in> set (map fst ?f)" using hm by force
    qed
    finally show ?thesis .
  qed
  have le: "foldr max xs (0::nat) \<le> limit \<longleftrightarrow> (\<forall>x\<in>set xs. x \<le> limit)" for xs by (induction xs) auto
  show ?thesis using all nest by (auto simp add: maximum_nesting_def le loops_nested_def)
qed

lemma loops_computed:
  assumes e: "edges_in n edges" and succs: "succs = edge_graph n edges"
    and d: "\<forall>e\<in>set edges. dominates_at entry exits (eg_target e) (eg_source e) = Some (back_edge succs e)"
  shows "\<exists>s seen k. classify_edges (map sort (edge_preds n edges)) entry exits n edges
      \<lparr>ls_loops = [], ls_forward = replicate n [], ls_indegree = replicate n 0\<rparr> = Some s \<and>
    forward_loop (ls_forward s) (zero_indices (ls_indegree s)) (ls_indegree s) 0 = Some seen \<and>
    (seen = n \<longleftrightarrow> reducible succs edges) \<and> maximum_nesting n (ls_loops s) = Some k \<and>
    (k \<le> MAX_LOOP_NESTING \<longleftrightarrow> loops_nested succs (back_edge succs) edges MAX_LOOP_NESTING)"
proof -
  let ?fs = "filter (\<lambda>e. \<not> back_edge succs e) edges"
  have len: "length succs = n" using succs by simp
  have ed: "eg_source x < n \<and> eg_target x < n" if "x \<in> set edges" for x using e that by (simp add: edges_in_def)
  obtain s where s: "classify_edges (map sort (edge_preds n edges)) entry exits n edges
      \<lparr>ls_loops = [], ls_forward = replicate n [], ls_indegree = replicate n 0\<rparr> = Some s" "class_inv succs (back_edge succs) edges s"
    using classify_edges_spec [OF edge_preds_table [OF e], folded succs, of edges entry exits "back_edge succs" "[]"
        "\<lparr>ls_loops = [], ls_forward = replicate n [], ls_indegree = replicate n 0\<rparr>"] class_inv_start [of succs "back_edge succs"]
      d ed len by auto
  have ef: "edges_in n ?fs" using e by (auto simp: edges_in_def)
  have fw: "ls_forward s = edge_graph n ?fs" "degree_table (edge_graph n ?fs) (ls_indegree s)"
    using s(2) edge_graph_degrees [OF ef] len by (simp_all add: class_inv_def)
  obtain seen where seen: "forward_loop (ls_forward s) (zero_indices (ls_indegree s)) (ls_indegree s) 0 = Some seen"
      "seen = n \<longleftrightarrow> acyclic (graph_rel (edge_graph n ?fs))"
    using forward_loop_result [OF edge_graph_wf [OF ef] fw(2)] fw(1) by auto
  have "graph_rel (edge_graph n ?fs) = {(eg_source e, eg_target e) | e. e \<in> set edges \<and> \<not> back_edge succs e}"
    using edge_graph_rel [OF ef] by auto
  then have "seen = n \<longleftrightarrow> reducible succs edges" using seen(2) by (simp add: reducible_def)
  moreover obtain k where "maximum_nesting n (ls_loops s) = Some k"
      "k \<le> MAX_LOOP_NESTING \<longleftrightarrow> loops_nested succs (back_edge succs) edges MAX_LOOP_NESTING"
    using maximum_nesting_spec [OF s(2)] len by auto
  ultimately show ?thesis using s(1) seen(1) by blast
qed

lemma reachable_has_pred:
  assumes e: "edges_in n edges" and succs: "succs = edge_graph n edges" and b: "b < n" "b \<noteq> 0"
  shows "reachable_block succs b \<Longrightarrow> edge_preds n edges ! b \<noteq> []"
proof -
  assume "reachable_block succs b"
  then have "(0, b) \<in> (graph_rel succs)\<^sup>*" by (simp add: reachable_block_def)
  then obtain a where "(a, b) \<in> graph_rel succs" using b(2) by (metis rtranclE)
  then show ?thesis using edge_graph_rel [OF e] succs b(1) by (auto simp: edge_preds_def filter_empty_conv)
qed

lemma verify_loops_steps:
  assumes e: "edges_in n edges" and succs: "succs = edge_graph n edges"
    and d: "\<forall>e\<in>set edges. dominates_at entry exits (eg_target e) (eg_source e) = Some (back_edge succs e)"
  shows "steps (verify_loops key n (map sort (edge_preds n edges)) entry exits edges)
    (reducible succs edges \<and> loops_nested succs (back_edge succs) edges MAX_LOOP_NESTING)"
proof -
  obtain s seen k where s: "classify_edges (map sort (edge_preds n edges)) entry exits n edges
      \<lparr>ls_loops = [], ls_forward = replicate n [], ls_indegree = replicate n 0\<rparr> = Some s"
      "forward_loop (ls_forward s) (zero_indices (ls_indegree s)) (ls_indegree s) 0 = Some seen" "seen = n \<longleftrightarrow> reducible succs edges"
      "maximum_nesting n (ls_loops s) = Some k" "k \<le> MAX_LOOP_NESTING \<longleftrightarrow> loops_nested succs (back_edge succs) edges MAX_LOOP_NESTING"
    using loops_computed [OF assms] by blast
  have lim: "checks (\<lambda>er. if MAX_LOOP_NESTING < k then flow_limit l MAX_LOOP_NESTING er else er) (k \<le> MAX_LOOP_NESTING)" for l
    using checks_flow_limit checks_id by (cases "MAX_LOOP_NESTING < k") (auto simp: not_less)
  have "steps (\<lambda>er. let er = flow_push_when (seen \<noteq> n) x er in if ce_exhausted er then Some er else
      Option.bind (maximum_nesting n (ls_loops s)) (\<lambda>nesting.
      Some (if MAX_LOOP_NESTING < nesting then flow_limit l MAX_LOOP_NESTING er else er)))
      (\<not> seen \<noteq> n \<and> k \<le> MAX_LOOP_NESTING)" for x l
    unfolding Let_def s(4) Option.bind.simps by (intro steps_seq [OF checks_flow_when] steps_guard steps_checks lim)
  then have "steps (verify_loops key n (map sort (edge_preds n edges)) entry exits edges) (\<not> seen \<noteq> n \<and> k \<le> MAX_LOOP_NESTING)"
    unfolding verify_loops_def [abs_def] s(1,2) Option.bind.simps .
  then show ?thesis by (rule steps_cong) (use s(3,5) in auto)
qed

lemma verify_dominance_steps:
  assumes t: "table_ok n limit vals"
    and d: "\<forall>a<n. \<forall>b<n. dominates_at entry exits a b = Some (dominator succs a b)" and b: "use_block < n"
  shows "steps (verify_dominance vals entry exits (v, use_block, use_position, sp)) (available vals succs use_block use_position v)"
proof (cases "lookup_value v vals")
  case None
  then have "steps (\<lambda>er. if ce_exhausted er then Some er else Some er) True" by (intro steps_guard) (simp add: steps_def)
  then show ?thesis using None by (simp add: verify_dominance_def available_def cong: if_cong)
next
  case (Some info)
  then have "location_in n (vin_location info)" using t by (auto simp: table_ok_def lookup_value_def get_at_Some_iff)
  then obtain valid where valid: "(case vin_location info of
                 AtParameter \<Rightarrow> Some True
               | AtBlockParameter b \<Rightarrow> dominates_at entry exits b use_block
               | AtInstruction b position \<Rightarrow>
                   if b = use_block then Some (position < use_position) else dominates_at entry exits b use_block) = Some valid"
      "valid = available vals succs use_block use_position v"
    using d b Some by (auto simp: location_in_def available_def split: definition_location.splits)
  have "steps (\<lambda>er. if ce_exhausted er then Some er else Some (flow_push_when (\<not> valid) x er)) (\<not> \<not> valid)" for x
    by (intro steps_guard steps_checks checks_flow_when)
  then show ?thesis using valid Some by (simp add: verify_dominance_def cong: if_cong)
qed

lemma block_uses_block: "\<forall>(v, bi, position, sp)\<in>set (concat (map block_uses (enumerate 0 bs))). bi < length bs"
  by (auto simp: block_uses_def in_set_enumerate_eq split: list.splits)

lemma sort_Nil_iff: "sort xs = [] \<longleftrightarrow> xs = []"
  by (metis length_0_conv length_sort)

lemma verify_reachable_steps:
  assumes e: "edges_in n edges" and succs: "succs = edge_graph n edges" and b: "b < n" "b \<noteq> 0"
    and r: "length reached = n" "\<forall>b<n. reached ! b \<longleftrightarrow> reachable_block succs b"
  shows "steps (verify_reachable key (map sort (edge_preds n edges)) reached b) (reachable_block succs b)"
proof -
  have g: "get_at (map sort (edge_preds n edges)) b = Some (sort (edge_preds n edges ! b))" "get_at reached b = Some (reached ! b)"
    using b r by (simp_all add: get_at_def)
  note pred = reachable_has_pred [OF e succs b]
  have "steps (\<lambda>er. Some (flow_push_when (sort (edge_preds n edges ! b) = [] \<or> \<not> reached ! b) x er))
      (\<not> (sort (edge_preds n edges ! b) = [] \<or> \<not> reached ! b))" for x
    by (intro steps_checks checks_flow_when)
  then have "steps (verify_reachable key (map sort (edge_preds n edges)) reached b) (\<not> (sort (edge_preds n edges ! b) = [] \<or> \<not> reached ! b))"
    unfolding verify_reachable_def [abs_def] g Option.bind.simps .
  then show ?thesis by (rule steps_cong) (use pred r b in \<open>auto simp: sort_Nil_iff\<close>)
qed

lemma verify_cfg_steps:
  assumes e: "edges_in (length (ff_blocks f)) edges" and t: "table_ok (length (ff_blocks f)) limit vals"
    and n: "ff_blocks f \<noteq> []" "length (ff_blocks f) \<le> usize_max"
  shows "steps (verify_cfg key f vals edges) (cfg_ok f vals edges)"
proof -
  let ?n = "length (ff_blocks f)"
  define succs where "succs = edge_graph ?n edges"
  have len: "length succs = ?n" by (simp add: succs_def)
  have ne: "map sort succs \<noteq> []" using n(1) len by auto
  have g: "wf_graph (map sort succs)" using edge_graph_wf [OF e] by (simp add: succs_def)
  obtain reached where r: "reachable_from_entry (map sort succs) = Some reached" "length reached = ?n"
      "\<forall>b<?n. reached ! b \<longleftrightarrow> reachable_block succs b"
    using reachable_from_entry_spec [OF g ne] len by auto
  have r0: "reachable_block succs 0" by (simp add: reachable_block_def)
  have reach: "steps (check_steps (verify_reachable key (map sort (edge_preds ?n edges)) reached) [1..<?n])
      (\<forall>b\<in>set [1..<?n]. reachable_block succs b)"
    by (rule steps_check_steps) (use verify_reachable_steps [OF e succs_def _ _ r(2,3)] in auto)
  have all: "(\<forall>b\<in>set [1..<?n]. reachable_block succs b) \<longleftrightarrow> (\<forall>b<?n. reachable_block succs b)"
    using r0 by (auto simp: less_Suc_eq_le Suc_le_eq)
  let ?rest = "\<lambda>er. if ce_exhausted er \<or> list_ex Not reached then Some er
               else
                 Option.bind (immediate_dominators (map sort succs) (map sort (edge_preds ?n edges))) (\<lambda>found.
                 case found of
                   None \<Rightarrow>
                     Some (flow_push (flow_error ''ZRYNA-I2019'' ''failed to construct deterministic dominators''
                       ''provide one reachable reducible CFG'') er)
                 | Some idom \<Rightarrow>
                     Option.bind (dominator_intervals idom) (\<lambda>(entry, exits).
                     Option.bind (check_steps (verify_dominance vals entry exits)
                       (concat (map block_uses (enumerate 0 (ff_blocks f)))) er) (\<lambda>er.
                     if ce_exhausted er then Some er
                     else verify_loops key ?n (map sort (edge_preds ?n edges)) entry exits edges er)))"
  let ?Q = "(\<forall>(v, bi, position, sp)\<in>set (concat (map block_uses (enumerate 0 (ff_blocks f)))). available vals succs bi position v) \<and>
         reducible succs edges \<and> loops_nested succs (back_edge succs) edges MAX_LOOP_NESTING"
  have ex: "list_ex Not reached \<longleftrightarrow> \<not> (\<forall>b<?n. reachable_block succs b)"
    unfolding list_ex_length r(2) using r(3) by blast
  have rest: "steps ?rest ?Q" if a: "\<forall>b<?n. reachable_block succs b"
  proof -
    obtain idom entry exits where d: "immediate_dominators (map sort succs) (map sort (edge_preds ?n edges)) = Some (Some idom)"
        "dominator_intervals idom = Some (entry, exits)" "length entry = ?n" "length exits = ?n"
        "\<forall>a<?n. \<forall>b<?n. dominates entry exits a b \<longleftrightarrow> dominator succs a b"
      using dominators_computed [OF g ne _ _ edge_preds_converse [OF e, folded succs_def]] a n(2) len by auto
    have da: "\<forall>a<?n. \<forall>b<?n. dominates_at entry exits a b = Some (dominator succs a b)"
      using d(3,4,5) by (simp add: dominates_at_def)
    have used: "steps (check_steps (verify_dominance vals entry exits) (concat (map block_uses (enumerate 0 (ff_blocks f)))))
        (\<forall>x\<in>set (concat (map block_uses (enumerate 0 (ff_blocks f)))). (\<lambda>(v, bi, position, sp). available vals succs bi position v) x)"
      by (rule steps_check_steps)
        (use verify_dominance_steps [OF t da] block_uses_block [of "ff_blocks f"] in \<open>fastforce\<close>)
    have bk: "\<forall>x\<in>set edges. dominates_at entry exits (eg_target x) (eg_source x) = Some (back_edge succs x)"
      using da e by (auto simp: edges_in_def back_edge_def)
    have "steps (\<lambda>er. Option.bind (check_steps (verify_dominance vals entry exits)
                       (concat (map block_uses (enumerate 0 (ff_blocks f)))) er) (\<lambda>er.
                     if ce_exhausted er then Some er
                     else verify_loops key ?n (map sort (edge_preds ?n edges)) entry exits edges er)) ?Q"
      by (rule steps_bind [OF used]) (use steps_guard [OF verify_loops_steps [OF e succs_def bk]] in blast)+
    from steps_guard [OF this] show ?thesis using d(1,2) ex a by (simp cong: if_cong)
  qed
  have stop: "steps ?rest True" if "\<not> (\<forall>b<?n. reachable_block succs b)"
    using that ex by (simp add: steps_def)
  have "steps (\<lambda>er. Option.bind (check_steps (verify_reachable key (map sort (edge_preds ?n edges)) reached) [1..<?n] er) ?rest)
      ((\<forall>b\<in>set [1..<?n]. reachable_block succs b) \<and> ?Q)"
    by (rule steps_bind [OF reach]) (use rest stop all in blast)+
  from steps_guard [OF this] have "steps (verify_cfg key f vals edges) ((\<forall>b\<in>set [1..<?n]. reachable_block succs b) \<and> ?Q)"
    using graph_edges_start [OF e] r(1) n(1) by (simp add: verify_cfg_def [abs_def] Let_def succs_def cong: if_cong)
  then show ?thesis by (rule steps_cong) (use all in \<open>simp add: cfg_ok_def Let_def succs_def\<close>)
qed

section \<open>Functions\<close>

lemma enumerate_block_values: "sum_list (map (\<lambda>x. block_values (snd x)) (enumerate k bs)) = sum_list (map block_values bs)"
  by (induction bs arbitrary: k) simp_all

lemma block_table_length: "length (block_table (enumerate k bs)) = sum_list (map block_values bs)"
  by (induction bs arbitrary: k) (simp_all add: block_table_def block_definitions_facts)

lemma yields_steps:
  assumes "steps f P" "I v"
  shows "yields I (\<lambda>er. map_option (Pair v) (f er)) P v"
  unfolding yields_def
proof (intro allI impI)
  fix er assume "bounded_errors er"
  then show "\<exists>a er'. map_option (Pair v) (f er) = Some (a, er') \<and> bounded_errors er' \<and> I a \<and> (clean er' \<longleftrightarrow> clean er \<and> P) \<and> (clean er' \<longrightarrow> a = v)"
    using assms unfolding steps_def by (metis option.map(2))
qed

lemma verify_function_yields:
  assumes wf: "wf_source_map sources" and lim: "function_within_limits f"
    and k: "calls_in sigs [(key, key)]" and c: "calls_in sigs calls"
  shows "yields (calls_in sigs) (verify_function key f file sigs sources calls)
    (flow_function_ok sources sigs file f) (calls @ function_calls key f)"
proof -
  let ?n = "length (ff_blocks f)" and ?bs = "enumerate 0 (ff_blocks f)"
  let ?ps = "map (\<lambda>d. (d, AtParameter)) (ff_parameters f)"
  let ?J = "\<lambda>(cs, es). calls_in sigs cs \<and> edges_in ?n es"
  have n: "ff_blocks f \<noteq> []" "?n \<le> 4096" "length (ff_parameters f) \<le> 256" "function_values f \<le> 16384"
    using lim by (simp_all add: function_within_limits_def flow_limit_defs)
  have total: "length (ff_parameters f) + sum_list (map block_values (ff_blocks f)) \<le> 16384"
    using n(4) by (simp add: function_values_def)
  have blocks: "\<forall>x\<in>set ?bs. fst x < ?n \<and> ff_blocks f ! fst x = snd x" by (auto simp: in_set_enumerate_eq)
  have cfg: "yields (calls_in sigs) (\<lambda>er. if ce_exhausted er then Some (cs, er) else map_option (Pair cs) (verify_cfg key f vals es er))
      (cfg_ok f vals es) cs" if "calls_in sigs cs" "edges_in ?n es" "table_ok ?n limit vals" for cs es vals limit
    by (intro yields_guard yields_steps verify_cfg_steps [OF that(2,3)] that(1)) (use n in \<open>auto simp: usize_max_def\<close>)
  have body: "yields (calls_in sigs) (\<lambda>er. let (cs, es, er) = verify_blocks key f ?bs vals sigs calls [] er
      in if ce_exhausted er then Some (cs, er) else map_option (Pair cs) (verify_cfg key f vals es er))
      ((\<forall>(bi, b)\<in>set ?bs. block_ok sigs f vals bi b) \<and> cfg_ok f vals (function_edges f)) (calls @ function_calls key f)"
    if t: "table_ok ?n limit vals" for vals limit
  proof -
    have e0: "edges_in ?n []" by (simp add: edges_in_def)
    note b = verify_blocks_gives [OF k blocks c e0, of vals]
    have J: "?J (calls @ concat (map (block_call_edges key) ?bs), [] @ concat (map block_graph ?bs))"
      if "\<forall>(bi, b)\<in>set ?bs. block_ok sigs f vals bi b"
      using b that clean_no_errors unfolding yields_def by metis
    have "yields (calls_in sigs) (\<lambda>er. Option.bind (Some (pack (verify_blocks key f ?bs vals sigs calls [] er))) (\<lambda>(a, er).
        (\<lambda>(cs, es) er. if ce_exhausted er then Some (cs, er) else map_option (Pair cs) (verify_cfg key f vals es er)) a er))
        ((\<forall>(bi, b)\<in>set ?bs. block_ok sigs f vals bi b) \<and> cfg_ok f vals (function_edges f)) (calls @ function_calls key f)"
    proof (rule yields_bind [OF b])
      assume "\<forall>(bi, b)\<in>set ?bs. block_ok sigs f vals bi b"
      then show "yields (calls_in sigs) (case (calls @ concat (map (block_call_edges key) ?bs), [] @ concat (map block_graph ?bs)) of
          (cs, es) \<Rightarrow> \<lambda>er. if ce_exhausted er then Some (cs, er) else map_option (Pair cs) (verify_cfg key f vals es er))
          (cfg_ok f vals (function_edges f)) (calls @ function_calls key f)"
        using J cfg [OF _ _ t] by (simp add: function_edges_def function_calls_def)
    next
      fix a assume "?J a"
      then show "\<exists>R x. yields (calls_in sigs) (case a of (cs, es) \<Rightarrow> \<lambda>er. if ce_exhausted er then Some (cs, er)
          else map_option (Pair cs) (verify_cfg key f vals es er)) R x"
        using cfg [OF _ _ t] by (cases a) auto
    qed
    then show ?thesis by (simp add: pack_def Let_def case_prod_unfold cong: if_cong)
  qed
  define rest2 where "rest2 = (\<lambda>vals er. if ce_exhausted er then Some (calls, er) else
      let (cs, es, er) = verify_blocks key f ?bs vals sigs calls [] er
      in if ce_exhausted er then Some (cs, er) else map_option (Pair cs) (verify_cfg key f vals es er))"
  have r2: "yields (calls_in sigs) (rest2 vals) ((\<forall>(bi, b)\<in>set ?bs. block_ok sigs f vals bi b) \<and> cfg_ok f vals (function_edges f))
      (calls @ function_calls key f)" if "table_ok ?n limit vals" for vals limit
    unfolding rest2_def by (rule yields_guard [OF body [OF that] c])
  define rest1 where "rest1 = (\<lambda>vals er. if ce_exhausted er then Some (calls, er) else
      Option.bind (define_blocks key ?bs vals er) (\<lambda>(vals, er). rest2 vals er))"
  have db: "yields (table_ok ?n 16384) (define_blocks key ?bs vals)
      ((\<forall>x\<in>set ?bs. bk_id (snd x) = of_nat (fst x) \<and> (fst x = 0 \<longrightarrow> bk_parameters (snd x) = [])) \<and>
       definitions_ok (length vals) (block_table ?bs)) (vals @ map definition_info (block_table ?bs))"
    if "table_ok ?n (length (ff_parameters f)) vals" for vals
  proof -
    have "yields (table_ok ?n (length (ff_parameters f) + sum_list (map block_values (ff_blocks f)))) (define_blocks key ?bs vals)
      ((\<forall>x\<in>set ?bs. bk_id (snd x) = of_nat (fst x) \<and> (fst x = 0 \<longrightarrow> bk_parameters (snd x) = [])) \<and>
       definitions_ok (length vals) (block_table ?bs)) (vals @ map definition_info (block_table ?bs))"
      using define_blocks_yields [OF that, of ?bs key] total n(2) blocks by (simp add: enumerate_block_values)
    then show ?thesis using table_ok_mono [OF _ total, of ?n] unfolding yields_def by blast
  qed
  let ?P = "\<lambda>vals. ((\<forall>x\<in>set ?bs. bk_id (snd x) = of_nat (fst x) \<and> (fst x = 0 \<longrightarrow> bk_parameters (snd x) = [])) \<and>
       definitions_ok (length vals) (block_table ?bs)) \<and>
      (\<forall>(bi, b)\<in>set ?bs. block_ok sigs f (vals @ map definition_info (block_table ?bs)) bi b) \<and>
       cfg_ok f (vals @ map definition_info (block_table ?bs)) (function_edges f)"
  have locs: "\<forall>d\<in>set (block_table ?bs). location_in ?n (snd d)"
    using block_definitions_facts(2) blocks by (fastforce simp: block_table_def)
  have r1: "yields (calls_in sigs) (rest1 vals) (?P vals) (calls @ function_calls key f)"
    if "table_ok ?n (length (ff_parameters f)) vals" for vals
    unfolding rest1_def
  proof (rule yields_guard)
    show "yields (calls_in sigs) (\<lambda>er. Option.bind (define_blocks key ?bs vals er) (\<lambda>(vals, er). rest2 vals er))
        (?P vals) (calls @ function_calls key f)"
      by (rule yields_bind [OF db [OF that]]) (use r2 table_ok_append [OF that locs] in blast)+
  qed (rule c)
  have dv: "yields (table_ok ?n (length (ff_parameters f))) (define_values ?ps [])
      (definitions_ok 0 ?ps) (map definition_info ?ps)"
    using define_values_yields [of ?n 0 "[]" ?ps] n(3) by (simp add: table_ok_def location_in_def)
  have t0: "table_ok ?n (length (ff_parameters f)) (map definition_info ?ps)"
    by (auto simp: table_ok_def location_in_def definition_info_def)
  have params: "yields (calls_in sigs) (\<lambda>er. Option.bind (define_values ?ps [] er) (\<lambda>(vals, er). rest1 vals er))
      (definitions_ok 0 ?ps \<and> ?P (map definition_info ?ps)) (calls @ function_calls key f)"
    by (rule yields_bind [OF dv]) (use r1 t0 in blast)+
  have typed: "yields (calls_in sigs) (\<lambda>er. let er = validate_type (ff_result f) None ''function result'' er in
      if ce_exhausted er then Some (calls, er) else Option.bind (define_values ?ps [] er) (\<lambda>(vals, er). rest1 vals er))
      (ff_result f \<noteq> TyUnit \<and> (definitions_ok 0 ?ps \<and> ?P (map definition_info ?ps))) (calls @ function_calls key f)"
    unfolding Let_def by (rule yields_seq [OF checks_validate_type], rule yields_guard [OF params c])
  define rest0 where "rest0 = (\<lambda>valid er. if \<not> valid then Some (calls, er) else
      (let er = validate_type (ff_result f) None ''function result'' er in
      if ce_exhausted er then Some (calls, er) else Option.bind (define_values ?ps [] er) (\<lambda>(vals, er). rest1 vals er)))"
  have bad: "yields (calls_in sigs) (rest0 False) True calls" using c by (simp add: rest0_def yields_def)
  have "yields (calls_in sigs) (\<lambda>er. Option.bind (validate_spans file sources (function_spans f) True er) (\<lambda>(valid, er). rest0 valid er))
      ((\<forall>sp\<in>set (function_spans f). span_in sources file sp) \<and> (ff_result f \<noteq> TyUnit \<and> (definitions_ok 0 ?ps \<and> ?P (map definition_info ?ps))))
      (calls @ function_calls key f)"
  proof (rule yields_bind [OF validate_spans_yields [OF wf]])
    show "yields (calls_in sigs) (rest0 True) (ff_result f \<noteq> TyUnit \<and> (definitions_ok 0 ?ps \<and> ?P (map definition_info ?ps))) (calls @ function_calls key f)"
      using typed by (simp add: rest0_def)
    show "\<exists>R x. yields (calls_in sigs) (rest0 a) R x" for a
      using typed bad by (cases a) (auto simp: rest0_def)
  qed
  note all = yields_guard [OF this c]
  have eq: "verify_function key f file sigs sources calls = (\<lambda>er. if ce_exhausted er then Some (calls, er) else
      Option.bind (validate_spans file sources (function_spans f) True er) (\<lambda>(valid, er). rest0 valid er))"
    unfolding verify_function_def [abs_def] rest0_def rest1_def rest2_def Let_def ..
  show ?thesis unfolding eq
  proof (rule yields_cong [OF all])
    have entry: "(\<forall>x\<in>set ?bs. bk_id (snd x) = of_nat (fst x) \<and> (fst x = 0 \<longrightarrow> bk_parameters (snd x) = [])) \<longleftrightarrow>
        (\<forall>bi<?n. bk_id (ff_blocks f ! bi) = of_nat bi) \<and> bk_parameters (ff_blocks f ! 0) = []"
      using n(1) by (auto simp: ball_enumerate_nth)
    show "((\<forall>sp\<in>set (function_spans f). span_in sources file sp) \<and> (ff_result f \<noteq> TyUnit \<and> (definitions_ok 0 ?ps \<and> ?P (map definition_info ?ps))))
        = flow_function_ok sources sigs file f"
      unfolding flow_function_ok_def entry function_definitions_def value_table_def definitions_ok_append
      by (auto simp: ball_enumerate_nth)
  qed simp
qed

lemma verify_functions_yields:
  assumes wf: "wf_source_map sources"
  shows "\<forall>(key, f, file)\<in>set fs. function_within_limits f \<and> calls_in sigs [(key, key)] \<Longrightarrow> calls_in sigs calls \<Longrightarrow>
    yields (calls_in sigs) (verify_functions fs sigs sources calls)
      (\<forall>(key, f, file)\<in>set fs. flow_function_ok sources sigs file f)
      (calls @ concat (map (\<lambda>(key, f, file). function_calls key f) fs))"
proof (induction fs arbitrary: calls)
  case Nil
  then show ?case by (simp add: yields_def)
next
  case (Cons x fs)
  obtain key f src where x: "x = (key, f, src)" by (cases x) auto
  have k: "function_within_limits f" "calls_in sigs [(key, key)]" using Cons.prems(1) x by auto
  note one = verify_function_yields [OF wf k Cons.prems(2), of src]
  have next': "yields (calls_in sigs) (verify_functions fs sigs sources cs) (\<forall>(key, f, file)\<in>set fs. flow_function_ok sources sigs file f)
      (cs @ concat (map (\<lambda>(key, f, file). function_calls key f) fs))" if "calls_in sigs cs" for cs
    using Cons.IH [OF _ that] Cons.prems(1) by simp
  have J: "calls_in sigs (calls @ function_calls key f)" if "flow_function_ok sources sigs src f"
    using one that clean_no_errors unfolding yields_def by metis
  have "yields (calls_in sigs) (\<lambda>er. Option.bind (verify_function key f src sigs sources calls er) (\<lambda>(cs, er). verify_functions fs sigs sources cs er))
      (flow_function_ok sources sigs src f \<and> (\<forall>(key, f, file)\<in>set fs. flow_function_ok sources sigs file f))
      ((calls @ function_calls key f) @ concat (map (\<lambda>(key, f, file). function_calls key f) fs))"
    by (rule yields_bind [OF one]) (use next' J in blast)+
  from yields_guard [OF this Cons.prems(2)] show ?case using x by simp
qed

section \<open>The call graph\<close>

lemma offsets_from_nth: "i \<le> length ms \<Longrightarrow> offsets_from n ms ! i = n + function_count (take i ms)"
proof (induction ms arbitrary: n i)
  case (Cons m ms)
  then show ?case by (cases i) (simp_all add: function_count_def)
qed (simp add: function_count_def)

lemma offsets_from_length: "length (offsets_from n ms) = Suc (length ms)"
  by (induction ms arbitrary: n) simp_all

lemma function_offsets_last: "last (function_offsets p) = function_count (fp_modules p)"
proof -
  have "last (function_offsets p) = function_offsets p ! length (fp_modules p)"
    using offsets_from_length [of 0 "fp_modules p"] by (metis diff_Suc_1 function_offsets_def last_conv_nth list.size(3) nat.simps(3))
  then show ?thesis using offsets_from_nth [of "length (fp_modules p)" "fp_modules p" 0] by (simp add: function_offsets_def)
qed

lemma function_count_take:
  assumes "i < length ms"
  shows "function_count (take (Suc i) ms) = function_count (take i ms) + length (fm_functions (ms ! i))"
  using assms by (simp add: function_count_def take_Suc_conv_app_nth)

lemma function_count_mono: "i \<le> j \<Longrightarrow> function_count (take i ms) \<le> function_count (take j ms)"
proof -
  assume "i \<le> j"
  then have "take j ms = take i ms @ take (j - i) (drop i ms)" by (metis le_add_diff_inverse take_add)
  then show ?thesis by (simp add: function_count_def)
qed

lemma flat_index_lt: "key_in ms k \<Longrightarrow> flat_index ms k < function_count ms"
  using function_count_take [of "fk_module k" ms] function_count_mono [of "Suc (fk_module k)" "length ms" ms]
  by (simp add: key_in_def flat_index_def)

lemma flat_index_inj:
  assumes "key_in ms a" "key_in ms b" "flat_index ms a = flat_index ms b"
  shows "a = b"
proof -
  have less: "flat_index ms a < flat_index ms b" if "key_in ms a" "fk_module a < fk_module b" for a b
    using that function_count_take [of "fk_module a" ms] function_count_mono [of "Suc (fk_module a)" "fk_module b" ms]
    by (simp add: key_in_def flat_index_def)
  then have "fk_module a = fk_module b" using assms less [of a b] less [of b a] by (metis less_irrefl linorder_neqE_nat)
  then show ?thesis using assms(3) by (cases a; cases b) (simp add: flat_index_def)
qed

lemma call_index_key: "key_in (fp_modules p) k \<Longrightarrow> call_index (function_offsets p) k = Some (flat_index (fp_modules p) k)"
  using offsets_from_nth [of "fk_module k" "fp_modules p" 0] offsets_from_length [of 0 "fp_modules p"]
  by (simp add: call_index_def get_at_def function_offsets_def key_in_def flat_index_def)

lemma call_graph_spec:
  "\<forall>(a, b)\<in>set calls. key_in (fp_modules p) a \<and> key_in (fp_modules p) b \<Longrightarrow>
    call_graph (function_offsets p) calls (edge_graph (function_count (fp_modules p)) es)
      (map (\<lambda>t. length (filter (\<lambda>e. eg_target e = t) es)) [0..<function_count (fp_modules p)]) =
    Some (edge_graph (function_count (fp_modules p)) (es @ map (call_edge (fp_modules p)) calls),
      map (\<lambda>t. length (filter (\<lambda>e. eg_target e = t) (es @ map (call_edge (fp_modules p)) calls))) [0..<function_count (fp_modules p)])"
proof (induction calls arbitrary: es)
  case (Cons c calls)
  obtain a b where c: "c = (a, b)" by force
  let ?n = "function_count (fp_modules p)" and ?e = "call_edge (fp_modules p) c"
  have k: "key_in (fp_modules p) a" "key_in (fp_modules p) b" using Cons.prems c by auto
  have lt: "eg_source ?e < ?n" "eg_target ?e < ?n" using flat_index_lt k c by (simp_all add: call_edge_def)
  have se: "eg_source ?e = flat_index (fp_modules p) a" "eg_target ?e = flat_index (fp_modules p) b" using c by (simp_all add: call_edge_def)
  have "call_graph (function_offsets p) (c # calls) (edge_graph ?n es) (map (\<lambda>t. length (filter (\<lambda>e. eg_target e = t) es)) [0..<?n]) =
      call_graph (function_offsets p) calls (edge_graph ?n (es @ [?e])) (map (\<lambda>t. length (filter (\<lambda>e. eg_target e = t) (es @ [?e]))) [0..<?n])"
    unfolding edge_graph_snoc [OF lt(1)] degrees_snoc [OF lt(2)]
    using c call_index_key k lt se by (simp add: get_at_def)
  then show ?case using Cons.IH [of "es @ [?e]"] Cons.prems by simp
qed simp

lemma trancl_image: "(x, y) \<in> r\<^sup>+ \<Longrightarrow> (f x, f y) \<in> (map_prod f f ` r)\<^sup>+"
proof (induction rule: trancl_induct)
  case (step y z)
  then have "(f y, f z) \<in> map_prod f f ` r" by force
  then show ?case using step.IH by (rule trancl_into_trancl [rotated])
qed force

lemma acyclic_image:
  assumes "inj_on f A" "r \<subseteq> A \<times> A"
  shows "acyclic (map_prod f f ` r) \<longleftrightarrow> acyclic r"
proof -
  have inverse': "map_prod (inv_into A f) (inv_into A f) ` map_prod f f ` r = r"
    using assms by (force simp: image_image inv_into_f_f)
  have "(y, y) \<in> (map_prod f f ` r)\<^sup>+ \<Longrightarrow> (inv_into A f y, inv_into A f y) \<in> r\<^sup>+" for y
    using trancl_image [of y y "map_prod f f ` r" "inv_into A f"] inverse' by simp
  then show ?thesis using trancl_image [of _ _ r f] unfolding acyclic_def by blast
qed

lemma call_rel:
  assumes "\<forall>(a, b)\<in>set calls. key_in ms a \<and> key_in ms b"
  shows "edges_in (function_count ms) (map (call_edge ms) calls)"
    "graph_rel (edge_graph (function_count ms) (map (call_edge ms) calls)) = map_prod (flat_index ms) (flat_index ms) ` set calls"
proof -
  show e: "edges_in (function_count ms) (map (call_edge ms) calls)"
    using assms flat_index_lt by (fastforce simp: edges_in_def call_edge_def)
  show "graph_rel (edge_graph (function_count ms) (map (call_edge ms) calls)) = map_prod (flat_index ms) (flat_index ms) ` set calls"
    using edge_graph_rel [OF e] by (force simp: call_edge_def)
qed

lemma calls_bounded_graph:
  assumes k: "\<forall>(a, b)\<in>set calls. key_in ms a \<and> key_in ms b"
    and g: "succs = edge_graph (function_count ms) (map (call_edge ms) calls)"
  shows "calls_bounded calls \<longleftrightarrow> acyclic (graph_rel succs) \<and> (\<forall>p. graph_path succs p \<longrightarrow> length p \<le> MAX_STATIC_CALL_DEPTH)"
proof -
  let ?f = "flat_index ms" and ?V = "{k. key_in ms k}"
  have inj: "inj_on ?f ?V" using flat_index_inj by (auto simp: inj_on_def)
  have rel: "graph_rel succs = map_prod ?f ?f ` set calls" using call_rel(2) [OF k] g by simp
  have sub: "set calls \<subseteq> ?V \<times> ?V" using k by auto
  have len: "length succs = function_count ms" using g by simp
  have "(\<forall>ks. successively (\<lambda>a b. (a, b) \<in> set calls) ks \<longrightarrow> length ks \<le> MAX_STATIC_CALL_DEPTH) \<longleftrightarrow>
      (\<forall>p. graph_path succs p \<longrightarrow> length p \<le> MAX_STATIC_CALL_DEPTH)"
  proof
    assume ks: "\<forall>ks. successively (\<lambda>a b. (a, b) \<in> set calls) ks \<longrightarrow> length ks \<le> MAX_STATIC_CALL_DEPTH"
    have "successively (\<lambda>a b. (a, b) \<in> set calls) (map (inv_into ?V ?f) p)" if "graph_path succs p" for p
    proof -
      have "(inv_into ?V ?f x, inv_into ?V ?f y) \<in> set calls" if xy: "(x, y) \<in> graph_rel succs" for x y
      proof -
        obtain a b where ab: "(a, b) \<in> set calls" "x = ?f a" "y = ?f b" using xy unfolding rel by auto
        then have "a \<in> ?V" "b \<in> ?V" using sub by auto
        then show ?thesis using ab inj by (simp add: inv_into_f_f)
      qed
      then show ?thesis using that by (auto simp: graph_path_def successively_map intro: successively_mono)
    qed
    then show "\<forall>p. graph_path succs p \<longrightarrow> length p \<le> MAX_STATIC_CALL_DEPTH" using ks by (metis length_map)
  next
    assume p: "\<forall>p. graph_path succs p \<longrightarrow> length p \<le> MAX_STATIC_CALL_DEPTH"
    have "length ks \<le> MAX_STATIC_CALL_DEPTH" if ks: "successively (\<lambda>a b. (a, b) \<in> set calls) ks" for ks
    proof (cases "length ks \<le> 1")
      case False
      have "set ks \<subseteq> ?V"
      proof
        fix k assume "k \<in> set ks"
        then obtain us vs where s: "ks = us @ k # vs" by (meson split_list)
        show "k \<in> ?V"
        proof (cases vs)
          case (Cons v ws)
          then show ?thesis using ks s sub by (auto simp: successively_append_iff)
        next
          case Nil
          then obtain u us' where "us = us' @ [u]" using False s by (cases us rule: rev_cases) auto
          then show ?thesis using ks s sub Nil by (auto simp: successively_append_iff)
        qed
      qed
      then have "set (map ?f ks) \<subseteq> {..<length succs}" using flat_index_lt len by auto
      moreover have "successively (\<lambda>a b. (a, b) \<in> graph_rel succs) (map ?f ks)"
        unfolding successively_map by (rule successively_mono [OF ks]) (auto simp: rel)
      ultimately have "graph_path succs (map ?f ks)" using False by (auto simp: graph_path_def)
      then show ?thesis using p by force
    qed (simp add: MAX_STATIC_CALL_DEPTH_def)
    then show "\<forall>ks. successively (\<lambda>a b. (a, b) \<in> set calls) ks \<longrightarrow> length ks \<le> MAX_STATIC_CALL_DEPTH" by blast
  qed
  then show ?thesis using acyclic_image [OF inj sub] rel by (simp add: calls_bounded_def)
qed

lemma call_graph_computed:
  assumes k: "\<forall>(a, b)\<in>set calls. key_in (fp_modules p) a \<and> key_in (fp_modules p) b"
  obtains succs indegree depth seen where
    "call_graph (function_offsets p) calls (replicate (function_count (fp_modules p)) []) (replicate (function_count (fp_modules p)) 0) =
       Some (succs, indegree)"
    "call_loop succs (zero_indices indegree) (replicate (function_count (fp_modules p)) 1) indegree 0 = Some (depth, seen)"
    "seen = function_count (fp_modules p) \<and> foldr max depth 0 \<le> MAX_STATIC_CALL_DEPTH \<longleftrightarrow> calls_bounded calls"
proof -
  let ?n = "function_count (fp_modules p)" let ?es = "map (call_edge (fp_modules p)) calls"
  define succs where "succs = edge_graph ?n ?es"
  define indegree where "indegree = map (\<lambda>t. length (filter (\<lambda>e. eg_target e = t) ?es)) [0..<?n]"
  have start: "replicate ?n [] = edge_graph ?n []" "replicate ?n 0 = map (\<lambda>t. length (filter (\<lambda>e. eg_target e = t) ([] :: edge list))) [0..<?n]"
    by (simp_all add: edge_graph_def map_replicate_const)
  have cg: "call_graph (function_offsets p) calls (replicate ?n []) (replicate ?n 0) = Some (succs, indegree)"
    unfolding start using call_graph_spec [OF k, of "[]"] by (simp add: succs_def indegree_def)
  have e: "edges_in ?n ?es" by (rule call_rel(1) [OF k])
  have len: "length succs = ?n" by (simp add: succs_def)
  obtain depth seen where l: "call_loop succs (zero_indices indegree) (replicate ?n 1) indegree 0 = Some (depth, seen)"
      "seen = ?n \<longleftrightarrow> acyclic (graph_rel succs)"
      "seen = ?n \<longrightarrow> (\<forall>k. foldr max depth 0 \<le> k \<longleftrightarrow> (\<forall>p. graph_path succs p \<longrightarrow> length p \<le> k))"
    using call_loop_result [OF edge_graph_wf [OF e] edge_graph_degrees [OF e], folded succs_def indegree_def] len by auto
  show thesis by (rule that [OF cg l(1)]) (use l(2,3) calls_bounded_graph [OF k succs_def] in auto)
qed

lemma verify_call_graph_steps:
  assumes k: "\<forall>(a, b)\<in>set calls. key_in (fp_modules p) a \<and> key_in (fp_modules p) b"
  shows "steps (verify_call_graph p calls) (calls_bounded calls)"
proof -
  let ?n = "function_count (fp_modules p)"
  obtain succs indegree depth seen where c:
      "call_graph (function_offsets p) calls (replicate ?n []) (replicate ?n 0) = Some (succs, indegree)"
      "call_loop succs (zero_indices indegree) (replicate ?n 1) indegree 0 = Some (depth, seen)"
      "seen = ?n \<and> foldr max depth 0 \<le> MAX_STATIC_CALL_DEPTH \<longleftrightarrow> calls_bounded calls"
    by (rule call_graph_computed [OF k])
  have "checks (\<lambda>er. if seen \<noteq> ?n then flow_push x er else if MAX_STATIC_CALL_DEPTH < foldr max depth 0 then flow_limit y MAX_STATIC_CALL_DEPTH er else er)
      (calls_bounded calls)" for x y
    unfolding c(3) [symmetric] using checks_flow_push [of x] checks_flow_limit [of y MAX_STATIC_CALL_DEPTH] checks_id
    by (cases "seen = ?n"; cases "MAX_STATIC_CALL_DEPTH < foldr max depth 0") (auto simp: not_less)
  from steps_guard [OF steps_checks [OF this]] show ?thesis
    unfolding verify_call_graph_def [abs_def] Let_def function_offsets_last c(1) c(2) Option.bind.simps split .
qed

section \<open>Programs\<close>

lemma program_functions_mem:
  "(key, f, file) \<in> set (program_functions p) \<longleftrightarrow>
    key_in (fp_modules p) key \<and> f = fm_functions (fp_modules p ! fk_module key) ! fk_function key \<and>
    file = fm_source_file (fp_modules p ! fk_module key)"
  by (cases key) (force simp: program_functions_def in_set_enumerate_eq key_in_def)

lemma calls_in_keys: "calls_in (collect_signatures p) calls \<longleftrightarrow> (\<forall>(a, b)\<in>set calls. key_in (fp_modules p) a \<and> key_in (fp_modules p) b)"
  by (fastforce simp: calls_in_def collect_signatures_def key_in_def)

lemma function_limits_mem:
  assumes "flow_within_limits p" "(key, f, file) \<in> set (program_functions p)"
  shows "function_within_limits f"
proof -
  have "f \<in> set (concat (map fm_functions (fp_modules p)))"
    using assms(2) by (auto simp: program_functions_mem key_in_def intro!: bexI [of _ "fp_modules p ! fk_module key"])
  then show ?thesis using assms(1) by (auto simp: flow_within_limits_def functions_within_limits_def)
qed

lemma check_until_fails:
  assumes "vs \<noteq> []" "\<And>v. checks (f v) False"
  shows "checks (check_until f vs) False"
proof -
  have "checks (check_until f vs) (\<forall>v\<in>set vs. False)" by (rule checks_until) (rule assms(2))
  then show ?thesis by (rule checks_cong) (use assms(1) in auto)
qed

lemma verify_public_abi_cases:
  assumes b: "bounded_errors er"
  obtains abi indices er' where "verify_public_abi p er = ((abi, indices), er')" "bounded_errors er'"
    "clean er' \<longleftrightarrow> clean er \<and> abi_ok (public_exports p)"
    "clean er' \<Longrightarrow> \<exists>m. abi = Some m \<and> verify_v1 (public_exports p) = Inr m"
proof (cases "ce_exhausted er")
  case True
  then have "verify_public_abi p er = ((None, []), er)" "\<not> clean er" by (simp_all add: verify_public_abi_def clean_def)
  then show thesis using that b by blast
next
  case False
  obtain indices where ex: "(case get_at (fp_modules p) (unat (fp_entry_module p)) of
                  None \<Rightarrow> ([], map (\<lambda>m. replicate (length (fm_functions m)) None) (fp_modules p))
                | Some m \<Rightarrow> (let (es, is) = entry_exports (fm_functions m) 0
                   in (es, (map (\<lambda>m. replicate (length (fm_functions m)) None) (fp_modules p))[unat (fp_entry_module p) := is])))
      = (public_exports p, indices)"
    by (cases "get_at (fp_modules p) (unat (fp_entry_module p))") (auto simp: public_exports_def case_prod_unfold Let_def)
  show thesis
  proof (cases "verify_v1 (public_exports p)")
    case (Inl vs)
    then have "vs \<noteq> []" "\<not> abi_ok (public_exports p)"
      using verify_v1_rejects [OF Inl] verify_v1_accepts [of "public_exports p"] by auto
    then have "checks (check_until (\<lambda>v. flow_push (flow_abi_diagnostic v)) vs) False"
      by (intro check_until_fails checks_flow_push)
    then have c: "bounded_errors (check_until (\<lambda>v. flow_push (flow_abi_diagnostic v)) vs er)"
        "\<not> clean (check_until (\<lambda>v. flow_push (flow_abi_diagnostic v)) vs er)" using b by (auto simp: checks_def)
    show thesis
      by (rule that [of None indices "check_until (\<lambda>v. flow_push (flow_abi_diagnostic v)) vs er"])
        (use False ex Inl c \<open>\<not> abi_ok (public_exports p)\<close> in \<open>simp_all add: verify_public_abi_def Let_def\<close>)
  next
    case (Inr m)
    then have "abi_ok (public_exports p)" using verify_v1_accepts by blast
    then show thesis
      by (intro that [of "Some m" indices er]) (use False ex Inr b in \<open>simp_all add: verify_public_abi_def Let_def\<close>)
  qed
qed

lemma flow_verify_total:
  assumes wf: "wf_source_map sources"
  shows "\<exists>r. flow_verify p sources expected_entry = Some r \<and>
    (case r of
       Inl ds \<Rightarrow> \<not> flow_ok p sources expected_entry \<and> 0 < length ds \<and> length ds \<le> MAX_FLOW_DIAGNOSTICS
     | Inr v \<Rightarrow> flow_ok p sources expected_entry \<and> vfp_program v = p \<and> verify_v1 (public_exports p) = Inr (vfp_abi v))"
proof -
  have diag: "0 < length (ce_diagnostics er) \<and> length (ce_diagnostics er) \<le> MAX_FLOW_DIAGNOSTICS"
    if "bounded_errors er" "\<not> clean er" for er
    using that by (auto simp: bounded_errors_def clean_def MAX_FLOW_DIAGNOSTICS_def split: if_splits)
  have p0: "bounded_errors (flow_preflight p no_errors)" "clean (flow_preflight p no_errors) \<longleftrightarrow> flow_within_limits p"
    using checksD [OF flow_preflight_exact, of no_errors p] by simp_all
  show ?thesis
  proof (cases "flow_within_limits p")
    case False
    then have "\<not> clean (flow_preflight p no_errors)" "\<not> errors_is_empty (flow_preflight p no_errors)" using p0 clean_iff_empty by auto
    then show ?thesis using diag [OF p0(1)] False by (simp add: flow_verify_def Let_def flow_ok_def)
  next
    case lim: True
    then have pre: "flow_preflight p no_errors = no_errors" using p0(2) clean_unique by blast
    have ms: "length (fp_modules p) \<le> 2 ^ 32" "\<forall>m\<in>set (fp_modules p). length (fm_functions m) \<le> 2 ^ 32"
      using lim by (auto simp: flow_within_limits_def flow_limit_defs)
    obtain er1 where e1: "verify_modules p sources expected_entry no_errors = Some er1" "bounded_errors er1"
        "clean er1 \<longleftrightarrow> modules_ok p sources expected_entry"
      using verify_modules_steps [OF ms, of sources expected_entry] unfolding steps_def by (metis clean_no_errors)
    let ?sigs = "collect_signatures p" let ?F = "\<forall>(key, f, file)\<in>set (program_functions p). flow_function_ok sources ?sigs file f"
    have fs: "\<forall>(key, f, file)\<in>set (program_functions p). function_within_limits f \<and> calls_in ?sigs [(key, key)]"
      using function_limits_mem [OF lim] by (auto simp: calls_in_keys program_functions_mem)
    have c0: "calls_in ?sigs []" by (simp add: calls_in_def)
    obtain calls er2 where e2: "verify_functions (program_functions p) ?sigs sources [] er1 = Some (calls, er2)" "bounded_errors er2"
        "calls_in ?sigs calls" "clean er2 \<longleftrightarrow> clean er1 \<and> ?F" "clean er2 \<longrightarrow> calls = program_calls p"
      using verify_functions_yields [OF wf fs c0, unfolded yields_def, THEN spec, THEN mp, OF e1(2)]
      unfolding program_calls_def append_Nil by blast
    obtain er3 where e3: "verify_call_graph p calls er2 = Some er3" "bounded_errors er3" "clean er3 \<longleftrightarrow> clean er2 \<and> calls_bounded calls"
      using verify_call_graph_steps [of calls p] e2(2,3) unfolding calls_in_keys steps_def by blast
    obtain abi indices er4 where e4: "verify_public_abi p er3 = ((abi, indices), er4)" "bounded_errors er4"
        "clean er4 \<longleftrightarrow> clean er3 \<and> abi_ok (public_exports p)"
        "clean er4 \<Longrightarrow> \<exists>m. abi = Some m \<and> verify_v1 (public_exports p) = Inr m"
      using verify_public_abi_cases [OF e3(2)] by blast
    have ok: "clean er4 \<longleftrightarrow> flow_ok p sources expected_entry"
      using e1(3) e2(4,5) e3(3) e4(3) lim by (auto simp: flow_ok_def)
    have exh: "\<not> flow_ok p sources expected_entry \<and> \<not> clean er" if "ce_exhausted er" "er = er1 \<or> er = er2 \<or> er = er3" for er
      using that ok e1(3) e2(4) e3(3) e4(3) exhausted_not_clean by blast
    have start: "errors_is_empty (no_errors)" by (simp add: errors_is_empty_def no_errors_def)
    consider "ce_exhausted er1" | "\<not> ce_exhausted er1" "ce_exhausted er2" | "\<not> ce_exhausted er1" "\<not> ce_exhausted er2" "ce_exhausted er3"
      | "\<not> ce_exhausted er1" "\<not> ce_exhausted er2" "\<not> ce_exhausted er3" by blast
    then show ?thesis
    proof cases
      case 1
      then show ?thesis using exh [of er1] diag [OF e1(2)] e1(1) pre start by (simp add: flow_verify_def Let_def)
    next
      case 2
      then show ?thesis using exh [of er2] diag [OF e2(2)] e1(1) e2(1) pre start by (simp add: flow_verify_def Let_def)
    next
      case 3
      then show ?thesis using exh [of er3] diag [OF e3(2)] e1(1) e2(1) e3(1) pre start by (simp add: flow_verify_def Let_def)
    next
      case 4
      show ?thesis
      proof (cases "clean er4")
        case True
        then obtain m where "abi = Some m" "verify_v1 (public_exports p) = Inr m" using e4(4) by blast
        then show ?thesis using 4 True ok clean_iff_empty [OF e4(2)] e1(1) e2(1) e3(1) e4(1) pre start
          by (simp add: flow_verify_def Let_def)
      next
        case False
        then show ?thesis using 4 ok clean_iff_empty [OF e4(2)] diag [OF e4(2)] e1(1) e2(1) e3(1) e4(1) pre start
          by (simp add: flow_verify_def Let_def)
      qed
    qed
  qed
qed

lemma sample_flow_verifies: "\<exists>v. flow_verify sample_flow sample_map sample_entry = Some (Inr v)"
proof -
  have "case flow_verify sample_flow sample_map sample_entry of Some (Inr _) \<Rightarrow> True | _ \<Rightarrow> False" by code_simp
  then show ?thesis by (auto split: option.splits sum.splits)
qed

section \<open>Properties\<close>

text \<open>C35: the control-flow verifier never panics over a well-formed source map and is exact. It accepts exactly the programs
  within every limit whose modules are the files of the source map, whose functions are typed SSA with dense
  identities in which each use is dominated by its definition and every cycle has one dominating header, whose
  loops nest and whose chains of calls run at most 128 deep, and whose entry exports make a scalar ABI. An
  accepted program is returned unchanged with its ABI; a rejection carries between 1 and 256 diagnostics.\<close>

theorem flow_verify_exact:
  assumes "wf_source_map sources"
  shows "\<exists>r. flow_verify p sources expected_entry = Some r \<and>
    (case r of
       Inl ds \<Rightarrow> \<not> flow_ok p sources expected_entry \<and> 0 < length ds \<and> length ds \<le> MAX_FLOW_DIAGNOSTICS
     | Inr v \<Rightarrow> flow_ok p sources expected_entry \<and> vfp_program v = p \<and> verify_v1 (public_exports p) = Inr (vfp_abi v))"
  by (rule flow_verify_total [OF assms])

theorem flow_verify_exact_witness:
  "wf_source_map sample_map \<and> flow_ok sample_flow sample_map sample_entry"
  using flow_verify_exact [OF sample_wf, of sample_flow sample_entry] sample_flow_verifies sample_wf by auto

end
