(* ===== verification/Control_Flow_Safety.thy ===== *)
theory Control_Flow_Safety
  imports Control_Flow_Exact
begin

text \<open>
  A reference execution of control-flow programs and the safety of the programs that the verifier accepts: every
  operand is defined with its type on every path, every branch and call finds its target, and the stack
  of calls stays within the limit.
\<close>

section \<open>Specification vocabulary\<close>

text \<open>
  The meaning of a program, as the verifier's reference: a persistent environment of SSA values, block
  parameters read before they are written, 32-bit wrapping arithmetic, and a call stack of at most
  \<open>MAX_STATIC_CALL_DEPTH\<close> functions. \<open>Stuck\<close> is everything a verified program must never do; \<open>Pending\<close> is an
  execution that needs more steps than it was given.
\<close>

datatype rvalue = RBool bool | RI32 i32

datatype 'a outcome = Finished 'a | Stuck | Pending

type_synonym flow_env = "u32 \<Rightarrow> rvalue option"

fun rvalue_type :: "rvalue \<Rightarrow> ir_type" where
  "rvalue_type (RBool _) = TyBool"
| "rvalue_type (RI32 _) = TyI32"

definition int_operation :: "(i32 \<Rightarrow> i32 \<Rightarrow> rvalue) \<Rightarrow> flow_env \<Rightarrow> u32 \<Rightarrow> u32 \<Rightarrow> rvalue option" where
  "int_operation f env l r = (case (env l, env r) of (Some (RI32 a), Some (RI32 b)) \<Rightarrow> Some (f a b) | _ \<Rightarrow> None)"

definition equal_operation :: "bool \<Rightarrow> flow_env \<Rightarrow> u32 \<Rightarrow> u32 \<Rightarrow> rvalue option" where
  "equal_operation expected env l r =
     (case (env l, env r) of
        (Some (RI32 a), Some (RI32 b)) \<Rightarrow> Some (RBool ((a = b) = expected))
      | (Some (RBool a), Some (RBool b)) \<Rightarrow> Some (RBool ((a = b) = expected))
      | _ \<Rightarrow> None)"

fun operation_value :: "flow_env \<Rightarrow> instruction_kind \<Rightarrow> rvalue option" where
  "operation_value env (IkBoolLiteral b) = Some (RBool b)"
| "operation_value env (IkI32Literal w) = Some (RI32 w)"
| "operation_value env (IkI32Neg v) = (case env v of Some (RI32 a) \<Rightarrow> Some (RI32 (- a)) | _ \<Rightarrow> None)"
| "operation_value env (IkI32Add l r) = int_operation (\<lambda>a b. RI32 (a + b)) env l r"
| "operation_value env (IkI32Sub l r) = int_operation (\<lambda>a b. RI32 (a - b)) env l r"
| "operation_value env (IkI32Mul l r) = int_operation (\<lambda>a b. RI32 (a * b)) env l r"
| "operation_value env (IkI32LtS l r) = int_operation (\<lambda>a b. RBool (sint a < sint b)) env l r"
| "operation_value env (IkI32LeS l r) = int_operation (\<lambda>a b. RBool (sint a \<le> sint b)) env l r"
| "operation_value env (IkI32GtS l r) = int_operation (\<lambda>a b. RBool (sint b < sint a)) env l r"
| "operation_value env (IkI32GeS l r) = int_operation (\<lambda>a b. RBool (sint b \<le> sint a)) env l r"
| "operation_value env (IkEq l r) = equal_operation True env l r"
| "operation_value env (IkNe l r) = equal_operation False env l r"
| "operation_value env (IkDirectCall _ _) = None"

definition instruction_value ::
    "(function_id \<Rightarrow> rvalue list \<Rightarrow> rvalue outcome) \<Rightarrow> flow_env \<Rightarrow> instruction_kind \<Rightarrow> rvalue outcome" where
  "instruction_value call env kind =
     (case kind of
        IkDirectCall callee args \<Rightarrow> (case those (map env args) of None \<Rightarrow> Stuck | Some vs \<Rightarrow> call callee vs)
      | _ \<Rightarrow> (case operation_value env kind of None \<Rightarrow> Stuck | Some x \<Rightarrow> Finished x))"

fun run_instructions ::
    "(function_id \<Rightarrow> rvalue list \<Rightarrow> rvalue outcome) \<Rightarrow> instruction list \<Rightarrow> flow_env \<Rightarrow> flow_env outcome" where
  "run_instructions call [] env = Finished env"
| "run_instructions call (ins # rest) env =
     (case instruction_value call env (is_kind ins) of
        Finished x \<Rightarrow> run_instructions call rest (env(fv_id (is_result ins) \<mapsto> x))
      | Stuck \<Rightarrow> Stuck
      | Pending \<Rightarrow> Pending)"

fun bind_values :: "u32 list \<Rightarrow> rvalue list \<Rightarrow> flow_env \<Rightarrow> flow_env" where
  "bind_values (i # is) (x # xs) env = bind_values is xs (env(i \<mapsto> x))"
| "bind_values _ _ env = env"

definition transfer :: "flow_function \<Rightarrow> u32 \<Rightarrow> u32 list \<Rightarrow> flow_env \<Rightarrow> (usize \<times> flow_env) option" where
  "transfer f target args env =
     Option.bind (get_at (ff_blocks f) (unat target)) (\<lambda>b.
     Option.bind (those (map env args)) (\<lambda>xs.
     if length xs = length (bk_parameters b) then Some (unat target, bind_values (map fv_id (bk_parameters b)) xs env) else None))"

definition next_block :: "flow_function \<Rightarrow> terminator \<Rightarrow> flow_env \<Rightarrow> (rvalue + usize \<times> flow_env) option" where
  "next_block f t env =
     (case t of
        TmReturn v \<Rightarrow> map_option Inl (env v)
      | TmJump target args \<Rightarrow> map_option Inr (transfer f target args env)
      | TmBranch c a as b bs \<Rightarrow>
          (case env c of
             Some (RBool x) \<Rightarrow> map_option Inr (if x then transfer f a as env else transfer f b bs env)
           | _ \<Rightarrow> None))"

definition callee_function :: "flow_program \<Rightarrow> function_key \<Rightarrow> flow_function option" where
  "callee_function p key =
     Option.bind (get_at (fp_modules p) (fk_module key)) (\<lambda>m. get_at (fm_functions m) (fk_function key))"

definition entry_env :: "flow_function \<Rightarrow> rvalue list \<Rightarrow> flow_env option" where
  "entry_env f xs =
     (if length xs = length (ff_parameters f) then Some (bind_values (map fv_id (ff_parameters f)) xs Map.empty) else None)"

primrec exec :: "nat \<Rightarrow> flow_program \<Rightarrow> function_key list \<Rightarrow> flow_function \<Rightarrow> usize \<Rightarrow> flow_env \<Rightarrow> rvalue outcome" where
  "exec 0 p stack f bi env = Pending"
| "exec (Suc n) p stack f bi env =
     (case get_at (ff_blocks f) bi of
        None \<Rightarrow> Stuck
      | Some b \<Rightarrow>
          (case run_instructions
              (\<lambda>callee xs.
                 if MAX_STATIC_CALL_DEPTH \<le> length stack then Stuck
                 else
                   (case callee_function p (callee_key callee) of
                      None \<Rightarrow> Stuck
                    | Some g \<Rightarrow>
                        (case entry_env g xs of
                           None \<Rightarrow> Stuck
                         | Some env \<Rightarrow> exec n p (callee_key callee # stack) g 0 env)))
              (bk_instructions b) env of
             Stuck \<Rightarrow> Stuck
           | Pending \<Rightarrow> Pending
           | Finished env \<Rightarrow>
               (case bk_terminators b of
                  [t] \<Rightarrow>
                    (case next_block f (st_kind t) env of
                       None \<Rightarrow> Stuck
                     | Some (Inl x) \<Rightarrow> Finished x
                     | Some (Inr (bi, env)) \<Rightarrow> exec n p stack f bi env)
                | _ \<Rightarrow> Stuck)))"

definition run_function :: "nat \<Rightarrow> flow_program \<Rightarrow> function_key \<Rightarrow> rvalue list \<Rightarrow> rvalue outcome" where
  "run_function n p key xs =
     (case callee_function p key of
        None \<Rightarrow> Stuck
      | Some f \<Rightarrow> (case entry_env f xs of None \<Rightarrow> Stuck | Some env \<Rightarrow> exec n p [key] f 0 env))"

text \<open>What holds of the environment when a walk has reached a position: everything defined on the way has its type.\<close>

definition passed :: "usize list \<Rightarrow> usize \<Rightarrow> definition_location \<Rightarrow> bool" where
  "passed w position location =
     (case location of
        AtParameter \<Rightarrow> True
      | AtBlockParameter b \<Rightarrow> b \<in> set w
      | AtInstruction b i \<Rightarrow> b \<in> set (butlast w) \<or> b = last w \<and> i < position)"

definition typed_at :: "flow_env \<Rightarrow> u32 \<Rightarrow> ir_type \<Rightarrow> bool" where
  "typed_at env v ty = (\<exists>x. env v = Some x \<and> rvalue_type x = ty)"

definition env_ok :: "flow_function \<Rightarrow> usize list \<Rightarrow> usize \<Rightarrow> flow_env \<Rightarrow> bool" where
  "env_ok f w position env =
     (\<forall>(d, location)\<in>set (function_definitions f). passed w position location \<longrightarrow> typed_at env (fv_id d) (fv_ty d))"

definition outcome_ok :: "ir_type \<Rightarrow> rvalue outcome \<Rightarrow> bool" where
  "outcome_ok ty r = (case r of Finished x \<Rightarrow> rvalue_type x = ty | Stuck \<Rightarrow> False | Pending \<Rightarrow> True)"

definition flow_typed :: "source_map \<Rightarrow> signatures \<Rightarrow> file_id \<Rightarrow> flow_function \<Rightarrow> bool" where
  "flow_typed sources sigs file f = (flow_function_ok sources sigs file f \<and> function_within_limits f)"

abbreviation flow_graph :: "flow_function \<Rightarrow> usize list list" where
  "flow_graph f \<equiv> edge_graph (length (ff_blocks f)) (function_edges f)"

definition call_chain :: "flow_program \<Rightarrow> function_key list \<Rightarrow> bool" where
  "call_chain p stack = successively (\<lambda>a b. (b, a) \<in> set (program_calls p)) stack"

section \<open>Execution\<close>

lemma lookup_definition:
  assumes d: "definitions_ok 0 (function_definitions f)" and n: "length (function_definitions f) \<le> 2 ^ 32"
  shows "lookup_value v (value_table f) = Some info \<longleftrightarrow>
    (\<exists>d location. (d, location) \<in> set (function_definitions f) \<and> fv_id d = v \<and> info = \<lparr>vin_ty = fv_ty d, vin_location = location\<rparr>)"
proof -
  let ?ds = "function_definitions f"
  have id: "unat (fv_id (fst (?ds ! i))) = i" if "i < length ?ds" for i
    using d n that by (simp add: definitions_ok_def unat_of_nat take_bit_nat_eq_self)
  have "lookup_value v (value_table f) = Some info \<longleftrightarrow> unat v < length ?ds \<and> definition_info (?ds ! unat v) = info"
    by (auto simp: lookup_value_def value_table_def get_at_Some_iff)
  also have "\<dots> \<longleftrightarrow> (\<exists>d location. (d, location) \<in> set ?ds \<and> fv_id d = v \<and> info = \<lparr>vin_ty = fv_ty d, vin_location = location\<rparr>)"
  proof
    assume l: "unat v < length ?ds \<and> definition_info (?ds ! unat v) = info"
    obtain x location where x: "?ds ! unat v = (x, location)" by force
    have "(x, location) \<in> set ?ds" using l x by (metis nth_mem)
    moreover have "fv_id x = v" using id [of "unat v"] l x by (simp add: word_unat_eq_iff)
    ultimately show "\<exists>d location. (d, location) \<in> set ?ds \<and> fv_id d = v \<and> info = \<lparr>vin_ty = fv_ty d, vin_location = location\<rparr>"
      using l x by (auto simp: definition_info_def)
  next
    assume "\<exists>d location. (d, location) \<in> set ?ds \<and> fv_id d = v \<and> info = \<lparr>vin_ty = fv_ty d, vin_location = location\<rparr>"
    then obtain x location where x: "(x, location) \<in> set ?ds" "fv_id x = v" "info = \<lparr>vin_ty = fv_ty x, vin_location = location\<rparr>"
      by blast
    then obtain i where "i < length ?ds" "?ds ! i = (x, location)" by (meson in_set_conv_nth)
    then show "unat v < length ?ds \<and> definition_info (?ds ! unat v) = info" using id [of i] x by (auto simp: definition_info_def)
  qed
  finally show ?thesis .
qed

lemma definition_unique:
  assumes "definitions_ok 0 (function_definitions f)" "length (function_definitions f) \<le> 2 ^ 32"
    and "(d, l) \<in> set (function_definitions f)" "(d', l') \<in> set (function_definitions f)" "fv_id d = fv_id d'"
  shows "fv_ty d = fv_ty d' \<and> l = l'"
proof -
  have "lookup_value (fv_id x) (value_table f) = Some \<lparr>vin_ty = fv_ty x, vin_location = k\<rparr>"
    if "(x, k) \<in> set (function_definitions f)" for x k
    by (subst lookup_definition [OF assms(1,2)], rule exI [of _ x], rule exI [of _ k]) (use that in simp)
  from this [OF assms(3)] this [OF assms(4)] show ?thesis using assms(5) by simp
qed

lemma bex_enumerate: "(\<exists>x\<in>set (enumerate 0 xs). P x) \<longleftrightarrow> (\<exists>i<length xs. P (i, xs ! i))"
  using ball_enumerate_nth [of xs "\<lambda>x. \<not> P x"] by blast

lemma block_definitions_mem:
  "(d, location) \<in> set (block_definitions bi b) \<longleftrightarrow>
    location = AtBlockParameter bi \<and> d \<in> set (bk_parameters b) \<or>
    (\<exists>i<length (bk_instructions b). location = AtInstruction bi i \<and> d = is_result (bk_instructions b ! i))"
proof -
  have "(d, location) \<in> set (map (\<lambda>(i, ins). (is_result ins, AtInstruction bi i)) (enumerate 0 (bk_instructions b))) \<longleftrightarrow>
      (\<exists>i<length (bk_instructions b). location = AtInstruction bi i \<and> d = is_result (bk_instructions b ! i))"
    unfolding set_map image_iff bex_enumerate by auto
  then show ?thesis by (auto simp: block_definitions_def)
qed

lemma block_table_mem:
  "(d, location) \<in> set (block_table (enumerate 0 bs)) \<longleftrightarrow> (\<exists>bi<length bs. (d, location) \<in> set (block_definitions bi (bs ! bi)))"
proof -
  have "(d, location) \<in> set (block_table (enumerate 0 bs)) \<longleftrightarrow>
      (\<exists>x\<in>set (enumerate 0 bs). (d, location) \<in> set (case x of (bi, b) \<Rightarrow> block_definitions bi b))"
    by (auto simp: block_table_def)
  then show ?thesis unfolding bex_enumerate by simp
qed

lemma function_definitions_mem:
  "(d, location) \<in> set (function_definitions f) \<longleftrightarrow>
    (case location of
       AtParameter \<Rightarrow> d \<in> set (ff_parameters f)
     | AtBlockParameter b \<Rightarrow> b < length (ff_blocks f) \<and> d \<in> set (bk_parameters (ff_blocks f ! b))
     | AtInstruction b i \<Rightarrow> b < length (ff_blocks f) \<and> i < length (bk_instructions (ff_blocks f ! b)) \<and>
         d = is_result (bk_instructions (ff_blocks f ! b) ! i))"
  by (cases location) (auto simp: function_definitions_def block_table_mem block_definitions_mem)

lemma function_definitions_length: "length (function_definitions f) = function_values f"
  by (simp add: function_definitions_def block_table_length function_values_def)

lemma flow_typedD:
  assumes "flow_typed sources sigs file f"
  shows "definitions_ok 0 (function_definitions f)" "length (function_definitions f) \<le> 2 ^ 32"
    "bk_parameters (ff_blocks f ! 0) = []" "ff_blocks f \<noteq> []"
    "bi < length (ff_blocks f) \<Longrightarrow> block_ok sigs f (value_table f) bi (ff_blocks f ! bi)"
    "cfg_ok f (value_table f) (function_edges f)"
  using assms by (auto simp: flow_typed_def flow_function_ok_def function_within_limits_def function_definitions_length flow_limit_defs)

lemma env_ok_use:
  assumes t: "flow_typed sources sigs file f" and w: "walk (flow_graph f) w" "last w = bi"
    and env: "env_ok f w position env" and ty: "value_type (value_table f) v = Some ty"
    and av: "available (value_table f) (flow_graph f) bi position v"
  shows "typed_at env v ty"
proof -
  obtain info where i: "lookup_value v (value_table f) = Some info" "vin_ty info = ty" using ty by (auto simp: value_type_def)
  obtain d location where d: "(d, location) \<in> set (function_definitions f)" "fv_id d = v"
      "info = \<lparr>vin_ty = fv_ty d, vin_location = location\<rparr>"
    using lookup_definition [OF flow_typedD(1,2) [OF t]] i(1) by blast
  have "passed w position location"
  proof (cases location)
    case (AtBlockParameter b)
    then have "dominator (flow_graph f) b bi" using av i(1) d(3) by (simp add: available_def)
    then show ?thesis using w AtBlockParameter by (auto simp: passed_def dominator_def)
  next
    case (AtInstruction b k)
    have "b \<in> set (butlast w)" if "b \<noteq> bi"
    proof -
      have "dominator (flow_graph f) b bi" using av i(1) d(3) AtInstruction that by (simp add: available_def)
      then have "b \<in> set w" using w by (auto simp: dominator_def)
      moreover have "w = butlast w @ [last w]" using w(1) by (simp add: walk_def)
      ultimately show ?thesis using w(2) that by (metis rotate1.simps(2) set_ConsD set_rotate1)
    qed
    moreover have "k < position" if "b = bi" using av i(1) d(3) AtInstruction that by (simp add: available_def)
    ultimately show ?thesis using w(2) AtInstruction by (auto simp: passed_def)
  qed (simp add: passed_def)
  then show ?thesis using env d i(2) by (auto simp: env_ok_def)
qed

lemma typed_at_int: "typed_at env v TyI32 \<longleftrightarrow> (\<exists>a. env v = Some (RI32 a))"
  unfolding typed_at_def by (metis ir_type.distinct(3) ir_type.distinct(5) ir_type.distinct(1) rvalue.exhaust rvalue_type.simps)

lemma typed_at_bool: "typed_at env v TyBool \<longleftrightarrow> (\<exists>a. env v = Some (RBool a))"
  unfolding typed_at_def by (metis ir_type.distinct rvalue.exhaust rvalue_type.simps)

lemma those_typed:
  "\<forall>v\<in>set args. typed_at env v (ty v) \<Longrightarrow> \<exists>xs. those (map env args) = Some xs \<and> map rvalue_type xs = map ty args"
  by (induction args) (auto simp: typed_at_def)

lemma instruction_value_ok:
  assumes ok: "instruction_ok sigs vals bi position ins"
    and env: "\<And>v ty. v \<in> set (instruction_operands (is_kind ins)) \<Longrightarrow> value_type vals v = Some ty \<Longrightarrow> typed_at env v ty"
    and call: "\<And>callee args xs. is_kind ins = IkDirectCall callee args \<Longrightarrow>
      callee_signature sigs callee = Some (map rvalue_type xs, fv_ty (is_result ins)) \<Longrightarrow>
      outcome_ok (fv_ty (is_result ins)) (call callee xs)"
  shows "outcome_ok (fv_ty (is_result ins)) (instruction_value call env (is_kind ins))"
proof -
  have us: "\<exists>ty. value_type vals v = Some ty" if "v \<in> set (instruction_operands (is_kind ins))" for v
    using ok that by (fastforce simp: instruction_ok_def usable_def value_type_def split: option.splits)
  have int: "\<exists>a b. env l = Some (RI32 a) \<and> env r = Some (RI32 b)"
    if "value_type vals l = Some TyI32" "value_type vals r = Some TyI32" "set (instruction_operands (is_kind ins)) = {l, r}" for l r
    using env [of l TyI32] env [of r TyI32] that by (auto simp: typed_at_int)
  have int_ok: "outcome_ok ty (case int_operation g env l r of None \<Rightarrow> Stuck | Some x \<Rightarrow> Finished x)"
    if "value_type vals l = Some TyI32" "value_type vals r = Some TyI32" "set (instruction_operands (is_kind ins)) = {l, r}"
      "\<And>a b. rvalue_type (g a b) = ty" for g l r ty
    using int [OF that(1,2,3)] that(4) by (auto simp: int_operation_def outcome_ok_def)
  have eq: "\<exists>ty. typed_at env l ty \<and> typed_at env r ty"
    if "value_type vals l = value_type vals r" "set (instruction_operands (is_kind ins)) = {l, r}" for l r
    using env [of l] env [of r] us [of l] that by auto
  have equal: "outcome_ok TyBool (case equal_operation e env l r of None \<Rightarrow> Stuck | Some x \<Rightarrow> Finished x)"
    if lr: "typed_at env l ty" "typed_at env r ty" for e l r ty
  proof -
    obtain a b where "env l = Some a" "env r = Some b" "rvalue_type a = rvalue_type b" using lr by (auto simp: typed_at_def)
    then show ?thesis by (cases a; cases b) (auto simp: equal_operation_def outcome_ok_def)
  qed
  have typed: "instruction_typed sigs vals ins" using ok by (simp add: instruction_ok_def)
  show ?thesis
  proof (cases "is_kind ins")
    case (IkDirectCall callee args)
    then have sig: "callee_signature sigs callee = Some (map (\<lambda>v. the (value_type vals v)) args, fv_ty (is_result ins))"
      using typed by (simp add: instruction_typed_def)
    have "typed_at env v (the (value_type vals v))" if "v \<in> set args" for v
      using us [of v] env [of v] that IkDirectCall by auto
    then obtain xs where xs: "those (map env args) = Some xs" "map rvalue_type xs = map (\<lambda>v. the (value_type vals v)) args"
      using those_typed [of args env "\<lambda>v. the (value_type vals v)"] by blast
    then show ?thesis using call [OF IkDirectCall, of xs] sig IkDirectCall by (simp add: instruction_value_def)
  next
    case (IkI32Neg v)
    then have "value_type vals v = Some TyI32" "fv_ty (is_result ins) = TyI32" using typed by (simp_all add: instruction_typed_def)
    then obtain a where "env v = Some (RI32 a)" using env [of v TyI32] IkI32Neg by (auto simp: typed_at_int)
    then show ?thesis using IkI32Neg \<open>fv_ty (is_result ins) = TyI32\<close> by (simp add: instruction_value_def outcome_ok_def)
  next
    case (IkEq l r)
    then show ?thesis using typed eq [of l r] equal [of l _ r True] by (auto simp: instruction_typed_def instruction_value_def)
  next
    case (IkNe l r)
    then show ?thesis using typed eq [of l r] equal [of l _ r False] by (auto simp: instruction_typed_def instruction_value_def)
  qed (use typed int_ok in \<open>auto simp: instruction_typed_def instruction_value_def outcome_ok_def [of _ "Finished _"]\<close>)
qed

lemma use_in_cfg:
  assumes t: "flow_typed sources sigs file f" and bi: "bi < length (ff_blocks f)" and u: "(v, bi, position, sp) \<in> set (block_uses (bi, ff_blocks f ! bi))"
  shows "available (value_table f) (flow_graph f) bi position v"
proof -
  have "(v, bi, position, sp) \<in> set (concat (map block_uses (enumerate 0 (ff_blocks f))))"
    using u bi by (auto simp: bex_enumerate)
  then show ?thesis using flow_typedD(6) [OF t] unfolding cfg_ok_def Let_def by fast
qed

lemma instruction_available:
  assumes t: "flow_typed sources sigs file f" and bi: "bi < length (ff_blocks f)" and i: "i < length (bk_instructions (ff_blocks f ! bi))"
    and v: "v \<in> set (instruction_operands (is_kind (bk_instructions (ff_blocks f ! bi) ! i)))"
  shows "available (value_table f) (flow_graph f) bi i v"
proof (rule use_in_cfg [OF t bi])
  show "(v, bi, i, fv_span (is_result (bk_instructions (ff_blocks f ! bi) ! i))) \<in> set (block_uses (bi, ff_blocks f ! bi))"
    using i v by (auto simp: block_uses_def bex_enumerate intro!: exI [of _ i])
qed

lemma terminator_available:
  assumes t: "flow_typed sources sigs file f" and bi: "bi < length (ff_blocks f)" and b: "bk_terminators (ff_blocks f ! bi) = [tm]"
    and v: "v \<in> set (terminator_operands (st_kind tm))"
  shows "available (value_table f) (flow_graph f) bi (length (bk_instructions (ff_blocks f ! bi))) v"
  by (rule use_in_cfg [OF t bi, of v _ "st_span tm"]) (use b v in \<open>simp add: block_uses_def\<close>)

lemma env_ok_update:
  assumes t: "flow_typed sources sigs file f" and env: "env_ok f w i env" and w: "last w = bi" "bi < length (ff_blocks f)"
    and i: "i < length (bk_instructions (ff_blocks f ! bi))" "d = is_result (bk_instructions (ff_blocks f ! bi) ! i)"
    and x: "rvalue_type x = fv_ty d"
  shows "env_ok f w (Suc i) (env(fv_id d \<mapsto> x))"
  unfolding env_ok_def
proof (intro ballI, clarify)
  fix d' location assume d': "(d', location) \<in> set (function_definitions f)" and p: "passed w (Suc i) location"
  have here: "(d, AtInstruction bi i) \<in> set (function_definitions f)" using w i by (simp add: function_definitions_mem)
  show "typed_at (env(fv_id d \<mapsto> x)) (fv_id d') (fv_ty d')"
  proof (cases "fv_id d' = fv_id d")
    case True
    then show ?thesis using definition_unique [OF flow_typedD(1,2) [OF t] d' here] x by (simp add: typed_at_def)
  next
    case False
    have "passed w i location \<or> location = AtInstruction bi i"
      using p w(1) by (auto simp: passed_def less_Suc_eq split: definition_location.splits)
    then have "passed w i location" using False d' here i by (auto simp: function_definitions_mem)
    then show ?thesis using env d' False by (auto simp: env_ok_def typed_at_def)
  qed
qed

lemma run_instructions_ok:
  assumes t: "flow_typed sources sigs file f" and w: "walk (flow_graph f) w" "last w = bi" "bi < length (ff_blocks f)"
    and call: "\<And>callee args xs r. IkDirectCall callee args \<in> is_kind ` set (bk_instructions (ff_blocks f ! bi)) \<Longrightarrow>
      callee_signature sigs callee = Some (map rvalue_type xs, r) \<Longrightarrow> outcome_ok r (call callee xs)"
  shows "i \<le> length (bk_instructions (ff_blocks f ! bi)) \<Longrightarrow> env_ok f w i env \<Longrightarrow>
    (case run_instructions call (drop i (bk_instructions (ff_blocks f ! bi))) env of
       Finished env' \<Rightarrow> env_ok f w (length (bk_instructions (ff_blocks f ! bi))) env' | Stuck \<Rightarrow> False | Pending \<Rightarrow> True)"
proof (induction "length (bk_instructions (ff_blocks f ! bi)) - i" arbitrary: i env)
  case 0
  then show ?case by simp
next
  case (Suc k)
  let ?is = "bk_instructions (ff_blocks f ! bi)" let ?ins = "?is ! i"
  have i: "i < length ?is" using Suc.hyps(2) by simp
  then have dr: "drop i ?is = ?ins # drop (Suc i) ?is" by (simp add: Cons_nth_drop_Suc)
  have ok: "instruction_ok sigs (value_table f) bi i ?ins" using flow_typedD(5) [OF t w(3)] i by (simp add: block_ok_def)
  have v: "outcome_ok (fv_ty (is_result ?ins)) (instruction_value call env (is_kind ?ins))"
  proof (rule instruction_value_ok [OF ok])
    fix v ty assume "v \<in> set (instruction_operands (is_kind ?ins))" "value_type (value_table f) v = Some ty"
    then show "typed_at env v ty" using env_ok_use [OF t w(1,2) Suc.prems(2)] instruction_available [OF t w(3) i] by blast
  next
    fix callee args xs assume "is_kind ?ins = IkDirectCall callee args"
      "callee_signature sigs callee = Some (map rvalue_type xs, fv_ty (is_result ?ins))"
    then show "outcome_ok (fv_ty (is_result ?ins)) (call callee xs)" using call [of callee args xs] i by (metis image_eqI nth_mem)
  qed
  show ?case
  proof (cases "instruction_value call env (is_kind ?ins)")
    case (Finished x)
    then have "rvalue_type x = fv_ty (is_result ?ins)" using v by (simp add: outcome_ok_def)
    from Suc.hyps(1) [OF _ _ env_ok_update [OF t Suc.prems(2) w(2,3) i refl this]] show ?thesis
      unfolding dr using Finished Suc.hyps(2) i by simp
  qed (use v dr in \<open>auto simp: outcome_ok_def\<close>)
qed

lemma bind_values_other: "v \<notin> set is \<Longrightarrow> bind_values is xs env v = env v"
  by (induction "is" xs env rule: bind_values.induct) auto

lemma bind_values_typed:
  "list_all2 (\<lambda>d x. rvalue_type x = fv_ty d) ds xs \<Longrightarrow> \<forall>d'\<in>set ds. fv_id d' = v \<longrightarrow> fv_ty d' = ty \<Longrightarrow>
    v \<in> fv_id ` set ds \<or> typed_at env v ty \<Longrightarrow> typed_at (bind_values (map fv_id ds) xs env) v ty"
proof (induction ds xs arbitrary: env rule: list_all2_induct)
  case (Cons d ds x xs)
  then show ?case by (auto simp: typed_at_def)
qed simp

lemma block_typed_edges:
  assumes t: "flow_typed sources sigs file f" and bi: "bi < length (ff_blocks f)" and b: "bk_terminators (ff_blocks f ! bi) = [tm]"
    and e: "e \<in> set (terminator_edges bi (st_kind tm))"
  shows "(bi, eg_target e) \<in> graph_rel (flow_graph f)"
proof -
  have "e \<in> set (function_edges f)"
    using bi b e by (auto simp: function_edges_def bex_enumerate block_graph_def intro!: exI [of _ bi])
  moreover have "eg_source e = bi" using e by (cases "st_kind tm") auto
  ultimately show ?thesis using bi by (auto simp: graph_rel_def edge_graph_def)
qed

lemma transfer_ok:
  assumes t: "flow_typed sources sigs file f" and w: "walk (flow_graph f) w" "last w = bi" "bi < length (ff_blocks f)"
    and env: "env_ok f w (length (bk_instructions (ff_blocks f ! bi))) env"
    and e: "edge_ok f (value_table f) bi target args" and r: "(bi, unat target) \<in> graph_rel (flow_graph f)"
    and av: "\<forall>v\<in>set args. available (value_table f) (flow_graph f) bi (length (bk_instructions (ff_blocks f ! bi))) v"
  shows "\<exists>env'. transfer f target args env = Some (unat target, env') \<and> walk (flow_graph f) (w @ [unat target]) \<and>
    env_ok f (w @ [unat target]) 0 env'"
proof -
  let ?b = "ff_blocks f ! unat target" let ?ds = "bk_parameters ?b"
  have tg: "unat target < length (ff_blocks f)" and ty: "map (value_type (value_table f)) args = map (\<lambda>d. Some (fv_ty d)) ?ds"
    using e by (simp_all add: edge_ok_def)
  have len: "length args = length ?ds" using arg_cong [OF ty, of length] by simp
  have vt: "value_type (value_table f) (args ! i) = Some (fv_ty (?ds ! i))" if "i < length args" for i
    using arg_cong [OF ty, of "\<lambda>xs. xs ! i"] that len by simp
  have "typed_at env v (the (value_type (value_table f) v))" if v: "v \<in> set args" for v
  proof -
    obtain i where "i < length args" "args ! i = v" using v by (auto simp: in_set_conv_nth)
    then have "value_type (value_table f) v = Some (fv_ty (?ds ! i))" using vt [of i] by simp
    then show ?thesis using env_ok_use [OF t w(1,2) env, of v] av v by simp
  qed
  then obtain xs where xs: "those (map env args) = Some xs" "map rvalue_type xs = map (\<lambda>v. the (value_type (value_table f) v)) args"
    using those_typed [of args env "\<lambda>v. the (value_type (value_table f) v)"] by blast
  have lx: "length xs = length ?ds" using arg_cong [OF xs(2), of length] len by simp
  have all2: "list_all2 (\<lambda>d x. rvalue_type x = fv_ty d) ?ds xs"
  proof (rule list_all2_all_nthI)
    fix i assume i: "i < length ?ds"
    then show "rvalue_type (xs ! i) = fv_ty (?ds ! i)" using arg_cong [OF xs(2), of "\<lambda>ys. ys ! i"] lx len vt [of i] by simp
  qed (simp add: lx)
  let ?env = "bind_values (map fv_id ?ds) xs env"
  have "typed_at ?env (fv_id d) (fv_ty d)" if d: "(d, location) \<in> set (function_definitions f)" "passed (w @ [unat target]) 0 location" for d location
  proof (rule bind_values_typed [OF all2])
    have ds: "(d', AtBlockParameter (unat target)) \<in> set (function_definitions f)" if "d' \<in> set ?ds" for d'
      using that tg by (simp add: function_definitions_mem)
    show "\<forall>d'\<in>set ?ds. fv_id d' = fv_id d \<longrightarrow> fv_ty d' = fv_ty d"
      using ds definition_unique [OF flow_typedD(1,2) [OF t] _ d(1)] by blast
    have "location = AtBlockParameter (unat target) \<or> passed w (length (bk_instructions (ff_blocks f ! bi))) location"
    proof (cases location)
      case (AtInstruction b i)
      then have "b \<in> set w" using d(2) by (auto simp: passed_def)
      then have "b \<in> set (butlast w) \<or> b = last w" using w(1) by (metis append_butlast_last_id rotate1.simps(2) set_ConsD set_rotate1 walk_def)
      then show ?thesis using AtInstruction d(1) w(2) by (auto simp: passed_def function_definitions_mem)
    qed (use d(2) in \<open>auto simp: passed_def\<close>)
    then show "fv_id d \<in> fv_id ` set ?ds \<or> typed_at env (fv_id d) (fv_ty d)"
      using d(1) env by (auto simp: function_definitions_mem env_ok_def)
  qed
  then have "env_ok f (w @ [unat target]) 0 ?env" by (auto simp: env_ok_def)
  moreover have "walk (flow_graph f) (w @ [unat target])" using walk_snoc [OF w(1)] r w(2) by simp
  ultimately show ?thesis using tg xs(1) lx by (simp add: transfer_def get_at_def)
qed

lemma next_block_ok:
  assumes t: "flow_typed sources sigs file f" and w: "walk (flow_graph f) w" "last w = bi" "bi < length (ff_blocks f)"
    and env: "env_ok f w (length (bk_instructions (ff_blocks f ! bi))) env" and b: "bk_terminators (ff_blocks f ! bi) = [tm]"
  shows "(\<exists>x. next_block f (st_kind tm) env = Some (Inl x) \<and> rvalue_type x = ff_result f) \<or>
    (\<exists>bi' env'. next_block f (st_kind tm) env = Some (Inr (bi', env')) \<and> walk (flow_graph f) (w @ [bi']) \<and>
      bi' < length (ff_blocks f) \<and> env_ok f (w @ [bi']) 0 env')"
proof -
  have ok: "terminator_ok f (value_table f) bi (st_kind tm)" using flow_typedD(5) [OF t w(3)] b by (simp add: block_ok_def)
  note av = terminator_available [OF t w(3) b] and edge = block_typed_edges [OF t w(3) b]
  note use = env_ok_use [OF t w(1,2) env _ av]
  note tr = transfer_ok [OF t w env]
  show ?thesis
  proof (cases "st_kind tm")
    case (TmReturn v)
    then show ?thesis using ok use [of v] by (auto simp: next_block_def typed_at_def)
  next
    case (TmJump target args)
    then obtain env' where "transfer f target args env = Some (unat target, env')" "walk (flow_graph f) (w @ [unat target])"
        "env_ok f (w @ [unat target]) 0 env'" "unat target < length (ff_blocks f)"
      using ok tr [of target args] edge [of "\<lparr>eg_source = bi, eg_target = unat target, eg_arguments = args\<rparr>"] av
      by (auto simp: edge_ok_def)
    then show ?thesis using TmJump by (auto simp: next_block_def)
  next
    case (TmBranch c a as e es)
    then have c: "typed_at env c TyBool" using ok use [of c TyBool] by simp
    obtain x where x: "env c = Some (RBool x)" using c by (auto simp: typed_at_bool)
    have "edge_ok f (value_table f) bi a as" "edge_ok f (value_table f) bi e es" using ok TmBranch by simp_all
    moreover have "(bi, unat a) \<in> graph_rel (flow_graph f)" "(bi, unat e) \<in> graph_rel (flow_graph f)"
      using edge [of "\<lparr>eg_source = bi, eg_target = unat a, eg_arguments = as\<rparr>"]
        edge [of "\<lparr>eg_source = bi, eg_target = unat e, eg_arguments = es\<rparr>"] TmBranch by simp_all
    ultimately have both: "\<exists>env'. transfer f a as env = Some (unat a, env') \<and> walk (flow_graph f) (w @ [unat a]) \<and> env_ok f (w @ [unat a]) 0 env'"
        "\<exists>env'. transfer f e es env = Some (unat e, env') \<and> walk (flow_graph f) (w @ [unat e]) \<and> env_ok f (w @ [unat e]) 0 env'"
      using tr [of a as] tr [of e es] av TmBranch by auto
    have "unat a < length (ff_blocks f)" "unat e < length (ff_blocks f)" using ok TmBranch by (simp_all add: edge_ok_def)
    then show ?thesis using both x TmBranch by (cases x) (auto simp: next_block_def)
  qed
qed

lemma call_chain_bounded:
  assumes "flow_ok p sources expected_entry" "call_chain p stack"
  shows "length stack \<le> MAX_STATIC_CALL_DEPTH"
proof -
  have "successively (\<lambda>a b. (a, b) \<in> set (program_calls p)) (rev stack)" using assms(2) by (simp add: call_chain_def)
  then show ?thesis using assms(1) unfolding flow_ok_def calls_bounded_def by (metis length_rev)
qed

lemma flow_ok_typed:
  assumes "flow_ok p sources expected_entry" "(key, f, file) \<in> set (program_functions p)"
  shows "flow_typed sources (collect_signatures p) file f"
  using assms function_limits_mem by (fastforce simp: flow_ok_def flow_typed_def)

lemma callee_function_mem:
  "callee_function p key = Some f \<longleftrightarrow> (key, f, fm_source_file (fp_modules p ! fk_module key)) \<in> set (program_functions p)"
  by (auto simp: callee_function_def program_functions_mem key_in_def bind_eq_Some_conv get_at_Some_iff)

lemma callee_signature_function:
  assumes "callee_signature (collect_signatures p) callee = Some (params, r)"
  obtains g where "callee_function p (callee_key callee) = Some g" "params = map fv_ty (ff_parameters g)" "r = ff_result g"
  using assms that
  by (auto simp: callee_signature_def callee_function_def collect_signatures_def callee_key_def get_at_def bind_eq_Some_conv split: if_splits)

lemma entry_env_ok:
  assumes t: "flow_typed sources sigs file f" and xs: "map rvalue_type xs = map fv_ty (ff_parameters f)"
  shows "\<exists>env. entry_env f xs = Some env \<and> env_ok f [0] 0 env"
proof -
  have len: "length xs = length (ff_parameters f)" using arg_cong [OF xs, of length] by simp
  have "list_all2 (\<lambda>d x. rvalue_type x = fv_ty d) (ff_parameters f) xs"
  proof (rule list_all2_all_nthI)
    fix i assume "i < length (ff_parameters f)"
    then show "rvalue_type (xs ! i) = fv_ty (ff_parameters f ! i)" using arg_cong [OF xs, of "\<lambda>ys. ys ! i"] len by simp
  qed (simp add: len)
  note bound = bind_values_typed [OF this, where env = Map.empty]
  let ?env = "bind_values (map fv_id (ff_parameters f)) xs Map.empty"
  have "typed_at ?env (fv_id d) (fv_ty d)" if d: "(d, location) \<in> set (function_definitions f)" "passed [0] 0 location" for d location
  proof -
    have param: "location = AtParameter"
      using d flow_typedD(3) [OF t] by (auto simp: passed_def function_definitions_mem split: definition_location.splits)
    then have mem: "d \<in> set (ff_parameters f)" using d(1) by (simp add: function_definitions_mem)
    have "fv_ty d' = fv_ty d" if "d' \<in> set (ff_parameters f)" "fv_id d' = fv_id d" for d'
      using definition_unique [OF flow_typedD(1,2) [OF t] _ d(1) that(2), of AtParameter] that(1)
      by (simp add: function_definitions_mem)
    then show ?thesis using bound [of "fv_id d" "fv_ty d"] mem by blast
  qed
  then show ?thesis using len by (auto simp: entry_env_def env_ok_def)
qed

lemma block_call_recorded:
  assumes "(key, f, file) \<in> set (program_functions p)" "bi < length (ff_blocks f)"
    and "IkDirectCall callee args \<in> is_kind ` set (bk_instructions (ff_blocks f ! bi))"
  shows "(key, callee_key callee) \<in> set (program_calls p)"
proof -
  have "(key, callee_key callee) \<in> set (block_call_edges key (bi, ff_blocks f ! bi))"
    using assms(3) by (force simp: block_call_edges_def instruction_calls_def)
  then have "(key, callee_key callee) \<in> set (function_calls key f)"
    using assms(2) by (auto simp: function_calls_def bex_enumerate)
  then show ?thesis using assms(1) by (force simp: program_calls_def)
qed

lemma exec_safe:
  assumes ok: "flow_ok p sources expected_entry"
  shows "(key, f, src) \<in> set (program_functions p) \<Longrightarrow> call_chain p (key # stack) \<Longrightarrow> walk (flow_graph f) w \<Longrightarrow> last w = bi \<Longrightarrow>
    bi < length (ff_blocks f) \<Longrightarrow> env_ok f w 0 env \<Longrightarrow> outcome_ok (ff_result f) (exec n p (key # stack) f bi env)"
proof (induction n arbitrary: key f src stack w bi env)
  case 0
  then show ?case by (simp add: outcome_ok_def)
next
  case (Suc n)
  let ?sigs = "collect_signatures p" let ?b = "ff_blocks f ! bi"
  note t = flow_ok_typed [OF ok Suc.prems(1)]
  define call where "call = (\<lambda>callee xs.
                 if MAX_STATIC_CALL_DEPTH \<le> length (key # stack) then Stuck
                 else
                   (case callee_function p (callee_key callee) of
                      None \<Rightarrow> Stuck
                    | Some g \<Rightarrow>
                        (case entry_env g xs of
                           None \<Rightarrow> Stuck
                         | Some env \<Rightarrow> exec n p (callee_key callee # key # stack) g 0 env)))"
  have call_ok: "outcome_ok r (call callee xs)"
    if c: "IkDirectCall callee args \<in> is_kind ` set (bk_instructions ?b)" and sig: "callee_signature ?sigs callee = Some (map rvalue_type xs, r)"
    for callee args xs r
  proof -
    obtain g where g: "callee_function p (callee_key callee) = Some g" "map rvalue_type xs = map fv_ty (ff_parameters g)" "r = ff_result g"
      using callee_signature_function [OF sig] by metis
    have gm: "(callee_key callee, g, fm_source_file (fp_modules p ! fk_module (callee_key callee))) \<in> set (program_functions p)"
      using g(1) callee_function_mem by blast
    have chain: "call_chain p (callee_key callee # key # stack)"
      using Suc.prems(2) block_call_recorded [OF Suc.prems(1,5) c] by (simp add: call_chain_def)
    have depth: "\<not> MAX_STATIC_CALL_DEPTH \<le> length (key # stack)" using call_chain_bounded [OF ok chain] by simp
    note tg = flow_ok_typed [OF ok gm]
    obtain genv where genv: "entry_env g xs = Some genv" "env_ok g [0] 0 genv" using entry_env_ok [OF tg g(2)] by blast
    have "outcome_ok (ff_result g) (exec n p (callee_key callee # key # stack) g 0 genv)"
      by (rule Suc.IH [OF gm chain walk_single _ _ genv(2)]) (use flow_typedD(4) [OF tg] in auto)
    then show ?thesis using g genv depth by (simp add: call_def)
  qed
  have run: "case run_instructions call (bk_instructions ?b) env of
      Finished env' \<Rightarrow> env_ok f w (length (bk_instructions ?b)) env' | Stuck \<Rightarrow> False | Pending \<Rightarrow> True"
    using run_instructions_ok [OF t Suc.prems(3,4,5), of call 0 env] call_ok Suc.prems(6) by simp
  have b: "get_at (ff_blocks f) bi = Some ?b" using Suc.prems(5) by (simp add: get_at_def)
  obtain tm where tm: "bk_terminators ?b = [tm]" using flow_typedD(5) [OF t Suc.prems(5)] by (auto simp: block_ok_def)
  have step: "exec (Suc n) p (key # stack) f bi env =
      (case run_instructions call (bk_instructions ?b) env of
             Stuck \<Rightarrow> Stuck
           | Pending \<Rightarrow> Pending
           | Finished env \<Rightarrow>
               (case next_block f (st_kind tm) env of
                       None \<Rightarrow> Stuck
                     | Some (Inl x) \<Rightarrow> Finished x
                     | Some (Inr (bi, env)) \<Rightarrow> exec n p (key # stack) f bi env))"
    unfolding exec.simps b option.case call_def tm list.case ..
  show ?case
  proof (cases "run_instructions call (bk_instructions ?b) env")
    case (Finished env')
    then have "env_ok f w (length (bk_instructions ?b)) env'" using run by simp
    from next_block_ok [OF t Suc.prems(3,4,5) this tm] show ?thesis
    proof (elim disjE exE conjE)
      fix x assume "next_block f (st_kind tm) env' = Some (Inl x)" "rvalue_type x = ff_result f"
      then show ?thesis unfolding step Finished by (simp add: outcome_ok_def)
    next
      fix bi' env2 assume s: "next_block f (st_kind tm) env' = Some (Inr (bi', env2))" "walk (flow_graph f) (w @ [bi'])"
        "bi' < length (ff_blocks f)" "env_ok f (w @ [bi']) 0 env2"
      have "outcome_ok (ff_result f) (exec n p (key # stack) f bi' env2)"
        by (rule Suc.IH [OF Suc.prems(1,2) s(2) _ s(3,4)]) simp
      then show ?thesis unfolding step Finished using s(1) by simp
    qed
  qed (use run step in \<open>simp_all add: outcome_ok_def\<close>)
qed

lemma sample_flow_runs: "run_function 20 sample_flow sample_key [RI32 4] = Finished (RI32 10)"
  by code_simp

section \<open>Properties\<close>

text \<open>C36: programs accepted by the control-flow verifier cannot go wrong. Called with arguments of its parameter types,
  any function of an accepted program runs for any number of steps without reading an undefined or ill-typed value, a missing
  block or function, or a call stack deeper than the limit; if it returns, the value has the result type.\<close>

theorem flow_type_safe:
  assumes "wf_source_map sources" "flow_verify p sources expected_entry = Some (Inr v)"
    and "callee_function p key = Some f" "map rvalue_type xs = map fv_ty (ff_parameters f)"
  shows "outcome_ok (ff_result f) (run_function n p key xs)"
proof -
  have ok: "flow_ok p sources expected_entry" using flow_verify_total [OF assms(1), of p expected_entry] assms(2) by auto
  note mem = assms(3) [unfolded callee_function_mem]
  note t = flow_ok_typed [OF ok mem]
  obtain env where env: "entry_env f xs = Some env" "env_ok f [0] 0 env" using entry_env_ok [OF t assms(4)] by blast
  have "outcome_ok (ff_result f) (exec n p [key] f 0 env)"
    by (rule exec_safe [OF ok mem _ walk_single _ _ env(2)]) (use flow_typedD(4) [OF t] in \<open>auto simp: call_chain_def\<close>)
  then show ?thesis using assms(3) env(1) by (simp add: run_function_def)
qed

theorem flow_type_safe_witness:
  "\<exists>f. callee_function sample_flow sample_key = Some f \<and> outcome_ok (ff_result f) (run_function 20 sample_flow sample_key [RI32 4]) \<and>
    run_function 20 sample_flow sample_key [RI32 4] = Finished (RI32 10)"
proof -
  obtain v where v: "flow_verify sample_flow sample_map sample_entry = Some (Inr v)" using sample_flow_verifies by blast
  have f: "callee_function sample_flow sample_key = Some (fm_functions (fp_modules sample_flow ! 0) ! 0)" by code_simp
  have "map rvalue_type [RI32 4] = map fv_ty (ff_parameters (fm_functions (fp_modules sample_flow ! 0) ! 0))" by code_simp
  from flow_type_safe [OF sample_wf v f this, of 20] f sample_flow_runs show ?thesis by blast
qed

end
