(* ===== verification/Native_Flow.thy ===== *)
theory Native_Flow
  imports Control_Flow
begin

text \<open>
  The native MIR of the control-flow profile, \<open>crates/zryna-native-mir/src/control_flow_v1.rs\<close>: raw programs, their
  independent verifier and the lowering of verified control-flow IR. The private graph routines of the file are those
  of the IR verifier line by line and are taken from \<open>Flow_Graph\<close>; its \<open>Edge\<close> has no arguments, and is an \<open>edge\<close>
  with an empty list. \<open>None\<close> is a panic. Unlike the IR verifier, the native one often goes on after its collector is
  exhausted, when a further report changes nothing.
\<close>

section \<open>Limits\<close>

definition MAX_TERMINATORS_PER_FUNCTION :: usize where "MAX_TERMINATORS_PER_FUNCTION = MAX_BLOCKS_PER_FUNCTION"
definition MAX_TERMINATORS_PER_PROGRAM :: usize where "MAX_TERMINATORS_PER_PROGRAM = MAX_BLOCKS_PER_PROGRAM"
definition MAX_CALL_ARGUMENTS_PER_PROGRAM :: usize where
  "MAX_CALL_ARGUMENTS_PER_PROGRAM = MAX_CALL_EDGES * MAX_PARAMETERS_PER_FUNCTION"
definition MAX_EDGE_ARGUMENTS_PER_PROGRAM :: usize where
  "MAX_EDGE_ARGUMENTS_PER_PROGRAM = MAX_CFG_EDGES_PER_PROGRAM * MAX_BLOCK_PARAMETERS"
definition MAX_INTERNAL_SYMBOL_BYTES :: usize where "MAX_INTERNAL_SYMBOL_BYTES = 128"
definition MAX_INTERNAL_SYMBOL_BYTES_PER_PROGRAM :: usize where
  "MAX_INTERNAL_SYMBOL_BYTES_PER_PROGRAM = MAX_FUNCTIONS_PER_PROGRAM * MAX_INTERNAL_SYMBOL_BYTES"
definition MAX_ENTRY_EXPORT_BYTES :: usize where "MAX_ENTRY_EXPORT_BYTES = MAX_LOGICAL_EXPORT_NAME_BYTES"
definition MAX_ENTRY_EXPORT_BYTES_PER_PROGRAM :: usize where
  "MAX_ENTRY_EXPORT_BYTES_PER_PROGRAM = MAX_ABI_EXPORTS * MAX_ENTRY_EXPORT_BYTES"
definition MAX_NATIVE_DIAGNOSTICS :: usize where "MAX_NATIVE_DIAGNOSTICS = 256"

section \<open>Raw programs\<close>

definition ZRYNA_INTERNAL_CONTROL_FLOW_V1 :: u16 where "ZRYNA_INTERNAL_CONTROL_FLOW_V1 = 2"

record native_value =
  nv_id :: u32
  nv_ty :: ir_type

datatype native_kind =
    NkBoolLiteral bool
  | NkI32Literal i32
  | NkI32Add u32 u32
  | NkI32Sub u32 u32
  | NkI32Mul u32 u32
  | NkI32Neg u32
  | NkEq u32 u32
  | NkNe u32 u32
  | NkI32LtS u32 u32
  | NkI32LeS u32 u32
  | NkI32GtS u32 u32
  | NkI32GeS u32 u32
  | NkDirectCall function_id "u32 list"

record native_instruction =
  ni_result :: native_value
  ni_kind :: native_kind

datatype native_terminator =
    NtReturn u32
  | NtJump u32 "u32 list"
  | NtBranch u32 u32 "u32 list" u32 "u32 list"

record native_block =
  nb_id :: u32
  nb_parameters :: "native_value list"
  nb_instructions :: "native_instruction list"
  nb_terminators :: "native_terminator list"

record native_function =
  nf_id :: function_id
  nf_internal_symbol :: string
  nf_entry_export :: "string option"
  nf_convention :: u16
  nf_parameters :: "native_value list"
  nf_result :: ir_type
  nf_blocks :: "native_block list"

record native_module =
  nm_id :: u32
  nm_functions :: "native_function list"

record native_program =
  np_entry_module :: u32
  np_modules :: "native_module list"

record verified_native_program =
  vnp_program :: native_program
  vnp_abi :: verified_scalar_abi_module
  vnp_abi_indices :: "usize option list list"

section \<open>Diagnostics\<close>

definition native_error :: "string \<Rightarrow> string \<Rightarrow> string \<Rightarrow> diagnostic" where
  "native_error code message guidance = diagnostic_error code None message guidance"

definition native_push :: "diagnostic \<Rightarrow> check_errors \<Rightarrow> check_errors" where
  "native_push = push_bounded MAX_NATIVE_DIAGNOSTICS
     (native_error ''ZRYNA-N2202'' ''native MIR diagnostic budget exceeded'' ''fix the first reported native MIR violation'')"

definition native_push_when :: "bool \<Rightarrow> diagnostic \<Rightarrow> check_errors \<Rightarrow> check_errors" where
  "native_push_when b d er = (if b then native_push d er else er)"

definition native_limit :: "string \<Rightarrow> usize \<Rightarrow> check_errors \<Rightarrow> check_errors" where
  "native_limit label maximum =
     push_last (native_error ''ZRYNA-N2201'' (''native MIR '' @ label @ '' exceeds limit '' @ show_nat maximum)
       ''reduce the bounded M2 native MIR input'')"

definition flow_internal_symbol :: "function_id \<Rightarrow> string" where
  "flow_internal_symbol i =
     ''zryna_m2_i_m'' @ show_nat (unat (fi_module i)) @ ''_f'' @ show_nat (unat (fi_declaration i))"

section \<open>Preflight\<close>

text \<open>An early return is \<open>Inl\<close> with the collector at that point; \<open>try_each\<close> is a loop left by such a return.\<close>

fun try_each :: "('a \<Rightarrow> 's \<Rightarrow> 'e \<Rightarrow> 'e + 's \<times> 'e) \<Rightarrow> 'a list \<Rightarrow> 's \<Rightarrow> 'e \<Rightarrow> 'e + 's \<times> 'e" where
  "try_each f [] s er = Inr (s, er)"
| "try_each f (x # xs) s er = try_bind (f x s er) (\<lambda>(s, er). try_each f xs s er)"

definition native_limit_when :: "bool \<Rightarrow> string \<Rightarrow> usize \<Rightarrow> check_errors \<Rightarrow> check_errors + check_errors" where
  "native_limit_when b label maximum er = (if b then Inl (native_limit label maximum er) else Inr er)"

definition native_add_total ::
    "usize \<Rightarrow> usize \<Rightarrow> usize \<Rightarrow> string \<Rightarrow> check_errors \<Rightarrow> check_errors + usize \<times> check_errors" where
  "native_add_total current extra maximum label er =
     (case usize_checked_add current extra of
        None \<Rightarrow> Inl (native_limit label maximum er)
      | Some n \<Rightarrow> if maximum < n then Inl (native_limit label maximum er) else Inr (n, er))"

text \<open>The counters of a program, and those that start again with every function.\<close>

record native_totals =
  nc_functions :: usize
  nc_parameters :: usize
  nc_blocks :: usize
  nc_values :: usize
  nc_edges :: usize
  nc_calls :: usize
  nc_call_arguments :: usize
  nc_edge_arguments :: usize
  nc_symbol_bytes :: usize
  nc_export_bytes :: usize
  nc_terminators :: usize
  nc_function_values :: usize
  nc_function_edges :: usize
  nc_function_terminators :: usize

definition native_preflight_instruction ::
    "native_instruction \<Rightarrow> native_totals \<Rightarrow> check_errors \<Rightarrow> check_errors + native_totals \<times> check_errors" where
  "native_preflight_instruction ins t er =
     (case ni_kind ins of
        NkDirectCall _ arguments \<Rightarrow>
          (case usize_checked_add (nc_calls t) 1 of
             None \<Rightarrow> Inl (native_limit ''call count'' MAX_CALL_EDGES er)
           | Some calls \<Rightarrow>
               try_bind (native_limit_when (MAX_CALL_EDGES < calls) ''call count'' MAX_CALL_EDGES er) (\<lambda>er.
               try_bind (native_limit_when (MAX_PARAMETERS_PER_FUNCTION < length arguments) ''call argument count''
                 MAX_PARAMETERS_PER_FUNCTION er) (\<lambda>er.
               try_bind (native_add_total (nc_call_arguments t) (length arguments) MAX_CALL_ARGUMENTS_PER_PROGRAM
                 ''aggregate call argument count'' er) (\<lambda>(call_arguments, er).
               Inr (t\<lparr>nc_calls := calls, nc_call_arguments := call_arguments\<rparr>, er)))))
      | _ \<Rightarrow> Inr (t, er))"

definition native_add_edge_arguments ::
    "u32 list \<Rightarrow> native_totals \<Rightarrow> check_errors \<Rightarrow> check_errors + native_totals \<times> check_errors" where
  "native_add_edge_arguments arguments t er =
     try_bind (native_add_total (nc_edge_arguments t) (length arguments) MAX_EDGE_ARGUMENTS_PER_PROGRAM
       ''aggregate edge argument count'' er) (\<lambda>(n, er). Inr (t\<lparr>nc_edge_arguments := n\<rparr>, er))"

definition native_add_edges ::
    "usize \<Rightarrow> native_totals \<Rightarrow> check_errors \<Rightarrow> check_errors + native_totals \<times> check_errors" where
  "native_add_edges added t er =
     (case usize_checked_add (nc_function_edges t) added of
        None \<Rightarrow> Inl (native_limit ''CFG edge count'' MAX_CFG_EDGES_PER_FUNCTION er)
      | Some n \<Rightarrow>
          try_bind (native_limit_when (MAX_CFG_EDGES_PER_FUNCTION < n) ''CFG edges per function'' MAX_CFG_EDGES_PER_FUNCTION er)
            (\<lambda>er. Inr (t\<lparr>nc_function_edges := n\<rparr>, er)))"

definition native_preflight_terminator ::
    "native_terminator \<Rightarrow> native_totals \<Rightarrow> check_errors \<Rightarrow> check_errors + native_totals \<times> check_errors" where
  "native_preflight_terminator terminator t er =
     (case terminator of
        NtReturn _ \<Rightarrow> native_add_edges 0 t er
      | NtJump _ arguments \<Rightarrow>
          try_bind (native_limit_when (MAX_BLOCK_PARAMETERS < length arguments) ''edge argument count'' MAX_BLOCK_PARAMETERS er)
            (\<lambda>er.
          try_bind (native_add_edge_arguments arguments t er) (\<lambda>(t, er). native_add_edges 1 t er))
      | NtBranch _ _ true_arguments _ false_arguments \<Rightarrow>
          try_bind (native_limit_when (MAX_BLOCK_PARAMETERS < length true_arguments \<or> MAX_BLOCK_PARAMETERS < length false_arguments)
            ''edge argument count'' MAX_BLOCK_PARAMETERS er) (\<lambda>er.
          try_bind (native_add_edge_arguments true_arguments t er) (\<lambda>(t, er).
          try_bind (native_add_edge_arguments false_arguments t er) (\<lambda>(t, er). native_add_edges 2 t er))))"

definition native_add_values ::
    "native_block \<Rightarrow> native_totals \<Rightarrow> check_errors \<Rightarrow> check_errors + native_totals \<times> check_errors" where
  "native_add_values b t er =
     (case Option.bind (usize_checked_add (nc_function_values t) (length (nb_parameters b)))
         (\<lambda>v. usize_checked_add v (length (nb_instructions b))) of
        None \<Rightarrow> Inl (native_limit ''value count'' MAX_VALUES_PER_PROGRAM er)
      | Some n \<Rightarrow>
          try_bind (native_limit_when (MAX_VALUES_PER_FUNCTION < n) ''values per function'' MAX_VALUES_PER_FUNCTION er)
            (\<lambda>er. Inr (t\<lparr>nc_function_values := n\<rparr>, er)))"

definition native_preflight_block ::
    "native_block \<Rightarrow> native_totals \<Rightarrow> check_errors \<Rightarrow> check_errors + native_totals \<times> check_errors" where
  "native_preflight_block b t er =
     try_bind (native_limit_when (MAX_BLOCK_PARAMETERS < length (nb_parameters b)) ''block parameter count''
       MAX_BLOCK_PARAMETERS er) (\<lambda>er.
     try_bind (native_add_values b t er) (\<lambda>(t, er).
     try_bind (try_each native_preflight_instruction (nb_instructions b) t er) (\<lambda>(t, er).
     try_bind (native_add_total (nc_function_terminators t) (length (nb_terminators b)) MAX_TERMINATORS_PER_FUNCTION
       ''terminators per function'' er) (\<lambda>(function_terminators, er).
     try_bind (native_add_total (nc_terminators t) (length (nb_terminators b)) MAX_TERMINATORS_PER_PROGRAM
       ''terminator count'' er) (\<lambda>(terminators, er).
     try_each native_preflight_terminator (nb_terminators b)
       (t\<lparr>nc_function_terminators := function_terminators, nc_terminators := terminators\<rparr>) er)))))"

definition native_preflight_names ::
    "native_function \<Rightarrow> native_totals \<Rightarrow> check_errors \<Rightarrow> check_errors + native_totals \<times> check_errors" where
  "native_preflight_names f t er =
     try_bind (native_limit_when (MAX_INTERNAL_SYMBOL_BYTES < length (nf_internal_symbol f)) ''internal symbol bytes''
       MAX_INTERNAL_SYMBOL_BYTES er) (\<lambda>er.
     try_bind (native_add_total (nc_symbol_bytes t) (length (nf_internal_symbol f)) MAX_INTERNAL_SYMBOL_BYTES_PER_PROGRAM
       ''aggregate internal symbol bytes'' er) (\<lambda>(symbol_bytes, er).
     let t = t\<lparr>nc_symbol_bytes := symbol_bytes\<rparr>
     in case nf_entry_export f of
          None \<Rightarrow> Inr (t, er)
        | Some export \<Rightarrow>
            try_bind (native_limit_when (MAX_ENTRY_EXPORT_BYTES < length export) ''entry export bytes''
              MAX_ENTRY_EXPORT_BYTES er) (\<lambda>er.
            try_bind (native_add_total (nc_export_bytes t) (length export) MAX_ENTRY_EXPORT_BYTES_PER_PROGRAM
              ''aggregate entry export bytes'' er) (\<lambda>(export_bytes, er).
            Inr (t\<lparr>nc_export_bytes := export_bytes\<rparr>, er)))))"

definition native_preflight_function ::
    "native_function \<Rightarrow> native_totals \<Rightarrow> check_errors \<Rightarrow> check_errors + native_totals \<times> check_errors" where
  "native_preflight_function f t er =
     try_bind (native_preflight_names f t er) (\<lambda>(t, er).
     try_bind (native_limit_when (MAX_PARAMETERS_PER_FUNCTION < length (nf_parameters f)) ''parameters per function''
       MAX_PARAMETERS_PER_FUNCTION er) (\<lambda>er.
     try_bind (native_add_total (nc_parameters t) (length (nf_parameters f)) MAX_PARAMETERS_PER_PROGRAM ''parameter count'' er)
       (\<lambda>(parameters, er).
     try_bind (native_limit_when (MAX_BLOCKS_PER_FUNCTION < length (nf_blocks f)) ''blocks per function''
       MAX_BLOCKS_PER_FUNCTION er) (\<lambda>er.
     try_bind (native_add_total (nc_blocks t) (length (nf_blocks f)) MAX_BLOCKS_PER_PROGRAM ''block count'' er)
       (\<lambda>(blocks, er).
     try_bind (try_each native_preflight_block (nf_blocks f)
       (t\<lparr>nc_parameters := parameters, nc_blocks := blocks, nc_function_values := length (nf_parameters f),
          nc_function_edges := 0, nc_function_terminators := 0\<rparr>) er) (\<lambda>(t, er).
     try_bind (native_add_total (nc_values t) (nc_function_values t) MAX_VALUES_PER_PROGRAM ''value count'' er)
       (\<lambda>(vals, er).
     try_bind (native_add_total (nc_edges t) (nc_function_edges t) MAX_CFG_EDGES_PER_PROGRAM ''CFG edge count'' er)
       (\<lambda>(edges, er). Inr (t\<lparr>nc_values := vals, nc_edges := edges\<rparr>, er)))))))))"

definition native_preflight_module ::
    "native_module \<Rightarrow> native_totals \<Rightarrow> check_errors \<Rightarrow> check_errors + native_totals \<times> check_errors" where
  "native_preflight_module m t er =
     try_bind (native_limit_when (MAX_FUNCTIONS_PER_MODULE < length (nm_functions m)) ''functions per module''
       MAX_FUNCTIONS_PER_MODULE er) (\<lambda>er.
     try_bind (native_add_total (nc_functions t) (length (nm_functions m)) MAX_FUNCTIONS_PER_PROGRAM ''function count'' er)
       (\<lambda>(functions, er).
     try_each native_preflight_function (nm_functions m) (t\<lparr>nc_functions := functions\<rparr>) er))"

definition native_no_totals :: native_totals where
  "native_no_totals =
     \<lparr>nc_functions = 0, nc_parameters = 0, nc_blocks = 0, nc_values = 0, nc_edges = 0, nc_calls = 0,
      nc_call_arguments = 0, nc_edge_arguments = 0, nc_symbol_bytes = 0, nc_export_bytes = 0, nc_terminators = 0,
      nc_function_values = 0, nc_function_edges = 0, nc_function_terminators = 0\<rparr>"

definition native_preflight :: "native_program \<Rightarrow> check_errors \<Rightarrow> check_errors" where
  "native_preflight p er =
     (if np_modules p = [] then
        native_push (native_error ''ZRYNA-N2101'' ''native MIR program has no entry module''
          ''provide one complete nonempty module closure'') er
      else if MAX_MODULES < length (np_modules p) then native_limit ''module count'' MAX_MODULES er
      else
        (case try_each native_preflight_module (np_modules p) native_no_totals er of
           Inl er \<Rightarrow> er
         | Inr (_, er) \<Rightarrow> er))"

section \<open>Inventory\<close>

type_synonym symbol_tables = "(string \<times> usize \<times> usize) list \<times> (string \<times> usize \<times> usize) list"

text \<open>The portable table is not touched when the exact symbol is already there.\<close>

definition record_symbol :: "string \<Rightarrow> usize \<times> usize \<Rightarrow> symbol_tables \<Rightarrow> bool \<times> symbol_tables" where
  "record_symbol symbol place = (\<lambda>(exact, portable).
     let taken = bt_get exact symbol \<noteq> None; exact = bt_insert symbol place exact
     in if taken then (True, exact, portable)
        else
          (bt_get portable (to_ascii_lowercase symbol) \<noteq> None, exact,
           bt_insert (to_ascii_lowercase symbol) place portable))"

definition native_inventory_function ::
    "native_program \<Rightarrow> usize \<Rightarrow> native_module \<Rightarrow> usize \<times> native_function \<Rightarrow> symbol_tables \<Rightarrow> check_errors
     \<Rightarrow> (symbol_tables \<times> check_errors) option" where
  "native_inventory_function p mi m = (\<lambda>(fi, f) tables er.
     Option.bind (u32_try_from fi) (\<lambda>declaration.
     let expected = \<lparr>fi_module = nm_id m, fi_declaration = declaration\<rparr>;
         er = native_push_when (nf_id f \<noteq> expected)
           (native_error ''ZRYNA-N2102'' (key_label ''function'' mi fi @ '' has a noncanonical identity'')
             ''use its module and dense declaration index'') er;
         er = native_push_when (nf_internal_symbol f \<noteq> flow_internal_symbol expected)
           (native_error ''ZRYNA-N2103'' (key_label ''function'' mi fi @ '' has a noncanonical internal symbol'')
             ''derive the symbol exactly from the sealed function identity'') er;
         (collide, tables) = record_symbol (nf_internal_symbol f) (mi, fi) tables;
         er = native_push_when collide
           (native_error ''ZRYNA-N2103'' ''internal body symbols collide'' ''use unique canonical internal body symbols'') er;
         er = native_push_when (nf_convention f \<noteq> ZRYNA_INTERNAL_CONTROL_FLOW_V1)
           (native_error ''ZRYNA-N2104'' ''function uses an unsupported internal convention''
             ''use only the versioned control-flow-v1 convention'') er;
         er = native_push_when (nm_id m \<noteq> np_entry_module p \<and> nf_entry_export f \<noteq> None)
           (native_error ''ZRYNA-N2105'' ''dependency function claims a public entry export''
             ''only entry-module functions may be exported'') er
     in Some (tables, er)))"

fun native_inventory_functions ::
    "native_program \<Rightarrow> usize \<Rightarrow> native_module \<Rightarrow> (usize \<times> native_function) list \<Rightarrow> symbol_tables \<Rightarrow> check_errors
     \<Rightarrow> (symbol_tables \<times> check_errors) option" where
  "native_inventory_functions p mi m [] tables er = Some (tables, er)"
| "native_inventory_functions p mi m (x # xs) tables er =
     Option.bind (native_inventory_function p mi m x tables er) (\<lambda>(tables, er).
     if ce_exhausted er then Some (tables, er) else native_inventory_functions p mi m xs tables er)"

text \<open>The return out of the inner loop ends the outer one; a module without functions never reaches it.\<close>

fun native_inventory_modules ::
    "native_program \<Rightarrow> (usize \<times> native_module) list \<Rightarrow> symbol_tables \<Rightarrow> check_errors
     \<Rightarrow> (symbol_tables \<times> check_errors) option" where
  "native_inventory_modules p [] tables er = Some (tables, er)"
| "native_inventory_modules p ((mi, m) # ms) tables er =
     Option.bind (u32_try_from mi) (\<lambda>expected.
     let er = native_push_when (nm_id m \<noteq> expected)
           (native_error ''ZRYNA-N2102'' (''module #'' @ show_nat mi @ '' has a noncanonical identity'')
             ''use dense modules in canonical order'') er
     in Option.bind (native_inventory_functions p mi m (enumerate 0 (nm_functions m)) tables er) (\<lambda>(tables, er).
        if ce_exhausted er \<and> nm_functions m \<noteq> [] then Some (tables, er)
        else native_inventory_modules p ms tables er))"

definition native_inventory :: "native_program \<Rightarrow> check_errors \<Rightarrow> check_errors option" where
  "native_inventory p er =
     (let er = native_push_when (length (np_modules p) \<le> unat (np_entry_module p))
           (native_error ''ZRYNA-N2101'' ''entry module identity is unknown'' ''select one dense module identity'') er
      in map_option snd (native_inventory_modules p (enumerate 0 (np_modules p)) ([], []) er))"

definition native_signatures :: "native_program \<Rightarrow> signatures" where
  "native_signatures p =
     map (\<lambda>m. map (\<lambda>f. (map nv_ty (nf_parameters f), nf_result f)) (nm_functions m)) (np_modules p)"

section \<open>Values\<close>

definition native_validate_type :: "ir_type \<Rightarrow> string \<Rightarrow> check_errors \<Rightarrow> check_errors" where
  "native_validate_type ty label =
     native_push_when (ty = TyUnit)
       (native_error ''ZRYNA-N2104'' (label @ '' uses unsupported unit type'')
         ''native MIR control-flow v1 admits only bool and i32'')"

definition native_define_value ::
    "native_value \<times> definition_location \<Rightarrow> value_info list \<Rightarrow> check_errors \<Rightarrow> (value_info list \<times> check_errors) option" where
  "native_define_value = (\<lambda>(d, location) vals er.
     Option.bind (u32_try_from (length vals)) (\<lambda>expected.
     let er = native_push_when (nv_id d \<noteq> expected)
           (native_error ''ZRYNA-N2102''
             (''value #'' @ show_nat (unat (nv_id d)) @ '' is noncanonical; expected #'' @ show_nat (unat expected))
             ''allocate function parameters, block parameters, and instruction results in order'') er;
         er = native_validate_type (nv_ty d) ''value'' er
     in Some (if ce_exhausted er then vals else vals @ [\<lparr>vin_ty = nv_ty d, vin_location = location\<rparr>], er)))"

fun native_define_values ::
    "(native_value \<times> definition_location) list \<Rightarrow> value_info list \<Rightarrow> check_errors
     \<Rightarrow> (value_info list \<times> check_errors) option" where
  "native_define_values [] vals er = Some (vals, er)"
| "native_define_values (d # ds) vals er =
     Option.bind (native_define_value d vals er) (\<lambda>(vals, er). native_define_values ds vals er)"

definition native_block_definitions :: "usize \<Rightarrow> native_block \<Rightarrow> (native_value \<times> definition_location) list" where
  "native_block_definitions bi b =
     map (\<lambda>d. (d, AtBlockParameter bi)) (nb_parameters b) @
     map (\<lambda>(position, ins). (ni_result ins, AtInstruction bi position)) (enumerate 0 (nb_instructions b))"

fun native_define_blocks ::
    "(usize \<times> native_block) list \<Rightarrow> value_info list \<Rightarrow> check_errors \<Rightarrow> (value_info list \<times> check_errors) option" where
  "native_define_blocks [] vals er = Some (vals, er)"
| "native_define_blocks ((bi, b) # bs) vals er =
     Option.bind (u32_try_from bi) (\<lambda>expected.
     let er = native_push_when (nb_id b \<noteq> expected)
           (native_error ''ZRYNA-N2102'' ''block has a noncanonical dense identity'' ''number blocks densely in arena order'') er;
         er = native_push_when (bi = 0 \<and> nb_parameters b \<noteq> [])
           (native_error ''ZRYNA-N2105'' ''entry block declares block parameters''
             ''use function parameters for entry values'') er
     in Option.bind (native_define_values (native_block_definitions bi b) vals er) (\<lambda>(vals, er).
        if ce_exhausted er then Some (vals, er) else native_define_blocks bs vals er))"

section \<open>Instructions\<close>

definition native_checked_use ::
    "u32 \<Rightarrow> usize \<Rightarrow> usize \<Rightarrow> value_info list \<Rightarrow> check_errors \<Rightarrow> ir_type option \<times> check_errors" where
  "native_checked_use v bi position vals er =
     (case lookup_value v vals of
        None \<Rightarrow>
          (None, native_push (native_error ''ZRYNA-N2108'' (''operand references unknown value #'' @ show_nat (unat v))
            ''reference a value in the same function'') er)
      | Some info \<Rightarrow>
          (Some (vin_ty info),
           native_push_when (defined_later (vin_location info) bi position)
             (native_error ''ZRYNA-N2109'' (''value #'' @ show_nat (unat v) @ '' is used before definition'')
               ''use only earlier results in the same block'') er))"

definition native_expect_result :: "ir_type \<Rightarrow> ir_type \<Rightarrow> string \<Rightarrow> check_errors \<Rightarrow> check_errors" where
  "native_expect_result actual expected label =
     native_push_when (actual \<noteq> expected)
       (native_error ''ZRYNA-N2107'' (label @ '' has the wrong result type'') ''use the exact native MIR operation type'')"

fun native_uses_have_types ::
    "(u32 \<times> ir_type) list \<Rightarrow> usize \<Rightarrow> usize \<Rightarrow> value_info list \<Rightarrow> check_errors \<Rightarrow> bool \<times> check_errors" where
  "native_uses_have_types [] bi position vals er = (True, er)"
| "native_uses_have_types ((v, expected) # rest) bi position vals er =
     (let (actual, er) = native_checked_use v bi position vals er
      in if actual = Some expected then native_uses_have_types rest bi position vals er else (False, er))"

definition native_expect_operands ::
    "u32 list \<Rightarrow> ir_type list \<Rightarrow> ir_type \<Rightarrow> ir_type \<Rightarrow> usize \<Rightarrow> usize \<Rightarrow> value_info list \<Rightarrow> check_errors \<Rightarrow> check_errors" where
  "native_expect_operands operands expected result expected_result bi position vals er =
     (let (valid, er) = native_uses_have_types (zip operands expected) bi position vals er
      in native_push_when (\<not> valid \<or> result \<noteq> expected_result)
           (native_error ''ZRYNA-N2107'' ''instruction operand or result type is invalid''
             ''use exact native MIR operation types'') er)"

definition native_verify_equality ::
    "u32 \<Rightarrow> u32 \<Rightarrow> ir_type \<Rightarrow> usize \<Rightarrow> usize \<Rightarrow> value_info list \<Rightarrow> check_errors \<Rightarrow> check_errors" where
  "native_verify_equality lhs rhs result bi position vals er =
     (let (left, er) = native_checked_use lhs bi position vals er;
          (right, er) = native_checked_use rhs bi position vals er
      in native_push_when (result \<noteq> TyBool \<or> left = None \<or> left \<noteq> right)
           (native_error ''ZRYNA-N2107'' ''equality requires matching scalar operands and bool result''
             ''use exact matching bool or i32 operands'') er)"

text \<open>One argument of a call or an edge against the parameter at its index.\<close>

definition native_verify_argument ::
    "ir_type list \<Rightarrow> (usize \<Rightarrow> diagnostic) \<Rightarrow> usize \<Rightarrow> usize \<Rightarrow> value_info list \<Rightarrow> usize \<times> u32 \<Rightarrow> check_errors \<Rightarrow> check_errors" where
  "native_verify_argument parameters report bi position vals = (\<lambda>(i, v) er.
     let (actual, er) = native_checked_use v bi position vals er
     in native_push_when (actual \<noteq> get_at parameters i) (report i) er)"

text \<open>The loop over the arguments of a call, which returns after a step that exhausts the collector.\<close>

fun native_call_arguments :: "('a \<Rightarrow> check_errors \<Rightarrow> check_errors) \<Rightarrow> 'a list \<Rightarrow> check_errors \<Rightarrow> check_errors" where
  "native_call_arguments f [] er = er"
| "native_call_arguments f (x # xs) er =
     (let er = f x er in if ce_exhausted er then er else native_call_arguments f xs er)"

definition native_call_error :: "usize \<Rightarrow> diagnostic" where
  "native_call_error i =
     native_error ''ZRYNA-N2111'' (''direct call argument #'' @ show_nat i @ '' has the wrong type'')
       ''preserve exact argument order and types''"

definition native_verify_call ::
    "function_key \<Rightarrow> function_id \<Rightarrow> u32 list \<Rightarrow> ir_type \<Rightarrow> usize \<Rightarrow> usize \<Rightarrow> value_info list \<Rightarrow> signatures \<Rightarrow> call_edges
     \<Rightarrow> check_errors \<Rightarrow> call_edges \<times> check_errors" where
  "native_verify_call key callee arguments result bi position vals sigs calls er =
     (case Option.bind (get_at sigs (unat (fi_module callee))) (\<lambda>m. get_at m (unat (fi_declaration callee))) of
        None \<Rightarrow>
          (calls, native_push (native_error ''ZRYNA-N2111'' ''direct call targets an unknown function identity''
            ''call one function in the sealed module closure'') er)
      | Some (parameters, target_result) \<Rightarrow>
          (let calls = calls @ [(key, \<lparr>fk_module = unat (fi_module callee), fk_function = unat (fi_declaration callee)\<rparr>)];
               er = native_push_when (length arguments \<noteq> length parameters \<or> result \<noteq> target_result)
                 (native_error ''ZRYNA-N2111'' ''direct call signature does not match target''
                   ''use exact argument and result types'') er
           in (calls, native_call_arguments (native_verify_argument parameters native_call_error bi position vals)
                 (enumerate 0 arguments) er)))"

definition native_verify_instruction ::
    "function_key \<Rightarrow> usize \<Rightarrow> usize \<Rightarrow> native_instruction \<Rightarrow> value_info list \<Rightarrow> signatures \<Rightarrow> call_edges \<Rightarrow> check_errors
     \<Rightarrow> call_edges \<times> check_errors" where
  "native_verify_instruction key bi position ins vals sigs calls er =
     (let result = nv_ty (ni_result ins);
          arithmetic = (\<lambda>l r. (calls, native_expect_operands [l, r] [TyI32, TyI32] result TyI32 bi position vals er));
          comparison = (\<lambda>l r. (calls, native_expect_operands [l, r] [TyI32, TyI32] result TyBool bi position vals er));
          equality = (\<lambda>l r. (calls, native_verify_equality l r result bi position vals er))
      in case ni_kind ins of
           NkBoolLiteral _ \<Rightarrow> (calls, native_expect_result result TyBool ''bool literal'' er)
         | NkI32Literal _ \<Rightarrow> (calls, native_expect_result result TyI32 ''i32 literal'' er)
         | NkI32Neg v \<Rightarrow> (calls, native_expect_operands [v] [TyI32] result TyI32 bi position vals er)
         | NkI32Add l r \<Rightarrow> arithmetic l r
         | NkI32Sub l r \<Rightarrow> arithmetic l r
         | NkI32Mul l r \<Rightarrow> arithmetic l r
         | NkI32LtS l r \<Rightarrow> comparison l r
         | NkI32LeS l r \<Rightarrow> comparison l r
         | NkI32GtS l r \<Rightarrow> comparison l r
         | NkI32GeS l r \<Rightarrow> comparison l r
         | NkEq l r \<Rightarrow> equality l r
         | NkNe l r \<Rightarrow> equality l r
         | NkDirectCall callee args \<Rightarrow> native_verify_call key callee args result bi position vals sigs calls er)"

section \<open>Terminators and edges\<close>

definition native_edge_error :: "usize \<Rightarrow> diagnostic" where
  "native_edge_error i =
     native_error ''ZRYNA-N2106'' (''edge argument #'' @ show_nat i @ '' has the wrong type'')
       ''match block parameter types exactly''"

definition native_verify_edge ::
    "function_key \<Rightarrow> usize \<Rightarrow> u32 \<Rightarrow> u32 list \<Rightarrow> native_function \<Rightarrow> value_info list \<Rightarrow> edge list \<Rightarrow> check_errors
     \<Rightarrow> edge list \<times> check_errors" where
  "native_verify_edge key source target arguments f vals edges er =
     (if \<not> unat target < length (nf_blocks f) then
        (edges, native_push (native_error ''ZRYNA-N2106''
          (key_label ''function'' (fk_module key) (fk_function key) @ '' targets unknown block #'' @ show_nat (unat target))
          ''target one block in the same function'') er)
      else
        (let er = native_push_when (unat target = 0)
               (native_error ''ZRYNA-N2106'' ''control-flow edge targets the entry block''
                 ''entry block zero must have no predecessor'') er;
             parameters = nb_parameters (nf_blocks f ! unat target);
             er = native_push_when (length arguments \<noteq> length parameters)
               (native_error ''ZRYNA-N2106'' ''edge argument arity does not match block parameters''
                 ''pass one exact argument per block parameter'') er;
             position = length (nb_instructions (nf_blocks f ! source));
             er = check_each (native_verify_argument (map nv_ty parameters) native_edge_error source position vals)
               (enumerate 0 arguments) er
         in (if ce_exhausted er then edges
             else edges @ [\<lparr>eg_source = source, eg_target = unat target, eg_arguments = []\<rparr>], er)))"

definition native_verify_terminator ::
    "function_key \<Rightarrow> usize \<Rightarrow> native_function \<Rightarrow> native_terminator \<Rightarrow> value_info list \<Rightarrow> edge list \<Rightarrow> check_errors
     \<Rightarrow> edge list \<times> check_errors" where
  "native_verify_terminator key bi f t vals edges er =
     (let position = length (nb_instructions (nf_blocks f ! bi))
      in case t of
           NtReturn v \<Rightarrow>
             (let (actual, er) = native_checked_use v bi position vals er
              in (edges, native_push_when (actual \<noteq> Some (nf_result f))
                    (native_error ''ZRYNA-N2106'' ''return value has the wrong type''
                      ''return the exact function result type'') er))
         | NtJump target arguments \<Rightarrow> native_verify_edge key bi target arguments f vals edges er
         | NtBranch condition true_target true_arguments false_target false_arguments \<Rightarrow>
             (let (actual, er) = native_checked_use condition bi position vals er;
                  er = native_push_when (actual \<noteq> Some TyBool)
                    (native_error ''ZRYNA-N2106'' ''branch condition is not bool'' ''branch only on exact bool'') er;
                  (edges, er) = native_verify_edge key bi true_target true_arguments f vals edges er
              in native_verify_edge key bi false_target false_arguments f vals edges er))"

fun native_verify_instructions ::
    "function_key \<Rightarrow> usize \<Rightarrow> (usize \<times> native_instruction) list \<Rightarrow> value_info list \<Rightarrow> signatures \<Rightarrow> call_edges \<Rightarrow> check_errors
     \<Rightarrow> call_edges \<times> check_errors" where
  "native_verify_instructions key bi [] vals sigs calls er = (calls, er)"
| "native_verify_instructions key bi ((position, ins) # rest) vals sigs calls er =
     (let (calls, er) = native_verify_instruction key bi position ins vals sigs calls er
      in if ce_exhausted er then (calls, er) else native_verify_instructions key bi rest vals sigs calls er)"

text \<open>A block without exactly one terminator is skipped, after its instructions; a return out of the loop over the
  instructions needs at least one of them.\<close>

fun native_verify_blocks ::
    "function_key \<Rightarrow> native_function \<Rightarrow> (usize \<times> native_block) list \<Rightarrow> value_info list \<Rightarrow> signatures \<Rightarrow> call_edges \<Rightarrow> edge list
     \<Rightarrow> check_errors \<Rightarrow> bool \<times> call_edges \<times> edge list \<times> check_errors" where
  "native_verify_blocks key f [] vals sigs calls edges er = (True, calls, edges, er)"
| "native_verify_blocks key f ((bi, b) # bs) vals sigs calls edges er =
     (let (calls, er) = native_verify_instructions key bi (enumerate 0 (nb_instructions b)) vals sigs calls er
      in if ce_exhausted er \<and> nb_instructions b \<noteq> [] then (False, calls, edges, er)
         else
           (case nb_terminators b of
              [t] \<Rightarrow>
                (let (edges, er) = native_verify_terminator key bi f t vals edges er
                 in if ce_exhausted er then (False, calls, edges, er)
                    else native_verify_blocks key f bs vals sigs calls edges er)
            | ts \<Rightarrow>
                native_verify_blocks key f bs vals sigs calls edges
                  (native_push (native_error ''ZRYNA-N2106''
                     (''block #'' @ show_nat bi @ '' has '' @ show_nat (length ts) @ '' terminators; expected exactly one'')
                     ''emit exactly one return, jump, or branch'') er)))"

section \<open>Control flow\<close>

text \<open>A loop over steps that might panic and do not look at the collector.\<close>

fun check_all :: "('a \<Rightarrow> check_errors \<Rightarrow> check_errors option) \<Rightarrow> 'a list \<Rightarrow> check_errors \<Rightarrow> check_errors option" where
  "check_all f [] er = Some er"
| "check_all f (x # xs) er = Option.bind (f x er) (check_all f xs)"

fun native_instruction_operands :: "native_kind \<Rightarrow> u32 list" where
  "native_instruction_operands (NkBoolLiteral _) = []"
| "native_instruction_operands (NkI32Literal _) = []"
| "native_instruction_operands (NkI32Neg v) = [v]"
| "native_instruction_operands (NkI32Add l r) = [l, r]"
| "native_instruction_operands (NkI32Sub l r) = [l, r]"
| "native_instruction_operands (NkI32Mul l r) = [l, r]"
| "native_instruction_operands (NkEq l r) = [l, r]"
| "native_instruction_operands (NkNe l r) = [l, r]"
| "native_instruction_operands (NkI32LtS l r) = [l, r]"
| "native_instruction_operands (NkI32LeS l r) = [l, r]"
| "native_instruction_operands (NkI32GtS l r) = [l, r]"
| "native_instruction_operands (NkI32GeS l r) = [l, r]"
| "native_instruction_operands (NkDirectCall _ args) = args"

fun native_terminator_operands :: "native_terminator \<Rightarrow> u32 list" where
  "native_terminator_operands (NtReturn v) = [v]"
| "native_terminator_operands (NtJump _ args) = args"
| "native_terminator_operands (NtBranch condition _ true_arguments _ false_arguments) =
     condition # true_arguments @ false_arguments"

definition native_verify_dominance ::
    "value_info list \<Rightarrow> usize list \<Rightarrow> usize list \<Rightarrow> u32 \<times> usize \<times> usize \<Rightarrow> check_errors \<Rightarrow> check_errors option" where
  "native_verify_dominance vals entry exits = (\<lambda>(v, use_block, use_position) er.
     case lookup_value v vals of
       None \<Rightarrow> Some er
     | Some info \<Rightarrow>
         Option.bind
           (case vin_location info of
              AtParameter \<Rightarrow> Some True
            | AtBlockParameter b \<Rightarrow> dominates_at entry exits b use_block
            | AtInstruction b position \<Rightarrow>
                if b = use_block then Some (position < use_position) else dominates_at entry exits b use_block)
           (\<lambda>valid.
         Some (native_push_when (\<not> valid)
           (native_error ''ZRYNA-N2109'' (''value #'' @ show_nat (unat v) @ '' does not dominate its use'')
             ''use only values available on every path'') er)))"

definition native_block_uses :: "usize \<times> native_block \<Rightarrow> (u32 \<times> usize \<times> usize) list" where
  "native_block_uses = (\<lambda>(bi, b).
     concat (map (\<lambda>(position, ins). map (\<lambda>v. (v, bi, position)) (native_instruction_operands (ni_kind ins)))
       (enumerate 0 (nb_instructions b))) @
     (case nb_terminators b of
        [t] \<Rightarrow> map (\<lambda>v. (v, bi, length (nb_instructions b))) (native_terminator_operands t)
      | _ \<Rightarrow> []))"

definition native_verify_reachable ::
    "function_key \<Rightarrow> usize list list \<Rightarrow> bool list \<Rightarrow> usize \<Rightarrow> check_errors \<Rightarrow> check_errors option" where
  "native_verify_reachable key preds reached b er =
     Option.bind (get_at preds b) (\<lambda>ps.
     Option.bind (get_at reached b) (\<lambda>r.
     Some (native_push_when (ps = [] \<or> \<not> r)
       (native_error ''ZRYNA-N2110''
         (key_label ''function'' (fk_module key) (fk_function key) @ '' block #'' @ show_nat b @ '' is unreachable'')
         ''emit only blocks reachable from entry'') er)))"

definition native_verify_loops ::
    "function_key \<Rightarrow> usize \<Rightarrow> usize list list \<Rightarrow> usize list \<Rightarrow> usize list \<Rightarrow> edge list \<Rightarrow> check_errors
     \<Rightarrow> check_errors option" where
  "native_verify_loops key amount preds entry exits edges er =
     Option.bind (classify_edges preds entry exits amount edges
       \<lparr>ls_loops = [], ls_forward = replicate amount [], ls_indegree = replicate amount 0\<rparr>) (\<lambda>s.
     Option.bind (forward_loop (ls_forward s) (zero_indices (ls_indegree s)) (ls_indegree s) 0) (\<lambda>seen.
     let er = native_push_when (seen \<noteq> amount)
           (native_error ''ZRYNA-N2110''
             (key_label ''function'' (fk_module key) (fk_function key) @ '' contains irreducible control flow'')
             ''every cycle must have one dominating nonentry header'') er
     in Option.bind (maximum_nesting amount (ls_loops s)) (\<lambda>nesting.
        Some (if MAX_LOOP_NESTING < nesting then native_limit ''loop nesting'' MAX_LOOP_NESTING er else er))))"

definition native_verify_cfg ::
    "function_key \<Rightarrow> native_function \<Rightarrow> value_info list \<Rightarrow> edge list \<Rightarrow> check_errors \<Rightarrow> check_errors option" where
  "native_verify_cfg key f vals edges er =
     (if nf_blocks f = [] then Some er
      else
        (let amount = length (nf_blocks f)
         in Option.bind (graph_edges edges (replicate amount []) (replicate amount [])) (\<lambda>(succs, preds).
            let succs = map sort succs; preds = map sort preds
            in Option.bind (reachable_from_entry succs) (\<lambda>reached.
               Option.bind (check_all (native_verify_reachable key preds reached) [1..<amount] er) (\<lambda>er.
               if list_ex Not reached then Some er
               else
                 Option.bind (immediate_dominators succs preds) (\<lambda>found.
                 case found of
                   None \<Rightarrow>
                     Some (native_push (native_error ''ZRYNA-N2110'' ''failed to construct deterministic dominators''
                       ''provide one reachable reducible CFG'') er)
                 | Some idom \<Rightarrow>
                     Option.bind (dominator_intervals idom) (\<lambda>(entry, exits).
                     Option.bind (check_all (native_verify_dominance vals entry exits)
                       (concat (map native_block_uses (enumerate 0 (nf_blocks f)))) er) (\<lambda>er.
                     native_verify_loops key amount preds entry exits edges er))))))))"

section \<open>Functions\<close>

definition native_verify_function ::
    "function_key \<Rightarrow> native_function \<Rightarrow> signatures \<Rightarrow> call_edges \<Rightarrow> check_errors \<Rightarrow> (call_edges \<times> check_errors) option" where
  "native_verify_function key f sigs calls er =
     (let er = native_validate_type (nf_result f) ''function result'' er
      in if nf_blocks f = [] then
           Some (calls, native_push (native_error ''ZRYNA-N2107''
             (key_label ''function'' (fk_module key) (fk_function key) @ '' has no entry block or terminator'')
             ''emit a nonempty block arena whose entry block has exactly one terminator'') er)
         else
           Option.bind (native_define_values (map (\<lambda>d. (d, AtParameter)) (nf_parameters f)) [] er) (\<lambda>(vals, er).
           Option.bind (native_define_blocks (enumerate 0 (nf_blocks f)) vals er) (\<lambda>(vals, er).
           if ce_exhausted er then Some (calls, er)
           else
             (let (finished, calls, edges, er) = native_verify_blocks key f (enumerate 0 (nf_blocks f)) vals sigs calls [] er
              in if \<not> finished then Some (calls, er)
                 else map_option (Pair calls) (native_verify_cfg key f vals edges er)))))"

fun native_verify_functions ::
    "(function_key \<times> native_function) list \<Rightarrow> signatures \<Rightarrow> call_edges \<Rightarrow> check_errors \<Rightarrow> (call_edges \<times> check_errors) option" where
  "native_verify_functions [] sigs calls er = Some (calls, er)"
| "native_verify_functions ((key, f) # rest) sigs calls er =
     Option.bind (native_verify_function key f sigs calls er) (\<lambda>(calls, er).
     if ce_exhausted er then Some (calls, er) else native_verify_functions rest sigs calls er)"

definition native_functions :: "native_program \<Rightarrow> (function_key \<times> native_function) list" where
  "native_functions p =
     concat (map (\<lambda>(mi, m). map (\<lambda>(fi, f). (\<lparr>fk_module = mi, fk_function = fi\<rparr>, f))
       (enumerate 0 (nm_functions m))) (enumerate 0 (np_modules p)))"

section \<open>Calls\<close>

fun native_offsets_from :: "usize \<Rightarrow> native_module list \<Rightarrow> usize list" where
  "native_offsets_from n [] = [n]"
| "native_offsets_from n (m # ms) = n # native_offsets_from (n + length (nm_functions m)) ms"

definition native_function_offsets :: "native_program \<Rightarrow> usize list" where
  "native_function_offsets p = native_offsets_from 0 (np_modules p)"

definition native_verify_call_graph :: "native_program \<Rightarrow> call_edges \<Rightarrow> check_errors \<Rightarrow> check_errors option" where
  "native_verify_call_graph p calls er =
     (let offsets = native_function_offsets p; amount = last offsets
      in Option.bind (call_graph offsets calls (replicate amount []) (replicate amount 0)) (\<lambda>(succs, indegree).
         Option.bind (call_loop succs (zero_indices indegree) (replicate amount 1) indegree 0) (\<lambda>(depth, seen).
         Some
           (if seen \<noteq> amount then
              native_push (native_error ''ZRYNA-N2112'' ''direct-call graph contains a cycle''
                ''native MIR control-flow v1 requires acyclic direct calls'') er
            else if MAX_STATIC_CALL_DEPTH < foldr max depth 0
            then native_limit ''static call depth'' MAX_STATIC_CALL_DEPTH er
            else er))))"

section \<open>The public ABI\<close>

definition native_export :: "string \<Rightarrow> native_function \<Rightarrow> raw_export" where
  "native_export name f =
     \<lparr>re_logical_name = name,
      re_signature = \<lparr>rs_parameters = map (\<lambda>d. raw_abi_type (nv_ty d)) (nf_parameters f),
                      rs_result = raw_abi_type (nf_result f)\<rparr>\<rparr>"

fun native_entry_exports :: "native_function list \<Rightarrow> usize \<Rightarrow> raw_export list \<times> usize option list" where
  "native_entry_exports [] n = ([], [])"
| "native_entry_exports (f # fs) n =
     (case nf_entry_export f of
        None \<Rightarrow> apsnd ((#) None) (native_entry_exports fs n)
      | Some name \<Rightarrow>
          (let (exports, indices) = native_entry_exports fs (Suc n) in (native_export name f # exports, Some n # indices)))"

definition native_abi_report :: "abi_violation \<Rightarrow> check_errors \<Rightarrow> check_errors" where
  "native_abi_report v er =
     (let report = (\<lambda>message. native_push (native_error ''ZRYNA-N2113'' message ''use exact scalar ABI v1 export claims'') er)
      in case av_kind v of
           InvalidLogicalName \<Rightarrow> report ''entry export has an invalid logical name''
         | DuplicateLogicalName _ \<Rightarrow> report ''entry exports duplicate a logical name''
         | PortableNameCollision _ \<Rightarrow> report ''entry exports collide under portable identity''
         | UnsupportedScalarType \<Rightarrow> report ''entry export uses an unsupported scalar type''
         | ViolationBudgetExceeded \<Rightarrow>
             native_push (native_error ''ZRYNA-N2202'' ''scalar ABI diagnostic budget exceeded''
               ''fix the first public ABI violation'') er
         | _ \<Rightarrow> native_limit ''public ABI'' MAX_ABI_EXPORTS er)"

definition native_verify_public_abi ::
    "native_program \<Rightarrow> check_errors \<Rightarrow> (verified_scalar_abi_module option \<times> usize option list list) \<times> check_errors" where
  "native_verify_public_abi p er =
     (let blank = map (\<lambda>m. replicate (length (nm_functions m)) None) (np_modules p);
          entry = unat (np_entry_module p);
          (exports, indices) =
            (case get_at (np_modules p) entry of
               None \<Rightarrow> ([], blank)
             | Some m \<Rightarrow> (let (es, is) = native_entry_exports (nm_functions m) 0 in (es, blank[entry := is])))
      in case verify_v1 exports of
           Inr abi \<Rightarrow> ((Some abi, indices), er)
         | Inl violations \<Rightarrow> ((None, indices), check_each native_abi_report violations er))"

section \<open>The verifier\<close>

definition native_verify :: "native_program \<Rightarrow> (diagnostic list + verified_native_program) option" where
  "native_verify p =
     (let er = native_preflight p no_errors
      in if \<not> errors_is_empty er then Some (Inl (ce_diagnostics er))
         else
           Option.bind (native_inventory p er) (\<lambda>er.
           if ce_exhausted er then Some (Inl (ce_diagnostics er))
           else
             Option.bind (native_verify_functions (native_functions p) (native_signatures p) [] er) (\<lambda>(calls, er).
             if ce_exhausted er then Some (Inl (ce_diagnostics er))
             else
               Option.bind (native_verify_call_graph p calls er) (\<lambda>er.
               if ce_exhausted er then Some (Inl (ce_diagnostics er))
               else
                 (let ((abi, abi_indices), er) = native_verify_public_abi p er
                  in if \<not> errors_is_empty er then Some (Inl (ce_diagnostics er))
                     else
                       (case abi of
                          None \<Rightarrow>
                            Some (Inl [native_error ''ZRYNA-N2202'' ''native MIR could not construct its bounded ABI table''
                              ''report this compiler invariant failure''])
                        | Some abi \<Rightarrow>
                            Some (Inr \<lparr>vnp_program = p, vnp_abi = abi, vnp_abi_indices = abi_indices\<rparr>)))))))"

section \<open>Lowering\<close>

text \<open>The view of a verified control-flow program that lowering reads; \<open>None\<close> is an index out of range.\<close>

definition flow_public_export :: "verified_flow_program \<Rightarrow> usize \<Rightarrow> usize \<Rightarrow> verified_scalar_export option option" where
  "flow_public_export v mi fi =
     Option.bind (get_at (vfp_abi_indices v) mi) (\<lambda>row.
     Option.bind (get_at row fi) (\<lambda>index.
     Some (Option.bind index (get_at (abi_exports (vfp_abi v))))))"

definition lower_value :: "flow_value \<Rightarrow> native_value" where
  "lower_value d = \<lparr>nv_id = fv_id d, nv_ty = fv_ty d\<rparr>"

fun lower_operation :: "instruction_kind \<Rightarrow> native_kind" where
  "lower_operation (IkBoolLiteral b) = NkBoolLiteral b"
| "lower_operation (IkI32Literal n) = NkI32Literal n"
| "lower_operation (IkI32Add l r) = NkI32Add l r"
| "lower_operation (IkI32Sub l r) = NkI32Sub l r"
| "lower_operation (IkI32Mul l r) = NkI32Mul l r"
| "lower_operation (IkI32Neg v) = NkI32Neg v"
| "lower_operation (IkEq l r) = NkEq l r"
| "lower_operation (IkNe l r) = NkNe l r"
| "lower_operation (IkI32LtS l r) = NkI32LtS l r"
| "lower_operation (IkI32LeS l r) = NkI32LeS l r"
| "lower_operation (IkI32GtS l r) = NkI32GtS l r"
| "lower_operation (IkI32GeS l r) = NkI32GeS l r"
| "lower_operation (IkDirectCall callee args) =
     NkDirectCall \<lparr>fi_module = fi_module callee, fi_declaration = fi_declaration callee\<rparr> args"

fun lower_terminator :: "terminator \<Rightarrow> native_terminator" where
  "lower_terminator (TmReturn v) = NtReturn v"
| "lower_terminator (TmJump target args) = NtJump target args"
| "lower_terminator (TmBranch condition t ts e es) = NtBranch condition t ts e es"

definition lower_block :: "block \<Rightarrow> native_block option" where
  "lower_block b =
     map_option (\<lambda>t.
       \<lparr>nb_id = bk_id b, nb_parameters = map lower_value (bk_parameters b),
        nb_instructions =
          map (\<lambda>ins. \<lparr>ni_result = lower_value (is_result ins), ni_kind = lower_operation (is_kind ins)\<rparr>) (bk_instructions b),
        nb_terminators = [lower_terminator (st_kind t)]\<rparr>) (get_at (bk_terminators b) 0)"

definition lower_flow_function ::
    "verified_flow_program \<Rightarrow> usize \<Rightarrow> usize \<times> flow_function \<Rightarrow> native_function option" where
  "lower_flow_function v mi = (\<lambda>(fi, f).
     Option.bind (flow_public_export v mi fi) (\<lambda>export.
     map_option (\<lambda>blocks.
       \<lparr>nf_id = \<lparr>fi_module = fi_module (ff_id f), fi_declaration = fi_declaration (ff_id f)\<rparr>,
        nf_internal_symbol = flow_internal_symbol (ff_id f),
        nf_entry_export = map_option (\<lambda>x. ve_logical_name (vx_export x)) export,
        nf_convention = ZRYNA_INTERNAL_CONTROL_FLOW_V1, nf_parameters = map lower_value (ff_parameters f),
        nf_result = ff_result f, nf_blocks = blocks\<rparr>) (those (map lower_block (ff_blocks f)))))"

definition lower_module :: "verified_flow_program \<Rightarrow> usize \<times> flow_module \<Rightarrow> native_module option" where
  "lower_module v = (\<lambda>(mi, m).
     map_option (\<lambda>functions. \<lparr>nm_id = fm_id m, nm_functions = functions\<rparr>)
       (those (map (lower_flow_function v mi) (enumerate 0 (fm_functions m)))))"

definition native_lower :: "verified_flow_program \<Rightarrow> (diagnostic list + verified_native_program) option" where
  "native_lower v =
     Option.bind (those (map (lower_module v) (enumerate 0 (fp_modules (vfp_program v))))) (\<lambda>modules.
     native_verify \<lparr>np_entry_module = fp_entry_module (vfp_program v), np_modules = modules\<rparr>)"

end
