(* ===== verification/Native_Flow_Facts.thy ===== *)
theory Native_Flow_Facts
  imports Native_Flow Control_Flow_Exact
begin

text \<open>
  The native verifier of the control-flow profile is total and exact: it accepts precisely the programs within its
  limits whose identities, symbols, bodies, call graph and exports are right, and what it demands of a body is
  what the control-flow IR demands of the same body without source positions.
\<close>

section \<open>Specification vocabulary\<close>

fun native_call_count :: "native_instruction \<Rightarrow> usize \<times> usize" where
  "native_call_count ins = (case ni_kind ins of NkDirectCall _ args \<Rightarrow> (1, length args) | _ \<Rightarrow> (0, 0))"

fun native_edge_count :: "native_terminator \<Rightarrow> usize" where
  "native_edge_count (NtReturn _) = 0"
| "native_edge_count (NtJump _ _) = 1"
| "native_edge_count (NtBranch _ _ _ _ _) = 2"

fun native_edge_lengths :: "native_terminator \<Rightarrow> usize list" where
  "native_edge_lengths (NtReturn _) = []"
| "native_edge_lengths (NtJump _ args) = [length args]"
| "native_edge_lengths (NtBranch _ _ ts _ es) = [length ts, length es]"

definition native_block_within :: "native_block \<Rightarrow> bool" where
  "native_block_within b =
     (length (nb_parameters b) \<le> MAX_BLOCK_PARAMETERS \<and>
      (\<forall>ins\<in>set (nb_instructions b). snd (native_call_count ins) \<le> MAX_PARAMETERS_PER_FUNCTION) \<and>
      (\<forall>t\<in>set (nb_terminators b). \<forall>n\<in>set (native_edge_lengths t). n \<le> MAX_BLOCK_PARAMETERS))"

definition count_instruction :: "native_instruction \<Rightarrow> native_totals \<Rightarrow> native_totals" where
  "count_instruction ins t =
     t\<lparr>nc_calls := nc_calls t + fst (native_call_count ins),
       nc_call_arguments := nc_call_arguments t + snd (native_call_count ins)\<rparr>"

definition count_terminator :: "native_terminator \<Rightarrow> native_totals \<Rightarrow> native_totals" where
  "count_terminator x t =
     t\<lparr>nc_edge_arguments := nc_edge_arguments t + sum_list (native_edge_lengths x),
       nc_function_edges := nc_function_edges t + native_edge_count x\<rparr>"

definition count_block :: "native_block \<Rightarrow> native_totals \<Rightarrow> native_totals" where
  "count_block b t =
     t\<lparr>nc_function_values := nc_function_values t + length (nb_parameters b) + length (nb_instructions b),
       nc_calls := nc_calls t + sum_list (map (fst \<circ> native_call_count) (nb_instructions b)),
       nc_call_arguments := nc_call_arguments t + sum_list (map (snd \<circ> native_call_count) (nb_instructions b)),
       nc_function_terminators := nc_function_terminators t + length (nb_terminators b),
       nc_terminators := nc_terminators t + length (nb_terminators b),
       nc_edge_arguments := nc_edge_arguments t + sum_list (map (sum_list \<circ> native_edge_lengths) (nb_terminators b)),
       nc_function_edges := nc_function_edges t + sum_list (map native_edge_count (nb_terminators b))\<rparr>"

definition program_totals_within :: "native_totals \<Rightarrow> bool" where
  "program_totals_within t =
     (nc_functions t \<le> MAX_FUNCTIONS_PER_PROGRAM \<and> nc_parameters t \<le> MAX_PARAMETERS_PER_PROGRAM \<and>
      nc_blocks t \<le> MAX_BLOCKS_PER_PROGRAM \<and> nc_values t \<le> MAX_VALUES_PER_PROGRAM \<and>
      nc_edges t \<le> MAX_CFG_EDGES_PER_PROGRAM \<and> nc_calls t \<le> MAX_CALL_EDGES \<and>
      nc_call_arguments t \<le> MAX_CALL_ARGUMENTS_PER_PROGRAM \<and> nc_edge_arguments t \<le> MAX_EDGE_ARGUMENTS_PER_PROGRAM \<and>
      nc_symbol_bytes t \<le> MAX_INTERNAL_SYMBOL_BYTES_PER_PROGRAM \<and> nc_export_bytes t \<le> MAX_ENTRY_EXPORT_BYTES_PER_PROGRAM \<and>
      nc_terminators t \<le> MAX_TERMINATORS_PER_PROGRAM)"

definition function_totals_within :: "native_totals \<Rightarrow> bool" where
  "function_totals_within t =
     (nc_function_values t \<le> MAX_VALUES_PER_FUNCTION \<and> nc_function_edges t \<le> MAX_CFG_EDGES_PER_FUNCTION \<and>
      nc_function_terminators t \<le> MAX_TERMINATORS_PER_FUNCTION)"

definition export_bytes :: "native_function \<Rightarrow> usize" where
  "export_bytes f = (case nf_entry_export f of None \<Rightarrow> 0 | Some name \<Rightarrow> length name)"

definition count_start :: "native_function \<Rightarrow> native_totals \<Rightarrow> native_totals" where
  "count_start f t =
     t\<lparr>nc_symbol_bytes := nc_symbol_bytes t + length (nf_internal_symbol f), nc_export_bytes := nc_export_bytes t + export_bytes f,
       nc_parameters := nc_parameters t + length (nf_parameters f), nc_blocks := nc_blocks t + length (nf_blocks f),
       nc_function_values := length (nf_parameters f), nc_function_edges := 0, nc_function_terminators := 0\<rparr>"

definition count_function :: "native_function \<Rightarrow> native_totals \<Rightarrow> native_totals" where
  "count_function f t =
     (let t = fold count_block (nf_blocks f) (count_start f t)
      in t\<lparr>nc_values := nc_values t + nc_function_values t, nc_edges := nc_edges t + nc_function_edges t\<rparr>)"

definition native_function_within :: "native_function \<Rightarrow> bool" where
  "native_function_within f =
     (length (nf_internal_symbol f) \<le> MAX_INTERNAL_SYMBOL_BYTES \<and> export_bytes f \<le> MAX_ENTRY_EXPORT_BYTES \<and>
      length (nf_parameters f) \<le> MAX_PARAMETERS_PER_FUNCTION \<and> length (nf_blocks f) \<le> MAX_BLOCKS_PER_FUNCTION \<and>
      (\<forall>b\<in>set (nf_blocks f). native_block_within b) \<and>
      function_totals_within (fold count_block (nf_blocks f) (count_start f native_no_totals)))"

definition count_module :: "native_module \<Rightarrow> native_totals \<Rightarrow> native_totals" where
  "count_module m t =
     fold count_function (nm_functions m) (t\<lparr>nc_functions := nc_functions t + length (nm_functions m)\<rparr>)"

definition native_within_limits :: "native_program \<Rightarrow> bool" where
  "native_within_limits p =
     (np_modules p \<noteq> [] \<and> length (np_modules p) \<le> MAX_MODULES \<and>
      (\<forall>m\<in>set (np_modules p). length (nm_functions m) \<le> MAX_FUNCTIONS_PER_MODULE \<and>
         (\<forall>f\<in>set (nm_functions m). native_function_within f)) \<and>
      program_totals_within (fold count_module (np_modules p) native_no_totals))"

abbreviation (input) totals_within :: "native_totals \<Rightarrow> bool" where
  "totals_within t \<equiv> program_totals_within t \<and> function_totals_within t"

definition native_identity_ok :: "native_program \<Rightarrow> native_module \<Rightarrow> usize \<times> native_function \<Rightarrow> bool" where
  "native_identity_ok p m = (\<lambda>(fi, f).
     nf_id f = \<lparr>fi_module = nm_id m, fi_declaration = of_nat fi\<rparr> \<and> nf_internal_symbol f = flow_internal_symbol (nf_id f) \<and>
     nf_convention f = ZRYNA_INTERNAL_CONTROL_FLOW_V1 \<and> (nm_id m \<noteq> np_entry_module p \<longrightarrow> nf_entry_export f = None))"

definition native_inventory_ok :: "native_program \<Rightarrow> bool" where
  "native_inventory_ok p =
     (unat (np_entry_module p) < length (np_modules p) \<and>
      (\<forall>(mi, m)\<in>set (enumerate 0 (np_modules p)). nm_id m = of_nat mi \<and>
         (\<forall>x\<in>set (enumerate 0 (nm_functions m)). native_identity_ok p m x)))"

fun record_all :: "(string \<times> usize \<times> usize) list \<Rightarrow> symbol_tables \<Rightarrow> symbol_tables" where
  "record_all [] tables = tables"
| "record_all ((symbol, place) # xs) tables = record_all xs (snd (record_symbol symbol place tables))"

fun no_collision :: "(string \<times> usize \<times> usize) list \<Rightarrow> symbol_tables \<Rightarrow> bool" where
  "no_collision [] tables = True"
| "no_collision ((symbol, place) # xs) tables =
     (\<not> fst (record_symbol symbol place tables) \<and> no_collision xs (snd (record_symbol symbol place tables)))"

definition function_symbol :: "usize \<Rightarrow> usize \<times> native_function \<Rightarrow> string \<times> usize \<times> usize" where
  "function_symbol mi = (\<lambda>(fi, f). (nf_internal_symbol f, mi, fi))"

definition module_symbols :: "usize \<times> native_module \<Rightarrow> (string \<times> usize \<times> usize) list" where
  "module_symbols = (\<lambda>(mi, m). map (function_symbol mi) (enumerate 0 (nm_functions m)))"

text \<open>
  A native program read as a control-flow program: the same modules, functions, blocks and operations, with
  blank spans. The conditions of the native verifier on functions are those of the control-flow IR on this reading.
\<close>

definition blank_span :: span where
  "blank_span = \<lparr>span_file = \<lparr>source_map_id = 0, fid_index = 0\<rparr>, span_start = 0, span_end = 0\<rparr>"

definition lift_value :: "native_value \<Rightarrow> flow_value" where
  "lift_value d = \<lparr>fv_id = nv_id d, fv_ty = nv_ty d, fv_span = blank_span\<rparr>"

fun lift_kind :: "native_kind \<Rightarrow> instruction_kind" where
  "lift_kind (NkBoolLiteral b) = IkBoolLiteral b"
| "lift_kind (NkI32Literal n) = IkI32Literal n"
| "lift_kind (NkI32Add l r) = IkI32Add l r"
| "lift_kind (NkI32Sub l r) = IkI32Sub l r"
| "lift_kind (NkI32Mul l r) = IkI32Mul l r"
| "lift_kind (NkI32Neg v) = IkI32Neg v"
| "lift_kind (NkEq l r) = IkEq l r"
| "lift_kind (NkNe l r) = IkNe l r"
| "lift_kind (NkI32LtS l r) = IkI32LtS l r"
| "lift_kind (NkI32LeS l r) = IkI32LeS l r"
| "lift_kind (NkI32GtS l r) = IkI32GtS l r"
| "lift_kind (NkI32GeS l r) = IkI32GeS l r"
| "lift_kind (NkDirectCall callee args) = IkDirectCall callee args"

fun lift_terminator :: "native_terminator \<Rightarrow> terminator" where
  "lift_terminator (NtReturn v) = TmReturn v"
| "lift_terminator (NtJump target args) = TmJump target args"
| "lift_terminator (NtBranch c t ts e es) = TmBranch c t ts e es"

definition lift_instruction :: "native_instruction \<Rightarrow> instruction" where
  "lift_instruction ins = \<lparr>is_result = lift_value (ni_result ins), is_kind = lift_kind (ni_kind ins)\<rparr>"

definition lift_block :: "native_block \<Rightarrow> block" where
  "lift_block b =
     \<lparr>bk_id = nb_id b, bk_parameters = map lift_value (nb_parameters b),
      bk_instructions = map lift_instruction (nb_instructions b),
      bk_terminators = map (\<lambda>t. \<lparr>st_span = blank_span, st_kind = lift_terminator t\<rparr>) (nb_terminators b)\<rparr>"

definition lift_function :: "native_function \<Rightarrow> flow_function" where
  "lift_function f =
     \<lparr>ff_id = nf_id f, ff_entry_export = nf_entry_export f, ff_span = blank_span,
      ff_parameters = map lift_value (nf_parameters f), ff_result = nf_result f, ff_blocks = map lift_block (nf_blocks f)\<rparr>"

definition lift_module :: "native_module \<Rightarrow> flow_module" where
  "lift_module m =
     \<lparr>fm_id = nm_id m, fm_source_file = span_file blank_span, fm_functions = map lift_function (nm_functions m)\<rparr>"

definition lift_program :: "native_program \<Rightarrow> flow_program" where
  "lift_program p = \<lparr>fp_entry_module = np_entry_module p, fp_modules = map lift_module (np_modules p)\<rparr>"

definition lift_definition_at :: "native_value \<times> definition_location \<Rightarrow> flow_value \<times> definition_location" where
  "lift_definition_at = apfst lift_value"

definition bare :: "edge \<Rightarrow> edge" where
  "bare e = e\<lparr>eg_arguments := []\<rparr>"

definition pack4 :: "'a \<times> 'b \<times> 'c \<times> 'd \<Rightarrow> ('a \<times> 'b \<times> 'c) \<times> 'd" where
  "pack4 = (\<lambda>(a, b, c, d). ((a, b, c), d))"

definition body_ok :: "signatures \<Rightarrow> flow_function \<Rightarrow> bool" where
  "body_ok sigs f =
     (ff_blocks f \<noteq> [] \<and> ff_result f \<noteq> TyUnit \<and> definitions_ok 0 (function_definitions f) \<and>
      (\<forall>bi<length (ff_blocks f). bk_id (ff_blocks f ! bi) = of_nat bi) \<and> bk_parameters (ff_blocks f ! 0) = [] \<and>
      (\<forall>bi<length (ff_blocks f). block_ok sigs f (value_table f) bi (ff_blocks f ! bi)) \<and>
      cfg_ok f (value_table f) (function_edges f))"

definition export_rows :: "flow_program \<Rightarrow> usize option list list" where
  "export_rows p =
     (let blank = map (\<lambda>m. replicate (length (fm_functions m)) None) (fp_modules p); entry = unat (fp_entry_module p)
      in case get_at (fp_modules p) entry of
           None \<Rightarrow> blank
         | Some m \<Rightarrow> blank[entry := snd (entry_exports (fm_functions m) 0)])"

definition native_ok :: "native_program \<Rightarrow> bool" where
  "native_ok p =
     (native_within_limits p \<and> native_inventory_ok p \<and>
      (\<forall>(key, f)\<in>set (native_functions p). body_ok (native_signatures p) (lift_function f)) \<and>
      calls_bounded (program_calls (lift_program p)) \<and> abi_ok (public_exports (lift_program p)))"

section \<open>Limits\<close>

lemmas native_limit_defs = flow_limit_defs MAX_TERMINATORS_PER_FUNCTION_def MAX_TERMINATORS_PER_PROGRAM_def
  MAX_CALL_ARGUMENTS_PER_PROGRAM_def MAX_EDGE_ARGUMENTS_PER_PROGRAM_def MAX_INTERNAL_SYMBOL_BYTES_def
  MAX_INTERNAL_SYMBOL_BYTES_PER_PROGRAM_def MAX_ENTRY_EXPORT_BYTES_def MAX_ENTRY_EXPORT_BYTES_PER_PROGRAM_def
  MAX_LOGICAL_EXPORT_NAME_BYTES_def MAX_ABI_EXPORTS_def MAX_NATIVE_DIAGNOSTICS_def

interpretation native: collector native_push
  by unfold_locales (simp_all add: native_push_def MAX_NATIVE_DIAGNOSTICS_def)

lemma native_limit_simps [simp]:
  "\<not> clean (native_limit l m er)" "bounded_errors er \<Longrightarrow> bounded_errors (native_limit l m er)"
  by (simp_all add: native_limit_def)

lemma limits_value:
  "limits f P mk \<Longrightarrow> P = Q \<Longrightarrow> (\<And>er. mk er = mk' er) \<Longrightarrow> limits f Q mk'"
  by (simp add: limits_def)

lemma limits_native_when: "limits (native_limit_when b l m) (\<not> b) (\<lambda>er. er)"
  by (auto simp: limits_def native_limit_when_def)

lemma limits_native_add_total:
  assumes "m < 2 ^ 64"
  shows "limits (native_add_total a b m l) (a + b \<le> m) (\<lambda>er. (a + b, er))"
  using assms by (auto simp: limits_def native_add_total_def usize_checked_add_def)

text \<open>A checked sum whose overflow is reported, followed by the test of the sum.\<close>

lemma limits_native_sum:
  assumes "m < 2 ^ 64" and "a + b \<le> m \<Longrightarrow> limits (k (a + b)) Q mk"
  shows "limits (\<lambda>er. case usize_checked_add a b of None \<Rightarrow> Inl (native_limit l m0 er)
    | Some n \<Rightarrow> try_bind (native_limit_when (m < n) l' m' er) (k n)) (a + b \<le> m \<and> Q) mk"
proof (cases "a + b < 2 ^ 64")
  case True
  have "limits (\<lambda>er. try_bind (native_limit_when (m < a + b) l' m' er) (k (a + b))) (\<not> m < a + b \<and> Q) mk"
    by (rule limits_then [OF limits_native_when]) (use assms in auto)
  then show ?thesis using True by (simp add: usize_checked_add_def not_less)
next
  case False
  then have "\<not> a + b \<le> m" using assms(1) by linarith
  then show ?thesis using False by (auto simp: limits_def usize_checked_add_def)
qed

lemma limits_fold:
  assumes step: "\<And>x s. x \<in> set xs \<Longrightarrow> B s \<Longrightarrow> limits (f x s) (Q x \<and> B (upd x s)) (\<lambda>er. (upd x s, er))"
    and mono: "\<And>x s. B (upd x s) \<Longrightarrow> B s" and start: "B s"
  shows "limits (try_each f xs s) ((\<forall>x\<in>set xs. Q x) \<and> B (fold upd xs s)) (\<lambda>er. (fold upd xs s, er))"
  using step start
proof (induction xs arbitrary: s)
  case Nil
  then show ?case using limits_ret [of "\<lambda>er. (s, er)"] by simp
next
  case (Cons x xs)
  have earlier: "B (fold upd ys s) \<Longrightarrow> B s" for ys s by (induction ys arbitrary: s) (auto dest: mono)
  have "limits (\<lambda>er. try_bind (f x s er) (\<lambda>(s, er). try_each f xs s er))
      ((Q x \<and> B (upd x s)) \<and> ((\<forall>x\<in>set xs. Q x) \<and> B (fold upd xs (upd x s)))) (\<lambda>er. (fold upd xs (upd x s), er))"
    by (rule limits_pair [OF Cons.prems(1) [OF _ Cons.prems(2)]]) (use Cons in auto)
  moreover have "try_each f (x # xs) s = (\<lambda>er. try_bind (f x s er) (\<lambda>(s, er). try_each f xs s er))" by (rule ext) simp
  ultimately have "limits (try_each f (x # xs) s)
      ((Q x \<and> B (upd x s)) \<and> ((\<forall>x\<in>set xs. Q x) \<and> B (fold upd xs (upd x s)))) (\<lambda>er. (fold upd xs (upd x s), er))"
    by simp
  then show ?case by (rule limits_value) (use earlier [of xs "upd x s"] in auto)
qed

lemmas totals_within_defs = program_totals_within_def function_totals_within_def

lemma limits_instruction:
  assumes "totals_within t"
  shows "limits (native_preflight_instruction ins t)
    (snd (native_call_count ins) \<le> MAX_PARAMETERS_PER_FUNCTION \<and> totals_within (count_instruction ins t))
    (\<lambda>er. (count_instruction ins t, er))"
proof (cases "\<exists>callee args. ni_kind ins = NkDirectCall callee args")
  case True
  then obtain callee args where k: "ni_kind ins = NkDirectCall callee args" by blast
  have "limits (native_preflight_instruction ins t)
      (nc_calls t + 1 \<le> MAX_CALL_EDGES \<and> \<not> MAX_PARAMETERS_PER_FUNCTION < length args \<and>
       nc_call_arguments t + length args \<le> MAX_CALL_ARGUMENTS_PER_PROGRAM \<and> True)
      (\<lambda>er. (t\<lparr>nc_calls := nc_calls t + 1, nc_call_arguments := nc_call_arguments t + length args\<rparr>, er))"
    unfolding native_preflight_instruction_def [abs_def] k native_kind.case
    by (rule limits_native_sum, simp add: native_limit_defs, rule limits_then [OF limits_native_when],
        rule limits_pair [OF limits_native_add_total], simp add: native_limit_defs, rule limits_ret)
  then show ?thesis
    by (rule limits_value) (use k assms in \<open>auto simp: totals_within_defs count_instruction_def\<close>)
next
  case False
  then have "native_preflight_instruction ins t = (\<lambda>er. Inr (t, er))" "native_call_count ins = (0, 0)"
    by (auto simp: native_preflight_instruction_def fun_eq_iff split: native_kind.splits)
  then show ?thesis using assms limits_ret [of "\<lambda>er. (t, er)"] by (simp add: count_instruction_def)
qed

lemma count_mono:
  "totals_within (count_instruction ins t) \<Longrightarrow> totals_within t"
  "totals_within (count_terminator x t) \<Longrightarrow> totals_within t"
  "totals_within (count_block b t) \<Longrightarrow> totals_within t"
  by (auto simp: totals_within_defs count_instruction_def count_terminator_def count_block_def)

lemma limits_add_edges:
  assumes "totals_within t"
  shows "limits (native_add_edges n t) (nc_function_edges t + n \<le> MAX_CFG_EDGES_PER_FUNCTION)
    (\<lambda>er. (t\<lparr>nc_function_edges := nc_function_edges t + n\<rparr>, er))"
proof -
  have "limits (native_add_edges n t) (nc_function_edges t + n \<le> MAX_CFG_EDGES_PER_FUNCTION \<and> True)
      (\<lambda>er. (t\<lparr>nc_function_edges := nc_function_edges t + n\<rparr>, er))"
    unfolding native_add_edges_def [abs_def]
    by (rule limits_native_sum, simp add: native_limit_defs, rule limits_ret)
  then show ?thesis by simp
qed

lemma limits_add_edge_arguments:
  "limits (native_add_edge_arguments args t) (nc_edge_arguments t + length args \<le> MAX_EDGE_ARGUMENTS_PER_PROGRAM)
    (\<lambda>er. (t\<lparr>nc_edge_arguments := nc_edge_arguments t + length args\<rparr>, er))"
proof -
  have "limits (native_add_edge_arguments args t) (nc_edge_arguments t + length args \<le> MAX_EDGE_ARGUMENTS_PER_PROGRAM \<and> True)
      (\<lambda>er. (t\<lparr>nc_edge_arguments := nc_edge_arguments t + length args\<rparr>, er))"
    unfolding native_add_edge_arguments_def [abs_def]
    by (rule limits_pair [OF limits_native_add_total], simp add: native_limit_defs, rule limits_ret)
  then show ?thesis by simp
qed

lemma limits_native_terminator:
  assumes "totals_within t"
  shows "limits (native_preflight_terminator x t)
    ((\<forall>n\<in>set (native_edge_lengths x). n \<le> MAX_BLOCK_PARAMETERS) \<and> totals_within (count_terminator x t))
    (\<lambda>er. (count_terminator x t, er))"
proof (cases x)
  case (NtReturn v)
  show ?thesis unfolding native_preflight_terminator_def [abs_def] NtReturn native_terminator.case
    by (rule limits_value [OF limits_add_edges [OF assms]]) (use assms in \<open>auto simp: totals_within_defs count_terminator_def\<close>)
next
  case (NtJump target args)
  let ?t = "t\<lparr>nc_edge_arguments := nc_edge_arguments t + length args\<rparr>"
  have w: "nc_edge_arguments t + length args \<le> MAX_EDGE_ARGUMENTS_PER_PROGRAM \<Longrightarrow> totals_within ?t"
    using assms by (simp add: totals_within_defs)
  have "limits (native_preflight_terminator x t) (\<not> MAX_BLOCK_PARAMETERS < length args \<and>
      nc_edge_arguments t + length args \<le> MAX_EDGE_ARGUMENTS_PER_PROGRAM \<and> nc_function_edges ?t + 1 \<le> MAX_CFG_EDGES_PER_FUNCTION)
      (\<lambda>er. (?t\<lparr>nc_function_edges := nc_function_edges ?t + 1\<rparr>, er))"
    unfolding native_preflight_terminator_def [abs_def] NtJump native_terminator.case
    by (rule limits_then [OF limits_native_when], rule limits_pair [OF limits_add_edge_arguments], rule limits_add_edges, rule w)
  then show ?thesis
    by (rule limits_value) (use assms NtJump in \<open>auto simp: totals_within_defs count_terminator_def\<close>)
next
  case (NtBranch c a ts b es)
  let ?t = "t\<lparr>nc_edge_arguments := nc_edge_arguments t + length ts\<rparr>"
  let ?u = "?t\<lparr>nc_edge_arguments := nc_edge_arguments ?t + length es\<rparr>"
  have w: "nc_edge_arguments ?t + length es \<le> MAX_EDGE_ARGUMENTS_PER_PROGRAM \<Longrightarrow> totals_within ?u"
    using assms by (simp add: totals_within_defs)
  have "limits (native_preflight_terminator x t) (\<not> (MAX_BLOCK_PARAMETERS < length ts \<or> MAX_BLOCK_PARAMETERS < length es) \<and>
      nc_edge_arguments t + length ts \<le> MAX_EDGE_ARGUMENTS_PER_PROGRAM \<and> nc_edge_arguments ?t + length es \<le> MAX_EDGE_ARGUMENTS_PER_PROGRAM \<and>
      nc_function_edges ?u + 2 \<le> MAX_CFG_EDGES_PER_FUNCTION) (\<lambda>er. (?u\<lparr>nc_function_edges := nc_function_edges ?u + 2\<rparr>, er))"
    unfolding native_preflight_terminator_def [abs_def] NtBranch native_terminator.case
    by (rule limits_then [OF limits_native_when], rule limits_pair [OF limits_add_edge_arguments],
        rule limits_pair [OF limits_add_edge_arguments], rule limits_add_edges, rule w)
  then show ?thesis
    by (rule limits_value) (use assms NtBranch in \<open>auto simp: totals_within_defs count_terminator_def add.assoc\<close>)
qed

lemma limits_add_values:
  "limits (native_add_values b t)
    (nc_function_values t + length (nb_parameters b) + length (nb_instructions b) \<le> MAX_VALUES_PER_FUNCTION)
    (\<lambda>er. (t\<lparr>nc_function_values := nc_function_values t + length (nb_parameters b) + length (nb_instructions b)\<rparr>, er))"
  by (auto simp: limits_def native_add_values_def usize_checked_add_def native_limit_when_def native_limit_defs)

lemma fold_count_instruction:
  "fold count_instruction xs t =
    t\<lparr>nc_calls := nc_calls t + sum_list (map (fst \<circ> native_call_count) xs),
      nc_call_arguments := nc_call_arguments t + sum_list (map (snd \<circ> native_call_count) xs)\<rparr>"
  by (induction xs arbitrary: t) (simp_all add: count_instruction_def add.assoc del: native_call_count.simps)

lemma fold_count_terminator:
  "fold count_terminator xs t =
    t\<lparr>nc_edge_arguments := nc_edge_arguments t + sum_list (map (sum_list \<circ> native_edge_lengths) xs),
      nc_function_edges := nc_function_edges t + sum_list (map native_edge_count xs)\<rparr>"
  by (induction xs arbitrary: t) (simp_all add: count_terminator_def add.assoc)

lemma limits_native_block:
  assumes w: "totals_within t"
  shows "limits (native_preflight_block b t) (native_block_within b \<and> totals_within (count_block b t))
    (\<lambda>er. (count_block b t, er))"
proof -
  let ?n = "length (nb_terminators b)"
  let ?v = "nc_function_values t + length (nb_parameters b) + length (nb_instructions b)"
  let ?t = "t\<lparr>nc_function_values := ?v\<rparr>"
  let ?u = "fold count_instruction (nb_instructions b) ?t"
  let ?w = "?u\<lparr>nc_function_terminators := nc_function_terminators ?u + ?n, nc_terminators := nc_terminators ?u + ?n\<rparr>"
  let ?x = "fold count_terminator (nb_terminators b) ?w"
  have wt: "?v \<le> MAX_VALUES_PER_FUNCTION \<Longrightarrow> totals_within ?t" using w by (simp add: totals_within_defs)
  have ins: "limits (try_each native_preflight_instruction (nb_instructions b) ?t)
      ((\<forall>i\<in>set (nb_instructions b). snd (native_call_count i) \<le> MAX_PARAMETERS_PER_FUNCTION) \<and> totals_within ?u) (\<lambda>er. (?u, er))"
    if "?v \<le> MAX_VALUES_PER_FUNCTION"
    by (rule limits_fold [where B = "\<lambda>t. totals_within t"]) (use limits_instruction count_mono(1) wt [OF that] in blast)+
  have ends: "limits (try_each native_preflight_terminator (nb_terminators b) ?w)
      ((\<forall>t\<in>set (nb_terminators b). \<forall>n\<in>set (native_edge_lengths t). n \<le> MAX_BLOCK_PARAMETERS) \<and> totals_within ?x) (\<lambda>er. (?x, er))"
    if "totals_within ?w"
    by (rule limits_fold [where B = "\<lambda>t. totals_within t"]) (use limits_native_terminator count_mono(2) that in blast)+
  have "limits (native_preflight_block b t)
     (\<not> MAX_BLOCK_PARAMETERS < length (nb_parameters b) \<and> ?v \<le> MAX_VALUES_PER_FUNCTION \<and>
      ((\<forall>i\<in>set (nb_instructions b). snd (native_call_count i) \<le> MAX_PARAMETERS_PER_FUNCTION) \<and> totals_within ?u) \<and>
      nc_function_terminators ?u + ?n \<le> MAX_TERMINATORS_PER_FUNCTION \<and> nc_terminators ?u + ?n \<le> MAX_TERMINATORS_PER_PROGRAM \<and>
      ((\<forall>t\<in>set (nb_terminators b). \<forall>n\<in>set (native_edge_lengths t). n \<le> MAX_BLOCK_PARAMETERS) \<and> totals_within ?x))
     (\<lambda>er. (?x, er))"
    unfolding native_preflight_block_def [abs_def]
    apply (rule limits_then [OF limits_native_when])
    apply (rule limits_pair [OF limits_add_values])
    apply (rule limits_pair [OF ins], assumption)
    apply (rule limits_pair [OF limits_native_add_total], simp add: native_limit_defs)
    apply (rule limits_pair [OF limits_native_add_total], simp add: native_limit_defs)
    apply (rule ends, simp add: totals_within_defs)
    done
  moreover have x: "?x = count_block b t"
    by (simp add: fold_count_instruction fold_count_terminator count_block_def)
  moreover have "totals_within ?x \<Longrightarrow> ?v \<le> MAX_VALUES_PER_FUNCTION \<and> totals_within ?u \<and>
      nc_function_terminators ?u + ?n \<le> MAX_TERMINATORS_PER_FUNCTION \<and> nc_terminators ?u + ?n \<le> MAX_TERMINATORS_PER_PROGRAM"
    by (simp add: fold_count_instruction fold_count_terminator totals_within_defs)
  ultimately show ?thesis by (elim limits_value) (auto simp: native_block_within_def)
qed

lemma fold_count_block:
  "fold count_block bs t =
    t\<lparr>nc_function_values := nc_function_values t + sum_list (map (\<lambda>b. length (nb_parameters b) + length (nb_instructions b)) bs),
      nc_calls := nc_calls t + sum_list (map (\<lambda>b. sum_list (map (fst \<circ> native_call_count) (nb_instructions b))) bs),
      nc_call_arguments := nc_call_arguments t + sum_list (map (\<lambda>b. sum_list (map (snd \<circ> native_call_count) (nb_instructions b))) bs),
      nc_function_terminators := nc_function_terminators t + sum_list (map (\<lambda>b. length (nb_terminators b)) bs),
      nc_terminators := nc_terminators t + sum_list (map (\<lambda>b. length (nb_terminators b)) bs),
      nc_edge_arguments := nc_edge_arguments t + sum_list (map (\<lambda>b. sum_list (map (sum_list \<circ> native_edge_lengths) (nb_terminators b))) bs),
      nc_function_edges := nc_function_edges t + sum_list (map (\<lambda>b. sum_list (map native_edge_count (nb_terminators b))) bs)\<rparr>"
  by (induction bs arbitrary: t) (simp_all add: count_block_def add.assoc)

lemma function_counters:
  "function_totals_within (fold count_block (nf_blocks f) (count_start f t)) =
   function_totals_within (fold count_block (nf_blocks f) (count_start f native_no_totals))"
  by (simp add: fold_count_block count_start_def function_totals_within_def)

lemma limits_names:
  assumes "program_totals_within t"
  shows "limits (native_preflight_names f t)
    (length (nf_internal_symbol f) \<le> MAX_INTERNAL_SYMBOL_BYTES \<and> export_bytes f \<le> MAX_ENTRY_EXPORT_BYTES \<and>
     nc_symbol_bytes t + length (nf_internal_symbol f) \<le> MAX_INTERNAL_SYMBOL_BYTES_PER_PROGRAM \<and>
     nc_export_bytes t + export_bytes f \<le> MAX_ENTRY_EXPORT_BYTES_PER_PROGRAM)
    (\<lambda>er. (t\<lparr>nc_symbol_bytes := nc_symbol_bytes t + length (nf_internal_symbol f),
            nc_export_bytes := nc_export_bytes t + export_bytes f\<rparr>, er))"
proof (cases "nf_entry_export f")
  case None
  have "limits (native_preflight_names f t) (\<not> MAX_INTERNAL_SYMBOL_BYTES < length (nf_internal_symbol f) \<and>
      nc_symbol_bytes t + length (nf_internal_symbol f) \<le> MAX_INTERNAL_SYMBOL_BYTES_PER_PROGRAM \<and> True)
      (\<lambda>er. (t\<lparr>nc_symbol_bytes := nc_symbol_bytes t + length (nf_internal_symbol f)\<rparr>, er))"
    unfolding native_preflight_names_def [abs_def] None option.case Let_def
    by (rule limits_then [OF limits_native_when], rule limits_pair [OF limits_native_add_total], simp add: native_limit_defs, rule limits_ret)
  then show ?thesis
    by (rule limits_value) (use None assms in \<open>auto simp: export_bytes_def program_totals_within_def not_less\<close>)
next
  case (Some name)
  let ?t = "t\<lparr>nc_symbol_bytes := nc_symbol_bytes t + length (nf_internal_symbol f)\<rparr>"
  have "limits (native_preflight_names f t) (\<not> MAX_INTERNAL_SYMBOL_BYTES < length (nf_internal_symbol f) \<and>
      nc_symbol_bytes t + length (nf_internal_symbol f) \<le> MAX_INTERNAL_SYMBOL_BYTES_PER_PROGRAM \<and>
      \<not> MAX_ENTRY_EXPORT_BYTES < length name \<and> nc_export_bytes ?t + length name \<le> MAX_ENTRY_EXPORT_BYTES_PER_PROGRAM \<and> True)
      (\<lambda>er. (?t\<lparr>nc_export_bytes := nc_export_bytes ?t + length name\<rparr>, er))"
    unfolding native_preflight_names_def [abs_def] Some option.case Let_def
    by (rule limits_then [OF limits_native_when], rule limits_pair [OF limits_native_add_total], simp add: native_limit_defs,
        rule limits_then [OF limits_native_when], rule limits_pair [OF limits_native_add_total], simp add: native_limit_defs, rule limits_ret)
  then show ?thesis
    by (rule limits_value) (use Some in \<open>auto simp: export_bytes_def not_less\<close>)
qed

lemma limits_native_function:
  assumes w: "program_totals_within t"
  shows "limits (native_preflight_function f t) (native_function_within f \<and> program_totals_within (count_function f t))
    (\<lambda>er. (count_function f t, er))"
proof -
  let ?a = "t\<lparr>nc_symbol_bytes := nc_symbol_bytes t + length (nf_internal_symbol f), nc_export_bytes := nc_export_bytes t + export_bytes f\<rparr>"
  let ?P = "length (nf_internal_symbol f) \<le> MAX_INTERNAL_SYMBOL_BYTES \<and> export_bytes f \<le> MAX_ENTRY_EXPORT_BYTES \<and>
     nc_symbol_bytes t + length (nf_internal_symbol f) \<le> MAX_INTERNAL_SYMBOL_BYTES_PER_PROGRAM \<and>
     nc_export_bytes t + export_bytes f \<le> MAX_ENTRY_EXPORT_BYTES_PER_PROGRAM"
  let ?b = "?a\<lparr>nc_parameters := nc_parameters ?a + length (nf_parameters f), nc_blocks := nc_blocks ?a + length (nf_blocks f),
      nc_function_values := length (nf_parameters f), nc_function_edges := 0, nc_function_terminators := 0\<rparr>"
  let ?c = "fold count_block (nf_blocks f) ?b"
  let ?d = "?c\<lparr>nc_values := nc_values ?c + nc_function_values ?c, nc_edges := nc_edges ?c + nc_function_edges ?c\<rparr>"
  have blocks: "limits (try_each native_preflight_block (nf_blocks f) ?b)
      ((\<forall>b\<in>set (nf_blocks f). native_block_within b) \<and> totals_within ?c) (\<lambda>er. (?c, er))" if "totals_within ?b"
    by (rule limits_fold [where B = "\<lambda>t. totals_within t"]) (use limits_native_block count_mono(3) that in blast)+
  have "limits (native_preflight_function f t) (?P \<and> \<not> MAX_PARAMETERS_PER_FUNCTION < length (nf_parameters f) \<and>
      nc_parameters ?a + length (nf_parameters f) \<le> MAX_PARAMETERS_PER_PROGRAM \<and> \<not> MAX_BLOCKS_PER_FUNCTION < length (nf_blocks f) \<and>
      nc_blocks ?a + length (nf_blocks f) \<le> MAX_BLOCKS_PER_PROGRAM \<and>
      ((\<forall>b\<in>set (nf_blocks f). native_block_within b) \<and> totals_within ?c) \<and>
      nc_values ?c + nc_function_values ?c \<le> MAX_VALUES_PER_PROGRAM \<and>
      nc_edges ?c + nc_function_edges ?c \<le> MAX_CFG_EDGES_PER_PROGRAM \<and> True) (\<lambda>er. (?d, er))"
    unfolding native_preflight_function_def [abs_def]
    apply (rule limits_pair [OF limits_names [OF w]])
    apply (rule limits_then [OF limits_native_when])
    apply (rule limits_pair [OF limits_native_add_total], simp add: native_limit_defs)
    apply (rule limits_then [OF limits_native_when])
    apply (rule limits_pair [OF limits_native_add_total], simp add: native_limit_defs)
    apply (rule limits_pair [OF blocks])
     apply (use w in \<open>simp add: totals_within_defs native_limit_defs\<close>)
    apply (rule limits_pair [OF limits_native_add_total], simp add: native_limit_defs)
    apply (rule limits_pair [OF limits_native_add_total], simp add: native_limit_defs)
    apply (rule limits_ret)
    done
  moreover have b: "?b = count_start f t" by (simp add: count_start_def)
  moreover have "?d = count_function f t" unfolding b by (simp add: count_function_def Let_def)
  moreover have "native_function_within f \<longleftrightarrow> length (nf_internal_symbol f) \<le> MAX_INTERNAL_SYMBOL_BYTES \<and>
      export_bytes f \<le> MAX_ENTRY_EXPORT_BYTES \<and> length (nf_parameters f) \<le> MAX_PARAMETERS_PER_FUNCTION \<and>
      length (nf_blocks f) \<le> MAX_BLOCKS_PER_FUNCTION \<and> (\<forall>b\<in>set (nf_blocks f). native_block_within b) \<and> function_totals_within ?c"
    unfolding native_function_within_def b function_counters [of f t] by (rule refl)
  moreover have "program_totals_within ?d \<longleftrightarrow> program_totals_within ?c \<and> nc_values ?c + nc_function_values ?c \<le> MAX_VALUES_PER_PROGRAM \<and>
      nc_edges ?c + nc_function_edges ?c \<le> MAX_CFG_EDGES_PER_PROGRAM"
    by (auto simp: program_totals_within_def)
  moreover have "program_totals_within ?c \<Longrightarrow> nc_symbol_bytes t + length (nf_internal_symbol f) \<le> MAX_INTERNAL_SYMBOL_BYTES_PER_PROGRAM \<and>
     nc_export_bytes t + export_bytes f \<le> MAX_ENTRY_EXPORT_BYTES_PER_PROGRAM \<and>
     nc_parameters ?a + length (nf_parameters f) \<le> MAX_PARAMETERS_PER_PROGRAM \<and> nc_blocks ?a + length (nf_blocks f) \<le> MAX_BLOCKS_PER_PROGRAM"
    by (simp add: fold_count_block program_totals_within_def)
  ultimately show ?thesis by (elim limits_value) (auto simp: not_less)
qed

lemma count_function_mono: "program_totals_within (count_function f t) \<Longrightarrow> program_totals_within t"
  by (simp add: count_function_def count_start_def Let_def fold_count_block program_totals_within_def)

lemma fold_count_function_mono: "program_totals_within (fold count_function fs t) \<Longrightarrow> program_totals_within t"
  by (induction fs arbitrary: t) (auto dest: count_function_mono)

lemma count_module_mono: "program_totals_within (count_module m t) \<Longrightarrow> program_totals_within t"
  unfolding count_module_def by (drule fold_count_function_mono) (simp add: program_totals_within_def)

lemma limits_native_module:
  assumes w: "program_totals_within t"
  shows "limits (native_preflight_module m t)
    ((length (nm_functions m) \<le> MAX_FUNCTIONS_PER_MODULE \<and> (\<forall>f\<in>set (nm_functions m). native_function_within f)) \<and>
     program_totals_within (count_module m t)) (\<lambda>er. (count_module m t, er))"
proof -
  let ?t = "t\<lparr>nc_functions := nc_functions t + length (nm_functions m)\<rparr>"
  have wt: "nc_functions t + length (nm_functions m) \<le> MAX_FUNCTIONS_PER_PROGRAM \<longleftrightarrow> program_totals_within ?t"
    using w by (simp add: program_totals_within_def)
  have fs: "limits (try_each native_preflight_function (nm_functions m) ?t)
      ((\<forall>f\<in>set (nm_functions m). native_function_within f) \<and> program_totals_within (count_module m t)) (\<lambda>er. (count_module m t, er))"
    if "program_totals_within ?t"
    unfolding count_module_def
    by (rule limits_fold [where B = program_totals_within]) (use limits_native_function count_function_mono that in blast)+
  have "limits (native_preflight_module m t) (\<not> MAX_FUNCTIONS_PER_MODULE < length (nm_functions m) \<and>
      nc_functions t + length (nm_functions m) \<le> MAX_FUNCTIONS_PER_PROGRAM \<and>
      ((\<forall>f\<in>set (nm_functions m). native_function_within f) \<and> program_totals_within (count_module m t))) (\<lambda>er. (count_module m t, er))"
    unfolding native_preflight_module_def [abs_def]
    by (rule limits_then [OF limits_native_when], rule limits_pair [OF limits_native_add_total], simp add: native_limit_defs,
        rule fs, simp only: wt)
  then show ?thesis
    by (rule limits_value)
      (use wt fold_count_function_mono [of "nm_functions m" ?t] in \<open>auto simp: not_less count_module_def\<close>)
qed

lemma native_preflight_exact: "checks (native_preflight p) (native_within_limits p)"
proof -
  let ?P = "(\<forall>m\<in>set (np_modules p). length (nm_functions m) \<le> MAX_FUNCTIONS_PER_MODULE \<and>
      (\<forall>f\<in>set (nm_functions m). native_function_within f)) \<and>
      program_totals_within (fold count_module (np_modules p) native_no_totals)"
  have "program_totals_within native_no_totals" by (simp add: program_totals_within_def native_no_totals_def)
  then have "limits (try_each native_preflight_module (np_modules p) native_no_totals) ?P
      (\<lambda>er. (fold count_module (np_modules p) native_no_totals, er))"
    by (intro limits_fold [where B = program_totals_within]) (use limits_native_module count_module_mono in blast)+
  note m = this [unfolded limits_def, THEN spec]
  have fl: "native_within_limits p \<longleftrightarrow> np_modules p \<noteq> [] \<and> length (np_modules p) \<le> MAX_MODULES \<and> ?P"
    by (simp add: native_within_limits_def)
  show ?thesis
  proof (cases "np_modules p = [] \<or> MAX_MODULES < length (np_modules p)")
    case True
    then have "native_within_limits p = False" using fl by auto
    then show ?thesis using True native.push_dirty native.push_keeps_bound
      by (auto simp: checks_def native_preflight_def)
  next
    case False
    have "bounded_errors er \<longrightarrow> bounded_errors (native_preflight p er) \<and> (clean (native_preflight p er) \<longleftrightarrow> clean er \<and> ?P)" for er
      using m [of er] False by (cases ?P) (auto simp: native_preflight_def)
    then show ?thesis using False fl by (simp add: checks_def)
  qed
qed

section \<open>Internal symbols\<close>

lemma show_nat_inject: "show_nat a = show_nat b \<longleftrightarrow> a = b"
proof (induction a arbitrary: b rule: less_induct)
  case (less a)
  have ne: "show_nat n \<noteq> []" for n using show_nat_digits by simp
  have c: "char_of (48 + m mod 10) = char_of (48 + n mod 10) \<longleftrightarrow> m mod 10 = n mod 10" for m n :: nat
  proof
    assume "char_of (48 + m mod 10) = (char_of (48 + n mod 10) :: char)"
    then have "byte_of (char_of (48 + m mod 10)) = byte_of (char_of (48 + n mod 10))" by simp
    then show "m mod 10 = n mod 10" by (simp add: byte_of_char_of)
  qed simp
  show ?case
  proof (cases "a < 10 \<and> b < 10")
    case True
    then show ?thesis using c [of a b] by (simp add: show_nat.simps [of a] show_nat.simps [of b])
  next
    case False
    show ?thesis
    proof (cases "a < 10 \<or> b < 10")
      case True
      then show ?thesis using False ne [of "a div 10"] ne [of "b div 10"]
        by (auto simp: show_nat.simps [of a] show_nat.simps [of b] dest: sym)
    next
      case f: False
      then have "show_nat a = show_nat b \<longleftrightarrow> a div 10 = b div 10 \<and> a mod 10 = b mod 10"
        using less [of "a div 10" "b div 10"] c [of a b] by (simp add: show_nat.simps [of a] show_nat.simps [of b])
      then show ?thesis by (metis div_mult_mod_eq)
    qed
  qed
qed

lemma digit_facts:
  assumes "is_ascii_digit c"
  shows "c \<noteq> CHR ''_''" "ascii_lower c = c"
  using assms by (auto simp: is_ascii_digit_def byte_of_def ascii_lower_def is_ascii_uppercase_def)

lemma flow_internal_symbol_inject: "flow_internal_symbol i = flow_internal_symbol j \<longleftrightarrow> i = j"
proof
  assume eq: "flow_internal_symbol i = flow_internal_symbol j"
  have no: "CHR ''_'' \<notin> set (show_nat n)" for n
    using show_nat_digits [of n] digit_facts(1) by (auto simp: list_all_iff)
  have tw: "takeWhile (\<lambda>c. c \<noteq> CHR ''_'') (show_nat n @ ''_f'' @ s) = show_nat n" for n s
    using no [of n] by (subst takeWhile_append2) auto
  have "show_nat (unat (fi_module i)) @ ''_f'' @ show_nat (unat (fi_declaration i)) =
      show_nat (unat (fi_module j)) @ ''_f'' @ show_nat (unat (fi_declaration j))"
    using eq by (simp add: flow_internal_symbol_def)
  moreover from this have "show_nat (unat (fi_module i)) = show_nat (unat (fi_module j))" by (metis tw)
  ultimately show "i = j"
    by (cases i; cases j) (simp add: show_nat_inject word_unat_eq_iff)
qed simp

lemma flow_internal_symbol_lower: "to_ascii_lowercase (flow_internal_symbol i) = flow_internal_symbol i"
proof -
  have "map ascii_lower (show_nat n) = show_nat n" for n
    using show_nat_digits [of n] digit_facts(2) by (auto simp: list_all_iff intro: map_idI)
  then show ?thesis
    by (simp add: flow_internal_symbol_def to_ascii_lowercase_def ascii_lower_def is_ascii_uppercase_def byte_of_def)
qed

lemma flow_internal_symbol_length: "length (flow_internal_symbol i) \<le> 34"
proof -
  have "length (show_nat (unat w)) \<le> 10" for w :: u32
    using unsigned_less [of w, where 'a = nat] by (intro length_show_nat_le) auto
  from add_mono [OF this this, of "fi_module i" "fi_declaration i"] show ?thesis by (simp add: flow_internal_symbol_def)
qed

section \<open>Inventory\<close>

lemma checks_native_push: "checks (native_push d) False"
  by (rule native.checks_pushed)

lemma checks_native_when: "checks (native_push_when b d) (\<not> b)"
  using native.checks_when [of b d] by (simp add: native_push_when_def [abs_def])

lemma checks_native_limit: "checks (native_limit l m) False"
  by (simp add: checks_def)

lemma no_collision_append:
  "no_collision (xs @ ys) tables \<longleftrightarrow> no_collision xs tables \<and> no_collision ys (record_all xs tables)"
  "record_all (xs @ ys) tables = record_all ys (record_all xs tables)"
  by (induction xs tables rule: no_collision.induct) auto

lemma no_collision_distinct:
  "distinct (map fst xs) \<Longrightarrow> \<forall>x\<in>set xs. to_ascii_lowercase (fst x) = fst x \<Longrightarrow>
    \<forall>x\<in>set xs. bt_get exact (fst x) = None \<and> bt_get portable (fst x) = None \<Longrightarrow> no_collision xs (exact, portable)"
proof (induction xs arbitrary: exact portable)
  case (Cons x xs)
  obtain symbol place where x: "x = (symbol, place)" by (cases x)
  have r: "record_symbol symbol place (exact, portable) = (False, bt_insert symbol place exact, bt_insert symbol place portable)"
    using Cons.prems x by (simp add: record_symbol_def Let_def)
  have "no_collision xs (bt_insert symbol place exact, bt_insert symbol place portable)"
    by (rule Cons.IH) (use Cons.prems x in \<open>auto simp: rev_image_eqI\<close>)
  then show ?case using x r by simp
qed simp

lemma native_inventory_function_yields:
  assumes "fst x < 2 ^ 32"
  shows "yields (\<lambda>_. True) (native_inventory_function p mi m x tables)
    (native_identity_ok p m x \<and> no_collision [function_symbol mi x] tables) (record_all [function_symbol mi x] tables)"
proof -
  obtain fi f where x: "x = (fi, f)" by force
  obtain collide tables' where r: "record_symbol (nf_internal_symbol f) (mi, fi) tables = (collide, tables')" by (cases "record_symbol (nf_internal_symbol f) (mi, fi) tables")
  have u: "u32_try_from fi = Some (of_nat fi)" using assms x by (simp add: u32_try_from_def)
  let ?i = "\<lparr>fi_module = nm_id m, fi_declaration = of_nat fi\<rparr> :: function_id"
  have "checks (\<lambda>er. native_push_when (nm_id m \<noteq> np_entry_module p \<and> nf_entry_export f \<noteq> None) d5
      (native_push_when (nf_convention f \<noteq> ZRYNA_INTERNAL_CONTROL_FLOW_V1) d4
      (native_push_when collide d3 (native_push_when (nf_internal_symbol f \<noteq> flow_internal_symbol ?i) d2
      (native_push_when (nf_id f \<noteq> ?i) d1 er)))))
      ((((\<not> nf_id f \<noteq> ?i \<and> \<not> nf_internal_symbol f \<noteq> flow_internal_symbol ?i) \<and> \<not> collide) \<and>
        \<not> nf_convention f \<noteq> ZRYNA_INTERNAL_CONTROL_FLOW_V1) \<and> \<not> (nm_id m \<noteq> np_entry_module p \<and> nf_entry_export f \<noteq> None))"
    for d1 d2 d3 d4 d5
    by (rule checks_seq, rule checks_seq, rule checks_seq, rule checks_seq) (rule checks_native_when)+
  from yields_checks [OF this, of "\<lambda>_. True" tables']
  have "yields (\<lambda>_. True) (native_inventory_function p mi m x tables)
      ((((\<not> nf_id f \<noteq> ?i \<and> \<not> nf_internal_symbol f \<noteq> flow_internal_symbol ?i) \<and> \<not> collide) \<and>
        \<not> nf_convention f \<noteq> ZRYNA_INTERNAL_CONTROL_FLOW_V1) \<and> \<not> (nm_id m \<noteq> np_entry_module p \<and> nf_entry_export f \<noteq> None)) tables'"
    by (simp add: native_inventory_function_def [abs_def] x u r Let_def)
  then show ?thesis
    by (rule yields_cong) (use x r in \<open>auto simp: native_identity_ok_def function_symbol_def\<close>)
qed

lemma native_inventory_functions_yields:
  "\<forall>x\<in>set xs. fst x < 2 ^ 32 \<Longrightarrow>
    yields (\<lambda>_. True) (native_inventory_functions p mi m xs tables)
      ((\<forall>x\<in>set xs. native_identity_ok p m x) \<and> no_collision (map (function_symbol mi) xs) tables)
      (record_all (map (function_symbol mi) xs) tables)"
proof (induction xs arbitrary: tables)
  case Nil
  then show ?case by (simp add: yields_def)
next
  case (Cons x xs)
  have step: "yields (\<lambda>_. True) (\<lambda>er. if ce_exhausted er then Some (tables, er) else native_inventory_functions p mi m xs tables er)
      ((\<forall>x\<in>set xs. native_identity_ok p m x) \<and> no_collision (map (function_symbol mi) xs) tables)
      (record_all (map (function_symbol mi) xs) tables)" for tables
    by (rule yields_guard [OF Cons.IH]) (use Cons.prems in auto)
  have "yields (\<lambda>_. True) (\<lambda>er. Option.bind (native_inventory_function p mi m x tables er) (\<lambda>(tables, er).
      if ce_exhausted er then Some (tables, er) else native_inventory_functions p mi m xs tables er))
      ((native_identity_ok p m x \<and> no_collision [function_symbol mi x] tables) \<and>
       ((\<forall>x\<in>set xs. native_identity_ok p m x) \<and>
        no_collision (map (function_symbol mi) xs) (record_all [function_symbol mi x] tables)))
      (record_all (map (function_symbol mi) xs) (record_all [function_symbol mi x] tables))"
    by (rule yields_bind [OF native_inventory_function_yields]) (use Cons.prems step in \<open>simp, blast+\<close>)
  moreover have "no_collision (map (function_symbol mi) (x # xs)) tables \<longleftrightarrow> no_collision [function_symbol mi x] tables \<and>
      no_collision (map (function_symbol mi) xs) (record_all [function_symbol mi x] tables)"
    "record_all (map (function_symbol mi) (x # xs)) tables = record_all (map (function_symbol mi) xs) (record_all [function_symbol mi x] tables)"
    using no_collision_append [of "[function_symbol mi x]" "map (function_symbol mi) xs" tables] by simp_all
  ultimately show ?case by (auto simp: yields_def)
qed

lemma native_inventory_modules_yields:
  "\<forall>x\<in>set ms. fst x < 2 ^ 32 \<and> length (nm_functions (snd x)) \<le> 2 ^ 32 \<Longrightarrow>
    yields (\<lambda>_. True) (native_inventory_modules p ms tables)
      ((\<forall>(mi, m)\<in>set ms. nm_id m = of_nat mi \<and> (\<forall>x\<in>set (enumerate 0 (nm_functions m)). native_identity_ok p m x)) \<and>
       no_collision (concat (map module_symbols ms)) tables)
      (record_all (concat (map module_symbols ms)) tables)"
proof (induction ms arbitrary: tables)
  case Nil
  then show ?case by (simp add: yields_def)
next
  case (Cons x ms)
  obtain mi m where x: "x = (mi, m)" by force
  have u: "u32_try_from mi = Some (of_nat mi)" using Cons.prems x by (simp add: u32_try_from_def)
  have fs: "\<forall>y\<in>set (enumerate 0 (nm_functions m)). fst y < 2 ^ 32"
    using Cons.prems x by (auto simp: in_set_enumerate_eq)
  have ms: "module_symbols (mi, m) = map (function_symbol mi) (enumerate 0 (nm_functions m))" by (simp add: module_symbols_def)
  let ?rest = "\<lambda>tables. (\<forall>(mi, m)\<in>set ms. nm_id m = of_nat mi \<and> (\<forall>x\<in>set (enumerate 0 (nm_functions m)). native_identity_ok p m x)) \<and>
       no_collision (concat (map module_symbols ms)) tables"
  have next': "yields (\<lambda>_. True) (\<lambda>er. if ce_exhausted er \<and> nm_functions m \<noteq> [] then Some (tables, er)
      else native_inventory_modules p ms tables er) (?rest tables) (record_all (concat (map module_symbols ms)) tables)" for tables
    using Cons.IH [of tables] yields_guard [OF Cons.IH, of tables] Cons.prems by (cases "nm_functions m = []") auto
  have "yields (\<lambda>_. True) (\<lambda>er. Option.bind (native_inventory_functions p mi m (enumerate 0 (nm_functions m)) tables er) (\<lambda>(tables, er).
      if ce_exhausted er \<and> nm_functions m \<noteq> [] then Some (tables, er) else native_inventory_modules p ms tables er))
      (((\<forall>x\<in>set (enumerate 0 (nm_functions m)). native_identity_ok p m x) \<and> no_collision (module_symbols x) tables) \<and>
       ?rest (record_all (module_symbols x) tables))
      (record_all (concat (map module_symbols ms)) (record_all (module_symbols x) tables))"
    unfolding x ms
    by (rule yields_bind [OF native_inventory_functions_yields [OF fs]]) (use next' in blast)+
  note body = yields_seq [OF checks_native_when this]
  have "yields (\<lambda>_. True) (native_inventory_modules p (x # ms) tables) (\<not> nm_id m \<noteq> of_nat mi \<and>
      ((\<forall>x\<in>set (enumerate 0 (nm_functions m)). native_identity_ok p m x) \<and> no_collision (module_symbols x) tables) \<and>
       ?rest (record_all (module_symbols x) tables))
      (record_all (concat (map module_symbols ms)) (record_all (module_symbols x) tables))"
    unfolding x native_inventory_modules.simps u Option.bind.simps Let_def by (rule body [unfolded x])
  then show ?case
    by (rule yields_cong) (use x in \<open>auto simp: no_collision_append\<close>)
qed

lemma canonical_symbols_distinct:
  assumes ok: "\<forall>(mi, m)\<in>set (enumerate 0 ms). nm_id m = of_nat mi \<and> (\<forall>x\<in>set (enumerate 0 (nm_functions m)). native_identity_ok p m x)"
    and small: "length ms \<le> 2 ^ 32" "\<forall>m\<in>set ms. length (nm_functions m) \<le> 2 ^ 32"
  shows "no_collision (concat (map module_symbols (enumerate 0 ms))) ([], [])"
proof -
  have canonical: "fst x = flow_internal_symbol \<lparr>fi_module = of_nat (fst (snd x)), fi_declaration = of_nat (snd (snd x))\<rparr> \<and>
      fst (snd x) < 2 ^ 32 \<and> snd (snd x) < 2 ^ 32" if x: "x \<in> set (concat (map module_symbols (enumerate 0 ms)))" for x
  proof -
    obtain mi fi where i: "mi < length ms" "fi < length (nm_functions (ms ! mi))" "x = (nf_internal_symbol (nm_functions (ms ! mi) ! fi), mi, fi)"
      using x by (auto simp: module_symbols_def function_symbol_def in_set_enumerate_eq)
    have "native_identity_ok p (ms ! mi) (fi, nm_functions (ms ! mi) ! fi)" "nm_id (ms ! mi) = of_nat mi"
      using ok i unfolding ball_enumerate_nth by auto
    then show ?thesis using i small nth_mem [of mi ms] by (fastforce simp: native_identity_ok_def)
  qed
  have d: "distinct (map snd (concat (map module_symbols (enumerate k ms))))" for k
  proof (induction ms arbitrary: k)
    case (Cons m ms)
    have "mi \<noteq> k" if "(symbol, mi, fi) \<in> set (concat (map module_symbols (enumerate (Suc k) ms)))" for symbol mi fi
      using that by (auto simp: module_symbols_def function_symbol_def in_set_enumerate_eq)
    moreover have "distinct (map snd (module_symbols (k, m)))"
      by (simp add: module_symbols_def function_symbol_def comp_def case_prod_unfold distinct_map inj_on_def) (auto simp: in_set_enumerate_eq)
    ultimately show ?case using Cons.IH [of "Suc k"] by (fastforce simp: module_symbols_def function_symbol_def)
  qed simp
  have "inj_on fst (set (concat (map module_symbols (enumerate 0 ms))))"
  proof (rule inj_onI)
    fix x y assume "x \<in> set (concat (map module_symbols (enumerate 0 ms)))" "y \<in> set (concat (map module_symbols (enumerate 0 ms)))" "fst x = fst y"
    moreover from this have "(of_nat (fst (snd x)) :: u32) = of_nat (fst (snd y))" "(of_nat (snd (snd x)) :: u32) = of_nat (snd (snd y))"
      using canonical [of x] canonical [of y] by (simp_all add: flow_internal_symbol_inject)
    ultimately show "x = y" using canonical [of x] canonical [of y]
      by (simp add: prod_eq_iff word_unat_eq_iff unat_of_nat take_bit_nat_eq_self)
  qed
  then have "distinct (map fst (concat (map module_symbols (enumerate 0 ms))))"
    using d [of 0] by (metis distinct_map)
  then show ?thesis
    by (rule no_collision_distinct) (use canonical flow_internal_symbol_lower in \<open>metis, simp\<close>)
qed

lemma native_inventory_steps:
  assumes small: "length (np_modules p) \<le> 2 ^ 32" "\<forall>m\<in>set (np_modules p). length (nm_functions m) \<le> 2 ^ 32"
  shows "steps (native_inventory p) (native_inventory_ok p)"
proof -
  let ?ms = "enumerate 0 (np_modules p)"
  let ?ok = "\<forall>(mi, m)\<in>set ?ms. nm_id m = of_nat mi \<and> (\<forall>x\<in>set (enumerate 0 (nm_functions m)). native_identity_ok p m x)"
  have "yields (\<lambda>_. True) (native_inventory_modules p ?ms ([], [])) (?ok \<and> no_collision (concat (map module_symbols ?ms)) ([], []))
      (record_all (concat (map module_symbols ?ms)) ([], []))"
    by (rule native_inventory_modules_yields) (use small in \<open>auto simp: in_set_enumerate_eq\<close>)
  then have "steps (\<lambda>er. map_option snd (native_inventory_modules p ?ms ([], []) er)) (?ok \<and> no_collision (concat (map module_symbols ?ms)) ([], []))"
    unfolding yields_def steps_def by fastforce
  from steps_seq [OF checks_native_when this]
  have "steps (native_inventory p) (\<not> length (np_modules p) \<le> unat (np_entry_module p) \<and>
      ?ok \<and> no_collision (concat (map module_symbols ?ms)) ([], []))"
    by (simp add: native_inventory_def [abs_def] Let_def)
  then show ?thesis
    by (rule steps_cong) (use canonical_symbols_distinct [OF _ small] in \<open>auto simp: native_inventory_ok_def not_le\<close>)
qed

lemma lift_simps [simp]:
  "fv_id (lift_value d) = nv_id d" "fv_ty (lift_value d) = nv_ty d"
  "is_result (lift_instruction ins) = lift_value (ni_result ins)" "is_kind (lift_instruction ins) = lift_kind (ni_kind ins)"
  "bk_id (lift_block b) = nb_id b" "bk_parameters (lift_block b) = map lift_value (nb_parameters b)"
  "bk_instructions (lift_block b) = map lift_instruction (nb_instructions b)"
  "bk_terminators (lift_block b) = map (\<lambda>t. \<lparr>st_span = blank_span, st_kind = lift_terminator t\<rparr>) (nb_terminators b)"
  "ff_id (lift_function f) = nf_id f" "ff_entry_export (lift_function f) = nf_entry_export f"
  "ff_parameters (lift_function f) = map lift_value (nf_parameters f)" "ff_result (lift_function f) = nf_result f"
  "ff_blocks (lift_function f) = map lift_block (nf_blocks f)"
  "fm_id (lift_module m) = nm_id m" "fm_functions (lift_module m) = map lift_function (nm_functions m)"
  "fp_entry_module (lift_program p) = np_entry_module p" "fp_modules (lift_program p) = map lift_module (np_modules p)"
  by (simp_all add: lift_value_def lift_instruction_def lift_block_def lift_function_def lift_module_def lift_program_def)

lemma enumerate_map: "enumerate k (map f xs) = map (apsnd f) (enumerate k xs)"
  by (induction xs arbitrary: k) simp_all

section \<open>Values\<close>

lemma lift_block_definitions: "map lift_definition_at (native_block_definitions bi b) = block_definitions bi (lift_block b)"
  by (simp add: native_block_definitions_def block_definitions_def lift_definition_at_def enumerate_map case_prod_unfold comp_def)

lemma checks_native_type: "checks (native_validate_type ty label) (ty \<noteq> TyUnit)"
  unfolding native_validate_type_def by (rule checks_native_when)

lemma gives_unless:
  assumes "checks c P" "I a" "I v"
  shows "gives I (\<lambda>er. let er = c er in (if ce_exhausted er then a else v, er)) P v"
  using assms exhausted_not_clean unfolding yields_def checks_def by (auto simp: Let_def)

lemma native_define_value_yields:
  assumes "table_ok n limit vals" "limit < 2 ^ 32" "location_in n (snd d)"
  shows "yields (table_ok n (Suc limit)) (native_define_value d vals)
    (nv_id (fst d) = of_nat (length vals) \<and> nv_ty (fst d) \<noteq> TyUnit) (vals @ [definition_info (lift_definition_at d)])"
proof -
  obtain v location where d: "d = (v, location)" by force
  have u: "u32_try_from (length vals) = Some (of_nat (length vals))"
    using assms(1,2) by (simp add: u32_try_from_def table_ok_def)
  have t: "table_ok n (Suc limit) vals" "table_ok n (Suc limit) (vals @ [definition_info (lift_definition_at d)])"
    using assms(1,3) d by (auto simp: table_ok_def definition_info_def lift_definition_at_def)
  have "checks (\<lambda>er. native_validate_type (nv_ty v) ''value'' (native_push_when (nv_id v \<noteq> of_nat (length vals)) x er))
      (\<not> nv_id v \<noteq> of_nat (length vals) \<and> nv_ty v \<noteq> TyUnit)" for x
    by (rule checks_seq [OF checks_native_when checks_native_type])
  note all = gives_unless [OF this, of "table_ok n (Suc limit)" vals, OF t]
  have i: "definition_info (lift_definition_at d) = \<lparr>vin_ty = nv_ty v, vin_location = location\<rparr>"
    by (simp add: d definition_info_def lift_definition_at_def)
  have "yields (table_ok n (Suc limit)) (native_define_value d vals)
      (\<not> nv_id v \<noteq> of_nat (length vals) \<and> nv_ty v \<noteq> TyUnit) (vals @ [definition_info (lift_definition_at d)])"
    unfolding native_define_value_def d split u Option.bind.simps i [unfolded d] Let_def by (rule all [unfolded i Let_def])
  then show ?thesis by (simp add: d)
qed

lemma native_define_values_yields:
  "table_ok n limit vals \<Longrightarrow> limit + length ds \<le> 2 ^ 32 \<Longrightarrow> \<forall>d\<in>set ds. location_in n (snd d) \<Longrightarrow>
    yields (table_ok n (limit + length ds)) (native_define_values ds vals) (definitions_ok (length vals) (map lift_definition_at ds))
      (vals @ map definition_info (map lift_definition_at ds))"
proof (induction ds arbitrary: vals limit)
  case Nil
  then show ?case by (simp add: yields_def definitions_ok_def)
next
  case (Cons d ds)
  have step: "yields (table_ok n (limit + length (d # ds))) (native_define_values ds vs)
      (definitions_ok (length vs) (map lift_definition_at ds)) (vs @ map definition_info (map lift_definition_at ds))"
    if "table_ok n (Suc limit) vs" for vs
    using Cons.IH [OF that] Cons.prems by simp
  have t: "table_ok n (Suc limit) (vals @ [definition_info (lift_definition_at d)])"
    using Cons.prems by (cases d) (auto simp: table_ok_def definition_info_def lift_definition_at_def)
  have "yields (table_ok n (limit + length (d # ds))) (\<lambda>er. Option.bind (native_define_value d vals er)
      (\<lambda>(vs, er). native_define_values ds vs er))
      ((nv_id (fst d) = of_nat (length vals) \<and> nv_ty (fst d) \<noteq> TyUnit) \<and>
       definitions_ok (length (vals @ [definition_info (lift_definition_at d)])) (map lift_definition_at ds))
      ((vals @ [definition_info (lift_definition_at d)]) @ map definition_info (map lift_definition_at ds))"
    by (rule yields_bind [OF native_define_value_yields [of n limit]]) (use Cons.prems step t in \<open>simp, simp, simp, blast+\<close>)
  then have "yields (table_ok n (limit + length (d # ds))) (native_define_values (d # ds) vals)
      ((nv_id (fst d) = of_nat (length vals) \<and> nv_ty (fst d) \<noteq> TyUnit) \<and>
       definitions_ok (length (vals @ [definition_info (lift_definition_at d)])) (map lift_definition_at ds))
      ((vals @ [definition_info (lift_definition_at d)]) @ map definition_info (map lift_definition_at ds))"
    by (simp add: yields_def)
  then show ?case by (rule yields_cong) (cases d, simp_all add: definitions_ok_Cons lift_definition_at_def)
qed

lemma native_define_blocks_yields:
  "table_ok n limit vals \<Longrightarrow> limit + sum_list (map (\<lambda>x. block_values (lift_block (snd x))) bs) \<le> 2 ^ 32 \<Longrightarrow>
    \<forall>x\<in>set bs. fst x < n \<Longrightarrow> n \<le> 2 ^ 32 \<Longrightarrow>
    yields (table_ok n (limit + sum_list (map (\<lambda>x. block_values (lift_block (snd x))) bs))) (native_define_blocks bs vals)
      ((\<forall>x\<in>set bs. nb_id (snd x) = of_nat (fst x) \<and> (fst x = 0 \<longrightarrow> nb_parameters (snd x) = [])) \<and>
       definitions_ok (length vals) (block_table (map (apsnd lift_block) bs)))
      (vals @ map definition_info (block_table (map (apsnd lift_block) bs)))"
proof (induction bs arbitrary: vals limit)
  case Nil
  then show ?case by (simp add: yields_def definitions_ok_def block_table_def)
next
  case (Cons x bs)
  obtain bi b where x: "x = (bi, b)" by force
  let ?I = "table_ok n (limit + sum_list (map (\<lambda>x. block_values (lift_block (snd x))) (x # bs)))"
  let ?ds = "native_block_definitions bi b" let ?es = "block_definitions bi (lift_block b)" let ?bt = "block_table (map (apsnd lift_block) bs)"
  have u: "u32_try_from bi = Some (of_nat bi)" using Cons.prems x by (simp add: u32_try_from_def)
  have I: "?I vals" using Cons.prems(1) by (auto simp: table_ok_def)
  have len: "length ?ds = block_values (lift_block b)"
    using block_definitions_facts(1) [of bi "lift_block b"] lift_block_definitions [of bi b] by (metis length_map)
  have locs: "\<forall>d\<in>set ?ds. location_in n (snd d)"
  proof
    fix d assume "d \<in> set ?ds"
    then have "lift_definition_at d \<in> set ?es" using lift_block_definitions [of bi b] by (metis image_eqI set_map)
    then show "location_in n (snd d)"
      using block_definitions_facts(2) [of bi n "lift_block b"] Cons.prems(3) x by (auto simp: lift_definition_at_def)
  qed
  have step: "yields ?I (\<lambda>er. if ce_exhausted er then Some (vs, er) else native_define_blocks bs vs er)
      ((\<forall>x\<in>set bs. nb_id (snd x) = of_nat (fst x) \<and> (fst x = 0 \<longrightarrow> nb_parameters (snd x) = [])) \<and>
       definitions_ok (length vs) ?bt) (vs @ map definition_info ?bt)"
    if "table_ok n (limit + length ?ds) vs" for vs
    by (rule yields_guard)
      (use Cons.IH [OF that] table_ok_mono [OF that] Cons.prems(2,3,4) x len in \<open>simp_all add: add.assoc\<close>)
  have vs: "yields (table_ok n (limit + length ?ds)) (native_define_values ?ds vals) (definitions_ok (length vals) ?es) (vals @ map definition_info ?es)"
    using native_define_values_yields [OF Cons.prems(1) _ locs] Cons.prems(2) x len by (simp add: lift_block_definitions)
  have full: "table_ok n (limit + length ?ds) (vals @ map definition_info ?es)"
    using table_ok_append [OF Cons.prems(1), of ?es] block_definitions_facts(1) [of bi "lift_block b"]
      block_definitions_facts(2) [of bi n "lift_block b"] Cons.prems(3) x len by simp
  have body: "yields ?I (\<lambda>er. Option.bind (native_define_values ?ds vals er)
      (\<lambda>(vs, er). if ce_exhausted er then Some (vs, er) else native_define_blocks bs vs er))
      (definitions_ok (length vals) ?es \<and>
       (\<forall>x\<in>set bs. nb_id (snd x) = of_nat (fst x) \<and> (fst x = 0 \<longrightarrow> nb_parameters (snd x) = [])) \<and>
       definitions_ok (length (vals @ map definition_info ?es)) ?bt)
      ((vals @ map definition_info ?es) @ map definition_info ?bt)"
    by (rule yields_bind [OF vs]) (use step full in blast)+
  have "yields ?I (native_define_blocks (x # bs) vals) (\<not> nb_id b \<noteq> of_nat bi \<and> \<not> (bi = 0 \<and> nb_parameters b \<noteq> []) \<and>
      (definitions_ok (length vals) ?es \<and>
       (\<forall>x\<in>set bs. nb_id (snd x) = of_nat (fst x) \<and> (fst x = 0 \<longrightarrow> nb_parameters (snd x) = [])) \<and>
       definitions_ok (length (vals @ map definition_info ?es)) ?bt))
      ((vals @ map definition_info ?es) @ map definition_info ?bt)"
    unfolding x native_define_blocks.simps u Option.bind.simps Let_def
    by (rule yields_seq [OF checks_native_when], rule yields_seq [OF checks_native_when], rule body [unfolded x])
  then show ?case
    by (rule yields_cong)
      (use x in \<open>auto simp: block_table_def definitions_ok_append block_definitions_facts(1)\<close>)
qed

section \<open>Uses, instructions and terminators\<close>

lemma native_checked_use_gives:
  "gives (\<lambda>_. True) (native_checked_use v bi position vals) (usable vals bi position v) (value_type vals v)"
  unfolding native_checked_use_def [abs_def]
  by (cases "lookup_value v vals")
    (auto simp: usable_def value_type_def intro: gives_fails checks_native_push gives_checks checks_native_when)

lemma native_uses_have_types_gives:
  "gives (\<lambda>_. True) (native_uses_have_types xs bi position vals) (scan_ok vals bi position xs)
    (\<forall>(v, ty)\<in>set xs. value_type vals v = Some ty)"
proof (induction xs)
  case Nil
  show ?case using yields_ret [of "\<lambda>_. True" True] by simp
next
  case (Cons x xs)
  obtain v ty where x: "x = (v, ty)" by force
  have g: "\<exists>R y. gives (\<lambda>_. True) (\<lambda>er. if a = Some ty then native_uses_have_types xs bi position vals er else (False, er)) R y" for a
    using Cons.IH yields_ret [of "\<lambda>_. True" False] by (cases "a = Some ty") auto
  have y: "gives (\<lambda>_. True) (\<lambda>er. if value_type vals v = Some ty then native_uses_have_types xs bi position vals er else (False, er))
      (value_type vals v = Some ty \<longrightarrow> scan_ok vals bi position xs) (\<forall>(v, ty)\<in>set (x # xs). value_type vals v = Some ty)"
    using Cons.IH yields_ret [of "\<lambda>_. True" False] x by (cases "value_type vals v = Some ty") auto
  have "gives (\<lambda>_. True) (native_uses_have_types (x # xs) bi position vals)
      (usable vals bi position v \<and> (value_type vals v = Some ty \<longrightarrow> scan_ok vals bi position xs))
      (\<forall>(v, ty)\<in>set (x # xs). value_type vals v = Some ty)"
    unfolding x native_uses_have_types.simps by (rule gives_let [OF native_checked_use_gives]) (use y g x in auto)
  then show ?case unfolding x by simp
qed

lemma native_expect_operands_checks:
  "checks (native_expect_operands operands expected result expected_result bi position vals)
    ((\<forall>(v, ty)\<in>set (zip operands expected). usable vals bi position v \<and> value_type vals v = Some ty) \<and> result = expected_result)"
proof -
  let ?v = "\<forall>(v, ty)\<in>set (zip operands expected). value_type vals v = Some ty"
  have "checks (native_expect_operands operands expected result expected_result bi position vals)
      (scan_ok vals bi position (zip operands expected) \<and> \<not> (\<not> ?v \<or> result \<noteq> expected_result))"
    unfolding native_expect_operands_def [abs_def]
    by (rule checks_let [OF native_uses_have_types_gives]) (blast intro: checks_native_when)+
  then show ?thesis by (rule checks_cong) (use scan_ok_iff [of vals bi position "zip operands expected"] in blast)
qed

lemma checks_native_result: "checks (native_expect_result actual expected label) (actual = expected)"
  using checks_native_when [of "actual \<noteq> expected"] by (simp add: native_expect_result_def)

lemma native_verify_equality_checks:
  "checks (native_verify_equality lhs rhs result bi position vals)
    (usable vals bi position lhs \<and> usable vals bi position rhs \<and> result = TyBool \<and> value_type vals lhs = value_type vals rhs)"
proof -
  have right: "checks (\<lambda>er. let (right, er) = native_checked_use rhs bi position vals er
      in native_push_when (result \<noteq> TyBool \<or> left = None \<or> left \<noteq> right) d er)
      (usable vals bi position rhs \<and> \<not> (result \<noteq> TyBool \<or> left = None \<or> left \<noteq> value_type vals rhs))" for left d
    by (rule checks_let [OF native_checked_use_gives]) (blast intro: checks_native_when)+
  have "checks (native_verify_equality lhs rhs result bi position vals) (usable vals bi position lhs \<and>
      (usable vals bi position rhs \<and> \<not> (result \<noteq> TyBool \<or> value_type vals lhs = None \<or> value_type vals lhs \<noteq> value_type vals rhs)))"
    unfolding native_verify_equality_def [abs_def] by (rule checks_let [OF native_checked_use_gives]) (blast intro: right)+
  then show ?thesis by (rule checks_cong) (auto simp: usable_def value_type_def split: option.splits)
qed

lemma native_verify_argument_checks:
  "checks (native_verify_argument parameters report bi position vals x)
    (usable vals bi position (snd x) \<and> value_type vals (snd x) = get_at parameters (fst x))"
proof -
  obtain i v where x: "x = (i, v)" by force
  have "checks (native_verify_argument parameters report bi position vals x)
      (usable vals bi position v \<and> \<not> value_type vals v \<noteq> get_at parameters i)"
    unfolding native_verify_argument_def x split
    by (rule checks_let [OF native_checked_use_gives]) (blast intro: checks_native_when)+
  then show ?thesis by (simp add: x)
qed

lemma native_call_arguments_checks:
  assumes "\<And>x. x \<in> set xs \<Longrightarrow> checks (f x) (P x)"
  shows "checks (native_call_arguments f xs) (\<forall>x\<in>set xs. P x)"
  using assms
proof (induction xs)
  case (Cons x xs)
  have "checks (\<lambda>er. let er = f x er in if ce_exhausted er then er else native_call_arguments f xs er) (P x \<and> (\<forall>x\<in>set xs. P x))"
    by (intro checks_let_seq checks_guard) (use Cons in auto)
  then show ?case by (simp add: checks_def)
qed (simp add: checks_def)

lemma native_verify_call_gives:
  assumes "calls_in sigs calls" "calls_in sigs [(key, key)]"
  shows "gives (calls_in sigs) (native_verify_call key callee args result bi position vals sigs calls)
    ((\<forall>v\<in>set args. usable vals bi position v) \<and>
      callee_signature sigs callee = Some (map (\<lambda>v. the (value_type vals v)) args, result))
    (calls @ [(key, callee_key callee)])"
proof (cases "callee_signature sigs callee")
  case None
  then show ?thesis
    using gives_fails [OF checks_native_push, of "calls_in sigs" calls] assms(1)
    by (simp add: native_verify_call_def [abs_def] callee_signature_def)
next
  case (Some sig)
  obtain parameters target_result where sig: "sig = (parameters, target_result)" by force
  let ?calls = "calls @ [(key, callee_key callee)]"
  have I: "calls_in sigs ?calls"
    using assms Some by (auto simp: calls_in_def callee_key_def callee_signature_def get_at_Some_iff bind_eq_Some_conv)
  have "gives (calls_in sigs) (\<lambda>er. let calls = ?calls;
          er = native_push_when (length args \<noteq> length parameters \<or> result \<noteq> target_result) d er
      in (calls, native_call_arguments (native_verify_argument parameters native_call_error bi position vals) (enumerate 0 args) er))
      (\<not> (length args \<noteq> length parameters \<or> result \<noteq> target_result) \<and>
       (\<forall>x\<in>set (enumerate 0 args). usable vals bi position (snd x) \<and> value_type vals (snd x) = get_at parameters (fst x))) ?calls" for d
    unfolding Let_def [of ?calls]
    by (intro gives_seq checks_native_when gives_checks native_call_arguments_checks native_verify_argument_checks I)
  then have "gives (calls_in sigs) (native_verify_call key callee args result bi position vals sigs calls)
      (\<not> (length args \<noteq> length parameters \<or> result \<noteq> target_result) \<and>
       (\<forall>x\<in>set (enumerate 0 args). usable vals bi position (snd x) \<and> value_type vals (snd x) = get_at parameters (fst x))) ?calls"
    using Some sig by (simp add: native_verify_call_def [abs_def] callee_signature_def callee_key_def)
  then show ?thesis
  proof (rule yields_cong)
    have ty: "value_type vals v \<noteq> None" if "usable vals bi position v" for v
      using that by (auto simp: usable_def value_type_def split: option.splits)
    have "(\<forall>v\<in>set args. usable vals bi position v) \<and> map (value_type vals) args = map Some parameters \<longleftrightarrow>
        (\<forall>v\<in>set args. usable vals bi position v) \<and> map (\<lambda>v. the (value_type vals v)) args = parameters"
      using ty by (force simp: list_eq_iff_nth_eq all_set_conv_all_nth)
    then show "(\<not> (length args \<noteq> length parameters \<or> result \<noteq> target_result) \<and>
       (\<forall>x\<in>set (enumerate 0 args). usable vals bi position (snd x) \<and> value_type vals (snd x) = get_at parameters (fst x))) =
      ((\<forall>v\<in>set args. usable vals bi position v) \<and>
      callee_signature sigs callee = Some (map (\<lambda>v. the (value_type vals v)) args, result))"
      using arguments_iff [of args parameters "usable vals bi position" vals] Some sig by (auto simp: case_prod_unfold)
  qed simp
qed

lemma lift_operands [simp]:
  "instruction_operands (lift_kind k) = native_instruction_operands k"
  "terminator_operands (lift_terminator t) = native_terminator_operands t"
  by (cases k; simp) (cases t; simp)

lemma native_verify_instruction_gives:
  assumes "calls_in sigs calls" "calls_in sigs [(key, key)]"
  shows "gives (calls_in sigs) (native_verify_instruction key bi position ins vals sigs calls)
    (instruction_ok sigs vals bi position (lift_instruction ins)) (calls @ instruction_calls key (lift_instruction ins))"
proof -
  note call = native_verify_call_gives [OF assms]
  show ?thesis unfolding native_verify_instruction_def [abs_def]
    apply (cases "ni_kind ins")
                apply (simp_all only: Let_def native_kind.case)
                apply (rule yields_cong [OF gives_checks [OF checks_native_result]] yields_cong [OF gives_checks [OF native_expect_operands_checks]]
        yields_cong [OF gives_checks [OF native_verify_equality_checks]] yields_cong [OF call],
        auto simp: assms instruction_ok_def instruction_typed_def instruction_calls_def simp del: lift_operands)+
    done
qed

lemma native_verify_instructions_gives:
  assumes "calls_in sigs [(key, key)]"
  shows "calls_in sigs calls \<Longrightarrow> gives (calls_in sigs) (native_verify_instructions key bi xs vals sigs calls)
    (\<forall>(position, ins)\<in>set xs. instruction_ok sigs vals bi position (lift_instruction ins))
    (calls @ concat (map (\<lambda>x. instruction_calls key (lift_instruction (snd x))) xs))"
proof (induction xs arbitrary: calls)
  case Nil
  then show ?case using yields_ret [of "calls_in sigs" calls] by simp
next
  case (Cons x xs)
  obtain position ins where x: "x = (position, ins)" by force
  let ?P = "\<forall>(position, ins)\<in>set xs. instruction_ok sigs vals bi position (lift_instruction ins)"
  let ?c = "concat (map (\<lambda>x. instruction_calls key (lift_instruction (snd x))) xs)"
  have step: "gives (calls_in sigs) (\<lambda>er. if ce_exhausted er then (cs, er) else native_verify_instructions key bi xs vals sigs cs er) ?P (cs @ ?c)"
    if "calls_in sigs cs" for cs by (rule gives_guard [OF Cons.IH [OF that] that])
  note one = native_verify_instruction_gives [OF Cons.prems assms]
  have J: "calls_in sigs (calls @ instruction_calls key (lift_instruction ins))"
    if "instruction_ok sigs vals bi position (lift_instruction ins)"
    using one [of bi position ins vals] that clean_no_errors unfolding yields_def by metis
  have "gives (calls_in sigs) (native_verify_instructions key bi (x # xs) vals sigs calls)
      (instruction_ok sigs vals bi position (lift_instruction ins) \<and> ?P) ((calls @ instruction_calls key (lift_instruction ins)) @ ?c)"
    unfolding x native_verify_instructions.simps by (rule gives_let [OF one]) (use step J in blast)+
  then show ?case by (rule yields_cong) (use x in auto)
qed

lemma native_verify_edge_gives:
  assumes I: "edges_in (length (nf_blocks f)) edges" and s: "source < length (nf_blocks f)"
  shows "gives (edges_in (length (nf_blocks f))) (native_verify_edge key source target args f vals edges)
    (edge_ok (lift_function f) vals source target args) (edges @ [\<lparr>eg_source = source, eg_target = unat target, eg_arguments = []\<rparr>])"
proof (cases "unat target < length (nf_blocks f)")
  case False
  then show ?thesis
    using gives_fails [OF checks_native_push, of "edges_in (length (nf_blocks f))" edges] I
    by (simp add: native_verify_edge_def [abs_def] edge_ok_def)
next
  case True
  let ?new = "edges @ [\<lparr>eg_source = source, eg_target = unat target, eg_arguments = []\<rparr>]"
  let ?ps = "nb_parameters (nf_blocks f ! unat target)" and ?pos = "length (nb_instructions (nf_blocks f ! source))"
  let ?args = "\<forall>x\<in>set (enumerate 0 args). usable vals source ?pos (snd x) \<and> value_type vals (snd x) = get_at (map nv_ty ?ps) (fst x)"
  have J: "edges_in (length (nf_blocks f)) ?new" using I s True by (auto simp: edges_in_def)
  have "checks (\<lambda>er. check_each (native_verify_argument (map nv_ty ?ps) native_edge_error source ?pos vals) (enumerate 0 args)
      (native_push_when (length args \<noteq> length ?ps) d2 (native_push_when (unat target = 0) d1 er)))
      ((\<not> unat target = 0 \<and> \<not> length args \<noteq> length ?ps) \<and> ?args)" for d1 d2
    by (rule checks_seq, rule checks_seq [OF checks_native_when checks_native_when],
        rule checks_each, rule native_verify_argument_checks)
  from gives_unless [where I = "edges_in (length (nf_blocks f))" and a = edges and v = ?new, OF this I J]
  have "gives (edges_in (length (nf_blocks f))) (native_verify_edge key source target args f vals edges)
      ((\<not> unat target = 0 \<and> \<not> length args \<noteq> length ?ps) \<and> ?args) ?new"
    using True by (simp only: native_verify_edge_def [abs_def] Let_def not_True_eq_False if_False)
  then show ?thesis
    by (rule yields_cong)
      (use True s arguments_iff [of args "map nv_ty ?ps" "usable vals source ?pos" vals] in \<open>auto simp: edge_ok_def comp_def case_prod_unfold\<close>)
qed

lemma native_verify_terminator_gives:
  assumes I: "edges_in (length (nf_blocks f)) edges" and s: "bi < length (nf_blocks f)"
  shows "gives (edges_in (length (nf_blocks f))) (native_verify_terminator key bi f t vals edges)
    (terminator_ok (lift_function f) vals bi (lift_terminator t)) (edges @ map bare (terminator_edges bi (lift_terminator t)))"
proof (cases t)
  case (NtReturn v)
  have "gives (edges_in (length (nf_blocks f))) (native_verify_terminator key bi f t vals edges)
      (usable vals bi (length (nb_instructions (nf_blocks f ! bi))) v \<and> \<not> value_type vals v \<noteq> Some (nf_result f)) edges"
    unfolding native_verify_terminator_def [abs_def] NtReturn native_terminator.case Let_def [of "length _"]
    by (rule gives_let [OF native_checked_use_gives]) (use I in \<open>blast intro: gives_checks checks_native_when\<close>)+
  then show ?thesis using NtReturn s by simp
next
  case (NtJump target args)
  then show ?thesis using native_verify_edge_gives [OF I s]
    by (simp add: native_verify_terminator_def [abs_def] bare_def)
next
  case (NtBranch c t1 ts e1 es)
  let ?n = "length (nf_blocks f)" and ?pos = "length (nb_instructions (nf_blocks f ! bi))" and ?g = "lift_function f"
  let ?mid = "edges @ [\<lparr>eg_source = bi, eg_target = unat t1, eg_arguments = []\<rparr>]"
  let ?both = "?mid @ [\<lparr>eg_source = bi, eg_target = unat e1, eg_arguments = []\<rparr>]"
  have mid: "edges_in ?n ?mid" if "edge_ok ?g vals bi t1 ts" using that I s by (auto simp: edges_in_def edge_ok_def)
  have two: "gives (edges_in ?n) (\<lambda>er. let (edges, er) = native_verify_edge key bi t1 ts f vals edges er
      in native_verify_edge key bi e1 es f vals edges er) (edge_ok ?g vals bi t1 ts \<and> edge_ok ?g vals bi e1 es) ?both"
    by (rule gives_let [OF native_verify_edge_gives [OF I s]]) (use native_verify_edge_gives [OF _ s] mid in blast)+
  have rest: "gives (edges_in ?n) (\<lambda>er. let er = native_push_when (a \<noteq> Some TyBool) d er;
      (edges, er) = native_verify_edge key bi t1 ts f vals edges er in native_verify_edge key bi e1 es f vals edges er)
      (\<not> a \<noteq> Some TyBool \<and> (edge_ok ?g vals bi t1 ts \<and> edge_ok ?g vals bi e1 es)) ?both" for a d
    by (rule gives_seq [OF checks_native_when two])
  have "gives (edges_in ?n) (native_verify_terminator key bi f t vals edges)
      (usable vals bi ?pos c \<and> (\<not> value_type vals c \<noteq> Some TyBool \<and> (edge_ok ?g vals bi t1 ts \<and> edge_ok ?g vals bi e1 es))) ?both"
    unfolding native_verify_terminator_def [abs_def] NtBranch native_terminator.case Let_def [of ?pos]
    by (rule gives_let [OF native_checked_use_gives]) (use rest in blast)+
  then show ?thesis using NtBranch s by (simp add: bare_def)
qed

lemma pack4_simps [simp]:
  "pack4 (a, b, c, d) = ((a, b, c), d)"
  "pack4 (if P then x else y) = (if P then pack4 x else pack4 y)"
  "pack4 (case p of (u, v) \<Rightarrow> g u v) = (case p of (u, v) \<Rightarrow> pack4 (g u v))"
  by (simp_all add: pack4_def split: prod.split)

text \<open>A block whose list of terminators does not have one entry is reported and skipped.\<close>

lemma native_skip:
  assumes "\<nexists>t. nb_terminators b = [t]"
  shows "\<exists>d. \<forall>er. (case nb_terminators b of [t] \<Rightarrow> g t er | ts \<Rightarrow> h (native_push (D ts) er)) = h (native_push d er)"
  by (rule exI [of _ "D (nb_terminators b)"]) (use assms in \<open>auto split: list.splits\<close>)

lemma single_map: "(\<exists>t. map g xs = [t] \<and> P t) \<longleftrightarrow> (\<exists>t. xs = [t] \<and> P (g t))"
  by (auto simp: map_eq_Cons_conv)

lemma native_verify_blocks_gives:
  assumes k: "calls_in sigs [(key, key)]"
  shows "\<forall>x\<in>set bs. fst x < length (nf_blocks f) \<and> nf_blocks f ! fst x = snd x \<Longrightarrow> calls_in sigs calls \<Longrightarrow>
    edges_in (length (nf_blocks f)) edges \<Longrightarrow>
    gives (\<lambda>(_, c, e). calls_in sigs c \<and> edges_in (length (nf_blocks f)) e)
      (\<lambda>er. pack4 (native_verify_blocks key f bs vals sigs calls edges er))
      (\<forall>(bi, b)\<in>set bs. block_ok sigs (lift_function f) vals bi (lift_block b))
      (True, calls @ concat (map (block_call_edges key) (map (apsnd lift_block) bs)),
       edges @ map bare (concat (map block_graph (map (apsnd lift_block) bs))))"
proof (induction bs arbitrary: calls edges)
  case Nil
  then show ?case
    using yields_ret [of "\<lambda>(_, c, e). calls_in sigs c \<and> edges_in (length (nf_blocks f)) e" "(True, calls, edges)"] by simp
next
  case (Cons x bs)
  obtain bi b where x: "x = (bi, b)" by force
  let ?n = "length (nf_blocks f)" let ?J = "\<lambda>(_, c, e). calls_in sigs c \<and> edges_in (length (nf_blocks f)) e"
  let ?ok = "\<forall>(bi, b)\<in>set bs. block_ok sigs (lift_function f) vals bi (lift_block b)"
  let ?cs = "concat (map (block_call_edges key) (map (apsnd lift_block) bs))"
  let ?es = "map bare (concat (map block_graph (map (apsnd lift_block) bs)))"
  have bi: "bi < ?n" "nf_blocks f ! bi = b" using Cons.prems(1) x by auto
  have next': "gives ?J (\<lambda>er. pack4 (native_verify_blocks key f bs vals sigs cs es er)) ?ok (True, cs @ ?cs, es @ ?es)"
    if "calls_in sigs cs" "edges_in ?n es" for cs es
    using Cons.IH that Cons.prems(1) by auto
  let ?step = "\<lambda>cs er. case nb_terminators b of
              [t] \<Rightarrow>
                (let (edges, er) = native_verify_terminator key bi f t vals edges er
                 in if ce_exhausted er then (False, cs, edges, er)
                    else native_verify_blocks key f bs vals sigs cs edges er)
            | ts \<Rightarrow>
                native_verify_blocks key f bs vals sigs cs edges
                  (native_push (native_error ''ZRYNA-N2106''
                     (''block #'' @ show_nat bi @ '' has '' @ show_nat (length ts) @ '' terminators; expected exactly one'')
                     ''emit exactly one return, jump, or branch'') er)"
  let ?rest = "\<lambda>cs er. if ce_exhausted er \<and> nb_instructions b \<noteq> [] then (False, cs, edges, er) else ?step cs er"
  have step: "gives ?J (\<lambda>er. pack4 (?step cs er))
      ((\<exists>t. nb_terminators b = [t] \<and> terminator_ok (lift_function f) vals bi (lift_terminator t)) \<and> ?ok)
      (True, cs @ ?cs, edges @ map bare (block_graph (bi, lift_block b)) @ ?es)" if c: "calls_in sigs cs" for cs
  proof (cases "\<exists>t. nb_terminators b = [t]")
    case True
    then obtain t where t: "nb_terminators b = [t]" by blast
    have mid: "edges_in ?n (edges @ map bare (terminator_edges bi (lift_terminator t)))"
      if "terminator_ok (lift_function f) vals bi (lift_terminator t)"
      using that Cons.prems(3) bi by (cases t) (auto simp: edges_in_def edge_ok_def bare_def)
    have go: "gives ?J (\<lambda>er. if ce_exhausted er then ((False, cs, es), er) else pack4 (native_verify_blocks key f bs vals sigs cs es er))
        ?ok (True, cs @ ?cs, es @ ?es)" if "edges_in ?n es" for es
      by (rule gives_guard [OF next' [OF c that]]) (use c that in auto)
    have "gives ?J (\<lambda>er. let (es, er) = native_verify_terminator key bi f t vals edges er in
        if ce_exhausted er then ((False, cs, es), er) else pack4 (native_verify_blocks key f bs vals sigs cs es er))
        (terminator_ok (lift_function f) vals bi (lift_terminator t) \<and> ?ok)
        (True, cs @ ?cs, (edges @ map bare (terminator_edges bi (lift_terminator t))) @ ?es)"
      by (rule gives_let [OF native_verify_terminator_gives [OF Cons.prems(3) bi(1)]]) (use go mid in blast)+
    then show ?thesis using t by (simp add: block_graph_def Let_def cong: if_cong)
  next
    case False
    from native_skip [OF False, where g = "\<lambda>t er. let (edges, er) = native_verify_terminator key bi f t vals edges er
                 in if ce_exhausted er then (False, cs, edges, er) else native_verify_blocks key f bs vals sigs cs edges er"
        and h = "native_verify_blocks key f bs vals sigs cs edges" and D = "\<lambda>ts. native_error ''ZRYNA-N2106''
                     (''block #'' @ show_nat bi @ '' has '' @ show_nat (length ts) @ '' terminators; expected exactly one'')
                     ''emit exactly one return, jump, or branch''"]
    obtain d where d: "\<And>er. ?step cs er = native_verify_blocks key f bs vals sigs cs edges (native_push d er)" by blast
    have "gives ?J (\<lambda>er. pack4 (native_verify_blocks key f bs vals sigs cs edges (native_push d er))) (False \<and> ?ok) (True, cs @ ?cs, edges @ ?es)"
      by (rule yields_seq [OF checks_native_push next' [OF c Cons.prems(3)]])
    then show ?thesis unfolding d by (rule yields_cong) (use False in auto)
  qed
  have rest: "gives ?J (\<lambda>er. pack4 (?rest cs er))
      ((\<exists>t. nb_terminators b = [t] \<and> terminator_ok (lift_function f) vals bi (lift_terminator t)) \<and> ?ok)
      (True, cs @ ?cs, edges @ map bare (block_graph (bi, lift_block b)) @ ?es)" if c: "calls_in sigs cs" for cs
    unfolding pack4_simps(2)
  proof (cases "nb_instructions b = []")
    case True
    then show "gives ?J (\<lambda>er. if ce_exhausted er \<and> nb_instructions b \<noteq> [] then pack4 (False, cs, edges, er) else pack4 (?step cs er))
      ((\<exists>t. nb_terminators b = [t] \<and> terminator_ok (lift_function f) vals bi (lift_terminator t)) \<and> ?ok)
      (True, cs @ ?cs, edges @ map bare (block_graph (bi, lift_block b)) @ ?es)"
      using step [OF c] by (simp only: simp_thms if_False)
  next
    case False
    from gives_guard [OF step [OF c], of "(False, cs, edges)"] False c Cons.prems(3)
    show "gives ?J (\<lambda>er. if ce_exhausted er \<and> nb_instructions b \<noteq> [] then pack4 (False, cs, edges, er) else pack4 (?step cs er))
      ((\<exists>t. nb_terminators b = [t] \<and> terminator_ok (lift_function f) vals bi (lift_terminator t)) \<and> ?ok)
      (True, cs @ ?cs, edges @ map bare (block_graph (bi, lift_block b)) @ ?es)"
      by (simp only: simp_thms pack4_simps(1) split)
  qed
  let ?ins = "enumerate 0 (nb_instructions b)"
  note one = native_verify_instructions_gives [OF k Cons.prems(2), of bi ?ins vals]
  have J: "calls_in sigs (calls @ concat (map (\<lambda>x. instruction_calls key (lift_instruction (snd x))) ?ins))"
    if "\<forall>(position, ins)\<in>set ?ins. instruction_ok sigs vals bi position (lift_instruction ins)"
    using one that clean_no_errors unfolding yields_def by metis
  have calls: "concat (map (\<lambda>x. instruction_calls key (lift_instruction (snd x))) ?ins) = block_call_edges key (bi, lift_block b)"
  proof -
    have "map (\<lambda>x. instruction_calls key (lift_instruction (snd x))) ?ins = map (\<lambda>i. instruction_calls key (lift_instruction i)) (map snd ?ins)"
      unfolding map_map comp_def ..
    then show ?thesis unfolding map_snd_enumerate by (simp add: block_call_edges_def comp_def)
  qed
  have "gives ?J (\<lambda>er. let (cs, er) = native_verify_instructions key bi ?ins vals sigs calls er in pack4 (?rest cs er))
      ((\<forall>(position, ins)\<in>set ?ins. instruction_ok sigs vals bi position (lift_instruction ins)) \<and>
       ((\<exists>t. nb_terminators b = [t] \<and> terminator_ok (lift_function f) vals bi (lift_terminator t)) \<and> ?ok))
      (True, (calls @ concat (map (\<lambda>x. instruction_calls key (lift_instruction (snd x))) ?ins)) @ ?cs,
       edges @ map bare (block_graph (bi, lift_block b)) @ ?es)"
    by (rule gives_let [OF one]) (use rest J in blast)+
  then have "gives ?J (\<lambda>er. pack4 (native_verify_blocks key f (x # bs) vals sigs calls edges er))
      ((\<forall>(position, ins)\<in>set ?ins. instruction_ok sigs vals bi position (lift_instruction ins)) \<and>
       ((\<exists>t. nb_terminators b = [t] \<and> terminator_ok (lift_function f) vals bi (lift_terminator t)) \<and> ?ok))
      (True, (calls @ concat (map (\<lambda>x. instruction_calls key (lift_instruction (snd x))) ?ins)) @ ?cs,
       edges @ map bare (block_graph (bi, lift_block b)) @ ?es)"
    unfolding x native_verify_blocks.simps Let_def pack4_simps .
  note all = this
  have blk: "block_ok sigs (lift_function f) vals bi (lift_block b) \<longleftrightarrow>
      (\<forall>(position, ins)\<in>set ?ins. instruction_ok sigs vals bi position (lift_instruction ins)) \<and>
      (\<exists>t. nb_terminators b = [t] \<and> terminator_ok (lift_function f) vals bi (lift_terminator t))"
    unfolding block_ok_def ball_enumerate_nth lift_simps single_map by simp
  show ?case
  proof (rule yields_cong [OF all])
    show "((\<forall>(position, ins)\<in>set ?ins. instruction_ok sigs vals bi position (lift_instruction ins)) \<and>
       ((\<exists>t. nb_terminators b = [t] \<and> terminator_ok (lift_function f) vals bi (lift_terminator t)) \<and> ?ok)) =
      (\<forall>(bi, b)\<in>set (x # bs). block_ok sigs (lift_function f) vals bi (lift_block b))"
      unfolding x list.set ball_simps split blk by blast
  qed (simp add: x calls)
qed

section \<open>The graph of a function\<close>

lemma steps_check_all:
  assumes "\<And>x. x \<in> set xs \<Longrightarrow> steps (f x) (P x)"
  shows "steps (check_all f xs) (\<forall>x\<in>set xs. P x)"
  using assms
proof (induction xs)
  case Nil
  then show ?case by (simp add: steps_def)
next
  case (Cons x xs)
  have "steps (\<lambda>er. Option.bind (f x er) (check_all f xs)) (P x \<and> (\<forall>x\<in>set xs. P x))"
    by (rule steps_bind) (use Cons in auto)
  then show ?case by (simp add: steps_def)
qed

lemma native_uses:
  "(\<forall>(v, bi, position, sp)\<in>set (concat (map block_uses (enumerate 0 (map lift_block bs)))). A v bi position) \<longleftrightarrow>
   (\<forall>(v, bi, position)\<in>set (concat (map native_block_uses (enumerate 0 bs))). A v bi position)"
proof -
  have one: "map (\<lambda>(v, bi, position, sp). (v, bi, position)) (block_uses (bi, lift_block b)) = native_block_uses (bi, b)" for bi b
  proof (cases "\<exists>t. nb_terminators b = [t]")
    case True
    then show ?thesis
      by (auto simp: block_uses_def native_block_uses_def enumerate_map map_concat comp_def case_prod_unfold)
  next
    case False
    then have "(case nb_terminators b of [t] \<Rightarrow> g t | _ \<Rightarrow> []) = []" for g :: "native_terminator \<Rightarrow> (u32 \<times> usize \<times> usize) list"
      by (auto split: list.splits)
    moreover have "(case bk_terminators (lift_block b) of [t] \<Rightarrow> g t | _ \<Rightarrow> []) = []" for g :: "spanned_terminator \<Rightarrow> (u32 \<times> usize \<times> usize \<times> span) list"
      using False by (auto split: list.splits)
    ultimately show ?thesis
      by (simp add: block_uses_def native_block_uses_def enumerate_map map_concat comp_def case_prod_unfold del: lift_simps(8))
  qed
  have "map (\<lambda>(v, bi, position, sp). (v, bi, position)) (block_uses (apsnd lift_block x)) = native_block_uses x" for x
    using one by (cases x) simp
  then have "map (\<lambda>(v, bi, position, sp). (v, bi, position)) (concat (map block_uses (enumerate 0 (map lift_block bs)))) =
      concat (map native_block_uses (enumerate 0 bs))"
    by (simp add: map_concat enumerate_map comp_def)
  from arg_cong [OF this, of set, symmetric] show ?thesis by (force simp del: set_concat)
qed

lemma native_verify_loops_steps:
  assumes e: "edges_in n edges" and succs: "succs = edge_graph n edges"
    and d: "\<forall>e\<in>set edges. dominates_at entry exits (eg_target e) (eg_source e) = Some (back_edge succs e)"
  shows "steps (native_verify_loops key n (map sort (edge_preds n edges)) entry exits edges)
    (reducible succs edges \<and> loops_nested succs (back_edge succs) edges MAX_LOOP_NESTING)"
proof -
  obtain s seen k where s: "classify_edges (map sort (edge_preds n edges)) entry exits n edges
      \<lparr>ls_loops = [], ls_forward = replicate n [], ls_indegree = replicate n 0\<rparr> = Some s"
      "forward_loop (ls_forward s) (zero_indices (ls_indegree s)) (ls_indegree s) 0 = Some seen"
      "seen = n \<longleftrightarrow> reducible succs edges" "maximum_nesting n (ls_loops s) = Some k"
      "k \<le> MAX_LOOP_NESTING \<longleftrightarrow> loops_nested succs (back_edge succs) edges MAX_LOOP_NESTING"
    using loops_computed [OF e succs d] by blast
  have lim: "checks (\<lambda>er. if MAX_LOOP_NESTING < k then native_limit l MAX_LOOP_NESTING er else er) (k \<le> MAX_LOOP_NESTING)" for l
    using checks_native_limit checks_id by (cases "MAX_LOOP_NESTING < k") (auto simp: not_less)
  have "steps (\<lambda>er. let er = native_push_when (seen \<noteq> n) x er in Option.bind (maximum_nesting n (ls_loops s)) (\<lambda>nesting.
      Some (if MAX_LOOP_NESTING < nesting then native_limit l MAX_LOOP_NESTING er else er)))
      (\<not> seen \<noteq> n \<and> k \<le> MAX_LOOP_NESTING)" for x l
    unfolding Let_def s(4) Option.bind.simps by (intro steps_seq [OF checks_native_when] steps_checks lim)
  then have "steps (native_verify_loops key n (map sort (edge_preds n edges)) entry exits edges) (\<not> seen \<noteq> n \<and> k \<le> MAX_LOOP_NESTING)"
    unfolding native_verify_loops_def [abs_def] s(1) Option.bind.simps s(2) .
  then show ?thesis by (rule steps_cong) (use s(3,5) in auto)
qed

lemma native_verify_dominance_steps:
  assumes t: "table_ok n limit vals"
    and d: "\<forall>a<n. \<forall>b<n. dominates_at entry exits a b = Some (dominator succs a b)" and b: "use_block < n"
  shows "steps (native_verify_dominance vals entry exits (v, use_block, use_position)) (available vals succs use_block use_position v)"
proof (cases "lookup_value v vals")
  case None
  then show ?thesis by (simp add: native_verify_dominance_def available_def steps_def)
next
  case (Some info)
  then have "location_in n (vin_location info)" using t by (auto simp: table_ok_def lookup_value_def get_at_Some_iff)
  then obtain valid where valid: "(case vin_location info of
                 AtParameter \<Rightarrow> Some True
               | AtBlockParameter b \<Rightarrow> dominates_at entry exits b use_block
               | AtInstruction b position \<Rightarrow>
                   if b = use_block then Some (position < use_position) else dominates_at entry exits b use_block) = Some valid"
      "valid = available vals succs use_block use_position v"
    using d b Some by (auto simp: location_in_def available_def split: definition_location.splits)
  have "steps (\<lambda>er. Some (native_push_when (\<not> valid) x er)) (\<not> \<not> valid)" for x
    by (intro steps_checks checks_native_when)
  then show ?thesis using valid Some by (simp add: native_verify_dominance_def)
qed

lemma native_verify_reachable_steps:
  assumes e: "edges_in n edges" and succs: "succs = edge_graph n edges" and b: "b < n" "b \<noteq> 0"
    and r: "length reached = n" "\<forall>b<n. reached ! b \<longleftrightarrow> reachable_block succs b"
  shows "steps (native_verify_reachable key (map sort (edge_preds n edges)) reached b) (reachable_block succs b)"
proof -
  have g: "get_at (map sort (edge_preds n edges)) b = Some (sort (edge_preds n edges ! b))" "get_at reached b = Some (reached ! b)"
    using b r by (simp_all add: get_at_def)
  have "steps (\<lambda>er. Some (native_push_when (sort (edge_preds n edges ! b) = [] \<or> \<not> reached ! b) x er))
      (\<not> (sort (edge_preds n edges ! b) = [] \<or> \<not> reached ! b))" for x
    by (intro steps_checks checks_native_when)
  then have "steps (native_verify_reachable key (map sort (edge_preds n edges)) reached b) (\<not> (sort (edge_preds n edges ! b) = [] \<or> \<not> reached ! b))"
    unfolding native_verify_reachable_def [abs_def] g Option.bind.simps .
  then show ?thesis by (rule steps_cong) (use reachable_has_pred [OF e succs b] r b in \<open>auto simp: sort_Nil_iff\<close>)
qed

lemma native_verify_cfg_steps:
  assumes e: "edges_in (length (nf_blocks f)) edges" and t: "table_ok (length (nf_blocks f)) limit vals"
    and n: "nf_blocks f \<noteq> []" "length (nf_blocks f) \<le> usize_max"
  shows "steps (native_verify_cfg key f vals edges) (cfg_ok (lift_function f) vals edges)"
proof -
  let ?n = "length (nf_blocks f)" and ?uses = "concat (map native_block_uses (enumerate 0 (nf_blocks f)))"
  define succs where "succs = edge_graph ?n edges"
  have len: "length succs = ?n" by (simp add: succs_def)
  have ne: "map sort succs \<noteq> []" using n(1) len by auto
  have g: "wf_graph (map sort succs)" using edge_graph_wf [OF e] by (simp add: succs_def)
  obtain reached where r: "reachable_from_entry (map sort succs) = Some reached" "length reached = ?n"
      "\<forall>b<?n. reached ! b \<longleftrightarrow> reachable_block succs b"
    using reachable_from_entry_spec [OF g ne] len by auto
  have reach: "steps (check_all (native_verify_reachable key (map sort (edge_preds ?n edges)) reached) [1..<?n])
      (\<forall>b\<in>set [1..<?n]. reachable_block succs b)"
    by (rule steps_check_all) (use native_verify_reachable_steps [OF e succs_def _ _ r(2,3)] in auto)
  have all: "(\<forall>b\<in>set [1..<?n]. reachable_block succs b) \<longleftrightarrow> (\<forall>b<?n. reachable_block succs b)"
  proof -
    have "reachable_block succs 0" by (simp add: reachable_block_def)
    then show ?thesis by (auto simp: less_Suc_eq_le Suc_le_eq)
  qed
  let ?rest = "\<lambda>er. if list_ex Not reached then Some er
               else
                 Option.bind (immediate_dominators (map sort succs) (map sort (edge_preds ?n edges))) (\<lambda>found.
                 case found of
                   None \<Rightarrow>
                     Some (native_push (native_error ''ZRYNA-N2110'' ''failed to construct deterministic dominators''
                       ''provide one reachable reducible CFG'') er)
                 | Some idom \<Rightarrow>
                     Option.bind (dominator_intervals idom) (\<lambda>(entry, exits).
                     Option.bind (check_all (native_verify_dominance vals entry exits) ?uses er) (\<lambda>er.
                     native_verify_loops key ?n (map sort (edge_preds ?n edges)) entry exits edges er)))"
  let ?Q = "(\<forall>x\<in>set ?uses. (\<lambda>(v, bi, position). available vals succs bi position v) x) \<and>
         reducible succs edges \<and> loops_nested succs (back_edge succs) edges MAX_LOOP_NESTING"
  have ex: "list_ex Not reached \<longleftrightarrow> \<not> (\<forall>b<?n. reachable_block succs b)"
    unfolding list_ex_length r(2) using r(3) by blast
  have rest: "steps ?rest ?Q" if a: "\<forall>b<?n. reachable_block succs b"
  proof -
    obtain idom entry exits where d: "immediate_dominators (map sort succs) (map sort (edge_preds ?n edges)) = Some (Some idom)"
        "dominator_intervals idom = Some (entry, exits)" "length entry = ?n" "length exits = ?n"
        "\<forall>a<?n. \<forall>b<?n. dominates entry exits a b \<longleftrightarrow> dominator succs a b"
      using dominators_computed [OF g ne _ _ edge_preds_converse [OF e, folded succs_def]] a n(2) len by auto
    have da: "\<forall>a<?n. \<forall>b<?n. dominates_at entry exits a b = Some (dominator succs a b)"
      using d(3,4,5) by (simp add: dominates_at_def)
    have ub: "\<forall>(v, bi, position)\<in>set ?uses. bi < ?n"
      by (auto simp: native_block_uses_def in_set_enumerate_eq split: list.splits)
    have used: "steps (check_all (native_verify_dominance vals entry exits) ?uses)
        (\<forall>x\<in>set ?uses. (\<lambda>(v, bi, position). available vals succs bi position v) x)"
      by (rule steps_check_all) (use native_verify_dominance_steps [OF t da] ub in \<open>fastforce\<close>)
    have bk: "\<forall>x\<in>set edges. dominates_at entry exits (eg_target x) (eg_source x) = Some (back_edge succs x)"
      using da e by (auto simp: edges_in_def back_edge_def)
    have "steps (\<lambda>er. Option.bind (check_all (native_verify_dominance vals entry exits) ?uses er) (\<lambda>er.
                     native_verify_loops key ?n (map sort (edge_preds ?n edges)) entry exits edges er)) ?Q"
      by (rule steps_bind [OF used]) (use native_verify_loops_steps [OF e succs_def bk] in blast)+
    then show ?thesis using d(1,2) ex a by simp
  qed
  have stop: "steps ?rest True" if "\<not> (\<forall>b<?n. reachable_block succs b)"
    using that ex by (simp add: steps_def)
  have "steps (\<lambda>er. Option.bind (check_all (native_verify_reachable key (map sort (edge_preds ?n edges)) reached) [1..<?n] er) ?rest)
      ((\<forall>b\<in>set [1..<?n]. reachable_block succs b) \<and> ?Q)"
    by (rule steps_bind [OF reach]) (use rest stop all in blast)+
  then have "steps (native_verify_cfg key f vals edges) ((\<forall>b\<in>set [1..<?n]. reachable_block succs b) \<and> ?Q)"
    using graph_edges_start [OF e] r(1) n(1) by (simp add: native_verify_cfg_def [abs_def] Let_def succs_def cong: if_cong)
  then show ?thesis
    by (rule steps_cong) (use all native_uses [of "nf_blocks f" "\<lambda>v bi position. available vals succs bi position v"]
      in \<open>simp add: cfg_ok_def Let_def succs_def\<close>)
qed

lemma bare_simps [simp]: "eg_source (bare e) = eg_source e" "eg_target (bare e) = eg_target e"
  by (simp_all add: bare_def)

lemma cfg_ok_bare: "cfg_ok f vals (map bare edges) = cfg_ok f vals edges"
proof -
  have g: "edge_graph n (map bare edges) = edge_graph n edges" for n
    by (simp add: edge_graph_def filter_map comp_def)
  have b: "back_edge succs (bare e) = back_edge succs e" for succs e by (simp add: back_edge_def)
  have r: "reducible succs (map bare edges) = reducible succs edges" for succs
  proof -
    have "{(eg_source e, eg_target e) | e. e \<in> set es \<and> \<not> back_edge succs e} =
        (\<lambda>e. (eg_source e, eg_target e)) ` Set.filter (\<lambda>e. \<not> back_edge succs e) (set es)" for es by auto
    moreover have "Set.filter (\<lambda>e. \<not> back_edge succs e) (set (map bare edges)) = bare ` Set.filter (\<lambda>e. \<not> back_edge succs e) (set edges)"
      by (auto simp: b)
    ultimately show ?thesis by (simp only: reducible_def image_image bare_simps)
  qed
  have "loop_headers (back_edge succs) (map bare edges) = loop_headers (back_edge succs) edges"
    "natural_loop succs (back_edge succs) (map bare edges) h = natural_loop succs (back_edge succs) edges h" for succs h
    by (auto simp: loop_headers_def natural_loop_def b)
  then show ?thesis by (simp add: cfg_ok_def g r loops_nested_def)
qed

section \<open>Functions\<close>

lemma lift_tables:
  "function_definitions (lift_function f) =
    map lift_definition_at (map (\<lambda>d. (d, AtParameter)) (nf_parameters f)) @ block_table (map (apsnd lift_block) (enumerate 0 (nf_blocks f)))"
  "function_edges (lift_function f) = concat (map block_graph (map (apsnd lift_block) (enumerate 0 (nf_blocks f))))"
  "function_calls key (lift_function f) = concat (map (block_call_edges key) (map (apsnd lift_block) (enumerate 0 (nf_blocks f))))"
  by (simp_all add: function_definitions_def function_edges_def function_calls_def enumerate_map lift_definition_at_def comp_def)

lemma native_function_limits:
  assumes "native_function_within f"
  shows "length (nf_blocks f) \<le> 4096" "length (nf_parameters f) \<le> 256"
    "length (nf_parameters f) + sum_list (map (\<lambda>b. block_values (lift_block b)) (nf_blocks f)) \<le> 16384"
  using assms by (simp_all add: native_function_within_def native_limit_defs function_totals_within_def fold_count_block
      count_start_def block_values_def)

lemma native_verify_function_yields:
  assumes lim: "native_function_within f" and k: "calls_in sigs [(key, key)]" and c: "calls_in sigs calls"
  shows "yields (calls_in sigs) (native_verify_function key f sigs calls) (body_ok sigs (lift_function f))
    (calls @ function_calls key (lift_function f))"
proof (cases "nf_blocks f = []")
  case True
  have "checks (\<lambda>er. native_push d (native_validate_type (nf_result f) ''function result'' er)) (nf_result f \<noteq> TyUnit \<and> False)" for d
    by (rule checks_seq [OF checks_native_type checks_native_push])
  then have "yields (calls_in sigs) (native_verify_function key f sigs calls) (nf_result f \<noteq> TyUnit \<and> False) calls"
    using yields_checks [of _ _ "calls_in sigs" calls] c True by (simp add: native_verify_function_def [abs_def] Let_def)
  then show ?thesis by (rule yields_cong) (use True in \<open>auto simp: body_ok_def\<close>)
next
  case False
  let ?g = "lift_function f" and ?n = "length (nf_blocks f)" and ?bs = "enumerate 0 (nf_blocks f)"
  let ?ps = "map (\<lambda>d. (d, AtParameter)) (nf_parameters f)" let ?cs = "map (apsnd lift_block) ?bs"
  let ?J = "\<lambda>(_ :: bool, cs, es). calls_in sigs cs \<and> edges_in ?n es"
  let ?dp = "map lift_definition_at ?ps"
  note n = native_function_limits [OF lim]
  have blocks: "\<forall>x\<in>set ?bs. fst x < ?n \<and> nf_blocks f ! fst x = snd x" by (auto simp: in_set_enumerate_eq)
  define rest3 :: "value_info list \<Rightarrow> bool \<times> call_edges \<times> edge list \<Rightarrow> check_errors \<Rightarrow> (call_edges \<times> check_errors) option"
    where "rest3 = (\<lambda>vals (finished, cs, es) er. if \<not> finished then Some (cs, er) else map_option (Pair cs) (native_verify_cfg key f vals es er))"
  have cfg: "yields (calls_in sigs) (rest3 vals (True, cs, es)) (cfg_ok ?g vals es) cs"
    if "calls_in sigs cs" "edges_in ?n es" "table_ok ?n limit vals" for cs es vals limit
    unfolding rest3_def split not_True_eq_False if_False
    by (intro yields_steps native_verify_cfg_steps [OF that(2,3)] that(1)) (use n(1) False in \<open>auto simp: usize_max_def\<close>)
  have stop: "yields (calls_in sigs) (rest3 vals (False, cs, es)) True cs" if "calls_in sigs cs" for cs es vals
    using that by (simp add: rest3_def yields_def)
  define rest2 where "rest2 = (\<lambda>vals er. if ce_exhausted er then Some (calls, er) else
      let (finished, calls, edges, er) = native_verify_blocks key f ?bs vals sigs calls [] er
      in if \<not> finished then Some (calls, er) else map_option (Pair calls) (native_verify_cfg key f vals edges er))"
  let ?B = "\<lambda>vals. \<forall>(bi, b)\<in>set ?bs. block_ok sigs ?g vals bi (lift_block b)"
  have r2: "yields (calls_in sigs) (rest2 vals) (?B vals \<and> cfg_ok ?g vals (function_edges ?g)) (calls @ function_calls key ?g)"
    if t: "table_ok ?n limit vals" for vals limit
  proof -
    have e0: "edges_in ?n []" by (simp add: edges_in_def)
    note b = native_verify_blocks_gives [OF k blocks c e0, of vals, folded lift_tables]
    have J: "?J (True, calls @ function_calls key ?g, [] @ map bare (function_edges ?g))" if "?B vals"
      using b that clean_no_errors unfolding yields_def by metis
    have "yields (calls_in sigs) (\<lambda>er. Option.bind (Some (pack4 (native_verify_blocks key f ?bs vals sigs calls [] er))) (\<lambda>(a, er). rest3 vals a er))
        (?B vals \<and> cfg_ok ?g vals (function_edges ?g)) (calls @ function_calls key ?g)"
    proof (rule yields_bind [OF b])
      show "yields (calls_in sigs) (rest3 vals (True, calls @ function_calls key ?g, [] @ map bare (function_edges ?g)))
          (cfg_ok ?g vals (function_edges ?g)) (calls @ function_calls key ?g)" if "?B vals"
        using J [OF that] cfg [OF _ _ t, of "calls @ function_calls key ?g" "map bare (function_edges ?g)"] by (simp add: cfg_ok_bare)
      fix a assume "?J a"
      then show "\<exists>R x. yields (calls_in sigs) (rest3 vals a) R x"
        using cfg [OF _ _ t] stop by (cases a; cases "fst a") (force+)
    qed
    note all = yields_guard [OF this c]
    have "rest2 vals = (\<lambda>er. if ce_exhausted er then Some (calls, er) else
        Option.bind (Some (pack4 (native_verify_blocks key f ?bs vals sigs calls [] er))) (\<lambda>(a, er). rest3 vals a er))"
      unfolding rest2_def rest3_def by (auto simp: fun_eq_iff pack4_def split: prod.splits)
    then show ?thesis using all by simp
  qed
  let ?P = "\<lambda>vals. ((\<forall>x\<in>set ?bs. nb_id (snd x) = of_nat (fst x) \<and> (fst x = 0 \<longrightarrow> nb_parameters (snd x) = [])) \<and>
       definitions_ok (length vals) (block_table ?cs)) \<and>
      ?B (vals @ map definition_info (block_table ?cs)) \<and> cfg_ok ?g (vals @ map definition_info (block_table ?cs)) (function_edges ?g)"
  have vsum: "sum_list (map (\<lambda>x. block_values (lift_block (snd x))) ?bs) = sum_list (map (\<lambda>b. block_values (lift_block b)) (nf_blocks f))"
    by (metis (no_types, lifting) map_map comp_def map_snd_enumerate map_eq_conv)
  have locs: "\<forall>d\<in>set (block_table ?cs). location_in ?n (snd d)"
    using block_definitions_facts(2) blocks by (fastforce simp: block_table_def)
  have r1: "yields (calls_in sigs) (\<lambda>er. Option.bind (native_define_blocks ?bs vals er) (\<lambda>(vals, er). rest2 vals er))
      (?P vals) (calls @ function_calls key ?g)" if t: "table_ok ?n (length (nf_parameters f)) vals" for vals
  proof (rule yields_bind)
    show "yields (table_ok ?n (length (nf_parameters f) + sum_list (map (\<lambda>x. block_values (lift_block (snd x))) ?bs))) (native_define_blocks ?bs vals)
      ((\<forall>x\<in>set ?bs. nb_id (snd x) = of_nat (fst x) \<and> (fst x = 0 \<longrightarrow> nb_parameters (snd x) = [])) \<and> definitions_ok (length vals) (block_table ?cs))
      (vals @ map definition_info (block_table ?cs))"
      by (rule native_define_blocks_yields [OF t]) (use n blocks vsum in auto)
  qed (use r2 table_ok_append [OF t locs] in blast)+
  have dv: "yields (table_ok ?n (length (nf_parameters f))) (native_define_values ?ps []) (definitions_ok 0 ?dp) (map definition_info ?dp)"
    using native_define_values_yields [of ?n 0 "[]" ?ps] n(2) by (simp add: table_ok_def location_in_def)
  have t0: "table_ok ?n (length (nf_parameters f)) (map definition_info ?dp)"
    by (auto simp: table_ok_def location_in_def definition_info_def lift_definition_at_def)
  have "yields (calls_in sigs) (\<lambda>er. Option.bind (native_define_values ?ps [] er) (\<lambda>(vals, er).
      Option.bind (native_define_blocks ?bs vals er) (\<lambda>(vals, er). rest2 vals er)))
      (definitions_ok 0 ?dp \<and> ?P (map definition_info ?dp)) (calls @ function_calls key ?g)"
    by (rule yields_bind [OF dv]) (use r1 t0 in blast)+
  note all = yields_seq [OF checks_native_type this]
  have "yields (calls_in sigs) (native_verify_function key f sigs calls)
      (nf_result f \<noteq> TyUnit \<and> definitions_ok 0 ?dp \<and> ?P (map definition_info ?dp)) (calls @ function_calls key ?g)"
    unfolding native_verify_function_def [abs_def] Let_def [of "native_validate_type _ _ _"] using all False
    by (simp add: rest2_def)
  then show ?thesis
  proof (rule yields_cong)
    have entry: "(\<forall>x\<in>set ?bs. nb_id (snd x) = of_nat (fst x) \<and> (fst x = 0 \<longrightarrow> nb_parameters (snd x) = [])) \<longleftrightarrow>
        (\<forall>bi<?n. nb_id (nf_blocks f ! bi) = of_nat bi) \<and> nb_parameters (nf_blocks f ! 0) = []"
      using False by (auto simp: ball_enumerate_nth)
    show "(nf_result f \<noteq> TyUnit \<and> definitions_ok 0 ?dp \<and> ?P (map definition_info ?dp)) = body_ok sigs ?g"
      unfolding body_ok_def entry lift_tables value_table_def definitions_ok_append using False
      by (auto simp: ball_enumerate_nth)
  qed simp
qed

section \<open>Programs\<close>

lemma native_verify_functions_yields:
  "\<forall>(key, f)\<in>set fs. native_function_within f \<and> calls_in sigs [(key, key)] \<Longrightarrow> calls_in sigs calls \<Longrightarrow>
    yields (calls_in sigs) (native_verify_functions fs sigs calls) (\<forall>(key, f)\<in>set fs. body_ok sigs (lift_function f))
      (calls @ concat (map (\<lambda>(key, f). function_calls key (lift_function f)) fs))"
proof (induction fs arbitrary: calls)
  case Nil
  then show ?case by (simp add: yields_def)
next
  case (Cons x fs)
  obtain key f where x: "x = (key, f)" by force
  let ?next = "\<lambda>cs. cs @ concat (map (\<lambda>(key, f). function_calls key (lift_function f)) fs)" and ?g = "lift_function f"
  have k: "native_function_within f" "calls_in sigs [(key, key)]" using Cons.prems(1) x by auto
  note one = native_verify_function_yields [OF k Cons.prems(2)]
  have next': "yields (calls_in sigs) (native_verify_functions fs sigs cs) (\<forall>(key, f)\<in>set fs. body_ok sigs (lift_function f)) (?next cs)"
    if "calls_in sigs cs" for cs
    using Cons.IH [OF _ that] Cons.prems(1) by simp
  have J: "calls_in sigs (calls @ function_calls key ?g)" if "body_ok sigs ?g"
    using one that clean_no_errors unfolding yields_def by metis
  have rest: "yields (calls_in sigs) (\<lambda>er. if ce_exhausted er then Some (cs, er) else native_verify_functions fs sigs cs er)
      (\<forall>(key, f)\<in>set fs. body_ok sigs (lift_function f)) (?next cs)" if "calls_in sigs cs" for cs
    using yields_guard [OF next' [OF that] that] .
  have "yields (calls_in sigs) (\<lambda>er. Option.bind (native_verify_function key f sigs calls er)
        (\<lambda>(cs, er). if ce_exhausted er then Some (cs, er) else native_verify_functions fs sigs cs er))
      (body_ok sigs ?g \<and> (\<forall>(key, f)\<in>set fs. body_ok sigs (lift_function f))) (?next (calls @ function_calls key ?g))"
    by (rule yields_bind [OF one]) (use rest J in blast)+
  then show ?case using x by simp
qed

lemma native_functions_lift:
  "map (\<lambda>(key, f, file). (key, f)) (program_functions (lift_program p)) = map (apsnd lift_function) (native_functions p)"
  by (simp add: program_functions_def native_functions_def map_concat enumerate_map comp_def case_prod_unfold)

lemma native_calls_lift:
  "concat (map (\<lambda>(key, f). function_calls key (lift_function f)) (native_functions p)) = program_calls (lift_program p)"
proof -
  have "program_calls (lift_program p) =
      concat (map (\<lambda>(key, f). function_calls key f) (map (\<lambda>(key, f, file). (key, f)) (program_functions (lift_program p))))"
    by (simp add: program_calls_def comp_def case_prod_unfold)
  then show ?thesis unfolding native_functions_lift by (simp add: comp_def case_prod_unfold)
qed

lemma native_signatures_lift: "native_signatures p = collect_signatures (lift_program p)"
  by (simp add: native_signatures_def collect_signatures_def comp_def)

lemma native_offsets_lift: "native_function_offsets p = function_offsets (lift_program p)"
proof -
  have "native_offsets_from n ms = offsets_from n (map lift_module ms)" for n ms
    by (induction n ms rule: native_offsets_from.induct) simp_all
  then show ?thesis by (simp add: native_function_offsets_def function_offsets_def)
qed

lemma native_functions_mem:
  "(key, f) \<in> set (native_functions p) \<longleftrightarrow>
    fk_module key < length (np_modules p) \<and> fk_function key < length (nm_functions (np_modules p ! fk_module key)) \<and>
    f = nm_functions (np_modules p ! fk_module key) ! fk_function key"
  by (cases key) (force simp: native_functions_def in_set_enumerate_eq)

lemma native_functions_keys: "(key, f) \<in> set (native_functions p) \<Longrightarrow> calls_in (native_signatures p) [(key, key)]"
  unfolding native_signatures_lift calls_in_keys by (auto simp: native_functions_mem key_in_def)

lemma native_functions_within: "native_within_limits p \<Longrightarrow> (key, f) \<in> set (native_functions p) \<Longrightarrow> native_function_within f"
  unfolding native_within_limits_def native_functions_mem by (metis nth_mem)

lemma native_verify_call_graph_steps:
  assumes "calls_in (native_signatures p) calls"
  shows "steps (native_verify_call_graph p calls) (calls_bounded calls)"
proof -
  let ?n = "function_count (fp_modules (lift_program p))"
  obtain succs indegree depth seen where c:
      "call_graph (function_offsets (lift_program p)) calls (replicate ?n []) (replicate ?n 0) = Some (succs, indegree)"
      "call_loop succs (zero_indices indegree) (replicate ?n 1) indegree 0 = Some (depth, seen)"
      "seen = ?n \<and> foldr max depth 0 \<le> MAX_STATIC_CALL_DEPTH \<longleftrightarrow> calls_bounded calls"
    by (rule call_graph_computed [OF assms [unfolded native_signatures_lift calls_in_keys]])
  have "checks (\<lambda>er. if seen \<noteq> ?n then native_push x er else if MAX_STATIC_CALL_DEPTH < foldr max depth 0 then native_limit y MAX_STATIC_CALL_DEPTH er else er)
      (calls_bounded calls)" for x y
    unfolding c(3) [symmetric] using checks_native_push [of x] checks_native_limit [of y MAX_STATIC_CALL_DEPTH] checks_id
    by (cases "seen = ?n"; cases "MAX_STATIC_CALL_DEPTH < foldr max depth 0") (auto simp: not_less)
  from steps_checks [OF this] show ?thesis
    unfolding native_verify_call_graph_def [abs_def] Let_def native_offsets_lift function_offsets_last c(1) c(2) Option.bind.simps split
    by simp
qed

section \<open>The public ABI\<close>

lemma native_exports_lift: "native_entry_exports fs n = entry_exports (map lift_function fs) n"
  by (induction fs arbitrary: n)
    (simp_all add: native_export_def flow_export_def comp_def split: option.splits)

lemma check_each_fails:
  assumes "vs \<noteq> []" "\<And>v. checks (f v) False"
  shows "checks (check_each f vs) False"
proof -
  have "checks (check_each f vs) (\<forall>v\<in>set vs. False)" by (rule checks_each) (rule assms(2))
  then show ?thesis by (rule checks_cong) (use assms(1) in auto)
qed

lemma checks_native_abi_report: "checks (native_abi_report v) False"
proof -
  obtain d where "native_abi_report v = native_push d \<or> native_abi_report v = native_limit ''public ABI'' MAX_ABI_EXPORTS"
    by (cases "av_kind v") (auto simp: native_abi_report_def [abs_def] Let_def)
  then show ?thesis using checks_native_push checks_native_limit by metis
qed

lemma native_abi_exports:
  "(case get_at (np_modules p) (unat (np_entry_module p)) of
      None \<Rightarrow> ([], map (\<lambda>m. replicate (length (nm_functions m)) None) (np_modules p))
    | Some m \<Rightarrow> (let (es, is) = native_entry_exports (nm_functions m) 0
       in (es, (map (\<lambda>m. replicate (length (nm_functions m)) None) (np_modules p))[unat (np_entry_module p) := is])))
   = (public_exports (lift_program p), export_rows (lift_program p))"
  by (auto simp: public_exports_def export_rows_def get_at_def Let_def case_prod_unfold native_exports_lift comp_def)

lemma native_verify_public_abi_cases:
  assumes b: "bounded_errors er"
  obtains abi er' where "native_verify_public_abi p er = ((abi, export_rows (lift_program p)), er')" "bounded_errors er'"
    "clean er' \<longleftrightarrow> clean er \<and> abi_ok (public_exports (lift_program p))"
    "clean er' \<Longrightarrow> \<exists>m. abi = Some m \<and> verify_v1 (public_exports (lift_program p)) = Inr m"
proof (cases "verify_v1 (public_exports (lift_program p))")
  case (Inl vs)
  then have "vs \<noteq> []" "\<not> abi_ok (public_exports (lift_program p))"
    using verify_v1_rejects [OF Inl] verify_v1_accepts [of "public_exports (lift_program p)"] by auto
  then have c: "bounded_errors (check_each native_abi_report vs er)" "\<not> clean (check_each native_abi_report vs er)"
    using check_each_fails [of vs native_abi_report] checks_native_abi_report b by (auto simp: checks_def)
  show thesis
    by (rule that [of None "check_each native_abi_report vs er"])
      (use Inl c \<open>\<not> abi_ok _\<close> in \<open>simp_all add: native_verify_public_abi_def Let_def native_abi_exports\<close>)
next
  case (Inr m)
  then have "abi_ok (public_exports (lift_program p))" using verify_v1_accepts by blast
  then show thesis
    by (intro that [of "Some m" er]) (use Inr b in \<open>simp_all add: native_verify_public_abi_def Let_def native_abi_exports\<close>)
qed

lemma native_verify_total:
  "\<exists>r. native_verify p = Some r \<and>
    (case r of
       Inl ds \<Rightarrow> \<not> native_ok p \<and> 0 < length ds \<and> length ds \<le> MAX_NATIVE_DIAGNOSTICS
     | Inr v \<Rightarrow> native_ok p \<and> vnp_program v = p \<and> vnp_abi_indices v = export_rows (lift_program p) \<and>
         verify_v1 (public_exports (lift_program p)) = Inr (vnp_abi v))"
proof -
  have diag: "0 < length (ce_diagnostics er) \<and> length (ce_diagnostics er) \<le> MAX_NATIVE_DIAGNOSTICS"
    if "bounded_errors er" "\<not> clean er" for er
    using that by (auto simp: bounded_errors_def clean_def MAX_NATIVE_DIAGNOSTICS_def split: if_splits)
  have p0: "bounded_errors (native_preflight p no_errors)" "clean (native_preflight p no_errors) \<longleftrightarrow> native_within_limits p"
    using checksD [OF native_preflight_exact, of no_errors p] by simp_all
  show ?thesis
  proof (cases "native_within_limits p")
    case False
    then have "\<not> clean (native_preflight p no_errors)" "\<not> errors_is_empty (native_preflight p no_errors)" using p0 clean_iff_empty by auto
    then show ?thesis using diag [OF p0(1)] False by (simp add: native_verify_def Let_def native_ok_def)
  next
    case lim: True
    then have pre: "native_preflight p no_errors = no_errors" using p0(2) clean_unique by blast
    have ms: "length (np_modules p) \<le> 2 ^ 32" "\<forall>m\<in>set (np_modules p). length (nm_functions m) \<le> 2 ^ 32"
      using lim by (auto simp: native_within_limits_def flow_limit_defs)
    obtain er1 where e1: "native_inventory p no_errors = Some er1" "bounded_errors er1" "clean er1 \<longleftrightarrow> native_inventory_ok p"
      using native_inventory_steps [OF ms] unfolding steps_def by (metis clean_no_errors)
    let ?sigs = "native_signatures p" let ?F = "\<forall>(key, f)\<in>set (native_functions p). body_ok ?sigs (lift_function f)"
    have fs: "\<forall>(key, f)\<in>set (native_functions p). native_function_within f \<and> calls_in ?sigs [(key, key)]"
      using native_functions_within [OF lim] native_functions_keys by auto
    have c0: "calls_in ?sigs []" by (simp add: calls_in_def)
    obtain calls er2 where e2: "native_verify_functions (native_functions p) ?sigs [] er1 = Some (calls, er2)" "bounded_errors er2"
        "calls_in ?sigs calls" "clean er2 \<longleftrightarrow> clean er1 \<and> ?F" "clean er2 \<longrightarrow> calls = program_calls (lift_program p)"
      using native_verify_functions_yields [OF fs c0, unfolded yields_def, THEN spec, THEN mp, OF e1(2)]
      unfolding native_calls_lift append_Nil by blast
    obtain er3 where e3: "native_verify_call_graph p calls er2 = Some er3" "bounded_errors er3" "clean er3 \<longleftrightarrow> clean er2 \<and> calls_bounded calls"
      using native_verify_call_graph_steps [OF e2(3)] e2(2) unfolding steps_def by blast
    obtain abi er4 where e4: "native_verify_public_abi p er3 = ((abi, export_rows (lift_program p)), er4)" "bounded_errors er4"
        "clean er4 \<longleftrightarrow> clean er3 \<and> abi_ok (public_exports (lift_program p))"
        "clean er4 \<Longrightarrow> \<exists>m. abi = Some m \<and> verify_v1 (public_exports (lift_program p)) = Inr m"
      using native_verify_public_abi_cases [OF e3(2)] by blast
    have ok: "clean er4 \<longleftrightarrow> native_ok p"
      using e1(3) e2(4,5) e3(3) e4(3) lim by (auto simp: native_ok_def)
    have exh: "\<not> native_ok p \<and> \<not> clean er" if "ce_exhausted er" "er = er1 \<or> er = er2 \<or> er = er3" for er
      using that ok e1(3) e2(4) e3(3) e4(3) exhausted_not_clean by blast
    have start: "errors_is_empty (no_errors)" by (simp add: errors_is_empty_def no_errors_def)
    note eval = native_verify_def Let_def pre start e1(1)
    consider "ce_exhausted er1" | "\<not> ce_exhausted er1" "ce_exhausted er2" | "\<not> ce_exhausted er1" "\<not> ce_exhausted er2" "ce_exhausted er3"
      | "\<not> ce_exhausted er1" "\<not> ce_exhausted er2" "\<not> ce_exhausted er3" by blast
    then show ?thesis
    proof cases
      case 1
      then show ?thesis using exh [of er1] diag [OF e1(2)] by (simp add: eval)
    next
      case 2
      then show ?thesis using exh [of er2] diag [OF e2(2)] by (simp add: eval e2(1))
    next
      case 3
      then show ?thesis using exh [of er3] diag [OF e3(2)] by (simp add: eval e2(1) e3(1))
    next
      case 4
      show ?thesis
      proof (cases "clean er4")
        case True
        then obtain m where "abi = Some m" "verify_v1 (public_exports (lift_program p)) = Inr m" using e4(4) by blast
        then show ?thesis using 4 True ok clean_iff_empty [OF e4(2)] by (simp add: eval e2(1) e3(1) e4(1))
      next
        case False
        then show ?thesis using 4 ok clean_iff_empty [OF e4(2)] diag [OF e4(2)] by (simp add: eval e2(1) e3(1) e4(1))
      qed
    qed
  qed
qed

section \<open>Properties\<close>

text \<open>C39: the native verifier of the control-flow profile never panics and is exact. It accepts exactly the programs within
  every limit whose modules, functions and internal symbols have the canonical names, whose bodies are typed SSA in
  which each use is dominated by its definition and every cycle has one dominating header, whose chains of calls
  are bounded and whose entry exports make a scalar ABI. An accepted program is returned unchanged with its ABI
  and the ABI index of every exported function; a rejection carries between 1 and 256 diagnostics.\<close>

theorem native_verify_exact:
  "\<exists>r. native_verify p = Some r \<and>
    (case r of
       Inl ds \<Rightarrow> \<not> native_ok p \<and> 0 < length ds \<and> length ds \<le> MAX_NATIVE_DIAGNOSTICS
     | Inr v \<Rightarrow> native_ok p \<and> vnp_program v = p \<and> vnp_abi_indices v = export_rows (lift_program p) \<and>
         verify_v1 (public_exports (lift_program p)) = Inr (vnp_abi v))"
  by (rule native_verify_total)

end
