(* ===== verification/Native_Flow_Lowering.thy ===== *)
theory Native_Flow_Lowering
  imports Native_Flow_Facts Control_Flow_Safety
begin

text \<open>
  Lowering from the control-flow IR: a verified program always lowers, the native verifier accepts the result, and
  the result read back is the program with its source positions forgotten, under the same sealed ABI.
\<close>

section \<open>Specification vocabulary\<close>

text \<open>The program with every source position forgotten, and lowering without the look at the sealed exports.\<close>

definition erase_value :: "flow_value \<Rightarrow> flow_value" where
  "erase_value d = d\<lparr>fv_span := blank_span\<rparr>"

definition erase_instruction :: "instruction \<Rightarrow> instruction" where
  "erase_instruction ins = ins\<lparr>is_result := erase_value (is_result ins)\<rparr>"

definition erase_block :: "block \<Rightarrow> block" where
  "erase_block b =
     b\<lparr>bk_parameters := map erase_value (bk_parameters b), bk_instructions := map erase_instruction (bk_instructions b),
       bk_terminators := map (\<lambda>t. t\<lparr>st_span := blank_span\<rparr>) (bk_terminators b)\<rparr>"

definition erase_function :: "flow_function \<Rightarrow> flow_function" where
  "erase_function f =
     f\<lparr>ff_span := blank_span, ff_parameters := map erase_value (ff_parameters f), ff_blocks := map erase_block (ff_blocks f)\<rparr>"

definition erase_module :: "flow_module \<Rightarrow> flow_module" where
  "erase_module m = m\<lparr>fm_source_file := span_file blank_span, fm_functions := map erase_function (fm_functions m)\<rparr>"

definition erase_program :: "flow_program \<Rightarrow> flow_program" where
  "erase_program p = p\<lparr>fp_modules := map erase_module (fp_modules p)\<rparr>"

definition lowered_instruction :: "instruction \<Rightarrow> native_instruction" where
  "lowered_instruction ins = \<lparr>ni_result = lower_value (is_result ins), ni_kind = lower_operation (is_kind ins)\<rparr>"

definition lowered_block :: "block \<Rightarrow> native_block" where
  "lowered_block b =
     \<lparr>nb_id = bk_id b, nb_parameters = map lower_value (bk_parameters b),
      nb_instructions = map lowered_instruction (bk_instructions b),
      nb_terminators = map (\<lambda>t. lower_terminator (st_kind t)) (bk_terminators b)\<rparr>"

definition lowered_function :: "flow_function \<Rightarrow> native_function" where
  "lowered_function f =
     \<lparr>nf_id = ff_id f, nf_internal_symbol = flow_internal_symbol (ff_id f), nf_entry_export = ff_entry_export f,
      nf_convention = ZRYNA_INTERNAL_CONTROL_FLOW_V1, nf_parameters = map lower_value (ff_parameters f),
      nf_result = ff_result f, nf_blocks = map lowered_block (ff_blocks f)\<rparr>"

definition lowered_module :: "flow_module \<Rightarrow> native_module" where
  "lowered_module m = \<lparr>nm_id = fm_id m, nm_functions = map lowered_function (fm_functions m)\<rparr>"

definition lowered_program :: "flow_program \<Rightarrow> native_program" where
  "lowered_program p = \<lparr>np_entry_module = fp_entry_module p, np_modules = map lowered_module (fp_modules p)\<rparr>"

definition single_terminators :: "flow_function \<Rightarrow> bool" where
  "single_terminators f = (\<forall>b\<in>set (ff_blocks f). \<exists>t. bk_terminators b = [t])"

text \<open>Only the entry module exports.\<close>

definition exports_only_entry :: "flow_program \<Rightarrow> bool" where
  "exports_only_entry p =
     (unat (fp_entry_module p) < length (fp_modules p) \<and>
      (\<forall>mi<length (fp_modules p). mi \<noteq> unat (fp_entry_module p) \<longrightarrow>
         (\<forall>f\<in>set (fm_functions (fp_modules p ! mi)). ff_entry_export f = None)))"

section \<open>Erasing source positions\<close>

lemma erase_simps [simp]:
  "fv_id (erase_value d) = fv_id d" "fv_ty (erase_value d) = fv_ty d"
  "is_result (erase_instruction ins) = erase_value (is_result ins)" "is_kind (erase_instruction ins) = is_kind ins"
  "bk_id (erase_block b) = bk_id b" "bk_parameters (erase_block b) = map erase_value (bk_parameters b)"
  "bk_instructions (erase_block b) = map erase_instruction (bk_instructions b)"
  "bk_terminators (erase_block b) = map (\<lambda>t. t\<lparr>st_span := blank_span\<rparr>) (bk_terminators b)"
  "ff_id (erase_function f) = ff_id f" "ff_entry_export (erase_function f) = ff_entry_export f"
  "ff_parameters (erase_function f) = map erase_value (ff_parameters f)" "ff_result (erase_function f) = ff_result f"
  "ff_blocks (erase_function f) = map erase_block (ff_blocks f)"
  "fm_id (erase_module m) = fm_id m" "fm_functions (erase_module m) = map erase_function (fm_functions m)"
  "fp_entry_module (erase_program p) = fp_entry_module p" "fp_modules (erase_program p) = map erase_module (fp_modules p)"
  by (simp_all add: erase_value_def erase_instruction_def erase_block_def erase_function_def erase_module_def erase_program_def)

lemma lowered_simps [simp]:
  "ni_result (lowered_instruction ins) = lower_value (is_result ins)" "ni_kind (lowered_instruction ins) = lower_operation (is_kind ins)"
  "nb_id (lowered_block b) = bk_id b" "nb_parameters (lowered_block b) = map lower_value (bk_parameters b)"
  "nb_instructions (lowered_block b) = map lowered_instruction (bk_instructions b)"
  "nb_terminators (lowered_block b) = map (\<lambda>t. lower_terminator (st_kind t)) (bk_terminators b)"
  "nf_id (lowered_function f) = ff_id f" "nf_internal_symbol (lowered_function f) = flow_internal_symbol (ff_id f)"
  "nf_entry_export (lowered_function f) = ff_entry_export f" "nf_convention (lowered_function f) = ZRYNA_INTERNAL_CONTROL_FLOW_V1"
  "nf_parameters (lowered_function f) = map lower_value (ff_parameters f)" "nf_result (lowered_function f) = ff_result f"
  "nf_blocks (lowered_function f) = map lowered_block (ff_blocks f)"
  "nm_id (lowered_module m) = fm_id m" "nm_functions (lowered_module m) = map lowered_function (fm_functions m)"
  "np_entry_module (lowered_program p) = fp_entry_module p" "np_modules (lowered_program p) = map lowered_module (fp_modules p)"
  by (simp_all add: lowered_instruction_def lowered_block_def lowered_function_def lowered_module_def lowered_program_def)

lemma lift_lower_kind: "lift_kind (lower_operation k) = k"
  by (cases k) simp_all

lemma lift_lower_terminator: "lift_terminator (lower_terminator t) = t"
  by (cases t) simp_all

lemma lift_lower_value: "lift_value (lower_value d) = erase_value d"
  by (simp add: lift_value_def lower_value_def erase_value_def)

lemma lift_lowered_instruction: "lift_instruction (lowered_instruction ins) = erase_instruction ins"
  by (simp add: lift_instruction_def erase_instruction_def lift_lower_value lift_lower_kind)

lemma lift_lowered_block: "lift_block (lowered_block b) = erase_block b"
  by (simp add: lift_block_def erase_block_def lift_lower_value lift_lowered_instruction lift_lower_terminator comp_def)

lemma lift_lowered_function: "lift_function (lowered_function f) = erase_function f"
  by (simp add: lift_function_def erase_function_def lift_lower_value lift_lowered_block comp_def)

lemma lift_lowered_program: "lift_program (lowered_program p) = erase_program p"
  by (simp add: lift_program_def erase_program_def lift_module_def erase_module_def lift_lowered_function comp_def)

lemma erase_definitions: "function_definitions (erase_function f) = map (apfst erase_value) (function_definitions f)"
proof -
  have "block_definitions bi (erase_block b) = map (apfst erase_value) (block_definitions bi b)" for bi b
    by (simp add: block_definitions_def enumerate_map case_prod_unfold)
  then have "block_table (map (apsnd erase_block) bs) = map (apfst erase_value) (block_table bs)" for bs
    by (simp add: block_table_def map_concat comp_def case_prod_unfold)
  then show ?thesis by (simp add: function_definitions_def enumerate_map)
qed

lemma erase_definitions_ok: "definitions_ok n (map (apfst erase_value) ds) = definitions_ok n ds"
  by (simp add: definitions_ok_def)

lemma erase_value_table: "value_table (erase_function f) = value_table f"
  by (auto simp: value_table_def erase_definitions definition_info_def)

lemma erase_edges: "function_edges (erase_function f) = function_edges f"
proof -
  have "block_graph (bi, erase_block b) = block_graph (bi, b)" for bi b
    by (auto simp: block_graph_def split: list.splits)
  then show ?thesis by (simp add: function_edges_def enumerate_map comp_def apsnd_def map_prod_def case_prod_unfold)
qed

lemma erase_calls: "function_calls key (erase_function f) = function_calls key f"
  by (simp add: function_calls_def enumerate_map comp_def block_call_edges_def [abs_def] instruction_calls_def [abs_def])

lemma erase_edge_ok:
  assumes "source < length (ff_blocks f)"
  shows "edge_ok (erase_function f) vals source target args = edge_ok f vals source target args"
  using assms by (auto simp: edge_ok_def comp_def)

lemma erase_block_ok:
  assumes "bi < length (ff_blocks f)"
  shows "block_ok sigs (erase_function f) vals bi (erase_block b) = block_ok sigs f vals bi b"
proof -
  have "terminator_ok (erase_function f) vals bi t = terminator_ok f vals bi t" for t
    using assms by (cases t) (simp_all add: erase_edge_ok)
  moreover have "instruction_ok sigs vals bi i (erase_instruction ins) = instruction_ok sigs vals bi i ins" for i ins
    by (simp add: instruction_ok_def instruction_typed_def)
  ultimately show ?thesis by (auto simp: block_ok_def map_eq_Cons_conv)
qed

lemma erase_uses: "map (\<lambda>(v, bi, i, sp). (v, bi, i)) (block_uses (bi, erase_block b)) = map (\<lambda>(v, bi, i, sp). (v, bi, i)) (block_uses (bi, b))"
  by (simp add: block_uses_def map_concat enumerate_map comp_def case_prod_unfold split: list.splits)

lemma erase_cfg_ok: "cfg_ok (erase_function f) vals edges = cfg_ok f vals edges"
proof -
  have "(\<forall>(v, bi, i, sp)\<in>set (block_uses (bi, erase_block b)). P v bi i) \<longleftrightarrow> (\<forall>(v, bi, i, sp)\<in>set (block_uses (bi, b)). P v bi i)" for P bi b
    using arg_cong [OF erase_uses [of bi b], of "\<lambda>xs. \<forall>(v, bi, i)\<in>set xs. P v bi i"] by (simp add: case_prod_unfold)
  from this [where P = "\<lambda>v bi i. available vals (edge_graph (length (ff_blocks f)) edges) bi i v"]
  have "(\<forall>y\<in>set (enumerate 0 (ff_blocks f)). \<forall>(v, bi, i, sp)\<in>set (block_uses (fst y, erase_block (snd y))).
        available vals (edge_graph (length (ff_blocks f)) edges) bi i v) \<longleftrightarrow>
      (\<forall>y\<in>set (enumerate 0 (ff_blocks f)). \<forall>(v, bi, i, sp)\<in>set (block_uses y).
        available vals (edge_graph (length (ff_blocks f)) edges) bi i v)" by (metis prod.collapse)
  then show ?thesis by (simp add: cfg_ok_def Let_def enumerate_map case_prod_unfold apsnd_def map_prod_def)
qed

lemma erase_body_ok: "body_ok sigs (erase_function f) = body_ok sigs f"
  by (cases "ff_blocks f = []")
    (simp_all add: body_ok_def erase_definitions erase_definitions_ok erase_value_table erase_edges erase_cfg_ok erase_block_ok cong: conj_cong)

lemma erase_program_facts:
  "collect_signatures (erase_program p) = collect_signatures p"
  "program_calls (erase_program p) = program_calls p"
  "public_exports (erase_program p) = public_exports p"
  "export_rows (erase_program p) = export_rows p"
proof -
  show "collect_signatures (erase_program p) = collect_signatures p" by (simp add: collect_signatures_def comp_def)
  show "program_calls (erase_program p) = program_calls p"
    by (simp add: program_calls_def program_functions_def map_concat enumerate_map comp_def case_prod_unfold erase_calls)
  have e: "entry_exports (map erase_function fs) n = entry_exports fs n" for fs n
    by (induction fs arbitrary: n) (simp_all add: flow_export_def comp_def split: option.splits)
  show "public_exports (erase_program p) = public_exports p" by (simp add: public_exports_def get_at_def e)
  show "export_rows (erase_program p) = export_rows p" by (simp add: export_rows_def Let_def get_at_def e comp_def)
qed

section \<open>Limits of the lowered program\<close>

lemma body_single_terminators: "body_ok sigs f \<Longrightarrow> single_terminators f"
  unfolding body_ok_def single_terminators_def block_ok_def by (metis in_set_conv_nth)

lemma lowered_calls:
  "sum_list (map (fst \<circ> native_call_count) (map lowered_instruction is)) = length (filter is_direct_call is)"
  "(\<forall>i\<in>set is. call_argument_count i \<le> k) \<Longrightarrow>
    sum_list (map (snd \<circ> native_call_count) (map lowered_instruction is)) \<le> k * length (filter is_direct_call is)"
proof -
  have one: "fst (native_call_count (lowered_instruction i)) = (if is_direct_call i then 1 else 0) \<and>
      snd (native_call_count (lowered_instruction i)) = call_argument_count i \<and> (\<not> is_direct_call i \<longrightarrow> call_argument_count i = 0)" for i
    by (cases "is_kind i") (simp_all add: is_direct_call_def call_argument_count_def)
  show "sum_list (map (fst \<circ> native_call_count) (map lowered_instruction is)) = length (filter is_direct_call is)"
    by (induction "is") (simp_all add: one del: native_call_count.simps)
  show "(\<forall>i\<in>set is. call_argument_count i \<le> k) \<Longrightarrow>
      sum_list (map (snd \<circ> native_call_count) (map lowered_instruction is)) \<le> k * length (filter is_direct_call is)"
  proof (induction "is")
    case (Cons i "is")
    then show ?case using one [of i] by (cases "is_direct_call i") (simp_all del: native_call_count.simps)
  qed simp
qed

lemma lowered_terminator_counts:
  "native_edge_count (lower_terminator t) = edge_count t"
  "terminator_within_limits t \<Longrightarrow> \<forall>n\<in>set (native_edge_lengths (lower_terminator t)). n \<le> MAX_BLOCK_PARAMETERS"
  "terminator_within_limits t \<Longrightarrow> sum_list (native_edge_lengths (lower_terminator t)) \<le> MAX_BLOCK_PARAMETERS * edge_count t"
  by (cases t; simp)+

lemma lowered_block_counts:
  assumes "bk_terminators b = [t]"
  shows "sum_list (map native_edge_count (nb_terminators (lowered_block b))) = block_edges b"
    "length (nb_parameters (lowered_block b)) + length (nb_instructions (lowered_block b)) = block_values b"
    "sum_list (map (fst \<circ> native_call_count) (nb_instructions (lowered_block b))) = block_calls b"
    "length (nb_terminators (lowered_block b)) = 1"
  using assms by (simp_all add: block_edges_def block_values_def block_calls_def lowered_terminator_counts lowered_calls(1) [simplified])

lemma lowered_block_within:
  assumes "bk_terminators b = [t]" "block_within_limits b"
  shows "native_block_within (lowered_block b)"
    "sum_list (map (snd \<circ> native_call_count) (nb_instructions (lowered_block b))) \<le> MAX_PARAMETERS_PER_FUNCTION * block_calls b"
    "sum_list (map (sum_list \<circ> native_edge_lengths) (nb_terminators (lowered_block b))) \<le> MAX_BLOCK_PARAMETERS * block_edges b"
proof -
  have one: "snd (native_call_count (lowered_instruction i)) = call_argument_count i" for i
    by (cases "is_kind i") (simp_all add: call_argument_count_def)
  show "native_block_within (lowered_block b)"
    using assms lowered_terminator_counts(2) [of "st_kind t"] by (simp add: native_block_within_def block_within_limits_def one del: native_call_count.simps)
  show "sum_list (map (snd \<circ> native_call_count) (nb_instructions (lowered_block b))) \<le> MAX_PARAMETERS_PER_FUNCTION * block_calls b"
    unfolding lowered_simps block_calls_def by (rule lowered_calls(2)) (use assms(2) in \<open>simp add: block_within_limits_def\<close>)
  show "sum_list (map (sum_list \<circ> native_edge_lengths) (nb_terminators (lowered_block b))) \<le> MAX_BLOCK_PARAMETERS * block_edges b"
    using assms lowered_terminator_counts(3) [of "st_kind t"] by (simp add: block_edges_def block_within_limits_def)
qed

lemma sum_map_le: "(\<And>x. x \<in> set xs \<Longrightarrow> f x \<le> k * g x) \<Longrightarrow> sum_list (map f xs) \<le> k * sum_list (map g xs)" for k :: nat
  by (induction xs) (auto simp: distrib_left intro: add_mono)

lemma count_function_totals:
  "nc_functions (count_function f t) = nc_functions t"
  "nc_parameters (count_function f t) = nc_parameters t + length (nf_parameters f)"
  "nc_blocks (count_function f t) = nc_blocks t + length (nf_blocks f)"
  "nc_values (count_function f t) = nc_values t + (length (nf_parameters f) + sum_list (map (\<lambda>b. length (nb_parameters b) + length (nb_instructions b)) (nf_blocks f)))"
  "nc_edges (count_function f t) = nc_edges t + sum_list (map (\<lambda>b. sum_list (map native_edge_count (nb_terminators b))) (nf_blocks f))"
  "nc_calls (count_function f t) = nc_calls t + sum_list (map (\<lambda>b. sum_list (map (fst \<circ> native_call_count) (nb_instructions b))) (nf_blocks f))"
  "nc_call_arguments (count_function f t) = nc_call_arguments t + sum_list (map (\<lambda>b. sum_list (map (snd \<circ> native_call_count) (nb_instructions b))) (nf_blocks f))"
  "nc_edge_arguments (count_function f t) = nc_edge_arguments t + sum_list (map (\<lambda>b. sum_list (map (sum_list \<circ> native_edge_lengths) (nb_terminators b))) (nf_blocks f))"
  "nc_symbol_bytes (count_function f t) = nc_symbol_bytes t + length (nf_internal_symbol f)"
  "nc_export_bytes (count_function f t) = nc_export_bytes t + export_bytes f"
  "nc_terminators (count_function f t) = nc_terminators t + sum_list (map (\<lambda>b. length (nb_terminators b)) (nf_blocks f))"
  by (simp_all add: count_function_def count_start_def Let_def fold_count_block)

lemma fold_count_total:
  assumes "\<And>f t. nc (count_function f t) = nc t + (g f :: nat)" and "\<And>t n. nc (t\<lparr>nc_functions := n\<rparr>) = nc t"
  shows "nc (fold count_module ms t) = nc t + sum_list (map g (concat (map nm_functions ms)))"
proof -
  have f: "nc (fold count_function fs t) = nc t + sum_list (map g fs)" for fs t
    by (induction fs arbitrary: t) (simp_all add: assms(1))
  show ?thesis by (induction ms arbitrary: t) (simp_all add: count_module_def f assms(2))
qed

lemma count_functions_kept:
  "nc_parameters (t\<lparr>nc_functions := n\<rparr>) = nc_parameters t" "nc_blocks (t\<lparr>nc_functions := n\<rparr>) = nc_blocks t"
  "nc_values (t\<lparr>nc_functions := n\<rparr>) = nc_values t" "nc_edges (t\<lparr>nc_functions := n\<rparr>) = nc_edges t"
  "nc_calls (t\<lparr>nc_functions := n\<rparr>) = nc_calls t" "nc_call_arguments (t\<lparr>nc_functions := n\<rparr>) = nc_call_arguments t"
  "nc_edge_arguments (t\<lparr>nc_functions := n\<rparr>) = nc_edge_arguments t" "nc_symbol_bytes (t\<lparr>nc_functions := n\<rparr>) = nc_symbol_bytes t"
  "nc_export_bytes (t\<lparr>nc_functions := n\<rparr>) = nc_export_bytes t" "nc_terminators (t\<lparr>nc_functions := n\<rparr>) = nc_terminators t"
  by simp_all

lemmas fold_count_totals =
  fold_count_total [of nc_parameters, OF count_function_totals(2) count_functions_kept(1)]
  fold_count_total [of nc_blocks, OF count_function_totals(3) count_functions_kept(2)]
  fold_count_total [of nc_values, OF count_function_totals(4) count_functions_kept(3)]
  fold_count_total [of nc_edges, OF count_function_totals(5) count_functions_kept(4)]
  fold_count_total [of nc_calls, OF count_function_totals(6) count_functions_kept(5)]
  fold_count_total [of nc_call_arguments, OF count_function_totals(7) count_functions_kept(6)]
  fold_count_total [of nc_edge_arguments, OF count_function_totals(8) count_functions_kept(7)]
  fold_count_total [of nc_symbol_bytes, OF count_function_totals(9) count_functions_kept(8)]
  fold_count_total [of nc_export_bytes, OF count_function_totals(10) count_functions_kept(9)]
  fold_count_total [of nc_terminators, OF count_function_totals(11) count_functions_kept(10)]

lemma fold_count_functions: "nc_functions (fold count_module ms t) = nc_functions t + length (concat (map nm_functions ms))"
proof -
  have f: "nc_functions (fold count_function fs t) = nc_functions t" for fs t
    by (induction fs arbitrary: t) (simp_all add: count_function_totals)
  show ?thesis by (induction ms arbitrary: t) (simp_all add: count_module_def f)
qed

lemma lowered_function_counts:
  assumes "single_terminators f"
  shows "map (\<lambda>b. length (nb_parameters b) + length (nb_instructions b)) (nf_blocks (lowered_function f)) = map block_values (ff_blocks f)"
    "map (\<lambda>b. sum_list (map native_edge_count (nb_terminators b))) (nf_blocks (lowered_function f)) = map block_edges (ff_blocks f)"
    "map (\<lambda>b. sum_list (map (fst \<circ> native_call_count) (nb_instructions b))) (nf_blocks (lowered_function f)) = map block_calls (ff_blocks f)"
    "map (\<lambda>b. length (nb_terminators b)) (nf_blocks (lowered_function f)) = map (\<lambda>b. 1) (ff_blocks f)"
  using assms lowered_block_counts unfolding single_terminators_def lowered_simps(13) map_map map_eq_conv comp_apply by metis+

lemma lowered_function_within:
  assumes "function_within_limits f" "single_terminators f" "export_bytes (lowered_function f) \<le> MAX_ENTRY_EXPORT_BYTES"
  shows "native_function_within (lowered_function f)"
proof -
  have t: "\<exists>t. bk_terminators b = [t]" if "b \<in> set (ff_blocks f)" for b using assms(2) that by (auto simp: single_terminators_def)
  have w: "block_within_limits b" if "b \<in> set (ff_blocks f)" for b using assms(1) that by (simp add: function_within_limits_def)
  have blocks: "\<forall>b\<in>set (nf_blocks (lowered_function f)). native_block_within b" using t w lowered_block_within(1) by fastforce
  have "function_totals_within (fold count_block (nf_blocks (lowered_function f)) (count_start (lowered_function f) native_no_totals))"
    using assms(1) unfolding function_totals_within_def fold_count_block count_start_def
    by (simp add: lowered_function_counts [OF assms(2)] sum_list_triv del: lowered_simps)
      (simp add: function_within_limits_def function_values_def MAX_TERMINATORS_PER_FUNCTION_def)
  moreover have "length (nf_internal_symbol (lowered_function f)) \<le> MAX_INTERNAL_SYMBOL_BYTES"
    using flow_internal_symbol_length [of "ff_id f"] by (simp add: MAX_INTERNAL_SYMBOL_BYTES_def)
  ultimately show ?thesis using assms blocks by (simp add: native_function_within_def function_within_limits_def)
qed

section \<open>Lowering\<close>

lemma entry_exports_bytes:
  assumes "\<forall>x\<in>set (fst (entry_exports fs n)). length (re_logical_name x) \<le> k"
  shows "(\<forall>f\<in>set fs. export_bytes (lowered_function f) \<le> k) \<and>
    sum_list (map (\<lambda>f. export_bytes (lowered_function f)) fs) \<le> k * length (fst (entry_exports fs n))"
  using assms
proof (induction fs arbitrary: n)
  case (Cons f fs)
  show ?case
  proof (cases "ff_entry_export f")
    case None
    then show ?thesis using Cons.IH [of n] Cons.prems by (simp add: export_bytes_def)
  next
    case (Some name)
    then show ?thesis using Cons.IH [of "Suc n"] Cons.prems by (auto simp: export_bytes_def flow_export_def case_prod_unfold Let_def)
  qed
qed simp

lemma entry_exports_rows:
  "length (snd (entry_exports fs n)) = length fs"
  "fi < length fs \<Longrightarrow>
    (case snd (entry_exports fs n) ! fi of
       None \<Rightarrow> ff_entry_export (fs ! fi) = None
     | Some i \<Rightarrow> n \<le> i \<and> i < n + length (fst (entry_exports fs n)) \<and>
         ff_entry_export (fs ! fi) = Some (re_logical_name (fst (entry_exports fs n) ! (i - n))))"
proof -
  show "length (snd (entry_exports fs n)) = length fs"
    by (induction fs arbitrary: n) (auto simp: case_prod_unfold Let_def split: option.splits)
  show "fi < length fs \<Longrightarrow>
    (case snd (entry_exports fs n) ! fi of
       None \<Rightarrow> ff_entry_export (fs ! fi) = None
     | Some i \<Rightarrow> n \<le> i \<and> i < n + length (fst (entry_exports fs n)) \<and>
         ff_entry_export (fs ! fi) = Some (re_logical_name (fst (entry_exports fs n) ! (i - n))))"
  proof (induction fs arbitrary: n fi)
    case (Cons f fs)
    show ?case
    proof (cases "ff_entry_export f")
      case None
      then show ?thesis using Cons.IH [of "fi - 1" n] Cons.prems by (cases fi) (simp_all split: option.splits)
    next
      case (Some name)
      then show ?thesis using Cons.IH [of "fi - 1" "Suc n"] Cons.prems
        by (cases fi) (auto simp: case_prod_unfold Let_def flow_export_def nth_Cons' split: option.splits)
    qed
  qed simp
qed

lemma modules_ok_exports:
  assumes "modules_ok p sources expected_entry" "length (fp_modules p) \<le> 2 ^ 32"
  shows "exports_only_entry p"
proof -
  have "unat (fp_entry_module p) < length (fp_modules p)" using assms(1) by (auto simp: modules_ok_def get_at_def split: if_splits)
  moreover have "ff_entry_export f = None"
    if "mi < length (fp_modules p)" "mi \<noteq> unat (fp_entry_module p)" "f \<in> set (fm_functions (fp_modules p ! mi))" for mi f
  proof -
    have m: "module_ok p sources mi (fp_modules p ! mi)" using assms(1) that(1) by (simp add: modules_ok_def)
    have "fm_id (fp_modules p ! mi) \<noteq> fp_entry_module p"
      using m that(1,2) assms(2) by (auto simp: module_ok_def word_unat_eq_iff unat_of_nat take_bit_nat_eq_self)
    then show ?thesis using m that(3) by (auto simp: module_ok_def in_set_conv_nth)
  qed
  ultimately show ?thesis by (auto simp: exports_only_entry_def)
qed

lemma exports_sum:
  assumes "exports_only_entry p" "\<And>f. ff_entry_export f = None \<Longrightarrow> g f = (0 :: nat)"
  shows "sum_list (map g (concat (map fm_functions (fp_modules p)))) = sum_list (map g (fm_functions (fp_modules p ! unat (fp_entry_module p))))"
proof -
  let ?ms = "fp_modules p" and ?e = "unat (fp_entry_module p)"
  have e: "?e < length ?ms" using assms(1) by (simp add: exports_only_entry_def)
  have zero: "sum_list (map g (fm_functions (?ms ! mi))) = 0" if "mi < length ?ms" "mi \<noteq> ?e" for mi
    using assms that by (auto simp: exports_only_entry_def)
  have "sum_list (map g (concat (map fm_functions ms))) = sum_list (map (\<lambda>m. sum_list (map g (fm_functions m))) ms)" for ms :: "flow_module list"
    by (induction ms) simp_all
  then have "sum_list (map g (concat (map fm_functions ?ms))) = (\<Sum>mi<length ?ms. sum_list (map g (fm_functions (?ms ! mi))))"
    using sum_list_sum_nth [of "map (\<lambda>m. sum_list (map g (fm_functions m))) ?ms"] by (simp add: atLeast0LessThan)
  also have "\<dots> = sum_list (map g (fm_functions (?ms ! ?e)))"
    using e zero by (subst sum.remove [of _ ?e]) (auto intro!: sum.neutral)
  finally show ?thesis .
qed

lemma lowered_function_arguments:
  assumes "single_terminators f" "function_within_limits f"
  shows "sum_list (map (\<lambda>b. sum_list (map (snd \<circ> native_call_count) (nb_instructions b))) (nf_blocks (lowered_function f))) \<le>
      MAX_PARAMETERS_PER_FUNCTION * sum_list (map block_calls (ff_blocks f))"
    "sum_list (map (\<lambda>b. sum_list (map (sum_list \<circ> native_edge_lengths) (nb_terminators b))) (nf_blocks (lowered_function f))) \<le>
      MAX_BLOCK_PARAMETERS * sum_list (map block_edges (ff_blocks f))"
proof -
  have b: "\<exists>t. bk_terminators b = [t]" "block_within_limits b" if "b \<in> set (ff_blocks f)" for b
    using assms that by (simp_all add: single_terminators_def function_within_limits_def)
  show "sum_list (map (\<lambda>b. sum_list (map (snd \<circ> native_call_count) (nb_instructions b))) (nf_blocks (lowered_function f))) \<le>
      MAX_PARAMETERS_PER_FUNCTION * sum_list (map block_calls (ff_blocks f))"
    unfolding lowered_simps(13) map_map
    by (rule sum_map_le) (use lowered_block_within(2) b in \<open>unfold comp_apply [of _ lowered_block], blast\<close>)
  show "sum_list (map (\<lambda>b. sum_list (map (sum_list \<circ> native_edge_lengths) (nb_terminators b))) (nf_blocks (lowered_function f))) \<le>
      MAX_BLOCK_PARAMETERS * sum_list (map block_edges (ff_blocks f))"
    unfolding lowered_simps(13) map_map
    by (rule sum_map_le) (use lowered_block_within(3) b in \<open>unfold comp_apply [of _ lowered_block], blast\<close>)
qed

lemma lowered_within_limits:
  assumes lim: "flow_within_limits p" and single: "\<forall>f\<in>set (concat (map fm_functions (fp_modules p))). single_terminators f"
    and ex: "exports_only_entry p" and abi: "abi_ok (public_exports p)"
  shows "native_within_limits (lowered_program p)"
proof -
  let ?fs = "concat (map fm_functions (fp_modules p))" let ?gs = "map lowered_function ?fs"
  let ?entry = "fm_functions (fp_modules p ! unat (fp_entry_module p))"
  have gs: "concat (map nm_functions (np_modules (lowered_program p))) = ?gs" by (simp add: map_concat comp_def)
  have exports: "public_exports p = fst (entry_exports ?entry 0)" using ex by (simp add: public_exports_def exports_only_entry_def get_at_def)
  have names: "\<forall>x\<in>set (fst (entry_exports ?entry 0)). length (re_logical_name x) \<le> MAX_ENTRY_EXPORT_BYTES"
    using abi unfolding exports by (auto simp: abi_ok_def valid_logical_name_def MAX_ENTRY_EXPORT_BYTES_def)
  note bytes = entry_exports_bytes [OF names]
  have none: "ff_entry_export f = None \<Longrightarrow> export_bytes (lowered_function f) = 0" for f by (simp add: export_bytes_def)
  have eb: "export_bytes (lowered_function f) \<le> MAX_ENTRY_EXPORT_BYTES" if f: "f \<in> set ?fs" for f
  proof -
    obtain mi where mi: "mi < length (fp_modules p)" "f \<in> set (fm_functions (fp_modules p ! mi))" using f by (auto simp: in_set_conv_nth [of _ "fp_modules p"])
    then show ?thesis using ex bytes none [of f] by (cases "mi = unat (fp_entry_module p)") (auto simp: exports_only_entry_def)
  qed
  have F: "\<forall>f\<in>set ?fs. function_within_limits f" and T: "totals_within_limits (add_totals no_totals ?fs)"
    using lim add_totals_within by (auto simp: flow_within_limits_def functions_within_limits_def)
  have within: "\<forall>f\<in>set ?fs. native_function_within (lowered_function f)" using F single eb lowered_function_within by blast
  have counts: "map (\<lambda>f. length (nf_parameters f) + sum_list (map (\<lambda>b. length (nb_parameters b) + length (nb_instructions b)) (nf_blocks f))) ?gs = map function_values ?fs"
      "map (\<lambda>f. sum_list (map (\<lambda>b. sum_list (map native_edge_count (nb_terminators b))) (nf_blocks f))) ?gs = map (\<lambda>f. sum_list (map block_edges (ff_blocks f))) ?fs"
      "map (\<lambda>f. sum_list (map (\<lambda>b. sum_list (map (fst \<circ> native_call_count) (nb_instructions b))) (nf_blocks f))) ?gs = map (\<lambda>f. sum_list (map block_calls (ff_blocks f))) ?fs"
      "map (\<lambda>f. sum_list (map (\<lambda>b. length (nb_terminators b)) (nf_blocks f))) ?gs = map (\<lambda>f. length (ff_blocks f)) ?fs"
    unfolding map_map map_eq_conv comp_apply
    by (intro ballI; drule bspec [OF single]; simp only: lowered_function_counts lowered_function_counts(3) [unfolded comp_def] function_values_def lowered_simps(11) length_map sum_list_triv;
        simp)+
  have args: "sum_list (map (\<lambda>f. sum_list (map (\<lambda>b. sum_list (map (snd \<circ> native_call_count) (nb_instructions b))) (nf_blocks f))) ?gs) \<le>
        MAX_PARAMETERS_PER_FUNCTION * sum_list (map (\<lambda>f. sum_list (map block_calls (ff_blocks f))) ?fs)"
      "sum_list (map (\<lambda>f. sum_list (map (\<lambda>b. sum_list (map (sum_list \<circ> native_edge_lengths) (nb_terminators b))) (nf_blocks f))) ?gs) \<le>
        MAX_BLOCK_PARAMETERS * sum_list (map (\<lambda>f. sum_list (map block_edges (ff_blocks f))) ?fs)"
    unfolding map_map by (rule sum_map_le; unfold comp_apply [of _ lowered_function]; rule lowered_function_arguments; use single F in blast)+
  have symbols: "sum_list (map (\<lambda>f. length (nf_internal_symbol f)) ?gs) \<le> 34 * length ?fs"
    using sum_map_le [of ?fs "\<lambda>f. length (flow_internal_symbol (ff_id f))" 34 "\<lambda>_. 1"] flow_internal_symbol_length
    by (simp add: comp_def sum_list_triv)
  have ebytes: "sum_list (map export_bytes ?gs) \<le> MAX_ENTRY_EXPORT_BYTES_PER_PROGRAM"
  proof -
    have "sum_list (map export_bytes ?gs) = sum_list (map (\<lambda>f. export_bytes (lowered_function f)) ?entry)"
      using exports_sum [OF ex, of "\<lambda>f. export_bytes (lowered_function f)"] none by (simp add: comp_def)
    also have "\<dots> \<le> MAX_ENTRY_EXPORT_BYTES * length (public_exports p)" using bytes exports by simp
    also have "\<dots> \<le> MAX_ENTRY_EXPORT_BYTES_PER_PROGRAM"
      using abi by (simp add: MAX_ENTRY_EXPORT_BYTES_PER_PROGRAM_def abi_ok_def)
    finally show ?thesis .
  qed
  have "program_totals_within (fold count_module (np_modules (lowered_program p)) native_no_totals)"
  proof -
    have small: "sum_list (map (\<lambda>f. length (ff_parameters f)) ?fs) \<le> MAX_PARAMETERS_PER_PROGRAM"
        "sum_list (map (\<lambda>f. length (ff_blocks f)) ?fs) \<le> MAX_BLOCKS_PER_PROGRAM"
        "sum_list (map function_values ?fs) \<le> MAX_VALUES_PER_PROGRAM"
        "sum_list (map (\<lambda>f. sum_list (map block_edges (ff_blocks f))) ?fs) \<le> MAX_CFG_EDGES_PER_PROGRAM"
        "sum_list (map (\<lambda>f. sum_list (map block_calls (ff_blocks f))) ?fs) \<le> MAX_CALL_EDGES"
        "length ?fs \<le> MAX_FUNCTIONS_PER_PROGRAM"
      using lim unfolding flow_within_limits_def functions_within_limits_def no_totals_def by simp_all
    have parameters: "map (\<lambda>f. length (nf_parameters f)) ?gs = map (\<lambda>f. length (ff_parameters f)) ?fs"
      "map (\<lambda>f. length (nf_blocks f)) ?gs = map (\<lambda>f. length (ff_blocks f)) ?fs" by simp_all
    have "sum_list (map (\<lambda>f. sum_list (map (\<lambda>b. sum_list (map (snd \<circ> native_call_count) (nb_instructions b))) (nf_blocks f))) ?gs) \<le> MAX_CALL_ARGUMENTS_PER_PROGRAM"
      using order_trans [OF args(1) mult_le_mono2 [OF small(5)]] by (simp only: MAX_CALL_ARGUMENTS_PER_PROGRAM_def mult.commute)
    moreover have "sum_list (map (\<lambda>f. sum_list (map (\<lambda>b. sum_list (map (sum_list \<circ> native_edge_lengths) (nb_terminators b))) (nf_blocks f))) ?gs) \<le> MAX_EDGE_ARGUMENTS_PER_PROGRAM"
      using order_trans [OF args(2) mult_le_mono2 [OF small(4)]] by (simp only: MAX_EDGE_ARGUMENTS_PER_PROGRAM_def mult.commute)
    moreover have "sum_list (map (\<lambda>f. length (nf_internal_symbol f)) ?gs) \<le> MAX_INTERNAL_SYMBOL_BYTES_PER_PROGRAM"
      using symbols small(6) by (simp only: MAX_INTERNAL_SYMBOL_BYTES_PER_PROGRAM_def MAX_FUNCTIONS_PER_PROGRAM_def MAX_INTERNAL_SYMBOL_BYTES_def)
    ultimately show ?thesis
      using ebytes small unfolding program_totals_within_def
      by (simp only: fold_count_totals fold_count_functions gs counts parameters native_no_totals_def native_totals.simps add_0 length_map MAX_TERMINATORS_PER_PROGRAM_def)
  qed
  then show ?thesis using lim within by (auto simp: native_within_limits_def flow_within_limits_def)
qed

lemma those_map: "\<forall>x\<in>set xs. f x = Some (g x) \<Longrightarrow> those (map f xs) = Some (map g xs)"
  by (induction xs) simp_all

lemma map_enumerate_apsnd: "map (\<lambda>(i, x). g x) (enumerate k xs) = map g xs"
  by (induction xs arbitrary: k) simp_all

text \<open>The sealed export of a function has the name the function claims.\<close>

lemma flow_public_export_name:
  assumes ex: "exports_only_entry p" and rows: "vfp_abi_indices v = export_rows p" and abi: "verify_v1 (public_exports p) = Inr (vfp_abi v)"
    and mi: "mi < length (fp_modules p)" and fi: "fi < length (fm_functions (fp_modules p ! mi))"
  shows "\<exists>x. flow_public_export v mi fi = Some x \<and> map_option (\<lambda>x. ve_logical_name (vx_export x)) x = ff_entry_export (fm_functions (fp_modules p ! mi) ! fi)"
proof -
  let ?e = "unat (fp_entry_module p)" let ?fs = "fm_functions (fp_modules p ! ?e)"
  have e: "?e < length (fp_modules p)" using ex by (simp add: exports_only_entry_def)
  have xs: "public_exports p = fst (entry_exports ?fs 0)" using e by (simp add: public_exports_def get_at_def)
  have sealed: "abi_exports (vfp_abi v) = map (\<lambda>(i, e). \<lparr>vx_index = i, vx_export = e\<rparr>) (enumerate 0 (map sealed (public_exports p)))"
    using abi unfolding verify_v1_accepts by (simp add: abi_exports_def)
  show ?thesis
  proof (cases "mi = ?e")
    case False
    then have "flow_public_export v mi fi = Some None"
      using mi fi e by (simp add: flow_public_export_def rows export_rows_def Let_def get_at_def)
    moreover have "ff_entry_export (fm_functions (fp_modules p ! mi) ! fi) = None"
      using ex False mi fi by (simp add: exports_only_entry_def)
    ultimately show ?thesis by simp
  next
    case True
    have get: "flow_public_export v mi fi = Some (Option.bind (snd (entry_exports ?fs 0) ! fi) (get_at (abi_exports (vfp_abi v))))"
      using True fi e by (simp add: flow_public_export_def rows export_rows_def Let_def get_at_def entry_exports_rows(1))
    show ?thesis
      using entry_exports_rows(2) [of fi ?fs 0] True fi unfolding get
      by (auto simp: sealed xs get_at_def nth_enumerate_eq sealed_def split: option.splits)
  qed
qed

lemma lower_block_single: "bk_terminators b = [t] \<Longrightarrow> lower_block b = Some (lowered_block b)"
  by (simp add: lower_block_def lowered_block_def lowered_instruction_def get_at_def)

lemma native_lower_lowered:
  assumes ex: "exports_only_entry (vfp_program v)" and rows: "vfp_abi_indices v = export_rows (vfp_program v)"
    and abi: "verify_v1 (public_exports (vfp_program v)) = Inr (vfp_abi v)"
    and single: "\<forall>f\<in>set (concat (map fm_functions (fp_modules (vfp_program v)))). single_terminators f"
  shows "native_lower v = native_verify (lowered_program (vfp_program v))"
proof -
  let ?p = "vfp_program v"
  have f: "lower_flow_function v mi (fi, fm_functions (fp_modules ?p ! mi) ! fi) = Some (lowered_function (fm_functions (fp_modules ?p ! mi) ! fi))"
    if k: "mi < length (fp_modules ?p)" "fi < length (fm_functions (fp_modules ?p ! mi))" for mi fi
  proof -
    let ?f = "fm_functions (fp_modules ?p ! mi) ! fi"
    have "?f \<in> set (concat (map fm_functions (fp_modules ?p)))" using k by (auto intro!: bexI [of _ "fp_modules ?p ! mi"])
    then have "single_terminators ?f" using single by blast
    then have "those (map lower_block (ff_blocks ?f)) = Some (map lowered_block (ff_blocks ?f))"
      by (intro those_map) (auto simp: single_terminators_def intro: lower_block_single)
    then show ?thesis using flow_public_export_name [OF ex rows abi k] by (auto simp: lower_flow_function_def lowered_function_def)
  qed
  have m: "lower_module v (mi, fp_modules ?p ! mi) = Some (lowered_module (fp_modules ?p ! mi))" if "mi < length (fp_modules ?p)" for mi
  proof -
    have "\<forall>x\<in>set (enumerate 0 (fm_functions (fp_modules ?p ! mi))). lower_flow_function v mi x = Some (case x of (fi, f) \<Rightarrow> lowered_function f)"
      using f [OF that] by (auto simp: in_set_enumerate_eq)
    from those_map [OF this] show ?thesis by (simp add: lower_module_def lowered_module_def map_enumerate_apsnd)
  qed
  have "those (map (lower_module v) (enumerate 0 (fp_modules ?p))) = Some (map (\<lambda>(mi, m). lowered_module m) (enumerate 0 (fp_modules ?p)))"
    by (rule those_map) (use m in \<open>auto simp: in_set_enumerate_eq\<close>)
  then show ?thesis by (simp add: native_lower_def lowered_program_def map_enumerate_apsnd)
qed

lemma flow_verify_rows:
  assumes "flow_verify p sources expected_entry = Some (Inr v)"
  shows "vfp_abi_indices v = export_rows p"
proof -
  have "indices = export_rows p" if "verify_public_abi p er = ((Some abi, indices), er')" for er abi indices er'
    using that by (auto simp: verify_public_abi_def export_rows_def Let_def case_prod_unfold split: if_splits sum.splits option.splits)
  note rows = this
  obtain er where er: "(let ((abi, abi_indices), er) = verify_public_abi p er
      in if \<not> errors_is_empty er then Some (Inl (ce_diagnostics er))
         else (case abi of None \<Rightarrow> Some (Inl [diagnostic_error ''ZRYNA-I2202'' None
                ''ControlFlowV1 verifier could not construct its bounded scalar ABI table''
                ''report this compiler invariant failure with the smallest reproducible source''])
            | Some abi \<Rightarrow> Some (Inr \<lparr>vfp_program = p, vfp_abi = abi, vfp_abi_indices = abi_indices\<rparr>))) = Some (Inr v)"
    using assms unfolding flow_verify_def Let_def [of "flow_preflight _ _"] by (auto simp: bind_eq_Some_conv split: if_splits)
  obtain abi indices er' where "verify_public_abi p er = ((abi, indices), er')" by (metis prod.collapse)
  then show ?thesis using er rows by (auto split: if_splits option.splits)
qed

lemma lowered_inventory:
  assumes "modules_ok p sources expected_entry"
  shows "native_inventory_ok (lowered_program p)"
  using assms by (auto simp: modules_ok_def module_ok_def native_inventory_ok_def native_identity_ok_def in_set_enumerate_eq get_at_def
      split: if_splits)

lemma lowered_ok:
  assumes "flow_ok p sources expected_entry"
  shows "native_ok (lowered_program p)" "exports_only_entry p"
    "\<forall>f\<in>set (concat (map fm_functions (fp_modules p))). single_terminators f"
proof -
  have lim: "flow_within_limits p" and m: "modules_ok p sources expected_entry" and abi: "abi_ok (public_exports p)"
    using assms by (simp_all add: flow_ok_def)
  have "length (fp_modules p) \<le> 2 ^ 32" using lim by (simp add: flow_within_limits_def MAX_MODULES_def)
  then show ex: "exports_only_entry p" by (rule modules_ok_exports [OF m])
  have body: "body_ok (collect_signatures p) f" if "(key, f, src) \<in> set (program_functions p)" for key f src
  proof -
    have "flow_function_ok sources (collect_signatures p) src f" using assms that by (auto simp: flow_ok_def)
    then show ?thesis using function_limits_mem [OF lim that] by (simp add: flow_function_ok_def body_ok_def function_within_limits_def)
  qed
  show single: "\<forall>f\<in>set (concat (map fm_functions (fp_modules p))). single_terminators f"
  proof
    fix f assume "f \<in> set (concat (map fm_functions (fp_modules p)))"
    then obtain mi fi where "mi < length (fp_modules p)" "fi < length (fm_functions (fp_modules p ! mi))" "f = fm_functions (fp_modules p ! mi) ! fi"
      by (auto simp: in_set_conv_nth)
    then have "(\<lparr>fk_module = mi, fk_function = fi\<rparr>, f, fm_source_file (fp_modules p ! mi)) \<in> set (program_functions p)"
      by (simp add: program_functions_mem key_in_def)
    then show "single_terminators f" using body body_single_terminators by blast
  qed
  have bodies: "body_ok (native_signatures (lowered_program p)) (lift_function g)" if "(key, g) \<in> set (native_functions (lowered_program p))" for key g
  proof -
    let ?f = "fm_functions (fp_modules p ! fk_module key) ! fk_function key"
    have k: "fk_module key < length (fp_modules p)" "fk_function key < length (fm_functions (fp_modules p ! fk_module key))" "g = lowered_function ?f"
      using that by (auto simp: native_functions_mem)
    then have "(key, ?f, fm_source_file (fp_modules p ! fk_module key)) \<in> set (program_functions p)"
      by (simp add: program_functions_mem key_in_def)
    from body [OF this] show ?thesis
      by (simp add: k(3) lift_lowered_function erase_body_ok native_signatures_lift lift_lowered_program erase_program_facts)
  qed
  show "native_ok (lowered_program p)"
    using lowered_within_limits [OF lim single ex abi] lowered_inventory [OF m] bodies assms
    by (auto simp: native_ok_def lift_lowered_program erase_program_facts flow_ok_def)
qed

lemma native_lower_refines:
  assumes "wf_source_map sources" "flow_verify p sources expected_entry = Some (Inr v)"
  shows "\<exists>w. native_lower v = Some (Inr w) \<and> lift_program (vnp_program w) = erase_program p \<and>
    vnp_abi w = vfp_abi v \<and> vnp_abi_indices w = vfp_abi_indices v"
proof -
  have v: "flow_ok p sources expected_entry" "vfp_program v = p" "verify_v1 (public_exports p) = Inr (vfp_abi v)"
    using flow_verify_total [OF assms(1), of p expected_entry] assms(2) by auto
  note ok = lowered_ok [OF v(1)] and rows = flow_verify_rows [OF assms(2)]
  have eq: "native_lower v = native_verify (lowered_program p)"
    using native_lower_lowered [of v] ok(2,3) rows v(2,3) by simp
  obtain r where r: "native_verify (lowered_program p) = Some r"
      "case r of Inl ds \<Rightarrow> False | Inr w \<Rightarrow> vnp_program w = lowered_program p \<and> vnp_abi_indices w = export_rows p \<and>
         verify_v1 (public_exports p) = Inr (vnp_abi w)"
    using native_verify_total [of "lowered_program p"] ok(1)
    by (auto simp: lift_lowered_program erase_program_facts cong: sum.case_cong)
  then show ?thesis using eq v(3) rows by (cases r) (auto simp: lift_lowered_program)
qed

section \<open>Executions\<close>

lemma erase_instructions: "run_instructions call (map erase_instruction is) env = run_instructions call is env"
  by (induction "is" arbitrary: env) (simp_all split: outcome.splits)

lemma erase_next_block: "next_block (erase_function f) t env = next_block f t env"
proof -
  have "transfer (erase_function f) target args env = transfer f target args env" for target args
    by (simp add: transfer_def get_at_def comp_def cong: if_cong)
  then show ?thesis by (cases t) (simp_all add: next_block_def split: option.split rvalue.split)
qed

lemma erase_callee: "callee_function (erase_program p) key = map_option erase_function (callee_function p key)"
  by (simp add: callee_function_def get_at_def)

lemma erase_entry_env: "entry_env (erase_function f) xs = entry_env f xs"
  by (simp add: entry_env_def comp_def)

lemma erase_exec: "exec n (erase_program p) stack (erase_function f) bi env = exec n p stack f bi env"
proof (induction n arbitrary: stack f bi env)
  case (Suc n)
  have call: "(case callee_function (erase_program p) k of None \<Rightarrow> Stuck
        | Some g \<Rightarrow> (case entry_env g xs of None \<Rightarrow> Stuck | Some env \<Rightarrow> exec n (erase_program p) s g 0 env)) =
      (case callee_function p k of None \<Rightarrow> Stuck
        | Some g \<Rightarrow> (case entry_env g xs of None \<Rightarrow> Stuck | Some env \<Rightarrow> exec n p s g 0 env))" for k xs s
    by (simp add: erase_callee erase_entry_env Suc.IH split: option.split)
  show ?case
  proof (cases "bi < length (ff_blocks f)")
    case True
    let ?ts = "bk_terminators (ff_blocks f ! bi)"
    consider "?ts = []" | t where "?ts = [t]" | t u ts where "?ts = t # u # ts" by (metis list.exhaust)
    then show ?thesis
      by cases (use True in \<open>simp_all add: call erase_instructions erase_next_block Suc.IH get_at_def cong: if_cong outcome.case_cong option.case_cong sum.case_cong prod.case_cong\<close>)
  qed (simp add: get_at_def)
qed simp

lemma erase_run: "run_function n (erase_program p) key xs = run_function n p key xs"
  by (simp add: run_function_def erase_callee erase_entry_env erase_exec split: option.split)

section \<open>Properties\<close>

text \<open>C40: lowering never fails on verified control-flow IR. The lowered program passes the native verifier, keeps the
  sealed scalar ABI and the index of every export, and read back as control-flow IR it is the program itself with
  its source positions forgotten: same identities, exports, types, operations, calls and branch targets. So
  every function of the lowered program computes what it computed, for every argument list and number of steps.\<close>

theorem native_lower_total:
  assumes "wf_source_map sources" "flow_verify p sources expected_entry = Some (Inr v)"
  shows "\<exists>w. native_lower v = Some (Inr w) \<and> lift_program (vnp_program w) = erase_program p \<and>
    vnp_abi w = vfp_abi v \<and> vnp_abi_indices w = vfp_abi_indices v \<and>
    (\<forall>n key xs. run_function n (lift_program (vnp_program w)) key xs = run_function n p key xs)"
  using native_lower_refines [OF assms] erase_run by metis

theorem native_lower_total_witness:
  "\<exists>v w. flow_verify sample_flow sample_map sample_entry = Some (Inr v) \<and> native_lower v = Some (Inr w) \<and>
     run_function 20 (lift_program (vnp_program w)) sample_key [RI32 4] = Finished (RI32 10)"
proof -
  obtain v where v: "flow_verify sample_flow sample_map sample_entry = Some (Inr v)" using sample_flow_verifies by blast
  then show ?thesis using native_lower_total [OF sample_wf v] sample_flow_runs by metis
qed

end
