(* ===== verification/Spec2Isabelle.thy ===== *)
theory Spec2Isabelle
  imports Source_Facts Package_Facts Native_Admission_Facts Layout_Facts Ownership_Trace_Facts Native_MIR_Facts Control_Flow_Safety
    Native_Flow_Lowering
begin

text \<open>
  Verification of the core crates of the Zryna compiler (\<open>src/crates\<close>).

  1. The program.

  Zryna compiles modules of source text to JavaScript, WebAssembly and native code. Text enters through a source map
  (\<open>zryna-source\<close>), which numbers the files and checks every byte span that later stages report; the native frontend
  (\<open>zryna-frontend\<close>) admits raw bytes into such a map and lexes it. A package resolver
  (\<open>zryna-package\<close>) loads manifests from a provider, authenticates their files and produces a dependency graph with a
  lock. Semantics lowers a program to one of the profiles of the Universal IR (\<open>zryna-ir\<close>); an independent verifier
  accepts or rejects it, the native MIR (\<open>zryna-native-mir\<close>) is lowered from accepted IR and verified again, and the
  exported functions are sealed in a scalar ABI (\<open>zryna-abi\<close>). Aggregate types get their layout from
  \<open>zryna-layout\<close>, and \<open>zryna-ownership-runtime-abi\<close> states what the runtime does to \<open>Vec\<close>, \<open>Shared\<close> and \<open>Weak\<close>
  values and checks traces of it. All stages report through \<open>zryna-diagnostics\<close>, and every verifier bounds its input
  and the number of its diagnostics. The development covers these crates; what it leaves out is listed in part 7.

  2. Conventions.

  A Rust \<open>usize\<close> is a natural number whose arithmetic is checked against \<open>2 ^ 64\<close> where the code checks or saturates;
  \<open>u32\<close>, \<open>u64\<close> and \<open>i32\<close> are words. A string is the list of its bytes, source text the list of its Unicode scalar values.
  A \<open>BTreeMap\<close> is an association list sorted by key. \<open>Inl\<close> is an error and \<open>Inr\<close> a value. \<open>None\<close> around a whole
  result is a panic or a loop that never returns, so that a theorem that yields \<open>Some\<close> shows both absent. Operations
  that the repository takes from elsewhere are parameters: SHA-256, the JSON codec and the derived serde codecs (the
  records \<open>wire_lib\<close> and \<open>report_codec\<close>), and the provider of packages, which threads its own state. What a theorem
  needs of them is a named hypothesis (\<open>coordinate_codec\<close>, \<open>lock_codec\<close>, \<open>hex_digests\<close>, \<open>report_codec_ok\<close>), and a witness
  instantiates them with functions that satisfy it. Nothing is assumed of SHA-256.

  3. The theories that model code.

  \<open>Zryna_Prelude\<close>: machine integers, checked arithmetic, sorted maps, ASCII bytes, decimal printing.
  \<open>Source_Map\<close>: \<open>zryna-source/src/lib.rs\<close> and \<open>span_validation.rs\<close>. Paths and imports, \<open>build\<close> with the global identity
  counter as explicit state, spans, line tables and UTF-16 ranges.
  \<open>Package\<close>: the modules of \<open>zryna-package/src\<close>. Wire records, validation, digests, the loading loop, selection, the graph
  walk, locks in the modes update and frozen, trust modes.
  \<open>Diagnostics\<close>: \<open>zryna-diagnostics/src/lib.rs\<close> and \<open>protocol_v2\<close>. Diagnostic values, their resolution and order, the
  document of protocol version 2 and its validator.
  \<open>Native_Lexer\<close>: \<open>zryna-frontend/src/native_lexer.rs\<close>, \<open>native_lexer/scanner.rs\<close> and \<open>admission.rs\<close>. The scanner on UTF-8
  bytes with its tokens, trivia and recovery, the limits of a file and of a project, UTF-8 validation and admission.
  \<open>Layout_Graph\<close> and \<open>Layout\<close>: \<open>zryna-layout/src/raw.rs\<close> and \<open>lib.rs\<close>. The raw graph and its checks with the collector
  that keeps the least diagnostics; canonical keys and identities, the by-value cycle check, layout on both targets,
  sealing, audit and lookup.
  \<open>Ownership\<close> and \<open>Ownership_Trace\<close>: \<open>zryna-ownership-runtime-abi/src\<close>. Statuses, growth, transitions and counters; the
  symbolic machine of controls, owners and intervals that replays a trace of operations and compares the exit.
  \<open>Abi\<close>: \<open>zryna-abi/src\<close>. Scalar values and carriers, \<open>verify_v1\<close>, the sealed module, invocations.
  \<open>Checks\<close>: the bounded collector \<open>Errors\<close> that four verifiers repeat, and the calculus of section 4.
  \<open>Universal_IR\<close>: \<open>zryna-ir/src/lib.rs\<close>, \<open>expression_order.rs\<close>, \<open>scalar_type.rs\<close>. The straight-line profile.
  \<open>Native_MIR\<close>: \<open>zryna-native-mir/src/lib.rs\<close>, \<open>raw.rs\<close>, \<open>symbols.rs\<close>. Its native form, verifier and lowering.
  \<open>Flow_Graph\<close> and \<open>Control_Flow\<close>: \<open>zryna-ir/src/control_flow_v1.rs\<close>. Reachability, dominators, natural loops and call
  depth; raw programs of blocks, parameters and calls, and their verifier \<open>flow_verify\<close>.
  \<open>Native_Flow\<close>: \<open>zryna-native-mir/src/control_flow_v1.rs\<close>. The native form, its verifier and the lowering \<open>native_lower\<close>;
  the graph routines of that file repeat those of the IR and are taken from \<open>Flow_Graph\<close>.

  A function of the source that is too long for one definition is split at its loops and early returns, and the parts
  are composed in its order; each definition has the name of its source function, with a prefix where crates share one.

  4. Interfaces.

  \<open>ordered_map\<close> (\<open>Zryna_Prelude\<close>) states what the clients use of a \<open>BTreeMap\<close> and is interpreted as \<open>bt\<close> on sorted
  association lists. \<open>checked_run\<close> is a machine whose successful steps keep an invariant; \<open>cleanup\<close> interprets it for the
  release of counters and \<open>trace\<close> for the replay of a control trace. \<open>collector\<close> (\<open>Checks\<close>) is what a verifier may
  assume of the \<open>push\<close> of its error list, interpreted as \<open>ir\<close>, \<open>mir\<close>, \<open>flow\<close> and \<open>native\<close> for the four verifiers. On it
  rests a calculus: \<open>checks f P\<close> says that a pass keeps the bound and leaves the collector clean exactly when \<open>P\<close>
  holds; \<open>limits\<close>, \<open>steps\<close> and \<open>yields\<close> do the same for passes that return early, may panic, or also return a value. The
  exactness of a verifier is put together from one such lemma per source function.

  5. What is proved.

  Source maps (\<open>Source_Facts\<close>): building does not depend on the order of inputs and gives back every text; ids
  of one map are rejected by another; spans and UTF-16 ranges are accepted exactly at character boundaries and
  resolve to the right lines and columns; imports stay inside the source root.
  Packages (\<open>Package_Facts\<close>): the graph check is exact, resolution ends, a resolved graph is sound, locks
  replay, frozen resolution reads exactly its lock, authentication compares the multiset of files. The property of
  this theory relates the two notions of portable path.
  Diagnostics (\<open>Diagnostics_Facts\<close>): rendered documents pass the validator.
  Lexer (\<open>Native_Lexer_Text\<close>, \<open>Native_Lexer_Facts\<close>, \<open>Native_Admission_Facts\<close>): UTF-8 decoding inverts encoding; the scanner on bytes computes
  exactly a reference lexer on scalar values, or a resource error over a limit; spans tile the text and every lexeme is
  spelled as its kind; admission accepts exactly the admissible inputs and keeps their bytes.
  Layout (\<open>Layout_Encoding_Facts\<close>, \<open>Layout_Compute_Facts\<close>, \<open>Layout_Cycle_Facts\<close>, \<open>Layout_Facts\<close>): verification
  ends without a panic; an accepted snapshot refines the mathematical layout of the graph; fields are aligned,
  ordered and disjoint; the by-value check is exact; the audit accepts exactly the encoding; lookups are closed; the
  collector reports the least diagnostics in any order of discovery.
  Ownership (\<open>Ownership_Facts\<close>, \<open>Ownership_Payload_Facts\<close>, \<open>Ownership_Trace_Facts\<close>): counts are exact and
  intervals disjoint in every reachable state, a trace with an empty exit has released everything, replay never
  panics, growth is exact, and a sequence of releases fails exactly when it lacks debt or live blocks.
  Scalar ABI and straight-line IR (\<open>Abi_Facts\<close>, \<open>Universal_IR_Facts\<close>): the ABI verifier, the host boundary and invocations are exact, and
  the IR verifier accepts exactly the well-typed programs whose bodies are postorder arenas.
  Control flow (\<open>Flow_Graph_Facts\<close>, \<open>Control_Flow_Facts\<close>, \<open>Control_Flow_Exact\<close>, \<open>Control_Flow_Safety\<close>): the
  computed tree decides dominance exactly; the verifier is exact against a specification by walks, cycles and chains
  of calls; an accepted program never gets stuck and respects the call depth.
  Native MIR (\<open>Native_MIR_Facts\<close>): the verifier is exact, and lowering always succeeds and preserves the
  value of every function. Native control flow (\<open>Native_Flow_Facts\<close>, \<open>Native_Flow_Lowering\<close>): the same
  for programs with blocks, loops and calls.

  6. Loops and fuel.

  Structural loops are primitive recursion. Loops whose end needs an invariant of the data are partial functions into
  \<open>option\<close>, and a theorem shows that they return: \<open>load_loop\<close> (at most 16 distinct sources), \<open>key_bytes\<close> and
  \<open>trace_back\<close> (acyclic references), \<open>reserve_loop\<close> (doubling below \<open>2 ^ 64\<close>), \<open>payload_drops\<close> (finite forests of
  handles), \<open>scan_loop\<close> (every lexeme is nonempty), \<open>climb\<close>, \<open>intersect\<close> and \<open>intervals_loop\<close> (trees of dominators ordered by position). Worklists of the layout
  and flow graphs are \<open>function\<close>s with a measure. The rounds of the dominator iteration are bounded in the source by
  the number of blocks, and \<open>dominators_exact\<close> shows that this bound is enough. The reference execution of \<open>Control_Flow_Safety\<close> takes a
  number of steps; safety holds for every number, since a loop of the program itself need not end, and lowering compares runs
  at every number.

  7. Not modelled.

  \<open>zryna-ir/src/data_ownership_v1.rs\<close> (the ownership profile of the IR: aggregates, places and borrows over the
  control-flow profile) and the module \<open>generic_v1\<close> of \<open>zryna-layout\<close>; in \<open>zryna-ownership-runtime-abi\<close> the comparison of
  contract tables with the declarations of the three targets; in \<open>zryna-diagnostics\<close> the text for humans; read-only views
  and serde adapters, which carry no logic. The parser, the workers of the frontend, the syntax trees and the semantics (type
  and ownership checking) are not modelled: they are several times as large as everything here, and the theorems
  above start from the IR that they emit, which the verifiers do not trust. The three backends print text or bytes
  from accepted IR; the driver, the process and file system crates, the command line, the language server and the
  playground are input and output around the parts above; \<open>zryna-architecture\<close> checks repository policy.
\<close>

lemma portable_byte_ascii:
  assumes "is_ascii_lowercase c \<or> is_ascii_digit c \<or> c \<in> {CHR ''/'', CHR ''.'', CHR ''_'', CHR ''-''}"
  shows "byte_of c < 128" "\<not> is_ascii_control c" "\<not> windows_reserved c" "c \<noteq> CHR 0x5C" "c \<noteq> CHR '' ''"
    "ascii_lower c = c"
proof -
  have b: "32 < byte_of c" "byte_of c < 127" "\<not> (65 \<le> byte_of c \<and> byte_of c \<le> 90)"
    "byte_of c \<notin> {60, 62, 58, 34, 124, 63, 42, 92, 32}"
    using assms by (auto simp: is_ascii_lowercase_def is_ascii_digit_def) (auto simp: byte_of_def)
  show "byte_of c < 128" using b by simp
  show "\<not> is_ascii_control c" using b by (auto simp: is_ascii_control_def)
  show "\<not> windows_reserved c" using b unfolding windows_reserved_def by (auto simp: byte_of_def)
  show "c \<noteq> CHR 0x5C" "c \<noteq> CHR '' ''" using b by (auto simp: byte_of_def)
  show "ascii_lower c = c" using b by (auto simp: ascii_lower_def is_ascii_uppercase_def)
qed

lemma reserved_device_portable:
  assumes "\<forall>c\<in>set s. ascii_lower c = c" and "reserved_device s"
  shows "hd (split_on CHR ''.'' s) \<in> {''con'', ''prn'', ''aux'', ''nul''} \<or>
     device_suffix ''com'' (hd (split_on CHR ''.'' s)) \<or> device_suffix ''lpt'' (hd (split_on CHR ''.'' s))"
proof -
  have "\<forall>c\<in>set (hd (split_on CHR ''.'' s)). ascii_lower c = c"
    using assms(1) split_on_subset [of "hd (split_on CHR ''.'' s)" "CHR ''.''" s] by auto
  then have "to_ascii_lowercase (hd (split_on CHR ''.'' s)) = hd (split_on CHR ''.'' s)"
    by (simp add: to_ascii_lowercase_def map_idI)
  moreover have "d \<in> {''1'', ''2'', ''3'', ''4'', ''5'', ''6'', ''7'', ''8'', ''9''} \<Longrightarrow>
      length d = 1 \<and> is_ascii_digit (d ! 0)" for d
    by (auto simp: is_ascii_digit_def byte_of_def)
  ultimately show ?thesis
    using assms(2) unfolding reserved_device_def device_suffix_def
    by (auto simp: Let_def split: option.splits if_splits)
qed

lemma portable_path_source_path_iff:
  assumes "portable_path v = Inr ()"
  shows "validate_source_path v = Inr () \<longleftrightarrow>
     length (split_on CHR ''/'' v) \<le> MAX_SOURCE_PATH_COMPONENTS"
proof -
  note p = portable_path_Inr [OF assms] and b = portable_byte_ascii
  have "is_ascii v" using p(3) b(1) by (auto simp: is_ascii_def list_all_iff byte_of_def)
  moreover have "\<not> starts_with ''/'' v" "\<not> starts_with ''//'' v" "CHR 0x5C \<notin> set v"
  proof -
    have "hd v \<noteq> CHR ''/''" using p(4) by (auto simp: is_ascii_lowercase_def is_ascii_digit_def byte_of_def)
    then show "\<not> starts_with ''/'' v" "\<not> starts_with ''//'' v"
      using p(1) by (cases v; auto simp: starts_with_def)+
    show "CHR 0x5C \<notin> set v" using p(3) b(4) by blast
  qed
  moreover have "validate_component v s = Inr ()" if s: "s \<in> set (split_on CHR ''/'' v)" for s
  proof -
    have seg: "portable_segment s = Inr ()" using p(5) s by blast
    note g = portable_segment_Inr [OF seg]
    have sub: "set s \<subseteq> set v" using split_on_subset [OF s] .
    have chars: "\<forall>c\<in>set s. is_ascii_lowercase c \<or> is_ascii_digit c \<or> c \<in> {CHR ''/'', CHR ''.'', CHR ''_'', CHR ''-''}"
      using p(3) sub by blast
    have "s \<noteq> []" using g by simp
    then have "last s \<in> set s" by simp
    moreover have "last s \<noteq> CHR ''.''"
    proof
      assume "last s = CHR ''.''"
      then have "s = butlast s @ ''.''" using \<open>s \<noteq> []\<close> by (metis append_butlast_last_id)
      then have "ends_with ''.'' s" by (metis append_eq_conv_conj diff_add_inverse2 ends_with_def le_add2 length_append)
      then show False using g by blast
    qed
    ultimately have last: "last s \<notin> {CHR ''.'', CHR '' ''}" using chars b(5) by auto
    have len: "length s \<le> 255" using p(2) s length_split_on_le [OF s] by simp
    have "\<not> reserved_device s" using reserved_device_portable [of s] chars b(6) g by blast
    moreover have "\<not> list_ex is_ascii_control s" "\<not> list_ex windows_reserved s"
      using chars b(2,3) by (auto simp: list_ex_iff)
    ultimately show ?thesis using g last len by (simp add: validate_component_def)
  qed
  ultimately show ?thesis
    using p(1,2) by (auto simp: validate_source_path_iff MAX_SOURCE_PATH_BYTES_def)
qed

text \<open>C13: package paths and source paths agree: a path the package manifest accepts is a valid
  workspace source path exactly when it has at most 32 components; every other rule of the source
  map (ASCII, separators, dots, control and reserved characters, device names, lengths) is implied
  by the package rules.\<close>

theorem portable_path_is_source_path:
  assumes "portable_path v = Inr ()"
  shows "validate_source_path v = Inr () \<longleftrightarrow>
     length (split_on CHR ''/'' v) \<le> MAX_SOURCE_PATH_COMPONENTS"
  by (rule portable_path_source_path_iff [OF assms])

theorem portable_path_is_source_path_witness: "validate_source_path ''src/com10/main.zry'' = Inr ()"
proof -
  have "portable_path ''src/com10/main.zry'' = Inr ()" by code_simp
  from portable_path_is_source_path [OF this] show ?thesis by (simp add: MAX_SOURCE_PATH_COMPONENTS_def)
qed
end
